(* ===== verification/Prelude.thy ===== *)
theory Prelude
  imports Main
begin

text \<open>
  Shared vocabulary of the development: the types every component uses for text, the
  collections of simplification rules the components extend, and generic lemmas on lists.

  A Rust \<open>char\<close> is a Unicode scalar value and is represented by its code point
  (\<open>uchar\<close>); a \<open>String\<close>, \<open>&str\<close> or \<open>Tendril\<close> is the list of its characters (\<open>str\<close>).
  \<open>lit\<close> turns an ASCII literal of the source into such a list.  A \<open>usize\<close> that counts
  characters, lines or list positions is a \<open>nat\<close>; where the code subtracts, the models
  test for underflow and return \<open>None\<close>, the panic of a build with overflow checks.
\<close>

named_theorems edit_simps \<open>how builder operations change the meaning of a change list\<close>
named_theorems sel_simps \<open>elementary facts about ranges\<close>
named_theorems fold_simps \<open>elementary facts about code folds\<close>

type_synonym uchar = nat
type_synonym str = "uchar list"

definition lit :: "string \<Rightarrow> str" where
  "lit s = map of_char s"

abbreviation uc :: "char \<Rightarrow> uchar" where
  "uc c \<equiv> of_char c"

text \<open>Checked subtraction: \<open>None\<close> where Rust's \<open>-\<close> on an unsigned type would underflow.\<close>

definition checked_sub :: "nat \<Rightarrow> nat \<Rightarrow> nat option" where
  "checked_sub a b = (if b \<le> a then Some (a - b) else None)"

lemma checked_sub_Some [simp]: "checked_sub a b = Some c \<longleftrightarrow> b \<le> a \<and> c = a - b"
  by (auto simp: checked_sub_def)

lemma checked_sub_le [simp]: "b \<le> a \<Longrightarrow> checked_sub a b = Some (a - b)"
  by (simp add: checked_sub_def)

text \<open>A \<open>u64\<close> or a \<open>usize\<close> that must not overflow.\<close>

definition checked_u64 :: "nat \<Rightarrow> nat option" where
  "checked_u64 n = (if n < 2 ^ 64 then Some n else None)"

text \<open>\<open>str::trim\<close>, where \<open>space\<close> is \<open>char::is_whitespace\<close>.\<close>

definition trim :: "(uchar \<Rightarrow> bool) \<Rightarrow> str \<Rightarrow> str" where
  "trim space s = rev (dropWhile space (rev (dropWhile space s)))"

section \<open>Lists\<close>

lemma drop_take_append: "n \<le> length xs \<Longrightarrow> take n xs @ drop n xs = xs"
  by simp

lemma take_add_drop: "take (m + n) xs = take m xs @ take n (drop m xs)"
  by (simp add: take_add)

lemma nth_set_take: "i < n \<Longrightarrow> i < length xs \<Longrightarrow> xs ! i \<in> set (take n xs)"
  by (metis in_set_conv_nth length_take min_less_iff_conj nth_take)

lemma sorted_key_Cons:
  "sorted (map f (x # xs)) \<longleftrightarrow> (\<forall>y\<in>set xs. f x \<le> f y) \<and> sorted (map f xs)"
  by simp

text \<open>The position of the first element with a property, Rust's \<open>Iterator::position\<close>.\<close>

fun position :: "('a \<Rightarrow> bool) \<Rightarrow> 'a list \<Rightarrow> nat option" where
  "position p [] = None"
| "position p (x # xs) = (if p x then Some 0 else map_option Suc (position p xs))"

lemma position_Some:
  "position p xs = Some i \<Longrightarrow> i < length xs \<and> p (xs ! i) \<and> (\<forall>j<i. \<not> p (xs ! j))"
proof (induction xs arbitrary: i)
  case Nil
  then show ?case by simp
next
  case (Cons x xs)
  then show ?case
    by (cases i) (auto split: if_splits simp: less_Suc_eq_0_disj)
qed

lemma position_None: "position p xs = None \<longleftrightarrow> (\<forall>x\<in>set xs. \<not> p x)"
  by (induction xs) auto

lemma position_ex: "x \<in> set xs \<Longrightarrow> p x \<Longrightarrow> \<exists>i. position p xs = Some i"
  by (metis not_Some_eq position_None)

lemma enumerate_map: "List.enumerate 0 xs = map (\<lambda>k. (k, xs ! k)) [0..<length xs]"
  by (rule nth_equalityI) (auto simp: nth_enumerate_eq)

text \<open>All results of a list of calls that may fail, or the failure.\<close>

lemma those_append:
  "those (xs @ ys) = Option.bind (those xs) (\<lambda>as. map_option ((@) as) (those ys))"
proof (induction xs)
  case (Cons x xs)
  then show ?case
    by (cases x; cases "those xs"; cases "those ys") simp_all
qed (cases "those ys"; simp)

lemma those_map_Some: "(\<And>x. x \<in> set xs \<Longrightarrow> f x = Some (g x)) \<Longrightarrow> those (map f xs) = Some (map g xs)"
  by (induction xs) auto

lemma those_all_Some: "(\<forall>x\<in>set xs. f x \<noteq> None) \<Longrightarrow> \<exists>ys. those (map f xs) = Some ys"
  by (induction xs) auto

lemma those_None: "None \<in> set xs \<Longrightarrow> those xs = None"
  by (induction xs) (auto split: option.splits)

text \<open>A number in decimal notation, as \<open>Display\<close> prints it.\<close>

fun decimal :: "nat \<Rightarrow> str" where
  "decimal n = (if n < 10 then [48 + n] else decimal (n div 10) @ [48 + n mod 10])"

declare decimal.simps [simp del]

lemma decimal_digits: "c \<in> set (decimal n) \<Longrightarrow> 48 \<le> c \<and> c \<le> 57"
proof (induction n rule: decimal.induct)
  case (1 n)
  then show ?case by (subst (asm) (2) decimal.simps) (auto split: if_splits)
qed

end
