(* ===== verification/Rope.thy ===== *)
theory Rope
  imports Prelude
begin

text \<open>
  The text buffer.  zmax stores a document in a \<open>ropey::Rope\<close>, a third-party crate; the
  operations the editing core calls on it are therefore an argument (\<open>rope_api\<close>) of every
  definition that touches a document, and \<open>rope_laws\<close> states what the crate documents about
  them relative to the buffer's contents: indices are \<open>char\<close> indices, and an index out of
  bounds panics (here \<open>None\<close>; the laws only describe calls that are in bounds).
  \<open>list_rope\<close> is the buffer that is its own list of characters, used to evaluate witnesses.
\<close>

record 'r rope_api =
  rope_len_chars :: "'r \<Rightarrow> nat"
  rope_slice :: "'r \<Rightarrow> nat \<Rightarrow> nat \<Rightarrow> str option"
  rope_remove :: "'r \<Rightarrow> nat \<Rightarrow> nat \<Rightarrow> 'r option"
  rope_insert :: "'r \<Rightarrow> nat \<Rightarrow> str \<Rightarrow> 'r option"

definition rope_laws :: "'r rope_api \<Rightarrow> ('r \<Rightarrow> str) \<Rightarrow> bool" where
  "rope_laws R contents \<longleftrightarrow>
     (\<forall>r. rope_len_chars R r = length (contents r)) \<and>
     (\<forall>r i j. i \<le> j \<longrightarrow> j \<le> length (contents r) \<longrightarrow>
        rope_slice R r i j = Some (take (j - i) (drop i (contents r)))) \<and>
     (\<forall>r i j. i \<le> j \<longrightarrow> j \<le> length (contents r) \<longrightarrow>
        (\<exists>r'. rope_remove R r i j = Some r' \<and>
              contents r' = take i (contents r) @ drop j (contents r))) \<and>
     (\<forall>r i s. i \<le> length (contents r) \<longrightarrow>
        (\<exists>r'. rope_insert R r i s = Some r' \<and>
              contents r' = take i (contents r) @ s @ drop i (contents r)))"

lemma rope_len: "rope_laws R contents \<Longrightarrow> rope_len_chars R r = length (contents r)"
  by (simp add: rope_laws_def)

lemma rope_slice_Some:
  "rope_laws R contents \<Longrightarrow> i \<le> j \<Longrightarrow> j \<le> length (contents r) \<Longrightarrow>
     rope_slice R r i j = Some (take (j - i) (drop i (contents r)))"
  by (simp add: rope_laws_def)

lemma rope_remove_Some:
  assumes "rope_laws R contents" "i \<le> j" "j \<le> length (contents r)"
  obtains r' where "rope_remove R r i j = Some r'"
    and "contents r' = take i (contents r) @ drop j (contents r)"
  using assms unfolding rope_laws_def by blast

lemma rope_insert_Some:
  assumes "rope_laws R contents" "i \<le> length (contents r)"
  obtains r' where "rope_insert R r i s = Some r'"
    and "contents r' = take i (contents r) @ s @ drop i (contents r)"
  using assms unfolding rope_laws_def by blast

definition list_rope :: "str rope_api" where
  "list_rope = \<lparr>rope_len_chars = length,
     rope_slice = (\<lambda>r i j. if i \<le> j \<and> j \<le> length r then Some (take (j - i) (drop i r)) else None),
     rope_remove = (\<lambda>r i j. if i \<le> j \<and> j \<le> length r then Some (take i r @ drop j r) else None),
     rope_insert = (\<lambda>r i s. if i \<le> length r then Some (take i r @ s @ drop i r) else None)\<rparr>"

lemma list_rope_laws: "rope_laws list_rope (\<lambda>r. r)"
  by (simp add: rope_laws_def list_rope_def)

end
