(* ===== verification/ChangeSet.thy ===== *)
theory ChangeSet
  imports Rope
begin

text \<open>
  \<open>zmax-core/src/transaction.rs\<close>: the operations of a change and the \<open>ChangeSet\<close> built from
  them, with its builder (\<open>delete\<close>, \<open>insert\<close>, \<open>retain\<close>), \<open>apply\<close>, \<open>invert\<close>, \<open>compose\<close>,
  \<open>is_empty\<close> and \<open>from_changes\<close>.  The meaning of an operation list is \<open>run\<close>: the text it
  produces from the text it is applied to.  The lemmas show that the builder keeps a list in
  canonical form and that each operation of the code computes what \<open>run\<close> says.

  The model is of a build with assertions and overflow checks: a failing \<open>assert!\<close> or
  \<open>debug_assert!\<close>, an unsigned underflow or an out-of-bounds slice is the value \<open>None\<close>.
\<close>

section \<open>Data\<close>

datatype operation = Retain nat | Delete nat | Insert str

fun op_len_chars :: "operation \<Rightarrow> nat" where
  "op_len_chars (Retain n) = n"
| "op_len_chars (Delete n) = n"
| "op_len_chars (Insert s) = length s"

record change_set =
  cs_changes :: "operation list"
  cs_len :: nat
  cs_len_after :: nat

definition cs_with_capacity :: "change_set" where
  "cs_with_capacity = \<lparr>cs_changes = [], cs_len = 0, cs_len_after = 0\<rparr>"

definition cs_new :: "'r rope_api \<Rightarrow> 'r \<Rightarrow> change_set" where
  "cs_new R doc = (let len = rope_len_chars R doc
                   in \<lparr>cs_changes = [], cs_len = len, cs_len_after = len\<rparr>)"

section \<open>The builder\<close>

definition push_delete :: "nat \<Rightarrow> operation list \<Rightarrow> operation list" where
  "push_delete n ops =
     (case rev ops of
        Delete count # pre \<Rightarrow> rev pre @ [Delete (count + n)]
      | _ \<Rightarrow> ops @ [Delete n])"

definition push_insert :: "str \<Rightarrow> operation list \<Rightarrow> operation list" where
  "push_insert s ops =
     (case rev ops of
        Insert prev # pre \<Rightarrow> rev pre @ [Insert (prev @ s)]
      | Delete d # Insert prev # pre \<Rightarrow> rev pre @ [Insert (prev @ s), Delete d]
      | Delete d # pre \<Rightarrow> rev pre @ [Insert s, Delete d]
      | _ \<Rightarrow> ops @ [Insert s])"

definition push_retain :: "nat \<Rightarrow> operation list \<Rightarrow> operation list" where
  "push_retain n ops =
     (case rev ops of
        Retain count # pre \<Rightarrow> rev pre @ [Retain (count + n)]
      | _ \<Rightarrow> ops @ [Retain n])"

definition cs_delete :: "nat \<Rightarrow> change_set \<Rightarrow> change_set" where
  "cs_delete n cs =
     (if n = 0 then cs
      else cs\<lparr>cs_len := cs_len cs + n, cs_changes := push_delete n (cs_changes cs)\<rparr>)"

definition cs_insert :: "str \<Rightarrow> change_set \<Rightarrow> change_set" where
  "cs_insert fragment cs =
     (if fragment = [] then cs
      else cs\<lparr>cs_len_after := cs_len_after cs + length fragment,
              cs_changes := push_insert fragment (cs_changes cs)\<rparr>)"

definition cs_retain :: "nat \<Rightarrow> change_set \<Rightarrow> change_set" where
  "cs_retain n cs =
     (if n = 0 then cs
      else cs\<lparr>cs_len := cs_len cs + n, cs_len_after := cs_len_after cs + n,
              cs_changes := push_retain n (cs_changes cs)\<rparr>)"

section \<open>Meaning of an operation list\<close>

text \<open>
  \<open>consumed\<close> characters of the old text are read, \<open>edit ops xs\<close> is written in their place, and
  whatever lies beyond is kept.
\<close>

fun consumed :: "operation list \<Rightarrow> nat" where
  "consumed [] = 0"
| "consumed (Retain n # ops) = n + consumed ops"
| "consumed (Delete n # ops) = n + consumed ops"
| "consumed (Insert s # ops) = consumed ops"

fun produced :: "operation list \<Rightarrow> nat" where
  "produced [] = 0"
| "produced (Retain n # ops) = n + produced ops"
| "produced (Delete n # ops) = produced ops"
| "produced (Insert s # ops) = length s + produced ops"

fun edit :: "operation list \<Rightarrow> str \<Rightarrow> str" where
  "edit [] xs = []"
| "edit (Retain n # ops) xs = take n xs @ edit ops (drop n xs)"
| "edit (Delete n # ops) xs = edit ops (drop n xs)"
| "edit (Insert s # ops) xs = s @ edit ops xs"

definition run :: "operation list \<Rightarrow> str \<Rightarrow> str" where
  "run ops xs = edit ops xs @ drop (consumed ops) xs"

text \<open>
  A change set is exact when its operations read exactly \<open>len\<close> characters and write exactly
  \<open>len_after\<close>.
\<close>

definition cs_exact :: "change_set \<Rightarrow> bool" where
  "cs_exact cs \<longleftrightarrow> consumed (cs_changes cs) = cs_len cs \<and> produced (cs_changes cs) = cs_len_after cs"

text \<open>
  Canonical lists: no empty operation, no two neighbours of the same kind, and a replacement
  always written as \<open>Insert\<close> before \<open>Delete\<close>.  \<open>update_positions\<close> and \<open>ChangeIterator\<close> rely
  on the last point ("a subsequent delete means a replace").  Every change set in use is
  canonical and exact, or has no operation and keeps a text of the length it names (\<open>cs_ok\<close>).
\<close>

fun op_nonempty :: "operation \<Rightarrow> bool" where
  "op_nonempty (Retain n) \<longleftrightarrow> 0 < n"
| "op_nonempty (Delete n) \<longleftrightarrow> 0 < n"
| "op_nonempty (Insert s) \<longleftrightarrow> s \<noteq> []"

fun may_follow :: "operation \<Rightarrow> operation \<Rightarrow> bool" where
  "may_follow (Retain _) (Retain _) = False"
| "may_follow (Delete _) (Delete _) = False"
| "may_follow (Delete _) (Insert _) = False"
| "may_follow (Insert _) (Insert _) = False"
| "may_follow _ _ = True"

fun canonical :: "operation list \<Rightarrow> bool" where
  "canonical [] = True"
| "canonical [a] = op_nonempty a"
| "canonical (a # b # ops) \<longleftrightarrow> op_nonempty a \<and> may_follow a b \<and> canonical (b # ops)"

definition cs_ok :: "change_set \<Rightarrow> bool" where
  "cs_ok cs \<longleftrightarrow> canonical (cs_changes cs) \<and>
     ((cs_changes cs = [] \<and> cs_len cs = cs_len_after cs) \<or> cs_exact cs)"

section \<open>The builder keeps meaning and canonical form\<close>

lemma consumed_append [simp]: "consumed (a @ b) = consumed a + consumed b"
  by (induction a rule: consumed.induct) auto

lemma produced_append [simp]: "produced (a @ b) = produced a + produced b"
  by (induction a rule: produced.induct) auto

lemma edit_append: "edit (a @ b) xs = edit a xs @ edit b (drop (consumed a) xs)"
  by (induction a xs rule: edit.induct) (auto simp: add.commute)

lemma length_edit: "consumed ops \<le> length xs \<Longrightarrow> length (edit ops xs) = produced ops"
  by (induction ops xs rule: edit.induct) auto

lemma length_run: "consumed ops \<le> length xs \<Longrightarrow>
    length (run ops xs) = produced ops + (length xs - consumed ops)"
  by (simp add: run_def length_edit)

lemma canonical_append:
  "canonical (a @ b) \<longleftrightarrow> canonical a \<and> canonical b \<and>
     (a \<noteq> [] \<longrightarrow> b \<noteq> [] \<longrightarrow> may_follow (last a) (hd b))"
proof (induction a rule: canonical.induct)
  case (2 x)
  then show ?case by (cases b) auto
qed auto

text \<open>Splitting an operation list at its end, the way the builder looks at it.\<close>

lemma rev_eq_ConsD: "rev ops = x # pre \<Longrightarrow> ops = rev pre @ [x]"
  by (metis rev.simps(2) rev_swap)

lemma push_delete_cases:
  obtains (merge) pre d where "ops = pre @ [Delete d]" and "push_delete n ops = pre @ [Delete (d + n)]"
  | (push) "push_delete n ops = ops @ [Delete n]" and "\<And>d. ops \<noteq> [] \<Longrightarrow> last ops \<noteq> Delete d"
proof (cases "rev ops")
  case Nil
  then show ?thesis using push by (simp add: push_delete_def)
next
  case (Cons x pre)
  then have ops: "ops = rev pre @ [x]" by (rule rev_eq_ConsD)
  show ?thesis
    by (cases x) (use Cons ops merge push in \<open>auto simp: push_delete_def\<close>)
qed

lemma push_retain_cases:
  obtains (merge) pre d where "ops = pre @ [Retain d]" and "push_retain n ops = pre @ [Retain (d + n)]"
  | (push) "push_retain n ops = ops @ [Retain n]" and "\<And>d. ops \<noteq> [] \<Longrightarrow> last ops \<noteq> Retain d"
proof (cases "rev ops")
  case Nil
  then show ?thesis using push by (simp add: push_retain_def)
next
  case (Cons x pre)
  then have ops: "ops = rev pre @ [x]" by (rule rev_eq_ConsD)
  show ?thesis
    by (cases x) (use Cons ops merge push in \<open>auto simp: push_retain_def\<close>)
qed

lemma push_insert_cases:
  obtains (merge) pre p where "ops = pre @ [Insert p]" and "push_insert s ops = pre @ [Insert (p @ s)]"
  | (merge_replace) pre p d where "ops = pre @ [Insert p, Delete d]"
      and "push_insert s ops = pre @ [Insert (p @ s), Delete d]"
  | (before_delete) pre d where "ops = pre @ [Delete d]" and "push_insert s ops = pre @ [Insert s, Delete d]"
      and "\<And>p. pre \<noteq> [] \<Longrightarrow> last pre \<noteq> Insert p"
  | (push) "push_insert s ops = ops @ [Insert s]"
      and "\<And>d. ops \<noteq> [] \<Longrightarrow> last ops \<noteq> Delete d" and "\<And>p. ops \<noteq> [] \<Longrightarrow> last ops \<noteq> Insert p"
proof (cases "rev ops")
  case Nil
  then show ?thesis using push by (simp add: push_insert_def)
next
  case (Cons x pre)
  then have ops: "ops = rev pre @ [x]" by (rule rev_eq_ConsD)
  show ?thesis
  proof (cases x)
    case (Delete d)
    show ?thesis
    proof (cases pre)
      case Nil
      then show ?thesis using before_delete [of "[]" d] ops Cons Delete
        by (simp add: push_insert_def)
    next
      case (Cons y pre')
      then show ?thesis
        using before_delete [of "rev pre" d] merge_replace [of "rev pre'" _ d] ops \<open>rev ops = x # pre\<close> Delete
        by (cases y) (auto simp: push_insert_def)
    qed
  qed (use Cons ops merge push in \<open>auto simp: push_insert_def\<close>)
qed

lemma consumed_push [simp]:
  "consumed (push_delete n ops) = consumed ops + n"
  "consumed (push_retain n ops) = consumed ops + n"
  "consumed (push_insert s ops) = consumed ops"
  subgoal by (rule push_delete_cases [of ops n]) simp_all
  subgoal by (rule push_retain_cases [of ops n]) simp_all
  subgoal by (rule push_insert_cases [of ops s]) simp_all
  done

lemma produced_push [simp]:
  "produced (push_delete n ops) = produced ops"
  "produced (push_retain n ops) = produced ops + n"
  "produced (push_insert s ops) = produced ops + length s"
  subgoal by (rule push_delete_cases [of ops n]) simp_all
  subgoal by (rule push_retain_cases [of ops n]) simp_all
  subgoal by (rule push_insert_cases [of ops s]) simp_all
  done

lemma edit_push [edit_simps]:
  "edit (push_delete n ops) xs = edit ops xs"
  "edit (push_retain n ops) xs = edit ops xs @ take n (drop (consumed ops) xs)"
  "edit (push_insert s ops) xs = edit ops xs @ s"
proof -
  show "edit (push_delete n ops) xs = edit ops xs"
    by (rule push_delete_cases [of ops n]) (simp_all add: edit_append)
  show "edit (push_retain n ops) xs = edit ops xs @ take n (drop (consumed ops) xs)"
    by (rule push_retain_cases [of ops n]) (simp_all add: edit_append take_add add.commute)
  show "edit (push_insert s ops) xs = edit ops xs @ s"
    by (rule push_insert_cases [of ops s]) (simp_all add: edit_append)
qed

lemma may_follow_right:
  "may_follow a (Delete m) \<longleftrightarrow> (\<forall>n. a \<noteq> Delete n)"
  "may_follow a (Retain m) \<longleftrightarrow> (\<forall>n. a \<noteq> Retain n)"
  "may_follow a (Insert s) \<longleftrightarrow> (\<forall>n. a \<noteq> Delete n) \<and> (\<forall>t. a \<noteq> Insert t)"
  by (cases a; simp)+

lemma canonical_push:
  assumes "canonical ops"
  shows "0 < n \<Longrightarrow> canonical (push_delete n ops)"
    and "0 < n \<Longrightarrow> canonical (push_retain n ops)"
    and "s \<noteq> [] \<Longrightarrow> canonical (push_insert s ops)"
proof -
  show "canonical (push_delete n ops)" if "0 < n"
    by (rule push_delete_cases [of ops n]; cases "last ops")
       (use assms that in \<open>auto simp: canonical_append may_follow_right\<close>)
  show "canonical (push_retain n ops)" if "0 < n"
    by (rule push_retain_cases [of ops n]; cases "last ops")
       (use assms that in \<open>auto simp: canonical_append may_follow_right\<close>)
  show "canonical (push_insert s ops)" if "s \<noteq> []"
    by (rule push_insert_cases [of ops s]; cases "last ops")
       (use assms that in \<open>auto simp: canonical_append may_follow_right\<close>)
qed

section \<open>The builder on change sets\<close>

lemma cs_build_consumed [simp]:
  "consumed (cs_changes (cs_delete n cs)) = consumed (cs_changes cs) + n"
  "consumed (cs_changes (cs_retain n cs)) = consumed (cs_changes cs) + n"
  "consumed (cs_changes (cs_insert s cs)) = consumed (cs_changes cs)"
  by (simp_all add: cs_delete_def cs_retain_def cs_insert_def)

lemma cs_build_produced [simp]:
  "produced (cs_changes (cs_delete n cs)) = produced (cs_changes cs)"
  "produced (cs_changes (cs_retain n cs)) = produced (cs_changes cs) + n"
  "produced (cs_changes (cs_insert s cs)) = produced (cs_changes cs) + length s"
  by (simp_all add: cs_delete_def cs_retain_def cs_insert_def)

lemma cs_build_len [simp]:
  "cs_len (cs_delete n cs) = cs_len cs + n"
  "cs_len (cs_retain n cs) = cs_len cs + n"
  "cs_len (cs_insert s cs) = cs_len cs"
  "cs_len_after (cs_delete n cs) = cs_len_after cs"
  "cs_len_after (cs_retain n cs) = cs_len_after cs + n"
  "cs_len_after (cs_insert s cs) = cs_len_after cs + length s"
  by (simp_all add: cs_delete_def cs_retain_def cs_insert_def)

lemma cs_build_edit [simp]:
  "edit (cs_changes (cs_delete n cs)) xs = edit (cs_changes cs) xs"
  "edit (cs_changes (cs_retain n cs)) xs =
     edit (cs_changes cs) xs @ take n (drop (consumed (cs_changes cs)) xs)"
  "edit (cs_changes (cs_insert s cs)) xs = edit (cs_changes cs) xs @ s"
  by (simp_all add: cs_delete_def cs_retain_def cs_insert_def edit_simps)

lemma cs_build_canonical [simp]:
  assumes "canonical (cs_changes cs)"
  shows "canonical (cs_changes (cs_delete n cs))"
    and "canonical (cs_changes (cs_retain n cs))"
    and "canonical (cs_changes (cs_insert s cs))"
  using assms
  by (simp_all add: cs_delete_def cs_retain_def cs_insert_def canonical_push)

lemma cs_exact_build [simp]:
  assumes "cs_exact cs"
  shows "cs_exact (cs_delete n cs)" "cs_exact (cs_retain n cs)" "cs_exact (cs_insert s cs)"
  using assms by (simp_all add: cs_exact_def)

lemma cs_exact_empty [simp]: "cs_exact cs_with_capacity"
  by (simp add: cs_exact_def cs_with_capacity_def)

lemma cs_ok_exact: "cs_exact cs \<Longrightarrow> canonical (cs_changes cs) \<Longrightarrow> cs_ok cs"
  by (simp add: cs_ok_def)

lemma canonical_nonempty: "canonical ops \<Longrightarrow> list_all op_nonempty ops"
  by (induction ops rule: canonical.induct) auto

lemma cs_ok_new [simp]: "cs_ok (cs_new R doc)"
  by (simp add: cs_ok_def cs_new_def Let_def)

lemma cs_ok_lens:
  assumes "cs_ok cs" "length xs = cs_len cs"
  shows "consumed (cs_changes cs) \<le> length xs"
    and "length (run (cs_changes cs) xs) = cs_len_after cs"
  using assms by (auto simp: cs_ok_def cs_exact_def length_run)

section \<open>apply\<close>

fun apply_ops :: "'r rope_api \<Rightarrow> nat \<Rightarrow> operation list \<Rightarrow> 'r \<Rightarrow> 'r option" where
  "apply_ops R pos [] text = Some text"
| "apply_ops R pos (Retain n # ops) text = apply_ops R (pos + n) ops text"
| "apply_ops R pos (Delete n # ops) text =
     Option.bind (rope_remove R text pos (pos + n)) (apply_ops R pos ops)"
| "apply_ops R pos (Insert s # ops) text =
     Option.bind (rope_insert R text pos s) (apply_ops R (pos + length s) ops)"

text \<open>The result pairs the buffer with the returned flag: \<open>False\<close> when the lengths differ.\<close>

definition cs_apply :: "'r rope_api \<Rightarrow> change_set \<Rightarrow> 'r \<Rightarrow> ('r \<times> bool) option" where
  "cs_apply R cs text =
     (if rope_len_chars R text \<noteq> cs_len cs then Some (text, False)
      else map_option (\<lambda>t. (t, True)) (apply_ops R 0 (cs_changes cs) text))"

lemma apply_ops_correct:
  assumes laws: "rope_laws R contents"
  shows "contents r0 = ys @ xs \<Longrightarrow> pos = length ys \<Longrightarrow> consumed ops \<le> length xs \<Longrightarrow>
    \<exists>t. apply_ops R pos ops r0 = Some t \<and> contents t = ys @ run ops xs"
proof (induction ops xs arbitrary: ys pos r0 rule: edit.induct)
  case (1 xs)
  then show ?case by (simp add: run_def)
next
  case (2 n ops xs)
  have "consumed ops \<le> length (drop n xs)" using "2.prems" by simp
  with "2.IH" [of r0 "ys @ take n xs" "pos + n"] "2.prems"
  obtain t where "apply_ops R (pos + n) ops r0 = Some t"
    "contents t = (ys @ take n xs) @ run ops (drop n xs)" by auto
  then show ?case by (simp add: run_def add.commute)
next
  case (3 n ops xs)
  obtain r where r: "rope_remove R r0 pos (pos + n) = Some r"
    and c: "contents r = take pos (contents r0) @ drop (pos + n) (contents r0)"
    using rope_remove_Some [OF laws, of pos "pos + n" r0] "3.prems" by auto
  have "consumed ops \<le> length (drop n xs)" using "3.prems" by simp
  with "3.IH" [of r ys pos] "3.prems" c obtain t where
    "apply_ops R pos ops r = Some t" "contents t = ys @ run ops (drop n xs)" by auto
  with r show ?case by (simp add: run_def add.commute)
next
  case (4 s ops xs)
  obtain r where r: "rope_insert R r0 pos s = Some r"
    and c: "contents r = take pos (contents r0) @ s @ drop pos (contents r0)"
    using rope_insert_Some [OF laws, of pos r0] "4.prems" by auto
  from "4.IH" [of r "ys @ s" "pos + length s"] "4.prems" c obtain t where
    "apply_ops R (pos + length s) ops r = Some t" "contents t = (ys @ s) @ run ops xs" by auto
  with r show ?case by (simp add: run_def)
qed

lemma cs_apply_run:
  assumes "rope_laws R contents" "cs_ok cs" "length (contents r0) = cs_len cs"
  obtains t where "cs_apply R cs r0 = Some (t, True)"
    and "contents t = run (cs_changes cs) (contents r0)"
proof -
  have "consumed (cs_changes cs) \<le> length (contents r0)"
    by (rule cs_ok_lens(1) [OF assms(2,3)])
  with apply_ops_correct [OF assms(1), of r0 "[]" "contents r0" 0 "cs_changes cs"] that
  show ?thesis using assms by (auto simp: cs_apply_def rope_len)
qed

section \<open>invert\<close>

fun invert_ops :: "'r rope_api \<Rightarrow> 'r \<Rightarrow> nat \<Rightarrow> operation list \<Rightarrow> change_set \<Rightarrow> change_set option" where
  "invert_ops R doc pos [] cs = Some cs"
| "invert_ops R doc pos (Retain n # ops) cs = invert_ops R doc (pos + n) ops (cs_retain n cs)"
| "invert_ops R doc pos (Delete n # ops) cs =
     Option.bind (rope_slice R doc pos (pos + n))
       (\<lambda>text. invert_ops R doc (pos + n) ops (cs_insert text cs))"
| "invert_ops R doc pos (Insert s # ops) cs = invert_ops R doc pos ops (cs_delete (length s) cs)"

definition cs_invert :: "'r rope_api \<Rightarrow> change_set \<Rightarrow> 'r \<Rightarrow> change_set option" where
  "cs_invert R cs original_doc =
     (if rope_len_chars R original_doc \<noteq> cs_len cs then None
      else invert_ops R original_doc 0 (cs_changes cs) cs_with_capacity)"

text \<open>
  The list the loop builds reads what \<open>ops\<close> writes and writes back what \<open>ops\<close> reads: from
  \<open>zs\<close> already handled it goes on to the rest of the edited text.
\<close>

lemma invert_ops_correct:
  assumes laws: "rope_laws R contents"
  shows "drop pos (contents doc) = xs \<Longrightarrow> pos \<le> length (contents doc) \<Longrightarrow>
    consumed ops \<le> length xs \<Longrightarrow> cs_exact cs \<Longrightarrow>
    canonical (cs_changes cs) \<Longrightarrow> drop (cs_len cs) ys = run ops xs \<Longrightarrow>
    \<exists>cs'. invert_ops R doc pos ops cs = Some cs' \<and> cs_exact cs' \<and> canonical (cs_changes cs') \<and>
      cs_len cs' = cs_len cs + produced ops \<and> cs_len_after cs' = cs_len_after cs + consumed ops \<and>
      edit (cs_changes cs') ys = edit (cs_changes cs) ys @ take (consumed ops) xs"
proof (induction ops xs arbitrary: pos cs rule: edit.induct)
  case (1 xs)
  then show ?case by simp
next
  case (2 n ops xs)
  have d: "drop (cs_len cs) ys = take n xs @ run ops (drop n xs)"
    using "2.prems" by (simp add: run_def add.commute)
  have n: "n \<le> length xs" using "2.prems" by simp
  then have pn: "pos + n \<le> length (contents doc)" using "2.prems"(1,2) by auto
  have "drop (cs_len (cs_retain n cs)) ys = drop n (drop (cs_len cs) ys)"
    by (simp add: add.commute)
  also have "\<dots> = run ops (drop n xs)" using d n by simp
  finally have ys: "drop (cs_len (cs_retain n cs)) ys = run ops (drop n xs)" .
  have pos: "drop (pos + n) (contents doc) = drop n xs"
    using "2.prems"(1) by (simp flip: drop_drop add: add.commute)
  have tk: "take n (drop (cs_len cs) ys) = take n xs" using d n by simp
  have le: "consumed ops \<le> length (drop n xs)" using "2.prems" by simp
  from "2.IH" [OF pos pn le _ _ ys] "2.prems" n obtain cs' where
    "invert_ops R doc (pos + n) ops (cs_retain n cs) = Some cs'" "cs_exact cs'"
    "canonical (cs_changes cs')" "cs_len cs' = cs_len cs + n + produced ops"
    "cs_len_after cs' = cs_len_after cs + n + consumed ops"
    "edit (cs_changes cs') ys = edit (cs_changes (cs_retain n cs)) ys @ take (consumed ops) (drop n xs)"
    by auto
  moreover have "consumed (cs_changes cs) = cs_len cs" using "2.prems" by (simp add: cs_exact_def)
  ultimately show ?case using tk by (auto simp: take_add)
next
  case (3 n ops xs)
  have n: "n \<le> length xs" using "3.prems" by simp
  then have pn: "pos + n \<le> length (contents doc)" using "3.prems"(1,2) by auto
  have "take n (drop pos (contents doc)) = take n xs" using "3.prems"(1) by simp
  then have sl: "rope_slice R doc pos (pos + n) = Some (take n xs)"
    using rope_slice_Some [OF laws, of pos "pos + n" doc] pn by simp
  have pos: "drop (pos + n) (contents doc) = drop n xs"
    using "3.prems"(1) by (simp flip: drop_drop add: add.commute)
  have ys: "drop (cs_len (cs_insert (take n xs) cs)) ys = run ops (drop n xs)"
    using "3.prems" by (simp add: run_def add.commute)
  have le: "consumed ops \<le> length (drop n xs)" using "3.prems" by simp
  from "3.IH" [OF pos pn le _ _ ys] "3.prems" n sl show ?case
    by (auto simp: take_add)
next
  case (4 s ops xs)
  have "drop (cs_len cs) ys = s @ run ops xs" using "4.prems" by (simp add: run_def)
  moreover have "drop (cs_len (cs_delete (length s) cs)) ys = drop (length s) (drop (cs_len cs) ys)"
    by (simp add: add.commute)
  ultimately have ys: "drop (cs_len (cs_delete (length s) cs)) ys = run ops xs" by simp
  from "4.IH" [OF "4.prems"(1) _ _ _ _ ys] "4.prems" show ?case by (auto simp: add.assoc)
qed

lemma cs_invert_ok:
  assumes laws: "rope_laws R contents" and ok: "cs_ok cs" and len: "length (contents doc) = cs_len cs"
  obtains inv where "cs_invert R cs doc = Some inv" and "cs_exact inv" and "canonical (cs_changes inv)"
    and "cs_changes cs \<noteq> [] \<Longrightarrow> cs_len inv = cs_len_after cs \<and> cs_len_after inv = cs_len cs"
    and "run (cs_changes inv) (run (cs_changes cs) (contents doc)) = contents doc"
proof -
  let ?ops = "cs_changes cs" and ?xs = "contents doc"
  have le: "consumed ?ops \<le> length ?xs" by (rule cs_ok_lens(1) [OF ok len])
  from invert_ops_correct [OF laws, of 0 doc ?xs ?ops cs_with_capacity "run ?ops ?xs"] le
  obtain inv where inv: "invert_ops R doc 0 ?ops cs_with_capacity = Some inv" "cs_exact inv"
    "canonical (cs_changes inv)" "cs_len inv = produced ?ops" "cs_len_after inv = consumed ?ops"
    "edit (cs_changes inv) (run ?ops ?xs) = take (consumed ?ops) ?xs"
    by (auto simp: cs_with_capacity_def cs_exact_def)
  then have "cs_invert R cs doc = Some inv"
    using len by (simp add: cs_invert_def rope_len [OF laws])
  moreover have "run (cs_changes inv) (run ?ops ?xs) = ?xs"
  proof -
    have "consumed (cs_changes inv) = length (edit ?ops ?xs)"
      using inv(2,4) le by (simp add: cs_exact_def length_edit)
    then have "drop (consumed (cs_changes inv)) (run ?ops ?xs) = drop (consumed ?ops) ?xs"
      by (simp add: run_def)
    then show ?thesis using inv(6) by (simp add: run_def [of "cs_changes inv"])
  qed
  ultimately show ?thesis
    using that inv ok by (auto simp: cs_ok_def cs_exact_def)
qed

section \<open>is_empty\<close>

definition cs_is_empty :: "change_set \<Rightarrow> bool" where
  "cs_is_empty cs \<longleftrightarrow> cs_changes cs = [] \<or> cs_changes cs = [Retain (cs_len cs)]"

lemma cs_is_empty_run: "cs_is_empty cs \<Longrightarrow> run (cs_changes cs) xs = xs"
  by (auto simp: cs_is_empty_def run_def)

section \<open>Properties\<close>

text \<open>
  C1: Undoing an edit.  Applying a change set to a document of its length succeeds, and the
  inverse computed from the document before the edit, applied to the document after it, succeeds
  and restores the text.
\<close>

theorem apply_then_invert:
  assumes "rope_laws R contents" "cs_ok cs" "cs_changes cs \<noteq> []" "length (contents doc) = cs_len cs"
  shows "\<exists>edited inv restored.
    cs_apply R cs doc = Some (edited, True) \<and> cs_invert R cs doc = Some inv \<and>
    cs_apply R inv edited = Some (restored, True) \<and> contents restored = contents doc"
proof -
  obtain edited where ed: "cs_apply R cs doc = Some (edited, True)"
    "contents edited = run (cs_changes cs) (contents doc)"
    by (rule cs_apply_run [OF assms(1,2,4)])
  obtain inv where inv: "cs_invert R cs doc = Some inv" "cs_exact inv" "canonical (cs_changes inv)"
    "cs_len inv = cs_len_after cs" "run (cs_changes inv) (contents edited) = contents doc"
    by (rule cs_invert_ok [OF assms(1,2,4)]) (use assms(3) ed in auto)
  have "length (contents edited) = cs_len inv"
    using cs_ok_lens(2) [OF assms(2,4)] ed inv by simp
  then show ?thesis
    using ed inv cs_apply_run [OF assms(1) cs_ok_exact [OF inv(2,3)]] by metis
qed

definition sample_edit :: change_set where
  "sample_edit = \<lparr>cs_changes = [Retain 1, Insert [7, 8], Delete 2, Retain 1], cs_len = 4, cs_len_after = 4\<rparr>"

lemma sample_edit_ok: "cs_ok sample_edit" "cs_changes sample_edit \<noteq> []"
  by (simp_all add: sample_edit_def cs_ok_def cs_exact_def)

theorem apply_then_invert_witness:
  "\<exists>edited inv restored.
    cs_apply list_rope sample_edit [1, 2, 3, 4] = Some (edited, True) \<and>
    cs_invert list_rope sample_edit [1, 2, 3, 4] = Some inv \<and>
    cs_apply list_rope inv edited = Some (restored, True) \<and> restored = [1, 2, 3, 4]"
  by (rule apply_then_invert [OF list_rope_laws sample_edit_ok]) (simp add: sample_edit_def)

text \<open>
  The builder.  Whatever sequence of \<open>retain\<close>, \<open>delete\<close> and \<open>insert\<close> calls builds a change set,
  its list is canonical, its two lengths are the characters it reads and writes, and it means the
  calls in the order they were made.
\<close>

theorem builder_calls:
  "let cs = fold (\<lambda>op. case op of Retain n \<Rightarrow> cs_retain n | Delete n \<Rightarrow> cs_delete n | Insert s \<Rightarrow> cs_insert s)
              calls cs_with_capacity
   in canonical (cs_changes cs) \<and> cs_exact cs \<and> edit (cs_changes cs) xs = edit calls xs"
proof -
  let ?push = "\<lambda>op. case op of Retain n \<Rightarrow> cs_retain n | Delete n \<Rightarrow> cs_delete n | Insert s \<Rightarrow> cs_insert s"
  have "canonical (cs_changes cs) \<Longrightarrow> cs_exact cs \<Longrightarrow>
      canonical (cs_changes (fold ?push calls cs)) \<and> cs_exact (fold ?push calls cs) \<and>
      edit (cs_changes (fold ?push calls cs)) xs = edit (cs_changes cs @ calls) xs" for cs
  proof (induction calls arbitrary: cs)
    case (Cons op calls)
    have "edit (cs_changes (?push op cs) @ calls) xs = edit (cs_changes cs @ op # calls) xs"
      using Cons.prems by (cases op) (simp_all add: edit_append edit_simps cs_exact_def add.commute)
    then show ?case using Cons.IH [of "?push op cs"] Cons.prems by (cases op) simp_all
  qed simp
  from this [of cs_with_capacity] show ?thesis by (simp add: cs_with_capacity_def cs_exact_def Let_def)
qed

end
