(* ===== verification/Changes.thy ===== *)
theory Changes
  imports ChangeSet
begin

text \<open>
  \<open>zmax-core/src/transaction.rs\<close>, from a list of changes to a change set and back:
  \<open>ChangeSet::from_changes\<close>, \<open>from_change\<close>, \<open>ChangeIterator\<close>, and the builders of
  \<open>Transaction\<close> that tolerate overlapping input, \<open>delete\<close> (overlaps are merged) and
  \<open>change_ignore_overlapping\<close> (overlaps are dropped).  \<open>splice\<close> says what text a list of changes
  asks for; \<open>from_changes\<close> is shown to produce it exactly when the changes are ordered and in
  bounds, and to panic otherwise.
\<close>

text \<open>(from, to, replacement) and (from, to)\<close>

type_synonym change = "nat \<times> nat \<times> str option"
type_synonym deletion = "nat \<times> nat"

fun from_changes_loop ::
    "change list \<Rightarrow> nat \<Rightarrow> change_set \<Rightarrow> (change_set \<times> nat) option" where
  "from_changes_loop [] lst changeset = Some (changeset, lst)"
| "from_changes_loop ((f, t, tendril) # changes) lst changeset =
     (if \<not> lst \<le> f then None
      else if \<not> f \<le> t then None
      else
        let changeset = cs_retain (f - lst) changeset;
            span = t - f;
            changeset = (case tendril of
                           Some r \<Rightarrow> cs_delete span (cs_insert r changeset)
                         | None \<Rightarrow> cs_delete span changeset)
        in from_changes_loop changes t changeset)"

definition from_changes :: "'r rope_api \<Rightarrow> 'r \<Rightarrow> change list \<Rightarrow> change_set option" where
  "from_changes R doc changes =
     (let len = rope_len_chars R doc
      in Option.bind (from_changes_loop changes 0 cs_with_capacity)
           (\<lambda>(changeset, lst). map_option (\<lambda>n. cs_retain n changeset) (checked_sub len lst)))"

definition from_change :: "'r rope_api \<Rightarrow> 'r \<Rightarrow> change \<Rightarrow> change_set option" where
  "from_change R doc change = from_changes R doc [change]"

fun changes_iter :: "nat \<Rightarrow> operation list \<Rightarrow> change list" where
  "changes_iter pos [] = []"
| "changes_iter pos (Retain len # ops) = changes_iter (pos + len) ops"
| "changes_iter pos (Delete len # ops) = (pos, pos + len, None) # changes_iter (pos + len) ops"
| "changes_iter pos (Insert s # Delete len # ops) =
     (pos, pos + len, Some s) # changes_iter (pos + len) ops"
| "changes_iter pos (Insert s # ops) = (pos, pos, Some s) # changes_iter pos ops"

fun delete_loop :: "deletion list \<Rightarrow> nat \<Rightarrow> change_set \<Rightarrow> (change_set \<times> nat) option" where
  "delete_loop [] lst changeset = Some (changeset, lst)"
| "delete_loop ((f, t) # deletions) lst changeset =
     (if t < lst then delete_loop deletions lst changeset
      else
        let f = (if f < lst then lst else f)
        in if \<not> f \<le> t then None
           else delete_loop deletions t (cs_delete (t - f) (cs_retain (f - lst) changeset)))"

definition delete_changes :: "'r rope_api \<Rightarrow> 'r \<Rightarrow> deletion list \<Rightarrow> change_set option" where
  "delete_changes R doc deletions =
     (let len = rope_len_chars R doc
      in Option.bind (delete_loop deletions 0 cs_with_capacity)
           (\<lambda>(changeset, lst). map_option (\<lambda>n. cs_retain n changeset) (checked_sub len lst)))"

text \<open>
  The \<open>filter_map\<close> of \<open>change_ignore_overlapping\<close>.  The data the iterator carries and the
  callback's own state are a state of type \<open>'s\<close> threaded through the calls, which happen for
  the kept ranges only, in order.
\<close>

fun ignore_overlapping ::
    "('s \<Rightarrow> nat \<Rightarrow> nat \<Rightarrow> 'd \<Rightarrow> str option \<times> 's) \<Rightarrow> nat \<Rightarrow> (nat \<times> nat \<times> 'd) list \<Rightarrow> 's \<Rightarrow> change list \<times> 's"
where
  "ignore_overlapping process_change lst [] s = ([], s)"
| "ignore_overlapping process_change lst ((f, t, data) # rs) s =
     (if f < lst then ignore_overlapping process_change lst rs s
      else
        let (tendril, s') = process_change s f t data;
            (cs, s'') = ignore_overlapping process_change t rs s'
        in ((f, t, tendril) # cs, s''))"

definition change_ignore_overlapping ::
    "'r rope_api \<Rightarrow> 'r \<Rightarrow> (nat \<times> nat \<times> 'd) list \<Rightarrow>
     ('s \<Rightarrow> nat \<Rightarrow> nat \<Rightarrow> 'd \<Rightarrow> str option \<times> 's) \<Rightarrow> 's \<Rightarrow> change_set option \<times> 's" where
  "change_ignore_overlapping R doc change_ranges process_change s =
     (let (cs, s') = ignore_overlapping process_change 0 change_ranges s
      in (from_changes R doc cs, s'))"

section \<open>Specification\<close>

fun splice :: "change list \<Rightarrow> nat \<Rightarrow> str \<Rightarrow> str" where
  "splice [] lst xs = drop lst xs"
| "splice ((f, t, r) # cs) lst xs =
     take (f - lst) (drop lst xs) @ (case r of Some s \<Rightarrow> s | None \<Rightarrow> []) @ splice cs t xs"

fun changes_fit :: "nat \<Rightarrow> change list \<Rightarrow> nat \<Rightarrow> bool" where
  "changes_fit lst [] len \<longleftrightarrow> lst \<le> len"
| "changes_fit lst ((f, t, r) # cs) len \<longleftrightarrow> lst \<le> f \<and> f \<le> t \<and> changes_fit t cs len"

lemma changes_fit_le: "changes_fit lst cs len \<Longrightarrow> lst \<le> len"
  by (induction lst cs len rule: changes_fit.induct) auto

section \<open>from_changes\<close>

lemma from_changes_loop_correct:
  "changes_fit lst cs (length xs) \<Longrightarrow> cs_exact acc \<Longrightarrow> canonical (cs_changes acc) \<Longrightarrow>
   cs_len acc = lst \<Longrightarrow>
   \<exists>acc' lst'. from_changes_loop cs lst acc = Some (acc', lst') \<and> cs_exact acc' \<and>
     canonical (cs_changes acc') \<and> cs_len acc' = lst' \<and> lst' \<le> length xs \<and>
     edit (cs_changes acc') xs @ drop lst' xs = edit (cs_changes acc) xs @ splice cs lst xs"
proof (induction cs lst acc rule: from_changes_loop.induct)
  case (1 lst acc)
  then show ?case by auto
next
  case (2 f t r cs lst acc)
  let ?acc1 = "cs_retain (f - lst) acc"
  let ?acc = "case r of Some s \<Rightarrow> cs_delete (t - f) (cs_insert s ?acc1) | None \<Rightarrow> cs_delete (t - f) ?acc1"
  have fit: "lst \<le> f" "f \<le> t" "changes_fit t cs (length xs)" using "2.prems" by simp_all
  have ex: "consumed (cs_changes acc) = lst" using "2.prems" by (simp add: cs_exact_def)
  have acc: "cs_exact ?acc" "canonical (cs_changes ?acc)" "cs_len ?acc = t"
    using "2.prems" fit by (simp_all split: option.split)
  have ed: "edit (cs_changes ?acc) xs = edit (cs_changes acc) xs @ take (f - lst) (drop lst xs) @
      (case r of Some s \<Rightarrow> s | None \<Rightarrow> [])"
    using ex by (simp split: option.split)
  have step: "from_changes_loop ((f, t, r) # cs) lst acc = from_changes_loop cs t ?acc"
    using fit by (simp add: Let_def)
  from "2.IH" [OF _ _ refl refl refl, of] fit acc
  have "\<exists>acc' lst'. from_changes_loop cs t ?acc = Some (acc', lst') \<and> cs_exact acc' \<and>
      canonical (cs_changes acc') \<and> cs_len acc' = lst' \<and> lst' \<le> length xs \<and>
      edit (cs_changes acc') xs @ drop lst' xs = edit (cs_changes ?acc) xs @ splice cs t xs"
    by simp
  then show ?case unfolding step ed by simp
qed

lemma from_changes_loop_Some:
  "from_changes_loop cs lst acc = Some (acc', lst') \<Longrightarrow> lst' \<le> len \<Longrightarrow> changes_fit lst cs len"
  by (induction cs lst acc rule: from_changes_loop.induct) (auto split: if_splits simp: Let_def)

lemma from_changes_ok:
  assumes laws: "rope_laws R contents"
    and fit: "changes_fit 0 changes (length (contents doc))"
  shows "\<exists>cs. from_changes R doc changes = Some cs \<and> cs_exact cs \<and> canonical (cs_changes cs) \<and>
    cs_len cs = length (contents doc) \<and>
    run (cs_changes cs) (contents doc) = splice changes 0 (contents doc)"
proof -
  let ?xs = "contents doc"
  from from_changes_loop_correct [OF fit, of cs_with_capacity]
  obtain acc lst where loop: "from_changes_loop changes 0 cs_with_capacity = Some (acc, lst)"
    and acc: "cs_exact acc" "canonical (cs_changes acc)" "cs_len acc = lst" "lst \<le> length ?xs"
    and ed: "edit (cs_changes acc) ?xs @ drop lst ?xs = splice changes 0 ?xs"
    by (auto simp: cs_with_capacity_def cs_exact_def)
  let ?cs = "cs_retain (length ?xs - lst) acc"
  have "from_changes R doc changes = Some ?cs"
    using loop acc by (simp add: from_changes_def rope_len [OF laws])
  moreover have "run (cs_changes ?cs) ?xs = splice changes 0 ?xs"
    using acc ed by (simp add: run_def cs_exact_def)
  ultimately show ?thesis using acc by (intro exI [of _ ?cs]) simp
qed

lemma from_changes_Some_iff:
  assumes laws: "rope_laws R contents"
  shows "(\<exists>cs. from_changes R doc changes = Some cs) \<longleftrightarrow> changes_fit 0 changes (length (contents doc))"
proof
  assume "\<exists>cs. from_changes R doc changes = Some cs"
  then show "changes_fit 0 changes (length (contents doc))"
    by (auto simp: from_changes_def rope_len [OF laws] bind_eq_Some_conv
        intro: from_changes_loop_Some)
next
  assume "changes_fit 0 changes (length (contents doc))"
  with from_changes_ok [OF laws] show "\<exists>cs. from_changes R doc changes = Some cs" by blast
qed

section \<open>Round trip: a change set is its own list of changes\<close>

fun push_op :: "operation \<Rightarrow> change_set \<Rightarrow> change_set" where
  "push_op (Retain n) cs = cs_retain n cs"
| "push_op (Delete n) cs = cs_delete n cs"
| "push_op (Insert s) cs = cs_insert s cs"

lemma cs_retain_retain: "cs_retain n (cs_retain m cs) = cs_retain (m + n) cs"
  by (cases "cs_changes cs" rule: rev_cases; cases "last (cs_changes cs)")
     (auto simp: cs_retain_def push_retain_def add.assoc)

lemma from_changes_loop_iter:
  "lst \<le> pos \<Longrightarrow>
   \<exists>acc' lst'. from_changes_loop (changes_iter pos ops) lst acc = Some (acc', lst') \<and>
     lst' \<le> pos + consumed ops \<and>
     cs_retain (pos + consumed ops - lst') acc' = fold push_op ops (cs_retain (pos - lst) acc)"
proof (induction pos ops arbitrary: lst acc rule: changes_iter.induct [case_names 1 2 3 4 51 52 53])
  case (2 pos len ops)
  then show ?case
    using "2.IH" [of lst acc] by (simp add: cs_retain_retain add.assoc)
next
  case (3 pos len ops)
  let ?acc = "cs_delete len (cs_retain (pos - lst) acc)"
  from "3.IH" [of "pos + len" ?acc] "3.prems" show ?case
    by (simp add: add.assoc cs_retain_def [of 0])
next
  case (4 pos s len ops)
  let ?acc = "cs_delete len (cs_insert s (cs_retain (pos - lst) acc))"
  from "4.IH" [of "pos + len" ?acc] "4.prems" show ?case
    by (simp add: add.assoc cs_retain_def [of 0])
next
  case (51 pos s)
  then show ?case by (simp add: cs_retain_def [of 0] cs_delete_def [of 0])
next
  case (52 pos s n ops)
  let ?acc = "cs_insert s (cs_retain (pos - lst) acc)"
  from "52.IH" [of pos ?acc] "52.prems" show ?case
    by (simp add: cs_retain_def [of 0] cs_delete_def [of 0])
next
  case (53 pos s t ops)
  let ?acc = "cs_insert s (cs_retain (pos - lst) acc)"
  from "53.IH" [of pos ?acc] "53.prems" show ?case
    by (simp add: cs_retain_def [of 0] cs_delete_def [of 0])
qed auto

lemma push_op_canonical:
  assumes "canonical (cs_changes cs @ op # ops)"
  shows "cs_changes (push_op op cs) = cs_changes cs @ [op]"
proof -
  have "op_nonempty op" and "cs_changes cs \<noteq> [] \<Longrightarrow> may_follow (last (cs_changes cs)) op"
    using assms by (cases ops; simp add: canonical_append)+
  then show ?thesis
    by (cases op; cases "cs_changes cs" rule: rev_cases; cases "last (cs_changes cs)")
       (auto simp: cs_retain_def cs_delete_def cs_insert_def push_retain_def push_delete_def
          push_insert_def)
qed

lemma fold_push_op_canonical:
  "canonical (cs_changes cs @ ops) \<Longrightarrow> cs_changes (fold push_op ops cs) = cs_changes cs @ ops"
proof (induction ops arbitrary: cs)
  case (Cons op ops)
  then have "cs_changes (push_op op cs) = cs_changes cs @ [op]" by (rule_tac push_op_canonical)
  with Cons show ?case by simp
qed simp

lemma cs_exact_fold_push_op: "cs_exact cs \<Longrightarrow> cs_exact (fold push_op ops cs)"
proof (induction ops arbitrary: cs)
  case (Cons op ops)
  then have "cs_exact (push_op op cs)" by (cases op) simp_all
  with Cons.IH show ?case by simp
qed simp

lemma from_changes_iter:
  assumes laws: "rope_laws R contents"
    and cs: "cs_exact cs" "canonical (cs_changes cs)" and len: "length (contents doc) = cs_len cs"
  shows "from_changes R doc (changes_iter 0 (cs_changes cs)) = Some cs"
proof -
  let ?ops = "cs_changes cs" and ?e = cs_with_capacity
  have c: "consumed ?ops = cs_len cs" using cs by (simp add: cs_exact_def)
  obtain acc lst where loop: "from_changes_loop (changes_iter 0 ?ops) 0 ?e = Some (acc, lst)"
    and le: "lst \<le> cs_len cs" and eq: "cs_retain (cs_len cs - lst) acc = fold push_op ?ops ?e"
    using from_changes_loop_iter [of 0 0 ?ops ?e] c by (auto simp: cs_retain_def [of 0])
  have "cs_changes (fold push_op ?ops ?e) = ?ops"
    using fold_push_op_canonical [of ?e ?ops] cs by (simp add: cs_with_capacity_def)
  moreover have "cs_exact (fold push_op ?ops ?e)" by (intro cs_exact_fold_push_op) simp
  ultimately have "fold push_op ?ops ?e = cs" using cs by (simp add: cs_exact_def)
  then show ?thesis using loop le eq len by (simp add: from_changes_def rope_len [OF laws])
qed

section \<open>Merged deletions\<close>

definition kept :: "deletion list \<Rightarrow> nat \<Rightarrow> str \<Rightarrow> str" where
  "kept ds lst xs =
     map ((!) xs) (filter (\<lambda>i. \<forall>(f, t)\<in>set ds. \<not> (f \<le> i \<and> i < t)) [lst..<length xs])"

lemma map_nth_upt: "a \<le> b \<Longrightarrow> b \<le> length xs \<Longrightarrow> map ((!) xs) [a..<b] = take (b - a) (drop a xs)"
  by (intro nth_equalityI) auto

lemma kept_Nil: "lst \<le> length xs \<Longrightarrow> kept [] lst xs = drop lst xs"
  by (simp add: kept_def map_nth_upt)

lemma kept_skip: "t < lst \<Longrightarrow> kept ((f, t) # ds) lst xs = kept ds lst xs"
  by (auto simp: kept_def intro!: arg_cong [where f = "map _"] filter_cong)

lemma kept_Cons:
  assumes "lst \<le> g" "g \<le> t" "t \<le> length xs" "g = (if f < lst then lst else f)"
    and "\<forall>(f', t')\<in>set ds. f \<le> f'"
  shows "kept ((f, t) # ds) lst xs = take (g - lst) (drop lst xs) @ kept ds t xs"
proof -
  let ?P = "\<lambda>i. \<forall>(f, t)\<in>set ((f, t) # ds). \<not> (f \<le> i \<and> i < t)"
  have "[lst..<length xs] = [lst..<g] @ [g..<t] @ [t..<length xs]"
    using assms by (metis le_trans upt_add_eq_append le_add_diff_inverse)
  moreover have "filter ?P [lst..<g] = [lst..<g]" using assms by (auto simp: filter_id_conv)
  moreover have "filter ?P [g..<t] = []" using assms by (auto simp: filter_empty_conv)
  moreover have "filter ?P [t..<length xs] =
      filter (\<lambda>i. \<forall>(f, t)\<in>set ds. \<not> (f \<le> i \<and> i < t)) [t..<length xs]"
    by (intro filter_cong) auto
  ultimately show ?thesis
    using assms by (simp add: kept_def map_nth_upt)
qed

lemma delete_loop_correct:
  "sorted (map fst ds) \<Longrightarrow> \<forall>(f, t)\<in>set ds. f \<le> t \<and> t \<le> length xs \<Longrightarrow> lst \<le> length xs \<Longrightarrow>
   cs_exact acc \<Longrightarrow> canonical (cs_changes acc) \<Longrightarrow> cs_len acc = lst \<Longrightarrow>
   \<exists>acc' lst'. delete_loop ds lst acc = Some (acc', lst') \<and> cs_exact acc' \<and>
     canonical (cs_changes acc') \<and> cs_len acc' = lst' \<and> lst' \<le> length xs \<and>
     edit (cs_changes acc') xs @ drop lst' xs = edit (cs_changes acc) xs @ kept ds lst xs"
proof (induction ds lst acc rule: delete_loop.induct)
  case (1 lst acc)
  then show ?case by (auto simp: kept_Nil)
next
  case (2 f t ds lst acc)
  have rest: "sorted (map fst ds)" "\<forall>(f, t)\<in>set ds. f \<le> t \<and> t \<le> length xs"
    "\<forall>(f', t')\<in>set ds. f \<le> f'" "f \<le> t" "t \<le> length xs"
    using "2.prems" by auto
  show ?case
  proof (cases "t < lst")
    case True
    with "2.IH"(1) [OF True rest(1,2)] "2.prems" show ?thesis by (simp add: kept_skip)
  next
    case False
    define g where "g = (if f < lst then lst else f)"
    let ?acc = "cs_delete (t - g) (cs_retain (g - lst) acc)"
    have g: "lst \<le> g" "g \<le> t" using False rest by (auto simp: g_def)
    have c: "consumed (cs_changes acc) = lst" using "2.prems" by (simp add: cs_exact_def)
    have step: "delete_loop ((f, t) # ds) lst acc = delete_loop ds t ?acc"
      using False g by (simp add: g_def Let_def)
    have "\<exists>acc' lst'. delete_loop ds t ?acc = Some (acc', lst') \<and> cs_exact acc' \<and>
        canonical (cs_changes acc') \<and> cs_len acc' = lst' \<and> lst' \<le> length xs \<and>
        edit (cs_changes acc') xs @ drop lst' xs = edit (cs_changes ?acc) xs @ kept ds t xs"
      using "2.IH"(2) [OF False g_def] g rest "2.prems" by simp
    moreover have "edit (cs_changes ?acc) xs @ kept ds t xs =
        edit (cs_changes acc) xs @ kept ((f, t) # ds) lst xs"
      using kept_Cons [OF g rest(5) g_def rest(3)] c by simp
    ultimately show ?thesis unfolding step by metis
  qed
qed

lemma delete_changes_ok:
  assumes laws: "rope_laws R contents" and "sorted (map fst ds)"
    and "\<forall>(f, t)\<in>set ds. f \<le> t \<and> t \<le> length (contents doc)"
  shows "\<exists>cs. delete_changes R doc ds = Some cs \<and> cs_exact cs \<and> canonical (cs_changes cs) \<and>
    cs_len cs = length (contents doc) \<and> run (cs_changes cs) (contents doc) = kept ds 0 (contents doc)"
proof -
  let ?xs = "contents doc"
  from delete_loop_correct [OF assms(2,3), of 0 cs_with_capacity]
  obtain acc lst where loop: "delete_loop ds 0 cs_with_capacity = Some (acc, lst)"
    and acc: "cs_exact acc" "canonical (cs_changes acc)" "cs_len acc = lst" "lst \<le> length ?xs"
    and ed: "edit (cs_changes acc) ?xs @ drop lst ?xs = kept ds 0 ?xs"
    by (auto simp: cs_with_capacity_def cs_exact_def)
  let ?cs = "cs_retain (length ?xs - lst) acc"
  have "delete_changes R doc ds = Some ?cs"
    using loop acc by (simp add: delete_changes_def rope_len [OF laws])
  moreover have "run (cs_changes ?cs) ?xs = kept ds 0 ?xs"
    using acc ed by (simp add: run_def cs_exact_def)
  ultimately show ?thesis using acc by (intro exI [of _ ?cs]) simp
qed

section \<open>Dropped overlaps\<close>

lemma ignore_overlapping_fit:
  "\<forall>(f, t, d)\<in>set rs. f \<le> t \<and> t \<le> len \<Longrightarrow> lst \<le> len \<Longrightarrow>
   changes_fit lst (fst (ignore_overlapping process_change lst rs s)) len"
  by (induction process_change lst rs s rule: ignore_overlapping.induct)
     (auto simp: Let_def split: prod.splits)

section \<open>Properties\<close>

text \<open>
  C9: Building a change set from replacements.  \<open>from_changes\<close> panics exactly when the
  replacements are not sorted, overlap or run past the end; otherwise applying its result replaces
  every \<open>from..to\<close> by its text and keeps the rest.
\<close>

theorem from_changes_splices:
  assumes "rope_laws R contents"
  shows "if changes_fit 0 changes (length (contents doc))
    then \<exists>cs edited. from_changes R doc changes = Some cs \<and> cs_apply R cs doc = Some (edited, True) \<and>
           contents edited = splice changes 0 (contents doc)
    else from_changes R doc changes = None"
proof (cases "changes_fit 0 changes (length (contents doc))")
  case True
  from from_changes_ok [OF assms True] obtain cs where
    cs: "from_changes R doc changes = Some cs" "cs_exact cs" "canonical (cs_changes cs)"
      "cs_len cs = length (contents doc)" "run (cs_changes cs) (contents doc) = splice changes 0 (contents doc)"
    by blast
  obtain edited where "cs_apply R cs doc = Some (edited, True)"
    "contents edited = run (cs_changes cs) (contents doc)"
    by (rule cs_apply_run [OF assms cs_ok_exact [OF cs(2,3)] cs(4) [symmetric]])
  with cs True show ?thesis by auto
next
  case False
  then show ?thesis
    using from_changes_Some_iff [OF assms, of doc changes] by (cases "from_changes R doc changes") auto
qed

theorem from_changes_splices_witness:
  "\<exists>cs edited. from_changes list_rope [1, 2, 3, 4] [(0, 1, Some [8]), (1, 3, None)] = Some cs \<and>
     cs_apply list_rope cs [1, 2, 3, 4] = Some (edited, True) \<and> edited = [8, 4]"
  using from_changes_splices [OF list_rope_laws, of "[(0, 1, Some [8]), (1, 3, None)]" "[1, 2, 3, 4]"]
  by simp

text \<open>
  Round trip.  The iterator \<open>changes_iter\<close> lists the replacements of a canonical change set,
  and building a change set from them gives the same change set back.
\<close>

theorem changes_iter_roundtrip:
  assumes "rope_laws R contents" "cs_exact cs" "canonical (cs_changes cs)"
    "length (contents doc) = cs_len cs"
  shows "from_changes R doc (changes_iter 0 (cs_changes cs)) = Some cs"
  by (rule from_changes_iter [OF assms])

theorem changes_iter_roundtrip_witness:
  "from_changes list_rope [1, 2, 3, 4] [(1, 3, Some [7, 8])] = Some sample_edit"
  using changes_iter_roundtrip [OF list_rope_laws, of sample_edit "[1, 2, 3, 4]"]
  by (simp add: sample_edit_def cs_exact_def numeral_3_eq_3)

text \<open>
  Deletions may overlap.  For deletions sorted by their start, \<open>delete\<close> builds without
  panicking a change set that removes exactly the characters some deletion covers, the overlapping
  parts once.
\<close>

theorem delete_removes_covered:
  assumes "rope_laws R contents" "sorted (map fst ds)"
    "\<forall>(f, t)\<in>set ds. f \<le> t \<and> t \<le> length (contents doc)"
  shows "\<exists>cs edited. delete_changes R doc ds = Some cs \<and> cs_apply R cs doc = Some (edited, True) \<and>
    contents edited = kept ds 0 (contents doc)"
proof -
  from delete_changes_ok [OF assms] obtain cs where
    cs: "delete_changes R doc ds = Some cs" "cs_exact cs" "canonical (cs_changes cs)"
      "cs_len cs = length (contents doc)" "run (cs_changes cs) (contents doc) = kept ds 0 (contents doc)"
    by blast
  obtain edited where "cs_apply R cs doc = Some (edited, True)"
    "contents edited = run (cs_changes cs) (contents doc)"
    by (rule cs_apply_run [OF assms(1) cs_ok_exact [OF cs(2,3)] cs(4) [symmetric]])
  with cs show ?thesis by auto
qed

theorem delete_removes_covered_witness:
  "\<exists>cs edited. delete_changes list_rope [1, 2, 3, 4, 5] [(0, 2), (1, 3)] = Some cs \<and>
     cs_apply list_rope cs [1, 2, 3, 4, 5] = Some (edited, True) \<and> edited = [4, 5]"
  using delete_removes_covered [OF list_rope_laws, of "[(0, 2), (1, 3)]" "[1, 2, 3, 4, 5]"]
  by (simp add: kept_def upt_rec)

end
