(* ===== verification/Compose.thy ===== *)
theory Compose
  imports ChangeSet
begin

text \<open>
  \<open>ChangeSet::compose\<close> of \<open>zmax-core/src/transaction.rs\<close>: two change sets, the second made for
  the text the first one produces, become one.  The loop's two heads with the iterators behind
  them are the two lists of operations still to handle; its \<open>unreachable!\<close> and the two
  assertions are the value \<open>None\<close>.  The lemmas show that the loop ends, that none of these
  panics happens for change sets that fit, and that running the result is running the first
  and then the second.
\<close>

fun ops_weight :: "operation list \<Rightarrow> nat" where
  "ops_weight [] = 0"
| "ops_weight (op # ops) = Suc (op_len_chars op) + ops_weight ops"

function (sequential) compose_loop ::
    "operation list \<Rightarrow> operation list \<Rightarrow> change_set \<Rightarrow> change_set option" where
  "compose_loop [] [] changes = Some changes"
| "compose_loop (Delete i # as) bs changes = compose_loop as bs (cs_delete i changes)"
| "compose_loop as (Insert current # bs) changes = compose_loop as bs (cs_insert current changes)"
| "compose_loop [] (b # bs) changes = None"
| "compose_loop (a # as) [] changes = None"
| "compose_loop (Retain i # as) (Retain j # bs) changes =
     (if i < j then compose_loop as (Retain (j - i) # bs) (cs_retain i changes)
      else if i = j then compose_loop as bs (cs_retain i changes)
      else compose_loop (Retain (i - j) # as) bs (cs_retain j changes))"
| "compose_loop (Insert s # as) (Delete j # bs) changes =
     (if length s < j then compose_loop as (Delete (j - length s) # bs) changes
      else if length s = j then compose_loop as bs changes
      else compose_loop (Insert (drop j s) # as) bs changes)"
| "compose_loop (Insert s # as) (Retain j # bs) changes =
     (if length s < j then compose_loop as (Retain (j - length s) # bs) (cs_insert s changes)
      else if length s = j then compose_loop as bs (cs_insert s changes)
      else compose_loop (Insert (drop j s) # as) bs (cs_insert (take j s) changes))"
| "compose_loop (Retain i # as) (Delete j # bs) changes =
     (if i < j then compose_loop as (Delete (j - i) # bs) (cs_delete i changes)
      else if i = j then compose_loop as bs (cs_delete j changes)
      else compose_loop (Retain (i - j) # as) bs (cs_delete j changes))"
  by pat_completeness auto
termination
  by (relation "measure (\<lambda>(as, bs, _). ops_weight as + ops_weight bs)") auto

definition cs_compose :: "change_set \<Rightarrow> change_set \<Rightarrow> change_set option" where
  "cs_compose self other =
     (if cs_len_after self \<noteq> cs_len other then None
      else if cs_changes self = [] then Some other
      else if cs_changes other = [] then Some self
      else Option.bind (compose_loop (cs_changes self) (cs_changes other) cs_with_capacity)
             (\<lambda>changes. if cs_len changes = cs_len self then Some changes else None))"

section \<open>Correctness\<close>

text \<open>
  What the loop must return: what it has built, followed by the edits still to do, which are the
  first list on the rest of the text and then the second list on what that gives.
\<close>

definition composed ::
    "operation list \<Rightarrow> operation list \<Rightarrow> change_set \<Rightarrow> str \<Rightarrow> change_set option \<Rightarrow> bool" where
  "composed as bs cs xs r \<longleftrightarrow>
     (\<exists>cs'. r = Some cs' \<and> cs_exact cs' \<and> canonical (cs_changes cs') \<and>
        cs_len cs' = cs_len cs + consumed as \<and> cs_len_after cs' = cs_len_after cs + produced bs \<and>
        edit (cs_changes cs') xs = edit (cs_changes cs) xs @ edit bs (edit as (drop (cs_len cs) xs)))"

lemma composed_step:
  assumes "composed as' bs' cs' xs r"
    and "cs_len cs' + consumed as' = cs_len cs + consumed as"
    and "cs_len_after cs' + produced bs' = cs_len_after cs + produced bs"
    and "edit (cs_changes cs') xs @ edit bs' (edit as' (drop (cs_len cs') xs)) =
         edit (cs_changes cs) xs @ edit bs (edit as (drop (cs_len cs) xs))"
  shows "composed as bs cs xs r"
  using assms unfolding composed_def by auto

lemma compose_loop_correct:
  "produced as = consumed bs \<Longrightarrow> cs_exact cs \<Longrightarrow> canonical (cs_changes cs) \<Longrightarrow>
   list_all op_nonempty as \<Longrightarrow> list_all op_nonempty bs \<Longrightarrow>
   cs_len cs + consumed as \<le> length xs \<Longrightarrow> composed as bs cs xs (compose_loop as bs cs)"
proof (induction as bs cs rule: compose_loop.induct [case_names 1 2 31 32 33 41 42 51 52 6 7 8 9])
  case (2 i as bs cs)
  have "composed as bs (cs_delete i cs) xs (compose_loop as bs (cs_delete i cs))"
    using "2.prems" by (intro "2.IH") simp_all
  then show ?case by (auto intro: composed_step simp: add.commute)
next
  case (31 s bs cs)
  have "composed [] bs (cs_insert s cs) xs (compose_loop [] bs (cs_insert s cs))"
    using "31.prems" by (intro "31.IH") simp_all
  then show ?case by (auto intro: composed_step)
next
  case (32 v as s bs cs)
  have "composed (Retain v # as) bs (cs_insert s cs) xs (compose_loop (Retain v # as) bs (cs_insert s cs))"
    using "32.prems" by (intro "32.IH") simp_all
  then show ?case by (auto intro: composed_step)
next
  case (33 v as s bs cs)
  have "composed (Insert v # as) bs (cs_insert s cs) xs (compose_loop (Insert v # as) bs (cs_insert s cs))"
    using "33.prems" by (intro "33.IH") simp_all
  then show ?case by (auto intro: composed_step)
next
  case (6 i as j bs cs)
  have c: "consumed (cs_changes cs) = cs_len cs" using "6.prems" by (simp add: cs_exact_def)
  consider "i < j" | "i = j" | "j < i" by linarith
  then show ?case
  proof cases
    case 1
    have "composed (as) (Retain (j - i) # bs) (cs_retain i cs) xs (compose_loop (as) (Retain (j - i) # bs) (cs_retain i cs))"
      using "6.prems" 1 by (intro "6.IH"(1)) simp_all
    then have "composed (Retain i # as) (Retain j # bs) cs xs (compose_loop (as) (Retain (j - i) # bs) (cs_retain i cs))"
      by (rule composed_step) (use "6.prems" 1 c in \<open>simp_all add: add.commute drop_take\<close>)
    then show ?thesis using 1 by simp
  next
    case 2
    have "composed (as) (bs) (cs_retain i cs) xs (compose_loop (as) (bs) (cs_retain i cs))"
      using "6.prems" 2 by (intro "6.IH"(2)) simp_all
    then have "composed (Retain i # as) (Retain j # bs) cs xs (compose_loop (as) (bs) (cs_retain i cs))"
      by (rule composed_step) (use "6.prems" 2 c in \<open>simp_all add: add.commute drop_take\<close>)
    then show ?thesis using 2 by simp
  next
    case 3
    have "composed (Retain (i - j) # as) (bs) (cs_retain j cs) xs (compose_loop (Retain (i - j) # as) (bs) (cs_retain j cs))"
      using "6.prems" 3 by (intro "6.IH"(3)) simp_all
    then have "composed (Retain i # as) (Retain j # bs) cs xs (compose_loop (Retain (i - j) # as) (bs) (cs_retain j cs))"
      by (rule composed_step) (use "6.prems" 3 c in \<open>simp_all add: add.commute drop_take\<close>)
    then show ?thesis using 3 by simp
  qed
next
  case (7 s as j bs cs)
  have c: "consumed (cs_changes cs) = cs_len cs" using "7.prems" by (simp add: cs_exact_def)
  consider "length s < j" | "length s = j" | "j < length s" by linarith
  then show ?case
  proof cases
    case 1
    have "composed (as) (Delete (j - length s) # bs) (cs) xs (compose_loop (as) (Delete (j - length s) # bs) (cs))"
      using "7.prems" 1 by (intro "7.IH"(1)) simp_all
    then have "composed (Insert s # as) (Delete j # bs) cs xs (compose_loop (as) (Delete (j - length s) # bs) (cs))"
      by (rule composed_step) (use "7.prems" 1 c in \<open>simp_all add: add.commute drop_take\<close>)
    then show ?thesis using 1 by simp
  next
    case 2
    have "composed (as) (bs) (cs) xs (compose_loop (as) (bs) (cs))"
      using "7.prems" 2 by (intro "7.IH"(2)) simp_all
    then have "composed (Insert s # as) (Delete j # bs) cs xs (compose_loop (as) (bs) (cs))"
      by (rule composed_step) (use "7.prems" 2 c in \<open>simp_all add: add.commute drop_take\<close>)
    then show ?thesis using 2 by simp
  next
    case 3
    have "composed (Insert (drop j s) # as) (bs) (cs) xs (compose_loop (Insert (drop j s) # as) (bs) (cs))"
      using "7.prems" 3 by (intro "7.IH"(3)) simp_all
    then have "composed (Insert s # as) (Delete j # bs) cs xs (compose_loop (Insert (drop j s) # as) (bs) (cs))"
      by (rule composed_step) (use "7.prems" 3 c in \<open>simp_all add: add.commute drop_take\<close>)
    then show ?thesis using 3 by simp
  qed
next
  case (8 s as j bs cs)
  have c: "consumed (cs_changes cs) = cs_len cs" using "8.prems" by (simp add: cs_exact_def)
  consider "length s < j" | "length s = j" | "j < length s" by linarith
  then show ?case
  proof cases
    case 1
    have "composed (as) (Retain (j - length s) # bs) (cs_insert s cs) xs (compose_loop (as) (Retain (j - length s) # bs) (cs_insert s cs))"
      using "8.prems" 1 by (intro "8.IH"(1)) simp_all
    then have "composed (Insert s # as) (Retain j # bs) cs xs (compose_loop (as) (Retain (j - length s) # bs) (cs_insert s cs))"
      by (rule composed_step) (use "8.prems" 1 c in \<open>simp_all add: add.commute drop_take\<close>)
    then show ?thesis using 1 by simp
  next
    case 2
    have "composed (as) (bs) (cs_insert s cs) xs (compose_loop (as) (bs) (cs_insert s cs))"
      using "8.prems" 2 by (intro "8.IH"(2)) simp_all
    then have "composed (Insert s # as) (Retain j # bs) cs xs (compose_loop (as) (bs) (cs_insert s cs))"
      by (rule composed_step) (use "8.prems" 2 c in \<open>simp_all add: add.commute drop_take\<close>)
    then show ?thesis using 2 by simp
  next
    case 3
    have "composed (Insert (drop j s) # as) (bs) (cs_insert (take j s) cs) xs (compose_loop (Insert (drop j s) # as) (bs) (cs_insert (take j s) cs))"
      using "8.prems" 3 by (intro "8.IH"(3)) simp_all
    then have "composed (Insert s # as) (Retain j # bs) cs xs (compose_loop (Insert (drop j s) # as) (bs) (cs_insert (take j s) cs))"
      by (rule composed_step) (use "8.prems" 3 c in \<open>simp_all add: add.commute drop_take\<close>)
    then show ?thesis using 3 by simp
  qed
next
  case (9 i as j bs cs)
  have c: "consumed (cs_changes cs) = cs_len cs" using "9.prems" by (simp add: cs_exact_def)
  consider "i < j" | "i = j" | "j < i" by linarith
  then show ?case
  proof cases
    case 1
    have "composed (as) (Delete (j - i) # bs) (cs_delete i cs) xs (compose_loop (as) (Delete (j - i) # bs) (cs_delete i cs))"
      using "9.prems" 1 by (intro "9.IH"(1)) simp_all
    then have "composed (Retain i # as) (Delete j # bs) cs xs (compose_loop (as) (Delete (j - i) # bs) (cs_delete i cs))"
      by (rule composed_step) (use "9.prems" 1 c in \<open>simp_all add: add.commute drop_take\<close>)
    then show ?thesis using 1 by simp
  next
    case 2
    have "composed (as) (bs) (cs_delete j cs) xs (compose_loop (as) (bs) (cs_delete j cs))"
      using "9.prems" 2 by (intro "9.IH"(2)) simp_all
    then have "composed (Retain i # as) (Delete j # bs) cs xs (compose_loop (as) (bs) (cs_delete j cs))"
      by (rule composed_step) (use "9.prems" 2 c in \<open>simp_all add: add.commute drop_take\<close>)
    then show ?thesis using 2 by simp
  next
    case 3
    have "composed (Retain (i - j) # as) (bs) (cs_delete j cs) xs (compose_loop (Retain (i - j) # as) (bs) (cs_delete j cs))"
      using "9.prems" 3 by (intro "9.IH"(3)) simp_all
    then have "composed (Retain i # as) (Delete j # bs) cs xs (compose_loop (Retain (i - j) # as) (bs) (cs_delete j cs))"
      by (rule composed_step) (use "9.prems" 3 c in \<open>simp_all add: add.commute drop_take\<close>)
    then show ?thesis using 3 by simp
  qed
next
  case (41 v bs cs)
  then show ?case by (cases v) simp_all
next
  case (42 v bs cs)
  then show ?case by simp
next
  case (51 v as cs)
  then show ?case by simp
next
  case (52 v as cs)
  then show ?case by simp
qed (auto simp: composed_def)

lemma edit_whole: "consumed ops = length xs \<Longrightarrow> run ops xs = edit ops xs"
  by (simp add: run_def)

lemma cs_compose_ok:
  assumes a: "cs_ok a" and b: "cs_ok b" and fit: "cs_len_after a = cs_len b"
  shows "\<exists>c. cs_compose a b = Some c \<and> cs_ok c \<and> cs_len c = cs_len a \<and>
    cs_len_after c = cs_len_after b \<and> (cs_exact a \<longrightarrow> cs_exact b \<longrightarrow> cs_exact c) \<and>
    (\<forall>xs. length xs = cs_len a \<longrightarrow>
       run (cs_changes c) xs = run (cs_changes b) (run (cs_changes a) xs))"
proof (cases "cs_changes a = [] \<or> cs_changes b = []")
  case True
  then show ?thesis
    using a b fit by (auto simp: cs_compose_def cs_ok_def cs_exact_def run_def)
next
  case False
  then have ea: "cs_exact a" "canonical (cs_changes a)" and eb: "cs_exact b" "canonical (cs_changes b)"
    using a b by (auto simp: cs_ok_def)
  let ?r = "compose_loop (cs_changes a) (cs_changes b) cs_with_capacity"
  have loop: "composed (cs_changes a) (cs_changes b) cs_with_capacity xs ?r"
    if "length xs = cs_len a" for xs
    using ea eb fit that
    by (intro compose_loop_correct) (auto simp: cs_exact_def cs_with_capacity_def canonical_nonempty)
  obtain c where c: "?r = Some c" "cs_exact c" "canonical (cs_changes c)"
    "cs_len c = cs_len a" "cs_len_after c = cs_len_after b"
    using loop [of "replicate (cs_len a) 0"] ea eb
    by (auto simp: composed_def cs_with_capacity_def cs_exact_def)
  have "run (cs_changes c) xs = run (cs_changes b) (run (cs_changes a) xs)"
    if xs: "length xs = cs_len a" for xs
  proof -
    have "edit (cs_changes c) xs = edit (cs_changes b) (edit (cs_changes a) xs)"
      using loop [OF xs] c(1) by (auto simp: composed_def cs_with_capacity_def)
    moreover have "length (edit (cs_changes a) xs) = cs_len_after a"
      using ea xs by (simp add: length_edit cs_exact_def)
    ultimately show ?thesis
      using c ea eb xs fit by (simp add: edit_whole cs_exact_def)
  qed
  then show ?thesis using False c fit by (auto simp: cs_compose_def intro: cs_ok_exact)
qed

section \<open>Properties\<close>

text \<open>
  C2: Composition.  Two change sets that fit together compose without reaching one of the
  panics, and applying the composed set in one step gives the text that applying the first and
  then the second gives.
\<close>

theorem compose_applies_both:
  assumes "rope_laws R contents" "cs_ok a" "cs_ok b" "cs_len_after a = cs_len b"
    "length (contents doc) = cs_len a"
  shows "\<exists>c mid both once.
    cs_compose a b = Some c \<and> cs_ok c \<and>
    cs_apply R a doc = Some (mid, True) \<and> cs_apply R b mid = Some (both, True) \<and>
    cs_apply R c doc = Some (once, True) \<and> contents once = contents both"
proof -
  obtain c where c: "cs_compose a b = Some c" "cs_ok c" "cs_len c = cs_len a"
    "\<And>xs. length xs = cs_len a \<Longrightarrow> run (cs_changes c) xs = run (cs_changes b) (run (cs_changes a) xs)"
    using cs_compose_ok [OF assms(2-4)] by blast
  obtain mid where mid: "cs_apply R a doc = Some (mid, True)"
    "contents mid = run (cs_changes a) (contents doc)"
    by (rule cs_apply_run [OF assms(1,2,5)])
  have "length (contents mid) = cs_len b"
    using cs_ok_lens(2) [OF assms(2,5)] mid assms(4) by simp
  from cs_apply_run [OF assms(1,3) this] obtain both where
    both: "cs_apply R b mid = Some (both, True)" "contents both = run (cs_changes b) (contents mid)" .
  have "length (contents doc) = cs_len c" using assms(5) c(3) by simp
  from cs_apply_run [OF assms(1) c(2) this] obtain once where
    "cs_apply R c doc = Some (once, True)" "contents once = run (cs_changes c) (contents doc)" .
  with c mid both assms(5) show ?thesis by auto
qed

definition sample_then :: change_set where
  "sample_then = \<lparr>cs_changes = [Insert [9], Delete 1, Retain 3], cs_len = 4, cs_len_after = 4\<rparr>"

lemma sample_then_ok: "cs_ok sample_then"
  by (simp add: sample_then_def cs_ok_def cs_exact_def)

theorem compose_applies_both_witness:
  "\<exists>c mid both once.
    cs_compose sample_edit sample_then = Some c \<and> cs_ok c \<and>
    cs_apply list_rope sample_edit [1, 2, 3, 4] = Some (mid, True) \<and>
    cs_apply list_rope sample_then mid = Some (both, True) \<and>
    cs_apply list_rope c [1, 2, 3, 4] = Some (once, True) \<and> once = both"
  by (rule compose_applies_both [OF list_rope_laws sample_edit_ok(1) sample_then_ok])
    (simp_all add: sample_edit_def sample_then_def)

end
