(* ===== verification/Positions.thy ===== *)
theory Positions
  imports Changes
begin

text \<open>
  Mapping positions through a change set (\<open>zmax-core/src/transaction.rs\<close>): \<open>Assoc\<close>,
  \<open>update_positions\<close> and \<open>map_pos\<close>, and the word test they use
  (\<open>char_is_word\<close> of \<open>zmax-core/src/chars.rs\<close>; the Unicode table behind
  \<open>char::is_alphanumeric\<close> is the parameter \<open>alnum\<close>).

  \<open>update_positions\<close> maps a whole list in one pass over the operations and steps back when a
  position is smaller than the last one.  Its claim is that the result is that of mapping each
  position on its own; the lemmas prove this for the lists for which it holds.
\<close>

section \<open>Assoc\<close>

datatype assoc = Before | After | AfterWord | BeforeWord | BeforeSticky | AfterSticky

definition char_is_word :: "(uchar \<Rightarrow> bool) \<Rightarrow> uchar \<Rightarrow> bool" where
  "char_is_word alnum ch \<longleftrightarrow> alnum ch \<or> ch = uc CHR ''_''"

definition stay_at_gaps :: "assoc \<Rightarrow> bool" where
  "stay_at_gaps a \<longleftrightarrow> a \<noteq> BeforeWord \<and> a \<noteq> AfterWord"

fun insert_offset :: "(uchar \<Rightarrow> bool) \<Rightarrow> assoc \<Rightarrow> str \<Rightarrow> nat" where
  "insert_offset alnum After s = length s"
| "insert_offset alnum AfterSticky s = length s"
| "insert_offset alnum AfterWord s = length (takeWhile (char_is_word alnum) s)"
| "insert_offset alnum Before s = 0"
| "insert_offset alnum BeforeSticky s = 0"
| "insert_offset alnum BeforeWord s = length s - length (takeWhile (char_is_word alnum) (rev s))"

definition sticky :: "assoc \<Rightarrow> bool" where
  "sticky a \<longleftrightarrow> a = BeforeSticky \<or> a = AfterSticky"

section \<open>update_positions\<close>

text \<open>
  The inner loop \<open>map!\<close>: positions are taken from the front as long as \<open>f\<close> maps them.  It ends
  because there are none left, because the next one lies before \<open>old_pos\<close>, or because \<open>f\<close> does
  not apply to it.
\<close>

datatype map_exit = Finished | Unsorted | Break

fun map_loop :: "(nat \<Rightarrow> assoc \<Rightarrow> nat option) \<Rightarrow> nat \<Rightarrow> (nat \<times> assoc) list \<Rightarrow>
    nat list \<times> (nat \<times> assoc) list \<times> map_exit" where
  "map_loop f old_pos [] = ([], [], Finished)"
| "map_loop f old_pos ((pos, a) # positions) =
     (if pos < old_pos then ([], (pos, a) # positions, Unsorted)
      else (case f pos a of
              None \<Rightarrow> ([], (pos, a) # positions, Break)
            | Some new_pos \<Rightarrow>
                let (rs, rest, e) = map_loop f old_pos positions in (new_pos # rs, rest, e)))"

text \<open>
  Stepping back over \<open>changes[..i]\<close>, last operation first.  The iterator is set again at every
  operation from which \<open>pos\<close> is not yet passed.
\<close>

fun rewind :: "operation list \<Rightarrow> nat \<Rightarrow> (nat \<times> operation) list \<Rightarrow> nat \<Rightarrow> nat \<Rightarrow>
    (nat \<times> operation) list \<Rightarrow> ((nat \<times> operation) list \<times> nat \<times> nat) option" where
  "rewind changes pos [] old_pos new_pos it =
     (if old_pos \<le> pos then Some (it, old_pos, new_pos) else None)"
| "rewind changes pos ((i, Retain n) # rev_changes) old_pos new_pos it =
     (if n \<le> old_pos \<and> n \<le> new_pos
      then rewind changes pos rev_changes (old_pos - n) (new_pos - n)
             (if old_pos - n \<le> pos then List.enumerate 0 (drop i changes) else it)
      else None)"
| "rewind changes pos ((i, Delete n) # rev_changes) old_pos new_pos it =
     (if n \<le> old_pos
      then rewind changes pos rev_changes (old_pos - n) new_pos
             (if old_pos - n \<le> pos then List.enumerate 0 (drop i changes) else it)
      else None)"
| "rewind changes pos ((i, Insert ins) # rev_changes) old_pos new_pos it =
     (if length ins \<le> new_pos
      then rewind changes pos rev_changes old_pos (new_pos - length ins)
             (if old_pos \<le> pos then List.enumerate 0 (drop i changes) else it)
      else None)"

text \<open>
  One turn of the outer loop: the map for the operation at the front of the iterator, the number
  of operations before it, the rest of the iterator, and \<open>old_pos\<close> and \<open>new_pos\<close> behind it.
\<close>

definition replace_map :: "(uchar \<Rightarrow> bool) \<Rightarrow> nat \<Rightarrow> nat \<Rightarrow> str \<Rightarrow> nat \<Rightarrow> nat \<Rightarrow> assoc \<Rightarrow> nat option" where
  "replace_map alnum old_pos new_pos s len pos a =
     (if old_pos + len > pos then
        Some (if pos = old_pos \<and> stay_at_gaps a then new_pos
              else
                let ins = insert_offset alnum a s
                in if len = ins \<and> sticky a then new_pos + (pos - old_pos)
                   else new_pos + insert_offset alnum a s)
      else None)"

fun turn :: "(uchar \<Rightarrow> bool) \<Rightarrow> nat \<Rightarrow> (nat \<times> operation) list \<Rightarrow> nat \<Rightarrow> nat \<Rightarrow>
    (nat \<Rightarrow> assoc \<Rightarrow> nat option) \<times> nat \<times> (nat \<times> operation) list \<times> nat \<times> nat" where
  "turn alnum n [] old_pos new_pos =
     ((\<lambda>pos _. if old_pos = pos then Some new_pos else None), n, [], old_pos, new_pos)"
| "turn alnum n ((i, Retain len) # it) old_pos new_pos =
     ((\<lambda>pos _. if old_pos + len > pos then Some (new_pos + (pos - old_pos)) else None),
      i, it, old_pos + len, new_pos + len)"
| "turn alnum n ((i, Delete len) # it) old_pos new_pos =
     ((\<lambda>pos _. if old_pos + len > pos then Some new_pos else None), i, it, old_pos + len, new_pos)"
| "turn alnum n ((i, Insert s) # (i', Delete len) # it) old_pos new_pos =
     (replace_map alnum old_pos new_pos s len, i, it, old_pos + len, new_pos + length s)"
| "turn alnum n ((i, Insert s) # it) old_pos new_pos =
     ((\<lambda>pos a. if old_pos = pos then Some (new_pos + insert_offset alnum a s) else None),
      i, it, old_pos, new_pos + length s)"

lemma map_loop_rest:
  "map_loop f old ps = (rs, rest, e) \<Longrightarrow> rest = drop (length rs) ps \<and> length rs \<le> length ps"
  by (induction f old ps arbitrary: rs rest e rule: map_loop.induct)
     (auto split: if_splits option.splits prod.splits)

lemma map_loop_Unsorted:
  "map_loop f old ps = (rs, rest, Unsorted) \<Longrightarrow> \<exists>p a ps'. rest = (p, a) # ps' \<and> p < old"
  by (induction f old ps arbitrary: rs rest rule: map_loop.induct)
     (auto split: if_splits option.splits prod.splits)

lemma map_loop_Break:
  "map_loop f old ps = (rs, rest, Break) \<Longrightarrow>
     \<exists>p a ps'. rest = (p, a) # ps' \<and> old \<le> p \<and> f p a = None"
  by (induction f old ps arbitrary: rs rest rule: map_loop.induct)
     (auto split: if_splits option.splits prod.splits)

lemma rewind_le: "rewind changes pos rc old new it = Some (it', old', new') \<Longrightarrow> old' \<le> pos"
  by (induction changes pos rc old new it rule: rewind.induct) (auto split: if_splits)

lemma turn_Break:
  "turn alnum n it old new = (f, i, it', old', new') \<Longrightarrow> it \<noteq> [] \<Longrightarrow> old \<le> p \<Longrightarrow> f p a = None \<Longrightarrow>
     old' \<le> p \<and> length it' < length it"
  by (cases "(alnum, n, it, old, new)" rule: turn.cases)
     (auto simp: replace_map_def split: if_splits)

function update_loop :: "(uchar \<Rightarrow> bool) \<Rightarrow> operation list \<Rightarrow> (nat \<times> operation) list \<Rightarrow> nat \<Rightarrow> nat \<Rightarrow>
    (nat \<times> assoc) list \<Rightarrow> nat list option" where
  "update_loop alnum changes it old_pos new_pos positions =
     (let (f, i, it', old_end, new_end) = turn alnum (length changes) it old_pos new_pos
      in case map_loop f old_pos positions of
           (rs, rest, Finished) \<Rightarrow> Some rs
         | (rs, rest, Unsorted) \<Rightarrow>
             Option.bind
               (rewind changes (fst (hd rest)) (rev (List.enumerate 0 (take i changes)))
                  old_pos new_pos it')
               (\<lambda>(it2, old2, new2).
                  map_option ((@) rs) (update_loop alnum changes it2 old2 new2 rest))
         | (rs, rest, Break) \<Rightarrow>
             if it = [] then None
             else map_option ((@) rs) (update_loop alnum changes it' old_end new_end rest))"
  by pat_completeness auto
termination
proof (relation "measures [\<lambda>(_, _, it, old, _, ps). length ps,
    \<lambda>(_, _, it, old, _, ps). if ps \<noteq> [] \<and> fst (hd ps) < old then 1 else 0,
    \<lambda>(_, _, it, _, _, _). length it]", goal_cases)
  case 1
  then show ?case by simp
next
  case (2 alnum changes it old new ps _ f _ i _ it' _ old_end new_end rs _ rest e it2 _ old2 new2)
  then have "map_loop f old ps = (rs, rest, Unsorted)" by simp
  from map_loop_rest [OF this] map_loop_Unsorted [OF this] 2 show ?case
    by (cases rs) (auto dest!: rewind_le)
next
  case (3 alnum changes it old new ps _ f _ i _ it' _ old_end new_end rs _ rest e)
  then have b: "map_loop f old ps = (rs, rest, Break)"
    and t: "turn alnum (length changes) it old new = (f, i, it', old_end, new_end)"
    and ne: "it \<noteq> []" by auto
  from map_loop_Break [OF b] obtain p a ps' where r: "rest = (p, a) # ps'" "old \<le> p" "f p a = None"
    by blast
  from turn_Break [OF t ne r(2,3)] map_loop_rest [OF b] r show ?case
    by (cases rs) auto
qed

declare update_loop.simps [simp del]

definition update_positions ::
    "(uchar \<Rightarrow> bool) \<Rightarrow> change_set \<Rightarrow> (nat \<times> assoc) list \<Rightarrow> nat list option" where
  "update_positions alnum cs positions =
     update_loop alnum (cs_changes cs) (List.enumerate 0 (cs_changes cs)) 0 0 positions"

definition map_pos :: "(uchar \<Rightarrow> bool) \<Rightarrow> change_set \<Rightarrow> nat \<Rightarrow> assoc \<Rightarrow> nat option" where
  "map_pos alnum cs pos a = map_option hd (update_positions alnum cs [(pos, a)])"

section \<open>Each position on its own\<close>

fun map_ref :: "(uchar \<Rightarrow> bool) \<Rightarrow> operation list \<Rightarrow> nat \<Rightarrow> nat \<Rightarrow> nat \<Rightarrow> assoc \<Rightarrow> nat option" where
  "map_ref alnum [] old new p a = (if p = old then Some new else None)"
| "map_ref alnum (Retain n # ops) old new p a =
     (if p < old + n then Some (new + (p - old)) else map_ref alnum ops (old + n) (new + n) p a)"
| "map_ref alnum (Delete n # ops) old new p a =
     (if p < old + n then Some new else map_ref alnum ops (old + n) new p a)"
| "map_ref alnum (Insert s # Delete n # ops) old new p a =
     (if p < old + n then
        (if p = old \<and> stay_at_gaps a then Some new
         else if n = insert_offset alnum a s \<and> sticky a then Some (new + (p - old))
         else Some (new + insert_offset alnum a s))
      else map_ref alnum ops (old + n) (new + length s) p a)"
| "map_ref alnum (Insert s # ops) old new p a =
     (if p = old then Some (new + insert_offset alnum a s)
      else map_ref alnum ops old (new + length s) p a)"

text \<open>Where text is inserted and nothing is deleted.\<close>

fun insert_points :: "nat \<Rightarrow> operation list \<Rightarrow> nat list" where
  "insert_points old [] = []"
| "insert_points old (Retain n # ops) = insert_points (old + n) ops"
| "insert_points old (Delete n # ops) = insert_points (old + n) ops"
| "insert_points old (Insert s # Delete n # ops) = insert_points (old + n) ops"
| "insert_points old (Insert s # ops) = old # insert_points old ops"

text \<open>A position that comes after a larger one is not an insertion point.\<close>

fun tame :: "nat list \<Rightarrow> (nat \<times> assoc) list \<Rightarrow> bool" where
  "tame points [] = True"
| "tame points ((p, a) # ps) \<longleftrightarrow> (\<forall>(q, b)\<in>set ps. q < p \<longrightarrow> q \<notin> set points) \<and> tame points ps"

lemma sorted_tame: "sorted (map fst ps) \<Longrightarrow> tame points ps"
  by (induction points ps rule: tame.induct) auto

lemma tame_drop: "tame points ps \<Longrightarrow> tame points (drop n ps)"
proof (induction n arbitrary: ps)
  case (Suc n)
  then show ?case by (cases ps) auto
qed simp

lemma turn_map_ref:
  assumes "turn alnum n it old new = (f, i, it', old', new')"
  shows "map_ref alnum (map snd it) old new p a =
    (case f p a of Some v \<Rightarrow> Some v
     | None \<Rightarrow> if it = [] then None else map_ref alnum (map snd it') old' new' p a)"
  using assms
  by (cases "(alnum, n, it, old, new)" rule: turn.cases)
     (auto simp: replace_map_def Let_def)

lemma turn_insert_points:
  "turn alnum n it old new = (f, i, it', old', new') \<Longrightarrow>
   set (insert_points old' (map snd it')) \<subseteq> set (insert_points old (map snd it))"
  by (cases "(alnum, n, it, old, new)" rule: turn.cases) auto

lemma turn_index:
  "turn alnum n it old new = (f, i, it', old', new') \<Longrightarrow> i = (if it = [] then n else fst (hd it))"
  by (cases "(alnum, n, it, old, new)" rule: turn.cases) auto

text \<open>A pure insertion is the only turn that leaves \<open>old_pos\<close> where it is and may skip a position.\<close>

lemma turn_skip:
  assumes "turn alnum n it old new = (f, i, it', old', new')" "it \<noteq> []"
    "old \<le> q" "f q b = None" "p < q" "old' \<le> p" "f p a = Some v"
  shows "p \<in> set (insert_points old (map snd it))"
  using assms
  by (cases "(alnum, n, it, old, new)" rule: turn.cases)
     (auto simp: replace_map_def split: if_splits)

definition reached :: "operation list \<Rightarrow> nat \<Rightarrow> (nat \<times> operation) list \<Rightarrow> nat \<Rightarrow> nat \<Rightarrow> bool" where
  "reached changes k it old new \<longleftrightarrow>
     k \<le> length changes \<and> it = drop k (List.enumerate 0 changes) \<and>
     old = consumed (take k changes) \<and> new = produced (take k changes) \<and>
     set (insert_points old (map snd it)) \<subseteq> set (insert_points 0 changes)"

lemma reached_start: "reached changes 0 (List.enumerate 0 changes) 0 0"
  by (simp add: reached_def)

lemma drop_enumerate: "drop k (List.enumerate 0 xs) = List.enumerate k (drop k xs)"
  by (rule nth_equalityI) (auto simp: nth_enumerate_eq)

lemma drop_eq_ConsD: "drop k xs = y # ys \<Longrightarrow> k < length xs \<and> xs ! k = y \<and> drop (Suc k) xs = ys"
  by (metis Cons_nth_drop_Suc drop_eq_Nil list.distinct(1) list.inject not_le_imp_less)

lemma take_Suc_consumed:
  assumes "drop k changes = c # cs"
  shows "consumed (take (Suc k) changes) = consumed (take k changes) + consumed [c]"
    and "produced (take (Suc k) changes) = produced (take k changes) + produced [c]"
  using drop_eq_ConsD [OF assms] by (auto simp: take_Suc_conv_app_nth)

lemma reached_turn:
  assumes r: "reached changes k it old new"
    and t: "turn alnum (length changes) it old new = (f, i, it', old', new')"
  shows "i = k" and "it \<noteq> [] \<Longrightarrow> \<exists>k'. reached changes k' it' old' new'"
proof -
  from r have it: "it = List.enumerate k (drop k changes)" and k: "k \<le> length changes"
    and on: "old = consumed (take k changes)" "new = produced (take k changes)"
    by (auto simp: reached_def drop_enumerate)
  have pts: "set (insert_points old' (map snd it')) \<subseteq> set (insert_points 0 changes)"
    using turn_insert_points [OF t] r by (auto simp: reached_def)
  show "i = k"
    using turn_index [OF t] it k by (cases "drop k changes") auto
  show "\<exists>k'. reached changes k' it' old' new'" if ne: "it \<noteq> []"
  proof -
    obtain c cs where d: "drop k changes = c # cs" using ne it by (cases "drop k changes") auto
    note d1 = drop_eq_ConsD [OF d] take_Suc_consumed [OF d]
    show ?thesis
    proof (cases "\<exists>s n ds. c = Insert s \<and> cs = Delete n # ds")
      case True
      then obtain s n ds where c: "c = Insert s" "cs = Delete n # ds" by blast
      have d': "drop (Suc k) changes = Delete n # ds" using d1 c by simp
      note d2 = drop_eq_ConsD [OF d'] take_Suc_consumed [OF d']
      have "reached changes (Suc (Suc k)) it' old' new'"
        using t it d c d1 d2 on pts by (auto simp: reached_def drop_enumerate)
      then show ?thesis by blast
    next
      case False
      have "reached changes (Suc k) it' old' new'"
      proof (cases c)
        case (Insert s)
        with False d t it d1 on pts show ?thesis
          by (cases cs; cases "hd cs") (auto simp: reached_def drop_enumerate)
      qed (use d t it d1 on pts in \<open>auto simp: reached_def drop_enumerate\<close>)
      then show ?thesis by blast
    qed
  qed
qed

lemma rewind_reached:
  assumes "k \<le> length changes"
  shows "rewind changes p (rev (List.enumerate 0 (take k changes)))
      (consumed (take k changes)) (produced (take k changes)) it =
    Some (if k = 0 then it else List.enumerate 0 changes, 0, 0)"
  using assms
proof (induction k arbitrary: it)
  case 0
  then show ?case by simp
next
  case (Suc k)
  then have k: "k < length changes" by simp
  have en: "List.enumerate 0 (take (Suc k) changes) = List.enumerate 0 (take k changes) @ [(k, changes ! k)]"
    using k by (simp add: take_Suc_conv_app_nth enumerate_append_eq)
  have IH: "rewind changes p (rev (List.enumerate 0 (take k changes)))
      (consumed (take k changes)) (produced (take k changes)) it' =
    Some (if k = 0 then it' else List.enumerate 0 changes, 0, 0)" for it'
    using Suc by simp
  show ?case
    by (cases "changes ! k"; cases "k = 0")
       (use k en IH in \<open>simp_all add: take_Suc_conv_app_nth\<close>)
qed

lemma map_loop_results:
  "map_loop f old ps = (rs, rest, e) \<Longrightarrow>
   (\<forall>x\<in>set (take (length rs) ps). old \<le> fst x \<and> f (fst x) (snd x) \<noteq> None) \<and>
   rs = map (\<lambda>(p, a). the (f p a)) (take (length rs) ps) \<and> (e = Finished \<longrightarrow> rest = [])"
proof (induction f old ps arbitrary: rs rest e rule: map_loop.induct)
  case (2 f old p a ps)
  show ?case
  proof (cases "p < old \<or> f p a = None")
    case True
    with "2.prems" show ?thesis by (auto split: if_splits)
  next
    case False
    then obtain v rs' where v: "f p a = Some v" and m: "map_loop f old ps = (rs', rest, e)"
      and rs: "rs = v # rs'"
      using "2.prems" by (cases "map_loop f old ps") auto
    from "2.IH" [OF _ v m] False v rs show ?thesis by auto
  qed
qed simp

text \<open>
  The one-pass loop from any operation it can have reached.  A position still to be mapped is
  either behind (the loop steps back for it) or is mapped by the operations ahead.
\<close>

definition ahead :: "(uchar \<Rightarrow> bool) \<Rightarrow> operation list \<Rightarrow> (nat \<times> operation) list \<Rightarrow> nat \<Rightarrow> nat \<Rightarrow>
    (nat \<times> assoc) list \<Rightarrow> bool" where
  "ahead alnum changes it old new ps \<longleftrightarrow>
     (\<forall>(p, a)\<in>set ps. old \<le> p \<longrightarrow>
        map_ref alnum changes 0 0 p a = map_ref alnum (map snd it) old new p a)"

lemma ahead_drop: "ahead alnum changes it old new ps \<Longrightarrow> ahead alnum changes it old new (drop n ps)"
  by (auto simp: ahead_def dest: in_set_dropD)

lemma ahead_turn:
  assumes t: "turn alnum n it old new = (f, i, it', old', new')" and ne: "it \<noteq> []"
    and a: "ahead alnum changes it old new ((q, b) # ps)"
    and q: "old \<le> q" "f q b = None"
    and tame: "tame (insert_points 0 changes) ((q, b) # ps)"
    and pts: "set (insert_points old (map snd it)) \<subseteq> set (insert_points 0 changes)"
    and mono: "old \<le> old'"
  shows "ahead alnum changes it' old' new' ((q, b) # ps)"
  unfolding ahead_def
proof (intro ballI, clarify)
  fix p c assume pc: "(p, c) \<in> set ((q, b) # ps)" and le: "old' \<le> p"
  have eq: "map_ref alnum changes 0 0 p c = map_ref alnum (map snd it) old new p c"
    using a pc le mono by (auto simp: ahead_def)
  have "f p c = None"
  proof (rule ccontr)
    assume "f p c \<noteq> None"
    then obtain v where v: "f p c = Some v" by blast
    have "(p, c) \<noteq> (q, b)" using v q by auto
    show False
    proof (cases "p < q")
      case True
      then have "p \<in> set (insert_points 0 changes)"
        using turn_skip [OF t ne q _ le v] pts by auto
      with True tame pc show False by auto
    next
      case False
      with t ne q le v show False
        by (cases "(alnum, n, it, old, new)" rule: turn.cases)
           (auto simp: replace_map_def split: if_splits)
    qed
  qed
  then show "map_ref alnum changes 0 0 p c = map_ref alnum (map snd it') old' new' p c"
    using eq turn_map_ref [OF t, of p c] ne by simp
qed

lemma turn_mono: "turn alnum n it old new = (f, i, it', old', new') \<Longrightarrow> old \<le> old'"
  by (cases "(alnum, n, it, old, new)" rule: turn.cases) auto

lemma update_loop_correct:
  "reached changes k it old new \<Longrightarrow> ahead alnum changes it old new ps \<Longrightarrow>
   tame (insert_points 0 changes) ps \<Longrightarrow>
   update_loop alnum changes it old new ps =
     those (map (\<lambda>(p, a). map_ref alnum changes 0 0 p a) ps)"
proof (induction alnum changes it old new ps arbitrary: k rule: update_loop.induct)
  case (1 alnum changes it old new ps)
  let ?ref = "\<lambda>(p, a). map_ref alnum changes 0 0 p a"
  obtain f i it' old' new' where t: "turn alnum (length changes) it old new = (f, i, it', old', new')"
    by (cases "turn alnum (length changes) it old new")
  obtain rs rest e where m: "map_loop f old ps = (rs, rest, e)" by (cases "map_loop f old ps")
  note res = map_loop_results [OF m] and rst = map_loop_rest [OF m]
  have hits: "those (map ?ref (take (length rs) ps)) = Some rs"
  proof -
    have hit: "?ref x = Some ((\<lambda>(p, a). the (f p a)) x)" if x: "x \<in> set (take (length rs) ps)" for x
    proof -
      obtain p a where pa: "x = (p, a)" by (cases x)
      with x res obtain v where v: "old \<le> p" "f p a = Some v" by fastforce
      have "map_ref alnum changes 0 0 p a = map_ref alnum (map snd it) old new p a"
        using "1.prems"(2) x pa v in_set_takeD unfolding ahead_def by fastforce
      then show ?thesis using turn_map_ref [OF t, of p a] v pa by simp
    qed
    from those_map_Some [of "take (length rs) ps" ?ref, OF hit] res show ?thesis by simp
  qed
  have split: "those (map ?ref ps) = map_option ((@) rs) (those (map ?ref rest))"
    using hits those_append [of "map ?ref (take (length rs) ps)" "map ?ref (drop (length rs) ps)"] rst
    by (simp flip: map_append)
  have rest_ok: "ahead alnum changes it old new rest" "tame (insert_points 0 changes) rest"
    using "1.prems" rst by (auto intro: ahead_drop tame_drop)
  note idx = reached_turn [OF "1.prems"(1) t]
  show ?case
  proof (cases e)
    case Finished
    then show ?thesis
      using t m res split by (simp add: update_loop.simps [of _ _ it])
  next
    case Unsorted
    with m map_loop_Unsorted obtain p a ps' where r: "rest = (p, a) # ps'" "p < old" by blast
    have "k \<noteq> 0" using r(2) "1.prems"(1) by (cases k) (auto simp: reached_def)
    then have rw: "rewind changes (fst (hd rest)) (rev (List.enumerate 0 (take i changes))) old new it' =
        Some (List.enumerate 0 changes, 0, 0)"
      using rewind_reached [of k changes] "1.prems"(1) idx(1) by (simp add: reached_def)
    have "update_loop alnum changes (List.enumerate 0 changes) 0 0 rest = those (map ?ref rest)"
      using "1.IH"(1) [OF t [symmetric] refl refl refl refl m [symmetric] refl Unsorted rw refl refl
          reached_start] rest_ok
      by (simp add: ahead_def)
    then show ?thesis
      using t m Unsorted rw split by (simp add: update_loop.simps [of _ _ it])
  next
    case Break
    with m map_loop_Break obtain p a ps' where r: "rest = (p, a) # ps'" "old \<le> p" "f p a = None"
      by blast
    show ?thesis
    proof (cases "it = []")
      case True
      have "?ref (p, a) = None"
        using rest_ok(1) r turn_map_ref [OF t, of p a] True by (simp add: ahead_def)
      then have "those (map ?ref rest) = None" using r by simp
      then show ?thesis unfolding update_loop.simps [of alnum changes it]
        using split by (simp only: t m Break Let_def prod.case map_exit.case if_P [OF True] option.map)
    next
      case False
      then obtain k' where k': "reached changes k' it' old' new'" using idx(2) by blast
      have "ahead alnum changes it' old' new' rest"
        using ahead_turn [OF t False rest_ok(1) [unfolded r(1)] r(2,3) rest_ok(2) [unfolded r(1)] _
            turn_mono [OF t]] "1.prems"(1) r(1)
        unfolding reached_def by blast
      then have "update_loop alnum changes it' old' new' rest = those (map ?ref rest)"
        using "1.IH"(2) [OF t [symmetric] refl refl refl refl m [symmetric] refl Break False k'] rest_ok
        by simp
      then show ?thesis
        using t m Break False split by (simp add: update_loop.simps [of _ _ it])
    qed
  qed
qed

lemma update_positions_ref:
  "tame (insert_points 0 (cs_changes cs)) ps \<Longrightarrow>
   update_positions alnum cs ps = those (map (\<lambda>(p, a). map_ref alnum (cs_changes cs) 0 0 p a) ps)"
  unfolding update_positions_def
  by (rule update_loop_correct [OF reached_start]) (simp add: ahead_def)

lemma map_pos_ref: "map_pos alnum cs p a = map_ref alnum (cs_changes cs) 0 0 p a"
  by (simp add: map_pos_def update_positions_ref split: option.split)

section \<open>Bounds\<close>

lemma insert_offset_le: "insert_offset alnum a s \<le> length s"
  by (cases a) (auto simp: length_takeWhile_le)

lemma map_ref_Some:
  "old \<le> p \<Longrightarrow> p \<le> old + consumed ops \<Longrightarrow>
   \<exists>q. map_ref alnum ops old new p a = Some q \<and> new \<le> q \<and> q \<le> new + produced ops"
proof (induction alnum ops old new p a rule: map_ref.induct [case_names 1 2 3 4 51 52 53])
  case (4 alnum s n ops old new p a)
  show ?case
  proof (cases "p < old + n")
    case True
    then show ?thesis
      using insert_offset_le [of alnum a s] "4.prems" by auto
  next
    case False
    with "4.IH" "4.prems" obtain q where
      "map_ref alnum ops (old + n) (new + length s) p a = Some q"
      "new + length s \<le> q" "q \<le> new + length s + produced ops" by auto
    with False show ?thesis by simp
  qed
next
  case (2 alnum n ops old new p a)
  then show ?case by (cases "p < old + n") force+
next
  case (3 alnum n ops old new p a)
  then show ?case by (cases "p < old + n") force+
next
  case (51 alnum s old new p a)
  then show ?case using insert_offset_le [of alnum a s] by auto
next
  case (52 alnum s v ops old new p a)
  then show ?case using insert_offset_le [of alnum a s] by (cases "p = old") force+
next
  case (53 alnum s v ops old new p a)
  then show ?case using insert_offset_le [of alnum a s] by (cases "p = old") force+
qed auto

lemma map_ref_None: "old + consumed ops < p \<Longrightarrow> map_ref alnum ops old new p a = None"
  by (induction alnum ops old new p a rule: map_ref.induct) auto

text \<open>A character that is kept is found at the mapped position.\<close>

fun retained :: "operation list \<Rightarrow> nat \<Rightarrow> bool" where
  "retained [] p = False"
| "retained (Retain n # ops) p \<longleftrightarrow> p < n \<or> retained ops (p - n)"
| "retained (Delete n # ops) p \<longleftrightarrow> n \<le> p \<and> retained ops (p - n)"
| "retained (Insert s # ops) p = retained ops p"

lemma retained_consumed: "retained ops p \<Longrightarrow> p < consumed ops"
  by (induction ops p rule: retained.induct) auto

lemma canonical_tl: "canonical (op # ops) \<Longrightarrow> canonical ops"
  by (cases ops) auto

lemma retained_map:
  "retained ops (p - old) \<Longrightarrow> canonical ops \<Longrightarrow> old \<le> p \<Longrightarrow> consumed ops \<le> length xs \<Longrightarrow> a \<in> {After, AfterSticky} \<Longrightarrow>
   \<exists>q. map_ref alnum ops old new p a = Some (new + q) \<and>
     q < produced ops \<and> edit ops xs ! q = xs ! (p - old)"
proof (induction alnum ops old new p a arbitrary: xs rule: map_ref.induct [case_names 1 2 3 4 51 52 53])
  case (2 alnum n ops old new p a)
  show ?case
  proof (cases "p < old + n")
    case True
    with "2.prems" show ?thesis by (auto simp: nth_append intro!: exI [of _ "p - old"])
  next
    case False
    have "\<exists>q. map_ref alnum ops (old + n) (new + n) p a = Some (new + n + q) \<and>
      q < produced ops \<and> edit ops (drop n xs) ! q = drop n xs ! (p - (old + n))"
      by (rule "2.IH") (use False "2.prems" in \<open>auto dest: canonical_tl\<close>)
    then obtain q where "map_ref alnum ops (old + n) (new + n) p a = Some (new + n + q)"
      "q < produced ops" "edit ops (drop n xs) ! q = drop n xs ! (p - (old + n))" by blast
    with False "2.prems" show ?thesis by (intro exI [of _ "n + q"]) (simp add: nth_append)
  qed
next
  case (3 alnum n ops old new p a)
  have keep: "\<not> p < old + n" using "3.prems" by auto
  have "\<exists>q. map_ref alnum ops (old + n) new p a = Some (new + q) \<and>
    q < produced ops \<and> edit ops (drop n xs) ! q = drop n xs ! (p - (old + n))"
    by (rule "3.IH") (use keep "3.prems" in \<open>auto dest: canonical_tl\<close>)
  with keep "3.prems" show ?case by auto
next
  case (4 alnum s n ops old new p a)
  have keep: "\<not> p < old + n" using "4.prems" by auto
  have "\<exists>q. map_ref alnum ops (old + n) (new + length s) p a = Some (new + length s + q) \<and>
    q < produced ops \<and> edit ops (drop n xs) ! q = drop n xs ! (p - (old + n))"
    by (rule "4.IH") (use keep "4.prems" in \<open>auto dest: canonical_tl\<close>)
  then obtain q where "map_ref alnum ops (old + n) (new + length s) p a = Some (new + length s + q)"
    "q < produced ops" "edit ops (drop n xs) ! q = drop n xs ! (p - (old + n))" by blast
  with keep "4.prems" show ?case by (intro exI [of _ "length s + q"]) (simp add: nth_append)
next
  case (52 alnum s v ops old new p a)
  have tail: "canonical (Retain v # ops)" using "52.prems" by auto
  then have v: "0 < v" using canonical_nonempty by fastforce
  show ?case
  proof (cases "p = old")
    case True
    with v "52.prems" show ?thesis
      by (intro exI [of _ "length s"]) (auto simp: nth_append)
  next
    case False
    have "\<exists>q. map_ref alnum (Retain v # ops) old (new + length s) p a = Some (new + length s + q) \<and>
      q < produced (Retain v # ops) \<and> edit (Retain v # ops) xs ! q = xs ! (p - old)"
      by (rule "52.IH") (use False tail "52.prems" in auto)
    then obtain q where "map_ref alnum (Retain v # ops) old (new + length s) p a = Some (new + length s + q)"
      "q < produced (Retain v # ops)" "edit (Retain v # ops) xs ! q = xs ! (p - old)" by blast
    with False show ?thesis
      by (intro exI [of _ "length s + q"]) (simp add: nth_append del: map_ref.simps(2))
  qed
qed (auto dest: canonical_tl)

text \<open>A position that stays behind the character before it.\<close>

lemma map_ref_start:
  "canonical ops \<Longrightarrow> a \<in> {Before, BeforeSticky} \<Longrightarrow> map_ref alnum ops old new old a = Some new"
proof (cases "(alnum, ops, old, new, old, a)" rule: map_ref.cases)
  case (4 al s n rest o' n' p' a')
  assume "canonical ops" "a \<in> {Before, BeforeSticky}"
  with 4 show ?thesis by (auto simp: stay_at_gaps_def dest!: canonical_nonempty)
qed (auto dest: canonical_nonempty)

lemma retained_before:
  "retained ops (p - Suc old) \<Longrightarrow> canonical ops \<Longrightarrow> old < p \<Longrightarrow> consumed ops \<le> length xs \<Longrightarrow> a \<in> {Before, BeforeSticky} \<Longrightarrow>
   \<exists>q. map_ref alnum ops old new p a = Some (new + Suc q) \<and>
     q < produced ops \<and> edit ops xs ! q = xs ! (p - Suc old)"
proof (induction alnum ops old new p a arbitrary: xs rule: map_ref.induct [case_names 1 2 3 4 51 52 53])
  case (2 alnum n ops old new p a)
  have can: "canonical ops" using "2.prems"(2) by (rule canonical_tl)
  consider "p < old + n" | "p = old + n" | "old + n < p" by linarith
  then show ?case
  proof cases
    case 1
    with "2.prems" show ?thesis by (auto simp: nth_append intro!: exI [of _ "p - Suc old"])
  next
    case 2
    with "2.prems" show ?thesis
      using map_ref_start [OF can "2.prems"(5), of alnum "old + n" "new + n"]
      by (auto simp: nth_append intro!: exI [of _ "n - 1"])
  next
    case 3
    have "\<exists>q. map_ref alnum ops (old + n) (new + n) p a = Some (new + n + Suc q) \<and>
      q < produced ops \<and> edit ops (drop n xs) ! q = drop n xs ! (p - Suc (old + n))"
      by (rule "2.IH") (use 3 can "2.prems" in auto)
    then obtain q where "map_ref alnum ops (old + n) (new + n) p a = Some (new + n + Suc q)"
      "q < produced ops" "edit ops (drop n xs) ! q = drop n xs ! (p - Suc (old + n))" by blast
    with 3 "2.prems" show ?thesis by (intro exI [of _ "n + q"]) (simp add: nth_append)
  qed
next
  case (3 alnum n ops old new p a)
  have keep: "\<not> p < old + n" "old + n < p" using "3.prems" by auto
  have "\<exists>q. map_ref alnum ops (old + n) new p a = Some (new + Suc q) \<and>
    q < produced ops \<and> edit ops (drop n xs) ! q = drop n xs ! (p - Suc (old + n))"
    by (rule "3.IH") (use keep "3.prems" in \<open>auto dest: canonical_tl\<close>)
  with keep "3.prems" show ?case by auto
next
  case (4 alnum s n ops old new p a)
  have keep: "\<not> p < old + n" "old + n < p" using "4.prems" by auto
  have "\<exists>q. map_ref alnum ops (old + n) (new + length s) p a = Some (new + length s + Suc q) \<and>
    q < produced ops \<and> edit ops (drop n xs) ! q = drop n xs ! (p - Suc (old + n))"
    by (rule "4.IH") (use keep "4.prems" in \<open>auto dest: canonical_tl\<close>)
  then obtain q where "map_ref alnum ops (old + n) (new + length s) p a = Some (new + length s + Suc q)"
    "q < produced ops" "edit ops (drop n xs) ! q = drop n xs ! (p - Suc (old + n))" by blast
  with keep "4.prems" show ?case by (intro exI [of _ "length s + q"]) (simp add: nth_append)
next
  case (52 alnum s v ops old new p a)
  have tail: "canonical (Retain v # ops)" using "52.prems" by auto
  have "\<exists>q. map_ref alnum (Retain v # ops) old (new + length s) p a = Some (new + length s + Suc q) \<and>
    q < produced (Retain v # ops) \<and> edit (Retain v # ops) xs ! q = xs ! (p - Suc old)"
    by (rule "52.IH") (use tail "52.prems" in auto)
  then obtain q where "map_ref alnum (Retain v # ops) old (new + length s) p a = Some (new + length s + Suc q)"
    "q < produced (Retain v # ops)" "edit (Retain v # ops) xs ! q = xs ! (p - Suc old)" by blast
  with "52.prems"(3) show ?case
    by (intro exI [of _ "length s + q"]) (simp add: nth_append del: map_ref.simps(2))
qed (auto dest: canonical_tl)

section \<open>Properties\<close>

text \<open>
  C6: The sweep.  On positions that are sorted (or, more generally, none of which comes after a
  larger one while sitting at a pure insertion) one pass of \<open>update_positions\<close>, rewinding where it
  must, gives the position that \<open>map_pos\<close> gives for each of them alone, and panics when one of
  them is past the end.
\<close>

theorem update_positions_pointwise:
  assumes "tame (insert_points 0 (cs_changes cs)) ps"
  shows "update_positions alnum cs ps = those (map (\<lambda>(p, a). map_pos alnum cs p a) ps)"
  using update_positions_ref [OF assms] by (simp add: map_pos_ref)

theorem update_positions_pointwise_witness:
  "update_positions (\<lambda>c. 64 < c) sample_edit [(1, Before), (3, After)] =
     those (map (\<lambda>(p, a). map_pos (\<lambda>c. 64 < c) sample_edit p a) [(1, Before), (3, After)])"
  by (rule update_positions_pointwise) (simp add: sample_edit_def)

text \<open>
  The sweep is not equivalent to \<open>map_pos\<close> on every list: after a larger position the pass has
  already moved over an insertion at the start of the text and does not go back in front of it.
\<close>

theorem update_positions_unsorted:
  "update_positions alnum \<lparr>cs_changes = [Insert [7, 8], Retain 3], cs_len = 3, cs_len_after = 5\<rparr>
       [(1, Before), (0, Before)] = Some [3, 2] \<and>
   map_pos alnum \<lparr>cs_changes = [Insert [7, 8], Retain 3], cs_len = 3, cs_len_after = 5\<rparr> 0 Before = Some 0"
  unfolding update_positions_def map_pos_ref
  by (subst update_loop.simps, simp, subst update_loop.simps, simp)

text \<open>
  C10: A position follows its character.  Mapping a position panics only past the end of the text, or past
  its start when the change set is empty, and lands in the edited text.  A character no deletion covers
  is found again at its mapped position when positions stick to what follows them (\<open>After\<close>,
  \<open>AfterSticky\<close>), and the position behind it is mapped right behind it when they stick to what precedes
  them (\<open>Before\<close>, \<open>BeforeSticky\<close>).
\<close>

theorem map_pos_follows_char:
  assumes "cs_ok cs" "length xs = cs_len cs"
  shows "(map_pos alnum cs p a = None \<longleftrightarrow> cs_len cs < p \<or> cs_changes cs = [] \<and> 0 < p) \<and>
    (\<forall>q. map_pos alnum cs p a = Some q \<longrightarrow> q \<le> cs_len_after cs) \<and>
    (retained (cs_changes cs) p \<and> a \<in> {After, AfterSticky} \<longrightarrow>
      (\<exists>q<cs_len_after cs. map_pos alnum cs p a = Some q \<and> run (cs_changes cs) xs ! q = xs ! p)) \<and>
    (0 < p \<and> retained (cs_changes cs) (p - 1) \<and> a \<in> {Before, BeforeSticky} \<longrightarrow>
      (\<exists>q<cs_len_after cs. map_pos alnum cs p a = Some (Suc q) \<and> run (cs_changes cs) xs ! q = xs ! (p - 1)))"
proof (cases "cs_changes cs = []")
  case True
  then show ?thesis using assms(1) by (auto simp: map_pos_ref cs_ok_def cs_exact_def)
next
  case False
  then have ex: "consumed (cs_changes cs) = cs_len cs" "produced (cs_changes cs) = cs_len_after cs" "canonical (cs_changes cs)"
    using assms(1) by (auto simp: cs_ok_def cs_exact_def)
  have len: "length (edit (cs_changes cs) xs) = cs_len_after cs"
    using length_edit [of "cs_changes cs" xs] ex assms(2) by simp
  have some: "\<exists>q. map_pos alnum cs p a = Some q \<and> q \<le> cs_len_after cs" if "p \<le> cs_len cs"
    using map_ref_Some [of 0 p "cs_changes cs" alnum 0 a] ex that by (auto simp: map_pos_ref)
  have none: "map_pos alnum cs p a = None" if "cs_len cs < p"
    using map_ref_None [of 0 "cs_changes cs" p] ex that by (simp add: map_pos_ref)
  show ?thesis
    using some none False ex(2,3) len assms(2) retained_map [of "cs_changes cs" p 0 xs a alnum 0]
      retained_before [of "cs_changes cs" p 0 xs a alnum 0] ex(1)
    by (cases "p \<le> cs_len cs") (auto simp: map_pos_ref run_def nth_append)
qed

theorem map_pos_follows_char_witness:
  "(\<exists>q<4. map_pos (\<lambda>c. 64 < c) sample_edit 3 After = Some q \<and> run (cs_changes sample_edit) [1, 2, 3, 4] ! q = 4) \<and>
   map_pos (\<lambda>c. 64 < c) sample_edit 5 After = None"
  using map_pos_follows_char [OF sample_edit_ok(1), of "[1, 2, 3, 4]" "\<lambda>c. 64 < c" 3 After]
    map_pos_follows_char [OF sample_edit_ok(1), of "[1, 2, 3, 4]" "\<lambda>c. 64 < c" 5 After]
  by (auto simp: sample_edit_def)

end
