(* ===== verification/Ranges.thy ===== *)
theory Ranges
  imports Positions
begin

text \<open>
  \<open>Range\<close> of \<open>zmax-core/src/selection.rs\<close>: an anchor and a head, gap-indexed, with the queries
  and transformations the editor makes of them.  What a range needs to know of the text is the
  argument \<open>text_api\<close>: the length, the grapheme boundaries around a position (the crate
  \<open>unicode-segmentation\<close>, walked chunk by chunk in \<open>graphemes.rs\<close>) and the line of a position
  (\<open>ropey\<close>); \<open>text_laws\<close> states what is documented of them.
\<close>

datatype direction = Forward | Backward

record sel_range =
  anchor :: nat
  head :: nat
  old_visual_position :: "(nat \<times> nat) option"

definition r_new :: "nat \<Rightarrow> nat \<Rightarrow> sel_range" where
  "r_new a h = \<lparr>anchor = a, head = h, old_visual_position = None\<rparr>"

definition r_point :: "nat \<Rightarrow> sel_range" where
  "r_point h = r_new h h"

definition r_from :: "sel_range \<Rightarrow> nat" where
  "r_from r = min (anchor r) (head r)"

definition r_to :: "sel_range \<Rightarrow> nat" where
  "r_to r = max (anchor r) (head r)"

definition r_len :: "sel_range \<Rightarrow> nat" where
  "r_len r = r_to r - r_from r"

definition r_is_empty :: "sel_range \<Rightarrow> bool" where
  "r_is_empty r \<longleftrightarrow> anchor r = head r"

definition r_direction :: "sel_range \<Rightarrow> direction" where
  "r_direction r = (if head r < anchor r then Backward else Forward)"

definition r_flip :: "sel_range \<Rightarrow> sel_range" where
  "r_flip r = \<lparr>anchor = head r, head = anchor r, old_visual_position = old_visual_position r\<rparr>"

definition r_with_direction :: "sel_range \<Rightarrow> direction \<Rightarrow> sel_range" where
  "r_with_direction r d = (if r_direction r = d then r else r_flip r)"

definition overlaps :: "sel_range \<Rightarrow> sel_range \<Rightarrow> bool" where
  "overlaps self other \<longleftrightarrow>
     r_from self = r_from other \<or> (r_to self > r_from other \<and> r_to other > r_from self)"

definition contains_range :: "sel_range \<Rightarrow> sel_range \<Rightarrow> bool" where
  "contains_range self other \<longleftrightarrow> r_from self \<le> r_from other \<and> r_to self \<ge> r_to other"

definition r_contains :: "sel_range \<Rightarrow> nat \<Rightarrow> bool" where
  "r_contains r pos \<longleftrightarrow> r_from r \<le> pos \<and> pos < r_to r"

text \<open>The two positions of a range in the order they are mapped, and the range put back together.\<close>

definition positions_to_map :: "sel_range \<Rightarrow> (nat \<times> assoc) list" where
  "positions_to_map r =
     (if anchor r = head r then [(anchor r, AfterSticky), (head r, AfterSticky)]
      else if anchor r < head r then [(anchor r, AfterSticky), (head r, BeforeSticky)]
      else [(head r, AfterSticky), (anchor r, BeforeSticky)])"

definition with_positions :: "sel_range \<Rightarrow> nat \<Rightarrow> nat \<Rightarrow> sel_range" where
  "with_positions r p q =
     (if anchor r \<le> head r then \<lparr>anchor = p, head = q, old_visual_position = None\<rparr>
      else \<lparr>anchor = q, head = p, old_visual_position = None\<rparr>)"

definition r_map :: "(uchar \<Rightarrow> bool) \<Rightarrow> change_set \<Rightarrow> sel_range \<Rightarrow> sel_range option" where
  "r_map alnum changes r =
     (if cs_is_empty changes then Some r
      else case update_positions alnum changes (positions_to_map r) of
             Some [p, q] \<Rightarrow> Some (with_positions r p q)
           | _ \<Rightarrow> None)"

definition r_extend :: "sel_range \<Rightarrow> nat \<Rightarrow> nat \<Rightarrow> sel_range option" where
  "r_extend r f t =
     (if \<not> f \<le> t then None
      else if anchor r \<le> head r
        then Some \<lparr>anchor = min (anchor r) f, head = max (head r) t, old_visual_position = None\<rparr>
        else Some \<lparr>anchor = max (anchor r) t, head = min (head r) f, old_visual_position = None\<rparr>)"

definition merge :: "sel_range \<Rightarrow> sel_range \<Rightarrow> sel_range" where
  "merge self other =
     (if anchor self > head self \<and> anchor other > head other
      then \<lparr>anchor = max (anchor self) (anchor other), head = min (head self) (head other),
            old_visual_position = None\<rparr>
      else \<lparr>anchor = min (r_from self) (r_from other), head = max (r_to self) (r_to other),
            old_visual_position = None\<rparr>)"

section \<open>Grapheme alignment and the block cursor\<close>

record text_api =
  t_len_chars :: nat
  next_grapheme_boundary :: "nat \<Rightarrow> nat"
  prev_grapheme_boundary :: "nat \<Rightarrow> nat"
  char_to_line :: "nat \<Rightarrow> nat"

definition text_laws :: "text_api \<Rightarrow> (nat \<Rightarrow> bool) \<Rightarrow> bool" where
  "text_laws T boundary \<longleftrightarrow>
     boundary 0 \<and> boundary (t_len_chars T) \<and>
     (\<forall>i. i < t_len_chars T \<longrightarrow>
        i < next_grapheme_boundary T i \<and> next_grapheme_boundary T i \<le> t_len_chars T \<and>
        boundary (next_grapheme_boundary T i) \<and>
        (\<forall>j. i < j \<and> j < next_grapheme_boundary T i \<longrightarrow> \<not> boundary j)) \<and>
     next_grapheme_boundary T (t_len_chars T) = t_len_chars T \<and>
     prev_grapheme_boundary T 0 = 0 \<and>
     (\<forall>i. 0 < i \<longrightarrow> i \<le> t_len_chars T \<longrightarrow>
        prev_grapheme_boundary T i < i \<and> boundary (prev_grapheme_boundary T i) \<and>
        (\<forall>j. prev_grapheme_boundary T i < j \<and> j < i \<longrightarrow> \<not> boundary j)) \<and>
     (\<forall>i j. i \<le> j \<longrightarrow> j \<le> t_len_chars T \<longrightarrow> char_to_line T i \<le> char_to_line T j)"

definition ensure_grapheme_boundary_next :: "text_api \<Rightarrow> nat \<Rightarrow> nat" where
  "ensure_grapheme_boundary_next T char_idx =
     (if char_idx = 0 then char_idx else next_grapheme_boundary T (char_idx - 1))"

definition ensure_grapheme_boundary_prev :: "text_api \<Rightarrow> nat \<Rightarrow> nat" where
  "ensure_grapheme_boundary_prev T char_idx =
     (if char_idx = t_len_chars T then char_idx else prev_grapheme_boundary T (char_idx + 1))"

definition line_range :: "text_api \<Rightarrow> sel_range \<Rightarrow> nat \<times> nat" where
  "line_range T r =
     (let f = r_from r;
          t = (if r_is_empty r then r_to r else max (prev_grapheme_boundary T (r_to r)) f)
      in (char_to_line T f, char_to_line T t))"

definition grapheme_aligned :: "text_api \<Rightarrow> sel_range \<Rightarrow> sel_range" where
  "grapheme_aligned T r =
     (let (new_anchor, new_head) =
        (if anchor r = head r then
           (let pos = ensure_grapheme_boundary_prev T (anchor r) in (pos, pos))
         else if anchor r < head r then
           (ensure_grapheme_boundary_prev T (anchor r), ensure_grapheme_boundary_next T (head r))
         else
           (ensure_grapheme_boundary_next T (anchor r), ensure_grapheme_boundary_prev T (head r)))
      in \<lparr>anchor = new_anchor, head = new_head,
          old_visual_position = (if new_anchor = anchor r then old_visual_position r else None)\<rparr>)"

definition min_width_1 :: "text_api \<Rightarrow> sel_range \<Rightarrow> sel_range" where
  "min_width_1 T r =
     (if anchor r = head r
      then \<lparr>anchor = anchor r, head = next_grapheme_boundary T (head r),
            old_visual_position = old_visual_position r\<rparr>
      else r)"

definition r_cursor :: "text_api \<Rightarrow> sel_range \<Rightarrow> nat" where
  "r_cursor T r = (if head r > anchor r then prev_grapheme_boundary T (head r) else head r)"

definition put_cursor :: "text_api \<Rightarrow> sel_range \<Rightarrow> nat \<Rightarrow> bool \<Rightarrow> sel_range" where
  "put_cursor T r char_idx ext =
     (if ext then
        let a = (if head r \<ge> anchor r \<and> char_idx < anchor r then next_grapheme_boundary T (anchor r)
                 else if head r < anchor r \<and> char_idx \<ge> anchor r
                   then prev_grapheme_boundary T (anchor r)
                 else anchor r)
        in if a \<le> char_idx then r_new a (next_grapheme_boundary T char_idx) else r_new a char_idx
      else r_point char_idx)"

definition cursor_line :: "text_api \<Rightarrow> sel_range \<Rightarrow> nat" where
  "cursor_line T r = char_to_line T (r_cursor T r)"

section \<open>Elementary facts\<close>

lemma r_new_simps [simp]:
  "anchor (r_new a h) = a" "head (r_new a h) = h" "old_visual_position (r_new a h) = None"
  by (simp_all add: r_new_def)

lemma r_from_new [simp]: "r_from (r_new a h) = min a h" and r_to_new [simp]: "r_to (r_new a h) = max a h"
  by (simp_all add: r_from_def r_to_def)

lemma r_from_le_to [simp]: "r_from r \<le> r_to r"
  by (simp add: r_from_def r_to_def)

text \<open>A merged range is its two ends and whether both inputs point backward.\<close>

lemma merge_eq:
  "merge a b =
     (if head a < anchor a \<and> head b < anchor b
      then \<lparr>anchor = max (r_to a) (r_to b), head = min (r_from a) (r_from b), old_visual_position = None\<rparr>
      else \<lparr>anchor = min (r_from a) (r_from b), head = max (r_to a) (r_to b), old_visual_position = None\<rparr>)"
  by (auto simp: merge_def r_from_def r_to_def)

lemma r_from_le_max: "min (r_from a) (r_from b) \<le> max (r_to a) (r_to b)"
  using r_from_le_to [of a] by linarith

lemma merge_from [sel_simps]: "r_from (merge a b) = min (r_from a) (r_from b)"
  by (auto simp: merge_def r_from_def r_to_def)

lemma merge_to [sel_simps]: "r_to (merge a b) = max (r_to a) (r_to b)"
  by (auto simp: merge_def r_from_def r_to_def)

lemma merge_backward [sel_simps]:
  "head (merge a b) < anchor (merge a b) \<longleftrightarrow> head a < anchor a \<and> head b < anchor b"
  using r_from_le_max [of a b] by (auto simp: merge_eq r_from_def r_to_def)

lemma merge_commute: "merge a b = merge b a"
  by (simp add: merge_eq min.commute max.commute conj_commute)

lemma merge_assoc: "merge (merge a b) c = merge a (merge b c)"
  by (simp add: merge_eq [of "merge a b"] merge_eq [of a "merge b c"] sel_simps min.assoc max.assoc)

lemma overlaps_commute: "overlaps a b \<longleftrightarrow> overlaps b a"
  by (auto simp: overlaps_def)

text \<open>The characters a range covers.\<close>

definition r_chars :: "sel_range \<Rightarrow> nat set" where
  "r_chars r = {r_from r..<r_to r}"

lemma overlaps_chars: "r_chars a \<inter> r_chars b \<noteq> {} \<Longrightarrow> overlaps a b"
  by (auto simp: overlaps_def r_chars_def)

lemma merge_chars: "overlaps a b \<Longrightarrow> r_chars (merge a b) = r_chars a \<union> r_chars b"
  by (auto simp: overlaps_def r_chars_def sel_simps)

lemma in_r_chars: "p \<in> r_chars r \<longleftrightarrow> r_contains r p"
  by (auto simp: r_chars_def r_contains_def)

end
