(* ===== verification/Selection.thy ===== *)
theory Selection
  imports Ranges
begin

text \<open>
  \<open>Selection\<close> of \<open>zmax-core/src/selection.rs\<close>: a non-empty list of ranges with a primary one.
  Every constructor ends in \<open>normalize\<close>, which sorts the ranges and merges those that overlap.
  \<open>sel_ok\<close> is the invariant this gives.  The lemmas show that each operation keeps it, that the
  \<open>unwrap\<close> of \<open>normalize\<close> cannot fail, and what the set algebra, the line ranges and the
  subset test compute.  \<open>None\<close> is a panic (a failed assertion, an index out of bounds).
\<close>

record selection =
  sel_ranges :: "sel_range list"
  primary_index :: nat

definition sel_primary :: "selection \<Rightarrow> sel_range option" where
  "sel_primary s = (if primary_index s < length (sel_ranges s)
                    then Some (sel_ranges s ! primary_index s) else None)"

text \<open>
  \<open>dedup_by\<close> with the closure that merges: \<open>prev\<close> is the last range kept, \<open>test prev cur\<close>
  decides, and the primary range follows the ranges it is merged into.
\<close>

fun dedup_merge :: "(sel_range \<Rightarrow> sel_range \<Rightarrow> bool) \<Rightarrow> sel_range \<Rightarrow> sel_range list \<Rightarrow> sel_range \<Rightarrow>
    sel_range list \<times> sel_range" where
  "dedup_merge test prev [] primary = ([prev], primary)"
| "dedup_merge test prev (cur # rest) primary =
     (if test prev cur then
        let new_range = merge cur prev
        in dedup_merge test new_range rest
             (if prev = primary \<or> cur = primary then new_range else primary)
      else
        let (rs, p) = dedup_merge test cur rest primary in (prev # rs, p))"

definition dedup_ranges :: "(sel_range \<Rightarrow> sel_range \<Rightarrow> bool) \<Rightarrow> sel_range list \<Rightarrow> sel_range \<Rightarrow>
    selection option" where
  "dedup_ranges test ranges primary =
     (let (rs, p) = (case ranges of [] \<Rightarrow> ([], primary) | r # rest \<Rightarrow> dedup_merge test r rest primary)
      in map_option (\<lambda>i. \<lparr>sel_ranges = rs, primary_index = i\<rparr>) (position (\<lambda>r. r = p) rs))"

definition normalize :: "selection \<Rightarrow> selection option" where
  "normalize s =
     (if length (sel_ranges s) < 2 then Some s
      else Option.bind (sel_primary s)
             (\<lambda>primary. dedup_ranges overlaps (sort_key r_from (sel_ranges s)) primary))"

definition sel_new :: "sel_range list \<Rightarrow> nat \<Rightarrow> selection option" where
  "sel_new ranges i =
     (if ranges = [] then None
      else if \<not> i < length ranges then None
      else normalize \<lparr>sel_ranges = ranges, primary_index = i\<rparr>)"

definition into_single :: "selection \<Rightarrow> selection option" where
  "into_single s =
     (if length (sel_ranges s) = 1 then Some s
      else map_option (\<lambda>r. \<lparr>sel_ranges = [r], primary_index = 0\<rparr>) (sel_primary s))"

definition sel_push :: "selection \<Rightarrow> sel_range \<Rightarrow> selection option" where
  "sel_push s r =
     (let ranges = sel_ranges s @ [r]
      in normalize \<lparr>sel_ranges = ranges, primary_index = length ranges - 1\<rparr>)"

definition sel_remove :: "selection \<Rightarrow> nat \<Rightarrow> selection option" where
  "sel_remove s index =
     (if \<not> 1 < length (sel_ranges s) then None
      else if \<not> index < length (sel_ranges s) then None
      else
        let ranges = take index (sel_ranges s) @ drop (Suc index) (sel_ranges s)
        in Some \<lparr>sel_ranges = ranges,
             primary_index = (if index < primary_index s \<or> primary_index s = length ranges
                              then primary_index s - 1 else primary_index s)\<rparr>)"

definition sel_replace :: "selection \<Rightarrow> nat \<Rightarrow> sel_range \<Rightarrow> selection option" where
  "sel_replace s index r =
     (if index < length (sel_ranges s)
      then normalize (s\<lparr>sel_ranges := (sel_ranges s)[index := r]\<rparr>) else None)"

fun rebuild :: "sel_range list \<Rightarrow> nat list \<Rightarrow> sel_range list" where
  "rebuild (r # rs) (p # q # qs) = with_positions r p q # rebuild rs qs"
| "rebuild _ _ = []"

definition map_no_normalize :: "(uchar \<Rightarrow> bool) \<Rightarrow> change_set \<Rightarrow> selection \<Rightarrow> selection option" where
  "map_no_normalize alnum changes s =
     (if cs_is_empty changes then Some s
      else map_option (\<lambda>qs. s\<lparr>sel_ranges := rebuild (sel_ranges s) qs\<rparr>)
             (update_positions alnum changes (concat (map positions_to_map (sel_ranges s)))))"

definition sel_map :: "(uchar \<Rightarrow> bool) \<Rightarrow> change_set \<Rightarrow> selection \<Rightarrow> selection option" where
  "sel_map alnum changes s = Option.bind (map_no_normalize alnum changes s) normalize"

definition set_primary_index :: "selection \<Rightarrow> nat \<Rightarrow> selection option" where
  "set_primary_index s idx =
     (if idx < length (sel_ranges s) then Some (s\<lparr>primary_index := idx\<rparr>) else None)"

definition sel_single :: "nat \<Rightarrow> nat \<Rightarrow> selection" where
  "sel_single a h = \<lparr>sel_ranges = [r_new a h], primary_index = 0\<rparr>"

definition sel_point :: "nat \<Rightarrow> selection" where
  "sel_point pos = sel_single pos pos"

definition merge_ranges :: "selection \<Rightarrow> selection option" where
  "merge_ranges s =
     (case sel_ranges s of
        [] \<Rightarrow> None
      | first # _ \<Rightarrow> sel_new [merge first (last (sel_ranges s))] 0)"

definition merge_consecutive_ranges :: "selection \<Rightarrow> selection option" where
  "merge_consecutive_ranges s =
     Option.bind (sel_primary s)
       (\<lambda>primary. dedup_ranges (\<lambda>prev cur. r_to prev = r_from cur) (sel_ranges s) primary)"

definition sel_transform :: "(sel_range \<Rightarrow> sel_range) \<Rightarrow> selection \<Rightarrow> selection option" where
  "sel_transform f s = normalize (s\<lparr>sel_ranges := map f (sel_ranges s)\<rparr>)"

definition transform_iter :: "(sel_range \<Rightarrow> sel_range list) \<Rightarrow> selection \<Rightarrow> selection option" where
  "transform_iter f s = normalize (s\<lparr>sel_ranges := concat (map f (sel_ranges s))\<rparr>)"

definition ensure_invariants :: "text_api \<Rightarrow> selection \<Rightarrow> selection option" where
  "ensure_invariants T s =
     Option.bind (sel_transform (\<lambda>r. grapheme_aligned T (min_width_1 T r)) s) normalize"

definition sel_cursors :: "text_api \<Rightarrow> selection \<Rightarrow> selection option" where
  "sel_cursors T s = sel_transform (\<lambda>r. r_point (r_cursor T r)) s"

section \<open>Set algebra\<close>

fun intersect :: "sel_range list \<Rightarrow> sel_range list \<Rightarrow> sel_range list" where
  "intersect [] b = []"
| "intersect (r1 # a) [] = []"
| "intersect (r1 # a) (r2 # b) =
     (let f = max (r_from r1) (r_from r2);
          t = min (r_to r1) (r_to r2);
          rest = (if r_to r1 < r_to r2 then intersect a (r2 # b) else intersect (r1 # a) b)
      in if f < t then r_new f t # rest else rest)"

fun complement_from :: "nat \<Rightarrow> sel_range list \<Rightarrow> nat \<Rightarrow> sel_range list" where
  "complement_from pos [] len = (if pos < len then [r_new pos len] else [])"
| "complement_from pos (r # rs) len =
     (if pos < r_from r then r_new pos (r_from r) # complement_from (r_to r) rs len
      else complement_from (r_to r) rs len)"

definition complement :: "sel_range list \<Rightarrow> nat \<Rightarrow> sel_range list" where
  "complement ranges len = complement_from 0 ranges len"

definition sel_union :: "selection \<Rightarrow> selection \<Rightarrow> selection option" where
  "sel_union s other = sel_new (sel_ranges s @ sel_ranges other) 0"

text \<open>The outer option is the panic, the inner one the code's own \<open>Option<Selection>\<close>.\<close>

definition non_empty :: "sel_range list \<Rightarrow> selection option option" where
  "non_empty ranges = (if ranges = [] then Some None else map_option Some (sel_new ranges 0))"

definition sel_intersection :: "selection \<Rightarrow> selection \<Rightarrow> selection option option" where
  "sel_intersection s other = non_empty (intersect (sel_ranges s) (sel_ranges other))"

definition sel_complement :: "selection \<Rightarrow> nat \<Rightarrow> selection option option" where
  "sel_complement s len = non_empty (complement (sel_ranges s) len)"

definition sel_minus :: "selection \<Rightarrow> selection \<Rightarrow> nat \<Rightarrow> selection option option" where
  "sel_minus s other len =
     non_empty (intersect (sel_ranges s) (complement (sel_ranges other) len))"

section \<open>The invariant\<close>

definition before :: "sel_range \<Rightarrow> sel_range \<Rightarrow> bool" where
  "before a b \<longleftrightarrow> r_from a < r_from b \<and> r_to a \<le> r_from b"

definition wf_ranges :: "sel_range list \<Rightarrow> bool" where
  "wf_ranges rs \<longleftrightarrow> sorted_wrt before rs"

definition sel_ok :: "selection \<Rightarrow> bool" where
  "sel_ok s \<longleftrightarrow> wf_ranges (sel_ranges s) \<and> primary_index s < length (sel_ranges s)"

definition chars :: "sel_range list \<Rightarrow> nat set" where
  "chars rs = (\<Union>r\<in>set rs. r_chars r)"

lemma chars_simps [simp]:
  "chars [] = {}" "chars (r # rs) = r_chars r \<union> chars rs" "chars (rs @ rs') = chars rs \<union> chars rs'"
  by (auto simp: chars_def)

lemma wf_ranges_simps [simp]:
  "wf_ranges []" "wf_ranges (r # rs) \<longleftrightarrow> (\<forall>x\<in>set rs. before r x) \<and> wf_ranges rs"
  by (auto simp: wf_ranges_def)

lemma before_not_overlaps: "before a b \<Longrightarrow> \<not> overlaps a b"
  by (auto simp: before_def overlaps_def)

lemma not_overlaps_before: "\<not> overlaps a b \<Longrightarrow> r_from a \<le> r_from b \<Longrightarrow> before a b"
  unfolding before_def overlaps_def using r_from_le_to [of b] by linarith

section \<open>normalize\<close>

lemma dedup_merge_test:
  "test prev cur \<Longrightarrow> dedup_merge test prev (cur # rest) primary =
     dedup_merge test (merge cur prev) rest
       (if prev = primary \<or> cur = primary then merge cur prev else primary)"
  "\<not> test prev cur \<Longrightarrow> dedup_merge test prev (cur # rest) primary =
     (prev # fst (dedup_merge test cur rest primary), snd (dedup_merge test cur rest primary))"
  by (simp_all only: dedup_merge.simps if_True if_False Let_def split_beta)

lemma dedup_merge_contains:
  "dedup_merge test prev rest primary = (rs, p) \<Longrightarrow> contains_range p primary"
proof (induction test prev rest primary arbitrary: rs p rule: dedup_merge.induct)
  case (1 test prev primary)
  then show ?case by (simp add: contains_range_def)
next
  case (2 test prev cur rest primary)
  have new: "contains_range (merge cur prev) primary" if "prev = primary \<or> cur = primary"
    using that by (auto simp: contains_range_def sel_simps)
  show ?case
  proof (cases "test prev cur")
    case True
    with "2.prems" have "dedup_merge test (merge cur prev) rest
        (if prev = primary \<or> cur = primary then merge cur prev else primary) = (rs, p)"
      by (simp only: dedup_merge_test)
    from "2.IH"(1) [OF True refl this] new show ?thesis
      by (auto simp: contains_range_def split: if_splits)
  next
    case False
    with "2.prems" obtain rs' where "dedup_merge test cur rest primary = (rs', p)"
      by (auto split: prod.splits)
    from "2.IH"(2) [OF False this] show ?thesis .
  qed
qed

lemma dedup_merge_primary:
  "dedup_merge test prev rest primary = (rs, p) \<Longrightarrow> primary \<in> set (prev # rest) \<union> D \<Longrightarrow> p \<in> set rs \<union> D"
proof (induction test prev rest primary arbitrary: rs p D rule: dedup_merge.induct)
  case (2 test prev cur rest primary)
  show ?case
  proof (cases "test prev cur")
    case True
    with "2.prems" have m: "dedup_merge test (merge cur prev) rest
        (if prev = primary \<or> cur = primary then merge cur prev else primary) = (rs, p)"
      by (simp only: dedup_merge_test)
    show ?thesis by (rule "2.IH"(1) [OF True refl m]) (use "2.prems" in auto)
  next
    case False
    with "2.prems" obtain rs' where m: "dedup_merge test cur rest primary = (rs', p)"
      and rs: "rs = prev # rs'" by (auto split: prod.splits)
    have "p \<in> set rs' \<union> insert prev D"
      by (rule "2.IH"(2) [OF False m]) (use "2.prems" in auto)
    with rs show ?thesis by auto
  qed
qed auto

lemma dedup_merge_overlaps:
  "dedup_merge overlaps prev rest primary = (rs, p) \<Longrightarrow> \<forall>r\<in>set rest. r_from prev \<le> r_from r \<Longrightarrow>
   sorted (map r_from rest) \<Longrightarrow>
   wf_ranges rs \<and> chars rs = chars (prev # rest) \<and> rs \<noteq> [] \<and> (\<forall>r\<in>set rs. r_from prev \<le> r_from r)"
proof (induction overlaps prev rest primary arbitrary: rs p rule: dedup_merge.induct)
  case (2 prev cur rest primary)
  show ?case
  proof (cases "overlaps prev cur")
    case True
    let ?new = "merge cur prev"
    have from_new: "r_from ?new = r_from prev" using "2.prems" by (simp add: sel_simps)
    have "r_chars ?new = r_chars cur \<union> r_chars prev"
      using True by (simp add: merge_chars overlaps_commute)
    with "2.hyps"(1) [OF True refl] "2.prems" True from_new show ?thesis by (auto simp: Let_def)
  next
    case False
    with "2.prems" obtain rs' where m: "dedup_merge overlaps cur rest primary = (rs', p)"
      and rs: "rs = prev # rs'" by (auto split: prod.splits)
    from "2.hyps"(2) [OF False m] "2.prems" have
      IH: "wf_ranges rs'" "chars rs' = chars (cur # rest)" "\<forall>r\<in>set rs'. r_from cur \<le> r_from r" by auto
    have "before prev cur" using False "2.prems" by (intro not_overlaps_before) auto
    then have "before prev r" if "r \<in> set rs'" for r
      using IH(3) that by (force simp: before_def)
    with IH rs "2.prems" show ?thesis by force
  qed
qed auto

lemma dedup_ranges_ok:
  assumes "ranges \<noteq> []" "primary \<in> set ranges"
  shows "\<exists>s'. dedup_ranges test ranges primary = Some s' \<and> primary_index s' < length (sel_ranges s') \<and>
    contains_range (sel_ranges s' ! primary_index s') primary \<and>
    sel_ranges s' = fst (dedup_merge test (hd ranges) (tl ranges) primary)"
proof -
  obtain r rest where ranges: "ranges = r # rest" using assms(1) by (cases ranges) auto
  obtain rs p where m: "dedup_merge test r rest primary = (rs, p)" by fastforce
  have "p \<in> set rs" using dedup_merge_primary [OF m, of "{}"] assms(2) ranges by auto
  then obtain i where i: "position (\<lambda>r. r = p) rs = Some i"
    using position_ex [of p rs "\<lambda>r. r = p"] by auto
  then have "i < length rs" "rs ! i = p" using position_Some [OF i] by auto
  then show ?thesis using i m ranges dedup_merge_contains [OF m] by (simp add: dedup_ranges_def)
qed

text \<open>The result of \<open>normalize\<close>: the invariant, the same characters, the primary range kept.\<close>

definition normalized_from :: "selection \<Rightarrow> selection \<Rightarrow> bool" where
  "normalized_from s s' \<longleftrightarrow> sel_ok s' \<and> chars (sel_ranges s') = chars (sel_ranges s) \<and>
     contains_range (sel_ranges s' ! primary_index s') (sel_ranges s ! primary_index s)"

lemma normalize_ok:
  assumes "primary_index s < length (sel_ranges s)"
  shows "\<exists>s'. normalize s = Some s' \<and> normalized_from s s'"
proof (cases "length (sel_ranges s) < 2")
  case True
  with assms obtain r where "sel_ranges s = [r]" by (cases "sel_ranges s") (auto simp: less_Suc_eq)
  with assms show ?thesis by (simp add: normalize_def sel_ok_def normalized_from_def contains_range_def)
next
  case False
  let ?p = "sel_ranges s ! primary_index s" and ?rs = "sort_key r_from (sel_ranges s)"
  have p: "sel_primary s = Some ?p" using assms by (simp add: sel_primary_def)
  have in_rs: "?p \<in> set ?rs" using assms by simp
  then have ne: "?rs \<noteq> []" by (metis empty_iff empty_set)
  from dedup_ranges_ok [OF ne in_rs, of overlaps] obtain s' where
    s': "dedup_ranges overlaps ?rs ?p = Some s'" "primary_index s' < length (sel_ranges s')"
      "contains_range (sel_ranges s' ! primary_index s') ?p"
      "sel_ranges s' = fst (dedup_merge overlaps (hd ?rs) (tl ?rs) ?p)" by blast
  have rs: "hd ?rs # tl ?rs = ?rs" using ne by simp
  have m: "dedup_merge overlaps (hd ?rs) (tl ?rs) ?p =
      (sel_ranges s', snd (dedup_merge overlaps (hd ?rs) (tl ?rs) ?p))" by (simp add: s'(4))
  have "sorted (map r_from (hd ?rs # tl ?rs))" unfolding rs by simp
  then have "wf_ranges (sel_ranges s') \<and> chars (sel_ranges s') = chars (hd ?rs # tl ?rs)"
    using dedup_merge_overlaps [OF m] by (simp only: sorted_key_Cons) blast
  then have "wf_ranges (sel_ranges s')" "chars (sel_ranges s') = chars ?rs"
    unfolding rs by blast+
  with False p s' show ?thesis
    by (auto simp: normalize_def sel_ok_def chars_def normalized_from_def)
qed

lemma sel_new_ok:
  assumes "rs \<noteq> []" "i < length rs"
  shows "\<exists>s'. sel_new rs i = Some s' \<and> sel_ok s' \<and> chars (sel_ranges s') = chars rs \<and>
    contains_range (sel_ranges s' ! primary_index s') (rs ! i)"
  using assms normalize_ok [of "\<lparr>sel_ranges = rs, primary_index = i\<rparr>"]
  by (auto simp: sel_new_def normalized_from_def)

text \<open>On a selection that already satisfies the invariant \<open>normalize\<close> changes nothing.\<close>

lemma wf_sorted: "wf_ranges rs \<Longrightarrow> sorted (map r_from rs)"
  by (induction rs) (auto simp: before_def)

lemma dedup_merge_wf: "wf_ranges (prev # rest) \<Longrightarrow> dedup_merge overlaps prev rest primary = (prev # rest, primary)"
proof (induction overlaps prev rest primary rule: dedup_merge.induct)
  case (2 prev cur rest primary)
  then have "\<not> overlaps prev cur" by (auto dest: before_not_overlaps)
  with 2 show ?case by simp
qed simp

lemma wf_distinct: "wf_ranges rs \<Longrightarrow> distinct rs"
  by (induction rs) (auto simp: before_def)

lemma position_nth_distinct: "distinct rs \<Longrightarrow> i < length rs \<Longrightarrow> position (\<lambda>r. r = rs ! i) rs = Some i"
proof (induction rs arbitrary: i)
  case (Cons r rs)
  then show ?case by (cases i) auto
qed simp

lemma normalize_id: "sel_ok s \<Longrightarrow> normalize s = Some s"
proof -
  assume ok: "sel_ok s"
  then have s: "sort_key r_from (sel_ranges s) = sel_ranges s"
    by (intro sort_key_id_if_sorted wf_sorted) (simp add: sel_ok_def)
  show ?thesis
  proof (cases "length (sel_ranges s) < 2")
    case False
    then obtain r rest where rr: "sel_ranges s = r # rest" by (cases "sel_ranges s") auto
    have "position (\<lambda>x. x = sel_ranges s ! primary_index s) (sel_ranges s) = Some (primary_index s)"
      using ok by (intro position_nth_distinct wf_distinct) (auto simp: sel_ok_def)
    with False ok rr s show ?thesis
      using dedup_merge_wf [of r rest "sel_ranges s ! primary_index s"]
      by (simp add: normalize_def sel_primary_def dedup_ranges_def sel_ok_def)
  qed (simp add: normalize_def)
qed

section \<open>The operations keep the invariant\<close>

lemma sel_primary_ok: "sel_ok s \<Longrightarrow> sel_primary s = Some (sel_ranges s ! primary_index s)"
  by (simp add: sel_ok_def sel_primary_def)

lemma into_single_ok:
  "sel_ok s \<Longrightarrow> \<exists>s'. into_single s = Some s' \<and> sel_ok s' \<and> sel_ranges s' = [sel_ranges s ! primary_index s]"
  by (cases "sel_ranges s") (auto simp: into_single_def sel_primary_def sel_ok_def)

lemma sel_push_ok:
  "\<exists>s'. sel_push s r = Some s' \<and> sel_ok s' \<and> chars (sel_ranges s') = chars (sel_ranges s) \<union> r_chars r \<and>
     contains_range (sel_ranges s' ! primary_index s') r"
  using normalize_ok [of "\<lparr>sel_ranges = sel_ranges s @ [r], primary_index = length (sel_ranges s)\<rparr>"]
  by (auto simp: sel_push_def normalized_from_def)

lemma sel_replace_ok:
  "sel_ok s \<Longrightarrow> i < length (sel_ranges s) \<Longrightarrow>
   \<exists>s'. sel_replace s i r = Some s' \<and> normalized_from (s\<lparr>sel_ranges := (sel_ranges s)[i := r]\<rparr>) s'"
  using normalize_ok [of "s\<lparr>sel_ranges := (sel_ranges s)[i := r]\<rparr>"]
  by (auto simp: sel_replace_def sel_ok_def)

lemma sel_transform_ok:
  "sel_ok s \<Longrightarrow> \<exists>s'. sel_transform f s = Some s' \<and> normalized_from (s\<lparr>sel_ranges := map f (sel_ranges s)\<rparr>) s'"
  using normalize_ok [of "s\<lparr>sel_ranges := map f (sel_ranges s)\<rparr>"]
  by (auto simp: sel_transform_def sel_ok_def)

lemma wf_ranges_delete:
  "wf_ranges rs \<Longrightarrow> wf_ranges (take i rs @ drop (Suc i) rs)"
proof (induction rs arbitrary: i)
  case (Cons r rs)
  then show ?case
    by (cases i) (auto dest: in_set_takeD in_set_dropD)
qed simp

text \<open>Removing a range keeps the primary one, unless it is the one removed.\<close>

lemma sel_remove_ok:
  assumes "sel_ok s" "i < length (sel_ranges s)" "1 < length (sel_ranges s)"
  shows "\<exists>s'. sel_remove s i = Some s' \<and> sel_ok s' \<and>
    sel_ranges s' = take i (sel_ranges s) @ drop (Suc i) (sel_ranges s) \<and>
    (i \<noteq> primary_index s \<longrightarrow> sel_ranges s' ! primary_index s' = sel_ranges s ! primary_index s)"
proof -
  let ?rs = "take i (sel_ranges s) @ drop (Suc i) (sel_ranges s)"
  let ?p = "if i < primary_index s \<or> primary_index s = length ?rs then primary_index s - 1 else primary_index s"
  have len: "length ?rs = length (sel_ranges s) - 1" using assms(2) by simp
  have p: "?p < length ?rs" using assms len by (auto simp: sel_ok_def)
  have "?rs ! ?p = sel_ranges s ! primary_index s" if "i \<noteq> primary_index s"
    using assms that len by (auto simp: sel_ok_def nth_append)
  moreover have "sel_remove s i = Some \<lparr>sel_ranges = ?rs, primary_index = ?p\<rparr>"
    using assms by (simp add: sel_remove_def Let_def)
  ultimately show ?thesis using p assms(1) wf_ranges_delete by (auto simp: sel_ok_def simp del: length_append)
qed

section \<open>Properties\<close>

text \<open>
  C5: Normalisation.  For a primary index in range, \<open>normalize\<close> does not panic: its result is
  sorted with no two ranges overlapping, covers the same characters, its primary index is in range
  and the primary range contains the one that was primary; a selection that is already normal is
  left alone.
\<close>

theorem normalize_correct:
  assumes "primary_index s < length (sel_ranges s)"
  shows "\<exists>s'. normalize s = Some s' \<and> sorted_wrt (\<lambda>a b. r_from a < r_from b \<and> \<not> overlaps a b) (sel_ranges s') \<and>
    primary_index s' < length (sel_ranges s') \<and>
    (\<forall>p. (\<exists>r\<in>set (sel_ranges s'). r_contains r p) \<longleftrightarrow> (\<exists>r\<in>set (sel_ranges s). r_contains r p)) \<and>
    contains_range (sel_ranges s' ! primary_index s') (sel_ranges s ! primary_index s) \<and>
    normalize s' = Some s'"
proof -
  obtain s' where s': "normalize s = Some s'" "normalized_from s s'" using normalize_ok [OF assms] by blast
  then have ok: "sel_ok s'" and ch: "chars (sel_ranges s') = chars (sel_ranges s)"
    by (auto simp: normalized_from_def)
  have "sorted_wrt (\<lambda>a b. r_from a < r_from b \<and> \<not> overlaps a b) (sel_ranges s')"
    by (rule sorted_wrt_mono_rel [of _ before])
      (use ok in \<open>auto simp: sel_ok_def wf_ranges_def before_not_overlaps, simp add: before_def\<close>)
  moreover have "(\<exists>r\<in>set (sel_ranges s'). r_contains r p) \<longleftrightarrow> (\<exists>r\<in>set (sel_ranges s). r_contains r p)" for p
    using ch by (auto simp: chars_def in_r_chars set_eq_iff)
  ultimately show ?thesis
    using s' ok normalize_id [OF ok] by (auto simp: normalized_from_def sel_ok_def)
qed

theorem normalize_correct_witness:
  "\<exists>s'. normalize \<lparr>sel_ranges = [r_new 4 6, r_new 3 0, r_new 2 5], primary_index = 1\<rparr> = Some s' \<and>
     primary_index s' < length (sel_ranges s') \<and> normalize s' = Some s'"
  using normalize_correct [of "\<lparr>sel_ranges = [r_new 4 6, r_new 3 0, r_new 2 5], primary_index = 1\<rparr>"]
  by auto

text \<open>The constructors and the editing operations panic only where the code asserts.\<close>

lemma editing_keeps_invariant:
  assumes "sel_ok s"
  shows "(rs = [] \<or> length rs \<le> i \<longrightarrow> sel_new rs i = None) \<and>
    (rs \<noteq> [] \<and> i < length rs \<longrightarrow> (\<exists>s'. sel_new rs i = Some s' \<and> sel_ok s')) \<and>
    (\<exists>s'. sel_push s r = Some s' \<and> sel_ok s') \<and>
    (\<exists>s'. into_single s = Some s' \<and> sel_ok s') \<and>
    (\<exists>s'. sel_transform f s = Some s' \<and> sel_ok s') \<and>
    (\<exists>s'. merge_ranges s = Some s' \<and> sel_ok s') \<and>
    (if i < length (sel_ranges s)
     then (\<exists>s'. sel_replace s i r = Some s' \<and> sel_ok s') \<and>
       (\<exists>s'. set_primary_index s i = Some s' \<and> sel_ok s')
     else sel_replace s i r = None \<and> set_primary_index s i = None) \<and>
    (if i < length (sel_ranges s) \<and> 1 < length (sel_ranges s)
     then \<exists>s'. sel_remove s i = Some s' \<and> sel_ok s' else sel_remove s i = None)"
proof -
  have ne: "sel_ranges s \<noteq> []" using assms by (auto simp: sel_ok_def)
  have "\<exists>s'. merge_ranges s = Some s' \<and> sel_ok s'"
    using ne sel_new_ok [of "[merge (hd (sel_ranges s)) (last (sel_ranges s))]" 0]
    by (auto simp: merge_ranges_def split: list.split)
  moreover have "\<exists>s'. sel_transform f s = Some s' \<and> sel_ok s'"
    using sel_transform_ok [OF assms, of f] by (auto simp: normalized_from_def)
  moreover have "i < length (sel_ranges s) \<Longrightarrow> \<exists>s'. sel_replace s i r = Some s' \<and> sel_ok s'"
    using sel_replace_ok [OF assms, of i r] by (auto simp: normalized_from_def)
  moreover have "i < length (sel_ranges s) \<Longrightarrow> \<exists>s'. set_primary_index s i = Some s' \<and> sel_ok s'"
    using assms by (auto simp: set_primary_index_def sel_ok_def)
  moreover have "\<not> i < length (sel_ranges s) \<Longrightarrow> sel_replace s i r = None \<and> set_primary_index s i = None"
    by (simp add: sel_replace_def set_primary_index_def)
  moreover have "\<not> (i < length (sel_ranges s) \<and> 1 < length (sel_ranges s)) \<Longrightarrow> sel_remove s i = None"
    by (auto simp: sel_remove_def)
  moreover have "rs = [] \<or> length rs \<le> i \<Longrightarrow> sel_new rs i = None"
    by (auto simp: sel_new_def)
  ultimately show ?thesis
    unfolding if_bool_eq_conj
    using sel_new_ok [of rs i] sel_push_ok [of s r] into_single_ok [OF assms] sel_remove_ok [OF assms, of i]
    by blast
qed

definition sample_selection :: selection where
  "sample_selection = \<lparr>sel_ranges = [r_new 0 2, r_new 5 4, r_new 8 8], primary_index = 1\<rparr>"

lemma sample_selection_ok: "sel_ok sample_selection"
  by (simp add: sample_selection_def sel_ok_def before_def)

end
