(* ===== verification/SubRange.thy ===== *)
theory SubRange
  imports Prelude
begin

text \<open>
  \<open>zmax-stdx/src/range.rs\<close>: the plain \<open>Range\<close> and the two linear walks over a sorted list of
  ranges (\<open>is_subset\<close>, \<open>is_exact_subset\<close>).  The iterators are the lists they yield.  The lemmas
  compare the walks with the quadratic definition their comments give.
\<close>

record std_range =
  rg_start :: nat
  rg_end :: nat

definition rg_contains :: "std_range \<Rightarrow> std_range \<Rightarrow> bool" where
  "rg_contains self other \<longleftrightarrow> rg_start self \<le> rg_start other \<and> rg_end other \<le> rg_end self"

definition rg_is_empty :: "std_range \<Rightarrow> bool" where
  "rg_is_empty r \<longleftrightarrow> rg_end r \<le> rg_start r"

fun is_subset :: "bool \<Rightarrow> std_range list \<Rightarrow> std_range list \<Rightarrow> bool" where
  "is_subset allow_empty (ra # super_set) (rb # sub_set) =
     (if rg_end ra \<le> rg_start rb \<and> (rg_start ra \<noteq> rg_start rb \<or> \<not> allow_empty)
      then is_subset allow_empty super_set (rb # sub_set)
      else if rg_contains ra rb then is_subset allow_empty (ra # super_set) sub_set
      else False)"
| "is_subset allow_empty [] (rb # sub_set) = False"
| "is_subset allow_empty super_set [] = True"

fun exact_loop :: "bool \<Rightarrow> std_range list \<Rightarrow> std_range list \<Rightarrow> bool" where
  "exact_loop matched (ra # super_set) (rb # sub_set) =
     (if rg_end ra \<le> rg_start rb \<and> rg_start ra < rg_start rb
      then if \<not> matched then False else exact_loop False super_set (rb # sub_set)
      else if rg_contains ra rb then exact_loop True (ra # super_set) sub_set
      else False)"
| "exact_loop matched [] (rb # sub_set) = False"
| "exact_loop matched super_set [] = (tl super_set = [])"

definition is_exact_subset :: "std_range list \<Rightarrow> std_range list \<Rightarrow> bool" where
  "is_exact_subset super_set sub_set = exact_loop True super_set sub_set"

section \<open>The quadratic definition\<close>

text \<open>
  A super range serves a sub range when it contains it and the sub range does not begin at its
  end; an empty super range only serves an empty sub range, and only when that is allowed.
\<close>

definition serves :: "bool \<Rightarrow> std_range \<Rightarrow> std_range \<Rightarrow> bool" where
  "serves allow_empty ra rb \<longleftrightarrow>
     rg_contains ra rb \<and> (rg_start rb < rg_end ra \<or> allow_empty \<and> rg_start ra = rg_start rb)"

definition ordered_ranges :: "std_range list \<Rightarrow> bool" where
  "ordered_ranges rs \<longleftrightarrow>
     sorted_wrt (\<lambda>a b. rg_start a < rg_start b \<and> rg_end a \<le> rg_start b) rs \<and>
     (\<forall>r\<in>set rs. rg_start r \<le> rg_end r)"

lemma ordered_ranges_Cons:
  "ordered_ranges (r # rs) \<longleftrightarrow>
     (\<forall>x\<in>set rs. rg_start r < rg_start x \<and> rg_end r \<le> rg_start x) \<and> rg_start r \<le> rg_end r \<and>
     ordered_ranges rs"
  by (auto simp: ordered_ranges_def)

lemma is_subset_iff:
  "ordered_ranges sps \<Longrightarrow> sorted (map rg_start sub) \<Longrightarrow>
   is_subset e sps sub \<longleftrightarrow> (\<forall>rb\<in>set sub. \<exists>ra\<in>set sps. serves e ra rb)"
proof (induction e sps sub rule: is_subset.induct)
  case (1 e ra sps rb sub)
  from "1.prems" have ord: "\<forall>x\<in>set sps. rg_start ra < rg_start x \<and> rg_end ra \<le> rg_start x"
    "rg_start ra \<le> rg_end ra" "ordered_ranges sps"
    and sub: "\<forall>x\<in>set sub. rg_start rb \<le> rg_start x" "sorted (map rg_start sub)"
    by (auto simp: ordered_ranges_Cons)
  show ?case
  proof (cases "rg_end ra \<le> rg_start rb \<and> (rg_start ra \<noteq> rg_start rb \<or> \<not> e)")
    case True
    have "\<not> serves e ra x" if "x \<in> set (rb # sub)" for x
      using True ord(2) sub(1) that by (auto simp: serves_def)
    with "1.IH"(1) [OF True ord(3) "1.prems"(2)] True show ?thesis by auto
  next
    case False
    have later: "\<not> serves e x rb" if "x \<in> set sps" for x
      using False ord that by (force simp: serves_def rg_contains_def)
    have here: "serves e ra rb \<longleftrightarrow> rg_contains ra rb"
      using False by (auto simp: serves_def)
    show ?thesis
    proof (cases "rg_contains ra rb")
      case True
      with "1.IH"(2) [OF False True "1.prems"(1) sub(2)] here show ?thesis
        by (simp only: is_subset.simps False if_False True if_True list.set ball_simps) auto
    next
      case no: False
      with False here later show ?thesis by auto
    qed
  qed
qed auto

lemma exact_loop_iff:
  "ordered_ranges sps \<Longrightarrow> sorted (map rg_start sub) \<Longrightarrow> \<not> m \<Longrightarrow> sub \<noteq> [] \<Longrightarrow>
     exact_loop m sps sub \<longleftrightarrow> (\<forall>rb\<in>set sub. \<exists>ra\<in>set sps. serves True ra rb) \<and>
       (\<forall>ra\<in>set sps. \<exists>rb\<in>set sub. serves True ra rb)"
  "ordered_ranges sps \<Longrightarrow> sorted (map rg_start sub) \<Longrightarrow> m \<Longrightarrow>
     exact_loop m sps sub \<longleftrightarrow> (\<forall>rb\<in>set sub. \<exists>ra\<in>set sps. serves True ra rb) \<and>
       (\<forall>ra\<in>set (tl sps). \<exists>rb\<in>set sub. serves True ra rb)"
proof (induction m sps sub rule: exact_loop.induct)
  case (1 m ra sps rb sub)
  have both: "exact_loop m (ra # sps) (rb # sub) \<longleftrightarrow>
      (\<forall>rb\<in>set (rb # sub). \<exists>ra\<in>set (ra # sps). serves True ra rb) \<and>
      (\<forall>ra\<in>set sps. \<exists>rb\<in>set (rb # sub). serves True ra rb) \<and>
      (m \<or> (\<exists>rb\<in>set (rb # sub). serves True ra rb))"
    if prems: "ordered_ranges (ra # sps)" "sorted (map rg_start (rb # sub))"
  proof -
    from prems have ord: "\<forall>x\<in>set sps. rg_start ra < rg_start x \<and> rg_end ra \<le> rg_start x"
      "rg_start ra \<le> rg_end ra" "ordered_ranges sps"
      and sub: "\<forall>x\<in>set sub. rg_start rb \<le> rg_start x" "sorted (map rg_start sub)"
      by (auto simp: ordered_ranges_Cons)
    show ?thesis
    proof (cases "rg_end ra \<le> rg_start rb \<and> rg_start ra < rg_start rb")
      case True
      have no: "\<not> serves True ra x" if "x \<in> set (rb # sub)" for x
        using True ord(2) sub(1) that by (auto simp: serves_def)
      show ?thesis
      proof (cases m)
        case m: True
        have "exact_loop m (ra # sps) (rb # sub) = exact_loop False sps (rb # sub)"
          using True m by simp
        also have "\<dots> \<longleftrightarrow> (\<forall>rb\<in>set (rb # sub). \<exists>ra\<in>set sps. serves True ra rb) \<and>
            (\<forall>ra\<in>set sps. \<exists>rb\<in>set (rb # sub). serves True ra rb)"
          by (rule "1.IH"(1)) (use True m ord prems in auto)
        finally show ?thesis using no m by auto
      qed (use True no in auto)
    next
      case False
      have later: "\<not> serves True x rb" if "x \<in> set sps" for x
        using False ord that by (force simp: serves_def rg_contains_def)
      have here: "serves True ra rb \<longleftrightarrow> rg_contains ra rb"
        using False ord(2) by (auto simp: serves_def rg_contains_def)
      show ?thesis
      proof (cases "rg_contains ra rb")
        case True
        have "exact_loop m (ra # sps) (rb # sub) = exact_loop True (ra # sps) sub"
          by (simp only: exact_loop.simps False True if_False if_True)
        also have "\<dots> \<longleftrightarrow> (\<forall>rb\<in>set sub. \<exists>ra\<in>set (ra # sps). serves True ra rb) \<and>
            (\<forall>ra\<in>set (tl (ra # sps)). \<exists>rb\<in>set sub. serves True ra rb)"
          by (rule "1.IH"(4)) (use False True prems sub in auto)
        finally show ?thesis using later here True by auto
      next
        case no: False
        with False here later show ?thesis by auto
      qed
    qed
  qed
  { case 1 then show ?case using both by auto }
  { case 2 then show ?case using both by auto }
qed (auto simp: neq_Nil_conv)

section \<open>Properties\<close>

text \<open>
  The linear subset walk.  On ordered ranges \<open>is_subset\<close> decides that every sub range lies
  inside one super range and begins before that range ends, or begins where it begins when empty
  ranges are allowed.
\<close>

theorem is_subset_correct:
  assumes "ordered_ranges super_set" "sorted (map rg_start sub_set)"
  shows "is_subset allow_empty super_set sub_set \<longleftrightarrow>
    (\<forall>rb\<in>set sub_set. \<exists>ra\<in>set super_set. rg_contains ra rb \<and>
       (rg_start rb < rg_end ra \<or> allow_empty \<and> rg_start ra = rg_start rb))"
  using is_subset_iff [OF assms] by (simp add: serves_def)

theorem is_subset_correct_witness:
  "is_subset False [\<lparr>rg_start = 0, rg_end = 10\<rparr>, \<lparr>rg_start = 20, rg_end = 30\<rparr>]
     [\<lparr>rg_start = 0, rg_end = 5\<rparr>, \<lparr>rg_start = 21, rg_end = 22\<rparr>]"
  by (subst is_subset_correct) (simp_all add: ordered_ranges_def rg_contains_def)

text \<open>
  The walk that must match every super range.  \<open>is_exact_subset\<close> decides the subset test and
  that every super range but the first serves some sub range: a first super range that nothing
  matches is not noticed, because the flag starts as true.
\<close>

theorem is_exact_subset_correct:
  assumes "ordered_ranges super_set" "sorted (map rg_start sub_set)"
  shows "is_exact_subset super_set sub_set \<longleftrightarrow>
    is_subset True super_set sub_set \<and> (\<forall>ra\<in>set (tl super_set). \<exists>rb\<in>set sub_set. serves True ra rb)"
  using exact_loop_iff(2) [OF assms, of True] is_subset_iff [OF assms, of True]
  by (simp add: is_exact_subset_def)

theorem is_exact_subset_correct_witness:
  "is_exact_subset [\<lparr>rg_start = 0, rg_end = 10\<rparr>, \<lparr>rg_start = 20, rg_end = 30\<rparr>]
     [\<lparr>rg_start = 21, rg_end = 22\<rparr>]"
  by (subst is_exact_subset_correct)
    (simp_all add: ordered_ranges_def rg_contains_def serves_def)

end
