(* ===== verification/SelectionOps.thy ===== *)
theory SelectionOps
  imports Selection SubRange
begin

text \<open>
  What the operations of \<open>Selection\<close> compute: the set algebra (\<open>intersect\<close>, \<open>complement\<close>) on the
  characters covered, mapping a selection through a change set, merging touching ranges, the
  subset test, the iterator over the lines of a selection, and the functions that keep, select or
  split by the matches of a regular expression.  The expression itself is an argument: which
  ranges it matches and the matches it finds (the crate \<open>regex-cursor\<close>).
\<close>

section \<open>Set algebra\<close>

definition solid :: "sel_range list \<Rightarrow> bool" where
  "solid rs \<longleftrightarrow> (\<forall>r\<in>set rs. r_from r < r_to r)"

lemma solid_chars_empty: "solid rs \<Longrightarrow> chars rs = {} \<longleftrightarrow> rs = []"
  by (cases rs) (auto simp: solid_def r_chars_def)

lemma intersect_from:
  "x \<in> set (intersect a b) \<Longrightarrow>
   (\<exists>y\<in>set a. r_from y \<le> r_from x) \<and> (\<exists>z\<in>set b. r_from z \<le> r_from x)"
  by (induction a b rule: intersect.induct) (auto simp: Let_def split: if_splits)

lemma wf_ranges_later: "wf_ranges (r # rs) \<Longrightarrow> x \<in> set rs \<Longrightarrow> r_to r \<le> r_from x"
  by (auto simp: before_def)

lemma before_new: "f < t \<Longrightarrow> t \<le> r_from x \<Longrightarrow> before (r_new f t) x"
  by (simp add: before_def)

lemma intersect_step:
  "r_to r1 < r_to r2 \<Longrightarrow> intersect (r1 # a) (r2 # b) =
     (if max (r_from r1) (r_from r2) < r_to r1
      then [r_new (max (r_from r1) (r_from r2)) (r_to r1)] else []) @ intersect a (r2 # b)"
  "\<not> r_to r1 < r_to r2 \<Longrightarrow> intersect (r1 # a) (r2 # b) =
     (if max (r_from r1) (r_from r2) < r_to r2
      then [r_new (max (r_from r1) (r_from r2)) (r_to r2)] else []) @ intersect (r1 # a) b"
  by (auto simp: Let_def min_def)

lemma intersect_ok:
  "wf_ranges a \<Longrightarrow> wf_ranges b \<Longrightarrow>
   chars (intersect a b) = chars a \<inter> chars b \<and> wf_ranges (intersect a b) \<and> solid (intersect a b)"
proof (induction a b rule: intersect.induct)
  case (3 r1 a r2 b)
  note later1 = wf_ranges_later [OF "3.prems"(1)] and later2 = wf_ranges_later [OF "3.prems"(2)]
  show ?case
  proof (cases "r_to r1 < r_to r2")
    case True
    with "3.IH"(1) [OF refl refl True] "3.prems" have IH:
      "chars (intersect a (r2 # b)) = chars a \<inter> chars (r2 # b)"
      "wf_ranges (intersect a (r2 # b))" "solid (intersect a (r2 # b))" by auto
    have "r_chars r1 \<inter> chars b = {}"
      using later2 True by (fastforce simp: chars_def r_chars_def)
    moreover have "r_to r1 \<le> r_from x" if "x \<in> set (intersect a (r2 # b))" for x
      using intersect_from [OF that] later1 order_trans by blast
    ultimately show ?thesis
      using True IH unfolding intersect_step(1) [OF True]
      by (auto simp: r_chars_def solid_def intro!: before_new)
  next
    case False
    with "3.IH"(2) [OF refl refl False] "3.prems" have IH:
      "chars (intersect (r1 # a) b) = chars (r1 # a) \<inter> chars b"
      "wf_ranges (intersect (r1 # a) b)" "solid (intersect (r1 # a) b)" by auto
    have "r_chars r2 \<inter> chars a = {}"
      using later1 False by (fastforce simp: chars_def r_chars_def)
    moreover have "r_to r2 \<le> r_from x" if "x \<in> set (intersect (r1 # a) b)" for x
      using intersect_from [OF that] later2 order_trans by blast
    ultimately show ?thesis
      using False IH unfolding intersect_step(2) [OF False]
      by (auto simp: r_chars_def solid_def intro!: before_new)
  qed
qed (auto simp: solid_def)

lemma complement_from_start:
  "wf_ranges rs \<Longrightarrow> \<forall>r\<in>set rs. pos \<le> r_from r \<Longrightarrow> x \<in> set (complement_from pos rs len) \<Longrightarrow>
   pos \<le> r_from x \<and> r_from x < r_to x"
proof (induction pos rs len rule: complement_from.induct)
  case (2 pos r rs len)
  have "\<forall>x\<in>set rs. r_to r \<le> r_from x" using "2.prems"(1) by (auto simp: before_def)
  then have IH: "x \<in> set (complement_from (r_to r) rs len) \<Longrightarrow> r_to r \<le> r_from x \<and> r_from x < r_to x"
    using 2 by (auto split: if_splits)
  have "pos \<le> r_to r" using "2.prems"(2) order_trans [OF _ r_from_le_to] by auto
  with IH have "x \<in> set (complement_from (r_to r) rs len) \<Longrightarrow> pos \<le> r_from x \<and> r_from x < r_to x"
    by (meson order_trans)
  with "2.prems"(3) show ?case by (auto split: if_splits)
qed (auto split: if_splits)

lemma complement_from_ok:
  "wf_ranges rs \<Longrightarrow> \<forall>r\<in>set rs. pos \<le> r_from r \<and> r_to r \<le> len \<Longrightarrow>
   chars (complement_from pos rs len) = {pos..<len} - chars rs \<and>
   wf_ranges (complement_from pos rs len)"
proof (induction pos rs len rule: complement_from.induct)
  case (1 pos len)
  then show ?case by (auto simp: r_chars_def)
next
  case (2 pos r rs len)
  have later: "\<forall>x\<in>set rs. r_to r \<le> r_from x \<and> r_to x \<le> len" and wf: "wf_ranges rs"
    using "2.prems" by (auto simp: before_def)
  with "2.IH" have IH: "chars (complement_from (r_to r) rs len) = {r_to r..<len} - chars rs"
    "wf_ranges (complement_from (r_to r) rs len)" by auto
  have start: "r_to r \<le> r_from x" if "x \<in> set (complement_from (r_to r) rs len)" for x
    using complement_from_start [OF wf _ that] later by auto
  have low: "y \<in> chars rs \<Longrightarrow> r_to r \<le> y" for y
    using later by (fastforce simp: chars_def r_chars_def)
  have bounds: "pos \<le> r_from r" "r_to r \<le> len" using "2.prems" by auto
  moreover from bounds have "pos \<le> r_to r" "r_from r \<le> len"
    using order_trans [OF _ r_from_le_to] order_trans [OF r_from_le_to] by blast+
  moreover have "\<And>y. y \<in> chars rs \<Longrightarrow> r_from r \<le> y" using low order_trans [OF r_from_le_to] by blast
  ultimately have "{pos..<len} - chars (r # rs) = {pos..<r_from r} \<union> ({r_to r..<len} - chars rs)"
    by (fastforce simp: r_chars_def)
  then have chars: "chars (complement_from pos (r # rs) len) = {pos..<len} - chars (r # rs)"
    using IH(1) bounds by (auto simp: r_chars_def)
  have "wf_ranges (complement_from pos (r # rs) len)"
    using IH(2) order_trans [OF r_from_le_to start] by (auto intro!: before_new)
  with chars show ?case ..
qed

lemma complement_ok:
  assumes "wf_ranges rs" "\<forall>r\<in>set rs. r_to r \<le> len"
  shows "chars (complement rs len) = {0..<len} - chars rs" "wf_ranges (complement rs len)"
    and "solid (complement rs len)"
  using complement_from_ok [OF assms(1), of 0 len] complement_from_start [OF assms(1), of 0 _ len] assms(2)
  by (auto simp: complement_def solid_def)

text \<open>A result that selects \<open>cs\<close>, or is the \<open>None\<close> of the code when that is empty.\<close>

definition selects :: "selection option option \<Rightarrow> nat set \<Rightarrow> bool" where
  "selects res cs \<longleftrightarrow>
     (if cs = {} then res = Some None
      else \<exists>s. res = Some (Some s) \<and> sel_ok s \<and> chars (sel_ranges s) = cs)"

lemma non_empty_selects:
  assumes "solid rs" and "wf_ranges rs" and "chars rs = cs"
  shows "selects (non_empty rs) cs"
  using assms sel_new_ok [of rs 0] by (auto simp: non_empty_def solid_chars_empty selects_def)

section \<open>Mapping a selection through a change set\<close>

lemma positions_to_map_fst:
  "map fst (positions_to_map r) = [r_from r, r_to r]"
  by (auto simp: positions_to_map_def r_from_def r_to_def)

lemma positions_sorted:
  "wf_ranges rs \<Longrightarrow> sorted (map fst (concat (map positions_to_map rs)))"
proof (induction rs)
  case (Cons r rs)
  have "r_to r \<le> y" if "(y, a) \<in> set (positions_to_map x)" "x \<in> set rs" for y a x
  proof -
    have "y \<in> {r_from x, r_to x}"
      using that(1) arg_cong [OF positions_to_map_fst [of x], of set] by force
    moreover have "r_to r \<le> r_from x" by (rule wf_ranges_later [OF Cons.prems that(2)])
    ultimately show ?thesis using order_trans [OF _ r_from_le_to] by auto
  qed
  then have "\<forall>y\<in>set (map fst (concat (map positions_to_map rs))). r_to r \<le> y" by auto
  moreover have "sorted (map fst (concat (map positions_to_map rs)))" using Cons by simp
  moreover have "map fst (concat (map positions_to_map (r # rs))) =
      [r_from r, r_to r] @ map fst (concat (map positions_to_map rs))"
    by (simp add: positions_to_map_fst)
  ultimately show ?case
    by (simp only: sorted_append) (auto intro: order_trans [OF r_from_le_to])
qed simp

lemma positions_to_map_two: "\<exists>a b. positions_to_map r = [(r_from r, a), (r_to r, b)]"
  by (auto simp: positions_to_map_def r_from_def r_to_def)

lemma rebuild_maps:
  assumes ref: "\<And>p a. p \<le> n \<Longrightarrow> \<exists>q. f p a = Some q"
  shows "\<forall>r\<in>set rs. r_to r \<le> n \<Longrightarrow>
    \<exists>qs. those (map (\<lambda>(p, a). f p a) (concat (map positions_to_map rs))) = Some qs \<and>
      list_all2 (\<lambda>r r'. \<exists>p q. those (map (\<lambda>(p, a). f p a) (positions_to_map r)) = Some [p, q] \<and>
        r' = with_positions r p q) rs (rebuild rs qs)"
proof (induction rs)
  case (Cons r rs)
  then obtain qs where qs: "those (map (\<lambda>(p, a). f p a) (concat (map positions_to_map rs))) = Some qs"
    and all: "list_all2 (\<lambda>r r'. \<exists>p q. those (map (\<lambda>(p, a). f p a) (positions_to_map r)) = Some [p, q] \<and>
        r' = with_positions r p q) rs (rebuild rs qs)" by auto
  obtain a b where ab: "positions_to_map r = [(r_from r, a), (r_to r, b)]"
    using positions_to_map_two by blast
  have "r_to r \<le> n" using Cons.prems by simp
  moreover from this have "r_from r \<le> n" using order_trans [OF r_from_le_to] by blast
  ultimately obtain p q where pq: "f (r_from r) a = Some p" "f (r_to r) b = Some q" using ref by meson
  have "those (map (\<lambda>(p, a). f p a) (concat (map positions_to_map (r # rs)))) = Some (p # q # qs)"
    using ab pq qs by simp
  moreover have "list_all2 (\<lambda>r r'. \<exists>p q. those (map (\<lambda>(p, a). f p a) (positions_to_map r)) = Some [p, q] \<and>
        r' = with_positions r p q) (r # rs) (rebuild (r # rs) (p # q # qs))"
    using ab pq all by simp
  ultimately show ?case by blast
qed simp

lemma r_map_ref:
  "r_map alnum c r = Some r' \<longleftrightarrow>
     (if cs_is_empty c then r' = r
      else \<exists>p q. those (map (\<lambda>(p, a). map_ref alnum (cs_changes c) 0 0 p a) (positions_to_map r)) = Some [p, q] \<and>
        r' = with_positions r p q)"
proof -
  obtain a b where ab: "positions_to_map r = [(r_from r, a), (r_to r, b)]"
    using positions_to_map_two by blast
  have "sorted (map fst (positions_to_map r))" by (simp add: positions_to_map_fst)
  then have "update_positions alnum c (positions_to_map r) =
      those (map (\<lambda>(p, a). map_ref alnum (cs_changes c) 0 0 p a) (positions_to_map r))"
    by (intro update_positions_ref sorted_tame)
  then show ?thesis
    by (auto simp: r_map_def ab split: option.splits)
qed

text \<open>Every range is mapped as it would be alone, and no position is out of bounds.\<close>

lemma map_no_normalize_ok:
  assumes ok: "sel_ok s" and bounds: "\<forall>r\<in>set (sel_ranges s). r_to r \<le> consumed (cs_changes c)"
  shows "\<exists>rs. map_no_normalize alnum c s = Some (s\<lparr>sel_ranges := rs\<rparr>) \<and>
    list_all2 (\<lambda>r r'. r_map alnum c r = Some r') (sel_ranges s) rs"
proof (cases "cs_is_empty c")
  case True
  then have "map_no_normalize alnum c s = Some (s\<lparr>sel_ranges := sel_ranges s\<rparr>)"
    by (simp add: map_no_normalize_def)
  with True show ?thesis by (auto simp: r_map_def list_all2_same intro!: exI [of _ "sel_ranges s"])
next
  case False
  let ?ps = "concat (map positions_to_map (sel_ranges s))"
  let ?f = "\<lambda>p a. map_ref alnum (cs_changes c) 0 0 p a"
  have u: "update_positions alnum c ?ps = those (map (\<lambda>(p, a). ?f p a) ?ps)"
    using ok by (intro update_positions_ref sorted_tame positions_sorted) (simp add: sel_ok_def)
  have "\<exists>q. ?f p a = Some q" if "p \<le> consumed (cs_changes c)" for p a
    using map_ref_Some [of 0 p "cs_changes c" alnum 0 a] that by auto
  from rebuild_maps [of _ ?f, OF this bounds] obtain qs where
    "those (map (\<lambda>(p, a). ?f p a) ?ps) = Some qs"
    "list_all2 (\<lambda>r r'. \<exists>p q. those (map (\<lambda>(p, a). ?f p a) (positions_to_map r)) = Some [p, q] \<and>
        r' = with_positions r p q) (sel_ranges s) (rebuild (sel_ranges s) qs)" by blast
  then show ?thesis using False u unfolding map_no_normalize_def by (auto simp: r_map_ref)
qed


section \<open>Touching ranges, subset\<close>

definition sel_contains :: "selection \<Rightarrow> selection \<Rightarrow> bool" where
  "sel_contains s other =
     (let range_bounds = (\<lambda>x. map (\<lambda>r. \<lparr>rg_start = r_from r, rg_end = r_to r\<rparr>) (sel_ranges x))
      in is_subset True (range_bounds s) (range_bounds other))"



lemma ordered_ranges_sel:
  "wf_ranges rs \<Longrightarrow> ordered_ranges (map (\<lambda>r. \<lparr>rg_start = r_from r, rg_end = r_to r\<rparr>) rs)"
  by (induction rs) (auto simp: ordered_ranges_Cons before_def ordered_ranges_def [of "[]"])

lemma sel_contains_iff:
  assumes "sel_ok s" "sel_ok other"
  shows "sel_contains s other \<longleftrightarrow> (\<forall>b\<in>set (sel_ranges other). \<exists>a\<in>set (sel_ranges s).
    contains_range a b \<and> (r_from b < r_to a \<or> r_from a = r_from b))"
proof -
  have "wf_ranges (sel_ranges s)" "wf_ranges (sel_ranges other)" using assms by (auto simp: sel_ok_def)
  moreover from this(2) have "sorted (map rg_start (map (\<lambda>r. \<lparr>rg_start = r_from r, rg_end = r_to r\<rparr>) (sel_ranges other)))"
    using wf_sorted by (simp add: comp_def)
  ultimately show ?thesis
    unfolding sel_contains_def Let_def
    by (subst is_subset_iff)
      (auto simp: ordered_ranges_sel serves_def rg_contains_def contains_range_def)
qed

section \<open>The lines of a selection\<close>

text \<open>
  \<open>LineRangeIter\<close>: \<open>line_iter_from start fin rest\<close> is the iterator inside its \<open>while\<close> loop, run to
  the end; \<open>next_start - fin\<close> is an unsigned subtraction.
\<close>

fun line_iter_from :: "text_api \<Rightarrow> nat \<Rightarrow> nat \<Rightarrow> sel_range list \<Rightarrow> (nat \<times> nat) list option" where
  "line_iter_from T start fin [] = Some [(start, fin)]"
| "line_iter_from T start fin (r # rs) =
     (let (next_start, next_end) = line_range T r
      in case checked_sub next_start fin of
           None \<Rightarrow> None
         | Some d \<Rightarrow>
             if d \<le> 1 then line_iter_from T start next_end rs
             else map_option ((#) (start, fin)) (line_iter_from T next_start next_end rs))"

definition line_ranges :: "text_api \<Rightarrow> selection \<Rightarrow> (nat \<times> nat) list option" where
  "line_ranges T s =
     (case sel_ranges s of
        [] \<Rightarrow> Some []
      | r # rs \<Rightarrow> let (start, fin) = line_range T r in line_iter_from T start fin rs)"

definition lines_of :: "(nat \<times> nat) list \<Rightarrow> nat set" where
  "lines_of ls = (\<Union>(a, b)\<in>set ls. {a..b})"

lemma lines_of_simps [simp]: "lines_of [] = {}" "lines_of ((a, b) # ls) = {a..b} \<union> lines_of ls"
  by (auto simp: lines_of_def)

lemma prev_boundary_le:
  "text_laws T bd \<Longrightarrow> i \<le> t_len_chars T \<Longrightarrow> prev_grapheme_boundary T i \<le> i"
  unfolding text_laws_def by (metis le0 le_less not_gr_zero)

lemma line_range_order:
  assumes laws: "text_laws T bd" and r: "r_to r \<le> t_len_chars T" and nxt: "r_to r \<le> i" "i \<le> t_len_chars T"
  shows "fst (line_range T r) \<le> snd (line_range T r)" "snd (line_range T r) \<le> char_to_line T i"
proof -
  have mono: "\<And>i j. i \<le> j \<Longrightarrow> j \<le> t_len_chars T \<Longrightarrow> char_to_line T i \<le> char_to_line T j"
    using laws unfolding text_laws_def by blast
  let ?t = "if r_is_empty r then r_to r else max (prev_grapheme_boundary T (r_to r)) (r_from r)"
  have t: "r_from r \<le> ?t" "?t \<le> r_to r" using prev_boundary_le [OF laws r] by auto
  then show "fst (line_range T r) \<le> snd (line_range T r)"
    using r mono [of "r_from r" ?t] by (simp add: line_range_def Let_def)
  show "snd (line_range T r) \<le> char_to_line T i"
    using t nxt mono [of ?t i] by (simp add: line_range_def Let_def)
qed

lemma line_iter_ok:
  assumes laws: "text_laws T bd"
  shows "wf_ranges rs \<Longrightarrow> \<forall>r\<in>set rs. r_to r \<le> t_len_chars T \<and> fin \<le> char_to_line T (r_from r) \<Longrightarrow>
    start \<le> fin \<Longrightarrow>
    \<exists>ls. line_iter_from T start fin rs = Some ls \<and>
      lines_of ls = {start..fin} \<union> lines_of (map (line_range T) rs) \<and>
      sorted_wrt (\<lambda>(a, b) (c, d). b + 1 < c) ls \<and> (\<forall>(a, b)\<in>set ls. start \<le> a \<and> a \<le> b)"
proof (induction rs arbitrary: start fin)
  case (Cons r rs)
  obtain ns ne where lr: "line_range T r = (ns, ne)" by fastforce
  have ns: "ns = char_to_line T (r_from r)" using lr by (simp add: line_range_def Let_def)
  have le: "ns \<le> ne" using line_range_order(1) [OF laws, of r "r_to r"] Cons.prems(2) lr by simp
  have nxt: "ne \<le> char_to_line T (r_from x)" if "x \<in> set rs" for x
  proof -
    have "r_to r \<le> r_from x" by (rule wf_ranges_later [OF Cons.prems(1) that])
    moreover have "r_from x \<le> t_len_chars T"
      using Cons.prems(2) that order_trans [OF r_from_le_to [of x]] by auto
    ultimately show ?thesis
      using line_range_order(2) [OF laws, of r "r_from x"] Cons.prems(2) lr by simp
  qed
  have fin: "fin \<le> ns" using Cons.prems(2) ns by simp
  show ?case
  proof (cases "ns - fin \<le> 1")
    case True
    from Cons.IH [of ne start] Cons.prems le nxt fin obtain ls where
      "line_iter_from T start ne rs = Some ls" "lines_of ls = {start..ne} \<union> lines_of (map (line_range T) rs)"
      "sorted_wrt (\<lambda>(a, b) (c, d). b + 1 < c) ls" "\<forall>(a, b)\<in>set ls. start \<le> a \<and> a \<le> b" by auto
    moreover have "{start..ne} = {start..fin} \<union> {ns..ne}" using True fin le Cons.prems(3) by auto
    ultimately show ?thesis using lr fin True by (auto simp: Un_assoc)
  next
    case False
    from Cons.IH [of ne ns] Cons.prems le nxt obtain ls where
      ls: "line_iter_from T ns ne rs = Some ls" "lines_of ls = {ns..ne} \<union> lines_of (map (line_range T) rs)"
      "sorted_wrt (\<lambda>(a, b) (c, d). b + 1 < c) ls" "\<forall>(a, b)\<in>set ls. ns \<le> a \<and> a \<le> b" by auto
    have "\<forall>(a, b)\<in>set ls. fin + 1 < a \<and> start \<le> a \<and> a \<le> b"
      using ls(4) False Cons.prems(3) by fastforce
    with ls lr fin False Cons.prems(3) show ?thesis by force
  qed
qed auto

section \<open>Regular expressions\<close>

text \<open>
  \<open>is_match f t\<close> and \<open>find_iter f t\<close> are the answers of the expression on the text between the
  character positions \<open>f\<close> and \<open>t\<close>, the matches as character positions.  \<open>slice_lines f t\<close> lists the
  lines of that slice (\<open>ropey\<close>): their lengths, and the length of the line ending if there is one.
\<close>

definition keep_or_remove_matches :: "(nat \<Rightarrow> nat \<Rightarrow> bool) \<Rightarrow> selection \<Rightarrow> bool \<Rightarrow> selection option option" where
  "keep_or_remove_matches is_match s remove =
     (let result = [r \<leftarrow> sel_ranges s. is_match (r_from r) (r_to r) \<noteq> remove]
      in if result \<noteq> [] then map_option Some (sel_new result 0) else Some None)"

definition select_on_matches :: "(nat \<Rightarrow> nat \<Rightarrow> (nat \<times> nat) list) \<Rightarrow> selection \<Rightarrow> selection option option" where
  "select_on_matches find_iter s =
     (let result = concat (map (\<lambda>sel. [range \<leftarrow> map (\<lambda>(start, fin). r_new start fin) (find_iter (r_from sel) (r_to sel)).
                                         range \<noteq> r_point (r_to sel)]) (sel_ranges s))
      in if result \<noteq> [] then map_option Some (sel_new result 0) else Some None)"

fun split_matches_from :: "nat \<Rightarrow> nat \<Rightarrow> (nat \<times> nat) list \<Rightarrow> sel_range list" where
  "split_matches_from start sel_end [] = (if start < sel_end then [r_new start sel_end] else [])"
| "split_matches_from start sel_end ((ms, me) # mats) = r_new start ms # split_matches_from me sel_end mats"

definition split_on_matches :: "(nat \<Rightarrow> nat \<Rightarrow> (nat \<times> nat) list) \<Rightarrow> selection \<Rightarrow> selection option" where
  "split_on_matches find_iter s =
     sel_new (concat (map (\<lambda>sel. if r_from sel = r_to sel then [sel]
                                 else split_matches_from (r_from sel) (r_to sel)
                                        (find_iter (r_from sel) (r_to sel))) (sel_ranges s))) 0"

fun split_lines_from :: "nat \<Rightarrow> nat \<Rightarrow> (nat \<times> nat option) list \<Rightarrow> sel_range list option" where
  "split_lines_from start sel_end ((line_len, Some ending) # lines) =
     Option.bind (checked_sub (start + line_len) ending)
       (\<lambda>e. map_option ((#) (r_new start e)) (split_lines_from (start + line_len) sel_end lines))"
| "split_lines_from start sel_end _ = Some (if start < sel_end then [r_new start sel_end] else [])"

definition split_on_newline :: "(nat \<Rightarrow> nat \<Rightarrow> (nat \<times> nat option) list) \<Rightarrow> selection \<Rightarrow> selection option" where
  "split_on_newline slice_lines s =
     Option.bind
       (those (map (\<lambda>sel. if r_from sel = r_to sel then Some [sel]
                          else split_lines_from (r_from sel) (r_to sel)
                                 (slice_lines (r_from sel) (r_to sel))) (sel_ranges s)))
       (\<lambda>parts. sel_new (concat parts) 0)"

text \<open>What is documented of \<open>find_iter\<close>: matches in order, disjoint, within the text searched.\<close>

definition find_law :: "(nat \<Rightarrow> nat \<Rightarrow> (nat \<times> nat) list) \<Rightarrow> bool" where
  "find_law find_iter \<longleftrightarrow>
     (\<forall>f t. sorted_wrt (\<lambda>(a, b) (c, d). b \<le> c) (find_iter f t) \<and>
            (\<forall>(a, b)\<in>set (find_iter f t). f \<le> a \<and> a \<le> b \<and> b \<le> t))"

definition matched :: "(nat \<times> nat) list \<Rightarrow> nat set" where
  "matched ms = (\<Union>(a, b)\<in>set ms. {a..<b})"

lemma split_matches_from_ok:
  "sorted_wrt (\<lambda>(a, b) (c, d). b \<le> c) ms \<Longrightarrow> \<forall>(a, b)\<in>set ms. start \<le> a \<and> a \<le> b \<and> b \<le> t \<Longrightarrow>
   chars (split_matches_from start t ms) = {start..<t} - matched ms \<and>
   (start < t \<or> ms \<noteq> [] \<longrightarrow> split_matches_from start t ms \<noteq> [])"
proof (induction start t ms rule: split_matches_from.induct)
  case (2 start t ms me mats)
  have later: "\<forall>(a, b)\<in>set mats. me \<le> a \<and> a \<le> b \<and> b \<le> t"
    using "2.prems" by fastforce
  have bounds: "start \<le> ms" "ms \<le> me" "me \<le> t" using "2.prems" by auto
  have IH: "chars (split_matches_from me t mats) = {me..<t} - matched mats"
    using "2.IH" "2.prems" later by auto
  have low: "x \<in> matched mats \<Longrightarrow> me \<le> x" for x
    using later by (fastforce simp: matched_def)
  have split: "matched ((ms, me) # mats) = {ms..<me} \<union> matched mats" by (auto simp: matched_def)
  have "{start..<ms} \<union> ({me..<t} - matched mats) = {start..<t} - ({ms..<me} \<union> matched mats)"
    using bounds by (auto dest: low)
  with IH bounds show ?case by (simp add: split r_chars_def)
qed (auto simp: r_chars_def matched_def)

lemma chars_concat: "chars (concat xss) = (\<Union>xs\<in>set xss. chars xs)"
  by (auto simp: chars_def)

lemma split_on_matches_ok:
  assumes "sel_ok s" "find_law find_iter"
  shows "\<exists>s'. split_on_matches find_iter s = Some s' \<and> sel_ok s' \<and>
    chars (sel_ranges s') =
      (\<Union>r\<in>set (sel_ranges s). r_chars r - matched (find_iter (r_from r) (r_to r)))"
proof -
  let ?f = "\<lambda>sel. if r_from sel = r_to sel then [sel]
    else split_matches_from (r_from sel) (r_to sel) (find_iter (r_from sel) (r_to sel))"
  have each: "chars (?f r) = r_chars r - matched (find_iter (r_from r) (r_to r)) \<and> ?f r \<noteq> []" for r
    using split_matches_from_ok [of "find_iter (r_from r) (r_to r)" "r_from r" "r_to r"] assms(2)
    by (auto simp: find_law_def r_chars_def le_neq_implies_less)
  have "sel_ranges s \<noteq> []" using assms(1) by (auto simp: sel_ok_def)
  then have "concat (map ?f (sel_ranges s)) \<noteq> []" using each by (cases "sel_ranges s") auto
  from sel_new_ok [OF this, of 0] this obtain s' where
    "sel_new (concat (map ?f (sel_ranges s))) 0 = Some s'" "sel_ok s'"
    "chars (sel_ranges s') = chars (concat (map ?f (sel_ranges s)))" by auto
  moreover have "chars (concat (map ?f (sel_ranges s))) =
      (\<Union>r\<in>set (sel_ranges s). r_chars r - matched (find_iter (r_from r) (r_to r)))"
    by (simp only: chars_concat set_map image_image each)
  ultimately show ?thesis unfolding split_on_matches_def by (intro exI [of _ s']) (simp only: simp_thms)
qed

lemma chars_filter_points:
  "chars [r \<leftarrow> map (\<lambda>(a, b). r_new a b) ms. r \<noteq> r_point t] = chars (map (\<lambda>(a, b). r_new a b) ms)"
  by (auto simp: chars_def r_chars_def r_point_def)

lemma chars_matches: "\<forall>(a, b)\<in>set ms. a \<le> b \<Longrightarrow> chars (map (\<lambda>(a, b). r_new a b) ms) = matched ms"
  by (auto simp: chars_def matched_def r_chars_def split: prod.splits; fastforce)

lemma non_empty_cases:
  "\<exists>res. non_empty rs = Some res \<and>
     (case res of Some s' \<Rightarrow> sel_ok s' \<and> chars (sel_ranges s') = chars rs | None \<Rightarrow> chars rs = {})"
  using sel_new_ok [of rs 0] by (cases "rs = []") (auto simp: non_empty_def)

lemma select_on_matches_ok:
  assumes "find_law find_iter"
  shows "\<exists>res. select_on_matches find_iter s = Some res \<and>
    (case res of
       Some s' \<Rightarrow> sel_ok s' \<and>
         chars (sel_ranges s') = (\<Union>r\<in>set (sel_ranges s). matched (find_iter (r_from r) (r_to r)))
     | None \<Rightarrow> (\<Union>r\<in>set (sel_ranges s). matched (find_iter (r_from r) (r_to r))) = {})"
proof -
  let ?f = "\<lambda>sel. [range \<leftarrow> map (\<lambda>(start, fin). r_new start fin) (find_iter (r_from sel) (r_to sel)).
                     range \<noteq> r_point (r_to sel)]"
  have "chars (?f r) = matched (find_iter (r_from r) (r_to r))" for r
    unfolding chars_filter_points
    by (rule chars_matches) (use assms in \<open>fastforce simp: find_law_def\<close>)
  then have ch: "chars (concat (map ?f (sel_ranges s))) =
      (\<Union>r\<in>set (sel_ranges s). matched (find_iter (r_from r) (r_to r)))"
    by (simp only: chars_concat set_map image_image)
  have "select_on_matches find_iter s = non_empty (concat (map ?f (sel_ranges s)))"
    by (simp add: select_on_matches_def non_empty_def Let_def)
  with non_empty_cases [of "concat (map ?f (sel_ranges s))"] show ?thesis by (simp only: ch)
qed

section \<open>Properties\<close>

text \<open>
  C7: The set algebra.  On selections of a text of length \<open>len\<close>, union, intersection, complement
  and difference cover exactly the union, intersection, complement and difference of the
  characters covered; \<open>None\<close> is returned exactly when no character is left, and no call panics.
\<close>

theorem set_algebra:
  assumes "sel_ok s" "sel_ok other" "\<forall>r\<in>set (sel_ranges s @ sel_ranges other). r_to r \<le> len"
  shows "(\<exists>u. sel_union s other = Some u \<and> sel_ok u \<and>
        chars (sel_ranges u) = chars (sel_ranges s) \<union> chars (sel_ranges other)) \<and>
    selects (sel_intersection s other) (chars (sel_ranges s) \<inter> chars (sel_ranges other)) \<and>
    selects (sel_complement s len) ({0..<len} - chars (sel_ranges s)) \<and>
    selects (sel_minus s other len) (chars (sel_ranges s) - chars (sel_ranges other))"
proof -
  have wf: "wf_ranges (sel_ranges s)" "wf_ranges (sel_ranges other)" using assms by (auto simp: sel_ok_def)
  have le: "\<forall>r\<in>set (sel_ranges s). r_to r \<le> len" "\<forall>r\<in>set (sel_ranges other). r_to r \<le> len"
    using assms(3) by auto
  note c = complement_ok [OF wf(1) le(1)] and co = complement_ok [OF wf(2) le(2)]
  have sub: "chars (sel_ranges s) \<subseteq> {0..<len}"
    using le(1) by (fastforce simp: chars_def r_chars_def)
  note i = intersect_ok [OF wf] and im = intersect_ok [OF wf(1) co(2)]
  have "chars (sel_ranges s) \<inter> ({0..<len} - chars (sel_ranges other)) =
      chars (sel_ranges s) - chars (sel_ranges other)" using sub by auto
  then have "selects (sel_minus s other len) (chars (sel_ranges s) - chars (sel_ranges other))"
    unfolding sel_minus_def by (intro non_empty_selects) (use im co(1) in auto)
  moreover have "selects (sel_intersection s other) (chars (sel_ranges s) \<inter> chars (sel_ranges other))"
    unfolding sel_intersection_def by (intro non_empty_selects) (use i in auto)
  moreover have "selects (sel_complement s len) ({0..<len} - chars (sel_ranges s))"
    unfolding sel_complement_def by (intro non_empty_selects c)
  moreover have "sel_ranges s @ sel_ranges other \<noteq> []" using assms(1) by (auto simp: sel_ok_def)
  then have "\<exists>u. sel_union s other = Some u \<and> sel_ok u \<and>
        chars (sel_ranges u) = chars (sel_ranges s) \<union> chars (sel_ranges other)"
    using sel_new_ok [of "sel_ranges s @ sel_ranges other" 0] by (auto simp: sel_union_def)
  ultimately show ?thesis by blast
qed

theorem set_algebra_witness:
  "selects (sel_minus sample_selection (sel_single 1 5) 9) {0}"
proof -
  have "chars (sel_ranges sample_selection) - chars (sel_ranges (sel_single 1 5)) = {0}"
    by (auto simp: sample_selection_def sel_single_def r_chars_def)
  then show ?thesis
    using set_algebra [OF sample_selection_ok, of "sel_single 1 5" 9]
    by (simp add: sel_single_def sel_ok_def sample_selection_def)
qed

text \<open>
  Mapping a selection through an edit.  For a selection within the text the one sweep over
  all its ends does not panic and gives every range the value it has when mapped alone; the
  result of \<open>map\<close> is that list normalised.
\<close>

theorem selection_map:
  assumes "sel_ok s" "\<forall>r\<in>set (sel_ranges s). r_to r \<le> consumed (cs_changes c)"
  shows "\<exists>rs s'. those (map (r_map alnum c) (sel_ranges s)) = Some rs \<and>
    map_no_normalize alnum c s = Some (s\<lparr>sel_ranges := rs\<rparr>) \<and>
    sel_map alnum c s = Some s' \<and> sel_ok s' \<and> chars (sel_ranges s') = chars rs"
proof -
  obtain rs where rs: "map_no_normalize alnum c s = Some (s\<lparr>sel_ranges := rs\<rparr>)"
    "list_all2 (\<lambda>r r'. r_map alnum c r = Some r') (sel_ranges s) rs"
    using map_no_normalize_ok [OF assms] by blast
  from rs(2) have "those (map (r_map alnum c) (sel_ranges s)) = Some rs"
    by (induction rule: list_all2_induct) auto
  moreover have "primary_index s < length rs"
    using assms(1) rs(2) by (auto simp: sel_ok_def dest: list_all2_lengthD)
  ultimately show ?thesis
    using rs(1) normalize_ok [of "s\<lparr>sel_ranges := rs\<rparr>"] by (auto simp: sel_map_def normalized_from_def)
qed

theorem selection_map_witness:
  "\<exists>s'. sel_map (\<lambda>c. 64 < c) sample_edit (sel_single 1 3) = Some s' \<and> sel_ok s'"
  using selection_map [of "sel_single 1 3" sample_edit "\<lambda>c. 64 < c"]
  by (auto simp: sel_single_def sel_ok_def sample_edit_def)

text \<open>
  Subset of selections.  \<open>contains\<close> is true exactly when every range of the other selection
  lies in one of ours without merely touching its end; in particular ours then covers every
  character the other covers.
\<close>

theorem contains_covers:
  assumes "sel_ok s" "sel_ok other" "sel_contains s other"
  shows "chars (sel_ranges other) \<subseteq> chars (sel_ranges s) \<and>
    (\<forall>b\<in>set (sel_ranges other). \<exists>a\<in>set (sel_ranges s).
       contains_range a b \<and> (r_from b < r_to a \<or> r_from a = r_from b))"
proof -
  have all: "\<forall>b\<in>set (sel_ranges other). \<exists>a\<in>set (sel_ranges s).
      contains_range a b \<and> (r_from b < r_to a \<or> r_from a = r_from b)"
    using sel_contains_iff [OF assms(1,2)] assms(3) by blast
  have sub: "contains_range a b \<Longrightarrow> r_chars b \<subseteq> r_chars a" for a b
    by (auto simp: r_chars_def contains_range_def)
  have "chars (sel_ranges other) \<subseteq> chars (sel_ranges s)"
  proof
    fix p
    assume "p \<in> chars (sel_ranges other)"
    then obtain b where b: "b \<in> set (sel_ranges other)" "p \<in> r_chars b" by (auto simp: chars_def)
    with all obtain a where a: "a \<in> set (sel_ranges s)" "contains_range a b" by blast
    then have "p \<in> r_chars a" using sub b(2) by blast
    with a show "p \<in> chars (sel_ranges s)" by (auto simp: chars_def)
  qed
  then show ?thesis using all by (rule conjI)
qed

theorem contains_covers_witness:
  "chars [r_new 0 1, r_new 4 5] \<subseteq> chars (sel_ranges sample_selection)"
  using contains_covers [OF sample_selection_ok, of "\<lparr>sel_ranges = [r_new 0 1, r_new 4 5], primary_index = 0\<rparr>"]
  by (simp add: sel_ok_def before_def sel_contains_def sample_selection_def rg_contains_def)

text \<open>
  Lines of a selection.  For a selection within the text the subtraction of the iterator
  never underflows, the line ranges come out in order with at least one line between them, and
  they cover exactly the lines the ranges touch.
\<close>

theorem line_ranges_correct:
  assumes "text_laws T boundary" "sel_ok s" "\<forall>r\<in>set (sel_ranges s). r_to r \<le> t_len_chars T"
  shows "\<exists>ls. line_ranges T s = Some ls \<and> sorted_wrt (\<lambda>(a, b) (c, d). b + 1 < c) ls \<and>
    (\<forall>(a, b)\<in>set ls. a \<le> b) \<and> lines_of ls = lines_of (map (line_range T) (sel_ranges s))"
proof -
  obtain r rs where s: "sel_ranges s = r # rs" using assms(2) by (cases "sel_ranges s") (auto simp: sel_ok_def)
  obtain start fin where lr: "line_range T r = (start, fin)" by fastforce
  have wf: "wf_ranges (r # rs)" using assms(2) s by (simp add: sel_ok_def)
  have "start \<le> fin" using line_range_order(1) [OF assms(1), of r "r_to r"] assms(3) s lr by simp
  moreover have "fin \<le> char_to_line T (r_from x)" if "x \<in> set rs" for x
  proof -
    have "r_from x \<le> t_len_chars T" using assms(3) s that order_trans [OF r_from_le_to [of x]] by auto
    then show ?thesis
      using line_range_order(2) [OF assms(1), of r "r_from x"] wf_ranges_later [OF wf that] assms(3) s lr
      by simp
  qed
  ultimately obtain ls where "line_iter_from T start fin rs = Some ls"
    "lines_of ls = {start..fin} \<union> lines_of (map (line_range T) rs)"
    "sorted_wrt (\<lambda>(a, b) (c, d). b + 1 < c) ls" "\<forall>(a, b)\<in>set ls. start \<le> a \<and> a \<le> b"
    using line_iter_ok [OF assms(1), of rs fin start] wf assms(3) s by auto
  then show ?thesis using s lr by (auto simp: line_ranges_def)
qed

definition sample_text :: text_api where
  "sample_text = \<lparr>t_len_chars = 9, next_grapheme_boundary = (\<lambda>i. if i < 9 then i + 1 else i),
     prev_grapheme_boundary = (\<lambda>i. i - 1), char_to_line = (\<lambda>i. i div 4)\<rparr>"

lemma sample_text_laws: "text_laws sample_text (\<lambda>_. True)"
  by (auto simp: text_laws_def sample_text_def div_le_mono)

theorem line_ranges_correct_witness:
  "\<exists>ls. line_ranges sample_text sample_selection = Some ls \<and> lines_of ls = {0..2}"
proof -
  have "lines_of (map (line_range sample_text) (sel_ranges sample_selection)) = {0..2}"
    by (auto simp: sample_selection_def sample_text_def line_range_def r_is_empty_def)
  then show ?thesis
    using line_ranges_correct [OF sample_text_laws sample_selection_ok]
    by (auto simp: sample_selection_def sample_text_def)
qed

text \<open>
  Splitting and selecting by a regular expression.  Splitting on the matches of an expression
  never panics and leaves exactly the selected characters that no match covers; selecting the
  matches leaves exactly the matched characters, and is \<open>None\<close> only if there are none.
\<close>

theorem regex_split_select:
  assumes "sel_ok s" "find_law find_iter"
  shows "(\<exists>s'. split_on_matches find_iter s = Some s' \<and> sel_ok s' \<and>
      chars (sel_ranges s') =
        (\<Union>r\<in>set (sel_ranges s). r_chars r - matched (find_iter (r_from r) (r_to r)))) \<and>
    (\<exists>res. select_on_matches find_iter s = Some res \<and>
      (case res of
         Some s' \<Rightarrow> sel_ok s' \<and>
           chars (sel_ranges s') = (\<Union>r\<in>set (sel_ranges s). matched (find_iter (r_from r) (r_to r)))
       | None \<Rightarrow> (\<Union>r\<in>set (sel_ranges s). matched (find_iter (r_from r) (r_to r))) = {}))"
  using split_on_matches_ok [OF assms] select_on_matches_ok [OF assms(2)] by blast

theorem regex_split_select_witness:
  "\<exists>s'. split_on_matches (\<lambda>f t. if f < t then [(f, f + 1)] else []) sample_selection = Some s' \<and>
     sel_ok s' \<and> chars (sel_ranges s') = {1}"
proof -
  let ?find = "\<lambda>f t. if f < t then [(f, f + 1)] else []"
  have law: "find_law ?find" by (simp add: find_law_def)
  have "(\<Union>r\<in>set (sel_ranges sample_selection). r_chars r - matched (?find (r_from r) (r_to r))) = {1}"
    by (auto simp: sample_selection_def r_chars_def matched_def)
  then show ?thesis using regex_split_select [OF sample_selection_ok law] by auto
qed







end
