(* ===== verification/Transaction.thy ===== *)
theory Transaction
  imports Changes Compose SelectionOps
begin

text \<open>
  \<open>Transaction\<close> of \<open>zmax-core/src/transaction.rs\<close>: a change set with the selection to set after it,
  the constructors that make one change per range of a selection, and the serialisable snapshots
  of the persistent undo file.  A closure that keeps state of its own (\<open>FnMut\<close>) is a function on a
  state of type \<open>'s\<close>, threaded through its calls in the order the code makes them.  The size
  computations are on \<open>isize\<close>, an \<open>int\<close> here, and \<open>as usize\<close> is written out.
\<close>

record transaction =
  tx_changes :: change_set
  tx_selection :: "selection option"

definition tx_from :: "change_set \<Rightarrow> transaction" where
  "tx_from changes = \<lparr>tx_changes = changes, tx_selection = None\<rparr>"

definition tx_new :: "'r rope_api \<Rightarrow> 'r \<Rightarrow> transaction" where
  "tx_new R doc = \<lparr>tx_changes = cs_new R doc, tx_selection = None\<rparr>"

definition tx_apply :: "'r rope_api \<Rightarrow> transaction \<Rightarrow> 'r \<Rightarrow> ('r \<times> bool) option" where
  "tx_apply R t doc =
     (if cs_is_empty (tx_changes t) then Some (doc, True) else cs_apply R (tx_changes t) doc)"

definition tx_invert :: "'r rope_api \<Rightarrow> transaction \<Rightarrow> 'r \<Rightarrow> transaction option" where
  "tx_invert R t original =
     map_option (\<lambda>changes. \<lparr>tx_changes = changes, tx_selection = None\<rparr>) (cs_invert R (tx_changes t) original)"

definition tx_compose :: "transaction \<Rightarrow> transaction \<Rightarrow> transaction option" where
  "tx_compose self other =
     map_option (\<lambda>changes. \<lparr>tx_changes = changes, tx_selection = tx_selection other\<rparr>)
       (cs_compose (tx_changes self) (tx_changes other))"

definition with_selection :: "transaction \<Rightarrow> selection \<Rightarrow> transaction" where
  "with_selection t s = t\<lparr>tx_selection := Some s\<rparr>"

definition tx_change :: "'r rope_api \<Rightarrow> 'r \<Rightarrow> change list \<Rightarrow> transaction option" where
  "tx_change R doc changes = map_option tx_from (from_changes R doc changes)"

definition tx_delete :: "'r rope_api \<Rightarrow> 'r \<Rightarrow> deletion list \<Rightarrow> transaction option" where
  "tx_delete R doc deletions = map_option tx_from (delete_changes R doc deletions)"

definition insert_at_eof :: "transaction \<Rightarrow> str \<Rightarrow> transaction" where
  "insert_at_eof t s = t\<lparr>tx_changes := cs_insert s (tx_changes t)\<rparr>"

section \<open>One change per range\<close>

text \<open>A closure called on each element in turn.\<close>

fun map_accum :: "('s \<Rightarrow> 'a \<Rightarrow> 'b \<times> 's) \<Rightarrow> 's \<Rightarrow> 'a list \<Rightarrow> 'b list \<times> 's" where
  "map_accum f s [] = ([], s)"
| "map_accum f s (x # xs) =
     (let (y, s') = f s x; (ys, s'') = map_accum f s' xs in (y # ys, s''))"

definition change_by_selection ::
    "'r rope_api \<Rightarrow> 'r \<Rightarrow> selection \<Rightarrow> ('s \<Rightarrow> sel_range \<Rightarrow> change \<times> 's) \<Rightarrow> 's \<Rightarrow> transaction option" where
  "change_by_selection R doc selection f s = tx_change R doc (fst (map_accum f s (sel_ranges selection)))"

definition tx_insert :: "'r rope_api \<Rightarrow> 'r \<Rightarrow> selection \<Rightarrow> str \<Rightarrow> transaction option" where
  "tx_insert R doc selection s =
     change_by_selection R doc selection (\<lambda>u range. ((head range, head range, Some s), u)) ()"

definition delete_by_selection ::
    "'r rope_api \<Rightarrow> 'r \<Rightarrow> selection \<Rightarrow> ('s \<Rightarrow> sel_range \<Rightarrow> deletion \<times> 's) \<Rightarrow> 's \<Rightarrow> transaction option" where
  "delete_by_selection R doc selection f s = tx_delete R doc (fst (map_accum f s (sel_ranges selection)))"

text \<open>
  What \<open>change_by_selection_ignore_overlapping\<close> keeps between the calls of its closure: the last
  index seen before the primary one, the new primary index, and the ranges kept.
\<close>

record 's overlap_state =
  last_selection_idx :: "nat option"
  new_primary_idx :: "nat option"
  kept_ranges :: "sel_range list"
  tendril_state :: 's

definition process_kept ::
    "nat \<Rightarrow> ('s \<Rightarrow> nat \<Rightarrow> nat \<Rightarrow> str option \<times> 's) \<Rightarrow> 's overlap_state \<Rightarrow> nat \<Rightarrow> nat \<Rightarrow> nat \<times> sel_range \<Rightarrow>
     str option \<times> 's overlap_state" where
  "process_kept primary create_tendril st change_start change_end data =
     (let (idx, range) = data;
          st = (if idx = primary then st\<lparr>new_primary_idx := Some idx\<rparr>
                else if new_primary_idx st = None then
                  (if primary < idx then st\<lparr>new_primary_idx := last_selection_idx st\<rparr>
                   else st\<lparr>last_selection_idx := Some idx\<rparr>)
                else st);
          st = st\<lparr>kept_ranges := kept_ranges st @ [range]\<rparr>;
          (tendril, ts) = create_tendril (tendril_state st) change_start change_end
      in (tendril, st\<lparr>tendril_state := ts\<rparr>))"

definition change_by_selection_ignore_overlapping ::
    "'r rope_api \<Rightarrow> 'r \<Rightarrow> selection \<Rightarrow> ('a \<Rightarrow> sel_range \<Rightarrow> (nat \<times> nat) \<times> 'a) \<Rightarrow> 'a \<Rightarrow>
     ('s \<Rightarrow> nat \<Rightarrow> nat \<Rightarrow> str option \<times> 's) \<Rightarrow> 's \<Rightarrow> (transaction \<times> selection) option" where
  "change_by_selection_ignore_overlapping R doc selection change_range a create_tendril s =
     (let spans = fst (map_accum change_range a (sel_ranges selection));
          change_ranges = map (\<lambda>((f, t), data). (f, t, data))
                            (zip spans (List.enumerate 0 (sel_ranges selection)));
          (changes, st) = change_ignore_overlapping R doc change_ranges
                            (process_kept (primary_index selection) create_tendril)
                            \<lparr>last_selection_idx = None, new_primary_idx = None, kept_ranges = [], tendril_state = s\<rparr>
      in Option.bind changes (\<lambda>cs.
           map_option (Pair (tx_from cs))
             (sel_new (kept_ranges st) (case new_primary_idx st of None \<Rightarrow> 0 | Some i \<Rightarrow> i))))"

text \<open>\<open>as usize\<close> of a 64-bit \<open>isize\<close>.\<close>

definition as_usize :: "int \<Rightarrow> nat" where
  "as_usize z = nat (z mod 2 ^ 64)"

text \<open>
  The loop of \<open>change_by_and_with_selection\<close> over the ranges: the changes and the ranges after
  them; \<open>None\<close> when mapping a range through its own change panics.
\<close>

fun with_selection_loop ::
    "(uchar \<Rightarrow> bool) \<Rightarrow> 'r rope_api \<Rightarrow> 'r \<Rightarrow> ('s \<Rightarrow> sel_range \<Rightarrow> (change \<times> sel_range option) \<times> 's) \<Rightarrow>
     int \<Rightarrow> 's \<Rightarrow> sel_range list \<Rightarrow> (change list \<times> sel_range list) option" where
  "with_selection_loop alnum R doc f offset s [] = Some ([], [])"
| "with_selection_loop alnum R doc f offset s (start_range # rest) =
     (let ((change, end_range), s') = f s start_range;
          (fr, t, replacement) = change;
          change_size = int t - int fr;
          change_size = (case replacement of
                           Some r \<Rightarrow> int (length r) - change_size | None \<Rightarrow> - change_size)
      in Option.bind
           (case end_range of
              Some r \<Rightarrow> Some r
            | None \<Rightarrow> Option.bind (from_change R doc change) (\<lambda>c. r_map alnum c start_range))
           (\<lambda>new_range.
              let offset_range = r_new (as_usize (int (anchor new_range) + offset))
                                   (as_usize (int (head new_range) + offset))
              in map_option (\<lambda>(cs, rs). (change # cs, offset_range # rs))
                   (with_selection_loop alnum R doc f (offset + change_size) s' rest)))"

definition change_by_and_with_selection ::
    "(uchar \<Rightarrow> bool) \<Rightarrow> 'r rope_api \<Rightarrow> 'r \<Rightarrow> selection \<Rightarrow>
     ('s \<Rightarrow> sel_range \<Rightarrow> (change \<times> sel_range option) \<times> 's) \<Rightarrow> 's \<Rightarrow> transaction option" where
  "change_by_and_with_selection alnum R doc selection f s =
     Option.bind (with_selection_loop alnum R doc f 0 s (sel_ranges selection)) (\<lambda>(cs, end_ranges).
       Option.bind (tx_change R doc cs) (\<lambda>t.
         map_option (with_selection t) (sel_new end_ranges (primary_index selection))))"

text \<open>
  The same for deletions.  Here \<open>to - last\<close> and \<open>to - from\<close> are unsigned subtractions, and the
  positions are moved left by \<open>saturating_sub\<close>.
\<close>

fun delete_selection_loop ::
    "(uchar \<Rightarrow> bool) \<Rightarrow> 'r rope_api \<Rightarrow> 'r \<Rightarrow> ('s \<Rightarrow> sel_range \<Rightarrow> (deletion \<times> sel_range option) \<times> 's) \<Rightarrow>
     nat \<Rightarrow> nat \<Rightarrow> 's \<Rightarrow> sel_range list \<Rightarrow> (deletion list \<times> sel_range list) option" where
  "delete_selection_loop alnum R doc f offset lst s [] = Some ([], [])"
| "delete_selection_loop alnum R doc f offset lst s (start_range # rest) =
     (let ((deletion, end_range), s') = f s start_range;
          (fr, t) = deletion
      in Option.bind (if fr < lst then checked_sub t lst else checked_sub t fr) (\<lambda>change_size.
           Option.bind
             (case end_range of
                Some r \<Rightarrow> Some r
              | None \<Rightarrow> Option.bind (from_change R doc (fr, t, None)) (\<lambda>c. r_map alnum c start_range))
             (\<lambda>new_range.
                let offset_range = r_new (anchor new_range - offset) (head new_range - offset)
                in map_option (\<lambda>(ds, rs). (deletion # ds, offset_range # rs))
                     (delete_selection_loop alnum R doc f (offset + change_size) t s' rest))))"

definition delete_by_and_with_selection ::
    "(uchar \<Rightarrow> bool) \<Rightarrow> 'r rope_api \<Rightarrow> 'r \<Rightarrow> selection \<Rightarrow>
     ('s \<Rightarrow> sel_range \<Rightarrow> (deletion \<times> sel_range option) \<times> 's) \<Rightarrow> 's \<Rightarrow> transaction option" where
  "delete_by_and_with_selection alnum R doc selection f s =
     Option.bind (delete_selection_loop alnum R doc f 0 0 s (sel_ranges selection)) (\<lambda>(ds, end_ranges).
       Option.bind (tx_delete R doc ds) (\<lambda>t.
         map_option (with_selection t) (sel_new end_ranges (primary_index selection))))"

section \<open>Snapshots\<close>

datatype operation_snapshot = SRetain nat | SDelete nat | SInsert str

record change_set_snapshot =
  snap_changes :: "operation_snapshot list"
  snap_len :: nat
  snap_len_after :: nat

record selection_snapshot =
  snap_ranges :: "(nat \<times> nat) list"
  snap_primary :: nat

record transaction_snapshot =
  snap_tx_changes :: change_set_snapshot
  snap_tx_selection :: "selection_snapshot option"

fun op_to_snapshot :: "operation \<Rightarrow> operation_snapshot" where
  "op_to_snapshot (Retain n) = SRetain n"
| "op_to_snapshot (Delete n) = SDelete n"
| "op_to_snapshot (Insert s) = SInsert s"

fun op_from_snapshot :: "operation_snapshot \<Rightarrow> operation" where
  "op_from_snapshot (SRetain n) = Retain n"
| "op_from_snapshot (SDelete n) = Delete n"
| "op_from_snapshot (SInsert s) = Insert s"

definition cs_to_snapshot :: "change_set \<Rightarrow> change_set_snapshot" where
  "cs_to_snapshot cs = \<lparr>snap_changes = map op_to_snapshot (cs_changes cs),
     snap_len = cs_len cs, snap_len_after = cs_len_after cs\<rparr>"

definition cs_from_snapshot :: "change_set_snapshot \<Rightarrow> change_set" where
  "cs_from_snapshot s = \<lparr>cs_changes = map op_from_snapshot (snap_changes s),
     cs_len = snap_len s, cs_len_after = snap_len_after s\<rparr>"

definition tx_to_snapshot :: "transaction \<Rightarrow> transaction_snapshot" where
  "tx_to_snapshot t = \<lparr>snap_tx_changes = cs_to_snapshot (tx_changes t),
     snap_tx_selection = map_option (\<lambda>sel.
       \<lparr>snap_ranges = map (\<lambda>r. (anchor r, head r)) (sel_ranges sel), snap_primary = primary_index sel\<rparr>)
       (tx_selection t)\<rparr>"

definition tx_from_snapshot :: "transaction_snapshot \<Rightarrow> transaction option" where
  "tx_from_snapshot s =
     (let tx = tx_from (cs_from_snapshot (snap_tx_changes s))
      in case snap_tx_selection s of
           None \<Rightarrow> Some tx
         | Some sel \<Rightarrow>
             map_option (with_selection tx)
               (sel_new (map (\<lambda>(a, h). r_new a h) (snap_ranges sel)) (snap_primary sel)))"

section \<open>Facts\<close>

text \<open>A transaction is well formed for a text: its change set fits it.\<close>

definition tx_fits :: "transaction \<Rightarrow> str \<Rightarrow> bool" where
  "tx_fits t xs \<longleftrightarrow> cs_ok (tx_changes t) \<and> cs_len (tx_changes t) = length xs"

definition tx_run :: "transaction \<Rightarrow> str \<Rightarrow> str" where
  "tx_run t xs = run (cs_changes (tx_changes t)) xs"

lemma tx_apply_run:
  assumes "rope_laws R contents" "tx_fits t (contents doc)"
  obtains doc' where "tx_apply R t doc = Some (doc', True)" "contents doc' = tx_run t (contents doc)"
proof (cases "cs_is_empty (tx_changes t)")
  case True
  then show ?thesis using that by (simp add: tx_apply_def tx_run_def cs_is_empty_run)
next
  case False
  then show ?thesis
    using that cs_apply_run [OF assms(1), of "tx_changes t" doc] assms(2)
    by (auto simp: tx_apply_def tx_run_def tx_fits_def)
qed

lemma length_tx_run: "tx_fits t xs \<Longrightarrow> length (tx_run t xs) = cs_len_after (tx_changes t)"
  unfolding tx_fits_def tx_run_def by (metis cs_ok_lens(2))

lemma op_snapshot [simp]: "op_from_snapshot (op_to_snapshot op) = op"
  by (cases op) simp_all

lemma cs_snapshot [simp]: "cs_from_snapshot (cs_to_snapshot cs) = cs"
  by (simp add: cs_from_snapshot_def cs_to_snapshot_def comp_def)

lemma map_accum_pure: "fst (map_accum (\<lambda>u x. (f x, u)) s xs) = map f xs"
  by (induction xs) (auto simp: split_beta Let_def)

text \<open>
  The ranges that \<open>change_by_and_with_selection\<close> computes from end ranges given in the old text:
  each is moved by what the changes before it added or removed.
\<close>

lemma as_usize_of_nat: "n < 2 ^ 64 \<Longrightarrow> as_usize (int n) = n"
  by (simp add: as_usize_def nat_mod_distrib)

lemma splice_length_le:
  "changes_fit lst cs (length xs) \<Longrightarrow> length (splice cs lst xs) + lst + (\<Sum>(f, t, r)\<leftarrow>cs. t - f) =
     length xs + (\<Sum>(f, t, r)\<leftarrow>cs. case r of Some s \<Rightarrow> length s | None \<Rightarrow> 0)"
proof (induction cs lst xs rule: splice.induct)
  case (2 f t r cs lst xs)
  then have "t \<le> length xs" using changes_fit_le by auto
  with 2 show ?case by (auto split: option.split)
qed simp

text \<open>Every replacement is selected: the end range is the replaced text, at its place in the new text.\<close>

definition replace_each :: "(sel_range \<Rightarrow> str) \<Rightarrow> unit \<Rightarrow> sel_range \<Rightarrow> (change \<times> sel_range option) \<times> unit" where
  "replace_each g u r =
     (((r_from r, r_to r, Some (g r)), Some (r_new (r_from r) (r_from r + length (g r)))), u)"

lemma with_selection_loop_replace:
  "changes_fit lst (map (\<lambda>r. (r_from r, r_to r, Some (g r))) rs) (length xs) \<Longrightarrow>
   int (length ys) = int lst + offset \<Longrightarrow>
   edited = ys @ splice (map (\<lambda>r. (r_from r, r_to r, Some (g r))) rs) lst xs \<Longrightarrow> length edited < 2 ^ 64 \<Longrightarrow>
   \<exists>ends. with_selection_loop alnum R doc (replace_each g) offset () rs =
       Some (map (\<lambda>r. (r_from r, r_to r, Some (g r))) rs, ends) \<and>
     list_all2 (\<lambda>r e. take (r_to e - r_from e) (drop (r_from e) edited) = g r \<and> r_to e - r_from e = length (g r)) rs ends"
proof (induction rs arbitrary: lst offset ys)
  case (Cons r rs)
  let ?cs = "map (\<lambda>r. (r_from r, r_to r, Some (g r))) rs"
  from Cons.prems(1) have fit: "lst \<le> r_from r" "changes_fit (r_to r) ?cs (length xs)" by auto
  have t: "r_to r \<le> length xs" using changes_fit_le [OF fit(2)] .
  then have f: "r_from r \<le> length xs" using order_trans [OF r_from_le_to] by blast
  let ?pre = "ys @ take (r_from r - lst) (drop lst xs)"
  let ?ys = "?pre @ g r"
  have len: "length ?pre = length ys + (r_from r - lst)" using f fit(1) by simp
  have eq: "int (r_from r) + offset = int (length ?pre)" using len Cons.prems(2) fit(1) by simp
  have eq2: "int (r_from r + length (g r)) + offset = int (length ?pre + length (g r))" using eq by simp
  have ed: "edited = ?ys @ splice ?cs (r_to r) xs" using Cons.prems(3) by simp
  have size: "length ?pre + length (g r) < 2 ^ 64" using Cons.prems(4) ed by simp
  have "as_usize (int (r_from r) + offset) = length ?pre"
    unfolding eq by (rule as_usize_of_nat) (use size in simp)
  moreover have "as_usize (int (r_from r + length (g r)) + offset) = length ?pre + length (g r)"
    unfolding eq2 by (rule as_usize_of_nat [OF size])
  moreover have "int (length ?ys) = int (r_to r) + (offset + (int (length (g r)) - (int (r_to r) - int (r_from r))))"
    using eq by simp
  then obtain ends where
    "with_selection_loop alnum R doc (replace_each g)
       (offset + (int (length (g r)) - (int (r_to r) - int (r_from r)))) () rs = Some (?cs, ends)"
    "list_all2 (\<lambda>r e. take (r_to e - r_from e) (drop (r_from e) edited) = g r \<and> r_to e - r_from e = length (g r)) rs ends"
    using Cons.IH [OF fit(2) _ ed Cons.prems(4)] by blast
  moreover have "take (length (g r)) (drop (length ?pre) edited) = g r" using ed by simp
  moreover have "replace_each g () r =
      (((r_from r, r_to r, Some (g r)), Some (r_new (r_from r) (r_from r + length (g r)))), ())"
    by (simp add: replace_each_def)
  ultimately show ?case
    by (intro exI [of _ "r_new (length ?pre) (length ?pre + length (g r)) # ends"]) (simp add: Let_def)
qed simp

section \<open>Properties\<close>

text \<open>
  Persistent undo.  A transaction read back from its snapshot is the transaction that was
  saved, but for the remembered visual columns of its selection, which are not saved.
\<close>

theorem snapshot_roundtrip:
  assumes "\<forall>s. tx_selection t = Some s \<longrightarrow> sel_ok s"
  shows "tx_from_snapshot (tx_to_snapshot t) =
    Some (t\<lparr>tx_selection := map_option (\<lambda>s. s\<lparr>sel_ranges := map (\<lambda>r. r\<lparr>old_visual_position := None\<rparr>) (sel_ranges s)\<rparr>)
      (tx_selection t)\<rparr>)"
proof (cases "tx_selection t")
  case None
  then show ?thesis
    by (simp add: tx_from_snapshot_def tx_to_snapshot_def tx_from_def Let_def)
next
  case (Some s)
  let ?s = "s\<lparr>sel_ranges := map (\<lambda>r. r\<lparr>old_visual_position := None\<rparr>) (sel_ranges s)\<rparr>"
  have "before (a\<lparr>old_visual_position := None\<rparr>) (b\<lparr>old_visual_position := None\<rparr>) \<longleftrightarrow> before a b" for a b
    by (simp add: before_def r_from_def r_to_def)
  then have ok: "sel_ok ?s"
    using assms Some by (auto simp: sel_ok_def wf_ranges_def sorted_wrt_map)
  have ranges: "map ((\<lambda>(a, h). r_new a h) \<circ> (\<lambda>r. (anchor r, head r))) (sel_ranges s) = sel_ranges ?s"
    by (simp add: r_new_def)
  have "\<lparr>sel_ranges = sel_ranges ?s, primary_index = primary_index ?s\<rparr> = ?s" by (cases s) simp
  then have "sel_new (sel_ranges ?s) (primary_index ?s) = Some ?s"
    using ok normalize_id [OF ok] by (simp only: sel_new_def) (auto simp: sel_ok_def)
  then show ?thesis
    using Some
    by (cases t) (simp add: tx_from_snapshot_def tx_to_snapshot_def tx_from_def with_selection_def Let_def ranges)
qed

theorem snapshot_roundtrip_witness:
  "tx_from_snapshot (tx_to_snapshot \<lparr>tx_changes = sample_edit, tx_selection = Some (sel_single 1 3)\<rparr>) =
     Some \<lparr>tx_changes = sample_edit, tx_selection = Some (sel_single 1 3)\<rparr>"
  using snapshot_roundtrip [of "\<lparr>tx_changes = sample_edit, tx_selection = Some (sel_single 1 3)\<rparr>"]
  by (simp add: sel_single_def sel_ok_def r_new_def)

text \<open>
  Replacing every range of a selection.  One transaction replaces all ranges; it does not
  panic on a selection within the text, and the ranges it computes for the new text hold exactly
  the replacements, whatever their lengths.
\<close>

theorem change_by_and_with_selection_tracks:
  assumes "rope_laws R contents" "sel_ok s" "\<forall>r\<in>set (sel_ranges s). r_to r \<le> length (contents doc)"
    "length (splice (map (\<lambda>r. (r_from r, r_to r, Some (g r))) (sel_ranges s)) 0 (contents doc)) < 2 ^ 64"
  shows "\<exists>t edited ends s'.
    change_by_and_with_selection alnum R doc s (replace_each g) () = Some t \<and>
    tx_apply R t doc = Some (edited, True) \<and> tx_selection t = Some s' \<and> sel_ok s' \<and>
    chars (sel_ranges s') = chars ends \<and>
    list_all2 (\<lambda>r e. take (r_to e - r_from e) (drop (r_from e) (contents edited)) = g r) (sel_ranges s) ends"
proof -
  let ?cs = "map (\<lambda>r. (r_from r, r_to r, Some (g r))) (sel_ranges s)" and ?xs = "contents doc"
  have fits: "wf_ranges rs \<Longrightarrow> \<forall>r\<in>set rs. r_to r \<le> length ?xs \<and> lst \<le> r_from r \<Longrightarrow> lst \<le> length ?xs \<Longrightarrow>
      changes_fit lst (map (\<lambda>r. (r_from r, r_to r, Some (g r))) rs) (length ?xs)" for rs lst
    by (induction rs arbitrary: lst) (auto simp: before_def)
  have wf: "wf_ranges (sel_ranges s)" "sel_ranges s \<noteq> []" "primary_index s < length (sel_ranges s)"
    using assms(2) by (auto simp: sel_ok_def)
  have fit: "changes_fit 0 ?cs (length ?xs)" using fits [OF wf(1), of 0] assms(3) by simp
  obtain cs where cs: "from_changes R doc ?cs = Some cs" "cs_exact cs" "canonical (cs_changes cs)"
    "cs_len cs = length ?xs" "run (cs_changes cs) ?xs = splice ?cs 0 ?xs"
    using from_changes_ok [OF assms(1) fit] by blast
  obtain ends where ends: "with_selection_loop alnum R doc (replace_each g) 0 () (sel_ranges s) = Some (?cs, ends)"
    "list_all2 (\<lambda>r e. take (r_to e - r_from e) (drop (r_from e) (splice ?cs 0 ?xs)) = g r \<and>
       r_to e - r_from e = length (g r)) (sel_ranges s) ends"
    using with_selection_loop_replace [OF fit, of "[]" 0 _ alnum R doc] assms(4) by auto
  then have "length ends = length (sel_ranges s)" by (simp add: list_all2_lengthD)
  then have "ends \<noteq> []" "primary_index s < length ends" using wf by auto
  then obtain s' where s': "sel_new ends (primary_index s) = Some s'" "sel_ok s'" "chars (sel_ranges s') = chars ends"
    using sel_new_ok by blast
  let ?t = "with_selection (tx_from cs) s'"
  have "change_by_and_with_selection alnum R doc s (replace_each g) () = Some ?t"
    using ends(1) cs(1) s'(1) by (simp add: change_by_and_with_selection_def tx_change_def)
  moreover have "tx_fits ?t ?xs"
    using cs by (simp add: tx_fits_def tx_from_def with_selection_def cs_ok_exact)
  then obtain edited where "tx_apply R ?t doc = Some (edited, True)" "contents edited = splice ?cs 0 ?xs"
    using tx_apply_run [OF assms(1), of ?t doc] cs(5)
    by (auto simp: tx_run_def tx_from_def with_selection_def)
  moreover have "tx_selection ?t = Some s'" by (simp add: with_selection_def)
  moreover have "list_all2 (\<lambda>r e. take (r_to e - r_from e) (drop (r_from e) (splice ?cs 0 ?xs)) = g r) (sel_ranges s) ends"
    using ends(2) by (rule list_all2_mono) (rule conjunct1)
  ultimately show ?thesis
    using s'(2,3) by (intro exI [of _ ?t] exI [of _ edited] exI [of _ ends] exI [of _ s']) simp
qed

theorem change_by_and_with_selection_tracks_witness:
  "\<exists>t edited. change_by_and_with_selection (\<lambda>_. True) list_rope [0, 1, 2, 3, 4, 5, 6, 7, 8, 9] sample_selection
      (replace_each (\<lambda>r. [r_from r, 100, 101])) () = Some t \<and>
    tx_apply list_rope t [0, 1, 2, 3, 4, 5, 6, 7, 8, 9] = Some (edited, True)"
  using change_by_and_with_selection_tracks [OF list_rope_laws sample_selection_ok,
      of "[0, 1, 2, 3, 4, 5, 6, 7, 8, 9]" "\<lambda>r. [r_from r, 100, 101]" "\<lambda>_. True"]
  by (auto simp: sample_selection_def)

text \<open>
  Two panics on overlapping input that is documented as allowed.
  \<open>change_by_selection_ignore_overlapping\<close> numbers the new primary range by its place in the old
  selection although ignored ranges are dropped from the new one; and a deletion that lies inside
  the one before makes \<open>delete_by_and_with_selection\<close> subtract with underflow, where \<open>delete\<close>
  skips it.
\<close>

theorem overlapping_selection_panics:
  "change_by_selection_ignore_overlapping list_rope [0, 1, 2, 3, 4, 5, 6, 7, 8, 9]
      \<lparr>sel_ranges = [r_new 0 2, r_new 5 4, r_new 8 8], primary_index = 2\<rparr>
      (\<lambda>u r. ((if r_from r = 4 then (1, 5) else (r_from r, r_to r)), u)) () (\<lambda>u f t. (None, u)) () = None \<and>
   (\<exists>cs. delete_changes list_rope [0, 1, 2, 3, 4, 5, 6, 7, 8, 9] [(0, 10), (4, 5)] = Some cs) \<and>
   delete_by_and_with_selection (\<lambda>_. True) list_rope [0, 1, 2, 3, 4, 5, 6, 7, 8, 9]
      \<lparr>sel_ranges = [r_new 0 2, r_new 5 4], primary_index = 0\<rparr>
      (\<lambda>u r. (((if r_from r = 0 then (0, 10) else (4, 5)), Some r), u)) () = None"
proof -
  have "change_by_selection_ignore_overlapping list_rope [0, 1, 2, 3, 4, 5, 6, 7, 8, 9]
      \<lparr>sel_ranges = [r_new 0 2, r_new 5 4, r_new 8 8], primary_index = 2\<rparr>
      (\<lambda>u r. ((if r_from r = 4 then (1, 5) else (r_from r, r_to r)), u)) () (\<lambda>u f t. (None, u)) () = None"
    by (simp add: change_by_selection_ignore_overlapping_def change_ignore_overlapping_def process_kept_def Let_def
        bind_eq_None_conv split_beta sel_new_def)
  moreover have "\<exists>cs. delete_changes list_rope [0, 1, 2, 3, 4, 5, 6, 7, 8, 9] [(0, 10), (4, 5)] = Some cs"
    by (simp add: delete_changes_def list_rope_def Let_def)
  moreover have "delete_by_and_with_selection (\<lambda>_. True) list_rope [0, 1, 2, 3, 4, 5, 6, 7, 8, 9]
      \<lparr>sel_ranges = [r_new 0 2, r_new 5 4], primary_index = 0\<rparr>
      (\<lambda>u r. (((if r_from r = 0 then (0, 10) else (4, 5)), Some r), u)) () = None"
    by (simp add: delete_by_and_with_selection_def Let_def checked_sub_def)
  ultimately show ?thesis by blast
qed

end
