(* ===== verification/Editing.thy ===== *)
theory Editing
  imports Transaction
begin

text \<open>
  The contract between the editing core and whatever keeps a log of edits.  The locale
  \<open>editing\<close> asks of a type of edits only that an edit made on a document can be inverted there and
  that two edits made one after the other can be composed; its lemmas are about lists of edits.
  It is interpreted on the transactions of the model, an edit being well formed when its change
  set is canonical and exact for the text it is applied to.
\<close>

locale editing =
  fixes moves :: "'t \<Rightarrow> 'd \<Rightarrow> 'd \<Rightarrow> bool"
    and invert_edit :: "'t \<Rightarrow> 'd \<Rightarrow> 't option"
    and compose_edits :: "'t \<Rightarrow> 't \<Rightarrow> 't option"
  assumes inverts: "moves t d d' \<Longrightarrow> \<exists>u. invert_edit t d = Some u \<and> moves u d' d"
    and composes: "moves t d d' \<Longrightarrow> moves u d' d'' \<Longrightarrow> \<exists>v. compose_edits t u = Some v \<and> moves v d d''"
begin

fun moves_all :: "'t list \<Rightarrow> 'd \<Rightarrow> 'd \<Rightarrow> bool" where
  "moves_all [] d d' \<longleftrightarrow> d = d'"
| "moves_all (t # ts) d d' \<longleftrightarrow> (\<exists>e. moves t d e \<and> moves_all ts e d')"

text \<open>\<open>reduce(|acc, tx| tx.compose(acc))\<close>: the list is composed from its last element on.\<close>

fun compose_back :: "'t \<Rightarrow> 't list \<Rightarrow> 't option" where
  "compose_back acc [] = Some acc"
| "compose_back acc (t # ts) = Option.bind (compose_edits t acc) (\<lambda>acc. compose_back acc ts)"

lemma moves_all_append: "moves_all (ts @ us) d d' \<longleftrightarrow> (\<exists>e. moves_all ts d e \<and> moves_all us e d')"
  by (induction ts d d' rule: moves_all.induct) auto

lemma compose_back_moves:
  "moves_all (rev ts) d e \<Longrightarrow> moves acc e d' \<Longrightarrow> \<exists>v. compose_back acc ts = Some v \<and> moves v d d'"
proof (induction ts arbitrary: acc e)
  case (Cons t ts)
  then obtain e' where e': "moves_all (rev ts) d e'" "moves t e' e" by (auto simp: moves_all_append)
  then obtain v where "compose_edits t acc = Some v" "moves v e' d'" using composes Cons.prems(2) by blast
  then show ?case using Cons.IH [OF e'(1)] by auto
qed auto

text \<open>Undoing and redoing an edit any number of times.\<close>

lemma invert_twice:
  assumes "moves t d d'"
  shows "\<exists>u v. invert_edit t d = Some u \<and> invert_edit u d' = Some v \<and> moves_all [t, u, v] d d'"
proof -
  obtain u where u: "invert_edit t d = Some u" "moves u d' d" using inverts [OF assms] by blast
  obtain v where "invert_edit u d' = Some v" "moves v d d'" using inverts [OF u(2)] by blast
  with u assms show ?thesis by auto
qed

end

section \<open>Transactions\<close>

definition tx_moves :: "transaction \<Rightarrow> str \<Rightarrow> str \<Rightarrow> bool" where
  "tx_moves t xs ys \<longleftrightarrow> canonical (cs_changes (tx_changes t)) \<and> cs_exact (tx_changes t) \<and>
     cs_len (tx_changes t) = length xs \<and> tx_run t xs = ys"

text \<open>The inverse depends on the text of the buffer only.\<close>

definition tx_invert_text :: "transaction \<Rightarrow> str \<Rightarrow> transaction option" where
  "tx_invert_text t xs = tx_invert list_rope t xs"

lemma invert_ops_rope:
  assumes "rope_laws R contents"
  shows "pos + consumed ops \<le> length (contents doc) \<Longrightarrow>
    invert_ops R doc pos ops cs = invert_ops list_rope (contents doc) pos ops cs"
proof (induction ops arbitrary: pos cs)
  case (Cons op ops)
  then show ?case
    by (cases op) (simp_all add: rope_slice_Some [OF assms] rope_slice_Some [OF list_rope_laws])
qed simp

lemma tx_invert_rope:
  assumes "rope_laws R contents" "tx_moves t (contents doc) ys"
  shows "tx_invert R t doc = tx_invert_text t (contents doc)"
proof -
  have "consumed (cs_changes (tx_changes t)) \<le> length (contents doc)"
    using assms(2) by (auto simp: tx_moves_def cs_exact_def)
  then have "cs_invert R (tx_changes t) doc = cs_invert list_rope (tx_changes t) (contents doc)"
    using invert_ops_rope [OF assms(1), of 0 "cs_changes (tx_changes t)" doc]
    by (simp add: cs_invert_def rope_len [OF assms(1)] rope_len [OF list_rope_laws])
  then show ?thesis by (simp add: tx_invert_def tx_invert_text_def)
qed

lemma tx_moves_fits: "tx_moves t xs ys \<Longrightarrow> tx_fits t xs"
  by (auto simp: tx_moves_def tx_fits_def intro: cs_ok_exact)

lemma tx_moves_after: "tx_moves t xs ys \<Longrightarrow> length ys = cs_len_after (tx_changes t)"
  using length_tx_run [OF tx_moves_fits] by (auto simp: tx_moves_def)

lemma tx_moves_inverts:
  assumes "tx_moves t xs ys"
  shows "\<exists>u. tx_invert_text t xs = Some u \<and> tx_moves u ys xs \<and> tx_selection u = None"
proof -
  let ?cs = "tx_changes t"
  have cs: "cs_ok ?cs" "cs_exact ?cs" "length xs = cs_len ?cs" "run (cs_changes ?cs) xs = ys"
    using assms by (auto simp: tx_moves_def tx_run_def intro: cs_ok_exact)
  obtain inv where inv: "cs_invert list_rope ?cs xs = Some inv" "cs_exact inv" "canonical (cs_changes inv)"
    "cs_changes ?cs \<noteq> [] \<Longrightarrow> cs_len inv = cs_len_after ?cs"
    "run (cs_changes inv) (run (cs_changes ?cs) xs) = xs"
    using cs_invert_ok [OF list_rope_laws cs(1,3)] by metis
  have "cs_len inv = length ys"
  proof (cases "cs_changes ?cs = []")
    case True
    then have "cs_len ?cs = 0" using cs(2) by (simp add: cs_exact_def)
    then show ?thesis
      using True inv(1) cs(3,4)
      by (auto simp: cs_invert_def cs_with_capacity_def run_def split: if_splits)
  next
    case False
    then show ?thesis using inv(4) tx_moves_after [OF assms] by simp
  qed
  then show ?thesis
    using inv cs(4) by (auto simp: tx_invert_text_def tx_invert_def tx_moves_def tx_run_def)
qed

lemma tx_moves_composes:
  assumes "tx_moves t xs ys" "tx_moves u ys zs"
  shows "\<exists>v. tx_compose t u = Some v \<and> tx_moves v xs zs \<and> tx_selection v = tx_selection u"
proof -
  have ok: "cs_ok (tx_changes t)" "cs_ok (tx_changes u)"
    using assms by (auto simp: tx_moves_def intro: cs_ok_exact)
  have fit: "cs_len_after (tx_changes t) = cs_len (tx_changes u)"
    using tx_moves_after [OF assms(1)] assms(2) by (simp add: tx_moves_def)
  obtain c where c: "cs_compose (tx_changes t) (tx_changes u) = Some c" "cs_ok c"
    "cs_len c = cs_len (tx_changes t)" "cs_exact c"
    "\<And>xs. length xs = cs_len (tx_changes t) \<Longrightarrow>
       run (cs_changes c) xs = run (cs_changes (tx_changes u)) (run (cs_changes (tx_changes t)) xs)"
    using cs_compose_ok [OF ok fit] assms by (auto simp: tx_moves_def)
  show ?thesis
    using c assms by (auto simp: tx_compose_def tx_moves_def tx_run_def cs_ok_def)
qed

interpretation te: editing tx_moves tx_invert_text tx_compose
proof unfold_locales
  fix t xs ys
  assume "tx_moves t xs ys"
  then show "\<exists>u. tx_invert_text t xs = Some u \<and> tx_moves u ys xs" using tx_moves_inverts by blast
next
  fix t u xs ys zs
  assume "tx_moves t xs ys" "tx_moves u ys zs"
  then show "\<exists>v. tx_compose t u = Some v \<and> tx_moves v xs zs" using tx_moves_composes by blast
qed

text \<open>The selection a transaction carries does not matter to what it does to the text.\<close>

lemma tx_moves_selection [simp]: "tx_moves (with_selection t s) xs ys = tx_moves t xs ys"
  by (simp add: tx_moves_def with_selection_def tx_run_def)

section \<open>Applying a list of transactions to a buffer\<close>

fun apply_all :: "'r rope_api \<Rightarrow> transaction list \<Rightarrow> 'r \<Rightarrow> 'r option" where
  "apply_all R [] doc = Some doc"
| "apply_all R (t # ts) doc =
     (case tx_apply R t doc of
        Some (doc', True) \<Rightarrow> apply_all R ts doc'
      | _ \<Rightarrow> None)"

lemma apply_all_moves:
  assumes laws: "rope_laws R contents"
  shows "te.moves_all ts (contents doc) ys \<Longrightarrow> \<exists>doc'. apply_all R ts doc = Some doc' \<and> contents doc' = ys"
proof (induction ts arbitrary: doc)
  case (Cons t ts)
  then obtain zs where zs: "tx_moves t (contents doc) zs" "te.moves_all ts zs ys" by auto
  obtain doc' where "tx_apply R t doc = Some (doc', True)" "contents doc' = tx_run t (contents doc)"
    by (rule tx_apply_run [OF laws tx_moves_fits [OF zs(1)]])
  moreover from this have "contents doc' = zs" using zs(1) by (simp add: tx_moves_def)
  ultimately show ?case using zs(2) Cons.IH [of doc'] by simp
qed auto

end
