(* ===== verification/History.thy ===== *)
theory History
  imports Editing
begin

text \<open>
  \<open>zmax-core/src/history.rs\<close>: the undo tree.  A history is a vector of revisions; every revision
  but the root has a parent, the transaction that leads from the parent to it and the inversion
  that leads back.  Indices are \<open>nat\<close>, a read past the end or a failed assertion is \<open>None\<close>, an
  \<open>Option<NonZeroUsize>\<close> is an option.  An \<open>Instant\<close> is a \<open>nat\<close> counted from the earliest one and
  bounded by the argument \<open>latest\<close>; \<open>now\<close> and the global \<open>undolevels\<close> are arguments.  The two
  loops that walk towards the root may run for ever on a malformed tree and are partial
  functions; on a tree they are shown to end.
\<close>

record revision =
  parent :: nat
  last_child :: "nat option"
  rv_transaction :: transaction
  rv_inversion :: transaction
  timestamp :: nat

record history =
  revisions :: "revision list"
  current :: nat
  max_revisions :: "nat option"

record 'r edit_state =
  st_doc :: 'r
  st_selection :: selection

definition non_zero :: "nat \<Rightarrow> nat option" where
  "non_zero n = (if n = 0 then None else Some n)"

definition history_default :: "nat \<Rightarrow> history" where
  "history_default now =
     (let empty = tx_from \<lparr>cs_changes = [], cs_len = 0, cs_len_after = 0\<rparr>
      in \<lparr>revisions = [\<lparr>parent = 0, last_child = None, rv_transaction = empty,
                          rv_inversion = empty, timestamp = now\<rparr>],
          current = 0, max_revisions = None\<rparr>)"

definition trim_to_undo_levels :: "nat \<Rightarrow> history \<Rightarrow> history option" where
  "trim_to_undo_levels undo_levels h =
     (let max_revs = (case max_revisions h of None \<Rightarrow> undo_levels | Some m \<Rightarrow> m);
          real = length (revisions h) - 1
      in if max_revs = 0 then Some h
         else if real \<le> max_revs then Some h
         else
           let drp = min (real - max_revs) (current h - 1)
           in if drp = 0 then Some h
              else
                Option.bind
                  (those (map (\<lambda>rv.
                     Option.bind
                       (case last_child rv of
                          None \<Rightarrow> Some None
                        | Some child \<Rightarrow> map_option non_zero (checked_sub child drp))
                       (\<lambda>child. Some (rv\<lparr>parent := parent rv - drp, last_child := child\<rparr>)))
                     (drop (Suc drp) (revisions h))))
                  (\<lambda>rest.
                     Some (h\<lparr>revisions := (revisions h ! 0)\<lparr>last_child := non_zero 1\<rparr> # rest,
                              current := current h - drp\<rparr>)))"

definition set_max_revisions :: "nat \<Rightarrow> nat option \<Rightarrow> history \<Rightarrow> history option" where
  "set_max_revisions undo_levels m h = trim_to_undo_levels undo_levels (h\<lparr>max_revisions := m\<rparr>)"

definition commit_revision_at_timestamp ::
    "'r rope_api \<Rightarrow> nat \<Rightarrow> transaction \<Rightarrow> 'r edit_state \<Rightarrow> nat \<Rightarrow> history \<Rightarrow> history option" where
  "commit_revision_at_timestamp R undo_levels t original ts h =
     Option.bind (tx_invert R t (st_doc original)) (\<lambda>inv.
       let inversion = with_selection inv (st_selection original);
           new_current = length (revisions h)
       in if \<not> current h < length (revisions h) then None
          else
            let revs = (revisions h)[current h := (revisions h ! current h)\<lparr>last_child := non_zero new_current\<rparr>];
                revs = revs @ [\<lparr>parent = current h, last_child = None, rv_transaction = t,
                                 rv_inversion = inversion, timestamp = ts\<rparr>]
            in trim_to_undo_levels undo_levels (h\<lparr>revisions := revs, current := new_current\<rparr>))"

definition commit_revision ::
    "'r rope_api \<Rightarrow> nat \<Rightarrow> nat \<Rightarrow> transaction \<Rightarrow> 'r edit_state \<Rightarrow> history \<Rightarrow> history option" where
  "commit_revision R undo_levels now t original h =
     commit_revision_at_timestamp R undo_levels t original now h"

definition merge_last_revision ::
    "'r rope_api \<Rightarrow> nat \<Rightarrow> nat \<Rightarrow> transaction \<Rightarrow> 'r edit_state \<Rightarrow> history \<Rightarrow> history option" where
  "merge_last_revision R undo_levels now t original h =
     (if current h = 0 then commit_revision R undo_levels now t original h
      else
        Option.bind (tx_invert R t (st_doc original)) (\<lambda>inv.
          let new_inversion = with_selection inv (st_selection original)
          in if \<not> current h < length (revisions h) then None
             else
               let cur = revisions h ! current h
               in Option.bind (tx_compose (rv_transaction cur) t) (\<lambda>fwd.
                    Option.bind (tx_compose new_inversion (rv_inversion cur)) (\<lambda>bwd.
                      Some (h\<lparr>revisions := (revisions h)[current h :=
                        cur\<lparr>rv_transaction := fwd, rv_inversion := bwd, timestamp := now\<rparr>]\<rparr>)))))"

definition at_root :: "history \<Rightarrow> bool" where
  "at_root h \<longleftrightarrow> current h = 0"

definition undo :: "history \<Rightarrow> (transaction option \<times> history) option" where
  "undo h =
     (if at_root h then Some (None, h)
      else if \<not> current h < length (revisions h) then None
      else
        let rv = revisions h ! current h
        in Some (Some (rv_inversion rv), h\<lparr>current := parent rv\<rparr>))"

definition redo :: "history \<Rightarrow> (transaction option \<times> history) option" where
  "redo h =
     (if \<not> current h < length (revisions h) then None
      else
        case last_child (revisions h ! current h) of
          None \<Rightarrow> Some (None, h)
        | Some child \<Rightarrow>
            if \<not> child < length (revisions h) then None
            else Some (Some (rv_transaction (revisions h ! child)), h\<lparr>current := child\<rparr>))"

section \<open>Walking the tree\<close>

partial_function (option) lca_loop ::
    "revision list \<Rightarrow> nat list \<Rightarrow> nat list \<Rightarrow> nat \<Rightarrow> nat \<Rightarrow> nat option" where
  [code]: "lca_loop revs a_path_set b_path_set a b =
     (if b \<in> set (a # a_path_set) then Some b
      else if a \<in> set (b # b_path_set) then Some a
      else if \<not> a < length revs then None
      else if \<not> b < length revs then None
      else lca_loop revs (a # a_path_set) (b # b_path_set) (parent (revs ! a)) (parent (revs ! b)))"

definition lowest_common_ancestor :: "history \<Rightarrow> nat \<Rightarrow> nat \<Rightarrow> nat option" where
  "lowest_common_ancestor h a b = lca_loop (revisions h) [] [] a b"

partial_function (option) path_up_loop :: "revision list \<Rightarrow> nat \<Rightarrow> nat \<Rightarrow> nat list option" where
  [code]: "path_up_loop revs n a =
     (if n = a then Some []
      else if \<not> n < length revs then None
      else Option.bind (path_up_loop revs (parent (revs ! n)) a) (\<lambda>path. Some (n # path)))"

definition path_up :: "history \<Rightarrow> nat \<Rightarrow> nat \<Rightarrow> nat list option" where
  "path_up h n a = path_up_loop (revisions h) n a"

definition jump_to :: "nat \<Rightarrow> history \<Rightarrow> (transaction list \<times> history) option" where
  "jump_to to h =
     Option.bind (lowest_common_ancestor h (current h) to) (\<lambda>lca.
       Option.bind (path_up h (current h) lca) (\<lambda>up.
         Option.bind (path_up h to lca) (\<lambda>down.
           let up_txns = map (\<lambda>n. rv_inversion (revisions h ! n)) up;
               down_txns = map (\<lambda>n. rv_transaction (revisions h ! n)) (rev down)
           in Some (up_txns @ down_txns, h\<lparr>current := to\<rparr>))))"

definition jump_to_revision :: "nat \<Rightarrow> history \<Rightarrow> (transaction list \<times> history) option" where
  "jump_to_revision to h = jump_to (min to (length (revisions h) - 1)) h"

definition changes_since :: "history \<Rightarrow> nat \<Rightarrow> transaction option option" where
  "changes_since h revision =
     Option.bind (lowest_common_ancestor h revision (current h)) (\<lambda>lca.
       Option.bind (path_up h revision lca) (\<lambda>up.
         Option.bind (path_up h (current h) lca) (\<lambda>down.
           let up_txns = map (\<lambda>n. rv_inversion (revisions h ! n)) (rev up);
               down_txns = map (\<lambda>n. rv_transaction (revisions h ! n)) down
           in case down_txns @ up_txns of
                [] \<Rightarrow> Some None
              | t # ts \<Rightarrow> map_option Some (te.compose_back t ts))))"

definition jump_backward :: "nat \<Rightarrow> history \<Rightarrow> (transaction list \<times> history) option" where
  "jump_backward delta h = jump_to (current h - delta) h"

text \<open>\<open>saturating_add\<close> of a \<open>usize\<close>; the \<open>min\<close> that follows makes the bound irrelevant.\<close>

definition jump_forward :: "nat \<Rightarrow> history \<Rightarrow> (transaction list \<times> history) option" where
  "jump_forward delta h = jump_to (min (min (current h + delta) (2 ^ 64 - 1)) (length (revisions h) - 1)) h"

section \<open>Jumping in time\<close>

text \<open>
  \<open>slice::binary_search_by\<close>: \<open>Inl i\<close> is \<open>Ok(i)\<close>, \<open>Inr i\<close> is \<open>Err(i)\<close>.
\<close>

function search_loop :: "nat list \<Rightarrow> nat \<Rightarrow> nat \<Rightarrow> nat \<Rightarrow> nat" where
  "search_loop xs x base sz =
     (if sz \<le> 1 then base
      else
        let half = sz div 2; mid = base + half
        in search_loop xs x (if x < xs ! mid then base else mid) (sz - half))"
  by pat_completeness auto
termination
  by (relation "measure (\<lambda>(xs, x, base, sz). sz)") auto

declare search_loop.simps [simp del]

definition binary_search :: "nat list \<Rightarrow> nat \<Rightarrow> nat + nat" where
  "binary_search xs x =
     (if xs = [] then Inr 0
      else
        let base = search_loop xs x 0 (length xs)
        in if xs ! base = x then Inl base
           else Inr (base + (if xs ! base < x then 1 else 0)))"

text \<open>\<open>duration_since\<close> is zero when the argument is later.\<close>

definition revision_closer_to_instant :: "history \<Rightarrow> nat \<Rightarrow> nat \<Rightarrow> nat" where
  "revision_closer_to_instant h i instant =
     (let dur_im1 = instant - timestamp (revisions h ! (i - 1));
          dur_i = timestamp (revisions h ! i) - instant
      in if dur_im1 < dur_i then i - 1 else i)"

definition instant_revision :: "history \<Rightarrow> nat \<Rightarrow> nat" where
  "instant_revision h instant =
     (case binary_search (map timestamp (revisions h)) instant of
        Inl revision \<Rightarrow> revision
      | Inr i \<Rightarrow>
          if i = 0 then 0
          else if i = length (revisions h) then i - 1
          else revision_closer_to_instant h i instant)"

definition jump_instant :: "nat \<Rightarrow> history \<Rightarrow> (transaction list \<times> history) option" where
  "jump_instant instant h = jump_to (instant_revision h instant) h"

definition jump_duration_backward :: "nat \<Rightarrow> history \<Rightarrow> (transaction list \<times> history) option" where
  "jump_duration_backward duration h =
     (if \<not> current h < length (revisions h) then None
      else
        case checked_sub (timestamp (revisions h ! current h)) duration of
          Some instant \<Rightarrow> jump_instant instant h
        | None \<Rightarrow> jump_to 0 h)"

definition jump_duration_forward :: "nat \<Rightarrow> nat \<Rightarrow> history \<Rightarrow> (transaction list \<times> history) option" where
  "jump_duration_forward latest duration h =
     (if \<not> current h < length (revisions h) then None
      else if timestamp (revisions h ! current h) + duration \<le> latest
        then jump_instant (timestamp (revisions h ! current h) + duration) h
      else jump_to (length (revisions h) - 1) h)"

datatype undo_kind = Steps nat | TimePeriod nat

fun earlier :: "undo_kind \<Rightarrow> history \<Rightarrow> (transaction list \<times> history) option" where
  "earlier (Steps n) h = jump_backward n h"
| "earlier (TimePeriod d) h = jump_duration_backward d h"

fun later :: "nat \<Rightarrow> undo_kind \<Rightarrow> history \<Rightarrow> (transaction list \<times> history) option" where
  "later latest (Steps n) h = jump_forward n h"
| "later latest (TimePeriod d) h = jump_duration_forward latest d h"

section \<open>The position of the last edit\<close>

text \<open>
  The outer option is a panic: a missing selection (\<open>expect\<close>) or a transaction that changes
  nothing (\<open>unwrap\<close>).
\<close>

definition last_edit_pos :: "(uchar \<Rightarrow> bool) \<Rightarrow> history \<Rightarrow> nat option option" where
  "last_edit_pos alnum h =
     (if current h = 0 then Some None
      else if \<not> current h < length (revisions h) then None
      else
        let rv = revisions h ! current h;
            changes = changes_iter 0 (cs_changes (tx_changes (rv_transaction rv)))
        in Option.bind (Option.bind (tx_selection (rv_inversion rv)) sel_primary) (\<lambda>primary_selection.
             Option.bind
               (case find (\<lambda>(f, t, _). overlaps (r_new f t) primary_selection) changes of
                  Some c \<Rightarrow> Some c
                | None \<Rightarrow> (case changes of [] \<Rightarrow> None | c # _ \<Rightarrow> Some c))
               (\<lambda>(f, t, _). map_option Some (map_pos alnum (tx_changes (rv_transaction rv)) t After))))"

section \<open>The invariant\<close>

text \<open>
  \<open>hist_ok h D\<close>: the parents form a tree rooted at 0, children point back at their parents, and
  \<open>D\<close> lists the text of every revision, so that the stored transactions lead from the text of the
  parent to that of the revision and back.
\<close>

definition tree_ok :: "revision list \<Rightarrow> bool" where
  "tree_ok revs \<longleftrightarrow> revs \<noteq> [] \<and> parent (revs ! 0) = 0 \<and>
     (\<forall>i. 0 < i \<longrightarrow> i < length revs \<longrightarrow> parent (revs ! i) < i)"

definition children_ok :: "revision list \<Rightarrow> bool" where
  "children_ok revs \<longleftrightarrow>
     (\<forall>i<length revs. \<forall>c. last_child (revs ! i) = Some c \<longrightarrow>
        0 < c \<and> c < length revs \<and> parent (revs ! c) = i)"

definition texts_ok :: "revision list \<Rightarrow> str list \<Rightarrow> bool" where
  "texts_ok revs D \<longleftrightarrow> length D = length revs \<and>
     (\<forall>i. 0 < i \<longrightarrow> i < length revs \<longrightarrow>
        tx_moves (rv_transaction (revs ! i)) (D ! parent (revs ! i)) (D ! i) \<and>
        tx_moves (rv_inversion (revs ! i)) (D ! i) (D ! parent (revs ! i)))"

definition hist_ok :: "history \<Rightarrow> str list \<Rightarrow> bool" where
  "hist_ok h D \<longleftrightarrow> tree_ok (revisions h) \<and> children_ok (revisions h) \<and>
     texts_ok (revisions h) D \<and> current h < length (revisions h)"

lemma tree_ok_parent:
  "tree_ok revs \<Longrightarrow> i < length revs \<Longrightarrow> parent (revs ! i) \<le> i \<and> parent (revs ! i) < length revs"
  by (cases "i = 0") (auto simp: tree_ok_def intro: less_imp_le order.strict_trans)

text \<open>A walk towards the root: the revisions left behind, in order.\<close>

fun walk :: "revision list \<Rightarrow> nat \<Rightarrow> nat list \<Rightarrow> nat \<Rightarrow> bool" where
  "walk revs n [] a \<longleftrightarrow> n = a"
| "walk revs n (m # ms) a \<longleftrightarrow> m = n \<and> n < length revs \<and> walk revs (parent (revs ! n)) ms a"

lemma walk_append: "walk revs n (ms @ ks) a \<longleftrightarrow> (\<exists>b. walk revs n ms b \<and> walk revs b ks a)"
  by (induction ms arbitrary: n) auto

lemma walk_length: "tree_ok revs \<Longrightarrow> n < length revs \<Longrightarrow> walk revs n ms a \<Longrightarrow> a \<le> n \<and> (\<forall>m\<in>set ms. m < length revs)"
proof (induction ms arbitrary: n)
  case (Cons m ms)
  have par: "parent (revs ! n) \<le> n" "parent (revs ! n) < length revs"
    using tree_ok_parent [OF Cons.prems(1,2)] by auto
  then have "a \<le> parent (revs ! n) \<and> (\<forall>m\<in>set ms. m < length revs)"
    using Cons.IH [OF Cons.prems(1) par(2)] Cons.prems(3) by simp
  then show ?case using par(1) Cons.prems(2,3) by simp
qed simp

lemma path_up_walk:
  "walk revs n ms a \<Longrightarrow> b \<in> set ms \<union> {a} \<Longrightarrow>
   \<exists>p. path_up_loop revs n b = Some p \<and> walk revs n p b \<and> b \<notin> set p \<and> set p \<subseteq> set ms"
proof (induction ms arbitrary: n)
  case Nil
  then show ?case by (auto simp: path_up_loop.simps)
next
  case (Cons m ms)
  show ?case
  proof (cases "n = b")
    case True
    then show ?thesis by (auto simp: path_up_loop.simps)
  next
    case False
    with Cons.prems have w: "walk revs (parent (revs ! n)) ms a" and b: "b \<in> set ms \<union> {a}" by auto
    obtain p where "path_up_loop revs (parent (revs ! n)) b = Some p"
      "walk revs (parent (revs ! n)) p b" "b \<notin> set p" "set p \<subseteq> set ms"
      using Cons.IH [OF w b] by blast
    moreover from this(1) False Cons.prems(1) have "path_up_loop revs n b = Some (n # p)"
      by (subst path_up_loop.simps) simp
    ultimately show ?thesis using False Cons.prems(1) by (intro exI [of _ "n # p"]) auto
  qed
qed

lemma lca_loop_ok:
  assumes "tree_ok revs"
  shows "a < length revs \<Longrightarrow> b < length revs \<Longrightarrow> walk revs a0 (rev as) a \<Longrightarrow> walk revs b0 (rev bs) b \<Longrightarrow>
    set as \<inter> set bs = {} \<Longrightarrow>
    \<exists>c p q. lca_loop revs as bs a b = Some c \<and>
      path_up_loop revs a0 c = Some p \<and> walk revs a0 p c \<and>
      path_up_loop revs b0 c = Some q \<and> walk revs b0 q c \<and> set p \<inter> set q = {} \<and> c \<notin> set p \<union> set q"
proof (induction "a + b" arbitrary: a b as bs rule: less_induct)
  case less
  note wa = path_up_walk [OF less.prems(3)] and wb = path_up_walk [OF less.prems(4)]
  consider "b \<in> set (a # as)" | "b \<notin> set (a # as)" "a \<in> set (b # bs)" | "b \<notin> set (a # as)" "a \<notin> set (b # bs)"
    by blast
  then show ?case
  proof cases
    case 1
    obtain p where p: "path_up_loop revs a0 b = Some p" "walk revs a0 p b" "b \<notin> set p" "set p \<subseteq> set as"
      using wa [of b] 1 by auto
    obtain q where q: "path_up_loop revs b0 b = Some q" "walk revs b0 q b" "b \<notin> set q" "set q \<subseteq> set bs"
      using wb [of b] by auto
    have l: "lca_loop revs as bs a b = Some b" using 1 by (subst lca_loop.simps) simp
    with p q less.prems(5) show ?thesis by blast
  next
    case 2
    obtain p where p: "path_up_loop revs a0 a = Some p" "walk revs a0 p a" "a \<notin> set p" "set p \<subseteq> set as"
      using wa [of a] by auto
    obtain q where q: "path_up_loop revs b0 a = Some q" "walk revs b0 q a" "a \<notin> set q" "set q \<subseteq> set bs"
      using wb [of a] 2 by auto
    have "lca_loop revs as bs a b = Some a" using 2 by (subst lca_loop.simps) simp
    with p q less.prems(5) show ?thesis by blast
  next
    case 3
    let ?a = "parent (revs ! a)" and ?b = "parent (revs ! b)"
    have par: "?a \<le> a" "?a < length revs" "?b \<le> b" "?b < length revs"
      using tree_ok_parent [OF assms less.prems(1)] tree_ok_parent [OF assms less.prems(2)] by auto
    have "a \<noteq> 0 \<or> b \<noteq> 0" using 3 by auto
    then have "?a < a \<or> ?b < b" using assms less.prems(1,2) by (auto simp: tree_ok_def)
    then have "?a + ?b < a + b" using par by linarith
    moreover have "walk revs a0 (rev (a # as)) ?a" "walk revs b0 (rev (b # bs)) ?b"
      using less.prems by (auto simp: walk_append)
    moreover have "set (a # as) \<inter> set (b # bs) = {}" using 3 less.prems(5) by auto
    ultimately have "\<exists>c p q. lca_loop revs (a # as) (b # bs) ?a ?b = Some c \<and>
      path_up_loop revs a0 c = Some p \<and> walk revs a0 p c \<and>
      path_up_loop revs b0 c = Some q \<and> walk revs b0 q c \<and> set p \<inter> set q = {} \<and> c \<notin> set p \<union> set q"
      using less.hyps [of ?a ?b "a # as" "b # bs"] par by blast
    moreover have "lca_loop revs as bs a b = lca_loop revs (a # as) (b # bs) ?a ?b"
      using 3 less.prems by (subst lca_loop.simps) auto
    ultimately show ?thesis by simp
  qed
qed

section \<open>Replay\<close>

text \<open>Along a walk the inversions lead up to its end, the transactions lead back down.\<close>

lemma walk_moves:
  assumes "tree_ok revs" "texts_ok revs D"
  shows "walk revs n ms a \<Longrightarrow> n < length revs \<Longrightarrow> a \<notin> set ms \<Longrightarrow>
    te.moves_all (map (\<lambda>i. rv_inversion (revs ! i)) ms) (D ! n) (D ! a) \<and>
    te.moves_all (map (\<lambda>i. rv_transaction (revs ! i)) (rev ms)) (D ! a) (D ! n)"
proof (induction ms arbitrary: n)
  case (Cons m ms)
  let ?p = "parent (revs ! n)"
  have m: "m = n" and w: "walk revs ?p ms a" using Cons.prems(1) by auto
  have "a \<le> n" using walk_length [OF assms(1) Cons.prems(2,1)] by simp
  then have n: "0 < n" using Cons.prems(3) m by (cases n) auto
  then have moves: "tx_moves (rv_transaction (revs ! n)) (D ! ?p) (D ! n)"
    "tx_moves (rv_inversion (revs ! n)) (D ! n) (D ! ?p)"
    using assms(2) Cons.prems(2) by (auto simp: texts_ok_def)
  have "?p < length revs" using tree_ok_parent [OF assms(1) Cons.prems(2)] by simp
  with Cons.IH [OF w] Cons.prems(3) have
    "te.moves_all (map (\<lambda>i. rv_inversion (revs ! i)) ms) (D ! ?p) (D ! a)"
    "te.moves_all (map (\<lambda>i. rv_transaction (revs ! i)) (rev ms)) (D ! a) (D ! ?p)" by auto
  with moves m show ?case by (auto simp: te.moves_all_append)
qed simp

lemma common_ancestor:
  assumes "hist_ok h D" "a < length (revisions h)" "b < length (revisions h)"
  obtains c p q where "lowest_common_ancestor h a b = Some c" "path_up h a c = Some p" "path_up h b c = Some q"
    and "walk (revisions h) a p c" "walk (revisions h) b q c" "set p \<inter> set q = {}" "c \<notin> set p" "c \<notin> set q"
proof -
  have "tree_ok (revisions h)" using assms(1) by (simp add: hist_ok_def)
  from lca_loop_ok [OF this assms(2,3), of a "[]" b "[]"] that show ?thesis
    by (auto simp: lowest_common_ancestor_def path_up_def)
qed

lemma jump_to_ok:
  assumes "hist_ok h D" "to < length (revisions h)"
  shows "\<exists>ts. jump_to to h = Some (ts, h\<lparr>current := to\<rparr>) \<and>
    te.moves_all ts (D ! current h) (D ! to) \<and> hist_ok (h\<lparr>current := to\<rparr>) D"
proof -
  have ok: "tree_ok (revisions h)" "texts_ok (revisions h) D" "current h < length (revisions h)"
    using assms(1) by (auto simp: hist_ok_def)
  obtain c p q where c: "lowest_common_ancestor h (current h) to = Some c"
    "path_up h (current h) c = Some p" "path_up h to c = Some q"
    "walk (revisions h) (current h) p c" "walk (revisions h) to q c" "c \<notin> set p" "c \<notin> set q"
    by (rule common_ancestor [OF assms(1) ok(3) assms(2)])
  have "te.moves_all (map (\<lambda>n. rv_inversion (revisions h ! n)) p @
      map (\<lambda>n. rv_transaction (revisions h ! n)) (rev q)) (D ! current h) (D ! to)"
    using walk_moves [OF ok(1,2) c(4) ok(3) c(6)] walk_moves [OF ok(1,2) c(5) assms(2) c(7)]
    by (auto simp: te.moves_all_append)
  then show ?thesis using c(1-3) assms by (auto simp: jump_to_def hist_ok_def)
qed

lemma jump_to_revision_ok:
  assumes "hist_ok h D"
  shows "\<exists>ts. jump_to_revision to h = Some (ts, h\<lparr>current := min to (length (revisions h) - 1)\<rparr>) \<and>
    te.moves_all ts (D ! current h) (D ! min to (length (revisions h) - 1))"
proof -
  have "min to (length (revisions h) - 1) < length (revisions h)"
    using assms by (auto simp: hist_ok_def)
  from jump_to_ok [OF assms this] show ?thesis by (auto simp: jump_to_revision_def)
qed

lemma changes_since_ok:
  assumes "hist_ok h D" "r < length (revisions h)"
  shows "if r = current h then changes_since h r = Some None
    else \<exists>t. changes_since h r = Some (Some t) \<and> tx_moves t (D ! r) (D ! current h)"
proof -
  have ok: "tree_ok (revisions h)" "texts_ok (revisions h) D" "current h < length (revisions h)"
    using assms(1) by (auto simp: hist_ok_def)
  obtain c p q where c: "lowest_common_ancestor h r (current h) = Some c"
    "path_up h r c = Some p" "path_up h (current h) c = Some q"
    "walk (revisions h) r p c" "walk (revisions h) (current h) q c"
    "set p \<inter> set q = {}" "c \<notin> set p" "c \<notin> set q"
    by (rule common_ancestor [OF assms(1,2) ok(3)])
  let ?up = "map (\<lambda>n. rv_inversion (revisions h ! n)) p"
    and ?down = "map (\<lambda>n. rv_transaction (revisions h ! n)) q"
  have all: "te.moves_all (rev (?down @ rev ?up)) (D ! r) (D ! current h)"
    using walk_moves [OF ok(1,2) c(4) assms(2) c(7)] walk_moves [OF ok(1,2) c(5) ok(3) c(8)]
    by (auto simp: te.moves_all_append rev_map)
  have changes: "changes_since h r = (case ?down @ rev ?up of [] \<Rightarrow> Some None
      | t # ts \<Rightarrow> map_option Some (te.compose_back t ts))"
    using c(1-3) by (simp add: changes_since_def rev_map)
  show ?thesis
  proof (cases "?down @ rev ?up")
    case Nil
    then have "r = current h" using c(4,5) by auto
    with changes Nil show ?thesis by simp
  next
    case (Cons t ts)
    have "r \<noteq> current h"
    proof
      assume "r = current h"
      then have "p = [] \<and> q = []" using c(4-8) by (cases p; cases q) auto
      with Cons show False by auto
    qed
    moreover obtain e where "te.moves_all (rev ts) (D ! r) e" "tx_moves t e (D ! current h)"
      using all Cons by (auto simp: te.moves_all_append)
    then obtain v where "te.compose_back t ts = Some v" "tx_moves v (D ! r) (D ! current h)"
      using te.compose_back_moves by blast
    ultimately show ?thesis using changes Cons by auto
  qed
qed

section \<open>Undo, redo, commit\<close>

lemma hist_ok_moves:
  assumes "hist_ok h D" "0 < i" "i < length (revisions h)"
  shows "tx_moves (rv_transaction (revisions h ! i)) (D ! parent (revisions h ! i)) (D ! i)"
    and "tx_moves (rv_inversion (revisions h ! i)) (D ! i) (D ! parent (revisions h ! i))"
  using assms by (auto simp: hist_ok_def texts_ok_def)

lemma undo_ok:
  assumes "hist_ok h D" "current h \<noteq> 0"
  shows "\<exists>t p. undo h = Some (Some t, h\<lparr>current := p\<rparr>) \<and> p < current h \<and>
    tx_moves t (D ! current h) (D ! p) \<and> hist_ok (h\<lparr>current := p\<rparr>) D"
proof -
  let ?rv = "revisions h ! current h"
  have "parent ?rv < current h" "current h < length (revisions h)"
    "tx_moves (rv_inversion ?rv) (D ! current h) (D ! parent ?rv)"
    using assms by (auto simp: hist_ok_def tree_ok_def texts_ok_def)
  then show ?thesis using assms by (auto simp: undo_def at_root_def hist_ok_def Let_def)
qed

lemma redo_ok:
  assumes "hist_ok h D" "last_child (revisions h ! current h) = Some c"
  shows "\<exists>t. redo h = Some (Some t, h\<lparr>current := c\<rparr>) \<and> tx_moves t (D ! current h) (D ! c) \<and>
    parent (revisions h ! c) = current h \<and> hist_ok (h\<lparr>current := c\<rparr>) D"
proof -
  have c: "0 < c" "c < length (revisions h)" "parent (revisions h ! c) = current h"
    using assms by (auto simp: hist_ok_def children_ok_def)
  have "tx_moves (rv_transaction (revisions h ! c)) (D ! current h) (D ! c)"
    using hist_ok_moves(1) [OF assms(1) c(1,2)] c(3) by simp
  with c show ?thesis using assms by (auto simp: redo_def hist_ok_def)
qed

text \<open>A commit before the oldest revisions are forgotten.\<close>

definition commit_untrimmed :: "transaction \<Rightarrow> transaction \<Rightarrow> nat \<Rightarrow> history \<Rightarrow> history" where
  "commit_untrimmed t inversion ts h =
     h\<lparr>revisions := (revisions h)[current h :=
           (revisions h ! current h)\<lparr>last_child := non_zero (length (revisions h))\<rparr>] @
         [\<lparr>parent = current h, last_child = None, rv_transaction = t, rv_inversion = inversion, timestamp = ts\<rparr>],
       current := length (revisions h)\<rparr>"

lemma commit_untrimmed_nth:
  assumes "current h < length (revisions h)"
  shows "i < length (revisions h) \<Longrightarrow> revisions (commit_untrimmed t inversion ts h) ! i =
      (if i = current h then (revisions h ! i)\<lparr>last_child := Some (length (revisions h))\<rparr> else revisions h ! i)"
    and "revisions (commit_untrimmed t inversion ts h) ! length (revisions h) =
      \<lparr>parent = current h, last_child = None, rv_transaction = t, rv_inversion = inversion, timestamp = ts\<rparr>"
    and "length (revisions (commit_untrimmed t inversion ts h)) = Suc (length (revisions h))"
    and "current (commit_untrimmed t inversion ts h) = length (revisions h)"
    and "max_revisions (commit_untrimmed t inversion ts h) = max_revisions h"
  using assms by (auto simp: commit_untrimmed_def nth_append non_zero_def)

lemma commit_untrimmed_ok:
  assumes ok: "hist_ok h D" and t: "tx_moves t (D ! current h) new"
    and inv: "tx_moves inversion new (D ! current h)"
  shows "hist_ok (commit_untrimmed t inversion ts h) (D @ [new])"
proof -
  let ?h = "commit_untrimmed t inversion ts h" and ?n = "length (revisions h)"
  have cur: "current h < ?n" and len: "length D = ?n" using ok by (auto simp: hist_ok_def texts_ok_def)
  note nth = commit_untrimmed_nth(1) [OF cur, of _ t inversion ts]
    and nth' = commit_untrimmed_nth(2-5) [OF cur, of t inversion ts]
  have old: "parent (revisions ?h ! i) = parent (revisions h ! i)"
    "rv_transaction (revisions ?h ! i) = rv_transaction (revisions h ! i)"
    "rv_inversion (revisions ?h ! i) = rv_inversion (revisions h ! i)" if "i < ?n" for i
    using that by (simp_all add: nth)
  have tree: "tree_ok (revisions h)" and children: "children_ok (revisions h)" and texts: "texts_ok (revisions h) D"
    using ok by (auto simp: hist_ok_def)
  have "tree_ok (revisions ?h)"
    using tree cur nth' old by (auto simp: tree_ok_def less_Suc_eq)
  moreover have "texts_ok (revisions ?h) (D @ [new])"
    unfolding texts_ok_def
  proof (intro conjI allI impI)
    fix i
    assume i: "0 < i" "i < length (revisions ?h)"
    have "tx_moves (rv_transaction (revisions ?h ! i)) ((D @ [new]) ! parent (revisions ?h ! i)) ((D @ [new]) ! i) \<and>
        tx_moves (rv_inversion (revisions ?h ! i)) ((D @ [new]) ! i) ((D @ [new]) ! parent (revisions ?h ! i))"
    proof (cases "i = ?n")
      case True
      then show ?thesis using t inv cur len nth'(1) by (simp add: nth_append)
    next
      case False
      then have "i < ?n" using i nth'(2) by simp
      then show ?thesis
        using texts i(1) len old tree_ok_parent [OF tree, of i] by (simp add: nth_append texts_ok_def)
    qed
    then show "tx_moves (rv_transaction (revisions ?h ! i)) ((D @ [new]) ! parent (revisions ?h ! i)) ((D @ [new]) ! i)"
      "tx_moves (rv_inversion (revisions ?h ! i)) ((D @ [new]) ! i) ((D @ [new]) ! parent (revisions ?h ! i))"
      by simp_all
  qed (simp add: nth' len)
  moreover have "children_ok (revisions ?h)"
    unfolding children_ok_def
  proof (intro allI impI)
    fix i c
    assume i: "i < length (revisions ?h)" and c: "last_child (revisions ?h ! i) = Some c"
    show "0 < c \<and> c < length (revisions ?h) \<and> parent (revisions ?h ! c) = i"
    proof (cases "i = ?n \<or> i = current h")
      case True
      then have "i = current h \<and> c = ?n" using c cur nth nth'(1,2) by (auto simp: less_Suc_eq)
      then show ?thesis using cur nth' by auto
    next
      case False
      then have "i < ?n" "last_child (revisions h ! i) = Some c" using i c nth nth'(2) by (auto simp: less_Suc_eq)
      then have "0 < c \<and> c < ?n \<and> parent (revisions h ! c) = i"
        using children by (simp add: children_ok_def)
      then show ?thesis using nth'(2) old by simp
    qed
  qed
  ultimately show ?thesis using nth' by (simp add: hist_ok_def)
qed

lemma commit_revision_untrimmed:
  assumes laws: "rope_laws R contents" and ok: "hist_ok h D"
    and doc: "contents (st_doc original) = D ! current h" and t: "tx_moves t (D ! current h) new"
  obtains inversion where
    "commit_revision_at_timestamp R levels t original ts h =
       trim_to_undo_levels levels (commit_untrimmed t inversion ts h)"
    "tx_moves inversion new (D ! current h)" "tx_selection inversion = Some (st_selection original)"
proof -
  obtain u where u: "tx_invert_text t (D ! current h) = Some u" "tx_moves u new (D ! current h)"
    using tx_moves_inverts [OF t] by blast
  have "tx_invert R t (st_doc original) = Some u"
    using tx_invert_rope [OF laws] t u doc by metis
  then have "commit_revision_at_timestamp R levels t original ts h =
      trim_to_undo_levels levels (commit_untrimmed t (with_selection u (st_selection original)) ts h)"
    using ok by (simp add: commit_revision_at_timestamp_def commit_untrimmed_def Let_def hist_ok_def)
  then show ?thesis using that u(2) by (simp add: with_selection_def tx_moves_def tx_run_def)
qed

section \<open>Forgetting old revisions\<close>

text \<open>
  Dropping a prefix is sound when no kept revision was made from a dropped one other than the last
  of them: then the root takes the text of that one.
\<close>

definition droppable :: "revision list \<Rightarrow> nat \<Rightarrow> bool" where
  "droppable revs n \<longleftrightarrow> (\<forall>i. n < i \<longrightarrow> i < length revs \<longrightarrow> n \<le> parent (revs ! i))"

lemma trim_cases:
  assumes "hist_ok h D"
  shows "trim_to_undo_levels levels h = Some h \<or>
    (\<exists>drp. 0 < drp \<and> drp < current h \<and>
       (let m = (case max_revisions h of None \<Rightarrow> levels | Some m \<Rightarrow> m)
        in 0 < m \<and> drp = min (length (revisions h) - 1 - m) (current h - 1)) \<and>
       trim_to_undo_levels levels h = Some (h\<lparr>
         revisions := (revisions h ! 0)\<lparr>last_child := Some 1\<rparr> #
           map (\<lambda>rv. rv\<lparr>parent := parent rv - drp, last_child := map_option (\<lambda>c. c - drp) (last_child rv)\<rparr>)
             (drop (Suc drp) (revisions h)),
         current := current h - drp\<rparr>))"
proof -
  let ?m = "case max_revisions h of None \<Rightarrow> levels | Some m \<Rightarrow> m"
  define drp where "drp = min (length (revisions h) - 1 - ?m) (current h - 1)"
  show ?thesis
  proof (cases "?m = 0 \<or> length (revisions h) - 1 \<le> ?m \<or> drp = 0")
    case True
    then have "trim_to_undo_levels levels h = Some h"
      by (auto simp: trim_to_undo_levels_def Let_def drp_def)
    then show ?thesis ..
  next
    case False
    then have f: "(?m = 0) = False" "(length (revisions h) - 1 \<le> ?m) = False" "(drp = 0) = False"
      by blast+
    let ?f = "\<lambda>rv. rv\<lparr>parent := parent rv - drp, last_child := map_option (\<lambda>c. c - drp) (last_child rv)\<rparr>"
    let ?g = "\<lambda>rv. Option.bind
       (case last_child rv of None \<Rightarrow> Some None | Some child \<Rightarrow> map_option non_zero (checked_sub child drp))
       (\<lambda>child. Some (rv\<lparr>parent := parent rv - drp, last_child := child\<rparr>))"
    have "?g rv = Some (?f rv)" if "rv \<in> set (drop (Suc drp) (revisions h))" for rv
    proof (cases "last_child rv")
      case (Some c)
      from that obtain k where "k < length (drop (Suc drp) (revisions h))" "drop (Suc drp) (revisions h) ! k = rv"
        unfolding in_set_conv_nth by blast
      then have k: "Suc drp + k < length (revisions h)" "rv = revisions h ! (Suc drp + k)" by auto
      then have "0 < c" "c < length (revisions h)" "parent (revisions h ! c) = Suc drp + k"
        using assms Some by (auto simp: hist_ok_def children_ok_def)
      moreover have "parent (revisions h ! c) \<le> c"
        using tree_ok_parent [of "revisions h" c] assms calculation by (simp add: hist_ok_def)
      ultimately have "drp < c" by simp
      then show ?thesis using Some by (simp add: non_zero_def)
    qed simp
    then have "those (map ?g (drop (Suc drp) (revisions h))) = Some (map ?f (drop (Suc drp) (revisions h)))"
      by (rule those_map_Some)
    moreover have "trim_to_undo_levels levels h =
        Option.bind (those (map ?g (drop (Suc drp) (revisions h))))
          (\<lambda>rest. Some (h\<lparr>revisions := (revisions h ! 0)\<lparr>last_child := non_zero 1\<rparr> # rest,
             current := current h - drp\<rparr>))"
      unfolding trim_to_undo_levels_def Let_def drp_def [symmetric] by (simp only: f if_False)
    ultimately have "trim_to_undo_levels levels h = Some (h\<lparr>
        revisions := (revisions h ! 0)\<lparr>last_child := Some 1\<rparr> # map ?f (drop (Suc drp) (revisions h)),
        current := current h - drp\<rparr>)"
      by (simp add: non_zero_def)
    moreover have "0 < drp" "drp < current h" using False by (auto simp: drp_def)
    moreover have "0 < ?m" using False by simp
    ultimately show ?thesis using drp_def by (intro disjI2 exI [of _ drp]) (simp add: Let_def)
  qed
qed

definition trimmed :: "nat \<Rightarrow> history \<Rightarrow> history" where
  "trimmed drp h = h\<lparr>
     revisions := (revisions h ! 0)\<lparr>last_child := Some 1\<rparr> #
       map (\<lambda>rv. rv\<lparr>parent := parent rv - drp, last_child := map_option (\<lambda>c. c - drp) (last_child rv)\<rparr>)
         (drop (Suc drp) (revisions h)),
     current := current h - drp\<rparr>"

lemma trimmed_nth:
  assumes "drp < length (revisions h)"
  shows "0 < i \<Longrightarrow> i < length (revisions h) - drp \<Longrightarrow> revisions (trimmed drp h) ! i =
      (revisions h ! (i + drp))\<lparr>parent := parent (revisions h ! (i + drp)) - drp,
         last_child := map_option (\<lambda>c. c - drp) (last_child (revisions h ! (i + drp)))\<rparr>"
    and "revisions (trimmed drp h) ! 0 = (revisions h ! 0)\<lparr>last_child := Some 1\<rparr>"
    and "length (revisions (trimmed drp h)) = length (revisions h) - drp"
    and "current (trimmed drp h) = current h - drp"
  using assms by (auto simp: trimmed_def nth_Cons split: nat.split) (simp add: add.commute)+

lemma trimmed_ok:
  assumes ok: "hist_ok h D" and drp: "0 < drp" "drp < current h" and droppable: "droppable (revisions h) drp"
  shows "hist_ok (trimmed drp h) (drop drp D)"
proof -
  let ?h = "trimmed drp h" and ?n = "length (revisions h)"
  have cur: "current h < ?n" and len: "length D = ?n" and tree: "tree_ok (revisions h)"
    and children: "children_ok (revisions h)"
    using ok by (auto simp: hist_ok_def texts_ok_def)
  have drp_n: "drp < ?n" using drp cur by simp
  note nth = trimmed_nth(1) [OF drp_n] and nth' = trimmed_nth(2-4) [OF drp_n]
  have par: "drp \<le> parent (revisions h ! (i + drp))" "parent (revisions h ! (i + drp)) < i + drp"
    if "0 < i" "i < ?n - drp" for i
    using that droppable tree by (auto simp: droppable_def tree_ok_def)
  have "tree_ok (revisions ?h)"
    unfolding tree_ok_def
  proof (intro conjI allI impI)
    fix i
    assume i: "0 < i" "i < length (revisions ?h)"
    then show "parent (revisions ?h ! i) < i" using par [of i] nth [of i] nth' by simp
  qed (use nth' drp_n tree in \<open>auto simp: tree_ok_def\<close>)
  moreover have "texts_ok (revisions ?h) (drop drp D)"
    unfolding texts_ok_def
  proof (intro conjI allI impI)
    fix i
    assume "0 < i" "i < length (revisions ?h)"
    then have i: "0 < i" "i < ?n - drp" "i + drp < ?n" using nth' by auto
    have at: "drop drp D ! i = D ! (i + drp)"
      "drop drp D ! (parent (revisions h ! (i + drp)) - drp) = D ! parent (revisions h ! (i + drp))"
      using i par [OF i(1,2)] len by (auto simp: add.commute)
    show "tx_moves (rv_transaction (revisions ?h ! i)) (drop drp D ! parent (revisions ?h ! i)) (drop drp D ! i)"
      "tx_moves (rv_inversion (revisions ?h ! i)) (drop drp D ! i) (drop drp D ! parent (revisions ?h ! i))"
      using hist_ok_moves [OF ok, of "i + drp"] i nth [OF i(1,2)] at by auto
  qed (simp add: nth' len)
  moreover have "children_ok (revisions ?h)"
    unfolding children_ok_def
  proof (intro allI impI)
    fix i c
    assume i: "i < length (revisions ?h)" and c: "last_child (revisions ?h ! i) = Some c"
    show "0 < c \<and> c < length (revisions ?h) \<and> parent (revisions ?h ! c) = i"
    proof (cases "i = 0")
      case True
      then have "c = 1" using c nth' by simp
      moreover have one: "1 < ?n - drp" using drp cur by simp
      moreover have "parent (revisions h ! Suc drp) = drp" using par [OF _ one] by simp
      ultimately show ?thesis using nth [of 1] nth' True by simp
    next
      case False
      then have i': "0 < i" "i < ?n - drp" "i + drp < ?n" using i nth' by auto
      obtain c' where c': "last_child (revisions h ! (i + drp)) = Some c'" "c = c' - drp"
        using c nth [OF i'(1,2)] by auto
      then have cc: "c' < ?n" "parent (revisions h ! c') = i + drp"
        using children i' by (auto simp: children_ok_def)
      then have "i + drp \<le> c'" using tree_ok_parent [OF tree, of c'] by simp
      then show ?thesis using cc c' i' nth [of c] nth' by auto
    qed
  qed
  moreover have "current ?h < length (revisions ?h)" using nth' cur drp by simp
  ultimately show ?thesis by (simp add: hist_ok_def)
qed

lemma trim_ok:
  assumes ok: "hist_ok h D" and cur: "0 < current h"
    and droppable: "\<And>drp. drp < current h \<Longrightarrow> levels \<noteq> 0 \<or> max_revisions h \<noteq> None \<Longrightarrow> droppable (revisions h) drp"
  shows "\<exists>h' drp. trim_to_undo_levels levels h = Some h' \<and> hist_ok h' (drop drp D) \<and>
    current h' = current h - drp \<and> drp < current h"
  using trim_cases [OF ok, of levels]
proof
  assume "trim_to_undo_levels levels h = Some h"
  then show ?thesis using ok cur by (intro exI [of _ h] exI [of _ 0]) simp
next
  assume "\<exists>drp. 0 < drp \<and> drp < current h \<and> (let m = case max_revisions h of None \<Rightarrow> levels | Some m \<Rightarrow> m
      in 0 < m \<and> drp = min (length (revisions h) - 1 - m) (current h - 1)) \<and>
    trim_to_undo_levels levels h = Some (h\<lparr>
       revisions := (revisions h ! 0)\<lparr>last_child := Some 1\<rparr> #
         map (\<lambda>rv. rv\<lparr>parent := parent rv - drp, last_child := map_option (\<lambda>c. c - drp) (last_child rv)\<rparr>)
           (drop (Suc drp) (revisions h)),
       current := current h - drp\<rparr>)"
  then obtain drp where drp: "0 < drp" "drp < current h" "trim_to_undo_levels levels h = Some (trimmed drp h)"
    "0 < (case max_revisions h of None \<Rightarrow> levels | Some m \<Rightarrow> m)"
    unfolding trimmed_def Let_def by blast
  have "levels \<noteq> 0 \<or> max_revisions h \<noteq> None" using drp(4) by (cases "max_revisions h") auto
  then have "hist_ok (trimmed drp h) (drop drp D)"
    using trimmed_ok [OF ok drp(1,2)] droppable drp(2) by blast
  moreover have "current (trimmed drp h) = current h - drp" by (simp add: trimmed_def)
  ultimately show ?thesis using drp by blast
qed

section \<open>Joining into the current revision\<close>

lemma merge_last_revision_ok:
  assumes laws: "rope_laws R contents" and ok: "hist_ok h D" and cur: "current h \<noteq> 0"
    and leaf: "\<forall>i<length (revisions h). parent (revisions h ! i) \<noteq> current h"
    and doc: "contents (st_doc original) = D ! current h" and t: "tx_moves t (D ! current h) new"
  shows "\<exists>h'. merge_last_revision R levels now t original h = Some h' \<and> current h' = current h \<and>
    hist_ok h' (D[current h := new])"
proof -
  let ?n = "current h" and ?rv = "revisions h ! current h"
  have n: "?n < length (revisions h)" and len: "length D = length (revisions h)"
    using ok by (auto simp: hist_ok_def texts_ok_def)
  note moves = hist_ok_moves [OF ok _ n]
  obtain u where u: "tx_invert_text t (D ! ?n) = Some u" "tx_moves u new (D ! ?n)"
    using tx_moves_inverts [OF t] by blast
  have inv: "tx_invert R t (st_doc original) = Some u"
    using tx_invert_rope [OF laws] t u doc by metis
  obtain fwd where fwd: "tx_compose (rv_transaction ?rv) t = Some fwd" "tx_moves fwd (D ! parent ?rv) new"
    using tx_moves_composes [OF moves(1) t] cur by blast
  let ?u = "with_selection u (st_selection original)"
  have "tx_moves ?u new (D ! ?n)" using u(2) by simp
  then obtain bwd where bwd: "tx_compose ?u (rv_inversion ?rv) = Some bwd" "tx_moves bwd new (D ! parent ?rv)"
    using tx_moves_composes [OF _ moves(2)] cur by blast
  let ?revs = "(revisions h)[?n := ?rv\<lparr>rv_transaction := fwd, rv_inversion := bwd, timestamp := now\<rparr>]"
  have "merge_last_revision R levels now t original h = Some (h\<lparr>revisions := ?revs\<rparr>)"
    using inv fwd bwd n cur by (simp add: merge_last_revision_def Let_def)
  moreover have "hist_ok (h\<lparr>revisions := ?revs\<rparr>) (D[?n := new])"
  proof -
    have same: "parent (?revs ! i) = parent (revisions h ! i)" "last_child (?revs ! i) = last_child (revisions h ! i)"
      for i using n by (simp_all add: nth_list_update)
    have "tree_ok ?revs" "children_ok ?revs"
      using ok n by (auto simp: hist_ok_def tree_ok_def children_ok_def same)
    moreover have "texts_ok ?revs (D[?n := new])"
      unfolding texts_ok_def
    proof (intro conjI allI impI)
      fix i
      assume i: "0 < i" "i < length ?revs"
      have p: "parent (revisions h ! i) \<noteq> ?n" using leaf i by simp
      have "tx_moves (rv_transaction (?revs ! i)) (D[?n := new] ! parent (?revs ! i)) (D[?n := new] ! i) \<and>
          tx_moves (rv_inversion (?revs ! i)) (D[?n := new] ! i) (D[?n := new] ! parent (?revs ! i))"
      proof (cases "i = ?n")
        case True
        then show ?thesis using p fwd bwd n len by (simp add: same)
      next
        case False
        then show ?thesis using p i hist_ok_moves [OF ok, of i] by (simp add: same)
      qed
      then show "tx_moves (rv_transaction (?revs ! i)) (D[?n := new] ! parent (?revs ! i)) (D[?n := new] ! i)"
        "tx_moves (rv_inversion (?revs ! i)) (D[?n := new] ! i) (D[?n := new] ! parent (?revs ! i))"
        by simp_all
    qed (simp add: len)
    ultimately show ?thesis using n by (simp add: hist_ok_def)
  qed
  ultimately show ?thesis by (intro exI conjI) auto
qed

section \<open>The search by time\<close>

lemma search_loop_ok:
  "sorted xs \<Longrightarrow> 1 \<le> sz \<Longrightarrow> base + sz \<le> length xs \<Longrightarrow>
   base = 0 \<or> xs ! base \<le> x \<Longrightarrow> \<forall>j. base + sz \<le> j \<longrightarrow> j < length xs \<longrightarrow> x < xs ! j \<Longrightarrow>
   search_loop xs x base sz < length xs \<and>
   (search_loop xs x base sz = 0 \<or> xs ! search_loop xs x base sz \<le> x) \<and>
   (\<forall>j. search_loop xs x base sz < j \<longrightarrow> j < length xs \<longrightarrow> x < xs ! j)"
proof (induction xs x base sz rule: search_loop.induct)
  case (1 xs x base sz)
  show ?case
  proof (cases "sz \<le> 1")
    case True
    then show ?thesis using "1.prems" by (subst (1 2 3 4) search_loop.simps) auto
  next
    case False
    let ?half = "sz div 2" and ?base = "if x < xs ! (base + sz div 2) then base else base + sz div 2"
    have eq: "search_loop xs x base sz = search_loop xs x ?base (sz - ?half)"
      using False by (subst search_loop.simps) (simp add: Let_def)
    have "\<forall>j. ?base + (sz - ?half) \<le> j \<longrightarrow> j < length xs \<longrightarrow> x < xs ! j"
    proof (intro allI impI)
      fix j
      assume j: "?base + (sz - ?half) \<le> j" "j < length xs"
      show "x < xs ! j"
      proof (cases "x < xs ! (base + ?half)")
        case True
        then have "base + ?half \<le> j" using j(1) by (auto split: if_splits)
        then show ?thesis using True sorted_nth_mono [OF "1.prems"(1) _ j(2)] by (meson less_le_trans)
      next
        case no: False
        then have "base + sz \<le> j" using j(1) False by auto
        then show ?thesis using "1.prems"(5) j(2) by blast
      qed
    qed
    moreover have "?base = 0 \<or> xs ! ?base \<le> x" using "1.prems"(4) by auto
    moreover have "1 \<le> sz - ?half" "?base + (sz - ?half) \<le> length xs" using False "1.prems"(3) by auto
    ultimately show ?thesis
      unfolding eq using "1.IH" [OF False refl refl "1.prems"(1)] by blast
  qed
qed

lemma binary_search_ok:
  assumes "sorted xs"
  shows "case binary_search xs x of
      Inl i \<Rightarrow> i < length xs \<and> xs ! i = x
    | Inr i \<Rightarrow> i \<le> length xs \<and> (\<forall>j<i. xs ! j < x) \<and> (\<forall>j. i \<le> j \<longrightarrow> j < length xs \<longrightarrow> x < xs ! j)"
proof (cases "xs = []")
  case False
  let ?b = "search_loop xs x 0 (length xs)"
  have b: "?b < length xs" "?b = 0 \<or> xs ! ?b \<le> x" "\<And>j. ?b < j \<Longrightarrow> j < length xs \<Longrightarrow> x < xs ! j"
    using search_loop_ok [OF assms, of "length xs" 0 x] False by (auto simp: Suc_le_eq)
  have mono: "j \<le> ?b \<Longrightarrow> xs ! j \<le> xs ! ?b" for j using sorted_nth_mono [OF assms] b(1) by blast
  show ?thesis
  proof (cases "xs ! ?b = x")
    case ne: False
    show ?thesis
    proof (cases "xs ! ?b < x")
      case True
      have "xs ! j < x" if "j < ?b + 1" for j using mono [of j] that True by simp
      then show ?thesis using True ne False b by (auto simp: binary_search_def Let_def Suc_le_eq)
    next
      case no: False
      then have "?b = 0" using ne b(2) by auto
      moreover have "x < xs ! j" if "j < length xs" for j
        using b(3) [of j] no ne calculation that by (cases j) auto
      ultimately show ?thesis using no ne False by (auto simp: binary_search_def Let_def)
    qed
  qed (use False b in \<open>auto simp: binary_search_def Let_def\<close>)
qed (simp add: binary_search_def)

definition time_between :: "nat \<Rightarrow> nat \<Rightarrow> nat" where
  "time_between a b = (a - b) + (b - a)"

lemma instant_revision_ok:
  assumes ne: "revisions h \<noteq> []" and sorted: "sorted (map timestamp (revisions h))"
  shows "instant_revision h t < length (revisions h) \<and>
    (\<forall>j<length (revisions h). time_between (timestamp (revisions h ! instant_revision h t)) t
       \<le> time_between (timestamp (revisions h ! j)) t)"
proof -
  let ?ts = "map timestamp (revisions h)" and ?n = "length (revisions h)"
  have mono: "i \<le> j \<Longrightarrow> j < ?n \<Longrightarrow> timestamp (revisions h ! i) \<le> timestamp (revisions h ! j)" for i j
    using sorted_nth_mono [OF sorted, of i j] by simp
  show ?thesis
  proof (cases "binary_search ?ts t")
    case (Inl i)
    then show ?thesis
      using binary_search_ok [OF sorted, of t] by (auto simp: instant_revision_def time_between_def)
  next
    case (Inr i)
    then have i: "i \<le> ?n" "\<And>j. j < i \<Longrightarrow> timestamp (revisions h ! j) < t"
      "\<And>j. i \<le> j \<Longrightarrow> j < ?n \<Longrightarrow> t < timestamp (revisions h ! j)"
      using binary_search_ok [OF sorted, of t] by auto
    have below: "time_between (timestamp (revisions h ! (i - 1))) t \<le> time_between (timestamp (revisions h ! j)) t"
      if "j < i" for j
    proof -
      have "j \<le> i - 1" "i - 1 < ?n" "i - 1 < i" using that i(1) by auto
      then show ?thesis
        using mono [of j "i - 1"] i(2) [OF that] i(2) [of "i - 1"] by (simp add: time_between_def)
    qed
    have above: "time_between (timestamp (revisions h ! i)) t \<le> time_between (timestamp (revisions h ! j)) t"
      if "i \<le> j" "j < ?n" for j
      using mono [OF that] i(3) [OF that] i(3) [of i] that by (simp add: time_between_def)
    consider "i = 0" | "0 < i" "i = ?n" | "0 < i" "i < ?n" using i(1) by linarith
    then show ?thesis
    proof cases
      case 1
      then show ?thesis using above ne Inr by (simp add: instant_revision_def)
    next
      case 2
      then show ?thesis using below Inr by (auto simp: instant_revision_def)
    next
      case 3
      have tb: "time_between (timestamp (revisions h ! (i - 1))) t = t - timestamp (revisions h ! (i - 1))"
        "time_between (timestamp (revisions h ! i)) t = timestamp (revisions h ! i) - t"
        using i(2) [of "i - 1"] i(3) [of i] 3 by (simp_all add: time_between_def)
      have r: "instant_revision h t = (if t - timestamp (revisions h ! (i - 1)) < timestamp (revisions h ! i) - t
          then i - 1 else i)"
        using Inr 3 by (simp add: instant_revision_def revision_closer_to_instant_def Let_def)
      have "time_between (timestamp (revisions h ! instant_revision h t)) t \<le> time_between (timestamp (revisions h ! j)) t"
        if "j < ?n" for j
        using below [of j] above [of j] that tb by (cases "j < i") (auto simp: r)
      moreover have "instant_revision h t < ?n" using 3 unfolding r by (simp add: less_imp_diff_less)
      ultimately show ?thesis by blast
    qed
  qed
qed

section \<open>Properties\<close>

text \<open>A history of two edits on one line, the second made after undoing the first.\<close>

definition sample_state :: "str \<Rightarrow> str edit_state" where
  "sample_state xs = \<lparr>st_doc = xs, st_selection = sel_single 0 0\<rparr>"

definition typed :: "nat \<Rightarrow> str \<Rightarrow> transaction" where
  "typed n s = tx_from \<lparr>cs_changes = (if n = 0 then [] else [Retain n]) @ [Insert s],
     cs_len = n, cs_len_after = n + length s\<rparr>"

definition no_edit :: transaction where
  "no_edit = tx_from \<lparr>cs_changes = [], cs_len = 0, cs_len_after = 0\<rparr>"

definition sample_revision :: "nat \<Rightarrow> nat option \<Rightarrow> nat \<Rightarrow> str \<Rightarrow> nat \<Rightarrow> revision" where
  "sample_revision par child n s ts =
     \<lparr>parent = par, last_child = child, rv_transaction = typed n s,
      rv_inversion = with_selection (tx_from \<lparr>cs_changes = (if n = 0 then [] else [Retain n]) @ [Delete (length s)],
        cs_len = n + length s, cs_len_after = n\<rparr>) (sel_single 0 0), timestamp = ts\<rparr>"

definition sample_history :: history where
  "sample_history =
     \<lparr>revisions = [\<lparr>parent = 0, last_child = Some 2, rv_transaction = no_edit, rv_inversion = no_edit, timestamp = 0\<rparr>,
        sample_revision 0 None 0 [7] 10, sample_revision 0 (Some 3) 0 [8, 8] 20, sample_revision 2 None 2 [9] 30],
      current = 3, max_revisions = None\<rparr>"

definition sample_texts :: "str list" where
  "sample_texts = [[], [7], [8, 8], [8, 8, 9]]"

lemma less_4: "i < 4 \<longleftrightarrow> i = 0 \<or> i = 1 \<or> i = 2 \<or> i = (3::nat)"
  by auto

lemma sample_history_simps:
  "length (revisions sample_history) = 4" "current sample_history = 3" "max_revisions sample_history = None"
  "revisions sample_history ! 0 =
     \<lparr>parent = 0, last_child = Some 2, rv_transaction = no_edit, rv_inversion = no_edit, timestamp = 0\<rparr>"
  "revisions sample_history ! Suc 0 = sample_revision 0 None 0 [7] 10"
  "revisions sample_history ! 2 = sample_revision 0 (Some 3) 0 [8, 8] 20"
  "revisions sample_history ! 3 = sample_revision 2 None 2 [9] 30"
  by (simp_all add: sample_history_def)

lemma sample_revision_simps:
  "parent (sample_revision p c n s ts) = p" "last_child (sample_revision p c n s ts) = c"
  "timestamp (sample_revision p c n s ts) = ts"
  "length xs = n \<Longrightarrow> s \<noteq> [] \<Longrightarrow> tx_moves (rv_transaction (sample_revision p c n s ts)) xs (xs @ s)"
  "length xs = n \<Longrightarrow> s \<noteq> [] \<Longrightarrow> tx_moves (rv_inversion (sample_revision p c n s ts)) (xs @ s) xs"
  by (auto simp: sample_revision_def typed_def tx_moves_def tx_run_def run_def cs_exact_def tx_from_def
      with_selection_def)

lemma sample_history_ok: "hist_ok sample_history sample_texts"
proof -
  note s = sample_history_simps sample_revision_simps(1-3) less_4
  have "tree_ok (revisions sample_history)"
  proof -
    have "revisions sample_history \<noteq> []" by (simp add: sample_history_def)
    then show ?thesis unfolding tree_ok_def by (auto simp: s)
  qed
  moreover have "children_ok (revisions sample_history)"
    unfolding children_ok_def by (auto simp: s)
  moreover have "texts_ok (revisions sample_history) sample_texts"
    unfolding texts_ok_def
    using sample_revision_simps(4,5) [of "[]" 0 "[7]"] sample_revision_simps(4,5) [of "[]" 0 "[8, 8]"]
      sample_revision_simps(4,5) [of "[8, 8]" 2 "[9]"]
    by (auto simp: s sample_texts_def)
  ultimately show ?thesis by (simp add: hist_ok_def s)
qed

text \<open>
  C3: Undo and redo.  In a consistent history, undo does nothing at the root; elsewhere it moves
  to the parent and hands out a transaction that applies to the buffer and restores the parent's
  text exactly.  Redo moves to the last child and reproduces its text, and undoing that comes back.
\<close>

theorem undo_redo:
  assumes "rope_laws R contents" "hist_ok h D" "contents doc = D ! current h"
  shows "(if current h = 0 then undo h = Some (None, h)
      else \<exists>t h' doc'. undo h = Some (Some t, h') \<and> current h' = parent (revisions h ! current h) \<and>
        hist_ok h' D \<and> tx_apply R t doc = Some (doc', True) \<and> contents doc' = D ! current h') \<and>
    (case last_child (revisions h ! current h) of
      None \<Rightarrow> redo h = Some (None, h)
    | Some c \<Rightarrow> \<exists>t h' doc'. redo h = Some (Some t, h') \<and> current h' = c \<and> hist_ok h' D \<and>
        tx_apply R t doc = Some (doc', True) \<and> contents doc' = D ! c \<and>
        (\<exists>u. undo h' = Some (Some u, h)))"
proof -
  have cur: "current h < length (revisions h)" using assms(2) by (simp add: hist_ok_def)
  have app: "\<exists>doc'. tx_apply R t doc = Some (doc', True) \<and> contents doc' = ys"
    if "tx_moves t (D ! current h) ys" for t ys
    using tx_apply_run [OF assms(1), of t doc] tx_moves_fits [OF that] that assms(3)
    by (metis tx_moves_def)
  have "if current h = 0 then undo h = Some (None, h)
    else \<exists>t h' doc'. undo h = Some (Some t, h') \<and> current h' = parent (revisions h ! current h) \<and>
      hist_ok h' D \<and> tx_apply R t doc = Some (doc', True) \<and> contents doc' = D ! current h'"
  proof (cases "current h = 0")
    case False
    from undo_ok [OF assms(2) this] obtain t p where t: "undo h = Some (Some t, h\<lparr>current := p\<rparr>)"
      "tx_moves t (D ! current h) (D ! p)" "hist_ok (h\<lparr>current := p\<rparr>) D" by blast
    moreover have "p = parent (revisions h ! current h)"
      using t(1) False cur
      by (auto simp: undo_def at_root_def Let_def dest: arg_cong [where f = current])
    ultimately show ?thesis using False app [OF t(2)] by auto
  qed (simp add: undo_def at_root_def)
  moreover have "case last_child (revisions h ! current h) of
      None \<Rightarrow> redo h = Some (None, h)
    | Some c \<Rightarrow> \<exists>t h' doc'. redo h = Some (Some t, h') \<and> current h' = c \<and> hist_ok h' D \<and>
        tx_apply R t doc = Some (doc', True) \<and> contents doc' = D ! c \<and>
        (\<exists>u. undo h' = Some (Some u, h))"
  proof (cases "last_child (revisions h ! current h)")
    case (Some c)
    from redo_ok [OF assms(2) this] obtain t where t: "redo h = Some (Some t, h\<lparr>current := c\<rparr>)"
      "tx_moves t (D ! current h) (D ! c)" "parent (revisions h ! c) = current h" "hist_ok (h\<lparr>current := c\<rparr>) D"
      by blast
    moreover have "c \<noteq> 0" "c < length (revisions h)"
      using assms(2) Some cur by (auto simp: hist_ok_def children_ok_def)
    then have "\<exists>u. undo (h\<lparr>current := c\<rparr>) = Some (Some u, h)"
      using t(3) by (simp add: undo_def at_root_def Let_def)
    ultimately show ?thesis using Some app [OF t(2)] by auto
  qed (use cur in \<open>simp add: redo_def\<close>)
  ultimately show ?thesis by (rule conjI)
qed

theorem undo_redo_witness:
  "\<exists>t h' doc'. undo sample_history = Some (Some t, h') \<and> hist_ok h' sample_texts \<and>
     tx_apply list_rope t [8, 8, 9] = Some (doc', True) \<and> doc' = [8, 8]"
  using undo_redo [OF list_rope_laws sample_history_ok, of "[8, 8, 9]"]
  by (auto simp: sample_history_simps sample_revision_simps sample_texts_def)

text \<open>
  \<open>jump\<close> leads to revision \<open>r\<close>: it returns, the current revision is \<open>r\<close>, and the transactions it hands
  out apply one after the other to the buffer and give the text of \<open>r\<close>.
\<close>

definition replays_to ::
    "'r rope_api \<Rightarrow> ('r \<Rightarrow> str) \<Rightarrow> history \<Rightarrow> str list \<Rightarrow> 'r \<Rightarrow> (transaction list \<times> history) option \<Rightarrow> nat \<Rightarrow> bool" where
  "replays_to R contents h D doc jump r \<longleftrightarrow> r < length (revisions h) \<and>
     (\<exists>ts doc'. jump = Some (ts, h\<lparr>current := r\<rparr>) \<and> apply_all R ts doc = Some doc' \<and> contents doc' = D ! r)"

definition closest_to :: "history \<Rightarrow> nat \<Rightarrow> nat \<Rightarrow> bool" where
  "closest_to h instant r \<longleftrightarrow> (\<forall>j<length (revisions h).
     time_between (timestamp (revisions h ! r)) instant \<le> time_between (timestamp (revisions h ! j)) instant)"

lemma jump_to_replays:
  assumes "rope_laws R contents" "hist_ok h D" "contents doc = D ! current h" "k < length (revisions h)"
  shows "replays_to R contents h D doc (jump_to k h) k"
  using jump_to_ok [OF assms(2,4)] apply_all_moves [OF assms(1), of _ doc] assms(3,4) unfolding replays_to_def by metis

lemma jump_instant_replays:
  assumes "rope_laws R contents" "hist_ok h D" "contents doc = D ! current h" "sorted (map timestamp (revisions h))"
  shows "\<exists>r. replays_to R contents h D doc (jump_instant t h) r \<and> closest_to h t r"
proof -
  have "revisions h \<noteq> []" using assms(2) by (auto simp: hist_ok_def)
  note r = instant_revision_ok [OF this assms(4), of t]
  then have "replays_to R contents h D doc (jump_instant t h) (instant_revision h t)"
    unfolding jump_instant_def by (intro jump_to_replays [OF assms(1-3)]) simp
  with r show ?thesis unfolding closest_to_def by blast
qed

text \<open>
  C4: Jumping.  In a consistent history every jump returns and replays to the text of its target: the
  revision asked for, clamped to the last one; \<open>n\<close> revisions earlier, not past the root; \<open>n\<close> revisions
  later, not past the last.  With the timestamps in order, going back by a time span lands on a revision
  closest to the current time less the span, or on the root when that is before the earliest instant,
  and going forward on one closest to the current time plus the span, or on the last revision when that
  is past the latest instant.
\<close>

theorem jump_replays:
  assumes "rope_laws R contents" "hist_ok h D" "contents doc = D ! current h"
  defines "now \<equiv> timestamp (revisions h ! current h)"
  shows "replays_to R contents h D doc (jump_to_revision to h) (min to (length (revisions h) - 1)) \<and>
    replays_to R contents h D doc (earlier (Steps n) h) (current h - n) \<and>
    replays_to R contents h D doc (later latest (Steps n) h)
      (min (min (current h + n) (2 ^ 64 - 1)) (length (revisions h) - 1)) \<and>
    (sorted (map timestamp (revisions h)) \<longrightarrow>
      (\<exists>r. replays_to R contents h D doc (earlier (TimePeriod d) h) r \<and>
        (if now < d then r = 0 else closest_to h (now - d) r)) \<and>
      (\<exists>r. replays_to R contents h D doc (later latest (TimePeriod d) h) r \<and>
        (if latest < now + d then r = length (revisions h) - 1 else closest_to h (now + d) r)))"
proof (intro conjI impI)
  note play = jump_to_replays [OF assms(1-3)]
  have cur: "current h < length (revisions h)" using assms(2) by (simp add: hist_ok_def)
  then have "min to (length (revisions h) - 1) < length (revisions h)" "current h - n < length (revisions h)"
    "min (min (current h + n) (2 ^ 64 - 1)) (length (revisions h) - 1) < length (revisions h)" by linarith+
  then show "replays_to R contents h D doc (jump_to_revision to h) (min to (length (revisions h) - 1))"
    "replays_to R contents h D doc (earlier (Steps n) h) (current h - n)"
    "replays_to R contents h D doc (later latest (Steps n) h) (min (min (current h + n) (2 ^ 64 - 1)) (length (revisions h) - 1))"
    using play by (simp_all only: jump_to_revision_def earlier.simps later.simps jump_backward_def jump_forward_def)
  assume sorted: "sorted (map timestamp (revisions h))"
  note instant = jump_instant_replays [OF assms(1-3) sorted]
  have ends: "0 < length (revisions h)" "length (revisions h) - 1 < length (revisions h)" using cur by linarith+
  show "\<exists>r. replays_to R contents h D doc (earlier (TimePeriod d) h) r \<and> (if now < d then r = 0 else closest_to h (now - d) r)"
    using cur play [OF ends(1)] instant [of "now - d"] by (auto simp: jump_duration_backward_def now_def checked_sub_def)
  show "\<exists>r. replays_to R contents h D doc (later latest (TimePeriod d) h) r \<and>
      (if latest < now + d then r = length (revisions h) - 1 else closest_to h (now + d) r)"
    using cur play [OF ends(2)] instant [of "now + d"] by (auto simp: jump_duration_forward_def now_def)
qed

theorem jump_replays_witness:
  "(\<exists>ts doc'. jump_to_revision 1 sample_history = Some (ts, sample_history\<lparr>current := 1\<rparr>) \<and>
     apply_all list_rope ts [8, 8, 9] = Some doc' \<and> doc' = [7]) \<and>
   (\<exists>r. replays_to list_rope id sample_history sample_texts [8, 8, 9] (earlier (TimePeriod 18) sample_history) r \<and>
     closest_to sample_history 12 r)"
proof -
  have "sorted (map timestamp (revisions sample_history))" by (simp add: sample_history_def sample_revision_simps)
  then show ?thesis
    using jump_replays [OF list_rope_laws sample_history_ok, of "[8, 8, 9]" 1 0 0 18]
    by (simp add: sample_history_simps sample_revision_simps sample_texts_def replays_to_def)
qed

text \<open>
  Changes since a revision.  \<open>changes_since\<close> composes the edits between two revisions of the
  tree, whichever branches they are on, without a composition failing: it is \<open>None\<close> for the current
  revision and otherwise one transaction that turns the revision's text into the current text.
\<close>

theorem changes_since_correct:
  assumes "rope_laws R contents" "hist_ok h D" "r < length (revisions h)" "contents doc = D ! r"
  shows "if r = current h then changes_since h r = Some None
    else \<exists>t doc'. changes_since h r = Some (Some t) \<and> tx_apply R t doc = Some (doc', True) \<and>
      contents doc' = D ! current h"
proof (cases "r = current h")
  case True
  then show ?thesis using changes_since_ok [OF assms(2,3)] by simp
next
  case False
  then obtain t where t: "changes_since h r = Some (Some t)" "tx_moves t (D ! r) (D ! current h)"
    using changes_since_ok [OF assms(2,3)] by auto
  obtain doc' where "tx_apply R t doc = Some (doc', True)" "contents doc' = tx_run t (contents doc)"
    by (rule tx_apply_run [OF assms(1), of t doc]) (use tx_moves_fits [OF t(2)] assms(4) in auto)
  then show ?thesis using t False assms(4) by (auto simp: tx_moves_def)
qed

theorem changes_since_correct_witness:
  "\<exists>t doc'. changes_since sample_history 1 = Some (Some t) \<and>
     tx_apply list_rope t [7] = Some (doc', True) \<and> doc' = [8, 8, 9]"
  using changes_since_correct [OF list_rope_laws sample_history_ok, of 1 "[7]"]
  by (simp add: sample_history_simps sample_texts_def)

text \<open>No undo has been followed by another edit: every revision was made from the one before.\<close>

definition linear_history :: "history \<Rightarrow> bool" where
  "linear_history h \<longleftrightarrow> Suc (current h) = length (revisions h) \<and>
     (\<forall>i. 0 < i \<longrightarrow> i < length (revisions h) \<longrightarrow> parent (revisions h ! i) = i - 1)"

lemma droppable_commit:
  assumes "linear_history h" "current h < length (revisions h)" "drp < length (revisions h)"
  shows "droppable (revisions (commit_untrimmed t inversion ts h)) drp"
  unfolding droppable_def
proof (intro allI impI)
  fix i
  assume i: "drp < i" "i < length (revisions (commit_untrimmed t inversion ts h))"
  show "drp \<le> parent (revisions (commit_untrimmed t inversion ts h) ! i)"
  proof (cases "i = length (revisions h)")
    case True
    then show ?thesis
      using assms commit_untrimmed_nth(2) [OF assms(2)] by (simp add: linear_history_def)
  next
    case False
    then have lt: "i < length (revisions h)" using i commit_untrimmed_nth(3) [OF assms(2)] by simp
    then have "parent (revisions (commit_untrimmed t inversion ts h) ! i) = parent (revisions h ! i)"
      by (simp add: commit_untrimmed_nth(1) [OF assms(2)])
    then show ?thesis using assms(1) i lt by (simp add: linear_history_def)
  qed
qed

text \<open>
  C8: Committing.  Committing an edit of the current text succeeds and leaves a consistent
  history whose current revision has the new text.  When \<open>undolevels\<close> may make it forget its oldest
  revisions, that is shown for a history without branches.
\<close>

theorem commit_keeps_history:
  assumes "rope_laws R contents" "hist_ok h D" "contents (st_doc original) = D ! current h"
    "tx_moves t (D ! current h) new"
    "linear_history h \<or> levels = 0 \<and> max_revisions h = None"
  shows "\<exists>h' D'. commit_revision_at_timestamp R levels t original ts h = Some h' \<and> hist_ok h' D' \<and>
    D' ! current h' = new \<and> parent (revisions h' ! current h') < current h'"
proof -
  obtain inversion where c: "commit_revision_at_timestamp R levels t original ts h =
       trim_to_undo_levels levels (commit_untrimmed t inversion ts h)" "tx_moves inversion new (D ! current h)"
    by (rule commit_revision_untrimmed [OF assms(1-4)])
  let ?h = "commit_untrimmed t inversion ts h"
  have cur: "current h < length (revisions h)" and len: "length D = length (revisions h)"
    using assms(2) by (auto simp: hist_ok_def texts_ok_def)
  note nth' = commit_untrimmed_nth(2-5) [OF cur, of t inversion ts]
  have "droppable (revisions ?h) drp" if "drp < current ?h" "levels \<noteq> 0 \<or> max_revisions ?h \<noteq> None" for drp
    using droppable_commit [of h drp] assms(5) cur that nth' by auto
  then obtain h' drp where h': "trim_to_undo_levels levels ?h = Some h'" "hist_ok h' (drop drp (D @ [new]))"
    "current h' = current ?h - drp" "drp < current ?h"
    using trim_ok [OF commit_untrimmed_ok [OF assms(2,4) c(2)], of ts levels] nth' cur by (metis gr_implies_not0 not_gr_zero)
  then have "drop drp (D @ [new]) ! current h' = new" "0 < current h'"
    using len nth' by (simp_all add: nth_append)
  moreover from this(2) have "parent (revisions h' ! current h') < current h'"
    using h'(2) by (simp add: hist_ok_def tree_ok_def)
  ultimately show ?thesis using h' c(1) by auto
qed

theorem commit_keeps_history_witness:
  "\<exists>h' D'. commit_revision_at_timestamp list_rope 1 (typed 1 [5]) (sample_state [7]) 40
       \<lparr>revisions = [\<lparr>parent = 0, last_child = Some 1, rv_transaction = no_edit, rv_inversion = no_edit, timestamp = 0\<rparr>,
          sample_revision 0 None 0 [7] 10], current = 1, max_revisions = None\<rparr> = Some h' \<and>
     hist_ok h' D' \<and> D' ! current h' = [7, 5]"
proof -
  let ?h = "\<lparr>revisions = [\<lparr>parent = 0, last_child = Some 1, rv_transaction = no_edit, rv_inversion = no_edit, timestamp = 0\<rparr>,
      sample_revision 0 None 0 [7] 10], current = 1, max_revisions = None\<rparr>"
  have "hist_ok ?h [[], [7]]"
    using sample_revision_simps(4,5) [of "[]" 0 "[7]"]
    by (auto simp: hist_ok_def tree_ok_def children_ok_def texts_ok_def less_Suc_eq sample_revision_simps)
  moreover have "tx_moves (typed 1 [5]) [7] [7, 5]"
    by (simp add: typed_def tx_from_def tx_moves_def tx_run_def run_def cs_exact_def)
  moreover have "linear_history ?h" by (auto simp: linear_history_def less_Suc_eq sample_revision_simps)
  ultimately show ?thesis
    using commit_keeps_history [OF list_rope_laws, of ?h "[[], [7]]" "sample_state [7]" "typed 1 [5]" "[7, 5]" 1 40]
    by (auto simp: sample_state_def)
qed

text \<open>
  Forgetting revisions of a branching history is not sound.  Here the third revision continues
  the first and the second was made from the empty text; \<open>undolevels = 2\<close> drops the first and
  reattaches the others to the root, one of them a transaction for the empty text and the other
  one for a text of one character, so that no text of the root is consistent with both.
\<close>

theorem trim_mixes_branches:
  "\<exists>h'. trim_to_undo_levels 2
        \<lparr>revisions = [\<lparr>parent = 0, last_child = Some 2, rv_transaction = no_edit, rv_inversion = no_edit, timestamp = 0\<rparr>,
           sample_revision 0 (Some 3) 0 [7] 10, sample_revision 0 None 0 [8, 8] 20, sample_revision 1 None 1 [9] 30],
         current = 3, max_revisions = None\<rparr> = Some h' \<and>
     map parent (revisions h') = [0, 0, 0] \<and> (\<nexists>D. hist_ok h' D)"
proof -
  let ?a = "sample_revision 0 None 0 [8, 8] 20" and ?b = "sample_revision 1 None 1 [9] 30"
  let ?h' = "\<lparr>revisions = [\<lparr>parent = 0, last_child = Some 1, rv_transaction = no_edit, rv_inversion = no_edit, timestamp = 0\<rparr>,
      ?a, ?b\<lparr>parent := 0\<rparr>], current = 2, max_revisions = None\<rparr>"
  have "\<not> hist_ok ?h' D" for D
  proof
    assume ok: "hist_ok ?h' D"
    have "length (D ! 0) = 0"
      using hist_ok_moves(1) [OF ok, of 1]
      by (simp add: sample_revision_def typed_def tx_from_def tx_moves_def)
    moreover have "length (D ! 0) = 1"
      using hist_ok_moves(1) [OF ok, of 2]
      by (simp add: sample_revision_def typed_def tx_from_def tx_moves_def)
    ultimately show False by simp
  qed
  then show ?thesis
    by (intro exI [of _ ?h'])
      (simp add: trim_to_undo_levels_def Let_def sample_revision_def non_zero_def)
qed

text \<open>
  Joining edits (\<open>:undojoin\<close>).  Merging an edit into a current revision that has no children
  keeps the history consistent: the same number of revisions, the new text, and one undo that
  returns to the parent's text.
\<close>

theorem undojoin_keeps_history:
  assumes "rope_laws R contents" "hist_ok h D" "current h \<noteq> 0"
    "\<forall>i<length (revisions h). parent (revisions h ! i) \<noteq> current h"
    "contents (st_doc original) = D ! current h" "tx_moves t (D ! current h) new" "contents doc = new"
  shows "\<exists>h' u h'' doc'. merge_last_revision R levels now t original h = Some h' \<and>
    hist_ok h' (D[current h := new]) \<and> current h' = current h \<and>
    undo h' = Some (Some u, h'') \<and> tx_apply R u doc = Some (doc', True) \<and>
    contents doc' = D ! current h'' \<and> current h'' < current h"
proof -
  from merge_last_revision_ok [OF assms(1-6)] obtain h' where
    h': "merge_last_revision R levels now t original h = Some h'" "current h' = current h"
      "hist_ok h' (D[current h := new])" by blast
  have n: "current h < length D" using assms(2) by (auto simp: hist_ok_def texts_ok_def)
  have "current h' \<noteq> 0" using h'(2) assms(3) by simp
  from undo_ok [OF h'(3) this] obtain u p where
    u: "undo h' = Some (Some u, h'\<lparr>current := p\<rparr>)" "p < current h'"
      "tx_moves u (D[current h := new] ! current h') (D[current h := new] ! p)" by blast
  have "tx_moves u (contents doc) (D ! p)"
    using u(2,3) h'(2) n assms(7) by simp
  then obtain doc' where "tx_apply R u doc = Some (doc', True)" "contents doc' = D ! p"
    using tx_apply_run [OF assms(1) tx_moves_fits] by (metis tx_moves_def)
  then show ?thesis using h' u by auto
qed

theorem undojoin_keeps_history_witness:
  "\<exists>h' u h'' doc'. merge_last_revision list_rope 0 50 (typed 3 [1]) (sample_state [8, 8, 9]) sample_history = Some h' \<and>
    current h' = 3 \<and> undo h' = Some (Some u, h'') \<and>
    tx_apply list_rope u [8, 8, 9, 1] = Some (doc', True) \<and> doc' = sample_texts ! current h''"
proof -
  have "tx_moves (typed 3 [1]) [8, 8, 9] [8, 8, 9, 1]"
    by (simp add: typed_def tx_from_def tx_moves_def tx_run_def run_def cs_exact_def)
  then show ?thesis
    using undojoin_keeps_history [OF list_rope_laws sample_history_ok, of "sample_state [8, 8, 9]" "typed 3 [1]"
        "[8, 8, 9, 1]" "[8, 8, 9, 1]" 0 50]
    by (auto simp: sample_history_simps sample_revision_simps less_4 sample_texts_def sample_state_def)
qed

text \<open>
  The position of the last edit cannot be asked for after joined edits that cancel out: the
  merged transaction has no change left, and \<open>last_edit_pos\<close> unwraps its first one.
\<close>

theorem last_edit_pos_panics:
  "\<exists>h'. merge_last_revision list_rope 0 50
      (tx_from \<lparr>cs_changes = [Delete 1], cs_len = 1, cs_len_after = 0\<rparr>) (sample_state [7])
      (sample_history\<lparr>current := 1\<rparr>) = Some h' \<and> last_edit_pos alnum h' = None"
proof -
  let ?t = "tx_from \<lparr>cs_changes = [Delete 1], cs_len = 1, cs_len_after = 0\<rparr>"
  let ?inv = "tx_from \<lparr>cs_changes = [Insert [7]], cs_len = 0, cs_len_after = 1\<rparr>"
  let ?rv = "sample_revision 0 None 0 [7] 10"
  have inv: "tx_invert list_rope ?t [7] = Some ?inv"
    by (simp add: tx_invert_def tx_from_def cs_invert_def list_rope_def cs_with_capacity_def cs_insert_def push_insert_def)
  have fwd: "tx_compose (rv_transaction ?rv) ?t = Some no_edit"
    by (simp add: tx_compose_def sample_revision_def typed_def tx_from_def no_edit_def cs_compose_def
        cs_with_capacity_def compose_loop.simps)
  obtain bwd where bwd: "tx_compose (with_selection ?inv (sel_single 0 0)) (rv_inversion ?rv) = Some bwd"
    by (simp add: tx_compose_def sample_revision_def with_selection_def tx_from_def cs_compose_def
        cs_with_capacity_def compose_loop.simps)
  let ?rv' = "?rv\<lparr>rv_transaction := no_edit, rv_inversion := bwd, timestamp := 50\<rparr>"
  let ?h' = "sample_history\<lparr>revisions := (revisions sample_history)[1 := ?rv'], current := 1\<rparr>"
  have "merge_last_revision list_rope 0 50 ?t (sample_state [7]) (sample_history\<lparr>current := 1\<rparr>) = Some ?h'"
    using inv fwd bwd by (simp add: merge_last_revision_def sample_state_def sample_history_simps Let_def)
  moreover have "last_edit_pos alnum ?h' = None"
    by (simp add: last_edit_pos_def sample_history_simps Let_def no_edit_def tx_from_def bind_eq_None_conv
        split: option.split)
  ultimately show ?thesis by blast
qed

end
