(* ===== verification/MergeOps.thy ===== *)
theory MergeOps
  imports Prelude "HOL-Library.Product_Lexorder" "HOL-Library.Sublist"
begin

text \<open>
  \<open>zmax-core/src/merge_ops.rs\<close>: the longest common subsequence and what is built on it, the line
  and word diff, the three-way merge, and the token reconciler; and the unified diff parser with
  \<open>apply_unified_diff\<close>.  The table of \<open>lcs_pairs\<close> holds \<open>u32\<close> values bounded by the number of
  tokens; they are \<open>nat\<close> here.  Slices and reads of the source that are in bounds because matched
  pairs increase (the lemmas show it) are written with \<open>take\<close> and \<open>drop\<close>.  The character classes
  \<open>char::is_alphanumeric\<close> and \<open>char::is_whitespace\<close> are the arguments \<open>alnum\<close> and \<open>space\<close>.
\<close>

section \<open>The longest common subsequence\<close>

text \<open>One row of the table, filled from its right end; \<open>next\<close> is the row below it.\<close>

fun dp_row :: "'a \<Rightarrow> 'a list \<Rightarrow> nat list \<Rightarrow> nat list" where
  "dp_row x (y # ys) (d # ds) =
     (let row = dp_row x ys ds
      in (if x = y then hd ds + 1 else max d (hd row)) # row)"
| "dp_row x _ _ = [0]"

fun dp_table :: "'a list \<Rightarrow> 'a list \<Rightarrow> nat list list" where
  "dp_table [] b = [replicate (length b + 1) 0]"
| "dp_table (x # a) b = (let t = dp_table a b in dp_row x b (hd t) # t)"

function lcs_walk :: "'a list \<Rightarrow> 'a list \<Rightarrow> nat list list \<Rightarrow> nat \<Rightarrow> nat \<Rightarrow> (nat \<times> nat) list" where
  "lcs_walk a b dp i j =
     (if i < length a \<and> j < length b then
        (if a ! i = b ! j then (i, j) # lcs_walk a b dp (i + 1) (j + 1)
         else if dp ! i ! (j + 1) \<le> dp ! (i + 1) ! j then lcs_walk a b dp (i + 1) j
         else lcs_walk a b dp i (j + 1))
      else [])"
  by pat_completeness auto
termination
  by (relation "measure (\<lambda>(a, b, dp, i, j). (length a - i) + (length b - j))") auto

declare lcs_walk.simps [simp del]

definition lcs_pairs :: "'a list \<Rightarrow> 'a list \<Rightarrow> (nat \<times> nat) list" where
  "lcs_pairs a b = lcs_walk a b (dp_table a b) 0 0"

section \<open>Lines and tokens\<close>

fun split_on :: "uchar \<Rightarrow> str \<Rightarrow> str list" where
  "split_on c [] = [[]]"
| "split_on c (x # xs) =
     (if x = c then [] # split_on c xs
      else case split_on c xs of w # ws \<Rightarrow> (x # w) # ws | [] \<Rightarrow> [[x]])"

fun join_with :: "uchar \<Rightarrow> str list \<Rightarrow> str" where
  "join_with c [] = []"
| "join_with c [w] = w"
| "join_with c (w # ws) = w @ c # join_with c ws"

abbreviation newline :: uchar where
  "newline \<equiv> 10"

definition split_lines :: "str \<Rightarrow> str list" where
  "split_lines s = split_on newline s"

function tokenize :: "(uchar \<Rightarrow> bool) \<Rightarrow> (uchar \<Rightarrow> bool) \<Rightarrow> str \<Rightarrow> str list" where
  "tokenize alnum space [] = []"
| "tokenize alnum space (c # cs) =
     (let word = (\<lambda>c. alnum c \<or> c = uc CHR ''_'')
      in if word c then (c # takeWhile word cs) # tokenize alnum space (dropWhile word cs)
         else if space c then (c # takeWhile space cs) # tokenize alnum space (dropWhile space cs)
         else [c] # tokenize alnum space cs)"
  by pat_completeness auto
termination
  by (relation "measure (\<lambda>(alnum, space, s). length s)") (auto simp: le_imp_less_Suc length_dropWhile_le)

section \<open>Line and word diff\<close>

text \<open>\<open>LineDiff\<close> and \<open>WordDiff\<close> have the same shape.\<close>

datatype 'a diff_op = DEqual 'a | DDelete 'a | DInsert 'a

text \<open>The loop over the matched pairs and the sentinel at the ends.\<close>

fun diff_loop :: "'a list \<Rightarrow> 'a list \<Rightarrow> nat \<Rightarrow> nat \<Rightarrow> (nat \<times> nat) list \<Rightarrow> 'a diff_op list" where
  "diff_loop la lb i j [] = []"
| "diff_loop la lb i j ((pi, pj) # pairs) =
     map DDelete (take (pi - i) (drop i la)) @ map DInsert (take (pj - j) (drop j lb)) @
     (if pi < length la then DEqual (la ! pi) # diff_loop la lb (pi + 1) (pj + 1) pairs
      else diff_loop la lb (max i pi) (max j pj) pairs)"

definition line_diff :: "str \<Rightarrow> str \<Rightarrow> str diff_op list" where
  "line_diff a b =
     (let la = split_lines a; lb = split_lines b
      in diff_loop la lb 0 0 (lcs_pairs la lb @ [(length la, length lb)]))"

fun coalesce_loop :: "str diff_op list \<Rightarrow> str diff_op list \<Rightarrow> str diff_op list" where
  "coalesce_loop out [] = out"
| "coalesce_loop out (op # ops) =
     coalesce_loop
       (case (rev out, op) of
          (DEqual prev # pre, DEqual s) \<Rightarrow> rev pre @ [DEqual (prev @ s)]
        | (DDelete prev # pre, DDelete s) \<Rightarrow> rev pre @ [DDelete (prev @ s)]
        | (DInsert prev # pre, DInsert s) \<Rightarrow> rev pre @ [DInsert (prev @ s)]
        | _ \<Rightarrow> out @ [op]) ops"

definition coalesce :: "str diff_op list \<Rightarrow> str diff_op list" where
  "coalesce ops = coalesce_loop [] ops"

definition word_diff :: "(uchar \<Rightarrow> bool) \<Rightarrow> (uchar \<Rightarrow> bool) \<Rightarrow> str \<Rightarrow> str \<Rightarrow> str diff_op list" where
  "word_diff alnum space a b =
     (let ta = tokenize alnum space a; tb = tokenize alnum space b
      in coalesce (diff_loop ta tb 0 0 (lcs_pairs ta tb @ [(length ta, length tb)])))"

section \<open>Three-way merge\<close>

record merge_result =
  mr_text :: str
  mr_conflicts :: nat

definition hash_from :: "(nat \<times> nat) list \<Rightarrow> nat \<Rightarrow> nat option" where
  "hash_from pairs = foldl (\<lambda>m (k, v). m(k \<mapsto> v)) Map.empty pairs"

definition sync_points :: "nat \<Rightarrow> (nat \<Rightarrow> nat option) \<Rightarrow> (nat \<Rightarrow> nat option) \<Rightarrow> (nat \<times> nat \<times> nat) list" where
  "sync_points len map_a map_b =
     sort (List.map_filter
       (\<lambda>bi. case map_a bi of None \<Rightarrow> None
              | Some ai \<Rightarrow> (case map_b bi of None \<Rightarrow> None | Some ti \<Rightarrow> Some (bi, ai, ti)))
       [0..<len])"

definition resolve :: "str list \<Rightarrow> str list \<Rightarrow> str list \<Rightarrow> str list \<times> nat" where
  "resolve os as bs =
     (if as = os then (bs, 0)
      else if bs = os then (as, 0)
      else if as = bs then (as, 0)
      else ([lit ''<<<<<<< OURS''] @ as @ [lit ''||||||| BASE''] @ os @ [lit ''=======''] @ bs @
              [lit ''>>>>>>> THEIRS''], 1))"

definition slice :: "'a list \<Rightarrow> nat \<Rightarrow> nat \<Rightarrow> 'a list" where
  "slice xs i j = take (j - i) (drop i xs)"

fun merge_loop :: "str list \<Rightarrow> str list \<Rightarrow> str list \<Rightarrow> nat \<Rightarrow> nat \<Rightarrow> nat \<Rightarrow> (nat \<times> nat \<times> nat) list \<Rightarrow>
    str list \<times> nat" where
  "merge_loop o_ls a b bo ao to [] =
     (if bo < length o_ls \<or> ao < length a \<or> to < length b
      then resolve (drop bo o_ls) (drop ao a) (drop to b) else ([], 0))"
| "merge_loop o_ls a b bo ao to ((bi, ai, ti) # syncs) =
     (let (region, c) =
        (if bi > bo \<or> ai > ao \<or> ti > to
         then resolve (slice o_ls bo bi) (slice a ao ai) (slice b to ti) else ([], 0));
          (rest, d) = merge_loop o_ls a b (bi + 1) (ai + 1) (ti + 1) syncs
      in (region @ [o_ls ! bi] @ rest, c + d))"

definition three_way_merge :: "str \<Rightarrow> str \<Rightarrow> str \<Rightarrow> merge_result" where
  "three_way_merge base ours theirs =
     (let o_ls = split_lines base; a = split_lines ours; b = split_lines theirs;
          map_a = hash_from (lcs_pairs o_ls a);
          map_b = hash_from (lcs_pairs o_ls b);
          (out, conflicts) = merge_loop o_ls a b 0 0 0 (sync_points (length o_ls) map_a map_b)
      in \<lparr>mr_text = join_with newline out, mr_conflicts = conflicts\<rparr>)"

section \<open>Unified diffs\<close>

datatype hunk_line = HContext str | HDelete str | HInsert str

record hunk =
  old_start :: nat
  old_len :: nat
  new_start :: nat
  new_len :: nat
  hk_lines :: "hunk_line list"

datatype patch_error = ContextMismatch nat | OutOfBounds nat | Overlap

fun strip_prefix :: "str \<Rightarrow> str \<Rightarrow> str option" where
  "strip_prefix [] s = Some s"
| "strip_prefix (p # ps) (c # cs) = (if p = c then strip_prefix ps cs else None)"
| "strip_prefix (p # ps) [] = None"

text \<open>\<open>str::parse::<usize>\<close>: an optional plus sign, then digits, no more than 64 bits.\<close>

definition is_digit :: "uchar \<Rightarrow> bool" where
  "is_digit c \<longleftrightarrow> 48 \<le> c \<and> c \<le> 57"

definition parse_usize :: "str \<Rightarrow> nat option" where
  "parse_usize s =
     (let ds = (case strip_prefix (lit ''+'') s of Some r \<Rightarrow> r | None \<Rightarrow> s);
          n = foldl (\<lambda>n c. 10 * n + (c - 48)) 0 ds
      in if ds = [] \<or> list_ex (\<lambda>c. \<not> is_digit c) ds then None
         else if n < 2 ^ 64 then Some n else None)"

definition parse_range :: "str \<Rightarrow> nat \<times> nat" where
  "parse_range t =
     (case split_on (uc CHR '','') t of
        [] \<Rightarrow> (0, 1)
      | s # rest \<Rightarrow>
          ((case parse_usize s of Some n \<Rightarrow> n | None \<Rightarrow> 0),
           (case rest of [] \<Rightarrow> 1 | l # _ \<Rightarrow> (case parse_usize l of Some n \<Rightarrow> n | None \<Rightarrow> 1))))"

text \<open>\<open>split_whitespace\<close>: the maximal runs of other characters.\<close>

function split_whitespace :: "(uchar \<Rightarrow> bool) \<Rightarrow> str \<Rightarrow> str list" where
  "split_whitespace space s =
     (case dropWhile space s of
        [] \<Rightarrow> []
      | c # cs \<Rightarrow> (c # takeWhile (\<lambda>x. \<not> space x) cs) #
                   split_whitespace space (dropWhile (\<lambda>x. \<not> space x) cs))"
  by pat_completeness auto
termination
proof (relation "measure (\<lambda>(space, s). length s)")
  fix space s c cs
  assume "dropWhile space s = c # cs"
  then have "Suc (length cs) \<le> length s" using length_dropWhile_le [of space s] by simp
  then show "((space, dropWhile (\<lambda>x. \<not> space x) cs), space, s) \<in> measure (\<lambda>(space, s). length s)"
    using length_dropWhile_le [of "\<lambda>x. \<not> space x" cs] by simp
qed simp

declare split_whitespace.simps [simp del]

fun header_ranges :: "str list \<Rightarrow> (nat \<times> nat) \<times> (nat \<times> nat) \<Rightarrow> (nat \<times> nat) \<times> (nat \<times> nat)" where
  "header_ranges [] on = on"
| "header_ranges (tok # toks) (old, new) =
     header_ranges toks
       (case strip_prefix (lit ''-'') tok of
          Some t \<Rightarrow> (parse_range t, new)
        | None \<Rightarrow> (case strip_prefix (lit ''+'') tok of Some t \<Rightarrow> (old, parse_range t) | None \<Rightarrow> (old, new)))"

fun body_line :: "str \<Rightarrow> hunk_line option" where
  "body_line line =
     (case strip_prefix (lit '' '') line of
        Some s \<Rightarrow> Some (HContext s)
      | None \<Rightarrow>
          (case strip_prefix (lit ''-'') line of
             Some s \<Rightarrow> Some (HDelete s)
           | None \<Rightarrow>
               (case strip_prefix (lit ''+'') line of
                  Some s \<Rightarrow> Some (HInsert s)
                | None \<Rightarrow> if line = [] then Some (HContext []) else None)))"

fun parse_loop :: "(uchar \<Rightarrow> bool) \<Rightarrow> str list \<Rightarrow> hunk option \<Rightarrow> hunk list" where
  "parse_loop space [] cur = (case cur of Some h \<Rightarrow> [h] | None \<Rightarrow> [])"
| "parse_loop space (line # ls) cur =
     (case strip_prefix (lit ''@@'') line of
        Some rest \<Rightarrow>
          (let (old, new) = header_ranges (split_whitespace space rest) ((0, 1), (0, 1));
               h = \<lparr>old_start = fst old, old_len = snd old, new_start = fst new, new_len = snd new, hk_lines = []\<rparr>
           in (case cur of Some h' \<Rightarrow> [h'] | None \<Rightarrow> []) @ parse_loop space ls (Some h))
      | None \<Rightarrow>
          parse_loop space ls
            (case cur of
               None \<Rightarrow> None
             | Some h \<Rightarrow>
                 (case body_line line of
                    Some l \<Rightarrow> Some (h\<lparr>hk_lines := hk_lines h @ [l]\<rparr>)
                  | None \<Rightarrow> Some h)))"

definition parse_unified_diff :: "(uchar \<Rightarrow> bool) \<Rightarrow> str \<Rightarrow> hunk list" where
  "parse_unified_diff space diff = parse_loop space (split_on newline diff) None"

text \<open>The lines of one hunk: the output they add and the cursor after them.\<close>

fun apply_lines :: "str list \<Rightarrow> nat \<Rightarrow> hunk_line list \<Rightarrow> patch_error + (str list \<times> nat)" where
  "apply_lines orig cur [] = Inr ([], cur)"
| "apply_lines orig cur (HContext s # hls) =
     (if length orig \<le> cur then Inl (OutOfBounds (cur + 1))
      else if orig ! cur \<noteq> s then Inl (ContextMismatch (cur + 1))
      else case apply_lines orig (cur + 1) hls of
             Inl e \<Rightarrow> Inl e | Inr (out, cur') \<Rightarrow> Inr (s # out, cur'))"
| "apply_lines orig cur (HDelete s # hls) =
     (if length orig \<le> cur then Inl (OutOfBounds (cur + 1))
      else if orig ! cur \<noteq> s then Inl (ContextMismatch (cur + 1))
      else apply_lines orig (cur + 1) hls)"
| "apply_lines orig cur (HInsert s # hls) =
     (case apply_lines orig cur hls of
        Inl e \<Rightarrow> Inl e | Inr (out, cur') \<Rightarrow> Inr (s # out, cur'))"

fun apply_hunks :: "str list \<Rightarrow> nat \<Rightarrow> hunk list \<Rightarrow> patch_error + str list" where
  "apply_hunks orig cur [] = Inr (drop cur orig)"
| "apply_hunks orig cur (h # hs) =
     (let start = old_start h - 1
      in if start < cur then Inl Overlap
         else if length orig < start then Inl (OutOfBounds (old_start h))
         else case apply_lines orig start (hk_lines h) of
                Inl e \<Rightarrow> Inl e
              | Inr (out, cur') \<Rightarrow>
                  (case apply_hunks orig cur' hs of
                     Inl e \<Rightarrow> Inl e | Inr rest \<Rightarrow> Inr (slice orig cur start @ out @ rest)))"

definition apply_unified_diff :: "str \<Rightarrow> hunk list \<Rightarrow> patch_error + str" where
  "apply_unified_diff original hunks =
     (case apply_hunks (split_lines original) 0 hunks of
        Inl e \<Rightarrow> Inl e | Inr out \<Rightarrow> Inr (join_with newline out))"

section \<open>The token reconciler\<close>

fun edits_loop :: "str list \<Rightarrow> str list \<Rightarrow> nat \<Rightarrow> nat \<Rightarrow> (nat \<times> nat) list \<Rightarrow> (nat \<times> nat \<times> str list) list" where
  "edits_loop base other bi oi [] = []"
| "edits_loop base other bi oi ((pb, po) # pairs) =
     (let repl = slice other oi po
      in (if (pb > bi \<or> po > oi) \<and> slice base bi pb \<noteq> repl then [(bi, pb, repl)] else [])) @
     edits_loop base other (pb + 1) (po + 1) pairs"

definition token_edits :: "str list \<Rightarrow> str list \<Rightarrow> (nat \<times> nat \<times> str list) list" where
  "token_edits base other =
     edits_loop base other 0 0 (lcs_pairs base other @ [(length base, length other)])"

text \<open>\<open>Vec::dedup\<close>\<close>

fun dedup :: "'a list \<Rightarrow> 'a list" where
  "dedup (x # y # ys) = (if y = x then dedup (x # ys) else x # dedup (y # ys))"
| "dedup xs = xs"

fun weave_edits :: "str list \<Rightarrow> nat \<Rightarrow> nat option \<Rightarrow> nat option \<Rightarrow> (nat \<times> nat \<times> str list) list \<Rightarrow> str list option" where
  "weave_edits bt cur prev_end prev_zero_at [] = Some (drop cur bt)"
| "weave_edits bt cur prev_end prev_zero_at ((s, e, repl) # edits) =
     (if (case prev_end of None \<Rightarrow> False
          | Some pe \<Rightarrow> s < pe \<or> (prev_zero_at = Some s \<and> s = e)) then None
      else map_option (\<lambda>rest. slice bt cur s @ repl @ rest)
             (weave_edits bt e (Some e) (if s = e then Some s else None) edits))"

definition reconcile_conflict :: "(uchar \<Rightarrow> bool) \<Rightarrow> (uchar \<Rightarrow> bool) \<Rightarrow> str \<Rightarrow> str \<Rightarrow> str \<Rightarrow> str option" where
  "reconcile_conflict alnum space base ours theirs =
     (let bt = tokenize alnum space base;
          edits = token_edits bt (tokenize alnum space ours) @ token_edits bt (tokenize alnum space theirs);
          edits = dedup (sort_key (\<lambda>(s, e, r). (s, e)) edits)
      in map_option concat (weave_edits bt 0 None None edits))"

section \<open>The matched pairs\<close>

text \<open>What the clients of the matcher rely on: the pairs rise on both sides and match equal tokens.\<close>

fun matching :: "'a list \<Rightarrow> 'a list \<Rightarrow> nat \<Rightarrow> nat \<Rightarrow> (nat \<times> nat) list \<Rightarrow> bool" where
  "matching a b i j [] \<longleftrightarrow> True"
| "matching a b i j ((p, q) # ps) \<longleftrightarrow>
     i \<le> p \<and> p < length a \<and> j \<le> q \<and> q < length b \<and> a ! p = b ! q \<and> matching a b (p + 1) (q + 1) ps"

lemma matching_weaken:
  assumes "matching a b i j ps" "i' \<le> i" "j' \<le> j"
  shows "matching a b i' j' ps"
  using assms by (cases ps) auto

lemma matching_member:
  "matching a b i j ps \<Longrightarrow> (p, q) \<in> set ps \<Longrightarrow> i \<le> p \<and> p < length a \<and> j \<le> q \<and> q < length b \<and> a ! p = b ! q"
proof (induction ps arbitrary: i j)
  case (Cons r ps)
  then show ?case by (cases r) fastforce
qed simp

lemma matching_rises:
  "matching a b i j ps \<Longrightarrow> (p, q) \<in> set ps \<Longrightarrow> (p', q') \<in> set ps \<Longrightarrow> p < p' \<Longrightarrow> q < q'"
proof (induction ps arbitrary: i j)
  case (Cons r ps)
  obtain x y where r: "r = (x, y)" by (cases r)
  have m: "matching a b (x + 1) (y + 1) ps" using Cons.prems(1) r by simp
  show ?case
  proof (cases "(p, q) = r")
    case True
    then have "(p', q') \<in> set ps" using Cons.prems(3,4) by auto
    then show ?thesis using matching_member [OF m] True r by fastforce
  next
    case False
    then have pq: "(p, q) \<in> set ps" using Cons.prems(2) by auto
    have "(p', q') \<noteq> r" using matching_member [OF m pq] Cons.prems(4) r by auto
    then have "(p', q') \<in> set ps" using Cons.prems(3) by auto
    then show ?thesis using Cons.IH [OF m pq] Cons.prems(4) by blast
  qed
qed simp

lemma matching_inj:
  "matching a b i j ps \<Longrightarrow> (p, q) \<in> set ps \<Longrightarrow> (p, q') \<in> set ps \<Longrightarrow> q = q'"
proof (induction ps arbitrary: i j)
  case (Cons r ps)
  obtain x y where r: "r = (x, y)" by (cases r)
  have m: "matching a b (x + 1) (y + 1) ps" using Cons.prems(1) r by simp
  show ?case using Cons.IH [OF m] Cons.prems(2,3) matching_member [OF m] r by fastforce
qed simp

lemma lcs_walk_matching: "matching a b i j (lcs_walk a b dp i j)"
proof (induction a b dp i j rule: lcs_walk.induct)
  case (1 a b dp i j)
  show ?case
    by (subst lcs_walk.simps) (use 1 in \<open>auto intro: matching_weaken\<close>)
qed

lemma lcs_pairs_matching: "matching a b 0 0 (lcs_pairs a b)"
  by (simp add: lcs_pairs_def lcs_walk_matching)

lemma lcs_walk_same: "lcs_walk a a dp i i = map (\<lambda>k. (k, k)) [i..<length a]"
proof (induction "length a - i" arbitrary: i)
  case 0
  then show ?case by (subst lcs_walk.simps) simp
next
  case (Suc n)
  have "lcs_walk a a dp (i + 1) (i + 1) = map (\<lambda>k. (k, k)) [i + 1..<length a]"
    by (rule Suc.hyps(1)) (use Suc.hyps(2) in simp)
  then show ?case using Suc.hyps(2) by (subst lcs_walk.simps) (simp add: upt_conv_Cons)
qed

lemma lcs_pairs_same: "lcs_pairs a a = map (\<lambda>k. (k, k)) [0..<length a]"
  by (simp add: lcs_pairs_def lcs_walk_same)

text \<open>The length of a longest common subsequence, the reference for the table.\<close>

fun lcs_len :: "'a list \<Rightarrow> 'a list \<Rightarrow> nat" where
  "lcs_len (x # xs) (y # ys) =
     (if x = y then lcs_len xs ys + 1 else max (lcs_len xs (y # ys)) (lcs_len (x # xs) ys))"
| "lcs_len _ _ = 0"

lemma lcs_len_nil [simp]: "lcs_len xs [] = 0"
  by (cases xs) simp_all

lemma subseq_tail: "subseq (z # c) (x # xs) \<Longrightarrow> subseq c xs"
  by (metis subseq_Cons' subseq_Cons2_iff)

lemma lcs_len_bound: "subseq c a \<Longrightarrow> subseq c b \<Longrightarrow> length c \<le> lcs_len a b"
proof (induction a b arbitrary: c rule: lcs_len.induct)
  case (1 x xs y ys)
  show ?case
  proof (cases c)
    case (Cons z c')
    show ?thesis
    proof (cases "x = y")
      case True
      then show ?thesis using 1(1) [of c'] 1(4,5) Cons subseq_tail by fastforce
    next
      case False
      then consider "z \<noteq> x" | "z \<noteq> y" by auto
      then show ?thesis
      proof cases
        case 1
        then have "subseq c xs" using "1.prems"(1) Cons by simp
        then show ?thesis using "1.IH"(2) [OF False _ "1.prems"(2)] False by fastforce
      next
        case 2
        then have "subseq c ys" using "1.prems"(2) Cons by simp
        then show ?thesis using "1.IH"(3) [OF False "1.prems"(1)] False by fastforce
      qed
    qed
  qed simp
qed auto

fun lcs_row :: "'a list \<Rightarrow> 'a list \<Rightarrow> nat list" where
  "lcs_row xs [] = [0]"
| "lcs_row xs (y # ys) = lcs_len xs (y # ys) # lcs_row xs ys"

lemma hd_lcs_row [simp]: "hd (lcs_row xs ys) = lcs_len xs ys"
  by (cases ys) auto

lemma lcs_row_nil [simp]: "lcs_row [] ys = replicate (length ys + 1) 0"
  by (induction ys) auto

lemma nth_lcs_row: "j \<le> length ys \<Longrightarrow> lcs_row xs ys ! j = lcs_len xs (drop j ys)"
proof (induction ys arbitrary: j)
  case (Cons y ys)
  then show ?case by (cases j) auto
qed simp

lemma dp_row_lcs: "dp_row x ys (lcs_row xs ys) = lcs_row (x # xs) ys"
  by (induction ys) (auto simp: Let_def)

lemma dp_table_lcs: "dp_table a b = map (\<lambda>i. lcs_row (drop i a) b) [0..<length a + 1]"
proof (induction a)
  case (Cons x a)
  have "hd (dp_table a b) = lcs_row a b" by (simp add: Cons upt_conv_Cons del: upt_Suc)
  moreover have "[0..<length (x # a) + 1] = 0 # map Suc [0..<length a + 1]"
    by (simp add: map_Suc_upt upt_conv_Cons del: upt_Suc)
  ultimately show ?case
    by (simp add: Let_def dp_row_lcs Cons o_def del: upt_Suc)
qed simp

text \<open>The comment on the table: \<open>dp[i][j]\<close> is the length for the suffixes from \<open>i\<close> and \<open>j\<close>.\<close>

lemma dp_table_entry:
  "i \<le> length a \<Longrightarrow> j \<le> length b \<Longrightarrow> dp_table a b ! i ! j = lcs_len (drop i a) (drop j b)"
  by (simp add: dp_table_lcs nth_lcs_row nth_append del: upt_Suc)

lemma length_lcs_walk:
  "dp = dp_table a b \<Longrightarrow> i \<le> length a \<Longrightarrow> j \<le> length b \<Longrightarrow>
   length (lcs_walk a b dp i j) = lcs_len (drop i a) (drop j b)"
proof (induction a b dp i j rule: lcs_walk.induct)
  case (1 a b dp i j)
  show ?case
  proof (cases "i < length a \<and> j < length b")
    case True
    have d: "drop i a = a ! i # drop (Suc i) a" "drop j b = b ! j # drop (Suc j) b"
      using True by (simp_all add: Cons_nth_drop_Suc)
    have t: "dp ! i ! (j + 1) = lcs_len (drop i a) (drop (Suc j) b)"
      "dp ! (i + 1) ! j = lcs_len (drop (Suc i) a) (drop j b)"
      using True "1.prems"(1) by (simp_all add: dp_table_entry)
    show ?thesis
      using 1 True t by (subst lcs_walk.simps) (auto simp: d)
  qed (use "1.prems" in \<open>subst lcs_walk.simps, auto\<close>)
qed

lemma length_lcs_pairs: "length (lcs_pairs a b) = lcs_len a b"
  by (simp add: lcs_pairs_def length_lcs_walk)

lemma matching_subseq:
  "matching a b i j ps \<Longrightarrow> subseq (map (\<lambda>(p, q). a ! p) ps) (drop i a) \<and>
   subseq (map (\<lambda>(p, q). a ! p) ps) (drop j b)"
proof (induction ps arbitrary: i j)
  case (Cons r ps)
  obtain p q where r: "r = (p, q)" by (cases r)
  have m: "i \<le> p" "p < length a" "j \<le> q" "q < length b" "a ! p = b ! q" "matching a b (p + 1) (q + 1) ps"
    using Cons.prems r by auto
  have da: "drop i a = take (p - i) (drop i a) @ a ! p # drop (p + 1) a"
    using m by (metis Cons_nth_drop_Suc Suc_eq_plus1 append_take_drop_id drop_drop le_add_diff_inverse2)
  have db: "drop j b = take (q - j) (drop j b) @ b ! q # drop (q + 1) b"
    using m by (metis Cons_nth_drop_Suc Suc_eq_plus1 append_take_drop_id drop_drop le_add_diff_inverse2)
  show ?case using Cons.IH [OF m(6)] m(5) r
    by (subst da, subst db) (auto intro!: subseq_drop_many list_emb_append2)
qed simp

section \<open>Splitting, joining and tokens\<close>

lemma split_on_ne [simp]: "split_on c s \<noteq> []"
  by (induction s) (auto split: list.splits)

lemma join_with_Cons: "ws \<noteq> [] \<Longrightarrow> join_with c (w # ws) = w @ c # join_with c ws"
  by (cases ws) auto

lemma join_split [simp]: "join_with c (split_on c s) = s"
proof (induction s)
  case (Cons x xs)
  obtain w ws where w: "split_on c xs = w # ws" by (metis neq_Nil_conv split_on_ne)
  then show ?case using Cons by (cases ws) (auto simp: join_with_Cons)
qed simp

lemma split_on_parts: "w \<in> set (split_on c s) \<Longrightarrow> c \<notin> set w"
  by (induction s arbitrary: w) (auto split: list.splits if_splits)

lemma split_on_append: "c \<notin> set w \<Longrightarrow> split_on c (w @ c # s) = w # split_on c s"
  by (induction w) auto

lemma split_on_word: "c \<notin> set w \<Longrightarrow> split_on c w = [w]"
  by (induction w) auto

lemma split_join:
  assumes "ws \<noteq> []" "\<And>w. w \<in> set ws \<Longrightarrow> c \<notin> set w"
  shows "split_on c (join_with c ws) = ws"
  using assms
proof (induction ws)
  case (Cons w ws)
  then show ?case by (cases "ws = []") (auto simp: join_with_Cons split_on_append split_on_word)
qed simp

lemma concat_tokenize [simp]: "concat (tokenize alnum space s) = s"
  by (induction alnum space s rule: tokenize.induct) (simp_all add: Let_def)

lemma tokenize_nonempty: "t \<in> set (tokenize alnum space s) \<Longrightarrow> t \<noteq> []"
  by (induction alnum space s rule: tokenize.induct) (auto simp: Let_def split: if_splits)

section \<open>What a diff says\<close>

text \<open>The two texts a list of operations describes, and its unchanged part.\<close>

fun olds :: "'a diff_op list \<Rightarrow> 'a list" where
  "olds [] = []"
| "olds (DEqual x # ops) = x # olds ops"
| "olds (DDelete x # ops) = x # olds ops"
| "olds (DInsert x # ops) = olds ops"

fun news :: "'a diff_op list \<Rightarrow> 'a list" where
  "news [] = []"
| "news (DEqual x # ops) = x # news ops"
| "news (DInsert x # ops) = x # news ops"
| "news (DDelete x # ops) = news ops"

fun kept :: "'a diff_op list \<Rightarrow> 'a list" where
  "kept [] = []"
| "kept (DEqual x # ops) = x # kept ops"
| "kept (_ # ops) = kept ops"

lemma sides_append [simp]:
  "olds (xs @ ys) = olds xs @ olds ys" "news (xs @ ys) = news xs @ news ys" "kept (xs @ ys) = kept xs @ kept ys"
  by (induction xs rule: olds.induct) auto

lemma sides_map [simp]:
  "olds (map DDelete ds) = ds" "news (map DDelete ds) = []" "kept (map DDelete ds) = []"
  "olds (map DInsert ds) = []" "news (map DInsert ds) = ds" "kept (map DInsert ds) = []"
  by (induction ds) auto

lemma kept_subseq: "subseq (kept ops) (olds ops) \<and> subseq (kept ops) (news ops)"
  by (induction ops rule: olds.induct) (auto intro: list_emb_Cons)

lemma drop_at:
  assumes "i \<le> p" "p < length xs"
  shows "take (p - i) (drop i xs) @ xs ! p # drop (Suc p) xs = drop i xs"
  using assms by (metis Cons_nth_drop_Suc append_take_drop_id drop_drop le_add_diff_inverse2)

lemma drop_at_more:
  assumes "i \<le> p" "p < length xs"
  shows "take (p - i) (drop i xs) @ xs ! p # drop (Suc p) xs @ ys = drop i xs @ ys"
  using drop_at [OF assms] by (metis append.assoc append_Cons)

lemma diff_loop_sides:
  "matching la lb i j ps \<Longrightarrow> i \<le> length la \<Longrightarrow> j \<le> length lb \<Longrightarrow>
   olds (diff_loop la lb i j (ps @ [(length la, length lb)])) = drop i la \<and>
   news (diff_loop la lb i j (ps @ [(length la, length lb)])) = drop j lb \<and>
   kept (diff_loop la lb i j (ps @ [(length la, length lb)])) = map (\<lambda>(p, q). la ! p) ps"
proof (induction ps arbitrary: i j)
  case (Cons r ps)
  obtain p q where r: "r = (p, q)" by (cases r)
  then show ?case
    using Cons.IH [of "p + 1" "q + 1"] Cons.prems drop_at [of i p la] drop_at [of j q lb] by auto
qed simp

text \<open>Coalescing changes no side.\<close>

lemma coalesce_loop_sides:
  "concat (olds (coalesce_loop out ops)) = concat (olds out) @ concat (olds ops) \<and>
   concat (news (coalesce_loop out ops)) = concat (news out) @ concat (news ops) \<and>
   concat (kept (coalesce_loop out ops)) = concat (kept out) @ concat (kept ops)"
proof (induction out ops rule: coalesce_loop.induct)
  case (2 out op ops)
  show ?case
  proof (cases "rev out")
    case Nil
    then have "out = []" by simp
    then show ?thesis using 2 by (cases op) auto
  next
    case (Cons l pre)
    then have "out = rev pre @ [l]" by (metis rev.simps(2) rev_rev_ident)
    then show ?thesis using 2 by (cases l; cases op) auto
  qed
qed simp

fun same_kind :: "'a diff_op \<Rightarrow> 'a diff_op \<Rightarrow> bool" where
  "same_kind (DEqual _) (DEqual _) \<longleftrightarrow> True"
| "same_kind (DDelete _) (DDelete _) \<longleftrightarrow> True"
| "same_kind (DInsert _) (DInsert _) \<longleftrightarrow> True"
| "same_kind _ _ \<longleftrightarrow> False"

text \<open>No two neighbours of one kind.\<close>

definition coalesced :: "'a diff_op list \<Rightarrow> bool" where
  "coalesced ops \<longleftrightarrow> (\<forall>k. Suc k < length ops \<longrightarrow> \<not> same_kind (ops ! k) (ops ! Suc k))"

lemma coalesced_snoc:
  "coalesced (xs @ [x]) \<longleftrightarrow> coalesced xs \<and> (xs = [] \<or> \<not> same_kind (List.last xs) x)"
proof (cases xs rule: rev_cases)
  case (snoc ys y)
  have "coalesced (ys @ [y, x]) \<longleftrightarrow> coalesced (ys @ [y]) \<and> \<not> same_kind y x"
    by (auto simp: coalesced_def nth_append less_Suc_eq all_conj_distrib)
  then show ?thesis using snoc by simp
qed (simp add: coalesced_def)

lemma coalesced_small: "coalesced []" "coalesced [x]"
  by (simp_all add: coalesced_def)

lemma coalesced_snoc2: "coalesced (xs @ [x, y]) \<longleftrightarrow> coalesced (xs @ [x]) \<and> \<not> same_kind x y"
  using coalesced_snoc [of "xs @ [x]" y] by simp

lemma same_kind_any:
  "same_kind z (DEqual (x @ y)) = same_kind z (DEqual x)"
  "same_kind z (DDelete (x @ y)) = same_kind z (DDelete x)"
  "same_kind z (DInsert (x @ y)) = same_kind z (DInsert x)"
  by (cases z; simp)+

lemma coalesce_loop_coalesced: "coalesced out \<Longrightarrow> coalesced (coalesce_loop out ops)"
proof (induction out ops rule: coalesce_loop.induct)
  case (2 out op ops)
  show ?case
  proof (cases "rev out")
    case Nil
    then have "out = []" by simp
    then show ?thesis using 2 by (cases op) (simp_all add: coalesced_small)
  next
    case (Cons l pre)
    then have "out = rev pre @ [l]" by (metis rev.simps(2) rev_rev_ident)
    then show ?thesis using 2 by (cases l; cases op) (simp_all add: coalesced_snoc coalesced_snoc2 coalesced_small same_kind_any)
  qed
qed simp

section \<open>Sync points\<close>

lemma matching_distinct: "matching a b i j ps \<Longrightarrow> distinct (map fst ps)"
proof (induction ps arbitrary: i j)
  case (Cons r ps)
  obtain p q where r: "r = (p, q)" by (cases r)
  have m: "matching a b (p + 1) (q + 1) ps" using Cons.prems r by simp
  show ?case using Cons.IH [OF m] matching_member [OF m] r by fastforce
qed simp

lemma hash_from_Some:
  assumes "matching a b i j ps"
  shows "hash_from ps k = Some v \<longleftrightarrow> (k, v) \<in> set ps"
proof -
  have "foldl (\<lambda>m (k, v). m(k \<mapsto> v)) m ps = m ++ map_of (rev ps)" for m :: "nat \<Rightarrow> nat option"
    by (induction ps arbitrary: m) (auto simp: fun_eq_iff map_add_def split: option.splits prod.splits)
  then have "hash_from ps = map_of (rev ps)" by (simp add: hash_from_def)
  then show ?thesis using matching_distinct [OF assms] by (simp add: map_of_eq_Some_iff rev_map [symmetric])
qed

text \<open>Triples of positions that rise in all three texts and hold the same line.\<close>

fun aligned :: "'a list \<Rightarrow> 'a list \<Rightarrow> 'a list \<Rightarrow> nat \<Rightarrow> nat \<Rightarrow> nat \<Rightarrow> (nat \<times> nat \<times> nat) list \<Rightarrow> bool" where
  "aligned os a b bo ao to [] \<longleftrightarrow> bo \<le> length os \<and> ao \<le> length a \<and> to \<le> length b"
| "aligned os a b bo ao to ((bi, ai, ti) # syncs) \<longleftrightarrow>
     bo \<le> bi \<and> bi < length os \<and> ao \<le> ai \<and> ai < length a \<and> to \<le> ti \<and> ti < length b \<and>
     os ! bi = a ! ai \<and> os ! bi = b ! ti \<and> aligned os a b (bi + 1) (ai + 1) (ti + 1) syncs"

abbreviation sync_at :: "(nat \<Rightarrow> nat option) \<Rightarrow> (nat \<Rightarrow> nat option) \<Rightarrow> nat \<Rightarrow> (nat \<times> nat \<times> nat) option" where
  "sync_at f g bi \<equiv>
     (case f bi of None \<Rightarrow> None | Some ai \<Rightarrow> (case g bi of None \<Rightarrow> None | Some ti \<Rightarrow> Some (bi, ai, ti)))"

lemma map_filter_Cons: "List.map_filter f (x # xs) = (case f x of None \<Rightarrow> [] | Some y \<Rightarrow> [y]) @ List.map_filter f xs"
  by (simp add: map_filter_simps split: option.splits)

lemma sync_at_sorted: "sorted_wrt (<) xs \<Longrightarrow> sorted (List.map_filter (sync_at f g) xs)"
proof (induction xs)
  case (Cons x xs)
  have mem: "fst y \<in> set xs" if "y \<in> set (List.map_filter (sync_at f g) xs)" for y
    using that by (auto simp: map_filter_def split: option.splits)
  have IH: "sorted (List.map_filter (sync_at f g) xs)" using Cons by simp
  show ?case
  proof (cases "sync_at f g x")
    case None
    then show ?thesis using IH by (simp add: map_filter_Cons)
  next
    case (Some t)
    then have "fst t = x" by (auto split: option.splits)
    then have "\<forall>y\<in>set (List.map_filter (sync_at f g) xs). t \<le> y"
      using mem Cons.prems by (fastforce simp: less_eq_prod_def)
    then show ?thesis using IH Some by (simp add: map_filter_Cons)
  qed
qed (simp add: map_filter_simps)

lemma sync_points_eq: "sync_points n f g = List.map_filter (sync_at f g) [0..<n]"
  unfolding sync_points_def by (rule sort_key_id_if_sorted) (simp add: sync_at_sorted)

lemma sync_at_aligned:
  assumes f: "\<And>x y. f x = Some y \<Longrightarrow> x < length os \<and> y < length a \<and> os ! x = a ! y"
    and g: "\<And>x y. g x = Some y \<Longrightarrow> x < length os \<and> y < length b \<and> os ! x = b ! y"
    and mono: "\<And>x x' y y'. f x = Some y \<Longrightarrow> f x' = Some y' \<Longrightarrow> x < x' \<Longrightarrow> y < y'"
      "\<And>x x' y y'. g x = Some y \<Longrightarrow> g x' = Some y' \<Longrightarrow> x < x' \<Longrightarrow> y < y'"
  shows "\<lbrakk>sorted_wrt (<) xs; bo \<le> length os; ao \<le> length a; to \<le> length b;
     \<And>x. x \<in> set xs \<Longrightarrow> bo \<le> x; \<And>x y. x \<in> set xs \<Longrightarrow> f x = Some y \<Longrightarrow> ao \<le> y;
     \<And>x y. x \<in> set xs \<Longrightarrow> g x = Some y \<Longrightarrow> to \<le> y\<rbrakk> \<Longrightarrow>
     aligned os a b bo ao to (List.map_filter (sync_at f g) xs)"
proof (induction xs arbitrary: bo ao to)
  case (Cons x xs)
  show ?case
  proof (cases "sync_at f g x")
    case None
    have "aligned os a b bo ao to (List.map_filter (sync_at f g) xs)"
      by (rule Cons.IH) (use Cons.prems in \<open>meson list.set_intros(2) | simp\<close>)+
    then show ?thesis using None by (simp add: map_filter_Cons)
  next
    case (Some t)
    then obtain y z where yz: "f x = Some y" "g x = Some z" "t = (x, y, z)" by (auto split: option.splits)
    have "aligned os a b (x + 1) (y + 1) (z + 1) (List.map_filter (sync_at f g) xs)"
      using Cons.prems(1) f [OF yz(1)] g [OF yz(2)] mono(1) [OF yz(1)] mono(2) [OF yz(2)]
      by (intro Cons.IH) (fastforce simp: Suc_le_eq)+
    moreover have "bo \<le> x" "ao \<le> y" "to \<le> z" using Cons.prems(5,6,7) [of x] yz by simp_all
    ultimately show ?thesis using yz f [OF yz(1)] g [OF yz(2)] by (simp add: map_filter_Cons)
  qed
qed (simp add: map_filter_simps)

lemma sync_points_aligned:
  assumes "matching os a 0 0 ps" "matching os b 0 0 qs"
  shows "aligned os a b 0 0 0 (sync_points (length os) (hash_from ps) (hash_from qs))"
  unfolding sync_points_eq
  by (rule sync_at_aligned)
    (use matching_member [OF assms(1)] matching_member [OF assms(2)] matching_rises [OF assms(1)]
        matching_rises [OF assms(2)] in \<open>auto simp: hash_from_Some [OF assms(1)] hash_from_Some [OF assms(2)]\<close>)

text \<open>Two sides matched alike give triples that repeat that side's position.\<close>

lemma sync_points_same:
  "(bi, ai, ti) \<in> set (sync_points n f f) \<Longrightarrow> ai = ti"
  by (auto simp: sync_points_eq map_filter_def split: option.splits)

lemma sync_points_member:
  "(bi, ai, ti) \<in> set (sync_points n f g) \<longleftrightarrow> bi < n \<and> f bi = Some ai \<and> g bi = Some ti"
  by (auto simp: sync_points_eq map_filter_def image_iff split: option.splits)

lemma sync_points_swap:
  "sync_points n g f = map (\<lambda>(bi, ai, ti). (bi, ti, ai)) (sync_points n f g)"
  unfolding sync_points_eq by (induction n) (auto simp: map_filter_def split: option.splits)

section \<open>What a merge does\<close>

text \<open>
  The reference: the three texts are read in step, an unchanged line at a time or a region at a
  time, and of each region the side that changed it is kept, or the markers.
\<close>

inductive merges :: "str list \<Rightarrow> str list \<Rightarrow> str list \<Rightarrow> str list \<Rightarrow> nat \<Rightarrow> bool" where
  nothing: "merges [] [] [] [] 0"
| line: "merges os a b out n \<Longrightarrow> merges (l # os) (l # a) (l # b) (l # out) n"
| theirs: "merges os a b out n \<Longrightarrow> merges (r @ os) (r @ a) (t @ b) (t @ out) n"
| ours: "merges os a b out n \<Longrightarrow> merges (r @ os) (t @ a) (r @ b) (t @ out) n"
| both: "merges os a b out n \<Longrightarrow> merges (r @ os) (t @ a) (t @ b) (t @ out) n"
| conflict: "merges os a b out n \<Longrightarrow> t \<noteq> r \<Longrightarrow> u \<noteq> r \<Longrightarrow> t \<noteq> u \<Longrightarrow>
    merges (r @ os) (t @ a) (u @ b)
      (lit ''<<<<<<< OURS'' # t @ lit ''||||||| BASE'' # r @ lit ''======='' # u @ lit ''>>>>>>> THEIRS'' # out)
      (Suc n)"

lemma resolve_merges:
  "merges os a b out n \<Longrightarrow> resolve r t u = (reg, c) \<Longrightarrow> merges (r @ os) (t @ a) (u @ b) (reg @ out) (c + n)"
  using merges.conflict [of os a b out n t r u]
  by (auto simp: resolve_def intro: merges.theirs merges.ours merges.both split: if_splits)

lemma resolve_simps [simp]:
  "resolve r r t = (t, 0)" "resolve r t r = (t, 0)" "resolve r t t = (t, 0)"
  by (auto simp: resolve_def)

lemma resolve_swap:
  "snd (resolve r u t) = snd (resolve r t u) \<and>
   (snd (resolve r t u) = 0 \<longrightarrow> fst (resolve r u t) = fst (resolve r t u))"
  by (auto simp: resolve_def)

text \<open>The tests for an empty region change nothing, an empty region resolves to nothing.\<close>

lemma merge_loop_region:
  assumes "aligned os a b bo ao to ((bi, ai, ti) # syncs)"
  shows "merge_loop os a b bo ao to ((bi, ai, ti) # syncs) =
    (let (reg, c) = resolve (slice os bo bi) (slice a ao ai) (slice b to ti);
         (rest, d) = merge_loop os a b (bi + 1) (ai + 1) (ti + 1) syncs
     in (reg @ [os ! bi] @ rest, c + d))"
  using assms by (auto simp: Let_def slice_def split: prod.splits)

lemma merge_loop_tail: "merge_loop os a b bo ao to [] = resolve (drop bo os) (drop ao a) (drop to b)"
  by simp

lemmas merge_steps = merge_loop_region merge_loop_tail

declare merge_loop.simps [simp del]

lemma slice_at: "i \<le> p \<Longrightarrow> p < length xs \<Longrightarrow> slice xs i p @ xs ! p # drop (Suc p) xs = drop i xs"
  by (simp add: slice_def drop_at)

lemma merge_loop_merges:
  "aligned os a b bo ao to syncs \<Longrightarrow> merge_loop os a b bo ao to syncs = (out, n) \<Longrightarrow>
   merges (drop bo os) (drop ao a) (drop to b) out n"
proof (induction os a b bo ao to syncs arbitrary: out n rule: aligned.induct)
  case (1 os a b bo ao to)
  then show ?case using resolve_merges [OF merges.nothing, of "drop bo os" "drop ao a" "drop to b"]
    by (simp add: merge_steps)
next
  case (2 os a b bo ao to bi ai ti syncs)
  obtain reg c where r: "resolve (slice os bo bi) (slice a ao ai) (slice b to ti) = (reg, c)" by fastforce
  obtain rest d where m: "merge_loop os a b (bi + 1) (ai + 1) (ti + 1) syncs = (rest, d)" by fastforce
  have out: "out = reg @ os ! bi # rest" "n = c + d"
    using "2.prems"(2) by (simp_all add: merge_loop_region [OF "2.prems"(1)] r m [simplified])
  have al: "aligned os a b (bi + 1) (ai + 1) (ti + 1) syncs"
    "bo \<le> bi" "bi < length os" "ao \<le> ai" "ai < length a" "to \<le> ti" "ti < length b"
    and same: "a ! ai = os ! bi" "b ! ti = os ! bi"
    using "2.prems"(1) by auto
  have "merges (slice os bo bi @ os ! bi # drop (Suc bi) os) (slice a ao ai @ os ! bi # drop (Suc ai) a)
      (slice b to ti @ os ! bi # drop (Suc ti) b) (reg @ os ! bi # rest) (c + d)"
    using "2.IH" [OF al(1) m] by (intro resolve_merges [OF merges.line r]) simp
  then show ?case using al out slice_at [of bo bi os] slice_at [of ao ai a] slice_at [of to ti b] same by simp
qed

lemma merge_loop_theirs:
  "aligned os a b bo ao to syncs \<Longrightarrow> a = os \<Longrightarrow> ao = bo \<Longrightarrow> \<forall>(bi, ai, ti) \<in> set syncs. ai = bi \<Longrightarrow>
   merge_loop os a b bo ao to syncs = (drop to b, 0)"
proof (induction os a b bo ao to syncs rule: aligned.induct)
  case (2 os a b bo ao to bi ai ti syncs)
  then show ?case using slice_at [of to ti b] by (auto simp: merge_loop_region)
qed (simp add: merge_steps)

lemma merge_loop_ours:
  "aligned os a b bo ao to syncs \<Longrightarrow> b = os \<Longrightarrow> to = bo \<Longrightarrow> \<forall>(bi, ai, ti) \<in> set syncs. ti = bi \<Longrightarrow>
   merge_loop os a b bo ao to syncs = (drop ao a, 0)"
proof (induction os a b bo ao to syncs rule: aligned.induct)
  case (2 os a b bo ao to bi ai ti syncs)
  then show ?case using slice_at [of ao ai a] by (auto simp: merge_loop_region)
qed (simp add: merge_steps)

lemma merge_loop_both:
  "aligned os a b bo ao to syncs \<Longrightarrow> b = a \<Longrightarrow> to = ao \<Longrightarrow> \<forall>(bi, ai, ti) \<in> set syncs. ti = ai \<Longrightarrow>
   merge_loop os a b bo ao to syncs = (drop ao a, 0)"
proof (induction os a b bo ao to syncs rule: aligned.induct)
  case (2 os a b bo ao to bi ai ti syncs)
  then show ?case using slice_at [of ao ai a] by (auto simp: merge_loop_region)
qed (simp add: merge_steps)

lemma aligned_swap:
  "aligned os a b bo ao to syncs \<Longrightarrow> aligned os b a bo to ao (map (\<lambda>(bi, ai, ti). (bi, ti, ai)) syncs)"
  by (induction os a b bo ao to syncs rule: aligned.induct) auto

text \<open>The two sides play the same part: without a conflict they can be exchanged.\<close>

lemma merge_loop_swap:
  "aligned os a b bo ao to syncs \<Longrightarrow>
   snd (merge_loop os b a bo to ao (map (\<lambda>(bi, ai, ti). (bi, ti, ai)) syncs)) =
     snd (merge_loop os a b bo ao to syncs) \<and>
   (snd (merge_loop os a b bo ao to syncs) = 0 \<longrightarrow>
    fst (merge_loop os b a bo to ao (map (\<lambda>(bi, ai, ti). (bi, ti, ai)) syncs)) =
      fst (merge_loop os a b bo ao to syncs))"
proof (induction os a b bo ao to syncs rule: aligned.induct)
  case (1 os a b bo ao to)
  then show ?case using resolve_swap [of "drop bo os" "drop to b" "drop ao a"] by (simp add: merge_steps)
next
  case (2 os a b bo ao to bi ai ti syncs)
  have al: "aligned os b a bo to ao ((bi, ti, ai) # map (\<lambda>(bi, ai, ti). (bi, ti, ai)) syncs)"
    using aligned_swap [OF "2.prems"] by (simp only: list.map prod.case)
  show ?case
    using "2.IH" "2.prems" resolve_swap [of "slice os bo bi" "slice b to ti" "slice a ao ai"]
    by (simp add: merge_loop_region [OF "2.prems"] merge_loop_region [OF al, unfolded case_prod_unfold] case_prod_unfold Let_def)
qed

section \<open>Weaving edits\<close>

text \<open>Edits of one side: in order, apart, in range, each one changing something.\<close>

fun edits_ok :: "'a list \<Rightarrow> nat \<Rightarrow> (nat \<times> nat \<times> 'a list) list \<Rightarrow> bool" where
  "edits_ok bt cur [] \<longleftrightarrow> True"
| "edits_ok bt cur ((s, e, r) # es) \<longleftrightarrow> cur \<le> s \<and> s \<le> e \<and> e \<le> length bt \<and> edits_ok bt (Suc e) es"

lemma edits_ok_weaken: "edits_ok bt i es \<Longrightarrow> j \<le> i \<Longrightarrow> edits_ok bt j es"
  by (cases es) auto

lemma edits_loop_ok:
  "matching bt other bi oi ps \<Longrightarrow> bi \<le> length bt \<Longrightarrow>
   edits_ok bt bi (edits_loop bt other bi oi (ps @ [(length bt, length other)]))"
proof (induction ps arbitrary: bi oi)
  case (Cons r ps)
  obtain p q where r: "r = (p, q)" by (cases r)
  have "edits_ok bt (Suc p) (edits_loop bt other (Suc p) (Suc q) (ps @ [(length bt, length other)]))"
    using Cons.IH [of "p + 1" "q + 1"] Cons.prems r by simp
  then show ?case using Cons.prems r by (auto simp: Let_def elim: edits_ok_weaken)
qed (simp add: Let_def)

lemma slice_to: "i \<le> p \<Longrightarrow> slice xs i p @ drop p xs = drop i xs"
  by (simp add: slice_def) (metis append_take_drop_id drop_drop le_add_diff_inverse2)

lemma slice_full [simp]: "slice xs i (length xs) = drop i xs"
  by (simp add: slice_def)

lemma slice_trans: "i \<le> j \<Longrightarrow> j \<le> k \<Longrightarrow> slice xs i j @ slice xs j k = slice xs i k"
  using take_add [of "j - i" "k - j" "drop i xs"] by (simp add: slice_def)

lemma slice_self [simp]: "slice xs i i = []"
  by (simp add: slice_def)

text \<open>Weaving the edits of one side gives that side.\<close>

lemma weave_start:
  "prev_end = None \<or> (\<exists>pe. prev_end = Some pe \<and> pe \<le> cur \<and> (prev_zero_at = None \<or> prev_zero_at = Some pe \<and> pe < cur)) \<Longrightarrow>
   edits_ok bt cur es \<Longrightarrow>
   weave_edits bt cur prev_end prev_zero_at es = weave_edits bt cur None None es"
  by (cases es) auto

lemma weave_ahead:
  assumes "edits_ok bt cur' es" "cur \<le> cur'" "cur' \<le> length bt"
  shows "weave_edits bt cur None None es = map_option (\<lambda>t. slice bt cur cur' @ t) (weave_edits bt cur' None None es)"
proof (cases es)
  case Nil
  then show ?thesis using assms by (simp add: slice_to)
next
  case (Cons x es')
  obtain s e r where x: "x = (s, e, r)" by (cases x)
  have "slice bt cur s = slice bt cur cur' @ slice bt cur' s"
    using assms Cons x by (simp add: slice_trans)
  then show ?thesis using Cons x
    by (simp add: option.map_comp o_def)
qed

lemma weave_edits_loop:
  "matching bt other bi oi ps \<Longrightarrow> bi \<le> length bt \<Longrightarrow> oi \<le> length other \<Longrightarrow>
   weave_edits bt bi None None (edits_loop bt other bi oi (ps @ [(length bt, length other)])) = Some (drop oi other)"
proof (induction ps arbitrary: bi oi)
  case (Cons r ps)
  obtain p q where r: "r = (p, q)" by (cases r)
  let ?es = "edits_loop bt other (Suc p) (Suc q) (ps @ [(length bt, length other)])"
  have m: "bi \<le> p" "p < length bt" "oi \<le> q" "q < length other" "bt ! p = other ! q"
    "matching bt other (Suc p) (Suc q) ps"
    using Cons.prems r by auto
  have ok: "edits_ok bt (Suc p) ?es" using edits_loop_ok [OF m(6)] m(2) by simp
  have IH: "weave_edits bt (Suc p) None None ?es = Some (drop (Suc q) other)"
    using Cons.IH [OF m(6)] m by simp
  have go: "weave_edits bt i pe None ?es = map_option (\<lambda>t. slice bt i (Suc p) @ t) (Some (drop (Suc q) other))"
    if "i \<le> p" "pe = None \<or> pe = Some i" for i pe
    using weave_ahead [OF ok, of i] weave_start [of pe i None bt ?es] edits_ok_weaken [OF ok, of i] IH that m(2)
    by auto
  have zero: "weave_edits bt p (Some p) (Some p) ?es = weave_edits bt p (Some p) None ?es"
    using ok by (cases ?es) auto
  have last: "slice bt p (Suc p) = [other ! q]" "slice bt bi (Suc p) = slice bt bi p @ [other ! q]"
    using m slice_trans [of bi p "Suc p" bt]
    by (simp_all add: slice_def take_Suc_conv_app_nth flip: Cons_nth_drop_Suc)
  show ?case
    using r go [of bi None] go [of p "Some p"] zero last slice_at [of oi q other] m
    by (auto simp: Let_def slice_def)
qed (use slice_to in \<open>auto simp: Let_def\<close>)

section \<open>Edits of two sides\<close>

abbreviation edit_key :: "nat \<times> nat \<times> 'a list \<Rightarrow> nat \<times> nat" where
  "edit_key \<equiv> \<lambda>(s, e, r). (s, e)"

abbreviation apart :: "(nat \<times> nat \<times> 'a list) list \<Rightarrow> bool" where
  "apart \<equiv> sorted_wrt (\<lambda>x y. edit_key x < edit_key y)"

lemma edits_ok_from: "edits_ok bt cur es \<Longrightarrow> x \<in> set es \<Longrightarrow> cur \<le> fst x"
proof (induction bt cur es rule: edits_ok.induct)
  case (2 bt cur s e r es)
  then show ?case by fastforce
qed simp

lemma edits_ok_apart: "edits_ok bt cur es \<Longrightarrow> apart es"
proof (induction bt cur es rule: edits_ok.induct)
  case (2 bt cur s e r es)
  then have "\<And>x. x \<in> set es \<Longrightarrow> Suc e \<le> fst x" using edits_ok_from [of bt "Suc e" es] by simp
  then have "\<forall>x\<in>set es. edit_key (s, e, r) < edit_key x" using 2 by (fastforce simp: less_prod_def)
  then show ?case using 2 by simp
qed simp

lemma apart_keys: "apart es \<Longrightarrow> sorted (map edit_key es) \<and> inj_on edit_key (set es)"
proof (induction es)
  case (Cons x es)
  then show ?case by (fastforce simp: inj_on_def order.strict_iff_order)
qed simp

lemma dedup_set [simp]: "set (dedup xs) = set xs"
  by (induction xs rule: dedup.induct) auto

lemma dedup_sorted: "sorted (map f xs) \<Longrightarrow> sorted (map f (dedup xs))"
  by (induction xs rule: dedup.induct) auto

lemma dedup_apart:
  "sorted (map edit_key es) \<Longrightarrow> inj_on edit_key (set es) \<Longrightarrow> apart (dedup es)"
proof (induction es rule: dedup.induct)
  case (1 x y es)
  show ?case
  proof (cases "y = x")
    case True
    then show ?thesis using 1 by simp
  next
    case False
    then have "edit_key x \<noteq> edit_key y" using 1(4) by (simp only: inj_on_def) (metis list.set_intros)
    then have "edit_key x < edit_key y" using "1.prems"(1) by (simp only: list.map sorted_simps) auto
    moreover have "apart (dedup (y # es))" using 1 False by (auto simp: inj_on_def)
    moreover have "\<forall>z\<in>set (y # es). edit_key y \<le> edit_key z" using "1.prems"(1) by auto
    ultimately show ?thesis using False by (auto intro: less_le_trans)
  qed
qed auto

lemma apart_distinct: "apart es \<Longrightarrow> distinct (map edit_key es)"
  by (induction es) fastforce+

lemma apart_unique:
  assumes "apart xs" "apart ys" "set xs = set ys"
  shows "xs = ys"
proof (rule map_inj_on)
  show "map edit_key xs = map edit_key ys"
  proof (rule sorted_distinct_set_unique)
    show "set (map edit_key xs) = set (map edit_key ys)" using assms(3) by (simp only: set_map)
  qed (use apart_keys [OF assms(1)] apart_keys [OF assms(2)] apart_distinct assms in blast)+
  show "inj_on edit_key (set xs \<union> set ys)" using apart_keys [OF assms(1)] assms(3) by (metis Un_absorb)
qed

text \<open>The weave only succeeds on edits with different spans, so the order of the sides is lost.\<close>

lemma weave_Some_apart:
  "sorted (map edit_key es) \<Longrightarrow> \<forall>(s, e, r) \<in> set es. s \<le> e \<Longrightarrow>
   weave_edits bt cur pe pz es = Some t \<Longrightarrow> apart es"
proof (induction bt cur pe pz es arbitrary: t rule: weave_edits.induct)
  case (2 bt cur pe pz s e r es)
  then have rest: "weave_edits bt e (Some e) (if s = e then Some s else None) es \<noteq> None"
    by (auto split: if_splits)
  then have IH: "apart es" using 2 by (auto split: if_splits)
  have "edit_key (s, e, r) < edit_key x" if x: "x \<in> set es" for x
  proof (cases es)
    case (Cons y es')
    obtain s' e' r' where y: "y = (s', e', r')" by (cases y)
    have "s' \<le> e'" using "2.prems"(2) Cons y by simp
    then have "(s, e) \<noteq> (s', e')" using rest Cons y by (auto split: if_splits)
    moreover have "(s, e) \<le> (s', e')" using "2.prems"(1) Cons y by simp
    ultimately have "(s, e) < (s', e')" by (rule order.not_eq_order_implies_strict)
    moreover have "(s', e') \<le> edit_key x" using "2.prems"(1) Cons y x by auto
    ultimately have "(s, e) < edit_key x" by (rule order.strict_trans2)
    then show ?thesis by simp
  qed (use x in simp)
  then show ?case using IH by simp
qed simp

definition both_edits :: "(nat \<times> nat \<times> 'a list) list \<Rightarrow> (nat \<times> nat \<times> 'a list) list \<Rightarrow> (nat \<times> nat \<times> 'a list) list" where
  "both_edits es fs = dedup (sort_key edit_key (es @ fs))"

lemma edits_ok_spans: "edits_ok bt cur es \<Longrightarrow> \<forall>(s, e, r) \<in> set es. s \<le> e"
  by (induction bt cur es rule: edits_ok.induct) auto

lemma both_edits_apart:
  assumes "inj_on edit_key (set es \<union> set fs)"
  shows "apart (both_edits es fs)"
  unfolding both_edits_def by (rule dedup_apart) (use assms in simp_all)

lemma both_edits_set [simp]: "set (both_edits es fs) = set es \<union> set fs"
  by (simp add: both_edits_def)

lemma both_edits_swap_Some:
  assumes "edits_ok bt i es" "edits_ok bt j fs" "weave_edits bt cur None None (both_edits es fs) = Some t"
  shows "both_edits fs es = both_edits es fs"
proof -
  have a: "apart (both_edits es fs)"
  proof (rule weave_Some_apart [OF _ _ assms(3)])
    show "sorted (map edit_key (both_edits es fs))" by (simp add: both_edits_def dedup_sorted)
    show "\<forall>(s, e, r) \<in> set (both_edits es fs). s \<le> e"
      using edits_ok_spans [OF assms(1)] edits_ok_spans [OF assms(2)] by auto
  qed
  then have "inj_on edit_key (set es \<union> set fs)" using apart_keys [OF a] by simp
  then have "apart (both_edits fs es)" by (intro both_edits_apart) (simp add: Un_commute)
  then show ?thesis by (rule apart_unique [OF _ a]) (simp add: Un_commute)
qed

lemma both_edits_swap:
  assumes "edits_ok bt i es" "edits_ok bt j fs"
  shows "weave_edits bt cur None None (both_edits es fs) = weave_edits bt cur None None (both_edits fs es)"
proof (cases "weave_edits bt cur None None (both_edits es fs)")
  case None
  then show ?thesis using both_edits_swap_Some [OF assms(2,1), of cur]
    by (cases "weave_edits bt cur None None (both_edits fs es)") simp_all
next
  case (Some t)
  show ?thesis by (simp only: both_edits_swap_Some [OF assms Some])
qed

lemma both_edits_one:
  assumes "apart es" "set fs \<union> set gs = set es"
  shows "both_edits fs gs = es"
proof (rule apart_unique [OF _ assms(1)])
  show "apart (both_edits fs gs)" using apart_keys [OF assms(1)] assms(2) by (intro both_edits_apart) simp
qed (use assms(2) in simp)

section \<open>The matcher as an interface\<close>

text \<open>
  The diff, the merge and the reconciler call the matcher and rely on its contract only: the pairs
  rise, a text matched with itself is matched in full, and no common subsequence is longer.
\<close>

locale matcher =
  fixes pairs :: "str list \<Rightarrow> str list \<Rightarrow> (nat \<times> nat) list"
  assumes rising: "matching a b 0 0 (pairs a b)"
begin

lemma diff_sides:
  "olds (diff_loop a b 0 0 (pairs a b @ [(length a, length b)])) = a \<and>
   news (diff_loop a b 0 0 (pairs a b @ [(length a, length b)])) = b \<and>
   length (kept (diff_loop a b 0 0 (pairs a b @ [(length a, length b)]))) = length (pairs a b)"
  using diff_loop_sides [OF rising, of a b] by simp

lemma syncs_aligned:
  "aligned os a b 0 0 0 (sync_points (length os) (hash_from (pairs os a)) (hash_from (pairs os b)))"
  by (rule sync_points_aligned [OF rising rising])

lemma merge_diff3:
  "merge_loop os a b 0 0 0 (sync_points (length os) (hash_from (pairs os a)) (hash_from (pairs os b))) = (out, n) \<Longrightarrow>
   merges os a b out n"
  using merge_loop_merges [OF syncs_aligned] by simp

lemma merge_same_change:
  "merge_loop os a a 0 0 0 (sync_points (length os) (hash_from (pairs os a)) (hash_from (pairs os a))) = (a, 0)"
  using merge_loop_both [OF syncs_aligned] sync_points_same by fastforce

lemma merge_swap:
  "snd (merge_loop os b a 0 0 0 (sync_points (length os) (hash_from (pairs os b)) (hash_from (pairs os a)))) =
     snd (merge_loop os a b 0 0 0 (sync_points (length os) (hash_from (pairs os a)) (hash_from (pairs os b)))) \<and>
   (snd (merge_loop os a b 0 0 0 (sync_points (length os) (hash_from (pairs os a)) (hash_from (pairs os b)))) = 0 \<longrightarrow>
    fst (merge_loop os b a 0 0 0 (sync_points (length os) (hash_from (pairs os b)) (hash_from (pairs os a)))) =
      fst (merge_loop os a b 0 0 0 (sync_points (length os) (hash_from (pairs os a)) (hash_from (pairs os b)))))"
  unfolding sync_points_swap [of "length os" "hash_from (pairs os b)" "hash_from (pairs os a)"]
  by (rule merge_loop_swap [OF syncs_aligned])

lemma edits_in_order: "edits_ok bt 0 (edits_loop bt other 0 0 (pairs bt other @ [(length bt, length other)]))"
  using edits_loop_ok [OF rising] by simp

lemma edits_weave:
  "weave_edits bt 0 None None (edits_loop bt other 0 0 (pairs bt other @ [(length bt, length other)])) = Some other"
  using weave_edits_loop [OF rising] by simp

end

locale exact_matcher = matcher +
  assumes identity: "pairs a a = map (\<lambda>k. (k, k)) [0..<length a]"
begin

lemma hash_identity: "hash_from (pairs a a) k = Some v \<longleftrightarrow> k < length a \<and> v = k"
  using hash_from_Some [OF rising [of a a]] identity [of a] by auto

lemma merge_takes_theirs:
  "merge_loop os os b 0 0 0 (sync_points (length os) (hash_from (pairs os os)) (hash_from (pairs os b))) = (b, 0)"
  using merge_loop_theirs [OF syncs_aligned [of os os b]] by (force simp: sync_points_member hash_identity)

lemma merge_takes_ours:
  "merge_loop os a os 0 0 0 (sync_points (length os) (hash_from (pairs os a)) (hash_from (pairs os os))) = (a, 0)"
  using merge_loop_ours [OF syncs_aligned [of os a os]] by (force simp: sync_points_member hash_identity)

lemma edits_loop_same: "edits_loop a a i i (map (\<lambda>k. (k, k)) [i..<length a] @ [(length a, length a)]) = []"
proof (induction "length a - i" arbitrary: i)
  case 0
  then show ?case by (cases "i = length a") (simp_all add: Let_def slice_def)
next
  case (Suc n)
  then show ?case using Suc.hyps(1) [of "Suc i"] by (simp add: upt_conv_Cons Let_def)
qed

lemma no_edits: "edits_loop a a 0 0 (pairs a a @ [(length a, length a)]) = []"
  using edits_loop_same [of a 0] by (simp add: identity)

end

locale optimal_matcher = matcher +
  assumes longest: "subseq c a \<Longrightarrow> subseq c b \<Longrightarrow> length c \<le> length (pairs a b)"
begin

lemma diff_keeps_most:
  "subseq c a \<Longrightarrow> subseq c b \<Longrightarrow>
   length c \<le> length (kept (diff_loop a b 0 0 (pairs a b @ [(length a, length b)])))"
  using longest diff_sides by simp

end

lemma matching_length:
  "matching a b i j ps \<Longrightarrow> i \<le> length a \<Longrightarrow> j \<le> length b \<Longrightarrow>
   length ps \<le> length a - i \<and> length ps \<le> length b - j"
proof (induction ps arbitrary: i j)
  case (Cons r ps)
  obtain p q where r: "r = (p, q)" by (cases r)
  then show ?case using Cons.IH [of "p + 1" "q + 1"] Cons.prems by auto
qed simp

lemma matching_full:
  "matching a b i i ps \<Longrightarrow> length b = length a \<Longrightarrow> length a - i \<le> length ps \<Longrightarrow>
   ps = map (\<lambda>k. (k, k)) [i..<length a]"
proof (induction ps arbitrary: i)
  case (Cons r ps)
  obtain p q where r: "r = (p, q)" by (cases r)
  have m: "i \<le> p" "p < length a" "i \<le> q" "q < length a" "matching a b (p + 1) (q + 1) ps"
    using Cons.prems r by auto
  have "length ps \<le> length a - (p + 1) \<and> length ps \<le> length b - (q + 1)"
    using matching_length [OF m(5)] m Cons.prems(2) by simp
  then have "p = i" "q = i" using m Cons.prems(2,3) by auto
  then show ?case using Cons.IH [of "i + 1"] m Cons.prems r by (simp add: upt_conv_Cons)
qed simp

text \<open>A longest matching of a text with itself is the identity.\<close>

sublocale optimal_matcher \<subseteq> exact_matcher
proof
  fix a
  show "pairs a a = map (\<lambda>k. (k, k)) [0..<length a]"
    by (rule matching_full [OF rising]) (use longest [of a a a] in simp_all)
qed

interpretation lcs: optimal_matcher lcs_pairs
proof
  show "matching a b 0 0 (lcs_pairs a b)" for a b :: "str list" by (rule lcs_pairs_matching)
  show "length c \<le> length (lcs_pairs a b)" if "subseq c a" "subseq c b" for a b c :: "str list"
    using lcs_len_bound [OF that] by (simp add: length_lcs_pairs)
qed

lemma token_edits_facts:
  "edits_ok bt 0 (token_edits bt other)" "weave_edits bt 0 None None (token_edits bt other) = Some other"
  "token_edits bt bt = []"
  using lcs.edits_in_order lcs.edits_weave lcs.no_edits by (simp_all add: token_edits_def)

lemma reconcile_both:
  "reconcile_conflict alnum space base ours theirs =
     map_option concat (weave_edits (tokenize alnum space base) 0 None None
       (both_edits (token_edits (tokenize alnum space base) (tokenize alnum space ours))
                   (token_edits (tokenize alnum space base) (tokenize alnum space theirs))))"
  by (simp add: reconcile_conflict_def both_edits_def Let_def)

section \<open>Properties\<close>

text \<open>C13: \<open>line_diff\<close> describes both texts: its unchanged and deleted lines are the first text, its
  unchanged and inserted lines the second, and no common subsequence of the lines is longer than the
  unchanged part, which is itself one.\<close>

theorem line_diff_minimal:
  "join_with newline (olds (line_diff a b)) = a \<and> join_with newline (news (line_diff a b)) = b \<and>
   subseq (kept (line_diff a b)) (split_lines a) \<and> subseq (kept (line_diff a b)) (split_lines b) \<and>
   (\<forall>c. subseq c (split_lines a) \<longrightarrow> subseq c (split_lines b) \<longrightarrow> length c \<le> length (kept (line_diff a b)))"
proof -
  have sides: "olds (line_diff a b) = split_lines a" "news (line_diff a b) = split_lines b"
    using lcs.diff_sides by (simp_all add: line_diff_def Let_def)
  show ?thesis
    using kept_subseq [of "line_diff a b"] lcs.diff_keeps_most
    by (simp add: sides) (simp add: split_lines_def line_diff_def Let_def)
qed

lemma line_diff_minimal_witness:
  "length [lit ''a''] \<le> length (kept (line_diff (lit ''a'' @ newline # lit ''b'') (lit ''x'' @ newline # lit ''a'')))"
proof -
  have "subseq [lit ''a''] (split_lines (lit ''a'' @ newline # lit ''b''))"
    "subseq [lit ''a''] (split_lines (lit ''x'' @ newline # lit ''a''))"
    by code_simp+
  then show ?thesis
    using line_diff_minimal [of "lit ''a'' @ newline # lit ''b''" "lit ''x'' @ newline # lit ''a''"] by blast
qed

text \<open>\<open>word_diff\<close> describes both texts, token by token: unchanged and deleted text together is the
  first, unchanged and inserted text the second, and no two neighbouring entries have the same kind,
  whatever characters count as words or spaces.\<close>

theorem word_diff_correct:
  "concat (olds (word_diff alnum space a b)) = a \<and> concat (news (word_diff alnum space a b)) = b \<and>
   coalesced (word_diff alnum space a b)"
  using lcs.diff_sides [of "tokenize alnum space a" "tokenize alnum space b"]
  by (simp add: word_diff_def Let_def coalesce_def coalesce_loop_sides coalesce_loop_coalesced coalesced_small)

text \<open>The merge keeps a change made on one side only or alike on both: with one side unchanged it
  returns the other, with equal sides that side, without conflicts; and exchanging the two sides
  changes neither the number of conflicts nor, when there are none, the text.\<close>

theorem merge_laws:
  "three_way_merge base base theirs = \<lparr>mr_text = theirs, mr_conflicts = 0\<rparr> \<and>
   three_way_merge base ours base = \<lparr>mr_text = ours, mr_conflicts = 0\<rparr> \<and>
   three_way_merge base ours ours = \<lparr>mr_text = ours, mr_conflicts = 0\<rparr> \<and>
   mr_conflicts (three_way_merge base theirs ours) = mr_conflicts (three_way_merge base ours theirs) \<and>
   (mr_conflicts (three_way_merge base ours theirs) = 0 \<longrightarrow>
    three_way_merge base theirs ours = three_way_merge base ours theirs)"
  using lcs.merge_swap [of "split_lines base" "split_lines theirs" "split_lines ours"]
    lcs.merge_takes_theirs [of "split_lines base" "split_lines theirs"]
    lcs.merge_takes_ours [of "split_lines base" "split_lines ours"]
    lcs.merge_same_change [of "split_lines base" "split_lines ours"]
  by (simp add: three_way_merge_def Let_def case_prod_beta) (simp add: split_lines_def)

lemma merge_laws_witness:
  "three_way_merge (lit ''a'' @ newline # lit ''b'' @ newline # lit ''c'') (lit ''a'' @ newline # lit ''b'' @ newline # lit ''d'')
     (lit ''x'' @ newline # lit ''b'' @ newline # lit ''c'') =
   three_way_merge (lit ''a'' @ newline # lit ''b'' @ newline # lit ''c'') (lit ''x'' @ newline # lit ''b'' @ newline # lit ''c'')
     (lit ''a'' @ newline # lit ''b'' @ newline # lit ''d'')"
proof -
  have "mr_conflicts (three_way_merge (lit ''a'' @ newline # lit ''b'' @ newline # lit ''c'')
      (lit ''x'' @ newline # lit ''b'' @ newline # lit ''c'') (lit ''a'' @ newline # lit ''b'' @ newline # lit ''d'')) = 0"
    by code_simp
  then show ?thesis using merge_laws by blast
qed

text \<open>C14: Every result of the merge is a diff3 merge: the three texts are read in step, unchanged lines
  are copied, a region changed on one side or alike on both becomes the changed text, and every other
  region is written out between the markers and counted as a conflict.\<close>

theorem merge_is_diff3:
  "\<exists>out. merges (split_lines base) (split_lines ours) (split_lines theirs) out
            (mr_conflicts (three_way_merge base ours theirs)) \<and>
         mr_text (three_way_merge base ours theirs) = join_with newline out"
proof -
  obtain out n where m: "merge_loop (split_lines base) (split_lines ours) (split_lines theirs) 0 0 0
      (sync_points (length (split_lines base)) (hash_from (lcs_pairs (split_lines base) (split_lines ours)))
        (hash_from (lcs_pairs (split_lines base) (split_lines theirs)))) = (out, n)"
    by fastforce
  then show ?thesis using lcs.merge_diff3 [OF m] by (auto simp: three_way_merge_def Let_def)
qed

text \<open>The token reconciler returns the other side when one side left the text as it was, the
  common text when both sides agree, and does not depend on which side is called ours.\<close>

theorem reconcile_laws:
  "reconcile_conflict alnum space base base theirs = Some theirs \<and>
   reconcile_conflict alnum space base ours base = Some ours \<and>
   reconcile_conflict alnum space base ours ours = Some ours \<and>
   reconcile_conflict alnum space base ours theirs = reconcile_conflict alnum space base theirs ours"
proof -
  have one: "both_edits fs gs = token_edits bt ot" if "set fs \<union> set gs = set (token_edits bt ot)" for bt ot fs gs
    by (rule both_edits_one [OF edits_ok_apart that]) (rule token_edits_facts(1))
  have "reconcile_conflict alnum space base ours theirs = reconcile_conflict alnum space base theirs ours"
    unfolding reconcile_both by (subst both_edits_swap [OF token_edits_facts(1,1)]) (rule refl)
  then show ?thesis by (simp add: reconcile_both one token_edits_facts)
qed

end
