(* ===== verification/HistoryIO.thy ===== *)
theory HistoryIO
  imports History MergeOps
begin

text \<open>
  The two ways in which \<open>zmax-core/src/history.rs\<close> reads text: the argument of \<open>:earlier\<close> and \<open>:later\<close>
  (a number of steps or a duration such as \<open>1m 20 seconds\<close>), and the snapshot of a history that is kept
  in an undo file.  The two regular expressions are run by the crate \<open>regex\<close>: whether the first one
  matches (\<open>valid\<close>) and the captures of the second one (\<open>captures\<close>) are parameters, \<open>duration_regex\<close> is
  what the patterns say.  A duration counts nanoseconds.
\<close>

section \<open>Durations\<close>

definition time_units :: "(str list \<times> str \<times> nat) list" where
  "time_units =
     [([lit ''seconds'', lit ''second'', lit ''sec'', lit ''s''], lit ''seconds'', 1),
      ([lit ''minutes'', lit ''minute'', lit ''min'', lit ''m''], lit ''minutes'', 60),
      ([lit ''hours'', lit ''hour'', lit ''hr'', lit ''h''], lit ''hours'', 60 * 60),
      ([lit ''days'', lit ''day'', lit ''d''], lit ''days'', 24 * 60 * 60)]"

definition find_unit :: "str \<Rightarrow> nat option" where
  "find_unit u = position (\<lambda>(forms, _, _). list_ex (\<lambda>f. f = u) forms) time_units"

definition unit_mul :: "nat \<Rightarrow> nat" where
  "unit_mul i = snd (snd (time_units ! i))"

fun duration_loop :: "bool list \<Rightarrow> nat \<Rightarrow> (str \<times> str) list \<Rightarrow> str + nat" where
  "duration_loop specified seconds [] = Inr seconds"
| "duration_loop specified seconds ((n, unit_str) # caps) =
     (case parse_usize n of
        None \<Rightarrow> Inl (lit ''integer too large: '' @ n)
      | Some v \<Rightarrow>
          (case find_unit unit_str of
             None \<Rightarrow> Inl (lit ''incorrect time unit: '' @ unit_str)
           | Some i \<Rightarrow>
               if specified ! i then Inl (fst (snd (time_units ! i)) @ lit '' specified more than once'')
               else
                 case Option.bind (checked_u64 (v * unit_mul i)) (\<lambda>s. checked_u64 (seconds + s)) of
                   None \<Rightarrow> Inl (lit ''duration too large'')
                 | Some ns \<Rightarrow> duration_loop (specified[i := True]) ns caps))"

definition from_secs :: "nat \<Rightarrow> nat" where
  "from_secs s = s * 10 ^ 9"

definition parse_human_duration :: "(str \<Rightarrow> bool) \<Rightarrow> (str \<Rightarrow> (str \<times> str) list) \<Rightarrow> str \<Rightarrow> str + nat" where
  "parse_human_duration valid captures s =
     (if \<not> valid s then Inl (lit ''duration should be composed of positive integers followed by time units'')
      else
        case duration_loop (replicate (length time_units) False) 0 (captures s) of
          Inl e \<Rightarrow> Inl e
        | Inr seconds \<Rightarrow> Inr (from_secs seconds))"

definition undo_kind_from_str ::
    "(uchar \<Rightarrow> bool) \<Rightarrow> (str \<Rightarrow> bool) \<Rightarrow> (str \<Rightarrow> (str \<times> str) list) \<Rightarrow> str \<Rightarrow> str + undo_kind" where
  "undo_kind_from_str space valid captures s =
     (let s = trim space s
      in if s = [] then Inr (Steps 1)
         else case parse_usize s of
                Some n \<Rightarrow> Inr (Steps n)
              | None \<Rightarrow> (case parse_human_duration valid captures s of Inl e \<Rightarrow> Inl e | Inr d \<Rightarrow> Inr (TimePeriod d)))"

section \<open>Snapshots of a history\<close>

record revision_snapshot =
  snap_parent :: nat
  snap_last_child :: "nat option"
  snap_transaction :: transaction_snapshot
  snap_inversion :: transaction_snapshot

record history_snapshot =
  snap_revisions :: "revision_snapshot list"
  snap_current :: nat

definition history_to_snapshot :: "history \<Rightarrow> history_snapshot" where
  "history_to_snapshot h =
     \<lparr>snap_revisions = map (\<lambda>r. \<lparr>snap_parent = parent r, snap_last_child = last_child r,
         snap_transaction = tx_to_snapshot (rv_transaction r),
         snap_inversion = tx_to_snapshot (rv_inversion r)\<rparr>) (revisions h),
      snap_current = current h\<rparr>"

text \<open>A transaction that cannot be restored panics; \<open>now\<close> is read once per revision in the code.\<close>

definition revision_from_snapshot :: "nat \<Rightarrow> revision_snapshot \<Rightarrow> revision option" where
  "revision_from_snapshot now r =
     Option.bind (tx_from_snapshot (snap_transaction r)) (\<lambda>t.
       Option.bind (tx_from_snapshot (snap_inversion r)) (\<lambda>inv.
         Some \<lparr>parent = snap_parent r, last_child = Option.bind (snap_last_child r) non_zero,
               rv_transaction = t, rv_inversion = inv, timestamp = now\<rparr>))"

definition history_from_snapshot :: "nat \<Rightarrow> history_snapshot \<Rightarrow> history option" where
  "history_from_snapshot now s =
     Option.bind (those (map (revision_from_snapshot now) (snap_revisions s))) (\<lambda>revs.
       Some \<lparr>revisions = revs, current = snap_current s, max_revisions = None\<rparr>)"

section \<open>What the regular expressions match\<close>

text \<open>
  A duration is written as items: digits, blanks, letters, blanks.  Neither letters nor blanks are
  digits, and letters are not blanks.
\<close>

type_synonym duration_item = "str \<times> str \<times> str \<times> str"

definition lower :: "uchar \<Rightarrow> bool" where
  "lower c \<longleftrightarrow> 97 \<le> c \<and> c \<le> 122"

fun item_ok :: "(uchar \<Rightarrow> bool) \<Rightarrow> (uchar \<Rightarrow> bool) \<Rightarrow> duration_item \<Rightarrow> bool" where
  "item_ok digit space (n, s, u, t) \<longleftrightarrow>
     n \<noteq> [] \<and> list_all digit n \<and> list_all space s \<and> u \<noteq> [] \<and> list_all lower u \<and> list_all space t"

fun item_text :: "duration_item \<Rightarrow> str" where
  "item_text (n, s, u, t) = n @ s @ u @ t"

fun item_captures :: "duration_item \<Rightarrow> str \<times> str" where
  "item_captures (n, s, u, t) = (n, u)"

definition duration_text :: "duration_item list \<Rightarrow> str" where
  "duration_text items = concat (map item_text items)"

definition duration_regex ::
    "(uchar \<Rightarrow> bool) \<Rightarrow> (uchar \<Rightarrow> bool) \<Rightarrow> (str \<Rightarrow> bool) \<Rightarrow> (str \<Rightarrow> (str \<times> str) list) \<Rightarrow> bool" where
  "duration_regex digit space valid captures \<longleftrightarrow>
     (\<forall>s. valid s \<longleftrightarrow> (\<exists>items. items \<noteq> [] \<and> list_all (item_ok digit space) items \<and> s = duration_text items)) \<and>
     (\<forall>items. list_all (item_ok digit space) items \<longrightarrow>
        captures (duration_text items) = map item_captures items)"

section \<open>A scanner that behaves like the regular expressions\<close>

definition read_item :: "(uchar \<Rightarrow> bool) \<Rightarrow> (uchar \<Rightarrow> bool) \<Rightarrow> str \<Rightarrow> (duration_item \<times> str) option" where
  "read_item digit space s =
     (let n = takeWhile digit s; s1 = dropWhile digit s;
          b = takeWhile space s1; s2 = dropWhile space s1;
          u = takeWhile lower s2; s3 = dropWhile lower s2;
          c = takeWhile space s3; s4 = dropWhile space s3
      in if n = [] \<or> u = [] then None else Some ((n, b, u, c), s4))"

lemma read_item_ok:
  "read_item digit space s = Some (i, r) \<Longrightarrow> s = item_text i @ r \<and> item_ok digit space i \<and> length r < length s"
proof (cases i)
  case (fields n b u c)
  assume "read_item digit space s = Some (i, r)"
  then have f: "n = takeWhile digit s" "b = takeWhile space (dropWhile digit s)"
    "u = takeWhile lower (dropWhile space (dropWhile digit s))"
    "c = takeWhile space (dropWhile lower (dropWhile space (dropWhile digit s)))"
    "r = dropWhile space (dropWhile lower (dropWhile space (dropWhile digit s)))" "n \<noteq> []" "u \<noteq> []"
    unfolding read_item_def Let_def fields by (simp_all split: if_splits)
  have s: "s = item_text i @ r" unfolding fields item_text.simps f by simp
  have "item_ok digit space i"
    using f(6,7) unfolding fields f by (auto simp: list_all_iff dest: set_takeWhileD)
  moreover have "length r < length s" using s f(6) fields by simp
  ultimately show ?thesis using s by blast
qed

function read_items :: "(uchar \<Rightarrow> bool) \<Rightarrow> (uchar \<Rightarrow> bool) \<Rightarrow> str \<Rightarrow> duration_item list option" where
  "read_items digit space s =
     (if s = [] then Some []
      else case read_item digit space s of
             None \<Rightarrow> None
           | Some (i, r) \<Rightarrow> map_option ((#) i) (read_items digit space r))"
  by auto

termination
  by (relation "measure (\<lambda>(_, _, s). length s)") (auto dest: read_item_ok)

declare read_items.simps [simp del]

definition scan_valid :: "(uchar \<Rightarrow> bool) \<Rightarrow> (uchar \<Rightarrow> bool) \<Rightarrow> str \<Rightarrow> bool" where
  "scan_valid digit space s = (case read_items digit space s of Some (_ # _) \<Rightarrow> True | _ \<Rightarrow> False)"

definition scan_captures :: "(uchar \<Rightarrow> bool) \<Rightarrow> (uchar \<Rightarrow> bool) \<Rightarrow> str \<Rightarrow> (str \<times> str) list" where
  "scan_captures digit space s =
     (case read_items digit space s of Some items \<Rightarrow> map item_captures items | None \<Rightarrow> [])"

lemma span_append:
  "list_all p xs \<Longrightarrow> ys = [] \<or> \<not> p (hd ys) \<Longrightarrow> takeWhile p (xs @ ys) = xs \<and> dropWhile p (xs @ ys) = ys"
  by (induction xs) (cases ys; simp)+

definition apart :: "(uchar \<Rightarrow> bool) \<Rightarrow> (uchar \<Rightarrow> bool) \<Rightarrow> bool" where
  "apart digit space \<longleftrightarrow> (\<forall>c. (digit c \<longrightarrow> \<not> space c \<and> \<not> lower c) \<and> (space c \<longrightarrow> \<not> lower c))"

lemma hd_append_all: "list_all p xs \<Longrightarrow> xs \<noteq> [] \<Longrightarrow> p (hd (xs @ ys))"
  by (cases xs) auto

lemma read_item_text:
  assumes "apart digit space" "item_ok digit space i" "r = [] \<or> digit (hd r)"
  shows "read_item digit space (item_text i @ r) = Some (i, r)"
proof (cases i)
  case (fields n b u c)
  have parts: "list_all digit n" "n \<noteq> []" "list_all space b" "list_all lower u" "u \<noteq> []" "list_all space c"
    using assms(2) unfolding fields by auto
  have ap: "\<And>x. digit x \<Longrightarrow> \<not> space x" "\<And>x. digit x \<Longrightarrow> \<not> lower x" "\<And>x. space x \<Longrightarrow> \<not> lower x"
    using assms(1) by (auto simp: apart_def)
  have r: "r = [] \<or> \<not> space (hd r)" "r = [] \<or> \<not> lower (hd r)" using assms(3) ap by auto
  have u: "lower (hd (u @ c @ r))" using parts(4,5) by (rule hd_append_all)
  have 1: "takeWhile space (c @ r) = c \<and> dropWhile space (c @ r) = r"
    using parts(6) r(1) by (rule span_append)
  have "c @ r = [] \<or> \<not> lower (hd (c @ r))" using r(2) parts(6) ap(3) by (cases c) auto
  with parts(4) have 2: "takeWhile lower (u @ c @ r) = u \<and> dropWhile lower (u @ c @ r) = c @ r"
    by (rule span_append)
  have 3: "takeWhile space (b @ u @ c @ r) = b \<and> dropWhile space (b @ u @ c @ r) = u @ c @ r"
    using parts(3) u ap(3) by (intro span_append) auto
  have "\<not> digit (hd (b @ u @ c @ r))" using u ap parts(3) by (cases b) auto
  then have 4: "takeWhile digit (n @ b @ u @ c @ r) = n \<and> dropWhile digit (n @ b @ u @ c @ r) = b @ u @ c @ r"
    using parts(1) by (intro span_append) auto
  show ?thesis
    unfolding fields item_text.simps append_assoc read_item_def Let_def
    using 1 2 3 4 parts(2,5) by simp
qed

lemma duration_text_hd:
  "list_all (item_ok digit space) items \<Longrightarrow> duration_text items = [] \<or> digit (hd (duration_text items))"
proof (cases items)
  case (Cons i rest)
  assume "list_all (item_ok digit space) items"
  with Cons have "item_ok digit space i" by simp
  then have "digit (hd (item_text i @ ys))" for ys
    by (cases i) (simp, metis hd_append2 hd_append_all)
  then show ?thesis using Cons by (simp add: duration_text_def)
qed (simp add: duration_text_def)

lemma read_items_text:
  "apart digit space \<Longrightarrow> list_all (item_ok digit space) items \<Longrightarrow>
   read_items digit space (duration_text items) = Some items"
proof (induction items)
  case (Cons i items)
  have "duration_text (i # items) = item_text i @ duration_text items" by (simp add: duration_text_def)
  moreover have "item_text i \<noteq> []" using Cons.prems(2) by (cases i) auto
  moreover have "read_item digit space (item_text i @ duration_text items) = Some (i, duration_text items)"
    using Cons.prems by (intro read_item_text duration_text_hd) auto
  ultimately show ?case using Cons by (subst read_items.simps) simp
qed (simp add: duration_text_def read_items.simps)

lemma read_items_ok:
  "read_items digit space s = Some items \<Longrightarrow> list_all (item_ok digit space) items \<and> s = duration_text items"
proof (induction digit space s arbitrary: items rule: read_items.induct)
  case (1 digit space s)
  show ?case
  proof (cases "s = []")
    case True
    then show ?thesis using "1.prems" by (simp add: read_items.simps duration_text_def)
  next
    case False
    obtain i r rest where item: "read_item digit space s = Some (i, r)" and more: "read_items digit space r = Some rest"
      and items: "items = i # rest"
      using "1.prems" False by (subst (asm) read_items.simps) (auto split: option.splits)
    show ?thesis
      using "1.IH" [OF False item refl more] read_item_ok [OF item] items by (simp add: duration_text_def)
  qed
qed

lemma scanner_is_regex:
  assumes "apart digit space"
  shows "duration_regex digit space (scan_valid digit space) (scan_captures digit space)"
  unfolding duration_regex_def
proof (intro conjI allI impI iffI)
  fix s
  assume "scan_valid digit space s"
  then obtain i items where "read_items digit space s = Some (i # items)"
    by (auto simp: scan_valid_def split: option.splits list.splits)
  from read_items_ok [OF this]
  show "\<exists>items. items \<noteq> [] \<and> list_all (item_ok digit space) items \<and> s = duration_text items" by blast
next
  fix s
  assume "\<exists>items. items \<noteq> [] \<and> list_all (item_ok digit space) items \<and> s = duration_text items"
  then show "scan_valid digit space s"
    using read_items_text [OF assms] by (auto simp: scan_valid_def neq_Nil_conv)
qed (simp add: scan_captures_def read_items_text [OF assms])

section \<open>Accepted durations\<close>

fun caps_known :: "str \<times> str \<Rightarrow> bool" where
  "caps_known (n, u) \<longleftrightarrow> parse_usize n \<noteq> None \<and> find_unit u \<noteq> None"

fun caps_seconds :: "str \<times> str \<Rightarrow> nat" where
  "caps_seconds (n, u) = the (parse_usize n) * unit_mul (the (find_unit u))"

fun caps_unit :: "str \<times> str \<Rightarrow> nat" where
  "caps_unit (n, u) = the (find_unit u)"

lemma find_unit_length: "find_unit u = Some i \<Longrightarrow> i < length time_units"
  by (auto simp: find_unit_def dest: position_Some)

lemma unit_mul_pos: "i < length time_units \<Longrightarrow> 0 < unit_mul i"
  by (auto simp: unit_mul_def time_units_def less_Suc_eq)

lemma duration_loop_iff:
  "length specified = length time_units \<Longrightarrow> seconds < 2 ^ 64 \<Longrightarrow>
   duration_loop specified seconds caps = Inr d \<longleftrightarrow>
     list_all caps_known caps \<and> distinct (map caps_unit caps) \<and>
     list_all (\<lambda>c. \<not> specified ! caps_unit c) caps \<and>
     d = seconds + sum_list (map caps_seconds caps) \<and> d < 2 ^ 64"
proof (induction specified seconds caps rule: duration_loop.induct)
  case (2 specified seconds n u caps)
  show ?case
  proof (cases "parse_usize n = None \<or> find_unit u = None")
    case True
    then show ?thesis by (auto split: option.splits)
  next
    case False
    then obtain v i where vi: "parse_usize n = Some v" "find_unit u = Some i" by auto
    show ?thesis
    proof (cases "specified ! i \<or> 2 ^ 64 \<le> seconds + v * unit_mul i")
      case True
      then show ?thesis using vi by (auto simp: checked_u64_def)
    next
      case False
      then have lt: "seconds + v * unit_mul i < 2 ^ 64" "v * unit_mul i < 2 ^ 64" and no: "\<not> specified ! i" by auto
      have bind: "Option.bind (checked_u64 (v * unit_mul i)) (\<lambda>s. checked_u64 (seconds + s)) = Some (seconds + v * unit_mul i)"
        using lt by (simp add: checked_u64_def)
      have i: "i < length specified" using find_unit_length [OF vi(2)] "2.prems"(1) by simp
      have fresh: "list_all (\<lambda>c. \<not> specified[i := True] ! caps_unit c) caps \<longleftrightarrow>
          i \<notin> set (map caps_unit caps) \<and> list_all (\<lambda>c. \<not> specified ! caps_unit c) caps"
        using i by (auto simp: list_all_iff nth_list_update)
      have "duration_loop specified seconds ((n, u) # caps) =
          duration_loop (specified[i := True]) (seconds + v * unit_mul i) caps"
        using vi no bind by simp
      moreover have "length (specified[i := True]) = length time_units" using "2.prems"(1) by simp
      ultimately show ?thesis
        using "2.IH" [OF vi(1,2) no bind _ lt(1)] fresh vi no by auto
    qed
  qed
qed auto

section \<open>Snapshots restore the history\<close>

definition forget_columns :: "transaction \<Rightarrow> transaction" where
  "forget_columns t =
     t\<lparr>tx_selection := map_option (\<lambda>s. s\<lparr>sel_ranges := map (\<lambda>r. r\<lparr>old_visual_position := None\<rparr>) (sel_ranges s)\<rparr>)
       (tx_selection t)\<rparr>"

definition selections_ok :: "revision \<Rightarrow> bool" where
  "selections_ok rv \<longleftrightarrow>
     (\<forall>s. tx_selection (rv_transaction rv) = Some s \<longrightarrow> sel_ok s) \<and>
     (\<forall>s. tx_selection (rv_inversion rv) = Some s \<longrightarrow> sel_ok s)"

definition restored :: "nat \<Rightarrow> revision \<Rightarrow> revision" where
  "restored now rv = rv\<lparr>rv_transaction := forget_columns (rv_transaction rv),
     rv_inversion := forget_columns (rv_inversion rv), timestamp := now\<rparr>"

lemma forget_columns_moves [simp]: "tx_moves (forget_columns t) xs ys \<longleftrightarrow> tx_moves t xs ys"
  by (simp add: forget_columns_def tx_moves_def tx_fits_def tx_run_def)

lemma restored_fields [simp]:
  "parent (restored now rv) = parent rv" "last_child (restored now rv) = last_child rv"
  "rv_transaction (restored now rv) = forget_columns (rv_transaction rv)"
  "rv_inversion (restored now rv) = forget_columns (rv_inversion rv)"
  by (simp_all add: restored_def)

lemma revision_snapshot:
  assumes "selections_ok rv" "last_child rv \<noteq> Some 0"
  shows "revision_from_snapshot now \<lparr>snap_parent = parent rv, snap_last_child = last_child rv,
     snap_transaction = tx_to_snapshot (rv_transaction rv),
     snap_inversion = tx_to_snapshot (rv_inversion rv)\<rparr> = Some (restored now rv)"
proof -
  have "tx_from_snapshot (tx_to_snapshot (rv_transaction rv)) = Some (forget_columns (rv_transaction rv))"
    "tx_from_snapshot (tx_to_snapshot (rv_inversion rv)) = Some (forget_columns (rv_inversion rv))"
    using assms(1) by (simp_all add: selections_ok_def snapshot_roundtrip forget_columns_def)
  moreover have "Option.bind (last_child rv) non_zero = last_child rv"
    using assms(2) by (cases "last_child rv") (auto simp: non_zero_def)
  ultimately show ?thesis by (simp add: revision_from_snapshot_def restored_def)
qed

lemma map_restored_ok:
  assumes "hist_ok h D"
  shows "hist_ok \<lparr>revisions = map (restored now) (revisions h), current = current h, max_revisions = m\<rparr> D"
  using assms by (simp add: hist_ok_def tree_ok_def children_ok_def texts_ok_def)

section \<open>Properties\<close>

text \<open>
  C16: The argument of \<open>:earlier\<close> and \<open>:later\<close>.  A duration is accepted exactly when it is a sequence of
  numbers with known units, no unit used twice, whose seconds together fit 64 bits; then it is their
  sum.  Everything else is an error.
\<close>

theorem durations_add_up:
  assumes "duration_regex digit space valid captures"
  shows "parse_human_duration valid captures s = Inr d \<longleftrightarrow>
    (\<exists>items. items \<noteq> [] \<and> list_all (item_ok digit space) items \<and> s = duration_text items \<and>
       (let caps = map item_captures items; seconds = sum_list (map caps_seconds caps)
        in list_all caps_known caps \<and> distinct (map caps_unit caps) \<and> seconds < 2 ^ 64 \<and> d = from_secs seconds))"
    (is "_ \<longleftrightarrow> ?R")
proof (cases "valid s")
  case False
  then have "\<nexists>items. items \<noteq> [] \<and> list_all (item_ok digit space) items \<and> s = duration_text items"
    using assms unfolding duration_regex_def by blast
  then show ?thesis using False by (auto simp: parse_human_duration_def)
next
  case True
  obtain items where items: "items \<noteq> []" "list_all (item_ok digit space) items" "s = duration_text items"
    using True assms unfolding duration_regex_def by blast
  have caps: "captures (duration_text its) = map item_captures its" if "list_all (item_ok digit space) its" for its
    using assms that unfolding duration_regex_def by blast
  let ?ok = "\<lambda>caps. list_all caps_known caps \<and> distinct (map caps_unit caps) \<and>
    sum_list (map caps_seconds caps) < 2 ^ 64 \<and> d = from_secs (sum_list (map caps_seconds caps))"
  have no: "list_all (\<lambda>c. \<not> replicate (length time_units) False ! caps_unit c) caps" if "list_all caps_known caps" for caps
    using that by (auto simp: list_all_iff find_unit_length)
  have "parse_human_duration valid captures s = Inr d \<longleftrightarrow>
      (\<exists>t. duration_loop (replicate (length time_units) False) 0 (captures s) = Inr t \<and> d = from_secs t)"
    using True by (auto simp: parse_human_duration_def split: sum.splits)
  also have "\<dots> \<longleftrightarrow> ?ok (captures s)"
    using no [of "captures s"] by (auto simp: duration_loop_iff)
  also have "\<dots> \<longleftrightarrow> ?R"
    using items caps unfolding Let_def by metis
  finally show ?thesis .
qed

lemma apart_ascii: "apart is_digit (\<lambda>c. c = 32)"
  by (auto simp: apart_def is_digit_def lower_def)

theorem durations_add_up_witness:
  "parse_human_duration (scan_valid is_digit (\<lambda>c. c = 32)) (scan_captures is_digit (\<lambda>c. c = 32)) (lit ''1m 20 seconds'') =
     Inr (80 * 10 ^ 9)"
proof -
  have "\<exists>items. items \<noteq> [] \<and> list_all (item_ok is_digit (\<lambda>c. c = 32)) items \<and>
      lit ''1m 20 seconds'' = duration_text items \<and>
      (let caps = map item_captures items; seconds = sum_list (map caps_seconds caps)
       in list_all caps_known caps \<and> distinct (map caps_unit caps) \<and> seconds < 2 ^ 64 \<and>
          80 * 10 ^ 9 = from_secs seconds)"
    by (rule exI [of _ "[(lit ''1'', [], lit ''m'', lit '' ''), (lit ''20'', lit '' '', lit ''seconds'', [])]"])
      (simp add: duration_text_def lit_def lower_def is_digit_def find_unit_def time_units_def unit_mul_def
        parse_usize_def from_secs_def)
  then show ?thesis
    by (rule iffD2 [OF durations_add_up [OF scanner_is_regex [OF apart_ascii]]])
qed

text \<open>
  A number in digits that are not ASCII passes both regular expressions, which take the decimal digits
  of any script, but does not parse; the error then blames its size.
\<close>

lemma other_digits_too_large:
  assumes "duration_regex digit space valid captures" "list_all digit n" "n \<noteq> []" "\<exists>c\<in>set n. \<not> is_digit c"
    "hd n \<noteq> 43"
  shows "parse_human_duration valid captures (n @ lit ''s'') = Inl (lit ''integer too large: '' @ n)"
proof -
  let ?i = "(n, [], lit ''s'', [])"
  have ok: "list_all (item_ok digit space) [?i]" and written: "duration_text [?i] = n @ lit ''s''"
    using assms(2,3) by (auto simp: duration_text_def lit_def lower_def)
  have "valid (n @ lit ''s'')"
    using assms(1) ok written unfolding duration_regex_def by (metis list.distinct(1))
  moreover have "captures (n @ lit ''s'') = [(n, lit ''s'')]"
    using assms(1) ok written unfolding duration_regex_def by fastforce
  moreover have "parse_usize n = None"
    using assms(3-5) by (cases n) (auto simp: parse_usize_def lit_def list_ex_iff Let_def)
  ultimately show ?thesis by (simp add: parse_human_duration_def)
qed

text \<open>
  C17: Undo files.  The snapshot of a history restores it: the tree, the current revision and every
  transaction, but for the remembered columns of the selections and for the times.  What is restored
  is again a history of the same texts, so undo, redo and the jumps lead to them as before.
\<close>

theorem saved_history_replays:
  assumes "hist_ok h D" "\<forall>rv\<in>set (revisions h). selections_ok rv"
  shows "\<exists>h'. history_from_snapshot now (history_to_snapshot h) = Some h' \<and> hist_ok h' D \<and>
    current h' = current h \<and> map parent (revisions h') = map parent (revisions h) \<and>
    map last_child (revisions h') = map last_child (revisions h) \<and>
    map rv_transaction (revisions h') = map (forget_columns \<circ> rv_transaction) (revisions h) \<and>
    map rv_inversion (revisions h') = map (forget_columns \<circ> rv_inversion) (revisions h)"
proof -
  let ?snap = "\<lambda>rv. \<lparr>snap_parent = parent rv, snap_last_child = last_child rv,
     snap_transaction = tx_to_snapshot (rv_transaction rv), snap_inversion = tx_to_snapshot (rv_inversion rv)\<rparr>"
  let ?h = "\<lparr>revisions = map (restored now) (revisions h), current = current h, max_revisions = None\<rparr>"
  have "last_child rv \<noteq> Some 0" if "rv \<in> set (revisions h)" for rv
    using assms(1) that by (auto simp: hist_ok_def children_ok_def in_set_conv_nth)
  then have "(revision_from_snapshot now \<circ> ?snap) rv = Some (restored now rv)" if "rv \<in> set (revisions h)" for rv
    using that assms(2) by (simp add: revision_snapshot)
  then have "those (map (revision_from_snapshot now) (map ?snap (revisions h))) = Some (map (restored now) (revisions h))"
    unfolding map_map by (rule those_map_Some)
  then have "history_from_snapshot now (history_to_snapshot h) = Some ?h"
    by (simp add: history_from_snapshot_def history_to_snapshot_def)
  then show ?thesis using map_restored_ok [OF assms(1), of now None] by (intro exI [of _ ?h]) simp
qed

theorem saved_history_replays_witness:
  "\<exists>h'. history_from_snapshot 99 (history_to_snapshot sample_history) = Some h' \<and> hist_ok h' sample_texts"
proof -
  have "sel_ok (sel_single 0 0)" by (simp add: sel_single_def sel_ok_def r_new_def)
  then have "\<forall>rv\<in>set (revisions sample_history). selections_ok rv"
    by (auto simp: sample_history_def sample_revision_def selections_ok_def typed_def no_edit_def tx_from_def
        with_selection_def)
  from saved_history_replays [OF sample_history_ok this] show ?thesis by blast
qed

end
