(* ===== verification/FoldTree.thy ===== *)
theory FoldTree
  imports Prelude "HOL-Library.Monad_Syntax"
begin

text \<open>
  The tree of nested folds: \<open>zmax-core/src/fold_tree.rs\<close>, a port of neovim's \<open>fold.c\<close>.  A line has a
  level, the tree of folds is derived from the levels, and a fold is open, closed or follows the option
  'foldlevel'.  Lines are counted from 1 at the top level and from the start of the enclosing fold
  below.  An \<open>i64\<close> is an \<open>int\<close>; an \<open>i32\<close> that can overflow is checked; an index out of range and a loop
  that does not end are \<open>None\<close>.
\<close>

section \<open>Data\<close>

datatype fold_flag = FOpen | FClosed | FLevel

datatype tri_state = TriTrue | TriFalse | TriNone

datatype vfold = VFold (vf_top: nat) (vf_len: nat) (vf_nested: "vfold list") (vf_flags: fold_flag) (vf_small: tri_state)

primrec set_top :: "nat \<Rightarrow> vfold \<Rightarrow> vfold" where
  "set_top n (VFold t l g fl s) = VFold n l g fl s"

primrec set_len :: "nat \<Rightarrow> vfold \<Rightarrow> vfold" where
  "set_len n (VFold t l g fl s) = VFold t n g fl s"

primrec set_nested :: "vfold list \<Rightarrow> vfold \<Rightarrow> vfold" where
  "set_nested n (VFold t l g fl s) = VFold t l n fl s"

primrec set_vf_flags :: "fold_flag \<Rightarrow> vfold \<Rightarrow> vfold" where
  "set_vf_flags n (VFold t l g fl s) = VFold t l g n s"

primrec set_small :: "tri_state \<Rightarrow> vfold \<Rightarrow> vfold" where
  "set_small n (VFold t l g fl s) = VFold t l g fl n"

definition vfold_default :: vfold where
  "vfold_default = VFold 0 0 [] FLevel TriNone"

definition MAX_LEVEL :: int where
  "MAX_LEVEL = 20"

definition undefined_level :: int where
  "undefined_level = - 1"

definition maxlnum :: int where
  "maxlnum = 0x7fffffff"

text \<open>\<open>n.max(0) as usize\<close> is the function \<open>nat\<close>; an \<open>i32\<close> result is checked; \<open>as i32\<close> wraps.\<close>

definition i32 :: "int \<Rightarrow> int option" where
  "i32 n = (if - (2 ^ 31) \<le> n \<and> n < 2 ^ 31 then Some n else None)"

definition usize_as_i32 :: "nat \<Rightarrow> int" where
  "usize_as_i32 n = (int n + 2 ^ 31) mod 2 ^ 32 - 2 ^ 31"

section \<open>The level of a line by its indent\<close>

definition undefined_or_edge :: "nat \<Rightarrow> nat \<Rightarrow> int" where
  "undefined_or_edge lnum last_lnum = (if lnum = 1 \<or> lnum = last_lnum then 0 else undefined_level)"

fun indent_columns_loop :: "nat \<Rightarrow> nat \<Rightarrow> str \<Rightarrow> nat" where
  "indent_columns_loop tw cols [] = cols"
| "indent_columns_loop tw cols (c # cs) =
     (if c = 32 then indent_columns_loop tw (cols + 1) cs
      else if c = 9 then indent_columns_loop tw (cols + (tw - cols mod tw)) cs
      else cols)"

definition indent_columns :: "str \<Rightarrow> nat \<Rightarrow> nat" where
  "indent_columns line tab_width = indent_columns_loop (max tab_width 1) 0 line"

definition foldlevel_indent :: "str \<Rightarrow> nat \<Rightarrow> nat \<Rightarrow> str \<Rightarrow> nat \<Rightarrow> nat \<Rightarrow> int \<Rightarrow> int" where
  "foldlevel_indent line lnum last_lnum foldignore shiftwidth tab_width foldnestmax =
     (let s = dropWhile (\<lambda>c. c = 32 \<or> c = 9) line;
          first = (case s of c # _ \<Rightarrow> if c \<noteq> 10 \<and> c \<noteq> 13 then Some c else None | [] \<Rightarrow> None);
          lvl = (case first of
                   None \<Rightarrow> undefined_or_edge lnum last_lnum
                 | Some c \<Rightarrow>
                     if c \<in> set foldignore then undefined_or_edge lnum last_lnum
                     else usize_as_i32 (indent_columns line tab_width div max shiftwidth 1))
      in min lvl (max foldnestmax 0))"

section \<open>Adjusting folds to an edit\<close>

text \<open>
  The loop over the folds is the recursion over the list; a \<open>break\<close> leaves the rest as it is.
\<close>

lemma size_nested [simp]: "size_list size (vf_nested f) < size f"
  by (cases f) simp

lemma size_nested_le: "size_list size (vf_nested f) \<le> size f + n"
  using size_nested [of f] by linarith

function fold_mark_adjust_recurse :: "vfold list \<Rightarrow> int \<Rightarrow> int \<Rightarrow> int \<Rightarrow> int \<Rightarrow> bool \<Rightarrow> vfold list" where
  "fold_mark_adjust_recurse [] line1 line2 amount amount_after insert_mode = []"
| "fold_mark_adjust_recurse (f # rest) line1 line2 amount amount_after insert_mode =
     (let top = (if insert_mode \<and> amount = 1 \<and> line2 = maxlnum then line1 + 1 else line1);
          fd_top = int (vf_top f); fd_len = int (vf_len f);
          last = fd_top + fd_len - 1;
          more = fold_mark_adjust_recurse rest line1 line2 amount amount_after insert_mode
      in if last < line1 then f # more
         else if fd_top > line2 then
           (if amount_after = 0 then f # rest else set_top (nat (fd_top + amount_after)) f # more)
         else if fd_top \<ge> top \<and> last \<le> line2 then
           (if amount = maxlnum then more else set_top (nat (fd_top + amount)) f # more)
         else if fd_top < top then
           (let nested = fold_mark_adjust_recurse (vf_nested f) (line1 - fd_top) (line2 - fd_top) amount
                           amount_after insert_mode;
                len = (if last \<le> line2 then (if amount = maxlnum then line1 - fd_top else fd_len + amount)
                       else fd_len + amount_after)
            in set_len (nat len) (set_nested nested f) # more)
         else if amount = maxlnum then
           set_top (nat line1) (set_len (nat (fd_len - (line2 - fd_top + 1)))
             (set_nested (fold_mark_adjust_recurse (vf_nested f) 0 (line2 - fd_top) amount
                (amount_after + (fd_top - top)) insert_mode) f)) # more
         else
           set_top (nat (fd_top + amount)) (set_len (nat (fd_len + amount_after - amount))
             (set_nested (fold_mark_adjust_recurse (vf_nested f) 0 (line2 - fd_top) amount
                (amount_after - amount) insert_mode) f)) # more)"
  by pat_completeness auto

termination
  by (relation "measure (\<lambda>(g, _). size_list size g)") (auto simp: less_Suc_eq_le size_nested_le)

declare fold_mark_adjust_recurse.simps(2) [simp del]

definition fold_mark_adjust :: "vfold list \<Rightarrow> int \<Rightarrow> int \<Rightarrow> int \<Rightarrow> int \<Rightarrow> bool \<Rightarrow> vfold list" where
  "fold_mark_adjust folds line1 line2 amount amount_after insert_mode =
     (let line2 = (if amount = maxlnum \<and> line2 \<ge> line1 \<and> line2 - line1 \<ge> - amount_after
                   then line1 - amount_after - 1 else line2);
          line2 = (if line2 < line1 then line1 else line2);
          line1 = (if insert_mode \<and> amount = 1 \<and> line2 = maxlnum then line1 - 1 else line1)
      in fold_mark_adjust_recurse folds line1 line2 amount amount_after insert_mode)"

section \<open>Finding, splitting, removing and merging folds\<close>

function find_loop :: "vfold list \<Rightarrow> int \<Rightarrow> int \<Rightarrow> int \<Rightarrow> nat \<times> bool" where
  "find_loop gap lnum low high =
     (if low \<le> high then
        let i = (low + high) div 2; f = gap ! nat i
        in if int (vf_top f) > lnum then find_loop gap lnum low (i - 1)
           else if int (vf_top f) + int (vf_len f) \<le> lnum then find_loop gap lnum (i + 1) high
           else (nat i, True)
      else (nat low, False))"
  by auto

termination
  by (relation "measure (\<lambda>(gap, lnum, low, high). nat (high - low + 1))") auto

declare find_loop.simps [simp del]

definition fold_find :: "vfold list \<Rightarrow> int \<Rightarrow> nat \<times> bool" where
  "fold_find gap lnum = (if gap = [] then (0, False) else find_loop gap lnum 0 (int (length gap) - 1))"

definition fold_insert :: "vfold list \<Rightarrow> nat \<Rightarrow> vfold list option" where
  "fold_insert gap i = (if i \<le> length gap then Some (take i gap @ [vfold_default] @ drop i gap) else None)"

definition remove_at :: "nat \<Rightarrow> 'a list \<Rightarrow> 'a list" where
  "remove_at i xs = take i xs @ drop (Suc i) xs"

definition fold_split :: "vfold list \<Rightarrow> nat \<Rightarrow> int \<Rightarrow> int \<Rightarrow> vfold list option" where
  "fold_split gap i tp bt =
     (if \<not> i < length gap then None
      else do {
        gap \<leftarrow> fold_insert gap (i + 1);
        let f = gap ! i;
        let fp_top = int (vf_top f);
        let fp_len = int (vf_len f);
        let new_top = bt + 1;
        let second = set_small TriNone (set_vf_flags (vf_flags f)
           (set_len (nat (fp_len - (new_top - fp_top))) (set_top (nat new_top) (gap ! (i + 1)))));
        let f = set_small TriNone f;
        let delta = new_top - fp_top;
        let (idx, _) = fold_find (vf_nested f) delta;
        let (f, second) =
          (if idx < length (vf_nested f)
           then (set_nested (take idx (vf_nested f)) f,
                 set_nested (map (\<lambda>g. set_top (nat (int (vf_top g) - delta)) g) (drop idx (vf_nested f))) second)
           else (f, second));
        Some (gap[i := set_len (nat (tp - fp_top)) f, i + 1 := second])
      })"

text \<open>A fold that is only looked at where the index is in range.\<close>

definition fold_at :: "vfold list \<Rightarrow> nat \<Rightarrow> vfold" where
  "fold_at gap i = (if i < length gap then gap ! i else vfold_default)"

lemma fold_at_nth [simp]: "i < length gap \<Longrightarrow> fold_at gap i = gap ! i"
  by (simp add: fold_at_def)

partial_function (option) fold_remove :: "vfold list \<Rightarrow> int \<Rightarrow> int \<Rightarrow> vfold list option" where
  [code]: "fold_remove gap tp bt =
     (if bt < tp \<or> gap = [] then Some gap
      else
        let (i, found) = fold_find gap tp; f = fold_at gap i; fp_top = int (vf_top f); fp_len = int (vf_len f)
        in if found \<and> fp_top < tp then do {
             nested \<leftarrow> fold_remove (vf_nested f) (tp - fp_top) (bt - fp_top);
             let gap = gap[i := set_nested nested f];
             gap \<leftarrow> (if fp_top + fp_len - 1 > bt then fold_split gap i tp bt
                     else Some (gap[i := set_len (nat (tp - fp_top)) (set_nested nested f)]));
             fold_remove gap tp bt
           }
           else if i \<ge> length gap \<or> fp_top > bt then Some gap
           else if fp_top \<ge> tp then
             if fp_top + fp_len - 1 > bt then
               Some (gap[i := set_top (nat (bt + 1)) (set_len (nat (fp_len - (bt - fp_top + 1)))
                 (set_nested (fold_mark_adjust_recurse (vf_nested f) 0 (bt - fp_top) maxlnum (fp_top - bt - 1) False) f))])
             else fold_remove (remove_at i gap) tp bt
           else Some gap)"

text \<open>
  Merging: the second fold disappears, its nested folds move over; where the last nested fold of the
  first touches the first one of the second they are merged too.
\<close>

lemma size_nth_nested: "i < length (vf_nested f) \<Longrightarrow> size (vf_nested f ! i) < size f"
  by (cases f) (simp add: less_Suc_eq_le size_list_estimation' [OF nth_mem order.refl])

function merge_pair :: "vfold \<Rightarrow> vfold \<Rightarrow> vfold" where
  "merge_pair f1 f2 =
     (let len1 = int (vf_len f1);
          (i3, found3) = fold_find (vf_nested f1) (len1 - 1);
          (i4, found4) = fold_find (vf_nested f2) 0;
          (nested1, nested2) =
            (if found3 \<and> found4 \<and> i3 < length (vf_nested f1) \<and> i4 < length (vf_nested f2)
             then ((vf_nested f1)[i3 := merge_pair (vf_nested f1 ! i3) (vf_nested f2 ! i4)],
                   remove_at i4 (vf_nested f2))
             else (vf_nested f1, vf_nested f2))
      in set_len (vf_len f1 + vf_len f2)
           (set_nested (nested1 @ map (\<lambda>f. set_top (nat (int (vf_top f) + len1)) f) nested2) f1))"
  by auto

termination
  by (relation "measure (\<lambda>(f, _). size f)") (auto intro: size_nth_nested)

declare merge_pair.simps [simp del]

definition fold_merge :: "vfold list \<Rightarrow> nat \<Rightarrow> nat \<Rightarrow> vfold list option" where
  "fold_merge gap i1 i2 =
     (if i2 < length gap \<and> i1 < length gap - 1
      then Some ((remove_at i2 gap)[i1 := merge_pair (remove_at i2 gap ! i1) (gap ! i2)])
      else None)"

section \<open>The levels of the lines\<close>

record fline =
  fln_lnum :: int
  fln_off :: int
  fln_lnum_save :: int
  fln_lvl :: int
  fln_lvl_next :: int
  fln_start :: int
  fln_end :: int
  fln_had_end :: int

definition fline_default :: fline where
  "fline_default = \<lparr>fln_lnum = 0, fln_off = 0, fln_lnum_save = 0, fln_lvl = 0, fln_lvl_next = undefined_level,
     fln_start = 0, fln_end = MAX_LEVEL + 1, fln_had_end = MAX_LEVEL + 1\<rparr>"

text \<open>
  A level getter is a record of its methods.  None of the three of the program keeps state, and all of
  them leave \<open>set_prev\<close> empty.
\<close>

record level_getter =
  get_level :: "fline \<Rightarrow> fline option"
  is_marker :: bool
  is_expr :: bool
  is_syntax :: bool

definition needs_end_search :: "level_getter \<Rightarrow> bool" where
  "needs_end_search g \<longleftrightarrow> is_marker g \<or> is_expr g \<or> is_syntax g"

definition leading_level :: "str \<Rightarrow> int option" where
  "leading_level s =
     (let digits = takeWhile (\<lambda>c. 48 \<le> c \<and> c \<le> 57) s;
          n = foldl (\<lambda>n c. 10 * n + (int c - 48)) 0 digits
      in if digits \<noteq> [] \<and> n < 2 ^ 31 \<and> n > 0 then Some n else None)"

function marker_scan :: "str \<Rightarrow> str \<Rightarrow> int \<Rightarrow> fline \<Rightarrow> str \<Rightarrow> fline option" where
  "marker_scan start_marker end_marker start_lvl flp rest =
     (if rest = [] then Some flp
      else if start_marker \<noteq> [] \<and> take (length start_marker) rest = start_marker then
        let rest' = drop (length start_marker) rest
        in case leading_level rest' of
             Some n \<Rightarrow> do {
               d \<leftarrow> i32 (n - start_lvl);
               marker_scan start_marker end_marker start_lvl
                 (flp\<lparr>fln_lvl := n, fln_lvl_next := n, fln_start := max d 1\<rparr>) rest'
             }
           | None \<Rightarrow> do {
               lvl \<leftarrow> i32 (fln_lvl flp + 1);
               lvl_next \<leftarrow> i32 (fln_lvl_next flp + 1);
               start \<leftarrow> i32 (fln_start flp + 1);
               marker_scan start_marker end_marker start_lvl
                 (flp\<lparr>fln_lvl := lvl, fln_lvl_next := lvl_next, fln_start := start\<rparr>) rest'
             }
      else if end_marker \<noteq> [] \<and> take (length end_marker) rest = end_marker then
        let rest' = drop (length end_marker) rest
        in case leading_level rest' of
             Some n \<Rightarrow> marker_scan start_marker end_marker start_lvl
               (flp\<lparr>fln_lvl := n, fln_lvl_next := min (n - 1) start_lvl\<rparr>) rest'
           | None \<Rightarrow> do {
               lvl_next \<leftarrow> i32 (fln_lvl_next flp - 1);
               marker_scan start_marker end_marker start_lvl (flp\<lparr>fln_lvl_next := lvl_next\<rparr>) rest'
             }
      else marker_scan start_marker end_marker start_lvl flp (tl rest))"
  by auto

termination
  by (relation "measure (\<lambda>(_, _, _, _, rest). length rest)") auto

declare marker_scan.simps [simp del]

definition foldlevel_marker :: "str \<Rightarrow> str \<Rightarrow> str \<Rightarrow> fline \<Rightarrow> fline option" where
  "foldlevel_marker line start_marker end_marker flp =
     map_option (\<lambda>flp. flp\<lparr>fln_lvl_next := max (fln_lvl_next flp) 0\<rparr>)
       (marker_scan start_marker end_marker (fln_lvl flp)
          (flp\<lparr>fln_start := 0, fln_lvl_next := fln_lvl flp\<rparr>) line)"

definition marker_level_getter :: "str list \<Rightarrow> str \<Rightarrow> str \<Rightarrow> level_getter" where
  "marker_level_getter lines start_marker end_marker =
     \<lparr>get_level = (\<lambda>flp.
        let lnum = fln_lnum flp + fln_off flp
        in if lnum < 1 \<or> lnum > int (length lines) then Some (flp\<lparr>fln_start := 0, fln_lvl_next := fln_lvl flp\<rparr>)
           else foldlevel_marker (lines ! nat (lnum - 1)) start_marker end_marker flp),
      is_marker = True, is_expr = False, is_syntax = False\<rparr>"

definition syntax_level_at :: "int list \<Rightarrow> int \<Rightarrow> int" where
  "syntax_level_at levels n = (if n < 1 \<or> n > int (length levels) then 0 else levels ! nat (n - 1))"

definition syntax_level_getter :: "int list \<Rightarrow> level_getter" where
  "syntax_level_getter levels =
     \<lparr>get_level = (\<lambda>flp.
        let lnum = fln_lnum flp + fln_off flp;
            lvl = syntax_level_at levels lnum;
            n = syntax_level_at levels (lnum + 1);
            flp = flp\<lparr>fln_lvl := lvl, fln_start := 0\<rparr>;
            flp = (if lnum < int (length levels) \<and> n > lvl then flp\<lparr>fln_start := n - lvl, fln_lvl := n\<rparr> else flp)
        in Some (flp\<lparr>fln_lvl_next := n\<rparr>)),
      is_marker = False, is_expr = False, is_syntax = True\<rparr>"

definition indent_level_getter :: "str list \<Rightarrow> str \<Rightarrow> nat \<Rightarrow> nat \<Rightarrow> int \<Rightarrow> level_getter" where
  "indent_level_getter lines foldignore shiftwidth tab_width foldnestmax =
     \<lparr>get_level = (\<lambda>flp.
        let lnum = fln_lnum flp + fln_off flp
        in if lnum < 1 \<or> lnum > int (length lines) then Some (flp\<lparr>fln_lvl := 0\<rparr>)
           else Some (flp\<lparr>fln_lvl := foldlevel_indent (lines ! nat (lnum - 1)) (nat lnum) (length lines)
                            foldignore shiftwidth tab_width foldnestmax\<rparr>)),
      is_marker = False, is_expr = False, is_syntax = False\<rparr>"

text \<open>The depth of a line in captured ranges; the first line of a range keeps the outer level.\<close>

definition add_levels :: "nat \<Rightarrow> nat \<times> nat \<Rightarrow> int list \<Rightarrow> int list" where
  "add_levels line_count r levels =
     map (\<lambda>(i, l). if fst r + 1 \<le> i \<and> i < min (snd r) (line_count - 1) + 1 then l + 1 else l) (List.enumerate 0 levels)"

definition syntax_levels :: "(nat \<times> nat) list \<Rightarrow> nat \<Rightarrow> int list" where
  "syntax_levels ranges line_count = foldl (\<lambda>ls r. add_levels line_count r ls) (replicate line_count 0) ranges"

section \<open>Building the tree\<close>

text \<open>
  \<open>fold_update_iems_recurse\<close> builds the folds of one level and calls itself for the next one.  Its local
  variables are the record \<open>iems\<close>, what stays the same during a call \<open>iems_call\<close>.
\<close>

record iems_call =
  ic_level :: int
  ic_startlnum :: int
  ic_firstlnum :: int
  ic_topflags :: fold_flag

record iems =
  it_gap :: "vfold list"
  it_flp :: fline
  it_bot :: int
  it_fp :: "nat option"
  it_lvl :: int
  it_startlnum2 :: int
  it_finish :: bool
  it_manual :: bool
  it_changed :: bool

definition linecount :: "int \<Rightarrow> iems \<Rightarrow> int" where
  "linecount buf_lines s = buf_lines - fln_off (it_flp s)"

abbreviation it_lnum :: "iems \<Rightarrow> int" where
  "it_lnum s \<equiv> fln_lnum (it_flp s)"

definition iems_begin ::
    "level_getter \<Rightarrow> int \<Rightarrow> int \<Rightarrow> fold_flag \<Rightarrow> vfold list \<Rightarrow> fline \<Rightarrow> int \<Rightarrow> bool \<Rightarrow> bool \<Rightarrow> iems_call \<times> iems" where
  "iems_begin L level startlnum topflags gap flp bt manual changed =
     (let fp = (if is_marker L \<and> fln_start flp \<le> fln_lvl flp - level \<and> fln_lvl flp > 0 then
                  let (i, _) = fold_find gap (startlnum - 1)
                  in if i \<ge> length gap \<or> int (vf_top (gap ! i)) \<ge> startlnum then None else Some i
                else None)
      in (\<lparr>ic_level = level, ic_startlnum = startlnum, ic_firstlnum = fln_lnum flp, ic_topflags = topflags\<rparr>,
          \<lparr>it_gap = gap, it_flp = flp\<lparr>fln_lnum_save := fln_lnum flp\<rparr>, it_bot = bt, it_fp = fp, it_lvl = 0,
           it_startlnum2 = startlnum, it_finish = False, it_manual = manual, it_changed = changed\<rparr>))"

definition line_level :: "iems_call \<Rightarrow> fline \<Rightarrow> int" where
  "line_level c flp =
     (let lvl = min (fln_lvl flp) MAX_LEVEL
      in if fln_lnum flp > ic_firstlnum c \<and> (ic_level c > lvl - fln_start flp \<or> ic_level c \<ge> fln_had_end flp)
         then 0 else lvl)"

lemma find_loop_found:
  "find_loop gap lnum low high = (i, True) \<Longrightarrow> 0 \<le> low \<Longrightarrow> high < int (length gap) \<Longrightarrow> i < length gap"
proof (induction gap lnum low high rule: find_loop.induct)
  case (1 gap lnum low high)
  note step = find_loop.simps [of gap lnum low high]
  have "low \<le> high" using "1.prems"(1) by (simp add: step split: if_splits)
  with 1 show ?case by (auto simp: step Let_def split: if_splits)
qed

lemma fold_find_found: "fold_find gap lnum = (i, True) \<Longrightarrow> i < length gap"
  by (auto simp: fold_find_def split: if_splits dest: find_loop_found)

lemma size_nested_nth: "j < length g \<Longrightarrow> size_list size (vf_nested (g ! j)) < size_list size g"
  by (rule less_le_trans [OF size_nested]) (simp add: size_list_estimation' [OF nth_mem order.refl])

function depth_below :: "vfold list \<Rightarrow> int \<Rightarrow> int" where
  "depth_below cur ll =
     (let (j, found) = fold_find cur ll
      in if found then 1 + depth_below (vf_nested (cur ! j)) (ll - int (vf_top (cur ! j))) else 0)"
  by auto

termination
  by (relation "measure (\<lambda>(g, _). size_list size g)")
    (auto dest!: fold_find_found [OF sym] intro: size_nested_nth)

declare depth_below.simps [simp del]

text \<open>Below \<open>bot\<close>: whether to stop, and the new values of \<open>bot\<close> and \<open>finish\<close>.\<close>

definition below_bot :: "level_getter \<Rightarrow> iems_call \<Rightarrow> iems \<Rightarrow> bool \<times> iems" where
  "below_bot L c s =
     (case it_fp s of
        None \<Rightarrow> (False, s)
      | Some fpi \<Rightarrow>
          if \<not> (it_lnum s > it_bot s \<and> \<not> it_finish s) then (False, s)
          else if \<not> needs_end_search L then (True, s)
          else
            let f = it_gap s ! fpi; fp_top = int (vf_top f);
                i = (if it_lvl s \<ge> ic_level c then depth_below (vf_nested f) (it_lnum s - fp_top) else 0)
            in if it_lvl s < ic_level c + i then
                 let (j, found) = fold_find (vf_nested f) (it_lnum s - fp_top); g = fold_at (vf_nested f) j
                 in (False, if found then s\<lparr>it_bot := int (vf_top g) + int (vf_len g) - 1 + fp_top\<rparr> else s)
               else if fp_top + int (vf_len f) \<le> it_lnum s \<and> it_lvl s \<ge> ic_level c then (False, s\<lparr>it_finish := True\<rparr>)
               else (True, s))"

definition find_reusable :: "iems_call \<Rightarrow> iems \<Rightarrow> int \<Rightarrow> nat \<times> bool" where
  "find_reusable c s joins =
     (let gap = it_gap s; level = ic_level c; lvl = it_lvl s; first = ic_firstlnum c
      in if gap = [] then (0, False)
         else
           let (i, reuse) = fold_find gap (ic_startlnum c);
               reuse = (reuse \<or> i < length gap \<and> int (vf_top (gap ! i)) \<le> first);
               (i, reuse) = (if reuse then (i, True) else fold_find gap (first - joins));
               reuse = (reuse \<or> i < length gap \<and>
                 (lvl < level \<and> int (vf_top (gap ! i)) < it_lnum s \<or>
                  lvl \<ge> level \<and> int (vf_top (gap ! i)) \<le> fln_lnum_save (it_flp s)))
           in (i, reuse))"

text \<open>An existing fold becomes the new one: it is moved, split, or merged with the one before.\<close>

definition use_fold :: "level_getter \<Rightarrow> iems_call \<Rightarrow> iems \<Rightarrow> int \<Rightarrow> nat \<Rightarrow> iems option" where
  "use_fold L c s joins idx =
     (let gap = it_gap s; f = gap ! idx; fp_top = int (vf_top f); fp_len = int (vf_len f);
          first = ic_firstlnum c; start = ic_startlnum c
      in do {
        (s, idx) \<leftarrow>
          (if fp_top = first then Some (s, idx)
           else if fp_top \<ge> start then
             let nested = (if fp_top > first
                  then fold_mark_adjust_recurse (vf_nested f) 0 maxlnum (fp_top - first) 0 False
                  else fold_mark_adjust_recurse (vf_nested f) 0 (first - fp_top - 1) maxlnum (fp_top - first) False);
                 f = set_small TriNone (set_top (nat first) (set_len (nat (fp_len + (fp_top - first))) (set_nested nested f)))
             in Some (s\<lparr>it_gap := gap[idx := f], it_changed := True\<rparr>, idx)
           else if fln_start (it_flp s) \<noteq> 0 \<and> it_lvl s = ic_level c \<or> first \<noteq> start then
             let (breakstart, breakend) = (if first \<noteq> start then (start, first) else (it_lnum s, it_lnum s))
             in do {
               nested \<leftarrow> fold_remove (vf_nested f) (breakstart - fp_top) (breakend - fp_top);
               gap \<leftarrow> fold_split (gap[idx := set_nested nested f]) idx breakstart (breakend - 1);
               Some (s\<lparr>it_gap := gap, it_finish := it_finish s \<or> needs_end_search L\<rparr>, idx + 1)
             }
           else Some (s, idx));
        let gap = it_gap s;
        (s, idx) \<leftarrow>
          (if int (vf_top (gap ! idx)) = start \<and> joins = 1 \<and> idx \<noteq> 0 \<and>
              int (vf_top (gap ! (idx - 1))) + int (vf_len (gap ! (idx - 1))) = int (vf_top (gap ! idx))
           then do {
             gap \<leftarrow> fold_merge gap (idx - 1) idx;
             Some (s\<lparr>it_gap := gap\<rparr>, idx - 1)
           }
           else Some (s, idx));
        Some (s\<lparr>it_fp := Some idx\<rparr>)
      })"

definition insert_fold :: "level_getter \<Rightarrow> iems_call \<Rightarrow> iems \<Rightarrow> nat \<Rightarrow> iems option" where
  "insert_fold L c s idx =
     (let i = (if it_gap s = [] then 0 else min idx (length (it_gap s)))
      in do {
        gap \<leftarrow> fold_insert (it_gap s) i;
        let first = ic_firstlnum c;
        let (flags, manual) =
          (if ic_topflags c = FOpen then (FOpen, True)
           else if i = 0 then (ic_topflags c, it_manual s \<or> ic_topflags c \<noteq> FLevel)
           else (vf_flags (gap ! (i - 1)), it_manual s));
        let f = set_small TriNone (set_vf_flags flags
          (set_len (nat (it_bot s - first + 1)) (set_top (nat first) (gap ! i))));
        Some (s\<lparr>it_gap := gap[i := f], it_fp := Some i, it_finish := it_finish s \<or> needs_end_search L,
                it_manual := manual, it_changed := True\<rparr>)
      })"

partial_function (option) reuse_loop :: "level_getter \<Rightarrow> iems_call \<Rightarrow> iems \<Rightarrow> iems option" where
  [code]: "reuse_loop L c s =
     (let joins = (if fln_start (it_flp s) \<noteq> 0 \<or> fln_had_end (it_flp s) \<le> MAX_LEVEL then 0 else 1);
          (idx, reuse) = find_reusable c s joins;
          gap = it_gap s; f = fold_at gap idx
      in if \<not> reuse then insert_fold L c s idx
         else if int (vf_top f) + int (vf_len f) + joins > ic_firstlnum c then use_fold L c s joins idx
         else if int (vf_top f) \<ge> ic_startlnum c then reuse_loop L c (s\<lparr>it_gap := remove_at idx gap\<rparr>)
         else
           let len = nat (ic_startlnum c - int (vf_top f));
               nested = fold_mark_adjust_recurse (vf_nested f) (int len) maxlnum maxlnum 0 False
           in reuse_loop L c (s\<lparr>it_gap := gap[idx := set_nested nested (set_len len f)], it_changed := True\<rparr>))"

definition reuse_needed :: "int \<Rightarrow> iems_call \<Rightarrow> iems \<Rightarrow> bool" where
  "reuse_needed buf_lines c s \<longleftrightarrow>
     it_fp s = None \<and>
     (it_lvl s \<noteq> ic_level c \<or> fln_lnum_save (it_flp s) \<ge> it_bot s \<or> fln_start (it_flp s) \<noteq> 0 \<or>
      fln_had_end (it_flp s) \<le> MAX_LEVEL \<or> it_lnum s = linecount buf_lines s)"

text \<open>What an iteration does before it looks at the line: the first component says whether it stops there.\<close>

definition iems_line :: "level_getter \<Rightarrow> int \<Rightarrow> iems_call \<Rightarrow> iems \<Rightarrow> (bool \<times> iems) option" where
  "iems_line L buf_lines c s =
     (let (stop, s) = below_bot L c (s\<lparr>it_lvl := line_level c (it_flp s)\<rparr>)
      in if stop then Some (True, s)
         else do {
           s \<leftarrow> (if reuse_needed buf_lines c s then reuse_loop L c s else Some s);
           Some (it_lvl s < ic_level c \<or> it_lnum s > linecount buf_lines s, s)
         })"

text \<open>Skip the lines without a level of their own.  No getter moves the line it is asked about.\<close>

function next_lines :: "level_getter \<Rightarrow> int \<Rightarrow> fline \<Rightarrow> fline option" where
  "next_lines L count flp =
     (let flp = flp\<lparr>fln_lnum := fln_lnum flp + 1\<rparr>
      in if fln_lnum flp > count then Some flp
         else
           case get_level L (flp\<lparr>fln_lvl := fln_lvl_next flp\<rparr>) of
             None \<Rightarrow> None
           | Some g \<Rightarrow>
               let g = g\<lparr>fln_lnum := fln_lnum flp\<rparr>
               in if fln_lvl g \<ge> 0 \<or> fln_had_end g \<le> MAX_LEVEL then Some g else next_lines L count g)"
  by auto

termination
  by (relation "measure (\<lambda>(L, count, flp). nat (count - fln_lnum flp))") auto

declare next_lines.simps [simp del]

definition iems_next :: "level_getter \<Rightarrow> int \<Rightarrow> iems \<Rightarrow> (bool \<times> iems) option" where
  "iems_next L buf_lines s =
     (let flp = it_flp s; count = linecount buf_lines s; ll = fln_lnum_save flp + 1
      in do {
        flp \<leftarrow> next_lines L count (flp\<lparr>fln_lnum := fln_lnum_save flp\<rparr>);
        Some (if fln_lnum flp > count then (True, s\<lparr>it_flp := flp\<rparr>)
              else (False, s\<lparr>it_flp := flp\<lparr>fln_lnum_save := fln_lnum flp, fln_lnum := ll\<rparr>\<rparr>))
      })"

text \<open>
  The call for a nested fold: line numbers are relative to its start.  \<open>leave\<close> puts its result back.
\<close>

definition iems_enter :: "level_getter \<Rightarrow> iems_call \<Rightarrow> iems \<Rightarrow> nat \<Rightarrow> iems_call \<times> iems" where
  "iems_enter L c s i =
     (let f = it_gap s ! i; fp_top = int (vf_top f); bt = max (it_bot s) (it_lnum s);
          flp = (it_flp s)\<lparr>fln_lnum := fln_lnum_save (it_flp s) - fp_top, fln_off := fln_off (it_flp s) + fp_top\<rparr>
      in iems_begin L (ic_level c + 1) (it_startlnum2 s - fp_top) (vf_flags f) (vf_nested f) flp (bt - fp_top)
           (it_manual s) (it_changed s))"

definition iems_leave :: "iems \<Rightarrow> nat \<Rightarrow> iems \<Rightarrow> iems" where
  "iems_leave s i sn =
     (let f = it_gap s ! i; fp_top = int (vf_top f); flp = it_flp sn;
          flp = flp\<lparr>fln_lnum := fln_lnum flp + fp_top, fln_lnum_save := fln_lnum_save flp + fp_top,
                    fln_off := fln_off flp - fp_top\<rparr>
      in s\<lparr>it_gap := (it_gap s)[i := set_nested (it_gap sn) f], it_flp := flp, it_bot := it_bot sn + fp_top,
           it_startlnum2 := fln_lnum flp, it_manual := it_manual sn, it_changed := it_changed sn\<rparr>)"

section \<open>The end of a fold\<close>

text \<open>The folds that follow: those that end before the current line go, one that spans it is cut or merged.\<close>

lemma length_remove_at [simp]: "i < length xs \<Longrightarrow> length (remove_at i xs) = length xs - 1"
  by (simp add: remove_at_def)

function follow_loop :: "iems_call \<Rightarrow> nat \<Rightarrow> iems \<Rightarrow> iems option" where
  "follow_loop c fpi s =
     (let gap = it_gap s; nxt = fpi + 1; lnum = it_lnum s; f = fold_at gap nxt
      in if nxt \<ge> length gap \<or> int (vf_top f) > lnum then Some s
         else if int (vf_top f) + int (vf_len f) > lnum then do {
           let s =
             (if int (vf_top f) < lnum then
                let n_top = int (vf_top f);
                    nested = fold_mark_adjust_recurse (vf_nested f) 0 (lnum - n_top - 1) maxlnum (n_top - lnum) False
                in s\<lparr>it_gap := gap[nxt := set_top (nat lnum) (set_len (nat (int (vf_len f) - (lnum - n_top)))
                       (set_nested nested f))], it_changed := True\<rparr>
              else s);
           (if it_lvl s \<ge> ic_level c
            then map_option (\<lambda>gap. s\<lparr>it_gap := gap\<rparr>) (fold_merge (it_gap s) fpi nxt)
            else Some s)
         }
         else
           let gap = remove_at nxt gap
           in follow_loop c (min fpi (length gap - 1)) (s\<lparr>it_gap := gap, it_changed := True\<rparr>))"
  by auto

termination
  by (relation "measure (\<lambda>(c, fpi, s). length (it_gap s))") auto

declare follow_loop.simps [simp del]

definition iems_end :: "level_getter \<Rightarrow> int \<Rightarrow> iems_call \<Rightarrow> iems \<Rightarrow> iems option" where
  "iems_end L buf_lines c s =
     (case it_fp s of
        None \<Rightarrow> Some s
      | Some fpi \<Rightarrow>
          let gap = it_gap s; f = gap ! fpi; fp_top = int (vf_top f); lnum = it_lnum s;
              count = linecount buf_lines s;
              (f, changed) =
                (if int (vf_len f) < lnum - fp_top
                 then (set_small TriNone (set_len (nat (lnum - fp_top)) f), True)
                 else if fp_top + int (vf_len f) > count
                 then (set_len (nat (count - fp_top + 1)) f, it_changed s)
                 else (f, it_changed s))
          in do {
            nested \<leftarrow> fold_remove (vf_nested f) (it_startlnum2 s - fp_top) (lnum - 1 - fp_top);
            let f = set_nested nested f;
            let s = s\<lparr>it_gap := gap[fpi := f], it_changed := changed\<rparr>;
            s \<leftarrow>
              (if it_lvl s < ic_level c \<and> int (vf_len f) \<noteq> lnum - fp_top then
                 if fp_top + int (vf_len f) - 1 > it_bot s then
                   if needs_end_search L
                   then Some (s\<lparr>it_bot := fp_top + int (vf_len f) - 1,
                                it_gap := gap[fpi := set_len (nat (lnum - fp_top)) f], it_changed := True\<rparr>)
                   else map_option (\<lambda>gap. s\<lparr>it_gap := gap, it_changed := True\<rparr>)
                          (fold_split (it_gap s) fpi lnum (it_bot s))
                 else Some (s\<lparr>it_gap := gap[fpi := set_len (nat (lnum - fp_top)) f], it_changed := True\<rparr>)
               else Some s);
            s \<leftarrow> follow_loop c fpi s;
            Some (s\<lparr>it_bot := max (it_bot s) (lnum - 1)\<rparr>)
          })"

partial_function (option) iems_loop :: "level_getter \<Rightarrow> int \<Rightarrow> iems_call \<Rightarrow> iems \<Rightarrow> iems option" where
  [code]: "iems_loop L buf_lines c s =
     do {
       (stop, s) \<leftarrow> iems_line L buf_lines c s;
       if stop then Some s
       else
         case (it_fp s) of
           Some i \<Rightarrow>
             if it_lvl s > ic_level c then
               let (cn, sn) = iems_enter L c s i
               in do {
                 sn \<leftarrow> iems_loop L buf_lines cn sn;
                 sn \<leftarrow> iems_end L buf_lines cn sn;
                 iems_loop L buf_lines c (iems_leave s i sn)
               }
             else do {
               (eof, s) \<leftarrow> iems_next L buf_lines s;
               if eof then Some s else iems_loop L buf_lines c s
             }
         | None \<Rightarrow> do {
             (eof, s) \<leftarrow> iems_next L buf_lines s;
             if eof then Some s else iems_loop L buf_lines c s
           }
     }"

definition fold_update_iems_recurse ::
    "level_getter \<Rightarrow> int \<Rightarrow> int \<Rightarrow> int \<Rightarrow> fold_flag \<Rightarrow> vfold list \<Rightarrow> fline \<Rightarrow> int \<Rightarrow> bool \<Rightarrow> bool \<Rightarrow> iems option" where
  "fold_update_iems_recurse L buf_lines level startlnum topflags gap flp bt manual changed =
     (let (c, s) = iems_begin L level startlnum topflags gap flp bt manual changed
      in do {
        s \<leftarrow> iems_loop L buf_lines c s;
        iems_end L buf_lines c s
      })"

section \<open>The update of a whole buffer\<close>

function prime_level :: "level_getter \<Rightarrow> fline \<Rightarrow> fline option" where
  "prime_level L flp =
     (if fln_lnum flp \<ge> 1 then
        case get_level L (flp\<lparr>fln_lvl_next := undefined_level\<rparr>) of
          None \<Rightarrow> None
        | Some g \<Rightarrow>
            let g = g\<lparr>fln_lnum := fln_lnum flp\<rparr>
            in if fln_lvl g \<ge> 0 then Some g else prime_level L (g\<lparr>fln_lnum := fln_lnum g - 1\<rparr>)
      else Some flp)"
  by auto

termination
  by (relation "measure (\<lambda>(L, flp). nat (fln_lnum flp))") auto

declare prime_level.simps [simp del]

record fold_update_state =
  fu_gap :: "vfold list"
  fu_flp :: fline
  fu_start :: int
  fu_end :: int
  fu_manual :: bool
  fu_changed :: bool

partial_function (option) fold_update_loop :: "level_getter \<Rightarrow> int \<Rightarrow> fold_update_state \<Rightarrow> fold_update_state option" where
  [code]: "fold_update_loop L buf_lines u =
     (let flp = fu_flp u
      in if fln_lnum flp > buf_lines \<or> fln_lnum flp > fu_end u then Some u
         else if fln_lvl flp > 0 then do {
           s \<leftarrow> fold_update_iems_recurse L buf_lines 1 (fu_start u) FLevel (fu_gap u) flp (fu_end u)
                 (fu_manual u) (fu_changed u);
           fold_update_loop L buf_lines
             \<lparr>fu_gap = it_gap s, fu_flp = it_flp s, fu_start = it_lnum s, fu_end = it_bot s,
              fu_manual = it_manual s, fu_changed = it_changed s\<rparr>
         }
         else if fln_lnum flp = buf_lines then Some u
         else do {
           flp \<leftarrow> get_level L (flp\<lparr>fln_lnum := fln_lnum flp + 1, fln_lvl := fln_lvl_next flp\<rparr>);
           fold_update_loop L buf_lines (u\<lparr>fu_flp := flp\<rparr>)
         })"

text \<open>The new folds and the two flags.\<close>

definition fold_update ::
    "vfold list \<Rightarrow> level_getter \<Rightarrow> int \<Rightarrow> bool \<Rightarrow> bool \<Rightarrow> (vfold list \<times> bool \<times> bool) option" where
  "fold_update gap L buf_lines manual changed =
     (if buf_lines \<le> 0 then Some ([], manual, changed)
      else do {
        let flp = fline_default\<lparr>fln_lnum := 1\<rparr>;
        flp \<leftarrow> (if is_marker L then get_level L (flp\<lparr>fln_lvl := 0\<rparr>)
                else prime_level L (flp\<lparr>fln_lvl := undefined_level\<rparr>));
        let start = fln_lnum flp;
        u \<leftarrow> fold_update_loop L buf_lines
               \<lparr>fu_gap = gap, fu_flp = flp, fu_start = start, fu_end = max start buf_lines,
                fu_manual = manual, fu_changed = changed\<rparr>;
        gap \<leftarrow> fold_remove (fu_gap u) (fu_start u) (fu_end u);
        Some (gap, fu_manual u, fu_changed u)
      })"

section \<open>Open and closed folds\<close>

definition new_fold_level :: "vfold list \<Rightarrow> bool \<Rightarrow> vfold list \<times> bool" where
  "new_fold_level folds fold_manual =
     (if fold_manual then (map (set_vf_flags FLevel) folds, False) else (folds, fold_manual))"

definition is_small :: "vfold \<Rightarrow> nat \<Rightarrow> bool" where
  "is_small f foldminlines \<longleftrightarrow> vf_len f \<le> foldminlines"

definition check_closed :: "vfold \<Rightarrow> bool \<Rightarrow> int \<Rightarrow> int \<Rightarrow> nat \<Rightarrow> bool \<times> bool" where
  "check_closed f use_level level foldlevel foldminlines =
     (let (closed, use_level) =
            (if use_level \<or> vf_flags f = FLevel then (level \<ge> foldlevel, True)
             else (vf_flags f = FClosed, use_level))
      in (closed \<and> \<not> is_small f foldminlines, use_level))"

function collect_closed :: "vfold list \<Rightarrow> int \<Rightarrow> nat \<Rightarrow> int \<Rightarrow> nat \<Rightarrow> bool \<Rightarrow> (nat \<times> nat) list" where
  "collect_closed [] foldlevel foldminlines level off use_level = []"
| "collect_closed (f # rest) foldlevel foldminlines level off use_level =
     (let abs_top = off + vf_top f;
          (closed, ul) = check_closed f use_level level foldlevel foldminlines
      in (if closed then [(abs_top, abs_top + (vf_len f - 1))]
          else collect_closed (vf_nested f) foldlevel foldminlines (level + 1) abs_top ul) @
         collect_closed rest foldlevel foldminlines level off use_level)"
  by pat_completeness auto

termination
  by (relation "measure (\<lambda>(g, _). size_list size g)") (auto simp: less_Suc_eq_le size_nested_le)

definition tree_closed_ranges :: "vfold list \<Rightarrow> int \<Rightarrow> nat \<Rightarrow> (nat \<times> nat) list" where
  "tree_closed_ranges gap foldlevel foldminlines = collect_closed gap foldlevel foldminlines 0 0 False"

function collect_all :: "vfold list \<Rightarrow> nat \<Rightarrow> (nat \<times> nat) list" where
  "collect_all [] off = []"
| "collect_all (f # rest) off =
     (let abs_top = off + vf_top f
      in (abs_top, abs_top + (vf_len f - 1)) # collect_all (vf_nested f) abs_top @ collect_all rest off)"
  by pat_completeness auto

termination
  by (relation "measure (\<lambda>(g, _). size_list size g)") (auto simp: less_Suc_eq_le size_nested_le)

definition all_ranges :: "vfold list \<Rightarrow> (nat \<times> nat) list" where
  "all_ranges gap = collect_all gap 0"

end
