(* ===== verification/FoldTreeLaws.thy ===== *)
theory FoldTreeLaws
  imports FoldTree
begin

text \<open>
  What the operations on the tree of folds do to the lines.  A line has a depth, the number of folds
  that contain it.  In a well-formed tree the folds of a list follow each other, none is empty, and the
  nested ones lie within.
\<close>

lemma folds_induct [case_names Nil Cons]:
  assumes "P []" "\<And>f fs. P (vf_nested f) \<Longrightarrow> P fs \<Longrightarrow> P (f # fs)"
  shows "P g"
proof (induction g rule: measure_induct_rule [of "size_list size"])
  case (less g)
  show ?case
  proof (cases g)
    case (Cons f fs)
    have "size_list size (vf_nested f) < size_list size g" "size_list size fs < size_list size g"
      using Cons by (simp_all add: less_Suc_eq_le size_nested_le)
    then show ?thesis using assms(2) less Cons by blast
  qed (simp add: assms(1))
qed

function depth :: "vfold list \<Rightarrow> int \<Rightarrow> nat" where
  "depth [] n = 0"
| "depth (f # fs) n =
     (if int (vf_top f) \<le> n \<and> n < int (vf_top f) + int (vf_len f) then Suc (depth (vf_nested f) (n - int (vf_top f))) else 0) +
     depth fs n"
  by pat_completeness auto

termination
  by (relation "measure (\<lambda>(g, _). size_list size g)") (auto simp: less_Suc_eq_le size_nested_le)

function wf_folds :: "int \<Rightarrow> int \<Rightarrow> vfold list \<Rightarrow> bool" where
  "wf_folds lo hi [] \<longleftrightarrow> True"
| "wf_folds lo hi (f # fs) \<longleftrightarrow> lo \<le> int (vf_top f) \<and> 0 < vf_len f \<and> int (vf_top f) + int (vf_len f) \<le> hi \<and>
     wf_folds 0 (int (vf_len f)) (vf_nested f) \<and> wf_folds (int (vf_top f) + int (vf_len f)) hi fs"
  by pat_completeness auto

termination
  by (relation "measure (\<lambda>(_, _, g). size_list size g)") (auto simp: less_Suc_eq_le size_nested_le)

lemma set_fold [simp]:
  "vf_top (set_top n f) = n" "vf_len (set_top n f) = vf_len f" "vf_nested (set_top n f) = vf_nested f"
  "vf_top (set_len n f) = vf_top f" "vf_len (set_len n f) = n" "vf_nested (set_len n f) = vf_nested f"
  "vf_top (set_nested g f) = vf_top f" "vf_len (set_nested g f) = vf_len f" "vf_nested (set_nested g f) = g"
  "vf_top (set_vf_flags b f) = vf_top f" "vf_len (set_vf_flags b f) = vf_len f" "vf_nested (set_vf_flags b f) = vf_nested f"
  "vf_top (set_small t f) = vf_top f" "vf_len (set_small t f) = vf_len f" "vf_nested (set_small t f) = vf_nested f"
  "vf_flags (set_top n f) = vf_flags f" "vf_flags (set_len n f) = vf_flags f" "vf_flags (set_nested g f) = vf_flags f"
  "vf_flags (set_vf_flags b f) = b" "vf_flags (set_small t f) = vf_flags f"
  by (cases f; simp)+

lemma depth_outside: "wf_folds lo hi g \<Longrightarrow> n < lo \<or> hi \<le> n \<Longrightarrow> depth g n = 0"
  by (induction g arbitrary: lo) fastforce+

lemma wf_folds_mono: "wf_folds lo hi g \<Longrightarrow> lo' \<le> lo \<Longrightarrow> hi \<le> hi' \<Longrightarrow> wf_folds lo' hi' g"
  by (induction g arbitrary: lo lo') auto

lemma depth_append [simp]: "depth (g @ h) n = depth g n + depth h n"
  by (induction g) auto

lemma maxlnum_not_1 [simp]: "maxlnum \<noteq> 1" "1 \<noteq> maxlnum"
  by (simp_all add: maxlnum_def)

lemma wf_folds_ConsI:
  "lo \<le> int (vf_top f) \<Longrightarrow> 0 < vf_len f \<Longrightarrow> int (vf_top f) + int (vf_len f) \<le> hi \<Longrightarrow>
   wf_folds 0 (int (vf_len f)) (vf_nested f) \<Longrightarrow> wf_folds m hi fs \<Longrightarrow> int (vf_top f) + int (vf_len f) \<le> m \<Longrightarrow>
   wf_folds lo hi (f # fs)"
  by (auto intro: wf_folds_mono)

text \<open>A fold that was moved by \<open>d\<close> lines contains the lines that were \<open>d\<close> lines away.\<close>

lemma depth_moved:
  "int (vf_top f') = int (vf_top f) + d \<Longrightarrow> vf_len f' = vf_len f \<Longrightarrow> vf_nested f' = vf_nested f \<Longrightarrow>
   depth (f' # fs') n = depth [f] (n - d) + depth fs' n"
  by (auto simp: algebra_simps)

section \<open>Deleting lines\<close>

text \<open>Where a line boundary goes when the lines from \<open>a\<close> to \<open>b\<close> are deleted.\<close>

definition cut_lines :: "int \<Rightarrow> int \<Rightarrow> int \<Rightarrow> int" where
  "cut_lines a b x = (if x \<le> a then x else if x \<le> b then a else x - (b - a + 1))"

lemma cut_lines_start [simp]: "x \<le> a \<Longrightarrow> cut_lines a b x = x"
  by (simp add: cut_lines_def)

lemma cut_lines_mono: "a \<le> b \<Longrightarrow> x \<le> y \<Longrightarrow> cut_lines a b x \<le> cut_lines a b y"
  by (simp add: cut_lines_def)

lemma delete_lines:
  assumes "0 \<le> a" "a \<le> b" "wf_folds lo hi g"
  shows "wf_folds (cut_lines a b lo) (cut_lines a b hi) (fold_mark_adjust_recurse g a b maxlnum (a - b - 1) ins) \<and>
    depth (fold_mark_adjust_recurse g a b maxlnum (a - b - 1) ins) n = depth g (if n < a then n else n + (b - a + 1))"
  using assms
proof (induction g arbitrary: a b lo hi n rule: folds_induct)
  case (Cons f fs)
  let ?t = "int (vf_top f)" and ?l = "int (vf_len f)"
  have wf: "lo \<le> ?t" "0 < vf_len f" "?t + ?l \<le> hi" "wf_folds 0 ?l (vf_nested f)" "wf_folds (?t + ?l) hi fs"
    using Cons.prems(3) by auto
  note rest = Cons.IH(2) [OF Cons.prems(1,2) wf(5)]
  let ?k = "a - b - 1"
  let ?R = "fold_mark_adjust_recurse fs a b maxlnum ?k ins"
  note step = fold_mark_adjust_recurse.simps(2) [of f fs a b maxlnum ?k ins]
  consider "?t + ?l - 1 < a" | "b < ?t" | "a \<le> ?t" "?t + ?l - 1 \<le> b" | "?t < a" "a \<le> ?t + ?l - 1" | "a \<le> ?t" "?t \<le> b" "b < ?t + ?l - 1"
    by linarith
  then show ?case
  proof cases
    case 1
    then have "fold_mark_adjust_recurse (f # fs) a b maxlnum ?k ins = f # ?R"
      by (simp add: step Let_def)
    then show ?thesis
      using 1 wf rest Cons.prems(1,2) by (auto simp: cut_lines_def)
  next
    case 2
    then have "fold_mark_adjust_recurse (f # fs) a b maxlnum ?k ins = set_top (nat (?t + ?k)) f # ?R"
      using Cons.prems(1,2) wf(2) by (simp add: step Let_def)
    moreover have top: "int (vf_top (set_top (nat (?t + ?k)) f)) = ?t + ?k" using 2 Cons.prems(1) by simp
    moreover have "wf_folds (cut_lines a b lo) (cut_lines a b hi) (set_top (nat (?t + ?k)) f # ?R)"
      using rest
      by (rule conjunct1 [THEN wf_folds_ConsI [rotated 4]], unfold top)
        (use 2 wf Cons.prems(1,2) in \<open>simp_all add: cut_lines_def\<close>)
    moreover have "depth (set_top (nat (?t + ?k)) f # ?R) n = depth [f] (n - ?k) + depth ?R n"
      using top by (intro depth_moved) simp_all
    ultimately show ?thesis
      using 2 wf(2) rest Cons.prems(1,2) by (auto simp: algebra_simps)
  next
    case 3
    then have "fold_mark_adjust_recurse (f # fs) a b maxlnum ?k ins = ?R"
      using wf(2) by (simp add: step Let_def)
    moreover have "wf_folds (cut_lines a b lo) (cut_lines a b hi) ?R"
      by (rule wf_folds_mono [OF conjunct1 [OF rest]])
        (use wf(1) Cons.prems(2) in \<open>auto intro: cut_lines_mono\<close>)
    ultimately show ?thesis
      using 3 rest Cons.prems(2) by (auto simp: depth_outside [OF wf(5)])
  next
    case 4
    let ?n = "fold_mark_adjust_recurse (vf_nested f) (a - ?t) (b - ?t) maxlnum ?k ins"
    let ?len = "if ?t + ?l - 1 \<le> b then a - ?t else ?l + ?k"
    let ?f = "set_len (nat ?len) (set_nested ?n f)"
    have eq: "fold_mark_adjust_recurse (f # fs) a b maxlnum ?k ins = ?f # ?R"
      using 4 Cons.prems(2) by (simp add: step Let_def)
    have len: "int (nat ?len) = ?len" "0 < nat ?len" using 4 by auto
    have "a - ?t - (b - ?t) - 1 = ?k" by simp
    then have n: "wf_folds 0 (cut_lines (a - ?t) (b - ?t) ?l) ?n"
      "\<And>n. depth ?n n = depth (vf_nested f) (if n < a - ?t then n else n + (b - a + 1))"
      using Cons.IH(1) [OF _ _ wf(4), of "a - ?t" "b - ?t"] 4 Cons.prems(1,2) by simp_all
    have cut: "cut_lines (a - ?t) (b - ?t) ?l = ?len" using 4 by (simp add: cut_lines_def)
    have "wf_folds (cut_lines a b lo) (cut_lines a b hi) (?f # ?R)"
      by (rule wf_folds_ConsI [where m = "cut_lines a b (?t + ?l)"])
        (use 4 wf rest len cut n(1) Cons.prems(1,2) in \<open>simp_all only: set_fold, simp_all add: cut_lines_def\<close>)
    moreover have "n - ?t + (b - a + 1) = n + (b - a + 1) - ?t" by simp
    then have "depth (?f # ?R) n = depth (f # fs) (if n < a then n else n + (b - a + 1))"
      using 4 rest n(2) Cons.prems(2) by (simp only: set_fold depth.simps len) auto
    ultimately show ?thesis by (simp only: eq)
  next
    case 5
    let ?n = "fold_mark_adjust_recurse (vf_nested f) 0 (b - ?t) maxlnum (0 - (b - ?t) - 1) ins"
    let ?len = "?l - (b - ?t + 1)"
    let ?f = "set_top (nat a) (set_len (nat ?len) (set_nested ?n f))"
    have "?k + (?t - a) = 0 - (b - ?t) - 1" by simp
    then have eq: "fold_mark_adjust_recurse (f # fs) a b maxlnum ?k ins = ?f # ?R"
      using 5 Cons.prems(2) by (simp add: step Let_def) (simp add: algebra_simps)
    have len: "int (nat ?len) = ?len" "0 < nat ?len" "int (nat a) = a" using 5 Cons.prems(1) by auto
    have n: "wf_folds 0 (cut_lines 0 (b - ?t) ?l) ?n"
      "\<And>n. depth ?n n = depth (vf_nested f) (if n < 0 then n else n + (b - ?t + 1))"
      using Cons.IH(1) [OF _ _ wf(4), of 0 "b - ?t"] 5 Cons.prems(1,2) by simp_all
    have cut: "cut_lines 0 (b - ?t) ?l = ?len" using 5 by (simp add: cut_lines_def)
    have "wf_folds (cut_lines a b lo) (cut_lines a b hi) (?f # ?R)"
      by (rule wf_folds_ConsI [where m = "cut_lines a b (?t + ?l)"])
        (use 5 wf rest len cut n(1) Cons.prems(1,2) in \<open>simp_all only: set_fold, simp_all add: cut_lines_def\<close>)
    moreover have "n - a + (b - ?t + 1) = n + (b - a + 1) - ?t" by simp
    then have "depth (?f # ?R) n = depth (f # fs) (if n < a then n else n + (b - a + 1))"
      using 5 rest n(2) Cons.prems(2) by (simp only: set_fold depth.simps len) auto
    ultimately show ?thesis by (simp only: eq)
  qed
qed simp

section \<open>Inserting lines\<close>

text \<open>The folds that contain both the line above \<open>a\<close> and \<open>a\<close>: lines inserted between them belong to these.\<close>

function spanning :: "vfold list \<Rightarrow> int \<Rightarrow> nat" where
  "spanning [] a = 0"
| "spanning (f # fs) a =
     (if int (vf_top f) < a \<and> a < int (vf_top f) + int (vf_len f) then Suc (spanning (vf_nested f) (a - int (vf_top f))) else 0) +
     spanning fs a"
  by pat_completeness auto

termination
  by (relation "measure (\<lambda>(g, _). size_list size g)") (auto simp: less_Suc_eq_le size_nested_le)

lemma spanning_outside: "wf_folds lo hi g \<Longrightarrow> a \<le> lo \<or> hi \<le> a \<Longrightarrow> spanning g a = 0"
  by (induction g arbitrary: lo) fastforce+

definition shift_lines :: "int \<Rightarrow> int \<Rightarrow> int \<Rightarrow> int" where
  "shift_lines a k x = (if x \<le> a then x else x + k)"

definition inserted_depth :: "vfold list \<Rightarrow> int \<Rightarrow> int \<Rightarrow> int \<Rightarrow> nat" where
  "inserted_depth g a k n = (if n < a then depth g n else if n < a + k then spanning g a else depth g (n - k))"

lemma shift_lines_start [simp]: "x \<le> a \<Longrightarrow> shift_lines a k x = x"
  by (simp add: shift_lines_def)

lemma insert_lines:
  assumes "0 < k" "k < maxlnum" "wf_folds lo hi g" "hi \<le> l + 1" "a \<le> l"
  shows "wf_folds (shift_lines a k lo) (shift_lines a k hi) (fold_mark_adjust_recurse g a l k 0 False) \<and>
    depth (fold_mark_adjust_recurse g a l k 0 False) n = inserted_depth g a k n"
  using assms
proof (induction g arbitrary: a l lo hi n rule: folds_induct)
  case (Cons f fs)
  let ?t = "int (vf_top f)" and ?l = "int (vf_len f)"
  have wf: "lo \<le> ?t" "0 < vf_len f" "?t + ?l \<le> hi" "wf_folds 0 ?l (vf_nested f)" "wf_folds (?t + ?l) hi fs"
    using Cons.prems(3) by auto
  note rest = Cons.IH(2) [OF Cons.prems(1,2) wf(5) Cons.prems(4,5)]
  let ?R = "fold_mark_adjust_recurse fs a l k 0 False"
  note step = fold_mark_adjust_recurse.simps(2) [of f fs a l k 0 False]
  have last: "?t + ?l - 1 \<le> l" "?t \<le> l" using wf(2,3) Cons.prems(4) by simp_all
  consider "?t + ?l \<le> a" | "a \<le> ?t" | "?t < a" "a < ?t + ?l"
    by linarith
  then show ?case
  proof cases
    case 1
    then have "fold_mark_adjust_recurse (f # fs) a l k 0 False = f # ?R"
      by (simp add: step Let_def)
    then show ?thesis
      using 1 wf rest Cons.prems(1) by (auto simp: shift_lines_def inserted_depth_def)
  next
    case 2
    let ?f = "set_top (nat (?t + k)) f"
    have eq: "fold_mark_adjust_recurse (f # fs) a l k 0 False = ?f # ?R"
      using 2 wf(2) last Cons.prems(1,2) by (simp add: step Let_def)
    have top: "int (vf_top ?f) = ?t + k" using Cons.prems(1) by simp
    have "wf_folds (shift_lines a k lo) (shift_lines a k hi) (?f # ?R)"
      by (rule wf_folds_ConsI [where m = "shift_lines a k (?t + ?l)"])
        (use 2 wf rest top Cons.prems(1) in \<open>simp_all only: top set_fold, simp_all add: shift_lines_def\<close>)
    moreover have "depth (?f # ?R) n = depth [f] (n - k) + depth ?R n"
      using top by (intro depth_moved) simp_all
    then have "depth (?f # ?R) n = inserted_depth (f # fs) a k n"
      using 2 rest spanning_outside [OF wf(5), of a] depth_outside [OF wf(5), of n] Cons.prems(1)
      by (auto simp: inserted_depth_def)
    ultimately show ?thesis by (simp only: eq)
  next
    case 3
    let ?n = "fold_mark_adjust_recurse (vf_nested f) (a - ?t) (l - ?t) k 0 False"
    let ?f = "set_len (nat (?l + k)) (set_nested ?n f)"
    have eq: "fold_mark_adjust_recurse (f # fs) a l k 0 False = ?f # ?R"
      using 3 last Cons.prems(1,2,5) by (simp add: step Let_def)
    have len: "int (nat (?l + k)) = ?l + k" "0 < nat (?l + k)" using Cons.prems(1) by auto
    have n: "wf_folds 0 (shift_lines (a - ?t) k ?l) ?n"
      "\<And>n. depth ?n n = inserted_depth (vf_nested f) (a - ?t) k n"
      using Cons.IH(1) [OF Cons.prems(1,2) wf(4), of "l - ?t" "a - ?t"] 3 last Cons.prems(5) by simp_all
    have cut: "shift_lines (a - ?t) k ?l = ?l + k" using 3 by (simp add: shift_lines_def)
    have "wf_folds (shift_lines a k lo) (shift_lines a k hi) (?f # ?R)"
      by (rule wf_folds_ConsI [where m = "shift_lines a k (?t + ?l)"])
        (use 3 wf rest len cut n(1) Cons.prems(1) in \<open>simp_all only: set_fold, simp_all add: shift_lines_def\<close>)
    moreover have "depth (?f # ?R) n = inserted_depth (f # fs) a k n"
      using 3 rest n(2) Cons.prems(1) by (simp only: set_fold depth.simps len) (auto simp: inserted_depth_def diff_right_commute)
    ultimately show ?thesis by (simp only: eq)
  qed
qed (simp add: inserted_depth_def)

section \<open>Finding a fold\<close>

abbreviation vf_end :: "vfold \<Rightarrow> int" where
  "vf_end f \<equiv> int (vf_top f) + int (vf_len f)"

lemma wf_folds_append:
  "wf_folds lo hi (g @ h) \<longleftrightarrow>
   wf_folds lo hi g \<and> wf_folds (if g = [] then lo else vf_end (last g)) hi h"
  by (induction g arbitrary: lo) auto

lemma wf_folds_bounds: "wf_folds lo hi g \<Longrightarrow> f \<in> set g \<Longrightarrow> lo \<le> int (vf_top f) \<and> 0 < vf_len f \<and> vf_end f \<le> hi"
  by (induction g arbitrary: lo) fastforce+

lemma wf_folds_nested: "wf_folds lo hi g \<Longrightarrow> f \<in> set g \<Longrightarrow> wf_folds 0 (int (vf_len f)) (vf_nested f)"
  by (induction g arbitrary: lo) auto

lemma wf_folds_order: "wf_folds lo hi g \<Longrightarrow> i < j \<Longrightarrow> j < length g \<Longrightarrow> vf_end (g ! i) \<le> int (vf_top (g ! j))"
proof (induction g arbitrary: lo i j)
  case (Cons f fs)
  show ?case
  proof (cases i)
    case 0
    then have "g' = fs ! (j - 1) \<Longrightarrow> vf_end f \<le> int (vf_top g')" for g'
      using wf_folds_bounds [of "vf_end f" hi fs "fs ! (j - 1)"] Cons.prems by simp
    then show ?thesis using 0 Cons.prems(2) by (simp add: nth_Cons')
  next
    case (Suc i')
    then show ?thesis using Cons.IH [of "vf_end f" i' "j - 1"] Cons.prems by (cases j) auto
  qed
qed simp

text \<open>What \<open>fold_find\<close> promises: a fold that contains the line, or the first one below it.\<close>

definition find_ok :: "vfold list \<Rightarrow> int \<Rightarrow> nat \<times> bool \<Rightarrow> bool" where
  "find_ok g n r \<longleftrightarrow>
     fst r \<le> length g \<and> (\<forall>j<fst r. vf_end (g ! j) \<le> n) \<and>
     (if snd r then fst r < length g \<and> int (vf_top (g ! fst r)) \<le> n \<and> n < vf_end (g ! fst r)
      else \<forall>j. fst r \<le> j \<longrightarrow> j < length g \<longrightarrow> n < int (vf_top (g ! j)))"

lemma find_loop_ok:
  assumes "wf_folds lo hi g"
  shows "0 \<le> low \<Longrightarrow> low \<le> high + 1 \<Longrightarrow> high < int (length g) \<Longrightarrow>
    \<forall>j. int j < low \<longrightarrow> vf_end (g ! j) \<le> n \<Longrightarrow>
    \<forall>j. high < int j \<longrightarrow> j < length g \<longrightarrow> n < int (vf_top (g ! j)) \<Longrightarrow> find_ok g n (find_loop g n low high)"
proof (induction "nat (high - low + 1)" arbitrary: low high rule: less_induct)
  case less
  note step = find_loop.simps [of g n low high]
  let ?i = "(low + high) div 2"
  show ?case
  proof (cases "low \<le> high")
    case False
    then have "find_loop g n low high = (nat low, False)" by (simp add: step)
    then show ?thesis using False less.prems by (auto simp: find_ok_def)
  next
    case True
    then have i: "low \<le> ?i" "?i \<le> high" "nat ?i < length g" "int (nat ?i) = ?i" using less.prems(1,3) by auto
    have before: "vf_end (g ! j) \<le> int (vf_top (g ! nat ?i))" if "j < nat ?i" for j
      using wf_folds_order [OF assms that i(3)] .
    have after: "vf_end (g ! nat ?i) \<le> int (vf_top (g ! j))" if "nat ?i < j" "j < length g" for j
      using wf_folds_order [OF assms that] .
    have ti: "int (vf_top (g ! nat ?i)) \<le> vf_end (g ! nat ?i)" by simp
    consider "n < int (vf_top (g ! nat ?i))" | "vf_end (g ! nat ?i) \<le> n"
      | "int (vf_top (g ! nat ?i)) \<le> n" "n < vf_end (g ! nat ?i)" by linarith
    then show ?thesis
    proof cases
      case 1
      have "n < int (vf_top (g ! j))" if "?i - 1 < int j" "j < length g" for j
      proof (cases "j = nat ?i")
        case False
        then have "nat ?i < j" using that(1) i by linarith
        then show ?thesis using after [OF _ that(2)] 1 ti by linarith
      qed (use 1 in simp)
      then have "find_ok g n (find_loop g n low (?i - 1))"
        using less.prems i True by (intro less.hyps) auto
      then show ?thesis using 1 True by (simp add: step Let_def)
    next
      case 2
      have "vf_end (g ! j) \<le> n" if "int j < ?i + 1" for j
      proof (cases "j = nat ?i")
        case False
        then have "j < nat ?i" using that i by linarith
        then show ?thesis using before 2 ti by (meson order_trans)
      qed (use 2 in simp)
      then have "find_ok g n (find_loop g n (?i + 1) high)"
        using less.prems i True by (intro less.hyps) auto
      then show ?thesis using 2 True ti by (simp add: step Let_def)
    next
      case 3
      then have "find_loop g n low high = (nat ?i, True)" using True by (simp add: step Let_def)
      then show ?thesis using 3 i before by (fastforce simp: find_ok_def)
    qed
  qed
qed

lemma fold_find_ok: "wf_folds lo hi g \<Longrightarrow> find_ok g n (fold_find g n)"
  by (cases "g = []") (auto simp: fold_find_def find_ok_def [of "[]"] intro!: find_loop_ok)

text \<open>The folds on the two sides of a line that no fold contains, and around one that contains it.\<close>

lemma fold_find_apart:
  assumes "wf_folds lo hi (ls @ rs)" "\<forall>f\<in>set ls. vf_end f \<le> n" "\<forall>f\<in>set rs. n < int (vf_top f)"
  shows "fold_find (ls @ rs) n = (length ls, False)"
proof -
  obtain i b where r: "fold_find (ls @ rs) n = (i, b)" by force
  with fold_find_ok [OF assms(1), of n] have ok: "find_ok (ls @ rs) n (i, b)" by simp
  have l: "vf_end ((ls @ rs) ! j) \<le> n" if "j < length ls" for j using that assms(2) by (simp add: nth_append)
  have g: "n < int (vf_top ((ls @ rs) ! j))" if "length ls \<le> j" "j < length (ls @ rs)" for j
    using that assms(3) by (simp add: nth_append)
  have tl: "int (vf_top f) \<le> vf_end f" for f by simp
  have "\<not> b"
  proof
    assume "b"
    then have "i < length (ls @ rs)" "int (vf_top ((ls @ rs) ! i)) \<le> n" "n < vf_end ((ls @ rs) ! i)"
      using ok by (auto simp: find_ok_def)
    then show False using l [of i] g [of i] by (cases "i < length ls") auto
  qed
  moreover have "i = length ls"
  proof (rule linorder_cases [of i "length ls"])
    assume "i < length ls"
    then show ?thesis using ok l [of i] tl [of "(ls @ rs) ! i"] \<open>\<not> b\<close> by (auto simp: find_ok_def)
  next
    assume "length ls < i"
    then show ?thesis using ok g [of "length ls"] tl [of "(ls @ rs) ! length ls"] by (fastforce simp: find_ok_def)
  qed
  ultimately show ?thesis using r by simp
qed

lemma fold_find_inside:
  assumes "wf_folds lo hi (ls @ f # rs)" "int (vf_top f) \<le> n" "n < vf_end f"
  shows "fold_find (ls @ f # rs) n = (length ls, True)"
proof -
  let ?g = "ls @ f # rs"
  obtain i b where r: "fold_find ?g n = (i, b)" by force
  with fold_find_ok [OF assms(1), of n] have ok: "find_ok ?g n (i, b)" by simp
  have at: "?g ! length ls = f" by simp
  have tl: "int (vf_top f) \<le> vf_end f" for f by simp
  have "i \<le> length ls"
  proof (rule ccontr)
    assume "\<not> i \<le> length ls"
    then have "vf_end (?g ! length ls) \<le> n" using ok unfolding find_ok_def fst_conv by (metis not_le)
    then show False using assms(3) at by simp
  qed
  moreover have "b"
  proof (rule ccontr)
    assume "\<not> b"
    then have "\<forall>j. i \<le> j \<longrightarrow> j < length ?g \<longrightarrow> n < int (vf_top (?g ! j))" using ok by (simp add: find_ok_def)
    then have "n < int (vf_top (?g ! length ls))" using \<open>i \<le> length ls\<close> by auto
    then show False using assms(2) at by simp
  qed
  moreover have "length ls \<le> i"
  proof (rule ccontr)
    assume "\<not> length ls \<le> i"
    then have "vf_end (?g ! i) \<le> int (vf_top f)" using wf_folds_order [OF assms(1), of i "length ls"] at by simp
    then show False using ok \<open>b\<close> assms(2) by (simp add: find_ok_def)
  qed
  ultimately show ?thesis using r by simp
qed

lemma folds_cases:
  assumes "wf_folds lo hi g"
  obtains (apart) ls rs where "g = ls @ rs" "\<forall>f\<in>set ls. vf_end f \<le> n" "\<forall>f\<in>set rs. n \<le> int (vf_top f)"
  | (inside) ls f rs where "g = ls @ f # rs" "int (vf_top f) < n" "n < vf_end f"
proof (cases "\<exists>f\<in>set g. int (vf_top f) < n \<and> n < vf_end f")
  case True
  then show ?thesis using split_list inside by metis
next
  case False
  have "\<exists>ls rs. g = ls @ rs \<and> (\<forall>f\<in>set ls. vf_end f \<le> n) \<and> (\<forall>f\<in>set rs. n \<le> int (vf_top f))"
    using assms False
  proof (induction g arbitrary: lo)
    case (Cons f fs)
    show ?case
    proof (cases "vf_end f \<le> n")
      case True
      obtain ls rs where "fs = ls @ rs" "\<forall>f\<in>set ls. vf_end f \<le> n" "\<forall>f\<in>set rs. n \<le> int (vf_top f)"
        using Cons.IH [of "vf_end f"] Cons.prems by auto
      then show ?thesis using True by (intro exI [of _ "f # ls"] exI [of _ rs]) simp
    next
      case False
      then have "n \<le> int (vf_top f)" using Cons.prems by auto
      moreover have "vf_end f \<le> int (vf_top h)" if "h \<in> set fs" for h
        using wf_folds_bounds [of "vf_end f" hi fs h] Cons.prems(1) that by simp
      then have "n \<le> int (vf_top h)" if "h \<in> set fs" for h using that calculation by fastforce
      ultimately show ?thesis by (intro exI [of _ "[]"] exI [of _ "f # fs"]) simp
    qed
  qed simp
  then show ?thesis using apart by blast
qed

section \<open>Splitting and removing\<close>

lemma depth_inside: "int (vf_top f) \<le> n \<Longrightarrow> n < vf_end f \<Longrightarrow> depth (f # fs) n \<noteq> 0"
  by simp

lemma depth_last_line: "0 < vf_len f \<Longrightarrow> depth (f # fs) (vf_end f - 1) \<noteq> 0"
  by (rule depth_inside) linarith+

lemma wf_folds_shrink:
  "wf_folds lo hi g \<Longrightarrow> \<forall>n. m \<le> n \<longrightarrow> n < hi \<longrightarrow> depth g n = 0 \<Longrightarrow> wf_folds lo m g"
proof (induction g arbitrary: lo)
  case (Cons f fs)
  have "0 < vf_len f" using Cons.prems(1) by simp
  then have "depth (f # fs) (vf_end f - 1) \<noteq> 0" by (rule depth_last_line)
  moreover have "m \<le> vf_end f - 1 \<longrightarrow> vf_end f - 1 < hi \<longrightarrow> depth (f # fs) (vf_end f - 1) = 0"
    by (rule spec [OF Cons.prems(2)])
  ultimately have "\<not> (m \<le> vf_end f - 1 \<and> vf_end f - 1 < hi)" by (metis (no_types))
  then have "vf_end f \<le> m" using Cons.prems(1) by auto
  moreover have "\<forall>n. m \<le> n \<longrightarrow> n < hi \<longrightarrow> depth fs n = 0" using Cons.prems(2) by auto
  ultimately show ?case using Cons.IH Cons.prems(1) by simp
qed simp

lemma wf_folds_moved:
  "wf_folds lo hi g \<Longrightarrow> 0 \<le> lo - d \<Longrightarrow> wf_folds (lo - d) (hi - d) (map (\<lambda>f. set_top (nat (int (vf_top f) - d)) f) g)"
proof (induction g arbitrary: lo)
  case (Cons f fs)
  have "int (nat (int (vf_top f) - d)) = int (vf_top f) - d" using Cons.prems by simp
  moreover have "wf_folds (vf_end f - d) (hi - d) (map (\<lambda>f. set_top (nat (int (vf_top f) - d)) f) fs)"
    using Cons.prems by (intro Cons.IH) auto
  ultimately show ?case using Cons.prems by (simp add: algebra_simps)
qed simp

lemma depth_map_moved:
  "wf_folds lo hi g \<Longrightarrow> 0 \<le> lo - d \<Longrightarrow> depth (map (\<lambda>f. set_top (nat (int (vf_top f) - d)) f) g) n = depth g (n + d)"
proof (induction g arbitrary: lo)
  case (Cons f fs)
  have "int (nat (int (vf_top f) - d)) = int (vf_top f) + (- d)" using Cons.prems by simp
  then have "depth (map (\<lambda>f. set_top (nat (int (vf_top f) - d)) f) (f # fs)) n = depth [f] (n - (- d)) +
      depth (map (\<lambda>f. set_top (nat (int (vf_top f) - d)) f) fs) n"
    unfolding list.map by (intro depth_moved) simp_all
  moreover have "depth (map (\<lambda>f. set_top (nat (int (vf_top f) - d)) f) fs) n = depth fs (n + d)"
    using Cons.prems by (intro Cons.IH [of "vf_end f"]) auto
  ultimately show ?case by simp
qed simp

lemma depth_zero_apart:
  assumes "wf_folds lo hi g" "depth g (n - 1) = 0"
  obtains ls rs where "g = ls @ rs" "\<forall>f\<in>set ls. vf_end f \<le> n" "\<forall>f\<in>set rs. n \<le> int (vf_top f)"
  using assms(1)
proof (cases rule: folds_cases [where n = n])
  case (inside ls f rs)
  then have "depth g (n - 1) \<noteq> 0" by simp
  then show ?thesis using assms(2) by simp
qed (use that in blast)

lemma wf_folds_prefix_bound:
  "wf_folds lo hi g \<Longrightarrow> \<forall>f\<in>set g. vf_end f \<le> m \<Longrightarrow> wf_folds lo m g"
  by (induction g arbitrary: lo) auto

lemma wf_folds_suffix_bound:
  "wf_folds lo hi g \<Longrightarrow> \<forall>f\<in>set g. m \<le> int (vf_top f) \<Longrightarrow> wf_folds m hi g"
  by (cases g) auto

text \<open>The fold at \<open>i\<close> becomes one above \<open>tp\<close> and one below \<open>bt\<close>, if no nested fold meets the lines between.\<close>

lemma fold_split_ok:
  assumes wf: "wf_folds 0 (int (vf_len f)) (vf_nested f)" and lines: "int (vf_top f) < tp" "tp \<le> bt + 1" "bt + 1 < vf_end f"
    and none: "\<forall>n. tp \<le> n \<longrightarrow> n \<le> bt \<longrightarrow> depth (vf_nested f) (n - int (vf_top f)) = 0"
    and apart: "depth (vf_nested f) (bt - int (vf_top f)) = 0"
  obtains f1 f2 where "fold_split (ls @ f # rs) (length ls) tp bt = Some (ls @ f1 # f2 # rs)"
    "vf_top f1 = vf_top f" "vf_end f1 = tp" "int (vf_top f2) = bt + 1" "vf_end f2 = vf_end f"
    "wf_folds 0 (int (vf_len f1)) (vf_nested f1)" "wf_folds 0 (int (vf_len f2)) (vf_nested f2)"
    "\<And>n. depth [f1, f2] n = (if tp \<le> n \<and> n \<le> bt then 0 else depth [f] n)"
proof -
  let ?t = "int (vf_top f)" and ?d = "bt + 1 - int (vf_top f)"
  have "depth (vf_nested f) (?d - 1) = 0" using apart by (simp add: algebra_simps)
  from depth_zero_apart [OF wf this] obtain as bs where
    split: "vf_nested f = as @ bs" "\<forall>g\<in>set as. vf_end g \<le> ?d" "\<forall>g\<in>set bs. ?d \<le> int (vf_top g)" by blast
  have wf2: "wf_folds 0 (int (vf_len f)) as" "wf_folds ?d (int (vf_len f)) bs"
    using wf split by (auto simp: wf_folds_append intro: wf_folds_suffix_bound)
  let ?moved = "map (\<lambda>g. set_top (nat (int (vf_top g) - ?d)) g) bs"
  let ?f1 = "set_len (nat (tp - ?t)) (set_nested as (set_small TriNone f))"
  let ?f2 = "set_nested ?moved (set_small TriNone (set_vf_flags (vf_flags f)
    (set_len (nat (int (vf_len f) - ?d)) (set_top (nat (bt + 1)) vfold_default))))"
  have find: "fst (fold_find (vf_nested f) ?d) = length as"
  proof (cases "\<exists>g bs'. bs = g # bs' \<and> int (vf_top g) = ?d")
    case True
    then obtain g bs' where "bs = g # bs'" "int (vf_top g) = ?d" by blast
    then show ?thesis using fold_find_inside [of 0 "int (vf_len f)" as g bs' ?d] wf split(1) wf2(2) by auto
  next
    case False
    then have "\<forall>g\<in>set bs. ?d < int (vf_top g)"
      using wf2(2) split(3) wf_folds_bounds [OF wf2(2)] by (cases bs) (fastforce dest: wf_folds_bounds)+
    then show ?thesis using fold_find_apart [of 0 "int (vf_len f)" as bs ?d] wf split(1,2) by auto
  qed
  have bs: "length as < length (vf_nested f) \<longleftrightarrow> bs \<noteq> []" and parts: "take (length as) (vf_nested f) = as"
    "drop (length as) (vf_nested f) = bs" using split(1) by auto
  obtain fnd where fnd: "fold_find (vf_nested f) ?d = (length as, fnd)" using find by (metis prod.collapse)
  have ins: "fold_insert (ls @ f # rs) (Suc (length ls)) = Some (ls @ f # vfold_default # rs)"
    by (simp add: fold_insert_def)
  have same: "bs = [] \<Longrightarrow> set_nested as (set_small TriNone f) = set_small TriNone f"
    "bs = [] \<Longrightarrow> set_nested ?moved vfold_default = vfold_default"
    using split(1) by (simp_all add: vfold_default_def) (cases f; simp)
  have "fold_split (ls @ f # rs) (length ls) tp bt = Some (ls @ ?f1 # ?f2 # rs)"
    using same
    by (cases "bs = []")
      (simp_all add: fold_split_def ins fnd bs parts Let_def list_update_append nth_append vfold_default_def)
  moreover have len: "int (nat (tp - ?t)) = tp - ?t" "int (nat (int (vf_len f) - ?d)) = int (vf_len f) - ?d"
    "int (nat (bt + 1)) = bt + 1" using lines by auto
  moreover have "wf_folds 0 (tp - ?t) as"
  proof (rule wf_folds_shrink [OF wf2(1)], intro allI impI)
    fix n
    assume n: "tp - ?t \<le> n" "n < int (vf_len f)"
    show "depth as n = 0"
    proof (cases "n \<le> bt - ?t")
      case True
      then have "depth (vf_nested f) (n + ?t - ?t) = 0" using none n by (metis add_le_cancel_right diff_add_cancel)
      then show ?thesis using split(1) by simp
    next
      case False
      have "wf_folds 0 ?d as" using wf2(1) split(2) by (rule wf_folds_prefix_bound)
      then show ?thesis using False by (intro depth_outside) auto
    qed
  qed
  moreover have "wf_folds 0 (int (vf_len f) - ?d) ?moved"
    using wf_folds_moved [OF wf2(2), of ?d] by simp
  moreover have "depth [?f1, ?f2] n = (if tp \<le> n \<and> n \<le> bt then 0 else depth [f] n)" for n
  proof -
    have nested: "depth (vf_nested f) (n - ?t) = depth as (n - ?t) + depth bs (n - ?t)" using split(1) by simp
    have "depth bs (n - ?t) = 0" if "n \<le> bt" using depth_outside [OF wf2(2)] that by simp
    moreover have "depth as (n - ?t) = 0" if "tp \<le> n"
      using depth_outside [OF \<open>wf_folds 0 (tp - ?t) as\<close>] that by simp
    moreover have "depth ?moved (n - (bt + 1)) = depth bs (n - ?t)"
      using depth_map_moved [OF wf2(2), of ?d] by simp
    ultimately show ?thesis using lines nested len by auto
  qed
  ultimately show ?thesis using lines by (intro that [of ?f1 ?f2]) simp_all
qed

text \<open>Without a fold across \<open>tp\<close> the folds from \<open>tp\<close> on are deleted until one reaches below \<open>bt\<close>.\<close>

fun clear_front :: "int \<Rightarrow> vfold list \<Rightarrow> vfold list" where
  "clear_front bt [] = []"
| "clear_front bt (f # rs) =
     (if int (vf_top f) > bt then f # rs
      else if vf_end f - 1 > bt then
        set_top (nat (bt + 1)) (set_len (nat (int (vf_len f) - (bt - int (vf_top f) + 1)))
          (set_nested (fold_mark_adjust_recurse (vf_nested f) 0 (bt - int (vf_top f)) maxlnum (int (vf_top f) - bt - 1) False) f)) # rs
      else clear_front bt rs)"

lemma fold_remove_front:
  assumes "tp \<le> bt"
  shows "wf_folds lo hi (ls @ rs) \<Longrightarrow> \<forall>f\<in>set ls. vf_end f \<le> tp \<Longrightarrow> \<forall>f\<in>set rs. tp \<le> int (vf_top f) \<Longrightarrow>
    fold_remove (ls @ rs) tp bt = Some (ls @ clear_front bt rs)"
proof (induction rs)
  case Nil
  have "fold_find ls tp = (length ls, False)" using fold_find_apart [of lo hi ls "[]" tp] Nil by simp
  then show ?case by (subst fold_remove.simps) simp
next
  case (Cons f rs)
  have tp: "tp \<le> int (vf_top f)" "0 < vf_len f" using Cons.prems by (auto dest: wf_folds_bounds)
  have find: "fst (fold_find (ls @ f # rs) tp) = length ls"
  proof (cases "int (vf_top f) = tp")
    case True
    then show ?thesis using fold_find_inside [of lo hi ls f rs tp] Cons.prems(1) tp by simp
  next
    case False
    moreover have "int (vf_top f) \<le> int (vf_top g)" if "g \<in> set rs" for g
      using Cons.prems(1) that by (auto simp: wf_folds_append dest: wf_folds_bounds)
    ultimately have "\<forall>g\<in>set (f # rs). tp < int (vf_top g)" using tp by fastforce
    then show ?thesis using fold_find_apart [of lo hi ls "f # rs" tp] Cons.prems(1,2) by simp
  qed
  obtain found where found: "fold_find (ls @ f # rs) tp = (length ls, found)" using find by (metis prod.collapse)
  have f: "fold_at (ls @ f # rs) (length ls) = f" by (simp add: fold_at_def)
  have removed: "remove_at (length ls) (ls @ f # rs) = ls @ rs" by (simp add: remove_at_def)
  have "wf_folds lo hi (ls @ rs)"
    using Cons.prems(1) by (auto simp: wf_folds_append elim: wf_folds_mono split: if_splits)
  then have "fold_remove (ls @ rs) tp bt = Some (ls @ clear_front bt rs)" using Cons by simp
  then show ?case
    using assms tp by (subst fold_remove.simps) (simp add: found f removed Let_def)
qed

lemma clear_front_ok:
  assumes "tp \<le> bt" "0 \<le> bt + 1"
  shows "wf_folds lo hi rs \<Longrightarrow> wf_folds (max lo (bt + 1)) hi (clear_front bt rs) \<and>
    depth (clear_front bt rs) n = (if n \<le> bt then 0 else depth rs n)"
proof (induction rs arbitrary: lo)
  case (Cons f rs)
  let ?t = "int (vf_top f)" and ?l = "int (vf_len f)"
  note prems = Cons.prems [unfolded wf_folds.simps]
  consider "bt < ?t" | "?t \<le> bt" "vf_end f - 1 \<le> bt" | "?t \<le> bt" "bt < vf_end f - 1" by linarith
  then show ?case
  proof cases
    case 1
    then show ?thesis using prems depth_outside [of "vf_end f" hi rs n] by auto
  next
    case 2
    moreover have "max (vf_end f) (bt + 1) = max lo (bt + 1)" using 2 prems by linarith
    ultimately show ?thesis using Cons.IH [of "vf_end f"] prems by auto
  next
    case 3
    let ?n = "fold_mark_adjust_recurse (vf_nested f) 0 (bt - ?t) maxlnum (?t - bt - 1) False"
    let ?f = "set_top (nat (bt + 1)) (set_len (nat (?l - (bt - ?t + 1))) (set_nested ?n f))"
    have len: "int (nat (bt + 1)) = bt + 1" "int (nat (?l - (bt - ?t + 1))) = ?l - (bt - ?t + 1)" "0 < nat (?l - (bt - ?t + 1))"
      using 3 assms by auto
    have "0 - (bt - ?t) - 1 = ?t - bt - 1" by simp
    then have n: "wf_folds 0 (cut_lines 0 (bt - ?t) ?l) ?n"
      "\<And>n. depth ?n n = depth (vf_nested f) (if n < 0 then n else n + (bt - ?t + 1))"
      using delete_lines [of 0 "bt - ?t" 0 ?l "vf_nested f" False] 3 prems by simp_all
    have cut: "cut_lines 0 (bt - ?t) ?l = ?l - (bt - ?t + 1)" using 3 by (simp add: cut_lines_def)
    have eq: "clear_front bt (f # rs) = ?f # rs" using 3 by simp
    have "wf_folds (max lo (bt + 1)) hi (?f # rs)"
      using 3 prems n(1) cut len by (simp add: add.commute [of "int (vf_len f)"])
    moreover have "n - (bt + 1) + (bt - ?t + 1) = n - ?t" by simp
    then have "depth (?f # rs) n = (if n \<le> bt then 0 else depth (f # rs) n)"
      using 3 n(2) prems depth_outside [of "vf_end f" hi rs n] len by auto
    ultimately show ?thesis unfolding eq by (rule conjI)
  qed
qed simp

lemma size_nested_mem: "f \<in> set g \<Longrightarrow> size_list size (vf_nested f) < size_list size g"
  using size_nested_nth [of _ g] by (auto simp: in_set_conv_nth)

lemma wf_folds_around:
  assumes "wf_folds lo hi (ls @ f # rs)"
  shows "wf_folds lo (int (vf_top f)) ls" "wf_folds (vf_end f) hi rs"
proof -
  have "vf_end g \<le> int (vf_top f)" if mem: "g \<in> set ls" for g
  proof -
    obtain i where i: "i < length ls" "ls ! i = g" using mem by (auto simp: in_set_conv_nth)
    have "vf_end ((ls @ f # rs) ! i) \<le> int (vf_top ((ls @ f # rs) ! length ls))"
      by (rule wf_folds_order [OF assms]) (use i(1) in simp_all)
    then show ?thesis using i by (simp add: nth_append)
  qed
  then have "\<forall>g\<in>set ls. vf_end g \<le> int (vf_top f)" by (rule ballI)
  moreover have "wf_folds lo hi ls" using assms by (simp add: wf_folds_append)
  ultimately show "wf_folds lo (int (vf_top f)) ls" by (metis wf_folds_prefix_bound)
  show "wf_folds (vf_end f) hi rs" using assms by (simp add: wf_folds_append)
qed

text \<open>Replacing a fold by folds in its place.\<close>

lemma wf_folds_replace:
  assumes "wf_folds lo hi (ls @ f # rs)" "wf_folds (int (vf_top f)) (vf_end f) fs"
  shows "wf_folds lo hi (ls @ fs @ rs)"
proof -
  have "wf_folds lo (int (vf_top f)) ls" "wf_folds (vf_end f) hi rs" by (rule wf_folds_around [OF assms(1)])+
  moreover have "lo \<le> int (vf_top f)" "vf_end f \<le> hi" using wf_folds_bounds [OF assms(1), of f] by auto
  moreover have "ls \<noteq> [] \<Longrightarrow> vf_end (last ls) \<le> int (vf_top f)"
    using wf_folds_bounds [OF calculation(1), of "last ls"] by simp
  moreover have "fs \<noteq> [] \<Longrightarrow> vf_end (last fs) \<le> vf_end f"
    using wf_folds_bounds [OF assms(2), of "last fs"] by simp
  ultimately show ?thesis using assms(2)
    by (auto simp: wf_folds_append elim!: wf_folds_mono)
qed

lemma fold_remove_ok:
  assumes "wf_folds lo hi g" "tp \<le> bt" "0 \<le> bt + 1"
  shows "\<exists>g'. fold_remove g tp bt = Some g' \<and> wf_folds lo hi g' \<and>
    (\<forall>n. depth g' n = (if tp \<le> n \<and> n \<le> bt then 0 else depth g n))"
  using assms
proof (induction g arbitrary: lo hi tp bt rule: measure_induct_rule [of "size_list size"])
  case (less g)
  note front = fold_remove_front [OF less.prems(2)] and clear = clear_front_ok [OF less.prems(2,3)]
  from less.prems(1) show ?case
  proof (cases rule: folds_cases [where n = tp])
    case (apart ls rs)
    have wf: "wf_folds lo hi (ls @ rs)" using less.prems(1) apart(1) by simp
    have rs: "wf_folds (max lo tp) hi rs"
    proof (rule wf_folds_suffix_bound)
      show "wf_folds (if ls = [] then lo else vf_end (last ls)) hi rs" using wf by (simp add: wf_folds_append)
      show "\<forall>f\<in>set rs. max lo tp \<le> int (vf_top f)"
      proof
        fix f
        assume "f \<in> set rs"
        then show "max lo tp \<le> int (vf_top f)" using apart(3) wf_folds_bounds [OF wf, of f] by simp
      qed
    qed
    then have c: "wf_folds (max (max lo tp) (bt + 1)) hi (clear_front bt rs)"
      "\<And>n. depth (clear_front bt rs) n = (if n \<le> bt then 0 else depth rs n)"
      using clear by blast+
    have "wf_folds lo hi ls" using wf by (simp add: wf_folds_append)
    moreover have "depth rs n = 0" if "n < tp" for n using that by (intro depth_outside [OF rs]) auto
    moreover have "depth ls n = 0" if "tp \<le> n" for n
      using depth_outside [OF wf_folds_prefix_bound [OF \<open>wf_folds lo hi ls\<close> apart(2)]] that by simp
    moreover have "ls \<noteq> [] \<Longrightarrow> vf_end (last ls) \<le> tp" using apart(2) by simp
    ultimately show ?thesis
      using front [OF wf apart(2,3)] apart(1) c less.prems(2)
      by (intro exI [of _ "ls @ clear_front bt rs"]) (auto simp: wf_folds_append elim!: wf_folds_mono)
  next
    case (inside ls f rs)
    let ?t = "int (vf_top f)" and ?l = "int (vf_len f)"
    have wf: "wf_folds lo hi (ls @ f # rs)" using less.prems(1) inside(1) by simp
    note around = wf_folds_around [OF wf] and bounds = wf_folds_bounds [OF wf, of f]
    have mem: "f \<in> set g" using inside(1) by simp
    have "0 \<le> bt - ?t + 1" using inside(2) less.prems(2) by simp
    from less.IH [OF size_nested_mem [OF mem] wf_folds_nested [OF less.prems(1) mem] _ this, of "tp - ?t"] less.prems(2)
    obtain h where h: "fold_remove (vf_nested f) (tp - ?t) (bt - ?t) = Some h" "wf_folds 0 ?l h"
      "\<And>n. depth h n = (if tp - ?t \<le> n \<and> n \<le> bt - ?t then 0 else depth (vf_nested f) n)" by auto
    have found: "fold_find g tp = (length ls, True)" "fold_at g (length ls) = f"
      using fold_find_inside [OF wf, of tp] inside by (auto simp: fold_at_def)
    have len: "length ls < length g" using inside(1) by simp
    have ne: "\<not> (bt < tp \<or> g = [])" using less.prems(2) inside(1) by auto
    have set1: "g[length ls := x] = ls @ x # rs" for x using inside(1) by (simp add: list_update_append)
    note step = fold_remove.simps [of g tp bt]
    have out: "depth ls n = 0 \<and> depth rs n = 0" if "?t \<le> n" "n < vf_end f" for n
      using depth_outside [OF around(1)] depth_outside [OF around(2)] that by simp
    have rs: "\<forall>r\<in>set rs. tp \<le> int (vf_top r)"
      using wf_folds_bounds [OF around(2)] inside(3) by fastforce
    have ls: "\<forall>l\<in>set ls. vf_end l \<le> tp" using wf_folds_bounds [OF around(1)] inside(2) by fastforce
    show ?thesis
    proof (cases "bt < vf_end f - 1")
      case True
      let ?f = "set_nested h f"
      obtain f1 f2 where s: "fold_split (ls @ ?f # rs) (length ls) tp bt = Some (ls @ f1 # f2 # rs)"
        "vf_top f1 = vf_top ?f" "vf_end f1 = tp" "int (vf_top f2) = bt + 1" "vf_end f2 = vf_end ?f"
        "wf_folds 0 (int (vf_len f1)) (vf_nested f1)" "wf_folds 0 (int (vf_len f2)) (vf_nested f2)"
        and d: "\<And>n. depth [f1, f2] n = (if tp \<le> n \<and> n \<le> bt then 0 else depth [?f] n)"
        by (rule fold_split_ok [of ?f tp bt ls rs]) (use h True inside less.prems(2) in auto)
      have wf': "wf_folds lo hi (ls @ [f1, f2] @ rs)"
        using s inside(2) less.prems(2) True by (intro wf_folds_replace [OF wf]) auto
      have "fold_remove g tp bt = fold_remove ((ls @ [f1]) @ (f2 # rs)) tp bt"
        using True inside(2) s(1) ne by (simp add: step found set1 h(1) Let_def)
      also have "\<dots> = Some (ls @ [f1, f2] @ rs)"
        using front [of lo hi "ls @ [f1]" "f2 # rs"] wf' ls rs s(3,4) less.prems(2) by simp
      finally have "fold_remove g tp bt = Some (ls @ [f1, f2] @ rs)" .
      moreover have "depth (ls @ [f1, f2] @ rs) n = (if tp \<le> n \<and> n \<le> bt then 0 else depth g n)" for n
        using d [of n] h(3) [of "n - ?t"] out [of n] inside True unfolding depth_append by auto
      ultimately show ?thesis using wf' by blast
    next
      case False
      let ?f = "set_len (nat (tp - ?t)) (set_nested h f)"
      have "wf_folds 0 (tp - ?t) h" using h(2,3) False by (intro wf_folds_shrink [OF h(2)]) auto
      then have wf': "wf_folds lo hi (ls @ [?f] @ rs)"
        using inside(2,3) by (intro wf_folds_replace [OF wf]) auto
      have "fold_remove g tp bt = fold_remove ((ls @ [?f]) @ rs) tp bt"
        using False inside(2) ne by (simp add: step found set1 h(1) Let_def)
      also have "\<dots> = Some ((ls @ [?f]) @ clear_front bt rs)"
        using wf' ls rs inside(2) by (intro front) auto
      finally have r: "fold_remove g tp bt = Some ((ls @ [?f]) @ clear_front bt rs)" .
      have c: "wf_folds (max (vf_end f) (bt + 1)) hi (clear_front bt rs)"
        "\<And>n. depth (clear_front bt rs) n = (if n \<le> bt then 0 else depth rs n)"
        using clear [OF around(2)] by blast+
      have "wf_folds lo hi ((ls @ [?f]) @ clear_front bt rs)"
        using wf' c(1) inside(2,3) by (auto simp: wf_folds_append elim!: wf_folds_mono)
      moreover have "depth ((ls @ [?f]) @ clear_front bt rs) n = (if tp \<le> n \<and> n \<le> bt then 0 else depth g n)" for n
        using c(2) [of n] h(3) [of "n - ?t"] out [of n] inside False depth_outside [OF around(1), of n]
          depth_outside [OF around(2), of n] unfolding depth_append by auto
      ultimately show ?thesis using r by blast
    qed
  qed
qed

section \<open>Merging\<close>

abbreviation push_down :: "nat \<Rightarrow> vfold list \<Rightarrow> vfold list" where
  "push_down k g \<equiv> map (\<lambda>f. set_top (nat (int (vf_top f) + int k)) f) g"

lemma wf_push_down: "wf_folds lo hi g \<Longrightarrow> 0 \<le> lo + int k \<Longrightarrow> wf_folds (lo + int k) (hi + int k) (push_down k g)"
  using wf_folds_moved [of lo hi g "- int k"] by simp

lemma depth_push_down: "wf_folds lo hi g \<Longrightarrow> 0 \<le> lo + int k \<Longrightarrow> depth (push_down k g) n = depth g (n - int k)"
  using depth_map_moved [of lo hi g "- int k"] by simp

lemma merge_pair_nested:
  assumes "vf_nested f1 = as" "vf_nested f2 = bs" "wf_folds 0 (int (vf_len f1)) as" "wf_folds 0 (int (vf_len f2)) bs"
    and "0 < vf_len f1" "0 < vf_len f2"
  shows "vf_nested (merge_pair f1 f2) =
    (if as \<noteq> [] \<and> vf_end (last as) = int (vf_len f1) \<and> bs \<noteq> [] \<and> vf_top (hd bs) = 0
     then butlast as @ merge_pair (last as) (hd bs) # push_down (vf_len f1) (tl bs)
     else as @ push_down (vf_len f1) bs)"
    and "vf_top (merge_pair f1 f2) = vf_top f1" "vf_len (merge_pair f1 f2) = vf_len f1 + vf_len f2"
proof -
  let ?l = "int (vf_len f1)"
  have 1: "fold_find as (?l - 1) = (length as - 1, True)" if "as \<noteq> []" "vf_end (last as) = ?l"
    using fold_find_inside [of 0 ?l "butlast as" "last as" "[]" "?l - 1"] that assms(3)
      wf_folds_bounds [OF assms(3), of "last as"] by auto
  have 2: "snd (fold_find as (?l - 1)) = False" if no: "as = [] \<or> vf_end (last as) \<noteq> ?l"
  proof (cases "as = []")
    case False
    have "vf_end f \<le> ?l - 1" if mem: "f \<in> set as" for f
    proof -
      obtain i where i: "i < length as" "as ! i = f" using mem by (auto simp: in_set_conv_nth)
      have "vf_end (last as) < ?l" using wf_folds_bounds [OF assms(3), of "last as"] no False by auto
      moreover have "vf_end f \<le> vf_end (last as)"
      proof (cases "i = length as - 1")
        case True
        then show ?thesis using i False by (simp add: last_conv_nth)
      next
        case False
        then have "vf_end (as ! i) \<le> int (vf_top (as ! (length as - 1)))"
          using i by (intro wf_folds_order [OF assms(3)]) auto
        then show ?thesis using i \<open>as \<noteq> []\<close> by (simp add: last_conv_nth)
      qed
      ultimately show ?thesis by simp
    qed
    then show ?thesis using fold_find_apart [of 0 ?l as "[]" "?l - 1"] assms(3) by simp
  qed (simp add: fold_find_def)
  have 3: "fold_find bs 0 = (0, True)" if "bs \<noteq> []" "vf_top (hd bs) = 0"
    using fold_find_inside [of 0 "int (vf_len f2)" "[]" "hd bs" "tl bs" 0] that assms(4)
      wf_folds_bounds [OF assms(4), of "hd bs"] by auto
  have 4: "snd (fold_find bs 0) = False" if "bs = [] \<or> vf_top (hd bs) \<noteq> 0"
  proof (cases bs)
    case (Cons b bs')
    have "0 < int (vf_top f)" if "f \<in> set bs" for f
      using \<open>bs = [] \<or> vf_top (hd bs) \<noteq> 0\<close> that Cons assms(4) wf_folds_bounds [of "vf_end b" "int (vf_len f2)" bs' f] by auto
    then show ?thesis using fold_find_apart [of 0 "int (vf_len f2)" "[]" bs 0] assms(4) by simp
  qed (simp add: fold_find_def)
  have upd: "as[length as - 1 := x] = butlast as @ [x]" if "as \<noteq> []" for x
    using that by (cases as rule: rev_cases) (auto simp: list_update_append)
  have rem: "remove_at 0 bs = tl bs" if "bs \<noteq> []" using that by (cases bs) (auto simp: remove_at_def)
  note step = merge_pair.simps [of f1 f2]
  show "vf_nested (merge_pair f1 f2) =
    (if as \<noteq> [] \<and> vf_end (last as) = int (vf_len f1) \<and> bs \<noteq> [] \<and> vf_top (hd bs) = 0
     then butlast as @ merge_pair (last as) (hd bs) # push_down (vf_len f1) (tl bs)
     else as @ push_down (vf_len f1) bs)"
  proof (cases "as \<noteq> [] \<and> vf_end (last as) = ?l \<and> bs \<noteq> [] \<and> vf_top (hd bs) = 0")
    case True
    have "fold_find as (?l - 1) = (length as - 1, True)" "fold_find bs 0 = (0, True)" using True 1 3 by blast+
    moreover have "last as = as ! (length as - 1)" "hd bs = bs ! 0" using True by (simp_all add: last_conv_nth hd_conv_nth)
    ultimately show ?thesis
      unfolding if_P [OF True] using True upd rem assms(1,2) by (simp add: step Let_def)
  next
    case False
    then have "\<not> (snd (fold_find as (?l - 1)) \<and> snd (fold_find bs 0))" using 2 4 by blast
    then show ?thesis
      using False assms(1,2) by (auto simp: step Let_def split: prod.splits)
  qed
  show "vf_top (merge_pair f1 f2) = vf_top f1" "vf_len (merge_pair f1 f2) = vf_len f1 + vf_len f2"
    by (simp_all add: step Let_def split: prod.splits)
qed

lemma merge_pair_ok:
  assumes "wf_folds 0 (int (vf_len f1)) (vf_nested f1)" "wf_folds 0 (int (vf_len f2)) (vf_nested f2)"
    and "0 < vf_len f1" "0 < vf_len f2"
  shows "wf_folds 0 (int (vf_len f1 + vf_len f2)) (vf_nested (merge_pair f1 f2)) \<and>
    (\<forall>n. depth (vf_nested (merge_pair f1 f2)) n =
      depth (vf_nested f1) n + depth (vf_nested f2) (n - int (vf_len f1)))"
  using assms
proof (induction f1 arbitrary: f2 rule: measure_induct_rule [of size])
  case (less f1)
  let ?as = "vf_nested f1" and ?bs = "vf_nested f2" and ?l = "vf_len f1"
  note nested = merge_pair_nested [OF refl refl less.prems]
  have push: "wf_folds (int ?l) (int (?l + vf_len f2)) (push_down ?l ?bs)"
    "\<And>n. depth (push_down ?l ?bs) n = depth ?bs (n - int ?l)"
    using wf_push_down [OF less.prems(2), of ?l] depth_push_down [OF less.prems(2), of ?l] by (simp_all add: add.commute)
  show ?case
  proof (cases "?as \<noteq> [] \<and> vf_end (last ?as) = int ?l \<and> ?bs \<noteq> [] \<and> vf_top (hd ?bs) = 0")
    case False
    have "wf_folds 0 (int (?l + vf_len f2)) (?as @ push_down ?l ?bs)"
      unfolding wf_folds_append
      using push(1) less.prems(1) wf_folds_bounds [OF less.prems(1), of "last ?as"]
      by (auto elim: wf_folds_mono)
    moreover have "vf_nested (merge_pair f1 f2) = ?as @ push_down ?l ?bs"
      using nested(1) False by (simp only: if_False)
    ultimately show ?thesis using push(2) by simp
  next
    case True
    obtain as x where as: "?as = as @ [x]" using True by (cases ?as rule: rev_cases) auto
    obtain y bs where bs: "?bs = y # bs" using True by (cases ?bs) auto
    have x: "vf_end x = int ?l" and y: "vf_top y = 0" using True as bs by auto
    have wfx: "wf_folds 0 (int (vf_len x)) (vf_nested x)" "0 < vf_len x"
      using less.prems(1) as by (auto simp: wf_folds_append)
    have wfy: "wf_folds 0 (int (vf_len y)) (vf_nested y)" "0 < vf_len y" "wf_folds (vf_end y) (int (vf_len f2)) bs"
      "vf_len y \<le> vf_len f2"
      using less.prems(2) bs y by auto
    let ?m = "merge_pair x y"
    have "size x < size f1" using size_nth_nested [of "length as" f1] as by simp
    from less.IH [OF this wfx(1) wfy(1) wfx(2) wfy(2)]
    have m: "wf_folds 0 (int (vf_len x + vf_len y)) (vf_nested ?m)"
      "\<And>n. depth (vf_nested ?m) n = depth (vf_nested x) n + depth (vf_nested y) (n - int (vf_len x))"
      by blast+
    have mt: "vf_top ?m = vf_top x" "vf_len ?m = vf_len x + vf_len y"
      using merge_pair_nested(2,3) [OF refl refl wfx(1) wfy(1) wfx(2) wfy(2)] by simp_all
    have eq: "vf_nested (merge_pair f1 f2) = as @ ?m # push_down ?l bs"
      using nested(1) True as bs by simp
    have pb: "wf_folds (int (vf_len y + ?l)) (int (?l + vf_len f2)) (push_down ?l bs)"
      "\<And>n. depth (push_down ?l bs) n = depth bs (n - int ?l)"
      using wf_push_down [OF wfy(3), of ?l] depth_push_down [OF wfy(3), of ?l] y by (simp_all add: add.commute)
    have "wf_folds 0 (int ?l) as" and last: "as \<noteq> [] \<Longrightarrow> vf_end (last as) \<le> int (vf_top x)" "as = [] \<Longrightarrow> 0 \<le> int (vf_top x)"
      using less.prems(1) as by (auto simp: wf_folds_append)
    then have "wf_folds 0 (int (?l + vf_len f2)) as" by (auto elim: wf_folds_mono)
    moreover have pm: "vf_end ?m = int (vf_len y + ?l)" using mt x by simp
    have "wf_folds (vf_end ?m) (int (?l + vf_len f2)) (push_down ?l bs)" unfolding pm by (rule pb(1))
    ultimately have "wf_folds 0 (int (?l + vf_len f2)) (as @ ?m # push_down ?l bs)"
      using m(1) mt last wfy(4) wfx(2) pm by (simp add: wf_folds_append)
    moreover have "depth (as @ ?m # push_down ?l bs) n = depth ?as n + depth ?bs (n - int ?l)" for n
    proof -
      have "n - int (vf_top x) - int (vf_len x) = n - int ?l" using x by simp
      then have "depth (vf_nested ?m) (n - int (vf_top x)) = depth (vf_nested x) (n - int (vf_top x)) + depth (vf_nested y) (n - int ?l)"
        unfolding m(2) by (simp only:)
      moreover have "depth (vf_nested x) (n - int (vf_top x)) = 0" if "int ?l \<le> n"
        using depth_outside [OF wfx(1)] that x by simp
      moreover have "depth (vf_nested y) (n - int ?l) = 0" if "n < int ?l"
        using depth_outside [OF wfy(1)] that by simp
      ultimately show ?thesis
        using mt x y pb(2) [of n] as bs by auto
    qed
    ultimately show ?thesis using eq by simp
  qed
qed

lemma fold_merge_ok:
  assumes "wf_folds lo hi (ls @ f1 # f2 # rs)" "vf_end f1 = int (vf_top f2)"
  obtains f where "fold_merge (ls @ f1 # f2 # rs) (length ls) (length ls + 1) = Some (ls @ f # rs)"
    "wf_folds lo hi (ls @ f # rs)" "vf_top f = vf_top f1" "vf_end f = vf_end f2"
    "\<And>n. depth (ls @ f # rs) n = depth (ls @ f1 # f2 # rs) n"
proof -
  let ?f = "merge_pair f1 f2"
  have wf: "wf_folds 0 (int (vf_len f1)) (vf_nested f1)" "wf_folds 0 (int (vf_len f2)) (vf_nested f2)"
    "0 < vf_len f1" "0 < vf_len f2" using assms(1) by (auto simp: wf_folds_append)
  note m = merge_pair_ok [OF wf] and top = merge_pair_nested(2,3) [OF refl refl wf]
  have "fold_merge (ls @ f1 # f2 # rs) (length ls) (length ls + 1) = Some (ls @ ?f # rs)"
    by (simp add: fold_merge_def remove_at_def nth_append list_update_append)
  moreover have fin: "vf_end ?f = vf_end f2" using top assms(2) by simp
  have "wf_folds (vf_end f2) hi rs" using assms(1) by (simp add: wf_folds_append)
  then have "wf_folds (vf_end ?f) hi rs" by (simp only: fin)
  then have "wf_folds lo hi (ls @ ?f # rs)"
    using assms m top fin by (auto simp: wf_folds_append)
  moreover have "depth (ls @ ?f # rs) n = depth (ls @ f1 # f2 # rs) n" for n
  proof -
    have "depth (vf_nested f1) (n - int (vf_top f1)) = 0" if "vf_end f1 \<le> n"
      using depth_outside [OF wf(1)] that by simp
    moreover have "depth (vf_nested f2) (n - int (vf_top f2)) = 0" if "n < int (vf_top f2)"
      using depth_outside [OF wf(2)] that by simp
    moreover have "n - int (vf_top f1) - int (vf_len f1) = n - int (vf_top f2)" using assms(2) by simp
    then have "depth (vf_nested ?f) (n - int (vf_top f1)) =
        depth (vf_nested f1) (n - int (vf_top f1)) + depth (vf_nested f2) (n - int (vf_top f2))"
      using m by (metis (no_types))
    ultimately show ?thesis using top assms(2) by auto
  qed
  ultimately show ?thesis using top assms(2) by (intro that [of ?f]) auto
qed

section \<open>The folds as ranges of lines\<close>

abbreviation line_in :: "int \<Rightarrow> nat \<times> nat \<Rightarrow> bool" where
  "line_in n r \<equiv> int (fst r) \<le> n \<and> n \<le> int (snd r)"

lemma collect_all_depth:
  "wf_folds lo hi g \<Longrightarrow> 0 \<le> lo \<Longrightarrow> length (filter (line_in n) (collect_all g off)) = depth g (n - int off)"
proof (induction g arbitrary: lo hi off rule: folds_induct)
  case (Cons f fs)
  let ?t = "off + vf_top f"
  have "length (filter (line_in n) (collect_all (vf_nested f) ?t)) = depth (vf_nested f) (n - int ?t)"
    using Cons.prems(1) by (intro Cons.IH(1) [of 0 "int (vf_len f)"]) auto
  moreover have "length (filter (line_in n) (collect_all fs off)) = depth fs (n - int off)"
    using Cons.prems by (intro Cons.IH(2) [of "vf_end f" hi]) auto
  moreover have "n - int ?t = n - int off - int (vf_top f)" by simp
  moreover have "depth (vf_nested f) (n - int ?t) = 0" if "\<not> (int ?t \<le> n \<and> n < int ?t + int (vf_len f))"
    using depth_outside [of 0 "int (vf_len f)"] Cons.prems(1) that by auto
  moreover have "line_in n (?t, ?t + (vf_len f - 1)) \<longleftrightarrow> int ?t \<le> n \<and> n < int ?t + int (vf_len f)"
    using Cons.prems(1) by auto
  ultimately show ?case by (auto simp: Let_def diff_diff_eq)
qed simp

lemma collect_closed_bounds:
  "wf_folds lo hi g \<Longrightarrow> 0 \<le> lo \<Longrightarrow> r \<in> set (collect_closed g fl fm level off ul) \<Longrightarrow>
   int off + lo \<le> int (fst r) \<and> int (snd r) < int off + hi"
proof (induction g arbitrary: lo hi level off ul rule: folds_induct)
  case (Cons f fs)
  obtain c u where cu: "check_closed f ul level fl fm = (c, u)" by force
  consider "c" "r = (off + vf_top f, off + vf_top f + (vf_len f - 1))"
    | "r \<in> set (collect_closed (vf_nested f) fl fm (level + 1) (off + vf_top f) u)"
    | "r \<in> set (collect_closed fs fl fm level off ul)"
    using Cons.prems(3) cu by (auto simp: Let_def split: if_splits)
  then show ?case
  proof cases
    case 1
    then show ?thesis using Cons.prems(1) by auto
  next
    case 2
    then show ?thesis using Cons.IH(1) [of 0 "int (vf_len f)" "level + 1" "off + vf_top f" u] Cons.prems(1) by auto
  next
    case 3
    then show ?thesis using Cons.IH(2) [of "vf_end f" hi level off ul] Cons.prems(1,2) by auto
  qed
qed simp

lemma collect_closed_apart:
  "wf_folds lo hi g \<Longrightarrow> 0 \<le> lo \<Longrightarrow> sorted_wrt (\<lambda>a b. snd a < fst b) (collect_closed g fl fm level off ul)"
proof (induction g arbitrary: lo hi level off ul rule: folds_induct)
  case (Cons f fs)
  obtain c u where cu: "check_closed f ul level fl fm = (c, u)" by force
  let ?first = "if c then [(off + vf_top f, off + vf_top f + (vf_len f - 1))]
    else collect_closed (vf_nested f) fl fm (level + 1) (off + vf_top f) u"
  have "sorted_wrt (\<lambda>a b. snd a < fst b) ?first"
    using Cons.IH(1) [of 0 "int (vf_len f)"] Cons.prems(1) by simp
  moreover have "int (snd r) < int off + vf_end f" if "r \<in> set ?first" for r
    using that Cons.prems(1) collect_closed_bounds [of 0 "int (vf_len f)" "vf_nested f" r fl fm "level + 1" "off + vf_top f" u]
    by (auto split: if_splits)
  moreover have "int off + vf_end f \<le> int (fst r)" if "r \<in> set (collect_closed fs fl fm level off ul)" for r
    using that Cons.prems collect_closed_bounds [of "vf_end f" hi fs r fl fm level off ul] by auto
  moreover have "sorted_wrt (\<lambda>a b. snd a < fst b) (collect_closed fs fl fm level off ul)"
    using Cons.IH(2) [of "vf_end f" hi] Cons.prems by simp
  ultimately show ?case
    using cu by (fastforce simp: Let_def sorted_wrt_append)
qed simp

text \<open>With every fold following 'foldlevel' a line is hidden exactly when it lies deeper.\<close>

lemma collect_closed_level:
  "wf_folds lo hi g \<Longrightarrow> 0 \<le> lo \<Longrightarrow> ul \<or> (\<forall>f\<in>set g. vf_flags f = FLevel) \<Longrightarrow>
   (\<exists>r\<in>set (collect_closed g fl 0 level off ul). line_in n r) \<longleftrightarrow> max 0 (fl - level) < int (depth g (n - int off))"
proof (induction g arbitrary: lo hi level off ul rule: folds_induct)
  case (Cons f fs)
  let ?t = "off + vf_top f" and ?hid = "\<lambda>g level off ul. \<exists>r\<in>set (collect_closed g fl 0 level off ul). line_in n r"
  have len: "0 < vf_len f" using Cons.prems(1) by simp
  then have closed: "check_closed f ul level fl 0 = (fl \<le> level, True)"
    using Cons.prems(3) by (auto simp: check_closed_def is_small_def)
  have nested: "?hid (vf_nested f) (level + 1) ?t True \<longleftrightarrow> max 0 (fl - (level + 1)) < int (depth (vf_nested f) (n - int ?t))"
    using Cons.prems(1) by (intro Cons.IH(1) [of 0 "int (vf_len f)"]) auto
  have rest: "?hid fs level off ul \<longleftrightarrow> max 0 (fl - level) < int (depth fs (n - int off))"
    using Cons.prems by (intro Cons.IH(2) [of "vf_end f" hi]) auto
  have split: "?hid (f # fs) level off ul \<longleftrightarrow>
      (if fl \<le> level then int ?t \<le> n \<and> n < int ?t + int (vf_len f) else ?hid (vf_nested f) (level + 1) ?t True) \<or>
      ?hid fs level off ul"
    using len by (auto simp: closed Let_def)
  have eq: "n - int ?t = n - int off - int (vf_top f)" by simp
  have out: "depth (vf_nested f) (n - int ?t) = 0" if "\<not> (int ?t \<le> n \<and> n < int ?t + int (vf_len f))"
    using depth_outside [of 0 "int (vf_len f)"] Cons.prems(1) that by auto
  have later: "depth fs (n - int off) = 0" if "n < int ?t + int (vf_len f)"
    using depth_outside [of "vf_end f" hi fs "n - int off"] Cons.prems(1) that by auto
  show ?case
  proof (cases "int ?t \<le> n \<and> n < int ?t + int (vf_len f)")
    case True
    then have "depth (f # fs) (n - int off) = Suc (depth (vf_nested f) (n - int ?t))"
      using later unfolding depth.simps eq by simp
    then show ?thesis using True split nested rest later by (cases "fl \<le> level", simp, simp, linarith)
  next
    case False
    then have "depth (f # fs) (n - int off) = depth fs (n - int off)" unfolding depth.simps by auto
    moreover have "\<not> ?hid (vf_nested f) (level + 1) ?t True" using nested out [OF False] by simp
    ultimately show ?thesis using False split rest by auto
  qed
qed simp

end
