(* ===== verification/FoldBuild.thy ===== *)
theory FoldBuild
  imports FoldTreeLaws
begin

text \<open>
  What \<open>fold_update\<close> builds on an empty tree, where the program uses it.  The reference is \<open>forest\<close>: at
  level \<open>k\<close> a fold is a longest run of lines of level \<open>k\<close> or more, cut where a new fold is forced to
  start.  The locale \<open>level_lines\<close> says what a level getter promises; the three getters of the program
  fulfil it.
\<close>

section \<open>The reference\<close>

text \<open>A line is its level and the level above which folds may continue from the line before.\<close>

function forest :: "int \<Rightarrow> nat \<Rightarrow> (int \<times> int) list \<Rightarrow> vfold list" where
  "forest k off [] = []"
| "forest k off (l # ls) =
     (if fst l < k \<or> MAX_LEVEL < k then forest k (Suc off) ls
      else
        let body = takeWhile (\<lambda>m. k \<le> snd m) ls
        in VFold off (Suc (length body)) (forest (k + 1) 0 (l # body)) FLevel TriNone #
           forest k (off + Suc (length body)) (dropWhile (\<lambda>m. k \<le> snd m) ls))"
  by pat_completeness auto

termination
  by (relation "measures [\<lambda>(k, _, _). nat (MAX_LEVEL + 1 - k), \<lambda>(_, _, ls). length ls]")
    (auto simp: le_imp_less_Suc length_dropWhile_le)

declare forest.simps(2) [simp del]

lemma forest_skip [simp]: "fst l < k \<or> MAX_LEVEL < k \<Longrightarrow> forest k off (l # ls) = forest k (Suc off) ls"
  by (simp add: forest.simps(2))

lemma forest_fold:
  assumes "\<not> (fst l < k \<or> MAX_LEVEL < k)"
  shows "forest k off (l # ls) =
    VFold off (Suc (length (takeWhile (\<lambda>m. k \<le> snd m) ls))) (forest (k + 1) 0 (l # takeWhile (\<lambda>m. k \<le> snd m) ls)) FLevel TriNone #
    forest k (off + Suc (length (takeWhile (\<lambda>m. k \<le> snd m) ls))) (dropWhile (\<lambda>m. k \<le> snd m) ls)"
  by (subst forest.simps(2)) (simp only: if_not_P [OF assms] Let_def)

lemma forest_low: "\<forall>l\<in>set ls. fst l < k \<Longrightarrow> forest k off ls = []"
  by (induction ls arbitrary: off) simp_all

abbreviation lines_ok :: "(int \<times> int) list \<Rightarrow> bool" where
  "lines_ok ls \<equiv> \<forall>l\<in>set ls. snd l \<le> fst l \<and> fst l \<le> MAX_LEVEL"

lemma forest_append:
  "lines_ok (as @ bs) \<Longrightarrow> as = [] \<or> fst (last as) < k \<or> bs = [] \<or> snd (hd bs) < k \<Longrightarrow>
   forest k off (as @ bs) = forest k off as @ forest k (off + length as) bs"
proof (induction k off as rule: forest.induct)
  case (2 k off l ls)
  let ?P = "\<lambda>m :: int \<times> int. k \<le> snd m"
  show ?case
  proof (cases "fst l < k \<or> MAX_LEVEL < k")
    case True
    then have "ls = [] \<or> fst (last ls) < k \<or> bs = [] \<or> snd (hd bs) < k" using "2.prems" by auto
    then show ?thesis using True "2.IH"(1) "2.prems"(1) by simp
  next
    case False
    show ?thesis
    proof (cases "\<forall>m\<in>set ls. ?P m")
      case True
      have "\<not> fst (last (l # ls)) < k"
      proof (cases ls rule: rev_cases)
        case (snoc ys m)
        then have "k \<le> snd m" "snd m \<le> fst m" using True "2.prems"(1) by auto
        then show ?thesis using snoc by simp
      qed (use False in simp)
      then have "bs = [] \<or> snd (hd bs) < k" using "2.prems"(2) by blast
      then have "takeWhile ?P bs = []" "dropWhile ?P bs = bs" by (cases bs; simp)+
      moreover have "takeWhile ?P (ls @ bs) = ls @ takeWhile ?P bs" "dropWhile ?P (ls @ bs) = dropWhile ?P bs"
        using True by (simp_all add: takeWhile_append2 dropWhile_append2)
      moreover have ls: "takeWhile ?P ls = ls" "dropWhile ?P ls = []" using True by (simp_all add: takeWhile_eq_all_conv)
      ultimately have bs: "takeWhile ?P (ls @ bs) = ls" "dropWhile ?P (ls @ bs) = bs" by simp_all
      show ?thesis unfolding append_Cons forest_fold [OF False] bs ls by simp
    next
      case ex: False
      then obtain m where m: "m \<in> set ls" "\<not> ?P m" by blast
      then have "takeWhile ?P (ls @ bs) = takeWhile ?P ls" "dropWhile ?P (ls @ bs) = dropWhile ?P ls @ bs"
        using takeWhile_append1 [of m ls ?P bs] dropWhile_append1 [of m ls ?P bs] m by simp_all
      moreover have "dropWhile ?P ls \<noteq> []" using m by (metis dropWhile_eq_Nil_conv)
      then have "last (dropWhile ?P ls) = last (l # ls)" using m(1) by (metis last_ConsR last_appendR takeWhile_dropWhile_id append_is_Nil_conv)
      moreover have "length ls = length (takeWhile ?P ls) + length (dropWhile ?P ls)"
        by (metis length_append takeWhile_dropWhile_id)
      moreover have "lines_ok (dropWhile ?P ls @ bs)" using "2.prems"(1) by (auto dest: set_dropWhileD)
      ultimately show ?thesis
        using "2.IH"(3) [OF False refl] "2.prems"(2) by (simp add: forest_fold [OF False] add.assoc)
    qed
  qed
qed simp

text \<open>Its folds are well formed and every line has the depth of its level.\<close>

lemma forest_wf: "wf_folds (int off) (int (off + length ls)) (forest k off ls)"
proof (induction k off ls rule: forest.induct)
  case (2 k off l ls)
  show ?case
  proof (cases "fst l < k \<or> MAX_LEVEL < k")
    case True
    then show ?thesis using "2.IH"(1) by (auto elim: wf_folds_mono)
  next
    case False
    let ?P = "\<lambda>m :: int \<times> int. k \<le> snd m"
    have len: "length ls = length (takeWhile ?P ls) + length (dropWhile ?P ls)"
      by (metis length_append takeWhile_dropWhile_id)
    show ?thesis
      using "2.IH"(2) [OF False refl] "2.IH"(3) [OF False refl] len by (simp add: forest_fold [OF False] algebra_simps)
  qed
qed simp

lemma forest_flags: "f \<in> set (forest k off ls) \<Longrightarrow> vf_flags f = FLevel"
proof (induction k off ls rule: forest.induct)
  case (2 k off l ls)
  show ?case
  proof (cases "fst l < k \<or> MAX_LEVEL < k")
    case True
    then show ?thesis using "2.IH"(1) "2.prems" by simp
  next
    case False
    then show ?thesis using "2.IH"(3) [OF False refl] "2.prems" by (auto simp: forest_fold [OF False])
  qed
qed simp

lemma forest_depth:
  "lines_ok ls \<Longrightarrow> i < length ls \<Longrightarrow> depth (forest k off ls) (int (off + i)) = nat (fst (ls ! i) - k + 1)"
proof (induction k off ls arbitrary: i rule: forest.induct)
  case (2 k off l ls)
  let ?P = "\<lambda>m :: int \<times> int. k \<le> snd m"
  show ?case
  proof (cases "fst l < k \<or> MAX_LEVEL < k")
    case True
    then have "fst l < k" using "2.prems"(1) by auto
    then show ?thesis
      using "2.IH"(1) [OF True, of "i - 1"] "2.prems" depth_outside [OF forest_wf [of "Suc off" ls k], of "int off"]
      by (cases i) auto
  next
    case False
    let ?b = "takeWhile ?P ls" and ?r = "dropWhile ?P ls"
    have ls: "l # ls = (l # ?b) @ ?r" by simp
    have ok: "lines_ok (l # ?b)" "lines_ok ?r" using "2.prems" by (auto dest: set_takeWhileD set_dropWhileD)
    have eq: "forest k off (l # ls) = VFold off (Suc (length ?b)) (forest (k + 1) 0 (l # ?b)) FLevel TriNone #
        forest k (off + Suc (length ?b)) ?r" by (rule forest_fold [OF False])
    show ?thesis
    proof (cases "i < Suc (length ?b)")
      case True
      then have i: "(l # ls) ! i = (l # ?b) ! i" by (subst ls) (simp add: nth_append del: append_Cons)
      have "k \<le> fst ((l # ?b) ! i)"
      proof (cases i)
        case (Suc j)
        then have "?b ! j \<in> set ?b" using True by (intro nth_mem) simp
        then have "k \<le> snd (?b ! j)" "snd (?b ! j) \<le> fst (?b ! j)" using ok(1) by (auto dest: set_takeWhileD)
        then show ?thesis using Suc by simp
      qed (use False in simp)
      moreover have "depth (forest k (off + Suc (length ?b)) ?r) (int (off + i)) = 0"
        using True by (intro depth_outside [OF forest_wf]) simp
      moreover have "depth (forest (k + 1) 0 (l # ?b)) (int i) = nat (fst ((l # ?b) ! i) - (k + 1) + 1)"
        using "2.IH"(2) [OF False refl ok(1), of i] True by simp
      ultimately show ?thesis using True i unfolding eq by (simp add: Suc_nat_eq_nat_zadd1)
    next
      case ge: False
      let ?j = "i - Suc (length ?b)"
      have "length ls = length ?b + length ?r" by (metis length_append takeWhile_dropWhile_id)
      then have j: "?j < length ?r" using ge "2.prems"(2) by simp
      have "(l # ls) ! i = ?r ! ?j" using ge by (subst ls) (simp add: nth_append del: append_Cons)
      moreover have "int (off + Suc (length ?b) + ?j) = int (off + i)" using ge by simp
      ultimately show ?thesis using "2.IH"(3) [OF False refl ok(2) j] ge unfolding eq by simp
    qed
  qed
qed simp

lemma forest_end: "f \<in> set (forest k off ls) \<Longrightarrow> vf_end f \<le> int (off + length ls)"
  using wf_folds_bounds [OF forest_wf] by blast

lemma forest_end_last:
  assumes "lines_ok ls" "ls \<noteq> []" "fst (last ls) < k" "f \<in> set (forest k off ls)"
  shows "vf_end f < int (off + length ls)"
proof -
  let ?n = "int (off + length ls) - 1"
  have "depth (forest k off ls) (int (off + (length ls - 1))) = nat (fst (ls ! (length ls - 1)) - k + 1)"
    using assms(1,2) by (intro forest_depth) auto
  then have zero: "depth (forest k off ls) ?n = 0"
    using assms(2,3) by (simp add: last_conv_nth of_nat_diff Suc_leI algebra_simps)
  have "wf_folds (int off) ?n (forest k off ls)"
  proof (rule wf_folds_shrink [OF forest_wf], intro allI impI)
    fix n
    assume "?n \<le> n" "n < int (off + length ls)"
    then have "n = ?n" by simp
    then show "depth (forest k off ls) n = 0" using zero by simp
  qed
  then show ?thesis using wf_folds_bounds [OF _ assms(4)] by fastforce
qed

lemma forest_single:
  assumes "k \<le> fst l" "k \<le> MAX_LEVEL" "\<forall>m\<in>set ls. k \<le> snd m"
  shows "forest k off (l # ls) = [VFold off (Suc (length ls)) (forest (k + 1) 0 (l # ls)) FLevel TriNone]"
proof -
  have "\<not> (fst l < k \<or> MAX_LEVEL < k)" using assms(1,2) by simp
  moreover have "takeWhile (\<lambda>m. k \<le> snd m) ls = ls" "dropWhile (\<lambda>m. k \<le> snd m) ls = []"
    using assms(3) by (simp_all add: takeWhile_eq_all_conv)
  ultimately show ?thesis by (metis forest.simps(1) forest_fold)
qed

lemma fold_find_after: "\<forall>f\<in>set g. vf_end f \<le> n \<Longrightarrow> fold_find g n = (length g, False)"
proof -
  assume ends: "\<forall>f\<in>set g. vf_end f \<le> n"
  have "0 \<le> low \<Longrightarrow> low \<le> high + 1 \<Longrightarrow> high = int (length g) - 1 \<Longrightarrow> find_loop g n low high = (length g, False)" for low high
  proof (induction "nat (high - low + 1)" arbitrary: low rule: less_induct)
    case less
    note step = find_loop.simps [of g n low high]
    show ?case
    proof (cases "low \<le> high")
      case True
      let ?i = "(low + high) div 2"
      have i: "low \<le> ?i" "?i \<le> high" "nat ?i < length g" using True less.prems by auto
      then have "vf_end (g ! nat ?i) \<le> n" using ends by simp
      moreover have "find_loop g n (?i + 1) high = (length g, False)"
        using less.prems i by (intro less.hyps) auto
      ultimately show ?thesis using True by (simp add: step Let_def)
    next
      case False
      then show ?thesis using less.prems by (subst step) auto
    qed
  qed
  from this [of 0 "int (length g) - 1"] show ?thesis by (cases "g = []") (simp_all add: fold_find_def)
qed

lemma fold_remove_after: "\<forall>f\<in>set g. vf_end f \<le> tp \<Longrightarrow> fold_remove g tp bt = Some g"
  by (subst fold_remove.simps) (simp add: fold_find_after)

section \<open>Level getters\<close>

text \<open>The nearest line with a level of its own, at or above and at or below; a line between takes the smaller one.\<close>

fun level_above :: "(nat \<Rightarrow> int) \<Rightarrow> nat \<Rightarrow> int" where
  "level_above lv 0 = 0"
| "level_above lv (Suc n) = (if 0 \<le> lv (Suc n) then lv (Suc n) else level_above lv n)"

fun level_below :: "(nat \<Rightarrow> int) \<Rightarrow> nat \<Rightarrow> nat \<Rightarrow> int" where
  "level_below lv 0 n = 0"
| "level_below lv (Suc m) n = (if 0 \<le> lv n then lv n else level_below lv m (Suc n))"

definition eff_level :: "(nat \<Rightarrow> int) \<Rightarrow> nat \<Rightarrow> nat \<Rightarrow> int" where
  "eff_level lv N n = min MAX_LEVEL (min (level_above lv n) (level_below lv (N + 1 - n) n))"

definition level_row :: "(nat \<Rightarrow> int) \<Rightarrow> (nat \<Rightarrow> int) \<Rightarrow> nat \<Rightarrow> nat \<Rightarrow> int \<times> int" where
  "level_row lv st N n = (eff_level lv N n, if 0 \<le> lv n then eff_level lv N n - st n else eff_level lv N n)"

definition level_rows :: "(nat \<Rightarrow> int) \<Rightarrow> (nat \<Rightarrow> int) \<Rightarrow> nat \<Rightarrow> nat \<Rightarrow> nat \<Rightarrow> (int \<times> int) list" where
  "level_rows lv st N a b = map (level_row lv st N) [a..<b]"

locale level_lines =
  fixes L :: level_getter and N :: nat and lv st nx :: "nat \<Rightarrow> int"
  assumes reads: "1 \<le> n \<Longrightarrow> n \<le> N \<Longrightarrow> fln_lnum flp + fln_off flp = int n \<Longrightarrow> fln_lvl flp = nx (n - 1) \<Longrightarrow>
      is_marker L \<or> fln_lvl_next flp = nx (n - 1) \<Longrightarrow> (\<forall>m. st m = 0) \<longrightarrow> fln_start flp = 0 \<Longrightarrow>
      get_level L flp = Some (flp\<lparr>fln_lvl := lv n, fln_start := st n, fln_lvl_next := nx n\<rparr>)"
    and edges: "1 \<le> N \<Longrightarrow> 0 \<le> lv 1 \<and> 0 \<le> lv N"
    and starts: "0 \<le> st n"
    and gaps: "1 \<le> n \<Longrightarrow> n \<le> N \<Longrightarrow> lv n < 0 \<Longrightarrow> st m = 0 \<and> nx m = - 1"
    and first: "nx 0 = (if is_marker L then 0 else - 1)"
    and markers: "is_marker L \<Longrightarrow> 1 \<le> n \<Longrightarrow> n \<le> N \<Longrightarrow>
      lv n \<le> MAX_LEVEL \<and> lv n - st n \<le> (if n = 1 then 0 else lv (n - 1))"
begin

abbreviation eff :: "nat \<Rightarrow> int" where
  "eff n \<equiv> eff_level lv N n"

abbreviation rows :: "nat \<Rightarrow> nat \<Rightarrow> (int \<times> int) list" where
  "rows a b \<equiv> level_rows lv st N a b"

abbreviation cut :: "nat \<Rightarrow> int" where
  "cut n \<equiv> snd (level_row lv st N n)"

lemma rows_split: "a \<le> b \<Longrightarrow> b \<le> c \<Longrightarrow> rows a c = rows a b @ rows b c"
  unfolding level_rows_def by (metis le_add_diff_inverse map_append upt_add_eq_append)

lemma rows_Cons: "a < b \<Longrightarrow> rows a b = level_row lv st N a # rows (Suc a) b"
  by (simp add: level_rows_def upt_conv_Cons)

lemma length_rows [simp]: "length (rows a b) = b - a"
  by (simp add: level_rows_def)

lemma eff_defined: "1 \<le> n \<Longrightarrow> n \<le> N \<Longrightarrow> 0 \<le> lv n \<Longrightarrow> eff n = min MAX_LEVEL (lv n)"
proof (cases n)
  case (Suc m)
  assume "1 \<le> n" "n \<le> N" "0 \<le> lv n"
  moreover from this have "N - m = Suc (N - n)" using Suc by simp
  ultimately show ?thesis using Suc by (simp add: eff_level_def)
qed simp

lemma eff_gap:
  assumes "q \<le> j" "j < p" "p \<le> N" "2 \<le> q" "0 \<le> lv (q - 1)" "0 \<le> lv p" "\<And>i. q \<le> i \<Longrightarrow> i < p \<Longrightarrow> lv i < 0"
  shows "eff j = min (eff (q - 1)) (eff p)" "cut j = eff j"
proof -
  have above: "level_above lv i = lv (q - 1)" if "q - 1 \<le> i" "i < p" for i
    using that
  proof (induction i)
    case (Suc i)
    show ?case
    proof (cases "Suc i = q - 1")
      case False
      then have "q \<le> Suc i" using Suc.prems by simp
      then have "lv (Suc i) < 0" using assms(7) Suc.prems(2) by blast
      then show ?thesis using Suc False by simp
    next
      case True
      then have "0 \<le> lv (Suc i)" using assms(5) by simp
      then show ?thesis unfolding True [symmetric] by simp
    qed
  qed (use assms(4) in simp)
  have below: "level_below lv (p - i + m) i = lv p" if "q \<le> i" "i \<le> p" "0 < m" for i m
    using that
  proof (induction "p - i" arbitrary: i)
    case 0
    then show ?case using assms(6) by (cases m) simp_all
  next
    case (Suc d)
    then have "i < p" by simp
    moreover from this have "lv i < 0" using assms(7) Suc.prems(1) by blast
    moreover have "level_below lv (p - Suc i + m) (Suc i) = lv p" using Suc by auto
    moreover have "p - i + m = Suc (p - Suc i + m)" using \<open>i < p\<close> by simp
    ultimately show ?case by simp
  qed
  have "N + 1 - j = p - j + (N + 1 - p)" using assms(2,3) by simp
  then have "level_below lv (N + 1 - j) j = lv p" using below [of j "N + 1 - p"] assms(1-3) by simp
  moreover have "level_above lv j = lv (q - 1)" using above [of j] assms(1,2) by simp
  ultimately have "eff j = min MAX_LEVEL (min (lv (q - 1)) (lv p))" by (simp add: eff_level_def)
  moreover have "eff (q - 1) = min MAX_LEVEL (lv (q - 1))" using assms(1-5) by (intro eff_defined) auto
  moreover have "eff p = min MAX_LEVEL (lv p)" using assms(1-4,6) by (intro eff_defined) auto
  ultimately show "eff j = min (eff (q - 1)) (eff p)" by (auto simp: min_def)
  show "cut j = eff j" using assms(7) [OF assms(1,2)] by (simp add: level_row_def)
qed

end

section \<open>A call for one fold\<close>

context level_lines
begin

text \<open>
  The loop is at line \<open>q\<close> and looks at the level of \<open>p\<close>; the lines between have no level of their own.
  Line numbers are relative to \<open>off\<close>.
\<close>

definition flp_at :: "fline \<Rightarrow> int \<Rightarrow> nat \<Rightarrow> nat \<Rightarrow> bool" where
  "flp_at flp off q p \<longleftrightarrow>
     fln_lnum flp = int q - off \<and> fln_off flp = off \<and> fln_lnum_save flp = int p - off \<and> fln_lvl flp = lv p \<and>
     fln_start flp = st p \<and> fln_lvl_next flp = nx p \<and> fln_had_end flp = MAX_LEVEL + 1 \<and>
     1 \<le> q \<and> q \<le> p \<and> p \<le> N \<and> 0 \<le> lv p \<and> (\<forall>j. q \<le> j \<longrightarrow> j < p \<longrightarrow> lv j < 0) \<and> (q < p \<longrightarrow> 2 \<le> q \<and> 0 \<le> lv (q - 1))"

text \<open>A call at level \<open>k\<close> for the fold that starts at line \<open>F\<close>, after the folds \<open>G\<close>.\<close>

definition call_ok :: "iems_call \<Rightarrow> int \<Rightarrow> int \<Rightarrow> nat \<Rightarrow> vfold list \<Rightarrow> bool" where
  "call_ok c off k F G \<longleftrightarrow>
     ic_level c = k \<and> ic_firstlnum c = int F - off \<and> ic_topflags c = FLevel \<and> 1 \<le> k \<and> k \<le> MAX_LEVEL \<and>
     1 \<le> F \<and> F \<le> N \<and> off \<le> int F \<and> 0 \<le> lv F \<and> k \<le> eff F \<and> ic_startlnum c \<le> int F - off \<and>
     (\<forall>f\<in>set G. vf_flags f = FLevel \<and> vf_end f \<le> ic_startlnum c \<and> (st F = 0 \<longrightarrow> vf_end f < int F - off)) \<and>
     (is_marker L \<longrightarrow> lv F - st F < k)"

definition so_far :: "int \<Rightarrow> int \<Rightarrow> nat \<Rightarrow> nat \<Rightarrow> vfold" where
  "so_far off k F q = VFold (nat (int F - off)) (N + 1 - F) (forest (k + 1) 0 (rows F q)) FLevel TriNone"

definition created :: "iems \<Rightarrow> int \<Rightarrow> int \<Rightarrow> nat \<Rightarrow> vfold list \<Rightarrow> nat \<Rightarrow> bool" where
  "created s off k F G q \<longleftrightarrow>
     it_fp s = Some (length G) \<and> it_gap s = G @ [so_far off k F q] \<and>
     (\<forall>f\<in>set (forest (k + 1) 0 (rows F q)). vf_end f \<le> it_startlnum2 s - (int F - off))"

definition waiting :: "iems_call \<Rightarrow> iems \<Rightarrow> int \<Rightarrow> nat \<Rightarrow> vfold list \<Rightarrow> nat \<Rightarrow> bool" where
  "waiting c s k F G q \<longleftrightarrow>
     it_fp s = None \<and> it_gap s = G \<and> it_startlnum2 s = ic_startlnum c \<and>
     (\<forall>j. F \<le> j \<longrightarrow> j < q \<longrightarrow> eff j = k) \<and> (st F = 0 \<or> q = F)"

definition inv :: "iems_call \<Rightarrow> iems \<Rightarrow> bool \<Rightarrow> int \<Rightarrow> int \<Rightarrow> nat \<Rightarrow> vfold list \<Rightarrow> nat \<Rightarrow> nat \<Rightarrow> bool" where
  "inv c s m off k F G q p \<longleftrightarrow>
     call_ok c off k F G \<and> flp_at (it_flp s) off q p \<and> F \<le> q \<and> (q = F \<longrightarrow> p = F) \<and>
     it_bot s = int N - off \<and> it_manual s = m \<and> (\<forall>j. F < j \<longrightarrow> j < q \<longrightarrow> k \<le> cut j) \<and>
     (q = F \<or> eff (q - 1) \<le> k \<or> cut q \<le> k) \<and> it_startlnum2 s \<le> int q - off \<and>
     (waiting c s k F G q \<or> created s off k F G q)"

definition is_end :: "int \<Rightarrow> nat \<Rightarrow> nat \<Rightarrow> bool" where
  "is_end k F e \<longleftrightarrow> F < e \<and> e \<le> N + 1 \<and> (\<forall>j. F < j \<longrightarrow> j < e \<longrightarrow> k \<le> cut j) \<and> (e = N + 1 \<or> cut e < k)"

definition exited :: "iems \<Rightarrow> bool \<Rightarrow> int \<Rightarrow> int \<Rightarrow> nat \<Rightarrow> vfold list \<Rightarrow> nat \<Rightarrow> bool" where
  "exited s m off k F G e \<longleftrightarrow>
     created s off k F G e \<and> it_bot s = int N - off \<and> it_manual s = m \<and> fln_off (it_flp s) = off \<and>
     fln_had_end (it_flp s) = MAX_LEVEL + 1 \<and> it_lnum s = int e - off \<and> it_startlnum2 s \<le> int e - off \<and> is_end k F e \<and>
     (e \<le> N \<longrightarrow> it_lvl s < k \<and> (\<exists>p. flp_at (it_flp s) off e p))"

lemma cut_le_eff: "cut n \<le> eff n"
  using starts [of n] by (simp add: level_row_def)

lemma cut_defined: "0 \<le> lv n \<Longrightarrow> cut n = eff n - st n"
  by (simp add: level_row_def)

lemma eff_max: "eff n \<le> MAX_LEVEL"
  by (simp add: eff_level_def)

lemma rows_ok: "lines_ok (rows a b)"
proof
  fix l
  assume "l \<in> set (rows a b)"
  then obtain n where "l = level_row lv st N n" by (auto simp: level_rows_def)
  then show "snd l \<le> fst l \<and> fst l \<le> MAX_LEVEL" using cut_le_eff [of n] eff_max [of n] by (simp add: level_row_def)
qed

lemma flp_at_gap:
  assumes "flp_at flp off q p" "q \<le> j" "j < p"
  shows "eff j = min (eff (q - 1)) (eff p)" "cut j = eff j" "st i = 0" "nx i = - 1"
proof -
  from assms have q: "2 \<le> q" "0 \<le> lv (q - 1)" "0 \<le> lv p" "p \<le> N" "\<And>i. q \<le> i \<Longrightarrow> i < p \<Longrightarrow> lv i < 0"
    by (auto simp: flp_at_def)
  show "eff j = min (eff (q - 1)) (eff p)" "cut j = eff j"
    using eff_gap [OF assms(2,3) q(4,1,2,3) q(5)] by auto
  have "lv j < 0" using q(5) assms(2,3) by blast
  then show "st i = 0" "nx i = - 1" using gaps [of j i] assms q by auto
qed

lemma inv_levels:
  assumes "inv c s m off k F G q p"
  shows "F \<le> j \<Longrightarrow> j < q \<Longrightarrow> k \<le> eff j"
proof (cases "j = F")
  case True
  then show ?thesis using assms by (simp add: inv_def call_ok_def)
next
  case False
  assume "F \<le> j" "j < q"
  then have "k \<le> cut j" using assms False by (simp add: inv_def)
  then show ?thesis using cut_le_eff [of j] by simp
qed

lemma inv_line_level:
  assumes "inv c s m off k F G q p"
  shows "line_level c (it_flp s) < k \<Longrightarrow> F < q \<and> cut q < k"
    and "k \<le> line_level c (it_flp s) \<Longrightarrow>
      line_level c (it_flp s) = eff p \<and> (\<forall>j. F < j \<longrightarrow> j \<le> p \<longrightarrow> k \<le> cut j)"
proof -
  let ?l = "line_level c (it_flp s)"
  have c: "ic_level c = k" "ic_firstlnum c = int F - off" "1 \<le> k" "k \<le> MAX_LEVEL" "k \<le> eff F"
    and at: "flp_at (it_flp s) off q p" and q: "F \<le> q" "q = F \<longrightarrow> p = F" "\<forall>j. F < j \<longrightarrow> j < q \<longrightarrow> k \<le> cut j"
    using assms by (auto simp: inv_def call_ok_def)
  have p: "eff p = min (lv p) MAX_LEVEL" "cut p = eff p - st p" "q \<le> p"
    using at eff_defined [of p] by (auto simp: flp_at_def cut_defined min.commute)
  have l: "?l = (if F < q \<and> cut p < k then 0 else eff p)"
    using at c p by (auto simp: line_level_def Let_def flp_at_def)
  have gap: "cut q = min (eff (q - 1)) (eff p) \<and> cut p = eff p" if "q < p"
    using flp_at_gap(1,2) [OF at order.refl that] flp_at_gap(3) [OF at order.refl that, of p] p(2) by simp
  have prev: "k \<le> eff (q - 1)" if "F < q" using inv_levels [OF assms, of "q - 1"] that by simp
  show "F < q \<and> cut q < k" if low: "?l < k"
  proof (cases "F < q")
    case True
    then have "cut p < k" using low l p(2) starts [of p] by (auto split: if_splits)
    moreover have "q < p \<or> q = p" using p(3) by auto
    ultimately show ?thesis using True gap by (auto simp: min_def split: if_splits)
  next
    case False
    then show ?thesis using low l c(5) q by auto
  qed
  show "?l = eff p \<and> (\<forall>j. F < j \<longrightarrow> j \<le> p \<longrightarrow> k \<le> cut j)" if high: "k \<le> ?l"
  proof (cases "F < q")
    case True
    then have "k \<le> cut p" "?l = eff p" using high l c(3) by (auto split: if_splits)
    moreover have "k \<le> cut j" if "q \<le> j" "j < p" for j
      using flp_at_gap(1,2) [OF at that] prev [OF True] gap \<open>k \<le> cut p\<close> that by simp
    ultimately show ?thesis using q(3) by (metis le_neq_implies_less not_le)
  next
    case False
    then show ?thesis using l q by auto
  qed
qed

end

context level_lines
begin

lemma forest_waiting: "waiting c s k F G q \<Longrightarrow> forest (k + 1) off (rows F q) = []"
  by (rule forest_low) (auto simp: level_rows_def level_row_def waiting_def)

text \<open>On a fresh tree no fold is found to be used again: a new one is inserted at the end.\<close>

lemma reuse_creates:
  assumes "inv c s m off k F G q p" "waiting c s k F G q"
  obtains s' where "reuse_loop L c s = Some s'" "created s' off k F G q" "it_flp s' = it_flp s"
    "it_lvl s' = it_lvl s" "it_bot s' = it_bot s" "it_manual s' = it_manual s" "it_startlnum2 s' = it_startlnum2 s"
proof -
  let ?joins = "if fln_start (it_flp s) \<noteq> 0 \<or> fln_had_end (it_flp s) \<le> MAX_LEVEL then 0 else 1 :: int"
  have c: "ic_firstlnum c = int F - off" "ic_topflags c = FLevel" "ic_startlnum c \<le> int F - off" "off \<le> int F" "F \<le> N"
    and G: "\<forall>f\<in>set G. vf_flags f = FLevel" "\<forall>f\<in>set G. vf_end f \<le> ic_startlnum c" "st F = 0 \<Longrightarrow> \<forall>f\<in>set G. vf_end f < int F - off"
    and at: "flp_at (it_flp s) off q p" and q: "F \<le> q" "q = F \<longrightarrow> p = F" and bt: "it_bot s = int N - off"
    using assms(1) by (auto simp: inv_def call_ok_def)
  have w: "it_fp s = None" "it_gap s = G" "st F = 0 \<or> q = F" using assms(2) by (auto simp: waiting_def)
  have st: "fln_start (it_flp s) = st p" using at by (simp add: flp_at_def)
  have "\<forall>f\<in>set G. vf_end f \<le> ic_firstlnum c - ?joins"
  proof (cases "st p = 0")
    case True
    then have "st F = 0" using w(3) q(2) by auto
    then show ?thesis using G(3) c(1) by auto
  next
    case False
    then show ?thesis using G(2) c(1,3) st by force
  qed
  then have found: "fold_find G (ic_startlnum c) = (length G, False)" "fold_find G (ic_firstlnum c - ?joins) = (length G, False)"
    using G(2) by (simp_all add: fold_find_after)
  have none: "find_reusable c s ?joins = (length G, False)"
    unfolding find_reusable_def Let_def w(2) found by (cases "G = []") simp_all
  let ?g = "G @ [vfold_default]"
  have ins: "fold_insert G (length G) = Some ?g" by (simp add: fold_insert_def)
  have flags: "G \<noteq> [] \<Longrightarrow> vf_flags (?g ! (length G - 1)) = FLevel" using G(1) by (simp add: nth_append)
  have new: "set_small TriNone (set_vf_flags FLevel (set_len (nat (it_bot s - ic_firstlnum c + 1)) (set_top (nat (ic_firstlnum c)) vfold_default)))
      = so_far off k F q"
    using bt c(1,5) by (simp add: so_far_def vfold_default_def forest_waiting [OF assms(2)] nat_diff_distrib' Suc_diff_le)
  let ?s = "s\<lparr>it_gap := G @ [so_far off k F q], it_fp := Some (length G), it_finish := it_finish s \<or> needs_end_search L, it_changed := True\<rparr>"
  have "insert_fold L c s (length G) = Some ?s"
    using new flags c(2) ins unfolding insert_fold_def Let_def w(2) by (cases "G = []") simp_all
  then have "reuse_loop L c s = Some ?s" 
    by (subst reuse_loop.simps) (simp only: Let_def none prod.case not_False_eq_True if_True)
  then show ?thesis
    by (rule that) (simp_all add: created_def forest_waiting [OF assms(2)])
qed

end

context level_lines
begin

lemma created_fields:
  "created s' off k F G q \<longleftrightarrow> created s off k F G q"
  if "it_fp s' = it_fp s" "it_gap s' = it_gap s" "it_startlnum2 s' = it_startlnum2 s"
  using that by (simp add: created_def)

lemma waiting_fields:
  "waiting c s' k F G q \<longleftrightarrow> waiting c s k F G q"
  if "it_fp s' = it_fp s" "it_gap s' = it_gap s" "it_startlnum2 s' = it_startlnum2 s"
  using that by (simp add: waiting_def)

text \<open>One iteration up to the look at the line: either the fold ends here or it covers the line.\<close>

lemma line_step:
  assumes "inv c s m off k F G q p"
  obtains (ends) s' where "iems_line L (int N) c s = Some (True, s')" "exited s' m off k F G q" "q \<le> N"
  | (covers) s' where "iems_line L (int N) c s = Some (False, s')" "inv c s' m off k F G q p" "it_lvl s' = eff p"
      "k \<le> eff p" "\<forall>j. F < j \<longrightarrow> j \<le> p \<longrightarrow> k \<le> cut j" "it_flp s' = it_flp s"
      "created s' off k F G q \<or> waiting c s' k F G q \<and> eff p = k \<and> p < N \<and> st p = 0"
proof -
  let ?l = "line_level c (it_flp s)"
  let ?s = "s\<lparr>it_lvl := ?l\<rparr>"
  have c: "ic_level c = k" "1 \<le> k"
    and at: "flp_at (it_flp s) off q p" and q: "F \<le> q" and bt: "it_bot s = int N - off"
    using assms by (auto simp: inv_def call_ok_def)
  have fl: "it_lnum s = int q - off" "fln_off (it_flp s) = off" "fln_lnum_save (it_flp s) = int p - off"
    "fln_start (it_flp s) = st p" "q \<le> p" "p \<le> N" "fln_had_end (it_flp s) = MAX_LEVEL + 1"
    using at by (auto simp: flp_at_def)
  have inv: "inv c ?s m off k F G q p"
    using assms by (simp add: inv_def created_def waiting_def)
  have below: "below_bot L c ?s = (False, ?s)"
    using fl bt by (auto simp: below_bot_def split: option.split)
  have stop: "it_lnum ?s > linecount (int N) ?s \<longleftrightarrow> False" using fl by (simp add: linecount_def)
  obtain s' where s': "(if reuse_needed (int N) c ?s then reuse_loop L c ?s else Some ?s) = Some s'"
    "it_flp s' = it_flp s" "it_lvl s' = ?l" "it_bot s' = it_bot s" "it_manual s' = it_manual s" "it_startlnum2 s' = it_startlnum2 s"
    and made: "created s' off k F G q \<or> s' = ?s \<and> \<not> reuse_needed (int N) c ?s \<and> waiting c s' k F G q"
  proof (cases "reuse_needed (int N) c ?s")
    case True
    then have "waiting c ?s k F G q" using inv by (auto simp: inv_def created_def reuse_needed_def)
    from reuse_creates [OF inv this] show ?thesis using True that by (metis iems.select_convs(2,3,5,6,8) iems.surjective iems.update_convs(5))
  next
    case False
    then show ?thesis using that [of ?s] inv by (auto simp: inv_def)
  qed
  have line: "iems_line L (int N) c s = Some (?l < k, s')"
    unfolding iems_line_def below Let_def prod.case if_False s'(1) using s'(2,3) c(1) fl
    by (simp add: linecount_def)
  show ?thesis
  proof (cases "?l < k")
    case True
    have stop_at: "F < q" "cut q < k" using inv_line_level(1) [OF assms True] by auto
    have "created s' off k F G q"
      using made True c(1) by (auto simp: reuse_needed_def waiting_def)
    then have "exited s' m off k F G q"
      using assms stop_at fl s' True at
      by (auto simp: exited_def is_end_def inv_def)
    then show ?thesis using line True fl by (intro ends [of s']) auto
  next
    case False
    then have covered: "?l = eff p" "\<forall>j. F < j \<longrightarrow> j \<le> p \<longrightarrow> k \<le> cut j" using inv_line_level(2) [OF assms] by auto
    have "inv c s' m off k F G q p" using assms s' made by (auto simp: inv_def)
    moreover have "created s' off k F G q \<or> waiting c s' k F G q \<and> eff p = k \<and> p < N \<and> st p = 0"
      using made covered(1) fl bt c(1) by (auto simp: reuse_needed_def waiting_def)
    ultimately show ?thesis
      using line False covered s'(2,3) by (intro covers [of s']) auto
  qed
qed

end

context level_lines
begin

lemma next_lines_ok:
  assumes "r < N" "fln_lnum flp = int r - off" "fln_off flp = off" "fln_lvl_next flp = nx r"
    "(\<forall>m. st m = 0) \<longrightarrow> fln_start flp = 0" "fln_had_end flp = MAX_LEVEL + 1"
  shows "\<exists>p. r < p \<and> p \<le> N \<and> 0 \<le> lv p \<and> (\<forall>j. r < j \<longrightarrow> j < p \<longrightarrow> lv j < 0) \<and>
    next_lines L (int N - off) flp = Some (flp\<lparr>fln_lnum := int p - off, fln_lvl := lv p, fln_start := st p, fln_lvl_next := nx p\<rparr>)"
  using assms
proof (induction "N - r" arbitrary: r flp rule: less_induct)
  case less
  let ?n = "Suc r"
  let ?f = "flp\<lparr>fln_lnum := fln_lnum flp + 1, fln_lvl := fln_lvl_next flp\<rparr>"
  let ?g = "flp\<lparr>fln_lvl := lv ?n, fln_start := st ?n, fln_lvl_next := nx ?n, fln_lnum := fln_lnum flp + 1\<rparr>"
  have "get_level L ?f = Some (?f\<lparr>fln_lvl := lv ?n, fln_start := st ?n, fln_lvl_next := nx ?n\<rparr>)"
    using less.prems by (intro reads) auto
  then have get: "get_level L ?f = Some ?g" by (cases flp) simp
  have step: "next_lines L (int N - off) flp =
      (if 0 \<le> lv ?n then Some ?g else next_lines L (int N - off) ?g)"
    using less.prems get by (subst next_lines.simps) (simp add: MAX_LEVEL_def Let_def)
  show ?case
  proof (cases "0 \<le> lv ?n")
    case True
    moreover have "?g = flp\<lparr>fln_lnum := int ?n - off, fln_lvl := lv ?n, fln_start := st ?n, fln_lvl_next := nx ?n\<rparr>"
      using less.prems(2) by (cases flp) simp
    ultimately show ?thesis using step less.prems(1) by (intro exI [of _ ?n]) simp
  next
    case False
    have "?n \<noteq> N" using False edges less.prems(1) by auto
    then have n: "?n < N" "N - ?n < N - r" using less.prems(1) by auto
    have zero: "st ?n = 0" using gaps [of ?n ?n] False less.prems(1) by simp
    obtain p where p: "?n < p" "p \<le> N" "0 \<le> lv p" "\<forall>j. ?n < j \<longrightarrow> j < p \<longrightarrow> lv j < 0"
      "next_lines L (int N - off) ?g = Some (?g\<lparr>fln_lnum := int p - off, fln_lvl := lv p, fln_start := st p, fln_lvl_next := nx p\<rparr>)"
      using less.hyps [OF n(2), of ?g] n less.prems zero by auto
    have "lv j < 0" if "r < j" "j < p" for j using p(4) that False by (cases "j = ?n") auto
    moreover have "?g\<lparr>fln_lnum := int p - off, fln_lvl := lv p, fln_start := st p, fln_lvl_next := nx p\<rparr> =
        flp\<lparr>fln_lnum := int p - off, fln_lvl := lv p, fln_start := st p, fln_lvl_next := nx p\<rparr>"
      by (cases flp) simp
    ultimately show ?thesis using p step False by (intro exI [of _ p]) auto
  qed
qed

lemma forest_rows_split:
  assumes "F \<le> q" "q \<le> b" "q = F \<or> eff (q - 1) < k \<or> cut q < k"
  shows "forest k o1 (rows F b) = forest k o1 (rows F q) @ forest k (o1 + (q - F)) (rows q b)"
proof -
  have split: "rows F b = rows F q @ rows q b" using assms(1,2) by (rule rows_split)
  have last: "rows F q = [] \<or> fst (last (rows F q)) = eff (q - 1)"
    using assms(1) by (cases q) (auto simp: level_rows_def level_row_def)
  have hd: "rows q b = [] \<or> hd (rows q b) = level_row lv st N q"
    using assms(2) by (cases "q = b") (simp_all add: level_rows_def rows_Cons [unfolded level_rows_def])
  have "forest k o1 (rows F q @ rows q b) = forest k o1 (rows F q) @ forest k (o1 + length (rows F q)) (rows q b)"
  proof (rule forest_append)
    show "lines_ok (rows F q @ rows q b)" using rows_ok [of F b] split by simp
    show "rows F q = [] \<or> fst (last (rows F q)) < k \<or> rows q b = [] \<or> snd (hd (rows q b)) < k"
      using assms(3) last hd by (auto simp: level_rows_def)
  qed
  then show ?thesis using split by simp
qed

lemma forest_boundary:
  assumes "F \<le> q" "q \<le> b" "q = F \<or> eff (q - 1) \<le> k \<or> cut q \<le> k"
  shows "forest (k + 1) 0 (rows F b) = forest (k + 1) 0 (rows F q) @ forest (k + 1) (q - F) (rows q b)"
  using forest_rows_split [of F q b "k + 1" 0] assms by auto

lemma forest_extend:
  assumes "F \<le> q" "q \<le> b" "q = F \<or> eff (q - 1) \<le> k \<or> cut q \<le> k" "\<And>j. q \<le> j \<Longrightarrow> j < b \<Longrightarrow> eff j \<le> k"
  shows "forest (k + 1) 0 (rows F b) = forest (k + 1) 0 (rows F q)"
proof -
  have "forest (k + 1) (q - F) (rows q b) = []"
  proof (rule forest_low, rule ballI)
    fix l
    assume "l \<in> set (rows q b)"
    then obtain j where "l = level_row lv st N j" "q \<le> j" "j < b" by (auto simp: level_rows_def)
    then show "fst l < k + 1" using assms(4) [of j] by (simp add: level_row_def)
  qed
  then show ?thesis using forest_boundary [OF assms(1-3)] by simp
qed

text \<open>The line belongs to this fold and to no deeper one: on to the next.\<close>

lemma advance_step:
  assumes inv: "inv c s m off k F G q p" and "eff p = k" "\<forall>j. F < j \<longrightarrow> j \<le> p \<longrightarrow> k \<le> cut j"
    and made: "created s off k F G q \<or> waiting c s k F G q \<and> p < N \<and> st p = 0"
  obtains (eof) s' where "iems_next L (int N) s = Some (True, s')" "exited s' m off k F G (N + 1)"
  | (more) s' p' where "iems_next L (int N) s = Some (False, s')" "inv c s' m off k F G (p + 1) p'" "p < p'"
proof -
  have at: "flp_at (it_flp s) off q p" and q: "F \<le> q" "q = F \<longrightarrow> p = F" and c: "call_ok c off k F G"
    and bnd: "q = F \<or> eff (q - 1) \<le> k \<or> cut q \<le> k"
    using inv by (auto simp: inv_def)
  have fl: "q \<le> p" "p \<le> N" "0 \<le> lv p" "fln_lvl_next (it_flp s) = nx p" "fln_start (it_flp s) = st p"
    "fln_off (it_flp s) = off" "fln_lnum_save (it_flp s) = int p - off" "fln_had_end (it_flp s) = MAX_LEVEL + 1" "1 \<le> q"
    using at by (auto simp: flp_at_def)
  let ?flp = "(it_flp s)\<lparr>fln_lnum := int p - off\<rparr>"
  have low: "eff j \<le> k" if "q \<le> j" "j \<le> p" for j
    using flp_at_gap(1) [OF at that(1)] that assms(2) by (cases "j = p") auto
  have same: "forest (k + 1) 0 (rows F (p + 1)) = forest (k + 1) 0 (rows F q)"
    by (rule forest_extend [OF q(1) _ bnd]) (use fl(1) low in auto)
  have created': "created s' off k F G (p + 1)" if "created s off k F G q" "it_fp s' = it_fp s" "it_gap s' = it_gap s"
    "it_startlnum2 s' = it_startlnum2 s" for s'
    using that same by (simp add: created_def so_far_def)
  have waiting': "waiting c s' k F G (p + 1)" if w: "waiting c s k F G q" "st p = 0" "it_fp s' = it_fp s" "it_gap s' = it_gap s"
    "it_startlnum2 s' = it_startlnum2 s" for s'
  proof -
    have "eff j = k" if "F \<le> j" "j \<le> p" for j
    proof (cases "j < q")
      case False
      have "F < q \<Longrightarrow> eff (q - 1) = k" using w(1) by (simp add: waiting_def)
      then show ?thesis using False flp_at_gap(1) [OF at, of j] that assms(2) q by (cases "j = p") auto
    qed (use w(1) that in \<open>simp add: waiting_def\<close>)
    then show ?thesis using w q by (auto simp: waiting_def)
  qed
  have count: "linecount (int N) s = int N - off" using fl by (simp add: linecount_def)
  show ?thesis
  proof (cases "p = N")
    case True
    let ?s = "s\<lparr>it_flp := (it_flp s)\<lparr>fln_lnum := int (N + 1) - off\<rparr>\<rparr>"
    have "next_lines L (int N - off) ?flp = Some ((it_flp s)\<lparr>fln_lnum := int (N + 1) - off\<rparr>)"
      using True by (subst next_lines.simps) (simp add: Let_def)
    then have "iems_next L (int N) s = Some (True, ?s)"
      using fl by (simp add: iems_next_def count Let_def)
    moreover have "exited ?s m off k F G (N + 1)"
      using made True created' [of ?s] inv assms(3) fl q c unfolding True
      by (auto simp: exited_def is_end_def inv_def call_ok_def)
    ultimately show ?thesis by (rule eof)
  next
    case False
    then have "p < N" using fl(2) by simp
    from next_lines_ok [OF this, of ?flp off] fl obtain p' where p': "p < p'" "p' \<le> N" "0 \<le> lv p'"
      "\<forall>j. p < j \<longrightarrow> j < p' \<longrightarrow> lv j < 0"
      "next_lines L (int N - off) ?flp = Some (?flp\<lparr>fln_lnum := int p' - off, fln_lvl := lv p', fln_start := st p', fln_lvl_next := nx p'\<rparr>)"
      by auto
    let ?f = "?flp\<lparr>fln_lnum := int p' - off, fln_lvl := lv p', fln_start := st p', fln_lvl_next := nx p'\<rparr>"
    let ?s = "s\<lparr>it_flp := ?f\<lparr>fln_lnum_save := int p' - off, fln_lnum := int (p + 1) - off\<rparr>\<rparr>"
    have "iems_next L (int N) s = Some (False, ?s)"
      using fl p' by (simp add: iems_next_def count Let_def)
    moreover have "flp_at (it_flp ?s) off (p + 1) p'"
      using fl p' by (auto simp: flp_at_def)
    then have "inv c ?s m off k F G (p + 1) p'"
      using inv made created' [of ?s] waiting' [of ?s] assms(2,3) fl q by (auto simp: inv_def)
    ultimately show ?thesis using p'(1) by (rule more)
  qed
qed

end

context level_lines
begin

lemma inv_boundary:
  assumes "inv c s m off k F G q p"
  shows "p = F \<or> eff (p - 1) \<le> k \<or> cut p \<le> k"
    and "forest (k + 1) 0 (rows F p) = forest (k + 1) 0 (rows F q)"
proof -
  have at: "flp_at (it_flp s) off q p" and q: "F \<le> q" "q = F \<longrightarrow> p = F"
    and bnd: "q = F \<or> eff (q - 1) \<le> k \<or> cut q \<le> k"
    using assms by (auto simp: inv_def)
  have qp: "q \<le> p" using at by (simp add: flp_at_def)
  have low: "eff j \<le> k" if "q \<le> j" "j < p" for j
  proof -
    have "q \<noteq> F" using q(2) that by auto
    moreover have "q < p" using that by simp
    ultimately show ?thesis
      using bnd flp_at_gap(1,2) [OF at that] flp_at_gap(1,2) [OF at order.refl \<open>q < p\<close>]
      by (auto simp: min_le_iff_disj)
  qed
  show "p = F \<or> eff (p - 1) \<le> k \<or> cut p \<le> k"
    using bnd q qp low [of "p - 1"] by (cases "q = p") auto
  show "forest (k + 1) 0 (rows F p) = forest (k + 1) 0 (rows F q)"
    using forest_extend [OF q(1) qp bnd low] .
qed

text \<open>A deeper fold starts at the line: the call for it.\<close>

lemma enter_step:
  assumes inv: "inv c s m off k F G q p" and made: "created s off k F G q" and deeper: "k < eff p"
  obtains cn sn where "iems_enter L c s (length G) = (cn, sn)"
    "inv cn sn m (int F) (k + 1) p (forest (k + 1) 0 (rows F p)) p p"
proof -
  have at: "flp_at (it_flp s) off q p" and q: "F \<le> q" "q = F \<longrightarrow> p = F" and c: "call_ok c off k F G"
    and bt: "it_bot s = int N - off" "it_manual s = m" "it_startlnum2 s \<le> int q - off"
    using inv by (auto simp: inv_def)
  note bnd = inv_boundary [OF inv]
  have fl: "q \<le> p" "p \<le> N" "0 \<le> lv p" "it_lnum s = int q - off" "fln_off (it_flp s) = off"
    "fln_lnum_save (it_flp s) = int p - off" using at by (auto simp: flp_at_def)
  have k: "1 \<le> k" "k \<le> MAX_LEVEL" "1 \<le> F" "off \<le> int F" "ic_level c = k" using c by (auto simp: call_ok_def)
  have top: "int (vf_top (so_far off k F q)) = int F - off" "vf_flags (so_far off k F q) = FLevel"
    "vf_nested (so_far off k F q) = forest (k + 1) 0 (rows F q)" using k by (simp_all add: so_far_def)
  let ?G = "forest (k + 1) 0 (rows F p)"
  have eff_p: "eff p = min MAX_LEVEL (lv p)" using fl k q by (intro eff_defined) auto
  have nomark: "lv p - st p < k + 1" if mk: "is_marker L"
  proof -
    have le: "lv n \<le> MAX_LEVEL" if "1 \<le> n" "n \<le> N" for n using markers [OF mk that] by simp
    have nogap: "0 \<le> lv n" if "1 \<le> n" "n \<le> N" for n using gaps [OF that, of 0] first mk by fastforce
    show ?thesis
    proof (cases "p = F")
      case True
      then show ?thesis using c mk by (simp add: call_ok_def)
    next
      case False
      then have p: "2 \<le> p" "F < p" using q fl k by auto
      then have "eff (p - 1) = lv (p - 1)" using eff_defined [of "p - 1"] nogap [of "p - 1"] le [of "p - 1"] fl(2) by simp
      moreover have "lv p - st p \<le> lv (p - 1)" using markers [OF mk, of p] p fl(2) by simp
      moreover have "cut p = lv p - st p" using cut_defined [OF fl(3)] eff_p le [of p] p fl(2) by simp
      ultimately show ?thesis using bnd(1) False by auto
    qed
  qed
  have early: "vf_end f < int p - int F" if f: "f \<in> set ?G" and st: "st p = 0" for f
  proof (cases "q < p")
    case True
    have "f \<in> set (forest (k + 1) 0 (rows F q))" using f bnd(2) by simp
    then show ?thesis using forest_end [of f "k + 1" 0 "rows F q"] True q(1) by simp
  next
    case False
    have "p \<noteq> F" using f by (auto simp: level_rows_def)
    moreover have "cut p = eff p" using st cut_defined [OF fl(3)] by simp
    ultimately have "eff (p - 1) \<le> k" "F < p" using bnd(1) deeper q fl(1) by auto
    then have "rows F p \<noteq> []" "fst (last (rows F p)) < k + 1"
      by (cases p; simp add: level_rows_def level_row_def)+
    then show ?thesis using forest_end_last [OF rows_ok _ _ f] \<open>F < p\<close> by simp
  qed
  let ?flp = "(it_flp s)\<lparr>fln_lnum := int p - int F, fln_off := int F, fln_lnum_save := int p - int F\<rparr>"
  let ?c = "\<lparr>ic_level = k + 1, ic_startlnum = it_startlnum2 s - (int F - off), ic_firstlnum = int p - int F, ic_topflags = FLevel\<rparr>"
  let ?s = "\<lparr>it_gap = ?G, it_flp = ?flp, it_bot = int N - int F, it_fp = None, it_lvl = 0,
     it_startlnum2 = it_startlnum2 s - (int F - off), it_finish = False, it_manual = m, it_changed = it_changed s\<rparr>"
  have gap: "it_gap s ! length G = so_far off k F q" using made by (simp add: created_def)
  have "is_marker L \<Longrightarrow> \<not> st p \<le> lv p - (k + 1)" using nomark by auto
  then have "iems_enter L c s (length G) = (?c, ?s)"
    using at fl k bt bnd(2)
    by (auto simp: iems_enter_def iems_begin_def gap top Let_def flp_at_def)
  moreover have "call_ok ?c (int F) (k + 1) p ?G"
    using made deeper eff_max [of p] k fl q bt(3) early nomark bnd(2)
    by (auto simp: call_ok_def created_def dest: forest_flags)
  then have "inv ?c ?s m (int F) (k + 1) p ?G p p"
    using at fl bt(3) by (auto simp: inv_def waiting_def flp_at_def)
  ultimately show ?thesis by (rule that)
qed

end

context level_lines
begin

definition done_fold :: "int \<Rightarrow> int \<Rightarrow> nat \<Rightarrow> nat \<Rightarrow> vfold" where
  "done_fold off k F e = VFold (nat (int F - off)) (e - F) (forest (k + 1) 0 (rows F e)) FLevel TriNone"

lemma forest_done:
  assumes "p < e" "k \<le> eff p" "k \<le> MAX_LEVEL" "\<And>j. p < j \<Longrightarrow> j < e \<Longrightarrow> k \<le> cut j"
  shows "forest k (nat (int p - off)) (rows p e) = [done_fold off k p e]"
proof -
  have rows: "rows p e = level_row lv st N p # rows (Suc p) e" using assms(1) by (rule rows_Cons)
  have "forest k (nat (int p - off)) (rows p e) =
      [VFold (nat (int p - off)) (Suc (length (rows (Suc p) e))) (forest (k + 1) 0 (rows p e)) FLevel TriNone]"
    unfolding rows using assms by (intro forest_single) (auto simp: level_rows_def level_row_def)
  then show ?thesis using assms(1) by (simp add: done_fold_def)
qed

text \<open>The end of a call: the fold gets its length.\<close>

lemma end_step:
  assumes c: "call_ok c off k F G" and ex: "exited s m off k F G e"
  obtains s' where "iems_end L (int N) c s = Some s'" "it_gap s' = G @ [done_fold off k F e]" "it_flp s' = it_flp s"
    "it_bot s' = int N - off" "it_manual s' = m"
proof -
  have k: "off \<le> int F" "1 \<le> F" "F \<le> N" "ic_level c = k" using c by (auto simp: call_ok_def)
  have e: "F < e" "e \<le> N + 1" and fp: "it_fp s = Some (length G)" "it_gap s = G @ [so_far off k F e]"
    and ends: "\<forall>f\<in>set (forest (k + 1) 0 (rows F e)). vf_end f \<le> it_startlnum2 s - (int F - off)"
    and s: "it_bot s = int N - off" "it_manual s = m" "fln_off (it_flp s) = off" "it_lnum s = int e - off"
    and low: "e \<le> N \<longrightarrow> it_lvl s < k"
    using ex by (auto simp: exited_def created_def is_end_def)
  let ?f = "so_far off k F e"
  have f: "int (vf_top ?f) = int F - off" "int (vf_len ?f) = int (N + 1) - int F"
    "vf_nested ?f = forest (k + 1) 0 (rows F e)" using k by (simp_all add: so_far_def of_nat_diff)
  have count: "linecount (int N) s = int N - off" using s(3) by (simp add: linecount_def)
  have same: "set_len (nat (int N - off - (int F - off) + 1)) ?f = ?f"
    using k(3) by (simp add: so_far_def Suc_diff_le nat_diff_distrib')
  have len: "nat (int N - off - (int F - off) + 1) = N + 1 - F" using k(3) by simp
  have remove: "fold_remove (vf_nested ?f) (it_startlnum2 s - (int F - off)) (int e - off - 1 - (int F - off)) = Some (vf_nested ?f)"
    using ends f(3) by (intro fold_remove_after) simp
  have nested: "set_nested (vf_nested ?f) ?f = ?f" by (simp add: so_far_def)
  have fin: "set_len (nat (int e - off - (int F - off))) ?f = done_fold off k F e"
    using e(1) by (simp add: so_far_def done_fold_def nat_diff_distrib')
  have at: "(G @ [?f]) ! length G = ?f" by simp
  have upd: "(G @ [?f])[length G := x] = G @ [x]" for x by simp
  have follow: "follow_loop c (length G) s' = Some s'" if "length (it_gap s') = Suc (length G)" for s'
    using that by (subst follow_loop.simps) (simp add: Let_def)
  have changes: "\<not> int (vf_len ?f) < int e - off - (int F - off)"
    "int (vf_top ?f) + int (vf_len ?f) > int N - off" using f e(2) by auto
  show ?thesis
  proof (cases "e \<le> N")
    case True
    then have shorter: "it_lvl s < ic_level c \<and> int (vf_len ?f) \<noteq> int e - off - (int F - off)"
      "\<not> int (vf_top ?f) + int (vf_len ?f) - 1 > it_bot s" using low k f s by auto
    let ?s = "s\<lparr>it_gap := G @ [done_fold off k F e], it_changed := True\<rparr>"
    have "iems_end L (int N) c s = Some (?s\<lparr>it_bot := max (it_bot s) (int e - off - 1)\<rparr>)"
      using changes shorter remove same nested fin
      by (simp add: iems_end_def fp at upd count s f Let_def follow)
    then show ?thesis by (rule that) (use s e in auto)
  next
    case False
    then have "e = N + 1" using e by simp
    then have full: "int (vf_len ?f) = int e - off - (int F - off)" "done_fold off k F e = ?f"
      using f k by (simp_all add: done_fold_def so_far_def)
    let ?s = "s\<lparr>it_gap := G @ [?f]\<rparr>"
    have "iems_end L (int N) c s = Some (?s\<lparr>it_bot := max (it_bot s) (int e - off - 1)\<rparr>)"
      using changes remove same nested full
      by (simp add: iems_end_def fp at upd count s f Let_def follow)
    then show ?thesis by (rule that) (use s e full(2) in auto)
  qed
qed

end

context level_lines
begin

text \<open>At the end of the buffer every open fold ends.\<close>

lemma eof_step:
  assumes c: "call_ok c off k F G" and ex: "exited s m off k F G (N + 1)"
  obtains s' where "iems_line L (int N) c s = Some (True, s')" "exited s' m off k F G (N + 1)"
proof -
  have fp: "it_fp s = Some (length G)" "it_gap s = G @ [so_far off k F (N + 1)]" "it_lnum s = int (N + 1) - off"
    "it_bot s = int N - off" "fln_off (it_flp s) = off" "ic_level c = k" "off \<le> int F"
    and ends: "\<forall>f\<in>set (forest (k + 1) 0 (rows F (N + 1))). vf_end f \<le> it_startlnum2 s - (int F - off)"
    "it_startlnum2 s \<le> int (N + 1) - off"
    using ex c by (auto simp: exited_def created_def call_ok_def)
  let ?s = "s\<lparr>it_lvl := line_level c (it_flp s)\<rparr>" and ?f = "so_far off k F (N + 1)"
  have f: "int (vf_top ?f) = int F - off" "vf_nested ?f = forest (k + 1) 0 (rows F (N + 1))"
    using fp(7) by (simp_all add: so_far_def)
  have "\<forall>g\<in>set (vf_nested ?f). vf_end g \<le> int (N + 1) - off - (int F - off)"
    using ends f(2) by force
  then have find: "fold_find (vf_nested ?f) (int (N + 1) - off - (int F - off)) = (length (vf_nested ?f), False)"
    by (rule fold_find_after)
  then have depth: "depth_below (vf_nested ?f) (int (N + 1) - off - (int F - off)) = 0"
    by (subst depth_below.simps) simp
  have fp': "it_fp ?s = Some (length G)" "it_gap ?s ! length G = ?f" "it_lnum ?s = int (N + 1) - off" "it_bot ?s = int N - off"
    using fp by simp_all
  have "below_bot L c ?s = (True, ?s) \<or> below_bot L c ?s = (False, ?s) \<or> below_bot L c ?s = (False, ?s\<lparr>it_finish := True\<rparr>)"
    unfolding below_bot_def fp' option.case Let_def f(1) find depth fp(6) prod.case by auto
  moreover have "\<not> reuse_needed (int N) c ?s" "\<not> reuse_needed (int N) c (?s\<lparr>it_finish := True\<rparr>)"
    using fp(1) by (simp_all add: reuse_needed_def)
  ultimately have "iems_line L (int N) c s = Some (True, ?s) \<or> iems_line L (int N) c s = Some (True, ?s\<lparr>it_finish := True\<rparr>)"
    using fp by (auto simp: iems_line_def linecount_def)
  moreover have "exited ?s m off k F G (N + 1)" "exited (?s\<lparr>it_finish := True\<rparr>) m off k F G (N + 1)"
    using ex by (simp_all add: exited_def created_def)
  ultimately show ?thesis using that by blast
qed

text \<open>Back from the call for a nested fold.\<close>

lemma leave_step:
  assumes inv: "inv c s m off k F G q p" and made: "created s off k F G q" and deeper: "k < eff p"
    and covered: "\<forall>j. F < j \<longrightarrow> j \<le> p \<longrightarrow> k \<le> cut j" and fin: "is_end (k + 1) p e"
    and sn: "it_gap sn = forest (k + 1) 0 (rows F p) @ [done_fold (int F) (k + 1) p e]" "it_bot sn = int N - int F"
      "it_manual sn = m" "fln_off (it_flp sn) = int F" "it_lnum sn = int e - int F"
      "e \<le> N \<Longrightarrow> \<exists>p'. flp_at (it_flp sn) (int F) e p'" "fln_had_end (it_flp sn) = MAX_LEVEL + 1"
  shows "e \<le> N \<Longrightarrow> \<exists>p'. p < p' \<and> inv c (iems_leave s (length G) sn) m off k F G e p'"
    and "e = N + 1 \<Longrightarrow> exited (iems_leave s (length G) sn) m off k F G (N + 1)"
proof -
  let ?s = "iems_leave s (length G) sn"
  have c: "call_ok c off k F G" and q: "F \<le> q" "q \<le> p" "1 \<le> q" "p \<le> N"
    using inv by (auto simp: inv_def flp_at_def)
  have k: "off \<le> int F" "1 \<le> F" using c by (auto simp: call_ok_def)
  have e: "p < e" "e \<le> N + 1" "\<forall>j. p < j \<longrightarrow> j < e \<longrightarrow> k + 1 \<le> cut j" "e = N + 1 \<or> cut e < k + 1"
    using fin by (auto simp: is_end_def)
  have top: "int (vf_top (so_far off k F q)) = int F - off" using k by (simp add: so_far_def)
  have gap: "it_gap s = G @ [so_far off k F q]" "it_fp s = Some (length G)" using made by (auto simp: created_def)
  have at: "(G @ [so_far off k F q]) ! length G = so_far off k F q" by simp
  have "forest (k + 1) (p - F) (rows p e) = [done_fold (int F) (k + 1) p e]"
    using forest_done [of p e "k + 1" "int F"] e(1,3) deeper eff_max [of p] q by (auto simp: nat_diff_distrib')
  moreover have "forest (k + 1) 0 (rows F e) = forest (k + 1) 0 (rows F p) @ forest (k + 1) (p - F) (rows p e)"
    by (rule forest_boundary) (use q e inv_boundary(1) [OF inv] in auto)
  ultimately have forest: "it_gap sn = forest (k + 1) 0 (rows F e)" using sn(1) by simp
  have nested: "set_nested (it_gap sn) (so_far off k F q) = so_far off k F e"
    by (simp add: so_far_def forest)
  let ?flp = "(it_flp sn)\<lparr>fln_lnum := int e - off, fln_lnum_save := fln_lnum_save (it_flp sn) + (int F - off), fln_off := off\<rparr>"
  have s: "it_gap ?s = G @ [so_far off k F e]" "it_flp ?s = ?flp" "it_bot ?s = int N - off" "it_startlnum2 ?s = int e - off"
    "it_manual ?s = m" "it_fp ?s = Some (length G)"
    using nested sn by (simp_all add: iems_leave_def gap at top Let_def algebra_simps)
  have "\<forall>f\<in>set (forest (k + 1) 0 (rows F e)). vf_end f \<le> int e - off - (int F - off)"
    using forest_end [of _ "k + 1" 0 "rows F e"] q(1,2) e(1) by auto
  then have made': "created ?s off k F G e" using s by (simp add: created_def)
  have "cut j \<ge> k" if "F < j" "j < e" for j
    using covered e(3) that by (cases "j \<le> p") (auto simp: not_le intro: order_trans [of k "k + 1"])
  then have covered': "\<forall>j. F < j \<longrightarrow> j < e \<longrightarrow> k \<le> cut j" by blast
  show "\<exists>p'. p < p' \<and> inv c ?s m off k F G e p'" if le: "e \<le> N"
  proof -
    obtain p' where p': "flp_at (it_flp sn) (int F) e p'" using sn(6) [OF le] by blast
    then have "flp_at ?flp off e p'" by (simp add: flp_at_def)
    then have "inv c ?s m off k F G e p'"
      using c s made' covered' e le q by (auto simp: inv_def)
    moreover have "p < p'" using p' e(1) by (auto simp: flp_at_def)
    ultimately show ?thesis by blast
  qed
  show "exited ?s m off k F G (N + 1)" if "e = N + 1"
    using made' s covered' q e(1) that sn(7) by (auto simp: exited_def is_end_def)
qed

lemma loop_ok:
  assumes "inv c s m off k F G q p"
  shows "\<exists>s' e. iems_loop L (int N) c s = Some s' \<and> exited s' m off k F G e"
  using assms
proof (induction "(N - p) * 21 + nat (MAX_LEVEL - k)" arbitrary: c s off k F G q p rule: less_induct)
  case less
  note inv = less.prems
  have c: "call_ok c off k F G" and lev: "ic_level c = k" and pN: "p \<le> N" and fl: "it_lnum s = int q - off"
    using inv by (auto simp: inv_def call_ok_def flp_at_def)
  note step = iems_loop.simps [of L "int N" c s]
  from inv show ?case
  proof (cases rule: line_step)
    case (ends s')
    then show ?thesis using step by auto
  next
    case (covers s')
    show ?thesis
    proof (cases "k < eff p")
      case True
      then have made: "created s' off k F G q" using covers(7) by auto
      then have fp: "it_fp s' = Some (length G)" by (simp add: created_def)
      obtain cn sn where enter: "iems_enter L c s' (length G) = (cn, sn)"
        and ninv: "inv cn sn m (int F) (k + 1) p (forest (k + 1) 0 (rows F p)) p p"
        by (rule enter_step [OF covers(2) made True])
      have "(N - p) * 21 + nat (MAX_LEVEL - (k + 1)) < (N - p) * 21 + nat (MAX_LEVEL - k)"
        using True eff_max [of p] by simp
      from less.hyps [OF this ninv] obtain sn1 e where
        sn1: "iems_loop L (int N) cn sn = Some sn1" "exited sn1 m (int F) (k + 1) p (forest (k + 1) 0 (rows F p)) e" by blast
      have "call_ok cn (int F) (k + 1) p (forest (k + 1) 0 (rows F p))" using ninv by (simp add: inv_def)
      from end_step [OF this sn1(2)] obtain sn2 where sn2: "iems_end L (int N) cn sn1 = Some sn2"
        "it_gap sn2 = forest (k + 1) 0 (rows F p) @ [done_fold (int F) (k + 1) p e]" "it_flp sn2 = it_flp sn1"
        "it_bot sn2 = int N - int F" "it_manual sn2 = m" by blast
      let ?s = "iems_leave s' (length G) sn2"
      have next_loop: "iems_loop L (int N) c s = iems_loop L (int N) c ?s"
        using True covers(1,3) fp enter sn1(1) sn2(1) lev by (simp add: step)
      have child: "is_end (k + 1) p e" "fln_off (it_flp sn2) = int F" "it_lnum sn2 = int e - int F"
        "e \<le> N \<Longrightarrow> \<exists>p'. flp_at (it_flp sn2) (int F) e p'" "fln_had_end (it_flp sn2) = MAX_LEVEL + 1"
        using sn1(2) sn2(3) by (auto simp: exited_def)
      note leave = leave_step [OF covers(2) made True covers(5) child(1) sn2(2,4,5) child(2,3,4,5)]
      show ?thesis
      proof (cases "e \<le> N")
        case True
        then obtain p' where p': "p < p'" "inv c ?s m off k F G e p'" using leave(1) by blast
        moreover have "p' \<le> N" using p'(2) by (auto simp: inv_def flp_at_def)
        then have "(N - p') * 21 + nat (MAX_LEVEL - k) < (N - p) * 21 + nat (MAX_LEVEL - k)" using p'(1) by simp
        ultimately show ?thesis using less.hyps next_loop by simp
      next
        case False
        then have "e = N + 1" using child(1) by (auto simp: is_end_def)
        then have ex: "exited ?s m off k F G (N + 1)" using leave(2) by blast
        from eof_step [OF c ex] obtain s2 where "iems_line L (int N) c ?s = Some (True, s2)" "exited s2 m off k F G (N + 1)"
          by blast
        then show ?thesis using next_loop iems_loop.simps [of L "int N" c ?s] by auto
      qed
    next
      case False
      then have own: "eff p = k" using covers(4) by simp
      have "created s' off k F G q \<or> waiting c s' k F G q \<and> p < N \<and> st p = 0" using covers(7) by auto
      from covers(2) own covers(5) this show ?thesis
      proof (cases rule: advance_step)
        case (eof s2)
        then have "iems_loop L (int N) c s = Some s2"
          using covers(1,3) own lev by (simp add: step split: option.split)
        then show ?thesis using eof(2) by blast
      next
        case (more s2 p')
        have "p' \<le> N" using more(2) by (auto simp: inv_def flp_at_def)
        then have "(N - p') * 21 + nat (MAX_LEVEL - k) < (N - p) * 21 + nat (MAX_LEVEL - k)" using more(3) by simp
        moreover have "iems_loop L (int N) c s = iems_loop L (int N) c s2"
          using covers(1,3) own lev more(1) by (simp add: step split: option.split)
        ultimately show ?thesis using less.hyps more(2) by simp
      qed
    qed
  qed
qed

end

section \<open>The update of the buffer\<close>

context level_lines
begin

text \<open>The driver is at line \<open>q\<close>: the folds of the lines above are built.\<close>

definition driver_at :: "fold_update_state \<Rightarrow> bool \<Rightarrow> nat \<Rightarrow> bool" where
  "driver_at u m q \<longleftrightarrow>
     1 \<le> q \<and> q \<le> N + 1 \<and> fu_gap u = forest 1 1 (rows 1 q) \<and> fu_end u = int N \<and> fu_manual u = m \<and>
     fu_start u \<le> int q \<and> (\<forall>f\<in>set (fu_gap u). vf_end f \<le> fu_start u) \<and>
     fln_lnum (fu_flp u) = int q \<and> fln_off (fu_flp u) = 0 \<and> fln_had_end (fu_flp u) = MAX_LEVEL + 1 \<and>
     (q \<le> N \<longrightarrow> fln_lvl_next (fu_flp u) = nx q \<and> ((\<forall>n. st n = 0) \<longrightarrow> fln_start (fu_flp u) = 0) \<and>
       (if 0 < fln_lvl (fu_flp u)
        then fln_lvl (fu_flp u) = lv q \<and> fln_start (fu_flp u) = st q \<and> (q = 1 \<or> eff (q - 1) < 1 \<or> cut q < 1)
        else eff q \<le> 0))"

lemma eff_low_gap:
  assumes "2 \<le> q" "q \<le> N" "lv q < 0" "eff (q - 1) \<le> 0"
  shows "eff q \<le> 0"
proof -
  obtain n where n: "q = Suc n" "1 \<le> n" using assms(1) by (cases q) auto
  have above: "level_above lv q = level_above lv n" using assms(3) n by simp
  show ?thesis
  proof (cases "0 \<le> lv n")
    case True
    then have "level_above lv n = lv n" using n by (cases n) simp_all
    moreover have "lv n \<le> 0" using eff_defined [of n] True assms(2,4) n by (simp add: MAX_LEVEL_def)
    ultimately show ?thesis using above by (simp add: eff_level_def)
  next
    case False
    have "N + 1 - n = Suc (N + 1 - q)" using assms(2) n by simp
    then have "level_below lv (N + 1 - n) n = level_below lv (N + 1 - q) q" using False n by simp
    then have "eff q = eff n" using above by (simp add: eff_level_def)
    then show ?thesis using assms(4) n by simp
  qed
qed

text \<open>A line without a fold.\<close>

lemma driver_skip:
  assumes u: "driver_at u m q" and q: "q \<le> N" "\<not> 0 < fln_lvl (fu_flp u)"
  shows "q = N \<Longrightarrow> fu_gap u = forest 1 1 (rows 1 (N + 1))"
    and "q < N \<Longrightarrow> \<exists>flp. get_level L ((fu_flp u)\<lparr>fln_lnum := int q + 1, fln_lvl := fln_lvl_next (fu_flp u)\<rparr>) = Some flp \<and>
      driver_at (u\<lparr>fu_flp := flp\<rparr>) m (q + 1)"
proof -
  have low: "eff q \<le> 0" and flp: "fln_lvl_next (fu_flp u) = nx q" "(\<forall>n. st n = 0) \<longrightarrow> fln_start (fu_flp u) = 0"
    "fln_lnum (fu_flp u) = int q" "fln_off (fu_flp u) = 0" "1 \<le> q"
    using u q by (auto simp: driver_at_def split: if_splits)
  have "forest 1 1 (rows 1 (q + 1)) = forest 1 1 (rows 1 q) @ forest 1 (1 + (q - 1)) (rows q (q + 1))"
    using cut_le_eff [of q] low flp(5) by (intro forest_rows_split) auto
  moreover have "forest 1 (1 + (q - 1)) (rows q (q + 1)) = []"
    using low by (intro forest_low) (simp add: level_rows_def level_row_def)
  ultimately have same: "forest 1 1 (rows 1 (q + 1)) = fu_gap u" using u by (simp add: driver_at_def)
  then show "q = N \<Longrightarrow> fu_gap u = forest 1 1 (rows 1 (N + 1))" by simp
  assume lt: "q < N"
  let ?f = "(fu_flp u)\<lparr>fln_lnum := int q + 1, fln_lvl := fln_lvl_next (fu_flp u)\<rparr>"
  have get: "get_level L ?f = Some (?f\<lparr>fln_lvl := lv (q + 1), fln_start := st (q + 1), fln_lvl_next := nx (q + 1)\<rparr>)"
    using flp lt by (intro reads) auto
  have "eff (q + 1) \<le> 0" if "\<not> 0 < lv (q + 1)"
  proof (cases "lv (q + 1) < 0")
    case True
    then show ?thesis using eff_low_gap [of "q + 1"] low flp(5) lt by simp
  next
    case False
    then show ?thesis using eff_defined [of "q + 1"] that lt by simp
  qed
  then have "driver_at (u\<lparr>fu_flp := ?f\<lparr>fln_lvl := lv (q + 1), fln_start := st (q + 1), fln_lvl_next := nx (q + 1)\<rparr>\<rparr>) m (q + 1)"
    using u same low lt by (auto simp: driver_at_def)
  then show "\<exists>flp. get_level L ?f = Some flp \<and> driver_at (u\<lparr>fu_flp := flp\<rparr>) m (q + 1)" using get by blast
qed

text \<open>A line at which a fold starts: the whole fold is built.\<close>

lemma driver_fold_next:
  assumes at: "flp_at flp 0 e p" and cut: "cut e < 1" and prev: "1 \<le> eff (e - 1)"
  shows "fln_lvl_next flp = nx e \<and> ((\<forall>n. st n = 0) \<longrightarrow> fln_start flp = 0) \<and>
    (if 0 < fln_lvl flp then fln_lvl flp = lv e \<and> fln_start flp = st e \<and> (e = 1 \<or> eff (e - 1) < 1 \<or> cut e < 1)
     else eff e \<le> 0)"
proof -
  have flp: "fln_lvl flp = lv p" "fln_start flp = st p" "fln_lvl_next flp = nx p" "e \<le> p" "1 \<le> e" "p \<le> N" "0 \<le> lv p"
    using at by (auto simp: flp_at_def)
  have p: "eff p = min MAX_LEVEL (lv p)" using flp by (intro eff_defined) auto
  show ?thesis
  proof (cases "e = p")
    case True
    then show ?thesis using flp cut p by auto
  next
    case False
    then have "e < p" using flp(4) by simp
    note gap = flp_at_gap [OF at order.refl this]
    have "eff p < 1" using gap(1,2) cut prev by auto
    then have "\<not> 0 < lv p" using p by (simp add: MAX_LEVEL_def)
    then show ?thesis using flp gap(1,2) cut gap(3) [of p] gap(4) [of p] gap(4) [of e] by auto
  qed
qed

lemma driver_fold:
  assumes u: "driver_at u m q" and q: "q \<le> N" "0 < fln_lvl (fu_flp u)"
  obtains s e where
    "fold_update_iems_recurse L (int N) 1 (fu_start u) FLevel (fu_gap u) (fu_flp u) (fu_end u) (fu_manual u) (fu_changed u) = Some s"
    "q < e" "\<And>ch. driver_at \<lparr>fu_gap = it_gap s, fu_flp = it_flp s, fu_start = it_lnum s, fu_end = it_bot s,
              fu_manual = it_manual s, fu_changed = ch\<rparr> m e"
proof -
  let ?flp = "fu_flp u" and ?G = "forest 1 1 (rows 1 q)"
  have flp: "fln_lvl ?flp = lv q" "fln_start ?flp = st q" "fln_lvl_next ?flp = nx q" "fln_lnum ?flp = int q" "fln_off ?flp = 0"
    "fln_had_end ?flp = MAX_LEVEL + 1" and bnd: "q = 1 \<or> eff (q - 1) < 1 \<or> cut q < 1"
    and gap: "fu_gap u = ?G" "fu_end u = int N" "fu_manual u = m" "fu_start u \<le> int q" "\<forall>f\<in>set ?G. vf_end f \<le> fu_start u"
    and q1: "1 \<le> q"
    using u q by (auto simp: driver_at_def)
  have lv: "0 < lv q" using q(2) flp(1) by simp
  then have eff: "eff q = min MAX_LEVEL (lv q)" "1 \<le> eff q" using q1 q(1) by (simp_all add: eff_defined MAX_LEVEL_def)
  have cut: "cut q = eff q - st q" using lv by (simp add: cut_defined)
  have nomark: "lv q - st q < 1" if mk: "is_marker L"
  proof -
    have "0 \<le> lv n" if "1 \<le> n" "n \<le> N" for n using gaps [OF that, of 0] first mk by fastforce
    then have prev: "q \<noteq> 1 \<Longrightarrow> eff (q - 1) = lv (q - 1)"
      using eff_defined [of "q - 1"] markers [OF mk, of "q - 1"] q1 q(1) by simp
    have "lv q \<le> MAX_LEVEL" "lv q - st q \<le> (if q = 1 then 0 else lv (q - 1))" using markers [OF mk q1 q(1)] by auto
    then show ?thesis using bnd cut eff(1) prev by (auto split: if_splits)
  qed
  have early: "vf_end f < int q" if f: "f \<in> set ?G" and "st q = 0" for f
  proof -
    have ne: "rows 1 q \<noteq> []" using f by auto
    then have "1 < q" by (auto simp: level_rows_def)
    moreover have "eff (q - 1) < 1" using bnd cut eff(2) that(2) \<open>1 < q\<close> by auto
    then have "fst (last (rows 1 q)) < 1" using \<open>1 < q\<close> by (cases q; simp add: level_rows_def level_row_def)
    then show ?thesis using forest_end_last [OF rows_ok ne _ f] \<open>1 < q\<close> by simp
  qed
  let ?c = "\<lparr>ic_level = 1, ic_startlnum = fu_start u, ic_firstlnum = int q, ic_topflags = FLevel\<rparr>"
  let ?s = "\<lparr>it_gap = ?G, it_flp = ?flp\<lparr>fln_lnum_save := int q\<rparr>, it_bot = int N, it_fp = None, it_lvl = 0,
     it_startlnum2 = fu_start u, it_finish = False, it_manual = m, it_changed = fu_changed u\<rparr>"
  have begin_call: "iems_begin L 1 (fu_start u) FLevel (fu_gap u) ?flp (fu_end u) (fu_manual u) (fu_changed u) = (?c, ?s)"
    using nomark flp gap(1-3) by (auto simp: iems_begin_def Let_def)
  have call: "call_ok ?c 0 1 q ?G"
    using gap(4,5) q1 q(1) lv eff early nomark by (auto simp: call_ok_def MAX_LEVEL_def dest: forest_flags)
  then have "inv ?c ?s m 0 1 q ?G q q"
    using flp q1 q(1) lv gap(4) by (auto simp: inv_def waiting_def flp_at_def)
  from loop_ok [OF this] obtain s1 e where s1: "iems_loop L (int N) ?c ?s = Some s1" "exited s1 m 0 1 q ?G e" by blast
  from end_step [OF call s1(2)] obtain s where s: "iems_end L (int N) ?c s1 = Some s" "it_gap s = ?G @ [done_fold 0 1 q e]"
    "it_flp s = it_flp s1" "it_bot s = int N - 0" "it_manual s = m" by blast
  have e: "q < e" "e \<le> N + 1" "\<forall>j. q < j \<longrightarrow> j < e \<longrightarrow> 1 \<le> cut j" "e = N + 1 \<or> cut e < 1"
    and l: "it_lnum s1 = int e" "fln_off (it_flp s1) = 0" "fln_had_end (it_flp s1) = MAX_LEVEL + 1" and at: "e \<le> N \<Longrightarrow> \<exists>p. flp_at (it_flp s1) 0 e p"
    using s1(2) by (auto simp: exited_def is_end_def)
  have "fold_update_iems_recurse L (int N) 1 (fu_start u) FLevel (fu_gap u) ?flp (fu_end u) (fu_manual u) (fu_changed u) = Some s"
    using s1(1) s(1) by (simp add: fold_update_iems_recurse_def begin_call)
  moreover have "driver_at \<lparr>fu_gap = it_gap s, fu_flp = it_flp s, fu_start = it_lnum s, fu_end = it_bot s,
      fu_manual = it_manual s, fu_changed = ch\<rparr> m e" for ch
  proof -
    have built: "it_gap s = forest 1 1 (rows 1 e)"
      using bnd forest_done [of q e 1 0] forest_rows_split [of 1 q e 1 1] q1 e(1,3) s(2) eff(2) by (auto simp: MAX_LEVEL_def)
    have "\<forall>f\<in>set (it_gap s). vf_end f \<le> int e" using built forest_end [of _ 1 1 "rows 1 e"] e(1) q1 by auto
    moreover have "fln_lvl_next (it_flp s) = nx e \<and> ((\<forall>n. st n = 0) \<longrightarrow> fln_start (it_flp s) = 0) \<and>
       (if 0 < fln_lvl (it_flp s)
        then fln_lvl (it_flp s) = lv e \<and> fln_start (it_flp s) = st e \<and> (e = 1 \<or> eff (e - 1) < 1 \<or> cut e < 1)
        else eff e \<le> 0)" if le: "e \<le> N"
    proof -
      obtain p where at: "flp_at (it_flp s) 0 e p" using at [OF le] s(3) by auto
      have "1 \<le> eff (e - 1)"
      proof (cases "e - 1 = q")
        case False
        then have "1 \<le> cut (e - 1)" using e(1,3) by simp
        then show ?thesis using cut_le_eff [of "e - 1"] by simp
      qed (use eff(2) in simp)
      then show ?thesis using driver_fold_next [OF at] e(4) le by auto
    qed
    ultimately show ?thesis using built s e q1 l by (auto simp: driver_at_def)
  qed
  ultimately show ?thesis using e(1) that by blast
qed

end

context level_lines
begin

lemma driver_loop:
  "driver_at u m q \<Longrightarrow> \<exists>u'. fold_update_loop L (int N) u = Some u' \<and> fu_gap u' = forest 1 1 (rows 1 (N + 1)) \<and>
     fu_manual u' = m \<and> (\<forall>f\<in>set (fu_gap u'). vf_end f \<le> fu_start u')"
proof (induction "N + 1 - q" arbitrary: u q rule: less_induct)
  case less
  note step = fold_update_loop.simps [of L "int N" u]
  have q: "q \<le> N + 1" "fln_lnum (fu_flp u) = int q" "fu_end u = int N" "fu_manual u = m"
    "\<forall>f\<in>set (fu_gap u). vf_end f \<le> fu_start u" "fu_gap u = forest 1 1 (rows 1 q)"
    using less.prems by (auto simp: driver_at_def)
  consider "q = N + 1" | "q \<le> N" "0 < fln_lvl (fu_flp u)" | "q = N" "\<not> 0 < fln_lvl (fu_flp u)"
    | "q < N" "\<not> 0 < fln_lvl (fu_flp u)" using q(1) by linarith
  then show ?case
  proof cases
    case 1
    then have "fold_update_loop L (int N) u = Some u" using q step by (simp add: Let_def)
    then show ?thesis using q 1 by auto
  next
    case 2
    obtain s e where s: "fold_update_iems_recurse L (int N) 1 (fu_start u) FLevel (fu_gap u) (fu_flp u) (fu_end u) (fu_manual u) (fu_changed u) = Some s"
      and e: "q < e" and at: "\<And>ch. driver_at \<lparr>fu_gap = it_gap s, fu_flp = it_flp s, fu_start = it_lnum s, fu_end = it_bot s,
              fu_manual = it_manual s, fu_changed = ch\<rparr> m e"
      by (rule driver_fold [OF less.prems 2]) blast
    have "N + 1 - e < N + 1 - q" using e 2(1) by simp
    note IH = less.hyps [OF this at]
    have "fold_update_loop L (int N) u = fold_update_loop L (int N) \<lparr>fu_gap = it_gap s, fu_flp = it_flp s, fu_start = it_lnum s,
        fu_end = it_bot s, fu_manual = it_manual s, fu_changed = it_changed s\<rparr>"
      using q 2 s by (subst step) (simp add: Let_def)
    then show ?thesis using IH by simp
  next
    case 3
    then have "fold_update_loop L (int N) u = Some u" using q step by (simp add: Let_def)
    then show ?thesis using driver_skip(1) [OF less.prems _ 3(2)] q 3(1) by auto
  next
    case 4
    then obtain flp where flp: "get_level L ((fu_flp u)\<lparr>fln_lnum := int q + 1, fln_lvl := fln_lvl_next (fu_flp u)\<rparr>) = Some flp"
      "driver_at (u\<lparr>fu_flp := flp\<rparr>) m (q + 1)"
      using driver_skip(2) [OF less.prems _ 4(2,1)] by auto
    have "N + 1 - (q + 1) < N + 1 - q" using 4(1) by simp
    note IH = less.hyps [OF this flp(2)]
    have "fold_update_loop L (int N) u = fold_update_loop L (int N) (u\<lparr>fu_flp := flp\<rparr>)"
      using q 4 flp(1) by (subst step) (simp add: Let_def)
    then show ?thesis using IH by simp
  qed
qed

lemma driver_begins:
  assumes "1 \<le> N"
  obtains flp where "(if is_marker L then get_level L (fline_default\<lparr>fln_lnum := 1, fln_lvl := 0\<rparr>)
      else prime_level L (fline_default\<lparr>fln_lnum := 1, fln_lvl := undefined_level\<rparr>)) = Some flp"
    "fln_lnum flp = 1"
    "driver_at \<lparr>fu_gap = [], fu_flp = flp, fu_start = 1, fu_end = int N, fu_manual = m, fu_changed = ch\<rparr> m 1"
proof -
  let ?f = "if is_marker L then fline_default\<lparr>fln_lnum := 1, fln_lvl := 0\<rparr>
    else fline_default\<lparr>fln_lnum := 1, fln_lvl := undefined_level, fln_lvl_next := undefined_level\<rparr>"
  let ?g = "?f\<lparr>fln_lvl := lv 1, fln_start := st 1, fln_lvl_next := nx 1\<rparr>"
  have lv: "0 \<le> lv 1" using edges assms by simp
  have "get_level L ?f = Some ?g"
    using assms first by (intro reads) (auto simp: fline_default_def undefined_level_def)
  then have "(if is_marker L then get_level L (fline_default\<lparr>fln_lnum := 1, fln_lvl := 0\<rparr>)
      else prime_level L (fline_default\<lparr>fln_lnum := 1, fln_lvl := undefined_level\<rparr>)) = Some ?g"
    using lv by (auto simp: prime_level.simps Let_def)
  moreover have "driver_at \<lparr>fu_gap = [], fu_flp = ?g, fu_start = 1, fu_end = int N, fu_manual = m, fu_changed = ch\<rparr> m 1"
    using assms lv eff_defined [of 1] by (auto simp: driver_at_def fline_default_def level_rows_def)
  moreover have "fln_lnum ?g = 1" by simp
  ultimately show ?thesis using that [of ?g] by blast
qed

text \<open>From nothing, the folds of the buffer are those of the reference.\<close>

theorem builds: "\<exists>ch'. fold_update [] L (int N) m ch = Some (forest 1 1 (rows 1 (N + 1)), m, ch')"
proof (cases "1 \<le> N")
  case True
  obtain flp where flp: "(if is_marker L then get_level L (fline_default\<lparr>fln_lnum := 1, fln_lvl := 0\<rparr>)
      else prime_level L (fline_default\<lparr>fln_lnum := 1, fln_lvl := undefined_level\<rparr>)) = Some flp" "fln_lnum flp = 1"
    and at: "driver_at \<lparr>fu_gap = [], fu_flp = flp, fu_start = 1, fu_end = int N, fu_manual = m, fu_changed = ch\<rparr> m 1"
    by (rule driver_begins [OF True])
  from driver_loop [OF at] obtain u where u: "fold_update_loop L (int N)
      \<lparr>fu_gap = [], fu_flp = flp, fu_start = 1, fu_end = int N, fu_manual = m, fu_changed = ch\<rparr> = Some u"
    "fu_gap u = forest 1 1 (rows 1 (N + 1))" "fu_manual u = m" "\<forall>f\<in>set (fu_gap u). vf_end f \<le> fu_start u" by blast
  have "max 1 (int N) = int N" using True by simp
  then show ?thesis using flp u fold_remove_after [OF u(4)] True by (simp add: fold_update_def Let_def)
qed (simp add: fold_update_def level_rows_def)

text \<open>Every line is as deep as its level.\<close>

lemma rows_levels:
  assumes "1 \<le> n" "n \<le> N"
  shows "depth (forest 1 1 (rows 1 (N + 1))) (int n) = nat (eff n)"
proof -
  have "rows 1 (N + 1) ! (n - 1) = level_row lv st N n"
    using assms by (simp add: level_rows_def del: upt_Suc)
  then show ?thesis using forest_depth [OF rows_ok, of "n - 1" 1 "N + 1" 1 1] assms by (simp add: level_row_def)
qed

lemma rows_wf: "wf_folds 1 (int N + 1) (forest 1 1 (rows 1 (N + 1)))"
  using forest_wf [of 1 "rows 1 (N + 1)" 1] by (simp add: add.commute)

end

end
