(* ===== verification/FoldLevels.thy ===== *)
theory FoldLevels
  imports FoldBuild
begin

text \<open>
  The three level getters of the program keep what \<open>level_lines\<close> asks for, so a buffer without folds
  gets the folds of the reference: for 'foldmethod' indent, for captured ranges of the syntax and for
  markers.
\<close>

section \<open>Captured ranges\<close>

text \<open>Ranges are counted from 0, so the line \<open>n\<close> is the line \<open>n - 1\<close> of a range.\<close>

definition captures :: "(nat \<times> nat) list \<Rightarrow> nat \<Rightarrow> nat" where
  "captures ranges n = length (filter (\<lambda>r. fst r + 1 < n \<and> n \<le> snd r + 1) ranges)"

lemma length_syntax_levels [simp]: "length (syntax_levels ranges count) = count"
proof -
  have "length (foldl (\<lambda>ls r. add_levels count r ls) ls ranges) = length ls" for ls
    by (induction ranges arbitrary: ls) (simp_all add: add_levels_def)
  then show ?thesis by (simp add: syntax_levels_def)
qed

lemma syntax_levels_captures:
  assumes "1 \<le> n" "n \<le> count"
  shows "syntax_levels ranges count ! (n - 1) = int (captures ranges n)"
proof -
  have "foldl (\<lambda>ls r. add_levels count r ls) ls ranges ! (n - 1) = ls ! (n - 1) + int (captures ranges n)"
    if "length ls = count" for ls
    using that
  proof (induction ranges arbitrary: ls)
    case (Cons r ranges)
    have "length (add_levels count r ls) = count" using Cons.prems by (simp add: add_levels_def)
    moreover have "add_levels count r ls ! (n - 1) = ls ! (n - 1) + (if fst r + 1 < n \<and> n \<le> snd r + 1 then 1 else 0)"
      using assms Cons.prems by (auto simp: add_levels_def nth_enumerate_eq)
    ultimately show ?case using Cons.IH [of "add_levels count r ls"] by (simp add: captures_def)
  qed (simp add: captures_def)
  then show ?thesis using assms by (simp add: syntax_levels_def)
qed

definition syntax_at :: "(nat \<times> nat) list \<Rightarrow> nat \<Rightarrow> nat \<Rightarrow> int" where
  "syntax_at ranges count n = (if 1 \<le> n \<and> n \<le> count then int (captures ranges n) else 0)"

lemma syntax_level_at: "syntax_level_at (syntax_levels ranges count) (int n) = syntax_at ranges count n"
  by (cases n) (auto simp: syntax_level_at_def syntax_at_def simp flip: syntax_levels_captures)

text \<open>A line also starts the folds of the next one.\<close>

definition syntax_lv :: "(nat \<times> nat) list \<Rightarrow> nat \<Rightarrow> nat \<Rightarrow> int" where
  "syntax_lv ranges count n = max (syntax_at ranges count n) (syntax_at ranges count (n + 1))"

definition syntax_st :: "(nat \<times> nat) list \<Rightarrow> nat \<Rightarrow> nat \<Rightarrow> int" where
  "syntax_st ranges count n = syntax_lv ranges count n - syntax_at ranges count n"

definition syntax_nx :: "(nat \<times> nat) list \<Rightarrow> nat \<Rightarrow> nat \<Rightarrow> int" where
  "syntax_nx ranges count n = (if n = 0 then - 1 else syntax_at ranges count (n + 1))"

lemma syntax_at_nonneg [simp]: "0 \<le> syntax_at ranges count n"
  by (simp add: syntax_at_def)

lemma syntax_lv_nonneg [simp]: "0 \<le> syntax_lv ranges count n"
  by (simp add: syntax_lv_def le_max_iff_disj)

interpretation syn: level_lines "syntax_level_getter (syntax_levels ranges count)" count "syntax_lv ranges count"
  "syntax_st ranges count" "syntax_nx ranges count" for ranges count
proof (unfold_locales, goal_cases)
  case (1 n flp)
  have "int n + 1 = int (n + 1)" by simp
  then have "syntax_level_at (syntax_levels ranges count) (int n + 1) = syntax_at ranges count (n + 1)"
    by (simp only: syntax_level_at)
  then show ?case
    using 1 by (cases flp) (auto simp: syntax_level_getter_def Let_def syntax_level_at syntax_lv_def syntax_st_def
        syntax_nx_def syntax_at_def max_def)
next
  case (4 n m)
  then show ?case using syntax_lv_nonneg [of ranges count n] by linarith
qed (auto simp: syntax_level_getter_def syntax_st_def syntax_nx_def syntax_lv_def le_max_iff_disj)

lemma syntax_eff: "1 \<le> n \<Longrightarrow> n \<le> count \<Longrightarrow> eff_level (syntax_lv ranges count) count n =
    min MAX_LEVEL (syntax_lv ranges count n)"
  by (rule syn.eff_defined) simp_all

section \<open>Indents\<close>

definition indent_lv :: "str list \<Rightarrow> str \<Rightarrow> nat \<Rightarrow> nat \<Rightarrow> int \<Rightarrow> nat \<Rightarrow> int" where
  "indent_lv lines fi sw tw fnm n = foldlevel_indent (lines ! (n - 1)) n (length lines) fi sw tw fnm"

lemma usize_as_i32_small: "n < 2 ^ 31 \<Longrightarrow> usize_as_i32 n = int n"
  by (simp add: usize_as_i32_def)

lemma foldlevel_indent_edge:
  assumes "indent_columns line tw < 2 ^ 31" "n = 1 \<or> n = cnt"
  shows "0 \<le> foldlevel_indent line n cnt fi sw tw fnm"
proof -
  have "indent_columns line tw div max sw 1 < 2 ^ 31"
    using assms(1) by (rule le_less_trans [OF div_le_dividend])
  then show ?thesis
    using assms(2) by (auto simp: foldlevel_indent_def Let_def undefined_or_edge_def usize_as_i32_small split: option.splits)
qed

lemma indent_lines:
  assumes "\<forall>l\<in>set lines. indent_columns l tw < 2 ^ 31"
  shows "level_lines (indent_level_getter lines fi sw tw fnm) (length lines) (indent_lv lines fi sw tw fnm) (\<lambda>_. 0) (\<lambda>_. - 1)"
proof
  have small: "indent_columns (lines ! (n - 1)) tw < 2 ^ 31" if "1 \<le> n" "n \<le> length lines" for n
    using assms that by simp
  show "get_level (indent_level_getter lines fi sw tw fnm) flp =
      Some (flp\<lparr>fln_lvl := indent_lv lines fi sw tw fnm n, fln_start := 0, fln_lvl_next := - 1\<rparr>)"
    if "1 \<le> n" "n \<le> length lines" "fln_lnum flp + fln_off flp = int n" "fln_lvl flp = - 1"
      "is_marker (indent_level_getter lines fi sw tw fnm) \<or> fln_lvl_next flp = - 1"
      "(\<forall>m :: nat. (0 :: int) = 0) \<longrightarrow> fln_start flp = 0" for n flp
    using that by (cases flp) (auto simp: indent_level_getter_def Let_def indent_lv_def nat_diff_distrib')
  show "0 \<le> indent_lv lines fi sw tw fnm 1 \<and> 0 \<le> indent_lv lines fi sw tw fnm (length lines)" if "1 \<le> length lines"
    unfolding indent_lv_def
    by (intro conjI foldlevel_indent_edge) (use small [of 1] small [of "length lines"] that in simp_all)
qed (auto simp: indent_level_getter_def)

section \<open>Markers\<close>

text \<open>The level of a line, the folds that start at it and the level after it, from the level before it.\<close>

definition marker_line :: "str \<Rightarrow> str \<Rightarrow> int \<Rightarrow> str \<Rightarrow> (int \<times> int \<times> int) option" where
  "marker_line sm em prev line =
     map_option (\<lambda>f. (fln_lvl f, fln_start f, fln_lvl_next f)) (foldlevel_marker line sm em (fline_default\<lparr>fln_lvl := prev\<rparr>))"

fun marker_rows :: "str \<Rightarrow> str \<Rightarrow> int \<Rightarrow> str list \<Rightarrow> (int \<times> int \<times> int) list option" where
  "marker_rows sm em prev [] = Some []"
| "marker_rows sm em prev (l # ls) = do {
     r \<leftarrow> marker_line sm em prev l;
     rs \<leftarrow> marker_rows sm em (snd (snd r)) ls;
     Some (r # rs)
   }"

text \<open>
  Numbered markers can leave levels that no fold was started for; here no line is deeper than the limit
  and what a line continues was there before.
\<close>

fun markers_nest :: "int \<Rightarrow> (int \<times> int \<times> int) list \<Rightarrow> bool" where
  "markers_nest prev [] \<longleftrightarrow> True"
| "markers_nest prev ((l, s, x) # rs) \<longleftrightarrow> l \<le> MAX_LEVEL \<and> l - s \<le> prev \<and> markers_nest l rs"

lemma i32_Some: "i32 n = Some m \<longleftrightarrow> n = m \<and> - (2 ^ 31) \<le> n \<and> n < 2 ^ 31"
  by (auto simp: i32_def)

text \<open>The scan reads and writes three fields.\<close>

lemma marker_scan_steps:
  shows "marker_scan sm em start f [] = Some f"
    and "rest \<noteq> [] \<Longrightarrow> sm \<noteq> [] \<Longrightarrow> take (length sm) rest = sm \<Longrightarrow> leading_level (drop (length sm) rest) = Some n \<Longrightarrow>
      marker_scan sm em start f rest = Option.bind (i32 (n - start)) (\<lambda>d. marker_scan sm em start
        (f\<lparr>fln_lvl := n, fln_lvl_next := n, fln_start := max d 1\<rparr>) (drop (length sm) rest))"
    and "rest \<noteq> [] \<Longrightarrow> sm \<noteq> [] \<Longrightarrow> take (length sm) rest = sm \<Longrightarrow> leading_level (drop (length sm) rest) = None \<Longrightarrow>
      marker_scan sm em start f rest = Option.bind (i32 (fln_lvl f + 1)) (\<lambda>l. Option.bind (i32 (fln_lvl_next f + 1)) (\<lambda>x.
        Option.bind (i32 (fln_start f + 1)) (\<lambda>s. marker_scan sm em start
          (f\<lparr>fln_lvl := l, fln_lvl_next := x, fln_start := s\<rparr>) (drop (length sm) rest))))"
    and "rest \<noteq> [] \<Longrightarrow> \<not> (sm \<noteq> [] \<and> take (length sm) rest = sm) \<Longrightarrow> em \<noteq> [] \<Longrightarrow> take (length em) rest = em \<Longrightarrow>
      leading_level (drop (length em) rest) = Some n \<Longrightarrow> marker_scan sm em start f rest =
        marker_scan sm em start (f\<lparr>fln_lvl := n, fln_lvl_next := min (n - 1) start\<rparr>) (drop (length em) rest)"
    and "rest \<noteq> [] \<Longrightarrow> \<not> (sm \<noteq> [] \<and> take (length sm) rest = sm) \<Longrightarrow> em \<noteq> [] \<Longrightarrow> take (length em) rest = em \<Longrightarrow>
      leading_level (drop (length em) rest) = None \<Longrightarrow> marker_scan sm em start f rest =
        Option.bind (i32 (fln_lvl_next f - 1)) (\<lambda>x. marker_scan sm em start (f\<lparr>fln_lvl_next := x\<rparr>) (drop (length em) rest))"
    and "rest \<noteq> [] \<Longrightarrow> \<not> (sm \<noteq> [] \<and> take (length sm) rest = sm) \<Longrightarrow> \<not> (em \<noteq> [] \<and> take (length em) rest = em) \<Longrightarrow>
      marker_scan sm em start f rest = marker_scan sm em start f (tl rest)"
  by (auto simp: marker_scan.simps [of sm em start f "[]"] marker_scan.simps [of sm em start f rest] Let_def)

abbreviation put_levels :: "fline \<Rightarrow> fline \<Rightarrow> fline" where
  "put_levels f g \<equiv> f\<lparr>fln_lvl := fln_lvl g, fln_start := fln_start g, fln_lvl_next := fln_lvl_next g\<rparr>"

lemma put_levels_again [simp]:
  "put_levels (f\<lparr>fln_lvl := a\<rparr>) = put_levels f" "put_levels (f\<lparr>fln_start := b\<rparr>) = put_levels f"
  "put_levels (f\<lparr>fln_lvl_next := c\<rparr>) = put_levels f"
  by (cases f; simp add: fun_eq_iff)+

lemma marker_cases [case_names empty begin_num begins end_num ends other]:
  obtains "rest = []"
  | n where "rest \<noteq> []" "sm \<noteq> []" "take (length sm) rest = sm" "leading_level (drop (length sm) rest) = Some n"
  | "rest \<noteq> []" "sm \<noteq> []" "take (length sm) rest = sm" "leading_level (drop (length sm) rest) = None"
  | n where "rest \<noteq> []" "\<not> (sm \<noteq> [] \<and> take (length sm) rest = sm)" "em \<noteq> []" "take (length em) rest = em"
      "leading_level (drop (length em) rest) = Some n"
  | "rest \<noteq> []" "\<not> (sm \<noteq> [] \<and> take (length sm) rest = sm)" "em \<noteq> []" "take (length em) rest = em"
      "leading_level (drop (length em) rest) = None"
  | "rest \<noteq> []" "\<not> (sm \<noteq> [] \<and> take (length sm) rest = sm)" "\<not> (em \<noteq> [] \<and> take (length em) rest = em)"
  by (cases "leading_level (drop (length sm) rest)"; cases "leading_level (drop (length em) rest)") blast+

lemma marker_scan_fields:
  "fln_lvl f' = fln_lvl f \<Longrightarrow> fln_start f' = fln_start f \<Longrightarrow> fln_lvl_next f' = fln_lvl_next f \<Longrightarrow>
   marker_scan sm em start f rest = map_option (put_levels f) (marker_scan sm em start f' rest)"
proof (induction rest arbitrary: f f' rule: measure_induct_rule [of length])
  case (less rest)
  have IH: "marker_scan sm em start g r = map_option (put_levels f) (marker_scan sm em start g' r)"
    if "length r < length rest" "fln_lvl g' = fln_lvl g" "fln_start g' = fln_start g" "fln_lvl_next g' = fln_lvl_next g"
      "put_levels g = put_levels f" for r g g'
    using less.IH [OF that(1-4)] that(5) by simp
  note eq = less.prems
  show ?case
  proof (cases rule: marker_cases [where rest = rest and sm = sm and em = em])
    case empty
    then show ?thesis using eq by (cases f; cases f') (simp add: marker_scan_steps)
  next
    case (begin_num n)
    then show ?thesis unfolding marker_scan_steps(2) [OF begin_num] map_option_bind
      by (intro bind_option_cong refl) (simp, rule IH, simp_all)
  next
    case begins
    have body: "marker_scan sm em start (f\<lparr>fln_lvl := l, fln_lvl_next := x, fln_start := y\<rparr>) (drop (length sm) rest) =
        map_option (put_levels f) (marker_scan sm em start (f'\<lparr>fln_lvl := l, fln_lvl_next := x, fln_start := y\<rparr>)
          (drop (length sm) rest))" for l x y
      by (rule IH) (use begins in simp_all)
    show ?thesis unfolding marker_scan_steps(3) [OF begins] eq body by (simp add: map_option_bind comp_def)
  next
    case (end_num n)
    then show ?thesis unfolding marker_scan_steps(4) [OF end_num] using eq by (intro IH) simp_all
  next
    case ends
    then show ?thesis unfolding marker_scan_steps(5) [OF ends] map_option_bind eq
      by (intro bind_option_cong refl) (simp, rule IH, use eq in simp_all)
  next
    case other
    then show ?thesis unfolding marker_scan_steps(6) [OF other] using eq by (intro IH) simp_all
  qed
qed

lemma leading_level_pos: "leading_level s = Some n \<Longrightarrow> 0 < n"
  by (auto simp: leading_level_def Let_def split: if_splits)

lemma marker_scan_nonneg:
  "marker_scan sm em start f rest = Some g \<Longrightarrow> 0 \<le> fln_lvl f \<Longrightarrow> 0 \<le> fln_start f \<Longrightarrow> 0 \<le> fln_lvl g \<and> 0 \<le> fln_start g"
proof (induction rest arbitrary: f rule: measure_induct_rule [of length])
  case (less rest)
  note IH = less.IH [rotated]
  show ?case
  proof (cases rule: marker_cases [where rest = rest and sm = sm and em = em])
    case empty
    then show ?thesis using less.prems by (simp add: marker_scan_steps)
  next
    case (begin_num n)
    then show ?thesis using less.prems leading_level_pos [OF begin_num(4)] unfolding marker_scan_steps(2) [OF begin_num]
      by (auto simp: bind_eq_Some_conv dest!: IH)
  next
    case begins
    then show ?thesis using less.prems unfolding marker_scan_steps(3) [OF begins]
      by (auto simp: bind_eq_Some_conv i32_Some dest!: IH)
  next
    case (end_num n)
    then have "marker_scan sm em start (f\<lparr>fln_lvl := n, fln_lvl_next := min (n - 1) start\<rparr>) (drop (length em) rest) = Some g"
      using less.prems(1) marker_scan_steps(4) [OF end_num] by metis
    from IH [OF this] show ?thesis using less.prems(3) leading_level_pos [OF end_num(5)] end_num(1,3) by simp
  next
    case ends
    then obtain x where "marker_scan sm em start (f\<lparr>fln_lvl_next := x\<rparr>) (drop (length em) rest) = Some g"
      using less.prems(1) by (auto simp: marker_scan_steps(5) [OF ends] bind_eq_Some_conv)
    from IH [OF this] show ?thesis using less.prems(2,3) ends(1,3) by simp
  next
    case other
    then have "marker_scan sm em start f (tl rest) = Some g" using less.prems(1) marker_scan_steps(6) [OF other] by metis
    from IH [OF this] show ?thesis using less.prems(2,3) other(1) by simp
  qed
qed

text \<open>What a getter reads of a line is what the reference says, whatever the other fields hold.\<close>

lemma foldlevel_marker_line:
  assumes "marker_line sm em prev line = Some (l, s, x)" "fln_lvl f = prev"
  shows "foldlevel_marker line sm em f = Some (f\<lparr>fln_lvl := l, fln_start := s, fln_lvl_next := x\<rparr>)"
proof -
  let ?d = "fline_default\<lparr>fln_lvl := prev, fln_start := 0, fln_lvl_next := prev\<rparr>"
  obtain g where g: "marker_scan sm em prev ?d line = Some g"
    and lsx: "l = fln_lvl g" "s = fln_start g" "x = max (fln_lvl_next g) 0"
    using assms(1) by (auto simp: marker_line_def foldlevel_marker_def)
  have "marker_scan sm em prev (f\<lparr>fln_start := 0, fln_lvl_next := prev\<rparr>) line = Some (put_levels f g)"
    using marker_scan_fields [of ?d "f\<lparr>fln_start := 0, fln_lvl_next := prev\<rparr>" sm em prev line] assms(2) g by simp
  then show ?thesis using lsx assms(2) by (simp add: foldlevel_marker_def)
qed

lemma marker_line_nonneg:
  assumes "marker_line sm em prev line = Some (l, s, x)" "0 \<le> prev"
  shows "0 \<le> l" "0 \<le> s" "0 \<le> x"
  using assms by (auto simp: marker_line_def foldlevel_marker_def dest: marker_scan_nonneg)

lemma marker_rows_line:
  "marker_rows sm em prev ls = Some rs \<Longrightarrow> length rs = length ls \<and>
     (\<forall>i<length ls. marker_line sm em (if i = 0 then prev else snd (snd (rs ! (i - 1)))) (ls ! i) = Some (rs ! i))"
proof (induction sm em prev ls arbitrary: rs rule: marker_rows.induct)
  case (2 sm em prev l ls)
  obtain r rs' where r: "marker_line sm em prev l = Some r" "marker_rows sm em (snd (snd r)) ls = Some rs'" "rs = r # rs'"
    using "2.prems" by (auto simp: bind_eq_Some_conv)
  note IH = "2.IH" [OF r(1,2)]
  have "marker_line sm em (if i = 0 then prev else snd (snd (rs ! (i - 1)))) ((l # ls) ! i) = Some (rs ! i)" if "i < Suc (length ls)" for i
  proof (cases i)
    case (Suc j)
    then show ?thesis using IH that r(3) by (cases j) auto
  qed (use r in simp)
  then show ?case using IH r(3) by simp
qed simp

lemma marker_rows_nonneg:
  assumes "marker_rows sm em 0 ls = Some rs" "i < length ls"
  shows "0 \<le> fst (rs ! i)" "0 \<le> fst (snd (rs ! i))" "0 \<le> snd (snd (rs ! i))"
proof -
  have "0 \<le> fst (rs ! i) \<and> 0 \<le> fst (snd (rs ! i)) \<and> 0 \<le> snd (snd (rs ! i))"
    using assms(2)
  proof (induction i)
    case 0
    have "marker_line sm em 0 (ls ! 0) = Some (rs ! 0)" using marker_rows_line [OF assms(1)] 0 by auto
    then show ?case by (cases "rs ! 0") (auto dest: marker_line_nonneg)
  next
    case (Suc i)
    then have "marker_line sm em (snd (snd (rs ! i))) (ls ! Suc i) = Some (rs ! Suc i)"
      using marker_rows_line [OF assms(1), THEN conjunct2, THEN spec, of "Suc i"] by simp
    then show ?case using Suc by (cases "rs ! Suc i") (auto dest: marker_line_nonneg)
  qed
  then show "0 \<le> fst (rs ! i)" "0 \<le> fst (snd (rs ! i))" "0 \<le> snd (snd (rs ! i))" by auto
qed

lemma markers_nest_nth:
  "markers_nest prev rs \<Longrightarrow> i < length rs \<Longrightarrow>
   fst (rs ! i) \<le> MAX_LEVEL \<and> fst (rs ! i) - fst (snd (rs ! i)) \<le> (if i = 0 then prev else fst (rs ! (i - 1)))"
proof (induction prev rs arbitrary: i rule: markers_nest.induct)
  case (2 prev l s x rs)
  show ?case
  proof (cases i)
    case (Suc j)
    then have "j < length rs" "markers_nest l rs" using "2.prems" by simp_all
    from "2.IH" [OF this(2,1)] Suc show ?thesis by (cases j) simp_all
  qed (use "2.prems" in simp)
qed simp

definition marker_at :: "(int \<times> int \<times> int) list \<Rightarrow> nat \<Rightarrow> int \<times> int \<times> int" where
  "marker_at rs n = (if 1 \<le> n \<and> n \<le> length rs then rs ! (n - 1) else (0, 0, 0))"

lemma marker_lines:
  assumes rows: "marker_rows sm em 0 lines = Some rs" and nest: "markers_nest 0 rs"
  shows "level_lines (marker_level_getter lines sm em) (length lines) (\<lambda>n. fst (marker_at rs n))
    (\<lambda>n. fst (snd (marker_at rs n))) (\<lambda>n. snd (snd (marker_at rs n)))"
proof
  have len: "length rs = length lines" using marker_rows_line [OF rows] by simp
  have at: "marker_at rs n = rs ! (n - 1)" if "1 \<le> n" "n \<le> length lines" for n
    using that len by (simp add: marker_at_def)
  have zero: "marker_at rs 0 = (0, 0, 0)" by (simp add: marker_at_def)
  have nonneg: "0 \<le> fst (marker_at rs n)" "0 \<le> fst (snd (marker_at rs n))" for n
    using marker_rows_nonneg [OF rows, of "n - 1"] len by (auto simp: marker_at_def)
  show "get_level (marker_level_getter lines sm em) flp = Some (flp\<lparr>fln_lvl := fst (marker_at rs n),
      fln_start := fst (snd (marker_at rs n)), fln_lvl_next := snd (snd (marker_at rs n))\<rparr>)"
    if "1 \<le> n" "n \<le> length lines" "fln_lnum flp + fln_off flp = int n" "fln_lvl flp = snd (snd (marker_at rs (n - 1)))" for n flp
  proof -
    have "marker_line sm em (fln_lvl flp) (lines ! (n - 1)) = Some (rs ! (n - 1))"
      using marker_rows_line [OF rows, THEN conjunct2, THEN spec, of "n - 1"] that zero at [of "n - 1"]
      by (cases "n = 1"; cases lines) (auto simp: le_diff_conv2 numeral_2_eq_2)
    then have "foldlevel_marker (lines ! (n - 1)) sm em flp = Some (flp\<lparr>fln_lvl := fst (rs ! (n - 1)),
        fln_start := fst (snd (rs ! (n - 1))), fln_lvl_next := snd (snd (rs ! (n - 1)))\<rparr>)"
      using foldlevel_marker_line [OF _ refl] by (metis prod.collapse)
    then show ?thesis using that by (simp add: marker_level_getter_def Let_def at nat_diff_distrib')
  qed
  show "1 \<le> length lines \<Longrightarrow> 0 \<le> fst (marker_at rs 1) \<and> 0 \<le> fst (marker_at rs (length lines))"
    "0 \<le> fst (snd (marker_at rs n))" for n using nonneg by auto
  show "fst (snd (marker_at rs m)) = 0 \<and> snd (snd (marker_at rs m)) = - 1" if "fst (marker_at rs n) < 0" for m n
    using nonneg(1) [of n] that by simp
  show "snd (snd (marker_at rs 0)) = (if is_marker (marker_level_getter lines sm em) then 0 else - 1)"
    using zero by (simp add: marker_level_getter_def)
  show "fst (marker_at rs n) \<le> MAX_LEVEL \<and> fst (marker_at rs n) - fst (snd (marker_at rs n)) \<le>
      (if n = 1 then 0 else fst (marker_at rs (n - 1)))" if "1 \<le> n" "n \<le> length lines" for n
    using markers_nest_nth [OF nest, of "n - 1"] that at [of n] at [of "n - 1"] len by (cases "n = 1"; cases lines) auto
qed

end
