(* ===== verification/Folds.thy ===== *)
theory Folds
  imports Prelude "HOL-Library.Multiset"
begin

text \<open>
  \<open>zmax-core/src/fold.rs\<close>: the code folds of a view, a list of inclusive line ranges with an
  open/closed flag and the buffer's 'foldlevel'.  \<open>folds_ok\<close> is the invariant the file's comments
  state: sorted, no range twice, every fold at least two lines long and no two folds partially
  overlapping.  The operations are also the steps of a relation, and the invariant holds in every
  state they reach.  The flag \<open>foldclose=all\<close> is an atomic global that only the front end reads.
\<close>

record fold_range =
  fl_start :: nat
  fl_end :: nat
  fl_closed :: bool

definition fl_len :: "fold_range \<Rightarrow> nat" where
  "fl_len f = fl_end f - fl_start f + 1"

definition fl_contains :: "fold_range \<Rightarrow> nat \<Rightarrow> bool" where
  "fl_contains f line \<longleftrightarrow> fl_start f \<le> line \<and> line \<le> fl_end f"

record folds =
  fd_folds :: "fold_range list"
  fd_level :: nat

definition folds_default :: folds where
  "folds_default = \<lparr>fd_folds = [], fd_level = 0\<rparr>"

section \<open>The order of the list\<close>

text \<open>\<open>a.start.cmp(&b.start).then(b.end.cmp(&a.end))\<close> as a linear order on keys.\<close>

datatype fold_key = FoldKey (key_start: nat) (key_end: nat)

instantiation fold_key :: linorder
begin

definition less_eq_fold_key :: "fold_key \<Rightarrow> fold_key \<Rightarrow> bool" where
  "less_eq_fold_key a b \<longleftrightarrow> key_start a < key_start b \<or> key_start a = key_start b \<and> key_end b \<le> key_end a"

definition less_fold_key :: "fold_key \<Rightarrow> fold_key \<Rightarrow> bool" where
  "less_fold_key a b \<longleftrightarrow> key_start a < key_start b \<or> key_start a = key_start b \<and> key_end b < key_end a"

instance
  by standard (auto simp: less_eq_fold_key_def less_fold_key_def fold_key.expand)

end

definition fold_key :: "fold_range \<Rightarrow> fold_key" where
  "fold_key f = FoldKey (fl_start f) (fl_end f)"

definition sort_folds :: "fold_range list \<Rightarrow> fold_range list" where
  "sort_folds fs = sort_key fold_key fs"

section \<open>Operations\<close>

definition nested :: "nat \<Rightarrow> nat \<Rightarrow> fold_range \<Rightarrow> bool" where
  "nested start fin f \<longleftrightarrow> (fl_start f \<le> start \<and> fin \<le> fl_end f) \<or> (start \<le> fl_start f \<and> fl_end f \<le> fin)"

definition disjoint :: "nat \<Rightarrow> nat \<Rightarrow> fold_range \<Rightarrow> bool" where
  "disjoint start fin f \<longleftrightarrow> fin < fl_start f \<or> fl_end f < start"

definition fold_create :: "nat \<Rightarrow> nat \<Rightarrow> folds \<Rightarrow> bool \<times> folds" where
  "fold_create start fin fd =
     (let (start, fin) = (if start \<le> fin then (start, fin) else (fin, start))
      in if start = fin then (False, fd)
         else
           case position (\<lambda>f. fl_start f = start \<and> fl_end f = fin) (fd_folds fd) of
             Some i \<Rightarrow> (True, fd\<lparr>fd_folds := (fd_folds fd)[i := (fd_folds fd ! i)\<lparr>fl_closed := True\<rparr>]\<rparr>)
           | None \<Rightarrow>
               if list_ex (\<lambda>f. \<not> nested start fin f \<and> \<not> disjoint start fin f) (fd_folds fd) then (False, fd)
               else (True, fd\<lparr>fd_folds := sort_folds (fd_folds fd @
                       [\<lparr>fl_start = start, fl_end = fin, fl_closed = True\<rparr>])\<rparr>))"

definition fold_create_evicting :: "nat \<Rightarrow> nat \<Rightarrow> folds \<Rightarrow> bool \<times> folds" where
  "fold_create_evicting start fin fd =
     (let (start, fin) = (if start \<le> fin then (start, fin) else (fin, start))
      in if start = fin then (False, fd)
         else fold_create start fin
                (fd\<lparr>fd_folds := [f \<leftarrow> fd_folds fd. nested start fin f \<or> disjoint start fin f]\<rparr>))"

text \<open>\<open>dedup_by\<close> with a test that only looks at the ranges keeps the first of each run.\<close>

fun dedup_folds :: "fold_range list \<Rightarrow> fold_range list" where
  "dedup_folds (a # b # fs) =
     (if fl_start b = fl_start a \<and> fl_end b = fl_end a then dedup_folds (a # fs)
      else a # dedup_folds (b # fs))"
| "dedup_folds fs = fs"

fun remap_list :: "(nat \<Rightarrow> nat option) \<Rightarrow> fold_range list \<Rightarrow> fold_range list" where
  "remap_list f [] = []"
| "remap_list f (x # xs) =
     (case (f (fl_start x), f (fl_end x)) of
        (Some start, Some fin) \<Rightarrow>
          if start < fin then \<lparr>fl_start = start, fl_end = fin, fl_closed = fl_closed x\<rparr> # remap_list f xs
          else remap_list f xs
      | _ \<Rightarrow> remap_list f xs)"

definition fold_remap :: "(nat \<Rightarrow> nat option) \<Rightarrow> folds \<Rightarrow> folds" where
  "fold_remap f fd = fd\<lparr>fd_folds := dedup_folds (sort_folds (remap_list f (fd_folds fd)))\<rparr>"

text \<open>\<open>Iterator::min_by_key\<close> returns the first minimum, \<open>max_by_key\<close> the last maximum.\<close>

fun min_by_key :: "('a \<Rightarrow> nat) \<Rightarrow> 'a list \<Rightarrow> 'a option" where
  "min_by_key key [] = None"
| "min_by_key key (x # xs) =
     (case min_by_key key xs of None \<Rightarrow> Some x | Some y \<Rightarrow> if key x \<le> key y then Some x else Some y)"

fun max_by_key :: "('a \<Rightarrow> nat) \<Rightarrow> 'a list \<Rightarrow> 'a option" where
  "max_by_key key [] = None"
| "max_by_key key (x # xs) =
     (case max_by_key key xs of None \<Rightarrow> Some x | Some y \<Rightarrow> if key x \<le> key y then Some y else Some x)"

definition innermost_idx :: "folds \<Rightarrow> nat \<Rightarrow> nat option" where
  "innermost_idx fd line =
     map_option fst (min_by_key (\<lambda>(_, f). fl_len f)
       [(i, f) \<leftarrow> List.enumerate 0 (fd_folds fd). fl_contains f line])"

definition innermost_at :: "folds \<Rightarrow> nat \<Rightarrow> fold_range option" where
  "innermost_at fd line = map_option (\<lambda>i. fd_folds fd ! i) (innermost_idx fd line)"

definition hides :: "nat \<Rightarrow> fold_range \<Rightarrow> bool" where
  "hides line f \<longleftrightarrow> fl_closed f \<and> fl_start f < line \<and> line \<le> fl_end f"

definition is_line_hidden :: "folds \<Rightarrow> nat \<Rightarrow> bool" where
  "is_line_hidden fd line = list_ex (hides line) (fd_folds fd)"

definition closed_fold_starting_at :: "folds \<Rightarrow> nat \<Rightarrow> fold_range option" where
  "closed_fold_starting_at fd line =
     max_by_key fl_len [f \<leftarrow> fd_folds fd. fl_closed f \<and> fl_start f = line]"

definition visible_anchor :: "folds \<Rightarrow> nat \<Rightarrow> nat" where
  "visible_anchor fd line =
     (case min_by_key fl_start (filter (hides line) (fd_folds fd)) of
        Some f \<Rightarrow> fl_start f | None \<Rightarrow> line)"

definition set_closed :: "nat \<Rightarrow> bool \<Rightarrow> folds \<Rightarrow> folds" where
  "set_closed i c fd = fd\<lparr>fd_folds := (fd_folds fd)[i := (fd_folds fd ! i)\<lparr>fl_closed := c\<rparr>]\<rparr>"

definition fold_open :: "nat \<Rightarrow> folds \<Rightarrow> bool \<times> folds" where
  "fold_open line fd =
     (case innermost_idx fd line of
        Some i \<Rightarrow> if fl_closed (fd_folds fd ! i) then (True, set_closed i False fd) else (False, fd)
      | None \<Rightarrow> (False, fd))"

definition fold_close :: "nat \<Rightarrow> folds \<Rightarrow> bool \<times> folds" where
  "fold_close line fd =
     (case innermost_idx fd line of
        Some i \<Rightarrow> if \<not> fl_closed (fd_folds fd ! i) then (True, set_closed i True fd) else (False, fd)
      | None \<Rightarrow> (False, fd))"

text \<open>The loops that set the flag of some folds and report whether a flag changed.\<close>

definition set_flags :: "(fold_range \<Rightarrow> bool) \<Rightarrow> folds \<Rightarrow> bool \<times> folds" where
  "set_flags flag fd =
     (list_ex (\<lambda>f. fl_closed f \<noteq> flag f) (fd_folds fd),
      fd\<lparr>fd_folds := map (\<lambda>f. f\<lparr>fl_closed := flag f\<rparr>) (fd_folds fd)\<rparr>)"

definition close_all_except :: "nat \<Rightarrow> folds \<Rightarrow> bool \<times> folds" where
  "close_all_except line = set_flags (\<lambda>f. if \<not> fl_closed f \<and> \<not> fl_contains f line then True else fl_closed f)"

definition fold_toggle :: "nat \<Rightarrow> folds \<Rightarrow> bool \<times> folds" where
  "fold_toggle line fd =
     (case innermost_idx fd line of
        Some i \<Rightarrow> (True, set_closed i (\<not> fl_closed (fd_folds fd ! i)) fd)
      | None \<Rightarrow> (False, fd))"

definition set_recursive :: "nat \<Rightarrow> bool \<Rightarrow> folds \<Rightarrow> bool \<times> folds" where
  "set_recursive line closed fd =
     (case innermost_idx fd line of
        None \<Rightarrow> (False, fd)
      | Some i \<Rightarrow>
          let start = fl_start (fd_folds fd ! i); fin = fl_end (fd_folds fd ! i)
          in set_flags (\<lambda>f. if start \<le> fl_start f \<and> fl_end f \<le> fin then closed else fl_closed f) fd)"

definition toggle_recursive :: "nat \<Rightarrow> folds \<Rightarrow> bool \<times> folds" where
  "toggle_recursive line fd =
     (case innermost_idx fd line of
        None \<Rightarrow> (False, fd)
      | Some i \<Rightarrow> (True, snd (set_recursive line (\<not> fl_closed (fd_folds fd ! i)) fd)))"

definition view_line :: "nat \<Rightarrow> folds \<Rightarrow> bool \<times> folds" where
  "view_line line = set_flags (\<lambda>f. if fl_closed f \<and> fl_contains f line then False else fl_closed f)"

definition open_recursive :: "nat \<Rightarrow> folds \<Rightarrow> bool \<times> folds" where
  "open_recursive line = set_recursive line False"

definition close_recursive :: "nat \<Rightarrow> folds \<Rightarrow> bool \<times> folds" where
  "close_recursive line = set_recursive line True"

definition fold_level :: "fold_range list \<Rightarrow> nat \<Rightarrow> nat" where
  "fold_level fs idx =
     (let f = fs ! idx
      in 1 + length [(i, f') \<leftarrow> List.enumerate 0 fs.
               i \<noteq> idx \<and> fl_start f' \<le> fl_start f \<and> fl_end f \<le> fl_end f'])"

definition max_level :: "folds \<Rightarrow> nat" where
  "max_level fd = foldr max (map (fold_level (fd_folds fd)) [0..<length (fd_folds fd)]) 0"

fun set_level_loop :: "nat \<Rightarrow> nat list \<Rightarrow> bool \<times> folds \<Rightarrow> bool \<times> folds" where
  "set_level_loop level [] st = st"
| "set_level_loop level (i # is) (changed, fd) =
     (let closed = (level < fold_level (fd_folds fd) i)
      in set_level_loop level is
           (changed \<or> fl_closed (fd_folds fd ! i) \<noteq> closed, set_closed i closed fd))"

definition set_level :: "nat \<Rightarrow> folds \<Rightarrow> bool \<times> folds" where
  "set_level level fd =
     set_level_loop level [0..<length (fd_folds fd)] (False, fd\<lparr>fd_level := level\<rparr>)"

definition fold_more :: "folds \<Rightarrow> folds" where
  "fold_more fd = snd (set_level (min (fd_level fd) (max_level fd) - 1) fd)"

definition fold_less :: "folds \<Rightarrow> folds" where
  "fold_less fd = snd (set_level (min (fd_level fd + 1) (max_level fd)) fd)"

definition open_all :: "folds \<Rightarrow> folds" where
  "open_all fd = snd (set_level (max_level fd) fd)"

definition close_all :: "folds \<Rightarrow> folds" where
  "close_all fd = snd (set_level 0 fd)"

definition fold_delete :: "nat \<Rightarrow> folds \<Rightarrow> bool \<times> folds" where
  "fold_delete line fd =
     (case innermost_idx fd line of
        Some i \<Rightarrow> (True, fd\<lparr>fd_folds := take i (fd_folds fd) @ drop (Suc i) (fd_folds fd)\<rparr>)
      | None \<Rightarrow> (False, fd))"

definition delete_recursive :: "nat \<Rightarrow> folds \<Rightarrow> bool \<times> folds" where
  "delete_recursive line fd =
     (case innermost_idx fd line of
        None \<Rightarrow> (False, fd)
      | Some i \<Rightarrow>
          let start = fl_start (fd_folds fd ! i); fin = fl_end (fd_folds fd ! i);
              fs = [f \<leftarrow> fd_folds fd. \<not> (start \<le> fl_start f \<and> fl_end f \<le> fin)]
          in (length fs \<noteq> length (fd_folds fd), fd\<lparr>fd_folds := fs\<rparr>))"

definition fold_clear :: "folds \<Rightarrow> folds" where
  "fold_clear fd = fd\<lparr>fd_folds := [], fd_level := 0\<rparr>"

definition next_fold_start :: "folds \<Rightarrow> nat \<Rightarrow> nat option" where
  "next_fold_start fd line = min_by_key (\<lambda>s. s) [s \<leftarrow> map fl_start (fd_folds fd). line < s]"

definition prev_fold_end :: "folds \<Rightarrow> nat \<Rightarrow> nat option" where
  "prev_fold_end fd line = max_by_key (\<lambda>e. e) [e \<leftarrow> map fl_end (fd_folds fd). e < line]"

definition closed_ranges :: "folds \<Rightarrow> (nat \<times> nat) list" where
  "closed_ranges fd = map (\<lambda>f. (fl_start f, fl_end f)) (filter fl_closed (fd_folds fd))"

definition fold_clamp :: "nat \<Rightarrow> folds \<Rightarrow> folds" where
  "fold_clamp last_line fd =
     fd\<lparr>fd_folds := [f \<leftarrow> fd_folds fd. fl_end f \<le> last_line \<and> fl_start f < fl_end f]\<rparr>"

section \<open>The invariant\<close>

definition key_compat :: "fold_key \<Rightarrow> fold_key \<Rightarrow> bool" where
  "key_compat a b \<longleftrightarrow>
     (key_start a \<le> key_start b \<and> key_end b \<le> key_end a) \<or>
     (key_start b \<le> key_start a \<and> key_end a \<le> key_end b) \<or>
     key_end a < key_start b \<or> key_end b < key_start a"

definition keys_ok :: "fold_key list \<Rightarrow> bool" where
  "keys_ok ks \<longleftrightarrow> sorted ks \<and> distinct ks \<and> (\<forall>k\<in>set ks. key_start k < key_end k) \<and>
     (\<forall>a\<in>set ks. \<forall>b\<in>set ks. key_compat a b)"

definition fold_keys :: "folds \<Rightarrow> fold_key list" where
  "fold_keys fd = map fold_key (fd_folds fd)"

definition folds_ok :: "folds \<Rightarrow> bool" where
  "folds_ok fd \<longleftrightarrow> keys_ok (fold_keys fd)"

lemma fold_key_simps [simp]:
  "key_start (fold_key f) = fl_start f" "key_end (fold_key f) = fl_end f"
  "fold_key (f\<lparr>fl_closed := c\<rparr>) = fold_key f"
  by (simp_all add: fold_key_def)

lemma fold_key_eq: "fold_key f = fold_key g \<longleftrightarrow> fl_start f = fl_start g \<and> fl_end f = fl_end g"
  by (simp add: fold_key_def)

lemma folds_okD:
  assumes "folds_ok fd" "f \<in> set (fd_folds fd)"
  shows "fl_start f < fl_end f"
    and "g \<in> set (fd_folds fd) \<Longrightarrow> key_compat (fold_key f) (fold_key g)"
  using assms by (auto simp: folds_ok_def keys_ok_def fold_keys_def)

lemma key_compat_nested: "key_compat (FoldKey s e) (fold_key f) \<longleftrightarrow> nested s e f \<or> disjoint s e f"
  by (auto simp: key_compat_def nested_def disjoint_def)

lemma key_compat_commute: "key_compat a b \<longleftrightarrow> key_compat b a"
  by (auto simp: key_compat_def)

lemma keys_ok_subset:
  assumes "keys_ok ks" "sorted ks'" "distinct ks'" "set ks' \<subseteq> set ks"
  shows "keys_ok ks'"
  using assms unfolding keys_ok_def by blast

lemma keys_ok_filter: "folds_ok fd \<Longrightarrow> keys_ok (map fold_key (filter P (fd_folds fd)))"
  unfolding folds_ok_def fold_keys_def
  by (rule keys_ok_subset) (auto simp: keys_ok_def sorted_filter distinct_map_filter)

lemma map_fold_key_sort: "map fold_key (sort_folds fs) = sort (map fold_key fs)"
  unfolding sort_folds_def
  by (rule properties_for_sort [symmetric]) simp_all

text \<open>Changing flags changes no key.\<close>

lemma fold_keys_flags [fold_simps]:
  "fold_keys (snd (set_flags flag fd)) = fold_keys fd"
  "i < length (fd_folds fd) \<Longrightarrow> fold_keys (set_closed i c fd) = fold_keys fd"
  "fold_keys (fd\<lparr>fd_level := n\<rparr>) = fold_keys fd"
  by (auto simp: fold_keys_def set_flags_def set_closed_def map_update comp_def
      intro!: nth_equalityI simp: nth_list_update)

lemma min_by_key_None [simp]: "min_by_key key xs = None \<longleftrightarrow> xs = []"
  by (cases xs) (auto split: option.splits)

lemma max_by_key_None [simp]: "max_by_key key xs = None \<longleftrightarrow> xs = []"
  by (cases xs) (auto split: option.splits)

lemma min_by_key_Some: "min_by_key key xs = Some x \<Longrightarrow> x \<in> set xs \<and> (\<forall>y\<in>set xs. key x \<le> key y)"
  by (induction xs arbitrary: x) (auto split: option.splits if_splits intro: order_trans)

lemma max_by_key_Some: "max_by_key key xs = Some x \<Longrightarrow> x \<in> set xs \<and> (\<forall>y\<in>set xs. key y \<le> key x)"
  by (induction xs arbitrary: x) (auto split: option.splits if_splits intro: order_trans)

lemma innermost_idx_Some:
  assumes "innermost_idx fd line = Some i"
  shows "i < length (fd_folds fd)" "fl_contains (fd_folds fd ! i) line"
    and "f \<in> set (fd_folds fd) \<Longrightarrow> fl_contains f line \<Longrightarrow> fl_len (fd_folds fd ! i) \<le> fl_len f"
proof -
  let ?xs = "[(i, f) \<leftarrow> List.enumerate 0 (fd_folds fd). fl_contains f line]"
  obtain h where m: "min_by_key (\<lambda>(_, f). fl_len f) ?xs = Some (i, h)"
    using assms by (auto simp: innermost_idx_def)
  then have i: "(i, h) \<in> set ?xs" "\<And>j g. (j, g) \<in> set ?xs \<Longrightarrow> fl_len h \<le> fl_len g"
    using min_by_key_Some [OF m] by auto
  then have at: "i < length (fd_folds fd)" "h = fd_folds fd ! i" "fl_contains h line"
    by (auto simp: in_set_enumerate_eq)
  then show "i < length (fd_folds fd)" "fl_contains (fd_folds fd ! i) line" by auto
  show "fl_len (fd_folds fd ! i) \<le> fl_len f" if "f \<in> set (fd_folds fd)" "fl_contains f line"
  proof -
    from that(1) obtain j where "j < length (fd_folds fd)" "fd_folds fd ! j = f" by (auto simp: in_set_conv_nth)
    then have "(j, f) \<in> set ?xs" using that(2) by (auto simp: in_set_enumerate_eq)
    then show ?thesis using i(2) at(2) by blast
  qed
qed

section \<open>The operations keep the invariant\<close>

lemma fold_create_cases:
  fixes a b fd
  defines "start \<equiv> min a b" and "fin \<equiv> max a b"
  obtains (line) "start = fin" "fold_create a b fd = (False, fd)"
  | (exact) i where "start \<noteq> fin" "i < length (fd_folds fd)" "fl_start (fd_folds fd ! i) = start"
      "fl_end (fd_folds fd ! i) = fin" "fold_create a b fd = (True, set_closed i True fd)"
  | (overlap) f where "start \<noteq> fin" "f \<in> set (fd_folds fd)" "\<not> nested start fin f" "\<not> disjoint start fin f"
      "fold_create a b fd = (False, fd)"
  | (fresh) "start \<noteq> fin" "\<forall>f\<in>set (fd_folds fd). fl_start f \<noteq> start \<or> fl_end f \<noteq> fin"
      "\<forall>f\<in>set (fd_folds fd). nested start fin f \<or> disjoint start fin f"
      "fold_create a b fd = (True, fd\<lparr>fd_folds := sort_folds (fd_folds fd @
         [\<lparr>fl_start = start, fl_end = fin, fl_closed = True\<rparr>])\<rparr>)"
proof -
  have sf: "(if a \<le> b then (a, b) else (b, a)) = (start, fin)" by (auto simp: start_def fin_def)
  show thesis
  proof (cases "start = fin")
    case True
    then show thesis using line sf by (simp add: fold_create_def Let_def)
  next
    case ne: False
    show thesis
    proof (cases "position (\<lambda>f. fl_start f = start \<and> fl_end f = fin) (fd_folds fd)")
      case (Some i)
      then show thesis
        using exact [OF ne, of i] position_Some [OF Some] sf ne by (simp add: fold_create_def set_closed_def Let_def)
    next
      case None
      show thesis
      proof (cases "list_ex (\<lambda>f. \<not> nested start fin f \<and> \<not> disjoint start fin f) (fd_folds fd)")
        case True
        then show thesis using overlap [OF ne] None sf ne by (auto simp: fold_create_def Let_def list_ex_iff)
      next
        case False
        then show thesis
          using fresh [OF ne] None sf ne by (auto simp: fold_create_def Let_def list_ex_iff position_None)
      qed
    qed
  qed
qed

lemma fold_create_ok:
  assumes "folds_ok fd"
  shows "folds_ok (snd (fold_create a b fd))"
proof (cases rule: fold_create_cases [of a b fd])
  case fresh
  let ?k = "FoldKey (min a b) (max a b)" and ?ks = "fold_keys fd"
  have "key_compat ?k k" if "k \<in> set ?ks" for k
    using fresh(3) that by (auto simp: fold_keys_def key_compat_nested)
  then have "\<And>k. k \<in> set ?ks \<Longrightarrow> key_compat ?k k \<and> key_compat k ?k" using key_compat_commute by blast
  moreover have "?k \<notin> set ?ks" using fresh(2) by (auto simp: fold_keys_def fold_key_def)
  moreover have "key_start ?k < key_end ?k" using fresh(1) by auto
  ultimately have "keys_ok (sort (?ks @ [?k]))"
    using assms by (auto simp: folds_ok_def keys_ok_def key_compat_def [of ?k ?k])
  moreover have "fold_keys (snd (fold_create a b fd)) = sort (?ks @ [?k])"
    using fresh(4) by (simp add: fold_keys_def map_fold_key_sort fold_key_def)
  ultimately show ?thesis by (simp add: folds_ok_def)
qed (use assms in \<open>simp_all add: folds_ok_def fold_simps\<close>)

lemma fold_create_evicting_ok:
  assumes "folds_ok fd"
  shows "folds_ok (snd (fold_create_evicting a b fd))"
proof -
  have "folds_ok (fd\<lparr>fd_folds := filter P (fd_folds fd)\<rparr>)" for P
    using keys_ok_filter [OF assms] by (simp add: folds_ok_def fold_keys_def)
  then show ?thesis
    using fold_create_ok assms by (auto simp: fold_create_evicting_def Let_def)
qed

lemma sorted_keys_dedup: "distinct (map fold_key fs) \<Longrightarrow> dedup_folds fs = fs"
  by (induction fs rule: dedup_folds.induct) (auto simp: fold_key_eq)

text \<open>A map of lines that keeps kept lines apart and in order.\<close>

definition strictly_increasing :: "(nat \<Rightarrow> nat option) \<Rightarrow> bool" where
  "strictly_increasing f \<longleftrightarrow> (\<forall>x y p q. x < y \<longrightarrow> f x = Some p \<longrightarrow> f y = Some q \<longrightarrow> p < q)"

lemma remap_list_set:
  "x \<in> set (remap_list f fs) \<longleftrightarrow> (\<exists>y\<in>set fs. f (fl_start y) = Some (fl_start x) \<and>
     f (fl_end y) = Some (fl_end x) \<and> fl_closed x = fl_closed y \<and> fl_start x < fl_end x)"
  by (induction fs) (force split: option.splits)+

lemma strictly_increasing_le:
  "strictly_increasing f \<Longrightarrow> x \<le> y \<Longrightarrow> f x = Some p \<Longrightarrow> f y = Some q \<Longrightarrow> p \<le> q"
  unfolding strictly_increasing_def by (metis le_eq_less_or_eq option.inject)

lemma remap_list_distinct:
  assumes "strictly_increasing f" "distinct (map fold_key fs)"
  shows "distinct (map fold_key (remap_list f fs))"
  using assms(2)
proof (induction fs)
  case (Cons x xs)
  have inj: "f p = Some r \<Longrightarrow> f q = Some r \<Longrightarrow> p = q" for p q r
    using assms(1) unfolding strictly_increasing_def by (metis less_irrefl linorder_neqE_nat)
  have "FoldKey s e \<notin> set (map fold_key (remap_list f xs))"
    if "f (fl_start x) = Some s" "f (fl_end x) = Some e" for s e
  proof
    assume "FoldKey s e \<in> set (map fold_key (remap_list f xs))"
    then obtain y where "y \<in> set xs" "f (fl_start y) = Some s" "f (fl_end y) = Some e"
      by (auto simp: remap_list_set fold_key_def)
    then have "fold_key x = fold_key y" "y \<in> set xs" using that inj by (auto simp: fold_key_eq)
    then have "fold_key x \<in> fold_key ` set xs" by (rule image_eqI)
    then show False using Cons.prems by simp
  qed
  then show ?case using Cons by (auto split: option.split simp: fold_key_def)
qed simp

lemma fold_remap_ok:
  assumes "folds_ok fd" "strictly_increasing f"
  shows "folds_ok (fold_remap f fd)" "set (fd_folds (fold_remap f fd)) = set (remap_list f (fd_folds fd))"
proof -
  let ?xs = "remap_list f (fd_folds fd)"
  have dist: "distinct (map fold_key ?xs)"
    by (rule remap_list_distinct [OF assms(2)]) (use assms(1) in \<open>simp add: folds_ok_def keys_ok_def fold_keys_def\<close>)
  then have "distinct (map fold_key (sort_folds ?xs))" by (simp add: map_fold_key_sort)
  then have eq: "fd_folds (fold_remap f fd) = sort_folds ?xs"
    by (simp add: fold_remap_def sorted_keys_dedup)
  then show "set (fd_folds (fold_remap f fd)) = set ?xs" by (simp add: sort_folds_def)
  note mono = strictly_increasing_le [OF assms(2)]
  have "key_compat (fold_key a) (fold_key b)" if ins: "a \<in> set ?xs" "b \<in> set ?xs" for a b
  proof -
    obtain a' where a: "a' \<in> set (fd_folds fd)" "f (fl_start a') = Some (fl_start a)" "f (fl_end a') = Some (fl_end a)"
      using ins(1) by (auto simp: remap_list_set)
    obtain b' where b: "b' \<in> set (fd_folds fd)" "f (fl_start b') = Some (fl_start b)" "f (fl_end b') = Some (fl_end b)"
      using ins(2) by (auto simp: remap_list_set)
    note ab = a b
    have "key_compat (fold_key a') (fold_key b')" using folds_okD(2) [OF assms(1) ab(1,4)] .
    then show ?thesis
      using ab mono assms(2) unfolding key_compat_def strictly_increasing_def fold_key_simps by blast
  qed
  then have "keys_ok (sort (map fold_key ?xs))"
    using dist by (auto simp: keys_ok_def remap_list_set)
  then show "folds_ok (fold_remap f fd)" by (simp add: folds_ok_def fold_keys_def eq map_fold_key_sort)
qed

lemma fold_keys_flag_ops [fold_simps]:
  "fold_keys (snd (fold_open line fd)) = fold_keys fd"
  "fold_keys (snd (fold_close line fd)) = fold_keys fd"
  "fold_keys (snd (fold_toggle line fd)) = fold_keys fd"
  "fold_keys (snd (set_recursive line c fd)) = fold_keys fd"
  "fold_keys (snd (toggle_recursive line fd)) = fold_keys fd"
  "fold_keys (snd (view_line line fd)) = fold_keys fd"
  "fold_keys (snd (close_all_except line fd)) = fold_keys fd"
  by (auto simp: fold_open_def fold_close_def fold_toggle_def set_recursive_def toggle_recursive_def
      view_line_def close_all_except_def fold_simps Let_def dest: innermost_idx_Some(1) split: option.split)

lemma keys_ok_delete: "keys_ok ks \<Longrightarrow> keys_ok (take i ks @ drop (Suc i) ks)"
proof (rule keys_ok_subset)
  assume ks: "keys_ok ks"
  have "sorted ks \<Longrightarrow> sorted (take i ks @ drop (Suc i) ks)"
  proof (induction ks arbitrary: i)
    case (Cons k ks)
    then show ?case by (cases i) (auto dest: in_set_takeD in_set_dropD)
  qed simp
  then show "sorted (take i ks @ drop (Suc i) ks)" using ks by (simp add: keys_ok_def)
  show "distinct (take i ks @ drop (Suc i) ks)"
    using ks by (auto simp: keys_ok_def set_take_disj_set_drop_if_distinct)
qed (auto dest: in_set_takeD in_set_dropD)

lemma fold_delete_ok:
  assumes "folds_ok fd"
  shows "folds_ok (snd (fold_delete line fd))" "folds_ok (snd (delete_recursive line fd))"
    "folds_ok (fold_clamp last_line fd)" "folds_ok (fold_clear fd)"
proof -
  have "keys_ok (take i (fold_keys fd) @ drop (Suc i) (fold_keys fd))" for i
    using assms by (intro keys_ok_delete) (simp add: folds_ok_def)
  then show "folds_ok (snd (fold_delete line fd))"
    using assms by (auto simp: fold_delete_def folds_ok_def fold_keys_def take_map drop_map split: option.split)
  show "folds_ok (snd (delete_recursive line fd))" "folds_ok (fold_clamp last_line fd)"
    using assms keys_ok_filter [OF assms]
    by (auto simp: delete_recursive_def fold_clamp_def folds_ok_def fold_keys_def Let_def split: option.split)
  show "folds_ok (fold_clear fd)" by (simp add: fold_clear_def folds_ok_def fold_keys_def keys_ok_def)
qed

section \<open>'foldlevel'\<close>

lemma fold_level_keys: "map fold_key fs = map fold_key gs \<Longrightarrow> fold_level fs i = fold_level gs i" if "i < length fs"
proof -
  assume eq: "map fold_key fs = map fold_key gs"
  then have len: "length fs = length gs" by (rule map_eq_imp_length_eq)
  have at: "fl_start (fs ! j) = fl_start (gs ! j)" "fl_end (fs ! j) = fl_end (gs ! j)" if "j < length fs" for j
    using arg_cong [OF eq, of "\<lambda>ks. ks ! j"] that len by (auto simp: fold_key_eq)
  have card: "length [(k, f) \<leftarrow> List.enumerate 0 hs. P k (fl_start f) (fl_end f)] =
      card {k. k < length hs \<and> P k (fl_start (hs ! k)) (fl_end (hs ! k))}" for P and hs :: "fold_range list"
  proof -
    have "[(k, f) \<leftarrow> List.enumerate 0 hs. P k (fl_start f) (fl_end f)] =
        map (\<lambda>k. (k, hs ! k)) [k \<leftarrow> [0..<length hs]. P k (fl_start (hs ! k)) (fl_end (hs ! k))]"
      by (simp add: enumerate_map filter_map comp_def)
    then show ?thesis by (simp add: length_filter_conv_card cong: conj_cong)
  qed
  let ?P = "\<lambda>k s e. k \<noteq> i \<and> s \<le> fl_start (gs ! i) \<and> fl_end (gs ! i) \<le> e"
  have "{k. k < length fs \<and> ?P k (fl_start (fs ! k)) (fl_end (fs ! k))} =
      {k. k < length gs \<and> ?P k (fl_start (gs ! k)) (fl_end (gs ! k))}"
    using at len by auto
  then show ?thesis
    using card [of ?P fs] card [of ?P gs] at [OF that] by (simp add: fold_level_def Let_def)
qed

lemma length_keys: "fold_keys fd = fold_keys fd' \<Longrightarrow> length (fd_folds fd) = length (fd_folds fd')"
  unfolding fold_keys_def by (rule map_eq_imp_length_eq)

text \<open>The flags \<open>set_level\<close> sets, one fold after the other.\<close>

lemma set_level_loop_ok:
  assumes "distinct is" "\<forall>i\<in>set is. i < length (fd_folds fd)" "set_level_loop level is (c, fd) = (c', fd')"
  shows "fold_keys fd' = fold_keys fd \<and> fd_level fd' = fd_level fd \<and>
    (\<forall>i<length (fd_folds fd). fl_closed (fd_folds fd' ! i) =
       (if i \<in> set is then level < fold_level (fd_folds fd) i else fl_closed (fd_folds fd ! i))) \<and>
    (c' \<longleftrightarrow> c \<or> (\<exists>i\<in>set is. fl_closed (fd_folds fd ! i) \<noteq> (level < fold_level (fd_folds fd) i)))"
  using assms
proof (induction "is" arbitrary: c fd)
  case (Cons i "is")
  let ?fd = "set_closed i (level < fold_level (fd_folds fd) i) fd"
  have i: "i < length (fd_folds fd)" using Cons.prems by simp
  then have keys: "fold_keys ?fd = fold_keys fd" by (simp add: fold_simps)
  then have len: "length (fd_folds ?fd) = length (fd_folds fd)" by (rule length_keys)
  have lev: "fold_level (fd_folds ?fd) j = fold_level (fd_folds fd) j" if "j < length (fd_folds fd)" for j
    using fold_level_keys [of j "fd_folds ?fd" "fd_folds fd"] keys that len by (simp add: fold_keys_def)
  have at: "fl_closed (fd_folds ?fd ! j) =
      (if j = i then level < fold_level (fd_folds fd) i else fl_closed (fd_folds fd ! j))" for j
    using i by (simp add: set_closed_def nth_list_update)
  have "set_level_loop level is (c \<or> fl_closed (fd_folds fd ! i) \<noteq> (level < fold_level (fd_folds fd) i), ?fd) = (c', fd')"
    using Cons.prems(3) by (simp add: Let_def)
  from Cons.IH [OF _ _ this] Cons.prems(1,2) len keys have
    "fold_keys fd' = fold_keys fd" "fd_level fd' = fd_level ?fd"
    "\<forall>j<length (fd_folds fd). fl_closed (fd_folds fd' ! j) =
       (if j \<in> set is then level < fold_level (fd_folds ?fd) j else fl_closed (fd_folds ?fd ! j))"
    "c' \<longleftrightarrow> (c \<or> fl_closed (fd_folds fd ! i) \<noteq> (level < fold_level (fd_folds fd) i)) \<or>
       (\<exists>j\<in>set is. fl_closed (fd_folds ?fd ! j) \<noteq> (level < fold_level (fd_folds ?fd) j))" by auto
  moreover have "fd_level ?fd = fd_level fd" by (simp add: set_closed_def)
  ultimately show ?case
    using Cons.prems(1,2) lev at by (auto split: if_splits)
qed simp

lemma set_level_ok:
  shows "fold_keys (snd (set_level level fd)) = fold_keys fd" "fd_level (snd (set_level level fd)) = level"
    "i < length (fd_folds fd) \<Longrightarrow>
       fl_closed (fd_folds (snd (set_level level fd)) ! i) = (level < fold_level (fd_folds fd) i)"
    "fst (set_level level fd) \<longleftrightarrow>
       (\<exists>i<length (fd_folds fd). fl_closed (fd_folds fd ! i) \<noteq> (level < fold_level (fd_folds fd) i))"
proof -
  obtain c fd' where l: "set_level level fd = (c, fd')" by fastforce
  from set_level_loop_ok [OF _ _ l [unfolded set_level_def]]
  show "fold_keys (snd (set_level level fd)) = fold_keys fd" "fd_level (snd (set_level level fd)) = level"
    "i < length (fd_folds fd) \<Longrightarrow>
       fl_closed (fd_folds (snd (set_level level fd)) ! i) = (level < fold_level (fd_folds fd) i)"
    "fst (set_level level fd) \<longleftrightarrow>
       (\<exists>i<length (fd_folds fd). fl_closed (fd_folds fd ! i) \<noteq> (level < fold_level (fd_folds fd) i))"
    by (auto simp: l fold_keys_def)
qed

lemma fold_level_le_max: "i < length (fd_folds fd) \<Longrightarrow> fold_level (fd_folds fd) i \<le> max_level fd"
proof -
  have "x \<in> set xs \<Longrightarrow> x \<le> foldr max xs (0::nat)" for x xs
    by (induction xs) (auto simp: le_max_iff_disj)
  then show "i < length (fd_folds fd) \<Longrightarrow> ?thesis" by (simp add: max_level_def)
qed

lemma fold_keys_levels [fold_simps]:
  "fold_keys (fold_more fd) = fold_keys fd" "fold_keys (fold_less fd) = fold_keys fd"
  "fold_keys (open_all fd) = fold_keys fd" "fold_keys (close_all fd) = fold_keys fd"
  by (simp_all add: fold_more_def fold_less_def open_all_def close_all_def set_level_ok)

section \<open>The operations as steps\<close>

inductive fold_step :: "folds \<Rightarrow> folds \<Rightarrow> bool" where
  create: "fold_step fd (snd (fold_create a b fd))"
| evict: "fold_step fd (snd (fold_create_evicting a b fd))"
| remap: "strictly_increasing f \<Longrightarrow> fold_step fd (fold_remap f fd)"
| open_one: "fold_step fd (snd (fold_open line fd))"
| close_one: "fold_step fd (snd (fold_close line fd))"
| toggle: "fold_step fd (snd (fold_toggle line fd))"
| recursive: "fold_step fd (snd (set_recursive line c fd))"
| toggle_rec: "fold_step fd (snd (toggle_recursive line fd))"
| view: "fold_step fd (snd (view_line line fd))"
| leave: "fold_step fd (snd (close_all_except line fd))"
| level: "fold_step fd (snd (set_level n fd))"
| more: "fold_step fd (fold_more fd)"
| less: "fold_step fd (fold_less fd)"
| all_open: "fold_step fd (open_all fd)"
| all_closed: "fold_step fd (close_all fd)"
| delete: "fold_step fd (snd (fold_delete line fd))"
| delete_rec: "fold_step fd (snd (delete_recursive line fd))"
| clear: "fold_step fd (fold_clear fd)"
| clamp: "fold_step fd (fold_clamp last_line fd)"

lemma fold_step_ok:
  assumes "fold_step fd fd'" "folds_ok fd"
  shows "folds_ok fd'"
  using assms
proof (induction rule: fold_step.induct)
  case (create fd a b) then show ?case by (rule fold_create_ok)
next
  case (evict fd a b) then show ?case by (rule fold_create_evicting_ok)
next
  case (remap f fd) then show ?case by (intro fold_remap_ok(1))
next
  case (delete fd line) then show ?case by (rule fold_delete_ok)
next
  case (delete_rec fd line) then show ?case by (rule fold_delete_ok)
next
  case (clear fd) then show ?case by (rule fold_delete_ok)
next
  case (clamp fd last_line) then show ?case by (rule fold_delete_ok)
qed (simp_all add: folds_ok_def fold_simps set_level_ok)

section \<open>Properties\<close>

text \<open>
  C12: The fold tree.  Whatever sequence of fold commands is run from an empty buffer, and edits
  that keep the folded lines apart, the folds stay sorted, at least two lines long, without
  duplicates and never partially overlapping.
\<close>

theorem reachable_folds_form_a_tree:
  assumes "fold_step\<^sup>*\<^sup>* folds_default fd"
  shows "sorted (map fold_key (fd_folds fd)) \<and> distinct (map fold_key (fd_folds fd)) \<and>
    (\<forall>f\<in>set (fd_folds fd). fl_start f < fl_end f) \<and>
    (\<forall>f\<in>set (fd_folds fd). \<forall>g\<in>set (fd_folds fd).
       nested (fl_start f) (fl_end f) g \<or> disjoint (fl_start f) (fl_end f) g)"
proof -
  have "folds_ok fd"
    using assms
  proof (induction rule: rtranclp_induct)
    case base
    then show ?case by (simp add: folds_ok_def folds_default_def fold_keys_def keys_ok_def)
  next
    case (step fd fd')
    then show ?case using fold_step_ok by blast
  qed
  note ok = this
  have "nested (fl_start f) (fl_end f) g \<or> disjoint (fl_start f) (fl_end f) g"
    if "f \<in> set (fd_folds fd)" "g \<in> set (fd_folds fd)" for f g
    using folds_okD(2) [OF ok that] unfolding fold_key_def [of f] key_compat_nested .
  then show ?thesis using ok folds_okD(1) [OF ok] by (simp add: folds_ok_def fold_keys_def keys_ok_def)
qed

definition sample_folds :: folds where
  "sample_folds = snd (fold_create 3 5 (snd (fold_create 2 9 folds_default)))"

lemma sample_folds_reachable: "fold_step\<^sup>*\<^sup>* folds_default sample_folds"
  unfolding sample_folds_def
  by (rule rtranclp.rtrancl_into_rtrancl [OF rtranclp.rtrancl_into_rtrancl [OF rtranclp.rtrancl_refl]])
    (rule fold_step.create)+

theorem reachable_folds_form_a_tree_witness:
  "sorted (map fold_key (fd_folds sample_folds)) \<and> distinct (map fold_key (fd_folds sample_folds))"
  using reachable_folds_form_a_tree [OF sample_folds_reachable] by blast

text \<open>
  Creating a fold.  Only a one-line range or one that partially overlaps a fold is refused,
  and then nothing changes; otherwise exactly one closed fold covers the range and every other
  fold keeps its range and its state.
\<close>

theorem create_covers_range:
  assumes "folds_ok fd"
  shows "case fold_create a b fd of (created, fd') \<Rightarrow>
    (created \<longleftrightarrow> a \<noteq> b \<and> (\<forall>f\<in>set (fd_folds fd). nested (min a b) (max a b) f \<or> disjoint (min a b) (max a b) f)) \<and>
    (\<not> created \<longrightarrow> fd' = fd) \<and>
    (created \<longrightarrow> set (fd_folds fd') =
       insert \<lparr>fl_start = min a b, fl_end = max a b, fl_closed = True\<rparr>
         {f \<in> set (fd_folds fd). fl_start f \<noteq> min a b \<or> fl_end f \<noteq> max a b})"
proof (cases rule: fold_create_cases [of a b fd])
  case (exact i)
  let ?fs = "fd_folds fd" and ?new = "\<lparr>fl_start = min a b, fl_end = max a b, fl_closed = True\<rparr>"
  have at: "?fs ! i \<in> set ?fs" using exact(2) by simp
  have compat: "nested (min a b) (max a b) f \<or> disjoint (min a b) (max a b) f" if "f \<in> set ?fs" for f
    using folds_okD(2) [OF assms at that] exact(3,4) by (simp add: key_compat_nested [symmetric] fold_key_def)
  have unique: "j = i" if "j < length ?fs" "fl_start (?fs ! j) = min a b" "fl_end (?fs ! j) = max a b" for j
    using assms that exact(2-4) nth_eq_iff_index_eq [of "fold_keys fd" j i]
    by (simp add: folds_ok_def keys_ok_def fold_keys_def fold_key_def)
  have new: "(?fs ! i)\<lparr>fl_closed := True\<rparr> = ?new" using exact(3,4) by (cases "?fs ! i") simp
  have "set (?fs[i := ?new]) = insert ?new {f \<in> set ?fs. fl_start f \<noteq> min a b \<or> fl_end f \<noteq> max a b}"
  proof -
    have "distinct (map fold_key ?fs)" using assms by (simp add: folds_ok_def keys_ok_def fold_keys_def)
    then have "distinct ?fs" by (simp add: distinct_map)
    moreover have "f \<noteq> ?fs ! i \<longleftrightarrow> fl_start f \<noteq> min a b \<or> fl_end f \<noteq> max a b" if "f \<in> set ?fs" for f
      using that unique exact(3,4) by (metis in_set_conv_nth)
    ultimately show ?thesis using exact(2) by (auto simp: set_update_distinct)
  qed
  then show ?thesis
    using exact(1,5) compat new by (auto simp: set_closed_def)
next
  case (overlap f)
  then show ?thesis by auto
next
  case fresh
  then show ?thesis by (auto simp: sort_folds_def)
qed auto

theorem create_covers_range_witness:
  "fst (fold_create 4 8 (snd (fold_create 2 9 folds_default)))"
proof -
  have "folds_ok (snd (fold_create 2 9 folds_default))"
    by (intro fold_create_ok) (simp add: folds_ok_def folds_default_def fold_keys_def keys_ok_def)
  from create_covers_range [OF this, of 4 8] show ?thesis
    by (auto simp: folds_default_def fold_create_def sort_folds_def nested_def split: prod.splits)
qed

text \<open>
  Where the cursor goes.  A line is hidden exactly when its anchor is another line; the anchor
  is never hidden itself, it is the first line of a closed fold around the line, and \<open>zv\<close> makes
  the line visible by opening only folds that contain it.
\<close>

theorem anchor_is_visible:
  assumes "folds_ok fd"
  shows "\<not> is_line_hidden fd (visible_anchor fd line) \<and>
    (is_line_hidden fd line \<longleftrightarrow> visible_anchor fd line \<noteq> line) \<and>
    (is_line_hidden fd line \<longrightarrow> (\<exists>f\<in>set (fd_folds fd). fl_start f = visible_anchor fd line \<and> hides line f)) \<and>
    \<not> is_line_hidden (snd (view_line line fd)) line"
proof -
  have view: "\<not> is_line_hidden (snd (view_line line fd)) line"
    by (auto simp: is_line_hidden_def view_line_def set_flags_def list_ex_iff hides_def fl_contains_def)
  let ?hs = "filter (hides line) (fd_folds fd)"
  show ?thesis
  proof (cases "min_by_key fl_start ?hs")
    case None
    then have "\<not> is_line_hidden fd line" by (auto simp: is_line_hidden_def list_ex_iff filter_empty_conv)
    moreover have "visible_anchor fd line = line" using None by (simp add: visible_anchor_def)
    ultimately show ?thesis using view by simp
  next
    case (Some f)
    then have f: "f \<in> set (fd_folds fd)" "hides line f" "\<And>g. g \<in> set ?hs \<Longrightarrow> fl_start f \<le> fl_start g"
      using min_by_key_Some [OF Some] by auto
    have anchor: "visible_anchor fd line = fl_start f" using Some by (simp add: visible_anchor_def)
    have "\<not> hides (fl_start f) g" if "g \<in> set (fd_folds fd)" for g
    proof
      assume g: "hides (fl_start f) g"
      have "key_compat (fold_key f) (fold_key g)" using folds_okD(2) [OF assms f(1) that] .
      then have "hides line g" using g f(2) by (auto simp: hides_def key_compat_def)
      then show False using f(3) [of g] that g by (simp add: hides_def)
    qed
    then have "\<not> is_line_hidden fd (fl_start f)" by (simp add: is_line_hidden_def list_ex_iff)
    moreover have "is_line_hidden fd line" using f by (auto simp: is_line_hidden_def list_ex_iff)
    ultimately show ?thesis using view f anchor by (auto simp: hides_def)
  qed
qed

theorem anchor_is_visible_witness:
  "\<not> is_line_hidden sample_folds (visible_anchor sample_folds 4) \<and> \<not> is_line_hidden (snd (view_line 4 sample_folds)) 4"
proof -
  have "folds_ok sample_folds"
    unfolding sample_folds_def by (intro fold_create_ok) (simp add: folds_ok_def folds_default_def fold_keys_def keys_ok_def)
  from anchor_is_visible [OF this, of 4] show ?thesis by blast
qed

text \<open>
  'foldlevel'.  Setting the level closes exactly the folds nested deeper than it and keeps
  every range; \<open>zR\<close> leaves no line hidden, \<open>zM\<close> closes every fold.
\<close>

theorem fold_levels:
  "fold_keys (snd (set_level n fd)) = fold_keys fd \<and>
   (\<forall>i<length (fd_folds fd). fl_closed (fd_folds (snd (set_level n fd)) ! i) \<longleftrightarrow> n < fold_level (fd_folds fd) i) \<and>
   \<not> is_line_hidden (open_all fd) line \<and> (\<forall>f\<in>set (fd_folds (close_all fd)). fl_closed f)"
proof -
  have len: "length (fd_folds (snd (set_level n fd))) = length (fd_folds fd)" for n
    by (rule length_keys) (simp add: set_level_ok)
  have "\<not> fl_closed f" if "f \<in> set (fd_folds (open_all fd))" for f
  proof -
    from that obtain i where i: "i < length (fd_folds fd)" "f = fd_folds (open_all fd) ! i"
      using len by (auto simp: open_all_def in_set_conv_nth)
    then show ?thesis
      using set_level_ok(3) [OF i(1), of "max_level fd"] fold_level_le_max [OF i(1)] by (simp add: open_all_def)
  qed
  moreover have "fl_closed f" if "f \<in> set (fd_folds (close_all fd))" for f
    using that set_level_ok(3) len by (auto simp: close_all_def in_set_conv_nth fold_level_def Let_def)
  ultimately show ?thesis
    using set_level_ok(1,3) by (auto simp: is_line_hidden_def list_ex_iff hides_def)
qed

theorem fold_levels_witness:
  "fl_closed (fd_folds (snd (set_level 1 sample_folds)) ! 1)"
proof -
  have "fd_folds sample_folds = [\<lparr>fl_start = 2, fl_end = 9, fl_closed = True\<rparr>, \<lparr>fl_start = 3, fl_end = 5, fl_closed = True\<rparr>]"
    by (simp add: sample_folds_def fold_create_def folds_default_def sort_folds_def nested_def fold_key_def
        less_eq_fold_key_def)
  moreover have "\<forall>i<length (fd_folds sample_folds). fl_closed (fd_folds (snd (set_level 1 sample_folds)) ! i) \<longleftrightarrow>
      1 < fold_level (fd_folds sample_folds) i"
    using fold_levels [of 1 sample_folds] by blast
  ultimately show ?thesis by (simp add: fold_level_def Let_def)
qed

text \<open>
  An edit can break the tree.  When an edit joins the last line of one fold with the first
  line of the next, \<open>remap\<close> keeps both, and they partially overlap on the joined line.
\<close>

theorem remap_breaks_tree:
  "let fd = snd (fold_create 6 9 (snd (fold_create 2 5 folds_default)));
       joined = (\<lambda>l. Some (if 6 \<le> l then l - 1 else l))
   in folds_ok fd \<and> \<not> folds_ok (fold_remap joined fd)"
proof -
  let ?fd = "snd (fold_create 6 9 (snd (fold_create 2 5 folds_default)))"
  have ok: "folds_ok ?fd"
    by (intro fold_create_ok) (simp add: folds_ok_def folds_default_def fold_keys_def keys_ok_def)
  have "fd_folds ?fd = [\<lparr>fl_start = 2, fl_end = 5, fl_closed = True\<rparr>, \<lparr>fl_start = 6, fl_end = 9, fl_closed = True\<rparr>]"
    by (simp add: fold_create_def folds_default_def sort_folds_def nested_def disjoint_def fold_key_def
        less_eq_fold_key_def)
  then have "\<not> folds_ok (fold_remap (\<lambda>l. Some (if 6 \<le> l then l - 1 else l)) ?fd)"
    by (simp add: folds_ok_def fold_remap_def fold_keys_def keys_ok_def key_compat_def sort_folds_def
        less_eq_fold_key_def fold_key_def)
  with ok show ?thesis by (simp add: Let_def)
qed

end
