(* ===== verification/FoldMethods.thy ===== *)
theory FoldMethods
  imports FoldLevels Folds MergeOps
begin

text \<open>
  'foldmethod': how the front end fills the folds of a buffer (\<open>zmax-term/src/commands.rs\<close>).  The levels of
  the lines give a tree, its ranges of lines are counted from 0 and created one after the other in the
  \<open>Folds\<close> of the document.  The option store and what a document answers are parameters: its lines, with
  their line breaks, its indent and tab width, and the ranges its syntax tree captures.
\<close>

section \<open>The operations\<close>

text \<open>\<open>parse\<close> of a signed type with \<open>w\<close> bits.\<close>

definition parse_signed :: "nat \<Rightarrow> str \<Rightarrow> int option" where
  "parse_signed w s =
     (let (neg, ds) = (case s of c # r \<Rightarrow> if c = uc CHR ''-'' then (True, r) else if c = uc CHR ''+'' then (False, r) else (False, s)
                       | [] \<Rightarrow> (False, s));
          n = int (foldl (\<lambda>n c. 10 * n + (c - 48)) 0 ds);
          n = (if neg then - n else n)
      in if ds = [] \<or> list_ex (\<lambda>c. \<not> is_digit c) ds then None
         else if - (2 ^ (w - 1)) \<le> n \<and> n < 2 ^ (w - 1) then Some n else None)"

definition vim_opt_str :: "(str \<Rightarrow> str option) \<Rightarrow> string \<Rightarrow> str option" where
  "vim_opt_str store name = (case store (lit name) of Some v \<Rightarrow> if v = [] then None else Some v | None \<Rightarrow> None)"

record fold_doc =
  doc_lines :: "str list"
  doc_indent_width :: nat
  doc_tab_width :: nat
  doc_captures :: "(nat \<times> nat) list"
  doc_folds :: folds

definition tree_ranges :: "level_getter \<Rightarrow> nat \<Rightarrow> (nat \<times> nat) list option" where
  "tree_ranges L n = do {
     (tree, _, _) \<leftarrow> fold_update [] L (int n) False False;
     Some (map (\<lambda>(s, e). (s - 1, e - 1)) (all_ranges tree))
   }"

definition markers_of :: "(str \<Rightarrow> str option) \<Rightarrow> str \<times> str" where
  "markers_of store =
     (let spec = (case vim_opt_str store ''foldmarker'' of Some v \<Rightarrow> v | None \<Rightarrow> lit ''{{{,}}}'')
      in (takeWhile (\<lambda>c. c \<noteq> uc CHR '','') spec,
          case dropWhile (\<lambda>c. c \<noteq> uc CHR '','') spec of _ # r \<Rightarrow> r | [] \<Rightarrow> lit ''}}}''))"

definition foldmethod_ranges :: "(str \<Rightarrow> str option) \<Rightarrow> fold_doc \<Rightarrow> str \<Rightarrow> (nat \<times> nat) list option" where
  "foldmethod_ranges store d meth =
     (let lines = doc_lines d
      in if meth = lit ''marker'' then
           let (begins, ends) = markers_of store
           in tree_ranges (marker_level_getter lines begins ends) (length lines)
         else if meth = lit ''indent'' then
           let ignore = (case vim_opt_str store ''foldignore'' of Some v \<Rightarrow> v | None \<Rightarrow> lit ''#'');
               nestmax = (case Option.bind (vim_opt_str store ''foldnestmax'') (parse_signed 32) of Some v \<Rightarrow> v | None \<Rightarrow> MAX_LEVEL)
           in tree_ranges (indent_level_getter lines ignore (doc_indent_width d) (doc_tab_width d) nestmax) (length lines)
         else if meth = lit ''syntax'' then
           tree_ranges (syntax_level_getter (syntax_levels (doc_captures d) (length lines))) (length lines)
         else Some [])"

text \<open>The level the folds open at.\<close>

definition start_level :: "(str \<Rightarrow> str option) \<Rightarrow> nat" where
  "start_level store =
     (let start = (case Option.bind (vim_opt_str store ''foldlevelstart'') (parse_signed 64) of Some v \<Rightarrow> v | None \<Rightarrow> - 1)
      in if 0 \<le> start then nat start
         else case Option.bind (vim_opt_str store ''foldlevel'') parse_usize of Some v \<Rightarrow> v | None \<Rightarrow> 0)"

definition apply_fold_start_level :: "(str \<Rightarrow> str option) \<Rightarrow> folds \<Rightarrow> folds" where
  "apply_fold_start_level store fd = snd (set_level (start_level store) fd)"

definition create_folds :: "(nat \<times> nat) list \<Rightarrow> folds \<Rightarrow> folds" where
  "create_folds ranges fd = foldl (\<lambda>fd (s, e). snd (fold_create s e fd)) fd ranges"

definition fill_folds :: "(str \<Rightarrow> str option) \<Rightarrow> (nat \<times> nat) list \<Rightarrow> fold_doc \<Rightarrow> folds \<Rightarrow> fold_doc" where
  "fill_folds store ranges d fd =
     d\<lparr>doc_folds := apply_fold_start_level store (fold_clamp (length (doc_lines d) - 1) (create_folds ranges fd))\<rparr>"

definition materialize_folds_with :: "(str \<Rightarrow> str option) \<Rightarrow> str \<Rightarrow> fold_doc \<Rightarrow> fold_doc option" where
  "materialize_folds_with store meth d =
     (if meth = lit ''manual'' then Some d
      else if fd_folds (doc_folds d) \<noteq> [] then Some d
      else do {
        ranges \<leftarrow> foldmethod_ranges store d meth;
        Some (if ranges = [] then d else fill_folds store ranges d (doc_folds d))
      })"

definition materialize_folds :: "(str \<Rightarrow> str option) \<Rightarrow> fold_doc \<Rightarrow> fold_doc option" where
  "materialize_folds store d =
     materialize_folds_with store (case vim_opt_str store ''foldmethod'' of Some v \<Rightarrow> v | None \<Rightarrow> lit ''manual'') d"

text \<open>\<open>:set foldmethod\<close>: the current document is rebuilt, the others are filled if they have no folds.\<close>

definition apply_foldmethod :: "(str \<Rightarrow> str option) \<Rightarrow> str \<Rightarrow> fold_doc \<Rightarrow> fold_doc list \<Rightarrow> (fold_doc \<times> fold_doc list) option" where
  "apply_foldmethod store meth d others = do {
     ranges \<leftarrow> foldmethod_ranges store d meth;
     others \<leftarrow> those (map (materialize_folds_with store meth) others);
     Some (fill_folds store ranges d (fold_clear (doc_folds d)), others)
   }"

section \<open>The ranges of a tree\<close>

abbreviation range_key :: "nat \<times> nat \<Rightarrow> fold_key" where
  "range_key r \<equiv> FoldKey (fst r) (snd r)"

lemma collect_all_bounds:
  "wf_folds lo hi g \<Longrightarrow> 0 \<le> lo \<Longrightarrow> r \<in> set (collect_all g off) \<Longrightarrow>
   int off + lo \<le> int (fst r) \<and> fst r \<le> snd r \<and> int (snd r) < int off + hi"
proof (induction g arbitrary: lo hi off rule: folds_induct)
  case (Cons f fs)
  from Cons.prems(3) consider "r = (off + vf_top f, off + vf_top f + (vf_len f - 1))"
    | "r \<in> set (collect_all (vf_nested f) (off + vf_top f))" | "r \<in> set (collect_all fs off)"
    by (auto simp: Let_def)
  then show ?case
  proof cases
    case 1
    then show ?thesis using Cons.prems(1) by auto
  next
    case 2
    then show ?thesis using Cons.IH(1) [of 0 "int (vf_len f)" "off + vf_top f"] Cons.prems(1) by auto
  next
    case 3
    then show ?thesis using Cons.IH(2) [of "vf_end f" hi off] Cons.prems(1,2) by auto
  qed
qed simp

lemma collect_all_compat:
  "wf_folds lo hi g \<Longrightarrow> 0 \<le> lo \<Longrightarrow> r \<in> set (collect_all g off) \<Longrightarrow> q \<in> set (collect_all g off) \<Longrightarrow>
   key_compat (range_key r) (range_key q)"
proof (induction g arbitrary: lo hi off r q rule: folds_induct)
  case (Cons f fs)
  let ?top = "off + vf_top f"
  let ?first = "(?top, ?top + (vf_len f - 1)) # collect_all (vf_nested f) ?top"
  have within: "?top \<le> fst x \<and> snd x \<le> ?top + (vf_len f - 1)" if "x \<in> set ?first" for x
    using that collect_all_bounds [of 0 "int (vf_len f)" "vf_nested f" x ?top] Cons.prems(1) by auto
  have later: "?top + (vf_len f - 1) < fst x" if "x \<in> set (collect_all fs off)" for x
    using that collect_all_bounds [of "vf_end f" hi fs x off] Cons.prems(1,2) by auto
  have nested_ok: "key_compat (range_key x) (range_key y)"
    if "x \<in> set (collect_all (vf_nested f) ?top)" "y \<in> set (collect_all (vf_nested f) ?top)" for x y
    using Cons.IH(1) that Cons.prems(1) by auto
  have whole: "key_compat (FoldKey ?top (?top + (vf_len f - 1))) (range_key y) \<and>
      key_compat (range_key y) (FoldKey ?top (?top + (vf_len f - 1)))" if "y \<in> set ?first" for y
    using within [OF that] by (simp add: key_compat_def)
  have inner: "key_compat (range_key x) (range_key y)" if "x \<in> set ?first" "y \<in> set ?first" for x y
    using that whole [OF that(1)] whole [OF that(2)] nested_ok by (cases "x = (?top, ?top + (vf_len f - 1))"; cases "y = (?top, ?top + (vf_len f - 1))") simp_all
  have outer: "key_compat (range_key x) (range_key y)" if "x \<in> set (collect_all fs off)" "y \<in> set (collect_all fs off)" for x y
    using that Cons.IH(2) [of "vf_end f" hi x off y] Cons.prems(1,2) by simp
  have across: "key_compat (range_key x) (range_key y)" if "x \<in> set ?first" "y \<in> set (collect_all fs off)" for x y
    using within [OF that(1)] later [OF that(2)] by (simp add: key_compat_def)
  have "set (collect_all (f # fs) off) = set ?first \<union> set (collect_all fs off)" by (simp add: Let_def)
  then have "r \<in> set ?first \<or> r \<in> set (collect_all fs off)" "q \<in> set ?first \<or> q \<in> set (collect_all fs off)"
    using Cons.prems(3,4) by blast+
  then show ?case using inner outer across key_compat_commute by blast
qed simp

section \<open>Creating the folds\<close>

text \<open>Ranges that fit together are all taken, but for those of a single line.\<close>

lemma fold_create_fits:
  assumes "folds_ok fd" "fst r \<le> snd r" "\<forall>k\<in>set (fold_keys fd). key_compat (range_key r) k"
  shows "set (fold_keys (snd (fold_create (fst r) (snd r) fd))) = set (fold_keys fd) \<union> (if fst r < snd r then {range_key r} else {})"
proof -
  have mm: "min (fst r) (snd r) = fst r" "max (fst r) (snd r) = snd r" using assms(2) by auto
  show ?thesis
  proof (cases rule: fold_create_cases [of "fst r" "snd r" fd])
    case line
    then show ?thesis using mm by simp
  next
    case (exact i)
    have "range_key r = fold_keys fd ! i" using exact(2-4) mm by (simp add: fold_keys_def fold_key_def)
    then have "range_key r \<in> set (fold_keys fd)" using exact(2) by (simp add: fold_keys_def)
    then show ?thesis using exact(2,5) by (auto simp: fold_simps)
  next
    case (overlap f)
    then show ?thesis using assms(3) mm key_compat_nested [of "fst r" "snd r" f] by (auto simp: fold_keys_def)
  next
    case fresh
    then show ?thesis using mm assms(2) by (auto simp: fold_keys_def map_fold_key_sort fold_key_def)
  qed
qed

lemma create_folds_fit:
  "folds_ok fd \<Longrightarrow> \<forall>r\<in>set rs. fst r \<le> snd r \<Longrightarrow> \<forall>r\<in>set rs. \<forall>q\<in>set rs. key_compat (range_key r) (range_key q) \<Longrightarrow>
   \<forall>r\<in>set rs. \<forall>k\<in>set (fold_keys fd). key_compat (range_key r) k \<Longrightarrow>
   folds_ok (create_folds rs fd) \<and>
   set (fold_keys (create_folds rs fd)) = set (fold_keys fd) \<union> range_key ` {r \<in> set rs. fst r < snd r}"
proof (induction rs arbitrary: fd)
  case (Cons r rs)
  let ?fd = "snd (fold_create (fst r) (snd r) fd)"
  have keys: "set (fold_keys ?fd) = set (fold_keys fd) \<union> (if fst r < snd r then {range_key r} else {})"
    using Cons.prems by (intro fold_create_fits) simp_all
  have ok: "folds_ok ?fd" using Cons.prems(1) by (rule fold_create_ok)
  have step: "create_folds (r # rs) fd = create_folds rs ?fd" by (simp add: create_folds_def case_prod_beta)
  have "\<forall>q\<in>set rs. \<forall>k\<in>set (fold_keys ?fd). key_compat (range_key q) k"
    using Cons.prems(3,4) keys by (auto split: if_splits)
  then have IH: "folds_ok (create_folds rs ?fd) \<and>
      set (fold_keys (create_folds rs ?fd)) = set (fold_keys ?fd) \<union> range_key ` {r \<in> set rs. fst r < snd r}"
    using Cons.prems(2,3) ok by (intro Cons.IH) simp_all
  moreover have "{q \<in> set (r # rs). fst q < snd q} = (if fst r < snd r then {r} else {}) \<union> {q \<in> set rs. fst q < snd q}" by auto
  ultimately show ?case unfolding step keys by (simp add: image_Un Un_assoc)
qed (simp add: create_folds_def)

lemma folds_ok_level: "folds_ok (snd (set_level n fd)) \<longleftrightarrow> folds_ok fd"
  by (simp add: folds_ok_def set_level_ok)

text \<open>The folds a well-formed tree gives a document without folds: its ranges of two or more lines.\<close>

definition tree_keys :: "vfold list \<Rightarrow> fold_key set" where
  "tree_keys g = (\<lambda>(s, e). FoldKey (s - 1) (e - 1)) ` {r \<in> set (all_ranges g). fst r < snd r}"

lemma fill_folds_tree:
  fixes store :: "str \<Rightarrow> str option" and d :: fold_doc
  assumes wf: "wf_folds 1 (int (length (doc_lines d)) + 1) g" and none: "fd_folds fd = []"
  defines "d' \<equiv> fill_folds store (map (\<lambda>(s, e). (s - 1, e - 1)) (all_ranges g)) d fd"
  shows "folds_ok (doc_folds d')" "set (fold_keys (doc_folds d')) = tree_keys g"
    "f \<in> set (fd_folds (doc_folds d')) \<Longrightarrow> fl_end f < length (doc_lines d)"
    "i < length (fd_folds (doc_folds d')) \<Longrightarrow>
       fl_closed (fd_folds (doc_folds d') ! i) \<longleftrightarrow> start_level store < fold_level (fd_folds (doc_folds d')) i"
proof -
  let ?rs = "map (\<lambda>(s, e). (s - 1, e - 1)) (all_ranges g)" and ?n = "length (doc_lines d)"
  have bounds: "1 \<le> fst r \<and> fst r \<le> snd r \<and> snd r \<le> ?n" if "r \<in> set (all_ranges g)" for r
    using collect_all_bounds [OF wf, of r 0] that by (simp add: all_ranges_def)
  have compat: "key_compat (range_key r) (range_key q)" if "r \<in> set (all_ranges g)" "q \<in> set (all_ranges g)" for r q
    using collect_all_compat [OF wf, of r 0 q] that by (simp add: all_ranges_def)
  have compat': "key_compat (range_key r) (range_key q)" if mem: "r \<in> set ?rs" "q \<in> set ?rs" for r q
  proof -
    obtain r' q' where rq: "r' \<in> set (all_ranges g)" "q' \<in> set (all_ranges g)" "r = (fst r' - 1, snd r' - 1)" "q = (fst q' - 1, snd q' - 1)"
      using mem by (force simp: case_prod_beta)
    then show ?thesis using compat [OF rq(1,2)] bounds [OF rq(1)] bounds [OF rq(2)] by (auto simp: key_compat_def)
  qed
  have "folds_ok fd" using none by (simp add: folds_ok_def fold_keys_def keys_ok_def)
  then have created: "folds_ok (create_folds ?rs fd) \<and> set (fold_keys (create_folds ?rs fd)) = range_key ` {r \<in> set ?rs. fst r < snd r}"
  proof -
    have "\<forall>r\<in>set ?rs. fst r \<le> snd r" using bounds by (auto simp: diff_le_mono)
    moreover have "\<forall>r\<in>set ?rs. \<forall>q\<in>set ?rs. key_compat (range_key r) (range_key q)" using compat' by blast
    moreover have "\<forall>r\<in>set ?rs. \<forall>k\<in>set (fold_keys fd). key_compat (range_key r) k" using none by (simp add: fold_keys_def)
    ultimately show ?thesis using create_folds_fit [OF \<open>folds_ok fd\<close>, of ?rs] none by (simp add: fold_keys_def)
  qed
  have same: "range_key ` {r \<in> set ?rs. fst r < snd r} = tree_keys g"
  proof -
    have "{r \<in> set ?rs. fst r < snd r} = (\<lambda>(s, e). (s - 1, e - 1)) ` {r \<in> set (all_ranges g). fst r < snd r}"
    proof -
      have "fst r - 1 < snd r - 1 \<longleftrightarrow> fst r < snd r" if "r \<in> set (all_ranges g)" for r
        using bounds [OF that] by auto
      then show ?thesis by (auto simp: case_prod_beta)
    qed
    then show ?thesis by (simp add: tree_keys_def image_image case_prod_beta)
  qed
  have inside: "key_end k < ?n" if "k \<in> tree_keys g" for k
    using that bounds by (fastforce simp: tree_keys_def)
  let ?c = "create_folds ?rs fd"
  have "fl_end f \<le> ?n - 1 \<and> fl_start f < fl_end f" if "f \<in> set (fd_folds ?c)" for f
  proof -
    have "fold_key f \<in> tree_keys g" using that created same by (auto simp: fold_keys_def)
    then show ?thesis using inside [of "fold_key f"] folds_okD(1) [of ?c f] created that by simp
  qed
  then have clamp: "fold_clamp (?n - 1) ?c = ?c"
    by (cases ?c) (auto simp: fold_clamp_def intro!: filter_True)
  have folds: "doc_folds d' = snd (set_level (start_level store) ?c)"
    unfolding d'_def fill_folds_def apply_fold_start_level_def clamp by simp
  show ok: "folds_ok (doc_folds d')" using created by (simp add: folds folds_ok_level)
  show keys: "set (fold_keys (doc_folds d')) = tree_keys g" using created same by (simp add: folds set_level_ok)
  show "f \<in> set (fd_folds (doc_folds d')) \<Longrightarrow> fl_end f < ?n"
    using keys inside [of "fold_key f"] by (force simp: fold_keys_def)
  have eq: "fold_keys (doc_folds d') = fold_keys ?c" by (simp add: folds set_level_ok)
  show "i < length (fd_folds (doc_folds d')) \<Longrightarrow>
      fl_closed (fd_folds (doc_folds d') ! i) \<longleftrightarrow> start_level store < fold_level (fd_folds (doc_folds d')) i"
    using set_level_ok(3) [of i ?c "start_level store"] length_keys [OF eq] fold_level_keys [of i "fd_folds (doc_folds d')" "fd_folds ?c"] eq
    by (simp add: folds fold_keys_def)
qed

section \<open>The folds of a method\<close>

text \<open>What is asked of the text, and the tree of the reference, for the three methods that compute folds.\<close>

definition lines_fit :: "(str \<Rightarrow> str option) \<Rightarrow> fold_doc \<Rightarrow> str \<Rightarrow> bool" where
  "lines_fit store d meth \<longleftrightarrow>
     meth = lit ''indent'' \<and> list_all (\<lambda>l. indent_columns l (doc_tab_width d) < 2 ^ 31) (doc_lines d) \<or>
     meth = lit ''syntax'' \<or>
     meth = lit ''marker'' \<and>
       (case marker_rows (fst (markers_of store)) (snd (markers_of store)) 0 (doc_lines d) of
          Some rs \<Rightarrow> markers_nest 0 rs | None \<Rightarrow> False)"

definition method_tree :: "(str \<Rightarrow> str option) \<Rightarrow> fold_doc \<Rightarrow> str \<Rightarrow> vfold list" where
  "method_tree store d meth =
     (let n = length (doc_lines d);
          (lv, st) =
            (if meth = lit ''indent'' then
               (indent_lv (doc_lines d)
                  (case vim_opt_str store ''foldignore'' of Some v \<Rightarrow> v | None \<Rightarrow> lit ''#'')
                  (doc_indent_width d) (doc_tab_width d)
                  (case Option.bind (vim_opt_str store ''foldnestmax'') (parse_signed 32) of Some v \<Rightarrow> v | None \<Rightarrow> MAX_LEVEL),
                \<lambda>_. 0)
             else if meth = lit ''syntax'' then (syntax_lv (doc_captures d) n, syntax_st (doc_captures d) n)
             else
               let rs = the (marker_rows (fst (markers_of store)) (snd (markers_of store)) 0 (doc_lines d))
               in (\<lambda>i. fst (marker_at rs i), \<lambda>i. fst (snd (marker_at rs i))))
      in forest 1 1 (level_rows lv st n 1 (n + 1)))"

lemma method_names: "lit ''marker'' \<noteq> lit ''indent''" "lit ''marker'' \<noteq> lit ''syntax''" "lit ''indent'' \<noteq> lit ''syntax''"
  "lit ''marker'' \<noteq> lit ''manual''" "lit ''indent'' \<noteq> lit ''manual''" "lit ''syntax'' \<noteq> lit ''manual''"
  by (simp_all add: lit_def)

lemma tree_ranges_levels:
  assumes "level_lines L n lv st nx"
  shows "tree_ranges L n = Some (map (\<lambda>(s, e). (s - 1, e - 1)) (all_ranges (forest 1 1 (level_rows lv st n 1 (n + 1)))))"
proof -
  obtain ch where "fold_update [] L (int n) False False = Some (forest 1 1 (level_rows lv st n 1 (n + 1)), False, ch)"
    using level_lines.builds [OF assms, of False False] by blast
  then show ?thesis by (simp add: tree_ranges_def)
qed

lemma foldmethod_ranges_tree:
  assumes "lines_fit store d meth"
  shows "foldmethod_ranges store d meth = Some (map (\<lambda>(s, e). (s - 1, e - 1)) (all_ranges (method_tree store d meth)))"
    and "wf_folds 1 (int (length (doc_lines d)) + 1) (method_tree store d meth)"
proof -
  consider (indent) "meth = lit ''indent''" "\<forall>l\<in>set (doc_lines d). indent_columns l (doc_tab_width d) < 2 ^ 31"
    | (syn) "meth = lit ''syntax''"
    | (marker) rs where "meth = lit ''marker''"
        "marker_rows (fst (markers_of store)) (snd (markers_of store)) 0 (doc_lines d) = Some rs" "markers_nest 0 rs"
    using assms by (auto simp: lines_fit_def list_all_iff split: option.splits)
  then have "foldmethod_ranges store d meth = Some (map (\<lambda>(s, e). (s - 1, e - 1)) (all_ranges (method_tree store d meth))) \<and>
      wf_folds 1 (int (length (doc_lines d)) + 1) (method_tree store d meth)"
  proof cases
    case indent
    show ?thesis
      using tree_ranges_levels [OF indent_lines [OF indent(2)]] level_lines.rows_wf [OF indent_lines [OF indent(2)]] method_names
      by (simp add: foldmethod_ranges_def method_tree_def indent(1) Let_def)
  next
    case syn
    show ?thesis
      using tree_ranges_levels [OF syn.level_lines_axioms] syn.rows_wf method_names
      by (simp add: foldmethod_ranges_def method_tree_def syn Let_def)
  next
    case marker
    show ?thesis
      using tree_ranges_levels [OF marker_lines [OF marker(2,3)]] level_lines.rows_wf [OF marker_lines [OF marker(2,3)]] method_names
      by (simp add: foldmethod_ranges_def method_tree_def marker(1,2) Let_def case_prod_beta)
  qed
  then show "foldmethod_ranges store d meth = Some (map (\<lambda>(s, e). (s - 1, e - 1)) (all_ranges (method_tree store d meth)))"
    "wf_folds 1 (int (length (doc_lines d)) + 1) (method_tree store d meth)" by auto
qed

lemma materialize_tree:
  assumes fit: "lines_fit store d meth" and none: "fd_folds (doc_folds d) = []"
  obtains d' where "materialize_folds_with store meth d = Some d'" "folds_ok (doc_folds d')"
    "set (fold_keys (doc_folds d')) = tree_keys (method_tree store d meth)"
    "\<forall>f\<in>set (fd_folds (doc_folds d')). fl_end f < length (doc_lines d)"
    "\<forall>i<length (fd_folds (doc_folds d')). fl_closed (fd_folds (doc_folds d') ! i) \<longleftrightarrow>
       start_level store < fold_level (fd_folds (doc_folds d')) i"
proof -
  let ?g = "method_tree store d meth"
  let ?rs = "map (\<lambda>(s, e). (s - 1, e - 1)) (all_ranges ?g)"
  have name: "meth \<noteq> lit ''manual''" using fit method_names by (auto simp: lines_fit_def)
  note ranges = foldmethod_ranges_tree [OF fit]
  have step: "materialize_folds_with store meth d = Some (if ?rs = [] then d else fill_folds store ?rs d (doc_folds d))"
    using name none ranges(1) by (simp add: materialize_folds_with_def)
  show ?thesis
  proof (cases "?rs = []")
    case True
    then have "tree_keys ?g = {}" by (simp add: tree_keys_def)
    then show ?thesis using step True none by (intro that [of d]) (simp_all add: folds_ok_def fold_keys_def keys_ok_def)
  next
    case False
    then show ?thesis using step fill_folds_tree [OF ranges(2) none, where store = store]
      by (intro that [of "fill_folds store ?rs d (doc_folds d)"]) simp_all
  qed
qed

end
