(* ===== verification/FoldClaims.thy ===== *)
theory FoldClaims
  imports FoldMethods
begin

text \<open>The properties of the tree of nested folds.\<close>

section \<open>Building the tree\<close>

text \<open>The folds that hold a line, by the ranges handed out.\<close>

definition folds_at :: "vfold list \<Rightarrow> nat \<Rightarrow> nat" where
  "folds_at g n = length (filter (\<lambda>(s, e). s \<le> n \<and> n \<le> e) (all_ranges g))"

lemma ranges_depth:
  assumes "wf_folds 1 hi g"
  shows "folds_at g n = depth g (int n)"
proof -
  have "folds_at g n = length (filter (line_in (int n)) (all_ranges g))" by (simp add: folds_at_def case_prod_unfold)
  then show ?thesis using collect_all_depth [OF assms, of "int n" 0] by (simp add: all_ranges_def)
qed

context level_lines
begin

lemma built:
  "\<exists>g ch'. fold_update [] L (int N) m ch = Some (g, m, ch') \<and> g = forest 1 1 (rows 1 (N + 1)) \<and>
     wf_folds 1 (int N + 1) g \<and> (\<forall>n\<in>{1..N}. folds_at g n = nat (eff n))"
proof -
  obtain ch' where "fold_update [] L (int N) m ch = Some (forest 1 1 (rows 1 (N + 1)), m, ch')" using builds by blast
  moreover have "folds_at (forest 1 1 (rows 1 (N + 1))) n = nat (eff n)" if "n \<in> {1..N}" for n
    using ranges_depth [OF rows_wf] rows_levels [of n] that by (metis atLeastAtMost_iff)
  ultimately show ?thesis using rows_wf by blast
qed

end

text \<open>
  C28: For 'foldmethod' indent, \<open>fold_update\<close> on a buffer without folds returns, does not panic and builds
  the folds of the reference.  They are well formed and every line lies as deep as its level: the indent
  divided by 'shiftwidth', for blank and ignored lines the smaller level of the nearest lines around that
  have one, at most 'foldnestmax' and 20.
\<close>

theorem indent_folds:
  assumes "\<forall>l\<in>set lines. indent_columns l tw < 2 ^ 31"
  shows "\<exists>g ch'. fold_update [] (indent_level_getter lines fi sw tw fnm) (int (length lines)) m ch = Some (g, m, ch') \<and>
    g = forest 1 1 (level_rows (indent_lv lines fi sw tw fnm) (\<lambda>_. 0) (length lines) 1 (length lines + 1)) \<and>
    wf_folds 1 (int (length lines) + 1) g \<and>
    (\<forall>n\<in>{1..length lines}. folds_at g n =
       nat (eff_level (indent_lv lines fi sw tw fnm) (length lines) n))"
  by (rule level_lines.built [OF indent_lines [OF assms]])

abbreviation sample_lines :: "str list" where
  "sample_lines \<equiv> [[97], [32, 32, 98], [], [32, 32, 32, 32, 99], [100]]"

lemma indent_folds_witness:
  "\<exists>g. fold_update [] (indent_level_getter sample_lines [35] 2 8 20) 5 False False = Some (g, False, True) \<and>
     g = [VFold 2 3 [VFold 2 1 [] FLevel TriNone] FLevel TriNone] \<and> wf_folds 1 6 g"
proof -
  have small: "\<forall>l\<in>set sample_lines. indent_columns l 8 < 2 ^ 31" by (simp add: indent_columns_def)
  obtain g ch where "fold_update [] (indent_level_getter sample_lines [35] 2 8 20) 5 False False = Some (g, False, ch)" "wf_folds 1 6 g"
    using indent_folds [OF small, of "[35]" 2 20 False False] by auto
  moreover have "fold_update [] (indent_level_getter sample_lines [35] 2 8 20) 5 False False =
      Some ([VFold 2 3 [VFold 2 1 [] FLevel TriNone] FLevel TriNone], False, True)" by code_simp
  ultimately show ?thesis by simp
qed

text \<open>
  Folds from captured ranges of the syntax: \<open>fold_update\<close> returns and a line lies as deep as the
  captured ranges that contain it after their first line, or those that contain the next one so, whichever
  are more.
\<close>

theorem syntax_folds:
  "\<exists>g ch'. fold_update [] (syntax_level_getter (syntax_levels ranges lc)) (int lc) m ch = Some (g, m, ch') \<and>
    wf_folds 1 (int lc + 1) g \<and>
    (\<forall>n\<in>{1..lc}. folds_at g n =
       min 20 (max (captures ranges n) (if n < lc then captures ranges (n + 1) else 0)))"
proof -
  have "nat (eff_level (syntax_lv ranges lc) lc n) =
      min 20 (max (captures ranges n) (if n < lc then captures ranges (n + 1) else 0))" if "n \<in> {1..lc}" for n
    using that syntax_eff [of n lc ranges] by (auto simp: syntax_lv_def syntax_at_def MAX_LEVEL_def)
  then show ?thesis using syn.built [of ranges lc m ch] by metis
qed

text \<open>
  C29: Folds from markers: where the scan of the lines does not overflow, no line is deeper than 20 and no
  numbered marker leaves a level that no fold was started for, \<open>fold_update\<close> returns and every line has
  the depth of its level.
\<close>

theorem marker_folds:
  assumes "marker_rows sm em 0 lines = Some rs" "markers_nest 0 rs"
  shows "\<exists>g ch'. fold_update [] (marker_level_getter lines sm em) (int (length lines)) m ch = Some (g, m, ch') \<and>
    wf_folds 1 (int (length lines) + 1) g \<and> 
    (\<forall>i<length lines. folds_at g (i + 1) = nat (fst (rs ! i)))"
proof -
  note lines = marker_lines [OF assms]
  have len: "length rs = length lines" using marker_rows_line [OF assms(1)] by simp
  have "eff_level (\<lambda>n. fst (marker_at rs n)) (length lines) (i + 1) = fst (rs ! i)" if "i < length lines" for i
    using level_lines.eff_defined [OF lines, of "i + 1"] that len marker_rows_nonneg(1) [OF assms(1) that]
      markers_nest_nth [OF assms(2), of i] by (simp add: marker_at_def)
  moreover have "i + 1 \<in> {1..length lines}" if "i < length lines" for i using that by simp
  ultimately show ?thesis using level_lines.built [OF lines, of m ch] by metis
qed

lemma marker_folds_witness:
  "\<exists>g. fold_update [] (marker_level_getter [[123, 97], [98], [125], [99]] [123] [125]) 4 False False = Some (g, False, True) \<and>
     folds_at g 2 = 1 \<and> folds_at g 4 = 0"
proof -
  let ?ls = "[[123, 97], [98], [125], [99]] :: str list" and ?rs = "[(1, 1, 1), (1, 0, 1), (1, 0, 0), (0, 0, 0)] :: (int \<times> int \<times> int) list"
  have rows: "marker_rows [123] [125] 0 ?ls = Some ?rs" "markers_nest 0 ?rs" by code_simp+
  obtain g ch where g: "fold_update [] (marker_level_getter ?ls [123] [125]) 4 False False = Some (g, False, ch)"
    "\<forall>i<4. folds_at g (i + 1) = nat (fst (?rs ! i))"
    using marker_folds [OF rows, of False False] by auto
  moreover have "map_option (\<lambda>(_, _, ch). ch) (fold_update [] (marker_level_getter ?ls [123] [125]) 4 False False) = Some True"
    by code_simp
  moreover have "folds_at g 2 = 1" "folds_at g 4 = 0"
    using g(2) [THEN spec, of 1] g(2) [THEN spec, of 3] by (simp_all add: numeral_2_eq_2)
  ultimately show ?thesis by auto
qed

section \<open>The folds of a document\<close>

text \<open>
  C30: Filling the folds of a document without folds from 'foldmethod': the tree of the levels becomes the
  document's folds.  Nothing panics, every range of two lines or more of the tree is accepted and no other
  fold exists, all lie within the text, and the folds that are nested deeper than 'foldlevelstart', or
  'foldlevel', are closed.
\<close>

theorem foldmethod_fills_folds:
  assumes "lines_fit store d meth" "fd_folds (doc_folds d) = []"
  shows "\<exists>d'. materialize_folds_with store meth d = Some d' \<and> folds_ok (doc_folds d') \<and>
    set (fold_keys (doc_folds d')) =
      (\<lambda>(s, e). FoldKey (s - 1) (e - 1)) ` {r \<in> set (all_ranges (method_tree store d meth)). fst r < snd r} \<and>
    (\<forall>f\<in>set (fd_folds (doc_folds d')). fl_end f < length (doc_lines d)) \<and>
    (\<forall>i<length (fd_folds (doc_folds d')). fl_closed (fd_folds (doc_folds d') ! i) \<longleftrightarrow>
       start_level store < fold_level (fd_folds (doc_folds d')) i)"
  by (rule materialize_tree [OF assms]) (auto simp: tree_keys_def)

abbreviation sample_store :: "str \<Rightarrow> str option" where
  "sample_store \<equiv> (\<lambda>_. None)(lit ''foldlevel'' := Some (lit ''1''))"

abbreviation sample_doc :: fold_doc where
  "sample_doc \<equiv> \<lparr>doc_lines = [[97], [32, 32, 98], [32, 32, 32, 32, 99], [32, 32, 32, 32, 100]], doc_indent_width = 2,
     doc_tab_width = 8, doc_captures = [], doc_folds = folds_default\<rparr>"

lemma foldmethod_fills_folds_witness:
  "\<exists>d'. materialize_folds_with sample_store (lit ''indent'') sample_doc = Some d' \<and>
     set (fold_keys (doc_folds d')) = {FoldKey 1 3, FoldKey 2 3}"
proof -
  have fit: "lines_fit sample_store sample_doc (lit ''indent'')" "fd_folds (doc_folds sample_doc) = []"
    by (simp_all add: lines_fit_def folds_default_def indent_columns_def)
  have "all_ranges (method_tree sample_store sample_doc (lit ''indent'')) = [(2, 4), (3, 4)]" by code_simp
  moreover obtain d' where "materialize_folds_with sample_store (lit ''indent'') sample_doc = Some d'"
    "set (fold_keys (doc_folds d')) = (\<lambda>(s, e). FoldKey (s - 1) (e - 1)) `
      {r \<in> set (all_ranges (method_tree sample_store sample_doc (lit ''indent''))). fst r < snd r}"
    using foldmethod_fills_folds [OF fit] by blast
  moreover have "{r \<in> set [(2, 4), (3, 4)]. fst r < snd r} = {(2, 4), (3, 4 :: nat)}" by auto
  ultimately show ?thesis by simp
qed

section \<open>Edits and the tree\<close>

text \<open>
  C31: The folds follow an edit.  When the lines \<open>a\<close> to \<open>b\<close> are deleted the tree stays well formed and each
  remaining line keeps its depth.  When \<open>k\<close> lines are inserted before line \<open>a\<close> outside insert mode, the
  lines around keep their depth and the new ones belong to the folds that hold both their neighbours.
\<close>

theorem folds_follow_edits:
  assumes "wf_folds 1 hi g" "1 \<le> a"
  shows "(a \<le> b \<longrightarrow> wf_folds 1 (cut_lines a b hi) (fold_mark_adjust g a b maxlnum (a - b - 1) ins) \<and>
      depth (fold_mark_adjust g a b maxlnum (a - b - 1) ins) n = depth g (if n < a then n else n + (b - a + 1))) \<and>
    (0 < k \<and> k < maxlnum \<and> a \<le> maxlnum \<and> hi \<le> maxlnum + 1 \<longrightarrow>
      wf_folds 1 (shift_lines a k hi) (fold_mark_adjust g a maxlnum k 0 False) \<and>
      depth (fold_mark_adjust g a maxlnum k 0 False) n =
        (if n < a then depth g n else if n < a + k then spanning g a else depth g (n - k)))"
proof -
  have "wf_folds 1 (cut_lines a b hi) (fold_mark_adjust g a b maxlnum (a - b - 1) ins) \<and>
      depth (fold_mark_adjust g a b maxlnum (a - b - 1) ins) n = depth g (if n < a then n else n + (b - a + 1))" if "a \<le> b"
    using delete_lines [OF _ that assms(1), of ins n] that assms(2) by (simp add: fold_mark_adjust_def)
  moreover have "wf_folds 1 (shift_lines a k hi) (fold_mark_adjust g a maxlnum k 0 False) \<and>
      depth (fold_mark_adjust g a maxlnum k 0 False) n =
        (if n < a then depth g n else if n < a + k then spanning g a else depth g (n - k))"
    if "0 < k" "k < maxlnum" "a \<le> maxlnum" "hi \<le> maxlnum + 1"
    using insert_lines [OF that(1,2) assms(1) that(4,3), of n] that assms(2)
    by (simp add: fold_mark_adjust_def inserted_depth_def)
  ultimately show ?thesis by blast
qed

abbreviation sample_tree :: "vfold list" where
  "sample_tree \<equiv> [VFold 2 5 [VFold 1 2 [] FLevel TriNone] FLevel TriNone, VFold 8 2 [] FLevel TriNone]"

lemma folds_follow_edits_witness:
  "depth (fold_mark_adjust sample_tree 4 6 maxlnum (- 3) False) 5 = 1 \<and>
   depth (fold_mark_adjust sample_tree 4 maxlnum 2 0 False) 4 = 2"
proof -
  have wf: "wf_folds 1 20 sample_tree" by simp
  have "depth (fold_mark_adjust sample_tree 4 6 maxlnum (4 - 6 - 1) False) 5 = depth sample_tree (if 5 < (4 :: int) then 5 else 5 + (6 - 4 + 1))"
    using folds_follow_edits [OF wf, of 4 6 False 5] by simp
  moreover have "depth (fold_mark_adjust sample_tree 4 maxlnum 2 0 False) 4 = spanning sample_tree 4"
    using folds_follow_edits [OF wf, where a = 4 and k = 2 and n = 4] by (simp add: maxlnum_def)
  ultimately show ?thesis by simp
qed

text \<open>
  Taking lines out of all folds.  \<open>fold_remove\<close> returns, does not panic, keeps the tree well formed,
  and afterwards the lines between \<open>tp\<close> and \<open>bt\<close> are in no fold while every other line keeps its depth.
\<close>

theorem fold_remove_clears:
  assumes "wf_folds lo hi g" "tp \<le> bt" "0 \<le> bt + 1"
  shows "\<exists>g'. fold_remove g tp bt = Some g' \<and> wf_folds lo hi g' \<and>
    (\<forall>n. depth g' n = (if tp \<le> n \<and> n \<le> bt then 0 else depth g n))"
  by (rule fold_remove_ok [OF assms])

lemma fold_remove_clears_witness:
  "\<exists>g'. fold_remove sample_tree 3 4 = Some g' \<and> depth g' 4 = 0 \<and> depth g' 5 = 1"
  using fold_remove_clears [of 1 20 sample_tree 3 4] by auto

section \<open>Closed folds\<close>

text \<open>The folds that hold a line, the outermost first, and when the one at depth \<open>k\<close> is shown closed: it is long
  enough, and closed by hand, or, at or below a fold that is left to 'foldlevel', at least that deep.\<close>

function fold_path :: "vfold list \<Rightarrow> int \<Rightarrow> vfold list" where
  "fold_path [] n = []"
| "fold_path (f # fs) n =
     (if int (vf_top f) \<le> n \<and> n < int (vf_top f) + int (vf_len f) then f # fold_path (vf_nested f) (n - int (vf_top f))
      else fold_path fs n)"
  by pat_completeness auto

termination
  by (relation "measure (\<lambda>(g, _). size_list size g)") (auto simp: less_Suc_eq_le size_nested_le)

definition shown_closed :: "vfold list \<Rightarrow> bool \<Rightarrow> int \<Rightarrow> int \<Rightarrow> nat \<Rightarrow> nat \<Rightarrow> bool" where
  "shown_closed path ul level fl fm k \<longleftrightarrow>
     k < length path \<and> fm < vf_len (path ! k) \<and>
     (if ul \<or> (\<exists>j\<le>k. vf_flags (path ! j) = FLevel) then fl \<le> level + int k else vf_flags (path ! k) = FClosed)"

lemma shown_closed_Cons:
  "(\<exists>k. shown_closed (f # path) ul level fl fm k) \<longleftrightarrow>
   fst (check_closed f ul level fl fm) \<or>
   (\<exists>k. shown_closed path (snd (check_closed f ul level fl fm)) (level + 1) fl fm k)"
proof -
  have "(\<exists>k. shown_closed (f # path) ul level fl fm k) \<longleftrightarrow>
      shown_closed (f # path) ul level fl fm 0 \<or> (\<exists>k. shown_closed (f # path) ul level fl fm (Suc k))"
    using nat.nchotomy by metis
  moreover have "shown_closed (f # path) ul level fl fm 0 \<longleftrightarrow> fst (check_closed f ul level fl fm)"
    by (auto simp: shown_closed_def check_closed_def is_small_def)
  moreover have "(\<exists>j\<le>Suc k. vf_flags ((f # path) ! j) = FLevel) \<longleftrightarrow> vf_flags f = FLevel \<or> (\<exists>j\<le>k. vf_flags (path ! j) = FLevel)" for k

  proof -
    have "(\<exists>j\<le>Suc k. P j) \<longleftrightarrow> P 0 \<or> (\<exists>j\<le>k. P (Suc j))" for P :: "nat \<Rightarrow> bool"
      by (metis Suc_le_mono le0 nat.exhaust)
    then show ?thesis by simp
  qed
  then have "shown_closed (f # path) ul level fl fm (Suc k) \<longleftrightarrow> shown_closed path (snd (check_closed f ul level fl fm)) (level + 1) fl fm k" for k
    by (auto simp: shown_closed_def check_closed_def add.commute add.left_commute)
  ultimately show ?thesis by blast
qed

lemma fold_path_outside: "wf_folds lo hi g \<Longrightarrow> n < lo \<or> hi \<le> n \<Longrightarrow> fold_path g n = []"
  by (induction g arbitrary: lo) fastforce+

lemma collect_closed_path:
  "wf_folds lo hi g \<Longrightarrow> 0 \<le> lo \<Longrightarrow>
   (\<exists>r\<in>set (collect_closed g fl fm level off ul). line_in n r) \<longleftrightarrow> (\<exists>k. shown_closed (fold_path g (n - int off)) ul level fl fm k)"
proof (induction g arbitrary: lo hi level off ul rule: folds_induct)
  case (Cons f fs)
  let ?t = "off + vf_top f" and ?hid = "\<lambda>g level off ul. \<exists>r\<in>set (collect_closed g fl fm level off ul). line_in n r"
  obtain c u where cu: "check_closed f ul level fl fm = (c, u)" by force
  have len: "0 < vf_len f" using Cons.prems(1) by simp
  have nested: "?hid (vf_nested f) (level + 1) ?t u \<longleftrightarrow> (\<exists>k. shown_closed (fold_path (vf_nested f) (n - int ?t)) u (level + 1) fl fm k)"
    using Cons.prems(1) by (intro Cons.IH(1) [of 0 "int (vf_len f)"]) auto
  have rest: "?hid fs level off ul \<longleftrightarrow> (\<exists>k. shown_closed (fold_path fs (n - int off)) ul level fl fm k)"
    using Cons.prems by (intro Cons.IH(2) [of "vf_end f" hi]) auto
  have split: "?hid (f # fs) level off ul \<longleftrightarrow>
      (if c then int ?t \<le> n \<and> n < int ?t + int (vf_len f) else ?hid (vf_nested f) (level + 1) ?t u) \<or> ?hid fs level off ul"
    using len by (auto simp: cu Let_def)
  have eq: "n - int ?t = n - int off - int (vf_top f)" by simp
  have none: "shown_closed [] b l fl fm = (\<lambda>_. False)" for b l by (auto simp: shown_closed_def)
  show ?case
  proof (cases "int ?t \<le> n \<and> n < int ?t + int (vf_len f)")
    case True
    then have here: "fold_path (f # fs) (n - int off) = f # fold_path (vf_nested f) (n - int ?t)" unfolding fold_path.simps eq by simp
    have gone: "fold_path fs (n - int off) = []" using fold_path_outside [of "vf_end f" hi fs "n - int off"] Cons.prems(1) True by auto
    show ?thesis unfolding split nested rest here gone shown_closed_Cons using True none cu by simp
  next
    case False
    then have here: "fold_path (f # fs) (n - int off) = fold_path fs (n - int off)" unfolding fold_path.simps by auto
    have gone: "fold_path (vf_nested f) (n - int ?t) = []"
      using fold_path_outside [of 0 "int (vf_len f)"] Cons.prems(1) False by auto
    show ?thesis unfolding split nested rest here gone using False none by auto
  qed
qed (simp add: shown_closed_def)

text \<open>
  C32: Closed folds.  The closed ranges are sorted and disjoint, and a line is hidden exactly when one of the
  folds that hold it is shown closed: it has more lines than 'foldminlines' and was closed by hand, or it or a
  fold around it is left to 'foldlevel' and it lies at least that deep.  So after \<open>foldUpdateAll\<close> has put
  every fold back under 'foldlevel', and with 'foldminlines' 0, a line is hidden exactly when it lies deeper
  than 'foldlevel'.
\<close>

theorem closed_by_level:
  assumes "wf_folds 1 hi g"
  shows "sorted_wrt (\<lambda>a b. snd a < fst b) (tree_closed_ranges g fl fm) \<and>
    ((\<exists>r\<in>set (tree_closed_ranges g fl fm). fst r \<le> n \<and> n \<le> snd r) \<longleftrightarrow>
      (\<exists>k<length (fold_path g (int n)). fm < vf_len (fold_path g (int n) ! k) \<and>
        (if \<exists>j\<le>k. vf_flags (fold_path g (int n) ! j) = FLevel then fl \<le> int k else vf_flags (fold_path g (int n) ! k) = FClosed))) \<and>
    ((\<exists>r\<in>set (tree_closed_ranges (fst (new_fold_level g True)) fl 0). fst r \<le> n \<and> n \<le> snd r) \<longleftrightarrow>
      max 0 fl < int (depth g (int n)))"
proof -
  let ?g = "map (set_vf_flags FLevel) g"
  have wf: "wf_folds lo hi (map (set_vf_flags FLevel) g) = wf_folds lo hi g" for lo hi g
    by (induction g arbitrary: lo) simp_all
  have same: "depth (map (set_vf_flags FLevel) g) m = depth g m" for g m
    by (induction g) simp_all
  have flags: "\<forall>f\<in>set ?g. vf_flags f = FLevel" by simp
  have wf': "wf_folds 1 hi ?g" using assms wf by blast
  have "(\<exists>r\<in>set (tree_closed_ranges ?g fl 0). line_in (int n) r) \<longleftrightarrow> max 0 (fl - 0) < int (depth ?g (int n - int 0))"
    unfolding tree_closed_ranges_def by (rule collect_closed_level [OF wf']) (use flags in simp_all)
  moreover have "sorted_wrt (\<lambda>a b. snd a < fst b) (tree_closed_ranges g fl fm)"
    unfolding tree_closed_ranges_def by (rule collect_closed_apart [OF assms]) simp
  moreover have "(\<exists>r\<in>set (tree_closed_ranges g fl fm). line_in (int n) r) \<longleftrightarrow> (\<exists>k. shown_closed (fold_path g (int n)) False 0 fl fm k)"
    unfolding tree_closed_ranges_def using collect_closed_path [OF assms, of fl fm 0 0 False "int n"] by simp
  ultimately show ?thesis by (simp add: new_fold_level_def same shown_closed_def)
qed

lemma closed_by_level_witness:
  "\<exists>r\<in>set (tree_closed_ranges (fst (new_fold_level sample_tree True)) 1 0). fst r \<le> 4 \<and> 4 \<le> snd r"
proof -
  have "wf_folds 1 20 sample_tree" by simp
  from closed_by_level [OF this, of 1 0 4] show ?thesis by simp
qed

section \<open>Two divergences\<close>

text \<open>
  In insert mode a line inserted below the first line of a fold is meant to extend it.  For a nested fold
  the test fails, since \<open>line2\<close> was made relative, and the fold moves down instead.
\<close>

lemma nested_insert_mode:
  "fold_mark_adjust [VFold 4 2 [] FLevel TriNone] 5 maxlnum 1 0 True = [VFold 4 3 [] FLevel TriNone]"
  "fold_mark_adjust [VFold 2 6 [VFold 2 2 [] FLevel TriNone] FLevel TriNone] 5 maxlnum 1 0 True =
     [VFold 2 7 [VFold 3 2 [] FLevel TriNone] FLevel TriNone]"
  by (simp_all add: fold_mark_adjust_def maxlnum_def fold_mark_adjust_recurse.simps(2))

text \<open>A marker that follows one with the largest level overflows the counter.\<close>

lemma marker_level_overflows:
  "fold_update [] (marker_level_getter [lit ''{2147483647{''] [123] [125]) 1 False False = None"
  by code_simp

end
