(* ===== verification/Patches.thy ===== *)
theory Patches
  imports MergeOps
begin

text \<open>
  What the unified diff half of \<open>zmax-core/src/merge_ops.rs\<close> does: the parser reads back what a
  printer writes, a patch applies exactly where the lines it expects are, a diff turned into a patch
  takes one text to the other, and a reversed patch undoes it.
\<close>

section \<open>The sides of a hunk\<close>

fun old_side :: "hunk_line list \<Rightarrow> str list" where
  "old_side [] = []"
| "old_side (HContext s # ls) = s # old_side ls"
| "old_side (HDelete s # ls) = s # old_side ls"
| "old_side (HInsert s # ls) = old_side ls"

fun new_side :: "hunk_line list \<Rightarrow> str list" where
  "new_side [] = []"
| "new_side (HContext s # ls) = s # new_side ls"
| "new_side (HInsert s # ls) = s # new_side ls"
| "new_side (HDelete s # ls) = new_side ls"

lemma take_drop_Cons:
  "take (Suc n) (drop cur xs) = x # ys \<longleftrightarrow> cur < length xs \<and> xs ! cur = x \<and> take n (drop (Suc cur) xs) = ys"
proof (cases "cur < length xs")
  case True
  then show ?thesis by (simp flip: Cons_nth_drop_Suc)
qed simp

text \<open>The body of a hunk succeeds exactly when the lines it expects are there.\<close>

lemma apply_lines_iff:
  "apply_lines orig cur ls = Inr (out, cur') \<longleftrightarrow>
   take (length (old_side ls)) (drop cur orig) = old_side ls \<and> out = new_side ls \<and> cur' = cur + length (old_side ls)"
proof (induction orig cur ls arbitrary: out cur' rule: apply_lines.induct)
  case (2 orig cur s ls)
  show ?case
    by (cases "cur < length orig"; cases "orig ! cur = s")
      (use 2 in \<open>auto simp: take_drop_Cons split: sum.splits\<close>)
next
  case (3 orig cur s ls)
  show ?case
    by (cases "cur < length orig"; cases "orig ! cur = s") (use 3 in \<open>auto simp: take_drop_Cons\<close>)
next
  case (4 orig cur s ls)
  show ?case by (use 4 in \<open>auto split: sum.splits\<close>)
qed auto

text \<open>A text as the gaps between hunks and one side of each hunk.\<close>

fun woven :: "(hunk_line list \<Rightarrow> str list) \<Rightarrow> (str list \<times> hunk) list \<Rightarrow> str list" where
  "woven side [] = []"
| "woven side ((gap, h) # gs) = gap @ side (hk_lines h) @ woven side gs"

text \<open>The hunks start where the gaps put them.\<close>

fun placed :: "nat \<Rightarrow> (str list \<times> hunk) list \<Rightarrow> bool" where
  "placed cur [] \<longleftrightarrow> True"
| "placed cur ((gap, h) # gs) \<longleftrightarrow>
     old_start h - 1 = cur + length gap \<and> placed (cur + length gap + length (old_side (hk_lines h))) gs"

lemma apply_hunks_woven:
  "map snd gs = hs \<Longrightarrow> placed cur gs \<Longrightarrow> cur \<le> length orig \<Longrightarrow> drop cur orig = woven old_side gs @ rest \<Longrightarrow>
   apply_hunks orig cur hs = Inr (woven new_side gs @ rest)"
proof (induction gs arbitrary: cur hs)
  case (Cons g gs)
  obtain gap h where g: "g = (gap, h)" by (cases g)
  let ?s = "cur + length gap" and ?o = "old_side (hk_lines h)"
  have st: "old_start h - Suc 0 = ?s" using Cons.prems g by simp
  have d: "drop cur orig = gap @ ?o @ woven old_side gs @ rest" using Cons.prems g by simp
  then have len: "length orig = ?s + length ?o + length (woven old_side gs @ rest)"
    using Cons.prems(3) by (metis add.assoc le_add_diff_inverse length_append length_drop)
  have ds: "drop ?s orig = ?o @ woven old_side gs @ rest"
    using d by (metis add.commute append_eq_conv_conj drop_drop)
  then have dd: "drop (?s + length ?o) orig = woven old_side gs @ rest"
    by (metis add.commute append_eq_conv_conj drop_drop)
  have "apply_lines orig ?s (hk_lines h) = Inr (new_side (hk_lines h), ?s + length ?o)"
    using ds by (simp add: apply_lines_iff)
  moreover have "slice orig cur ?s = gap" using d by (simp add: slice_def)
  moreover have "apply_hunks orig (?s + length ?o) (map snd gs) = Inr (woven new_side gs @ rest)"
    by (rule Cons.IH) (use Cons.prems g len dd in auto)
  ultimately show ?case using Cons.prems(1) g st len by (auto simp: Let_def)
qed simp

lemma apply_hunks_Inr:
  "apply_hunks orig cur hs = Inr out \<Longrightarrow> cur \<le> length orig \<Longrightarrow>
   \<exists>gs rest. map snd gs = hs \<and> placed cur gs \<and> drop cur orig = woven old_side gs @ rest \<and>
             out = woven new_side gs @ rest"
proof (induction orig cur hs arbitrary: out rule: apply_hunks.induct)
  case (1 orig cur)
  then show ?case by (intro exI [of _ "[]"] exI [of _ out]) simp
next
  case (2 orig cur h hs)
  let ?s = "old_start h - 1" and ?o = "old_side (hk_lines h)"
  obtain o1 cur' rest' where r: "cur \<le> ?s" "?s \<le> length orig" "apply_lines orig ?s (hk_lines h) = Inr (o1, cur')"
    "apply_hunks orig cur' hs = Inr rest'" "out = slice orig cur ?s @ o1 @ rest'"
    using "2.prems"(1) by (auto simp: Let_def split: if_splits sum.splits prod.splits)
  have l: "take (length ?o) (drop ?s orig) = ?o" "o1 = new_side (hk_lines h)" "cur' = ?s + length ?o"
    using r(3) by (simp_all add: apply_lines_iff)
  have le: "cur' \<le> length orig" using l(1,3) r(2)
    by (metis add_leD1 le_add_diff_inverse length_drop length_take min.cobounded1 nat_add_left_cancel_le)
  obtain gs rest where gs: "map snd gs = hs" "placed cur' gs" "drop cur' orig = woven old_side gs @ rest"
    "rest' = woven new_side gs @ rest"
    using "2.IH" [OF refl _ _ r(3) refl r(4) le] r(1,2) by auto
  define gap where "gap = slice orig cur ?s"
  have "drop cur orig = gap @ ?o @ drop cur' orig"
    using slice_to [OF r(1), of orig] append_take_drop_id [of "length ?o" "drop ?s orig"] l(1,3)
    by (simp add: add.commute gap_def)
  moreover have "?s = cur + length gap" using r(1,2) by (simp add: slice_def gap_def)
  moreover have "out = gap @ o1 @ rest'" using r(5) by (simp add: gap_def)
  ultimately show ?case using gs l(2,3)
    by (intro exI [of _ "(gap, h) # gs"] exI [of _ rest]) simp
qed

section \<open>Diffs as patches, and reversed patches\<close>

fun hunk_line_of :: "str diff_op \<Rightarrow> hunk_line" where
  "hunk_line_of (DEqual s) = HContext s"
| "hunk_line_of (DDelete s) = HDelete s"
| "hunk_line_of (DInsert s) = HInsert s"

lemma sides_of_diff: "old_side (map hunk_line_of ops) = olds ops" "new_side (map hunk_line_of ops) = news ops"
  by (induction ops rule: olds.induct) auto

fun reverse_line :: "hunk_line \<Rightarrow> hunk_line" where
  "reverse_line (HContext s) = HContext s"
| "reverse_line (HDelete s) = HInsert s"
| "reverse_line (HInsert s) = HDelete s"

definition reverse_hunk :: "hunk \<Rightarrow> hunk" where
  "reverse_hunk h = \<lparr>old_start = new_start h, old_len = new_len h, new_start = old_start h, new_len = old_len h,
     hk_lines = map reverse_line (hk_lines h)\<rparr>"

lemma reverse_sides [simp]:
  "old_side (map reverse_line ls) = new_side ls" "new_side (map reverse_line ls) = old_side ls"
  by (induction ls rule: old_side.induct) auto

text \<open>The second numbers of the headers follow from the first and the lines before.\<close>

fun numbered :: "int \<Rightarrow> hunk list \<Rightarrow> bool" where
  "numbered d [] \<longleftrightarrow> True"
| "numbered d (h # hs) \<longleftrightarrow>
     int (new_start h - 1) = int (old_start h - 1) + d \<and>
     numbered (d + int (length (new_side (hk_lines h))) - int (length (old_side (hk_lines h)))) hs"

lemma woven_reverse:
  "woven old_side (map (\<lambda>(gap, h). (gap, reverse_hunk h)) gs) = woven new_side gs"
  "woven new_side (map (\<lambda>(gap, h). (gap, reverse_hunk h)) gs) = woven old_side gs"
  by (induction gs) (auto simp: reverse_hunk_def)

lemma placed_reverse:
  "placed cur gs \<Longrightarrow> numbered d (map snd gs) \<Longrightarrow> int cur' = int cur + d \<Longrightarrow>
   placed cur' (map (\<lambda>(gap, h). (gap, reverse_hunk h)) gs)"
proof (induction gs arbitrary: cur cur' d)
  case (Cons g gs)
  obtain gap h where g: "g = (gap, h)" by (cases g)
  have "int (new_start h - 1) = int (cur' + length gap)" using Cons.prems g by simp
  then have st: "new_start h - 1 = cur' + length gap" by (simp only: of_nat_eq_iff)
  have "placed (cur' + length gap + length (new_side (hk_lines h))) (map (\<lambda>(gap, h). (gap, reverse_hunk h)) gs)"
    using Cons.prems g by (intro Cons.IH) auto
  then show ?case using g st by (simp add: reverse_hunk_def)
qed simp

section \<open>Printing and parsing\<close>

lemma decimal_nonempty [simp]: "decimal n \<noteq> []"
  by (subst decimal.simps) simp

lemma decimal_value: "foldl (\<lambda>n c. 10 * n + (c - 48)) 0 (decimal n) = n"
proof (induction n rule: decimal.induct)
  case (1 n)
  then show ?case by (subst decimal.simps) simp
qed

lemma parse_decimal:
  assumes "n < 2 ^ 64"
  shows "parse_usize (decimal n) = Some n"
proof -
  obtain c cs where d: "decimal n = c # cs" by (metis decimal_nonempty neq_Nil_conv)
  have "c \<noteq> 43" using decimal_digits [of c n] d by auto
  then have "strip_prefix (lit ''+'') (decimal n) = None" by (simp add: lit_def d)
  moreover have "\<not> list_ex (\<lambda>c. \<not> is_digit c) (decimal n)"
    using decimal_digits by (auto simp: list_ex_iff is_digit_def)
  ultimately show ?thesis using assms by (simp add: parse_usize_def Let_def decimal_value)
qed

definition print_range :: "nat \<Rightarrow> nat \<Rightarrow> str" where
  "print_range start len = decimal start @ lit '','' @ decimal len"

lemma parse_print_range:
  assumes "n < 2 ^ 64" "m < 2 ^ 64"
  shows "parse_range (print_range n m) = (n, m)"
proof -
  have "44 \<notin> set (decimal k)" for k using decimal_digits by force
  then have "split_on 44 (print_range n m) = [decimal n, decimal m]"
    by (simp add: print_range_def lit_def split_on_append split_on_word)
  then show ?thesis using assms by (simp add: parse_range_def parse_decimal)
qed

fun print_line :: "hunk_line \<Rightarrow> str" where
  "print_line (HContext s) = lit '' '' @ s"
| "print_line (HDelete s) = lit ''-'' @ s"
| "print_line (HInsert s) = lit ''+'' @ s"

definition print_header :: "hunk \<Rightarrow> str" where
  "print_header h = lit ''@@ -'' @ print_range (old_start h) (old_len h) @ lit '' +'' @
     print_range (new_start h) (new_len h) @ lit '' @@''"

definition print_hunk :: "hunk \<Rightarrow> str list" where
  "print_hunk h = print_header h # map print_line (hk_lines h)"

definition print_diff :: "hunk list \<Rightarrow> str" where
  "print_diff hs = join_with newline (concat (map print_hunk hs))"

fun line_text :: "hunk_line \<Rightarrow> str" where
  "line_text (HContext s) = s"
| "line_text (HDelete s) = s"
| "line_text (HInsert s) = s"

text \<open>What a printed diff can hold: numbers of 64 bits and lines without line breaks.\<close>

definition printable :: "hunk \<Rightarrow> bool" where
  "printable h \<longleftrightarrow> old_start h < 2 ^ 64 \<and> old_len h < 2 ^ 64 \<and> new_start h < 2 ^ 64 \<and> new_len h < 2 ^ 64 \<and>
     list_all (\<lambda>l. newline \<notin> set (line_text l)) (hk_lines h)"

text \<open>White space as it matters here: the blank is, digits, comma, signs and at signs are not.\<close>

definition plain_space :: "(uchar \<Rightarrow> bool) \<Rightarrow> bool" where
  "plain_space space \<longleftrightarrow> space 32 \<and> list_all (\<lambda>c. \<not> space c) ([43, 44, 45, 64] @ [48..<58])"

lemma split_whitespace_word:
  assumes "space 32" "w \<noteq> []" "\<And>c. c \<in> set w \<Longrightarrow> \<not> space c"
  shows "split_whitespace space (32 # w @ 32 # s) = w # split_whitespace space (32 # s)"
    and "split_whitespace space (32 # w) = [w]"
proof -
  obtain c cs where w: "w = c # cs" using assms(2) by (metis neq_Nil_conv)
  have sp: "\<not> space c" "\<forall>x\<in>set cs. \<not> space x" using assms(3) w by auto
  have "takeWhile (\<lambda>x. \<not> space x) (cs @ 32 # s) = cs" "dropWhile (\<lambda>x. \<not> space x) (cs @ 32 # s) = 32 # s"
    using sp assms(1) by (simp_all add: takeWhile_append dropWhile_append)
  then show "split_whitespace space (32 # w @ 32 # s) = w # split_whitespace space (32 # s)"
    using sp assms(1) w by (subst split_whitespace.simps) simp
  have e: "takeWhile (\<lambda>x. \<not> space x) cs = cs" "dropWhile (\<lambda>x. \<not> space x) cs = []" using sp by simp_all
  show "split_whitespace space (32 # w) = [w]"
    using sp(1) assms(1) w by (subst split_whitespace.simps) (simp add: e split_whitespace.simps [of space "[]"])
qed

lemma lit_simps [simp]: "lit [] = []" "lit (c # s) = uc c # lit s"
  by (simp_all add: lit_def)

lemma plain_space_facts:
  assumes "plain_space space"
  shows "space 32" "\<not> space 43" "\<not> space 45" "\<not> space 64" "c \<in> set (print_range a b) \<Longrightarrow> \<not> space c"
proof -
  have all: "\<forall>c\<in>{43, 44, 45, 64} \<union> {48..<58}. \<not> space c" "space 32"
    using assms unfolding plain_space_def list_all_iff set_append set_upt by auto
  then show "space 32" "\<not> space 43" "\<not> space 45" "\<not> space 64" by auto
  show "\<not> space c" if "c \<in> set (print_range a b)"
    using that all(1) decimal_digits [of c a] decimal_digits [of c b] by (auto simp: print_range_def)
qed

lemma print_range_nonempty [simp]: "print_range a b \<noteq> []"
  by (simp add: print_range_def)

lemma parse_header:
  assumes "plain_space space" "printable h"
  shows "\<exists>rest. strip_prefix (lit ''@@'') (print_header h) = Some rest \<and>
    header_ranges (split_whitespace space rest) ((0, 1), (0, 1)) =
      ((old_start h, old_len h), (new_start h, new_len h))"
proof (intro exI conjI)
  let ?a = "print_range (old_start h) (old_len h)" and ?b = "print_range (new_start h) (new_len h)"
  note sp = plain_space_facts [OF assms(1)]
  show "strip_prefix (lit ''@@'') (print_header h) = Some (32 # (45 # ?a) @ 32 # (43 # ?b) @ 32 # lit ''@@'')"
    by (simp add: print_header_def)
  have "split_whitespace space (32 # (45 # ?a) @ 32 # (43 # ?b) @ 32 # lit ''@@'') =
      [45 # ?a, 43 # ?b, lit ''@@'']"
    using sp by (subst split_whitespace_word, (force)+)+
  moreover have "parse_range ?a = (old_start h, old_len h)" "parse_range ?b = (new_start h, new_len h)"
    using assms(2) by (simp_all add: printable_def parse_print_range)
  ultimately show "header_ranges (split_whitespace space (32 # (45 # ?a) @ 32 # (43 # ?b) @ 32 # lit ''@@''))
      ((0, 1), (0, 1)) = ((old_start h, old_len h), (new_start h, new_len h))"
    by simp
qed

lemma body_print [simp]: "body_line (print_line l) = Some l" "strip_prefix (lit ''@@'') (print_line l) = None"
  by (cases l; simp)+

lemma parse_body:
  "parse_loop space (map print_line ls @ rest) (Some h) = parse_loop space rest (Some (h\<lparr>hk_lines := hk_lines h @ ls\<rparr>))"
proof (induction ls arbitrary: h)
  case (Cons l ls)
  have "parse_loop space (print_line l # map print_line ls @ rest) (Some h) =
      parse_loop space (map print_line ls @ rest) (Some (h\<lparr>hk_lines := hk_lines h @ [l]\<rparr>))"
    by (simp only: parse_loop.simps body_print option.case)
  then show ?case using Cons by simp
qed simp

lemma parse_hunks:
  "plain_space space \<Longrightarrow> \<forall>h\<in>set hs. printable h \<Longrightarrow>
   parse_loop space (concat (map print_hunk hs)) cur = (case cur of Some h \<Rightarrow> [h] | None \<Rightarrow> []) @ hs"
proof (induction hs arbitrary: cur)
  case (Cons h hs)
  obtain rest where r: "strip_prefix (lit ''@@'') (print_header h) = Some rest"
    "header_ranges (split_whitespace space rest) ((0, 1), (0, 1)) = ((old_start h, old_len h), (new_start h, new_len h))"
    using parse_header [of space h] Cons.prems by auto
  let ?h = "\<lparr>old_start = old_start h, old_len = old_len h, new_start = new_start h, new_len = new_len h, hk_lines = []\<rparr>"
  have "parse_loop space (print_header h # map print_line (hk_lines h) @ concat (map print_hunk hs)) cur =
      (case cur of Some h \<Rightarrow> [h] | None \<Rightarrow> []) @
      parse_loop space (map print_line (hk_lines h) @ concat (map print_hunk hs)) (Some ?h)"
    by (simp only: parse_loop.simps r option.case Let_def prod.case fst_conv snd_conv)
  also have "\<dots> = (case cur of Some h \<Rightarrow> [h] | None \<Rightarrow> []) @ h # hs"
    using Cons by (simp add: parse_body)
  finally show ?case by (simp only: print_hunk_def [of h] list.map concat.simps append_Cons)
qed simp

lemma print_no_newline:
  assumes "printable h" "l \<in> set (print_hunk h)"
  shows "newline \<notin> set l"
proof -
  have "newline \<notin> set (print_range a b)" for a b
    using decimal_digits [of newline a] decimal_digits [of newline b] by (auto simp: print_range_def)
  then have "newline \<notin> set (print_header h)" by (simp add: print_header_def)
  moreover have "newline \<notin> set (print_line k)" if "newline \<notin> set (line_text k)" for k
    using that by (cases k) simp_all
  ultimately show ?thesis using assms by (auto simp: print_hunk_def printable_def list_all_iff)
qed

lemma new_side_text: "l \<in> set (new_side ls) \<Longrightarrow> l \<in> line_text ` set ls"
  by (induction ls rule: new_side.induct) auto

section \<open>Properties\<close>

lemma placed_iff:
  "placed cur gs \<longleftrightarrow> (\<forall>n<length gs. max 1 (old_start (map snd gs ! n)) = cur + length (woven old_side (take n gs) @ fst (gs ! n)) + 1)"
proof (induction cur gs rule: placed.induct)
  case (2 cur gap h gs)
  have "old_start h - 1 = cur + length gap \<longleftrightarrow> max 1 (old_start h) = cur + length gap + 1" by auto
  with 2 show ?case by (simp add: All_less_Suc2 add.assoc)
qed simp

text \<open>A patch applies where the gaps between its hunks put them.\<close>

lemma apply_patch_placed:
  "apply_unified_diff original hunks = Inr result \<longleftrightarrow>
   (\<exists>gs rest. map snd gs = hunks \<and> placed 0 gs \<and> split_lines original = woven old_side gs @ rest \<and>
              result = join_with newline (woven new_side gs @ rest))"
proof
  assume "apply_unified_diff original hunks = Inr result"
  then obtain out where "apply_hunks (split_lines original) 0 hunks = Inr out" "result = join_with newline out"
    by (auto simp: apply_unified_diff_def split: sum.splits)
  then show "\<exists>gs rest. map snd gs = hunks \<and> placed 0 gs \<and> split_lines original = woven old_side gs @ rest \<and>
              result = join_with newline (woven new_side gs @ rest)"
    using apply_hunks_Inr [of "split_lines original" 0 hunks out] by auto
next
  assume "\<exists>gs rest. map snd gs = hunks \<and> placed 0 gs \<and> split_lines original = woven old_side gs @ rest \<and>
              result = join_with newline (woven new_side gs @ rest)"
  then show "apply_unified_diff original hunks = Inr result"
    using apply_hunks_woven [of _ hunks 0 "split_lines original"] by (auto simp: apply_unified_diff_def)
qed

text \<open>C15: For hunks that have a context or deleted line each, applying a patch succeeds exactly when the text is
  the lines between the hunks with the context and deleted lines of each hunk, and the first old line of each
  hunk has in the text the number its header names (0 counts as 1); the result then has the context and inserted
  lines of each hunk in their place, and nothing else changed.\<close>

theorem apply_patch_iff:
  assumes "\<forall>h\<in>set hunks. old_side (hk_lines h) \<noteq> []"
  shows "apply_unified_diff original hunks = Inr result \<longleftrightarrow>
   (\<exists>gs rest. map snd gs = hunks \<and> split_lines original = woven old_side gs @ rest \<and>
      (\<forall>n<length gs. max 1 (old_start (hunks ! n)) = length (woven old_side (take n gs) @ fst (gs ! n)) + 1) \<and>
      result = join_with newline (woven new_side gs @ rest))"
  unfolding apply_patch_placed
proof (intro ex_cong1)
  fix gs rest
  show "map snd gs = hunks \<and> placed 0 gs \<and> split_lines original = woven old_side gs @ rest \<and>
      result = join_with newline (woven new_side gs @ rest) \<longleftrightarrow>
    map snd gs = hunks \<and> split_lines original = woven old_side gs @ rest \<and>
      (\<forall>n<length gs. max 1 (old_start (hunks ! n)) = length (woven old_side (take n gs) @ fst (gs ! n)) + 1) \<and>
      result = join_with newline (woven new_side gs @ rest)"
    using placed_iff [of 0 gs] by auto
qed

lemma apply_patch_iff_witness:
  "apply_unified_diff (lit ''a'' @ newline # lit ''b'')
     [\<lparr>old_start = 2, old_len = 1, new_start = 2, new_len = 1, hk_lines = [HDelete (lit ''b''), HInsert (lit ''c'')]\<rparr>] =
   Inr (lit ''a'' @ newline # lit ''c'')"
proof (subst apply_patch_iff)
  let ?h = "\<lparr>old_start = 2, old_len = 1, new_start = 2, new_len = 1, hk_lines = [HDelete (lit ''b''), HInsert (lit ''c'')]\<rparr>"
  show "\<exists>gs rest. map snd gs = [?h] \<and> split_lines (lit ''a'' @ newline # lit ''b'') = woven old_side gs @ rest \<and>
      (\<forall>n<length gs. max 1 (old_start ([?h] ! n)) = length (woven old_side (take n gs) @ fst (gs ! n)) + 1) \<and>
      lit ''a'' @ newline # lit ''c'' = join_with newline (woven new_side gs @ rest)"
    by (intro exI [of _ "[([lit ''a''], ?h)]"] exI [of _ "[]"]) (simp add: split_lines_def)
qed simp

text \<open>The line diff of two texts, taken as one hunk from line 1, patches the first text to the second.\<close>

theorem diff_then_patch:
  "apply_unified_diff a [\<lparr>old_start = 1, old_len = n, new_start = 1, new_len = m,
     hk_lines = map hunk_line_of (line_diff a b)\<rparr>] = Inr b"
proof -
  have sides: "olds (line_diff a b) = split_lines a" "news (line_diff a b) = split_lines b"
    using lcs.diff_sides by (simp_all add: line_diff_def Let_def)
  show ?thesis
    unfolding apply_patch_placed
    by (intro exI [of _ "[([], \<lparr>old_start = 1, old_len = n, new_start = 1, new_len = m,
          hk_lines = map hunk_line_of (line_diff a b)\<rparr>)]"] exI [of _ "[]"])
      (simp add: sides_of_diff sides, simp add: split_lines_def)
qed

text \<open>A patch whose header numbers are consistent (each second number is the first one moved by the lines the
  hunks before add) and whose lines have no line break in them can be undone: applied with its deletions and
  insertions exchanged to a result that is not empty, it gives back the original text.\<close>

theorem reversed_patch_undoes:
  assumes "apply_unified_diff original hunks = Inr result" "result \<noteq> []" "numbered 0 hunks"
    and "\<forall>h\<in>set hunks. \<forall>l\<in>set (hk_lines h). newline \<notin> set (line_text l)"
  shows "apply_unified_diff result (map reverse_hunk hunks) = Inr original"
proof -
  obtain gs rest where gs: "map snd gs = hunks" "placed 0 gs" "split_lines original = woven old_side gs @ rest"
    "result = join_with newline (woven new_side gs @ rest)"
    using assms(1) by (auto simp: apply_patch_placed)
  have lines: "newline \<notin> set l" if "l \<in> set (woven new_side gs @ rest)" for l
  proof -
    have "l \<in> set (woven old_side gs @ rest) \<or> (\<exists>h\<in>set (map snd gs). l \<in> line_text ` set (hk_lines h))"
      using that by (induction gs) (auto dest: new_side_text)
    then show ?thesis
    proof
      assume "l \<in> set (woven old_side gs @ rest)"
      then show ?thesis using split_on_parts [of l newline original] gs(3) by (simp add: split_lines_def)
    qed (use assms(4) gs(1) in auto)
  qed
  have ne: "woven new_side gs @ rest \<noteq> []" using gs(4) assms(2) by auto
  have "split_lines result = woven new_side gs @ rest"
    unfolding gs(4) split_lines_def by (rule split_join [OF ne lines])
  moreover have "placed 0 (map (\<lambda>(gap, h). (gap, reverse_hunk h)) gs)"
    using placed_reverse [OF gs(2), of 0 0] assms(3) gs(1) by simp
  moreover have "join_with newline (woven old_side gs @ rest) = original"
    using gs(3) by (simp add: split_lines_def flip: gs(3))
  ultimately show ?thesis
    unfolding apply_patch_placed using gs(1)
    by (intro exI [of _ "map (\<lambda>(gap, h). (gap, reverse_hunk h)) gs"] exI [of _ rest])
      (auto simp: woven_reverse)
qed

lemma reversed_patch_undoes_witness:
  "apply_unified_diff (lit ''a'' @ newline # lit ''c'')
     (map reverse_hunk [\<lparr>old_start = 2, old_len = 1, new_start = 2, new_len = 1,
        hk_lines = [HDelete (lit ''b''), HInsert (lit ''c'')]\<rparr>]) = Inr (lit ''a'' @ newline # lit ''b'')"
proof (rule reversed_patch_undoes)
  show "apply_unified_diff (lit ''a'' @ newline # lit ''b'') [\<lparr>old_start = 2, old_len = 1, new_start = 2, new_len = 1,
      hk_lines = [HDelete (lit ''b''), HInsert (lit ''c'')]\<rparr>] = Inr (lit ''a'' @ newline # lit ''c'')"
    by code_simp
qed simp_all

text \<open>Parsing reads back every printed patch: hunks with 64-bit numbers and lines without line breaks
  come back as they were, for every notion of white space that has the blank and none of the
  characters of a header.\<close>

theorem parse_print_roundtrip:
  assumes "plain_space space" "\<forall>h\<in>set hunks. printable h"
  shows "parse_unified_diff space (print_diff hunks) = hunks"
proof (cases "hunks = []")
  case True
  then show ?thesis by (simp add: parse_unified_diff_def print_diff_def)
next
  case False
  then have "concat (map print_hunk hunks) \<noteq> []" by (cases hunks) (simp_all add: print_hunk_def)
  then have "split_on newline (print_diff hunks) = concat (map print_hunk hunks)"
    unfolding print_diff_def
    by (rule split_join) (use print_no_newline assms(2) in auto)
  then show ?thesis using parse_hunks [OF assms, of None] by (simp add: parse_unified_diff_def)
qed

lemma parse_print_roundtrip_witness:
  "parse_unified_diff (\<lambda>c. c = 32) (print_diff
     [\<lparr>old_start = 12, old_len = 1, new_start = 12, new_len = 2, hk_lines = [HContext (lit ''a''), HInsert (lit ''b'')]\<rparr>,
      \<lparr>old_start = 40, old_len = 1, new_start = 41, new_len = 0, hk_lines = [HDelete (lit ''c'')]\<rparr>]) =
     [\<lparr>old_start = 12, old_len = 1, new_start = 12, new_len = 2, hk_lines = [HContext (lit ''a''), HInsert (lit ''b'')]\<rparr>,
      \<lparr>old_start = 40, old_len = 1, new_start = 41, new_len = 0, hk_lines = [HDelete (lit ''c'')]\<rparr>]"
proof (rule parse_print_roundtrip)
  show "plain_space (\<lambda>c. c = 32)" by code_simp
qed (simp add: printable_def)

section \<open>Where the patch code departs from the format\<close>

text \<open>
  A hunk that only inserts, as diffs without context have it, names the line it follows; the code
  inserts one line early, before that line.
\<close>

lemma insertion_hunk_lands_early:
  "apply_unified_diff (lit ''a'' @ newline # lit ''b'')
     (parse_unified_diff (\<lambda>c. c = 32) (lit ''@@ -1,0 +2 @@'' @ newline # lit ''+x'')) =
   Inr (lit ''x'' @ newline # lit ''a'' @ newline # lit ''b'')"
  by (simp add: parse_unified_diff_def split_whitespace.simps parse_range_def parse_usize_def is_digit_def
    apply_unified_diff_def split_lines_def slice_def)

text \<open>A diff text that ends with a line break gets one more context line, so it is refused.\<close>

lemma trailing_newline_refused:
  "apply_unified_diff (lit ''a'' @ newline # lit ''c'')
     (parse_unified_diff (\<lambda>c. c = 32) (lit ''@@ -1 +1 @@'' @ newline # lit ''-a'' @ newline # lit ''+b'' @ [newline])) =
   Inl (ContextMismatch 2)"
  by (simp add: parse_unified_diff_def split_whitespace.simps parse_range_def parse_usize_def is_digit_def
    apply_unified_diff_def split_lines_def slice_def)

end
