(* ===== verification/DiffMode.thy ===== *)
theory DiffMode
  imports MergeOps "HOL-Library.Monad_Syntax"
begin

text \<open>
  \<open>zmax-core/src/diffmode.rs\<close>: the parser behind diff-mode and its edits of a diff's text.  A string is
  the list of its characters; where the code cuts it at a byte that may lie within a character, the width
  of the characters in UTF-8 is counted.  \<open>None\<close> is a panic, also of a sum that overflows; the \<open>Option\<close>
  that a function returns is a second option within.  \<open>space\<close> is \<open>char::is_whitespace\<close>.
\<close>

section \<open>Data\<close>

datatype line_kind = KContext | KAdded | KRemoved | KHeader | KFileHeader | KHunkHeader

record dline =
  dl_kind :: line_kind
  dl_text :: str

record dhunk =
  dh_old_start :: nat
  dh_old_len :: nat
  dh_new_start :: nat
  dh_new_len :: nat
  dh_header :: str
  dh_lines :: "dline list"

record file_diff =
  fi_old_path :: str
  fi_new_path :: str
  fi_hunks :: "dhunk list"

type_synonym diff = "file_diff list"

section \<open>Strings\<close>

definition starts_with :: "string \<Rightarrow> str \<Rightarrow> bool" where
  "starts_with p s \<longleftrightarrow> take (length p) s = lit p"

definition ends_with :: "string \<Rightarrow> str \<Rightarrow> bool" where
  "ends_with p s \<longleftrightarrow> drop (length s - length p) s = lit p"

text \<open>\<open>str::find\<close> of the two signs \<open>@@\<close>.\<close>

fun find_signs :: "str \<Rightarrow> nat option" where
  "find_signs (a # b # s) = (if a = uc CHR ''@'' \<and> b = uc CHR ''@'' then Some 0 else map_option Suc (find_signs (b # s)))"
| "find_signs _ = None"

text \<open>\<open>str::lines\<close>: a line ends with a line feed, which may follow a carriage return.\<close>

definition strip_return :: "str \<Rightarrow> str" where
  "strip_return l = (if l \<noteq> [] \<and> last l = 13 then butlast l else l)"

definition str_lines :: "str \<Rightarrow> str list" where
  "str_lines s =
     (let ps = split_on newline s
      in map strip_return (butlast ps) @ (if last ps = [] then [] else [last ps]))"

definition char_bytes :: "uchar \<Rightarrow> nat" where
  "char_bytes c = (if c < 0x80 then 1 else if c < 0x800 then 2 else if c < 0x10000 then 3 else 4)"

definition byte_length :: "str \<Rightarrow> nat" where
  "byte_length s = sum_list (map char_bytes s)"

text \<open>\<open>&s[n..]\<close>, a panic where no character starts at the byte.\<close>

fun drop_bytes :: "nat \<Rightarrow> str \<Rightarrow> str option" where
  "drop_bytes 0 s = Some s"
| "drop_bytes (Suc n) [] = None"
| "drop_bytes (Suc n) (c # s) = (if char_bytes c \<le> Suc n then drop_bytes (Suc n - char_bytes c) s else None)"

section \<open>Parsing\<close>

definition clean_path :: "(uchar \<Rightarrow> bool) \<Rightarrow> str \<Rightarrow> str" where
  "clean_path space raw =
     (let path = trim space (hd (split_on 9 raw))
      in case strip_prefix (lit ''a/'') path of
           Some p \<Rightarrow> p
         | None \<Rightarrow> (case strip_prefix (lit ''b/'') path of Some p \<Rightarrow> p | None \<Rightarrow> path))"

definition parse_side :: "str \<Rightarrow> nat \<times> nat" where
  "parse_side s =
     (let ps = split_on (uc CHR '','') s
      in (case parse_usize (hd ps) of Some n \<Rightarrow> n | None \<Rightarrow> 0,
          case tl ps of [] \<Rightarrow> 1 | p # _ \<Rightarrow> (case parse_usize p of Some n \<Rightarrow> n | None \<Rightarrow> 1)))"

fun header_tokens :: "str list \<Rightarrow> (nat \<times> nat) \<times> (nat \<times> nat) \<Rightarrow> (nat \<times> nat) \<times> (nat \<times> nat)" where
  "header_tokens [] on = on"
| "header_tokens (tok # toks) (old, new) =
     header_tokens toks
       (case strip_prefix (lit ''-'') tok of
          Some r \<Rightarrow> (parse_side r, new)
        | None \<Rightarrow> (case strip_prefix (lit ''+'') tok of Some r \<Rightarrow> (old, parse_side r) | None \<Rightarrow> (old, new)))"

text \<open>The text between the first two signs: \<open>split("@@").nth(1)\<close>.\<close>

definition between_signs :: "str \<Rightarrow> str" where
  "between_signs line =
     (case find_signs line of
        None \<Rightarrow> []
      | Some i \<Rightarrow>
          let rest = drop (i + 2) line
          in case find_signs rest of None \<Rightarrow> rest | Some j \<Rightarrow> take j rest)"

definition parse_hunk_header :: "(uchar \<Rightarrow> bool) \<Rightarrow> str \<Rightarrow> nat \<times> nat \<times> nat \<times> nat" where
  "parse_hunk_header space line =
     (let ((os, ol), (ns, nl)) = header_tokens (split_whitespace space (trim space (between_signs line))) ((0, 1), (0, 1))
      in (os, ol, ns, nl))"

definition classify_body :: "str \<Rightarrow> line_kind" where
  "classify_body line =
     (case line of
        c # _ \<Rightarrow> if c = uc CHR ''+'' then KAdded else if c = uc CHR ''-'' then KRemoved else KContext
      | [] \<Rightarrow> KContext)"

text \<open>The state of the loop: the finished files, the file and the hunk at work.\<close>

definition flush_hunk :: "file_diff option \<Rightarrow> dhunk option \<Rightarrow> file_diff option" where
  "flush_hunk f h =
     (case (f, h) of (Some f, Some h) \<Rightarrow> Some (f\<lparr>fi_hunks := fi_hunks f @ [h]\<rparr>) | _ \<Rightarrow> f)"

definition flush_file :: "file_diff list \<Rightarrow> file_diff option \<Rightarrow> file_diff list" where
  "flush_file files f = (case f of Some f \<Rightarrow> files @ [f] | None \<Rightarrow> files)"

definition header_pair :: "str \<Rightarrow> str list \<Rightarrow> bool" where
  "header_pair line rest \<longleftrightarrow> starts_with ''--- '' line \<and> (case rest of l # _ \<Rightarrow> starts_with ''+++ '' l | [] \<Rightarrow> False)"

function parse_diff_loop ::
    "(uchar \<Rightarrow> bool) \<Rightarrow> str list \<Rightarrow> file_diff list \<Rightarrow> file_diff option \<Rightarrow> dhunk option \<Rightarrow> file_diff list" where
  "parse_diff_loop space [] files f h = flush_file files (flush_hunk f h)"
| "parse_diff_loop space (line # rest) files f h =
     (case strip_prefix (lit ''diff --git '') line of
        Some r \<Rightarrow>
          let parts = split_whitespace space r;
              old = (case parts of p # _ \<Rightarrow> clean_path space p | [] \<Rightarrow> []);
              new = (case parts of _ # q # _ \<Rightarrow> clean_path space q | _ \<Rightarrow> old)
          in parse_diff_loop space rest (flush_file files (flush_hunk f h))
               (Some \<lparr>fi_old_path = old, fi_new_path = new, fi_hunks = []\<rparr>) None
      | None \<Rightarrow>
          if header_pair line rest then
            let old = clean_path space (drop 4 line); new = clean_path space (drop 4 (hd rest));
                f = flush_hunk f h
            in case f of
                 Some g \<Rightarrow>
                   if fi_hunks g = []
                   then parse_diff_loop space (tl rest) files (Some (g\<lparr>fi_old_path := old, fi_new_path := new\<rparr>)) None
                   else parse_diff_loop space (tl rest) (flush_file files f)
                          (Some \<lparr>fi_old_path = old, fi_new_path = new, fi_hunks = []\<rparr>) None
               | None \<Rightarrow> parse_diff_loop space (tl rest) files
                          (Some \<lparr>fi_old_path = old, fi_new_path = new, fi_hunks = []\<rparr>) None
          else if starts_with ''@@'' line then
            let f = flush_hunk f h;
                f = (case f of None \<Rightarrow> Some \<lparr>fi_old_path = [], fi_new_path = [], fi_hunks = []\<rparr> | Some g \<Rightarrow> Some g);
                (os, ol, ns, nl) = parse_hunk_header space line
            in parse_diff_loop space rest files f
                 (Some \<lparr>dh_old_start = os, dh_old_len = ol, dh_new_start = ns, dh_new_len = nl, dh_header = line, dh_lines = []\<rparr>)
          else
            parse_diff_loop space rest files f
              (map_option (\<lambda>h. h\<lparr>dh_lines := dh_lines h @ [\<lparr>dl_kind = classify_body line, dl_text = line\<rparr>]\<rparr>) h))"
  by pat_completeness auto
termination
  by (relation "measure (\<lambda>(_, ls, _). length ls)") auto

definition parse_diff :: "(uchar \<Rightarrow> bool) \<Rightarrow> str \<Rightarrow> diff" where
  "parse_diff space text = parse_diff_loop space (str_lines text) [] None None"

definition hunk_count :: "diff \<Rightarrow> nat" where
  "hunk_count d = sum_list (map (\<lambda>f. length (fi_hunks f)) d)"

definition diff_stats :: "diff \<Rightarrow> nat \<times> nat" where
  "diff_stats d =
     (let ls = concat (map dh_lines (concat (map fi_hunks d)))
      in (length (filter (\<lambda>l. dl_kind l = KAdded) ls), length (filter (\<lambda>l. dl_kind l = KRemoved) ls)))"

text \<open>The arrow of the file header is the character \<open>U+2192\<close>.\<close>

definition flatten_file :: "file_diff \<Rightarrow> dline list" where
  "flatten_file f =
     [\<lparr>dl_kind = KFileHeader, dl_text = lit ''diff  '' @ fi_old_path f @ lit ''  '' @ [0x2192] @ lit ''  '' @ fi_new_path f\<rparr>,
      \<lparr>dl_kind = KHeader, dl_text = lit ''--- '' @ fi_old_path f\<rparr>,
      \<lparr>dl_kind = KHeader, dl_text = lit ''+++ '' @ fi_new_path f\<rparr>] @
     concat (map (\<lambda>h. \<lparr>dl_kind = KHunkHeader, dl_text = dh_header h\<rparr> # dh_lines h) (fi_hunks f))"

definition flatten_diff :: "diff \<Rightarrow> dline list" where
  "flatten_diff d = concat (map flatten_file d)"

section \<open>Moving between hunks\<close>

definition next_hunk_line :: "line_kind list \<Rightarrow> nat \<Rightarrow> nat option" where
  "next_hunk_line ks from = map_option (\<lambda>i. i + (from + 1)) (position (\<lambda>k. k = KHunkHeader) (drop (from + 1) ks))"

text \<open>The last index with a property, below the length.\<close>

definition last_position :: "('a \<Rightarrow> bool) \<Rightarrow> 'a list \<Rightarrow> nat option" where
  "last_position p xs = map_option (\<lambda>i. length xs - 1 - i) (position p (rev xs))"

definition prev_hunk_line :: "line_kind list \<Rightarrow> nat \<Rightarrow> nat option" where
  "prev_hunk_line ks from = last_position (\<lambda>k. k = KHunkHeader) (take from ks)"

definition hunk_bounds_at :: "line_kind list \<Rightarrow> nat \<Rightarrow> (nat \<times> nat) option" where
  "hunk_bounds_at ks at =
     (if ks = [] then None
      else
        let at = min at (length ks - 1);
            header = (\<lambda>k. k = KHunkHeader \<or> k = KFileHeader \<or> k = KHeader)
        in do {
          beg \<leftarrow> (if ks ! at = KHunkHeader then Some at
                  else case prev_hunk_line ks at of Some i \<Rightarrow> Some i | None \<Rightarrow> next_hunk_line ks at);
          Some (beg, case position header (drop (beg + 1) ks) of Some off \<Rightarrow> beg + 1 + off | None \<Rightarrow> length ks)
        })"

definition is_no_newline_marker :: "str \<Rightarrow> bool" where
  "is_no_newline_marker line = starts_with [CHR 0x5C] line"

text \<open>The index after a run of lines that starts at \<open>i\<close> and stays below \<open>end\<close>.\<close>

definition run_end :: "('a \<Rightarrow> bool) \<Rightarrow> 'a list \<Rightarrow> nat \<Rightarrow> nat \<Rightarrow> nat" where
  "run_end p xs fin i = i + length (takeWhile p (take (fin - i) (drop i xs)))"

lemma run_end_ge: "i \<le> run_end p xs fin i"
  by (simp add: run_end_def)

lemma run_end_gt: "i < fin \<Longrightarrow> i < length xs \<Longrightarrow> p (xs ! i) \<Longrightarrow> i < run_end p xs fin i"
  by (cases "drop i xs"; cases "fin - i") (auto simp: run_end_def nth_via_drop)

definition refine_step :: "dline list \<Rightarrow> nat \<Rightarrow> nat \<Rightarrow> ((nat \<times> nat) \<times> (nat \<times> nat)) list \<times> nat" where
  "refine_step ls fin i =
     (if dl_kind (ls ! i) \<noteq> KRemoved then ([], i + 1)
      else
        let del_end = run_end (\<lambda>l. dl_kind l = KRemoved) ls fin i;
            add = run_end (\<lambda>l. is_no_newline_marker (dl_text l)) ls fin del_end;
            add_end = run_end (\<lambda>l. dl_kind l = KAdded) ls fin add
        in if add_end = add then ([], del_end)
           else ([((i, del_end), (add, add_end))], run_end (\<lambda>l. is_no_newline_marker (dl_text l)) ls fin add_end))"

lemma refine_step_gt: "i < fin \<Longrightarrow> i < length ls \<Longrightarrow> i < snd (refine_step ls fin i)"
  by (auto simp: refine_step_def Let_def intro: run_end_gt less_le_trans [OF run_end_gt run_end_ge]
      less_le_trans [OF less_le_trans [OF less_le_trans [OF run_end_gt run_end_ge] run_end_ge] run_end_ge])

function refine_loop :: "dline list \<Rightarrow> nat \<Rightarrow> nat \<Rightarrow> ((nat \<times> nat) \<times> (nat \<times> nat)) list" where
  "refine_loop ls fin i =
     (if i < fin \<and> i < length ls
      then fst (refine_step ls fin i) @ refine_loop ls fin (snd (refine_step ls fin i))
      else [])"
  by auto
termination
  by (relation "measure (\<lambda>(ls, fin, i). fin - i)") (auto intro!: diff_less_mono2 refine_step_gt)

declare refine_loop.simps [simp del]

definition refine_runs :: "dline list \<Rightarrow> nat \<times> nat \<Rightarrow> ((nat \<times> nat) \<times> (nat \<times> nat)) list" where
  "refine_runs ls r = (let fin = min (snd r) (length ls) in refine_loop ls fin (min (fst r) fin))"

section \<open>The text of a diff as lines\<close>

definition to_lines :: "str \<Rightarrow> str list \<times> bool" where
  "to_lines text = (str_lines text, text \<noteq> [] \<and> last text = newline)"

definition from_lines :: "str list \<Rightarrow> bool \<Rightarrow> str" where
  "from_lines ls nl = (if ls = [] then [] else join_with newline ls @ (if nl then [newline] else []))"

fun file_starts :: "nat \<Rightarrow> bool \<Rightarrow> str list \<Rightarrow> nat list" where
  "file_starts i pending [] = []"
| "file_starts i pending (l # rest) =
     (if starts_with ''diff --git '' l \<or> starts_with ''Index: '' l then i # file_starts (i + 1) True rest
      else if header_pair l rest then (if pending then [] else [i]) @ file_starts (i + 1) False rest
      else file_starts (i + 1) (pending \<and> \<not> starts_with ''@@'' l) rest)"

definition file_start_lines :: "str list \<Rightarrow> nat list" where
  "file_start_lines ls = file_starts 0 False ls"

text \<open>From the last of some starts at or above \<open>at\<close>, or the first, to the next.\<close>

definition bounds_from :: "nat list \<Rightarrow> nat \<Rightarrow> nat \<Rightarrow> nat \<times> nat" where
  "bounds_from starts at fin =
     (let idx = (case last_position (\<lambda>s. s \<le> at) starts of Some i \<Rightarrow> i | None \<Rightarrow> 0)
      in (starts ! idx, if idx + 1 < length starts then starts ! (idx + 1) else fin))"

definition file_bounds_at :: "str list \<Rightarrow> nat list \<Rightarrow> nat \<Rightarrow> nat \<times> nat" where
  "file_bounds_at ls starts at = (if starts = [] then (0, length ls) else bounds_from starts at (length ls))"

definition file_line_bounds :: "str \<Rightarrow> nat \<Rightarrow> (nat \<times> nat) option" where
  "file_line_bounds text at_line =
     (let ls = fst (to_lines text)
      in if ls = [] then None
         else
           let at = min at_line (length ls - 1); starts = file_start_lines ls
           in if starts = [] then None else Some (file_bounds_at ls starts at))"

definition hunk_starts :: "str list \<Rightarrow> nat \<Rightarrow> nat \<Rightarrow> nat list" where
  "hunk_starts ls fs fe = filter (\<lambda>i. starts_with ''@@'' (ls ! i)) [fs..<fe]"

definition hunk_line_bounds :: "str \<Rightarrow> nat \<Rightarrow> (nat \<times> nat) option" where
  "hunk_line_bounds text at_line =
     (let ls = fst (to_lines text)
      in if ls = [] then None
         else
           let at = min at_line (length ls - 1);
               (fs, fe) = file_bounds_at ls (file_start_lines ls) at;
               starts = hunk_starts ls fs fe
           in if starts = [] then None else Some (bounds_from starts at fe))"

section \<open>Edits of a diff\<close>

text \<open>\<open>Vec::drain\<close> of a range in bounds.\<close>

definition drain :: "nat \<Rightarrow> nat \<Rightarrow> 'a list \<Rightarrow> 'a list" where
  "drain a b xs = take a xs @ drop b xs"

definition diff_hunk_kill :: "str \<Rightarrow> nat \<Rightarrow> str option" where
  "diff_hunk_kill text at_line =
     (let (ls, nl) = to_lines text
      in if ls = [] then None
         else
           let at = min at_line (length ls - 1);
               (fs, fe) = file_bounds_at ls (file_start_lines ls) at;
               starts = hunk_starts ls fs fe
           in if starts = [] then None
              else
                let (rs, re) = (if length starts = 1 then (fs, fe) else bounds_from starts at fe)
                in Some (from_lines (drain rs re ls) nl))"

definition diff_file_kill :: "str \<Rightarrow> nat \<Rightarrow> str option" where
  "diff_file_kill text at_line =
     (let (ls, nl) = to_lines text
      in if ls = [] then None
         else
           let at = min at_line (length ls - 1); starts = file_start_lines ls
           in if starts = [] then None
              else let (fs, fe) = file_bounds_at ls starts at in Some (from_lines (drain fs fe ls) nl))"

text \<open>What a body line counts for on the old and the new side.\<close>

definition counts_old :: "str \<Rightarrow> bool" where
  "counts_old l \<longleftrightarrow> \<not> starts_with ''+'' l \<and> \<not> is_no_newline_marker l"

definition counts_new :: "str \<Rightarrow> bool" where
  "counts_new l \<longleftrightarrow> \<not> starts_with ''-'' l \<and> \<not> is_no_newline_marker l"

definition count_old_new :: "str list \<Rightarrow> nat \<times> nat" where
  "count_old_new body = (length (filter counts_old body), length (filter counts_new body))"

definition hunk_header :: "nat \<Rightarrow> nat \<Rightarrow> nat \<Rightarrow> nat \<Rightarrow> str" where
  "hunk_header os ol ns nl =
     lit ''@@ -'' @ decimal os @ lit '','' @ decimal ol @ lit '' +'' @ decimal ns @ lit '','' @ decimal nl @ lit '' @@''"

definition diff_split_hunk :: "(uchar \<Rightarrow> bool) \<Rightarrow> str \<Rightarrow> nat \<Rightarrow> str option option" where
  "diff_split_hunk space text at_line =
     (let (ls, nl) = to_lines text
      in if ls = [] then Some None
         else
           let at = min at_line (length ls - 1)
           in case hunk_line_bounds text at of
                None \<Rightarrow> Some None
              | Some (hs, he) \<Rightarrow>
                  if \<not> starts_with ''@@'' (ls ! hs) \<or> at \<le> hs \<or> he \<le> at then Some None
                  else
                    let (os, _, ns, _) = parse_hunk_header space (ls ! hs);
                        first = slice ls (hs + 1) at; second = slice ls at he
                    in if first = [] \<or> second = [] then Some None
                       else
                         let (fo, fn) = count_old_new first; (so, sn) = count_old_new second
                         in do {
                              os2 \<leftarrow> checked_u64 (os + fo);
                              ns2 \<leftarrow> checked_u64 (ns + fn);
                              Some (Some (from_lines (take hs ls @ [hunk_header os fo ns fn] @ first @
                                [hunk_header os2 so ns2 sn] @ second @ drop he ls) nl))
                            })"

fun raw_tokens :: "str list \<Rightarrow> str option \<times> str option \<Rightarrow> str option \<times> str option" where
  "raw_tokens [] on = on"
| "raw_tokens (tok # toks) (old, new) =
     raw_tokens toks
       (case strip_prefix (lit ''-'') tok of
          Some r \<Rightarrow> (Some r, new)
        | None \<Rightarrow> (case strip_prefix (lit ''+'') tok of Some r \<Rightarrow> (old, Some r) | None \<Rightarrow> (old, new)))"

definition split_hunk_header_raw :: "(uchar \<Rightarrow> bool) \<Rightarrow> str \<Rightarrow> (str \<times> str \<times> str) option" where
  "split_hunk_header_raw space l = do {
     after \<leftarrow> strip_prefix (lit ''@@'') l;
     close \<leftarrow> find_signs after;
     let (old, new) = raw_tokens (split_whitespace space (take close after)) (None, None);
     old \<leftarrow> old;
     new \<leftarrow> new;
     Some (old, new, drop (close + 2) after)
   }"

definition turn_sign :: "str \<Rightarrow> str" where
  "turn_sign l = (if starts_with ''+'' l then lit ''-'' @ tl l else if starts_with ''-'' l then lit ''+'' @ tl l else l)"

fun reverse_lines :: "(uchar \<Rightarrow> bool) \<Rightarrow> str list \<Rightarrow> str list" where
  "reverse_lines space [] = []"
| "reverse_lines space (l # rest) =
     (if header_pair l rest
      then (lit ''--- '' @ drop 4 (hd rest)) # (lit ''+++ '' @ drop 4 l) # reverse_lines space (tl rest)
      else
        (case split_hunk_header_raw space l of
           Some (old, new, after) \<Rightarrow> lit ''@@ -'' @ new @ lit '' +'' @ old @ lit '' @@'' @ after
         | None \<Rightarrow> turn_sign l) # reverse_lines space rest)"

definition diff_reverse_direction :: "(uchar \<Rightarrow> bool) \<Rightarrow> str \<Rightarrow> str" where
  "diff_reverse_direction space text = (let (ls, nl) = to_lines text in from_lines (reverse_lines space ls) nl)"

section \<open>Context diffs\<close>

definition ctx_range :: "nat \<Rightarrow> nat \<Rightarrow> str option" where
  "ctx_range start len =
     (if len = 0 then Some (decimal (start - 1) @ lit '',0'')
      else map_option (\<lambda>e. decimal start @ lit '','' @ decimal (e - 1)) (checked_u64 (start + len)))"

definition ctxify :: "str \<Rightarrow> str" where
  "ctxify l = (case l of c # r \<Rightarrow> [c] @ lit '' '' @ r | [] \<Rightarrow> lit ''  '')"

text \<open>The lines of a hunk: up to the next header.\<close>

fun hunk_body :: "str list \<Rightarrow> str list" where
  "hunk_body [] = []"
| "hunk_body (l # rest) =
     (if starts_with ''@@'' l \<or> starts_with ''diff --git '' l \<or> starts_with ''Index: '' l \<or> header_pair l rest then []
      else l # hunk_body rest)"

definition ctx_side :: "string \<Rightarrow> str list \<Rightarrow> str list" where
  "ctx_side other body =
     concat (map (\<lambda>b. if starts_with other b then [] else if is_no_newline_marker b then [b] else [ctxify b]) body)"

definition context_hunk :: "(uchar \<Rightarrow> bool) \<Rightarrow> str \<Rightarrow> str list \<Rightarrow> str list option" where
  "context_hunk space header body = do {
     let (os, ol, ns, nl) = parse_hunk_header space header;
     old \<leftarrow> ctx_range os ol;
     new \<leftarrow> ctx_range ns nl;
     Some ([lit ''***************'', lit ''*** '' @ old @ lit '' ****''] @
       (if list_ex (starts_with ''-'') body then ctx_side ''+'' body else []) @
       [lit ''--- '' @ new @ lit '' ----''] @
       (if list_ex (starts_with ''+'') body then ctx_side ''-'' body else []))
   }"

lemma length_hunk_body: "length (hunk_body ls) \<le> length ls"
  by (induction ls) auto

function to_context_lines :: "(uchar \<Rightarrow> bool) \<Rightarrow> str list \<Rightarrow> str list option" where
  "to_context_lines space [] = Some []"
| "to_context_lines space (l # rest) =
     (if header_pair l rest
      then map_option (\<lambda>out. (lit ''*** '' @ drop 4 l) # (lit ''--- '' @ drop 4 (hd rest)) # out) (to_context_lines space (tl rest))
      else if starts_with ''@@'' l then do {
        h \<leftarrow> context_hunk space l (hunk_body rest);
        out \<leftarrow> to_context_lines space (drop (length (hunk_body rest)) rest);
        Some (h @ out)
      }
      else map_option ((#) l) (to_context_lines space rest))"
  by pat_completeness auto
termination
  by (relation "measure (\<lambda>(_, ls). length ls)") auto

definition diff_unified_to_context :: "(uchar \<Rightarrow> bool) \<Rightarrow> str \<Rightarrow> str option" where
  "diff_unified_to_context space text =
     (let (ls, nl) = to_lines text in map_option (\<lambda>out. from_lines out nl) (to_context_lines space ls))"

definition is_asterisk_sep :: "str \<Rightarrow> bool" where
  "is_asterisk_sep l \<longleftrightarrow> 5 \<le> length l \<and> list_all (\<lambda>c. c = uc CHR ''*'') l"

definition parse_ctx_range :: "(uchar \<Rightarrow> bool) \<Rightarrow> str \<Rightarrow> nat \<times> nat" where
  "parse_ctx_range space s =
     (let tok = (case split_whitespace space s of t # _ \<Rightarrow> t | [] \<Rightarrow> []);
          ps = split_on (uc CHR '','') tok;
          a = (case parse_usize (hd ps) of Some n \<Rightarrow> n | None \<Rightarrow> 0)
      in (a, case tl ps of [] \<Rightarrow> a | p # _ \<Rightarrow> (case parse_usize p of Some n \<Rightarrow> n | None \<Rightarrow> a)))"

definition unified_from_ctx_range :: "nat \<times> nat \<Rightarrow> (nat \<times> nat) option" where
  "unified_from_ctx_range r =
     (let (a, b) = r
      in if a \<le> b then map_option (\<lambda>len. (a, len)) (checked_u64 (b - a + 1))
         else map_option (\<lambda>start. (start, 0)) (checked_u64 (a + 1)))"

datatype ctx_kind = CtxSame | CtxMinus | CtxPlus | CtxBang

definition ctx_entry :: "str \<Rightarrow> (ctx_kind \<times> str) option" where
  "ctx_entry l = do {
     content \<leftarrow> (if 2 \<le> byte_length l then drop_bytes 2 l else Some []);
     Some (if starts_with ''-'' l then CtxMinus else if starts_with ''+'' l then CtxPlus
           else if starts_with ''!'' l then CtxBang else CtxSame, content)
   }"

text \<open>
  One entry at a time: the runs of the inner loops are steps of the same recursion.  Every step takes an
  entry, so the \<open>break\<close> is never reached.
\<close>

fun merge_context_sides :: "(ctx_kind \<times> str) list \<Rightarrow> (ctx_kind \<times> str) list \<Rightarrow> str list" where
  "merge_context_sides [] [] = []"
| "merge_context_sides (x # xs) ys =
     (if fst x = CtxSame then
        (case ys of
           [] \<Rightarrow> (lit '' '' @ snd x) # merge_context_sides xs []
         | y # rest \<Rightarrow>
             if fst y = CtxSame then (lit '' '' @ snd x) # merge_context_sides xs rest
             else (lit ''+'' @ snd y) # merge_context_sides (x # xs) rest)
      else (lit ''-'' @ snd x) # merge_context_sides xs ys)"
| "merge_context_sides [] (y # ys) =
     (if fst y = CtxSame then lit '' '' @ snd y else lit ''+'' @ snd y) # merge_context_sides [] ys"

definition old_range_line :: "(uchar \<Rightarrow> bool) \<Rightarrow> str \<Rightarrow> bool" where
  "old_range_line space l \<longleftrightarrow> starts_with ''*** '' l \<and> ends_with ''****'' (rev (dropWhile space (rev l)))"

definition new_range_line :: "(uchar \<Rightarrow> bool) \<Rightarrow> str \<Rightarrow> bool" where
  "new_range_line space l \<longleftrightarrow> starts_with ''--- '' l \<and> ends_with ''----'' (rev (dropWhile space (rev l)))"

definition ctx_header_pair :: "(uchar \<Rightarrow> bool) \<Rightarrow> str \<Rightarrow> str list \<Rightarrow> bool" where
  "ctx_header_pair space l rest \<longleftrightarrow>
     starts_with ''*** '' l \<and> \<not> old_range_line space l \<and>
     (case rest of m # _ \<Rightarrow> starts_with ''--- '' m \<and> \<not> new_range_line space m | [] \<Rightarrow> False)"

definition ctx_new_ends :: "str \<Rightarrow> bool" where
  "ctx_new_ends l \<longleftrightarrow> is_asterisk_sep l \<or> starts_with ''*** '' l \<or> starts_with ''diff --git '' l \<or> starts_with ''Index: '' l"

text \<open>One block of a context diff, and the lines after it.\<close>

definition unified_hunk :: "(uchar \<Rightarrow> bool) \<Rightarrow> str \<Rightarrow> str list \<Rightarrow> (str list \<times> str list) option" where
  "unified_hunk space l rest = do {
     let oblock = takeWhile (\<lambda>m. \<not> new_range_line space m) rest;
     let after = dropWhile (\<lambda>m. \<not> new_range_line space m) rest;
     let new_r = (case after of m # _ \<Rightarrow> parse_ctx_range space (drop 4 m) | [] \<Rightarrow> (0, 0));
     let nblock = takeWhile (\<lambda>m. \<not> ctx_new_ends m) (tl after);
     xs \<leftarrow> those (map ctx_entry oblock);
     ys \<leftarrow> those (map ctx_entry nblock);
     (os, ol) \<leftarrow> unified_from_ctx_range (parse_ctx_range space (drop 4 l));
     (ns, nl) \<leftarrow> unified_from_ctx_range new_r;
     Some (hunk_header os ol ns nl # merge_context_sides xs ys,
           dropWhile (\<lambda>m. \<not> ctx_new_ends m) (tl after))
   }"

lemma unified_hunk_shorter: "unified_hunk space l rest = Some (h, after) \<Longrightarrow> length after \<le> length rest"
proof -
  assume h: "unified_hunk space l rest = Some (h, after)"
  let ?d = "dropWhile (\<lambda>m. \<not> new_range_line space m) rest"
  have "after = dropWhile (\<lambda>m. \<not> ctx_new_ends m) (tl ?d)"
    using h by (auto simp: unified_hunk_def Let_def bind_eq_Some_conv split: prod.splits)
  then have "length after \<le> length (tl ?d)" by (simp only: length_dropWhile_le)
  also have "\<dots> \<le> length ?d" by simp
  also have "\<dots> \<le> length rest" by (rule length_dropWhile_le)
  finally show ?thesis .
qed

function to_unified_lines :: "(uchar \<Rightarrow> bool) \<Rightarrow> str list \<Rightarrow> str list option" where
  "to_unified_lines space [] = Some []"
| "to_unified_lines space (l # rest) =
     (if ctx_header_pair space l rest
      then map_option (\<lambda>out. (lit ''--- '' @ drop 4 l) # (lit ''+++ '' @ drop 4 (hd rest)) # out) (to_unified_lines space (tl rest))
      else if is_asterisk_sep l then to_unified_lines space rest
      else if old_range_line space l then
        (case unified_hunk space l rest of
           None \<Rightarrow> None
         | Some (h, after) \<Rightarrow> map_option ((@) h) (to_unified_lines space after))
      else map_option ((#) l) (to_unified_lines space rest))"
  by pat_completeness auto
termination
  by (relation "measure (\<lambda>(_, ls). length ls)") (auto dest: unified_hunk_shorter)

definition diff_context_to_unified :: "(uchar \<Rightarrow> bool) \<Rightarrow> str \<Rightarrow> str option" where
  "diff_context_to_unified space text =
     (let (ls, nl) = to_lines text in map_option (\<lambda>out. from_lines out nl) (to_unified_lines space ls))"

section \<open>Whitespace and fresh diffs\<close>

definition delete_trailing :: "str \<Rightarrow> str" where
  "delete_trailing l =
     (if starts_with ''+'' l \<and> \<not> starts_with ''+++'' l
      then lit ''+'' @ rev (dropWhile (\<lambda>c. c = 32 \<or> c = 9) (rev (tl l)))
      else l)"

definition diff_delete_trailing_whitespace :: "str \<Rightarrow> str" where
  "diff_delete_trailing_whitespace text = (let (ls, nl) = to_lines text in from_lines (map delete_trailing ls) nl)"

definition squeeze :: "(uchar \<Rightarrow> bool) \<Rightarrow> str \<Rightarrow> str" where
  "squeeze space s = filter (\<lambda>c. \<not> space c) s"

text \<open>The pairs of one run, with the real changes that wait to be written; then the unpaired lines.\<close>

fun ignore_pairs :: "(uchar \<Rightarrow> bool) \<Rightarrow> str list \<Rightarrow> str list \<Rightarrow> str list \<Rightarrow> str list \<Rightarrow> str list" where
  "ignore_pairs space pd pa (d # ds) (a # as) =
     (if tl d \<noteq> tl a \<and> squeeze space (tl d) = squeeze space (tl a)
      then pd @ pa @ [lit '' '' @ tl d] @ ignore_pairs space [] [] ds as
      else ignore_pairs space (pd @ [d]) (pa @ [a]) ds as)"
| "ignore_pairs space pd pa ds as = pd @ ds @ pa @ as"

function ignore_runs :: "(uchar \<Rightarrow> bool) \<Rightarrow> str list \<Rightarrow> str list" where
  "ignore_runs space [] = []"
| "ignore_runs space (l # rest) =
     (if \<not> starts_with ''-'' l then l # ignore_runs space rest
      else
        let dels = takeWhile (starts_with ''-'') (l # rest); more = dropWhile (starts_with ''-'') (l # rest)
        in ignore_pairs space [] [] dels (takeWhile (starts_with ''+'') more) @
           ignore_runs space (dropWhile (starts_with ''+'') more))"
  by pat_completeness auto
termination
  by (relation "measure (\<lambda>(_, ls). length ls)")
    (auto simp: less_Suc_eq_le intro: order.trans [OF length_dropWhile_le length_dropWhile_le])

text \<open>What \<open>diff_ignore_whitespace_hunk\<close> and \<open>diff_refresh_hunk\<close> share: a new body for the hunk at a line.\<close>

definition rewrite_hunk :: "(uchar \<Rightarrow> bool) \<Rightarrow> (str list \<Rightarrow> str list) \<Rightarrow> str \<Rightarrow> nat \<Rightarrow> str option" where
  "rewrite_hunk space f text at_line =
     (let (ls, nl) = to_lines text
      in if ls = [] then None
         else
           case hunk_line_bounds text (min at_line (length ls - 1)) of
             None \<Rightarrow> None
           | Some (hs, he) \<Rightarrow>
               if \<not> starts_with ''@@'' (ls ! hs) then None
               else
                 let (os, _, ns, _) = parse_hunk_header space (ls ! hs);
                     body = slice ls (hs + 1) he; out_body = f body
                 in if out_body = body then Some text
                    else
                      let (old, new) = count_old_new out_body
                      in Some (from_lines (take hs ls @ [hunk_header os old ns new] @ out_body @ drop he ls) nl))"

definition diff_ignore_whitespace_hunk :: "(uchar \<Rightarrow> bool) \<Rightarrow> str \<Rightarrow> nat \<Rightarrow> str option" where
  "diff_ignore_whitespace_hunk space text at_line = rewrite_hunk space (ignore_runs space) text at_line"

function rediff_walk :: "str list \<Rightarrow> str list \<Rightarrow> nat list list \<Rightarrow> nat \<Rightarrow> nat \<Rightarrow> str list" where
  "rediff_walk old new lcs i j =
     (if i < length old \<and> j < length new then
        (if old ! i = new ! j then (lit '' '' @ old ! i) # rediff_walk old new lcs (i + 1) (j + 1)
         else if lcs ! i ! (j + 1) \<le> lcs ! (i + 1) ! j then (lit ''-'' @ old ! i) # rediff_walk old new lcs (i + 1) j
         else (lit ''+'' @ new ! j) # rediff_walk old new lcs i (j + 1))
      else map ((@) (lit ''-'')) (drop i old) @ map ((@) (lit ''+'')) (drop j new))"
  by pat_completeness auto
termination
  by (relation "measure (\<lambda>(old, new, lcs, i, j). (length old - i) + (length new - j))") auto

declare rediff_walk.simps [simp del]

text \<open>The table is that of \<open>lcs_pairs\<close>, filled by the same two loops.\<close>

definition rediff_lines :: "str list \<Rightarrow> str list \<Rightarrow> str list" where
  "rediff_lines old new =
     (if 2000 < length old \<or> 2000 < length new then map ((@) (lit ''-'')) old @ map ((@) (lit ''+'')) new
      else rediff_walk old new (dp_table old new) 0 0)"

definition hunk_old :: "str list \<Rightarrow> str list" where
  "hunk_old body = map tl (filter counts_old body)"

definition hunk_new :: "str list \<Rightarrow> str list" where
  "hunk_new body = map tl (filter counts_new body)"

definition diff_refresh_hunk :: "(uchar \<Rightarrow> bool) \<Rightarrow> str \<Rightarrow> nat \<Rightarrow> str option" where
  "diff_refresh_hunk space text at_line =
     rewrite_hunk space (\<lambda>body. rediff_lines (hunk_old body) (hunk_new body)) text at_line"

section \<open>Applying a hunk\<close>

text \<open>\<open>dl.text.get(1..).unwrap_or("")\<close>\<close>

definition line_content :: "dline \<Rightarrow> str" where
  "line_content l = (case drop_bytes 1 (dl_text l) of Some s \<Rightarrow> s | None \<Rightarrow> [])"

definition old_image :: "dhunk \<Rightarrow> str list" where
  "old_image h = map line_content (filter (\<lambda>l. \<not> is_no_newline_marker (dl_text l) \<and> (dl_kind l = KContext \<or> dl_kind l = KRemoved)) (dh_lines h))"

definition new_image :: "dhunk \<Rightarrow> str list" where
  "new_image h = map line_content (filter (\<lambda>l. \<not> is_no_newline_marker (dl_text l) \<and> (dl_kind l = KContext \<or> dl_kind l = KAdded)) (dh_lines h))"

definition matches_at :: "str list \<Rightarrow> str list \<Rightarrow> nat \<Rightarrow> bool option" where
  "matches_at img ls p = map_option (\<lambda>e. e \<le> length ls \<and> slice ls p e = img) (checked_u64 (p + length img))"

text \<open>The first place at or after \<open>p\<close> and up to \<open>fin\<close>.\<close>

function find_image :: "str list \<Rightarrow> str list \<Rightarrow> nat \<Rightarrow> nat \<Rightarrow> nat option option" where
  "find_image img ls p fin =
     (if fin < p then Some None
      else do {
        m \<leftarrow> matches_at img ls p;
        (if m then Some (Some p) else find_image img ls (p + 1) fin)
      })"
  by auto
termination
  by (relation "measure (\<lambda>(_, _, p, fin). Suc fin - p)") auto

declare find_image.simps [simp del]

definition apply_hunk :: "str \<Rightarrow> dhunk \<Rightarrow> (str + str) option" where
  "apply_hunk target h =
     (let (ls, nl) = to_lines target; old = old_image h; new = new_image h
      in if old = [] then
           let pos = min (dh_old_start h) (length ls)
           in Some (Inr (from_lines (take pos ls @ new @ drop pos ls) nl))
         else do {
           let want = dh_old_start h - 1;
           here \<leftarrow> matches_at old ls want;
           pos \<leftarrow> (if here then Some (Some want) else find_image old ls 0 (length ls - length old));
           (case pos of
              None \<Rightarrow> Some (Inl (lit ''hunk does not apply (context mismatch)''))
            | Some pos \<Rightarrow> Some (Inr (from_lines (take pos ls @ new @ drop (pos + length old) ls) nl)))
         })"

fun apply_hunks_back :: "str \<Rightarrow> dhunk list \<Rightarrow> (str + str) option" where
  "apply_hunks_back cur [] = Some (Inr cur)"
| "apply_hunks_back cur (h # hs) = do {
     r \<leftarrow> apply_hunk cur h;
     (case r of Inl e \<Rightarrow> Some (Inl e) | Inr cur \<Rightarrow> apply_hunks_back cur hs)
   }"

definition apply_file_diff :: "str \<Rightarrow> file_diff \<Rightarrow> (str + str) option" where
  "apply_file_diff target f = apply_hunks_back target (rev (fi_hunks f))"

end
