(* ===== verification/DiffLaws.thy ===== *)
theory DiffLaws
  imports DiffMode Patches
begin

text \<open>
  Laws of diff mode: a text is its lines, headers and bodies parse back, hunks that fit a text apply to it,
  and the edits of a diff change one hunk of it.
\<close>

section \<open>Lines\<close>

definition clean_line :: "str \<Rightarrow> bool" where
  "clean_line l \<longleftrightarrow> newline \<notin> set l \<and> (l = [] \<or> last l \<noteq> 13)"

lemma strip_return_clean [simp]: "clean_line l \<Longrightarrow> strip_return l = l"
  by (auto simp: clean_line_def strip_return_def)

lemma join_with_snoc: "ls \<noteq> [] \<Longrightarrow> join_with c (ls @ [y]) = join_with c ls @ c # y"
proof (induction ls)
  case (Cons l ls)
  then show ?case by (cases "ls = []") (simp_all add: join_with_Cons)
qed simp

lemma str_lines_join:
  assumes "ls \<noteq> []" "list_all clean_line ls"
  shows "str_lines (join_with newline ls @ [newline]) = ls"
proof -
  have "split_on newline (join_with newline (ls @ [[]])) = ls @ [[]]"
    using assms by (intro split_join) (auto simp: clean_line_def list_all_iff)
  moreover have "map strip_return ls = ls" using assms(2) by (simp add: list_all_iff map_idI)
  ultimately show ?thesis by (simp add: join_with_snoc [OF assms(1)] str_lines_def)
qed

lemma to_from_lines:
  "ls \<noteq> [] \<Longrightarrow> list_all clean_line ls \<Longrightarrow> to_lines (from_lines ls True) = (ls, True)"
  by (simp add: to_lines_def from_lines_def str_lines_join)

lemma from_to_lines:
  assumes "list_all (\<lambda>l. strip_return l = l) (split_on newline s)"
  shows "from_lines (fst (to_lines s)) (snd (to_lines s)) = s"
proof -
  define bs l where "bs = butlast (split_on newline s)" and "l = last (split_on newline s)"
  have ps: "split_on newline s = bs @ [l]" by (simp add: bs_def l_def)
  then have s: "join_with newline (bs @ [l]) = s" by (metis join_split)
  have "newline \<notin> set l" using ps by (metis in_set_conv_decomp split_on_parts)
  moreover have "map strip_return bs = bs" using assms by (auto simp: list_all_iff ps intro!: map_idI)
  moreover have "s = (if bs = [] then l else join_with newline bs @ newline # l)"
    using s by (auto simp: join_with_snoc)
  ultimately have ls: "str_lines s = bs @ (if l = [] then [] else [l])" and
      e: "s \<noteq> [] \<and> last s = newline \<longleftrightarrow> bs \<noteq> [] \<and> l = []" and
      s': "s = (if bs = [] then l else join_with newline bs @ newline # l)"
    using ps by (auto simp: str_lines_def) (metis last_in_set)+
  show ?thesis
    unfolding to_lines_def fst_conv snd_conv ls e using s s' by (cases "l = []") (auto simp: from_lines_def)
qed

section \<open>Bodies and headers\<close>

text \<open>A body line has a sign; no two of a body look like the header of a file.\<close>

definition signed :: "str \<Rightarrow> bool" where
  "signed l \<longleftrightarrow> (case l of c # _ \<Rightarrow> c = 32 \<or> c = 43 \<or> c = 45 \<or> c = 92 | [] \<Rightarrow> False)"

fun pair_free :: "str list \<Rightarrow> bool" where
  "pair_free [] = True"
| "pair_free (l # ls) = (\<not> header_pair l ls \<and> pair_free ls)"

definition body_ok :: "str list \<Rightarrow> bool" where
  "body_ok body \<longleftrightarrow> list_all signed body \<and> pair_free body"

lemma signed_cases:
  assumes "signed l"
  obtains (context_line) s where "l = 32 # s" | (added) s where "l = 43 # s" | (removed) s where "l = 45 # s"
    | (marker) s where "l = 92 # s"
  using assms by (cases l) (auto simp: signed_def)

lemma starts_with_simps [simp]:
  "starts_with [] l" "starts_with (c # p) (x # l) \<longleftrightarrow> x = uc c \<and> starts_with p l" "\<not> starts_with (c # p) []"
  by (auto simp: starts_with_def)

lemma signed_facts:
  assumes "signed l"
  shows "strip_prefix (lit ''diff --git '') l = None" "\<not> starts_with ''@@'' l" "strip_prefix (lit ''@@'') l = None"
    "\<not> starts_with ''diff --git '' l" "\<not> starts_with ''Index: '' l"
  using assms by (auto elim!: signed_cases)

lemma header_pair_append:
  "(case tail of m # _ \<Rightarrow> \<not> starts_with ''+++ '' m | [] \<Rightarrow> True) \<Longrightarrow> header_pair l (ls @ tail) = header_pair l ls"
  by (cases ls; cases tail) (auto simp: header_pair_def)

definition body_dline :: "str \<Rightarrow> dline" where
  "body_dline l = \<lparr>dl_kind = classify_body l, dl_text = l\<rparr>"

definition hunk_lines :: "dhunk \<Rightarrow> str list" where
  "hunk_lines h = dh_header h # map dl_text (dh_lines h)"

text \<open>A hunk as it is printed, with numbers of 64 bits.\<close>

definition printed :: "dhunk \<Rightarrow> bool" where
  "printed h \<longleftrightarrow>
     dh_header h = hunk_header (dh_old_start h) (dh_old_len h) (dh_new_start h) (dh_new_len h) \<and>
     dh_old_start h < 2 ^ 64 \<and> dh_old_len h < 2 ^ 64 \<and> dh_new_start h < 2 ^ 64 \<and> dh_new_len h < 2 ^ 64 \<and>
     (\<exists>body. body_ok body \<and> dh_lines h = map body_dline body)"

lemma dl_text_body [simp]: "dl_text (body_dline l) = l" "dl_kind (body_dline l) = classify_body l"
  by (simp_all add: body_dline_def)

lemma hunk_header_ranges:
  "hunk_header os ol ns nl = lit ''@@'' @ (32 # (45 # print_range os ol) @ 32 # (43 # print_range ns nl) @ [32]) @ lit ''@@''"
  by (simp add: hunk_header_def print_range_def)

lemma no_sign_range: "64 \<notin> set (print_range a b)"
  using decimal_digits [of 64 a] decimal_digits [of 64 b] by (auto simp: print_range_def)

lemma find_signs_word: "64 \<notin> set w \<Longrightarrow> find_signs (w @ 64 # 64 # r) = Some (length w)"
proof (induction w)
  case (Cons c w)
  then show ?case by (cases w) auto
qed simp

lemma find_signs_end: "64 \<notin> set w \<Longrightarrow> find_signs (w @ lit ''@@'') = Some (length w)"
  by (simp add: find_signs_word)

lemma between_signs_word: "64 \<notin> set w \<Longrightarrow> between_signs (lit ''@@'' @ w @ lit ''@@'') = w"
  by (simp add: between_signs_def find_signs_word)

lemma split_whitespace_blank: "space b \<Longrightarrow> split_whitespace space (w @ [b]) = split_whitespace space w"
proof (induction space w rule: split_whitespace.induct)
  case (1 space s)
  show ?case
  proof (cases "dropWhile space s")
    case Nil
    then have "dropWhile space (s @ [b]) = []" using 1 by (simp add: dropWhile_eq_Nil_conv)
    then show ?thesis
      unfolding split_whitespace.simps [of space s] split_whitespace.simps [of space "s @ [b]"] Nil by simp
  next
    case (Cons c cs)
    then have d: "dropWhile space (s @ [b]) = c # cs @ [b]"
      by (metis append_Cons dropWhile_append dropWhile_eq_Nil_conv list.discI set_dropWhileD)
    have t: "takeWhile (\<lambda>x. \<not> space x) (cs @ [b]) = takeWhile (\<lambda>x. \<not> space x) cs"
      using 1(2) by (induction cs) auto
    have e: "dropWhile (\<lambda>x. \<not> space x) (cs @ [b]) = dropWhile (\<lambda>x. \<not> space x) cs @ [b]"
      using 1(2) by (auto simp: dropWhile_append)
    show ?thesis
      unfolding split_whitespace.simps [of space s] split_whitespace.simps [of space "s @ [b]"]
      using 1(1) [OF Cons 1(2)] Cons d t e by simp
  qed
qed

lemma split_whitespace_trim: "split_whitespace space (trim space s) = split_whitespace space s"
proof -
  have cut: "split_whitespace space (w @ t) = split_whitespace space w" if "list_all space t" for w t
    using that
  proof (induction t rule: rev_induct)
    case (snoc c t)
    then show ?case using split_whitespace_blank [of space c "w @ t"] by simp
  qed simp
  let ?d = "dropWhile space s"
  have "?d = rev (dropWhile space (rev ?d)) @ rev (takeWhile space (rev ?d))"
    by (metis rev_append rev_rev_ident takeWhile_dropWhile_id)
  moreover have "list_all space (rev (takeWhile space (rev ?d)))"
    by (auto simp: list_all_iff dest: set_takeWhileD)
  ultimately have "split_whitespace space (trim space s) = split_whitespace space ?d"
    unfolding trim_def using cut by metis
  then show ?thesis
    by (simp add: split_whitespace.simps [of space s] split_whitespace.simps [of space ?d])
qed

lemma header_words:
  assumes "plain_space space"
  shows "split_whitespace space (32 # (45 # print_range os ol) @ 32 # (43 # print_range ns nl) @ [32]) =
    [45 # print_range os ol, 43 # print_range ns nl]"
proof -
  note sp = plain_space_facts [OF assms]
  have "split_whitespace space (32 # (45 # print_range os ol) @ 32 # (43 # print_range ns nl)) =
    [45 # print_range os ol, 43 # print_range ns nl]"
    using sp by (subst split_whitespace_word, (force)+)+
  then show ?thesis
    using split_whitespace_blank [of space 32 "32 # (45 # print_range os ol) @ 32 # (43 # print_range ns nl)"] sp(1) by simp
qed

lemma parse_hunk_header_print:
  assumes "plain_space space" "os < 2 ^ 64" "ol < 2 ^ 64" "ns < 2 ^ 64" "nl < 2 ^ 64"
  shows "parse_hunk_header space (hunk_header os ol ns nl) = (os, ol, ns, nl)"
proof -
  let ?w = "32 # (45 # print_range os ol) @ 32 # (43 # print_range ns nl) @ [32]"
  have "64 \<notin> set ?w" using no_sign_range by auto
  then have "between_signs (hunk_header os ol ns nl) = ?w"
    unfolding hunk_header_ranges by (rule between_signs_word)
  moreover have "parse_side t = parse_range t" for t
    by (cases "split_on 44 t") (auto simp: parse_side_def parse_range_def split: list.splits)
  ultimately show ?thesis
    using assms by (simp add: parse_hunk_header_def split_whitespace_trim header_words parse_print_range del: append_Cons)
qed

lemma split_hunk_header_print:
  assumes "plain_space space"
  shows "split_hunk_header_raw space (hunk_header os ol ns nl) = Some (print_range os ol, print_range ns nl, [])"
proof -
  let ?w = "32 # (45 # print_range os ol) @ 32 # (43 # print_range ns nl) @ [32]"
  have "64 \<notin> set ?w" using no_sign_range by auto
  then have f: "find_signs (?w @ lit ''@@'') = Some (length ?w)" by (rule find_signs_end)
  have "strip_prefix (lit ''@@'') (hunk_header os ol ns nl) = Some (?w @ lit ''@@'')"
    by (simp add: hunk_header_ranges)
  then show ?thesis
    unfolding split_hunk_header_raw_def by (simp only: bind.bind_lunit f) (simp add: header_words [OF assms] del: append_Cons)
qed

section \<open>Parsing a printed diff\<close>

text \<open>What follows a body: the end, or the header of the next hunk.\<close>

definition next_header :: "str list \<Rightarrow> bool" where
  "next_header ls \<longleftrightarrow> (case ls of [] \<Rightarrow> True | l # _ \<Rightarrow> starts_with ''@@'' l)"

lemma pair_at:
  assumes "next_header tail"
  shows "header_pair l (ls @ tail) = header_pair l ls"
proof (rule header_pair_append)
  show "case tail of [] \<Rightarrow> True | m # _ \<Rightarrow> \<not> starts_with ''+++ '' m"
    using assms unfolding next_header_def
    by (cases tail; cases "hd tail") auto
qed

lemma parse_body_lines:
  "body_ok body \<Longrightarrow> next_header tail \<Longrightarrow>
   parse_diff_loop space (body @ tail) files f (Some h) =
   parse_diff_loop space tail files f (Some (h\<lparr>dh_lines := dh_lines h @ map body_dline body\<rparr>))"
proof (induction body arbitrary: h)
  case (Cons l body)
  have l: "signed l" "\<not> header_pair l (body @ tail)" and rest: "body_ok body"
    using Cons.prems pair_at [of tail l body] by (simp_all add: body_ok_def)
  show ?case
    using Cons.IH [OF rest Cons.prems(2)] l(2) signed_facts [OF l(1)]
    by (simp add: body_dline_def del: lit_simps)
qed simp

lemma header_start [simp]: "starts_with ''@@'' (hunk_header os ol ns nl)"
  and header_no_git: "strip_prefix (lit ''diff --git '') (hunk_header os ol ns nl) = None"
  and header_no_file: "\<not> starts_with ''diff --git '' (hunk_header os ol ns nl)" "\<not> starts_with ''Index: '' (hunk_header os ol ns nl)"
    "\<not> header_pair (hunk_header os ol ns nl) rest"
  by (simp_all add: hunk_header_ranges header_pair_def)

lemma next_header_hunks:
  "list_all printed hs \<Longrightarrow> next_header (concat (map hunk_lines hs))"
  by (cases hs) (auto simp: next_header_def hunk_lines_def printed_def)

lemma printed_lines:
  assumes "printed h"
  obtains body where "body_ok body" "dh_lines h = map body_dline body"
    "hunk_lines h = dh_header h # body"
  using assms by (auto simp: printed_def hunk_lines_def comp_def)

lemma parse_printed_hunks:
  assumes "plain_space space"
  shows "list_all printed hs \<Longrightarrow>
    parse_diff_loop space (concat (map hunk_lines hs)) files (Some f) h =
    files @ [f\<lparr>fi_hunks := fi_hunks f @ (case h of Some h \<Rightarrow> [h] | None \<Rightarrow> []) @ hs\<rparr>]"
proof (induction hs arbitrary: f h)
  case Nil
  then show ?case by (cases h) (simp_all add: flush_file_def flush_hunk_def)
next
  case (Cons g hs)
  obtain body where b: "body_ok body" "dh_lines g = map body_dline body" "hunk_lines g = dh_header g # body"
    using Cons.prems printed_lines by auto
  let ?g = "\<lparr>dh_old_start = dh_old_start g, dh_old_len = dh_old_len g, dh_new_start = dh_new_start g,
    dh_new_len = dh_new_len g, dh_header = dh_header g, dh_lines = []\<rparr>"
  let ?f = "f\<lparr>fi_hunks := fi_hunks f @ (case h of Some h \<Rightarrow> [h] | None \<Rightarrow> [])\<rparr>"
  have hd: "dh_header g = hunk_header (dh_old_start g) (dh_old_len g) (dh_new_start g) (dh_new_len g)"
    and nums: "dh_old_start g < 2 ^ 64" "dh_old_len g < 2 ^ 64" "dh_new_start g < 2 ^ 64" "dh_new_len g < 2 ^ 64"
    using Cons.prems by (auto simp: printed_def)
  have fl: "flush_hunk (Some f) h = Some ?f" by (cases h) (simp_all add: flush_hunk_def)
  have head: "strip_prefix (lit ''diff --git '') (dh_header g) = None" "\<not> header_pair (dh_header g) rest"
      "starts_with ''@@'' (dh_header g)"
      "parse_hunk_header space (dh_header g) = (dh_old_start g, dh_old_len g, dh_new_start g, dh_new_len g)" for rest
    unfolding hd using header_no_git header_no_file header_start parse_hunk_header_print [OF assms nums] by simp_all
  have "parse_diff_loop space (dh_header g # body @ concat (map hunk_lines hs)) files (Some f) h =
      parse_diff_loop space (body @ concat (map hunk_lines hs)) files (Some ?f) (Some ?g)"
    unfolding parse_diff_loop.simps head(1) fl using head(2-4) by (simp del: lit_simps)
  also have "\<dots> = parse_diff_loop space (concat (map hunk_lines hs)) files (Some ?f) (Some g)"
    using Cons.prems by (cases g) (simp add: parse_body_lines b(1) next_header_hunks flip: b(2))
  also have "\<dots> = files @ [f\<lparr>fi_hunks := fi_hunks f @ (case h of Some h \<Rightarrow> [h] | None \<Rightarrow> []) @ g # hs\<rparr>]"
    using Cons by simp
  finally show ?case by (simp add: b(3))
qed

text \<open>A diff of one file: its two header lines and its hunks.\<close>

definition patch_lines :: "str \<Rightarrow> str \<Rightarrow> dhunk list \<Rightarrow> str list" where
  "patch_lines s t hs = [lit ''--- '' @ s, lit ''+++ '' @ t] @ concat (map hunk_lines hs)"

definition patch_text :: "str \<Rightarrow> str \<Rightarrow> dhunk list \<Rightarrow> str" where
  "patch_text s t hs = from_lines (patch_lines s t hs) True"

definition clean_patch :: "str \<Rightarrow> str \<Rightarrow> dhunk list \<Rightarrow> bool" where
  "clean_patch s t hs \<longleftrightarrow> list_all printed hs \<and> list_all clean_line (patch_lines s t hs)"

lemma patch_to_lines: "clean_patch s t hs \<Longrightarrow> to_lines (patch_text s t hs) = (patch_lines s t hs, True)"
  by (simp add: patch_text_def to_from_lines clean_patch_def patch_lines_def)

lemma parse_patch:
  assumes "plain_space space" "clean_patch s t hs"
  shows "parse_diff space (patch_text s t hs) =
    [\<lparr>fi_old_path = clean_path space s, fi_new_path = clean_path space t, fi_hunks = hs\<rparr>]"
proof -
  have "str_lines (patch_text s t hs) = patch_lines s t hs"
    using patch_to_lines [OF assms(2)] by (simp add: to_lines_def)
  moreover have "list_all printed hs" using assms(2) by (simp add: clean_patch_def)
  ultimately show ?thesis
    using parse_printed_hunks [OF assms(1), of hs "[]" _ None]
    by (simp add: parse_diff_def patch_lines_def header_pair_def flush_hunk_def)
qed

section \<open>Applying hunks\<close>

lemma drop_first_byte: "signed l \<Longrightarrow> drop_bytes 1 l = Some (tl l)"
  by (auto elim!: signed_cases simp: char_bytes_def)

lemma body_images:
  assumes "list_all signed body" "dh_lines h = map body_dline body"
  shows "old_image h = hunk_old body" "new_image h = hunk_new body"
proof -
  have c: "line_content (body_dline l) = tl l" if "l \<in> set body" for l
    using drop_first_byte [of l] assms(1) that by (simp add: line_content_def list_all_iff)
  have k: "(\<not> is_no_newline_marker l \<and> (classify_body l = KContext \<or> classify_body l = KRemoved)) = counts_old l"
      "(\<not> is_no_newline_marker l \<and> (classify_body l = KContext \<or> classify_body l = KAdded)) = counts_new l"
      if "l \<in> set body" for l
    using assms(1) that
    by (auto simp: list_all_iff is_no_newline_marker_def classify_body_def counts_old_def counts_new_def elim!: signed_cases)
  show "old_image h = hunk_old body"
    unfolding old_image_def hunk_old_def assms(2) filter_map map_map
    by (rule map_cong [OF filter_cong]) (auto simp: c k(1) [symmetric])
  show "new_image h = hunk_new body"
    unfolding new_image_def hunk_new_def assms(2) filter_map map_map
    by (rule map_cong [OF filter_cong]) (auto simp: c k(2) [symmetric])
qed

text \<open>Where an image lies in the lines.\<close>

definition found_at :: "str list \<Rightarrow> str list \<Rightarrow> nat \<Rightarrow> bool" where
  "found_at img ls p \<longleftrightarrow> (\<exists>a b. ls = a @ img @ b \<and> length a = p)"

lemma matches_at_found:
  assumes "p + length img < 2 ^ 64"
  shows "matches_at img ls p = Some (found_at img ls p)"
proof -
  have "p + length img \<le> length ls \<and> slice ls p (p + length img) = img \<longleftrightarrow> found_at img ls p"
  proof
    assume m: "p + length img \<le> length ls \<and> slice ls p (p + length img) = img"
    have "ls = take p ls @ take (length img) (drop p ls) @ drop (length img) (drop p ls)"
      by (simp only: append_take_drop_id)
    then show "found_at img ls p"
      using m unfolding found_at_def slice_def
      by (intro exI [of _ "take p ls"] exI [of _ "drop (length img) (drop p ls)"]) auto
  next
    assume "found_at img ls p"
    then show "p + length img \<le> length ls \<and> slice ls p (p + length img) = img"
      by (auto simp: found_at_def slice_def)
  qed
  then show ?thesis using assms by (simp add: matches_at_def checked_u64_def)
qed

lemma find_image_found:
  "fin + length img < 2 ^ 64 \<Longrightarrow>
   find_image img ls p fin = Some (if \<exists>q. p \<le> q \<and> q \<le> fin \<and> found_at img ls q
     then Some (LEAST q. p \<le> q \<and> q \<le> fin \<and> found_at img ls q) else None)"
proof (induction img ls p fin rule: find_image.induct)
  case (1 img ls p fin)
  show ?case
  proof (cases "fin < p")
    case True
    then show ?thesis by (subst find_image.simps) auto
  next
    case le: False
    then have m: "matches_at img ls p = Some (found_at img ls p)" using 1(2) by (intro matches_at_found) simp
    show ?thesis
    proof (cases "found_at img ls p")
      case True
      then have "(LEAST q. p \<le> q \<and> q \<le> fin \<and> found_at img ls q) = p"
        using le by (intro Least_equality) auto
      then show ?thesis using True le m by (subst find_image.simps) (auto intro!: exI [of _ p])
    next
      case False
      then have "(p \<le> q \<and> q \<le> fin \<and> found_at img ls q) = (p + 1 \<le> q \<and> q \<le> fin \<and> found_at img ls q)" for q
        by (cases "p = q") auto
      then show ?thesis using False le m 1(1) [OF le _ _ 1(2)] by (subst find_image.simps) (simp, blast)
    qed
  qed
qed

text \<open>The place of a hunk with an old image: the one its header names, or the first there is.\<close>

lemma apply_hunk_place:
  assumes "to_lines target = (ls, nl)" "old_image h \<noteq> []"
    "dh_old_start h + length (old_image h) < 2 ^ 64" "length ls + length (old_image h) < 2 ^ 64"
  shows "apply_hunk target h =
    Some (if \<exists>p. found_at (old_image h) ls p
      then let p = (if found_at (old_image h) ls (dh_old_start h - 1) then dh_old_start h - 1
                    else LEAST p. found_at (old_image h) ls p)
           in Inr (from_lines (take p ls @ new_image h @ drop (p + length (old_image h)) ls) nl)
      else Inl (lit ''hunk does not apply (context mismatch)''))"
proof -
  let ?img = "old_image h" and ?fin = "length ls - length (old_image h)"
  have le: "q \<le> ?fin" if "found_at ?img ls q" for q using that by (auto simp: found_at_def)
  then have "(0 \<le> q \<and> q \<le> ?fin \<and> found_at ?img ls q) = found_at ?img ls q" for q by auto
  then have f: "find_image ?img ls 0 ?fin =
      Some (if \<exists>q. found_at ?img ls q then Some (LEAST q. found_at ?img ls q) else None)"
    using find_image_found [of ?fin ?img ls 0] assms(4) by simp
  have "matches_at ?img ls (dh_old_start h - 1) = Some (found_at ?img ls (dh_old_start h - 1))"
    using assms(3) by (intro matches_at_found) simp
  then show ?thesis
    using assms(1,2) f by (auto simp: apply_hunk_def Let_def simp del: lit_simps)
qed

lemma apply_hunk_at:
  assumes "list_all clean_line (a @ old_image h @ b)" "a @ old_image h @ b \<noteq> []"
    "dh_old_start h = length a + (if old_image h = [] then 0 else 1)"
    "2 * length (a @ old_image h @ b) + 1 < 2 ^ 64"
  shows "apply_hunk (from_lines (a @ old_image h @ b) True) h = Some (Inr (from_lines (a @ new_image h @ b) True))"
proof -
  note tl = to_from_lines [OF assms(2,1)]
  show ?thesis
  proof (cases "old_image h = []")
    case True
    then show ?thesis using tl assms(3) by (simp add: apply_hunk_def)
  next
    case False
    have "found_at (old_image h) (a @ old_image h @ b) (length a)" by (auto simp: found_at_def)
    then show ?thesis
      using apply_hunk_place [OF tl False] assms(3,4) False by auto
  qed
qed

text \<open>Hunks that fit: each is given with the unchanged lines before it.\<close>

fun hunks_fit :: "nat \<Rightarrow> (str list \<times> dhunk) list \<Rightarrow> bool" where
  "hunks_fit n [] = True"
| "hunks_fit n ((gap, h) # gs) =
     (dh_old_start h = n + length gap + (if old_image h = [] then 0 else 1) \<and>
      hunks_fit (n + length gap + length (old_image h)) gs)"

definition woven_old :: "(str list \<times> dhunk) list \<Rightarrow> str list" where
  "woven_old gs = concat (map (\<lambda>(gap, h). gap @ old_image h) gs)"

definition woven_new :: "(str list \<times> dhunk) list \<Rightarrow> str list" where
  "woven_new gs = concat (map (\<lambda>(gap, h). gap @ new_image h) gs)"

lemma woven_simps [simp]:
  "woven_old [] = []" "woven_old ((gap, h) # gs) = gap @ old_image h @ woven_old gs"
  "woven_new [] = []" "woven_new ((gap, h) # gs) = gap @ new_image h @ woven_new gs"
  "woven_old (gs @ gs') = woven_old gs @ woven_old gs'" "woven_new (gs @ gs') = woven_new gs @ woven_new gs'"
  by (simp_all add: woven_old_def woven_new_def)

lemma apply_hunks_back_append:
  "apply_hunks_back cur (hs @ gs) =
   Option.bind (apply_hunks_back cur hs) (\<lambda>r. case r of Inl e \<Rightarrow> Some (Inl e) | Inr cur \<Rightarrow> apply_hunks_back cur gs)"
proof (induction hs arbitrary: cur)
  case (Cons h hs)
  then show ?case by (cases "apply_hunk cur h") (auto split: sum.splits)
qed simp

definition small_text :: "str list \<Rightarrow> bool" where
  "small_text ls \<longleftrightarrow> 2 * length ls + 1 < 2 ^ 64"

lemma apply_fitting:
  "hunks_fit (length pre) gs \<Longrightarrow> (case gs of (gap, h) # _ \<Rightarrow> pre @ gap @ old_image h \<noteq> [] | [] \<Rightarrow> True) \<Longrightarrow>
   list_all clean_line (pre @ woven_old gs @ woven_new gs @ rest) \<Longrightarrow> small_text (pre @ woven_old gs @ woven_new gs @ rest) \<Longrightarrow>
   apply_hunks_back (from_lines (pre @ woven_old gs @ rest) True) (rev (map snd gs)) =
   Some (Inr (from_lines (pre @ woven_new gs @ rest) True))"
proof (induction gs arbitrary: pre)
  case (Cons x gs)
  obtain gap h where x: "x = (gap, h)" by (cases x)
  let ?pre = "pre @ gap @ old_image h"
  have fit: "hunks_fit (length ?pre) gs" "dh_old_start h = length (pre @ gap) + (if old_image h = [] then 0 else 1)"
    using Cons.prems(1) by (simp_all add: x add.assoc)
  have ne: "?pre \<noteq> []" using Cons.prems(2) x by simp
  have "apply_hunks_back (from_lines (?pre @ woven_old gs @ rest) True) (rev (map snd gs)) =
      Some (Inr (from_lines (?pre @ woven_new gs @ rest) True))"
    using fit(1) ne Cons.prems(3,4) by (intro Cons.IH) (auto simp: x small_text_def split: list.splits)
  moreover have "apply_hunk (from_lines ((pre @ gap) @ old_image h @ woven_new gs @ rest) True) h =
      Some (Inr (from_lines ((pre @ gap) @ new_image h @ woven_new gs @ rest) True))"
    using fit(2) ne Cons.prems(3,4) by (intro apply_hunk_at) (auto simp: x small_text_def)
  ultimately show ?case by (simp add: x apply_hunks_back_append)
qed simp

section \<open>Reversing\<close>

definition turn_hunk :: "dhunk \<Rightarrow> dhunk" where
  "turn_hunk h =
     \<lparr>dh_old_start = dh_new_start h, dh_old_len = dh_new_len h, dh_new_start = dh_old_start h, dh_new_len = dh_old_len h,
      dh_header = hunk_header (dh_new_start h) (dh_new_len h) (dh_old_start h) (dh_old_len h),
      dh_lines = map (\<lambda>l. body_dline (turn_sign (dl_text l))) (dh_lines h)\<rparr>"

lemma turn_sign_facts [simp]:
  "turn_sign (turn_sign l) = l" "tl (turn_sign l) = tl l"
  "counts_old (turn_sign l) = counts_new l" "counts_new (turn_sign l) = counts_old l"
  "signed (turn_sign l) = signed l" "is_no_newline_marker (turn_sign l) = is_no_newline_marker l"
  by (cases l; auto simp: turn_sign_def counts_old_def counts_new_def signed_def is_no_newline_marker_def)+

lemma turned_sides [simp]: "hunk_old (map turn_sign body) = hunk_new body" "hunk_new (map turn_sign body) = hunk_old body"
  by (simp_all add: hunk_old_def hunk_new_def filter_map comp_def)

lemma turn_hunk_body: "dh_lines h = map body_dline body \<Longrightarrow> dh_lines (turn_hunk h) = map body_dline (map turn_sign body)"
  by (simp add: turn_hunk_def comp_def)

lemma turned_images:
  assumes "printed h"
  shows "old_image (turn_hunk h) = new_image h" "new_image (turn_hunk h) = old_image h"
proof -
  obtain body where b: "body_ok body" "dh_lines h = map body_dline body" using assms printed_lines by blast
  then have "list_all signed (map turn_sign body)" "list_all signed body" by (auto simp: body_ok_def list_all_iff)
  then show "old_image (turn_hunk h) = new_image h" "new_image (turn_hunk h) = old_image h"
    using body_images [OF _ b(2)] body_images [OF _ turn_hunk_body [OF b(2)]] by simp_all
qed

lemma turn_hunk_twice: "printed h \<Longrightarrow> turn_hunk (turn_hunk h) = h"
  by (cases h) (auto simp: turn_hunk_def printed_def comp_def)

lemma reverse_body:
  "body_ok body \<Longrightarrow> next_header tail \<Longrightarrow>
   reverse_lines space (body @ tail) = map turn_sign body @ reverse_lines space tail"
proof (induction body)
  case (Cons l body)
  have l: "signed l" "\<not> header_pair l (body @ tail)" "body_ok body"
    using Cons.prems pair_at [of tail l body] by (simp_all add: body_ok_def)
  have "split_hunk_header_raw space l = None"
    using signed_facts(3) [OF l(1)] by (simp add: split_hunk_header_raw_def del: lit_simps)
  then show ?case using Cons.IH [OF l(3) Cons.prems(2)] l(2) by simp
qed simp

lemma reverse_hunks:
  "plain_space space \<Longrightarrow> list_all printed hs \<Longrightarrow>
   reverse_lines space (concat (map hunk_lines hs)) = concat (map hunk_lines (map turn_hunk hs))"
proof (induction hs)
  case (Cons h hs)
  obtain body where b: "body_ok body" "dh_lines h = map body_dline body" "hunk_lines h = dh_header h # body"
    using Cons.prems printed_lines by auto
  have hd: "dh_header h = hunk_header (dh_old_start h) (dh_old_len h) (dh_new_start h) (dh_new_len h)"
    using Cons.prems by (auto simp: printed_def)
  have "hunk_lines (turn_hunk h) = hunk_header (dh_new_start h) (dh_new_len h) (dh_old_start h) (dh_old_len h) # map turn_sign body"
    by (simp add: hunk_lines_def turn_hunk_def b(2) comp_def)
  moreover have "reverse_lines space (dh_header h # body @ concat (map hunk_lines hs)) =
      hunk_header (dh_new_start h) (dh_new_len h) (dh_old_start h) (dh_old_len h) #
      reverse_lines space (body @ concat (map hunk_lines hs))"
    unfolding hd by (simp add: header_no_file split_hunk_header_print [OF Cons.prems(1)])
      (simp add: hunk_header_ranges)
  moreover have "next_header (concat (map hunk_lines hs))" using Cons.prems by (intro next_header_hunks) simp
  ultimately show ?case using Cons reverse_body [OF b(1)] by (simp add: b(3))
qed simp

lemma reverse_patch:
  assumes "plain_space space" "clean_patch s t hs"
  shows "diff_reverse_direction space (patch_text s t hs) = patch_text t s (map turn_hunk hs)"
proof -
  have "reverse_lines space (patch_lines s t hs) = patch_lines t s (map turn_hunk hs)"
    using reverse_hunks [OF assms(1), of hs] assms(2) by (simp add: patch_lines_def header_pair_def clean_patch_def)
  then show ?thesis
    using patch_to_lines [OF assms(2)] by (simp add: diff_reverse_direction_def patch_text_def)
qed

section \<open>The hunk at a line\<close>

lemma last_position_append:
  "p x \<Longrightarrow> \<forall>y\<in>set ys. \<not> p y \<Longrightarrow> last_position p (xs @ x # ys) = Some (length xs)"
proof -
  assume a: "p x" "\<forall>y\<in>set ys. \<not> p y"
  have "position p (rev ys @ x # rev xs) = Some (length (rev ys))" if "\<forall>y\<in>set (rev ys). \<not> p y" for ys xs
    using that a(1) by (induction "rev ys" arbitrary: ys) (auto simp: rev_swap [symmetric])
  then show ?thesis using a(2) by (simp add: last_position_def)
qed

lemma bounds_from_mid:
  "b \<le> at \<Longrightarrow> \<forall>x\<in>set ys. at < x \<Longrightarrow> bounds_from (xs @ b # ys) at fin = (b, case ys of [] \<Rightarrow> fin | y # _ \<Rightarrow> y)"
proof -
  assume a: "b \<le> at" "\<forall>x\<in>set ys. at < x"
  then have "last_position (\<lambda>s. s \<le> at) (xs @ b # ys) = Some (length xs)" by (intro last_position_append) auto
  then show ?thesis by (cases ys) (simp_all add: bounds_from_def nth_append)
qed

lemma file_starts_body:
  "body_ok body \<Longrightarrow> next_header tail \<Longrightarrow> file_starts i False (body @ tail) = file_starts (i + length body) False tail"
proof (induction body arbitrary: i)
  case (Cons l body)
  have "signed l" "\<not> header_pair l (body @ tail)" "body_ok body"
    using Cons.prems pair_at [of tail l body] by (simp_all add: body_ok_def)
  then show ?case using Cons.IH [OF _ Cons.prems(2), of "i + 1"] signed_facts [of l] by simp
qed simp

lemma file_starts_hunks: "list_all printed hs \<Longrightarrow> file_starts i False (concat (map hunk_lines hs)) = []"
proof (induction hs arbitrary: i)
  case (Cons h hs)
  obtain body where b: "body_ok body" "hunk_lines h = dh_header h # body" using Cons.prems printed_lines by auto
  have "dh_header h = hunk_header (dh_old_start h) (dh_old_len h) (dh_new_start h) (dh_new_len h)"
    using Cons.prems by (simp add: printed_def)
  then show ?case
    using Cons b file_starts_body [OF b(1) next_header_hunks] by (simp add: header_no_file)
qed simp

lemma file_starts_patch: "list_all printed hs \<Longrightarrow> file_start_lines (patch_lines s t hs) = [0]"
  by (simp add: file_start_lines_def patch_lines_def header_pair_def file_starts_hunks)

lemma upt_pieces: "[0..<n + Suc m + k] = [0..<n] @ n # [Suc n..<n + Suc m] @ [n + Suc m..<n + Suc m + k]"
  using upt_add_eq_append [of 0 "n + Suc m" k] upt_add_eq_append [of 0 n "Suc m"] upt_conv_Cons [of n "n + Suc m"]
  by (simp only: append.simps append_assoc)

lemma hunk_starts_mid:
  assumes "\<forall>l\<in>set body. \<not> starts_with ''@@'' l" "starts_with ''@@'' hdr" "next_header ys"
  shows "\<exists>as bs. hunk_starts (xs @ (hdr # body) @ ys) 0 (length (xs @ (hdr # body) @ ys)) = as @ length xs # bs \<and>
    (\<forall>b\<in>set bs. length (xs @ hdr # body) \<le> b) \<and>
    (case bs of [] \<Rightarrow> length (xs @ (hdr # body) @ ys) | b # _ \<Rightarrow> b) = length (xs @ hdr # body)"
proof (intro exI conjI)
  let ?ls = "xs @ (hdr # body) @ ys" and ?P = "\<lambda>i. starts_with ''@@'' ((xs @ (hdr # body) @ ys) ! i)"
  let ?n = "length xs" and ?m = "length (xs @ hdr # body)"
  have "[0..<length ?ls] = [0..<?n] @ [?n] @ [Suc ?n..<?m] @ [?m..<length ?ls]"
    using upt_pieces [of ?n "length body" "length ys"] by (simp only: length_append list.size append.simps add_Suc_right add_Suc add_0_right add.assoc)
  moreover have "filter ?P [Suc ?n..<?m] = []"
  proof -
    have "\<not> ?P i" if ge: "Suc ?n \<le> i" and lt: "i < ?m" for i
    proof -
      obtain k where "i = Suc ?n + k" using le_Suc_ex [OF ge] by blast
      then have k: "i = ?n + Suc k" by simp
      then have "k < length body" using lt by simp
      then have "?ls ! i = body ! k" unfolding k nth_append_length_plus by (simp add: nth_append)
      then show ?thesis using assms(1) \<open>k < length body\<close> by simp
    qed
    then show ?thesis unfolding filter_empty_conv set_upt by auto
  qed
  ultimately show "hunk_starts ?ls 0 (length ?ls) = filter ?P [0..<?n] @ ?n # filter ?P [?m..<length ?ls]"
    using assms(2) by (simp add: hunk_starts_def)
  show "\<forall>b\<in>set (filter ?P [?m..<length ?ls]). ?m \<le> b" by auto
  show "(case filter ?P [?m..<length ?ls] of [] \<Rightarrow> length ?ls | b # _ \<Rightarrow> b) = ?m"
  proof (cases ys)
    case (Cons y zs)
    then have "?P ?m" using assms(3) by (simp add: next_header_def nth_append)
    moreover have "[?m..<length ?ls] = ?m # [Suc ?m..<length ?ls]" by (rule upt_conv_Cons) (simp add: Cons)
    ultimately show ?thesis by (simp only: filter.simps if_True list.case)
  qed simp
qed

lemma hunk_line_bounds_at:
  assumes "clean_patch s t (hs @ h # hs')"
    "length (patch_lines s t hs) \<le> at" "at < length (patch_lines s t (hs @ [h]))"
  shows "hunk_line_bounds (patch_text s t (hs @ h # hs')) at =
    Some (length (patch_lines s t hs), length (patch_lines s t (hs @ [h])))"
proof -
  let ?ls = "patch_lines s t (hs @ h # hs')" and ?xs = "patch_lines s t hs" and ?ys = "concat (map hunk_lines hs')"
  have pr: "list_all printed (hs @ h # hs')" using assms(1) by (simp add: clean_patch_def)
  then obtain body where b: "body_ok body" "hunk_lines h = dh_header h # body" using printed_lines by auto
  have ls: "?ls = ?xs @ (dh_header h # body) @ ?ys" by (simp add: patch_lines_def b(2))
  have len: "length (patch_lines s t (hs @ [h])) = length (?xs @ dh_header h # body)" by (simp add: patch_lines_def b(2))
  have "\<forall>l\<in>set body. \<not> starts_with ''@@'' l" using b(1) signed_facts by (auto simp: body_ok_def list_all_iff)
  moreover have "starts_with ''@@'' (dh_header h)" using pr header_start by (simp add: printed_def)
  moreover have "next_header ?ys" using pr by (intro next_header_hunks) simp
  ultimately obtain as bs where hs: "hunk_starts ?ls 0 (length ?ls) = as @ length ?xs # bs"
    "\<forall>b\<in>set bs. length (?xs @ dh_header h # body) \<le> b"
    "(case bs of [] \<Rightarrow> length ?ls | b # _ \<Rightarrow> b) = length (?xs @ dh_header h # body)"
    unfolding ls using hunk_starts_mid by blast
  have "bounds_from [0] at (length ?ls) = (0, length ?ls)" using bounds_from_mid [of 0 at "[]" "[]"] by simp
  moreover have "bounds_from (as @ length ?xs # bs) at (length ?ls) = (length ?xs, length (?xs @ dh_header h # body))"
    using bounds_from_mid [of "length ?xs" at bs as "length ?ls"] assms(2,3) hs(2,3) len by force
  moreover have "min at (length ?ls - 1) = at" using assms(3) len ls by simp
  moreover have "?ls \<noteq> []" by (simp add: patch_lines_def)
  ultimately show ?thesis
    using patch_to_lines [OF assms(1)] file_starts_patch [OF pr] hs(1) len
    by (simp add: hunk_line_bounds_def Let_def file_bounds_at_def)
qed

section \<open>Fresh diffs\<close>

text \<open>The lines a body keeps.\<close>

definition kept_lines :: "str list \<Rightarrow> str list" where
  "kept_lines body = map tl (filter (starts_with '' '') body)"

lemma sides_simps [simp]:
  "hunk_old [] = []" "hunk_new [] = []" "kept_lines [] = []"
  "hunk_old ((32 # x) # b) = x # hunk_old b" "hunk_new ((32 # x) # b) = x # hunk_new b" "kept_lines ((32 # x) # b) = x # kept_lines b"
  "hunk_old ((45 # x) # b) = x # hunk_old b" "hunk_new ((45 # x) # b) = hunk_new b" "kept_lines ((45 # x) # b) = kept_lines b"
  "hunk_old ((43 # x) # b) = hunk_old b" "hunk_new ((43 # x) # b) = x # hunk_new b" "kept_lines ((43 # x) # b) = kept_lines b"
  "hunk_old ((92 # x) # b) = hunk_old b" "hunk_new ((92 # x) # b) = hunk_new b" "kept_lines ((92 # x) # b) = kept_lines b"
  "hunk_old (a @ b) = hunk_old a @ hunk_old b" "hunk_new (a @ b) = hunk_new a @ hunk_new b" "kept_lines (a @ b) = kept_lines a @ kept_lines b"
  by (simp_all add: hunk_old_def hunk_new_def kept_lines_def counts_old_def counts_new_def is_no_newline_marker_def)

lemma sides_maps [simp]:
  "hunk_old (map ((@) [45]) xs) = xs" "hunk_new (map ((@) [45]) xs) = []" "kept_lines (map ((@) [45]) xs) = []"
  "hunk_old (map ((@) [43]) xs) = []" "hunk_new (map ((@) [43]) xs) = xs" "kept_lines (map ((@) [43]) xs) = []"
  by (induction xs) simp_all

lemma rediff_walk_sides:
  "i \<le> length old \<Longrightarrow> j \<le> length new \<Longrightarrow>
   hunk_old (rediff_walk old new lcs i j) = drop i old \<and> hunk_new (rediff_walk old new lcs i j) = drop j new \<and>
   list_all signed (rediff_walk old new lcs i j)"
proof (induction old new lcs i j rule: rediff_walk.induct)
  case (1 old new lcs i j)
  show ?case
  proof (cases "i < length old \<and> j < length new")
    case True
    have d: "drop i old = old ! i # drop (Suc i) old" "drop j new = new ! j # drop (Suc j) new"
      using True by (simp_all add: Cons_nth_drop_Suc)
    show ?thesis using 1 True by (simp add: rediff_walk.simps [of old new lcs i j] d signed_def)
  next
    case False
    then show ?thesis using 1
      by (auto simp: rediff_walk.simps [of old new lcs i j] list_all_iff signed_def)
  qed
qed

lemma rediff_walk_kept:
  "i \<le> length old \<Longrightarrow> j \<le> length new \<Longrightarrow>
   length (kept_lines (rediff_walk old new (dp_table old new) i j)) = lcs_len (drop i old) (drop j new)"
proof (induction old new "dp_table old new" i j rule: rediff_walk.induct)
  case (1 old new i j)
  show ?case
  proof (cases "i < length old \<and> j < length new")
    case True
    have d: "drop i old = old ! i # drop (Suc i) old" "drop j new = new ! j # drop (Suc j) new"
      using True by (simp_all add: Cons_nth_drop_Suc)
    have t: "dp_table old new ! i ! (j + 1) = lcs_len (drop i old) (drop (Suc j) new)"
      "dp_table old new ! (i + 1) ! j = lcs_len (drop (Suc i) old) (drop j new)"
      using True by (simp_all add: dp_table_entry)
    show ?thesis using 1 True t by (subst rediff_walk.simps) (auto simp: d)
  qed (use 1 in \<open>subst rediff_walk.simps, auto\<close>)
qed

lemma kept_bound: "list_all signed body \<Longrightarrow> length (kept_lines body) \<le> lcs_len (hunk_old body) (hunk_new body)"
proof -
  assume "list_all signed body"
  then have "subseq (kept_lines body) (hunk_old body) \<and> subseq (kept_lines body) (hunk_new body)"
    by (induction body) (auto elim!: signed_cases)
  then have "length (kept_lines body) \<le> lcs_len (hunk_old body) (hunk_new body)" by (intro lcs_len_bound) auto
  then show ?thesis .
qed

lemma rediff_sides:
  "hunk_old (rediff_lines old new) = old" "hunk_new (rediff_lines old new) = new" "list_all signed (rediff_lines old new)"
  using rediff_walk_sides [of 0 old 0 new "dp_table old new"]
  by (auto simp: rediff_lines_def list_all_iff signed_def)

lemma rediff_kept:
  "length old \<le> 2000 \<Longrightarrow> length new \<le> 2000 \<Longrightarrow> length (kept_lines (rediff_lines old new)) = lcs_len old new"
  using rediff_walk_kept [of 0 old 0 new] by (simp add: rediff_lines_def)

section \<open>Ignoring white space\<close>

lemma sides_of_runs:
  "list_all (starts_with ''-'') ds \<Longrightarrow> hunk_old ds = map tl ds \<and> hunk_new ds = []"
  "list_all (starts_with ''+'') as \<Longrightarrow> hunk_old as = [] \<and> hunk_new as = map tl as"
proof -
  show "list_all (starts_with ''-'') ds \<Longrightarrow> hunk_old ds = map tl ds \<and> hunk_new ds = []"
  proof (induction ds)
    case (Cons d ds)
    then show ?case by (cases d) auto
  qed simp
  show "list_all (starts_with ''+'') as \<Longrightarrow> hunk_old as = [] \<and> hunk_new as = map tl as"
  proof (induction as)
    case (Cons a as)
    then show ?case by (cases a) auto
  qed simp
qed

lemma ignore_pairs_sides:
  "list_all (starts_with ''-'') (pd @ ds) \<Longrightarrow> list_all (starts_with ''+'') (pa @ as) \<Longrightarrow>
   hunk_old (ignore_pairs space pd pa ds as) = map tl (pd @ ds) \<and>
   map (squeeze space) (hunk_new (ignore_pairs space pd pa ds as)) = map (\<lambda>l. squeeze space (tl l)) (pa @ as)"
proof (induction space pd pa ds as rule: ignore_pairs.induct)
  case (1 space pd pa d ds a as)
  then show ?case by (cases "tl d \<noteq> tl a \<and> squeeze space (tl d) = squeeze space (tl a)") (auto simp: sides_of_runs)
qed (simp_all add: sides_of_runs)

lemma run_of_lines: "list_all p (takeWhile p xs)"
  by (auto simp: list_all_iff dest: set_takeWhileD)

lemma ignore_runs_sides:
  "hunk_old (ignore_runs space body) = hunk_old body \<and>
   map (squeeze space) (hunk_new (ignore_runs space body)) = map (squeeze space) (hunk_new body)"
proof (induction space body rule: ignore_runs.induct)
  case (2 space l rest)
  have cons: "hunk_old (l # b) = hunk_old [l] @ hunk_old b" "hunk_new (l # b) = hunk_new [l] @ hunk_new b" for b
    using sides_simps(16,17) [of "[l]" b] by simp_all
  show ?case
  proof (cases "starts_with ''-'' l")
    case True
    define dels more where "dels = takeWhile (starts_with ''-'') (l # rest)" and "more = dropWhile (starts_with ''-'') (l # rest)"
    define adds tail where "adds = takeWhile (starts_with ''+'') more" and "tail = dropWhile (starts_with ''+'') more"
    have runs: "list_all (starts_with ''-'') dels" "list_all (starts_with ''+'') adds"
      by (simp_all add: dels_def adds_def run_of_lines)
    have body: "l # rest = dels @ adds @ tail" by (simp add: dels_def adds_def tail_def more_def del: takeWhile.simps dropWhile.simps)
    have "ignore_runs space (l # rest) = ignore_pairs space [] [] dels adds @ ignore_runs space tail"
      using True by (simp add: dels_def adds_def tail_def more_def Let_def del: takeWhile.simps dropWhile.simps)
    moreover have "hunk_old (ignore_runs space tail) = hunk_old tail \<and>
        map (squeeze space) (hunk_new (ignore_runs space tail)) = map (squeeze space) (hunk_new tail)"
      unfolding tail_def using 2(2) True dels_def more_def by blast
    ultimately show ?thesis
      using ignore_pairs_sides [of "[]" dels "[]" adds space] sides_of_runs(1) [OF runs(1)] sides_of_runs(2) [OF runs(2)] runs
      by (simp add: body comp_def)
  next
    case False
    then show ?thesis using 2(1) by (simp add: cons [of rest] cons [of "ignore_runs space rest"])
  qed
qed simp

text \<open>A hunk that only changes white space keeps the old lines and changes nothing.\<close>

lemma ignore_pairs_blank:
  "list_all2 (\<lambda>x y. x \<noteq> y \<and> squeeze space x = squeeze space y) xs ys \<Longrightarrow>
   ignore_pairs space [] [] (map ((#) 45) xs) (map ((#) 43) ys) = map ((#) 32) xs"
  by (induction rule: list_all2_induct) auto

lemma ignore_runs_blank:
  assumes "list_all2 (\<lambda>x y. x \<noteq> y \<and> squeeze space x = squeeze space y) xs ys"
  shows "ignore_runs space (map ((#) 45) xs @ map ((#) 43) ys) = map ((#) 32) xs"
proof (cases xs)
  case (Cons x xs')
  have "takeWhile (starts_with ''-'') (map ((#) 45) xs @ map ((#) 43) ys) = map ((#) 45) xs"
    "dropWhile (starts_with ''-'') (map ((#) 45) xs @ map ((#) 43) ys) = map ((#) 43) ys"
    by (subst takeWhile_append2 dropWhile_append2; cases ys; auto)+
  moreover have a: "takeWhile (starts_with ''+'') (map ((#) 43) ys) = map ((#) 43) ys"
      "dropWhile (starts_with ''+'') (map ((#) 43) ys) = []"
    by (auto simp: takeWhile_eq_all_conv dropWhile_eq_Nil_conv)
  ultimately show ?thesis
    using ignore_pairs_blank [OF assms] ignore_runs.simps(2) [of space "45 # x" "map ((#) 45) xs' @ map ((#) 43) ys"]
    by (simp add: Cons Let_def a del: ignore_runs.simps(2) takeWhile.simps dropWhile.simps)
qed (use assms in simp)

section \<open>Splitting and killing\<close>

definition made_hunk :: "nat \<Rightarrow> nat \<Rightarrow> str list \<Rightarrow> dhunk" where
  "made_hunk os ns body =
     \<lparr>dh_old_start = os, dh_old_len = length (hunk_old body), dh_new_start = ns, dh_new_len = length (hunk_new body),
      dh_header = hunk_header os (length (hunk_old body)) ns (length (hunk_new body)),
      dh_lines = map body_dline body\<rparr>"

lemma pair_free_append: "pair_free (xs @ ys) \<Longrightarrow> pair_free xs \<and> pair_free ys"
proof (induction xs)
  case (Cons l xs)
  then show ?case by (cases xs; cases ys) (auto simp: header_pair_def)
qed simp

lemma body_ok_append: "body_ok (xs @ ys) \<Longrightarrow> body_ok xs \<and> body_ok ys"
  by (auto simp: body_ok_def dest: pair_free_append)

lemma clean_header [simp]: "clean_line (hunk_header os ol ns nl)"
proof -
  have "10 \<notin> set (print_range a b)" for a b
    using decimal_digits [of 10 a] decimal_digits [of 10 b] by (auto simp: print_range_def)
  then have "newline \<notin> set (hunk_header os ol ns nl)" by (simp add: hunk_header_ranges)
  moreover have "last (hunk_header os ol ns nl) = 64" by (simp add: hunk_header_ranges)
  ultimately show ?thesis by (simp add: clean_line_def)
qed

lemma made_hunk_lines [simp]: "hunk_lines (made_hunk os ns body) = hunk_header os (length (hunk_old body)) ns (length (hunk_new body)) # body"
  by (simp add: made_hunk_def hunk_lines_def comp_def)

lemma made_hunk_printed:
  "body_ok body \<Longrightarrow> os < 2 ^ 64 \<Longrightarrow> ns < 2 ^ 64 \<Longrightarrow> length (hunk_old body) < 2 ^ 64 \<Longrightarrow> length (hunk_new body) < 2 ^ 64 \<Longrightarrow>
   printed (made_hunk os ns body)"
  by (auto simp: printed_def made_hunk_def)

lemma made_hunk_images:
  "body_ok body \<Longrightarrow> old_image (made_hunk os ns body) = hunk_old body \<and> new_image (made_hunk os ns body) = hunk_new body"
  using body_images [of body "made_hunk os ns body"] by (simp add: body_ok_def made_hunk_def)

lemma split_hunk_at:
  assumes sp: "plain_space space" and patch: "clean_patch s t (hs @ h # hs')" and lines: "dh_lines h = map body_dline (b1 @ b2)"
    and parts: "b1 \<noteq> []" "b2 \<noteq> []"
    and sums: "dh_old_start h + length (hunk_old b1) < 2 ^ 64" "dh_new_start h + length (hunk_new b1) < 2 ^ 64"
  shows "diff_split_hunk space (patch_text s t (hs @ h # hs')) (length (patch_lines s t hs) + 1 + length b1) =
    Some (Some (patch_text s t (hs @ made_hunk (dh_old_start h) (dh_new_start h) b1 #
      made_hunk (dh_old_start h + length (hunk_old b1)) (dh_new_start h + length (hunk_new b1)) b2 # hs')))"
proof -
  define xs ys L n e where "xs = patch_lines s t hs" and "ys = concat (map hunk_lines hs')" and
    "L = patch_lines s t (hs @ h # hs')" and "n = length (patch_lines s t hs)" and "e = length (patch_lines s t (hs @ [h]))"
  note defs = xs_def ys_def L_def n_def e_def
  let ?at = "n + 1 + length b1"
  have "printed h" using patch by (simp add: clean_patch_def)
  then have hd: "dh_header h = hunk_header (dh_old_start h) (dh_old_len h) (dh_new_start h) (dh_new_len h)"
    and ph: "parse_hunk_header space (dh_header h) = (dh_old_start h, dh_old_len h, dh_new_start h, dh_new_len h)"
    by (auto simp: printed_def parse_hunk_header_print [OF sp])
  have e: "e = n + 1 + length b1 + length b2" by (simp add: defs patch_lines_def hunk_lines_def lines)
  have at: "min ?at (length L - 1) = ?at" "L \<noteq> []" "\<not> ?at \<le> n" "\<not> e \<le> ?at" "n \<le> ?at" "?at < e"
    using parts(2) by (cases b2; simp add: defs patch_lines_def hunk_lines_def lines)+
  have ps: "L ! n = dh_header h" "slice L (n + 1) ?at = b1" "slice L ?at e = b2" "take n L = xs" "drop e L = ys"
    by (simp_all add: e) (simp_all add: defs patch_lines_def slice_def hunk_lines_def lines comp_def)
  have st: "starts_with ''@@'' (dh_header h)" unfolding hd by (rule header_start)
  have b: "hunk_line_bounds (patch_text s t (hs @ h # hs')) ?at = Some (n, e)"
    using hunk_line_bounds_at [OF patch] at(5,6) unfolding n_def e_def by blast
  have tl: "to_lines (patch_text s t (hs @ h # hs')) = (L, True)" unfolding L_def by (rule patch_to_lines [OF patch])
  have c: "count_old_new b = (length (hunk_old b), length (hunk_new b))" for b
    by (simp add: count_old_new_def hunk_old_def hunk_new_def)
  have "diff_split_hunk space (patch_text s t (hs @ h # hs')) ?at =
      Some (Some (from_lines (xs @ [hunk_header (dh_old_start h) (length (hunk_old b1)) (dh_new_start h) (length (hunk_new b1))] @ b1 @
        [hunk_header (dh_old_start h + length (hunk_old b1)) (length (hunk_old b2)) (dh_new_start h + length (hunk_new b1)) (length (hunk_new b2))] @
        b2 @ ys) True))"
    unfolding diff_split_hunk_def tl Let_def prod.case at(1) b option.case ps
    using at(2-4) parts sums by (simp add: st ph c checked_u64_def del: lit_simps)
  then show ?thesis by (simp add: n_def patch_text_def) (simp add: patch_lines_def xs_def ys_def)
qed

lemma kill_hunk_at:
  assumes patch: "clean_patch s t (hs @ h # hs')" and more: "hs @ hs' \<noteq> []"
    and at: "length (patch_lines s t hs) \<le> at" "at < length (patch_lines s t (hs @ [h]))"
  shows "diff_hunk_kill (patch_text s t (hs @ h # hs')) at = Some (patch_text s t (hs @ hs'))"
proof -
  define L n e where "L = patch_lines s t (hs @ h # hs')" and "n = length (patch_lines s t hs)" and "e = length (patch_lines s t (hs @ [h]))"
  note defs = L_def n_def e_def
  have pr: "list_all printed (hs @ h # hs')" using patch by (simp add: clean_patch_def)
  have tl: "to_lines (patch_text s t (hs @ h # hs')) = (L, True)" unfolding L_def by (rule patch_to_lines [OF patch])
  have at': "min at (length L - 1) = at" "L \<noteq> []" using at(2) by (auto simp: defs patch_lines_def)
  have ps: "take n L = patch_lines s t hs" "drop e L = concat (map hunk_lines hs')"
    by (simp_all add: defs patch_lines_def)
  have fb: "file_bounds_at L (file_start_lines L) at = (0, length L)"
    using file_starts_patch [OF pr] bounds_from_mid [of 0 at "[]" "[]"] by (simp add: L_def file_bounds_at_def)
  have "hunk_line_bounds (patch_text s t (hs @ h # hs')) at = Some (n, e)"
    unfolding n_def e_def by (rule hunk_line_bounds_at [OF patch at])
  then have b: "hunk_starts L 0 (length L) \<noteq> []" "bounds_from (hunk_starts L 0 (length L)) at (length L) = (n, e)"
    unfolding hunk_line_bounds_def tl Let_def fst_conv at'(1) fb prod.case using at'(2) by (simp_all split: if_splits)
  have "n \<in> set (hunk_starts L 0 (length L))"
  proof -
    have "starts_with ''@@'' (L ! n)" using pr header_start
      by (simp add: defs patch_lines_def nth_append hunk_lines_def printed_def)
    then show ?thesis by (simp add: hunk_starts_def) (simp add: defs patch_lines_def hunk_lines_def)
  qed
  moreover have "\<exists>m\<in>set (hunk_starts L 0 (length L)). m \<noteq> n"
  proof (cases hs)
    case Nil
    then obtain g gs where g: "hs' = g # gs" using more by (cases hs') auto
    have "starts_with ''@@'' (L ! e)" using pr header_start
      by (simp add: defs patch_lines_def nth_append hunk_lines_def printed_def g)
    then show ?thesis
      by (intro bexI [of _ e]) (simp_all add: hunk_starts_def, simp_all add: defs patch_lines_def hunk_lines_def g)
  next
    case (Cons g gs)
    have "starts_with ''@@'' (L ! 2)" using pr header_start
      by (simp add: defs patch_lines_def nth_append hunk_lines_def printed_def Cons)
    then show ?thesis
      by (intro bexI [of _ 2]) (simp_all add: hunk_starts_def, simp_all add: defs patch_lines_def hunk_lines_def Cons)
  qed
  ultimately have "length (hunk_starts L 0 (length L)) \<noteq> 1" by (auto simp: length_Suc_conv)
  then have "diff_hunk_kill (patch_text s t (hs @ h # hs')) at = Some (from_lines (drain n e L) True)"
    unfolding diff_hunk_kill_def tl Let_def prod.case at'(1) fb using b at'(2) by simp
  then show ?thesis by (simp add: drain_def ps patch_text_def) (simp add: patch_lines_def)
qed

section \<open>The runs to refine\<close>

lemma run_end_member:
  assumes "i \<le> k" "k < run_end p xs fin i"
  shows "p (xs ! k) \<and> k < length xs \<and> k < fin"
proof -
  let ?ys = "take (fin - i) (drop i xs)"
  have k: "k - i < length (takeWhile p ?ys)" using assms by (simp add: run_end_def)
  then have "takeWhile p ?ys ! (k - i) = xs ! k" "k - i < length ?ys"
    using assms(1) length_takeWhile_le [of p ?ys] by (auto simp: takeWhile_nth)
  then show ?thesis using assms(1) k by (auto dest!: nth_mem set_takeWhileD)
qed

text \<open>A pair of runs: removed lines, then perhaps markers, then added lines.\<close>

definition run_pair :: "dline list \<Rightarrow> nat \<Rightarrow> nat \<Rightarrow> nat \<Rightarrow> nat \<Rightarrow> bool" where
  "run_pair ls a b c d \<longleftrightarrow> a < b \<and> b \<le> c \<and> c < d \<and> d \<le> length ls \<and>
     (\<forall>k. a \<le> k \<and> k < b \<longrightarrow> dl_kind (ls ! k) = KRemoved) \<and> (\<forall>k. b \<le> k \<and> k < c \<longrightarrow> is_no_newline_marker (dl_text (ls ! k))) \<and>
     (\<forall>k. c \<le> k \<and> k < d \<longrightarrow> dl_kind (ls ! k) = KAdded)"

lemma refine_step_pairs:
  assumes "i < fin" "i < length ls" "((a, b), (c, d)) \<in> set (fst (refine_step ls fin i))"
  shows "run_pair ls a b c d \<and> a = i \<and> d \<le> snd (refine_step ls fin i)"
proof -
  let ?b = "run_end (\<lambda>l. dl_kind l = KRemoved) ls fin i"
  let ?c = "run_end (\<lambda>l. is_no_newline_marker (dl_text l)) ls fin ?b"
  let ?d = "run_end (\<lambda>l. dl_kind l = KAdded) ls fin ?c"
  have e: "a = i" "b = ?b" "c = ?c" "d = ?d" "?d \<noteq> ?c" "dl_kind (ls ! i) = KRemoved"
    using assms(3) by (auto simp: refine_step_def Let_def split: if_splits)
  have le: "?b \<le> ?c" "?c < ?d" using run_end_ge e(5) by (auto simp: order.strict_iff_order)
  have "?d - 1 < length ls" using run_end_member [of ?c "?d - 1" "\<lambda>l. dl_kind l = KAdded" ls fin] le(2) by simp
  moreover have "i < ?b" using assms e(6) by (intro run_end_gt) auto
  moreover have "d \<le> snd (refine_step ls fin i)" using e by (simp add: refine_step_def Let_def run_end_ge)
  ultimately show ?thesis using le e run_end_member [of _ _ _ ls fin] unfolding run_pair_def by auto
qed

lemma refine_loop_pairs:
  "((a, b), (c, d)) \<in> set (refine_loop ls fin i) \<Longrightarrow> run_pair ls a b c d \<and> i \<le> a"
proof (induction ls fin i rule: refine_loop.induct)
  case (1 ls fin i)
  have m: "i < fin \<and> i < length ls"
    "((a, b), (c, d)) \<in> set (fst (refine_step ls fin i)) \<or> ((a, b), (c, d)) \<in> set (refine_loop ls fin (snd (refine_step ls fin i)))"
    using 1(2) by (subst (asm) refine_loop.simps; auto split: if_splits)+
  then show ?case
    using 1(1) [OF m(1)] refine_step_pairs [of i fin ls a b c d] refine_step_gt [of i fin ls] by auto
qed

lemma refine_runs_pairs: "((a, b), (c, d)) \<in> set (refine_runs ls r) \<Longrightarrow> run_pair ls a b c d"
  by (auto simp: refine_runs_def Let_def dest: refine_loop_pairs)

end
