(* ===== verification/DiffContext.thy ===== *)
theory DiffContext
  imports DiffLaws
begin

text \<open>
  Laws of the two conversions of diff mode: what a unified diff is as a context diff, and that the way
  back restores it.
\<close>

section \<open>The sides of a hunk\<close>

text \<open>Within a change the removed lines come first.\<close>

fun ordered :: "str list \<Rightarrow> bool" where
  "ordered (x # y # ls) = (\<not> (starts_with ''+'' x \<and> starts_with ''-'' y) \<and> ordered (y # ls))"
| "ordered _ = True"

definition plain_line :: "str \<Rightarrow> bool" where
  "plain_line l \<longleftrightarrow> signed l \<and> \<not> is_no_newline_marker l"

lemma plain_cases:
  assumes "plain_line l"
  obtains (context_line) s where "l = 32 # s" | (added) s where "l = 43 # s" | (removed) s where "l = 45 # s"
  using assms unfolding plain_line_def by (auto simp: is_no_newline_marker_def elim!: signed_cases)

fun entry :: "str \<Rightarrow> ctx_kind \<times> str" where
  "entry (c # s) = (if c = 45 then CtxMinus else if c = 43 then CtxPlus else CtxSame, s)"
| "entry [] = (CtxSame, [])"

lemma ctx_entry_ctxify: "plain_line l \<Longrightarrow> ctx_entry (ctxify l) = Some (entry l)"
  by (auto elim!: plain_cases simp: ctx_entry_def ctxify_def byte_length_def char_bytes_def numeral_2_eq_2)

lemma ctx_side_plain: "list_all plain_line body \<Longrightarrow> ctx_side p body = map ctxify (filter (\<lambda>l. \<not> starts_with p l) body)"
  by (induction body) (auto simp: ctx_side_def plain_line_def)

lemma ctx_side_entries:
  "list_all plain_line body \<Longrightarrow>
   those (map ctx_entry (ctx_side p body)) = Some (map entry (filter (\<lambda>l. \<not> starts_with p l) body))"
  unfolding ctx_side_plain by (induction body) (auto simp: ctx_entry_ctxify)

lemma merge_new_only: "list_all plain_line body \<Longrightarrow> list_all (\<lambda>l. \<not> starts_with ''-'' l) body \<Longrightarrow> merge_context_sides [] (map entry body) = body"
  by (induction body) (auto elim!: plain_cases)

lemma merge_old_only: "list_all plain_line body \<Longrightarrow> list_all (\<lambda>l. \<not> starts_with ''+'' l) body \<Longrightarrow> merge_context_sides (map entry body) [] = body"
  by (induction body) (auto elim!: plain_cases)

lemma ordered_old_head:
  "ordered ((43 # x) # body) \<Longrightarrow> list_all plain_line body \<Longrightarrow>
   (case filter (\<lambda>l. \<not> starts_with ''+'' l) body of [] \<Rightarrow> True | l # _ \<Rightarrow> fst (entry l) = CtxSame)"
proof (induction body arbitrary: x)
  case (Cons l body)
  have "plain_line l" using Cons.prems(2) by simp
  then show ?case by (cases rule: plain_cases) (use Cons in auto)
qed simp

lemma merge_sides:
  "list_all plain_line body \<Longrightarrow> ordered body \<Longrightarrow>
   merge_context_sides (map entry (filter (\<lambda>l. \<not> starts_with ''+'' l) body))
     (map entry (filter (\<lambda>l. \<not> starts_with ''-'' l) body)) = body"
proof (induction body)
  case (Cons l body)
  have o: "ordered body" using Cons.prems(2) by (cases body) auto
  have "plain_line l" using Cons.prems(1) by simp
  then show ?case
  proof (cases rule: plain_cases)
    case (added s)
    then show ?thesis
      using Cons.IH o Cons.prems ordered_old_head [of s body]
      by (cases "filter (\<lambda>l. \<not> starts_with ''+'' l) body") auto
  qed (use Cons o in auto)
qed simp

section \<open>Ranges\<close>

definition wide_space :: "(uchar \<Rightarrow> bool) \<Rightarrow> bool" where
  "wide_space space \<longleftrightarrow> plain_space space \<and> \<not> space 42"

definition range_ok :: "nat \<Rightarrow> nat \<Rightarrow> bool" where
  "range_ok start len \<longleftrightarrow> start + len < 2 ^ 64 \<and> (len = 0 \<longrightarrow> 2 \<le> start)"

definition range_text :: "nat \<Rightarrow> nat \<Rightarrow> str" where
  "range_text start len = (if len = 0 then print_range (start - 1) 0 else print_range start (start + len - 1))"

lemma ctx_range_text: "range_ok start len \<Longrightarrow> ctx_range start len = Some (range_text start len)"
  by (subst (asm) range_ok_def) (auto simp: ctx_range_def range_text_def print_range_def checked_u64_def decimal.simps [of 0])

lemma parse_ctx_range_word:
  assumes "wide_space space" "a < 2 ^ 64" "b < 2 ^ 64"
  shows "parse_ctx_range space (print_range a b @ 32 # r) = (a, b)"
proof -
  have sp: "plain_space space" using assms(1) by (simp add: wide_space_def)
  note sp = plain_space_facts [OF sp]
  have "split_whitespace space (print_range a b @ 32 # r) = split_whitespace space (32 # print_range a b @ 32 # r)"
    using sp(1) by (subst (1 2) split_whitespace.simps) simp
  also have "\<dots> = print_range a b # split_whitespace space (32 # r)"
    using sp by (intro split_whitespace_word) auto
  finally have w: "split_whitespace space (print_range a b @ 32 # r) = print_range a b # split_whitespace space (32 # r)" .
  have "44 \<notin> set (decimal k)" for k using decimal_digits by force
  then have "split_on 44 (print_range a b) = [decimal a, decimal b]"
    by (simp add: print_range_def split_on_append split_on_word)
  then show ?thesis using assms by (simp add: parse_ctx_range_def w parse_decimal)
qed

lemma range_back:
  assumes "wide_space space" "range_ok start len"
  shows "unified_from_ctx_range (parse_ctx_range space (range_text start len @ 32 # r)) = Some (start, len)"
proof (cases "len = 0")
  case True
  then show ?thesis using assms parse_ctx_range_word [OF assms(1), of "start - 1" 0 r]
    by (auto simp: range_ok_def range_text_def unified_from_ctx_range_def checked_u64_def)
next
  case False
  then show ?thesis using assms parse_ctx_range_word [OF assms(1), of start "start + len - 1" r]
    by (auto simp: range_ok_def range_text_def unified_from_ctx_range_def checked_u64_def)
qed

section \<open>From unified to context\<close>

definition hunk_text :: "dhunk \<Rightarrow> str list" where
  "hunk_text h = map dl_text (dh_lines h)"

definition changed_side :: "string \<Rightarrow> string \<Rightarrow> str list \<Rightarrow> str list" where
  "changed_side own other body = (if list_ex (starts_with own) body then ctx_side other body else [])"

definition context_lines :: "dhunk \<Rightarrow> str list" where
  "context_lines h =
     [lit ''***************'', lit ''*** '' @ range_text (dh_old_start h) (dh_old_len h) @ lit '' ****''] @
     changed_side ''-'' ''+'' (hunk_text h) @
     [lit ''--- '' @ range_text (dh_new_start h) (dh_new_len h) @ lit '' ----''] @
     changed_side ''+'' ''-'' (hunk_text h)"

text \<open>What the way back restores: plain lines in order, a change, and ranges that stay ranges.\<close>

definition convertible :: "dhunk \<Rightarrow> bool" where
  "convertible h \<longleftrightarrow>
     range_ok (dh_old_start h) (dh_old_len h) \<and> range_ok (dh_new_start h) (dh_new_len h) \<and>
     list_all plain_line (hunk_text h) \<and> ordered (hunk_text h) \<and>
     list_ex (\<lambda>l. starts_with ''-'' l \<or> starts_with ''+'' l) (hunk_text h)"

lemma hunk_lines_text: "hunk_lines h = dh_header h # hunk_text h"
  by (simp add: hunk_lines_def hunk_text_def)

lemma printed_text:
  assumes "printed h"
  shows "body_ok (hunk_text h)" "dh_lines h = map body_dline (hunk_text h)"
    "dh_header h = hunk_header (dh_old_start h) (dh_old_len h) (dh_new_start h) (dh_new_len h)"
  using assms by (auto simp: printed_def hunk_text_def comp_def)

lemma hunk_body_at: "body_ok body \<Longrightarrow> next_header tail \<Longrightarrow> hunk_body (body @ tail) = body"
proof (induction body)
  case Nil
  then show ?case by (cases tail) (auto simp: next_header_def)
next
  case (Cons l body)
  have "signed l" "\<not> header_pair l (body @ tail)" "body_ok body"
    using Cons.prems pair_at [of tail l body] by (simp_all add: body_ok_def)
  then show ?case using Cons.IH [OF _ Cons.prems(2)] signed_facts [of l] by simp
qed

lemma context_hunk_lines:
  assumes "plain_space space" "printed h" "convertible h"
  shows "context_hunk space (dh_header h) (hunk_text h) = Some (context_lines h)"
proof -
  have "parse_hunk_header space (dh_header h) = (dh_old_start h, dh_old_len h, dh_new_start h, dh_new_len h)"
    using assms(1,2) by (simp add: printed_def parse_hunk_header_print)
  moreover have "ctx_range (dh_old_start h) (dh_old_len h) = Some (range_text (dh_old_start h) (dh_old_len h))"
    "ctx_range (dh_new_start h) (dh_new_len h) = Some (range_text (dh_new_start h) (dh_new_len h))"
    using assms(3) by (auto simp: convertible_def intro: ctx_range_text)
  ultimately show ?thesis
    by (simp add: context_hunk_def context_lines_def changed_side_def del: lit_simps)
qed

lemma to_context_hunks:
  "plain_space space \<Longrightarrow> list_all printed hs \<Longrightarrow> list_all convertible hs \<Longrightarrow>
   to_context_lines space (concat (map hunk_lines hs)) = Some (concat (map context_lines hs))"
proof (induction hs)
  case (Cons h hs)
  have pr: "printed h" "convertible h" using Cons.prems by simp_all
  note t = printed_text [OF pr(1)]
  have nh: "next_header (concat (map hunk_lines hs))" using Cons.prems by (intro next_header_hunks) simp
  have st: "starts_with ''@@'' (dh_header h)" "\<not> header_pair (dh_header h) rest" for rest
    unfolding t(3) by (rule header_start, rule header_no_file)
  show ?case
    using Cons st context_hunk_lines [OF Cons.prems(1) pr] hunk_body_at [OF t(1) nh]
    by (simp add: hunk_lines_text [of h] del: lit_simps)
qed simp

section \<open>And back\<close>

lemma ctxify_facts:
  assumes "plain_line l"
  shows "\<not> starts_with ''--- '' (ctxify l)" "\<not> starts_with ''*** '' (ctxify l)" "\<not> is_asterisk_sep (ctxify l)"
    "\<not> starts_with ''diff --git '' (ctxify l)" "\<not> starts_with ''Index: '' (ctxify l)"
  using assms by (auto elim!: plain_cases simp: ctxify_def is_asterisk_sep_def)

lemma changed_side_lines:
  assumes "list_all plain_line body" "l \<in> set (changed_side own other body)"
  shows "\<not> new_range_line space l" "\<not> ctx_new_ends l"
  using assms ctxify_facts
  by (auto simp: changed_side_def ctx_side_plain list_all_iff new_range_line_def ctx_new_ends_def split: if_splits)

lemma trim_end_last: "\<not> space (last l) \<Longrightarrow> l \<noteq> [] \<Longrightarrow> rev (dropWhile space (rev l)) = l"
  by (cases l rule: rev_cases) auto

lemma range_lines:
  assumes "wide_space space"
  shows "old_range_line space (lit ''*** '' @ r @ lit '' ****'')" "new_range_line space (lit ''--- '' @ r @ lit '' ----'')"
proof -
  have sp: "\<not> space 42" "\<not> space 45" using assms plain_space_facts [of space] by (auto simp: wide_space_def)
  show "old_range_line space (lit ''*** '' @ r @ lit '' ****'')"
    unfolding old_range_line_def by (subst trim_end_last) (auto simp: sp ends_with_def)
  show "new_range_line space (lit ''--- '' @ r @ lit '' ----'')"
    unfolding new_range_line_def by (subst trim_end_last) (auto simp: sp ends_with_def)
qed

definition next_block :: "str list \<Rightarrow> bool" where
  "next_block ls \<longleftrightarrow> (case ls of [] \<Rightarrow> True | l # _ \<Rightarrow> is_asterisk_sep l)"

lemma run_until:
  assumes "\<And>l. l \<in> set xs \<Longrightarrow> p l" "case ys of [] \<Rightarrow> True | y # _ \<Rightarrow> \<not> p y"
  shows "takeWhile p (xs @ ys) = xs" "dropWhile p (xs @ ys) = ys"
  using assms by (cases ys; simp add: takeWhile_append dropWhile_append)+

lemma unified_hunk_at:
  assumes "wide_space space" "printed h" "convertible h" "next_block tail"
  shows "unified_hunk space (lit ''*** '' @ range_text (dh_old_start h) (dh_old_len h) @ lit '' ****'')
    (changed_side ''-'' ''+'' (hunk_text h) @
     (lit ''--- '' @ range_text (dh_new_start h) (dh_new_len h) @ lit '' ----'') # changed_side ''+'' ''-'' (hunk_text h) @ tail) =
    Some (hunk_lines h, tail)"
proof -
  let ?o = "changed_side ''-'' ''+'' (hunk_text h)" and ?n = "changed_side ''+'' ''-'' (hunk_text h)"
  let ?m = "lit ''--- '' @ range_text (dh_new_start h) (dh_new_len h) @ lit '' ----''"
  have c: "list_all plain_line (hunk_text h)" "ordered (hunk_text h)"
      "list_ex (\<lambda>l. starts_with ''-'' l \<or> starts_with ''+'' l) (hunk_text h)"
      "range_ok (dh_old_start h) (dh_old_len h)" "range_ok (dh_new_start h) (dh_new_len h)"
    using assms(3) by (auto simp: convertible_def)
  have o: "takeWhile (\<lambda>m. \<not> new_range_line space m) (?o @ ?m # ?n @ tail) = ?o"
      "dropWhile (\<lambda>m. \<not> new_range_line space m) (?o @ ?m # ?n @ tail) = ?m # ?n @ tail"
    using changed_side_lines(1) [OF c(1)] range_lines(2) [OF assms(1)] by (intro run_until; simp)+
  have n: "takeWhile (\<lambda>m. \<not> ctx_new_ends m) (?n @ tail) = ?n" "dropWhile (\<lambda>m. \<not> ctx_new_ends m) (?n @ tail) = tail"
    using changed_side_lines(2) [OF c(1)] assms(4)
    by (intro run_until; auto simp: next_block_def ctx_new_ends_def split: list.splits)+
  define xs ys where
    "xs = (if list_ex (starts_with ''-'') (hunk_text h) then map entry (filter (\<lambda>l. \<not> starts_with ''+'' l) (hunk_text h)) else [])" and
    "ys = (if list_ex (starts_with ''+'') (hunk_text h) then map entry (filter (\<lambda>l. \<not> starts_with ''-'' l) (hunk_text h)) else [])"
  have e: "those (map ctx_entry ?o) = Some xs" "those (map ctx_entry ?n) = Some ys"
    using ctx_side_entries [OF c(1)] by (auto simp: xs_def ys_def changed_side_def)
  have r: "unified_from_ctx_range (parse_ctx_range space (drop 4 (lit ''*** '' @ range_text (dh_old_start h) (dh_old_len h) @ lit '' ****''))) =
      Some (dh_old_start h, dh_old_len h)"
    "unified_from_ctx_range (parse_ctx_range space (drop 4 ?m)) = Some (dh_new_start h, dh_new_len h)"
    using range_back [OF assms(1) c(4), of "lit ''****''"] range_back [OF assms(1) c(5), of "lit ''----''"] by simp_all
  have "merge_context_sides xs ys = hunk_text h"
  proof -
    have f: "filter (\<lambda>l. \<not> starts_with p l) b = b" if "\<not> list_ex (starts_with p) b" for p b
      using that by (simp add: list_ex_iff)
    then show ?thesis
      using merge_sides [OF c(1,2)] merge_old_only [OF c(1)] merge_new_only [OF c(1)] c(3)
      by (auto simp: xs_def ys_def list_ex_iff list_all_iff f)
  qed
  then show ?thesis
    unfolding unified_hunk_def Let_def o n list.sel list.case e r hunk_lines_text printed_text(3) [OF assms(2)]
    by (simp add: n del: lit_simps)
qed

lemma is_sep [simp]: "is_asterisk_sep (lit ''***************'')"
  by (simp add: is_asterisk_sep_def)

lemma to_unified_blocks:
  assumes "wide_space space"
  shows "list_all printed hs \<Longrightarrow> list_all convertible hs \<Longrightarrow>
    to_unified_lines space (concat (map context_lines hs)) = Some (concat (map hunk_lines hs))"
proof (induction hs)
  case (Cons h hs)
  let ?r = "lit ''*** '' @ range_text (dh_old_start h) (dh_old_len h) @ lit '' ****''"
  let ?rest = "changed_side ''-'' ''+'' (hunk_text h) @
     (lit ''--- '' @ range_text (dh_new_start h) (dh_new_len h) @ lit '' ----'') # changed_side ''+'' ''-'' (hunk_text h) @
     concat (map context_lines hs)"
  have nb: "next_block (concat (map context_lines hs))"
    by (cases hs) (simp_all add: next_block_def context_lines_def del: lit_simps)
  have r: "old_range_line space ?r" by (rule range_lines(1) [OF assms])
  have ns: "\<not> is_asterisk_sep ?r" by (simp add: is_asterisk_sep_def)
  have "to_unified_lines space (?r # ?rest) = Some (hunk_lines h @ concat (map hunk_lines hs))"
    using unified_hunk_at [OF assms _ _ nb, of h] Cons ns r
    by (simp add: ctx_header_pair_def del: lit_simps)
  moreover have "\<not> ctx_header_pair space (lit ''***************'') rest" for rest
    by (simp add: ctx_header_pair_def)
  moreover have "concat (map context_lines (h # hs)) = lit ''***************'' # ?r # ?rest"
    by (simp add: context_lines_def del: lit_simps)
  ultimately show ?case
    by (simp only: to_unified_lines.simps(2) [of space "lit ''***************''"] is_sep if_True if_False) simp
qed simp

section \<open>Whole diffs\<close>

definition file_labels_ok :: "(uchar \<Rightarrow> bool) \<Rightarrow> str \<Rightarrow> str \<Rightarrow> bool" where
  "file_labels_ok space s t \<longleftrightarrow> \<not> old_range_line space (lit ''*** '' @ s) \<and> \<not> new_range_line space (lit ''--- '' @ t)"

definition context_patch :: "str \<Rightarrow> str \<Rightarrow> dhunk list \<Rightarrow> str" where
  "context_patch s t hs = from_lines ([lit ''*** '' @ s, lit ''--- '' @ t] @ concat (map context_lines hs)) True"

lemma to_context_patch:
  assumes "plain_space space" "clean_patch s t hs" "list_all convertible hs"
  shows "diff_unified_to_context space (patch_text s t hs) = Some (context_patch s t hs)"
proof -
  have pr: "list_all printed hs" using assms(2) by (simp add: clean_patch_def)
  then have "to_context_lines space (patch_lines s t hs) =
      Some ([lit ''*** '' @ s, lit ''--- '' @ t] @ concat (map context_lines hs))"
    using to_context_hunks [OF assms(1) pr assms(3)] by (simp add: patch_lines_def header_pair_def)
  then show ?thesis
    unfolding diff_unified_to_context_def patch_to_lines [OF assms(2)] context_patch_def by simp
qed

lemma clean_line_signs:
  "clean_line (32 # 32 # x) = clean_line x" "clean_line (45 # 32 # x) = clean_line x" "clean_line (43 # 32 # x) = clean_line x"
  "clean_line (32 # x) = clean_line x" "clean_line (45 # x) = clean_line x" "clean_line (43 # x) = clean_line x"
  by (auto simp: clean_line_def)

lemma clean_range_text: "clean_line (a @ range_text m n @ 32 # b) \<longleftrightarrow> clean_line (a @ 32 # b)"
proof -
  have "10 \<notin> set (print_range m n)" for m n
    using decimal_digits [of 10 m] decimal_digits [of 10 n] by (auto simp: print_range_def)
  then show ?thesis by (auto simp: clean_line_def range_text_def)
qed

lemma clean_context_lines:
  assumes "list_all plain_line (hunk_text h)" "list_all clean_line (hunk_text h)"
  shows "list_all clean_line (context_lines h)"
proof -
  have "clean_line (ctxify l)" if "l \<in> set (hunk_text h)" for l
  proof -
    have "plain_line l" "clean_line l" using assms that by (auto simp: list_all_iff)
    then show ?thesis by (cases rule: plain_cases) (simp_all add: ctxify_def clean_line_signs)
  qed
  then have "list_all clean_line (changed_side own other (hunk_text h))" for own other
    using assms(1) by (auto simp: changed_side_def ctx_side_plain list_all_iff)
  moreover have "clean_line (lit ''***************'')" "clean_line (lit ''*** '' @ range_text m n @ lit '' ****'')"
      "clean_line (lit ''--- '' @ range_text m n @ lit '' ----'')" for m n
    using clean_range_text [of "lit ''*** ''" m n "lit ''****''"] clean_range_text [of "lit ''--- ''" m n "lit ''----''"]
    by (simp_all add: clean_line_def)
  ultimately show ?thesis by (simp add: context_lines_def del: lit_simps)
qed

lemma to_unified_patch:
  assumes "wide_space space" "clean_patch s t hs" "list_all convertible hs" "file_labels_ok space s t"
  shows "diff_context_to_unified space (context_patch s t hs) = Some (patch_text s t hs)"
proof -
  let ?ls = "[lit ''*** '' @ s, lit ''--- '' @ t] @ concat (map context_lines hs)"
  have pr: "list_all printed hs" using assms(2) by (simp add: clean_patch_def)
  have "list_all clean_line (context_lines h)" if "h \<in> set hs" for h
    using assms(2,3) that by (intro clean_context_lines)
      (auto simp: clean_patch_def patch_lines_def convertible_def hunk_lines_text list_all_iff)
  moreover have "clean_line (lit ''*** '' @ s)" "clean_line (lit ''--- '' @ t)"
    using assms(2) by (auto simp: clean_patch_def patch_lines_def clean_line_def)
  ultimately have tl: "to_lines (context_patch s t hs) = (?ls, True)"
    unfolding context_patch_def by (intro to_from_lines) (auto simp: list_all_iff simp del: lit_simps)
  have "ctx_header_pair space (lit ''*** '' @ s) ((lit ''--- '' @ t) # rest)" for rest
    using assms(4) by (simp add: ctx_header_pair_def file_labels_ok_def)
  then have "to_unified_lines space ?ls = Some (patch_lines s t hs)"
    using to_unified_blocks [OF assms(1) pr assms(3)] by (simp add: patch_lines_def)
  then show ?thesis unfolding diff_context_to_unified_def tl patch_text_def by simp
qed

end
