(* ===== verification/DiffClaims.thy ===== *)
theory DiffClaims
  imports DiffContext
begin

text \<open>
  Properties of diff mode: a printed diff parses and applies, reversing it undoes it, and each edit of a
  diff changes what it says it changes.  The last section holds concrete runs on which the code departs
  from its comments.
\<close>

section \<open>A diff of a text\<close>

text \<open>A printed diff of one file whose hunks fit the old text: the unchanged lines lie before the hunks and
  after the last.  The first hunk does not insert into an empty text.\<close>

definition diff_below :: "nat \<Rightarrow> str \<Rightarrow> str \<Rightarrow> (str list \<times> dhunk) list \<Rightarrow> str list \<Rightarrow> bool" where
  "diff_below n s t gs rest \<longleftrightarrow>
     clean_patch s t (map snd gs) \<and> hunks_fit 0 gs \<and>
     (case gs of (gap, h) # _ \<Rightarrow> gap @ old_image h \<noteq> [] | [] \<Rightarrow> True) \<and>
     list_all clean_line (woven_old gs @ woven_new gs @ rest) \<and> length (woven_old gs @ woven_new gs @ rest) < n"

definition diff_of :: "str \<Rightarrow> str \<Rightarrow> (str list \<times> dhunk) list \<Rightarrow> str list \<Rightarrow> bool" where
  "diff_of s t gs rest \<longleftrightarrow> diff_below (2 ^ 60) s t gs rest"

lemmas diff_of_iff = diff_of_def [unfolded diff_below_def]

definition text_of :: "str list \<Rightarrow> str" where
  "text_of ls = from_lines ls True"

definition applied :: "(uchar \<Rightarrow> bool) \<Rightarrow> str \<Rightarrow> str \<Rightarrow> str \<Rightarrow> bool" where
  "applied space diff target result \<longleftrightarrow>
     (case parse_diff space diff of [f] \<Rightarrow> apply_file_diff target f = Some (Inr result) | _ \<Rightarrow> False)"

lemma diff_below_applies:
  assumes "plain_space space" "diff_below (2 ^ 62) s t gs rest"
  shows "applied space (patch_text s t (map snd gs)) (text_of (woven_old gs @ rest)) (text_of (woven_new gs @ rest))"
  using parse_patch [OF assms(1), of s t "map snd gs"] apply_fitting [of "[]" gs rest] assms(2)
  by (cases gs) (auto simp: applied_def diff_below_def apply_file_diff_def text_of_def rev_map small_text_def)

lemma diff_applies:
  assumes "plain_space space" "diff_of s t gs rest"
  shows "applied space (patch_text s t (map snd gs)) (text_of (woven_old gs @ rest)) (text_of (woven_new gs @ rest))"
  using assms(2) by (intro diff_below_applies [OF assms(1)]) (simp add: diff_of_def diff_below_def)

lemma fits_append: "hunks_fit n (gs @ gs') \<longleftrightarrow> hunks_fit n gs \<and> hunks_fit (n + length (woven_old gs)) gs'"
  by (induction gs arbitrary: n) (auto simp: add.assoc)

text \<open>An example: the second of three lines changes, and a line is added.\<close>

abbreviation only_blank :: "uchar \<Rightarrow> bool" where
  "only_blank \<equiv> \<lambda>c. c = 32"

definition sample_hunk :: dhunk where
  "sample_hunk = made_hunk 1 1 [lit '' a'', lit ''-b'', lit ''+x'', lit ''+y'']"

definition sample_gaps :: "(str list \<times> dhunk) list" where
  "sample_gaps = [([], sample_hunk), ([lit ''c''], made_hunk 4 5 [lit ''-d'', lit ''+e''])]"

lemma blank_plain: "plain_space only_blank" "wide_space only_blank"
  by (simp_all add: plain_space_def wide_space_def list_all_iff)

lemma turn_made_hunk: "turn_hunk (made_hunk os ns body) = made_hunk ns os (map turn_sign body)"
  by (simp add: turn_hunk_def made_hunk_def comp_def)

lemma turn_lit [simp]: "turn_sign (45 # s) = 43 # s" "turn_sign (43 # s) = 45 # s" "turn_sign (32 # s) = 32 # s"
  by (simp_all add: turn_sign_def)

lemma body_dline_inj: "inj body_dline"
  by (rule injI) (metis dl_text_body(1))

lemma printed_made [simp]:
  "printed (made_hunk os ns body) \<longleftrightarrow> (os < 2 ^ 64 \<and> ns < 2 ^ 64 \<and> length (hunk_old body) < 2 ^ 64 \<and> length (hunk_new body) < 2 ^ 64 \<and>
     body_ok body)"
  by (auto simp: printed_def made_hunk_def inj_map_eq_map [OF body_dline_inj])

lemma sample_ok:
  "clean_patch (lit ''a/f'') (lit ''b/f'') (map snd sample_gaps)"
  "clean_patch (lit ''b/f'') (lit ''a/f'') (map (turn_hunk o snd) sample_gaps)"
  by (simp_all add: sample_gaps_def sample_hunk_def clean_patch_def patch_lines_def turn_made_hunk body_ok_def
    signed_def header_pair_def) (simp_all add: clean_line_def)

lemma sample_diff: "diff_of (lit ''a/f'') (lit ''b/f'') sample_gaps [lit ''z'']"
  using sample_ok(1)
  by (simp add: diff_of_iff sample_gaps_def sample_hunk_def made_hunk_images body_ok_def signed_def header_pair_def small_text_def)
    (simp add: clean_line_def made_hunk_def)

section \<open>Properties\<close>

text \<open>C21: A printed diff of one file parses to its labels and its hunks; and applying these to the text they
  fit gives the text in which each hunk's context and removed lines are replaced by its context and added
  lines, and nothing else is changed.\<close>

theorem printed_diff_applies:
  assumes "plain_space space" "diff_of s t gs rest"
  shows "parse_diff space (patch_text s t (map snd gs)) =
      [\<lparr>fi_old_path = clean_path space s, fi_new_path = clean_path space t, fi_hunks = map snd gs\<rparr>] \<and>
    apply_file_diff (text_of (woven_old gs @ rest))
      \<lparr>fi_old_path = clean_path space s, fi_new_path = clean_path space t, fi_hunks = map snd gs\<rparr> =
      Some (Inr (text_of (woven_new gs @ rest)))"
  using parse_patch [OF assms(1), of s t "map snd gs"] diff_applies [OF assms] assms(2)
  by (simp add: diff_of_iff applied_def)

lemma printed_diff_applies_witness:
  "apply_file_diff (text_of [lit ''a'', lit ''b'', lit ''c'', lit ''d'', lit ''z''])
     \<lparr>fi_old_path = lit ''f'', fi_new_path = lit ''f'', fi_hunks = map snd sample_gaps\<rparr> =
   Some (Inr (text_of [lit ''a'', lit ''x'', lit ''y'', lit ''c'', lit ''e'', lit ''z'']))"
proof -
  have p: "clean_path only_blank (lit ''a/f'') = lit ''f''" "clean_path only_blank (lit ''b/f'') = lit ''f''"
    by (simp_all add: clean_path_def trim_def)
  have w: "woven_old sample_gaps = [lit ''a'', lit ''b'', lit ''c'', lit ''d'']"
    "woven_new sample_gaps = [lit ''a'', lit ''x'', lit ''y'', lit ''c'', lit ''e'']"
    by (simp_all add: sample_gaps_def sample_hunk_def made_hunk_images body_ok_def signed_def header_pair_def)
  show ?thesis using printed_diff_applies [OF blank_plain(1) sample_diff] by (simp add: p w del: lit_simps)
qed

text \<open>C22: Reversing a diff gives a diff that undoes it: applied to the new text it restores the old one.
  Reversing twice restores the text of a diff whose reversed lines do not look like headers either.\<close>

theorem reversed_diff_undoes:
  assumes "plain_space space" "diff_of s t gs rest" "diff_of t s (map (map_prod id turn_hunk) gs) rest"
  shows "applied space (diff_reverse_direction space (patch_text s t (map snd gs)))
      (text_of (woven_new gs @ rest)) (text_of (woven_old gs @ rest)) \<and>
    diff_reverse_direction space (diff_reverse_direction space (patch_text s t (map snd gs))) = patch_text s t (map snd gs)"
proof -
  have c: "clean_patch s t (map snd gs)" "clean_patch t s (map turn_hunk (map snd gs))"
    using assms(2,3) by (simp_all add: diff_of_iff comp_def)
  then have pr: "\<forall>x\<in>set gs. printed (snd x)" by (simp add: clean_patch_def list_all_iff)
  then have "woven_old (map (map_prod id turn_hunk) gs) = woven_new gs" "woven_new (map (map_prod id turn_hunk) gs) = woven_old gs"
    by (induction gs) (auto simp: turned_images)
  moreover have "map turn_hunk (map turn_hunk (map snd gs)) = map snd gs"
    using pr by (simp add: turn_hunk_twice)
  moreover have "map snd (map (map_prod id turn_hunk) gs) = map turn_hunk (map snd gs)" by simp
  ultimately show ?thesis
    using reverse_patch [OF assms(1) c(1)] reverse_patch [OF assms(1) c(2)] diff_applies [OF assms(1,3)] by (simp only:)
qed

lemma reversed_diff_undoes_witness:
  "applied only_blank (diff_reverse_direction only_blank (patch_text (lit ''a/f'') (lit ''b/f'') (map snd sample_gaps)))
     (text_of (woven_new sample_gaps @ [lit ''z''])) (text_of (woven_old sample_gaps @ [lit ''z'']))"
proof -
  have "diff_of (lit ''b/f'') (lit ''a/f'') (map (map_prod id turn_hunk) sample_gaps) [lit ''z'']"
    using sample_ok(2)
    by (simp add: diff_of_iff sample_gaps_def sample_hunk_def turn_made_hunk made_hunk_images body_ok_def signed_def header_pair_def comp_def)
      (simp add: clean_line_def made_hunk_def)
  then show ?thesis using reversed_diff_undoes [OF blank_plain(1) sample_diff] by blast
qed

text \<open>C23: A hunk with old lines is refused exactly when its context and removed lines occur nowhere in the
  text; otherwise they are replaced at the line its header names, or else at their first occurrence.\<close>

theorem hunk_applies_where_found:
  assumes "to_lines target = (ls, nl)" "old_image h \<noteq> []"
    "dh_old_start h + length (old_image h) < 2 ^ 64" "length ls + length (old_image h) < 2 ^ 64"
  shows "(apply_hunk target h = Some (Inl (lit ''hunk does not apply (context mismatch)'')) \<longleftrightarrow>
      (\<nexists>a b. ls = a @ old_image h @ b)) \<and>
    (\<forall>a b. ls = a @ old_image h @ b \<and>
       (length a = dh_old_start h - 1 \<or>
        \<not> found_at (old_image h) ls (dh_old_start h - 1) \<and> (\<forall>p < length a. \<not> found_at (old_image h) ls p)) \<longrightarrow>
       apply_hunk target h = Some (Inr (from_lines (a @ new_image h @ b) nl)))"
proof (intro conjI allI impI)
  note place = apply_hunk_place [OF assms]
  show "apply_hunk target h = Some (Inl (lit ''hunk does not apply (context mismatch)'')) \<longleftrightarrow> (\<nexists>a b. ls = a @ old_image h @ b)"
  proof -
    have "(\<exists>p. found_at (old_image h) ls p) \<longleftrightarrow> (\<exists>a b. ls = a @ old_image h @ b)" unfolding found_at_def by blast
    then show ?thesis unfolding place Let_def by (cases "\<exists>a b. ls = a @ old_image h @ b") (simp_all del: lit_simps)
  qed
  fix a b
  assume at: "ls = a @ old_image h @ b \<and>
       (length a = dh_old_start h - 1 \<or>
        \<not> found_at (old_image h) ls (dh_old_start h - 1) \<and> (\<forall>p < length a. \<not> found_at (old_image h) ls p))"
  then have f: "found_at (old_image h) ls (length a)" by (auto simp: found_at_def)
  have "(if found_at (old_image h) ls (dh_old_start h - 1) then dh_old_start h - 1
      else LEAST p. found_at (old_image h) ls p) = length a"
    using at f by (auto intro!: Least_equality simp: not_less [symmetric])
  moreover have "take (length a) ls = a" "drop (length a + length (old_image h)) ls = b" using at by auto
  ultimately show "apply_hunk target h = Some (Inr (from_lines (a @ new_image h @ b) nl))"
    unfolding place using f by (auto simp: Let_def)
qed

lemma hunk_applies_where_found_witness:
  "apply_hunk (text_of [lit ''b'', lit ''q'']) sample_hunk = Some (Inl (lit ''hunk does not apply (context mismatch)'')) \<and>
   apply_hunk (text_of [lit ''q'', lit ''a'', lit ''b'']) sample_hunk = Some (Inr (text_of [lit ''q'', lit ''a'', lit ''x'', lit ''y'']))"
proof -
  have img: "old_image sample_hunk = [lit ''a'', lit ''b'']" "new_image sample_hunk = [lit ''a'', lit ''x'', lit ''y'']"
    "dh_old_start sample_hunk = 1"
    by (simp_all add: sample_hunk_def made_hunk_images body_ok_def signed_def header_pair_def) (simp add: made_hunk_def)
  have t: "to_lines (text_of [lit ''b'', lit ''q'']) = ([lit ''b'', lit ''q''], True)"
    "to_lines (text_of [lit ''q'', lit ''a'', lit ''b'']) = ([lit ''q'', lit ''a'', lit ''b''], True)"
    unfolding text_of_def by (rule to_from_lines; simp add: clean_line_def)+
  have "\<nexists>a b. [lit ''b'', lit ''q''] = a @ old_image sample_hunk @ b" by (auto simp: img Cons_eq_append_conv)
  moreover have "\<not> found_at (old_image sample_hunk) [lit ''q'', lit ''a'', lit ''b''] 0" by (auto simp: img found_at_def)
  ultimately show ?thesis
    using hunk_applies_where_found [OF t(1), of sample_hunk]
      hunk_applies_where_found [OF t(2), of sample_hunk, THEN conjunct2, THEN spec, of "[lit ''q'']", THEN spec, of "[]"]
    by (simp add: img text_of_def del: lit_simps)
qed

text \<open>The hunk of a diff at some line.  The counts in its header need not be right.\<close>

definition hunk_at :: "str \<Rightarrow> str \<Rightarrow> dhunk list \<Rightarrow> dhunk \<Rightarrow> dhunk list \<Rightarrow> nat \<Rightarrow> bool" where
  "hunk_at s t hs h hs' at \<longleftrightarrow>
     clean_patch s t (hs @ h # hs') \<and>
     length (patch_lines s t hs) \<le> at \<and> at < length (patch_lines s t (hs @ [h]))"

text \<open>A hunk with a new body: the header counts the lines of the body, unless this is the old one.\<close>

definition recounted :: "dhunk \<Rightarrow> str list \<Rightarrow> dhunk" where
  "recounted h body = (if body = hunk_text h then h else made_hunk (dh_old_start h) (dh_new_start h) body)"

lemma text_images:
  assumes "printed h"
  shows "old_image h = hunk_old (hunk_text h)" "new_image h = hunk_new (hunk_text h)"
  using body_images [OF _ printed_text(2) [OF assms]] printed_text(1) [OF assms] by (simp_all add: body_ok_def)

text \<open>The commands that rewrite the body of the hunk at a line.\<close>

lemma rewrite_hunk_at:
  assumes sp: "plain_space space" and patch: "clean_patch s t (hs @ h # hs')"
    and at: "length (patch_lines s t hs) \<le> at" "at < length (patch_lines s t (hs @ [h]))"
  shows "rewrite_hunk space f (patch_text s t (hs @ h # hs')) at = Some (patch_text s t (hs @ recounted h (f (hunk_text h)) # hs'))"
proof -
  let ?body = "hunk_text h"
  define xs ys L n e where "xs = patch_lines s t hs" and "ys = concat (map hunk_lines hs')" and
    "L = patch_lines s t (hs @ h # hs')" and "n = length (patch_lines s t hs)" and "e = length (patch_lines s t (hs @ [h]))"
  note defs = xs_def ys_def L_def n_def e_def
  have "printed h" using patch by (simp add: clean_patch_def)
  then have hd: "dh_header h = hunk_header (dh_old_start h) (dh_old_len h) (dh_new_start h) (dh_new_len h)"
    and ph: "parse_hunk_header space (dh_header h) = (dh_old_start h, dh_old_len h, dh_new_start h, dh_new_len h)"
    by (auto simp: printed_def parse_hunk_header_print [OF sp])
  have at': "min at (length L - 1) = at" "L \<noteq> []" using at(2) by (auto simp: defs patch_lines_def)
  have parts: "L ! n = dh_header h" "slice L (n + 1) e = ?body" "take n L = xs" "drop e L = ys"
    by (simp_all add: defs patch_lines_def slice_def hunk_lines_def hunk_text_def)
  have st: "starts_with ''@@'' (L ! n)" unfolding parts(1) hd by (rule header_start)
  have b: "hunk_line_bounds (patch_text s t (hs @ h # hs')) at = Some (n, e)"
    unfolding n_def e_def by (rule hunk_line_bounds_at [OF patch at])
  have tl: "to_lines (patch_text s t (hs @ h # hs')) = (L, True)" unfolding L_def by (rule patch_to_lines [OF patch])
  have c: "count_old_new (f ?body) = (length (hunk_old (f ?body)), length (hunk_new (f ?body)))"
    by (simp add: count_old_new_def hunk_old_def hunk_new_def)
  let ?hd = "hunk_header (dh_old_start h) (length (hunk_old (f ?body))) (dh_new_start h) (length (hunk_new (f ?body)))"
  have new: "patch_lines s t (hs @ made_hunk (dh_old_start h) (dh_new_start h) (f ?body) # hs') = xs @ [?hd] @ f ?body @ ys"
    by (simp add: defs patch_lines_def hunk_lines_def made_hunk_def comp_def)
  have "rewrite_hunk space f (patch_text s t (hs @ h # hs')) at =
      Some (if f ?body = ?body then patch_text s t (hs @ h # hs') else from_lines (xs @ [?hd] @ f ?body @ ys) True)"
    unfolding rewrite_hunk_def tl Let_def prod.case at' b option.case parts(2-4)
    by (simp add: st [unfolded parts(1)] c parts(1) ph at'(2) del: lit_simps)
  also have "\<dots> = Some (patch_text s t (hs @ recounted h (f ?body) # hs'))"
    by (simp only: recounted_def patch_text_def new if_distrib)
      (simp add: recounted_def patch_text_def new)
  finally show ?thesis .
qed

text \<open>An edit of a body that keeps the lengths of its sides.\<close>

locale body_edit =
  fixes f :: "str list \<Rightarrow> str list"
  assumes old_length: "length (hunk_old (f body)) = length (hunk_old body)"
    and new_length: "length (hunk_new (f body)) = length (hunk_new body)"
begin

lemma rewritten:
  assumes "plain_space space" "hunk_at s t hs h hs' at"
  shows "rewrite_hunk space f (patch_text s t (hs @ h # hs')) at = Some (patch_text s t (hs @ recounted h (f (hunk_text h)) # hs'))"
  using assms printed_text(2) [of h] by (intro rewrite_hunk_at) (auto simp: hunk_at_def clean_patch_def)

text \<open>The counts of the rewritten hunk are those of the sides it had.\<close>

lemma counts:
  assumes "hunk_at s t hs h hs' at" "f (hunk_text h) \<noteq> hunk_text h"
  shows "dh_old_len (recounted h (f (hunk_text h))) = length (old_image h) \<and>
    dh_new_len (recounted h (f (hunk_text h))) = length (new_image h)"
  using assms text_images [of h] old_length [of "hunk_text h"] new_length [of "hunk_text h"]
  by (simp add: recounted_def made_hunk_def hunk_at_def clean_patch_def)

end

interpretation refreshing: body_edit "\<lambda>body. rediff_lines (hunk_old body) (hunk_new body)"
  by unfold_locales (simp_all add: rediff_sides)

interpretation ignoring: body_edit "ignore_runs space" for space
  by unfold_locales (use ignore_runs_sides in \<open>metis length_map\<close>)+

text \<open>C24: Refreshing a hunk whose sides have at most 2000 lines rewrites its body and nothing else: the two
  sides stay what they were, and no body with these sides keeps more lines, so the fresh hunk removes and adds
  the fewest lines.  A larger hunk removes all and adds all.  When the body changes the header counts its
  sides, whatever it said before.\<close>

theorem refreshed_hunk_is_minimal:
  assumes "plain_space space" "hunk_at s t hs h hs' at"
  shows "\<exists>body. diff_refresh_hunk space (patch_text s t (hs @ h # hs')) at = Some (patch_text s t (hs @ recounted h body # hs')) \<and>
    hunk_old body = old_image h \<and> hunk_new body = new_image h \<and>
    (body \<noteq> hunk_text h \<longrightarrow>
      dh_old_len (recounted h body) = length (old_image h) \<and> dh_new_len (recounted h body) = length (new_image h)) \<and>
    (if length (old_image h) \<le> 2000 \<and> length (new_image h) \<le> 2000
     then \<forall>b. list_all signed b \<and> hunk_old b = old_image h \<and> hunk_new b = new_image h \<longrightarrow>
        length (kept_lines b) \<le> length (kept_lines body)
     else body = map ((#) 45) (old_image h) @ map ((#) 43) (new_image h))"
proof (intro exI conjI)
  let ?body = "rediff_lines (old_image h) (new_image h)"
  have "printed h" using assms(2) by (simp add: hunk_at_def clean_patch_def)
  note i = text_images [OF this]
  show "diff_refresh_hunk space (patch_text s t (hs @ h # hs')) at = Some (patch_text s t (hs @ recounted h ?body # hs'))"
    using refreshing.rewritten [OF assms] by (simp add: diff_refresh_hunk_def i)
  show "hunk_old ?body = old_image h" "hunk_new ?body = new_image h" by (rule rediff_sides)+
  show "?body \<noteq> hunk_text h \<longrightarrow>
      dh_old_len (recounted h ?body) = length (old_image h) \<and> dh_new_len (recounted h ?body) = length (new_image h)"
    using refreshing.counts [OF assms(2)] by (simp add: i)
  show "if length (old_image h) \<le> 2000 \<and> length (new_image h) \<le> 2000
     then \<forall>b. list_all signed b \<and> hunk_old b = old_image h \<and> hunk_new b = new_image h \<longrightarrow>
        length (kept_lines b) \<le> length (kept_lines ?body)
     else ?body = map ((#) 45) (old_image h) @ map ((#) 43) (new_image h)"
    using kept_bound rediff_kept [of "old_image h" "new_image h"] by (auto simp: rediff_lines_def) metis
qed

text \<open>A hunk with wrong counts.\<close>

definition miscounted_hunk :: dhunk where
  "miscounted_hunk = (made_hunk 1 1 [lit ''-a'', lit ''-b'', lit ''+a''])\<lparr>dh_old_len := 7, dh_header := hunk_header 1 7 1 1\<rparr>"

lemma refreshed_hunk_is_minimal_witness:
  "\<exists>body. diff_refresh_hunk only_blank (patch_text (lit ''a/f'') (lit ''b/f'') [miscounted_hunk]) 2 =
      Some (patch_text (lit ''a/f'') (lit ''b/f'') [recounted miscounted_hunk body]) \<and>
    hunk_old body = [lit ''a'', lit ''b''] \<and> hunk_new body = [lit ''a'']"
proof -
  let ?h = miscounted_hunk
  have b: "body_ok [lit ''-a'', lit ''-b'', lit ''+a'']" by (simp add: body_ok_def signed_def header_pair_def)
  have l: "dh_lines ?h = map body_dline [lit ''-a'', lit ''-b'', lit ''+a'']" by (simp add: miscounted_hunk_def made_hunk_def)
  have p: "printed ?h" unfolding printed_def
    using b l by (auto simp: miscounted_hunk_def made_hunk_def)
  have i: "old_image ?h = [lit ''a'', lit ''b'']" "new_image ?h = [lit ''a'']"
    using text_images [OF p] l by (simp_all add: hunk_text_def)
  have nd: "newline \<notin> set (decimal n)" for n using decimal_digits by fastforce
  have "hunk_at (lit ''a/f'') (lit ''b/f'') [] ?h [] 2"
    using p unfolding hunk_at_def by (simp add: clean_patch_def patch_lines_def)
      (simp add: hunk_lines_def l, simp add: clean_line_def miscounted_hunk_def made_hunk_def hunk_header_def nd)
  then show ?thesis using refreshed_hunk_is_minimal [OF blank_plain(1), of _ _ "[]" ?h "[]" 2] unfolding i append_Nil by blast
qed

text \<open>Ignoring white space, run by run.\<close>

definition blank_pair :: "(uchar \<Rightarrow> bool) \<Rightarrow> str \<times> str \<Rightarrow> bool" where
  "blank_pair space = (\<lambda>(d, a). tl d \<noteq> tl a \<and> squeeze space (tl d) = squeeze space (tl a))"

definition lines_with :: "string \<Rightarrow> str list \<Rightarrow> str list" where
  "lines_with sign body = map tl (filter (starts_with sign) body)"

lemma lines_with_signs [simp]:
  "lines_with sign (a @ b) = lines_with sign a @ lines_with sign b" "lines_with sign [] = []"
  "lines_with '' '' ((32 # x) # b) = x # lines_with '' '' b" "lines_with ''-'' ((32 # x) # b) = lines_with ''-'' b"
  "lines_with ''+'' ((32 # x) # b) = lines_with ''+'' b"
  by (simp_all add: lines_with_def)

lemma lines_with_all:
  assumes "list_all (starts_with ''-'') ds" "list_all (starts_with ''+'') as"
  shows "lines_with ''-'' ds = map tl ds" "lines_with ''+'' ds = []" "lines_with '' '' ds = []"
    "lines_with ''+'' as = map tl as" "lines_with ''-'' as = []" "lines_with '' '' as = []"
proof -
  have "starts_with ''-'' l \<Longrightarrow> \<not> starts_with ''+'' l \<and> \<not> starts_with '' '' l" "starts_with ''+'' l \<Longrightarrow> \<not> starts_with ''-'' l \<and> \<not> starts_with '' '' l" for l
    by (cases l; simp)+
  then have "filter (starts_with ''-'') ds = ds" "filter (starts_with ''+'') ds = []" "filter (starts_with '' '') ds = []"
    "filter (starts_with ''+'') as = as" "filter (starts_with ''-'') as = []" "filter (starts_with '' '') as = []"
    using assms by (auto simp: list_all_iff filter_empty_conv intro!: filter_True)
  then show "lines_with ''-'' ds = map tl ds" "lines_with ''+'' ds = []" "lines_with '' '' ds = []"
    "lines_with ''+'' as = map tl as" "lines_with ''-'' as = []" "lines_with '' '' as = []"
    by (simp_all add: lines_with_def)
qed

lemma ignore_pairs_lines:
  "list_all (starts_with ''-'') (pd @ ds) \<Longrightarrow> list_all (starts_with ''+'') (pa @ as) \<Longrightarrow>
   lines_with '' '' (ignore_pairs space pd pa ds as) = map (tl \<circ> fst) (filter (blank_pair space) (zip ds as)) \<and>
   lines_with ''-'' (ignore_pairs space pd pa ds as) =
     map tl pd @ map (tl \<circ> fst) (filter (\<lambda>p. \<not> blank_pair space p) (zip ds as)) @ map tl (drop (length as) ds) \<and>
   lines_with ''+'' (ignore_pairs space pd pa ds as) =
     map tl pa @ map (tl \<circ> snd) (filter (\<lambda>p. \<not> blank_pair space p) (zip ds as)) @ map tl (drop (length ds) as)"
proof (induction space pd pa ds as rule: ignore_pairs.induct [case_names 1 2 3])
  case (1 space pd pa d ds a as)
  then show ?case using lines_with_all [of pd pa] by (cases "blank_pair space (d, a)") (auto simp: blank_pair_def)
next
  case (2 space pd pa as)
  then show ?case using lines_with_all [of pd "pa @ as"] by simp
next
  case (3 space pd pa ds)
  then show ?case using lines_with_all [of "pd @ ds" pa] by simp
qed

definition run_of :: "str list \<Rightarrow> str list \<Rightarrow> str list \<Rightarrow> str list \<Rightarrow> bool" where
  "run_of pre dels adds post \<longleftrightarrow>
     dels \<noteq> [] \<and> list_all (starts_with ''-'') dels \<and> list_all (starts_with ''+'') adds \<and>
     (pre = [] \<or> \<not> starts_with ''-'' (last pre)) \<and> (post = [] \<or> \<not> starts_with ''+'' (hd post) \<and> (adds = [] \<longrightarrow> \<not> starts_with ''-'' (hd post)))"

lemma takeWhile_run:
  assumes "list_all P xs" "ys = [] \<or> \<not> P (hd ys)"
  shows "takeWhile P (xs @ ys) = xs" "dropWhile P (xs @ ys) = ys"
  using assms by (induction xs) (cases ys; auto)+

lemma plus_not_minus: "starts_with ''+'' l \<Longrightarrow> \<not> starts_with ''-'' l"
  by (cases l) auto

lemma ignore_run:
  assumes "run_of pre dels adds post"
  shows "ignore_runs space (dels @ adds @ post) = ignore_pairs space [] [] dels adds @ ignore_runs space post"
proof -
  obtain d ds where d: "dels = d # ds" "starts_with ''-'' d" using assms by (cases dels) (auto simp: run_of_def)
  have "adds @ post = [] \<or> \<not> starts_with ''-'' (hd (adds @ post))"
    using assms plus_not_minus by (cases adds) (auto simp: run_of_def)
  then have "takeWhile (starts_with ''-'') (dels @ adds @ post) = dels" "dropWhile (starts_with ''-'') (dels @ adds @ post) = adds @ post"
    using assms by (intro takeWhile_run; simp add: run_of_def)+
  moreover have "takeWhile (starts_with ''+'') (adds @ post) = adds" "dropWhile (starts_with ''+'') (adds @ post) = post"
    using assms by (intro takeWhile_run; auto simp: run_of_def)+
  ultimately show ?thesis
    using d ignore_runs.simps(2) [of space d "ds @ adds @ post"] by (simp add: Let_def del: ignore_runs.simps takeWhile.simps dropWhile.simps)
qed

lemma ignore_runs_append:
  "pre = [] \<or> \<not> starts_with ''-'' (last pre) \<Longrightarrow> starts_with ''-'' (hd rest) \<Longrightarrow> rest \<noteq> [] \<Longrightarrow>
   ignore_runs space (pre @ rest) = ignore_runs space pre @ ignore_runs space rest"
proof (induction space pre rule: ignore_runs.induct)
  case (2 space l b)
  show ?case
  proof (cases "starts_with ''-'' l")
    case True
    define dels more where "dels = takeWhile (starts_with ''-'') (l # b)" and "more = dropWhile (starts_with ''-'') (l # b)"
    define adds post where "adds = takeWhile (starts_with ''+'') more" and "post = dropWhile (starts_with ''+'') more"
    have b: "l # b = dels @ adds @ post" by (simp add: dels_def adds_def post_def more_def del: takeWhile.simps dropWhile.simps)
    have runs: "list_all (starts_with ''-'') dels" "list_all (starts_with ''+'') adds" by (simp_all add: dels_def adds_def run_of_lines)
    have ne: "dels \<noteq> []" using True by (simp add: dels_def)
    have "adds = [] \<Longrightarrow> post = more" by (metis adds_def post_def append_Nil takeWhile_dropWhile_id)
    then have stop: "post = [] \<or> \<not> starts_with ''+'' (hd post) \<and> (adds = [] \<longrightarrow> \<not> starts_with ''-'' (hd post))"
      unfolding post_def more_def using hd_dropWhile by metis
    have one: "run_of [] dels adds post" using runs ne stop by (simp add: run_of_def)
    have pre: "\<not> starts_with ''-'' (last (dels @ adds @ post))" using 2(3) unfolding b using ne by simp
    then have last: "post = [] \<or> \<not> starts_with ''-'' (last post)" by (cases "post = []") simp_all
    have "starts_with ''-'' (last dels)" using runs(1) ne by (simp add: list_all_iff)
    then have "adds = [] \<Longrightarrow> post \<noteq> []" using pre by auto
    then have two: "run_of [] dels adds (post @ rest)"
      using one 2(4,5) plus_not_minus [of "hd rest"] by (cases post) (auto simp: run_of_def)
    have IH: "ignore_runs space (post @ rest) = ignore_runs space post @ ignore_runs space rest"
      unfolding post_def by (rule 2(2) [OF _ dels_def more_def]) (use True last 2(4,5) in \<open>simp_all add: post_def\<close>)
    have "ignore_runs space ((l # b) @ rest) = ignore_pairs space [] [] dels adds @ ignore_runs space (post @ rest)"
      using ignore_run [OF two] by (simp only: b append.assoc)
    moreover have "ignore_runs space (l # b) = ignore_pairs space [] [] dels adds @ ignore_runs space post"
      using ignore_run [OF one] by (simp only: b)
    ultimately show ?thesis unfolding IH by simp
  next
    case False
    then show ?thesis using 2 by (cases b) auto
  qed
qed simp

text \<open>C25: Ignoring white space in a hunk rewrites its body and nothing else: the old side stays, and the new
  side changes in white space only.  In every run of removed lines followed by added ones, wherever it stands
  in the hunk, exactly the pairs that differ in white space only become context lines with the old text; all
  other removed and added lines of the run stay removed and added, in their order.\<close>

theorem ignored_whitespace:
  assumes "plain_space space" "hunk_at s t hs h hs' at"
  shows "\<exists>body. diff_ignore_whitespace_hunk space (patch_text s t (hs @ h # hs')) at = Some (patch_text s t (hs @ recounted h body # hs')) \<and>
    hunk_old body = old_image h \<and> map (squeeze space) (hunk_new body) = map (squeeze space) (new_image h) \<and>
    (\<forall>pre dels adds post. hunk_text h = pre @ dels @ adds @ post \<and> run_of pre dels adds post \<longrightarrow>
      (\<exists>pre' run post'. body = pre' @ run @ post' \<and> hunk_old pre' = hunk_old pre \<and> hunk_old post' = hunk_old post \<and>
        map (squeeze space) (hunk_new pre') = map (squeeze space) (hunk_new pre) \<and>
        lines_with '' '' run = map (tl \<circ> fst) (filter (blank_pair space) (zip dels adds)) \<and>
        lines_with ''-'' run = map (tl \<circ> fst) (filter (\<lambda>p. \<not> blank_pair space p) (zip dels adds)) @ map tl (drop (length adds) dels) \<and>
        lines_with ''+'' run = map (tl \<circ> snd) (filter (\<lambda>p. \<not> blank_pair space p) (zip dels adds)) @ map tl (drop (length dels) adds)))"
proof (rule exI [of _ "ignore_runs space (hunk_text h)"], intro conjI allI impI)
  let ?body = "ignore_runs space (hunk_text h)"
  have "printed h" using assms(2) by (simp add: hunk_at_def clean_patch_def)
  note i = text_images [OF this]
  show "diff_ignore_whitespace_hunk space (patch_text s t (hs @ h # hs')) at = Some (patch_text s t (hs @ recounted h ?body # hs'))"
    unfolding diff_ignore_whitespace_hunk_def by (rule ignoring.rewritten [OF assms])
  show "hunk_old ?body = old_image h" "map (squeeze space) (hunk_new ?body) = map (squeeze space) (new_image h)"
    using ignore_runs_sides [of space "hunk_text h"] i by simp_all
next
  fix pre dels adds post
  assume run: "hunk_text h = pre @ dels @ adds @ post \<and> run_of pre dels adds post"
  then have ends: "pre = [] \<or> \<not> starts_with ''-'' (last pre)" "starts_with ''-'' (hd (dels @ adds @ post))" "dels @ adds @ post \<noteq> []"
    by (auto simp: run_of_def list_all_iff)
  have split: "ignore_runs space (hunk_text h) = ignore_runs space pre @ ignore_pairs space [] [] dels adds @ ignore_runs space post"
    using ignore_runs_append [OF ends] ignore_run [of pre dels adds post] run by simp
  have "list_all (starts_with ''-'') ([] @ dels)" "list_all (starts_with ''+'') ([] @ adds)" using run by (simp_all add: run_of_def)
  note L = ignore_pairs_lines [OF this, of space]
  show "\<exists>pre' run post'. ignore_runs space (hunk_text h) = pre' @ run @ post' \<and> hunk_old pre' = hunk_old pre \<and> hunk_old post' = hunk_old post \<and>
      map (squeeze space) (hunk_new pre') = map (squeeze space) (hunk_new pre) \<and>
      lines_with '' '' run = map (tl \<circ> fst) (filter (blank_pair space) (zip dels adds)) \<and>
      lines_with ''-'' run = map (tl \<circ> fst) (filter (\<lambda>p. \<not> blank_pair space p) (zip dels adds)) @ map tl (drop (length adds) dels) \<and>
      lines_with ''+'' run = map (tl \<circ> snd) (filter (\<lambda>p. \<not> blank_pair space p) (zip dels adds)) @ map tl (drop (length dels) adds)"
    unfolding split
    by (rule exI [of _ "ignore_runs space pre"], rule exI [of _ "ignore_pairs space [] [] dels adds"], rule exI [of _ "ignore_runs space post"])
      (use ignore_runs_sides [of space pre] ignore_runs_sides [of space post] L in simp)
qed

lemma ignored_whitespace_witness:
  "\<exists>body run. diff_ignore_whitespace_hunk only_blank
      (patch_text (lit ''a/f'') (lit ''b/f'') [made_hunk 1 1 [lit '' c'', lit ''-a'', lit ''-b'', lit ''+ a'', lit ''+x'', lit '' d'']]) 2 =
      Some (patch_text (lit ''a/f'') (lit ''b/f'') [recounted (made_hunk 1 1 [lit '' c'', lit ''-a'', lit ''-b'', lit ''+ a'', lit ''+x'', lit '' d'']) body]) \<and>
    (\<exists>pre post. body = pre @ run @ post) \<and> lines_with '' '' run = [lit ''a''] \<and> lines_with ''-'' run = [lit ''b''] \<and> lines_with ''+'' run = [lit ''x'']"
proof -
  let ?h = "made_hunk 1 1 [lit '' c'', lit ''-a'', lit ''-b'', lit ''+ a'', lit ''+x'', lit '' d'']"
  have at: "hunk_at (lit ''a/f'') (lit ''b/f'') [] ?h [] 2"
    unfolding hunk_at_def by (simp add: clean_patch_def patch_lines_def body_ok_def signed_def header_pair_def)
      (simp add: clean_line_def made_hunk_def)
  have run: "hunk_text ?h = [lit '' c''] @ [lit ''-a'', lit ''-b''] @ [lit ''+ a'', lit ''+x''] @ [lit '' d''] \<and>
      run_of [lit '' c''] [lit ''-a'', lit ''-b''] [lit ''+ a'', lit ''+x''] [lit '' d'']"
    by (simp add: hunk_text_def made_hunk_def run_of_def)
  obtain body where b: "diff_ignore_whitespace_hunk only_blank (patch_text (lit ''a/f'') (lit ''b/f'') [?h]) 2 =
      Some (patch_text (lit ''a/f'') (lit ''b/f'') [recounted ?h body])"
    and only: "\<forall>pre dels adds post. hunk_text ?h = pre @ dels @ adds @ post \<and> run_of pre dels adds post \<longrightarrow>
      (\<exists>pre' run post'. body = pre' @ run @ post' \<and> hunk_old pre' = hunk_old pre \<and> hunk_old post' = hunk_old post \<and>
        map (squeeze only_blank) (hunk_new pre') = map (squeeze only_blank) (hunk_new pre) \<and>
        lines_with '' '' run = map (tl \<circ> fst) (filter (blank_pair only_blank) (zip dels adds)) \<and>
        lines_with ''-'' run = map (tl \<circ> fst) (filter (\<lambda>p. \<not> blank_pair only_blank p) (zip dels adds)) @ map tl (drop (length adds) dels) \<and>
        lines_with ''+'' run = map (tl \<circ> snd) (filter (\<lambda>p. \<not> blank_pair only_blank p) (zip dels adds)) @ map tl (drop (length dels) adds))"
    using ignored_whitespace [OF blank_plain(1) at] unfolding append_Nil by (elim exE conjE) (rule that)
  show ?thesis using b only [rule_format, OF run] by (auto simp: blank_pair_def squeeze_def)
qed

lemma diff_of_mid:
  assumes "diff_of s t (gs @ (gap, h) # gs') rest"
  shows "printed h" "clean_patch s t (map snd gs @ h # map snd gs')"
    "dh_old_start h = length (woven_old gs) + length gap + (if old_image h = [] then 0 else 1)"
  using assms by (auto simp: diff_of_iff clean_patch_def fits_append)

lemma split_diff_of:
  assumes d: "diff_of s t (gs @ (gap, h) # gs') rest" and lines: "hunk_text h = b1 @ b2"
    and old: "hunk_old b1 \<noteq> []" "hunk_old b2 \<noteq> []" and sum: "dh_new_start h + length (hunk_new b1) < 2 ^ 64"
  shows "diff_of s t (gs @ (gap, made_hunk (dh_old_start h) (dh_new_start h) b1) #
    ([], made_hunk (dh_old_start h + length (hunk_old b1)) (dh_new_start h + length (hunk_new b1)) b2) # gs') rest"
proof -
  note pr = diff_of_mid [OF d]
  have ok: "body_ok b1" "body_ok b2" using printed_text(1) [OF pr(1)] body_ok_append [of b1 b2] unfolding lines by blast+
  have img: "old_image h = hunk_old b1 @ hunk_old b2" "new_image h = hunk_new b1 @ hunk_new b2"
    using text_images [OF pr(1)] lines by simp_all
  let ?h1 = "made_hunk (dh_old_start h) (dh_new_start h) b1"
  let ?h2 = "made_hunk (dh_old_start h + length (hunk_old b1)) (dh_new_start h + length (hunk_new b1)) b2"
  let ?gs = "gs @ (gap, ?h1) # ([], ?h2) # gs'"
  note imgs = made_hunk_images [OF ok(1)] made_hunk_images [OF ok(2)]
  have w: "woven_old ?gs = woven_old (gs @ (gap, h) # gs')" "woven_new ?gs = woven_new (gs @ (gap, h) # gs')"
    by (simp_all add: imgs img)
  have "length (woven_old gs @ gap @ hunk_old b1 @ hunk_old b2 @ hunk_new b1 @ hunk_new b2) < 2 ^ 60"
    using d by (simp add: diff_of_iff img)
  then have "printed ?h1" "printed ?h2"
    using pr(1,3) ok sum by (auto simp: printed_def [of h] img)
  then have "clean_patch s t (map snd ?gs)"
    using pr(2) by (simp add: clean_patch_def patch_lines_def hunk_lines_text [of h] lines)
  moreover have "hunks_fit 0 ?gs"
    using d pr(3) old by (simp add: diff_of_iff fits_append imgs img) (simp add: made_hunk_def add.assoc)
  moreover have "(case ?gs of (gap, h) # _ \<Rightarrow> gap @ old_image h \<noteq> [] | [] \<Rightarrow> True)"
    using d old(1) by (cases gs) (auto simp: diff_of_iff imgs)
  ultimately show ?thesis
    using d unfolding diff_of_iff w by blast
qed

lemma hunks_of_diff:
  assumes "plain_space space" "diff_of s t gs rest"
  shows "hunk_count (parse_diff space (patch_text s t (map snd gs))) = length gs"
  using parse_patch [OF assms(1), of s t "map snd gs"] assms(2) by (simp add: diff_of_iff hunk_count_def)

text \<open>C26: Splitting a hunk at one of its lines, with old lines before and after it, gives a diff with one
  hunk more that makes of the old text the same new text.\<close>

theorem split_diff_applies:
  assumes "plain_space space" "diff_of s t (gs @ (gap, h) # gs') rest" "hunk_text h = b1 @ b2"
    "hunk_old b1 \<noteq> []" "hunk_old b2 \<noteq> []" "dh_new_start h + length (hunk_new b1) < 2 ^ 64"
  shows "\<exists>D. diff_split_hunk space (patch_text s t (map snd (gs @ (gap, h) # gs')))
        (length (patch_lines s t (map snd gs)) + 1 + length b1) = Some (Some D) \<and>
    applied space D (text_of (woven_old (gs @ (gap, h) # gs') @ rest)) (text_of (woven_new (gs @ (gap, h) # gs') @ rest)) \<and>
    hunk_count (parse_diff space D) = hunk_count (parse_diff space (patch_text s t (map snd (gs @ (gap, h) # gs')))) + 1"
proof -
  let ?h1 = "made_hunk (dh_old_start h) (dh_new_start h) b1"
  let ?h2 = "made_hunk (dh_old_start h + length (hunk_old b1)) (dh_new_start h + length (hunk_new b1)) b2"
  let ?gs = "gs @ (gap, ?h1) # ([], ?h2) # gs'"
  note pr = diff_of_mid [OF assms(2)]
  have ok: "body_ok b1" "body_ok b2" using printed_text(1) [OF pr(1)] body_ok_append [of b1 b2] unfolding assms(3) by blast+
  have img: "old_image h = hunk_old b1 @ hunk_old b2" "new_image h = hunk_new b1 @ hunk_new b2"
    using text_images [OF pr(1)] assms(3) by simp_all
  have d: "diff_of s t ?gs rest" by (rule split_diff_of [OF assms(2-6)])
  have "dh_old_start h + length (hunk_old b1) < 2 ^ 64" using assms(2) pr(3) by (simp add: diff_of_iff img)
  then have k: "diff_split_hunk space (patch_text s t (map snd (gs @ (gap, h) # gs')))
      (length (patch_lines s t (map snd gs)) + 1 + length b1) = Some (Some (patch_text s t (map snd ?gs)))"
    using split_hunk_at [OF assms(1) pr(2), of b1 b2] printed_text(2) [OF pr(1)] assms(3-6) by fastforce
  have w: "woven_old ?gs = woven_old (gs @ (gap, h) # gs')" "woven_new ?gs = woven_new (gs @ (gap, h) # gs')"
    by (simp_all add: made_hunk_images ok img)
  show ?thesis
  proof (intro exI conjI)
    show "applied space (patch_text s t (map snd ?gs)) (text_of (woven_old (gs @ (gap, h) # gs') @ rest))
        (text_of (woven_new (gs @ (gap, h) # gs') @ rest))"
      using diff_applies [OF assms(1) d] unfolding w .
    show "hunk_count (parse_diff space (patch_text s t (map snd ?gs))) =
        hunk_count (parse_diff space (patch_text s t (map snd (gs @ (gap, h) # gs')))) + 1"
      unfolding hunks_of_diff [OF assms(1,2)] hunks_of_diff [OF assms(1) d] by simp
  qed (rule k)
qed

lemma split_diff_applies_witness:
  "\<exists>D. diff_split_hunk only_blank (patch_text (lit ''a/f'') (lit ''b/f'') (map snd sample_gaps)) 4 = Some (Some D) \<and>
     applied only_blank D (text_of (woven_old sample_gaps @ [lit ''z''])) (text_of (woven_new sample_gaps @ [lit ''z'']))"
proof -
  have h: "hunk_text sample_hunk = [lit '' a''] @ [lit ''-b'', lit ''+x'', lit ''+y'']" "dh_new_start sample_hunk = 1"
    by (simp_all add: hunk_text_def sample_hunk_def made_hunk_def)
  have g: "sample_gaps = [] @ ([], sample_hunk) # tl sample_gaps" by (simp add: sample_gaps_def)
  have d: "diff_of (lit ''a/f'') (lit ''b/f'') ([] @ ([], sample_hunk) # tl sample_gaps) [lit ''z'']" using sample_diff g by simp
  have "length (patch_lines (lit ''a/f'') (lit ''b/f'') (map snd [])) + 1 + length [lit '' a''] = 4" by (simp add: patch_lines_def)
  then show ?thesis
    using split_diff_applies [OF blank_plain(1) d h(1)] h(2) unfolding g [symmetric] by auto
qed

text \<open>Killing one of several hunks gives a diff that applies as before and leaves the lines of that hunk
  unchanged.\<close>

theorem killed_hunk_stays_out:
  assumes "plain_space space" "diff_of s t (gs @ (gap, h) # gs') rest" "gs @ gs' \<noteq> []"
    "length (patch_lines s t (map snd gs)) \<le> at" "at < length (patch_lines s t (map snd gs @ [h]))"
  shows "\<exists>D. diff_hunk_kill (patch_text s t (map snd (gs @ (gap, h) # gs'))) at = Some D \<and>
    applied space D (text_of (woven_old (gs @ (gap, h) # gs') @ rest))
      (text_of (woven_new gs @ gap @ old_image h @ woven_new gs' @ rest))"
proof -
  note pr = diff_of_mid [OF assms(2)]
  have k: "diff_hunk_kill (patch_text s t (map snd (gs @ (gap, h) # gs'))) at = Some (patch_text s t (map snd gs @ map snd gs'))"
    using kill_hunk_at [OF pr(2) _ assms(4,5)] assms(3) by simp
  show ?thesis
  proof (cases gs')
    case Nil
    have "diff_below (2 ^ 62) s t gs (gap @ old_image h @ rest)"
      using assms(2,3) Nil by (cases gs) (auto simp: diff_of_iff diff_below_def clean_patch_def patch_lines_def fits_append)
    then show ?thesis using k diff_below_applies [OF assms(1)] by (fastforce simp: Nil)
  next
    case (Cons g gs'')
    obtain gap' h' where g: "g = (gap', h')" by (cases g)
    have "diff_below (2 ^ 62) s t (gs @ (gap @ old_image h @ gap', h') # gs'') rest"
      using assms(2)
      by (cases gs) (auto simp: Cons g diff_of_iff diff_below_def clean_patch_def patch_lines_def fits_append add.assoc)
    then show ?thesis using k diff_below_applies [OF assms(1)] by (fastforce simp: Cons g)
  qed
qed

lemma killed_hunk_stays_out_witness:
  "\<exists>D. diff_hunk_kill (patch_text (lit ''a/f'') (lit ''b/f'') (map snd sample_gaps)) 3 = Some D \<and>
     applied only_blank D (text_of (woven_old sample_gaps @ [lit ''z'']))
       (text_of [lit ''a'', lit ''b'', lit ''c'', lit ''e'', lit ''z''])"
proof -
  have g: "sample_gaps = [] @ ([], sample_hunk) # tl sample_gaps" by (simp add: sample_gaps_def)
  have d: "diff_of (lit ''a/f'') (lit ''b/f'') ([] @ ([], sample_hunk) # tl sample_gaps) [lit ''z'']" using sample_diff g by simp
  have i: "old_image sample_hunk = [lit ''a'', lit ''b'']" "woven_new (tl sample_gaps) = [lit ''c'', lit ''e'']"
    by (simp_all add: sample_hunk_def sample_gaps_def made_hunk_images body_ok_def signed_def header_pair_def)
  have "length (patch_lines (lit ''a/f'') (lit ''b/f'') (map snd [])) \<le> 3"
    "3 < length (patch_lines (lit ''a/f'') (lit ''b/f'') (map snd [] @ [sample_hunk]))" "[] @ tl sample_gaps \<noteq> []"
    by (simp_all add: patch_lines_def sample_hunk_def sample_gaps_def)
  then show ?thesis
    using killed_hunk_stays_out [OF blank_plain(1) d, of 3] i unfolding g [symmetric] by auto
qed

text \<open>C27: A printed unified diff whose hunks change something, removed lines before added ones in every run,
  without markers about a missing newline and without an empty range before line two, and whose file names do
  not read as a range line, becomes a context diff, and the way back restores its text.\<close>

theorem context_round_trip:
  assumes "wide_space space" "clean_patch s t hs" "list_all convertible hs" "file_labels_ok space s t"
  shows "Option.bind (diff_unified_to_context space (patch_text s t hs)) (diff_context_to_unified space) = Some (patch_text s t hs)"
proof -
  have "plain_space space" using assms(1) by (simp add: wide_space_def)
  then show ?thesis
    using to_context_patch [OF _ assms(2,3)] to_unified_patch [OF assms] by simp
qed

lemma context_round_trip_witness:
  "Option.bind (diff_unified_to_context only_blank (patch_text (lit ''a/f'') (lit ''b/f'') (map snd sample_gaps))) (diff_context_to_unified only_blank) =
   Some (patch_text (lit ''a/f'') (lit ''b/f'') (map snd sample_gaps))"
proof (rule context_round_trip [OF blank_plain(2) sample_ok(1)])
  show "list_all convertible (map snd sample_gaps)"
    by (simp add: sample_gaps_def sample_hunk_def convertible_def hunk_text_def)
      (simp add: made_hunk_def range_ok_def plain_line_def signed_def is_no_newline_marker_def)
  show "file_labels_ok only_blank (lit ''a/f'') (lit ''b/f'')"
    by (simp add: file_labels_ok_def old_range_line_def new_range_line_def ends_with_def)
qed

section \<open>Where the code departs from its comments\<close>

text \<open>The texts of the runs below are given by their lines.\<close>

lemma return_is_dropped:
  "diff_reverse_direction only_blank ([97, 13, 10]) = [97, 10]"
  by code_simp

lemma reverse_not_involutive:
  "diff_reverse_direction only_blank (diff_reverse_direction only_blank (text_of [lit ''--- a'', lit ''+++ b'', lit ''@@ -1 +1 @@'', lit ''+-- x'', lit ''-++ y''])) \<noteq>
   text_of [lit ''--- a'', lit ''+++ b'', lit ''@@ -1 +1 @@'', lit ''+-- x'', lit ''-++ y'']"
  by code_simp

text \<open>A half without old lines names the line after the place where it inserts.\<close>

lemma split_half_misplaced:
  "diff_split_hunk only_blank (patch_text (lit ''f'') (lit ''f'') [made_hunk 1 1 [lit ''+x'', lit '' a'', lit '' b'']]) 4 =
    Some (Some (patch_text (lit ''f'') (lit ''f'') [made_hunk 1 1 [lit ''+x''], made_hunk 1 2 [lit '' a'', lit '' b'']]))"
  "apply_hunk (text_of [lit ''a'', lit ''b'']) (made_hunk 1 1 [lit ''+x'']) = Some (Inr (text_of [lit ''a'', lit ''x'', lit ''b'']))"
  "apply_hunk (text_of [lit ''a'', lit ''b'']) (made_hunk 1 1 [lit ''+x'', lit '' a'', lit '' b'']) =
    Some (Inr (text_of [lit ''x'', lit ''a'', lit ''b'']))"
proof -
  let ?h = "made_hunk 1 1 [lit ''+x'', lit '' a'', lit '' b'']"
  have l: "length (patch_lines (lit ''f'') (lit ''f'') []) + 1 + length [lit ''+x''] = 4" by (simp add: patch_lines_def)
  have hs: "dh_old_start ?h = 1" "dh_new_start ?h = 1" "dh_lines ?h = map body_dline ([lit ''+x''] @ [lit '' a'', lit '' b''])"
    "1 + length (hunk_old [lit ''+x'']) = 1" "1 + length (hunk_new [lit ''+x'']) = 2" "map snd [] = []"
    by (simp_all add: made_hunk_def)
  have "clean_patch (lit ''f'') (lit ''f'') ([] @ ?h # [])"
    by (simp add: clean_patch_def patch_lines_def body_ok_def signed_def header_pair_def) (simp add: clean_line_def)
  then show "diff_split_hunk only_blank (patch_text (lit ''f'') (lit ''f'') [?h]) 4 =
    Some (Some (patch_text (lit ''f'') (lit ''f'') [made_hunk 1 1 [lit ''+x''], made_hunk 1 2 [lit '' a'', lit '' b'']]))"
    using split_hunk_at [OF blank_plain(1), of "lit ''f''" "lit ''f''" "[]" ?h "[]" "[lit ''+x'']" "[lit '' a'', lit '' b'']"]
    unfolding l hs by simp
  have im: "old_image (made_hunk 1 1 [lit ''+x'']) = []" "new_image (made_hunk 1 1 [lit ''+x'']) = [lit ''x'']"
    "old_image ?h = [lit ''a'', lit ''b'']" "new_image ?h = [lit ''x'', lit ''a'', lit ''b'']"
    "dh_old_start (made_hunk 1 1 [lit ''+x'']) = 1"
    by (simp_all add: made_hunk_images body_ok_def signed_def header_pair_def) (simp add: made_hunk_def)
  have c: "list_all clean_line [lit ''a'', lit ''b'']" by (simp add: clean_line_def)
  show "apply_hunk (text_of [lit ''a'', lit ''b'']) (made_hunk 1 1 [lit ''+x'']) = Some (Inr (text_of [lit ''a'', lit ''x'', lit ''b'']))"
    using apply_hunk_at [of "[lit ''a'']" "made_hunk 1 1 [lit ''+x'']" "[lit ''b'']"] c unfolding im text_of_def by (simp del: lit_simps)
  show "apply_hunk (text_of [lit ''a'', lit ''b'']) ?h = Some (Inr (text_of [lit ''x'', lit ''a'', lit ''b'']))"
    using apply_hunk_at [of "[]" ?h "[]"] c unfolding im hs(1) text_of_def by (simp del: lit_simps)
qed

lemma new_file_without_newline: "apply_hunk [] (made_hunk 0 1 [lit ''+a'']) = Some (Inr (lit ''a''))"
proof -
  have "body_ok [lit ''+a'']" by (simp add: body_ok_def signed_def header_pair_def)
  then show ?thesis
    by (simp add: apply_hunk_def made_hunk_images to_lines_def str_lines_def from_lines_def)
qed

text \<open>A new file's old range \<open>0,0\<close> comes back with one line.\<close>

lemma empty_range_grows:
  "ctx_range 0 0 = Some (lit ''0,0'') \<and> unified_from_ctx_range (parse_ctx_range only_blank (lit ''0,0 ****'')) = Some (0, 1)"
  using parse_ctx_range_word [OF blank_plain(2), of 0 0 "lit ''****''"]
  by (simp add: ctx_range_def decimal.simps [of 0] print_range_def unified_from_ctx_range_def checked_u64_def)

lemma marker_becomes_line:
  "Option.bind (those (map ctx_entry (ctx_side ''-'' [lit ''+b'', [92] @ lit '' No newline''])))
     (\<lambda>new. Some (merge_context_sides [] new)) = Some [lit ''+b'', lit '' No newline'']"
  by (simp add: ctx_side_def is_no_newline_marker_def ctxify_def ctx_entry_def byte_length_def char_bytes_def numeral_2_eq_2)

lemma entry_cut_in_character: "ctx_entry [0x20AC] = None"
  by (simp add: ctx_entry_def byte_length_def char_bytes_def numeral_2_eq_2)

end
