(* ===== verification/Calendar.thy ===== *)
theory Calendar
  imports Prelude "HOL-Library.Signed_Division"
begin

text \<open>
  \<open>zmax-core/src/calendar.rs\<close>, the Gregorian half: serial day numbers and back, the moves of the
  calendar's point date, ISO weeks, weekdays of a month, holidays and the date parser.  All integers
  are \<open>int\<close>; the casts \<open>as i32\<close> and \<open>as u32\<close> are written out, and the \<open>i64\<close> sums of the source
  do not overflow for the \<open>i32\<close> years the theorems speak about.  \<open>sdiv\<close> and \<open>smod\<close> are the truncating
  division of Rust, \<open>div\<close> and \<open>mod\<close> are \<open>div_euclid\<close> and \<open>rem_euclid\<close> by a positive number.
\<close>

section \<open>Dates and serial numbers\<close>

definition as_i32 :: "int \<Rightarrow> int" where
  "as_i32 x = (x + 2 ^ 31) mod 2 ^ 32 - 2 ^ 31"

definition as_u32 :: "int \<Rightarrow> int" where
  "as_u32 x = x mod 2 ^ 32"

lemma as_i32_id [simp]: "- (2 ^ 31) \<le> x \<Longrightarrow> x < 2 ^ 31 \<Longrightarrow> as_i32 x = x"
  by (simp add: as_i32_def)

lemma as_u32_id [simp]: "0 \<le> x \<Longrightarrow> x < 2 ^ 32 \<Longrightarrow> as_u32 x = x"
  by (simp add: as_u32_def)

record date =
  year :: int
  month :: int
  day :: int

abbreviation date_new :: "int \<Rightarrow> int \<Rightarrow> int \<Rightarrow> date" where
  "date_new y m d \<equiv> \<lparr>year = y, month = m, day = d\<rparr>"

definition to_serial :: "date \<Rightarrow> int" where
  "to_serial d =
     (let m = month d;
          y = year d - (if m \<le> 2 then 1 else 0);
          era = (if 0 \<le> y then y else y - 399) sdiv 400;
          yoe = y - era * 400;
          doy = (153 * (m + (if 2 < m then - 3 else 9)) + 2) sdiv 5 + day d - 1;
          doe = yoe * 365 + yoe sdiv 4 - yoe sdiv 100 + doy
      in era * 146097 + doe - 719468)"

definition from_serial :: "int \<Rightarrow> date" where
  "from_serial z0 =
     (let z = z0 + 719468;
          era = (if 0 \<le> z then z else z - 146096) sdiv 146097;
          doe = z - era * 146097;
          yoe = (doe - doe sdiv 1460 + doe sdiv 36524 - doe sdiv 146096) sdiv 365;
          y = yoe + era * 400;
          doy = doe - (365 * yoe + yoe sdiv 4 - yoe sdiv 100);
          mp = (5 * doy + 2) sdiv 153;
          d = doy - (153 * mp + 2) sdiv 5 + 1;
          m = (if mp < 10 then mp + 3 else mp - 9)
      in \<lparr>year = as_i32 (y + (if m \<le> 2 then 1 else 0)), month = as_u32 m, day = as_u32 d\<rparr>)"

definition weekday :: "date \<Rightarrow> int" where
  "weekday d = as_u32 ((to_serial d smod 7 + 4) mod 7)"

definition is_leap :: "int \<Rightarrow> bool" where
  "is_leap y \<longleftrightarrow> (y smod 4 = 0 \<and> y smod 100 \<noteq> 0) \<or> y smod 400 = 0"

definition days_in_month :: "int \<Rightarrow> int \<Rightarrow> int" where
  "days_in_month y m =
     (if m \<in> {1, 3, 5, 7, 8, 10, 12} then 31
      else if m \<in> {4, 6, 9, 11} then 30
      else if m = 2 then (if is_leap y then 29 else 28)
      else 30)"

definition day_of_year :: "date \<Rightarrow> int" where
  "day_of_year d = as_u32 (to_serial d - to_serial (date_new (year d) 1 1) + 1)"

definition valid_date :: "date \<Rightarrow> bool" where
  "valid_date d \<longleftrightarrow> - (2 ^ 31) \<le> year d \<and> year d < 2 ^ 31 \<and> 1 \<le> month d \<and> month d \<le> 12 \<and>
     1 \<le> day d \<and> day d \<le> days_in_month (year d) (month d)"

section \<open>The moves of the point date\<close>

definition add_days :: "date \<Rightarrow> int \<Rightarrow> date" where
  "add_days d n = from_serial (to_serial d + n)"

definition add_months :: "date \<Rightarrow> int \<Rightarrow> date" where
  "add_months d n =
     (let total = year d * 12 + (month d - 1) + n;
          y = as_i32 (total div 12);
          m = as_u32 (total mod 12 + 1)
      in date_new y m (min (day d) (days_in_month y m)))"

definition add_years :: "date \<Rightarrow> int \<Rightarrow> date" where
  "add_years d n = add_months d (n * 12)"

definition beginning_of_week :: "date \<Rightarrow> date" where
  "beginning_of_week d = add_days d (- weekday d)"

definition end_of_week :: "date \<Rightarrow> date" where
  "end_of_week d = add_days d (6 - weekday d)"

definition count_days :: "date \<Rightarrow> date \<Rightarrow> int" where
  "count_days a b = \<bar>to_serial b - to_serial a\<bar> + 1"

definition beginning_of_month :: "date \<Rightarrow> date" where
  "beginning_of_month d = date_new (year d) (month d) 1"

definition end_of_month :: "date \<Rightarrow> date" where
  "end_of_month d = date_new (year d) (month d) (days_in_month (year d) (month d))"

definition beginning_of_year :: "date \<Rightarrow> date" where
  "beginning_of_year d = date_new (year d) 1 1"

definition end_of_year :: "date \<Rightarrow> date" where
  "end_of_year d = date_new (year d) 12 31"

definition julian_day :: "date \<Rightarrow> int" where
  "julian_day d = to_serial d + 2440588"

definition astro_day_number :: "date \<Rightarrow> int" where
  "astro_day_number d = julian_day d"

text \<open>ISO weeks.\<close>

definition iso_week :: "date \<Rightarrow> int \<times> int \<times> int" where
  "iso_week d =
     (let iso_dow = (weekday d + 6) mod 7 + 1;
          thursday = add_days d (4 - iso_dow);
          iso_year = year thursday;
          week = as_u32 ((to_serial thursday - to_serial (date_new iso_year 1 1)) sdiv 7 + 1)
      in (iso_year, week, iso_dow))"

definition date_from_iso :: "int \<Rightarrow> int \<Rightarrow> int \<Rightarrow> date" where
  "date_from_iso iso_year week wday =
     (let jan4 = date_new iso_year 1 4;
          jan4_iso = (weekday jan4 + 6) mod 7 + 1;
          week1_monday = to_serial jan4 - (jan4_iso - 1)
      in from_serial (week1_monday + (week - 1) * 7 + (wday - 1)))"

text \<open>Weekdays within a month; the \<open>u32\<close> subtractions start from 7 or the month's length.\<close>

definition nth_weekday :: "int \<Rightarrow> int \<Rightarrow> int \<Rightarrow> int \<Rightarrow> int" where
  "nth_weekday y m target n =
     (let first_wd = weekday (date_new y m 1);
          offset = (7 + target - first_wd) mod 7
      in 1 + offset + (n - 1) * 7)"

definition last_weekday :: "int \<Rightarrow> int \<Rightarrow> int \<Rightarrow> int" where
  "last_weekday y m target =
     (let dim = days_in_month y m;
          last_wd = weekday (date_new y m dim)
      in dim - (7 + last_wd - target) mod 7)"

section \<open>Holidays\<close>

definition fixed_holidays :: "(int \<times> int \<times> str) list" where
  "fixed_holidays =
     [(1, 1, lit ''New Year's Day''),
      (2, 2, lit ''Groundhog Day''),
      (2, 14, lit ''Valentine's Day''),
      (3, 17, lit ''St. Patrick's Day''),
      (4, 1, lit ''April Fools' Day''),
      (6, 19, lit ''Juneteenth''),
      (7, 4, lit ''Independence Day''),
      (10, 31, lit ''Halloween''),
      (11, 11, lit ''Veterans Day''),
      (12, 25, lit ''Christmas''),
      (12, 31, lit ''New Year's Eve'')]"

definition floating_holidays :: "int \<Rightarrow> int \<Rightarrow> (int \<times> str) list" where
  "floating_holidays y m =
     (if m = 1 then [(nth_weekday y 1 1 3, lit ''Martin Luther King Jr. Day'')]
      else if m = 2 then [(nth_weekday y 2 1 3, lit ''Presidents' Day'')]
      else if m = 5 then [(last_weekday y 5 1, lit ''Memorial Day'')]
      else if m = 9 then [(nth_weekday y 9 1 1, lit ''Labor Day'')]
      else if m = 10 then [(nth_weekday y 10 1 2, lit ''Columbus Day'')]
      else if m = 11 then [(nth_weekday y 11 4 4, lit ''Thanksgiving'')]
      else [])"

definition holidays :: "int \<Rightarrow> int \<Rightarrow> (int \<times> str) list" where
  "holidays y m =
     sort_key fst ([(d, name). (m', d, name) \<leftarrow> fixed_holidays, m' = m] @ floating_holidays y m)"

definition holiday_on :: "date \<Rightarrow> str option" where
  "holiday_on d = map_option snd (find (\<lambda>(dd, _). dd = day d) (holidays (year d) (month d)))"

section \<open>Parsing a date\<close>

text \<open>\<open>str::parse::<i64>\<close>: an optional sign, then digits, within range.\<close>

definition parse_i64 :: "str \<Rightarrow> int option" where
  "parse_i64 s =
     (let (neg, ds) = (case s of [] \<Rightarrow> (False, [])
            | c # cs \<Rightarrow> if c = uc CHR ''-'' then (True, cs)
                       else if c = uc CHR ''+'' then (False, cs) else (False, s));
          n = foldl (\<lambda>n c. 10 * n + (int c - 48)) 0 ds;
          v = (if neg then - n else n)
      in if ds = [] \<or> list_ex (\<lambda>c. \<not> (48 \<le> c \<and> c \<le> 57)) ds then None
         else if - (2 ^ 63) \<le> v \<and> v < 2 ^ 63 then Some v else None)"

text \<open>\<open>str::split\<close> by a test on characters.\<close>

fun split_where :: "(uchar \<Rightarrow> bool) \<Rightarrow> str \<Rightarrow> str list" where
  "split_where p [] = [[]]"
| "split_where p (x # xs) =
     (if p x then [] # split_where p xs
      else case split_where p xs of w # ws \<Rightarrow> (x # w) # ws | [] \<Rightarrow> [[x]])"

definition parse_ymd :: "(uchar \<Rightarrow> bool) \<Rightarrow> str \<Rightarrow> date option" where
  "parse_ymd space s =
     (case those (map parse_i64 [t \<leftarrow> split_where (\<lambda>c. c \<in> {uc CHR ''/'', uc CHR ''-'', uc CHR '',''} \<or> space c) s. t \<noteq> []]) of
        Some [y, m, d] \<Rightarrow>
          if \<not> (1 \<le> m \<and> m \<le> 12) then None
          else let yr = as_i32 y; mo = as_u32 m
               in if d < 1 \<or> as_u32 d > days_in_month yr mo then None
                  else Some (date_new yr mo (as_u32 d))
      | _ \<Rightarrow> None)"

section \<open>Serial numbers count days\<close>

lemma sdiv_nonneg [simp]: "0 \<le> a \<Longrightarrow> 0 < b \<Longrightarrow> a sdiv b = a div b" for a b :: int
  by (cases "a = 0") (simp_all add: signed_divide_int_def)

lemma sdiv_neg: "a < 0 \<Longrightarrow> 0 < b \<Longrightarrow> a sdiv b = - ((- a) div b)" for a b :: int
  by (simp add: signed_divide_int_def)

lemma smod_eq_0: "0 < b \<Longrightarrow> a smod b = 0 \<longleftrightarrow> a mod b = 0" for a b :: int
proof (cases "0 \<le> a")
  case False
  assume "0 < b"
  then have "a smod b = - ((- a) mod b)" using False
    by (simp add: signed_modulo_int_def sdiv_neg minus_div_mult_eq_mod [symmetric])
  then show ?thesis by (simp add: mod_eq_0_iff_dvd)
qed (cases "a = 0"; simp add: signed_modulo_int_def minus_div_mult_eq_mod)

lemma era_floor:
  "(if 0 \<le> y then y else y - 399) sdiv 400 = y div 400"
  "(if 0 \<le> y then y else y - 146096) sdiv 146097 = y div 146097" for y :: int
  by (auto simp: sdiv_neg)

lemma is_leap_mod: "is_leap y \<longleftrightarrow> y mod 4 = 0 \<and> y mod 100 \<noteq> 0 \<or> y mod 400 = 0"
  by (simp add: is_leap_def smod_eq_0)

text \<open>The day within 400 years that begin in March: \<open>doe\<close> of the source.\<close>

definition day_of_era :: "int \<Rightarrow> int \<Rightarrow> int" where
  "day_of_era yoe doy = yoe * 365 + yoe div 4 - yoe div 100 + doy"

text \<open>The year that begins in the March of \<open>yoe\<close> has a leap day at its end when \<open>yoe + 1\<close> is a leap year.\<close>

definition march_year_length :: "int \<Rightarrow> int" where
  "march_year_length yoe = (if is_leap (yoe + 1) then 366 else 365)"

lemma leap_parts:
  assumes "0 \<le> c" "c \<le> 3" "0 \<le> q" "q \<le> 24" "0 \<le> r" "r \<le> 3"
  shows "is_leap (100 * c + 4 * q + r + 1) \<longleftrightarrow> r = 3 \<and> (q < 24 \<or> c = 3)"
proof (cases "r = 3")
  case False
  then have "(100 * c + 4 * q + r + 1) mod 4 \<noteq> 0" using assms by presburger
  moreover from this have "(100 * c + 4 * q + r + 1) mod 400 \<noteq> 0"
    using mod_mod_cancel [of 4 400 "100 * c + 4 * q + r + 1"] by auto
  ultimately show ?thesis using False by (simp add: is_leap_mod)
next
  case True
  have "(100 * c + 4 * q + 4) mod 4 = 0" by presburger
  moreover have "(100 * c + 4 * q + 4) mod 100 = 0 \<longleftrightarrow> q = 24"
  proof -
    have "(100 * c + 4 * q + 4) mod 100 = (4 * q + 4) mod 100"
      using mod_mult_self2 [of "4 * q + 4" 100 c] by (simp add: algebra_simps)
    then show ?thesis using assms(3,4) by (cases "q = 24") auto
  qed
  moreover have "(100 * c + 4 * q + 4) mod 400 = 0 \<longleftrightarrow> q = 24 \<and> c = 3"
  proof (cases "100 * c + 4 * q + 4 = 400")
    case True
    then have "c = 3" "q = 24" using assms(1-4) by linarith+
    then show ?thesis by simp
  next
    case False
    then have "100 * c + 4 * q + 4 < 400" using assms(1-4) by linarith
    then have "(100 * c + 4 * q + 4) mod 400 = 100 * c + 4 * q + 4"
      using assms(1,3) by (intro mod_pos_pos_trivial) auto
    then show ?thesis using False assms(1,3) by auto
  qed
  ultimately show ?thesis using True assms(4) by (auto simp: is_leap_mod add.commute)
qed

lemma yoe_parts:
  assumes "0 \<le> yoe" "yoe < 400"
  obtains c q r where "0 \<le> c" "c \<le> 3" "0 \<le> q" "q \<le> 24" "0 \<le> r" "r \<le> 3" "yoe = 100 * c + 4 * q + r"
    "yoe div 4 = 25 * c + q" "yoe div 100 = c"
    "is_leap (yoe + 1) \<longleftrightarrow> r = 3 \<and> (q < 24 \<or> c = 3)"
proof
  define m where "m = yoe mod 100"
  let ?c = "yoe div 100" and ?q = "m div 4" and ?r = "m mod 4"
  have m: "0 \<le> m" "m < 100" "yoe = m + 4 * (25 * ?c)" by (simp_all add: m_def)
  show b: "0 \<le> ?c" "?c \<le> 3" "0 \<le> ?q" "?q \<le> 24" "0 \<le> ?r" "?r \<le> 3"
    using assms m(1,2) by auto
  show y: "yoe = 100 * ?c + 4 * ?q + ?r" using m(3) by simp
  have "(m + 4 * (25 * ?c)) div 4 = 25 * ?c + m div 4" by simp
  then show "yoe div 4 = 25 * ?c + ?q" using m(3) by simp
  show "yoe div 100 = ?c" ..
  show "is_leap (yoe + 1) \<longleftrightarrow> ?r = 3 \<and> (?q < 24 \<or> ?c = 3)"
    using leap_parts [OF b] unfolding y [symmetric] .
qed

lemma day_of_era_bounds:
  assumes "0 \<le> yoe" "yoe < 400" "0 \<le> doy" "doy < march_year_length yoe"
  shows "0 \<le> day_of_era yoe doy \<and> day_of_era yoe doy < 146097 \<and> day_of_era yoe doy div 36524 \<le> 4"
proof -
  obtain c q r where p: "0 \<le> c" "c \<le> 3" "0 \<le> q" "q \<le> 24" "0 \<le> r" "r \<le> 3" "yoe = 100 * c + 4 * q + r"
    "yoe div 4 = 25 * c + q" "yoe div 100 = c" "is_leap (yoe + 1) \<longleftrightarrow> r = 3 \<and> (q < 24 \<or> c = 3)"
    by (rule yoe_parts [OF assms(1,2)])
  have "day_of_era yoe doy = 36524 * c + 1461 * q + 365 * r + doy"
    unfolding day_of_era_def p(8,9) by (simp add: p(7))
  then show ?thesis using p(1-6,10) assms(3,4) unfolding march_year_length_def by (auto split: if_splits)
qed

text \<open>Why the year is found: the three corrections amount to at most a day or two of it.\<close>

lemma yoe_recovered:
  assumes "0 \<le> yoe" "yoe < 400" "0 \<le> doy" "doy < march_year_length yoe"
  shows "let doe = day_of_era yoe doy in
    (doe - doe div 1460 + doe div 36524 - doe div 146096) div 365 = yoe"
proof -
  obtain c q r where p: "0 \<le> c" "c \<le> 3" "0 \<le> q" "q \<le> 24" "0 \<le> r" "r \<le> 3" "yoe = 100 * c + 4 * q + r"
    "yoe div 4 = 25 * c + q" "yoe div 100 = c" "is_leap (yoe + 1) \<longleftrightarrow> r = 3 \<and> (q < 24 \<or> c = 3)"
    by (rule yoe_parts [OF assms(1,2)])
  define doe where "doe = day_of_era yoe doy"
  define k where "k = (24 * c + q + 365 * r + doy) div 1460"
  have doe: "doe = 36524 * c + 1461 * q + 365 * r + doy"
    unfolding doe_def day_of_era_def p(8,9) by (simp add: p(7))
  have len: "doy \<le> 365" "doy = 365 \<Longrightarrow> r = 3 \<and> (q < 24 \<or> c = 3)"
    using assms(3,4) p(10) by (auto simp: march_year_length_def split: if_splits)
  have k: "0 \<le> k" "k \<le> 1" "k = 1 \<Longrightarrow> 2 \<le> doy" "doy = 365 \<Longrightarrow> k = 1"
    unfolding k_def using p(1-6) assms(3) len by auto
  have "doe = (24 * c + q + 365 * r + doy) + (25 * c + q) * 1460" by (simp add: doe)
  then have d1: "doe div 1460 = 25 * c + q + k" by (simp add: k_def)
  show ?thesis
  proof (cases "doe = 146096")
    case True
    have "c = 3" using True doe p(1-6) assms(3) len(1) by linarith
    moreover from this have "q = 24" using True doe p(1-6) assms(3) len(1) by linarith
    moreover from calculation have "r = 3" using True doe p(1-6) assms(3) len(1) by linarith
    ultimately have "yoe = 399" using p(7) by simp
    moreover have "(doe - doe div 1460 + doe div 36524 - doe div 146096) div 365 = 399" using True by simp
    ultimately show ?thesis by (simp add: doe_def Let_def)
  next
    case False
    have "doe < 146096" using day_of_era_bounds [OF assms] False by (simp add: doe_def)
    then have d3: "doe div 146096 = 0" using day_of_era_bounds [OF assms] by (simp add: doe_def)
    have d2: "doe div 36524 = c"
    proof -
      have "1461 * q + 365 * r + doy < 36524" 
      proof (cases "doy = 365")
        case True
        then show ?thesis using len(2) \<open>doe < 146096\<close> doe p(1-6) by (cases "c = 3") simp_all
      next
        case False
        then show ?thesis using len(1) p(1-6) by simp
      qed
      then show ?thesis using p(1-6) assms(3) doe by (simp add: div_pos_pos_trivial)
    qed
    have "doe - doe div 1460 + doe div 36524 - doe div 146096 = 365 * yoe + (doy - k)"
      unfolding d1 d2 d3 using doe p(7) by simp
    moreover have "0 \<le> doy - k \<and> doy - k < 365"
      using k len(1) assms(3) by (cases "k = 0"; cases "doy = 365"; simp)
    moreover have "(365 * yoe + t) div 365 = yoe" if "0 \<le> t \<and> t < 365" for t
      using that div_mult_self2 [of 365 t yoe] by (simp add: add.commute div_pos_pos_trivial)
    ultimately have "(doe - doe div 1460 + doe div 36524 - doe div 146096) div 365 = yoe" by simp
    then show ?thesis by (simp add: doe_def Let_def)
  qed
qed

text \<open>Every day of the era is some day of some year of it.\<close>

lemma day_of_era_surj:
  assumes "0 \<le> doe" "doe < 146097"
  obtains yoe doy where "0 \<le> yoe" "yoe < 400" "0 \<le> doy" "doy < march_year_length yoe" "doe = day_of_era yoe doy"
proof -
  define c where "c = min 3 (doe div 36524)"
  define x where "x = doe - 36524 * c"
  define q where "q = x div 1461"
  define z where "z = x - 1461 * q"
  define r where "r = min 3 (z div 365)"
  define doy where "doy = z - 365 * r"
  define yoe where "yoe = 100 * c + 4 * q + r"
  have c: "0 \<le> c" "c \<le> 3" "0 \<le> x" "x \<le> 36524" "x = 36524 \<Longrightarrow> c = 3"
  proof -
    define k w where "k = doe div 36524" and "w = doe mod 36524"
    have kw: "doe = 36524 * k + w" "0 \<le> w" "w < 36524" by (simp_all add: k_def w_def)
    have c: "c = min 3 k" by (simp add: c_def k_def)
    have "0 \<le> k" "k \<le> 4" using kw assms by linarith+
    then consider "c = k" "k \<le> 3" | "c = 3" "k = 4" "w = 0" using kw assms(2) c by linarith
    then have "0 \<le> c \<and> c \<le> 3 \<and> 0 \<le> x \<and> x \<le> 36524 \<and> (x = 36524 \<longrightarrow> c = 3)"
      using kw \<open>0 \<le> k\<close> unfolding x_def by cases simp_all
    then show "0 \<le> c" "c \<le> 3" "0 \<le> x" "x \<le> 36524" "x = 36524 \<Longrightarrow> c = 3" by simp_all
  qed
  have z: "z = x mod 1461" by (simp add: z_def q_def minus_mult_div_eq_mod)
  have q: "0 \<le> q" "q \<le> 24" "0 \<le> z" "z \<le> 1460" "z = 1460 \<Longrightarrow> q = 24 \<Longrightarrow> x = 36524"
    using c(3,4) z by (auto simp: q_def z_def)
  have r: "0 \<le> r" "r \<le> 3" "0 \<le> doy" "doy \<le> 365" "doy = 365 \<Longrightarrow> r = 3 \<and> z = 1460"
  proof -
    define k w where "k = z div 365" and "w = z mod 365"
    have kw: "z = 365 * k + w" "0 \<le> w" "w < 365" by (simp_all add: k_def w_def)
    have r: "r = min 3 k" by (simp add: r_def k_def)
    have "0 \<le> k" "k \<le> 4" using kw q(3,4) by linarith+
    then consider "r = k" "k \<le> 3" | "r = 3" "k = 4" "w = 0" using kw q(4) r by linarith
    then have "0 \<le> r \<and> r \<le> 3 \<and> 0 \<le> doy \<and> doy \<le> 365 \<and> (doy = 365 \<longrightarrow> r = 3 \<and> z = 1460)"
      using kw \<open>0 \<le> k\<close> unfolding doy_def by cases simp_all
    then show "0 \<le> r" "r \<le> 3" "0 \<le> doy" "doy \<le> 365" "doy = 365 \<Longrightarrow> r = 3 \<and> z = 1460" by simp_all
  qed
  have y: "0 \<le> yoe" "yoe < 400" using c q r by (auto simp: yoe_def)
  have "yoe div 4 = 25 * c + q" "yoe div 100 = c" using c q r by (auto simp: yoe_def)
  then have "doe = day_of_era yoe doy" by (simp add: day_of_era_def doy_def z_def x_def yoe_def)
  moreover have "is_leap (yoe + 1) \<longleftrightarrow> r = 3 \<and> (q < 24 \<or> c = 3)"
    using leap_parts [OF c(1,2) q(1,2) r(1,2)] by (simp add: yoe_def)
  moreover have "doy < march_year_length yoe"
    using calculation(2) r(4,5) q(2,5) c(5) by (cases "doy = 365") (auto simp: march_year_length_def)
  ultimately show ?thesis using that [of yoe doy] y r(3) by blast
qed

section \<open>Dates and days are in bijection\<close>

definition month_start :: "int \<Rightarrow> int" where
  "month_start mp = (153 * mp + 2) div 5"

definition month_of :: "int \<Rightarrow> int" where
  "month_of mp = (if mp < 10 then mp + 3 else mp - 9)"

lemma leap_yoe: "is_leap (y mod 400 + 1) = is_leap (y + 1)"
proof -
  have "(y mod 400 + 1) mod 400 = (y + 1) mod 400" by (simp add: mod_simps)
  moreover have "a mod 4 = (a mod 400) mod 4" "a mod 100 = (a mod 400) mod 100" for a :: int
    by (simp_all add: mod_mod_cancel)
  ultimately show ?thesis unfolding is_leap_mod by metis
qed

lemma month_cases:
  assumes "0 \<le> mp" "mp \<le> (11::int)"
  shows "mp = 0 \<or> mp = 1 \<or> mp = 2 \<or> mp = 3 \<or> mp = 4 \<or> mp = 5 \<or> mp = 6 \<or> mp = 7 \<or> mp = 8 \<or> mp = 9 \<or>
    mp = 10 \<or> mp = 11"
  using assms by presburger

lemma doy_month:
  assumes "0 \<le> doy" "doy \<le> 365"
  defines "mp \<equiv> (5 * doy + 2) div 153"
  shows "0 \<le> mp \<and> mp \<le> 11 \<and> month_start mp \<le> doy \<and> doy < month_start (mp + 1)"
proof -
  have mp: "0 \<le> mp" "mp \<le> 11" "153 * mp \<le> 5 * doy + 2" "5 * doy + 2 < 153 * mp + 153"
    using assms by (auto simp: mp_def)
  from month_cases [OF mp(1,2)] show ?thesis
    using mp by (elim disjE) (simp_all add: month_start_def)
qed

lemma month_doy:
  assumes "0 \<le> mp" "mp \<le> 11" "month_start mp \<le> doy" "doy < month_start (mp + 1)" "doy \<le> 365"
  shows "(5 * doy + 2) div 153 = mp"
  using month_cases [OF assms(1,2)] assms(3-5) by (elim disjE) (auto simp: month_start_def)

lemma month_lengths:
  assumes "0 \<le> mp" "mp \<le> 10"
  shows "month_start (mp + 1) - month_start mp = days_in_month y (month_of mp)"
proof -
  have "mp \<le> 11" using assms(2) by simp
  from month_cases [OF assms(1) this] show ?thesis
    using assms(2) by (elim disjE) (simp_all add: month_start_def days_in_month_def month_of_def)
qed

lemma february_length:
  "march_year_length yoe - month_start 11 = days_in_month (yoe + 1) (month_of 11)"
  by (simp add: march_year_length_def month_start_def days_in_month_def month_of_def)

lemma month_of_inverse: "1 \<le> m \<Longrightarrow> m \<le> 12 \<Longrightarrow> month_of ((m + 9) mod 12) = m"
proof -
  assume "1 \<le> m" "m \<le> 12"
  then consider "m \<le> 2" | "3 \<le> m" by linarith
  then show ?thesis
  proof cases
    case 1
    then have "(m + 9) mod 12 = m + 9" using \<open>1 \<le> m\<close> by simp
    then show ?thesis using \<open>1 \<le> m\<close> by (simp add: month_of_def)
  next
    case 2
    then have "(m + 9) mod 12 = m - 3" using \<open>m \<le> 12\<close> by presburger
    then show ?thesis using \<open>m \<le> 12\<close> by (simp add: month_of_def)
  qed
qed

text \<open>\<open>to_serial\<close> with floor division, for any month of a year and any day number.\<close>

lemma to_serial_eq:
  assumes "1 \<le> month d" "month d \<le> 12"
  defines "y \<equiv> year d - (if month d \<le> 2 then 1 else 0)"
  shows "to_serial d =
    y div 400 * 146097 + day_of_era (y mod 400) (month_start ((month d + 9) mod 12) + day d - 1) - 719468"
proof -
  have mp: "month d + (if 2 < month d then - 3 else 9) = (month d + 9) mod 12"
    using assms(1,2) by (cases "month d \<le> 2") (simp, presburger)
  have "(153 * ((month d + 9) mod 12) + 2) sdiv 5 = month_start ((month d + 9) mod 12)"
    by (simp add: month_start_def)
  then show ?thesis
    unfolding to_serial_def Let_def y_def [symmetric] mp era_floor minus_div_mult_eq_mod
    by (simp add: day_of_era_def)
qed

text \<open>\<open>from_serial\<close> read off its intermediate values.\<close>

lemma from_serial_steps:
  assumes "era = (if 0 \<le> z + 719468 then z + 719468 else z + 719468 - 146096) sdiv 146097"
    and "doe = z + 719468 - era * 146097"
    and "yoe = (doe - doe sdiv 1460 + doe sdiv 36524 - doe sdiv 146096) sdiv 365"
    and "doy = doe - (365 * yoe + yoe sdiv 4 - yoe sdiv 100)"
    and "mp = (5 * doy + 2) sdiv 153"
    and "d = doy - (153 * mp + 2) sdiv 5 + 1"
    and "m = (if mp < 10 then mp + 3 else mp - 9)"
  shows "from_serial z = \<lparr>year = as_i32 (yoe + era * 400 + (if m \<le> 2 then 1 else 0)), month = as_u32 m, day = as_u32 d\<rparr>"
  unfolding from_serial_def Let_def assms ..

lemma from_serial_eq:
  assumes "0 \<le> yoe" "yoe < 400" "0 \<le> doy" "doy < march_year_length yoe"
  defines "mp \<equiv> (5 * doy + 2) div 153"
  shows "from_serial (era * 146097 + day_of_era yoe doy - 719468) =
    \<lparr>year = as_i32 (yoe + era * 400 + (if month_of mp \<le> 2 then 1 else 0)), month = month_of mp,
     day = doy - month_start mp + 1\<rparr>"
proof -
  define doe where "doe = day_of_era yoe doy"
  have doe: "0 \<le> doe" "doe < 146097" using day_of_era_bounds [OF assms(1-4)] by (simp_all add: doe_def)
  have yoe: "(doe - doe div 1460 + doe div 36524 - doe div 146096) div 365 = yoe"
    using yoe_recovered [OF assms(1-4)] by (simp add: doe_def Let_def)
  then have pos: "0 \<le> doe - doe div 1460 + doe div 36524 - doe div 146096"
    using assms(1) pos_imp_zdiv_neg_iff [of 365] by (metis not_le zero_less_numeral)
  have "doy \<le> 365" using assms(4) by (auto simp: march_year_length_def split: if_splits)
  then have m: "0 \<le> mp" "mp \<le> 11" "month_start mp \<le> doy" "doy < month_start (mp + 1)"
    using doy_month [OF assms(3)] by (simp_all add: mp_def)
  have small: "0 \<le> month_start mp" using m(1) by (simp add: month_start_def)
  have u: "as_u32 (month_of mp) = month_of mp" "as_u32 (doy - month_start mp + 1) = doy - month_start mp + 1"
    using m small \<open>doy \<le> 365\<close> by (auto simp: month_of_def)
  have "from_serial (era * 146097 + doe - 719468) =
      \<lparr>year = as_i32 (yoe + era * 400 + (if month_of mp \<le> 2 then 1 else 0)), month = as_u32 (month_of mp),
       day = as_u32 (doy - month_start mp + 1)\<rparr>"
  proof (rule from_serial_steps)
    have "era * 146097 + doe - 719468 + 719468 = era * 146097 + doe" by simp
    moreover have "(era * 146097 + doe) div 146097 = era" using doe by simp
    ultimately show "era = (if 0 \<le> era * 146097 + doe - 719468 + 719468 then era * 146097 + doe - 719468 + 719468
        else era * 146097 + doe - 719468 + 719468 - 146096) sdiv 146097"
      by (simp only: era_floor)
    show "yoe = (doe - doe sdiv 1460 + doe sdiv 36524 - doe sdiv 146096) sdiv 365"
      using doe pos yoe by simp
    show "doy = doe - (365 * yoe + yoe sdiv 4 - yoe sdiv 100)"
      using assms(1) by (simp add: doe_def day_of_era_def)
    show "mp = (5 * doy + 2) sdiv 153" using assms(3) by (simp add: mp_def)
    show "doy - month_start mp + 1 = doy - (153 * mp + 2) sdiv 5 + 1" using m(1) by (simp add: month_start_def)
  qed (simp_all add: month_of_def)
  then show ?thesis by (simp only: u doe_def)
qed

text \<open>The days before the March of a year, in closed form.\<close>

definition march_days :: "int \<Rightarrow> int" where
  "march_days y = 365 * y + y div 4 - y div 100 + y div 400"

definition march_year :: "date \<Rightarrow> int" where
  "march_year d = year d - (if month d \<le> 2 then 1 else 0)"

definition day_of_march_year :: "date \<Rightarrow> int" where
  "day_of_march_year d = month_start ((month d + 9) mod 12) + day d - 1"

lemma march_days_era: "march_days y = y div 400 * 146097 + day_of_era (y mod 400) 0"
proof -
  define e r where "e = y div 400" and "r = y mod 400"
  have y: "y = r + 400 * e" by (simp add: e_def r_def)
  have "(r + 4 * (100 * e)) div 4 = 100 * e + r div 4" "(r + 100 * (4 * e)) div 100 = 4 * e + r div 100"
    by simp_all
  then have "y div 4 = 100 * e + r div 4" "y div 100 = 4 * e + r div 100" by (simp_all add: y)
  then show ?thesis
    unfolding march_days_def day_of_era_def e_def [symmetric] r_def [symmetric] by (simp add: y)
qed

lemma to_serial_march:
  assumes "1 \<le> month d" "month d \<le> 12"
  shows "to_serial d = march_days (march_year d) + day_of_march_year d - 719468"
proof -
  define y doy where "y = march_year d" and "doy = day_of_march_year d"
  have "to_serial d = y div 400 * 146097 + day_of_era (y mod 400) doy - 719468"
    unfolding to_serial_eq [OF assms] y_def doy_def march_year_def day_of_march_year_def ..
  then show ?thesis
    unfolding y_def [symmetric] doy_def [symmetric] march_days_era by (simp add: day_of_era_def)
qed

lemma div_succ:
  fixes y n :: int
  assumes "0 < n"
  shows "(y + 1) div n = y div n + (if (y + 1) mod n = 0 then 1 else 0)"
proof -
  define a q where "a = y mod n" and "q = y div n"
  have y: "y + 1 = (a + 1) + n * q" by (simp add: a_def q_def)
  have a: "0 \<le> a" "a < n" using assms by (simp_all add: a_def)
  have "(y + 1) div n = q + (a + 1) div n" "(y + 1) mod n = (a + 1) mod n"
    unfolding y using assms by simp_all
  then show ?thesis
    unfolding q_def [symmetric] using a by (cases "a + 1 = n") simp_all
qed

lemma march_days_step: "march_days (y + 1) = march_days y + march_year_length (y mod 400)"
proof -
  define z where "z = y + 1"
  have z: "z mod 100 = 0 \<Longrightarrow> z mod 4 = 0" "z mod 400 = 0 \<Longrightarrow> z mod 100 = 0"
    using mod_mod_cancel [of 4 100 z] mod_mod_cancel [of 100 400 z] by auto
  have d: "z div 4 = y div 4 + (if z mod 4 = 0 then 1 else 0)"
    "z div 100 = y div 100 + (if z mod 100 = 0 then 1 else 0)"
    "z div 400 = y div 400 + (if z mod 400 = 0 then 1 else 0)"
    unfolding z_def by (rule div_succ, simp)+
  have "march_days z = 365 * y + 365 + z div 4 - z div 100 + z div 400" by (simp add: march_days_def z_def)
  also have "\<dots> = march_days y + (if is_leap z then 366 else 365)"
    unfolding d is_leap_mod march_days_def using z by simp
  finally show ?thesis by (simp only: z_def march_year_length_def leap_yoe)
qed

lemma march_year_length_bounds: "365 \<le> march_year_length y \<and> march_year_length y \<le> 366"
  by (simp add: march_year_length_def)

lemma march_days_mono: "y \<le> y' \<Longrightarrow> march_days y + 365 * (y' - y) \<le> march_days y'"
proof (induction y' rule: int_ge_induct)
  case (step i)
  then show ?case using march_days_step [of i] march_year_length_bounds [of "i mod 400"] by simp
qed simp

lemma march_days_less: "y < y' \<Longrightarrow> march_days y + march_year_length (y mod 400) \<le> march_days y'"
  using march_days_mono [of "y + 1" y'] march_days_step [of y] by simp

text \<open>Dates with a month and a day of it, of any year.\<close>

definition proper_date :: "date \<Rightarrow> bool" where
  "proper_date d \<longleftrightarrow> 1 \<le> month d \<and> month d \<le> 12 \<and> 1 \<le> day d \<and> day d \<le> days_in_month (year d) (month d)"

lemma valid_proper: "valid_date d \<longleftrightarrow> proper_date d \<and> - (2 ^ 31) \<le> year d \<and> year d < 2 ^ 31"
  by (auto simp: valid_date_def proper_date_def)

lemma proper_doy:
  assumes "proper_date d"
  defines "mp \<equiv> (month d + 9) mod 12"
  shows "0 \<le> mp" "mp \<le> 11" "month_start mp \<le> day_of_march_year d"
    and "day_of_march_year d < march_year_length (march_year d mod 400)"
    and "day_of_march_year d < month_start (mp + 1)"
    and "(5 * day_of_march_year d + 2) div 153 = mp"
proof -
  have d: "1 \<le> month d" "month d \<le> 12" "1 \<le> day d" "day d \<le> days_in_month (year d) (month d)"
    using assms(1) by (simp_all add: proper_date_def)
  show mp: "0 \<le> mp" "mp \<le> 11" using pos_mod_bound [of 12 "month d + 9"] by (simp_all add: mp_def)
  have m: "month_of mp = month d" using month_of_inverse d(1,2) by (simp add: mp_def)
  show lo: "month_start mp \<le> day_of_march_year d" using d(3) by (simp add: day_of_march_year_def mp_def)
  have "day_of_march_year d < march_year_length (march_year d mod 400) \<and> day_of_march_year d < month_start (mp + 1)"
  proof (cases "mp = 11")
    case True
    then have "month d = 2" using m by (simp add: month_of_def)
    then have "day_of_march_year d < march_year_length (march_year d mod 400)"
      using d(4) True february_length [of "march_year d mod 400"]
      by (simp add: days_in_month_def leap_yoe march_year_def day_of_march_year_def month_of_def mp_def)
    moreover have "march_year_length (march_year d mod 400) \<le> month_start (mp + 1)"
      using march_year_length_bounds [of "march_year d mod 400"] True by (simp add: month_start_def)
    ultimately show ?thesis by simp
  next
    case False
    then have "mp \<le> 10" using mp(2) by simp
    then have "day_of_march_year d < month_start (mp + 1)"
      using month_lengths [OF mp(1), of "year d"] d(4) m by (simp add: day_of_march_year_def mp_def)
    moreover have "month_start (mp + 1) \<le> 337" using \<open>mp \<le> 10\<close> by (simp add: month_start_def)
    ultimately show ?thesis using march_year_length_bounds [of "march_year d mod 400"] by simp
  qed
  then show hi: "day_of_march_year d < march_year_length (march_year d mod 400)"
    and hm: "day_of_march_year d < month_start (mp + 1)" by simp_all
  show "(5 * day_of_march_year d + 2) div 153 = mp"
    using month_doy [OF mp lo hm] hi march_year_length_bounds [of "march_year d mod 400"] by simp
qed

lemma from_to_proper:
  assumes "proper_date d"
  shows "from_serial (to_serial d) = d\<lparr>year := as_i32 (year d)\<rparr>"
proof -
  note p = proper_doy [OF assms]
  have m: "1 \<le> month d" "month d \<le> 12" using assms by (simp_all add: proper_date_def)
  have doy: "0 \<le> day_of_march_year d" using p(1,3) by (simp add: month_start_def)
  have ser: "to_serial d = march_year d div 400 * 146097 + day_of_era (march_year d mod 400) (day_of_march_year d) - 719468"
    using to_serial_march [OF m] by (simp add: march_days_era day_of_era_def)
  have yr: "march_year d mod 400 + march_year d div 400 * 400 + (if month d \<le> 2 then 1 else 0) = year d"
    by (simp add: march_year_def)
  have dy: "day_of_march_year d - month_start ((month d + 9) mod 12) + 1 = day d"
    by (simp add: day_of_march_year_def)
  have b: "0 \<le> march_year d mod 400" "march_year d mod 400 < 400" by simp_all
  show ?thesis
    unfolding ser from_serial_eq [OF b doy p(4)] p(6) month_of_inverse [OF m] yr dy by simp
qed

lemma proper_surj: "\<exists>d. proper_date d \<and> to_serial d = z"
proof -
  define era where "era = (z + 719468) div 146097"
  obtain yoe doy where y: "0 \<le> yoe" "yoe < 400" "0 \<le> doy" "doy < march_year_length yoe"
    "(z + 719468) mod 146097 = day_of_era yoe doy"
    using day_of_era_surj [of "(z + 719468) mod 146097"] by auto
  define mp where "mp = (5 * doy + 2) div 153"
  have mp: "0 \<le> mp" "mp \<le> 11" "month_start mp \<le> doy" "doy < month_start (mp + 1)"
    using doy_month [of doy] y(3,4) march_year_length_bounds [of yoe] by (simp_all add: mp_def)
  define d where "d = date_new (yoe + 400 * era + (if month_of mp \<le> 2 then 1 else 0)) (month_of mp) (doy - month_start mp + 1)"
  have inv: "(month_of mp + 9) mod 12 = mp" "1 \<le> month_of mp" "month_of mp \<le> 12"
    using mp(1,2) by (auto simp: month_of_def)
  have my: "march_year d = yoe + 400 * era" by (simp add: march_year_def d_def)
  have "doy - month_start mp + 1 \<le> days_in_month (year d) (month_of mp)"
  proof (cases "mp = 11")
    case True
    then have "days_in_month (year d) (month_of mp) = days_in_month (yoe + 400 * era + 1) (month_of mp)"
      by (simp add: d_def month_of_def)
    also have "\<dots> = days_in_month (yoe + 1) (month_of mp)"
      using leap_yoe [of "yoe + 400 * era"] y(1,2) by (simp add: days_in_month_def mod_pos_pos_trivial)
    finally show ?thesis using february_length [of yoe] y(4) True by simp
  next
    case False
    then show ?thesis using month_lengths [OF mp(1), of "year d"] mp by simp
  qed
  then have "proper_date d" using inv mp(3) by (simp add: proper_date_def d_def)
  moreover have "to_serial d = z"
  proof -
    have e: "(yoe + 400 * era) div 400 = era" "(yoe + 400 * era) mod 400 = yoe" using y(1,2) by simp_all
    have doy: "day_of_march_year d = doy" by (simp add: day_of_march_year_def d_def inv)
    have "to_serial d = march_days (yoe + 400 * era) + doy - 719468"
      using to_serial_march [of d, unfolded my doy] inv by (simp add: d_def)
    also have "march_days (yoe + 400 * era) = era * 146097 + day_of_era yoe 0"
      unfolding march_days_era e ..
    also have "era * 146097 + day_of_era yoe 0 + doy - 719468 = era * 146097 + day_of_era yoe doy - 719468"
      by (simp add: day_of_era_def)
    also have "\<dots> = z"
      unfolding y(5) [symmetric] era_def using div_mult_mod_eq [of "z + 719468" 146097] by linarith
    finally show ?thesis .
  qed
  ultimately show ?thesis by blast
qed

lemma to_serial_mono:
  assumes "proper_date d" "proper_date d'"
    and "year d < year d' \<or> year d = year d' \<and> (month d < month d' \<or> month d = month d' \<and> day d < day d')"
  shows "to_serial d < to_serial d'"
proof -
  have m: "1 \<le> month d" "month d \<le> 12" "1 \<le> month d'" "month d' \<le> 12"
    using assms(1,2) by (simp_all add: proper_date_def)
  note p = proper_doy [OF assms(1)] and p' = proper_doy [OF assms(2)]
  have pos: "0 \<le> day_of_march_year d'" using p'(1,3) by (simp add: month_start_def)
  have mp: "(k + 9) mod 12 = (if k \<le> 2 then k + 9 else k - 3)" if "1 \<le> k" "k \<le> 12" for k :: int
    using that by presburger
  have "march_year d < march_year d' \<or> march_year d = march_year d' \<and> day_of_march_year d < day_of_march_year d'"
  proof (cases "march_year d < march_year d'")
    case False
    have mono: "month_start a \<le> month_start b" if "a \<le> b" for a b
      using that by (simp add: month_start_def zdiv_mono1)
    have eq: "march_year d = march_year d'" using False assms(3) by (auto simp: march_year_def split: if_splits)
    then consider "(month d + 9) mod 12 < (month d' + 9) mod 12" | "month d = month d'" "day d < day d'"
      using assms(3) m by (auto simp: march_year_def mp split: if_splits)
    then show ?thesis
    proof cases
      case 1
      then have "day_of_march_year d < day_of_march_year d'"
        using mono [of "(month d + 9) mod 12 + 1" "(month d' + 9) mod 12"] p(5) p'(3) by linarith
      then show ?thesis using eq by simp
    qed (use eq in \<open>simp add: day_of_march_year_def\<close>)
  qed simp
  then show ?thesis
    using march_days_less [of "march_year d" "march_year d'"] p(4) pos
    by (auto simp: to_serial_march m)
qed

section \<open>Calendars as an interface\<close>

text \<open>
  What every calendar of the file promises: its dates and the day numbers it covers correspond one to
  one.  The moves of the point date only rely on that.
\<close>

locale calendar_system =
  fixes valid :: "'d \<Rightarrow> bool"
    and to_fixed :: "'d \<Rightarrow> int"
    and from_fixed :: "int \<Rightarrow> 'd"
    and covers :: "int \<Rightarrow> bool"
  assumes to_from: "covers f \<Longrightarrow> valid (from_fixed f) \<and> to_fixed (from_fixed f) = f"
    and from_to: "valid d \<Longrightarrow> covers (to_fixed d) \<and> from_fixed (to_fixed d) = d"
begin

lemma same_day: "valid d \<Longrightarrow> valid d' \<Longrightarrow> to_fixed d = to_fixed d' \<longleftrightarrow> d = d'"
  using from_to by metis

lemma bijection: "bij_betw to_fixed (Collect valid) (Collect covers)"
  by (rule bij_betw_byWitness [of _ from_fixed]) (use to_from from_to in auto)

lemma move_back:
  assumes "valid d" "covers (to_fixed d + n)"
  shows "from_fixed (to_fixed (from_fixed (to_fixed d + n)) - n) = d"
  using assms to_from [OF assms(2)] from_to [OF assms(1)] by simp

lemma move_move:
  assumes "covers (to_fixed d + n)"
  shows "from_fixed (to_fixed (from_fixed (to_fixed d + n)) + m) = from_fixed (to_fixed d + (n + m))"
  using to_from [OF assms] by (simp add: add.assoc)

end

abbreviation first_date :: date where
  "first_date \<equiv> date_new (- (2 ^ 31)) 1 1"

abbreviation last_date :: date where
  "last_date \<equiv> date_new (2 ^ 31 - 1) 12 31"

definition in_range :: "int \<Rightarrow> bool" where
  "in_range z \<longleftrightarrow> to_serial first_date \<le> z \<and> z \<le> to_serial last_date"

lemma date_eqI:
  fixes a b :: date
  assumes "year a = year b" "month a = month b" "day a = day b"
  shows "a = b"
  using assms by simp

lemma days_in_month_bounds: "28 \<le> days_in_month y m \<and> days_in_month y m \<le> 31"
  by (simp add: days_in_month_def)

lemma to_serial_less_iff:
  assumes "proper_date d" "proper_date d'"
  shows "to_serial d < to_serial d' \<longleftrightarrow>
    year d < year d' \<or> year d = year d' \<and> (month d < month d' \<or> month d = month d' \<and> day d < day d')"
proof -
  have "d = d'" if "\<not> (year d < year d' \<or> year d = year d' \<and> (month d < month d' \<or> month d = month d' \<and> day d < day d'))"
    "\<not> (year d' < year d \<or> year d' = year d \<and> (month d' < month d \<or> month d' = month d \<and> day d' < day d))"
    using that by (intro date_eqI) auto
  then show ?thesis
    using to_serial_mono [OF assms] to_serial_mono [OF assms(2,1)] by (metis order.asym less_irrefl)
qed

lemma valid_ends: "valid_date first_date" "valid_date last_date"
  by (simp_all add: valid_date_def days_in_month_def)

lemma valid_in_range: "valid_date d \<Longrightarrow> in_range (to_serial d)"
proof -
  assume d: "valid_date d"
  then have p: "proper_date d" "proper_date first_date" "proper_date last_date"
    using valid_ends by (simp_all add: valid_proper)
  have "day d \<le> 31" using d days_in_month_bounds [of "year d" "month d"] by (simp add: valid_date_def)
  then have "\<not> to_serial d < to_serial first_date" "\<not> to_serial last_date < to_serial d"
    using d unfolding to_serial_less_iff [OF p(1,2)] to_serial_less_iff [OF p(3,1)]
    by (auto simp: valid_date_def)
  then show ?thesis by (simp add: in_range_def)
qed

lemma in_range_proper:
  assumes "in_range z" "proper_date d" "to_serial d = z"
  shows "valid_date d"
proof -
  have p: "proper_date first_date" "proper_date last_date" using valid_ends by (simp_all add: valid_proper)
  have "\<not> to_serial d < to_serial first_date" "\<not> to_serial last_date < to_serial d"
    using assms(1,3) by (simp_all add: in_range_def)
  then show ?thesis
    using assms(2) unfolding to_serial_less_iff [OF assms(2) p(1)] to_serial_less_iff [OF p(2) assms(2)]
    by (simp add: valid_proper)
qed

interpretation greg: calendar_system valid_date to_serial from_serial in_range
proof
  fix d
  assume "valid_date d"
  then show "in_range (to_serial d) \<and> from_serial (to_serial d) = d"
    using valid_in_range from_to_proper [of d] by (simp add: valid_proper)
next
  fix z
  assume z: "in_range z"
  obtain d where d: "proper_date d" "to_serial d = z" using proper_surj by blast
  have "valid_date d" by (rule in_range_proper [OF z d])
  then show "valid_date (from_serial z) \<and> to_serial (from_serial z) = z"
    using from_to_proper [OF d(1)] d by (simp add: valid_proper)
qed

section \<open>Weekdays\<close>

lemma weekday_eq: "weekday d = (to_serial d + 4) mod 7"
proof -
  have "to_serial d smod 7 + 4 = to_serial d + 4 + 7 * (- (to_serial d sdiv 7))"
    using sdiv_mult_smod_eq [of "to_serial d" 7] by linarith
  then have "(to_serial d smod 7 + 4) mod 7 = (to_serial d + 4) mod 7" by (simp only: mod_mult_self2)
  then show ?thesis by (simp add: weekday_def)
qed

lemma weekday_bounds: "0 \<le> weekday d \<and> weekday d < 7"
  by (simp add: weekday_eq)

lemma weekday_add: "in_range (to_serial d + n) \<Longrightarrow> weekday (add_days d n) = (weekday d + n) mod 7"
  using greg.to_from [of "to_serial d + n"] by (simp add: weekday_eq add_days_def mod_simps ac_simps)

lemma same_month_serial:
  assumes "1 \<le> m" "m \<le> 12"
  shows "to_serial (date_new y m (a + b)) = to_serial (date_new y m a) + b"
  using assms by (simp add: to_serial_march march_year_def day_of_march_year_def)

lemma weekday_in_month:
  assumes "1 \<le> m" "m \<le> 12"
  shows "weekday (date_new y m (a + b)) = (weekday (date_new y m a) + b) mod 7"
  using same_month_serial [OF assms] by (simp add: weekday_eq mod_simps ac_simps)

text \<open>January to December, and into the next year.\<close>

lemma month_serial_step:
  assumes "1 \<le> m" "m \<le> 11"
  shows "to_serial (date_new y (m + 1) 1) = to_serial (date_new y m (days_in_month y m)) + 1"
proof (cases "m = 2")
  case True
  have "to_serial (date_new y 3 1) = march_days y - 719468" "march_days y = march_days (y - 1) + march_year_length ((y - 1) mod 400)"
    using march_days_step [of "y - 1"] by (simp_all add: to_serial_march march_year_def day_of_march_year_def month_start_def)
  then show ?thesis using True february_length [of "(y - 1) mod 400"] leap_yoe [of "y - 1"]
    by (simp add: to_serial_march march_year_def day_of_march_year_def month_start_def march_year_length_def days_in_month_def)
next
  case False
  define mp where "mp = (m + 9) mod 12"
  have mp: "0 \<le> mp" "mp \<le> 10" "(m + 1 + 9) mod 12 = mp + 1" "month_of mp = m"
  proof -
    have "m = 1 \<or> 3 \<le> m" using assms(1) False by linarith
    then have "mp = (if m = 1 then 10 else m - 3)" "(m + 1 + 9) mod 12 = (if m = 1 then 11 else m - 2)"
      using assms(2) unfolding mp_def by (auto simp: mod_pos_geq)
    then show "0 \<le> mp" "mp \<le> 10" "(m + 1 + 9) mod 12 = mp + 1"
      using \<open>m = 1 \<or> 3 \<le> m\<close> assms(2) by auto
    show "month_of mp = m" using assms month_of_inverse [of m] by (simp add: mp_def)
  qed
  have my: "march_year (date_new y (m + 1) 1) = march_year (date_new y m d)" for d
    using False assms by (simp add: march_year_def)
  show ?thesis
    using month_lengths [OF mp(1,2), of y] assms mp(3,4) my [of "days_in_month y m"]
    by (simp add: to_serial_march day_of_march_year_def mp_def [symmetric])
qed

lemma year_serial_step: "to_serial (date_new (y + 1) 1 1) = to_serial (date_new y 12 31) + 1"
  by (simp add: to_serial_march march_year_def day_of_march_year_def month_start_def)

section \<open>Properties\<close>

text \<open>C18: \<open>to_serial\<close> and \<open>from_serial\<close> are inverse to each other between the valid dates of \<open>i32\<close> years
  and an interval of day numbers, they keep the order of dates, and the first of January 1970 is day 0;
  so consecutive dates have consecutive numbers.\<close>

theorem serial_bijection:
  "bij_betw to_serial (Collect valid_date) {to_serial first_date..to_serial last_date} \<and>
   (\<forall>d. valid_date d \<longrightarrow> from_serial (to_serial d) = d) \<and>
   (\<forall>z. in_range z \<longrightarrow> valid_date (from_serial z) \<and> to_serial (from_serial z) = z) \<and>
   (\<forall>d d'. valid_date d \<longrightarrow> valid_date d' \<longrightarrow>
      (to_serial d < to_serial d' \<longleftrightarrow> year d < year d' \<or>
         year d = year d' \<and> (month d < month d' \<or> month d = month d' \<and> day d < day d'))) \<and>
   to_serial (date_new 1970 1 1) = 0"
proof -
  have "{to_serial first_date..to_serial last_date} = Collect in_range" by (auto simp: in_range_def)
  moreover have "to_serial (date_new 1970 1 1) = 0"
    by (simp add: to_serial_march march_days_def march_year_def day_of_march_year_def month_start_def)
  ultimately show ?thesis
    using greg.bijection greg.to_from greg.from_to to_serial_less_iff by (auto simp: valid_proper)
qed

lemma serial_bijection_witness:
  "from_serial (to_serial (date_new 2024 2 29)) = date_new 2024 2 29 \<and>
   to_serial (date_new 2024 2 29) < to_serial (date_new 2024 3 1)"
proof -
  have "valid_date (date_new 2024 2 29)" "valid_date (date_new 2024 3 1)"
    by (simp_all add: valid_date_def days_in_month_def is_leap_mod)
  then show ?thesis using serial_bijection by simp
qed

lemma in_range_small: "\<bar>z\<bar> \<le> 700000000000 \<Longrightarrow> in_range z"
  by (simp add: in_range_def to_serial_march march_days_def march_year_def day_of_march_year_def month_start_def) linarith

lemma add_months_index:
  assumes "valid_date d" "- (2 ^ 31) * 12 \<le> year d * 12 + (month d - 1) + n" "year d * 12 + (month d - 1) + n < 2 ^ 31 * 12"
  shows "valid_date (add_months d n) \<and>
    year (add_months d n) * 12 + month (add_months d n) = year d * 12 + month d + n \<and>
    day (add_months d n) = min (day d) (days_in_month (year (add_months d n)) (month (add_months d n)))"
proof -
  define t where "t = year d * 12 + (month d - 1) + n"
  have t: "- (2 ^ 31) \<le> t div 12" "t div 12 < 2 ^ 31" "0 \<le> t mod 12" "t mod 12 < 12"
    using assms(2,3) by (auto simp: t_def [symmetric])
  have a: "add_months d n = date_new (t div 12) (t mod 12 + 1) (min (day d) (days_in_month (t div 12) (t mod 12 + 1)))"
    using t by (simp add: add_months_def Let_def t_def [symmetric])
  have "t div 12 * 12 + t mod 12 = t" by simp
  then have "t div 12 * 12 + (t mod 12 + 1) = year d * 12 + month d + n" unfolding t_def by linarith
  moreover have "1 \<le> day d" "28 \<le> days_in_month (t div 12) (t mod 12 + 1)"
    using assms(1) days_in_month_bounds by (simp_all add: valid_date_def)
  ultimately show ?thesis using t unfolding a by (simp add: valid_date_def)
qed

text \<open>The moves of the point date.  Moving by days and back returns, moves by days add up and shift the
  weekday; the week begins on the Sunday at most six days before and ends on the Saturday six days
  after that; moving by months moves the month by exactly that number and cuts the day off at the
  month's length.\<close>

theorem point_date_moves:
  assumes "valid_date d" "in_range (to_serial d + n)" "in_range (to_serial d - 6)" "in_range (to_serial d + 6)"
    and "- (2 ^ 31) * 12 \<le> year d * 12 + (month d - 1) + k" "year d * 12 + (month d - 1) + k < 2 ^ 31 * 12"
  shows "add_days (add_days d n) (- n) = d \<and>
    add_days (add_days d n) m = add_days d (n + m) \<and>
    weekday (add_days d n) = (weekday d + n) mod 7 \<and>
    weekday (beginning_of_week d) = 0 \<and> weekday (end_of_week d) = 6 \<and>
    to_serial d - 6 \<le> to_serial (beginning_of_week d) \<and> to_serial (beginning_of_week d) \<le> to_serial d \<and>
    to_serial (end_of_week d) = to_serial (beginning_of_week d) + 6 \<and>
    valid_date (add_months d k) \<and>
    year (add_months d k) * 12 + month (add_months d k) = year d * 12 + month d + k \<and>
    day (add_months d k) = min (day d) (days_in_month (year (add_months d k)) (month (add_months d k)))"
proof -
  have w: "in_range (to_serial d - weekday d)" "in_range (to_serial d + (6 - weekday d))"
    using assms(3,4) weekday_bounds [of d] by (auto simp: in_range_def)
  have s: "to_serial (beginning_of_week d) = to_serial d - weekday d"
    "to_serial (end_of_week d) = to_serial d + (6 - weekday d)"
    using greg.to_from [OF w(1)] greg.to_from [OF w(2)]
    by (simp_all add: beginning_of_week_def end_of_week_def add_days_def)
  have "weekday (beginning_of_week d) = 0" "weekday (end_of_week d) = 6"
    using weekday_add [of d "- weekday d"] weekday_add [of d "6 - weekday d"] w
    by (simp_all add: beginning_of_week_def end_of_week_def)
  then show ?thesis
    using greg.move_back [OF assms(1,2)] greg.move_move [OF assms(2), of m] weekday_add [OF assms(2)] s
      weekday_bounds [of d] add_months_index [OF assms(1,5,6)]
    by (simp add: add_days_def)
qed

lemma point_date_moves_witness:
  "add_days (add_days (date_new 2024 1 31) 30) (- 30) = date_new 2024 1 31 \<and>
   day (add_months (date_new 2024 1 31) 1) = 29"
proof -
  have s: "to_serial (date_new 2024 1 31) = 19753"
    by (simp add: to_serial_march march_days_def march_year_def day_of_march_year_def month_start_def)
  have v: "valid_date (date_new 2024 1 31)" by (simp add: valid_date_def days_in_month_def)
  have "add_months (date_new 2024 1 31) 1 = date_new 2024 2 29"
    by (simp add: add_months_def days_in_month_def is_leap_mod)
  then show ?thesis
    using point_date_moves [OF v in_range_small in_range_small in_range_small, of 30 1 0] by (simp add: s)
qed

lemma year_span: "to_serial (date_new y 12 31) - to_serial (date_new y 1 1) \<le> 365"
proof -
  have "march_days y = march_days (y - 1) + march_year_length ((y - 1) mod 400)"
    using march_days_step [of "y - 1"] by simp
  then show ?thesis
    using march_year_length_bounds [of "(y - 1) mod 400"]
    by (simp add: to_serial_march march_year_def day_of_march_year_def month_start_def)
qed

lemma serial_within_year:
  assumes "proper_date d"
  shows "to_serial (date_new (year d) 1 1) \<le> to_serial d \<and> to_serial d - to_serial (date_new (year d) 1 1) \<le> 365"
proof -
  have p: "proper_date (date_new (year d) 1 1)" "proper_date (date_new (year d) 12 31)"
    by (simp_all add: proper_date_def days_in_month_def)
  have "\<not> to_serial d < to_serial (date_new (year d) 1 1)" "\<not> to_serial (date_new (year d) 12 31) < to_serial d"
    using assms days_in_month_bounds [of "year d" "month d"]
    unfolding to_serial_less_iff [OF assms p(1)] to_serial_less_iff [OF p(2) assms]
    by (auto simp: proper_date_def)
  then show ?thesis using year_span [of "year d"] by simp
qed

text \<open>\<open>iso_week\<close> and \<open>date_from_iso\<close>: the ISO week date of a date has a weekday from 1 to 7 and a week from 1 to
  53, converting it back gives the date, and its ISO year is the year of the Thursday of that week.\<close>

theorem iso_week_roundtrip:
  assumes "valid_date d" "in_range (to_serial d - 3)" "in_range (to_serial d + 3)"
  shows "case iso_week d of (y, w, wd) \<Rightarrow>
    1 \<le> wd \<and> wd \<le> 7 \<and> 1 \<le> w \<and> w \<le> 53 \<and> date_from_iso y w wd = d \<and> y = year (add_days d (4 - wd)) \<and>
    wd mod 7 = weekday d"
proof -
  define wd where "wd = (weekday d + 6) mod 7 + 1"
  define th where "th = add_days d (4 - wd)"
  define t j where "t = to_serial th" and "j = to_serial (date_new (year th) 1 1)"
  have wd: "1 \<le> wd" "wd \<le> 7" by (simp_all add: wd_def)
  have "in_range (to_serial d + (4 - wd))" using assms(2,3) wd by (auto simp: in_range_def)
  from greg.to_from [OF this] have th: "valid_date th" "t = to_serial d + (4 - wd)"
    by (simp_all add: th_def add_days_def t_def)
  have tj: "j \<le> t" "t - j \<le> 365"
    using serial_within_year [of th] th(1) by (simp_all add: valid_proper t_def j_def)
  have wdd: "wd mod 7 = weekday d" using weekday_bounds [of d] by (simp add: wd_def mod_simps)
  have "(to_serial d + 4 - wd) mod 7 = 0"
    using wdd by (simp add: weekday_eq) (metis mod_0 mod_diff_eq diff_self)
  moreover have "to_serial d + 4 - wd = t" using th(2) by simp
  ultimately have t7: "t mod 7 = 0" by simp
  define q r where "q = (t - j) div 7" and "r = (t - j) mod 7"
  have qr: "t = j + 7 * q + r" "0 \<le> r" "r < 7" by (simp_all add: q_def r_def)
  have "(j + 6) mod 7 = 6 - r"
  proof -
    have "j + 6 = (6 - r) + (t - 7 * q)" using qr(1) by simp
    then have "(j + 6) mod 7 = (6 - r) mod 7" using t7 by (metis add.right_neutral mod_add_right_eq mod_mult_self2 diff_conv_add_uminus mult_minus_right)
    then show ?thesis using qr(2,3) by simp
  qed
  moreover have "to_serial (date_new (year th) 1 4) = j + 3"
    using same_month_serial [of 1 "year th" 1 3] by (simp add: j_def)
  ultimately have monday: "to_serial (date_new (year th) 1 4) - ((weekday (date_new (year th) 1 4) + 6) mod 7 + 1 - 1) = t - 3 - 7 * q"
    using qr(1) by (simp add: weekday_eq mod_simps)
  have q: "0 \<le> q" "q \<le> 52" using tj by (auto simp: q_def)
  have w: "as_u32 ((t - j) sdiv 7 + 1) = q + 1" using tj(1) q by (simp add: q_def)
  have "iso_week d = (year th, q + 1, wd)"
    unfolding iso_week_def Let_def wd_def [symmetric] th_def [symmetric] t_def [symmetric] j_def [symmetric] w ..
  moreover have "date_from_iso (year th) (q + 1) wd = from_serial (to_serial d)"
    unfolding date_from_iso_def Let_def monday using th(2) by simp
  ultimately show ?thesis
    using wd q wdd greg.from_to [OF assms(1)] by (simp add: th_def)
qed

lemma iso_week_roundtrip_witness:
  "case iso_week (date_new 1999 12 31) of (y, w, wd) \<Rightarrow> date_from_iso y w wd = date_new 1999 12 31"
proof -
  have s: "to_serial (date_new 1999 12 31) = 10956"
    by (simp add: to_serial_march march_days_def march_year_def day_of_march_year_def month_start_def)
  have "valid_date (date_new 1999 12 31)" by (simp add: valid_date_def days_in_month_def)
  from iso_week_roundtrip [OF this in_range_small in_range_small] show ?thesis by (auto simp: s split: prod.splits)
qed

lemma month_weekdays:
  assumes "1 \<le> m" "m \<le> 12" "0 \<le> t" "t \<le> 6"
  shows "weekday (date_new y m (nth_weekday y m t n)) = t \<and>
    7 * (n - 1) < nth_weekday y m t n \<and> nth_weekday y m t n \<le> 7 * n \<and>
    weekday (date_new y m (last_weekday y m t)) = t \<and>
    days_in_month y m - 7 < last_weekday y m t \<and> last_weekday y m t \<le> days_in_month y m"
proof -
  let ?f = "weekday (date_new y m 1)" and ?l = "weekday (date_new y m (days_in_month y m))"
  have nth: "nth_weekday y m t n = 1 + ((7 + t - ?f) mod 7 + 7 * (n - 1))"
    by (simp add: nth_weekday_def Let_def)
  have last: "last_weekday y m t = days_in_month y m + - ((7 + ?l - t) mod 7)"
    by (simp add: last_weekday_def Let_def)
  have "weekday (date_new y m (nth_weekday y m t n)) = (?f + ((7 + t - ?f) mod 7 + 7 * (n - 1))) mod 7"
    unfolding nth by (rule weekday_in_month [OF assms(1,2)])
  also have "\<dots> = (?f + (7 + t - ?f) mod 7) mod 7"
    using mod_mult_self2 [of "?f + (7 + t - ?f) mod 7" 7 "n - 1"] by (simp add: add.assoc)
  also have "\<dots> = (7 + t) mod 7" by (simp add: mod_simps)
  finally have 1: "weekday (date_new y m (nth_weekday y m t n)) = t" using assms(3,4) by simp
  have "weekday (date_new y m (last_weekday y m t)) = (?l + - ((7 + ?l - t) mod 7)) mod 7"
    unfolding last by (rule weekday_in_month [OF assms(1,2)])
  also have "\<dots> = (?l - (7 + ?l - t)) mod 7" by (simp add: mod_simps)
  finally have 2: "weekday (date_new y m (last_weekday y m t)) = t" using assms(3,4) by (simp add: mod_pos_pos_trivial)
  define a b where "a = (7 + t - ?f) mod 7" and "b = (7 + ?l - t) mod 7"
  have "0 \<le> a" "a < 7" "0 \<le> b" "b < 7" by (simp_all add: a_def b_def)
  moreover have "nth_weekday y m t n = 1 + (a + 7 * (n - 1))" "last_weekday y m t = days_in_month y m + - b"
    by (simp_all only: nth last a_def b_def)
  ultimately show ?thesis using 1 2 by simp
qed

text \<open>\<open>nth_weekday\<close> and \<open>last_weekday\<close>: the day found has the wanted weekday, it lies in the n-th seven days
  of the month, or in the last seven.\<close>

theorem weekday_of_month:
  assumes "1 \<le> m" "m \<le> 12" "0 \<le> t" "t \<le> 6"
  shows "weekday (date_new y m (nth_weekday y m t n)) = t \<and>
    7 * (n - 1) < nth_weekday y m t n \<and> nth_weekday y m t n \<le> 7 * n \<and>
    weekday (date_new y m (last_weekday y m t)) = t \<and>
    days_in_month y m - 7 < last_weekday y m t \<and> last_weekday y m t \<le> days_in_month y m"
  by (rule month_weekdays [OF assms])

lemma weekday_of_month_witness:
  "weekday (date_new 2024 11 (nth_weekday 2024 11 4 4)) = 4 \<and> nth_weekday 2024 11 4 4 \<le> 28"
  using weekday_of_month [of 11 4 2024 4] by simp

text \<open>Holidays are listed by day, on days of their month.\<close>

lemma holidays_in_month:
  assumes "1 \<le> m" "m \<le> 12"
  shows "sorted (map fst (holidays y m)) \<and> (\<forall>(d, name)\<in>set (holidays y m). 1 \<le> d \<and> d \<le> days_in_month y m)"
proof -
  note [simp] = days_in_month_def
  have wd: "7 * (n - 1) < nth_weekday y m t n \<and> nth_weekday y m t n \<le> 7 * n \<and>
      days_in_month y m - 7 < last_weekday y m t \<and> last_weekday y m t \<le> days_in_month y m"
    if "0 \<le> t" "t \<le> 6" "1 \<le> m" "m \<le> 12" for t n m
    using month_weekdays [OF that(3,4,1,2), of y n] by blast
  show ?thesis
    using wd [of 1 1 3] wd [of 1 2 3] wd [of 1 5 1] wd [of 1 9 1] wd [of 1 10 2] wd [of 4 11 4] assms
    by (auto simp: holidays_def fixed_holidays_def floating_holidays_def split: if_splits)
qed

lemma as_i32_range: "- (2 ^ 31) \<le> as_i32 x \<and> as_i32 x < 2 ^ 31"
  by (simp add: as_i32_def)

lemma parse_ymd_Some:
  assumes "parse_ymd space s = Some d"
  shows "\<exists>y m dd. 1 \<le> m \<and> m \<le> 12 \<and> 1 \<le> dd \<and> d = date_new (as_i32 y) m (as_u32 dd) \<and>
    as_u32 dd \<le> days_in_month (as_i32 y) m"
  using assms
  by (clarsimp simp: parse_ymd_def Let_def split: option.splits list.splits if_splits) (metis not_less)

text \<open>A date typed at the prompt is valid unless its day is a multiple of \<open>2\<^sup>3\<^sup>2\<close>, which is taken for day 0.\<close>

lemma parse_ymd_valid:
  assumes "parse_ymd space s = Some d" "day d \<noteq> 0"
  shows "valid_date d"
proof -
  obtain y m dd where "1 \<le> m" "m \<le> 12" "d = date_new (as_i32 y) m (as_u32 dd)"
    "as_u32 dd \<le> days_in_month (as_i32 y) m"
    using parse_ymd_Some [OF assms(1)] by blast
  moreover have "0 \<le> as_u32 dd" by (simp add: as_u32_def)
  ultimately show ?thesis using assms(2) as_i32_range [of y] by (simp add: valid_date_def)
qed

lemma parse_ymd_day_zero:
  "parse_ymd (\<lambda>c. c = 32) (lit ''2024/1/4294967296'') = Some (date_new 2024 1 0)"
  by (simp add: parse_ymd_def parse_i64_def lit_def Let_def as_u32_def days_in_month_def)

end
