(* ===== verification/OtherCalendars.thy ===== *)
theory OtherCalendars
  imports Calendar
begin

text \<open>
  \<open>zmax-core/src/calendar.rs\<close>, the other calendars: every one converts to and from the same day
  numbers, \<open>rd\<close>.  A \<open>while\<close> loop that looks for a year or a month is \<open>count_up\<close>, which returns
  \<open>None\<close> when it does not end; the lemmas show where it ends.  An index into a table of names that
  may be out of range is \<open>None\<close>, the panic.
\<close>

definition rd :: "date \<Rightarrow> int" where
  "rd d = to_serial d - to_serial (date_new 1 1 1) + 1"

definition from_rd :: "int \<Rightarrow> date" where
  "from_rd f = from_serial (f + to_serial (date_new 1 1 1) - 1)"

text \<open>\<open>while p(i + 1) { i += 1; }\<close> and \<open>while p(i) { i += 1; }\<close> of the source are both this loop.\<close>

partial_function (option) count_up :: "(int \<Rightarrow> bool) \<Rightarrow> int \<Rightarrow> int option" where
  "count_up p i = (if p i then count_up p (i + 1) else Some i)"

partial_function (option) count_down :: "(int \<Rightarrow> bool) \<Rightarrow> int \<Rightarrow> int option" where
  "count_down p i = (if p i then count_down p (i - 1) else Some i)"

section \<open>Julian\<close>

definition julian_epoch :: int where
  "julian_epoch = - 1"

definition julian_leap :: "int \<Rightarrow> bool" where
  "julian_leap y \<longleftrightarrow> y mod 4 = (if 0 < y then 0 else 3)"

definition fixed_from_julian :: "int \<Rightarrow> int \<Rightarrow> int \<Rightarrow> int" where
  "fixed_from_julian yr m d =
     (let y = (if yr < 0 then yr + 1 else yr)
      in julian_epoch - 1 + 365 * (y - 1) + (y - 1) div 4 + (367 * m - 362) div 12
         + (if m \<le> 2 then 0 else if julian_leap yr then - 1 else - 2) + d)"

definition julian_from_fixed :: "int \<Rightarrow> int \<times> int \<times> int" where
  "julian_from_fixed f =
     (let approx = (4 * (f - julian_epoch) + 1464) div 1461;
          yr = (if approx \<le> 0 then as_i32 (approx - 1) else as_i32 approx);
          prior_days = f - fixed_from_julian yr 1 1;
          correction = (if f < fixed_from_julian yr 3 1 then 0 else if julian_leap yr then 1 else 2);
          m = as_u32 ((12 * (prior_days + correction) + 373) div 367);
          d = as_u32 (f - fixed_from_julian yr m 1 + 1)
      in (yr, m, d))"

section \<open>Coptic and Ethiopic\<close>

definition coptic_epoch :: int where
  "coptic_epoch = 103605"

definition ethiopic_epoch :: int where
  "ethiopic_epoch = 2796"

definition coptic_like_to_fixed :: "int \<Rightarrow> int \<Rightarrow> int \<Rightarrow> int \<Rightarrow> int" where
  "coptic_like_to_fixed epoch y m d = epoch - 1 + 365 * (y - 1) + y div 4 + 30 * (m - 1) + d"

definition coptic_like_from_fixed :: "int \<Rightarrow> int \<Rightarrow> int \<times> int \<times> int" where
  "coptic_like_from_fixed epoch f =
     (let y = as_i32 ((4 * (f - epoch) + 1463) div 1461);
          m = as_u32 (1 + (f - coptic_like_to_fixed epoch y 1 1) div 30);
          d = as_u32 (f + 1 - coptic_like_to_fixed epoch y m 1)
      in (y, m, d))"

definition coptic_from_fixed :: "int \<Rightarrow> int \<times> int \<times> int" where
  "coptic_from_fixed f = coptic_like_from_fixed coptic_epoch f"

definition fixed_from_coptic :: "int \<Rightarrow> int \<Rightarrow> int \<Rightarrow> int" where
  "fixed_from_coptic y m d = coptic_like_to_fixed coptic_epoch y m d"

definition ethiopic_from_fixed :: "int \<Rightarrow> int \<times> int \<times> int" where
  "ethiopic_from_fixed f = coptic_like_from_fixed ethiopic_epoch f"

definition fixed_from_ethiopic :: "int \<Rightarrow> int \<Rightarrow> int \<Rightarrow> int" where
  "fixed_from_ethiopic y m d = coptic_like_to_fixed ethiopic_epoch y m d"

section \<open>Hebrew\<close>

definition hebrew_leap :: "int \<Rightarrow> bool" where
  "hebrew_leap y \<longleftrightarrow> (7 * y + 1) mod 19 < 7"

definition hebrew_last_month_of_year :: "int \<Rightarrow> int" where
  "hebrew_last_month_of_year y = (if hebrew_leap y then 13 else 12)"

definition hebrew_elapsed_days :: "int \<Rightarrow> int" where
  "hebrew_elapsed_days y =
     (let cy = y - 1;
          months_elapsed = 235 * (cy sdiv 19) + 12 * (cy smod 19) + (7 * (cy smod 19) + 1) sdiv 19;
          parts_elapsed = 204 + 793 * (months_elapsed smod 1080);
          hours_elapsed = 5 + 12 * months_elapsed + 793 * (months_elapsed sdiv 1080) + parts_elapsed sdiv 1080;
          d = 1 + 29 * months_elapsed + hours_elapsed sdiv 24;
          parts = 1080 * (hours_elapsed smod 24) + parts_elapsed smod 1080;
          d = (if 19440 \<le> parts
                 \<or> (d smod 7 = 2 \<and> 9924 \<le> parts \<and> \<not> hebrew_leap y)
                 \<or> (d smod 7 = 1 \<and> 16789 \<le> parts \<and> hebrew_leap (y - 1))
               then d + 1 else d)
      in if d smod 7 \<in> {0, 3, 5} then d + 1 else d)"

definition hebrew_days_in_year :: "int \<Rightarrow> int" where
  "hebrew_days_in_year y = hebrew_elapsed_days (y + 1) - hebrew_elapsed_days y"

definition hebrew_long_heshvan :: "int \<Rightarrow> bool" where
  "hebrew_long_heshvan y \<longleftrightarrow> hebrew_days_in_year y smod 10 = 5"

definition hebrew_short_kislev :: "int \<Rightarrow> bool" where
  "hebrew_short_kislev y \<longleftrightarrow> hebrew_days_in_year y smod 10 = 3"

definition hebrew_last_day_of_month :: "int \<Rightarrow> int \<Rightarrow> int" where
  "hebrew_last_day_of_month m y =
     (if m \<in> {2, 4, 6, 10, 13} \<or> (m = 8 \<and> \<not> hebrew_long_heshvan y) \<or> (m = 9 \<and> hebrew_short_kislev y)
         \<or> (m = 12 \<and> \<not> hebrew_leap y)
      then 29 else 30)"

definition fixed_from_hebrew :: "int \<Rightarrow> int \<Rightarrow> int \<Rightarrow> int" where
  "fixed_from_hebrew y m d =
     (let total = d
            + (if m < 7
               then (\<Sum>k\<leftarrow>[7..hebrew_last_month_of_year y]. hebrew_last_day_of_month k y)
                    + (\<Sum>k\<leftarrow>[1..m - 1]. hebrew_last_day_of_month k y)
               else (\<Sum>k\<leftarrow>[7..m - 1]. hebrew_last_day_of_month k y))
      in total + hebrew_elapsed_days y - 1373429)"

definition hebrew_from_fixed :: "int \<Rightarrow> (int \<times> int \<times> int) option" where
  "hebrew_from_fixed f =
     (let approx = (f + 1373429) div 366
      in case count_up (\<lambda>y. fixed_from_hebrew (y + 1) 7 1 \<le> f) approx of
           None \<Rightarrow> None
         | Some y \<Rightarrow>
             let start = (if f < fixed_from_hebrew y 1 1 then 7 else 1)
             in case count_up (\<lambda>m. fixed_from_hebrew y m (hebrew_last_day_of_month m y) < f) start of
                  None \<Rightarrow> None
                | Some m \<Rightarrow> Some (y, m, as_u32 (f - fixed_from_hebrew y m 1 + 1)))"

section \<open>Islamic\<close>

definition islamic_epoch :: int where
  "islamic_epoch = fixed_from_julian 622 7 16"

definition islamic_leap :: "int \<Rightarrow> bool" where
  "islamic_leap y \<longleftrightarrow> y mod 30 \<in> {2, 5, 7, 10, 13, 16, 18, 21, 24, 26, 29}"

definition islamic_last_day_of_month :: "int \<Rightarrow> int \<Rightarrow> int" where
  "islamic_last_day_of_month m y = (if m mod 2 = 1 \<or> (m = 12 \<and> islamic_leap y) then 30 else 29)"

definition islamic_day_number :: "int \<Rightarrow> int \<Rightarrow> int" where
  "islamic_day_number m d = 29 * (m - 1) + m sdiv 2 + d"

definition fixed_from_islamic :: "int \<Rightarrow> int \<Rightarrow> int \<Rightarrow> int" where
  "fixed_from_islamic y m d =
     islamic_day_number m d + (y - 1) * 354 + (3 + 11 * y) sdiv 30 + islamic_epoch - 1"

text \<open>The result is \<open>Some None\<close> before the epoch.\<close>

definition islamic_from_fixed :: "int \<Rightarrow> (int \<times> int \<times> int) option option" where
  "islamic_from_fixed f =
     (if f < islamic_epoch then Some None
      else
        case count_up (\<lambda>y. fixed_from_islamic (y + 1) 1 1 \<le> f) ((f - islamic_epoch) div 355) of
          None \<Rightarrow> None
        | Some y \<Rightarrow>
            (case count_up (\<lambda>m. fixed_from_islamic y m (islamic_last_day_of_month m y) < f) 1 of
               None \<Rightarrow> None
             | Some m \<Rightarrow> Some (Some (y, m, as_u32 (f - fixed_from_islamic y m 1 + 1)))))"

section \<open>Persian\<close>

definition persian_epoch :: int where
  "persian_epoch = fixed_from_julian 622 3 19"

definition persian_leap :: "int \<Rightarrow> bool" where
  "persian_leap y \<longleftrightarrow>
     (let a = (if 0 \<le> y then y + 2346 else y + 2347);
          inner = (a mod 2820) mod 768
      in (inner * 683) mod 2820 < 683)"

definition persian_last_day_of_month :: "int \<Rightarrow> int \<Rightarrow> int" where
  "persian_last_day_of_month m y = (if m < 7 then 31 else if m < 12 \<or> persian_leap y then 30 else 29)"

function fixed_from_persian :: "int \<Rightarrow> int \<Rightarrow> int \<Rightarrow> int" where
  "fixed_from_persian y m d =
     (if y < 0 then fixed_from_persian (1 + y mod 2820) m d + 1029983 * (y div 2820)
      else
        let prior = (\<Sum>k\<leftarrow>[1..m - 1]. persian_last_day_of_month k y)
        in persian_epoch - 1 + 365 * (y - 1) + 683 * ((y + 2345) div 2820)
           + 186 * (((y + 2345) mod 2820) div 768)
           + (683 * (((y + 2345) mod 2820) mod 768)) div 2820
           - 568 + prior + d)"
  by pat_completeness auto
termination
proof (relation "measure (\<lambda>(y, m, d). if y < 0 then 1 else 0)")
  fix y m d :: int
  assume "y < 0"
  moreover have "0 \<le> y mod 2820" by simp
  ultimately show "((1 + y mod 2820, m, d), y, m, d) \<in> measure (\<lambda>(y, m, d). if y < 0 then 1 else 0)" by simp
qed simp

declare fixed_from_persian.simps [simp del]

definition persian_year_from_fixed :: "int \<Rightarrow> int" where
  "persian_year_from_fixed f =
     (let d0 = f - fixed_from_persian (- 2345) 1 1;
          n2820 = d0 div 1029983;
          d1 = d0 mod 1029983;
          n768 = d1 div 280506;
          d2 = d1 mod 280506;
          n1 = (2820 * (d2 + 366)) div 1029983;
          y = 2820 * n2820 + 768 * n768 + (if d1 = 1029617 then n1 - 1 else n1) - 2345
      in if y < 1 then y - 1 else y)"

definition persian_from_fixed :: "int \<Rightarrow> (int \<times> int \<times> int) option" where
  "persian_from_fixed f =
     (let y = persian_year_from_fixed f
      in case count_up (\<lambda>m. fixed_from_persian y m (persian_last_day_of_month m y) < f) 1 of
           None \<Rightarrow> None
         | Some m \<Rightarrow> Some (y, m, as_u32 (f - fixed_from_persian y m 1 + 1)))"

section \<open>French Revolutionary\<close>

definition french_epoch :: int where
  "french_epoch = rd (date_new 1792 9 22)"

definition french_leap :: "int \<Rightarrow> bool" where
  "french_leap y \<longleftrightarrow> y \<in> {3, 7, 11, 15, 20} \<or>
     (20 < y \<and> y smod 4 = 0 \<and> y smod 400 \<notin> {100, 200, 300} \<and> y smod 4000 \<noteq> 0)"

definition french_last_day_of_month :: "int \<Rightarrow> int \<Rightarrow> int" where
  "french_last_day_of_month m y = (if m < 13 then 30 else if french_leap y then 6 else 5)"

definition fixed_from_french :: "int \<Rightarrow> int \<Rightarrow> int \<Rightarrow> int" where
  "fixed_from_french y m d =
     365 * (y - 1)
     + (if y < 20 then y sdiv 4 else (y - 1) sdiv 4 - (y - 1) sdiv 100 + (y - 1) sdiv 400 - (y - 1) sdiv 4000)
     + 30 * (m - 1) + d + french_epoch - 1"

definition french_from_fixed :: "int \<Rightarrow> (int \<times> int \<times> int) option option" where
  "french_from_fixed f =
     (if f < french_epoch then Some None
      else
        case count_up (\<lambda>y. fixed_from_french (y + 1) 1 1 \<le> f) ((f - french_epoch) div 366) of
          None \<Rightarrow> None
        | Some y \<Rightarrow>
            (case count_up (\<lambda>m. fixed_from_french y m (french_last_day_of_month m y) < f) 1 of
               None \<Rightarrow> None
             | Some m \<Rightarrow> Some (Some (y, m, as_u32 (f - fixed_from_french y m 1 + 1)))))"

section \<open>Baha'i\<close>

definition bahai_nawruz :: "int \<Rightarrow> int" where
  "bahai_nawruz y = rd (date_new (as_i32 (1843 + y)) 3 21)"

definition bahai_ayyam :: "int \<Rightarrow> int" where
  "bahai_ayyam y = bahai_nawruz (y + 1) - bahai_nawruz y - 361"

definition bahai_from_fixed :: "int \<Rightarrow> (int \<times> int \<times> int) option" where
  "bahai_from_fixed f =
     (case count_up (\<lambda>y. bahai_nawruz (y + 1) \<le> f) ((f - rd (date_new 1844 3 21) - 1) div 366 + 1) of
        None \<Rightarrow> None
      | Some y0 \<Rightarrow>
          (case count_down (\<lambda>y. f < bahai_nawruz y) y0 of
             None \<Rightarrow> None
           | Some y \<Rightarrow>
               let doy = f - bahai_nawruz y; ayyam = bahai_ayyam y
               in Some (if doy < 342 then (y, as_u32 (doy sdiv 19 + 1), as_u32 (doy smod 19 + 1))
                        else if doy < 342 + ayyam then (y, 0, as_u32 (doy - 342 + 1))
                        else (y, 19, as_u32 (doy - 342 - ayyam + 1)))))"

definition fixed_from_bahai :: "int \<Rightarrow> int \<Rightarrow> int \<Rightarrow> int" where
  "fixed_from_bahai y m d =
     (let base = bahai_nawruz y; ayyam = bahai_ayyam y;
          off = (if m = 0 then 342 + (d - 1)
                 else if m = 19 then 342 + ayyam + (d - 1)
                 else (m - 1) * 19 + (d - 1))
      in base + off)"

section \<open>Mayan\<close>

definition mayan_days_before_absolute_zero :: int where
  "mayan_days_before_absolute_zero = 1137142"

definition mayan_long_count_from_fixed :: "int \<Rightarrow> int \<times> int \<times> int \<times> int \<times> int" where
  "mayan_long_count_from_fixed f =
     (let lc = f + mayan_days_before_absolute_zero;
          baktun = lc div 144000;
          day_of_baktun = lc mod 144000;
          katun = day_of_baktun div 7200;
          day_of_katun = day_of_baktun mod 7200;
          tun = day_of_katun div 360;
          day_of_tun = day_of_katun mod 360;
          uinal = day_of_tun div 20;
          kin = day_of_tun mod 20
      in (baktun, katun, tun, uinal, kin))"

definition fixed_from_mayan_long_count :: "int \<Rightarrow> int \<Rightarrow> int \<Rightarrow> int \<Rightarrow> int \<Rightarrow> int" where
  "fixed_from_mayan_long_count baktun katun tun uinal kin =
     baktun * 144000 + katun * 7200 + tun * 360 + uinal * 20 + kin - mayan_days_before_absolute_zero"

definition mayan_haab_from_fixed :: "int \<Rightarrow> int \<times> int" where
  "mayan_haab_from_fixed f =
     (let lc = f + mayan_days_before_absolute_zero;
          day_of_haab = (lc + 8 + 20 * (18 - 1)) mod 365
      in (day_of_haab mod 20, as_u32 (day_of_haab div 20 + 1)))"

definition mayan_tzolkin_from_fixed :: "int \<Rightarrow> int \<times> int" where
  "mayan_tzolkin_from_fixed f =
     (let lc = f + mayan_days_before_absolute_zero
      in ((lc + 4 - 1) mod 13 + 1, as_u32 ((lc + 20 - 1) mod 20 + 1)))"

text \<open>The three searches, over a number of days that is one full cycle.\<close>

fun next_day :: "nat \<Rightarrow> int \<Rightarrow> (int \<Rightarrow> bool) \<Rightarrow> int \<Rightarrow> int \<Rightarrow> int" where
  "next_day 0 step p origin f = origin"
| "next_day (Suc n) step p origin f = (if p f then f else next_day n step p origin (f + step))"

definition mayan_next_haab :: "int \<Rightarrow> int \<times> int \<Rightarrow> bool \<Rightarrow> int" where
  "mayan_next_haab origin target forward =
     (let step = (if forward then 1 else - 1)
      in next_day 365 step (\<lambda>f. mayan_haab_from_fixed f = target) origin (origin + step))"

definition mayan_next_tzolkin :: "int \<Rightarrow> int \<times> int \<Rightarrow> bool \<Rightarrow> int" where
  "mayan_next_tzolkin origin target forward =
     (let step = (if forward then 1 else - 1)
      in next_day 260 step (\<lambda>f. mayan_tzolkin_from_fixed f = target) origin (origin + step))"

definition mayan_next_round :: "int \<Rightarrow> int \<times> int \<Rightarrow> int \<times> int \<Rightarrow> bool \<Rightarrow> int" where
  "mayan_next_round origin haab tzolkin forward =
     (let step = (if forward then 1 else - 1)
      in next_day 18980 step (\<lambda>f. mayan_haab_from_fixed f = haab \<and> mayan_tzolkin_from_fixed f = tzolkin)
           origin (origin + step))"

end
