(* ===== verification/CalendarLaws.thy ===== *)
theory CalendarLaws
  imports OtherCalendars
begin

text \<open>
  What the conversions of the other calendars promise: each is a \<open>calendar_system\<close>, a one-to-one
  correspondence between its dates and the day numbers it covers.  The calendars that search for the
  year and the month (Islamic, French) are instances of \<open>month_table\<close>, where the loops are shown to
  end and to find the date.  The Julian, Coptic and Ethiopic ones compute the year in closed form.
\<close>

section \<open>Searching\<close>

lemma count_up_finds:
  assumes "a \<le> b" "\<And>i. a \<le> i \<Longrightarrow> i < b \<Longrightarrow> p i" "\<not> p b"
  shows "count_up p a = Some b"
  using assms
proof (induction "nat (b - a)" arbitrary: a)
  case 0
  then show ?case by (subst count_up.simps) simp
next
  case (Suc n)
  then have "a < b" by simp
  have "count_up p (a + 1) = Some b" by (rule Suc.hyps(1)) (use Suc.hyps(2) Suc.prems \<open>a < b\<close> in auto)
  then show ?case using Suc.prems(2) [of a] \<open>a < b\<close> by (subst count_up.simps) simp
qed

lemma count_down_finds:
  assumes "b \<le> a" "\<And>i. i \<le> a \<Longrightarrow> b < i \<Longrightarrow> p i" "\<not> p b"
  shows "count_down p a = Some b"
  using assms
proof (induction "nat (a - b)" arbitrary: a)
  case 0
  then show ?case by (subst count_down.simps) simp
next
  case (Suc n)
  then have "b < a" by simp
  have "count_down p (a - 1) = Some b" by (rule Suc.hyps(1)) (use Suc.hyps(2) Suc.prems \<open>b < a\<close> in auto)
  then show ?case using Suc.prems(2) [of a] \<open>b < a\<close> by (subst count_down.simps) simp
qed

text \<open>The two loops of \<open>islamic_from_fixed\<close> and \<open>french_from_fixed\<close>.\<close>

definition search_date ::
  "(int \<Rightarrow> int \<Rightarrow> int \<Rightarrow> int) \<Rightarrow> (int \<Rightarrow> int \<Rightarrow> int) \<Rightarrow> int \<Rightarrow> int \<Rightarrow> (int \<times> int \<times> int) option" where
  "search_date to_fixed last_day approx f =
     (case count_up (\<lambda>y. to_fixed (y + 1) 1 1 \<le> f) approx of
        None \<Rightarrow> None
      | Some y \<Rightarrow>
          (case count_up (\<lambda>m. to_fixed y m (last_day m y) < f) 1 of
             None \<Rightarrow> None
           | Some m \<Rightarrow> Some (y, m, as_u32 (f - to_fixed y m 1 + 1))))"

text \<open>
  Years of months of days: where one ends the next begins, and no year is longer than \<open>longest\<close>.
\<close>

locale month_table =
  fixes to_fixed :: "int \<Rightarrow> int \<Rightarrow> int \<Rightarrow> int"
    and last_day :: "int \<Rightarrow> int \<Rightarrow> int"
    and months :: int
    and longest :: int
  assumes day_step: "to_fixed y m (d + k) = to_fixed y m d + k"
    and month_step: "1 \<le> y \<Longrightarrow> 1 \<le> m \<Longrightarrow> m < months \<Longrightarrow> to_fixed y (m + 1) 1 = to_fixed y m (last_day m y) + 1"
    and year_step: "1 \<le> y \<Longrightarrow> to_fixed (y + 1) 1 1 = to_fixed y months (last_day months y) + 1"
    and days: "1 \<le> last_day m y \<and> last_day m y < 2 ^ 32"
    and some_month: "1 \<le> months"
    and year_length: "1 \<le> y \<Longrightarrow> to_fixed (y + 1) 1 1 \<le> to_fixed y 1 1 + longest"
    and some_day: "0 < longest"
begin

lemma month_end: "to_fixed y m (last_day m y) = to_fixed y m 1 + (last_day m y - 1)"
  using day_step [of y m 1 "last_day m y - 1"] by simp

lemma month_starts_rise:
  assumes "1 \<le> y" "1 \<le> m" "m < m'" "m' \<le> months"
  shows "to_fixed y m (last_day m y) < to_fixed y m' 1"
  using assms(3,4)
proof (induction m' rule: int_gr_induct)
  case base
  then show ?case using month_step [OF assms(1,2)] by simp
next
  case (step i)
  have "to_fixed y (i + 1) 1 = to_fixed y i (last_day i y) + 1"
    using month_step [OF assms(1), of i] step.hyps step.prems assms(2) by simp
  then show ?case using step month_end [of y i] days [of i y] by simp
qed

lemma in_year:
  assumes "1 \<le> y" "1 \<le> m" "m \<le> months"
  shows "to_fixed y 1 1 \<le> to_fixed y m 1" "to_fixed y m (last_day m y) < to_fixed (y + 1) 1 1"
proof -
  show "to_fixed y 1 1 \<le> to_fixed y m 1"
    using month_starts_rise [OF assms(1), of 1 m] assms(2,3) month_end [of y 1] days [of 1 y]
    by (cases "m = 1") auto
  show "to_fixed y m (last_day m y) < to_fixed (y + 1) 1 1"
    using month_starts_rise [OF assms(1,2), of months] assms(3) month_end [of y months] days [of months y]
      year_step [OF assms(1)]
    by (cases "m = months") auto
qed

lemma year_starts_rise:
  assumes "1 \<le> y" "y < y'"
  shows "to_fixed (y + 1) 1 1 \<le> to_fixed y' 1 1 \<and> to_fixed y 1 1 < to_fixed y' 1 1"
  using assms(2)
proof (induction y' rule: int_gr_induct)
  case base
  then show ?case using in_year [OF assms(1), of 1] some_month month_end [of y 1] days [of 1 y] by simp
next
  case (step i)
  have "to_fixed i 1 1 < to_fixed (i + 1) 1 1"
    using in_year [of i 1] some_month month_end [of i 1] days [of 1 i] assms(1) step.hyps by simp
  then show ?case using step by simp
qed

lemma year_start_bound: "1 \<le> y \<Longrightarrow> to_fixed y 1 1 \<le> to_fixed 1 1 1 + longest * (y - 1)"
proof (induction y rule: int_ge_induct)
  case (step i)
  then show ?case using year_length [OF step.hyps] by (simp add: algebra_simps)
qed simp

lemma years_unbounded: "1 \<le> y \<Longrightarrow> to_fixed 1 1 1 + (y - 1) \<le> to_fixed y 1 1"
proof (induction y rule: int_ge_induct)
  case (step i)
  then show ?case using year_starts_rise [OF step.hyps, of "i + 1"] by simp
qed simp

lemma year_exists:
  assumes "to_fixed 1 1 1 \<le> f"
  obtains y where "1 \<le> y" "to_fixed y 1 1 \<le> f" "f < to_fixed (y + 1) 1 1"
proof -
  define n where "n = nat (f - to_fixed 1 1 1 + 2)"
  have "f < to_fixed (1 + int n) 1 1"
    using years_unbounded [of "1 + int n"] assms by (simp add: n_def)
  then obtain k where k: "f < to_fixed (1 + int k) 1 1" "\<forall>j<k. \<not> f < to_fixed (1 + int j) 1 1"
    using exists_least_iff [of "\<lambda>k. f < to_fixed (1 + int k) 1 1"] by blast
  have "k \<noteq> 0" using k(1) assms by (cases k) auto
  then obtain j where "k = Suc j" using not0_implies_Suc by blast
  then show ?thesis using k that [of "1 + int j"] by (auto simp: add.commute add.left_commute not_less)
qed

lemma month_exists:
  assumes "1 \<le> y" "to_fixed y 1 1 \<le> f" "f < to_fixed (y + 1) 1 1"
  obtains m where "1 \<le> m" "m \<le> months" "to_fixed y m 1 \<le> f" "f \<le> to_fixed y m (last_day m y)"
proof -
  let ?p = "\<lambda>k::nat. f \<le> to_fixed y (1 + int k) (last_day (1 + int k) y)"
  have "?p (nat (months - 1))" using year_step [OF assms(1)] assms(3) some_month by simp
  then obtain k where k: "?p k" "\<forall>j<k. \<not> ?p j" "k \<le> nat (months - 1)"
    using exists_least_iff [of ?p] by (metis linorder_not_le)
  have m: "1 + int k \<le> months" using k(3) some_month by simp
  have "to_fixed y (1 + int k) 1 \<le> f"
  proof (cases k)
    case (Suc j)
    then have "to_fixed y (1 + int j) (last_day (1 + int j) y) < f" using k(2) by auto
    then show ?thesis using month_step [OF assms(1), of "1 + int j"] m Suc by (simp add: add.commute)
  qed (use assms(2) in simp)
  then show ?thesis using that [of "1 + int k"] k(1) m by simp
qed

lemma search_finds:
  assumes "1 \<le> y" "1 \<le> m" "m \<le> months" "1 \<le> d" "d \<le> last_day m y"
  shows "search_date to_fixed last_day ((to_fixed y m d - to_fixed 1 1 1) div longest) (to_fixed y m d) = Some (y, m, d)"
proof -
  let ?f = "to_fixed y m d"
  have f: "?f = to_fixed y m 1 + (d - 1)" using day_step [of y m 1 "d - 1"] by simp
  have lo: "to_fixed y 1 1 \<le> ?f" and hi: "?f < to_fixed (y + 1) 1 1"
    using in_year [OF assms(1-3)] f assms(4,5) month_end [of y m] by auto
  have "to_fixed 1 1 1 \<le> ?f" using years_unbounded [OF assms(1)] lo assms(1) by simp
  then have guess: "0 \<le> (?f - to_fixed 1 1 1) div longest" "(?f - to_fixed 1 1 1) div longest \<le> y"
  proof -
    have "?f - to_fixed 1 1 1 < longest * y"
      using year_start_bound [of "y + 1"] assms(1) hi by simp
    moreover have "longest * ((?f - to_fixed 1 1 1) div longest) \<le> ?f - to_fixed 1 1 1"
      using mult_div_mod_eq [of longest "?f - to_fixed 1 1 1"] pos_mod_sign [OF some_day, of "?f - to_fixed 1 1 1"]
      by linarith
    ultimately have "longest * ((?f - to_fixed 1 1 1) div longest) < longest * y" by linarith
    then have "(?f - to_fixed 1 1 1) div longest < y" using some_day by simp
    then show "(?f - to_fixed 1 1 1) div longest \<le> y" by simp
  qed (use some_day in \<open>simp add: pos_imp_zdiv_nonneg_iff\<close>)
  have "count_up (\<lambda>y. to_fixed (y + 1) 1 1 \<le> ?f) ((?f - to_fixed 1 1 1) div longest) = Some y"
  proof (rule count_up_finds [OF guess(2)])
    fix i
    assume "(?f - to_fixed 1 1 1) div longest \<le> i" "i < y"
    then have "1 \<le> i + 1" "i + 1 = y \<or> i + 1 < y" using guess(1) by auto
    then show "to_fixed (i + 1) 1 1 \<le> ?f" using year_starts_rise [of "i + 1" y] lo by auto
  qed (use hi in simp)
  moreover have "count_up (\<lambda>m. to_fixed y m (last_day m y) < ?f) 1 = Some m"
  proof (rule count_up_finds [OF assms(2)])
    fix i
    assume "1 \<le> i" "i < m"
    then show "to_fixed y i (last_day i y) < ?f" using month_starts_rise [OF assms(1), of i m] assms(3,4) f by simp
  qed (use f assms(5) month_end [of y m] in simp)
  moreover have "as_u32 (?f - to_fixed y m 1 + 1) = d" using f assms(4,5) days [of m y] by simp
  ultimately show ?thesis by (simp add: search_date_def)
qed

lemma date_exists:
  assumes "to_fixed 1 1 1 \<le> f"
  obtains y m d where "1 \<le> y" "1 \<le> m" "m \<le> months" "1 \<le> d" "d \<le> last_day m y" "to_fixed y m d = f"
proof -
  obtain y where y: "1 \<le> y" "to_fixed y 1 1 \<le> f" "f < to_fixed (y + 1) 1 1" by (rule year_exists [OF assms])
  obtain m where m: "1 \<le> m" "m \<le> months" "to_fixed y m 1 \<le> f" "f \<le> to_fixed y m (last_day m y)"
    by (rule month_exists [OF y])
  show ?thesis
    using that [OF y(1) m(1,2), of "f - to_fixed y m 1 + 1"] m(3,4) month_end [of y m]
      day_step [of y m 1 "f - to_fixed y m 1"] by (simp add: add.commute)
qed

lemma searched:
  "(\<exists>r. (if f < to_fixed 1 1 1 then Some None
        else map_option Some (search_date to_fixed last_day ((f - to_fixed 1 1 1) div longest) f)) = Some r \<and>
      (r = None \<longleftrightarrow> f < to_fixed 1 1 1)) \<and>
   ((if f < to_fixed 1 1 1 then Some None
     else map_option Some (search_date to_fixed last_day ((f - to_fixed 1 1 1) div longest) f)) = Some (Some (y, m, d)) \<longleftrightarrow>
    1 \<le> y \<and> 1 \<le> m \<and> m \<le> months \<and> 1 \<le> d \<and> d \<le> last_day m y \<and> to_fixed y m d = f)"
proof (cases "f < to_fixed 1 1 1")
  case True
  have "to_fixed 1 1 1 \<le> to_fixed y m d" if "1 \<le> y" "1 \<le> m" "m \<le> months" "1 \<le> d"
    using years_unbounded [OF that(1)] in_year(1) [OF that(1-3)] day_step [of y m 1 "d - 1"] that by simp
  then show ?thesis using True by auto
next
  case False
  then obtain y' m' d' where d: "1 \<le> y'" "1 \<le> m'" "m' \<le> months" "1 \<le> d'" "d' \<le> last_day m' y'" "to_fixed y' m' d' = f"
    using date_exists [of f] by (auto simp: not_less)
  have "search_date to_fixed last_day ((f - to_fixed 1 1 1) div longest) f = Some (y', m', d')"
    using search_finds [OF d(1-5)] d(6) by simp
  moreover have "(y', m', d') = (y, m, d)"
    if "1 \<le> y" "1 \<le> m" "m \<le> months" "1 \<le> d" "d \<le> last_day m y" "to_fixed y m d = f"
    using search_finds [OF that(1-5)] calculation that(6) by simp
  ultimately show ?thesis using False d by auto
qed

end

definition table_date :: "int \<Rightarrow> (int \<Rightarrow> int \<Rightarrow> int) \<Rightarrow> int \<times> int \<times> int \<Rightarrow> bool" where
  "table_date months last_day = (\<lambda>(y, m, d). 1 \<le> y \<and> 1 \<le> m \<and> m \<le> months \<and> 1 \<le> d \<and> d \<le> last_day m y)"

sublocale month_table \<subseteq> table: calendar_system "table_date months last_day" "\<lambda>(y, m, d). to_fixed y m d"
  "\<lambda>f. the (search_date to_fixed last_day ((f - to_fixed 1 1 1) div longest) f)" "\<lambda>f. to_fixed 1 1 1 \<le> f"
proof
  fix f
  assume "to_fixed 1 1 1 \<le> f"
  then obtain y m d where d: "1 \<le> y" "1 \<le> m" "m \<le> months" "1 \<le> d" "d \<le> last_day m y" "to_fixed y m d = f"
    by (rule date_exists)
  then show "table_date months last_day (the (search_date to_fixed last_day ((f - to_fixed 1 1 1) div longest) f)) \<and>
      (\<lambda>(y, m, d). to_fixed y m d) (the (search_date to_fixed last_day ((f - to_fixed 1 1 1) div longest) f)) = f"
    using search_finds [OF d(1-5)] by (simp add: table_date_def)
next
  fix x
  assume x: "table_date months last_day x"
  obtain y m d where xd: "x = (y, m, d)" by (cases x)
  have d: "1 \<le> y" "1 \<le> m" "m \<le> months" "1 \<le> d" "d \<le> last_day m y"
    using x by (simp_all add: xd table_date_def)
  have "to_fixed 1 1 1 \<le> to_fixed y 1 1" using years_unbounded [OF d(1)] d(1) by simp
  then have "to_fixed 1 1 1 \<le> to_fixed y m d"
    using in_year(1) [OF d(1-3)] day_step [of y m 1 "d - 1"] d(4) by simp
  then show "to_fixed 1 1 1 \<le> (\<lambda>(y, m, d). to_fixed y m d) x \<and>
      the (search_date to_fixed last_day (((\<lambda>(y, m, d). to_fixed y m d) x - to_fixed 1 1 1) div longest)
        ((\<lambda>(y, m, d). to_fixed y m d) x)) = x"
    using search_finds [OF d] by (simp add: xd)
qed

section \<open>Islamic and French\<close>

lemma islamic_year_step:
  assumes "1 \<le> y"
  shows "(14 + 11 * y) div 30 = (3 + 11 * y) div 30 + (if islamic_leap y then 1 else 0)"
proof -
  define q r where "q = y div 30" and "r = y mod 30"
  have y: "y = 30 * q + r" "r \<in> set [0..29]" by (simp_all add: q_def r_def)
  have "\<forall>r\<in>set [0..29]. (14 + 11 * r) div 30 = (3 + 11 * r) div 30 +
      (if r \<in> {2, 5, 7, 10, 13, 16, 18, 21, 24, 26, 29} then 1 else 0)"
    by code_simp
  with y(2) have r: "(14 + 11 * r) div 30 = (3 + 11 * r) div 30 + (if islamic_leap y then 1 else 0)"
    by (simp only: islamic_leap_def r_def)
  have "14 + 11 * y = (14 + 11 * r) + 30 * (11 * q)" "3 + 11 * y = (3 + 11 * r) + 30 * (11 * q)"
    using y(1) by simp_all
  then have "(14 + 11 * y) div 30 = 11 * q + (14 + 11 * r) div 30" "(3 + 11 * y) div 30 = 11 * q + (3 + 11 * r) div 30"
    by (simp_all only: div_mult_self2 zero_neq_numeral not_False_eq_True)
  then show ?thesis using r by simp
qed

lemma fixed_from_islamic_pos:
  "1 \<le> y \<Longrightarrow> 1 \<le> m \<Longrightarrow> fixed_from_islamic y m d =
     29 * (m - 1) + m div 2 + d + (y - 1) * 354 + (3 + 11 * y) div 30 + islamic_epoch - 1"
  by (simp add: fixed_from_islamic_def islamic_day_number_def)

interpretation islamic: month_table fixed_from_islamic islamic_last_day_of_month 12 355
proof
  fix y m d k :: int
  show "fixed_from_islamic y m (d + k) = fixed_from_islamic y m d + k"
    by (simp add: fixed_from_islamic_def islamic_day_number_def)
  show "1 \<le> islamic_last_day_of_month m y \<and> islamic_last_day_of_month m y < 2 ^ 32"
    by (simp add: islamic_last_day_of_month_def)
  assume y: "1 \<le> y"
  then show step: "fixed_from_islamic (y + 1) 1 1 = fixed_from_islamic y 12 (islamic_last_day_of_month 12 y) + 1"
    using islamic_year_step [OF y]
    by (simp add: fixed_from_islamic_pos islamic_last_day_of_month_def algebra_simps)
  show "fixed_from_islamic (y + 1) 1 1 \<le> fixed_from_islamic y 1 1 + 355"
    using islamic_year_step [OF y] y by (simp add: fixed_from_islamic_pos algebra_simps)
  assume m: "1 \<le> m" "m < 12"
  have "(m + 1) div 2 = m div 2 + m mod 2" by presburger
  then show "fixed_from_islamic y (m + 1) 1 = fixed_from_islamic y m (islamic_last_day_of_month m y) + 1"
    using m y by (auto simp: fixed_from_islamic_pos islamic_last_day_of_month_def algebra_simps)
qed simp_all

definition french_leap_days :: "int \<Rightarrow> int" where
  "french_leap_days y =
     (if y < 20 then y div 4 else (y - 1) div 4 - (y - 1) div 100 + (y - 1) div 400 - (y - 1) div 4000)"

lemma french_year_step:
  assumes "1 \<le> y"
  shows "french_leap_days (y + 1) = french_leap_days y + (if french_leap y then 1 else 0)"
proof (cases "y < 20")
  case True
  have "\<forall>y\<in>set [1..19]. (if y + 1 < 20 then (y + 1) div 4 else y div 4 - y div 100 + y div 400 - y div 4000) =
      y div 4 + (if y = 3 \<or> y = 7 \<or> y = 11 \<or> y = 15 then 1 else 0)" for y :: int
    by code_simp
  moreover have "y \<in> set [1..19]" using assms True by simp
  ultimately have "(if y + 1 < 20 then (y + 1) div 4 else y div 4 - y div 100 + y div 400 - y div 4000) =
      y div 4 + (if y = 3 \<or> y = 7 \<or> y = 11 \<or> y = 15 then 1 else 0)" by (rule bspec)
  then show ?thesis using True by (auto simp: french_leap_days_def french_leap_def split: if_splits)
next
  case False
  have d: "y div n = (y - 1) div n + (if y mod n = 0 then 1 else 0)" if "0 < n" for n
    using div_succ [OF that, of "y - 1"] by simp
  have c: "y mod 100 = 0 \<Longrightarrow> y mod 4 = 0" "y mod 400 = 0 \<Longrightarrow> y mod 100 = 0" "y mod 4000 = 0 \<Longrightarrow> y mod 400 = 0"
    using mod_mod_cancel [of 4 100 y] mod_mod_cancel [of 100 400 y] mod_mod_cancel [of 400 4000 y] by auto
  have s: "y smod 4 = y mod 4" "y smod 400 = y mod 400" "y smod 4000 = y mod 4000"
    using False by (simp_all add: signed_modulo_int_def)
  have h: "y mod 400 \<in> {100, 200, 300} \<longleftrightarrow> y mod 100 = 0 \<and> y mod 400 \<noteq> 0"
  proof -
    define z where "z = y mod 400"
    have z: "0 \<le> z" "z < 400" "y mod 100 = z mod 100" by (simp_all add: z_def mod_mod_cancel)
    have "z mod 100 = 0 \<longleftrightarrow> z = 0 \<or> z = 100 \<or> z = 200 \<or> z = 300" using z(1,2) by presburger
    then show ?thesis unfolding z_def [symmetric] z(3) by auto
  qed
  have leap: "french_leap y \<longleftrightarrow> y mod 4 = 0 \<and> \<not> (y mod 100 = 0 \<and> y mod 400 \<noteq> 0) \<and> y mod 4000 \<noteq> 0"
    using False h by (cases "y = 20") (auto simp: french_leap_def s)
  have "french_leap_days (y + 1) = y div 4 - y div 100 + y div 400 - y div 4000"
    using False by (simp add: french_leap_days_def)
  also have "\<dots> = french_leap_days y + (if y mod 4 = 0 then 1 else 0) - (if y mod 100 = 0 then 1 else 0)
      + (if y mod 400 = 0 then 1 else 0) - (if y mod 4000 = 0 then 1 else 0)"
    using False by (simp add: french_leap_days_def d)
  finally show ?thesis using c unfolding leap by presburger
qed

lemma fixed_from_french_pos:
  "1 \<le> y \<Longrightarrow> fixed_from_french y m d = 365 * (y - 1) + french_leap_days y + 30 * (m - 1) + d + french_epoch - 1"
  by (auto simp: fixed_from_french_def french_leap_days_def)

interpretation french: month_table fixed_from_french french_last_day_of_month 13 366
proof
  fix y m d k :: int
  show "fixed_from_french y m (d + k) = fixed_from_french y m d + k"
    by (simp add: fixed_from_french_def)
  show "1 \<le> french_last_day_of_month m y \<and> french_last_day_of_month m y < 2 ^ 32"
    by (simp add: french_last_day_of_month_def)
  assume y: "1 \<le> y"
  then show "fixed_from_french (y + 1) 1 1 = fixed_from_french y 13 (french_last_day_of_month 13 y) + 1"
    using french_year_step [OF y] by (simp add: fixed_from_french_pos french_last_day_of_month_def)
  show "fixed_from_french (y + 1) 1 1 \<le> fixed_from_french y 1 1 + 366"
    using french_year_step [OF y] y by (simp add: fixed_from_french_pos)
  assume "1 \<le> m" "m < 13"
  then show "fixed_from_french y (m + 1) 1 = fixed_from_french y m (french_last_day_of_month m y) + 1"
    using y by (simp add: fixed_from_french_pos french_last_day_of_month_def)
qed simp_all

section \<open>Coptic and Ethiopic\<close>

lemma div_iff:
  fixes x n y :: int
  assumes "0 < n"
  shows "x div n = y \<longleftrightarrow> n * y \<le> x \<and> x < n * y + n"
proof
  assume "x div n = y"
  then show "n * y \<le> x \<and> x < n * y + n"
    using mult_div_mod_eq [of n x] pos_mod_sign [OF assms, of x] pos_mod_bound [OF assms, of x] by auto
next
  assume "n * y \<le> x \<and> x < n * y + n"
  then show "x div n = y" by (intro int_div_pos_eq [of x n y "x - n * y"]) simp_all
qed

text \<open>The year formula: the day \<open>a\<close> after the epoch lies in year \<open>y\<close> exactly when it says so.\<close>

lemma coptic_arith:
  fixes a y q r :: int
  assumes "4 * q \<le> y" "y \<le> 4 * q + 3" "4 * r \<le> y + 1" "y + 1 \<le> 4 * r + 3"
  shows "1461 * y \<le> 4 * a + 1463 \<and> 4 * a + 1463 < 1461 * y + 1461 \<longleftrightarrow> 365 * (y - 1) + q \<le> a \<and> a < 365 * y + r"
  using assms by auto

lemma coptic_year:
  "(4 * a + 1463) div 1461 = y \<longleftrightarrow> 365 * (y - 1) + y div 4 \<le> a \<and> a < 365 * y + (y + 1) div 4" for a y :: int
proof -
  have "4 * (y div 4) \<le> y" "y \<le> 4 * (y div 4) + 3" "4 * ((y + 1) div 4) \<le> y + 1" "y + 1 \<le> 4 * ((y + 1) div 4) + 3"
    by presburger+
  moreover have "(4 * a + 1463) div 1461 = y \<longleftrightarrow> 1461 * y \<le> 4 * a + 1463 \<and> 4 * a + 1463 < 1461 * y + 1461"
    by (rule div_iff) simp
  ultimately show ?thesis using coptic_arith by simp
qed

definition coptic_month_length :: "int \<Rightarrow> int \<Rightarrow> int" where
  "coptic_month_length y m = (if m < 13 then 30 else if y mod 4 = 3 then 6 else 5)"

definition coptic_date :: "int \<times> int \<times> int \<Rightarrow> bool" where
  "coptic_date = (\<lambda>(y, m, d). - (2 ^ 31) \<le> y \<and> y < 2 ^ 31 \<and> 1 \<le> m \<and> m \<le> 13 \<and> 1 \<le> d \<and> d \<le> coptic_month_length y m)"

text \<open>The day numbers of the years that fit into an \<open>i32\<close>.\<close>

definition coptic_covers :: "int \<Rightarrow> int \<Rightarrow> bool" where
  "coptic_covers epoch f \<longleftrightarrow> coptic_like_to_fixed epoch (- (2 ^ 31)) 1 1 \<le> f \<and> f < coptic_like_to_fixed epoch (2 ^ 31) 1 1"

lemma coptic_year_length: "(y + 1) div 4 - y div 4 = (if y mod 4 = 3 then 1 else 0)" for y :: int
  by presburger

lemma coptic_like_system:
  "calendar_system coptic_date (\<lambda>(y, m, d). coptic_like_to_fixed epoch y m d)
     (coptic_like_from_fixed epoch) (coptic_covers epoch)"
proof
  fix f
  assume f: "coptic_covers epoch f"
  define a y where "a = f - epoch" and "y = (4 * a + 1463) div 1461"
  define n where "n = a - (365 * (y - 1) + y div 4)"
  have y: "365 * (y - 1) + y div 4 \<le> a" "a < 365 * y + (y + 1) div 4"
    using coptic_year [of a y] by (simp_all add: y_def)
  have n: "0 \<le> n" "n < 365 + (if y mod 4 = 3 then 1 else 0)"
    using y coptic_year_length [of y] by (simp_all add: n_def)
  have range: "- (2 ^ 31) \<le> y" "y < 2 ^ 31"
    using f unfolding y_def by (auto simp: coptic_covers_def coptic_like_to_fixed_def a_def)
  have st: "coptic_like_to_fixed epoch y 1 1 = f - n" by (simp add: coptic_like_to_fixed_def n_def a_def)
  have n30: "0 \<le> n div 30" "n div 30 \<le> 12" using n by (auto simp: pos_imp_zdiv_nonneg_iff split: if_splits)
  then have m: "as_u32 (1 + n div 30) = 1 + n div 30" by simp
  have dd: "coptic_like_to_fixed epoch y (1 + n div 30) 1 = f - n mod 30"
    using st unfolding minus_mult_div_eq_mod [of n 30, symmetric] by (simp add: coptic_like_to_fixed_def)
  have "as_i32 y = y" using range by simp
  then have from_f: "coptic_like_from_fixed epoch f = (y, 1 + n div 30, n mod 30 + 1)"
    using st m dd by (simp add: coptic_like_from_fixed_def Let_def a_def [symmetric] y_def [symmetric])
  have "n div 30 = 12 \<Longrightarrow> n mod 30 < 5 + (if y mod 4 = 3 then 1 else 0)"
    using n(2) minus_mult_div_eq_mod [of n 30] by simp
  then have "coptic_date (y, 1 + n div 30, n mod 30 + 1)"
    using range n30 by (auto simp: coptic_date_def coptic_month_length_def split: if_splits)
  moreover have "coptic_like_to_fixed epoch y (1 + n div 30) (n mod 30 + 1) = f"
    using st unfolding minus_mult_div_eq_mod [of n 30, symmetric] by (simp add: coptic_like_to_fixed_def)
  ultimately show "coptic_date (coptic_like_from_fixed epoch f) \<and>
      (\<lambda>(y, m, d). coptic_like_to_fixed epoch y m d) (coptic_like_from_fixed epoch f) = f"
    by (simp add: from_f)
next
  fix x
  assume x: "coptic_date x"
  obtain y m d where xd: "x = (y, m, d)" by (cases x)
  define n where "n = 30 * (m - 1) + (d - 1)"
  have v: "- (2 ^ 31) \<le> y" "y < 2 ^ 31" "1 \<le> m" "m \<le> 13" "1 \<le> d" "d \<le> coptic_month_length y m"
    using x by (simp_all add: xd coptic_date_def)
  have n: "0 \<le> n" "n < 365 + (if y mod 4 = 3 then 1 else 0)"
    using v(3-6) by (auto simp: n_def coptic_month_length_def split: if_splits)
  have f: "coptic_like_to_fixed epoch y m d = epoch + 365 * (y - 1) + y div 4 + n"
    by (simp add: coptic_like_to_fixed_def n_def)
  have yr: "(4 * (coptic_like_to_fixed epoch y m d - epoch) + 1463) div 1461 = y"
    using n coptic_year_length [of y] by (simp add: coptic_year f)
  have d30: "d - 1 < 30" using v(6) by (auto simp: coptic_month_length_def split: if_splits)
  have nd: "n div 30 = m - 1"
    using d30 v(5) div_mult_self4 [of 30 "d - 1" "m - 1"] by (simp add: n_def add.commute mult.commute div_pos_pos_trivial)
  have st: "coptic_like_to_fixed epoch y m d - coptic_like_to_fixed epoch y 1 1 = n"
    by (simp add: coptic_like_to_fixed_def n_def)
  have "coptic_like_from_fixed epoch (coptic_like_to_fixed epoch y m d) = (y, m, d)"
    unfolding coptic_like_from_fixed_def Let_def yr as_i32_id [OF v(1,2)] st nd
    using v d30 by (simp add: coptic_like_to_fixed_def)
  moreover have "coptic_covers epoch (coptic_like_to_fixed epoch y m d)"
  proof -
    have "(- (2 ^ 31)) div 4 \<le> y div 4" "(y + 1) div 4 \<le> (2 ^ 31) div (4::int)"
      using v(1,2) by (intro zdiv_mono1; simp)+
    then show ?thesis
      using n v(1,2) coptic_year_length [of y] unfolding coptic_covers_def f
      by (simp add: coptic_like_to_fixed_def)
  qed
  ultimately show "coptic_covers epoch ((\<lambda>(y, m, d). coptic_like_to_fixed epoch y m d) x) \<and>
      coptic_like_from_fixed epoch ((\<lambda>(y, m, d). coptic_like_to_fixed epoch y m d) x) = x"
    by (simp add: xd)
qed

interpretation coptic: calendar_system coptic_date "\<lambda>(y, m, d). fixed_from_coptic y m d" coptic_from_fixed
  "coptic_covers coptic_epoch"
  using coptic_like_system [of coptic_epoch]
  by (simp add: fixed_from_coptic_def [abs_def] coptic_from_fixed_def [abs_def])

interpretation ethiopic: calendar_system coptic_date "\<lambda>(y, m, d). fixed_from_ethiopic y m d" ethiopic_from_fixed
  "coptic_covers ethiopic_epoch"
  using coptic_like_system [of ethiopic_epoch]
  by (simp add: fixed_from_ethiopic_def [abs_def] ethiopic_from_fixed_def [abs_def])

section \<open>Julian\<close>

text \<open>Years without a year 0 are counted by astronomical years.\<close>

definition astro :: "int \<Rightarrow> int" where
  "astro yr = (if yr < 0 then yr + 1 else yr)"

definition julian_month_length :: "int \<Rightarrow> int \<Rightarrow> int" where
  "julian_month_length yr m = (if m = 2 then (if julian_leap yr then 29 else 28) else days_in_month 1 m)"

definition julian_date :: "int \<times> int \<times> int \<Rightarrow> bool" where
  "julian_date = (\<lambda>(y, m, d). - (2 ^ 31) \<le> y \<and> y < 2 ^ 31 \<and> y \<noteq> 0 \<and> 1 \<le> m \<and> m \<le> 12 \<and> 1 \<le> d \<and>
     d \<le> julian_month_length y m)"

definition julian_covers :: "int \<Rightarrow> bool" where
  "julian_covers f \<longleftrightarrow> fixed_from_julian (- (2 ^ 31)) 1 1 \<le> f \<and> f \<le> fixed_from_julian (2 ^ 31 - 1) 12 31"

lemma julian_arith:
  fixes a y q r :: int
  assumes "4 * q \<le> y - 1" "y - 1 \<le> 4 * q + 3" "4 * r \<le> y" "y \<le> 4 * r + 3"
  shows "1461 * y \<le> 4 * a + 1464 \<and> 4 * a + 1464 < 1461 * y + 1461 \<longleftrightarrow> 365 * (y - 1) + q \<le> a \<and> a < 365 * y + r"
  using assms by auto

lemma julian_year:
  "(4 * a + 1464) div 1461 = y \<longleftrightarrow> 365 * (y - 1) + (y - 1) div 4 \<le> a \<and> a < 365 * y + y div 4" for a y :: int
proof -
  have "4 * ((y - 1) div 4) \<le> y - 1" "y - 1 \<le> 4 * ((y - 1) div 4) + 3" "4 * (y div 4) \<le> y" "y \<le> 4 * (y div 4) + 3"
    by presburger+
  moreover have "(4 * a + 1464) div 1461 = y \<longleftrightarrow> 1461 * y \<le> 4 * a + 1464 \<and> 4 * a + 1464 < 1461 * y + 1461"
    by (rule div_iff) simp
  ultimately show ?thesis using julian_arith by simp
qed

lemma julian_leap_astro: "yr \<noteq> 0 \<Longrightarrow> julian_leap yr \<longleftrightarrow> astro yr mod 4 = 0"
  unfolding julian_leap_def astro_def by (cases "yr < 0") (simp, presburger, simp)

lemma julian_year_length: "y div 4 - (y - 1) div 4 = (if y mod 4 = 0 then 1 else 0)" for y :: int
  by presburger

definition julian_month_start :: "bool \<Rightarrow> int \<Rightarrow> int" where
  "julian_month_start leap m = (367 * m - 362) div 12 + (if m \<le> 2 then 0 else if leap then - 1 else - 2)"

lemma fixed_from_julian_start:
  "fixed_from_julian yr m d =
     365 * (astro yr - 1) + (astro yr - 1) div 4 + julian_month_start (julian_leap yr) m + d - 2"
  by (simp add: fixed_from_julian_def julian_month_start_def astro_def julian_epoch_def Let_def)

lemma twelve_cases:
  assumes "1 \<le> m" "m \<le> (12::int)"
  shows "m = 1 \<or> m = 2 \<or> m = 3 \<or> m = 4 \<or> m = 5 \<or> m = 6 \<or> m = 7 \<or> m = 8 \<or> m = 9 \<or> m = 10 \<or> m = 11 \<or> m = 12"
  using assms by presburger

lemma julian_month_step:
  assumes "1 \<le> m" "m \<le> 11"
  shows "julian_month_start (julian_leap yr) (m + 1) = julian_month_start (julian_leap yr) m + julian_month_length yr m"
proof -
  have "m \<le> 12" using assms(2) by simp
  from twelve_cases [OF assms(1) this] show ?thesis
    using assms(2) by (elim disjE) (simp_all add: julian_month_start_def julian_month_length_def days_in_month_def)
qed

lemma julian_month_ends: "julian_month_start leap 1 = 0" "julian_month_start leap 12 + 31 = (if leap then 366 else 365)"
  by (simp_all add: julian_month_start_def)

lemma julian_month_range:
  assumes "1 \<le> m" "m \<le> 12"
  shows "0 \<le> julian_month_start (julian_leap yr) m \<and>
    julian_month_start (julian_leap yr) m + julian_month_length yr m \<le> (if julian_leap yr then 366 else 365)"
  using twelve_cases [OF assms]
  by (elim disjE) (simp_all add: julian_month_start_def julian_month_length_def days_in_month_def)

text \<open>The month of a day of the year, as the source computes it.\<close>

lemma julian_month_found:
  assumes "1 \<le> m" "m \<le> 12" "julian_month_start leap m \<le> n" "n < julian_month_start leap m + l"
    "l \<le> (if m = 2 then (if leap then 29 else 28) else days_in_month 1 m)"
  shows "(12 * (n + (if n < julian_month_start leap 3 then 0 else if leap then 1 else 2)) + 373) div 367 = m"
  using twelve_cases [OF assms(1,2)] assms(3-5)
  by (elim disjE) (cases leap; simp add: julian_month_start_def days_in_month_def div_iff)+

lemma julian_month_exists:
  assumes "0 \<le> n" "n < (if julian_leap yr then 366 else 365)"
  shows "\<exists>m. 1 \<le> m \<and> m \<le> 12 \<and> julian_month_start (julian_leap yr) m \<le> n \<and>
    n < julian_month_start (julian_leap yr) m + julian_month_length yr m"
proof (rule ccontr)
  assume no: "\<not> ?thesis"
  have "julian_month_start (julian_leap yr) m \<le> n" if "1 \<le> m" "m \<le> 12" for m
    using that
  proof (induction m rule: int_ge_induct)
    case base
    then show ?case using assms(1) by (simp add: julian_month_ends)
  next
    case (step i)
    then show ?case using no julian_month_step [of i yr] by auto
  qed
  from this [of 12] have "julian_month_start (julian_leap yr) 12 + julian_month_length yr 12 \<le> n" using no by fastforce
  then show False using assms(2) julian_month_ends(2) [of "julian_leap yr"]
    by (simp add: julian_month_length_def days_in_month_def split: if_splits)
qed

text \<open>The date of a day, given its year and day of the year.\<close>

lemma julian_from_fixed_eq:
  assumes "- (2 ^ 31) \<le> yr" "yr < 2 ^ 31" "yr \<noteq> 0" "1 \<le> m" "m \<le> 12" "1 \<le> d" "d \<le> julian_month_length yr m"
  shows "julian_from_fixed (fixed_from_julian yr m d) = (yr, m, d)"
proof -
  define n f where "n = julian_month_start (julian_leap yr) m + d - 1" and "f = fixed_from_julian yr m d"
  have f: "f = 365 * (astro yr - 1) + (astro yr - 1) div 4 + n - 1"
    by (simp add: f_def n_def fixed_from_julian_start)
  have n: "0 \<le> n" "n < (if astro yr mod 4 = 0 then 366 else 365)"
    using julian_month_range [OF assms(4,5), of yr] assms(6,7) julian_leap_astro [OF assms(3)]
    by (auto simp: n_def split: if_splits)
  have "(4 * (f - julian_epoch) + 1464) div 1461 = astro yr"
    unfolding julian_year using n julian_year_length [of "astro yr"] by (simp add: f julian_epoch_def split: if_splits)
  then have yr: "(if (4 * (f - julian_epoch) + 1464) div 1461 \<le> 0
      then as_i32 ((4 * (f - julian_epoch) + 1464) div 1461 - 1)
      else as_i32 ((4 * (f - julian_epoch) + 1464) div 1461)) = yr"
    using assms(1-3) by (auto simp: astro_def)
  have prior: "f - fixed_from_julian yr 1 1 = n"
    by (simp add: f fixed_from_julian_start julian_month_ends)
  have march: "f < fixed_from_julian yr 3 1 \<longleftrightarrow> n < julian_month_start (julian_leap yr) 3"
    by (simp add: f fixed_from_julian_start)
  have m: "as_u32 ((12 * (n + (if n < julian_month_start (julian_leap yr) 3 then 0 else if julian_leap yr then 1 else 2)) + 373) div 367) = m"
    using julian_month_found [OF assms(4,5), of "julian_leap yr" n d] assms(4-7)
    by (simp add: n_def julian_month_length_def)
  have "d < 32" using assms(7) days_in_month_bounds [of 1 m] by (auto simp: julian_month_length_def split: if_splits)
  then have d: "as_u32 (f - fixed_from_julian yr m 1 + 1) = d"
    using assms(6) by (simp add: f fixed_from_julian_start n_def)
  show ?thesis
    unfolding f_def [symmetric] julian_from_fixed_def Let_def yr prior march m d ..
qed

lemma julian_within:
  assumes "- (2 ^ 31) \<le> y" "y < 2 ^ 31" "y \<noteq> 0"
    and "0 \<le> julian_month_start (julian_leap y) m"
    and "julian_month_start (julian_leap y) m + d \<le> (if julian_leap y then 366 else 365)" "1 \<le> d"
  shows "julian_covers (fixed_from_julian y m d)"
proof -
  define a s where "a = astro y" and "s = julian_month_start (julian_leap y) m + d"
  have a: "- 2147483647 \<le> a" "a \<le> 2147483647" using assms(1-3) by (simp_all add: a_def astro_def)
  have s: "1 \<le> s" "s \<le> 366" "a = 2147483647 \<Longrightarrow> s \<le> 365"
    using assms(4-6) julian_leap_astro [OF assms(3)] by (auto simp: s_def a_def split: if_splits)
  have q: "- 536870912 \<le> (a - 1) div 4" "(a - 1) div 4 \<le> 536870911" using a by simp_all
  have "365 * (a - 1) + s \<le> 365 * 2147483646 + 365"
    using a s by (cases "a = 2147483647") simp_all
  moreover have "365 * (- 2147483648) + 1 \<le> 365 * (a - 1) + s" using a s by simp
  ultimately show ?thesis
    using q unfolding julian_covers_def fixed_from_julian_start a_def [symmetric]
    by (simp add: julian_month_start_def [of _ 1] julian_month_start_def [of _ 12] s_def astro_def [of "- (2147483648)"]
        astro_def [of "2147483647"] julian_leap_def [of "2147483647"])
qed

interpretation julian: calendar_system julian_date "\<lambda>(y, m, d). fixed_from_julian y m d" julian_from_fixed julian_covers
proof
  fix x
  assume x: "julian_date x"
  obtain y m d where xd: "x = (y, m, d)" by (cases x)
  have v: "- (2 ^ 31) \<le> y" "y < 2 ^ 31" "y \<noteq> 0" "1 \<le> m" "m \<le> 12" "1 \<le> d" "d \<le> julian_month_length y m"
    using x by (simp_all add: xd julian_date_def)
  have "julian_covers (fixed_from_julian y m d)"
    using julian_within [OF v(1-3)] julian_month_range [OF v(4,5), of y] v(6,7) by simp
  then show "julian_covers ((\<lambda>(y, m, d). fixed_from_julian y m d) x) \<and>
      julian_from_fixed ((\<lambda>(y, m, d). fixed_from_julian y m d) x) = x"
    using julian_from_fixed_eq [OF v] by (simp add: xd)
next
  fix f
  assume f: "julian_covers f"
  define y where "y = (4 * (f + 1) + 1464) div 1461"
  define yr where "yr = (if y \<le> 0 then y - 1 else y)"
  define n where "n = f + 1 - (365 * (y - 1) + (y - 1) div 4)"
  have y: "365 * (y - 1) + (y - 1) div 4 \<le> f + 1" "f + 1 < 365 * y + y div 4"
    using julian_year [of "f + 1" y] by (simp_all add: y_def)
  have yr: "yr \<noteq> 0" "astro yr = y" by (auto simp: yr_def astro_def)
  have "- (2 ^ 31) + 1 \<le> y" "y \<le> 2 ^ 31 - 1"
    using f unfolding y_def julian_covers_def fixed_from_julian_start
    by (auto simp: julian_month_start_def astro_def julian_leap_def)
  then have range: "- (2 ^ 31) \<le> yr" "yr < 2 ^ 31" by (auto simp: yr_def)
  have "0 \<le> n" "n < (if julian_leap yr then 366 else 365)"
    using y julian_year_length [of y] julian_leap_astro [OF yr(1)] yr(2) by (auto simp: n_def split: if_splits)
  then obtain m where m: "1 \<le> m" "m \<le> 12" "julian_month_start (julian_leap yr) m \<le> n"
    "n < julian_month_start (julian_leap yr) m + julian_month_length yr m"
    using julian_month_exists by blast
  define d where "d = n - julian_month_start (julian_leap yr) m + 1"
  have "fixed_from_julian yr m d = f"
    by (simp add: fixed_from_julian_start yr(2) d_def n_def)
  moreover have "1 \<le> d" "d \<le> julian_month_length yr m" using m(3,4) by (simp_all add: d_def)
  ultimately show "julian_date (julian_from_fixed f) \<and> (\<lambda>(y, m, d). fixed_from_julian y m d) (julian_from_fixed f) = f"
    using julian_from_fixed_eq [OF range yr(1) m(1,2), of d] range yr(1) m(1,2) by (simp add: julian_date_def)
qed

section \<open>Baha'i\<close>

definition bahai_covers :: "int \<Rightarrow> bool" where
  "bahai_covers f \<longleftrightarrow> bahai_nawruz (- 2000000000) \<le> f \<and> f < bahai_nawruz 2000000000"

definition bahai_date :: "int \<times> int \<times> int \<Rightarrow> bool" where
  "bahai_date = (\<lambda>(y, m, d). - 2000000000 \<le> y \<and> y < 2000000000 \<and> 0 \<le> m \<and> m \<le> 19 \<and> 1 \<le> d \<and>
     d \<le> (if m = 0 then bahai_ayyam y else 19))"

lemma to_serial_first: "to_serial (date_new 1 1 1) = - 719162"
  by (simp add: to_serial_march march_days_def march_year_def day_of_march_year_def month_start_def)

lemma bahai_nawruz_eq:
  "- 2100000000 \<le> y \<Longrightarrow> y \<le> 2100000000 \<Longrightarrow> bahai_nawruz y = march_days (1843 + y) - 285"
  unfolding bahai_nawruz_def rd_def to_serial_first
  by (simp add: to_serial_march march_year_def day_of_march_year_def month_start_def)

lemma bahai_nawruz_step:
  assumes "- 2100000000 \<le> y" "y < 2100000000"
  shows "bahai_nawruz y + 365 \<le> bahai_nawruz (y + 1) \<and> bahai_nawruz (y + 1) \<le> bahai_nawruz y + 366"
  using assms march_days_step [of "1843 + y"] march_year_length_bounds [of "(1843 + y) mod 400"]
  by (simp add: bahai_nawruz_eq)

lemma bahai_nawruz_mono:
  assumes "- 2100000000 \<le> y" "y \<le> y'" "y' \<le> 2100000000"
  shows "bahai_nawruz y + 365 * (y' - y) \<le> bahai_nawruz y' \<and> bahai_nawruz y' \<le> bahai_nawruz y + 366 * (y' - y)"
  using assms(2,3)
proof (induction y' rule: int_ge_induct)
  case (step i)
  then show ?case using bahai_nawruz_step [of i] assms(1) by simp
qed simp

lemma bahai_ayyam_bounds: "- 2000000000 \<le> y \<Longrightarrow> y < 2000000000 \<Longrightarrow> 4 \<le> bahai_ayyam y \<and> bahai_ayyam y \<le> 5"
  using bahai_nawruz_step [of y] by (simp add: bahai_ayyam_def)

lemma smod_nonneg: "0 \<le> a \<Longrightarrow> 0 < b \<Longrightarrow> a smod b = a mod b" for a b :: int
  by (cases "a = 0") (simp_all add: signed_modulo_int_def)

lemma div_mod_digits: "0 \<le> r \<Longrightarrow> r < n \<Longrightarrow> (q * n + r) div n = q \<and> (q * n + r) mod n = r" for q n r :: int
  by simp

text \<open>The first guess at the year may lie on either side; the two loops end at the year itself.\<close>

lemma bahai_year_found:
  assumes y: "- 2000000000 \<le> y" "y < 2000000000" and f: "bahai_nawruz y \<le> f" "f < bahai_nawruz (y + 1)"
  shows "\<exists>y0. count_up (\<lambda>y. bahai_nawruz (y + 1) \<le> f) ((f - rd (date_new 1844 3 21) - 1) div 366 + 1) = Some y0 \<and>
    count_down (\<lambda>y. f < bahai_nawruz y) y0 = Some y"
proof -
  define g where "g = (f - rd (date_new 1844 3 21) - 1) div 366 + 1"
  have epoch: "rd (date_new 1844 3 21) = bahai_nawruz 1" by (simp add: bahai_nawruz_def)
  have "f - bahai_nawruz 1 - 1 < 366 * 2000000000" "366 * (- 2000000010) \<le> f - bahai_nawruz 1 - 1"
    using bahai_nawruz_mono [of "y + 1" "2000000000"] bahai_nawruz_mono [of "- 2000000000" y] y f
      bahai_nawruz_mono [of "- 2000000000" 1] bahai_nawruz_mono [of 1 "2000000000"] by simp_all
  then have "g - 1 < 2000000000" "- 2000000010 \<le> g - 1"
    unfolding g_def epoch using div_iff [of 366 "f - bahai_nawruz 1 - 1" "g - 1"] by (simp_all add: g_def epoch)
  then have g: "- 2100000000 \<le> g" "g < 2100000000" by simp_all
  define y0 where "y0 = max g y"
  have "count_up (\<lambda>y. bahai_nawruz (y + 1) \<le> f) g = Some y0"
  proof (rule count_up_finds)
    fix i
    assume "g \<le> i" "i < y0"
    then have "i + 1 \<le> y" by (simp add: y0_def split: if_splits)
    then show "bahai_nawruz (i + 1) \<le> f" using bahai_nawruz_mono [of "i + 1" y] \<open>g \<le> i\<close> g y f by simp
  next
    show "\<not> bahai_nawruz (y0 + 1) \<le> f"
      using bahai_nawruz_mono [of "y + 1" "g + 1"] g y f by (cases "g \<le> y") (simp_all add: y0_def max_def)
  qed (simp add: y0_def)
  moreover have "count_down (\<lambda>y. f < bahai_nawruz y) y0 = Some y"
  proof (rule count_down_finds)
    fix i
    assume "i \<le> y0" "y < i"
    then show "f < bahai_nawruz i" using bahai_nawruz_mono [of "y + 1" i] g y f by (auto simp: y0_def max_def split: if_splits)
  qed (use f in \<open>simp_all add: y0_def\<close>)
  ultimately show ?thesis unfolding g_def by blast
qed

lemma bahai_offset:
  assumes "- 2000000000 \<le> y" "y < 2000000000" "0 \<le> n" "n < bahai_nawruz (y + 1) - bahai_nawruz y"
  shows "bahai_from_fixed (bahai_nawruz y + n) =
    Some (if n < 342 then (y, n div 19 + 1, n mod 19 + 1)
          else if n < 342 + bahai_ayyam y then (y, 0, n - 342 + 1) else (y, 19, n - 342 - bahai_ayyam y + 1))"
proof -
  have "n < 367" using assms(1,2,4) bahai_nawruz_step [of y] by simp
  then have n: "0 \<le> n div 19" "n div 19 < 20" "0 \<le> n mod 19" "n mod 19 < 19" "n smod 19 = n mod 19"
    using assms(3) by (simp_all add: smod_nonneg pos_imp_zdiv_nonneg_iff div_iff)
  have "as_u32 (n - 342 - bahai_ayyam y + 1) = n - 342 - bahai_ayyam y + 1" if "\<not> n < 342 + bahai_ayyam y"
    using that \<open>n < 367\<close> bahai_ayyam_bounds [OF assms(1,2)] by simp
  then show ?thesis
    using bahai_year_found [OF assms(1,2), of "bahai_nawruz y + n"] assms(3,4) n \<open>n < 367\<close>
    by (auto simp: bahai_from_fixed_def Let_def)
qed

lemma bahai_year_exists:
  assumes "bahai_covers f"
  obtains y where "- 2000000000 \<le> y" "y < 2000000000" "bahai_nawruz y \<le> f" "f < bahai_nawruz (y + 1)"
proof -
  let ?p = "\<lambda>k::nat. f < bahai_nawruz (- 2000000000 + int k)"
  have "?p (nat 4000000000)" using assms by (simp add: bahai_covers_def)
  then obtain k where k: "?p k" "\<forall>j<k. \<not> ?p j" "k \<le> nat 4000000000"
    using exists_least_iff [of ?p] by (metis linorder_not_le)
  have "k \<noteq> 0" using k(1) assms by (cases k) (auto simp: bahai_covers_def)
  then obtain j where j: "k = Suc j" using not0_implies_Suc by blast
  have "\<not> ?p j" using k(2) j by blast
  then show ?thesis using that [of "- 2000000000 + int j"] k(1,3) j by (simp add: algebra_simps)
qed

interpretation bahai: calendar_system bahai_date "\<lambda>(y, m, d). fixed_from_bahai y m d" "\<lambda>f. the (bahai_from_fixed f)"
  bahai_covers
proof
  fix f
  assume "bahai_covers f"
  then obtain y where y: "- 2000000000 \<le> y" "y < 2000000000" "bahai_nawruz y \<le> f" "f < bahai_nawruz (y + 1)"
    by (rule bahai_year_exists)
  define n where "n = f - bahai_nawruz y"
  have n: "0 \<le> n" "n < bahai_nawruz (y + 1) - bahai_nawruz y" "f = bahai_nawruz y + n" using y by (simp_all add: n_def)
  have "0 \<le> n div 19" "n < 342 \<Longrightarrow> n div 19 \<le> 17" "0 \<le> n mod 19" "n mod 19 < 19" "n div 19 * 19 + n mod 19 = n"
    using n(1) by (auto simp: pos_imp_zdiv_nonneg_iff)
  then show "bahai_date (the (bahai_from_fixed f)) \<and> (\<lambda>(y, m, d). fixed_from_bahai y m d) (the (bahai_from_fixed f)) = f"
    using bahai_offset [OF y(1,2) n(1,2)] bahai_ayyam_bounds [OF y(1,2)] n y
    unfolding n(3) by (auto simp: bahai_date_def fixed_from_bahai_def Let_def bahai_ayyam_def [of y])
next
  fix x
  assume x: "bahai_date x"
  obtain y m d where xd: "x = (y, m, d)" by (cases x)
  have v: "- 2000000000 \<le> y" "y < 2000000000" "0 \<le> m" "m \<le> 19" "1 \<le> d" "d \<le> (if m = 0 then bahai_ayyam y else 19)"
    using x by (simp_all add: xd bahai_date_def)
  define n where "n = fixed_from_bahai y m d - bahai_nawruz y"
  note a = bahai_ayyam_bounds [OF v(1,2)]
  have n: "n = (if m = 0 then 342 + (d - 1) else if m = 19 then 342 + bahai_ayyam y + (d - 1) else (m - 1) * 19 + (d - 1))"
    by (simp add: n_def fixed_from_bahai_def Let_def)
  have range: "0 \<le> n" "n < bahai_nawruz (y + 1) - bahai_nawruz y"
    using v a unfolding n by (auto simp: bahai_ayyam_def split: if_splits)
  have dm: "m \<noteq> 0 \<Longrightarrow> m \<noteq> 19 \<Longrightarrow> n div 19 = m - 1 \<and> n mod 19 = d - 1"
    using v div_mod_digits [of "d - 1" 19 "m - 1"] unfolding n by simp
  have "bahai_from_fixed (bahai_nawruz y + n) = Some (y, m, d)"
    unfolding bahai_offset [OF v(1,2) range] using dm n v a by (auto split: if_splits)
  moreover have "bahai_covers (bahai_nawruz y + n)"
    using range bahai_nawruz_mono [of "- 2000000000" y] bahai_nawruz_mono [of "y + 1" "2000000000"] v(1,2)
    by (simp add: bahai_covers_def)
  moreover have "fixed_from_bahai y m d = bahai_nawruz y + n" by (simp add: n_def)
  ultimately show "bahai_covers ((\<lambda>(y, m, d). fixed_from_bahai y m d) x) \<and>
      the (bahai_from_fixed ((\<lambda>(y, m, d). fixed_from_bahai y m d) x)) = x"
    by (simp add: xd)
qed

section \<open>Mayan\<close>

definition long_count :: "int \<times> int \<times> int \<times> int \<times> int \<Rightarrow> bool" where
  "long_count = (\<lambda>(b, k, t, u, n). 0 \<le> k \<and> k < 20 \<and> 0 \<le> t \<and> t < 20 \<and> 0 \<le> u \<and> u < 18 \<and> 0 \<le> n \<and> n < 20)"

interpretation mayan: calendar_system long_count "\<lambda>(b, k, t, u, n). fixed_from_mayan_long_count b k t u n"
  mayan_long_count_from_fixed "\<lambda>f. True"
proof
  fix f :: int
  define lc where "lc = f + mayan_days_before_absolute_zero"
  have r: "0 \<le> lc mod 144000" "lc mod 144000 < 144000" "0 \<le> lc mod 144000 mod 7200" "lc mod 144000 mod 7200 < 7200"
    "0 \<le> lc mod 144000 mod 7200 mod 360" "lc mod 144000 mod 7200 mod 360 < 360"
    "0 \<le> lc mod 144000 mod 7200 mod 360 mod 20" "lc mod 144000 mod 7200 mod 360 mod 20 < 20"
    by simp_all
  have d: "x div n < q" if "x < q * n" "0 < n" for x n q :: int
  proof -
    have "n * (x div n) \<le> x" using that(2) div_iff [of n x "x div n"] by blast
    then have "n * (x div n) < n * q" using that(1) by (simp add: mult.commute)
    then show ?thesis using that(2) mult_less_cancel_left_pos by blast
  qed
  have q: "0 \<le> x div n \<and> x div n < q" if "0 \<le> x" "x < c" "c = q * n" "0 < n" for x n q c :: int
    using d [OF that(2) [unfolded that(3)] that(4)] that(1,4) by (simp add: pos_imp_zdiv_nonneg_iff)
  have "0 \<le> lc mod 144000 div 7200 \<and> lc mod 144000 div 7200 < 20"
    "0 \<le> lc mod 144000 mod 7200 div 360 \<and> lc mod 144000 mod 7200 div 360 < 20"
    "0 \<le> lc mod 144000 mod 7200 mod 360 div 20 \<and> lc mod 144000 mod 7200 mod 360 div 20 < 18"
    by (rule q [OF r(1,2)], simp, simp) (rule q [OF r(3,4)], simp, simp, rule q [OF r(5,6)], simp, simp)
  then have "long_count (mayan_long_count_from_fixed f)"
    using r(7,8) unfolding mayan_long_count_from_fixed_def Let_def lc_def [symmetric] long_count_def prod.case by blast
  moreover have "(\<lambda>(b, k, t, u, n). fixed_from_mayan_long_count b k t u n) (mayan_long_count_from_fixed f) = f"
    by (simp add: mayan_long_count_from_fixed_def Let_def lc_def [symmetric] fixed_from_mayan_long_count_def)
      (simp add: lc_def)
  ultimately show "long_count (mayan_long_count_from_fixed f) \<and>
      (\<lambda>(b, k, t, u, n). fixed_from_mayan_long_count b k t u n) (mayan_long_count_from_fixed f) = f" ..
next
  fix x
  assume x: "long_count x"
  obtain b k t u n where xd: "x = (b, k, t, u, n)" by (cases x)
  have v: "0 \<le> k" "k < 20" "0 \<le> t" "t < 20" "0 \<le> u" "u < 18" "0 \<le> n" "n < 20"
    using x by (simp_all add: xd long_count_def)
  define r where "r = k * 7200 + (t * 360 + (u * 20 + n))"
  have "mayan_long_count_from_fixed (fixed_from_mayan_long_count b k t u n) = (b, k, t, u, n)"
    using v div_mod_digits [of r 144000 b] div_mod_digits [of "t * 360 + (u * 20 + n)" 7200 k]
      div_mod_digits [of "u * 20 + n" 360 t] div_mod_digits [of n 20 u]
    by (simp add: mayan_long_count_from_fixed_def fixed_from_mayan_long_count_def Let_def r_def add.assoc)
  then show "True \<and> mayan_long_count_from_fixed ((\<lambda>(b, k, t, u, n). fixed_from_mayan_long_count b k t u n) x) = x"
    by (simp add: xd)
qed

text \<open>The 365 days of the haab and the 260 of the tzolkin come round every 18980 days.\<close>

lemma mayan_period:
  "mayan_haab_from_fixed (f + 365 * k) = mayan_haab_from_fixed f"
  "mayan_tzolkin_from_fixed (f + 260 * k) = mayan_tzolkin_from_fixed f"
proof -
  have "(f + 365 * k + mayan_days_before_absolute_zero + 8 + 20 * (18 - 1)) mod 365 =
      (f + mayan_days_before_absolute_zero + 8 + 20 * (18 - 1) + 365 * k) mod 365"
    by (simp add: algebra_simps)
  then show "mayan_haab_from_fixed (f + 365 * k) = mayan_haab_from_fixed f"
    by (simp only: mayan_haab_from_fixed_def Let_def mod_mult_self2)
  have "f + 260 * k + mayan_days_before_absolute_zero + 4 - 1 = f + mayan_days_before_absolute_zero + 4 - 1 + 13 * (20 * k)"
    "f + 260 * k + mayan_days_before_absolute_zero + 20 - 1 = f + mayan_days_before_absolute_zero + 20 - 1 + 20 * (13 * k)"
    by simp_all
  then show "mayan_tzolkin_from_fixed (f + 260 * k) = mayan_tzolkin_from_fixed f"
    by (simp only: mayan_tzolkin_from_fixed_def Let_def mod_mult_self2)
qed

lemma mayan_round_period:
  "mayan_haab_from_fixed (f + 18980 * k) = mayan_haab_from_fixed f"
  "mayan_tzolkin_from_fixed (f + 18980 * k) = mayan_tzolkin_from_fixed f"
  using mayan_period(1) [of f "52 * k"] mayan_period(2) [of f "73 * k"] by (simp_all add: mult.assoc [symmetric])

text \<open>A search over one cycle of days finds the nearest match, when there is one.\<close>

lemma next_day_finds:
  assumes "p (f + step * int k)" "k < n"
  shows "\<exists>j\<le>k. next_day n step p origin f = f + step * int j \<and> p (f + step * int j) \<and> (\<forall>i<j. \<not> p (f + step * int i))"
  using assms
proof (induction n arbitrary: f k)
  case (Suc n)
  show ?case
  proof (cases "p f")
    case False
    then obtain k' where k': "k = Suc k'" using Suc.prems by (cases k) auto
    have "p (f + step + step * int k')" "k' < n" using Suc.prems k' by (simp_all add: algebra_simps)
    from Suc.IH [OF this] obtain j where j: "j \<le> k'" "next_day n step p origin (f + step) = f + step + step * int j"
      "p (f + step + step * int j)" "\<forall>i<j. \<not> p (f + step + step * int i)" by blast
    have "\<forall>i<Suc j. \<not> p (f + step * int i)"
    proof (intro allI impI)
      fix i
      assume "i < Suc j"
      then show "\<not> p (f + step * int i)"
        using False j(4) by (cases i) (auto simp: algebra_simps)
    qed
    then show ?thesis using False j k' by (intro exI [of _ "Suc j"]) (simp add: algebra_simps)
  qed auto
qed simp

lemma next_day_none:
  "\<forall>k<n. \<not> p (f + step * int k) \<Longrightarrow> next_day n step p origin f = origin"
proof (induction n arbitrary: f)
  case (Suc n)
  have "\<forall>k<n. \<not> p (f + step + step * int k)"
  proof (intro allI impI)
    fix k
    assume "k < n"
    then show "\<not> p (f + step + step * int k)" using Suc.prems [rule_format, of "Suc k"] by (simp add: algebra_simps)
  qed
  then show ?case using Suc.IH [of "f + step"] Suc.prems [rule_format, of 0] by simp
qed simp

lemma next_in_cycle:
  assumes step: "step = 1 \<or> step = - 1" and n: "0 < n"
    and period: "\<And>f k. p (f + int n * k) = p f" and hit: "p g"
  shows "\<exists>j. 1 \<le> j \<and> j \<le> n \<and> next_day n step p origin (origin + step) = origin + step * int j \<and>
    p (origin + step * int j) \<and> (\<forall>i. 1 \<le> i \<longrightarrow> i < j \<longrightarrow> \<not> p (origin + step * int i))"
proof -
  define k where "k = nat ((step * (g - origin) - 1) mod int n)"
  have k: "k < n" "int k = (step * (g - origin) - 1) mod int n" using n by (simp_all add: k_def nat_less_iff)
  then obtain q where q: "int k = step * (g - origin) - 1 - int n * q"
    by (metis minus_mult_div_eq_mod)
  have "step * step = 1" using step by auto
  then have "origin + step + step * int k = g + int n * (- (step * q))"
    unfolding q by (simp add: algebra_simps)
  then have "p (origin + step + step * int k)" using hit period [of g "- (step * q)"] by (simp only:)
  from next_day_finds [where p = p and f = "origin + step" and origin = origin, OF this k(1)] obtain j where j: "j \<le> k"
    "next_day n step p origin (origin + step) = origin + step + step * int j" "p (origin + step + step * int j)"
    "\<forall>i<j. \<not> p (origin + step + step * int i)" by blast
  have "\<not> p (origin + step * int i)" if "1 \<le> i" "i < Suc j" for i
    using j(4) [rule_format, of "i - 1"] that by (simp add: algebra_simps of_nat_diff)
  then show ?thesis using j k(1) by (intro exI [of _ "Suc j"]) (simp add: algebra_simps)
qed

section \<open>Properties\<close>

text \<open>Conversions that undo each other, between the valid dates and the day numbers they cover.\<close>

definition mutually_inverse :: "('d \<Rightarrow> bool) \<Rightarrow> (int \<Rightarrow> bool) \<Rightarrow> ('d \<Rightarrow> int) \<Rightarrow> (int \<Rightarrow> 'd option) \<Rightarrow> bool" where
  "mutually_inverse valid covers to_fixed from_fixed \<longleftrightarrow>
     (\<forall>x. valid x \<longrightarrow> covers (to_fixed x) \<and> from_fixed (to_fixed x) = Some x) \<and>
     (\<forall>f. covers f \<longrightarrow> (\<exists>x. valid x \<and> from_fixed f = Some x \<and> to_fixed x = f))"

lemma bahai_returns: "bahai_covers f \<Longrightarrow> bahai_from_fixed f = Some (the (bahai_from_fixed f))"
proof -
  assume "bahai_covers f"
  then obtain y where y: "- 2000000000 \<le> y" "y < 2000000000" "bahai_nawruz y \<le> f" "f < bahai_nawruz (y + 1)"
    by (rule bahai_year_exists)
  then show ?thesis using bahai_offset [OF y(1,2), of "f - bahai_nawruz y"] by simp
qed

text \<open>C19: Julian, Coptic, Ethiopic, Baha'i and Mayan dates correspond one to one to the day numbers they
  cover.  In each of the five calendars, a valid date has a covered day number, from which the conversion back
  gives that date; and from a covered day number the conversion gives a valid date with that number.\<close>

theorem other_calendars_bijection:
  "mutually_inverse julian_date julian_covers (\<lambda>(y, m, d). fixed_from_julian y m d) (\<lambda>f. Some (julian_from_fixed f)) \<and>
   mutually_inverse coptic_date (coptic_covers coptic_epoch) (\<lambda>(y, m, d). fixed_from_coptic y m d) (\<lambda>f. Some (coptic_from_fixed f)) \<and>
   mutually_inverse coptic_date (coptic_covers ethiopic_epoch) (\<lambda>(y, m, d). fixed_from_ethiopic y m d)
     (\<lambda>f. Some (ethiopic_from_fixed f)) \<and>
   mutually_inverse bahai_date bahai_covers (\<lambda>(y, m, d). fixed_from_bahai y m d) bahai_from_fixed \<and>
   mutually_inverse long_count (\<lambda>f. True) (\<lambda>(b, k, t, u, n). fixed_from_mayan_long_count b k t u n)
     (\<lambda>f. Some (mayan_long_count_from_fixed f))"
  unfolding mutually_inverse_def option.inject
proof (intro conjI allI impI)
  fix x
  assume "bahai_date x"
  then show "bahai_from_fixed (case x of (y, m, d) \<Rightarrow> fixed_from_bahai y m d) = Some x"
    using bahai.from_to [of x] bahai_returns by metis
next
  fix f
  assume "bahai_covers f"
  then show "\<exists>x. bahai_date x \<and> bahai_from_fixed f = Some x \<and> (case x of (y, m, d) \<Rightarrow> fixed_from_bahai y m d) = f"
    using bahai.to_from [of f] bahai_returns by metis
qed (use julian.to_from julian.from_to coptic.to_from coptic.from_to ethiopic.to_from ethiopic.from_to bahai.from_to
    mayan.to_from mayan.from_to in blast)+

lemma other_calendars_bijection_witness:
  "julian_from_fixed (fixed_from_julian 1999 12 31) = (1999, 12, 31) \<and>
   (\<exists>y m d. ethiopic_from_fixed 730000 = (y, m, d) \<and> fixed_from_ethiopic y m d = 730000)"
proof -
  have "julian_date (1999, 12, 31)" by (simp add: julian_date_def julian_month_length_def days_in_month_def)
  then have "julian_from_fixed (fixed_from_julian 1999 12 31) = (1999, 12, 31)"
    using other_calendars_bijection unfolding mutually_inverse_def by fastforce
  moreover have "coptic_covers ethiopic_epoch 730000" by (simp add: coptic_covers_def ethiopic_epoch_def coptic_like_to_fixed_def)
  then have "\<exists>y m d. ethiopic_from_fixed 730000 = (y, m, d) \<and> fixed_from_ethiopic y m d = 730000"
    using other_calendars_bijection unfolding mutually_inverse_def by fastforce
  ultimately show ?thesis by blast
qed

lemma islamic_from_fixed_search:
  "islamic_from_fixed f = (if f < fixed_from_islamic 1 1 1 then Some None
     else map_option Some (search_date fixed_from_islamic islamic_last_day_of_month ((f - fixed_from_islamic 1 1 1) div 355) f))"
proof -
  have "fixed_from_islamic 1 1 1 = islamic_epoch" by (simp add: fixed_from_islamic_pos)
  then show ?thesis by (simp add: islamic_from_fixed_def search_date_def split: option.splits)
qed

lemma french_from_fixed_search:
  "french_from_fixed f = (if f < fixed_from_french 1 1 1 then Some None
     else map_option Some (search_date fixed_from_french french_last_day_of_month ((f - fixed_from_french 1 1 1) div 366) f))"
proof -
  have "fixed_from_french 1 1 1 = french_epoch" by (simp add: fixed_from_french_pos french_leap_days_def)
  then show ?thesis by (simp add: french_from_fixed_def search_date_def split: option.splits)
qed

text \<open>The conversions that search for the year and the month always return.  Before the epoch of
  their calendar they report that there is no date; from the epoch on the two loops of
  \<open>islamic_from_fixed\<close> and of \<open>french_from_fixed\<close> end, at the one date with that day number.\<close>

theorem calendar_searches_end:
  "(\<exists>r. islamic_from_fixed f = Some r \<and> (r = None \<longleftrightarrow> f < fixed_from_islamic 1 1 1)) \<and>
   (islamic_from_fixed f = Some (Some (y, m, d)) \<longleftrightarrow>
      1 \<le> y \<and> 1 \<le> m \<and> m \<le> 12 \<and> 1 \<le> d \<and> d \<le> islamic_last_day_of_month m y \<and> fixed_from_islamic y m d = f) \<and>
   (\<exists>r. french_from_fixed f = Some r \<and> (r = None \<longleftrightarrow> f < fixed_from_french 1 1 1)) \<and>
   (french_from_fixed f = Some (Some (y, m, d)) \<longleftrightarrow>
      1 \<le> y \<and> 1 \<le> m \<and> m \<le> 13 \<and> 1 \<le> d \<and> d \<le> french_last_day_of_month m y \<and> fixed_from_french y m d = f)"
  using islamic.searched [of f y m d] french.searched [of f y m d]
  unfolding islamic_from_fixed_search french_from_fixed_search by auto

text \<open>C20: The searches of the Mayan calendars, forwards or backwards, stop at the nearest other day that
  has the wanted date, at most one full cycle away (365, 260 or 18980 days), whenever any day has it;
  where none has it they return the day they started from.\<close>

theorem mayan_next_nearest:
  "let step = (if forward then 1 else - 1);
       nearest = (\<lambda>p n r. \<exists>j. 1 \<le> j \<and> j \<le> n \<and> r = origin + step * int j \<and> p r \<and>
                    list_all (\<lambda>i. \<not> p (origin + step * int i)) [1..<j]);
       found = (\<lambda>p n r. if Ex p then nearest p n r else r = origin)
   in found (\<lambda>f. mayan_haab_from_fixed f = h) 365 (mayan_next_haab origin h forward) \<and>
      found (\<lambda>f. mayan_tzolkin_from_fixed f = t) 260 (mayan_next_tzolkin origin t forward) \<and>
      found (\<lambda>f. mayan_haab_from_fixed f = h \<and> mayan_tzolkin_from_fixed f = t) 18980
        (mayan_next_round origin h t forward)"
proof -
  define step :: int where "step = (if forward then 1 else - 1)"
  have step: "step = 1 \<or> step = - 1" by (simp add: step_def)
  have found: "if Ex p
      then \<exists>j. 1 \<le> j \<and> j \<le> n \<and> r = origin + step * int j \<and> p r \<and>
             list_all (\<lambda>i. \<not> p (origin + step * int i)) [1..<j]
      else r = origin"
    if r: "r = next_day n step p origin (origin + step)" and n: "0 < n" and period: "\<And>f k. p (f + int n * k) = p f" for p n r
  proof (cases "Ex p")
    case True
    then obtain g where "p g" ..
    from next_in_cycle [OF step n period this, of origin] obtain j where
      "1 \<le> j" "j \<le> n" "r = origin + step * int j" "p (origin + step * int j)"
      "\<forall>i. 1 \<le> i \<longrightarrow> i < j \<longrightarrow> \<not> p (origin + step * int i)" unfolding r by blast
    then show ?thesis using True by (auto simp: list_all_iff)
  qed (use next_day_none [of n p "origin + step" step origin] r in simp)
  show ?thesis
    unfolding Let_def step_def [symmetric]
    by (intro conjI found; simp add: mayan_next_haab_def mayan_next_tzolkin_def mayan_next_round_def Let_def step_def
        mayan_period mayan_round_period)
qed

end
