(* ===== verification/F32.thy ===== *)
theory F32
  imports Complex_Main "HOL-Library.Log_Nat"
begin

text \<open>
  The \<open>f32\<close> arithmetic of \<open>zmax-view/src/tree.rs\<close>, which weighs the windows of a split.  A finite
  \<open>f32\<close> is the rational number it stands for; an operation is the exact one rounded to the nearest
  number with 24 significant bits, ties to even, with the exponents of the subnormal range.  Values
  beyond the largest finite number, infinities and NaN do not occur: a weight is 1, a number of
  cells, or what a saved window layout holds.
\<close>

type_synonym f32 = rat

definition round_even :: "rat \<Rightarrow> int" where
  "round_even y =
     (let k = \<lfloor>y\<rfloor>; r = y - of_int k
      in if r < 1 / 2 then k else if 1 / 2 < r then k + 1 else if even k then k else k + 1)"

text \<open>The weight of the last of the 24 bits of a positive number.\<close>

definition ulp_exp :: "rat \<Rightarrow> int" where
  "ulp_exp x =
     (case quotient_of x of (p, q) \<Rightarrow>
        let e = bitlen p - bitlen q - 24
        in max (- 149) (if x < 2 powi (e + 24) then e else e + 1))"

definition f32_pos :: "rat \<Rightarrow> f32" where
  "f32_pos x = of_int (round_even (x / 2 powi (ulp_exp x))) * 2 powi (ulp_exp x)"

definition f32_round :: "rat \<Rightarrow> f32" where
  "f32_round x = (if x = 0 then 0 else if 0 < x then f32_pos x else - f32_pos (- x))"

definition f32_add :: "f32 \<Rightarrow> f32 \<Rightarrow> f32" where
  "f32_add a b = f32_round (a + b)"

definition f32_sub :: "f32 \<Rightarrow> f32 \<Rightarrow> f32" where
  "f32_sub a b = f32_round (a - b)"

definition f32_mul :: "f32 \<Rightarrow> f32 \<Rightarrow> f32" where
  "f32_mul a b = f32_round (a * b)"

definition f32_div :: "f32 \<Rightarrow> f32 \<Rightarrow> f32" where
  "f32_div a b = f32_round (a / b)"

definition f32_sum :: "f32 list \<Rightarrow> f32" where
  "f32_sum ws = foldl f32_add 0 ws"

definition f32_of_int :: "int \<Rightarrow> f32" where
  "f32_of_int n = f32_round (of_int n)"

text \<open>\<open>x as u16\<close> truncates and saturates.\<close>

definition f32_as_u16 :: "f32 \<Rightarrow> nat" where
  "f32_as_u16 x = min 65535 (nat \<lfloor>x\<rfloor>)"

definition f32_epsilon :: f32 where
  "f32_epsilon = 1 / 2 ^ 23"

section \<open>Rounding\<close>

lemma powi_split: "(2::rat) powi (a + b) = 2 powi a * 2 powi b"
  by (rule power_int_add) simp

lemma powi_pos: "0 < (2::rat) powi a"
  by simp

lemma powi_mono: "a \<le> b \<Longrightarrow> (2::rat) powi a \<le> 2 powi b"
  by (rule power_int_increasing) simp_all

lemma powi_less_imp: "(2::rat) powi a < 2 powi b \<Longrightarrow> a < b"
  using powi_mono [of b a] by (meson not_le)

lemma bitlen_powi:
  assumes "0 < p"
  shows "2 powi (bitlen p - 1) \<le> rat_of_int p \<and> rat_of_int p < 2 powi (bitlen p)"
proof -
  have b: "1 \<le> bitlen p" using assms by (simp add: bitlen_def floorlog_def)
  have "2 ^ nat (bitlen p - 1) \<le> p" "p < 2 ^ nat (bitlen p)" using bitlen_bounds [OF assms] by auto
  then have "rat_of_int (2 ^ nat (bitlen p - 1)) \<le> rat_of_int p" "rat_of_int p < rat_of_int (2 ^ nat (bitlen p))"
    by (simp_all only: of_int_le_iff of_int_less_iff)
  then show ?thesis using b by (simp add: power_int_def)
qed

text \<open>A positive number lies in the binade of its exponent, or below the subnormal range.\<close>

lemma ulp_exp_binade:
  assumes "0 < x"
  shows "x < 2 powi (ulp_exp x + 24)" "- 149 \<le> ulp_exp x" "2 powi (ulp_exp x + 23) \<le> x \<or> ulp_exp x = - 149"
proof -
  obtain p q where pq: "quotient_of x = (p, q)" by (cases "quotient_of x")
  have q: "0 < q" "x = of_int p / of_int q"
    using quotient_of_denom_pos [OF pq] quotient_of_div [OF pq] by simp_all
  then have p: "0 < p" using assms by (simp add: zero_less_divide_iff)
  define e where "e = bitlen p - bitlen q - 24"
  note P = bitlen_powi [OF p] and Q = bitlen_powi [OF q(1)]
  have "2 powi (e + 23) * rat_of_int q \<le> 2 powi (e + 23) * 2 powi (bitlen q)" using Q by simp
  also have "\<dots> = 2 powi (bitlen p - 1)" by (simp add: powi_split [symmetric] e_def)
  also have "\<dots> \<le> of_int p" using P by simp
  finally have lo: "2 powi (e + 23) \<le> x" using q by (simp add: pos_le_divide_eq)
  have "rat_of_int p < 2 powi (bitlen p)" using P by simp
  also have "\<dots> = 2 powi (e + 25) * 2 powi (bitlen q - 1)" by (simp add: powi_split [symmetric] e_def)
  also have "\<dots> \<le> 2 powi (e + 25) * of_int q" using Q by simp
  finally have hi: "x < 2 powi (e + 25)" using q by (simp add: pos_divide_less_eq)
  have u: "ulp_exp x = max (- 149) (if x < 2 powi (e + 24) then e else e + 1)"
    by (simp add: ulp_exp_def pq Let_def e_def)
  define e' where "e' = (if x < 2 powi (e + 24) then e else e + 1)"
  have e': "2 powi (e' + 23) \<le> x" "x < 2 powi (e' + 24)"
    using lo hi by (auto simp: e'_def algebra_simps)
  have "ulp_exp x = max (- 149) e'" using u by (simp add: e'_def)
  then show "x < 2 powi (ulp_exp x + 24)" "- 149 \<le> ulp_exp x" "2 powi (ulp_exp x + 23) \<le> x \<or> ulp_exp x = - 149"
    using e' less_le_trans [OF e'(2) powi_mono [of "e' + 24" "ulp_exp x + 24"]] by (auto simp: max_def)
qed

lemma ulp_exp_unique:
  assumes "2 powi (e + 23) \<le> x" "x < 2 powi (e + 24)" "- 149 \<le> e"
  shows "ulp_exp x = e"
proof -
  have x: "0 < x" using less_le_trans [OF powi_pos assms(1)] .
  have "2 powi (e + 23) < (2::rat) powi (ulp_exp x + 24)" using assms(1) ulp_exp_binade(1) [OF x] by simp
  then have 1: "e \<le> ulp_exp x" using powi_less_imp by fastforce
  show ?thesis
  proof (cases "2 powi (ulp_exp x + 23) \<le> x")
    case True
    then have "2 powi (ulp_exp x + 23) < (2::rat) powi (e + 24)" using assms(2) by simp
    then show ?thesis using 1 powi_less_imp by fastforce
  next
    case False
    then show ?thesis using ulp_exp_binade(3) [OF x] 1 assms(3) by simp
  qed
qed

lemma round_even_near: "\<bar>of_int (round_even y) - y\<bar> \<le> 1 / 2"
proof -
  have "of_int \<lfloor>y\<rfloor> \<le> y" "y < of_int \<lfloor>y\<rfloor> + 1" by (simp, linarith)
  then show ?thesis by (simp add: round_even_def Let_def abs_le_iff)
qed

lemma round_even_int [simp]: "round_even (of_int n) = n"
  by (simp add: round_even_def)

lemma round_even_nonneg: "0 \<le> y \<Longrightarrow> 0 \<le> round_even y"
  by (simp add: round_even_def Let_def)

lemma f32_pos_nonneg: "0 < x \<Longrightarrow> 0 \<le> f32_pos x"
  by (simp add: f32_pos_def round_even_nonneg)

lemma f32_round_nonneg: "0 \<le> x \<Longrightarrow> 0 \<le> f32_round x"
  by (simp add: f32_round_def f32_pos_nonneg)

text \<open>The error of one operation: half a unit in the last place, relative to the result or to the
  smallest subnormal.\<close>

lemma f32_round_error:
  assumes "0 \<le> x"
  shows "\<bar>f32_round x - x\<bar> \<le> x / 2 ^ 24 + 1 / 2 ^ 150"
proof (cases "x = 0")
  case False
  then have x: "0 < x" using assms by simp
  define u where "u = (2::rat) powi (ulp_exp x)"
  have u: "0 < u" by (simp add: u_def)
  have "f32_round x - x = (of_int (round_even (x / u)) - x / u) * u"
    using x u by (simp add: f32_round_def f32_pos_def u_def [symmetric] left_diff_distrib)
  then have "\<bar>f32_round x - x\<bar> \<le> 1 / 2 * u"
    using round_even_near [of "x / u"] u by (simp add: abs_mult)
  moreover have "1 / 2 * u \<le> x / 2 ^ 24 + 1 / 2 ^ 150"
    using ulp_exp_binade(3) [OF x]
  proof
    assume "2 powi (ulp_exp x + 23) \<le> x"
    then show ?thesis by (simp add: powi_split u_def)
  next
    assume "ulp_exp x = - 149"
    then have "u = 1 / 2 ^ 149" by (simp add: u_def power_int_def power_one_over)
    then have "1 / 2 * u = 1 / 2 ^ 150" by simp
    then show ?thesis using x by simp
  qed
  ultimately show ?thesis by simp
qed (simp add: f32_round_def)

lemma f32_pos_int:
  assumes "0 < n" "n < 2 ^ 24"
  shows "f32_pos (of_int n) = of_int n"
proof -
  have x: "0 < rat_of_int n" using assms by simp
  define e where "e = ulp_exp (of_int n)"
  have "e \<le> 0"
  proof (rule ccontr)
    assume "\<not> e \<le> 0"
    then have "2 powi (e + 23) \<le> rat_of_int n" using ulp_exp_binade(3) [OF x] by (auto simp: e_def)
    moreover have "(2::rat) powi 24 \<le> 2 powi (e + 23)" using \<open>\<not> e \<le> 0\<close> by (intro powi_mono) simp
    moreover have "rat_of_int n < rat_of_int (2 ^ 24)" using assms(2) by (simp only: of_int_less_iff)
    ultimately show False by simp
  qed
  then have "rat_of_int n / 2 powi e = of_int (n * 2 ^ nat (- e))"
    by (simp add: power_int_def field_simps)
  then have "f32_pos (of_int n) = of_int (n * 2 ^ nat (- e)) * 2 powi e"
    by (simp only: f32_pos_def e_def [symmetric] round_even_int)
  then show ?thesis using \<open>e \<le> 0\<close> by (simp add: power_int_def power_one_over)
qed

lemma f32_round_int: "\<bar>n\<bar> < 2 ^ 24 \<Longrightarrow> f32_round (of_int n) = of_int n"
  using f32_pos_int [of n] f32_pos_int [of "- n"] by (auto simp: f32_round_def)

lemma f32_of_int_id [simp]: "\<bar>n\<bar> < 2 ^ 24 \<Longrightarrow> f32_of_int n = of_int n"
  by (simp add: f32_of_int_def f32_round_int)

lemma f32_add_ints: "\<bar>a + b\<bar> < 2 ^ 24 \<Longrightarrow> f32_add (of_int a) (of_int b) = of_int (a + b)"
  using f32_round_int [of "a + b"] by (simp add: f32_add_def)

lemma f32_sub_ints: "\<bar>a - b\<bar> < 2 ^ 24 \<Longrightarrow> f32_sub (of_int a) (of_int b) = of_int (a - b)"
  using f32_round_int [of "a - b"] by (simp add: f32_sub_def)

text \<open>Evaluation at a given exponent.\<close>

lemma f32_round_eval:
  assumes "2 powi (e + 23) \<le> x" "x < 2 powi (e + 24)" "- 149 \<le> e"
  shows "f32_round x = of_int (round_even (x / 2 powi e)) * 2 powi e"
proof -
  have "0 < x" using less_le_trans [OF powi_pos assms(1)] .
  then show ?thesis using ulp_exp_unique [OF assms] by (simp add: f32_round_def f32_pos_def)
qed

end
