(* ===== verification/WindowTree.thy ===== *)
theory WindowTree
  imports Prelude F32 "HOL-Library.Monad_Syntax"
begin

text \<open>
  \<open>zmax-view/src/tree.rs\<close>: the windows of the editor, a tree of splits kept in a slot map.  Nodes
  refer to each other by key, children by the list of their container and the parent by a back link.
  \<open>None\<close> is a panic: an index with a key that is not in the map, an \<open>unreachable!\<close>, an \<open>unwrap\<close> of
  nothing, a \<open>u16\<close> operation that overflows.  An \<open>Option\<close> the code returns is an option inside.
\<close>

section \<open>Unsigned 16 bit numbers\<close>

definition u16_add :: "nat \<Rightarrow> nat \<Rightarrow> nat option" where
  "u16_add a b = (if a + b < 2 ^ 16 then Some (a + b) else None)"

definition u16_sat_add :: "nat \<Rightarrow> nat \<Rightarrow> nat" where
  "u16_sat_add a b = min (a + b) 65535"

definition u16_sat_mul :: "nat \<Rightarrow> nat \<Rightarrow> nat" where
  "u16_sat_mul a b = min (a * b) 65535"

fun u16_sum_from :: "nat \<Rightarrow> nat list \<Rightarrow> nat option" where
  "u16_sum_from acc [] = Some acc"
| "u16_sum_from acc (x # xs) = Option.bind (u16_add acc x) (\<lambda>acc. u16_sum_from acc xs)"

definition u16_sum :: "nat list \<Rightarrow> nat option" where
  "u16_sum xs = u16_sum_from 0 xs"

definition as_i16 :: "int \<Rightarrow> int" where
  "as_i16 x = (x + 2 ^ 15) mod 2 ^ 16 - 2 ^ 15"

section \<open>Data\<close>

record rect =
  rx :: nat
  ry :: nat
  rwidth :: nat
  rheight :: nat

definition rect_new :: "nat \<Rightarrow> nat \<Rightarrow> nat \<Rightarrow> nat \<Rightarrow> rect" where
  "rect_new x y w h = \<lparr>rx = x, ry = y, rwidth = w, rheight = h\<rparr>"

definition rect_default :: rect where
  "rect_default = rect_new 0 0 0 0"

definition rect_right :: "rect \<Rightarrow> nat" where
  "rect_right a = u16_sat_add (rx a) (rwidth a)"

text \<open>The fields of a \<open>View\<close> that the tree reads or writes.\<close>

record 'k view =
  v_id :: 'k
  v_doc :: nat
  v_area :: rect
  v_winfixheight :: bool
  v_winfixwidth :: bool

datatype layout = Horizontal | Vertical

datatype dir = Up | Down | Left | Right

record 'k container =
  c_layout :: layout
  c_children :: "'k list"
  c_area :: rect

datatype 'k content = CView "'k view" | CContainer "'k container"

record 'k node =
  n_parent :: 'k
  n_content :: "'k content"
  n_weight :: f32

text \<open>
  The slot map is the crate \<open>slotmap\<close>: the \<open>n\<close>-th insertion yields the key \<open>key n\<close>, no key is handed
  out twice and none is the null key that \<open>ViewId::default\<close> makes; an iteration goes through the live
  nodes in the order of their slots.
\<close>

record 'k slot_api =
  null_key :: 'k
  key :: "nat \<Rightarrow> 'k"
  slot_of :: "'k \<Rightarrow> nat"

definition slot_ok :: "'k slot_api \<Rightarrow> bool" where
  "slot_ok K \<longleftrightarrow> inj (key K) \<and> null_key K \<notin> range (key K)"

record 'k slots =
  sm_nodes :: "'k \<rightharpoonup> 'k node"
  sm_count :: nat

record 'k tree =
  t_root :: 'k
  t_focus :: 'k
  t_area :: rect
  t_nodes :: "'k slots"
  t_stack :: "('k \<times> rect) list"

datatype tree_shape = SLeaf nat bool | SSplit layout "(f32 \<times> tree_shape) list"

text \<open>The process-wide window options.\<close>

record win_opts =
  win_min_width :: nat
  win_min_height :: nat
  win_height :: nat
  win_width :: nat
  ea_ver :: bool
  ea_hor :: bool

definition win_opts_default :: win_opts where
  "win_opts_default = \<lparr>win_min_width = 3, win_min_height = 2, win_height = 0, win_width = 0, ea_ver = True, ea_hor = True\<rparr>"

definition set_win_min_width :: "nat \<Rightarrow> win_opts \<Rightarrow> win_opts" where
  "set_win_min_width cols W = W\<lparr>win_min_width := max cols 1\<rparr>"

definition set_win_min_height :: "nat \<Rightarrow> win_opts \<Rightarrow> win_opts" where
  "set_win_min_height rows W = W\<lparr>win_min_height := max rows 1\<rparr>"

definition set_win_height :: "nat \<Rightarrow> win_opts \<Rightarrow> win_opts" where
  "set_win_height rows W = W\<lparr>win_height := rows\<rparr>"

definition set_win_width :: "nat \<Rightarrow> win_opts \<Rightarrow> win_opts" where
  "set_win_width cols W = W\<lparr>win_width := cols\<rparr>"

text \<open>\<open>spec\<close> is the option's value with the white space around it removed.\<close>

definition set_eadirection :: "str \<Rightarrow> win_opts \<Rightarrow> win_opts" where
  "set_eadirection spec W =
     (if spec = lit ''ver'' then W\<lparr>ea_ver := True, ea_hor := False\<rparr>
      else if spec = lit ''hor'' then W\<lparr>ea_ver := False, ea_hor := True\<rparr>
      else W\<lparr>ea_ver := True, ea_hor := True\<rparr>)"

section \<open>The sizes of a split\<close>

definition scaled :: "nat \<Rightarrow> f32 \<Rightarrow> f32 \<Rightarrow> nat" where
  "scaled cells w weight_sum = f32_as_u16 (f32_mul (f32_of_int (int cells)) (f32_div w weight_sum))"

text \<open>
  The loop over the flexible children, in order: the last one takes the room that is left.  The rest
  of the list tells which child is the last.
\<close>

fun flex_sizes :: "nat \<Rightarrow> f32 \<Rightarrow> nat \<Rightarrow> (f32 \<times> nat option) list \<Rightarrow> nat list" where
  "flex_sizes room flex_weight used [] = []"
| "flex_sizes room flex_weight used ((w, Some sz) # rest) = sz # flex_sizes room flex_weight used rest"
| "flex_sizes room flex_weight used ((w, None) # rest) =
     (let sz = (if list_all (\<lambda>(_, fixed). fixed \<noteq> None) rest then room - used else scaled room w flex_weight)
      in sz # flex_sizes room flex_weight (u16_sat_add used sz) rest)"

definition split_sizes :: "nat \<Rightarrow> f32 list \<Rightarrow> f32 \<Rightarrow> nat option list \<Rightarrow> nat list option" where
  "split_sizes cells weights weight_total fixed =
     do {
       pinned \<leftarrow> u16_sum (List.map_filter id fixed);
       let plain = map (\<lambda>w. scaled cells w weight_total) weights;
       let flexible = [w. (w, None) \<leftarrow> zip weights fixed];
       if flexible = [] \<or> cells \<le> pinned then Some plain
       else
         let flex_weight = f32_sum flexible;
             flex_weight = (if f32_epsilon < flex_weight then flex_weight else f32_of_int (int (length flexible)))
         in Some (flex_sizes (cells - pinned) flex_weight 0 (zip weights fixed))
     }"

definition sibling_donor :: "nat \<Rightarrow> nat \<Rightarrow> nat option" where
  "sibling_donor idx len = (if idx + 1 < len then Some (idx + 1) else checked_sub idx 1)"

text \<open>The loop of \<open>grow_to\<close>: \<open>last\<close> is the last donor, \<open>taken\<close> what the ones before gave.\<close>

fun take_slack :: "nat \<Rightarrow> nat \<Rightarrow> nat \<Rightarrow> nat \<Rightarrow> nat \<Rightarrow> nat \<Rightarrow> (nat \<times> nat) list \<Rightarrow> (nat list \<times> nat) option" where
  "take_slack min_size tk total_slack lst i taken [] = Some ([], taken)"
| "take_slack min_size tk total_slack lst i taken ((sz, s) # rest) =
     (if s = 0 then
        do { (out, taken) \<leftarrow> take_slack min_size tk total_slack lst (i + 1) taken rest; Some (sz # out, taken) }
      else
        do {
          give \<leftarrow> (if i = lst then checked_sub tk taken else Some (tk * s div total_slack));
          kept \<leftarrow> u16_add s min_size;
          sz \<leftarrow> checked_sub kept give;
          taken \<leftarrow> u16_add taken give;
          (out, taken) \<leftarrow> take_slack min_size tk total_slack lst (i + 1) taken rest;
          Some (sz # out, taken)
        })"

definition rposition :: "('a \<Rightarrow> bool) \<Rightarrow> 'a list \<Rightarrow> nat option" where
  "rposition p xs = map_option (\<lambda>i. length xs - 1 - i) (position p (rev xs))"

definition grow_to :: "nat list \<Rightarrow> nat \<Rightarrow> nat \<Rightarrow> nat \<Rightarrow> nat list option option" where
  "grow_to sizes idx want min_size =
     do {
       cells \<leftarrow> u16_sum sizes;
       if sizes = [] then Some None
       else if \<not> idx < length sizes then None
       else
         let others = (length sizes - 1) mod 2 ^ 16;
             want = min want (cells - u16_sat_mul min_size others);
             slack = map (\<lambda>(i, s). if i = idx then 0 else s - min_size) (List.enumerate 0 sizes)
         in if want \<le> sizes ! idx then Some None
            else do {
              total_slack \<leftarrow> u16_sum slack;
              if total_slack = 0 then Some None
              else
                let tk = min (want - sizes ! idx) total_slack
                in case rposition (\<lambda>s. 0 < s) slack of
                     None \<Rightarrow> Some None
                   | Some lst \<Rightarrow> do {
                       (out, taken) \<leftarrow> take_slack min_size tk total_slack lst 0 0 (zip sizes slack);
                       sz \<leftarrow> u16_add (sizes ! idx) taken;
                       Some (Some (out[idx := sz]))
                     }
            }
     }"

section \<open>The slot map\<close>

definition node_at :: "'k tree \<Rightarrow> 'k \<Rightarrow> 'k node option" where
  "node_at T k = sm_nodes (t_nodes T) k"

definition set_node :: "'k \<Rightarrow> 'k node \<Rightarrow> 'k tree \<Rightarrow> 'k tree" where
  "set_node k nd T = T\<lparr>t_nodes := (t_nodes T)\<lparr>sm_nodes := (sm_nodes (t_nodes T))(k \<mapsto> nd)\<rparr>\<rparr>"

definition slots_empty :: "'k slots" where
  "slots_empty = \<lparr>sm_nodes = Map.empty, sm_count = 0\<rparr>"

definition slot_insert :: "'k slot_api \<Rightarrow> 'k node \<Rightarrow> 'k tree \<Rightarrow> 'k \<times> 'k tree" where
  "slot_insert K nd T =
     (let n = sm_count (t_nodes T); k = key K n
      in (k, set_node k nd (T\<lparr>t_nodes := (t_nodes T)\<lparr>sm_count := n + 1\<rparr>\<rparr>)))"

definition slot_remove :: "'k \<Rightarrow> 'k tree \<Rightarrow> 'k tree" where
  "slot_remove k T = T\<lparr>t_nodes := (t_nodes T)\<lparr>sm_nodes := (sm_nodes (t_nodes T))(k := None)\<rparr>\<rparr>"

definition slot_keys :: "'k slot_api \<Rightarrow> 'k tree \<Rightarrow> 'k list" where
  "slot_keys K T =
     sort_key (slot_of K) [k \<leftarrow> map (key K) [0..<sm_count (t_nodes T)]. node_at T k \<noteq> None]"

definition container_new :: "layout \<Rightarrow> 'k container" where
  "container_new l = \<lparr>c_layout = l, c_children = [], c_area = rect_default\<rparr>"

definition node_container :: "'k slot_api \<Rightarrow> layout \<Rightarrow> 'k node" where
  "node_container K l = \<lparr>n_parent = null_key K, n_content = CContainer (container_new l), n_weight = 1\<rparr>"

definition node_view :: "'k slot_api \<Rightarrow> 'k view \<Rightarrow> 'k node" where
  "node_view K v = \<lparr>n_parent = null_key K, n_content = CView v, n_weight = 1\<rparr>"

definition container_at :: "'k tree \<Rightarrow> 'k \<Rightarrow> 'k container option" where
  "container_at T k =
     do { nd \<leftarrow> node_at T k; case n_content nd of CContainer c \<Rightarrow> Some c | CView _ \<Rightarrow> None }"

definition container_mut :: "'k \<Rightarrow> ('k container \<Rightarrow> 'k container) \<Rightarrow> 'k tree \<Rightarrow> 'k tree option" where
  "container_mut k f T =
     do {
       nd \<leftarrow> node_at T k;
       case n_content nd of
         CContainer c \<Rightarrow> Some (set_node k (nd\<lparr>n_content := CContainer (f c)\<rparr>) T)
       | CView _ \<Rightarrow> None
     }"

definition set_parent :: "'k \<Rightarrow> 'k \<Rightarrow> 'k tree \<Rightarrow> 'k tree option" where
  "set_parent k parent T = do { nd \<leftarrow> node_at T k; Some (set_node k (nd\<lparr>n_parent := parent\<rparr>) T) }"

definition set_weight :: "'k \<Rightarrow> f32 \<Rightarrow> 'k tree \<Rightarrow> 'k tree option" where
  "set_weight k w T = do { nd \<leftarrow> node_at T k; Some (set_node k (nd\<lparr>n_weight := w\<rparr>) T) }"

definition get_mut :: "'k \<Rightarrow> ('k view \<Rightarrow> 'k view) \<Rightarrow> 'k tree \<Rightarrow> 'k tree option" where
  "get_mut k f T =
     do {
       nd \<leftarrow> node_at T k;
       case n_content nd of
         CView v \<Rightarrow> Some (set_node k (nd\<lparr>n_content := CView (f v)\<rparr>) T)
       | CContainer _ \<Rightarrow> None
     }"

definition try_get :: "'k tree \<Rightarrow> 'k \<Rightarrow> 'k view option" where
  "try_get T k =
     (case node_at T k of
        Some nd \<Rightarrow> (case n_content nd of CView v \<Rightarrow> Some v | CContainer _ \<Rightarrow> None)
      | None \<Rightarrow> None)"

definition tree_contains :: "'k tree \<Rightarrow> 'k \<Rightarrow> bool" where
  "tree_contains T k \<longleftrightarrow> node_at T k \<noteq> None"

definition views :: "'k slot_api \<Rightarrow> 'k tree \<Rightarrow> ('k view \<times> bool) list" where
  "views K T = List.map_filter (\<lambda>k. map_option (\<lambda>v. (v, t_focus T = k)) (try_get T k)) (slot_keys K T)"

definition tree_is_empty :: "'k tree \<Rightarrow> bool option" where
  "tree_is_empty T = do { c \<leftarrow> container_at T (t_root T); Some (c_children c = []) }"

definition tree_new :: "'k slot_api \<Rightarrow> rect \<Rightarrow> 'k tree" where
  "tree_new K area =
     (let (root, T) = slot_insert K (node_container K Vertical)
            \<lparr>t_root = null_key K, t_focus = null_key K, t_area = area, t_nodes = slots_empty, t_stack = []\<rparr>
      in set_node root (node_container K Vertical\<lparr>n_parent := root\<rparr>) (T\<lparr>t_root := root, t_focus := root\<rparr>))"

text \<open>Recursion through a list of calls that may panic.\<close>

fun fold_opt :: "('a \<Rightarrow> 's \<Rightarrow> 's option) \<Rightarrow> 'a list \<Rightarrow> 's \<Rightarrow> 's option" where
  "fold_opt f [] s = Some s"
| "fold_opt f (x # xs) s = Option.bind (f x s) (fold_opt f xs)"

lemma mono_fold_opt [partial_function_mono]:
  assumes "\<And>x s. mono_option (\<lambda>g. F g x s)"
  shows "mono_option (\<lambda>g. fold_opt (F g) xs s)"
proof (induction xs arbitrary: s)
  case Nil
  then show ?case by (simp add: option.const_mono)
next
  case (Cons x xs)
  then show ?case using assms by (simp add: bind_mono)
qed

lemma mono_those_map [partial_function_mono]:
  assumes "\<And>x. mono_option (\<lambda>g. F g x)"
  shows "mono_option (\<lambda>g. those (map (F g) xs))"
proof (induction xs)
  case Nil
  then show ?case by (simp add: option.const_mono)
next
  case (Cons x xs)
  have "those (map (F g) (x # xs)) = Option.bind (F g x) (\<lambda>y. Option.bind (those (map (F g) xs)) (\<lambda>ys. Some (y # ys)))"
    for g by (cases "F g x"; cases "those (map (F g) xs)") simp_all
  then show ?case using assms Cons by (simp only:) (intro bind_mono option.const_mono)
qed

section \<open>Layout\<close>

definition fixed_size :: "'k tree \<Rightarrow> bool \<Rightarrow> 'k \<Rightarrow> nat option option" where
  "fixed_size T vertical k =
     do {
       nd \<leftarrow> node_at T k;
       Some (case n_content nd of
               CView v \<Rightarrow>
                 if vertical \<and> v_winfixheight v then Some (rheight (v_area v))
                 else if \<not> vertical \<and> v_winfixwidth v then Some (rwidth (v_area v)) else None
             | CContainer _ \<Rightarrow> None)
     }"

text \<open>
  The areas of the children of a split, in order; \<open>fixed_last\<close> tells that the last one is pinned, in
  which case it does not absorb the remainder.
\<close>

fun lay_rows :: "rect \<Rightarrow> bool \<Rightarrow> nat \<Rightarrow> nat list \<Rightarrow> rect list option" where
  "lay_rows area fixed_last child_y [] = Some []"
| "lay_rows area fixed_last child_y (sz # sizes) =
     do {
       height \<leftarrow> (if sizes = [] \<and> \<not> fixed_last
                  then do { bottom \<leftarrow> u16_add (ry area) (rheight area); Some (bottom - child_y) } else Some sz);
       rest \<leftarrow> lay_rows area fixed_last (u16_sat_add child_y height) sizes;
       Some (rect_new (rx area) child_y (rwidth area) height # rest)
     }"

fun lay_columns :: "rect \<Rightarrow> bool \<Rightarrow> nat \<Rightarrow> nat list \<Rightarrow> rect list option" where
  "lay_columns area fixed_last child_x [] = Some []"
| "lay_columns area fixed_last child_x (sz # sizes) =
     do {
       width \<leftarrow> (if sizes = [] \<and> \<not> fixed_last
                 then do { right \<leftarrow> u16_add (rx area) (rwidth area); Some (right - child_x) } else Some sz);
       let next_x = u16_sat_add child_x width;
       rest \<leftarrow> lay_columns area fixed_last (if sizes \<noteq> [] then u16_sat_add next_x 1 else next_x) sizes;
       Some (rect_new child_x (ry area) width (rheight area) # rest)
     }"

definition split_areas :: "layout \<Rightarrow> rect \<Rightarrow> f32 list \<Rightarrow> nat option list \<Rightarrow> rect list option" where
  "split_areas l area weights fixed =
     (let sum_w = f32_sum weights;
          weight_total = (if f32_epsilon < sum_w then sum_w else f32_of_int (int (length weights)));
          fixed_last = (last fixed \<noteq> None)
      in case l of
           Horizontal \<Rightarrow>
             do { sizes \<leftarrow> split_sizes (rheight area) weights weight_total fixed; lay_rows area fixed_last (ry area) sizes }
         | Vertical \<Rightarrow>
             let total_gap = length weights mod 2 ^ 16 - 2;
                 used_area = rwidth area - total_gap
             in do { sizes \<leftarrow> split_sizes used_area weights weight_total fixed; lay_columns area fixed_last (rx area) sizes })"

text \<open>One turn of the loop: the node gets its area; the children of a container get theirs.\<close>

definition recalc_node :: "'k \<Rightarrow> rect \<Rightarrow> 'k tree \<Rightarrow> ('k tree \<times> ('k \<times> rect) list) option" where
  "recalc_node k area T =
     do {
       nd \<leftarrow> node_at T k;
       case n_content nd of
         CView v \<Rightarrow> Some (set_node k (nd\<lparr>n_content := CView (v\<lparr>v_area := area\<rparr>)\<rparr>) T, [])
       | CContainer c \<Rightarrow>
           let T = set_node k (nd\<lparr>n_content := CContainer (c\<lparr>c_area := area\<rparr>)\<rparr>) T;
               children = c_children c
           in if children = [] then Some (T, [])
              else do {
                weights \<leftarrow> those (map (\<lambda>ch. map_option (\<lambda>nd. max 0 (n_weight nd)) (node_at T ch)) children);
                fixed \<leftarrow> those (map (fixed_size T (c_layout c = Horizontal)) children);
                areas \<leftarrow> split_areas (c_layout c) area weights fixed;
                Some (T, zip children areas)
              }
     }"

text \<open>The stack of the source grows at the end of a \<open>Vec\<close>; here its top is the head of the list.\<close>

partial_function (option) recalc_loop :: "'k tree \<Rightarrow> 'k tree option" where
  "recalc_loop T =
     (case t_stack T of
        [] \<Rightarrow> Some T
      | item # stack \<Rightarrow>
          do {
            turn \<leftarrow> recalc_node (fst item) (snd item) (T\<lparr>t_stack := stack\<rparr>);
            recalc_loop ((fst turn)\<lparr>t_stack := rev (snd turn) @ stack\<rparr>)
          })"

definition recalculate :: "'k tree \<Rightarrow> 'k tree option" where
  "recalculate T =
     do {
       empty \<leftarrow> tree_is_empty T;
       if empty then Some (T\<lparr>t_focus := t_root T\<rparr>)
       else recalc_loop (T\<lparr>t_stack := (t_root T, t_area T) # t_stack T\<rparr>)
     }"

definition tree_resize :: "rect \<Rightarrow> 'k tree \<Rightarrow> (bool \<times> 'k tree) option" where
  "tree_resize area T =
     (if t_area T \<noteq> area then do { T \<leftarrow> recalculate (T\<lparr>t_area := area\<rparr>); Some (True, T) } else Some (False, T))"

definition node_width :: "'k tree \<Rightarrow> 'k \<Rightarrow> nat option" where
  "node_width T k =
     do { nd \<leftarrow> node_at T k; Some (case n_content nd of CView v \<Rightarrow> rwidth (v_area v) | CContainer c \<Rightarrow> rwidth (c_area c)) }"

definition node_height :: "'k tree \<Rightarrow> 'k \<Rightarrow> nat option" where
  "node_height T k =
     do { nd \<leftarrow> node_at T k; Some (case n_content nd of CView v \<Rightarrow> rheight (v_area v) | CContainer c \<Rightarrow> rheight (c_area c)) }"

section \<open>The size policy of the focused window\<close>

definition set_weights :: "'k list \<Rightarrow> f32 list \<Rightarrow> 'k tree \<Rightarrow> 'k tree option" where
  "set_weights children weights T = fold_opt (\<lambda>(c, w). set_weight c w) (zip children weights) T"

definition node_size :: "bool \<Rightarrow> 'k tree \<Rightarrow> 'k \<Rightarrow> nat option" where
  "node_size vertical T k = (if vertical then node_height T k else node_width T k)"

definition grow_child :: "'k list \<Rightarrow> 'k \<Rightarrow> bool \<Rightarrow> nat \<Rightarrow> nat \<Rightarrow> 'k tree \<Rightarrow> (bool \<times> 'k tree) option" where
  "grow_child children child vertical want min_size T =
     (case position (\<lambda>c. c = child) children of
        None \<Rightarrow> Some (False, T)
      | Some idx \<Rightarrow>
          do {
            sizes \<leftarrow> those (map (node_size vertical T) children);
            grown \<leftarrow> grow_to sizes idx want min_size;
            case grown of
              None \<Rightarrow> Some (False, T)
            | Some sizes \<Rightarrow>
                do { T \<leftarrow> set_weights children (map (\<lambda>n. f32_of_int (int n)) sizes) T; Some (True, T) }
          })"

partial_function (option) grow_focus_loop ::
    "bool \<Rightarrow> nat \<Rightarrow> nat \<Rightarrow> 'k \<Rightarrow> bool \<Rightarrow> 'k tree \<Rightarrow> (bool \<times> 'k tree) option" where
  "grow_focus_loop vertical want min_size k changed T =
     do {
       nd \<leftarrow> node_at T k;
       let parent = n_parent nd;
       if parent = k then Some (changed, T)
       else do {
         pnd \<leftarrow> node_at T parent;
         case n_content pnd of
           CView _ \<Rightarrow> Some (changed, T)
         | CContainer c \<Rightarrow>
             do {
               grown \<leftarrow> (if (c_layout c = Horizontal) = vertical \<and> 1 < length (c_children c)
                        then grow_child (c_children c) k vertical want min_size T else Some (False, T));
               grow_focus_loop vertical want min_size parent (changed \<or> fst grown) (snd grown)
             }
       }
     }"

definition grow_focus :: "bool \<Rightarrow> nat \<Rightarrow> nat \<Rightarrow> 'k tree \<Rightarrow> (bool \<times> 'k tree) option" where
  "grow_focus vertical want min_size T =
     (if want = 0 then Some (False, T) else grow_focus_loop vertical want min_size (t_focus T) False T)"

definition apply_size_policy :: "win_opts \<Rightarrow> nat \<Rightarrow> nat \<Rightarrow> 'k tree \<Rightarrow> (bool \<times> 'k tree) option" where
  "apply_size_policy W height width T =
     (if height = 0 \<and> width = 0 then Some (False, T)
      else do {
        empty \<leftarrow> tree_is_empty T;
        if empty then Some (False, T)
        else do {
          nd \<leftarrow> node_at T (t_focus T);
          case n_content nd of
            CContainer _ \<Rightarrow> Some (False, T)
          | CView _ \<Rightarrow>
              do {
                (grew_height, T) \<leftarrow> grow_focus True height (win_min_height W) T;
                (grew_width, T) \<leftarrow> grow_focus False width (win_min_width W) T;
                T \<leftarrow> (if grew_height \<or> grew_width then recalculate T else Some T);
                Some (grew_height \<or> grew_width, T)
              }
        }
      })"

definition apply_win_size_policy :: "win_opts \<Rightarrow> 'k tree \<Rightarrow> (bool \<times> 'k tree) option" where
  "apply_win_size_policy W T = apply_size_policy W (win_height W) (win_width W) T"

text \<open>What \<open>insert\<close>, \<open>split_with\<close> and \<open>remove\<close> end with.\<close>

definition relayout :: "win_opts \<Rightarrow> 'k tree \<Rightarrow> 'k tree option" where
  "relayout W T = do { T \<leftarrow> recalculate T; (_, T) \<leftarrow> apply_win_size_policy W T; Some T }"

section \<open>Inserting, splitting and removing windows\<close>

definition vec_insert :: "nat \<Rightarrow> 'a \<Rightarrow> 'a list \<Rightarrow> 'a list" where
  "vec_insert pos x xs = take pos xs @ x # drop pos xs"

definition vec_remove :: "nat \<Rightarrow> 'a list \<Rightarrow> 'a list" where
  "vec_remove pos xs = take pos xs @ drop (Suc pos) xs"

definition set_children :: "'k list \<Rightarrow> 'k container \<Rightarrow> 'k container" where
  "set_children chs c = c\<lparr>c_children := chs\<rparr>"

text \<open>The position to insert at: the start of an empty container, else beside the focus.\<close>

definition insert_pos :: "bool \<Rightarrow> 'k \<Rightarrow> 'k list \<Rightarrow> nat option" where
  "insert_pos before focus children =
     (if children = [] then Some 0
      else map_option (\<lambda>pos. if before then pos else pos + 1) (position (\<lambda>c. c = focus) children))"

definition tree_insert :: "'k slot_api \<Rightarrow> win_opts \<Rightarrow> 'k view \<Rightarrow> 'k tree \<Rightarrow> ('k \<times> 'k tree) option" where
  "tree_insert K W v T =
     do {
       let focus = t_focus T;
       fnd \<leftarrow> node_at T focus;
       let parent = n_parent fnd;
       let (k, T) = slot_insert K ((node_view K v)\<lparr>n_parent := parent\<rparr>) T;
       T \<leftarrow> get_mut k (\<lambda>v. v\<lparr>v_id := k\<rparr>) T;
       c \<leftarrow> container_at T parent;
       pos \<leftarrow> insert_pos False focus (c_children c);
       T \<leftarrow> container_mut parent (set_children (vec_insert pos k (c_children c))) T;
       T \<leftarrow> relayout W (T\<lparr>t_focus := k\<rparr>);
       Some (k, T)
     }"

definition split_with :: "'k slot_api \<Rightarrow> win_opts \<Rightarrow> 'k view \<Rightarrow> layout \<Rightarrow> bool \<Rightarrow> 'k tree \<Rightarrow> ('k \<times> 'k tree) option" where
  "split_with K W v l before T =
     do {
       let focus = t_focus T;
       fnd \<leftarrow> node_at T focus;
       let parent = n_parent fnd;
       let (k, T) = slot_insert K (node_view K v) T;
       T \<leftarrow> get_mut k (\<lambda>v. v\<lparr>v_id := k\<rparr>) T;
       c \<leftarrow> container_at T parent;
       T \<leftarrow> (if c_layout c = l then
               do {
                 pos \<leftarrow> insert_pos before focus (c_children c);
                 T \<leftarrow> container_mut parent (set_children (vec_insert pos k (c_children c))) T;
                 set_parent k parent T
               }
             else
               do {
                 let (split, T) = slot_insert K ((node_container K l)\<lparr>n_parent := parent\<rparr>) T;
                 T \<leftarrow> container_mut split (\<lambda>c. set_children (c_children c @ (if before then [k, focus] else [focus, k])) c) T;
                 T \<leftarrow> set_parent focus split T;
                 T \<leftarrow> set_parent k split T;
                 c \<leftarrow> container_at T parent;
                 pos \<leftarrow> position (\<lambda>c. c = focus) (c_children c);
                 container_mut parent (set_children ((c_children c)[pos := split])) T
               });
       T \<leftarrow> relayout W (T\<lparr>t_focus := k\<rparr>);
       Some (k, T)
     }"

definition tree_split :: "'k slot_api \<Rightarrow> win_opts \<Rightarrow> 'k view \<Rightarrow> layout \<Rightarrow> 'k tree \<Rightarrow> ('k \<times> 'k tree) option" where
  "tree_split K W v l T = split_with K W v l False T"

definition remove_or_replace :: "'k \<Rightarrow> 'k option \<Rightarrow> 'k tree \<Rightarrow> 'k tree option" where
  "remove_or_replace child replacement T =
     do {
       nd \<leftarrow> node_at T child;
       let parent = n_parent nd;
       let T = slot_remove child T;
       c \<leftarrow> container_at T parent;
       pos \<leftarrow> position (\<lambda>item. item = child) (c_children c);
       case replacement of
         Some k \<Rightarrow>
           do {
             T \<leftarrow> container_mut parent (set_children ((c_children c)[pos := k])) T;
             set_parent k parent T
           }
       | None \<Rightarrow> container_mut parent (set_children (vec_remove pos (c_children c))) T
     }"

section \<open>Walking over the windows\<close>

partial_function (option) traverse_next :: "'k tree \<Rightarrow> 'k list \<Rightarrow> (('k \<times> 'k view) \<times> 'k list) option option" where
  "traverse_next T stack =
     (case stack of
        [] \<Rightarrow> Some None
      | k # stack \<Rightarrow>
          do {
            nd \<leftarrow> node_at T k;
            case n_content nd of
              CView v \<Rightarrow> Some (Some ((k, v), stack))
            | CContainer c \<Rightarrow> traverse_next T (c_children c @ stack)
          })"

partial_function (option) traverse_next_back :: "'k tree \<Rightarrow> 'k list \<Rightarrow> (('k \<times> 'k view) \<times> 'k list) option option" where
  "traverse_next_back T stack =
     (case stack of
        [] \<Rightarrow> Some None
      | k # stack \<Rightarrow>
          do {
            nd \<leftarrow> node_at T k;
            case n_content nd of
              CView v \<Rightarrow> Some (Some ((k, v), stack))
            | CContainer c \<Rightarrow> traverse_next_back T (rev (c_children c) @ stack)
          })"

text \<open>The keys an iterator hands out until it ends.\<close>

partial_function (option) drain ::
    "('k list \<Rightarrow> (('k \<times> 'k view) \<times> 'k list) option option) \<Rightarrow> 'k list \<Rightarrow> 'k list option" where
  "drain nxt stack =
     do {
       r \<leftarrow> nxt stack;
       case r of
         None \<Rightarrow> Some []
       | Some item \<Rightarrow> do { ks \<leftarrow> drain nxt (snd item); Some (fst (fst item) # ks) }
     }"

definition traverse_keys :: "'k tree \<Rightarrow> 'k list option" where
  "traverse_keys T = drain (traverse_next T) [t_root T]"

definition traverse_keys_back :: "'k tree \<Rightarrow> 'k list option" where
  "traverse_keys_back T = drain (traverse_next_back T) [t_root T]"

text \<open>The first key after the focus, else the first key of all (an \<open>unwrap\<close>).\<close>

definition after_focus :: "'k \<Rightarrow> 'k list \<Rightarrow> 'k option" where
  "after_focus focus ks =
     (case drop 1 (dropWhile (\<lambda>k. k \<noteq> focus) ks) of
        k # _ \<Rightarrow> Some k
      | [] \<Rightarrow> (case ks of k # _ \<Rightarrow> Some k | [] \<Rightarrow> None))"

definition tree_prev :: "'k tree \<Rightarrow> 'k option" where
  "tree_prev T = do { ks \<leftarrow> traverse_keys_back T; after_focus (t_focus T) ks }"

definition tree_next :: "'k tree \<Rightarrow> 'k option" where
  "tree_next T = do { ks \<leftarrow> traverse_keys T; after_focus (t_focus T) ks }"

definition tree_remove :: "win_opts \<Rightarrow> 'k \<Rightarrow> 'k tree \<Rightarrow> 'k tree option" where
  "tree_remove W index T =
     do {
       T \<leftarrow> (if t_focus T = index then do { f \<leftarrow> tree_prev T; Some (T\<lparr>t_focus := f\<rparr>) } else Some T);
       nd \<leftarrow> node_at T index;
       let parent = n_parent nd;
       T \<leftarrow> remove_or_replace index None T;
       c \<leftarrow> container_at T parent;
       T \<leftarrow> (if length (c_children c) = 1 \<and> parent \<noteq> t_root T
             then do {
               T \<leftarrow> container_mut parent (set_children (butlast (c_children c))) T;
               remove_or_replace parent (Some (last (c_children c))) T
             }
             else Some T);
       relayout W T
     }"

partial_function (option) collect_leaves :: "'k tree \<Rightarrow> 'k \<Rightarrow> 'k list \<Rightarrow> 'k list option" where
  "collect_leaves T k out =
     do {
       nd \<leftarrow> node_at T k;
       case n_content nd of
         CView _ \<Rightarrow> Some (out @ [k])
       | CContainer c \<Rightarrow> fold_opt (\<lambda>ch out. collect_leaves T ch out) (c_children c) out
     }"

definition leaf_ids :: "'k tree \<Rightarrow> 'k list option" where
  "leaf_ids T = collect_leaves T (t_root T) []"

section \<open>Saving and restoring the layout\<close>

partial_function (option) shape_of :: "'k tree \<Rightarrow> 'k \<Rightarrow> tree_shape option" where
  "shape_of T k =
     do {
       nd \<leftarrow> node_at T k;
       case n_content nd of
         CView v \<Rightarrow> Some (SLeaf (v_doc v) (k = t_focus T))
       | CContainer c \<Rightarrow>
           do {
             children \<leftarrow> those (map (\<lambda>ch. do { cnd \<leftarrow> node_at T ch; s \<leftarrow> shape_of T ch; Some (n_weight cnd, s) }) (c_children c));
             Some (SSplit (c_layout c) children)
           }
     }"

definition tree_shape_of :: "'k tree \<Rightarrow> tree_shape option" where
  "tree_shape_of T = shape_of T (t_root T)"

definition push_child :: "'k \<Rightarrow> 'k \<Rightarrow> 'k tree \<Rightarrow> 'k tree option" where
  "push_child parent child T =
     do {
       nd \<leftarrow> node_at T parent;
       Some (case n_content nd of
               CContainer c \<Rightarrow> set_node parent (nd\<lparr>n_content := CContainer (set_children (c_children c @ [child]) c)\<rparr>) T
             | CView _ \<Rightarrow> T)
     }"

text \<open>
  \<open>make_view\<close> is a closure on a state of its own; the state of the recursion is that, the tree, the
  leaves so far and the focused one.
\<close>

type_synonym ('k, 's) build = "'s \<times> 'k tree \<times> 'k list \<times> 'k option"

fun build_node :: "'k slot_api \<Rightarrow> (nat \<Rightarrow> 's \<Rightarrow> 'k view \<times> 's) \<Rightarrow> 'k \<Rightarrow> tree_shape \<Rightarrow> ('k, 's) build \<Rightarrow> ('k \<times> ('k, 's) build) option"
  and build_children :: "'k slot_api \<Rightarrow> (nat \<Rightarrow> 's \<Rightarrow> 'k view \<times> 's) \<Rightarrow> 'k \<Rightarrow> (f32 \<times> tree_shape) list \<Rightarrow> ('k, 's) build \<Rightarrow> ('k, 's) build option"
where
  "build_node K make_view parent (SLeaf doc is_focus) (s, T, leaves, focused) =
     do {
       let (v, s) = make_view doc s;
       let (k, T) = slot_insert K (node_view K v) T;
       T \<leftarrow> set_parent k parent T;
       T \<leftarrow> get_mut k (\<lambda>v. v\<lparr>v_id := k\<rparr>) T;
       T \<leftarrow> push_child parent k T;
       Some (k, s, T, leaves @ [k], if is_focus then Some k else focused)
     }"
| "build_node K make_view parent (SSplit l children) (s, T, leaves, focused) =
     do {
       let (cid, T) = slot_insert K (node_container K l) T;
       T \<leftarrow> set_parent cid parent T;
       T \<leftarrow> push_child parent cid T;
       st \<leftarrow> build_children K make_view cid children (s, T, leaves, focused);
       Some (cid, st)
     }"
| "build_children K make_view parent [] st = Some st"
| "build_children K make_view parent ((weight, child) # rest) st =
     do {
       (k, s, T, lf) \<leftarrow> build_node K make_view parent child st;
       T \<leftarrow> set_weight k weight T;
       build_children K make_view parent rest (s, T, lf)
     }"

definition build_from_shape ::
    "'k slot_api \<Rightarrow> (nat \<Rightarrow> 's \<Rightarrow> 'k view \<times> 's) \<Rightarrow> tree_shape \<Rightarrow> 's \<Rightarrow> 'k tree \<Rightarrow> ('k list \<times> 's \<times> 'k tree) option" where
  "build_from_shape K make_view shape s T =
     do {
       let (root, T) = slot_insert K (node_container K Vertical) (T\<lparr>t_nodes := slots_empty\<rparr>);
       T \<leftarrow> set_parent root root T;
       let T = T\<lparr>t_root := root, t_focus := root\<rparr>;
       (s, T, leaves, focused) \<leftarrow>
         (case shape of
            SSplit l children \<Rightarrow>
              do {
                T \<leftarrow> container_mut root (\<lambda>c. c\<lparr>c_layout := l\<rparr>) T;
                build_children K make_view root children (s, T, [], None)
              }
          | SLeaf _ _ \<Rightarrow> map_option snd (build_node K make_view root shape (s, T, [], None)));
       let focus = (case focused of Some k \<Rightarrow> k | None \<Rightarrow> (case leaves of k # _ \<Rightarrow> k | [] \<Rightarrow> root));
       T \<leftarrow> recalculate (T\<lparr>t_focus := focus\<rparr>);
       Some (leaves, s, T)
     }"

section \<open>Resizing\<close>

definition split_divider_at :: "'k slot_api \<Rightarrow> nat \<Rightarrow> nat \<Rightarrow> 'k tree \<Rightarrow> ('k \<times> bool) option option" where
  "split_divider_at K col row T =
     fold (\<lambda>(v, _) found.
       case found of
         Some None \<Rightarrow>
           do {
             let a = v_area v;
             col1 \<leftarrow> u16_add col 1;
             on_right \<leftarrow>
               (if (col1 = rect_right a \<or> col = rect_right a) \<and> ry a \<le> row
                then do {
                  bottom \<leftarrow> u16_add (ry a) (rheight a);
                  if row < bottom
                  then map_option (\<lambda>right. rect_right a < right) (u16_add (rx (t_area T)) (rwidth (t_area T)))
                  else Some False
                }
                else Some False);
             if on_right then Some (Some (v_id v, True))
             else do {
               row1 \<leftarrow> u16_add row 1;
               bottom \<leftarrow> u16_add (ry a) (rheight a);
               on_bottom \<leftarrow>
                 (if (row1 = bottom \<or> row = bottom) \<and> rx a \<le> col
                  then do {
                    right \<leftarrow> u16_add (rx a) (rwidth a);
                    if col < right
                    then map_option (\<lambda>all_bottom. bottom < all_bottom) (u16_add (ry (t_area T)) (rheight (t_area T)))
                    else Some False
                  }
                  else Some False);
               Some (if on_bottom then Some (v_id v, False) else None)
             }
           }
       | _ \<Rightarrow> found) (views K T) (Some None)"

text \<open>\<open>resize_horizontal\<close> and \<open>resize_vertical\<close> are the same code for the two axes.\<close>

definition resize_axis :: "layout \<Rightarrow> win_opts \<Rightarrow> 'k \<Rightarrow> int \<Rightarrow> 'k tree \<Rightarrow> (bool \<times> 'k tree) option" where
  "resize_axis l W view delta T =
     (if delta = 0 then Some (False, T)
      else do {
        nd \<leftarrow> node_at T view;
        pnd \<leftarrow> node_at T (n_parent nd);
        case n_content pnd of
          CView _ \<Rightarrow> Some (False, T)
        | CContainer c \<Rightarrow>
            let children = c_children c in
            if c_layout c \<noteq> l then Some (False, T)
            else case position (\<lambda>k. k = view) children of
              None \<Rightarrow> Some (False, T)
            | Some idx \<Rightarrow>
                (case sibling_donor idx (length children) of
                   None \<Rightarrow> Some (False, T)
                 | Some donor \<Rightarrow>
                     do {
                       let min_size = f32_of_int (int (if l = Vertical then win_min_width W else win_min_height W));
                       cells \<leftarrow> those (map (node_size (l = Horizontal) T) children);
                       let sizes = map (\<lambda>n. f32_of_int (int n)) cells;
                       let new_size = f32_add (sizes ! idx) (f32_of_int delta);
                       let new_donor = f32_sub (sizes ! donor) (f32_of_int delta);
                       if new_size < min_size \<or> new_donor < min_size then Some (False, T)
                       else do {
                         T \<leftarrow> set_weights children (sizes[idx := new_size, donor := new_donor]) T;
                         T \<leftarrow> recalculate T;
                         Some (True, T)
                       }
                     })
      })"

definition resize_horizontal :: "win_opts \<Rightarrow> 'k \<Rightarrow> int \<Rightarrow> 'k tree \<Rightarrow> (bool \<times> 'k tree) option" where
  "resize_horizontal W view delta T = resize_axis Vertical W view delta T"

definition resize_vertical :: "win_opts \<Rightarrow> 'k \<Rightarrow> int \<Rightarrow> 'k tree \<Rightarrow> (bool \<times> 'k tree) option" where
  "resize_vertical W view delta T = resize_axis Horizontal W view delta T"

definition clamped_delta :: "win_opts \<Rightarrow> 'k \<Rightarrow> nat \<Rightarrow> layout \<Rightarrow> 'k tree \<Rightarrow> int option" where
  "clamped_delta W view sz l T =
     do {
       nd \<leftarrow> node_at T view;
       pnd \<leftarrow> node_at T (n_parent nd);
       case n_content pnd of
         CView _ \<Rightarrow> Some 0
       | CContainer c \<Rightarrow>
           let children = c_children c in
           if c_layout c \<noteq> l then Some 0
           else case position (\<lambda>k. k = view) children of
             None \<Rightarrow> Some 0
           | Some idx \<Rightarrow>
               (case sibling_donor idx (length children) of
                  None \<Rightarrow> Some 0
                | Some donor \<Rightarrow>
                    do {
                      let min_size = int (if l = Vertical then win_min_width W else win_min_height W);
                      current \<leftarrow> map_option int (node_size (l = Horizontal) T view);
                      other \<leftarrow> map_option int (node_size (l = Horizontal) T (children ! donor));
                      let grow = other - min_size;
                      let shrink = current - min_size;
                      Some (as_i16 (min (max (int sz - current) (- max shrink 0)) (max grow 0)))
                    })
     }"

definition set_width :: "win_opts \<Rightarrow> 'k \<Rightarrow> nat \<Rightarrow> 'k tree \<Rightarrow> (bool \<times> 'k tree) option" where
  "set_width W view width T = do { delta \<leftarrow> clamped_delta W view width Vertical T; resize_horizontal W view delta T }"

definition set_height :: "win_opts \<Rightarrow> 'k \<Rightarrow> nat \<Rightarrow> 'k tree \<Rightarrow> (bool \<times> 'k tree) option" where
  "set_height W view height T = do { delta \<leftarrow> clamped_delta W view height Horizontal T; resize_vertical W view delta T }"

definition equalize :: "'k slot_api \<Rightarrow> win_opts \<Rightarrow> 'k tree \<Rightarrow> 'k tree option" where
  "equalize K W T =
     do {
       T \<leftarrow> fold_opt (\<lambda>k T.
              do {
                nd \<leftarrow> node_at T k;
                pnd \<leftarrow> node_at T (n_parent nd);
                let level = (case n_content pnd of
                               CContainer c \<Rightarrow> (case c_layout c of Horizontal \<Rightarrow> ea_ver W | Vertical \<Rightarrow> ea_hor W)
                             | CView _ \<Rightarrow> True);
                if level then set_weight k 1 T else Some T
              }) (slot_keys K T) T;
       recalculate T
     }"

section \<open>Moving between windows\<close>

definition area_of :: "'k node \<Rightarrow> rect" where
  "area_of nd = (case n_content nd of CView v \<Rightarrow> v_area v | CContainer c \<Rightarrow> c_area c)"

text \<open>The distance of two \<open>u16\<close> coordinates taken as \<open>i16\<close>; it may overflow.\<close>

definition i16_distance :: "nat \<Rightarrow> nat \<Rightarrow> int option" where
  "i16_distance a b =
     (let d = as_i16 (int a) - as_i16 (int b)
      in if - (2 ^ 15) < d \<and> d < 2 ^ 15 then Some \<bar>d\<bar> else None)"

fun first_min :: "(int \<times> 'a) list \<Rightarrow> 'a option" where
  "first_min [] = None"
| "first_min ((n, x) # rest) =
     (case first_min (filter (\<lambda>(m, _). m < n) rest) of None \<Rightarrow> Some x | Some y \<Rightarrow> Some y)"

text \<open>From a container down to the child that is closest on the screen.\<close>

partial_function (option) closest_view :: "'k tree \<Rightarrow> rect \<Rightarrow> 'k \<Rightarrow> 'k option option" where
  "closest_view T current child =
     do {
       nd \<leftarrow> node_at T child;
       case n_content nd of
         CView _ \<Rightarrow> Some (Some child)
       | CContainer c \<Rightarrow>
           do {
             distances \<leftarrow> those (map (\<lambda>k. do {
                 nd \<leftarrow> node_at T k;
                 (case c_layout c of
                    Vertical \<Rightarrow> i16_distance (rx current) (rx (area_of nd))
                  | Horizontal \<Rightarrow> i16_distance (ry current) (ry (area_of nd)))
               }) (c_children c));
             case first_min (zip distances (c_children c)) of
               None \<Rightarrow> Some None
             | Some k \<Rightarrow> closest_view T current k
           }
     }"

definition find_child :: "'k tree \<Rightarrow> 'k \<Rightarrow> 'k list \<Rightarrow> dir \<Rightarrow> 'k option option" where
  "find_child T k children d =
     (case drop 1 (dropWhile (\<lambda>i. i \<noteq> k) (if d = Up \<or> d = Left then rev children else children)) of
        [] \<Rightarrow> Some None
      | child # _ \<Rightarrow>
          do {
            fnd \<leftarrow> node_at T (t_focus T);
            case n_content fnd of
              CView v \<Rightarrow> closest_view T (v_area v) child
            | CContainer _ \<Rightarrow> None
          })"

partial_function (option) find_split_in_direction :: "'k tree \<Rightarrow> dir \<Rightarrow> 'k \<Rightarrow> 'k option option" where
  "find_split_in_direction T d k =
     do {
       nd \<leftarrow> node_at T k;
       if n_parent nd = k then Some None
       else do {
         c \<leftarrow> container_at T (n_parent nd);
         if (c_layout c = Vertical) = (d = Up \<or> d = Down) then find_split_in_direction T d (n_parent nd)
         else do {
           found \<leftarrow> find_child T k (c_children c) d;
           case found of
             Some target \<Rightarrow> Some (Some target)
           | None \<Rightarrow> find_split_in_direction T d (n_parent nd)
         }
       }
     }"

definition transpose :: "'k tree \<Rightarrow> 'k tree option" where
  "transpose T =
     do {
       fnd \<leftarrow> node_at T (t_focus T);
       pnd \<leftarrow> node_at T (n_parent fnd);
       case n_content pnd of
         CView _ \<Rightarrow> Some T
       | CContainer c \<Rightarrow>
           recalculate (set_node (n_parent fnd)
             (pnd\<lparr>n_content := CContainer (c\<lparr>c_layout := (case c_layout c of Vertical \<Rightarrow> Horizontal | Horizontal \<Rightarrow> Vertical)\<rparr>)\<rparr>) T)
     }"

text \<open>The result is \<open>Some None\<close> where the source returns \<open>None\<close>.\<close>

definition swap_areas :: "'k \<Rightarrow> 'k \<Rightarrow> 'k tree \<Rightarrow> 'k tree option" where
  "swap_areas k1 k2 T =
     do {
       n1 \<leftarrow> node_at T k1;
       n2 \<leftarrow> node_at T k2;
       T \<leftarrow> get_mut k1 (\<lambda>v. v\<lparr>v_area := area_of n2\<rparr>) T;
       get_mut k2 (\<lambda>v. v\<lparr>v_area := area_of n1\<rparr>) T
     }"

definition swap_split_in_direction :: "dir \<Rightarrow> 'k tree \<Rightarrow> 'k tree option option" where
  "swap_split_in_direction d T =
     do {
       let focus = t_focus T;
       found \<leftarrow> find_split_in_direction T d focus;
       case found of
         None \<Rightarrow> Some None
       | Some target \<Rightarrow>
           do {
             fnd \<leftarrow> node_at T focus;
             tnd \<leftarrow> node_at T target;
             let fparent = n_parent fnd;
             let tparent = n_parent tnd;
             if fparent = tparent \<and> (node_at T fparent = None \<or> \<not> distinct [fparent, focus, target])
               \<or> fparent \<noteq> tparent \<and> (node_at T fparent = None \<or> node_at T tparent = None
                   \<or> \<not> distinct [fparent, tparent, focus, target])
             then Some None
             else do {
               fc \<leftarrow> container_at T fparent;
               tc \<leftarrow> container_at T tparent;
               fv \<leftarrow> try_get T focus;
               tv \<leftarrow> try_get T target;
               case (position (\<lambda>k. k = v_id fv) (c_children fc), position (\<lambda>k. k = v_id tv) (c_children tc)) of
                 (Some fpos, Some tpos) \<Rightarrow>
                   if fparent = tparent
                   then do {
                     T \<leftarrow> container_mut fparent (set_children ((c_children fc)[fpos := v_id tv, tpos := v_id fv])) T;
                     T \<leftarrow> swap_areas focus target T;
                     Some (Some T)
                   }
                   else do {
                     T \<leftarrow> container_mut fparent (set_children ((c_children fc)[fpos := c_children tc ! tpos])) T;
                     T \<leftarrow> container_mut tparent (set_children ((c_children tc)[tpos := c_children fc ! fpos])) T;
                     T \<leftarrow> set_parent focus tparent T;
                     T \<leftarrow> set_parent target fparent T;
                     T \<leftarrow> swap_areas focus target T;
                     Some (Some T)
                   }
               | _ \<Rightarrow> Some None
             }
           }
     }"

end
