(* ===== verification/WindowStore.thy ===== *)
theory WindowStore
  imports WindowTree
begin

text \<open>
  The tree that a store of linked nodes represents.  \<open>rep\<close> relates the links of the store to a datatype
  of trees of windows, and \<open>rep_graft\<close> says what a change of one list of children means for the tree:
  a subtree gives way to others.  Every operation on the windows is one or two such changes.
\<close>

section \<open>Trees of windows\<close>

datatype 'k wtree = WLeaf (wkey: 'k) | WSplit (wkey: 'k) layout "'k wtree list"

fun ids :: "'k wtree \<Rightarrow> 'k list" where
  "ids (WLeaf k) = [k]"
| "ids (WSplit k l ts) = k # concat (map ids ts)"

fun leaves :: "'k wtree \<Rightarrow> 'k list" where
  "leaves (WLeaf k) = [k]"
| "leaves (WSplit k l ts) = concat (map leaves ts)"

fun subtrees :: "'k wtree \<Rightarrow> 'k wtree list" where
  "subtrees (WLeaf k) = [WLeaf k]"
| "subtrees (WSplit k l ts) = WSplit k l ts # concat (map subtrees ts)"

text \<open>Every split below the root has at least two children.\<close>

fun full :: "'k wtree \<Rightarrow> bool" where
  "full (WLeaf k) \<longleftrightarrow> True"
| "full (WSplit k l ts) \<longleftrightarrow> 2 \<le> length ts \<and> list_all full ts"

text \<open>The node \<open>f\<close>, which is not the root, gives way to the trees \<open>us\<close>.\<close>

fun graft :: "'k \<Rightarrow> 'k wtree list \<Rightarrow> 'k wtree \<Rightarrow> 'k wtree" where
  "graft f us (WLeaf k) = WLeaf k"
| "graft f us (WSplit k l ts) = WSplit k l (concat (map (\<lambda>t. if wkey t = f then us else [graft f us t]) ts))"

lemma wkey_graft [simp]: "wkey (graft f us t) = wkey t"
  by (cases t) simp_all

lemma wkey_ids: "wkey t \<in> set (ids t)"
  by (cases t) simp_all

lemma self_subtree: "t \<in> set (subtrees t)"
  by (cases t) simp_all

lemma subtree_ids: "u \<in> set (subtrees t) \<Longrightarrow> set (ids u) \<subseteq> set (ids t)"
  by (induction t) auto

lemma ids_subtree: "f \<in> set (ids t) \<Longrightarrow> \<exists>u\<in>set (subtrees t). wkey u = f"
proof (induction t)
  case (WSplit k l ts)
  show ?case
  proof (cases "f = k")
    case False
    then obtain t where "t \<in> set ts" "f \<in> set (ids t)" using WSplit.prems by auto
    then show ?thesis using WSplit.IH by fastforce
  qed simp
qed simp

lemma leaves_ids: "set (leaves t) \<subseteq> set (ids t)"
  by (induction t) auto

lemma leaf_subtree: "f \<in> set (leaves t) \<Longrightarrow> WLeaf f \<in> set (subtrees t)"
  by (induction t) auto

lemma distinct_child: "distinct (ids (WSplit k l ts)) \<Longrightarrow> t \<in> set ts \<Longrightarrow> distinct (ids t)"
  by (auto dest: distinct_concat_iff [THEN iffD1])

text \<open>The children of a split with different keys, around one of them.\<close>

lemma split_children:
  assumes "distinct (ids (WSplit k l ts))" "t0 \<in> set ts"
  obtains as bs where "ts = as @ t0 # bs" "k \<notin> set (ids t0)"
    "\<And>t. t \<in> set as \<union> set bs \<Longrightarrow> set (ids t) \<inter> set (ids t0) = {} \<and> k \<notin> set (ids t) \<and> distinct (ids t)"
proof -
  obtain as bs where ts: "ts = as @ t0 # bs" using split_list [OF assms(2)] by blast
  have "set (ids t) \<inter> set (ids t0) = {} \<and> k \<notin> set (ids t) \<and> distinct (ids t)" if "t \<in> set as \<union> set bs" for t
    using assms(1) that distinct_child [OF assms(1), of t] unfolding ts by auto
  moreover have "k \<notin> set (ids t0)" using assms(1) unfolding ts by simp
  ultimately show ?thesis using that ts by blast
qed

lemma subtree_unique:
  assumes "distinct (ids t)" "u \<in> set (subtrees t)" "v \<in> set (subtrees t)" "wkey u = wkey v"
  shows "u = v"
  using assms
proof (induction t)
  case (WSplit k l ts)
  have key: "wkey w \<noteq> k" if "w \<in> set (subtrees t)" "t \<in> set ts" for w t
    using WSplit.prems(1) that wkey_ids [of w] subtree_ids [OF that(1)] by auto
  show ?case
  proof (cases "u = WSplit k l ts \<or> v = WSplit k l ts")
    case True
    moreover have "w = WSplit k l ts" if "w \<in> set (subtrees (WSplit k l ts))" "wkey w = k" for w
      using that key by auto
    ultimately have "u = WSplit k l ts" "v = WSplit k l ts"
      using WSplit.prems(2-4) True by (metis wtree.sel(2))+
    then show ?thesis by simp
  next
    case False
    then obtain t1 t2 where t: "t1 \<in> set ts" "u \<in> set (subtrees t1)" "t2 \<in> set ts" "v \<in> set (subtrees t2)"
      using WSplit.prems(2,3) by auto
    obtain as bs where ts: "ts = as @ t1 # bs"
      "\<And>t. t \<in> set as \<union> set bs \<Longrightarrow> set (ids t) \<inter> set (ids t1) = {}"
      by (rule split_children [OF WSplit.prems(1) t(1)]) blast
    have "wkey u \<in> set (ids t1)" "wkey u \<in> set (ids t2)"
      using wkey_ids [of u] wkey_ids [of v] subtree_ids [OF t(2)] subtree_ids [OF t(4)] WSplit.prems(4) by auto
    then have "t2 = t1" using t(3) ts by fastforce
    then show ?thesis using WSplit.IH [OF t(1)] distinct_child [OF WSplit.prems(1) t(1)] t WSplit.prems(4) by simp
  qed
qed simp

lemma graft_absent: "f \<notin> set (ids t) \<Longrightarrow> graft f us t = t"
proof (induction t)
  case (WSplit k l ts)
  have "concat (map (\<lambda>t. if wkey t = f then us else [graft f us t]) ts) = concat (map (\<lambda>t. [t]) ts)"
    using WSplit wkey_ids by (intro arg_cong [where f = concat] map_cong) fastforce+
  then show ?case by simp
qed simp

text \<open>In the order of the tree, the old subtree gives way to the new ones.\<close>

lemma graft_order:
  assumes "distinct (ids t)" "u \<in> set (subtrees t)" "wkey u \<noteq> wkey t"
  shows "\<exists>xs ys xs' ys'. ids t = xs @ ids u @ ys \<and> ids (graft (wkey u) us t) = xs @ concat (map ids us) @ ys \<and>
    leaves t = xs' @ leaves u @ ys' \<and> leaves (graft (wkey u) us t) = xs' @ concat (map leaves us) @ ys'"
  using assms
proof (induction t)
  case (WSplit k l ts)
  then obtain t0 where t0: "t0 \<in> set ts" "u \<in> set (subtrees t0)" by auto
  obtain as bs where ts: "ts = as @ t0 # bs"
    "\<And>t. t \<in> set as \<union> set bs \<Longrightarrow> set (ids t) \<inter> set (ids t0) = {}"
    by (rule split_children [OF WSplit.prems(1) t0(1)]) blast
  have u: "wkey u \<in> set (ids t0)" using wkey_ids [of u] subtree_ids [OF t0(2)] by blast
  have same: "concat (map (\<lambda>t. if wkey t = wkey u then us else [graft (wkey u) us t]) cs) = cs"
    if "set cs \<subseteq> set as \<union> set bs" for cs
  proof -
    have "(if wkey t = wkey u then us else [graft (wkey u) us t]) = [t]" if "t \<in> set cs" for t
    proof -
      have "set (ids t) \<inter> set (ids t0) = {}" using ts(2) that \<open>set cs \<subseteq> _\<close> by blast
      then have "wkey u \<notin> set (ids t)" using u by blast
      then show ?thesis using wkey_ids [of t] graft_absent [of "wkey u" t us] by auto
    qed
    then have "concat (map (\<lambda>t. if wkey t = wkey u then us else [graft (wkey u) us t]) cs) = concat (map (\<lambda>t. [t]) cs)"
      by (intro arg_cong [where f = concat] map_cong) auto
    then show ?thesis by simp
  qed
  have g: "graft (wkey u) us (WSplit k l ts) =
      WSplit k l (as @ (if wkey t0 = wkey u then us else [graft (wkey u) us t0]) @ bs)"
    using same [of as] same [of bs] by (simp add: ts(1))
  show ?case
  proof (cases "wkey t0 = wkey u")
    case True
    then have "t0 = u"
      using subtree_unique [OF distinct_child [OF WSplit.prems(1) t0(1)] self_subtree t0(2)] by simp
    then show ?thesis
      unfolding g using True
      by (intro exI [of _ "k # concat (map ids as)"] exI [of _ "concat (map ids bs)"]
          exI [of _ "concat (map leaves as)"] exI [of _ "concat (map leaves bs)"]) (simp add: ts(1))
  next
    case False
    obtain xs ys xs' ys' where IH: "ids t0 = xs @ ids u @ ys" "ids (graft (wkey u) us t0) = xs @ concat (map ids us) @ ys"
      "leaves t0 = xs' @ leaves u @ ys'" "leaves (graft (wkey u) us t0) = xs' @ concat (map leaves us) @ ys'"
      using WSplit.IH [OF t0(1) distinct_child [OF WSplit.prems(1) t0(1)] t0(2)] False by auto
    show ?thesis
      unfolding g using False IH
      by (intro exI [of _ "k # concat (map ids as) @ xs"] exI [of _ "ys @ concat (map ids bs)"]
          exI [of _ "concat (map leaves as) @ xs'"] exI [of _ "ys' @ concat (map leaves bs)"]) (simp add: ts(1))
  qed
qed simp

lemma graft_full:
  assumes "full t" "list_all full us" "us \<noteq> []"
  shows "full (graft f us t)"
  using assms(1)
proof (induction t)
  case (WSplit k l ts)
  have "length ts \<le> length (concat (map (\<lambda>t. if wkey t = f then us else [graft f us t]) ts))"
  proof (induction ts)
    case (Cons t ts)
    moreover have "1 \<le> length (if wkey t = f then us else [graft f us t])" using assms(3) by (cases us) auto
    ultimately show ?case by simp
  qed simp
  then show ?case using WSplit assms(2) by (auto simp: list_all_iff)
qed simp
section \<open>The store represents a tree\<close>

text \<open>What the links of a node say, without areas, weights and documents.\<close>

type_synonym 'k skeleton = "'k \<rightharpoonup> 'k \<times> ('k + layout \<times> 'k list)"

definition strip :: "'k node \<Rightarrow> 'k \<times> ('k + layout \<times> 'k list)" where
  "strip nd = (n_parent nd,
     case n_content nd of CView v \<Rightarrow> Inl (v_id v) | CContainer c \<Rightarrow> Inr (c_layout c, c_children c))"

definition skel :: "'k tree \<Rightarrow> 'k skeleton" where
  "skel T k = map_option strip (node_at T k)"

fun rep :: "'k skeleton \<Rightarrow> 'k \<Rightarrow> 'k wtree \<Rightarrow> bool" where
  "rep s p (WLeaf k) \<longleftrightarrow> s k = Some (p, Inl k)"
| "rep s p (WSplit k l ts) \<longleftrightarrow> s k = Some (p, Inr (l, map wkey ts)) \<and> list_all (rep s k) ts"

lemma rep_cong: "(\<And>k. k \<in> set (ids t) \<Longrightarrow> s k = s' k) \<Longrightarrow> rep s p t = rep s' p t"
proof (induction t arbitrary: p)
  case (WSplit k l ts)
  have "rep s k t = rep s' k t" if "t \<in> set ts" for t using WSplit.IH [OF that] WSplit.prems that by auto
  then show ?case using WSplit.prems [of k] by (auto simp: list_all_iff)
qed simp

lemma rep_parent: "rep s p t \<Longrightarrow> \<exists>x. s (wkey t) = Some (p, x)"
  by (cases t) auto

lemma rep_dom: "rep s p t \<Longrightarrow> set (ids t) \<subseteq> dom s"
proof (induction t arbitrary: p)
  case (WSplit k l ts)
  then show ?case by (fastforce simp: list_all_iff)
qed auto

lemma rep_subtree: "rep s p t \<Longrightarrow> u \<in> set (subtrees t) \<Longrightarrow> \<exists>q. rep s q u"
proof (induction t arbitrary: p)
  case (WSplit k l ts)
  then show ?case by (fastforce simp: list_all_iff)
qed auto

lemma rep_leaf: "rep s p t \<Longrightarrow> f \<in> set (leaves t) \<Longrightarrow> \<exists>q. s f = Some (q, Inl f)"
  using rep_subtree [OF _ leaf_subtree, of s p t f] by auto

text \<open>The tree that a store represents from a key on is unique.\<close>

lemma rep_unique: "rep s p t \<Longrightarrow> rep s p u \<Longrightarrow> wkey t = wkey u \<Longrightarrow> t = u"
proof (induction t arbitrary: p u)
  case (WLeaf k)
  then show ?case by (cases u) auto
next
  case (WSplit k l ts)
  then obtain us where u: "u = WSplit k l us" "map wkey us = map wkey ts" "list_all (rep s k) us"
    by (cases u) auto
  have "ts = us"
  proof (rule nth_equalityI)
    show len: "length ts = length us" using u(2) map_eq_imp_length_eq by metis
    fix i
    assume i: "i < length ts"
    then have "rep s k (ts ! i)" "rep s k (us ! i)" "wkey (ts ! i) = wkey (us ! i)"
      using WSplit.prems(1) u(2,3) len by (auto simp: list_all_length dest: arg_cong [where f = "\<lambda>xs. xs ! i"])
    then show "ts ! i = us ! i" using WSplit.IH i by simp
  qed
  then show ?case using u(1) by simp
qed

lemma distinct_wkeys: "distinct (concat (map ids ts)) \<Longrightarrow> distinct (map wkey ts)"
proof (induction ts)
  case (Cons t ts)
  have "wkey t \<notin> wkey ` set ts"
  proof
    assume "wkey t \<in> wkey ` set ts"
    then obtain t' where "t' \<in> set ts" "wkey t = wkey t'" by auto
    then have "wkey t \<in> set (concat (map ids ts))" using wkey_ids [of t'] by auto
    then show False using Cons.prems wkey_ids [of t] by auto
  qed
  then show ?case using Cons by simp
qed simp

text \<open>
  The node a non-root subtree hangs on, and what a change there does: the store that lists other
  children in place of the subtree represents the grafted tree.
\<close>

lemma rep_hook:
  assumes "rep s p t" "distinct (ids t)" "u \<in> set (subtrees t)" "wkey u \<noteq> wkey t"
  shows "\<exists>q pq l chs x. s (wkey u) = Some (q, x) \<and> s q = Some (pq, Inr (l, chs)) \<and> wkey u \<in> set chs \<and> distinct chs \<and>
    q \<in> set (ids t) \<and> q \<notin> set (ids u) \<and> rep s q u \<and> (q = wkey t \<or> pq \<in> set (ids t))"
  using assms
proof (induction t arbitrary: p)
  case (WSplit k l ts)
  then obtain t0 where t0: "t0 \<in> set ts" "u \<in> set (subtrees t0)" by auto
  have r0: "rep s k t0" and sk: "s k = Some (p, Inr (l, map wkey ts))"
    using WSplit.prems(1) t0(1) by (auto simp: list_all_iff)
  obtain as bs where k0: "k \<notin> set (ids t0)" by (rule split_children [OF WSplit.prems(2) t0(1)])
  show ?case
  proof (cases "wkey t0 = wkey u")
    case True
    have "distinct (map wkey ts)" using WSplit.prems(2) by (intro distinct_wkeys) simp
    moreover have "t0 = u"
      using subtree_unique [OF distinct_child [OF WSplit.prems(2) t0(1)] self_subtree t0(2)] True by simp
    ultimately show ?thesis
      using rep_parent [OF r0] r0 sk t0(1) k0
      by (intro exI [of _ k] exI [of _ p] exI [of _ l] exI [of _ "map wkey ts"]) auto
  next
    case False
    obtain q pq l' chs x where "s (wkey u) = Some (q, x)" "s q = Some (pq, Inr (l', chs))" "wkey u \<in> set chs" "distinct chs"
      "q \<in> set (ids t0)" "q \<notin> set (ids u)" "rep s q u" "q = wkey t0 \<or> pq \<in> set (ids t0)"
      using WSplit.IH [OF t0(1) r0 distinct_child [OF WSplit.prems(2) t0(1)] t0(2)] False by auto
    moreover have "q = wkey t0 \<Longrightarrow> pq = k" using rep_parent [OF r0] calculation(2) by auto
    ultimately show ?thesis
      using t0(1) by (intro exI [of _ q] exI [of _ pq] exI [of _ l'] exI [of _ chs] exI [of _ x]) auto
  qed
qed simp

lemma rep_graft:
  assumes "rep s p t" "distinct (ids t)" "u \<in> set (subtrees t)" "wkey u \<noteq> wkey t"
    and "s (wkey u) = Some (q, x)" "s q = Some (pq, Inr (l, chs))"
    and "s' q = Some (pq, Inr (l, concat (map (\<lambda>k. if k = wkey u then map wkey us else [k]) chs)))"
    and "\<And>k. k \<in> set (ids t) \<Longrightarrow> k \<notin> set (ids u) \<Longrightarrow> k \<noteq> q \<Longrightarrow> s' k = s k"
    and "\<And>v. v \<in> set us \<Longrightarrow> rep s' q v"
  shows "rep s' p (graft (wkey u) us t)"
  using assms(1-4,8)
proof (induction t arbitrary: p)
  case (WSplit k m ts)
  then obtain t0 where t0: "t0 \<in> set ts" "u \<in> set (subtrees t0)" by auto
  have r0: "rep s k t0" and sk: "s k = Some (p, Inr (m, map wkey ts))"
    using WSplit.prems(1) t0(1) by (auto simp: list_all_iff)
  obtain as bs where ts: "ts = as @ t0 # bs" "k \<notin> set (ids t0)"
    "\<And>t. t \<in> set as \<union> set bs \<Longrightarrow> set (ids t) \<inter> set (ids t0) = {} \<and> k \<notin> set (ids t)"
    by (rule split_children [OF WSplit.prems(2) t0(1)]) blast
  have u0: "wkey u \<in> set (ids t0)" "set (ids u) \<subseteq> set (ids t0)"
    using wkey_ids [of u] subtree_ids [OF t0(2)] by blast+
  have q: "if wkey t0 = wkey u then q = k else q \<in> set (ids t0)"
  proof (cases "wkey t0 = wkey u")
    case True
    then show ?thesis using rep_parent [OF r0] assms(5) by simp
  next
    case False
    then show ?thesis
      using rep_hook [OF r0 distinct_child [OF WSplit.prems(2) t0(1)] t0(2)] assms(5) by auto
  qed
  have other: "rep s' k t \<and> graft (wkey u) us t = t \<and> wkey t \<noteq> wkey u" if t: "t \<in> set as \<union> set bs" for t
  proof -
    have d: "set (ids t) \<inter> set (ids t0) = {}" "k \<notin> set (ids t)" using ts(3) [OF t] by auto
    have "rep s' k t = rep s k t"
    proof (rule rep_cong)
      fix i
      assume "i \<in> set (ids t)"
      then show "s' i = s i"
        using WSplit.prems(5) [of i] d u0 q t ts(1) by (auto split: if_splits)
    qed
    moreover have "rep s k t" using WSplit.prems(1) t ts(1) by (auto simp: list_all_iff)
    moreover have "wkey u \<notin> set (ids t)" using d u0(1) by auto
    ultimately show ?thesis using graft_absent [of "wkey u" t us] wkey_ids [of t] by auto
  qed
  have same: "concat (map (\<lambda>t. if wkey t = wkey u then us else [graft (wkey u) us t]) cs) = cs"
    "concat (map (\<lambda>k. if k = wkey u then map wkey us else [k]) (map wkey cs)) = map wkey cs"
    if "set cs \<subseteq> set as \<union> set bs" for cs
    using that other by (induction cs) auto
  have g: "graft (wkey u) us (WSplit k m ts) =
      WSplit k m (as @ (if wkey t0 = wkey u then us else [graft (wkey u) us t0]) @ bs)"
    using same [of as] same [of bs] by (simp add: ts(1))
  have rest: "list_all (rep s' k) as" "list_all (rep s' k) bs" using other by (auto simp: list_all_iff)
  show ?case
  proof (cases "wkey t0 = wkey u")
    case True
    then have "q = k" using q by simp
    moreover have "s' k = Some (p, Inr (m, map wkey (as @ us @ bs)))"
    proof -
      have "pq = p" "l = m" "chs = map wkey as @ wkey u # map wkey bs"
        using assms(6) sk True unfolding \<open>q = k\<close> ts(1) by auto
      then show ?thesis
        using assms(7) same(2) [of as] same(2) [of bs] unfolding \<open>q = k\<close> by simp
    qed
    ultimately show ?thesis using True rest assms(9) unfolding g by (auto simp: list_all_iff)
  next
    case False
    have "rep s' k (graft (wkey u) us t0)"
      using WSplit.IH [OF t0(1) r0 distinct_child [OF WSplit.prems(2) t0(1)] t0(2)] False WSplit.prems(5) t0(1) by auto
    moreover have "s' k = s k" using WSplit.prems(5) [of k] u0(2) ts(2) q False by auto
    ultimately show ?thesis using False rest sk arg_cong [OF ts(1), of "map wkey"] unfolding g by simp
  qed
qed simp

end
