(* ===== verification/WindowLayout.thy ===== *)
theory WindowLayout
  imports WindowStore
begin

text \<open>
  The layout of the window tree: \<open>split_sizes\<close> on windows that are not pinned hands out exactly the
  cells there are, whatever the rounding of the weights, so that the areas of the children are
  disjoint parts of the area of the split; \<open>recalculate\<close> ends and gives every node of the tree its
  area.  A split of more than 128 windows is left out: with thousands of them the rounding errors of
  the weights could add up to a cell.
\<close>

section \<open>The sum of rounded shares\<close>

abbreviation unit_roundoff :: rat where
  "unit_roundoff \<equiv> 1 / 2 ^ 24"

abbreviation tiny :: rat where
  "tiny \<equiv> 1 / 2 ^ 150"

lemma f32_round_bounds:
  assumes "0 \<le> x"
  shows "x * (1 - unit_roundoff) - tiny \<le> f32_round x \<and> f32_round x \<le> x * (1 + unit_roundoff) + tiny"
  using f32_round_error [OF assms] unfolding right_diff_distrib distrib_left abs_le_iff by auto

lemma f32_sum_lower:
  assumes "\<forall>w\<in>set ws. 0 \<le> w" "0 \<le> a"
  shows "(a + sum_list ws) * (1 - unit_roundoff) ^ length ws - of_nat (length ws) * tiny \<le> foldl f32_add a ws"
  using assms
proof (induction ws arbitrary: a)
  case (Cons w ws)
  define p where "p = (1 - unit_roundoff) ^ length ws"
  have p: "0 \<le> p" "p \<le> 1" by (simp_all add: p_def power_le_one)
  have a': "0 \<le> f32_add a w" "(a + w) * (1 - unit_roundoff) - tiny \<le> f32_add a w"
    using Cons.prems f32_round_bounds [of "a + w"] f32_round_nonneg [of "a + w"] by (simp_all add: f32_add_def)
  have "((a + w) * (1 - unit_roundoff) - tiny + sum_list ws * (1 - unit_roundoff)) * p \<le> (f32_add a w + sum_list ws) * p"
  proof (rule mult_right_mono [OF _ p(1)])
    have "0 \<le> sum_list ws" using Cons.prems(1) by (intro sum_list_nonneg) auto
    then show "(a + w) * (1 - unit_roundoff) - tiny + sum_list ws * (1 - unit_roundoff) \<le> f32_add a w + sum_list ws"
      using a'(2) by simp
  qed
  moreover have "((a + w) * (1 - unit_roundoff) - tiny + sum_list ws * (1 - unit_roundoff)) * p =
      (a + (w + sum_list ws)) * ((1 - unit_roundoff) * p) - tiny * p"
    by (simp add: algebra_simps)
  moreover have "tiny * p \<le> tiny" using p(2) by simp
  moreover have "(f32_add a w + sum_list ws) * p - of_nat (length ws) * tiny \<le> foldl f32_add (f32_add a w) ws"
    using Cons.IH [OF _ a'(1)] Cons.prems(1) by (simp add: p_def)
  moreover have "(a + sum_list (w # ws)) * (1 - unit_roundoff) ^ length (w # ws) - of_nat (length (w # ws)) * tiny =
      (a + (w + sum_list ws)) * ((1 - unit_roundoff) * p) - (of_nat (length ws) * tiny + tiny)"
    unfolding p_def by (simp only: length_Cons sum_list.Cons power_Suc of_nat_Suc distrib_right mult_1_left add.commute)
  moreover have "foldl f32_add a (w # ws) = foldl f32_add (f32_add a w) ws" by simp
  ultimately show ?case by linarith
qed simp

lemma bernoulli: "0 \<le> u \<Longrightarrow> u \<le> 1 \<Longrightarrow> 1 - of_nat n * u \<le> (1 - u) ^ n" for u :: rat
proof (induction n)
  case (Suc n)
  have "(1 - of_nat n * u) * (1 - u) \<le> (1 - u) ^ n * (1 - u)"
    using Suc by (intro mult_right_mono) simp_all
  moreover have "1 - of_nat (Suc n) * u \<le> (1 - of_nat n * u) * (1 - u)"
    using Suc.prems by (simp add: algebra_simps)
  ultimately show ?case by (simp add: mult.commute)
qed simp

lemma f32_sum_bound:
  assumes "\<forall>w\<in>set ws. 0 \<le> w" "length ws \<le> 128"
  shows "sum_list ws * (1 - 1 / 2 ^ 17) \<le> f32_sum ws + 1 / 2 ^ 143"
proof -
  have n: "of_nat (length ws) \<le> (128 :: rat)" using assms(2) of_nat_le_iff [of "length ws" 128] by simp
  have "1 - of_nat (length ws) * unit_roundoff \<le> (1 - unit_roundoff) ^ length ws" by (rule bernoulli) simp_all
  then have "1 - 1 / 2 ^ 17 \<le> (1 - unit_roundoff) ^ length ws" using n by simp
  moreover have "0 \<le> sum_list ws" using assms(1) by (intro sum_list_nonneg) auto
  ultimately have "sum_list ws * (1 - 1 / 2 ^ 17) \<le> sum_list ws * (1 - unit_roundoff) ^ length ws"
    by (rule mult_left_mono)
  moreover have "of_nat (length ws) * tiny \<le> 1 / 2 ^ 143" using n by simp
  ultimately show ?thesis
    using f32_sum_lower [OF assms(1), of 0] by (simp add: f32_sum_def)
qed

lemma f32_sum_nonneg: "\<forall>w\<in>set ws. 0 \<le> w \<Longrightarrow> 0 \<le> f32_sum ws"
proof -
  have "\<forall>w\<in>set ws. 0 \<le> w \<Longrightarrow> 0 \<le> a \<Longrightarrow> 0 \<le> foldl f32_add a ws" for a
  proof (induction ws arbitrary: a)
    case (Cons w ws)
    then show ?case using f32_round_nonneg [of "a + w"] by (simp add: f32_add_def)
  qed simp
  then show "\<forall>w\<in>set ws. 0 \<le> w \<Longrightarrow> 0 \<le> f32_sum ws" by (simp add: f32_sum_def)
qed

text \<open>One share, and all of them: less than one cell too many.\<close>

lemma scaled_le:
  assumes "0 \<le> w" "0 < weight" "cells < 2 ^ 16"
  shows "of_nat (scaled cells w weight) \<le> of_nat cells * (w / weight) * (1 + 1 / 2 ^ 22) + 1 / 2 ^ 130"
proof -
  define c q where "c = rat_of_nat cells" and "q = w / weight"
  have c: "0 \<le> c" "c \<le> 2 ^ 16" and q: "0 \<le> q"
    using assms of_nat_less_iff [of cells "2 ^ 16", where 'a = rat] by (simp_all add: c_def q_def)
  have d: "0 \<le> f32_div w weight" "f32_div w weight \<le> q * (1 + unit_roundoff) + tiny"
    using f32_round_bounds [OF q] f32_round_nonneg [OF q] by (simp_all add: f32_div_def q_def)
  have "f32_of_int (int cells) = c" using assms(3) by (simp add: c_def)
  then have m: "f32_mul (f32_of_int (int cells)) (f32_div w weight) \<le> c * f32_div w weight * (1 + unit_roundoff) + tiny"
      "0 \<le> f32_mul (f32_of_int (int cells)) (f32_div w weight)"
    using f32_round_bounds [of "c * f32_div w weight"] f32_round_nonneg [of "c * f32_div w weight"] c(1) d(1)
    by (simp_all add: f32_mul_def)
  have "c * f32_div w weight \<le> c * (q * (1 + unit_roundoff) + tiny)" using d(2) c(1) by (rule mult_left_mono)
  then have "c * f32_div w weight * (1 + unit_roundoff) \<le> c * (q * (1 + unit_roundoff) + tiny) * (1 + unit_roundoff)"
    by (rule mult_right_mono) simp
  also have "\<dots> = c * q * ((1 + unit_roundoff) * (1 + unit_roundoff)) + c * (tiny * (1 + unit_roundoff))"
    by (simp only: distrib_left distrib_right mult.assoc)
  also have "\<dots> \<le> c * q * (1 + 1 / 2 ^ 22) + 2 ^ 16 * (tiny * (1 + unit_roundoff))"
    using c q by (intro add_mono mult_mono) simp_all
  finally have "f32_mul (f32_of_int (int cells)) (f32_div w weight) \<le> c * q * (1 + 1 / 2 ^ 22) + 1 / 2 ^ 130"
    using m(1) by simp
  moreover have "of_nat (scaled cells w weight) \<le> f32_mul (f32_of_int (int cells)) (f32_div w weight)"
  proof -
    have "rat_of_nat (scaled cells w weight) \<le> rat_of_nat (nat \<lfloor>f32_mul (f32_of_int (int cells)) (f32_div w weight)\<rfloor>)"
      unfolding scaled_def f32_as_u16_def of_nat_le_iff by simp
    also have "\<dots> \<le> f32_mul (f32_of_int (int cells)) (f32_div w weight)"
      using m(2) by (simp add: of_nat_nat)
    finally show ?thesis .
  qed
  ultimately show ?thesis by (simp add: c_def q_def)
qed

lemma shares_fit:
  assumes "\<forall>w\<in>set ws. 0 \<le> w" "length ws \<le> 128" "cells < 2 ^ 16" "f32_epsilon < weight"
    and "sum_list ws * (1 - 1 / 2 ^ 17) \<le> weight + 1 / 2 ^ 143"
  shows "sum_list (map (\<lambda>w. scaled cells w weight) ws) \<le> cells"
proof -
  have pos: "0 < weight" using assms(4) by (rule less_trans [rotated]) (simp add: f32_epsilon_def)
  define c where "c = rat_of_nat cells"
  have c: "0 \<le> c" "c < 2 ^ 16"
    using assms(3) of_nat_less_iff [of cells "2 ^ 16", where 'a = rat] by (simp_all add: c_def)
  have n: "of_nat (length ws) \<le> (128 :: rat)" using assms(2) of_nat_le_iff [of "length ws" 128] by simp
  have "of_nat (sum_list (map (\<lambda>w. scaled cells w weight) ws)) \<le>
      c * (sum_list ws / weight) * (1 + 1 / 2 ^ 22) + of_nat (length ws) * (1 / 2 ^ 130)"
    using assms(1)
  proof (induction ws)
    case (Cons w ws)
    then have "of_nat (scaled cells w weight) \<le> c * (w / weight) * (1 + 1 / 2 ^ 22) + 1 / 2 ^ 130"
      using scaled_le [OF _ pos assms(3), of w] by (simp add: c_def)
    moreover have "c * (sum_list (w # ws) / weight) * (1 + 1 / 2 ^ 22) =
        c * (w / weight) * (1 + 1 / 2 ^ 22) + c * (sum_list ws / weight) * (1 + 1 / 2 ^ 22)"
      by (simp add: add_divide_distrib distrib_left distrib_right)
    moreover have "of_nat (length (w # ws)) * (1 / 2 ^ 130 :: rat) = of_nat (length ws) * (1 / 2 ^ 130) + 1 / 2 ^ 130"
      by (simp only: length_Cons of_nat_Suc distrib_right mult_1_left add.commute)
    moreover have "rat_of_nat (sum_list (map (\<lambda>w. scaled cells w weight) (w # ws))) =
        rat_of_nat (scaled cells w weight) + rat_of_nat (sum_list (map (\<lambda>w. scaled cells w weight) ws))"
      by simp
    ultimately show ?case using Cons by (simp only: list.set insert_iff) fastforce
  qed simp
  moreover have "sum_list ws / weight \<le> 1 + 3 / 2 ^ 18"
  proof -
    have "1 / 2 ^ 143 \<le> weight * (1 / 2 ^ 120)" using assms(4) by (simp add: f32_epsilon_def)
    then have "sum_list ws * (1 - 1 / 2 ^ 17) \<le> weight * (1 + 1 / 2 ^ 120)"
      using assms(5) by (simp add: distrib_left)
    also have "\<dots> \<le> weight * ((1 + 3 / 2 ^ 18) * (1 - 1 / 2 ^ 17))"
      using pos by (intro mult_left_mono) simp_all
    finally have "sum_list ws * (1 - 1 / 2 ^ 17) \<le> (weight * (1 + 3 / 2 ^ 18)) * (1 - 1 / 2 ^ 17)" by (simp only: mult.assoc)
    then have "sum_list ws \<le> weight * (1 + 3 / 2 ^ 18)" by (rule mult_right_le_imp_le) simp
    then show ?thesis using pos by (simp add: pos_divide_le_eq mult.commute)
  qed
  then have "c * (sum_list ws / weight) * (1 + 1 / 2 ^ 22) \<le> c * (1 + 3 / 2 ^ 18) * (1 + 1 / 2 ^ 22)"
    using c(1) by (intro mult_right_mono mult_left_mono) simp_all
  moreover have "c * (1 + 3 / 2 ^ 18) * (1 + 1 / 2 ^ 22) = c + c * (3 / 2 ^ 18 + (1 + 3 / 2 ^ 18) / 2 ^ 22)"
    by (simp add: algebra_simps)
  moreover have "c * (3 / 2 ^ 18 + (1 + 3 / 2 ^ 18) / 2 ^ 22) \<le> 2 ^ 16 * (3 / 2 ^ 18 + (1 + 3 / 2 ^ 18) / 2 ^ 22)"
    using c(2) by (intro mult_right_mono) simp_all
  moreover have "(2 ^ 16 * (3 / 2 ^ 18 + (1 + 3 / 2 ^ 18) / 2 ^ 22) + 128 * (1 / 2 ^ 130) :: rat) < 1"
    by simp
  moreover have "of_nat (length ws) * (1 / 2 ^ 130) \<le> (128 * (1 / 2 ^ 130) :: rat)" using n by simp
  ultimately have "rat_of_nat (sum_list (map (\<lambda>w. scaled cells w weight) ws)) < c + 1" by linarith
  then have "rat_of_nat (sum_list (map (\<lambda>w. scaled cells w weight) ws)) < rat_of_nat (cells + 1)" by (simp add: c_def)
  then show ?thesis by (simp only: of_nat_less_iff)
qed

section \<open>Splitting a number of cells\<close>

text \<open>Windows that are not pinned get all the cells, to the last one.\<close>

lemma flex_sizes_all:
  assumes "ws \<noteq> []" "used + sum_list (map (\<lambda>w. scaled room w fw) (butlast ws)) \<le> room" "room < 2 ^ 16"
  shows "length (flex_sizes room fw used (map (\<lambda>w. (w, None)) ws)) = length ws \<and>
    used + sum_list (flex_sizes room fw used (map (\<lambda>w. (w, None)) ws)) = room"
  using assms(1,2)
proof (induction ws arbitrary: used)
  case (Cons w ws)
  show ?case
  proof (cases "ws = []")
    case True
    then show ?thesis using Cons.prems by simp
  next
    case False
    then obtain w' ws' where ws: "ws = w' # ws'" by (cases ws) auto
    have "u16_sat_add used (scaled room w fw) = used + scaled room w fw"
      using Cons.prems(2) False assms(3) by (simp add: u16_sat_add_def)
    then show ?thesis using Cons.IH [OF False, of "used + scaled room w fw"] Cons.prems(2) False
      by (auto simp: ws Let_def)
  qed
qed simp

lemma u16_sum_none: "u16_sum (List.map_filter id (replicate n None)) = Some 0"
  by (induction n) (simp_all add: u16_sum_def map_filter_def)

lemma zip_none: "zip ws (replicate (length ws) None) = map (\<lambda>w. (w, None)) ws"
  by (induction ws) simp_all

lemma f32_mul_zero [simp]: "f32_mul 0 x = 0"
  by (simp add: f32_mul_def f32_round_def)

lemma sum_butlast_le: "sum_list (map f (butlast xs)) \<le> (sum_list (map f xs) :: nat)"
  by (cases xs rule: rev_cases) simp_all

lemma split_sizes_all:
  assumes "\<forall>w\<in>set ws. 0 \<le> w" "ws \<noteq> []" "length ws \<le> 128" "cells < 2 ^ 16"
  shows "\<exists>sizes. split_sizes cells ws weight (replicate (length ws) None) = Some sizes \<and>
    length sizes = length ws \<and> sum_list sizes = cells"
proof (cases "cells = 0")
  case True
  have "scaled 0 w weight = 0" for w by (simp add: scaled_def f32_as_u16_def)
  then have "sum_list (map (\<lambda>w. scaled 0 w weight) ws) = 0" by (induction ws) simp_all
  then show ?thesis
    using True by (simp add: split_sizes_def u16_sum_none)
next
  case False
  define fw where "fw = (if f32_epsilon < f32_sum ws then f32_sum ws else f32_of_int (int (length ws)))"
  have n: "of_nat (length ws) \<le> (128 :: rat)" "1 \<le> rat_of_nat (length ws)"
    using assms(2,3) of_nat_le_iff [of "length ws" 128] of_nat_le_iff [of 1 "length ws", where 'a = rat]
    by (cases ws; simp)+
  have fw: "f32_epsilon < fw" "sum_list ws * (1 - 1 / 2 ^ 17) \<le> fw + 1 / 2 ^ 143"
  proof -
    have i: "f32_of_int (int (length ws)) = of_nat (length ws)" using assms(3) by simp
    have "f32_epsilon < 1" by (simp add: f32_epsilon_def)
    then show "f32_epsilon < fw" using n(2) unfolding fw_def i by (auto simp: less_le_trans)
    have "sum_list ws * (1 - 1 / 2 ^ 17) \<le> f32_sum ws + 1 / 2 ^ 143" by (rule f32_sum_bound [OF assms(1,3)])
    moreover have "f32_sum ws \<le> fw" using n(2) \<open>f32_epsilon < 1\<close> unfolding fw_def i by auto
    ultimately show "sum_list ws * (1 - 1 / 2 ^ 17) \<le> fw + 1 / 2 ^ 143" by linarith
  qed
  have "sum_list (map (\<lambda>w. scaled cells w fw) (butlast ws)) \<le> cells"
    using shares_fit [OF assms(1,3,4) fw] sum_butlast_le [of "\<lambda>w. scaled cells w fw" ws] by linarith
  then have "length (flex_sizes cells fw 0 (map (\<lambda>w. (w, None)) ws)) = length ws \<and>
      0 + sum_list (flex_sizes cells fw 0 (map (\<lambda>w. (w, None)) ws)) = cells"
    using flex_sizes_all [OF assms(2), of 0 cells fw] assms(4) by simp
  moreover have "split_sizes cells ws weight (replicate (length ws) None) = Some (flex_sizes cells fw 0 (map (\<lambda>w. (w, None)) ws))"
  proof -
    have "[w. (w, None) \<leftarrow> map (\<lambda>w. (w, None :: nat option)) ws] = ws" for ws :: "f32 list"
      by (induction ws) simp_all
    then show ?thesis
      using False assms(2) by (simp add: split_sizes_def u16_sum_none zip_none fw_def Let_def del: map_map)
  qed
  ultimately show ?thesis by simp
qed

section \<open>The areas of the children\<close>

definition fits :: "rect \<Rightarrow> bool" where
  "fits a \<longleftrightarrow> rx a + rwidth a < 2 ^ 16 \<and> ry a + rheight a < 2 ^ 16"

definition cells_of :: "rect \<Rightarrow> (nat \<times> nat) set" where
  "cells_of a = {rx a..<rx a + rwidth a} \<times> {ry a..<ry a + rheight a}"

definition disjoint_areas :: "rect list \<Rightarrow> bool" where
  "disjoint_areas as \<longleftrightarrow> (\<forall>i j. i < j \<longrightarrow> j < length as \<longrightarrow> cells_of (as ! i) \<inter> cells_of (as ! j) = {})"

lemma disjoint_areas_Cons:
  "disjoint_areas (a # as) \<longleftrightarrow> (\<forall>b\<in>set as. cells_of a \<inter> cells_of b = {}) \<and> disjoint_areas as"
proof
  assume d: "disjoint_areas (a # as)"
  have "cells_of a \<inter> cells_of b = {}" if b: "b \<in> set as" for b
  proof -
    obtain j where "j < length as" "as ! j = b" using b unfolding in_set_conv_nth by blast
    have "cells_of ((a # as) ! 0) \<inter> cells_of ((a # as) ! Suc j) = {}"
      by (rule d [unfolded disjoint_areas_def, rule_format]) (use \<open>j < length as\<close> in simp_all)
    then show ?thesis by (simp only: nth_Cons_0 nth_Cons_Suc \<open>as ! j = b\<close>)
  qed
  moreover have "disjoint_areas as"
    unfolding disjoint_areas_def
  proof (intro allI impI)
    fix i j
    assume "i < j" "j < length as"
    then have "cells_of ((a # as) ! Suc i) \<inter> cells_of ((a # as) ! Suc j) = {}"
      by (intro d [unfolded disjoint_areas_def, rule_format]) simp_all
    then show "cells_of (as ! i) \<inter> cells_of (as ! j) = {}" by (simp only: nth_Cons_Suc)
  qed
  ultimately show "(\<forall>b\<in>set as. cells_of a \<inter> cells_of b = {}) \<and> disjoint_areas as" by blast
next
  assume d: "(\<forall>b\<in>set as. cells_of a \<inter> cells_of b = {}) \<and> disjoint_areas as"
  show "disjoint_areas (a # as)"
    unfolding disjoint_areas_def
  proof (intro allI impI)
    fix i j :: nat
    assume "i < j" "j < length (a # as)"
    then show "cells_of ((a # as) ! i) \<inter> cells_of ((a # as) ! j) = {}"
      using d by (cases i; cases j) (auto simp: disjoint_areas_def)
  qed
qed

lemma disjoint_areas_Nil [simp]: "disjoint_areas []"
  by (simp add: disjoint_areas_def)

lemma lay_rows_tile:
  assumes "fits area" "ry area \<le> y" "y + sum_list sizes = ry area + rheight area"
  shows "\<exists>rs. lay_rows area False y sizes = Some rs \<and> length rs = length sizes \<and>
    (\<forall>r\<in>set rs. rx r = rx area \<and> rwidth r = rwidth area \<and> y \<le> ry r \<and> ry r + rheight r \<le> ry area + rheight area) \<and>
    disjoint_areas rs"
  using assms(2,3)
proof (induction sizes arbitrary: y)
  case (Cons sz sizes)
  have bottom: "u16_add (ry area) (rheight area) = Some (ry area + rheight area)"
    using assms(1) by (simp add: u16_add_def fits_def)
  have sat: "u16_sat_add y sz = y + sz"
    using assms(1) Cons.prems(2) by (simp add: u16_sat_add_def fits_def)
  have height: "(if sizes = [] \<and> \<not> False then do { bottom \<leftarrow> u16_add (ry area) (rheight area); Some (bottom - y) } else Some sz) = Some sz"
    using Cons.prems(2) bottom by auto
  obtain rs where rs: "lay_rows area False (y + sz) sizes = Some rs" "length rs = length sizes"
    "\<forall>r\<in>set rs. rx r = rx area \<and> rwidth r = rwidth area \<and> y + sz \<le> ry r \<and> ry r + rheight r \<le> ry area + rheight area"
    "disjoint_areas rs"
    using Cons.IH [of "y + sz"] Cons.prems by auto
  have "lay_rows area False y (sz # sizes) = Some (rect_new (rx area) y (rwidth area) sz # rs)"
    unfolding lay_rows.simps height by (simp add: sat rs(1))
  moreover have "\<forall>r\<in>set rs. cells_of (rect_new (rx area) y (rwidth area) sz) \<inter> cells_of r = {}"
  proof
    fix r
    assume "r \<in> set rs"
    then have "y + sz \<le> ry r" using rs(3) by simp
    then show "cells_of (rect_new (rx area) y (rwidth area) sz) \<inter> cells_of r = {}"
      by (auto simp: cells_of_def rect_new_def)
  qed
  ultimately show ?case
    using rs(2-4) Cons.prems by (fastforce simp: disjoint_areas_Cons rect_new_def)
qed simp

text \<open>
  Columns have gaps between them, and one cell more of gaps than the code counts: the last column
  pays for it, or columns of width 0 lie outside.
\<close>

lemma lay_columns_tile:
  assumes "fits area" "rx area \<le> x" "x < 2 ^ 16"
    and "sum_list sizes = 0 \<or> x + sum_list sizes + length sizes \<le> rx area + rwidth area + 2"
  shows "\<exists>rs. lay_columns area False x sizes = Some rs \<and> length rs = length sizes \<and>
    (\<forall>r\<in>set rs. ry r = ry area \<and> rheight r = rheight area \<and> x \<le> rx r \<and> rx r < 2 ^ 16 \<and>
      (rwidth r = 0 \<or> rx r + rwidth r \<le> rx area + rwidth area)) \<and>
    disjoint_areas rs"
  using assms(2-4)
proof (induction sizes arbitrary: x)
  case (Cons sz sizes)
  have right: "u16_add (rx area) (rwidth area) = Some (rx area + rwidth area)"
    using assms(1) by (simp add: u16_add_def fits_def)
  define w where "w = (if sizes = [] then rx area + rwidth area - x else sz)"
  have width: "(if sizes = [] \<and> \<not> False then do { right \<leftarrow> u16_add (rx area) (rwidth area); Some (right - x) } else Some sz) = Some w"
    using right by (simp add: w_def)
  have w: "w = 0 \<or> x + w \<le> rx area + rwidth area"
    using Cons.prems(3) by (cases sizes) (auto simp: w_def)
  then have xw: "x + w < 2 ^ 16" "u16_sat_add x w = x + w"
    using Cons.prems(2) assms(1) by (auto simp: u16_sat_add_def fits_def)
  define x' where "x' = (if sizes \<noteq> [] then u16_sat_add (x + w) 1 else x + w)"
  have x': "x + w \<le> x'" "x' < 2 ^ 16" "x' \<le> x + w + 1" using xw by (auto simp: x'_def u16_sat_add_def)
  have "sum_list sizes = 0 \<or> x' + sum_list sizes + length sizes \<le> rx area + rwidth area + 2"
    using Cons.prems(3) x'(3) by (cases "sizes = []") (auto simp: w_def)
  then obtain rs where rs: "lay_columns area False x' sizes = Some rs" "length rs = length sizes"
    "\<forall>r\<in>set rs. ry r = ry area \<and> rheight r = rheight area \<and> x' \<le> rx r \<and> rx r < 2 ^ 16 \<and>
      (rwidth r = 0 \<or> rx r + rwidth r \<le> rx area + rwidth area)" "disjoint_areas rs"
    using Cons.IH [of x'] Cons.prems(1) x' by auto
  have "lay_columns area False x (sz # sizes) = Some (rect_new x (ry area) w (rheight area) # rs)"
    unfolding lay_columns.simps width using rs(1) [unfolded x'_def] xw(2) by (simp add: Let_def split: if_splits)
  moreover have "\<forall>r\<in>set rs. cells_of (rect_new x (ry area) w (rheight area)) \<inter> cells_of r = {}"
  proof
    fix r
    assume "r \<in> set rs"
    then have "x + w \<le> rx r" using rs(3) x'(1) by auto
    then show "cells_of (rect_new x (ry area) w (rheight area)) \<inter> cells_of r = {}"
      by (auto simp: cells_of_def rect_new_def)
  qed
  ultimately show ?case
    using rs(2-4) Cons.prems w x' by (fastforce simp: disjoint_areas_Cons rect_new_def)
qed simp

lemma split_areas_tile:
  assumes "\<forall>w\<in>set ws. 0 \<le> w" "ws \<noteq> []" "length ws \<le> 128" "fits area"
  shows "\<exists>rs. split_areas l area ws (replicate (length ws) None) = Some rs \<and> length rs = length ws \<and>
    (\<forall>r\<in>set rs. fits r \<and> cells_of r \<subseteq> cells_of area) \<and> disjoint_areas rs"
proof -
  define weight where "weight = (if f32_epsilon < f32_sum ws then f32_sum ws else f32_of_int (int (length ws)))"
  have last: "last (replicate (length ws) None) = (None :: nat option)" using assms(2) by simp
  have ok: "rwidth area < 2 ^ 16" "rheight area < 2 ^ 16" using assms(4) by (auto simp: fits_def)
  show ?thesis
  proof (cases l)
    case Horizontal
    obtain sizes where sizes: "split_sizes (rheight area) ws weight (replicate (length ws) None) = Some sizes"
      "length sizes = length ws" "sum_list sizes = rheight area"
      using split_sizes_all [OF assms(1-3) ok(2)] by blast
    then show ?thesis
      using lay_rows_tile [OF assms(4) order_refl, of sizes] assms(4) last
      by (fastforce simp: split_areas_def Horizontal weight_def [symmetric] Let_def fits_def cells_of_def)
  next
    case Vertical
    define used where "used = rwidth area - (length ws mod 2 ^ 16 - 2)"
    have used: "used < 2 ^ 16" "used = 0 \<or> used + (length ws - 2) \<le> rwidth area"
      using ok(1) assms(3) by (auto simp: used_def)
    obtain sizes where sizes: "split_sizes used ws weight (replicate (length ws) None) = Some sizes"
      "length sizes = length ws" "sum_list sizes = used"
      using split_sizes_all [OF assms(1-3) used(1)] by blast
    have "sum_list sizes = 0 \<or> rx area + sum_list sizes + length sizes \<le> rx area + rwidth area + 2"
      using used(2) sizes(2,3) by auto
    moreover have "rx area < 2 ^ 16" using assms(4) by (simp add: fits_def)
    ultimately obtain rs where rs: "lay_columns area False (rx area) sizes = Some rs" "length rs = length ws"
      "\<forall>r\<in>set rs. ry r = ry area \<and> rheight r = rheight area \<and> rx area \<le> rx r \<and> rx r < 2 ^ 16 \<and>
        (rwidth r = 0 \<or> rx r + rwidth r \<le> rx area + rwidth area)" "disjoint_areas rs"
      using lay_columns_tile [OF assms(4) order_refl, of sizes] sizes(2) by auto
    have "\<forall>r\<in>set rs. fits r \<and> cells_of r \<subseteq> cells_of area"
      using rs(3) assms(4) by (fastforce simp: fits_def cells_of_def)
    then show ?thesis
      using rs(1,2,4) sizes(1) last
      by (simp add: split_areas_def Vertical weight_def [symmetric] Let_def used_def)
  qed
qed

section \<open>The areas of a tree\<close>

text \<open>The area of every node, given the weights: what \<open>recalculate\<close> computes with its stack.\<close>

fun place :: "('k \<Rightarrow> f32) \<Rightarrow> 'k wtree \<Rightarrow> rect \<Rightarrow> ('k \<times> rect) list option"
  and place_list :: "('k \<Rightarrow> f32) \<Rightarrow> 'k wtree list \<Rightarrow> rect list \<Rightarrow> ('k \<times> rect) list option"
where
  "place w (WLeaf k) a = Some [(k, a)]"
| "place w (WSplit k l ts) a =
     (if ts = [] then Some [(k, a)]
      else do {
        rs \<leftarrow> split_areas l a (map (\<lambda>t. max 0 (w (wkey t))) ts) (replicate (length ts) None);
        ps \<leftarrow> place_list w ts rs;
        Some ((k, a) # ps)
      })"
| "place_list w [] rs = (if rs = [] then Some [] else None)"
| "place_list w (t # ts) [] = None"
| "place_list w (t # ts) (r # rs) = do { ps \<leftarrow> place w t r; qs \<leftarrow> place_list w ts rs; Some (ps @ qs) }"

text \<open>No split has more than 128 children.\<close>

fun narrow :: "'k wtree \<Rightarrow> bool" where
  "narrow (WLeaf k) \<longleftrightarrow> True"
| "narrow (WSplit k l ts) \<longleftrightarrow> length ts \<le> 128 \<and> list_all narrow ts"

text \<open>Windows do not overlap, and every node stays within the area it was given.\<close>

definition apart :: "'k list \<Rightarrow> ('k \<times> rect) list \<Rightarrow> bool" where
  "apart ks ps \<longleftrightarrow>
     (\<forall>p\<in>set ps. \<forall>q\<in>set ps. fst p \<in> set ks \<longrightarrow> fst q \<in> set ks \<longrightarrow> fst p \<noteq> fst q \<longrightarrow> cells_of (snd p) \<inter> cells_of (snd q) = {})"

definition inside :: "rect \<Rightarrow> ('k \<times> rect) list \<Rightarrow> bool" where
  "inside a ps \<longleftrightarrow> (\<forall>p\<in>set ps. fits (snd p) \<and> cells_of (snd p) \<subseteq> cells_of a)"

lemma inside_append: "inside a ps \<Longrightarrow> inside a qs \<Longrightarrow> inside a (ps @ qs)"
  by (auto simp: inside_def)

lemma inside_mono: "inside a ps \<Longrightarrow> cells_of a \<subseteq> cells_of b \<Longrightarrow> inside b ps"
  by (auto simp: inside_def)

lemma place_tiles:
  "distinct (ids t) \<Longrightarrow> narrow t \<Longrightarrow> fits a \<Longrightarrow>
     \<exists>ps. place w t a = Some ps \<and> map fst ps = ids t \<and> inside a ps \<and> apart (leaves t) ps \<and> map_of ps (wkey t) = Some a"
  "distinct (concat (map ids ts)) \<Longrightarrow> list_all narrow ts \<Longrightarrow> length rs = length ts \<Longrightarrow>
     \<forall>r\<in>set rs. fits r \<and> cells_of r \<subseteq> cells_of a \<Longrightarrow> disjoint_areas rs \<Longrightarrow>
     \<exists>ps. place_list w ts rs = Some ps \<and> map fst ps = concat (map ids ts) \<and> inside a ps \<and> apart (concat (map leaves ts)) ps \<and>
       (\<forall>b. (\<forall>r\<in>set rs. cells_of b \<inter> cells_of r = {}) \<longrightarrow> (\<forall>p\<in>set ps. cells_of b \<inter> cells_of (snd p) = {}))"
proof (induction w t a and w ts rs arbitrary: and a rule: place_place_list.induct)
  case (1 w k a)
  then show ?case by (simp add: inside_def apart_def)
next
  case (2 w k l ts a)
  show ?case
  proof (cases "ts = []")
    case True
    then show ?thesis using 2 by (simp add: inside_def apart_def)
  next
    case False
    have nonneg: "\<forall>x\<in>set (map (\<lambda>t. max 0 (w (wkey t))) ts). 0 \<le> x" by auto
    obtain rs where rs: "split_areas l a (map (\<lambda>t. max 0 (w (wkey t))) ts) (replicate (length ts) None) = Some rs"
      "length rs = length ts" "\<forall>r\<in>set rs. fits r \<and> cells_of r \<subseteq> cells_of a" "disjoint_areas rs"
      using split_areas_tile [OF nonneg, of a l] False 2(3,4) by auto
    obtain ps where ps: "place_list w ts rs = Some ps" "map fst ps = concat (map ids ts)" "inside a ps"
      "apart (concat (map leaves ts)) ps"
      using 2(1) [OF False, of rs a] 2(2,3) rs by auto
    have k: "k \<notin> set (concat (map leaves ts))" using 2(2) leaves_ids by fastforce
    show ?thesis
      using False rs(1) ps 2(4) k by (auto simp: inside_def apart_def)
  qed
next
  case (3 w rs)
  then show ?case by (simp add: inside_def apart_def)
next
  case (4 w t ts)
  then show ?case by simp
next
  case (5 w t ts r rs)
  have d: "distinct (ids t)" "distinct (concat (map ids ts))" "set (ids t) \<inter> set (concat (map ids ts)) = {}"
    using 5(3) by auto
  have r: "fits r" "cells_of r \<subseteq> cells_of a" "\<forall>r'\<in>set rs. cells_of r \<inter> cells_of r' = {}" "disjoint_areas rs"
    using 5(6,7) by (auto simp: disjoint_areas_Cons)
  obtain ps where ps: "place w t r = Some ps" "map fst ps = ids t" "inside r ps" "apart (leaves t) ps"
    using 5(1) [OF d(1) _ r(1)] 5(4) by auto
  obtain qs where qs: "place_list w ts rs = Some qs" "map fst qs = concat (map ids ts)" "inside a qs"
    "apart (concat (map leaves ts)) qs"
    "\<forall>b. (\<forall>r\<in>set rs. cells_of b \<inter> cells_of r = {}) \<longrightarrow> (\<forall>p\<in>set qs. cells_of b \<inter> cells_of (snd p) = {})"
    using 5(2) [OF ps(1) d(2), of a] 5(4-6) r(4) by auto
  have apart: "apart (leaves t @ concat (map leaves ts)) (ps @ qs)"
  proof -
    have f: "fst ` set ps = set (ids t)" "fst ` set qs = set (concat (map ids ts))"
      using ps(2) qs(2) by (metis list.set_map)+
    have l: "set (concat (map leaves ts)) \<subseteq> set (concat (map ids ts))" using leaves_ids by fastforce
    have x: "\<forall>p\<in>set ps. \<forall>q\<in>set qs. cells_of (snd p) \<inter> cells_of (snd q) = {}"
      using qs(5) r(3) ps(3) unfolding inside_def by blast
    have m: "p \<in> set ps \<Longrightarrow> fst p \<in> set (ids t)" "p \<in> set qs \<Longrightarrow> fst p \<in> set (concat (map ids ts))" for p
      using f by auto
    show ?thesis
      using ps(4) qs(4) x m d(3) l leaves_ids [of t] unfolding apart_def set_append by blast
  qed
  have "inside a (ps @ qs)" using inside_append [OF inside_mono [OF ps(3) r(2)] qs(3)] .
  moreover have "\<forall>p\<in>set (ps @ qs). cells_of b \<inter> cells_of (snd p) = {}"
    if "\<forall>r'\<in>set (r # rs). cells_of b \<inter> cells_of r' = {}" for b
    using that qs(5) ps(3) unfolding inside_def by fastforce
  ultimately show ?case using ps(1,2) qs(1,2) apart by simp
qed

lemma place_keys:
  "place w t a = Some ps \<Longrightarrow> map fst ps = ids t"
  "place_list w ts rs = Some qs \<Longrightarrow> map fst qs = concat (map ids ts) \<and> length rs = length ts"
  by (induction w t a and w ts rs arbitrary: ps and qs rule: place_place_list.induct)
    (auto split: bind_splits if_splits)

section \<open>Recalculating\<close>

definition put_area :: "rect \<Rightarrow> 'k node \<Rightarrow> 'k node" where
  "put_area a nd = nd\<lparr>n_content := (case n_content nd of
     CView v \<Rightarrow> CView (v\<lparr>v_area := a\<rparr>) | CContainer c \<Rightarrow> CContainer (c\<lparr>c_area := a\<rparr>))\<rparr>"

definition put_areas :: "('k \<times> rect) list \<Rightarrow> 'k tree \<Rightarrow> 'k tree" where
  "put_areas ps T = T\<lparr>t_nodes := (t_nodes T)\<lparr>sm_nodes := (\<lambda>k. case map_of ps k of
     None \<Rightarrow> node_at T k | Some a \<Rightarrow> map_option (put_area a) (node_at T k))\<rparr>\<rparr>"

definition weight_of :: "'k tree \<Rightarrow> 'k \<Rightarrow> f32" where
  "weight_of T k = (case node_at T k of Some nd \<Rightarrow> n_weight nd | None \<Rightarrow> 0)"

definition pinned_node :: "'k node \<Rightarrow> bool" where
  "pinned_node nd \<longleftrightarrow> (case n_content nd of CView v \<Rightarrow> v_winfixheight v \<or> v_winfixwidth v | CContainer _ \<Rightarrow> False)"

definition unpinned :: "'k tree \<Rightarrow> bool" where
  "unpinned T \<longleftrightarrow> (\<forall>k nd. node_at T k = Some nd \<longrightarrow> \<not> pinned_node nd)"

lemma put_area_simps [simp]:
  "n_parent (put_area a nd) = n_parent nd" "n_weight (put_area a nd) = n_weight nd"
  "strip (put_area a nd) = strip nd" "pinned_node (put_area a nd) = pinned_node nd"
  "area_of (put_area a nd) = a" "put_area a (put_area b nd) = put_area a nd"
  by (simp_all add: put_area_def strip_def pinned_node_def area_of_def split: content.splits)

lemma node_at_put_areas:
  "node_at (put_areas ps T) k =
     (case map_of ps k of None \<Rightarrow> node_at T k | Some a \<Rightarrow> map_option (put_area a) (node_at T k))"
  by (simp add: put_areas_def node_at_def)

lemma put_areas_simps [simp]:
  "t_root (put_areas ps T) = t_root T" "t_focus (put_areas ps T) = t_focus T" "t_area (put_areas ps T) = t_area T"
  "t_stack (put_areas ps T) = t_stack T" "sm_count (t_nodes (put_areas ps T)) = sm_count (t_nodes T)"
  "skel (put_areas ps T) = skel T" "weight_of (put_areas ps T) = weight_of T" "unpinned (put_areas ps T) = unpinned T"
proof -
  show "t_root (put_areas ps T) = t_root T" "t_focus (put_areas ps T) = t_focus T" "t_area (put_areas ps T) = t_area T"
    "t_stack (put_areas ps T) = t_stack T" "sm_count (t_nodes (put_areas ps T)) = sm_count (t_nodes T)"
    by (simp_all add: put_areas_def)
  show "skel (put_areas ps T) = skel T"
    by (simp add: skel_def node_at_put_areas fun_eq_iff option.map_comp comp_def split: option.splits)
  show "weight_of (put_areas ps T) = weight_of T"
    by (auto simp: weight_of_def node_at_put_areas fun_eq_iff split: option.splits)
  have "(\<forall>nd. node_at (put_areas ps T) k = Some nd \<longrightarrow> \<not> pinned_node nd) \<longleftrightarrow>
      (\<forall>nd. node_at T k = Some nd \<longrightarrow> \<not> pinned_node nd)" for k
    by (cases "node_at T k"; cases "map_of ps k") (simp_all add: node_at_put_areas)
  then show "unpinned (put_areas ps T) = unpinned T" by (simp only: unpinned_def)
qed

lemma put_areas_stack: "put_areas ps (T\<lparr>t_stack := st\<rparr>) = (put_areas ps T)\<lparr>t_stack := st\<rparr>"
  by (cases T) (simp add: put_areas_def node_at_def fun_eq_iff split: option.splits)

lemma put_areas_put_areas: "put_areas qs (put_areas ps T) = put_areas (qs @ ps) T"
  by (simp add: put_areas_def node_at_def fun_eq_iff map_add_def option.map_comp comp_def split: option.splits)

lemma put_areas_cong: "map_of ps = map_of qs \<Longrightarrow> put_areas ps T = put_areas qs T"
  by (simp add: put_areas_def)

lemma node_at_stack [simp]: "node_at (T\<lparr>t_stack := st\<rparr>) = node_at T"
  by (simp add: node_at_def fun_eq_iff)

lemma skel_stack [simp]: "skel (T\<lparr>t_stack := st\<rparr>) = skel T"
  by (simp add: skel_def fun_eq_iff)

lemma skel_leaf:
  "skel T k = Some (p, Inl i) \<longleftrightarrow> (\<exists>nd v. node_at T k = Some nd \<and> n_parent nd = p \<and> n_content nd = CView v \<and> v_id v = i)"
  by (cases "node_at T k") (auto simp: skel_def strip_def split: content.splits)

lemma skel_split:
  "skel T k = Some (p, Inr (l, chs)) \<longleftrightarrow>
     (\<exists>nd c. node_at T k = Some nd \<and> n_parent nd = p \<and> n_content nd = CContainer c \<and> c_layout c = l \<and> c_children c = chs)"
  by (cases "node_at T k") (auto simp: skel_def strip_def split: content.splits)

lemma set_node_put_area:
  "node_at T k = Some nd \<Longrightarrow> set_node k (put_area a nd) T = put_areas [(k, a)] T"
  by (simp add: set_node_def put_areas_def node_at_def fun_eq_iff)

lemma recalc_node_leaf:
  assumes "skel T k = Some (p, Inl i)"
  shows "recalc_node k a T = Some (put_areas [(k, a)] T, [])"
proof -
  obtain nd v where nd: "node_at T k = Some nd" "n_content nd = CView v" using assms by (auto simp: skel_leaf)
  have "nd\<lparr>n_content := CView (v\<lparr>v_area := a\<rparr>)\<rparr> = put_area a nd" by (simp add: put_area_def nd(2))
  then show ?thesis using set_node_put_area [OF nd(1), of a] nd by (simp add: recalc_node_def)
qed

lemma recalc_node_split:
  assumes "skel T k = Some (p, Inr (l, map wkey ts))" "list_all (rep (skel T) k) ts" "unpinned T"
  shows "recalc_node k a T =
     (if ts = [] then Some (put_areas [(k, a)] T, [])
      else do {
        rs \<leftarrow> split_areas l a (map (\<lambda>t. max 0 (weight_of T (wkey t))) ts) (replicate (length ts) None);
        Some (put_areas [(k, a)] T, zip (map wkey ts) rs)
      })"
proof -
  obtain nd c where nd: "node_at T k = Some nd" "n_content nd = CContainer c" "c_layout c = l" "c_children c = map wkey ts"
    using assms(1) by (auto simp: skel_split)
  have put: "set_node k (nd\<lparr>n_content := CContainer (c\<lparr>c_area := a\<rparr>)\<rparr>) T = put_areas [(k, a)] T"
  proof -
    have "nd\<lparr>n_content := CContainer (c\<lparr>c_area := a\<rparr>)\<rparr> = put_area a nd" by (simp add: put_area_def nd(2))
    then show ?thesis using set_node_put_area [OF nd(1), of a] by simp
  qed
  let ?T = "put_areas [(k, a)] T"
  have child: "\<exists>cnd. node_at ?T (wkey t) = Some cnd \<and> n_weight cnd = weight_of T (wkey t) \<and> \<not> pinned_node cnd"
    if t: "t \<in> set ts" for t
  proof -
    have "rep (skel T) k t" using assms(2) t by (simp add: list_all_iff)
    then obtain x where "skel T (wkey t) = Some x" using rep_parent by fastforce
    then have "\<exists>cnd. node_at ?T (wkey t) = Some cnd"
      by (auto simp: skel_def node_at_put_areas split: option.splits)
    then obtain cnd where "node_at ?T (wkey t) = Some cnd" ..
    moreover have "weight_of ?T = weight_of T" "unpinned ?T" using assms(3) by simp_all
    ultimately show ?thesis by (metis option.simps(5) unpinned_def weight_of_def)
  qed
  have w: "those (map (\<lambda>ch. map_option (\<lambda>nd. max 0 (n_weight nd)) (node_at ?T ch)) (map wkey ts)) =
      Some (map (\<lambda>t. max 0 (weight_of T (wkey t))) ts)"
    unfolding map_map comp_def by (rule those_map_Some) (use child in fastforce)
  have f: "those (map (fixed_size ?T vertical) (map wkey ts)) = Some (replicate (length ts) None)" for vertical
  proof -
    have "those (map (\<lambda>t. fixed_size ?T vertical (wkey t)) ts) = Some (map (\<lambda>t. None) ts)"
    proof (rule those_map_Some)
      fix t
      assume "t \<in> set ts"
      then obtain cnd where "node_at ?T (wkey t) = Some cnd" "\<not> pinned_node cnd" using child by blast
      then show "fixed_size ?T vertical (wkey t) = Some None"
        by (auto simp: fixed_size_def pinned_node_def split: content.splits)
    qed
    then show ?thesis by (simp add: comp_def map_replicate_const)
  qed
  show ?thesis
    using w f nd by (simp add: recalc_node_def put Let_def del: map_map)
qed

lemma recalc_places:
  fixes T :: "'k tree"
  shows "place w t a = Some ps \<Longrightarrow> rep (skel T) p t \<Longrightarrow> distinct (ids t) \<Longrightarrow> unpinned T \<Longrightarrow> weight_of T = w \<Longrightarrow>
     recalc_loop (T\<lparr>t_stack := (wkey t, a) # st\<rparr>) = recalc_loop ((put_areas ps T)\<lparr>t_stack := st\<rparr>)"
  "place_list w ts rs = Some qs \<Longrightarrow> list_all (rep (skel T) p) ts \<Longrightarrow> distinct (concat (map ids ts)) \<Longrightarrow> unpinned T \<Longrightarrow>
     weight_of T = w \<Longrightarrow> length rs = length ts \<Longrightarrow>
     recalc_loop (T\<lparr>t_stack := rev (zip (map wkey ts) rs) @ st\<rparr>) = recalc_loop ((put_areas qs T)\<lparr>t_stack := st\<rparr>)"
proof (induction w t a and w ts rs arbitrary: T p ps st and T p qs st rule: place_place_list.induct)
  case (1 w k a)
  then show ?case
    by (subst recalc_loop.simps) (simp add: recalc_node_leaf [where p = p and i = k] put_areas_stack)
next
  case (2 w k l ts a)
  have s: "skel (T\<lparr>t_stack := st\<rparr>) k = Some (p, Inr (l, map wkey ts))" "list_all (rep (skel (T\<lparr>t_stack := st\<rparr>)) k) ts"
    "unpinned (T\<lparr>t_stack := st\<rparr>)"
    using 2(3,5) by (simp_all add: unpinned_def)
  have w: "weight_of (T\<lparr>t_stack := st\<rparr>) = w" using 2(6) by (simp add: weight_of_def fun_eq_iff)
  show ?case
  proof (cases "ts = []")
    case True
    then show ?thesis using 2(2) recalc_node_split [OF s, of a]
      by (subst recalc_loop.simps) (simp add: put_areas_stack)
  next
    case False
    obtain rs qs where rs: "split_areas l a (map (\<lambda>t. max 0 (w (wkey t))) ts) (replicate (length ts) None) = Some rs"
      and qs: "place_list w ts rs = Some qs" "ps = (k, a) # qs"
      using 2(2) False by (auto split: bind_splits)
    have len: "length rs = length ts" and keys: "map fst qs = concat (map ids ts)"
      using place_keys(2) [OF qs(1)] by simp_all
    have "recalc_loop (T\<lparr>t_stack := (k, a) # st\<rparr>) =
        recalc_loop ((put_areas [(k, a)] T)\<lparr>t_stack := rev (zip (map wkey ts) rs) @ st\<rparr>)"
      using recalc_node_split [OF s, of a] False rs w
      by (subst recalc_loop.simps) (simp add: put_areas_stack)
    also have "\<dots> = recalc_loop ((put_areas qs (put_areas [(k, a)] T))\<lparr>t_stack := st\<rparr>)"
      using 2(1) [OF False rs qs(1), of "put_areas [(k, a)] T" k st] 2(3-6) len by simp
    also have "put_areas qs (put_areas [(k, a)] T) = put_areas ps T"
    proof -
      have "k \<notin> fst ` set qs" using 2(4) arg_cong [OF keys, of set] by auto
      then have "map_of (qs @ [(k, a)]) = map_of ((k, a) # qs)"
        using map_of_eq_None_iff [of qs k] by (auto simp: fun_eq_iff map_add_def split: option.splits)
      then show ?thesis
        unfolding put_areas_put_areas qs(2) by (rule put_areas_cong)
    qed
    finally show ?thesis by simp
  qed
next
  case (3 w rs)
  then show ?case by (simp add: put_areas_def node_at_def)
next
  case (4 w t ts)
  then show ?case by simp
next
  case (5 w t ts r rs)
  obtain ps qs' where ps: "place w t r = Some ps" "place_list w ts rs = Some qs'" "qs = ps @ qs'"
    using 5(3) by (auto split: bind_splits)
  have "recalc_loop (T\<lparr>t_stack := rev (zip (map wkey (t # ts)) (r # rs)) @ st\<rparr>) =
      recalc_loop ((put_areas qs' T)\<lparr>t_stack := (wkey t, r) # st\<rparr>)"
    using 5(2) [OF ps(1,2), of T p "(wkey t, r) # st"] 5(4-8) by simp
  also have "\<dots> = recalc_loop ((put_areas ps (put_areas qs' T))\<lparr>t_stack := st\<rparr>)"
    using 5(1) [OF ps(1), of "put_areas qs' T" p st] 5(4-8) by simp
  finally show ?case by (simp add: put_areas_put_areas ps(3))
qed

section \<open>The invariant of the tree\<close>

text \<open>
  The store holds exactly the nodes of a tree whose root is a split; the focus is a window of it, or
  the root when there is none; every split below the root has two children or more; the keys have all
  been handed out by the slot map.
\<close>

fun root_full :: "'k wtree \<Rightarrow> bool" where
  "root_full (WLeaf k) \<longleftrightarrow> False"
| "root_full (WSplit k l ts) \<longleftrightarrow> list_all full ts"

definition wf_tree :: "'k slot_api \<Rightarrow> 'k tree \<Rightarrow> 'k wtree \<Rightarrow> bool" where
  "wf_tree K T t \<longleftrightarrow>
     rep (skel T) (t_root T) t \<and> wkey t = t_root T \<and> distinct (ids t) \<and> dom (skel T) = set (ids t) \<and>
     set (ids t) \<subseteq> key K ` {..<sm_count (t_nodes T)} \<and> root_full t \<and> t_stack T = [] \<and>
     (if leaves t = [] then t_focus T = t_root T else t_focus T \<in> set (leaves t))"

lemma full_leaves: "full t \<Longrightarrow> leaves t \<noteq> []"
proof (induction t)
  case (WSplit k l ts)
  then obtain t ts' where "ts = t # ts'" by (cases ts) auto
  then show ?case using WSplit by simp
qed simp

lemma root_full_leaves: "list_all full ts \<Longrightarrow> leaves (WSplit k l ts) = [] \<longleftrightarrow> ts = []"
  using full_leaves by (cases ts) auto

lemma wf_root:
  assumes "wf_tree K T t"
  obtains l ts where "t = WSplit (t_root T) l ts" "list_all full ts"
    "skel T (t_root T) = Some (t_root T, Inr (l, map wkey ts))"
  using assms by (cases t) (auto simp: wf_tree_def)

text \<open>A tree without pinned windows on a screen: recalculating it returns.\<close>

definition layable :: "'k tree \<Rightarrow> 'k wtree \<Rightarrow> bool" where
  "layable T t \<longleftrightarrow> unpinned T \<and> narrow t \<and> fits (t_area T)"

lemma container_at_skel: "container_at T k = Some c \<longleftrightarrow>
    (\<exists>nd. node_at T k = Some nd \<and> n_content nd = CContainer c)"
  by (cases "node_at T k") (auto simp: container_at_def split: content.splits)

lemma empty_skel: "skel T (t_root T) = Some (p, Inr (l, chs)) \<Longrightarrow> tree_is_empty T = Some (chs = [])"
  by (auto simp: tree_is_empty_def skel_split container_at_def)

lemma recalculate_areas:
  assumes "rep (skel T) (t_root T) (WSplit (t_root T) l ts)" "distinct (ids (WSplit (t_root T) l ts))" "t_stack T = []"
    and "layable T (WSplit (t_root T) l ts)" "ts \<noteq> []"
  shows "\<exists>ps. recalculate T = Some (put_areas ps T) \<and> map fst ps = ids (WSplit (t_root T) l ts) \<and>
    inside (t_area T) ps \<and> apart (leaves (WSplit (t_root T) l ts)) ps"
proof -
  let ?t = "WSplit (t_root T) l ts"
  obtain ps where ps: "place (weight_of T) ?t (t_area T) = Some ps" "map fst ps = ids ?t" "inside (t_area T) ps" "apart (leaves ?t) ps"
    using place_tiles(1) [OF assms(2), of "t_area T" "weight_of T"] assms(4) by (auto simp: layable_def)
  have "recalc_loop (T\<lparr>t_stack := [(wkey ?t, t_area T)]\<rparr>) = recalc_loop ((put_areas ps T)\<lparr>t_stack := []\<rparr>)"
    using recalc_places(1) [OF ps(1) assms(1,2), of "[]"] assms(4) by (simp add: layable_def)
  moreover have "recalc_loop ((put_areas ps T)\<lparr>t_stack := []\<rparr>) = Some (put_areas ps T)"
    using assms(3) by (subst recalc_loop.simps) simp
  moreover have "tree_is_empty T = Some False" using empty_skel [of T] assms(1,5) by auto
  ultimately show ?thesis using assms(3) ps by (auto simp: recalculate_def)
qed

text \<open>Every window has an area on the screen, and no two windows share a cell.\<close>

definition cells_at :: "'k tree \<Rightarrow> 'k \<Rightarrow> (nat \<times> nat) set" where
  "cells_at T k = (case node_at T k of Some nd \<Rightarrow> cells_of (area_of nd) | None \<Rightarrow> {})"

definition shown :: "'k tree \<Rightarrow> 'k wtree \<Rightarrow> bool" where
  "shown T t \<longleftrightarrow> (\<forall>k\<in>set (leaves t). cells_at T k \<subseteq> cells_of (t_area T)) \<and>
     (\<forall>j\<in>set (leaves t). \<forall>k\<in>set (leaves t). j \<noteq> k \<longrightarrow> cells_at T j \<inter> cells_at T k = {})"

lemma shown_empty: "leaves t = [] \<Longrightarrow> shown T t"
  by (simp add: shown_def)

lemma shown_put_areas:
  assumes "dom (skel T) = set (ids t)" "map fst ps = ids t" "inside (t_area T) ps" "apart (leaves t) ps"
  shows "shown (put_areas ps T) t"
proof -
  have at: "\<exists>a. (k, a) \<in> set ps \<and> cells_at (put_areas ps T) k = cells_of a" if "k \<in> set (leaves t)" for k
  proof -
    have k: "k \<in> set (ids t)" using that leaves_ids by fastforce
    then have "k \<in> dom (skel T)" using assms(1) by simp
    then have "node_at T k \<noteq> None" by (simp add: skel_def domIff)
    moreover have "map_of ps k \<noteq> None" using k by (simp add: map_of_eq_None_iff flip: assms(2))
    ultimately obtain nd a where "node_at T k = Some nd" "map_of ps k = Some a" by blast
    then show ?thesis by (auto simp: cells_at_def node_at_put_areas dest: map_of_SomeD)
  qed
  show ?thesis
    unfolding shown_def
  proof (intro conjI ballI impI)
    fix k assume "k \<in> set (leaves t)"
    from at [OF this] assms(3) show "cells_at (put_areas ps T) k \<subseteq> cells_of (t_area (put_areas ps T))"
      by (fastforce simp: inside_def)
  next
    fix j k assume jk: "j \<in> set (leaves t)" "k \<in> set (leaves t)" "j \<noteq> k"
    from at [OF jk(1)] at [OF jk(2)] obtain a b where ab: "(j, a) \<in> set ps" "cells_at (put_areas ps T) j = cells_of a"
      "(k, b) \<in> set ps" "cells_at (put_areas ps T) k = cells_of b" by blast
    with jk assms(4) show "cells_at (put_areas ps T) j \<inter> cells_at (put_areas ps T) k = {}"
      unfolding apart_def by fastforce
  qed
qed

text \<open>What a recalculation leaves: the links, weights and documents; only areas change.\<close>

lemma recalculate_ok:
  assumes "wf_tree K T t" "layable T t"
  shows "\<exists>ps. recalculate T = Some (put_areas ps T) \<and> (leaves t \<noteq> [] \<longrightarrow> map fst ps = ids t) \<and>
    inside (t_area T) ps \<and> apart (leaves t) ps \<and> wf_tree K (put_areas ps T) t \<and> layable (put_areas ps T) t \<and>
    shown (put_areas ps T) t"
proof -
  obtain l ts where t: "t = WSplit (t_root T) l ts" "list_all full ts" and
    root: "skel T (t_root T) = Some (t_root T, Inr (l, map wkey ts))"
    by (rule wf_root [OF assms(1)])
  have keep: "wf_tree K (put_areas ps T) t \<and> layable (put_areas ps T) t" for ps
    using assms by (simp add: wf_tree_def layable_def)
  show ?thesis
  proof (cases "ts = []")
    case True
    then have "recalculate T = Some (T\<lparr>t_focus := t_root T\<rparr>)" "t_focus T = t_root T"
      using empty_skel [OF root] assms(1) t(1) by (simp_all add: recalculate_def wf_tree_def)
    moreover have "put_areas [] T = T\<lparr>t_focus := t_root T\<rparr>"
      using calculation(2) by (cases T) (simp add: put_areas_def node_at_def)
    ultimately show ?thesis using keep [of "[]"] True t(1)
      by (intro exI [of _ "[]"]) (simp add: inside_def apart_def shown_empty)
  next
    case False
    then obtain ps where "recalculate T = Some (put_areas ps T)" "map fst ps = ids t" "inside (t_area T) ps" "apart (leaves t) ps"
      using recalculate_areas [of T l ts] assms unfolding t(1) wf_tree_def by blast
    then show ?thesis using keep shown_put_areas [of T t ps] assms(1) by (auto simp: wf_tree_def)
  qed
qed

end
