(* ===== verification/WindowLaws.thy ===== *)
theory WindowLaws
  imports WindowLayout
begin

text \<open>
  What the operations on the window tree do: inserting, splitting and removing never panic on a tree
  that satisfies the invariant, keep it, and are the grafts they should be; walking visits the windows
  in the order of the tree; a layout that was saved is restored.
\<close>

section \<open>Effects on the store\<close>

named_theorems store_simps \<open>how the primitives of the slot map change the nodes\<close>

lemma node_at_set_node [store_simps]: "node_at (set_node k nd T) j = (if j = k then Some nd else node_at T j)"
  by (simp add: node_at_def set_node_def)

lemma node_at_remove [store_simps]: "node_at (slot_remove k T) j = (if j = k then None else node_at T j)"
  by (simp add: node_at_def slot_remove_def)

lemma set_node_frame [simp]:
  "t_root (set_node k nd T) = t_root T" "t_focus (set_node k nd T) = t_focus T" "t_area (set_node k nd T) = t_area T"
  "t_stack (set_node k nd T) = t_stack T" "sm_count (t_nodes (set_node k nd T)) = sm_count (t_nodes T)"
  by (simp_all add: set_node_def)

lemma slot_remove_frame [simp]:
  "t_root (slot_remove k T) = t_root T" "t_focus (slot_remove k T) = t_focus T" "t_area (slot_remove k T) = t_area T"
  "t_stack (slot_remove k T) = t_stack T" "sm_count (t_nodes (slot_remove k T)) = sm_count (t_nodes T)"
  by (simp_all add: slot_remove_def)

lemma node_at_frame [simp]:
  "node_at (T\<lparr>t_focus := f\<rparr>) = node_at T" "node_at (T\<lparr>t_root := r\<rparr>) = node_at T" "node_at (T\<lparr>t_area := a\<rparr>) = node_at T"
  by (simp_all add: node_at_def fun_eq_iff)

lemma skel_frame [simp]: "skel (T\<lparr>t_focus := f\<rparr>) = skel T" "skel (T\<lparr>t_area := a\<rparr>) = skel T"
  by (simp_all add: skel_def fun_eq_iff)

lemma weight_of_frame [simp]: "weight_of (T\<lparr>t_focus := f\<rparr>) = weight_of T"
  by (simp add: weight_of_def fun_eq_iff)

text \<open>The fresh key of an insertion.\<close>

definition next_key :: "'k slot_api \<Rightarrow> 'k tree \<Rightarrow> 'k" where
  "next_key K T = key K (sm_count (t_nodes T))"

lemma slot_insert_eq:
  "slot_insert K nd T = (next_key K T, set_node (next_key K T) nd (T\<lparr>t_nodes := (t_nodes T)\<lparr>sm_count := sm_count (t_nodes T) + 1\<rparr>\<rparr>))"
  by (simp add: slot_insert_def next_key_def Let_def)

lemma node_at_count [simp]: "node_at (T\<lparr>t_nodes := (t_nodes T)\<lparr>sm_count := n\<rparr>\<rparr>) = node_at T"
  by (simp add: node_at_def fun_eq_iff)

lemma strip_simps [simp]:
  "strip (nd\<lparr>n_content := CContainer (set_children chs c)\<rparr>) = (n_parent nd, Inr (c_layout c, chs))"
  "strip (nd\<lparr>n_parent := p\<rparr>) = (p, snd (strip nd))"
  "strip ((node_view K v)\<lparr>n_parent := p\<rparr>) = (p, Inl (v_id v))"
  by (simp_all add: strip_def set_children_def node_view_def)

section \<open>Children\<close>

lemma child_split:
  assumes "f \<in> set chs" "distinct chs"
  obtains as bs where "chs = as @ f # bs" "f \<notin> set as" "f \<notin> set bs" "position (\<lambda>c. c = f) chs = Some (length as)"
proof -
  obtain as bs where c: "chs = as @ f # bs" using split_list [OF assms(1)] by blast
  have n: "f \<notin> set as" "f \<notin> set bs" using assms(2) by (auto simp: c)
  have "position (\<lambda>c. c = f) (as @ f # bs) = Some (length as)" using n(1) by (induction as) auto
  then show ?thesis using that c n by simp
qed

lemma concat_map_child:
  "f \<notin> set as \<Longrightarrow> concat (map (\<lambda>k. if k = f then us else [k]) as) = as"
  by (induction as) auto

lemma vec_insert_child:
  assumes "f \<in> set chs" "distinct chs"
  shows "map_option (\<lambda>pos. vec_insert pos k chs) (insert_pos before f chs) =
    Some (concat (map (\<lambda>i. if i = f then (if before then [k, f] else [f, k]) else [i]) chs))"
proof -
  obtain as bs where c: "chs = as @ f # bs" "f \<notin> set as" "f \<notin> set bs" "position (\<lambda>c. c = f) chs = Some (length as)"
    by (rule child_split [OF assms])
  then show ?thesis
    by (simp add: insert_pos_def vec_insert_def concat_map_child)
qed

lemma replace_child:
  assumes "f \<in> set chs" "distinct chs"
  shows "\<exists>pos. position (\<lambda>c. c = f) chs = Some pos \<and>
    chs[pos := k] = concat (map (\<lambda>i. if i = f then [k] else [i]) chs) \<and>
    vec_remove pos chs = concat (map (\<lambda>i. if i = f then [] else [i]) chs)"
proof -
  obtain as bs where c: "chs = as @ f # bs" "f \<notin> set as" "f \<notin> set bs" "position (\<lambda>c. c = f) chs = Some (length as)"
    by (rule child_split [OF assms])
  then show ?thesis by (simp add: vec_remove_def concat_map_child)
qed

section \<open>A graft keeps the links\<close>

definition links :: "'k slot_api \<Rightarrow> 'k tree \<Rightarrow> 'k wtree \<Rightarrow> bool" where
  "links K T t \<longleftrightarrow>
     rep (skel T) (t_root T) t \<and> wkey t = t_root T \<and> distinct (ids t) \<and> dom (skel T) = set (ids t) \<and>
     set (ids t) \<subseteq> key K ` {..<sm_count (t_nodes T)} \<and> t_stack T = []"

lemma wf_tree_links:
  "wf_tree K T t \<longleftrightarrow> links K T t \<and> root_full t \<and> (if leaves t = [] then t_focus T = t_root T else t_focus T \<in> set (leaves t))"
  by (auto simp: wf_tree_def links_def)

lemma links_graft:
  assumes "links K T t" "u \<in> set (subtrees t)" "wkey u \<noteq> wkey t"
    and "skel T (wkey u) = Some (q, x)" "skel T q = Some (pq, Inr (l, chs))"
    and "skel T' q = Some (pq, Inr (l, concat (map (\<lambda>k. if k = wkey u then map wkey us else [k]) chs)))"
    and "\<And>k. k \<in> set (ids t) \<Longrightarrow> k \<notin> set (ids u) \<Longrightarrow> k \<noteq> q \<Longrightarrow> skel T' k = skel T k"
    and "\<And>v. v \<in> set us \<Longrightarrow> rep (skel T') q v"
    and "distinct (concat (map ids us))" "set (concat (map ids us)) \<inter> (set (ids t) - set (ids u)) = {}"
    and "dom (skel T') = set (ids t) - set (ids u) \<union> set (concat (map ids us))"
    and "set (concat (map ids us)) \<subseteq> key K ` {..<sm_count (t_nodes T')}"
    and "sm_count (t_nodes T) \<le> sm_count (t_nodes T')" "t_root T' = t_root T" "t_stack T' = []"
  shows "links K T' (graft (wkey u) us t)"
proof -
  have d: "rep (skel T) (t_root T) t" "wkey t = t_root T" "distinct (ids t)" "set (ids t) \<subseteq> key K ` {..<sm_count (t_nodes T)}"
    using assms(1) by (simp_all add: links_def)
  obtain xs ys where xy: "ids t = xs @ ids u @ ys" "ids (graft (wkey u) us t) = xs @ concat (map ids us) @ ys"
    using graft_order [OF d(3) assms(2,3), of us] by blast
  have "rep (skel T') (t_root T) (graft (wkey u) us t)"
    by (rule rep_graft [OF d(1,3) assms(2-8)])
  moreover have s: "set (ids t) - set (ids u) = set xs \<union> set ys" using d(3) unfolding xy(1) by auto
  moreover have "distinct (ids (graft (wkey u) us t))"
    using d(3) assms(9,10) unfolding s unfolding xy by auto
  moreover have "dom (skel T') = set (ids (graft (wkey u) us t))"
    using assms(11) unfolding s xy(2) by auto
  moreover have "set (ids (graft (wkey u) us t)) \<subseteq> key K ` {..<sm_count (t_nodes T')}"
  proof -
    have "set xs \<union> set ys \<subseteq> key K ` {..<sm_count (t_nodes T)}" using d(4) unfolding xy(1) by auto
    also have "\<dots> \<subseteq> key K ` {..<sm_count (t_nodes T')}" using assms(13) by auto
    finally show ?thesis using assms(12) unfolding xy(2) by simp
  qed
  ultimately show ?thesis using d(2) assms(14,15) by (simp add: links_def)
qed

text \<open>The node that a window other than the root hangs on.\<close>

lemma links_hook:
  assumes "links K T t" "u \<in> set (subtrees t)" "wkey u \<noteq> wkey t"
  obtains q x pq l chs und qnd qc where "node_at T (wkey u) = Some und" "n_parent und = q" "skel T (wkey u) = Some (q, x)"
    "node_at T q = Some qnd" "n_parent qnd = pq" "n_content qnd = CContainer qc" "c_layout qc = l" "c_children qc = chs"
    "skel T q = Some (pq, Inr (l, chs))" "wkey u \<in> set chs" "distinct chs" "q \<in> set (ids t)" "q \<notin> set (ids u)" "rep (skel T) q u"
proof -
  have d: "rep (skel T) (t_root T) t" "distinct (ids t)" using assms(1) by (simp_all add: links_def)
  obtain q pq l chs x where h: "skel T (wkey u) = Some (q, x)" "skel T q = Some (pq, Inr (l, chs))" "wkey u \<in> set chs"
    "distinct chs" "q \<in> set (ids t)" "q \<notin> set (ids u)" "rep (skel T) q u"
    using rep_hook [OF d assms(2,3)] by blast
  obtain und where und: "node_at T (wkey u) = Some und" "n_parent und = q"
    using h(1) by (auto simp: skel_def strip_def)
  obtain qnd qc where "node_at T q = Some qnd" "n_parent qnd = pq" "n_content qnd = CContainer qc" "c_layout qc = l" "c_children qc = chs"
    using h(2) by (auto simp: skel_split)
  then show ?thesis using that und h by blast
qed

lemma fresh_key:
  assumes "slot_ok K" "links K T t"
  shows "next_key K T \<notin> set (ids t)" "node_at T (next_key K T) = None" "sm_count (t_nodes T) \<le> n \<Longrightarrow> key K n \<notin> set (ids t)"
proof -
  show fresh: "key K n \<notin> set (ids t)" if "sm_count (t_nodes T) \<le> n" for n
  proof
    assume "key K n \<in> set (ids t)"
    then obtain m where "m < sm_count (t_nodes T)" "key K n = key K m" using assms(2) by (auto simp: links_def)
    then show False using assms(1) that by (simp add: slot_ok_def inj_eq)
  qed
  then show "next_key K T \<notin> set (ids t)" by (simp add: next_key_def)
  then have "next_key K T \<notin> dom (skel T)" using assms(2) by (simp add: links_def)
  then show "node_at T (next_key K T) = None" by (auto simp: skel_def)
qed

section \<open>Inserting and splitting\<close>

text \<open>The default of \<open>winheight\<close> and \<open>winwidth\<close>: the focused window asks for nothing.\<close>

definition no_size_policy :: "win_opts \<Rightarrow> bool" where
  "no_size_policy W \<longleftrightarrow> win_height W = 0 \<and> win_width W = 0"

lemma relayout_plain: "no_size_policy W \<Longrightarrow> relayout W T = recalculate T"
  by (cases "recalculate T") (simp_all add: relayout_def apply_win_size_policy_def apply_size_policy_def no_size_policy_def)

lemma skel_node: "node_at T k = Some nd \<Longrightarrow> skel T k = Some (strip nd)"
  by (simp add: skel_def)

lemma skel_dom: "dom (skel T) = {k. node_at T k \<noteq> None}"
  by (auto simp: skel_def)

lemma unpinned_set_node: "unpinned T \<Longrightarrow> \<not> pinned_node nd \<Longrightarrow> unpinned (set_node k nd T)"
  by (simp add: unpinned_def store_simps)

definition pinned_view :: "'k view \<Rightarrow> bool" where
  "pinned_view v \<longleftrightarrow> v_winfixheight v \<or> v_winfixwidth v"

lemma pinned_simps [simp]:
  "pinned_node (nd\<lparr>n_parent := p\<rparr>) = pinned_node nd" "pinned_node (nd\<lparr>n_weight := w\<rparr>) = pinned_node nd"
  "\<not> pinned_node (nd\<lparr>n_content := CContainer c\<rparr>)" "\<not> pinned_node (node_container K l)"
  "pinned_node (nd\<lparr>n_content := CView v\<rparr>) = pinned_view v"
  "pinned_node (node_view K v) = pinned_view v" "pinned_view (v\<lparr>v_id := k\<rparr>) = pinned_view v"
  by (simp_all add: pinned_node_def node_container_def node_view_def pinned_view_def)

lemma container_mut_eq:
  "node_at T k = Some nd \<Longrightarrow> n_content nd = CContainer c \<Longrightarrow>
     container_mut k f T = Some (set_node k (nd\<lparr>n_content := CContainer (f c)\<rparr>) T)"
  by (simp add: container_mut_def)

lemma container_at_eq:
  "node_at T k = Some nd \<Longrightarrow> n_content nd = CContainer c \<Longrightarrow> container_at T k = Some c"
  by (simp add: container_at_def)

text \<open>What a new window is: a leaf with its own key, hung on \<open>parent\<close>.\<close>

definition new_leaf :: "'k slot_api \<Rightarrow> 'k view \<Rightarrow> 'k \<Rightarrow> 'k \<Rightarrow> 'k node" where
  "new_leaf K v parent k = (node_view K v)\<lparr>n_parent := parent, n_content := CView (v\<lparr>v_id := k\<rparr>)\<rparr>"

lemma strip_new_leaf [simp]: "strip (new_leaf K v parent k) = (parent, Inl k)"
  by (simp add: strip_def new_leaf_def)

lemma pinned_new_leaf [simp]: "pinned_node (new_leaf K v parent k) = pinned_view v"
  by (simp add: new_leaf_def)

lemma set_node_set_node [simp]: "set_node k nd' (set_node k nd T) = set_node k nd' T"
  by (simp add: set_node_def)

lemma get_mut_new:
  "get_mut k (\<lambda>v. v\<lparr>v_id := k\<rparr>) (set_node k ((node_view K v)\<lparr>n_parent := p\<rparr>) T) = Some (set_node k (new_leaf K v p k) T)"
  "get_mut k (\<lambda>v. v\<lparr>v_id := k\<rparr>) (set_node k (node_view K v) T) = Some (set_node k (new_leaf K v (null_key K) k) T)"
  by (simp_all add: get_mut_def store_simps node_view_def new_leaf_def)

text \<open>A window beside the focus, in the container of the focus.\<close>

lemma links_beside:
  assumes K: "slot_ok K" and T: "links K T t" and u: "u \<in> set (subtrees t)" "u = WLeaf f" "f \<noteq> wkey t"
    and n: "node_at T f = Some fnd" "n_parent fnd = q" "node_at T q = Some qnd" "n_content qnd = CContainer qc"
    and T': "T' = set_node q (qnd\<lparr>n_content := CContainer (set_children chs qc)\<rparr>) (set_node k (new_leaf K v q k)
        (T\<lparr>t_nodes := (t_nodes T)\<lparr>sm_count := sm_count (t_nodes T) + 1\<rparr>\<rparr>))"
    and k: "k = next_key K T"
    and chs: "chs = concat (map (\<lambda>i. if i = f then (if before then [k, f] else [f, k]) else [i]) (c_children qc))"
  shows "links K T' (graft f (if before then [WLeaf k, WLeaf f] else [WLeaf f, WLeaf k]) t)"
proof -
  have f: "wkey u = f" "ids u = [f]" using u(2) by simp_all
  have s: "skel T f = Some (q, snd (strip fnd))" "skel T q = Some (n_parent qnd, Inr (c_layout qc, c_children qc))"
    using n by (simp_all add: skel_node strip_def)
  obtain i where "skel T f = Some (i, Inl f)"
    using rep_subtree [of "skel T" "t_root T" t u] T u(1,2) by (auto simp: links_def)
  then have leaf: "skel T f = Some (q, Inl f)" using s(1) by simp
  have ft: "f \<in> set (ids t)" using subtree_ids [OF u(1)] f(2) by simp
  have k': "k \<notin> set (ids t)" "k \<noteq> f" using fresh_key(1) [OF K T] ft by (auto simp: k)
  have "q \<in> dom (skel T)" using s(2) by auto
  then have q: "q \<in> set (ids t)" "q \<noteq> k" using T k'(1) by (auto simp: links_def)
  have "q \<noteq> f" using leaf s(2) by auto
  have skel': "skel T' = (skel T)(k \<mapsto> (q, Inl k), q \<mapsto> (n_parent qnd, Inr (c_layout qc, chs)))"
    using q(2) by (auto simp: T' skel_def store_simps fun_eq_iff)
  have "links K T' (graft (wkey u) (if before then [WLeaf k, WLeaf f] else [WLeaf f, WLeaf k]) t)"
  proof (rule links_graft [OF T u(1)])
    show "wkey u \<noteq> wkey t" using u(3) f(1) by simp
    show "skel T (wkey u) = Some (q, Inl f)" using leaf f(1) by simp
    show "skel T q = Some (n_parent qnd, Inr (c_layout qc, c_children qc))" by (rule s(2))
    show "skel T' q = Some (n_parent qnd, Inr (c_layout qc,
        concat (map (\<lambda>i. if i = wkey u then map wkey (if before then [WLeaf k, WLeaf f] else [WLeaf f, WLeaf k]) else [i])
          (c_children qc))))"
      by (cases before) (simp_all add: skel' chs f(1) cong: if_cong)
    show "skel T' i = skel T i" if "i \<in> set (ids t)" "i \<notin> set (ids u)" "i \<noteq> q" for i
      using that k'(1) by (auto simp: skel')
    show "rep (skel T') q w" if "w \<in> set (if before then [WLeaf k, WLeaf f] else [WLeaf f, WLeaf k])" for w
      using that leaf q(2) k'(2) \<open>q \<noteq> f\<close> by (auto simp: skel' split: if_splits)
    show "distinct (concat (map ids (if before then [WLeaf k, WLeaf f] else [WLeaf f, WLeaf k])))" using k'(2) by simp
    show "set (concat (map ids (if before then [WLeaf k, WLeaf f] else [WLeaf f, WLeaf k]))) \<inter> (set (ids t) - set (ids u)) = {}"
      using k'(1) f(2) by auto
    show "dom (skel T') = set (ids t) - set (ids u) \<union> set (concat (map ids (if before then [WLeaf k, WLeaf f] else [WLeaf f, WLeaf k])))"
      using T ft q(1) unfolding skel' by (auto simp: links_def f(2))
    show "set (concat (map ids (if before then [WLeaf k, WLeaf f] else [WLeaf f, WLeaf k]))) \<subseteq> key K ` {..<sm_count (t_nodes T')}"
    proof -
      have "f \<in> key K ` {..<sm_count (t_nodes T)}" using T ft by (auto simp: links_def)
      then show ?thesis by (auto simp: T' k next_key_def)
    qed
  qed (use T in \<open>simp_all add: T' links_def\<close>)
  then show ?thesis by (simp only: f(1))
qed

lemma length_le_narrow: "length (ids t) \<le> 128 \<Longrightarrow> narrow t"
proof (induction t)
  case (WSplit k l ts)
  have "length ts \<le> length (concat (map ids ts))"
  proof (induction ts)
    case (Cons t ts)
    then show ?case by (cases t) simp_all
  qed simp
  moreover have "length (ids t) \<le> length (concat (map ids ts))" if "t \<in> set ts" for t
    using that by (induction ts) auto
  ultimately show ?case using WSplit by (fastforce simp: list_all_iff)
qed simp

lemma full_beside:
  assumes "root_full t" "list_all full us" "us \<noteq> []"
  shows "root_full (graft f us t)"
proof -
  obtain k l ts where t: "t = WSplit k l ts" using assms(1) by (cases t) auto
  then show ?thesis
    using assms graft_full [OF _ assms(2,3)] by (auto simp: list_all_iff)
qed

text \<open>A node of the tree that has a parent other than itself is a window or a split below the root.\<close>

lemma wf_focus:
  assumes "wf_tree K T t" "leaves t \<noteq> []"
  shows "WLeaf (t_focus T) \<in> set (subtrees t)" "t_focus T \<noteq> wkey t" "t_focus T \<in> set (leaves t)"
proof -
  show f: "t_focus T \<in> set (leaves t)" using assms by (simp add: wf_tree_def)
  then show s: "WLeaf (t_focus T) \<in> set (subtrees t)" by (rule leaf_subtree)
  show "t_focus T \<noteq> wkey t"
  proof
    assume e: "t_focus T = wkey t"
    obtain l ts where t: "t = WSplit (t_root T) l ts" by (rule wf_root [OF assms(1)])
    have "WLeaf (t_focus T) = t"
      using subtree_unique [OF _ s self_subtree] assms(1) e by (simp add: wf_tree_def)
    then show False using t by simp
  qed
qed

lemma grafted_leaves:
  assumes "distinct (ids t)" "WLeaf f \<in> set (subtrees t)" "f \<noteq> wkey t"
  shows "\<exists>xs ys. leaves t = xs @ f # ys \<and> leaves (graft f us t) = xs @ concat (map leaves us) @ ys"
  using graft_order [OF assms(1,2), of us] assms(3) by auto

lemma grafted_length:
  assumes "distinct (ids t)" "WLeaf f \<in> set (subtrees t)" "f \<noteq> wkey t"
  shows "length (ids (graft f us t)) + 1 = length (ids t) + length (concat (map ids us))"
  using graft_order [OF assms(1,2), of us] assms(3) by auto

text \<open>After the links are set, the new window gets the focus and the layout is recalculated.\<close>

lemma finish:
  assumes "links K T t" "root_full t" "k \<in> set (leaves t)" "unpinned T" "fits (t_area T)" "length (ids t) \<le> 128" "no_size_policy W"
  shows "\<exists>T'. relayout W (T\<lparr>t_focus := k\<rparr>) = Some T' \<and> wf_tree K T' t \<and> layable T' t \<and> shown T' t \<and> t_focus T' = k \<and>
    skel T' = skel T \<and> weight_of T' = weight_of T \<and> t_area T' = t_area T"
proof -
  have w: "wf_tree K (T\<lparr>t_focus := k\<rparr>) t"
    using assms(1-3) by (auto simp: wf_tree_links links_def)
  have "layable (T\<lparr>t_focus := k\<rparr>) t"
    using assms(4-6) length_le_narrow by (simp add: layable_def unpinned_def)
  from recalculate_ok [OF w this] obtain ps where
    "recalculate (T\<lparr>t_focus := k\<rparr>) = Some (put_areas ps (T\<lparr>t_focus := k\<rparr>))"
    "wf_tree K (put_areas ps (T\<lparr>t_focus := k\<rparr>)) t" "layable (put_areas ps (T\<lparr>t_focus := k\<rparr>)) t"
    "shown (put_areas ps (T\<lparr>t_focus := k\<rparr>)) t" by blast
  then show ?thesis using relayout_plain [OF assms(7), of "T\<lparr>t_focus := k\<rparr>"] by simp
qed

text \<open>Inserting: beside the focus, or as the only window.\<close>

definition inserted :: "'k \<Rightarrow> 'k \<Rightarrow> 'k wtree \<Rightarrow> 'k wtree" where
  "inserted f k t = (case t of
     WSplit r l [] \<Rightarrow> WSplit r l [WLeaf k] | _ \<Rightarrow> graft f [WLeaf f, WLeaf k] t)"

lemma tree_insert_ok:
  assumes K: "slot_ok K" and wf: "wf_tree K T t" and lay: "layable T t" and v: "\<not> pinned_view v"
    and small: "length (ids t) < 128" and W: "no_size_policy W"
  shows "\<exists>T'. tree_insert K W v T = Some (next_key K T, T') \<and> wf_tree K T' (inserted (t_focus T) (next_key K T) t) \<and>
    layable T' (inserted (t_focus T) (next_key K T) t) \<and> shown T' (inserted (t_focus T) (next_key K T) t) \<and> t_focus T' = next_key K T \<and> t_area T' = t_area T"
proof -
  let ?k = "next_key K T"
  let ?T0 = "T\<lparr>t_nodes := (t_nodes T)\<lparr>sm_count := sm_count (t_nodes T) + 1\<rparr>\<rparr>"
  have L: "links K T t" and full: "root_full t" using wf by (simp_all add: wf_tree_links)
  have un: "unpinned T" "fits (t_area T)" using lay by (simp_all add: layable_def)
  obtain l ts where t: "t = WSplit (t_root T) l ts" and tf: "list_all full ts"
    and root: "skel T (t_root T) = Some (t_root T, Inr (l, map wkey ts))" by (rule wf_root [OF wf])
  have d: "distinct (ids t)" using L by (simp add: links_def)
  show ?thesis
  proof (cases "ts = []")
    case True
    then have f: "t_focus T = t_root T" using wf t by (simp add: wf_tree_def)
    obtain nd c where nd: "node_at T (t_root T) = Some nd" "n_parent nd = t_root T" "n_content nd = CContainer c"
      "c_layout c = l" "c_children c = []" using root True by (auto simp: skel_split)
    define T1 where "T1 = set_node (t_root T) (nd\<lparr>n_content := CContainer (set_children [?k] c)\<rparr>)
        (set_node ?k (new_leaf K v (t_root T) ?k) ?T0)"
    have fresh: "?k \<noteq> t_root T" using fresh_key(1) [OF K L] t by auto
    have run: "tree_insert K W v T = do { T \<leftarrow> relayout W (T1\<lparr>t_focus := ?k\<rparr>); Some (?k, T) }"
      using fresh nd f by (simp add: tree_insert_def slot_insert_eq get_mut_new container_at_def container_mut_def
          store_simps insert_pos_def vec_insert_def T1_def Let_def)
    have skel': "skel T1 = (skel T)(?k \<mapsto> (t_root T, Inl ?k), t_root T \<mapsto> (t_root T, Inr (l, [?k])))"
      using fresh nd by (auto simp: T1_def skel_def store_simps fun_eq_iff)
    have L1: "links K T1 (WSplit (t_root T) l [WLeaf ?k])"
      using L fresh unfolding links_def skel' t True by (auto simp: T1_def next_key_def)
    have "unpinned T1" using un(1) v unfolding T1_def by (intro unpinned_set_node) (simp_all add: unpinned_def)
    then show ?thesis
      using finish [OF L1, of ?k W] un(2) W unfolding run by (auto simp: inserted_def t True T1_def)
  next
    case False
    then have lv: "leaves t \<noteq> []" using root_full_leaves [OF tf] t by simp
    note F = wf_focus [OF wf lv]
    obtain q x pq lq chs und qnd qc where h: "node_at T (wkey (WLeaf (t_focus T))) = Some und" "n_parent und = q"
      "node_at T q = Some qnd" "n_content qnd = CContainer qc" "c_children qc = chs"
      "wkey (WLeaf (t_focus T)) \<in> set chs" "distinct chs" "q \<in> set (ids t)"
      using links_hook [OF L F(1)] F(2) by (metis wtree.sel(1))
    have ne: "q \<noteq> ?k" using h(8) fresh_key(1) [OF K L] by auto
    define chs' where "chs' = concat (map (\<lambda>i. if i = t_focus T then (if False then [?k, t_focus T] else [t_focus T, ?k]) else [i]) (c_children qc))"
    define T1 where "T1 = set_node q (qnd\<lparr>n_content := CContainer (set_children chs' qc)\<rparr>) (set_node ?k (new_leaf K v q ?k) ?T0)"
    obtain pos where pos: "insert_pos False (t_focus T) chs = Some pos" "vec_insert pos ?k chs = chs'"
      using vec_insert_child [of "t_focus T" chs ?k False] h(5-7) by (auto simp: chs'_def)
    have run: "tree_insert K W v T = do { T \<leftarrow> relayout W (T1\<lparr>t_focus := ?k\<rparr>); Some (?k, T) }"
      using ne h pos by (simp add: tree_insert_def slot_insert_eq get_mut_new container_at_def container_mut_def
          store_simps T1_def Let_def)
    have L1: "links K T1 (graft (t_focus T) (if False then [WLeaf ?k, WLeaf (t_focus T)] else [WLeaf (t_focus T), WLeaf ?k]) t)"
      using links_beside [OF K L F(1) refl F(2) _ h(2-4) T1_def refl chs'_def] h(1) by simp
    have "unpinned T1" using un(1) v unfolding T1_def by (intro unpinned_set_node) (simp_all add: unpinned_def)
    moreover have "?k \<in> set (leaves (graft (t_focus T) [WLeaf (t_focus T), WLeaf ?k] t))"
      using grafted_leaves [OF d F(1,2), of "[WLeaf (t_focus T), WLeaf ?k]"] by auto
    moreover have "length (ids (graft (t_focus T) [WLeaf (t_focus T), WLeaf ?k] t)) \<le> 128"
      using grafted_length [OF d F(1,2), of "[WLeaf (t_focus T), WLeaf ?k]"] small by simp
    moreover have "root_full (graft (t_focus T) [WLeaf (t_focus T), WLeaf ?k] t)" using full by (intro full_beside) simp_all
    moreover have "inserted (t_focus T) ?k t = graft (t_focus T) [WLeaf (t_focus T), WLeaf ?k] t"
      using False unfolding t inserted_def by (cases ts) simp_all
    ultimately show ?thesis
      using finish [OF _ _ _ _ _ _ W, of K T1 "graft (t_focus T) [WLeaf (t_focus T), WLeaf ?k] t" ?k] L1 un(2)
      unfolding run by (auto simp: T1_def)
  qed
qed

text \<open>
  Splitting: beside the focus where its container already has the wanted layout, else a new split of
  the focus and the new window takes the place of the focus.
\<close>

fun split_beside :: "layout \<Rightarrow> 'k \<Rightarrow> 'k wtree list \<Rightarrow> 'k wtree \<Rightarrow> 'k wtree \<Rightarrow> 'k wtree" where
  "split_beside l f us w (WLeaf k) = WLeaf k"
| "split_beside l f us w (WSplit k m ts) =
     WSplit k m (concat (map (\<lambda>t. if wkey t = f then (if m = l then us else [w]) else [split_beside l f us w t]) ts))"

lemma split_beside_graft:
  assumes "rep s p t" "s f = Some (q, x)" "s q = Some (pq, Inr (m, chs))"
  shows "split_beside l f us w t = graft f (if m = l then us else [w]) t"
  using assms(1)
proof (induction t arbitrary: p)
  case (WSplit k m' ts)
  have "(if wkey t = f then (if m' = l then us else [w]) else [split_beside l f us w t]) =
      (if wkey t = f then (if m = l then us else [w]) else [graft f (if m = l then us else [w]) t])"
    if t: "t \<in> set ts" for t
  proof -
    have r: "rep s k t" using WSplit.prems t by (simp add: list_all_iff)
    have "m' = m" if "wkey t = f" using rep_parent [OF r] that assms(2,3) WSplit.prems by auto
    then show ?thesis using WSplit.IH [OF t r] by simp
  qed
  then show ?case by (simp cong: map_cong if_cong)
qed simp

definition pair_of :: "bool \<Rightarrow> 'k \<Rightarrow> 'k \<Rightarrow> 'k list" where
  "pair_of before f k = (if before then [k, f] else [f, k])"

definition splitted :: "layout \<Rightarrow> bool \<Rightarrow> 'k \<Rightarrow> 'k \<Rightarrow> 'k \<Rightarrow> 'k wtree \<Rightarrow> 'k wtree" where
  "splitted l before f k s t = split_beside l f (map WLeaf (pair_of before f k)) (WSplit s l (map WLeaf (pair_of before f k))) t"

lemma set_node_commute: "k \<noteq> q \<Longrightarrow> set_node k a (set_node q b T) = set_node q b (set_node k a T)"
  by (simp add: set_node_def fun_upd_twist)

lemma set_node_overwrite:
  "set_node k a (set_node f b (set_node s c (set_node k d T))) = set_node k a (set_node f b (set_node s c T))"
proof -
  have "m(k \<mapsto> d, s \<mapsto> c, f \<mapsto> b, k \<mapsto> a) = m(s \<mapsto> c, f \<mapsto> b, k \<mapsto> a)" for m :: "'a \<rightharpoonup> 'a node"
    by (simp add: fun_eq_iff)
  then show ?thesis by (simp add: set_node_def)
qed

lemma set_node_count:
  "(set_node k nd T)\<lparr>t_nodes := (t_nodes (set_node k nd T))\<lparr>sm_count := n\<rparr>\<rparr> = set_node k nd (T\<lparr>t_nodes := (t_nodes T)\<lparr>sm_count := n\<rparr>\<rparr>)"
  by (simp add: set_node_def)

text \<open>The links when a new split takes the place of the focus.\<close>

lemma links_wrap:
  assumes K: "slot_ok K" and T: "links K T t" and u: "u \<in> set (subtrees t)" "u = WLeaf f" "f \<noteq> wkey t"
    and n: "node_at T f = Some fnd" "n_parent fnd = q" "node_at T q = Some qnd" "n_content qnd = CContainer qc"
    and ks: "k = key K (sm_count (t_nodes T))" "s = key K (sm_count (t_nodes T) + 1)"
    and T': "skel T' = (skel T)(k \<mapsto> (s, Inl k), f \<mapsto> (s, snd (strip fnd)), s \<mapsto> (q, Inr (l, pair_of before f k)),
       q \<mapsto> (n_parent qnd, Inr (c_layout qc, concat (map (\<lambda>i. if i = f then [s] else [i]) (c_children qc)))))"
    and frame: "sm_count (t_nodes T') = sm_count (t_nodes T) + 2" "t_root T' = t_root T" "t_stack T' = t_stack T"
  shows "links K T' (graft f [WSplit s l (map WLeaf (pair_of before f k))] t)"
proof -
  have f: "wkey u = f" "ids u = [f]" using u(2) by simp_all
  have s: "skel T f = Some (q, snd (strip fnd))" "skel T q = Some (n_parent qnd, Inr (c_layout qc, c_children qc))"
    using n by (simp_all add: skel_node strip_def)
  obtain i where "skel T f = Some (i, Inl f)"
    using rep_subtree [of "skel T" "t_root T" t u] T u(1,2) by (auto simp: links_def)
  then have leaf: "skel T f = Some (q, Inl f)" "snd (strip fnd) = Inl f" using s(1) by simp_all
  have ft: "f \<in> set (ids t)" using subtree_ids [OF u(1)] f(2) by simp
  have fresh: "k \<notin> set (ids t)" "s \<notin> set (ids t)" "k \<noteq> s"
    using fresh_key(3) [OF K T] K unfolding ks by (auto simp: slot_ok_def inj_eq)
  have "q \<in> dom (skel T)" using s(2) by auto
  then have q: "q \<in> set (ids t)" "q \<noteq> k" "q \<noteq> s" using T fresh by (auto simp: links_def)
  have ne: "q \<noteq> f" "f \<noteq> k" "f \<noteq> s" using leaf s(2) ft fresh by auto
  let ?w = "WSplit s l (map WLeaf (pair_of before f k))"
  have idw: "set (ids ?w) = {s, f, k}" "distinct (ids ?w)" using ne fresh(3) by (auto simp: pair_of_def)
  have "links K T' (graft (wkey u) [?w] t)"
  proof (rule links_graft [OF T u(1)])
    show "wkey u \<noteq> wkey t" using u(3) f(1) by simp
    show "skel T (wkey u) = Some (q, Inl f)" using leaf f(1) by simp
    show "skel T q = Some (n_parent qnd, Inr (c_layout qc, c_children qc))" by (rule s(2))
    show "skel T' q = Some (n_parent qnd, Inr (c_layout qc, concat (map (\<lambda>i. if i = wkey u then map wkey [?w] else [i]) (c_children qc))))"
      by (simp add: T' f(1) cong: if_cong)
    show "skel T' i = skel T i" if "i \<in> set (ids t)" "i \<notin> set (ids u)" "i \<noteq> q" for i
      using that fresh f(2) by (auto simp: T')
    show "rep (skel T') q w" if "w \<in> set [?w]" for w
      using that leaf(2) q ne fresh(3) by (auto simp: T' pair_of_def comp_def)
    show "distinct (concat (map ids [?w]))" using idw(2) by simp
    show "set (concat (map ids [?w])) \<inter> (set (ids t) - set (ids u)) = {}"
      using fresh f(2) idw(1) by auto
    show "dom (skel T') = set (ids t) - set (ids u) \<union> set (concat (map ids [?w]))"
      using T ft q(1) idw(1) unfolding T' by (auto simp: links_def f(2))
    show "set (concat (map ids [?w])) \<subseteq> key K ` {..<sm_count (t_nodes T')}"
    proof -
      have "f \<in> key K ` {..<sm_count (t_nodes T)}" using T ft by (auto simp: links_def)
      then show ?thesis using idw(1) by (auto simp: frame ks)
    qed
  qed (use T in \<open>simp_all add: frame links_def\<close>)
  then show ?thesis by (simp only: f(1))
qed

lemma leaves_of_pair [simp]: "concat (map leaves (map WLeaf xs)) = xs" "concat (map ids (map WLeaf xs)) = xs"
  by (induction xs) simp_all

lemma split_with_ok:
  assumes K: "slot_ok K" and wf: "wf_tree K T t" and lay: "layable T t" and v: "\<not> pinned_view v"
    and small: "length (ids t) < 127" and W: "no_size_policy W" and lv: "leaves t \<noteq> []"
  defines "k \<equiv> next_key K T" and "s \<equiv> key K (sm_count (t_nodes T) + 1)"
  shows "\<exists>T'. split_with K W v l before T = Some (k, T') \<and> wf_tree K T' (splitted l before (t_focus T) k s t) \<and>
    layable T' (splitted l before (t_focus T) k s t) \<and> shown T' (splitted l before (t_focus T) k s t) \<and> t_focus T' = k \<and> t_area T' = t_area T"
proof -
  let ?T0 = "T\<lparr>t_nodes := (t_nodes T)\<lparr>sm_count := sm_count (t_nodes T) + 1\<rparr>\<rparr>"
  let ?f = "t_focus T"
  have L: "links K T t" and full: "root_full t" using wf by (simp_all add: wf_tree_links)
  have un: "unpinned T" "fits (t_area T)" using lay by (simp_all add: layable_def)
  have d: "distinct (ids t)" "rep (skel T) (t_root T) t" using L by (simp_all add: links_def)
  note F = wf_focus [OF wf lv]
  obtain q x pq lq chs und qnd qc where h: "node_at T (wkey (WLeaf ?f)) = Some und" "n_parent und = q"
    "skel T (wkey (WLeaf ?f)) = Some (q, x)" "node_at T q = Some qnd" "n_parent qnd = pq" "n_content qnd = CContainer qc"
    "c_layout qc = lq" "c_children qc = chs" "skel T q = Some (pq, Inr (lq, chs))"
    "wkey (WLeaf ?f) \<in> set chs" "distinct chs" "q \<in> set (ids t)"
    by (rule links_hook [OF L F(1)]) (use F(2) in simp_all)
  have ks: "k = next_key K T" "k = key K (sm_count (t_nodes T))" "s = key K (sm_count (t_nodes T) + 1)"
    by (simp_all add: k_def s_def next_key_def)
  have fresh: "k \<notin> set (ids t)" "s \<notin> set (ids t)" "k \<noteq> s"
    using fresh_key(3) [OF K L] K unfolding k_def s_def next_key_def by (auto simp: slot_ok_def inj_eq)
  have ft: "?f \<in> set (ids t)" using F(3) leaves_ids by fastforce
  have ne: "q \<noteq> k" "q \<noteq> s" "?f \<noteq> k" "?f \<noteq> s" "chs \<noteq> []" using h(10,12) ft fresh by auto
  have "?f \<noteq> q" using h(3,9) rep_leaf [OF d(2) F(3)] by auto
  have sp: "splitted l before ?f k s t =
      graft ?f (if lq = l then map WLeaf (pair_of before ?f k) else [WSplit s l (map WLeaf (pair_of before ?f k))]) t"
    using split_beside_graft [OF d(2) h(3) [unfolded wtree.sel] h(9)] by (simp add: splitted_def)
  define us where "us = (if lq = l then map WLeaf (pair_of before ?f k) else [WSplit s l (map WLeaf (pair_of before ?f k))])"
  have us: "list_all full us" "us \<noteq> []" "concat (map leaves us) = pair_of before ?f k" "length (concat (map ids us)) \<le> 3"
    by (auto simp: us_def pair_of_def)
  have "\<exists>T1. split_with K W v l before T = do { T \<leftarrow> relayout W (T1\<lparr>t_focus := k\<rparr>); Some (k, T) } \<and>
      links K T1 (graft ?f us t) \<and> unpinned T1 \<and> t_area T1 = t_area T"
  proof (cases "lq = l")
    case True
    define chs' where "chs' = concat (map (\<lambda>i. if i = ?f then (if before then [k, ?f] else [?f, k]) else [i]) (c_children qc))"
    obtain pos where pos: "insert_pos before ?f chs = Some pos" "vec_insert pos k chs = chs'"
      using vec_insert_child [of ?f chs k before] h(8,10,11) by (auto simp: chs'_def)
    define T1 where "T1 = set_node q (qnd\<lparr>n_content := CContainer (set_children chs' qc)\<rparr>) (set_node k (new_leaf K v q k) ?T0)"
    have nl: "(new_leaf K v (null_key K) k)\<lparr>n_parent := q\<rparr> = new_leaf K v q k" by (simp add: new_leaf_def)
    have "split_with K W v l before T = do { T \<leftarrow> relayout W (T1\<lparr>t_focus := k\<rparr>); Some (k, T) }"
      using ne h pos True set_node_commute [of k q "new_leaf K v q k"] nl
      by (simp add: split_with_def slot_insert_eq k_def [symmetric] get_mut_new container_at_def container_mut_def
          set_parent_def store_simps T1_def Let_def)
    moreover have "us = (if before then [WLeaf k, WLeaf ?f] else [WLeaf ?f, WLeaf k])"
      using True by (simp add: us_def pair_of_def)
    then have "links K T1 (graft ?f us t)"
      using links_beside [OF K L F(1) refl F(2) _ h(2,4,6) T1_def ks(1) chs'_def] h(1) by simp
    moreover have "unpinned T1" using un(1) v unfolding T1_def by (intro unpinned_set_node) (simp_all add: unpinned_def)
    ultimately show ?thesis by (auto simp: T1_def)
  next
    case False
    obtain pos where pos: "position (\<lambda>c. c = ?f) chs = Some pos"
      "chs[pos := s] = concat (map (\<lambda>i. if i = ?f then [s] else [i]) chs)"
      using replace_child [of ?f chs s] h(10,11) by auto
    define snd0 where "snd0 = (node_container K l)\<lparr>n_parent := q, n_content := CContainer (set_children (pair_of before ?f k) (container_new l))\<rparr>"
    define T1 where "T1 = set_node q (qnd\<lparr>n_content := CContainer (set_children (chs[pos := s]) qc)\<rparr>)
      (set_node k (new_leaf K v s k) (set_node ?f (und\<lparr>n_parent := s\<rparr>) (set_node s snd0
        (T\<lparr>t_nodes := (t_nodes T)\<lparr>sm_count := sm_count (t_nodes T) + 2\<rparr>\<rparr>))))"
    have nl: "(new_leaf K v (null_key K) k)\<lparr>n_parent := s\<rparr> = new_leaf K v s k" by (simp add: new_leaf_def)
    have sk: "next_key K (set_node i nd (T\<lparr>t_nodes := (t_nodes T)\<lparr>sm_count := Suc (sm_count (t_nodes T))\<rparr>\<rparr>)) = s" for i nd
      by (simp add: next_key_def s_def)
    have run: "split_with K W v l before T = do { T \<leftarrow> relayout W (T1\<lparr>t_focus := k\<rparr>); Some (k, T) }"
    proof -
      define c0 where "c0 = (node_container K l)\<lparr>n_parent := q\<rparr>"
      have c0: "n_content c0 = CContainer (container_new l)"
        "c0\<lparr>n_content := CContainer (set_children (c_children (container_new l) @ pair_of before ?f k) (container_new l))\<rparr> = snd0"
        by (simp_all add: c0_def snd0_def node_container_def container_new_def)
      show ?thesis
        using ne fresh(3) h(1,2,4,6-8) pos False \<open>?f \<noteq> q\<close> nl c0
        by (simp add: split_with_def slot_insert_eq ks(1) [symmetric] get_mut_new container_at_def container_mut_def
            set_parent_def store_simps T1_def Let_def sk set_node_count c0_def [symmetric] pair_of_def [symmetric] set_node_overwrite)
    qed
    have skel': "skel T1 = (skel T)(k \<mapsto> (s, Inl k), ?f \<mapsto> (s, snd (strip und)), s \<mapsto> (q, Inr (l, pair_of before ?f k)),
       q \<mapsto> (n_parent qnd, Inr (c_layout qc, concat (map (\<lambda>i. if i = ?f then [s] else [i]) (c_children qc)))))"
    proof -
      have "strip snd0 = (q, Inr (l, pair_of before ?f k))"
        by (simp add: snd0_def strip_def set_children_def container_new_def)
      then show ?thesis
        using ne fresh(3) h(8) pos(2) \<open>?f \<noteq> q\<close> by (auto simp: T1_def skel_def store_simps fun_eq_iff)
    qed
    have "links K T1 (graft ?f [WSplit s l (map WLeaf (pair_of before ?f k))] t)"
      by (rule links_wrap [OF K L F(1) refl F(2) _ h(2,4,6) ks(2,3) skel'])
        (use h(1) L in \<open>simp_all add: T1_def\<close>)
    moreover have "\<not> pinned_node und" using un(1) h(1) by (auto simp: unpinned_def)
    then have "unpinned T1" using un(1) v unfolding T1_def
      by (intro unpinned_set_node) (simp_all add: unpinned_def snd0_def)
    ultimately show ?thesis using run False by (auto simp: us_def T1_def)
  qed
  then obtain T1 where T1: "split_with K W v l before T = do { T \<leftarrow> relayout W (T1\<lparr>t_focus := k\<rparr>); Some (k, T) }"
    "links K T1 (graft ?f us t)" "unpinned T1" "t_area T1 = t_area T" by blast
  have "root_full (graft ?f us t)" by (rule full_beside [OF full us(1,2)])
  moreover have "k \<in> set (leaves (graft ?f us t))"
    using grafted_leaves [OF d(1) F(1,2), of us] us(3) by (auto simp: pair_of_def)
  moreover have "length (ids (graft ?f us t)) \<le> 128"
    using grafted_length [OF d(1) F(1,2), of us] us(4) small by linarith
  ultimately obtain T' where "relayout W (T1\<lparr>t_focus := k\<rparr>) = Some T'" "wf_tree K T' (graft ?f us t)"
    "layable T' (graft ?f us t)" "shown T' (graft ?f us t)" "t_focus T' = k" "t_area T' = t_area T"
    using finish [OF T1(2) _ _ T1(3) _ _ W, of k] un(2) T1(4) by auto
  then show ?thesis using T1(1) by (simp add: sp us_def)
qed

section \<open>Walking over the windows\<close>

definition turn :: "bool \<Rightarrow> 'a list \<Rightarrow> 'a list" where
  "turn fwd xs = (if fwd then xs else rev xs)"

text \<open>
  An iterator over the windows with a stack of nodes to visit: it pops a node, hands out a window, and
  goes on with the children of a split, in order or backwards.
\<close>

locale walker =
  fixes T :: "'k tree"
    and nxt :: "'k list \<Rightarrow> (('k \<times> 'k view) \<times> 'k list) option option"
    and fwd :: bool
  assumes at_end: "nxt [] = Some None"
    and at_view: "node_at T k = Some nd \<Longrightarrow> n_content nd = CView v \<Longrightarrow> nxt (k # st) = Some (Some ((k, v), st))"
    and at_split: "node_at T k = Some nd \<Longrightarrow> n_content nd = CContainer c \<Longrightarrow> nxt (k # st) = nxt (turn fwd (c_children c) @ st)"
begin

abbreviation visits :: "'k wtree list \<Rightarrow> 'k list" where
  "visits us \<equiv> concat (map (\<lambda>u. turn fwd (leaves u)) us)"

lemma step:
  assumes "\<And>u. u \<in> set us \<Longrightarrow> \<exists>p. rep (skel T) p u"
  shows "(visits us = [] \<longrightarrow> nxt (map wkey us) = Some None) \<and>
    (\<forall>k ks. visits us = k # ks \<longrightarrow> (\<exists>v us'. nxt (map wkey us) = Some (Some ((k, v), map wkey us')) \<and>
       visits us' = ks \<and> (\<forall>u\<in>set us'. \<exists>p. rep (skel T) p u)))"
  using assms
proof (induction "sum_list (map (\<lambda>u. length (ids u)) us)" arbitrary: us rule: less_induct)
  case less
  show ?case
  proof (cases us)
    case Nil
    then show ?thesis using at_end by simp
  next
    case (Cons u us')
    obtain p where p: "rep (skel T) p u" using less.prems Cons by auto
    show ?thesis
    proof (cases u)
      case (WLeaf k)
      then obtain nd v where "node_at T k = Some nd" "n_content nd = CView v" using p by (auto simp: skel_leaf)
      then show ?thesis using at_view less.prems Cons WLeaf by (auto simp: turn_def)
    next
      case (WSplit k l ts)
      obtain nd c where nd: "node_at T k = Some nd" "n_content nd = CContainer c" "c_children c = map wkey ts"
        using p WSplit by (auto simp: skel_split)
      have t: "turn fwd (map wkey ts) = map wkey (turn fwd ts)" by (simp add: turn_def rev_map)
      have v: "visits us = visits (turn fwd ts @ us')"
        unfolding Cons WSplit by (cases fwd) (simp_all add: turn_def rev_concat rev_map comp_def)
      have "set (turn fwd ts) = set ts" by (simp add: turn_def)
      moreover have "rep (skel T) k x" if "x \<in> set ts" for x using p WSplit that by (auto simp: list_all_iff)
      ultimately have reps: "\<exists>p. rep (skel T) p x" if "x \<in> set (turn fwd ts @ us')" for x
        using less.prems Cons that by auto
      have "sum_list (map (\<lambda>u. length (ids u)) (turn fwd ts)) = length (concat (map ids ts))"
        by (simp add: turn_def length_concat rev_map [symmetric] sum_list_rev comp_def)
      then have "sum_list (map (\<lambda>u. length (ids u)) (turn fwd ts @ us')) < sum_list (map (\<lambda>u. length (ids u)) us)"
        by (simp add: Cons WSplit)
      from less.hyps [OF this reps] show ?thesis
        unfolding v using at_split [OF nd(1,2), of "map wkey us'"] by (simp add: Cons WSplit nd(3) t)
    qed
  qed
qed

lemma drains:
  assumes "\<And>u. u \<in> set us \<Longrightarrow> \<exists>p. rep (skel T) p u"
  shows "drain nxt (map wkey us) = Some (visits us)"
  using assms
proof (induction "visits us" arbitrary: us)
  case Nil
  then have "visits us = []" by simp
  then have "nxt (map wkey us) = Some None" using step [of us] Nil.prems by blast
  then show ?case using Nil.hyps by (subst drain.simps) simp
next
  case (Cons k ks)
  then have "visits us = k # ks" by simp
  then obtain v us' where us': "nxt (map wkey us) = Some (Some ((k, v), map wkey us'))" "visits us' = ks"
    "\<forall>u\<in>set us'. \<exists>p. rep (skel T) p u"
    using step [of us] Cons.prems by blast
  have "drain nxt (map wkey us') = Some ks" using Cons.hyps(1) [of us'] us' by simp
  then show ?case using us'(1) \<open>visits us = k # ks\<close> by (subst drain.simps) simp
qed

end

interpretation ahead: walker T "traverse_next T" True for T
  by unfold_locales (subst traverse_next.simps; simp add: turn_def)+

interpretation behind: walker T "traverse_next_back T" False for T
  by unfold_locales (subst traverse_next_back.simps; simp add: turn_def)+

lemma traverse_leaves:
  assumes "rep (skel T) (t_root T) t" "wkey t = t_root T"
  shows "traverse_keys T = Some (leaves t)" "traverse_keys_back T = Some (rev (leaves t))"
  using ahead.drains [of "[t]" T] behind.drains [of "[t]" T] assms
  by (auto simp: traverse_keys_def traverse_keys_back_def turn_def)

lemma collect_leaves_rep: "rep (skel T) p t \<Longrightarrow> collect_leaves T (wkey t) out = Some (out @ leaves t)"
proof (induction t arbitrary: p out)
  case (WLeaf k)
  then show ?case by (subst collect_leaves.simps) (auto simp: skel_leaf)
next
  case (WSplit k l ts)
  then obtain nd c where nd: "node_at T k = Some nd" "n_content nd = CContainer c" "c_children c = map wkey ts"
    by (auto simp: skel_split)
  have "fold_opt (\<lambda>ch out. collect_leaves T ch out) (map wkey us) out = Some (out @ concat (map leaves us))"
    if "set us \<subseteq> set ts" for us out
    using that
  proof (induction us arbitrary: out)
    case (Cons u us)
    then have "collect_leaves T (wkey u) out = Some (out @ leaves u)"
      using WSplit.IH WSplit.prems by (auto simp: list_all_iff)
    then show ?case using Cons by simp
  qed simp
  then show ?case using nd by (subst collect_leaves.simps) simp
qed

lemma leaf_ids_rep:
  assumes "rep (skel T) (t_root T) t" "wkey t = t_root T"
  shows "leaf_ids T = Some (leaves t)"
  using collect_leaves_rep [OF assms(1), of "[]"] assms(2) by (simp add: leaf_ids_def)

lemma after_focus_split:
  assumes "f \<notin> set xs"
  shows "after_focus f (xs @ f # ys) = Some (hd (ys @ xs @ [f]))"
  using assms by (cases ys; cases xs) (auto simp: after_focus_def dropWhile_append)

lemma distinct_leaves: "distinct (ids t) \<Longrightarrow> distinct (leaves t)"
proof (induction t)
  case (WSplit k l ts)
  have "distinct (concat (map ids ts)) \<Longrightarrow> (\<And>t. t \<in> set ts \<Longrightarrow> distinct (leaves t)) \<Longrightarrow> distinct (concat (map leaves ts))" for ts :: "'a wtree list"
  proof (induction ts)
    case (Cons t ts)
    have "set (leaves t) \<inter> set (concat (map leaves ts)) = {}"
      using Cons.prems(1) leaves_ids [of t] leaves_ids by fastforce
    then show ?case using Cons by simp
  qed simp
  then show ?case using WSplit distinct_child [OF WSplit.prems] by simp
qed simp

lemma next_prev:
  assumes "wf_tree K T t" "leaves t = xs @ t_focus T # ys"
  shows "tree_next T = Some (hd (ys @ xs @ [t_focus T]))" "tree_prev T = Some (last (t_focus T # ys @ xs))"
proof -
  have r: "rep (skel T) (t_root T) t" "wkey t = t_root T" "distinct (ids t)" using assms(1) by (simp_all add: wf_tree_def)
  have "distinct (leaves t)" by (rule distinct_leaves [OF r(3)])
  then have n: "t_focus T \<notin> set xs" "t_focus T \<notin> set ys" using assms(2) by auto
  show "tree_next T = Some (hd (ys @ xs @ [t_focus T]))"
    using after_focus_split [OF n(1)] traverse_leaves(1) [OF r(1,2)] assms(2) by (simp add: tree_next_def)
  have "rev (leaves t) = rev ys @ t_focus T # rev xs" using assms(2) by simp
  then have "tree_prev T = Some (hd (rev xs @ rev ys @ [t_focus T]))"
    using after_focus_split [of "t_focus T" "rev ys" "rev xs"] n(2) traverse_leaves(2) [OF r(1,2)] by (simp add: tree_prev_def)
  also have "hd (rev xs @ rev ys @ [t_focus T]) = last (t_focus T # ys @ xs)"
    by (cases xs rule: rev_cases; cases ys rule: rev_cases) simp_all
  finally show "tree_prev T = Some (last (t_focus T # ys @ xs))" .
qed

section \<open>Removing\<close>

text \<open>The number of children can be read off the store.\<close>

lemma full_skel:
  "rep s p t \<Longrightarrow> full t \<longleftrightarrow> (\<forall>k\<in>set (ids t). \<forall>q l chs. s k = Some (q, Inr (l, chs)) \<longrightarrow> 2 \<le> length chs)"
proof (induction t arbitrary: p)
  case (WSplit k l ts)
  have "full t \<longleftrightarrow> (\<forall>k\<in>set (ids t). \<forall>q l chs. s k = Some (q, Inr (l, chs)) \<longrightarrow> 2 \<le> length chs)" if "t \<in> set ts" for t
    using WSplit.IH [OF that] WSplit.prems that by (auto simp: list_all_iff)
  then show ?case using WSplit.prems by (fastforce simp: list_all_iff)
qed simp

lemma root_full_skel:
  assumes "rep s p t" "distinct (ids t)"
  shows "root_full t \<longleftrightarrow> (\<exists>k l ts. t = WSplit k l ts) \<and>
    (\<forall>k\<in>set (ids t). k \<noteq> wkey t \<longrightarrow> (\<forall>q l chs. s k = Some (q, Inr (l, chs)) \<longrightarrow> 2 \<le> length chs))"
proof (cases t)
  case (WSplit k l ts)
  have f: "full u \<longleftrightarrow> (\<forall>k\<in>set (ids u). \<forall>q l chs. s k = Some (q, Inr (l, chs)) \<longrightarrow> 2 \<le> length chs)" if "u \<in> set ts" for u
    using full_skel [of s k u] assms(1) that WSplit by (auto simp: list_all_iff)
  have n: "i \<noteq> k" if "u \<in> set ts" "i \<in> set (ids u)" for u i using assms(2) that WSplit by auto
  have "list_all full ts \<longleftrightarrow> (\<forall>u\<in>set ts. \<forall>i\<in>set (ids u). i \<noteq> k \<longrightarrow> (\<forall>q l chs. s i = Some (q, Inr (l, chs)) \<longrightarrow> 2 \<le> length chs))"
    using f n unfolding list_all_iff by blast
  then show ?thesis unfolding WSplit by simp
qed simp

lemma rep_reparent:
  assumes "rep s p t" "distinct (ids t)" "s (wkey t) = Some (p, x)" "s' (wkey t) = Some (p', x)"
    and "\<And>k. k \<in> set (ids t) \<Longrightarrow> k \<noteq> wkey t \<Longrightarrow> s' k = s k"
  shows "rep s' p' t"
proof (cases t)
  case (WSplit k l ts)
  have "rep s' k u" if u: "u \<in> set ts" for u
  proof -
    have "k \<notin> set (ids u)" using assms(2) u WSplit by auto
    then have "rep s' k u = rep s k u" using assms(5) u WSplit by (intro rep_cong) auto
    then show ?thesis using assms(1) u WSplit by (auto simp: list_all_iff)
  qed
  then show ?thesis using assms(1,3,4) WSplit by (auto simp: list_all_iff)
qed (use assms in auto)

text \<open>Dropping a window from the container it hangs on.\<close>

lemma links_drop:
  assumes T: "links K T t" and u: "WLeaf f \<in> set (subtrees t)" "f \<noteq> wkey t"
    and n: "node_at T f = Some fnd" "n_parent fnd = q" "node_at T q = Some qnd" "n_content qnd = CContainer qc"
    and T': "skel T' = (skel T)(f := None, q \<mapsto> (n_parent qnd, Inr (c_layout qc, concat (map (\<lambda>i. if i = f then [] else [i]) (c_children qc)))))"
    and frame: "sm_count (t_nodes T') = sm_count (t_nodes T)" "t_root T' = t_root T" "t_stack T' = t_stack T"
    and ne: "q \<noteq> f"
  shows "links K T' (graft f [] t)"
proof -
  have s: "skel T f = Some (q, snd (strip fnd))" "skel T q = Some (n_parent qnd, Inr (c_layout qc, c_children qc))"
    using n by (simp_all add: skel_node strip_def)
  have "q \<in> dom (skel T)" using s(2) by auto
  then have q: "q \<in> set (ids t)" using T by (auto simp: links_def)
  have "links K T' (graft (wkey (WLeaf f)) [] t)"
    by (rule links_graft [OF T u(1), where q = q and pq = "n_parent qnd" and l = "c_layout qc" and chs = "c_children qc" and x = "snd (strip fnd)"])
      (use s u(2) ne q T in \<open>auto simp: T' frame links_def cong: if_cong\<close>)
  then show ?thesis by simp
qed

text \<open>A split with one child gives way to the child.\<close>

lemma links_collapse:
  assumes T: "links K T t" and u: "WSplit q l [sib] \<in> set (subtrees t)" "q \<noteq> wkey t"
    and n: "node_at T q = Some qnd" "n_parent qnd = g" "node_at T g = Some gnd" "n_content gnd = CContainer gc"
      "node_at T (wkey sib) = Some snd0"
    and T': "skel T' = (skel T)(q := None, g \<mapsto> (n_parent gnd, Inr (c_layout gc, concat (map (\<lambda>i. if i = q then [wkey sib] else [i]) (c_children gc)))),
      wkey sib \<mapsto> (g, snd (strip snd0)))"
    and frame: "sm_count (t_nodes T') = sm_count (t_nodes T)" "t_root T' = t_root T" "t_stack T' = t_stack T"
    and ne: "g \<notin> set (ids (WSplit q l [sib]))"
  shows "links K T' (graft q [sib] t)"
proof -
  have d: "rep (skel T) (t_root T) t" "distinct (ids t)" using T by (simp_all add: links_def)
  have s: "skel T q = Some (g, snd (strip qnd))" "skel T g = Some (n_parent gnd, Inr (c_layout gc, c_children gc))"
    "skel T (wkey sib) = Some (n_parent snd0, snd (strip snd0))"
    using n by (simp_all add: skel_node strip_def)
  obtain p where "rep (skel T) p (WSplit q l [sib])" using rep_subtree [OF d(1) u(1)] by blast
  then have sib: "rep (skel T) q sib" by simp
  have du: "distinct (ids (WSplit q l [sib]))" using d(2) u(1)
  proof (induction t)
    case (WSplit k m ts)
    then show ?case using distinct_child [OF WSplit.prems(1)] by auto
  qed simp
  have "g \<in> dom (skel T)" using s(2) by auto
  then have g: "g \<in> set (ids t)" using T by (auto simp: links_def)
  have sub: "set (ids (WSplit q l [sib])) \<subseteq> set (ids t)" by (rule subtree_ids [OF u(1)])
  have "links K T' (graft (wkey (WSplit q l [sib])) [sib] t)"
  proof (rule links_graft [OF T u(1), where q = g and pq = "n_parent gnd" and l = "c_layout gc" and chs = "c_children gc" and x = "snd (strip qnd)"])
    show "rep (skel T') g v" if "v \<in> set [sib]" for v
    proof -
      have "rep (skel T') g sib"
      proof (rule rep_reparent [OF sib, where x = "snd (strip snd0)"])
        show "distinct (ids sib)" using du by simp
        show "skel T (wkey sib) = Some (q, snd (strip snd0))" using s(3) rep_parent [OF sib] by auto
        show "skel T' (wkey sib) = Some (g, snd (strip snd0))" by (simp add: T')
        show "skel T' k = skel T k" if "k \<in> set (ids sib)" "k \<noteq> wkey sib" for k
          using that ne du by (auto simp: T')
      qed
      then show ?thesis using that by simp
    qed
    show "skel T' k = skel T k" if "k \<in> set (ids t)" "k \<notin> set (ids (WSplit q l [sib]))" "k \<noteq> g" for k
      using that wkey_ids [of sib] by (auto simp: T')
    have "g \<noteq> wkey sib" "g \<noteq> q" using ne wkey_ids [of sib] by auto
    then show "skel T' g = Some (n_parent gnd, Inr (c_layout gc,
        concat (map (\<lambda>k. if k = wkey (WSplit q l [sib]) then map wkey [sib] else [k]) (c_children gc))))"
      by (simp add: T' cong: if_cong)
    show "dom (skel T') = set (ids t) - set (ids (WSplit q l [sib])) \<union> set (concat (map ids [sib]))"
      using T g sub du wkey_ids [of sib] ne unfolding T' by (auto simp: links_def)
    show "set (concat (map ids [sib])) \<inter> (set (ids t) - set (ids (WSplit q l [sib]))) = {}" by auto
    show "set (concat (map ids [sib])) \<subseteq> key K ` {..<sm_count (t_nodes T')}"
      using sub T by (auto simp: frame links_def)
  qed (use s u(2) du T in \<open>auto simp: frame links_def\<close>)
  then show ?thesis by simp
qed

lemma slot_remove_set_node [simp]: "slot_remove k (set_node k nd T) = slot_remove k T"
  by (simp add: slot_remove_def set_node_def)

lemma drop_run:
  assumes "node_at T f = Some fnd" "n_parent fnd = q" "node_at T q = Some qnd" "n_content qnd = CContainer qc" "q \<noteq> f"
    and "f \<in> set (c_children qc)" "distinct (c_children qc)"
  shows "remove_or_replace f None T = Some (set_node q (qnd\<lparr>n_content := CContainer (set_children
    (concat (map (\<lambda>i. if i = f then [] else [i]) (c_children qc))) qc)\<rparr>) (slot_remove f T))"
proof -
  obtain pos where "position (\<lambda>c. c = f) (c_children qc) = Some pos"
    "vec_remove pos (c_children qc) = concat (map (\<lambda>i. if i = f then [] else [i]) (c_children qc))"
    using replace_child [OF assms(6,7)] by blast
  then show ?thesis
    using assms(1-5) by (simp add: remove_or_replace_def container_at_def container_mut_def store_simps Let_def)
qed

lemma replace_run:
  assumes "node_at T f = Some fnd" "n_parent fnd = q" "node_at T q = Some qnd" "n_content qnd = CContainer qc" "q \<noteq> f"
    and "f \<in> set (c_children qc)" "distinct (c_children qc)" "node_at T k = Some knd" "k \<noteq> f" "k \<noteq> q"
  shows "remove_or_replace f (Some k) T = Some (set_node k (knd\<lparr>n_parent := q\<rparr>) (set_node q (qnd\<lparr>n_content := CContainer (set_children
    (concat (map (\<lambda>i. if i = f then [k] else [i]) (c_children qc))) qc)\<rparr>) (slot_remove f T)))"
proof -
  obtain pos where "position (\<lambda>c. c = f) (c_children qc) = Some pos"
    "(c_children qc)[pos := k] = concat (map (\<lambda>i. if i = f then [k] else [i]) (c_children qc))"
    using replace_child [OF assms(6,7)] by blast
  then show ?thesis
    using assms(1-5,8-10) by (simp add: remove_or_replace_def container_at_def container_mut_def set_parent_def store_simps Let_def)
qed

lemma unpinned_remove: "unpinned T \<Longrightarrow> unpinned (slot_remove k T)"
  by (simp add: unpinned_def store_simps)

text \<open>
  The links after \<open>remove\<close> has dropped the window and, where its container is left with one child,
  merged that child into the container above.
\<close>

definition unhook :: "'k \<Rightarrow> 'k tree \<Rightarrow> 'k tree option" where
  "unhook f T =
     do {
       nd \<leftarrow> node_at T f;
       let parent = n_parent nd;
       T \<leftarrow> remove_or_replace f None T;
       c \<leftarrow> container_at T parent;
       if length (c_children c) = 1 \<and> parent \<noteq> t_root T
       then do {
         T \<leftarrow> container_mut parent (set_children (butlast (c_children c))) T;
         remove_or_replace parent (Some (last (c_children c))) T
       }
       else Some T
     }"

lemma tree_remove_unhook:
  "tree_remove W f T =
     do {
       T \<leftarrow> (if t_focus T = f then do { g \<leftarrow> tree_prev T; Some (T\<lparr>t_focus := g\<rparr>) } else Some T);
       T \<leftarrow> unhook f T;
       relayout W T
     }"
  by (simp add: tree_remove_def unhook_def Let_def)

text \<open>Every split of the store but the root has two children or more.\<close>

definition wide :: "'k skeleton \<Rightarrow> 'k \<Rightarrow> bool" where
  "wide s r \<longleftrightarrow> (\<forall>k p l chs. s k = Some (p, Inr (l, chs)) \<longrightarrow> k \<noteq> r \<longrightarrow> 2 \<le> length chs)"

lemma links_full:
  assumes "links K T t"
  shows "root_full t \<longleftrightarrow> (\<exists>k l ts. t = WSplit k l ts) \<and> wide (skel T) (t_root T)"
proof -
  have d: "rep (skel T) (t_root T) t" "distinct (ids t)" "wkey t = t_root T" "dom (skel T) = set (ids t)"
    using assms by (simp_all add: links_def)
  have "k \<in> set (ids t)" if "skel T k = Some x" for k x using that d(4) by auto
  then show ?thesis unfolding root_full_skel [OF d(1,2)] wide_def d(3) by blast
qed

lemma wide_drop:
  assumes "wide s r" "q = r \<or> 2 \<le> length chs'"
  shows "wide (s(f := None, q \<mapsto> (pq, Inr (l, chs')))) r"
  using assms by (auto simp: wide_def)

lemma wide_collapse:
  assumes "wide (s(q := None)) r" "s g = Some (pg, Inr (lg, chg))" "g \<noteq> q" "length chg' = length chg"
    and "s k = Some (p, x)" "k \<noteq> q"
  shows "wide (s(q := None, g \<mapsto> (pg, Inr (lg, chg')), k \<mapsto> (g, x))) r"
  using assms unfolding wide_def by (auto split: if_splits)

lemma length_replaced: "length (concat (map (\<lambda>i. if i = q then [k] else [i]) xs)) = length xs"
  by (induction xs) auto

lemma subtree_distinct: "distinct (ids t) \<Longrightarrow> u \<in> set (subtrees t) \<Longrightarrow> distinct (ids u)"
proof (induction t)
  case (WSplit k l ts)
  then show ?case using distinct_child [OF WSplit.prems(1)] by auto
qed simp

lemma drop_links:
  assumes L: "links K T t" and u: "WLeaf f \<in> set (subtrees t)" "f \<noteq> wkey t" and un: "unpinned T"
  shows "\<exists>T1 fnd q qnd qc chs1 xs ys. node_at T f = Some fnd \<and> n_parent fnd = q \<and> remove_or_replace f None T = Some T1 \<and>
    skel T q = Some (n_parent qnd, Inr (c_layout qc, c_children qc)) \<and> length (c_children qc) = length chs1 + 1 \<and>
    node_at T1 q = Some (qnd\<lparr>n_content := CContainer (set_children chs1 qc)\<rparr>) \<and>
    skel T1 = (skel T)(f := None, q \<mapsto> (n_parent qnd, Inr (c_layout qc, chs1))) \<and>
    links K T1 (graft f [] t) \<and> unpinned T1 \<and> t_area T1 = t_area T \<and> t_focus T1 = t_focus T \<and> t_root T1 = t_root T \<and>
    leaves t = xs @ f # ys \<and> leaves (graft f [] t) = xs @ ys \<and> length (ids (graft f [] t)) < length (ids t)"
proof -
  have d: "distinct (ids t)" using L by (simp add: links_def)
  obtain q x pq l chs fnd qnd qc where h: "node_at T (wkey (WLeaf f)) = Some fnd" "n_parent fnd = q" "skel T (wkey (WLeaf f)) = Some (q, x)"
    "node_at T q = Some qnd" "n_parent qnd = pq" "n_content qnd = CContainer qc" "c_layout qc = l" "c_children qc = chs"
    "skel T q = Some (pq, Inr (l, chs))" "wkey (WLeaf f) \<in> set chs" "distinct chs" "q \<in> set (ids t)" "q \<notin> set (ids (WLeaf f))"
    by (rule links_hook [OF L u(1)]) (use u(2) in simp_all)
  have fq: "q \<noteq> f" "f \<in> set chs" "node_at T f = Some fnd" using h(1,10,13) by auto
  define chs1 where "chs1 = concat (map (\<lambda>i. if i = f then [] else [i]) (c_children qc))"
  define T1 where "T1 = set_node q (qnd\<lparr>n_content := CContainer (set_children chs1 qc)\<rparr>) (slot_remove f T)"
  have skel1: "skel T1 = (skel T)(f := None, q \<mapsto> (pq, Inr (l, chs1)))"
    using fq(1) h(5,7) by (auto simp: T1_def skel_def store_simps fun_eq_iff)
  have "links K T1 (graft f [] t)"
    by (rule links_drop [OF L u fq(3) h(2,4,6)]) (use skel1 fq(1) h(5,7) in \<open>simp_all add: T1_def chs1_def\<close>)
  moreover have "remove_or_replace f None T = Some T1"
    using drop_run [OF fq(3) h(2,4,6) fq(1)] fq(2) h(8,11) by (simp add: T1_def chs1_def)
  moreover have "length chs = length chs1 + 1"
  proof -
    obtain as bs where "chs = as @ f # bs" "f \<notin> set as" "f \<notin> set bs" by (rule child_split [OF fq(2) h(11)])
    then show ?thesis by (simp add: chs1_def h(8) concat_map_child)
  qed
  moreover have "unpinned T1" using un unfolding T1_def by (intro unpinned_set_node unpinned_remove) simp_all
  moreover obtain xs ys where "leaves t = xs @ f # ys" "leaves (graft f [] t) = xs @ ys"
    using grafted_leaves [OF d u, of "[]"] by auto
  moreover have "length (ids (graft f [] t)) < length (ids t)" using grafted_length [OF d u, of "[]"] by simp
  moreover have "node_at T1 q = Some (qnd\<lparr>n_content := CContainer (set_children chs1 qc)\<rparr>)" by (simp add: T1_def store_simps)
  ultimately show ?thesis
    using fq(3) h(2,5,7-9) skel1
    by (intro exI [of _ T1] exI [of _ fnd] exI [of _ q] exI [of _ qnd] exI [of _ qc] exI [of _ chs1] exI [of _ xs] exI [of _ ys])
      (simp add: T1_def)
qed

lemma collapse_links:
  assumes L: "links K T t" and q: "node_at T q = Some qnd" "n_content qnd = CContainer qc" "c_children qc = [s]" "q \<noteq> t_root T"
    and un: "unpinned T" and w: "wide ((skel T)(q := None)) (t_root T)"
  shows "\<exists>T2 T3 t3. container_mut q (set_children []) T = Some T2 \<and> remove_or_replace q (Some s) T2 = Some T3 \<and>
    links K T3 t3 \<and> wide (skel T3) (t_root T) \<and> unpinned T3 \<and> t_area T3 = t_area T \<and> t_focus T3 = t_focus T \<and> t_root T3 = t_root T \<and>
    leaves t3 = leaves t \<and> length (ids t3) < length (ids t) \<and> ((\<exists>k l ts. t = WSplit k l ts) \<longrightarrow> (\<exists>k l ts. t3 = WSplit k l ts))"
proof -
  have d: "rep (skel T) (t_root T) t" "distinct (ids t)" "wkey t = t_root T" "dom (skel T) = set (ids t)"
    using L by (simp_all add: links_def)
  have sq: "skel T q = Some (n_parent qnd, Inr (c_layout qc, [s]))" using q(1-3) by (simp add: skel_node strip_def)
  then have "q \<in> set (ids t)" using d(4) by auto
  then obtain u where u: "u \<in> set (subtrees t)" "wkey u = q" using ids_subtree by metis
  then obtain p where "rep (skel T) p u" using rep_subtree [OF d(1)] by blast
  then obtain sib where sib: "u = WSplit q (c_layout qc) [sib]" "wkey sib = s" using u(2) sq by (cases u) auto
  have qr: "q \<noteq> wkey t" using q(4) d(3) by simp
  obtain g x pg lg chg und gnd gc where h: "node_at T (wkey u) = Some und" "n_parent und = g"
    "skel T (wkey u) = Some (g, x)" "node_at T g = Some gnd" "n_parent gnd = pg"
    "n_content gnd = CContainer gc" "c_layout gc = lg" "c_children gc = chg" "skel T g = Some (pg, Inr (lg, chg))"
    "wkey u \<in> set chg" "distinct chg" "g \<in> set (ids t)" "g \<notin> set (ids u)"
    by (rule links_hook [OF L u(1)]) (use qr u(2) in simp_all)
  have "s \<in> set (ids t)" using wkey_ids [of sib] subtree_ids [OF u(1)] sib by auto
  then obtain snd0 where snd0: "node_at T s = Some snd0" using d(4) by (auto simp: skel_dom)
  have ne: "g \<noteq> q" "s \<noteq> q" "s \<noteq> g" using subtree_distinct [OF d(2) u(1)] h(13) sib wkey_ids [of sib] by auto
  define T2 where "T2 = set_node q (qnd\<lparr>n_content := CContainer (set_children [] qc)\<rparr>) T"
  define T3 where "T3 = set_node s (snd0\<lparr>n_parent := g\<rparr>) (set_node g (gnd\<lparr>n_content := CContainer (set_children
    (concat (map (\<lambda>i. if i = q then [s] else [i]) (c_children gc))) gc)\<rparr>) (slot_remove q T))"
  have T2: "container_mut q (set_children []) T = Some T2" "slot_remove q T2 = slot_remove q T"
    "node_at T2 q = Some (qnd\<lparr>n_content := CContainer (set_children [] qc)\<rparr>)" "node_at T2 g = Some gnd" "node_at T2 s = Some snd0"
    using h(4) snd0 ne q by (simp_all add: container_mut_def T2_def store_simps)
  have und: "n_parent qnd = g" using h(1,2) u(2) q(1) by simp
  have run: "remove_or_replace q (Some s) T2 = Some T3"
    using replace_run [OF T2(3) _ T2(4) h(6) ne(1) _ _ T2(5) ne(2,3)] h(8,10,11) u(2) und by (simp add: T3_def T2(2))
  have skel3: "skel T3 = (skel T)(q := None, g \<mapsto> (pg, Inr (lg, concat (map (\<lambda>i. if i = q then [wkey sib] else [i]) (c_children gc)))),
    wkey sib \<mapsto> (g, snd (strip snd0)))"
    using ne h(5,7) sib(2) by (auto simp: T3_def skel_def store_simps fun_eq_iff)
  have L3: "links K T3 (graft q [sib] t)"
    by (rule links_collapse [OF L u(1) [unfolded sib(1)] qr q(1) und h(4,6) snd0 [folded sib(2)] _ _ _ _ h(13) [unfolded sib(1)]])
      (use h(5,7) skel3 in \<open>simp_all add: T3_def\<close>)
  have "wide (skel T3) (t_root T)"
    unfolding skel3 by (rule wide_collapse [OF w h(9) ne(1) _ _]) (use ne sib(2) snd0 h(8) in \<open>simp_all add: length_replaced skel_node strip_def\<close>)
  moreover obtain as bs as' bs' where "leaves t = as @ leaves u @ bs" "leaves (graft q [sib] t) = as @ concat (map leaves [sib]) @ bs"
    "ids t = as' @ ids u @ bs'" "ids (graft q [sib] t) = as' @ concat (map ids [sib]) @ bs'"
    using graft_order [OF d(2) u(1), of "[sib]"] u(2) qr by auto
  moreover have "\<not> pinned_node snd0" using un snd0 by (auto simp: unpinned_def)
  then have "unpinned T3" using un unfolding T3_def by (intro unpinned_set_node unpinned_remove) simp_all
  moreover have "(\<exists>k l ts. t = WSplit k l ts) \<longrightarrow> (\<exists>k l ts. graft q [sib] t = WSplit k l ts)" by auto
  ultimately show ?thesis
    using T2(1) run L3 sib(1) by (intro exI [of _ T2] exI [of _ T3] exI [of _ "graft q [sib] t"]) (simp add: T3_def)
qed

lemma unhook_links:
  assumes L: "links K T t" and full: "root_full t" and u: "WLeaf f \<in> set (subtrees t)" "f \<noteq> wkey t" and un: "unpinned T"
  shows "\<exists>T' t' xs ys. unhook f T = Some T' \<and> links K T' t' \<and> root_full t' \<and> unpinned T' \<and> t_area T' = t_area T \<and> t_root T' = t_root T \<and>
    t_focus T' = t_focus T \<and> leaves t = xs @ f # ys \<and> leaves t' = xs @ ys \<and> length (ids t') \<le> length (ids t)"
proof -
  obtain T1 fnd q qnd qc chs1 xs ys where h: "node_at T f = Some fnd" "n_parent fnd = q" "remove_or_replace f None T = Some T1"
    "skel T q = Some (n_parent qnd, Inr (c_layout qc, c_children qc))" "length (c_children qc) = length chs1 + 1"
    "node_at T1 q = Some (qnd\<lparr>n_content := CContainer (set_children chs1 qc)\<rparr>)"
    "skel T1 = (skel T)(f := None, q \<mapsto> (n_parent qnd, Inr (c_layout qc, chs1)))"
    "links K T1 (graft f [] t)" "unpinned T1" "t_area T1 = t_area T" "t_focus T1 = t_focus T" "t_root T1 = t_root T"
    "leaves t = xs @ f # ys" "leaves (graft f [] t) = xs @ ys" "length (ids (graft f [] t)) < length (ids t)"
    using drop_links [OF L u un] by blast
  have wf: "\<exists>k l ts. t = WSplit k l ts" "wide (skel T) (t_root T)" using full links_full [OF L] by simp_all
  then have wf1: "\<exists>k l ts. graft f [] t = WSplit k l ts" by auto
  have c1: "container_at T1 q = Some (set_children chs1 qc)" using h(6) by (simp add: container_at_def)
  show ?thesis
  proof (cases "length chs1 = 1 \<and> q \<noteq> t_root T")
    case False
    have "q = t_root T \<or> 2 \<le> length chs1" using False wf(2) h(4,5) by (fastforce simp: wide_def)
    then have "root_full (graft f [] t)"
      unfolding links_full [OF h(8)] h(7,12) using wf1 wide_drop [OF wf(2)] by blast
    moreover have "unhook f T = Some T1"
      using h(1-3,12) c1 False by (auto simp: unhook_def Let_def set_children_def)
    ultimately show ?thesis using h by (intro exI [of _ T1] exI [of _ "graft f [] t"] exI [of _ xs] exI [of _ ys]) simp
  next
    case True
    then obtain s where chs1: "chs1 = [s]" by (cases chs1) auto
    have "wide ((skel T1)(q := None)) (t_root T1)" using wf(2) by (auto simp: h(7,12) wide_def)
    then obtain T2 T3 t3 where c: "container_mut q (set_children []) T1 = Some T2" "remove_or_replace q (Some s) T2 = Some T3"
      "links K T3 t3" "wide (skel T3) (t_root T1)" "unpinned T3" "t_area T3 = t_area T1" "t_focus T3 = t_focus T1" "t_root T3 = t_root T1"
      "leaves t3 = leaves (graft f [] t)" "length (ids t3) < length (ids (graft f [] t))" "\<exists>k l ts. t3 = WSplit k l ts"
      using collapse_links [OF h(8,6), of "set_children chs1 qc" s] h(9,12) True chs1 wf1 by (auto simp: set_children_def)
    have "unhook f T = Some T3"
      using h(1-3,12) c1 True chs1 c(1,2) by (simp add: unhook_def Let_def set_children_def)
    moreover have "root_full t3" using links_full [OF c(3)] c(4,8,11) by simp
    ultimately show ?thesis
      using c h by (intro exI [of _ T3] exI [of _ t3] exI [of _ xs] exI [of _ ys]) simp
  qed
qed

lemma finish_empty:
  assumes "links K T t" "root_full t" "leaves t = []" "unpinned T" "fits (t_area T)" "no_size_policy W"
  shows "\<exists>T'. relayout W T = Some T' \<and> wf_tree K T' t \<and> layable T' t \<and> shown T' t \<and> t_focus T' = t_root T \<and> t_area T' = t_area T"
proof -
  obtain k l ts where t: "t = WSplit k l ts" "list_all full ts" using assms(2) by (cases t) auto
  then have ts: "ts = []" "k = t_root T" using root_full_leaves [OF t(2)] assms(1,3) by (auto simp: links_def)
  then have "recalculate T = Some (T\<lparr>t_focus := t_root T\<rparr>)"
    using empty_skel [of T "t_root T" l "[]"] assms(1) t by (auto simp: links_def recalculate_def)
  moreover have "wf_tree K (T\<lparr>t_focus := t_root T\<rparr>) t" using assms(1-3) by (simp add: wf_tree_links links_def)
  moreover have "layable (T\<lparr>t_focus := t_root T\<rparr>) t" using assms(4,5) t ts by (simp add: layable_def unpinned_def)
  ultimately show ?thesis
    unfolding relayout_plain [OF assms(6)] using assms(3)
    by (intro exI [of _ "T\<lparr>t_focus := t_root T\<rparr>"]) (simp add: shown_empty)
qed

lemma tree_remove_ok:
  assumes wf: "wf_tree K T t" and lay: "layable T t" and f: "f \<in> set (leaves t)"
    and small: "length (ids t) \<le> 128" and W: "no_size_policy W"
  shows "\<exists>T' t'. tree_remove W f T = Some T' \<and> wf_tree K T' t' \<and> layable T' t' \<and> shown T' t' \<and> t_area T' = t_area T \<and>
    length (ids t') \<le> length (ids t) \<and> leaves t' = filter (\<lambda>k. k \<noteq> f) (leaves t) \<and> t_root T' = t_root T \<and>
    (t_focus T \<noteq> f \<longrightarrow> t_focus T' = t_focus T) \<and>
    (t_focus T = f \<longrightarrow> leaves t' \<noteq> [] \<longrightarrow> Some (t_focus T') = tree_prev T)"
proof -
  have L: "links K T t" and full: "root_full t" using wf by (simp_all add: wf_tree_links)
  have un: "unpinned T" "fits (t_area T)" using lay by (simp_all add: layable_def)
  have d: "distinct (ids t)" "wkey t = t_root T" using L by (simp_all add: links_def)
  have u: "WLeaf f \<in> set (subtrees t)" by (rule leaf_subtree [OF f])
  have fr: "f \<noteq> wkey t"
  proof
    assume "f = wkey t"
    then have "WLeaf f = t" using subtree_unique [OF d(1) u self_subtree] by simp
    then show False using full by auto
  qed
  obtain g where g: "(if t_focus T = f then do { g \<leftarrow> tree_prev T; Some (T\<lparr>t_focus := g\<rparr>) } else Some T) = Some (T\<lparr>t_focus := g\<rparr>)"
    "t_focus T \<noteq> f \<Longrightarrow> g = t_focus T" "t_focus T = f \<Longrightarrow> Some g = tree_prev T" "t_focus T = f \<Longrightarrow> leaves t \<noteq> [f] \<Longrightarrow> g \<in> set (leaves t) - {f}"
  proof (cases "t_focus T = f")
    case True
    obtain xs ys where xy: "leaves t = xs @ f # ys" using split_list [OF f] by blast
    have p: "tree_prev T = Some (last (f # ys @ xs))" using next_prev(2) [OF wf, of xs ys] xy True by simp
    have "last (f # ys @ xs) \<in> set (leaves t) - {f}" if "leaves t \<noteq> [f]"
    proof -
      have "distinct (leaves t)" by (rule distinct_leaves [OF d(1)])
      then have "f \<notin> set (ys @ xs)" using xy by auto
      moreover have "ys @ xs \<noteq> []" using that xy by auto
      ultimately show ?thesis using last_in_set [of "ys @ xs"] xy by auto
    qed
    then show ?thesis using that [of "last (f # ys @ xs)"] p True by simp
  next
    case False
    then show ?thesis using that [of "t_focus T"] by simp
  qed
  let ?T0 = "T\<lparr>t_focus := g\<rparr>"
  have L0: "links K ?T0 t" "unpinned ?T0" using L un(1) by (simp_all add: links_def unpinned_def)
  obtain T' t' xs ys where h: "unhook f ?T0 = Some T'" "links K T' t'" "root_full t'" "unpinned T'" "t_area T' = t_area T"
    "t_focus T' = g" "leaves t = xs @ f # ys" "leaves t' = xs @ ys" "length (ids t') \<le> length (ids t)" "t_root T' = t_root T"
    using unhook_links [OF L0(1) full u fr L0(2)] by auto
  have fl: "leaves t' = filter (\<lambda>k. k \<noteq> f) (leaves t)"
  proof -
    have "filter (\<lambda>k. k \<noteq> f) xs = xs" "filter (\<lambda>k. k \<noteq> f) ys = ys"
      using distinct_leaves [OF d(1)] unfolding h(7) by (auto simp: filter_id_conv)
    then show ?thesis unfolding h(7,8) by simp
  qed
  have run: "tree_remove W f T = relayout W T'" unfolding tree_remove_unhook g(1) using h(1) by simp
  have rt: "t_root T'' = t_root T" if "wf_tree K T'' t'" for T''
    using that h(2,10) by (simp add: wf_tree_def links_def)
  show ?thesis
  proof (cases "leaves t' = []")
    case True
    have "\<forall>k\<in>set (leaves t). k = f" using fl True filter_empty_conv [of "\<lambda>k. k \<noteq> f" "leaves t"] by simp
    moreover have "leaves t \<noteq> []" using f by auto
    then have "t_focus T \<in> set (leaves t)" using wf by (simp add: wf_tree_def)
    ultimately have focus: "t_focus T = f" by blast
    obtain T'' where T'': "relayout W T' = Some T''" "wf_tree K T'' t'" "layable T'' t'" "shown T'' t'" "t_area T'' = t_area T'"
      using finish_empty [OF h(2,3) True h(4) _ W] un(2) h(5) by auto
    then show ?thesis using run h(5,9) fl True rt [OF T''(2)] focus
      by (intro exI [of _ T''] exI [of _ t']) simp
  next
    case False
    have "leaves t \<noteq> [f]" using False fl by auto
    moreover have "leaves t \<noteq> []" using f by auto
    then have "t_focus T \<in> set (leaves t)" using wf by (simp add: wf_tree_def)
    ultimately have "g \<in> set (leaves t')"
      using g(2,4) fl by (cases "t_focus T = f") (auto simp: wf_tree_def split: if_splits)
    from finish [OF h(2,3) this h(4) _ _ W] obtain T'' where T'': "relayout W (T'\<lparr>t_focus := g\<rparr>) = Some T''" "wf_tree K T'' t'" "layable T'' t'" "shown T'' t'" "t_focus T'' = g" "t_area T'' = t_area T'"
      using un(2) h(5,9) small by auto
    moreover have "T'\<lparr>t_focus := g\<rparr> = T'" using h(6) by (cases T') simp
    ultimately show ?thesis using run h(5,9) fl g(2,3) rt [OF T''(2)] T''
      by (intro exI [of _ T''] exI [of _ t']) simp
  qed
qed

lemma inserted_length: "wf_tree K T t \<Longrightarrow> length (ids (inserted (t_focus T) k t)) \<le> length (ids t) + 1"
proof -
  assume wf: "wf_tree K T t"
  obtain l ts where t: "t = WSplit (t_root T) l ts" "list_all full ts" by (rule wf_root [OF wf])
  show ?thesis
  proof (cases ts)
    case (Cons u us)
    then have lv: "leaves t \<noteq> []" using root_full_leaves [OF t(2)] t(1) by simp
    have "distinct (ids t)" using wf by (simp add: wf_tree_def)
    from grafted_length [OF this wf_focus(1,2) [OF wf lv], of "[WLeaf (t_focus T), WLeaf k]"]
    show ?thesis using Cons t(1) by (simp add: inserted_def)
  qed (simp add: t inserted_def)
qed

lemma splitted_length:
  assumes "wf_tree K T t" "leaves t \<noteq> []"
  shows "length (ids (splitted l before (t_focus T) k s t)) \<le> length (ids t) + 2"
proof -
  have d: "distinct (ids t)" "rep (skel T) (t_root T) t" using assms(1) by (simp_all add: wf_tree_def)
  note F = wf_focus [OF assms]
  obtain q pq m chs x where "skel T (t_focus T) = Some (q, x)" "skel T q = Some (pq, Inr (m, chs))"
    using rep_hook [OF d(2,1) F(1)] F(2) by auto
  from split_beside_graft [OF d(2) this]
  have "splitted l before (t_focus T) k s t = graft (t_focus T)
      (if m = l then map WLeaf (pair_of before (t_focus T) k) else [WSplit s l (map WLeaf (pair_of before (t_focus T) k))]) t"
    by (simp add: splitted_def)
  then show ?thesis
    using grafted_length [OF d(1) F(1,2), of "if m = l then map WLeaf (pair_of before (t_focus T) k) else [WSplit s l (map WLeaf (pair_of before (t_focus T) k))]"]
    by (auto simp: pair_of_def split: if_splits)
qed

end
