(* ===== verification/Windows.thy ===== *)
theory Windows
  imports WindowLaws
begin

text \<open>
  The window tree as the editor uses it: the states that inserting, splitting, removing, focusing and
  resizing reach, what resizing does to the weights, a saved layout, and where the code does
  something else than it says.
\<close>

section \<open>Weights\<close>

lemma set_weight_ok:
  assumes "node_at T k = Some nd"
  shows "\<exists>T'. set_weight k w T = Some T' \<and> skel T' = skel T \<and> unpinned T' = unpinned T \<and> t_root T' = t_root T \<and>
    t_focus T' = t_focus T \<and> t_area T' = t_area T \<and> t_stack T' = t_stack T \<and> sm_count (t_nodes T') = sm_count (t_nodes T) \<and>
    (\<forall>i. weight_of T' i = (if i = k then w else weight_of T i))"
proof -
  let ?T' = "set_node k (nd\<lparr>n_weight := w\<rparr>) T"
  have "strip (nd\<lparr>n_weight := w\<rparr>) = strip nd" by (simp add: strip_def)
  then have "skel ?T' = skel T" using assms by (auto simp: skel_def store_simps fun_eq_iff)
  moreover have "unpinned ?T' = unpinned T" using assms by (auto simp: unpinned_def store_simps)
  moreover have "weight_of ?T' i = (if i = k then w else weight_of T i)" for i by (simp add: weight_of_def store_simps)
  ultimately show ?thesis using assms by (simp add: set_weight_def)
qed

lemma set_weights_ok:
  assumes "set chs \<subseteq> dom (skel T)"
  shows "\<exists>T'. set_weights chs ws T = Some T' \<and> skel T' = skel T \<and> unpinned T' = unpinned T \<and> t_root T' = t_root T \<and>
    t_focus T' = t_focus T \<and> t_area T' = t_area T \<and> t_stack T' = t_stack T \<and> sm_count (t_nodes T') = sm_count (t_nodes T) \<and>
    (distinct chs \<longrightarrow> (\<forall>k. weight_of T' k = (case map_of (zip chs ws) k of Some w \<Rightarrow> w | None \<Rightarrow> weight_of T k)))"
  using assms
proof (induction chs arbitrary: ws T)
  case Nil
  then show ?case by (simp add: set_weights_def)
next
  case (Cons c chs)
  show ?case
  proof (cases ws)
    case Nil
    then show ?thesis by (simp add: set_weights_def)
  next
    case (Cons w ws')
    obtain nd where nd: "node_at T c = Some nd" using Cons.prems by (auto simp: skel_dom)
    from set_weight_ok [OF nd, of w] obtain T1 where T1: "set_weight c w T = Some T1" "skel T1 = skel T" "unpinned T1 = unpinned T" "t_root T1 = t_root T"
      "t_focus T1 = t_focus T" "t_area T1 = t_area T" "t_stack T1 = t_stack T" "sm_count (t_nodes T1) = sm_count (t_nodes T)"
      "\<forall>i. weight_of T1 i = (if i = c then w else weight_of T i)" by blast
    have "set chs \<subseteq> dom (skel T1)" using Cons.prems T1(2) by simp
    from Cons.IH [OF this, of ws'] obtain T2 where T2: "set_weights chs ws' T1 = Some T2" "skel T2 = skel T1" "unpinned T2 = unpinned T1" "t_root T2 = t_root T1"
      "t_focus T2 = t_focus T1" "t_area T2 = t_area T1" "t_stack T2 = t_stack T1" "sm_count (t_nodes T2) = sm_count (t_nodes T1)"
      "distinct chs \<longrightarrow> (\<forall>k. weight_of T2 k = (case map_of (zip chs ws') k of Some w \<Rightarrow> w | None \<Rightarrow> weight_of T1 k))"
      by blast
    have "set_weights (c # chs) ws T = Some T2" using T1(1) T2(1) Cons by (simp add: set_weights_def)
    moreover have "\<forall>k. weight_of T2 k = (case map_of (zip (c # chs) ws) k of Some w \<Rightarrow> w | None \<Rightarrow> weight_of T k)"
      if d: "distinct (c # chs)"
    proof
      fix k
      have "map_of (zip chs ws') c = None" using d by (auto simp: map_of_eq_None_iff dest: set_zip_leftD)
      then show "weight_of T2 k = (case map_of (zip (c # chs) ws) k of Some w \<Rightarrow> w | None \<Rightarrow> weight_of T k)"
      proof (cases "k = c")
        case True
        then show ?thesis using T2(9) T1(9) d Cons \<open>map_of (zip chs ws') c = None\<close> by simp
      next
        case False
        then show ?thesis using T2(9) T1(9) d Cons by (simp split: option.splits)
      qed
    qed
    ultimately show ?thesis using T1 T2 by auto
  qed
qed

text \<open>A change that leaves the links, the focus and the screen alone, and then recalculates.\<close>

lemma reweighed:
  assumes "wf_tree K T t" "layable T t"
    and "skel T' = skel T" "unpinned T' = unpinned T" "t_root T' = t_root T" "t_focus T' = t_focus T" "fits (t_area T')"
      "t_stack T' = t_stack T" "sm_count (t_nodes T') = sm_count (t_nodes T)"
  shows "\<exists>ps. recalculate T' = Some (put_areas ps T') \<and> wf_tree K (put_areas ps T') t \<and> layable (put_areas ps T') t \<and>
    shown (put_areas ps T') t \<and> inside (t_area T') ps \<and> apart (leaves t) ps \<and> (leaves t \<noteq> [] \<longrightarrow> map fst ps = ids t)"
proof -
  have "wf_tree K T' t" using assms(1,3,5,6,8,9) by (simp add: wf_tree_def)
  moreover have "layable T' t" using assms(2,4,7) by (simp add: layable_def)
  ultimately show ?thesis using recalculate_ok by blast
qed

section \<open>Resizing a window\<close>

lemma node_size_some: "k \<in> dom (skel T) \<Longrightarrow> \<exists>n. node_size vertical T k = Some n"
  by (auto simp: skel_dom node_size_def node_height_def node_width_def)

lemma children_dom:
  assumes "links K T t" "skel T q = Some (p, Inr (l, chs))"
  shows "set chs \<subseteq> dom (skel T) \<and> distinct chs"
proof -
  have d: "rep (skel T) (t_root T) t" "distinct (ids t)" "dom (skel T) = set (ids t)" using assms(1) by (simp_all add: links_def)
  have "q \<in> set (ids t)" using assms(2) d(3) by auto
  then obtain u where u: "u \<in> set (subtrees t)" "wkey u = q" using ids_subtree by metis
  then obtain p' where "rep (skel T) p' u" using rep_subtree [OF d(1)] by blast
  then obtain ts where ts: "u = WSplit q l ts" "map wkey ts = chs" "list_all (rep (skel T) q) ts"
    using u(2) assms(2) by (cases u) auto
  have "set chs \<subseteq> set (ids u)" using ts(1,2) wkey_ids by fastforce
  moreover have "distinct (map wkey ts)"
  proof -
    have "distinct (concat (map ids ts))" using subtree_distinct [OF d(2) u(1)] ts(1) by simp
    then show ?thesis by (rule distinct_wkeys)
  qed
  ultimately show ?thesis using subtree_ids [OF u(1)] d(3) ts(2) by auto
qed

lemma parent_dom:
  assumes "links K T t" "node_at T k = Some nd"
  shows "n_parent nd \<in> dom (skel T)"
proof -
  have d: "rep (skel T) (t_root T) t" "distinct (ids t)" "dom (skel T) = set (ids t)" "wkey t = t_root T"
    using assms(1) by (simp_all add: links_def)
  have s: "skel T k = Some (n_parent nd, snd (strip nd))" using assms(2) by (simp add: skel_node strip_def)
  then have "k \<in> set (ids t)" using d(3) by auto
  then obtain u where u: "u \<in> set (subtrees t)" "wkey u = k" using ids_subtree by metis
  show ?thesis
  proof (cases "k = wkey t")
    case True
    then have "n_parent nd = t_root T" using rep_parent [OF d(1)] s by auto
    then show ?thesis using d(3,4) wkey_ids [of t] by simp
  next
    case False
    then obtain q pq l chs x where "skel T (wkey u) = Some (q, x)" "skel T q = Some (pq, Inr (l, chs))"
      using rep_hook [OF d(1,2) u(1)] u(2) by auto
    then show ?thesis using s u(2) by auto
  qed
qed

lemma resize_axis_ok:
  assumes wf: "wf_tree K T t" and lay: "layable T t" and sh: "shown T t" and k: "k \<in> set (ids t)"
  shows "\<exists>b T'. resize_axis l W k delta T = Some (b, T') \<and> wf_tree K T' t \<and> layable T' t \<and> shown T' t \<and> skel T' = skel T"
proof -
  have L: "links K T t" using wf by (simp add: wf_tree_links)
  have keep: ?thesis if "resize_axis l W k delta T = Some (False, T)" using that wf lay sh by blast
  have dm: "dom (skel T) = set (ids t)" using L by (simp add: links_def)
  obtain nd where nd: "node_at T k = Some nd" using k dm by (auto simp: skel_dom)
  have "n_parent nd \<in> dom (skel T)" using parent_dom [OF L nd] .
  then obtain pnd where pnd: "node_at T (n_parent nd) = Some pnd" by (auto simp: skel_dom)
  show ?thesis
  proof (cases "delta \<noteq> 0 \<and> (\<exists>c idx donor. n_content pnd = CContainer c \<and> c_layout c = l \<and>
      position (\<lambda>i. i = k) (c_children c) = Some idx \<and> sibling_donor idx (length (c_children c)) = Some donor)")
    case False
    then have "resize_axis l W k delta T = Some (False, T)"
      using nd pnd by (auto simp: resize_axis_def Let_def split: content.splits option.splits)
    then show ?thesis by (rule keep)
  next
    case True
    then obtain c idx donor where c: "delta \<noteq> 0" "n_content pnd = CContainer c" "c_layout c = l"
      "position (\<lambda>i. i = k) (c_children c) = Some idx" "sibling_donor idx (length (c_children c)) = Some donor" by blast
    have ch: "set (c_children c) \<subseteq> dom (skel T)"
      using children_dom [OF L, of "n_parent nd" "n_parent pnd" "c_layout c" "c_children c"] pnd c(2) by (simp add: skel_node strip_def)
    have "\<forall>i\<in>set (c_children c). node_size (l = Horizontal) T i \<noteq> None"
      using ch node_size_some [of _ T "l = Horizontal"] by fastforce
    then obtain cells where cells: "those (map (node_size (l = Horizontal) T) (c_children c)) = Some cells"
      using those_all_Some by blast
    show ?thesis
    proof (cases "let new_size = f32_add (map (\<lambda>n. f32_of_int (int n)) cells ! idx) (f32_of_int delta);
          new_donor = f32_sub (map (\<lambda>n. f32_of_int (int n)) cells ! donor) (f32_of_int delta);
          floor_size = f32_of_int (int (if l = Vertical then win_min_width W else win_min_height W))
        in new_size < floor_size \<or> new_donor < floor_size")
      case True
      then have "resize_axis l W k delta T = Some (False, T)"
        using nd pnd c cells by (simp add: resize_axis_def Let_def)
      then show ?thesis by (rule keep)
    next
      case False
      define ws where "ws = (map (\<lambda>n. f32_of_int (int n)) cells)
        [idx := f32_add (map (\<lambda>n. f32_of_int (int n)) cells ! idx) (f32_of_int delta),
         donor := f32_sub (map (\<lambda>n. f32_of_int (int n)) cells ! donor) (f32_of_int delta)]"
      obtain T1 where T1: "set_weights (c_children c) ws T = Some T1" "skel T1 = skel T" "unpinned T1 = unpinned T" "t_root T1 = t_root T"
        "t_focus T1 = t_focus T" "t_area T1 = t_area T" "t_stack T1 = t_stack T" "sm_count (t_nodes T1) = sm_count (t_nodes T)"
        using set_weights_ok [OF ch] by blast
      have "fits (t_area T1)" using lay T1(6) by (simp add: layable_def)
      from reweighed [OF wf lay T1(2-5) this T1(7,8)] obtain ps where
        "recalculate T1 = Some (put_areas ps T1)" "wf_tree K (put_areas ps T1) t" "layable (put_areas ps T1) t"
    "shown (put_areas ps T1) t" by blast
      moreover have "resize_axis l W k delta T = do { T \<leftarrow> recalculate T1; Some (True, T) }"
        using nd pnd c cells False T1(1) [unfolded ws_def] by (simp add: resize_axis_def Let_def)
      ultimately show ?thesis using T1(2) by auto
    qed
  qed
qed

lemma equalize_ok:
  fixes T :: "'k tree"
  assumes wf: "wf_tree K T t" and lay: "layable T t"
  shows "\<exists>T'. equalize K W T = Some T' \<and> wf_tree K T' t \<and> layable T' t \<and> shown T' t \<and> skel T' = skel T"
proof -
  have L: "links K T t" using wf by (simp add: wf_tree_links)
  define level :: "'k \<Rightarrow> 'k tree \<Rightarrow> 'k tree option" where "level = (\<lambda>k T. do {
    nd \<leftarrow> node_at T k;
    pnd \<leftarrow> node_at T (n_parent nd);
    let level = (case n_content pnd of
                   CContainer c \<Rightarrow> (case c_layout c of Horizontal \<Rightarrow> ea_ver W | Vertical \<Rightarrow> ea_hor W)
                 | CView _ \<Rightarrow> True);
    if level then set_weight k 1 T else Some T
  })"
  have "\<exists>T'. fold_opt level ks T1 = Some T' \<and> skel T' = skel T1 \<and> unpinned T' = unpinned T1 \<and> t_root T' = t_root T1 \<and>
      t_focus T' = t_focus T1 \<and> t_area T' = t_area T1 \<and> t_stack T' = t_stack T1 \<and> sm_count (t_nodes T') = sm_count (t_nodes T1)"
    if "set ks \<subseteq> dom (skel T1)" "links K T1 t" for ks T1
    using that
  proof (induction ks arbitrary: T1)
    case (Cons k ks)
    obtain nd where nd: "node_at T1 k = Some nd" using Cons.prems(1) by (auto simp: skel_dom)
    obtain pnd where pnd: "node_at T1 (n_parent nd) = Some pnd" using parent_dom [OF Cons.prems(2) nd] by (auto simp: skel_dom)
    have "\<exists>T2. level k T1 = Some T2 \<and> skel T2 = skel T1 \<and> unpinned T2 = unpinned T1 \<and> t_root T2 = t_root T1 \<and>
      t_focus T2 = t_focus T1 \<and> t_area T2 = t_area T1 \<and> t_stack T2 = t_stack T1 \<and> sm_count (t_nodes T2) = sm_count (t_nodes T1)"
      unfolding level_def using nd pnd set_weight_ok [OF nd, of 1] by (auto simp: Let_def)
    then obtain T2 where T2: "level k T1 = Some T2" "skel T2 = skel T1" "unpinned T2 = unpinned T1" "t_root T2 = t_root T1"
      "t_focus T2 = t_focus T1" "t_area T2 = t_area T1" "t_stack T2 = t_stack T1" "sm_count (t_nodes T2) = sm_count (t_nodes T1)" by blast
    have "links K T2 t" using Cons.prems(2) T2 by (simp add: links_def)
    moreover have "set ks \<subseteq> dom (skel T2)" using Cons.prems(1) T2(2) by simp
    ultimately show ?case using Cons.IH [of T2] T2 by auto
  qed simp
  moreover have "set (slot_keys K T) \<subseteq> dom (skel T)" by (auto simp: slot_keys_def skel_dom)
  ultimately obtain T1 where T1: "fold_opt level (slot_keys K T) T = Some T1" "skel T1 = skel T" "unpinned T1 = unpinned T" "t_root T1 = t_root T"
    "t_focus T1 = t_focus T" "t_area T1 = t_area T" "t_stack T1 = t_stack T" "sm_count (t_nodes T1) = sm_count (t_nodes T)"
    using L by blast
  have "fits (t_area T1)" using lay T1(6) by (simp add: layable_def)
  from reweighed [OF wf lay T1(2-5) this T1(7,8)] obtain ps where
    "recalculate T1 = Some (put_areas ps T1)" "wf_tree K (put_areas ps T1) t" "layable (put_areas ps T1) t"
    "shown (put_areas ps T1) t" by blast
  moreover have "equalize K W T = recalculate T1"
    using T1(1) by (simp add: equalize_def level_def)
  ultimately show ?thesis using T1(2) by auto
qed

section \<open>The states that are reached\<close>

lemma tree_new_ok:
  assumes "slot_ok K" "fits area"
  shows "wf_tree K (tree_new K area) (WSplit (key K 0) Vertical [])" "layable (tree_new K area) (WSplit (key K 0) Vertical [])"
    "t_area (tree_new K area) = area"
proof -
  let ?T = "tree_new K area"
  have n: "node_at ?T = [key K 0 \<mapsto> (node_container K Vertical)\<lparr>n_parent := key K 0\<rparr>]"
    by (simp add: tree_new_def slot_insert_def Let_def node_at_def set_node_def slots_empty_def fun_eq_iff)
  have f: "t_root ?T = key K 0" "t_focus ?T = key K 0" "t_stack ?T = []" "t_area ?T = area" "sm_count (t_nodes ?T) = 1"
    by (simp_all add: tree_new_def slot_insert_def Let_def set_node_def slots_empty_def)
  have s: "skel ?T = [key K 0 \<mapsto> (key K 0, Inr (Vertical, []))]"
    by (auto simp: skel_def n fun_eq_iff strip_def node_container_def container_new_def)
  show "wf_tree K ?T (WSplit (key K 0) Vertical [])" by (simp add: wf_tree_def s f)
  show "layable ?T (WSplit (key K 0) Vertical [])" using assms(2) by (simp add: layable_def unpinned_def n f)
  show "t_area ?T = area" by (rule f(4))
qed

text \<open>Windows that are not pinned, on a screen, while the tree holds fewer than 126 nodes.\<close>

inductive window_step :: "'k slot_api \<Rightarrow> win_opts \<Rightarrow> 'k tree \<Rightarrow> 'k tree \<Rightarrow> bool" for K W where
  step_insert: "\<not> pinned_view v \<Longrightarrow> card (dom (skel T)) < 126 \<Longrightarrow> tree_insert K W v T = Some (k, T') \<Longrightarrow> window_step K W T T'"
| step_split: "\<not> pinned_view v \<Longrightarrow> card (dom (skel T)) < 126 \<Longrightarrow> tree_is_empty T = Some False \<Longrightarrow>
    split_with K W v l before T = Some (k, T') \<Longrightarrow> window_step K W T T'"
| step_remove: "try_get T k = Some v \<Longrightarrow> tree_remove W k T = Some T' \<Longrightarrow> window_step K W T T'"
| step_focus: "try_get T k = Some v \<Longrightarrow> window_step K W T (T\<lparr>t_focus := k\<rparr>)"
| step_screen: "fits area \<Longrightarrow> tree_resize area T = Some (b, T') \<Longrightarrow> window_step K W T T'"
| step_columns: "tree_contains T k \<Longrightarrow> resize_horizontal W k delta T = Some (b, T') \<Longrightarrow> window_step K W T T'"
| step_rows: "tree_contains T k \<Longrightarrow> resize_vertical W k delta T = Some (b, T') \<Longrightarrow> window_step K W T T'"
| step_equalize: "equalize K W T = Some T' \<Longrightarrow> window_step K W T T'"

definition windows_ok :: "'k slot_api \<Rightarrow> 'k tree \<Rightarrow> 'k wtree \<Rightarrow> bool" where
  "windows_ok K T t \<longleftrightarrow> wf_tree K T t \<and> layable T t \<and> shown T t \<and> length (ids t) \<le> 128"

lemma wf_card: "wf_tree K T t \<Longrightarrow> card (dom (skel T)) = length (ids t)"
  by (auto simp: wf_tree_def distinct_card)

lemma try_get_skel: "(\<exists>v. try_get T k = Some v) \<longleftrightarrow> (\<exists>p i. skel T k = Some (p, Inl i))"
  by (cases "node_at T k") (auto simp: try_get_def skel_def strip_def split: content.splits)

lemma leaf_skel:
  assumes "wf_tree K T t"
  shows "k \<in> set (leaves t) \<longleftrightarrow> (\<exists>v. try_get T k = Some v)"
proof -
  have d: "rep (skel T) (t_root T) t" "dom (skel T) = set (ids t)" using assms by (simp_all add: wf_tree_def)
  have "k \<in> set (leaves t) \<longleftrightarrow> (\<exists>p i. skel T k = Some (p, Inl i))" if "rep s p t" "k \<in> set (ids t)" "s = skel T" for s p
    using that
  proof (induction t arbitrary: p)
    case (WSplit j l ts)
    have "k \<in> set (leaves t) \<longleftrightarrow> (\<exists>p i. skel T k = Some (p, Inl i))" if "t \<in> set ts" "k \<in> set (ids t)" for t
      using WSplit.IH [OF that(1) _ that(2) WSplit.prems(3)] WSplit.prems(1) that(1) by (auto simp: list_all_iff)
    moreover have "k = j \<Longrightarrow> \<nexists>p i. skel T k = Some (p, Inl i)" using WSplit.prems by auto
    moreover have "k \<in> set (leaves t) \<Longrightarrow> k \<in> set (ids t)" for t using leaves_ids by fastforce
    ultimately show ?case using WSplit.prems(2) by fastforce
  qed simp
  moreover have "k \<in> set (leaves t) \<Longrightarrow> k \<in> set (ids t)" using leaves_ids by fastforce
  moreover have "skel T k = Some x \<Longrightarrow> k \<in> set (ids t)" for x using d(2) by auto
  ultimately show ?thesis using d(1) try_get_skel [of T k] by blast
qed

lemma screen_ok:
  assumes "wf_tree K T t" "layable T t" "fits area" "shown T t"
  shows "\<exists>b T'. tree_resize area T = Some (b, T') \<and> wf_tree K T' t \<and> layable T' t \<and> shown T' t"
proof (cases "t_area T = area")
  case False
  from reweighed [OF assms(1,2), of "T\<lparr>t_area := area\<rparr>"] assms(3) obtain ps where
    "recalculate (T\<lparr>t_area := area\<rparr>) = Some (put_areas ps (T\<lparr>t_area := area\<rparr>))"
    "wf_tree K (put_areas ps (T\<lparr>t_area := area\<rparr>)) t" "layable (put_areas ps (T\<lparr>t_area := area\<rparr>)) t"
    "shown (put_areas ps (T\<lparr>t_area := area\<rparr>)) t"
    by (auto simp: unpinned_def)
  moreover have "tree_resize area T = Some (True, put_areas ps (T\<lparr>t_area := area\<rparr>))"
    using calculation(1) False by (simp add: tree_resize_def)
  ultimately show ?thesis by blast
next
  case True
  then have "tree_resize area T = Some (False, T)" by (simp add: tree_resize_def)
  then show ?thesis using assms(1,2,4) by blast
qed

lemma empty_leaves:
  assumes "wf_tree K T t"
  shows "tree_is_empty T = Some (leaves t = [])"
proof -
  obtain l ts where "t = WSplit (t_root T) l ts" "list_all full ts" "skel T (t_root T) = Some (t_root T, Inr (l, map wkey ts))"
    by (rule wf_root [OF assms])
  then show ?thesis using empty_skel root_full_leaves by fastforce
qed

lemma step_keeps_ok:
  assumes K: "slot_ok K" and W: "no_size_policy W" and step: "window_step K W T T'" and ok: "windows_ok K T t"
  shows "\<exists>t'. windows_ok K T' t'"
proof -
  have wf: "wf_tree K T t" "layable T t" "length (ids t) \<le> 128" "shown T t" using ok by (simp_all add: windows_ok_def)
  note leaf = leaf_skel [OF wf(1)]
  have node: "k \<in> set (ids t)" if "tree_contains T k" for k
    using that wf(1) by (auto simp: tree_contains_def wf_tree_def skel_dom)
  show ?thesis
    using step
  proof cases
    case (step_insert v k)
    then have "length (ids t) < 126" using wf_card [OF wf(1)] by simp
    moreover have "length (ids (inserted (t_focus T) (next_key K T) t)) \<le> length (ids t) + 1"
      using inserted_length [OF wf(1)] .
    ultimately show ?thesis
      using tree_insert_ok [OF K wf(1,2) step_insert(1) _ W] step_insert(3) by (fastforce simp: windows_ok_def)
  next
    case (step_split v l before k)
    then have n: "length (ids t) < 126" "leaves t \<noteq> []" using wf_card [OF wf(1)] empty_leaves [OF wf(1)] by simp_all
    let ?t = "splitted l before (t_focus T) (next_key K T) (key K (sm_count (t_nodes T) + 1)) t"
    have "length (ids ?t) \<le> length (ids t) + 2" by (rule splitted_length [OF wf(1) n(2)])
    moreover have "wf_tree K T' ?t" "layable T' ?t" "shown T' ?t"
      using split_with_ok [OF K wf(1,2) step_split(1) _ W n(2), of l before] n(1) step_split(4) by auto
    ultimately show ?thesis using n(1) unfolding windows_ok_def by (intro exI [of _ ?t]) simp
  next
    case (step_remove k v)
    then have "k \<in> set (leaves t)" using leaf by blast
    from tree_remove_ok [OF wf(1,2) this wf(3) W] obtain t' where "wf_tree K T' t'" "layable T' t'" "shown T' t'" "length (ids t') \<le> length (ids t)"
      using step_remove(2) by auto
    then show ?thesis using wf(3) by (auto simp: windows_ok_def)
  next
    case (step_focus k v)
    then have "k \<in> set (leaves t)" using leaf by blast
    then have "wf_tree K T' t" "layable T' t" "shown T' t" using wf step_focus(1)
      by (auto simp: wf_tree_def layable_def unpinned_def shown_def cells_at_def)
    then show ?thesis using wf(3) by (auto simp: windows_ok_def)
  next
    case (step_screen area b)
    then show ?thesis using screen_ok [OF wf(1,2) step_screen(1) wf(4)] wf(3) by (fastforce simp: windows_ok_def)
  next
    case (step_columns k delta b)
    then show ?thesis
      using resize_axis_ok [OF wf(1,2,4) node, of k Vertical W delta] wf(3) by (fastforce simp: windows_ok_def resize_horizontal_def)
  next
    case (step_rows k delta b)
    then show ?thesis
      using resize_axis_ok [OF wf(1,2,4) node, of k Horizontal W delta] wf(3) by (fastforce simp: windows_ok_def resize_vertical_def)
  next
    case step_equalize
    then show ?thesis using equalize_ok [OF wf(1,2), of W] wf(3) by (fastforce simp: windows_ok_def)
  qed
qed

lemma reachable_ok:
  assumes "slot_ok K" "no_size_policy W" "fits area" "(window_step K W)\<^sup>*\<^sup>* (tree_new K area) T"
  shows "\<exists>t. windows_ok K T t"
  using assms(4)
proof (induction rule: rtranclp_induct)
  case base
  then show ?case using tree_new_ok [OF assms(1,3)] by (fastforce simp: windows_ok_def shown_def)
next
  case (step T T')
  then show ?case using step_keeps_ok [OF assms(1,2)] by blast
qed

section \<open>Two windows side by side\<close>

text \<open>A screen of 80 columns and 24 rows, two windows with the given weights, the left one in focus.\<close>

definition nat_keys :: "nat slot_api" where
  "nat_keys = \<lparr>null_key = 0, key = Suc, slot_of = id\<rparr>"

definition plain_view :: "nat \<Rightarrow> rect \<Rightarrow> nat view" where
  "plain_view k a = \<lparr>v_id = k, v_doc = 0, v_area = a, v_winfixheight = False, v_winfixwidth = False\<rparr>"

definition two_windows :: "f32 \<Rightarrow> f32 \<Rightarrow> nat tree" where
  "two_windows w1 w2 = \<lparr>t_root = 1, t_focus = 2, t_area = rect_new 0 0 80 24,
     t_nodes = \<lparr>sm_nodes = [
        1 \<mapsto> \<lparr>n_parent = 1, n_content = CContainer \<lparr>c_layout = Vertical, c_children = [2, 3], c_area = rect_new 0 0 80 24\<rparr>, n_weight = 1\<rparr>,
        2 \<mapsto> \<lparr>n_parent = 1, n_content = CView (plain_view 2 (rect_new 0 0 40 24)), n_weight = w1\<rparr>,
        3 \<mapsto> \<lparr>n_parent = 1, n_content = CView (plain_view 3 (rect_new 41 0 39 24)), n_weight = w2\<rparr>],
      sm_count = 3\<rparr>,
     t_stack = []\<rparr>"

abbreviation side_by_side :: "nat wtree" where
  "side_by_side \<equiv> WSplit 1 Vertical [WLeaf 2, WLeaf 3]"

lemma nat_keys_ok: "slot_ok nat_keys"
  by (simp add: slot_ok_def nat_keys_def)

lemma default_no_size_policy: "no_size_policy win_opts_default"
  by (simp add: no_size_policy_def win_opts_default_def)

lemma two_windows_node_at:
  "node_at (two_windows w1 w2) = [
     1 \<mapsto> \<lparr>n_parent = 1, n_content = CContainer \<lparr>c_layout = Vertical, c_children = [2, 3], c_area = rect_new 0 0 80 24\<rparr>, n_weight = 1\<rparr>,
     2 \<mapsto> \<lparr>n_parent = 1, n_content = CView (plain_view 2 (rect_new 0 0 40 24)), n_weight = w1\<rparr>,
     3 \<mapsto> \<lparr>n_parent = 1, n_content = CView (plain_view 3 (rect_new 41 0 39 24)), n_weight = w2\<rparr>]"
  by (simp add: two_windows_def node_at_def fun_eq_iff)

lemma two_windows_skel:
  "skel (two_windows w1 w2) = [1 \<mapsto> (1, Inr (Vertical, [2, 3])), 2 \<mapsto> (1, Inl 2), 3 \<mapsto> (1, Inl 3)]"
  by (simp add: skel_def two_windows_node_at fun_eq_iff strip_def plain_view_def)

lemma two_windows_ok: "windows_ok nat_keys (two_windows w1 w2) side_by_side"
  unfolding windows_ok_def
proof (intro conjI)
  have "set (ids side_by_side) \<subseteq> key nat_keys ` {..<3}" by (auto simp: nat_keys_def lessThan_def image_iff intro: exI [of _ "_ - 1"])
  then show "wf_tree nat_keys (two_windows w1 w2) side_by_side"
    by (auto simp: wf_tree_def two_windows_skel) (simp_all add: two_windows_def)
  show "layable (two_windows w1 w2) side_by_side"
    by (simp add: layable_def unpinned_def two_windows_node_at pinned_node_def plain_view_def)
      (simp add: two_windows_def fits_def rect_new_def)
  show "shown (two_windows w1 w2) side_by_side"
    by (auto simp: shown_def cells_at_def two_windows_node_at area_of_def plain_view_def cells_of_def rect_new_def)
      (simp_all add: two_windows_def rect_new_def)
qed simp

section \<open>The properties\<close>

lemma windows_leaf_ids: "windows_ok K T t \<Longrightarrow> leaf_ids T = Some (leaves t)"
  by (rule leaf_ids_rep) (simp_all add: windows_ok_def wf_tree_def)

lemma windows_distinct: "windows_ok K T t \<Longrightarrow> distinct (leaves t)"
  by (rule distinct_leaves) (simp add: windows_ok_def wf_tree_def)

text \<open>
  C33: In every state that inserting, splitting, removing, focusing, resizing and levelling windows reach
  from an empty screen, the store is a tree of windows in which no split below the root has fewer than
  two children, a window has the focus when there is one, every window lies on the screen, and no two
  windows share a cell.
\<close>

theorem reachable_windows:
  assumes "slot_ok K" "no_size_policy W" "fits area" "(window_step K W)\<^sup>*\<^sup>* (tree_new K area) T"
  shows "\<exists>t ws. wf_tree K T t \<and> leaf_ids T = Some ws \<and> distinct ws \<and> (ws \<noteq> [] \<longrightarrow> t_focus T \<in> set ws) \<and>
    (\<forall>k\<in>set ws. cells_at T k \<subseteq> cells_of (t_area T)) \<and>
    (\<forall>j\<in>set ws. \<forall>k\<in>set ws. j \<noteq> k \<longrightarrow> cells_at T j \<inter> cells_at T k = {})"
proof -
  obtain t where t: "windows_ok K T t" using reachable_ok [OF assms] ..
  then have "leaves t \<noteq> [] \<longrightarrow> t_focus T \<in> set (leaves t)" by (simp add: windows_ok_def wf_tree_def)
  then show ?thesis
    using t windows_leaf_ids [OF t] windows_distinct [OF t] by (auto simp: windows_ok_def shown_def)
qed

lemma first_window:
  "\<exists>T. window_step nat_keys win_opts_default (tree_new nat_keys (rect_new 0 0 80 24)) T \<and>
    windows_ok nat_keys T (WSplit 1 Vertical [WLeaf 2]) \<and> t_area T = rect_new 0 0 80 24"
proof -
  let ?K = nat_keys and ?T = "tree_new nat_keys (rect_new 0 0 80 24)" and ?t = "WSplit (1::nat) Vertical []"
  let ?v = "plain_view 0 rect_default"
  have f: "fits (rect_new 0 0 80 24)" by (simp add: fits_def rect_new_def)
  have k: "key ?K 0 = 1" "t_focus ?T = 1" "next_key ?K ?T = 2"
    by (simp_all add: nat_keys_def tree_new_def slot_insert_def Let_def set_node_def slots_empty_def next_key_def)
  note new = tree_new_ok [OF nat_keys_ok f, unfolded k]
  have v: "\<not> pinned_view ?v" by (simp add: pinned_view_def plain_view_def)
  obtain T' where T': "tree_insert ?K win_opts_default ?v ?T = Some (2, T')" "windows_ok ?K T' (WSplit 1 Vertical [WLeaf 2])"
      "t_area T' = t_area ?T"
    using tree_insert_ok [OF nat_keys_ok new(1,2) v _ default_no_size_policy] k by (auto simp: inserted_def windows_ok_def)
  have "card (dom (skel ?T)) < 126" using wf_card [OF new(1)] by simp
  then have "window_step ?K win_opts_default ?T T'" by (rule step_insert [OF v _ T'(1)])
  then show ?thesis using T'(2,3) new(3) by auto
qed

theorem reachable_windows_witness:
  "\<exists>T. (window_step nat_keys win_opts_default)\<^sup>*\<^sup>* (tree_new nat_keys (rect_new 0 0 80 24)) T \<and> leaf_ids T = Some [2] \<and>
    cells_at T 2 \<subseteq> cells_of (rect_new 0 0 80 24)"
proof -
  obtain T where T: "window_step nat_keys win_opts_default (tree_new nat_keys (rect_new 0 0 80 24)) T"
    "windows_ok nat_keys T (WSplit 1 Vertical [WLeaf 2])" "t_area T = rect_new 0 0 80 24" using first_window by blast
  have f: "fits (rect_new 0 0 80 24)" by (simp add: fits_def rect_new_def)
  have r: "(window_step nat_keys win_opts_default)\<^sup>*\<^sup>* (tree_new nat_keys (rect_new 0 0 80 24)) T" using T(1) by blast
  have "leaf_ids T = Some [2]" using windows_leaf_ids [OF T(2)] by simp
  then show ?thesis using reachable_windows [OF nat_keys_ok default_no_size_policy f r] r T(3) by auto
qed

text \<open>
  C35: Splitting implements the split of the abstract tree: in a container of the wanted layout the new
  window gets the place before or after the focus; in another one a new container with the focus and the
  new window, in that order or the other, takes the place of the focus.  Nothing else moves, the new
  window gets the focus, and the windows still tile the screen.
\<close>

theorem split_refines:
  assumes "slot_ok K" "no_size_policy W" "windows_ok K T t" "length (ids t) < 126" "leaves t \<noteq> []" "\<not> pinned_view v"
  shows "\<exists>T'. split_with K W v l before T = Some (next_key K T, T') \<and> t_focus T' = next_key K T \<and> t_area T' = t_area T \<and>
    windows_ok K T' (splitted l before (t_focus T) (next_key K T) (key K (sm_count (t_nodes T) + 1)) t)"
proof -
  have wf: "wf_tree K T t" "layable T t" using assms(3) by (simp_all add: windows_ok_def)
  let ?t = "splitted l before (t_focus T) (next_key K T) (key K (sm_count (t_nodes T) + 1)) t"
  have "length (ids ?t) \<le> length (ids t) + 2" by (rule splitted_length [OF wf(1) assms(5)])
  then have "length (ids ?t) \<le> 128" using assms(4) by simp
  moreover obtain T' where "split_with K W v l before T = Some (next_key K T, T')" "wf_tree K T' ?t" "layable T' ?t" "shown T' ?t"
    "t_focus T' = next_key K T" "t_area T' = t_area T"
    using split_with_ok [OF assms(1) wf assms(6) _ assms(2,5), of l before] assms(4) by auto
  ultimately show ?thesis by (simp add: windows_ok_def)
qed

lemma two_windows_keys:
  "t_focus (two_windows w1 w2) = 2" "t_area (two_windows w1 w2) = rect_new 0 0 80 24" "next_key nat_keys (two_windows w1 w2) = 4"
  "key nat_keys (Suc (sm_count (t_nodes (two_windows w1 w2)))) = 5" "t_root (two_windows w1 w2) = 1" "card (dom (skel (two_windows w1 w2))) = 3"
  using wf_card [of nat_keys "two_windows w1 w2" side_by_side] two_windows_ok [of w1 w2]
  by (simp_all add: two_windows_def next_key_def nat_keys_def windows_ok_def)

lemma plain_view_unpinned [simp]: "\<not> pinned_view (plain_view k a)"
  by (simp add: pinned_view_def plain_view_def)

theorem split_refines_witness:
  "\<exists>T'. split_with nat_keys win_opts_default (plain_view 0 rect_default) Horizontal True (two_windows 1 1) = Some (4, T') \<and>
    windows_ok nat_keys T' (WSplit 1 Vertical [WSplit 5 Horizontal [WLeaf 4, WLeaf 2], WLeaf 3])"
  using split_refines [OF nat_keys_ok default_no_size_policy two_windows_ok [of 1 1] _ _ plain_view_unpinned, of 0 rect_default Horizontal True]
  by (auto simp: two_windows_keys splitted_def pair_of_def)

text \<open>
  A window that is inserted stands right after the focus in the order of the windows and gets the
  focus, and one that is removed leaves the order of the others as it was; when it had the focus, the
  focus goes to the window before it, else it stays.
\<close>

theorem insert_remove_order:
  assumes "slot_ok K" "no_size_policy W" "windows_ok K T t" "length (ids t) < 126" "\<not> pinned_view v"
    and "leaf_ids T = Some (xs @ t_focus T # ys)" "f \<in> set (xs @ t_focus T # ys)"
  shows "\<exists>T1 T2. tree_insert K W v T = Some (next_key K T, T1) \<and> t_focus T1 = next_key K T \<and>
    leaf_ids T1 = Some (xs @ t_focus T # next_key K T # ys) \<and>
    tree_remove W f T = Some T2 \<and> leaf_ids T2 = Some (filter (\<lambda>k. k \<noteq> f) (xs @ t_focus T # ys)) \<and>
    (f \<noteq> t_focus T \<longrightarrow> t_focus T2 = t_focus T) \<and>
    (f = t_focus T \<and> xs @ ys \<noteq> [] \<longrightarrow> t_focus T2 = last (ys @ xs))"
proof -
  have wf: "wf_tree K T t" "layable T t" "length (ids t) \<le> 128" using assms(3) by (simp_all add: windows_ok_def)
  have xy: "leaves t = xs @ t_focus T # ys" using windows_leaf_ids [OF assms(3)] assms(6) by simp
  then have lv: "leaves t \<noteq> []" by simp
  have d: "distinct (ids t)" "distinct (leaves t)" using wf(1) windows_distinct [OF assms(3)] by (simp_all add: wf_tree_def)
  let ?k = "next_key K T"
  obtain T1 where T1: "tree_insert K W v T = Some (?k, T1)" "wf_tree K T1 (inserted (t_focus T) ?k t)" "t_focus T1 = ?k"
    using tree_insert_ok [OF assms(1) wf(1,2) assms(5) _ assms(2)] assms(4) by auto
  obtain l ts where "t = WSplit (t_root T) l ts" by (rule wf_root [OF wf(1)])
  then have "inserted (t_focus T) ?k t = graft (t_focus T) [WLeaf (t_focus T), WLeaf ?k] t"
    using lv by (cases ts) (simp_all add: inserted_def)
  moreover obtain xs' ys' where "leaves t = xs' @ t_focus T # ys'"
    "leaves (graft (t_focus T) [WLeaf (t_focus T), WLeaf ?k] t) = xs' @ concat (map leaves [WLeaf (t_focus T), WLeaf ?k]) @ ys'"
    using grafted_leaves [OF d(1) wf_focus(1,2) [OF wf(1) lv]] by blast
  moreover have "xs' = xs \<and> ys' = ys" using calculation(2) xy d(2) by (auto simp: append_eq_append_conv2 append_eq_Cons_conv Cons_eq_append_conv)
  ultimately have "leaf_ids T1 = Some (xs @ t_focus T # ?k # ys)"
    using leaf_ids_rep [of T1 "inserted (t_focus T) ?k t"] T1(2) by (simp add: wf_tree_def)
  moreover obtain T2 t' where T2: "tree_remove W f T = Some T2" "wf_tree K T2 t'" "leaves t' = filter (\<lambda>k. k \<noteq> f) (leaves t)"
    "t_focus T \<noteq> f \<longrightarrow> t_focus T2 = t_focus T" "t_focus T = f \<longrightarrow> leaves t' \<noteq> [] \<longrightarrow> Some (t_focus T2) = tree_prev T"
    using tree_remove_ok [OF wf(1,2) _ wf(3) assms(2)] assms(7) xy by metis
  moreover have "leaf_ids T2 = Some (leaves t')" using leaf_ids_rep [of T2 t'] T2(2) by (simp add: wf_tree_def)
  moreover have "t_focus T2 = last (ys @ xs)" if "f = t_focus T" "xs @ ys \<noteq> []"
  proof -
    have "t_focus T \<notin> set xs" "t_focus T \<notin> set ys" using d(2) xy by auto
    then have "filter (\<lambda>k. k \<noteq> f) xs = xs" "filter (\<lambda>k. k \<noteq> f) ys = ys"
      using that(1) by (auto simp: filter_id_conv)
    then have "leaves t' = xs @ ys" using T2(3) that(1) xy by simp
    then show ?thesis using T2(5) that next_prev(2) [OF wf(1) xy] by auto
  qed
  ultimately show ?thesis using T1 xy by auto
qed

theorem insert_remove_order_witness:
  "\<exists>T1 T2. tree_insert nat_keys win_opts_default (plain_view 0 rect_default) (two_windows 1 1) = Some (4, T1) \<and>
    leaf_ids T1 = Some [2, 4, 3] \<and> tree_remove win_opts_default 2 (two_windows 1 1) = Some T2 \<and> leaf_ids T2 = Some [3] \<and> t_focus T2 = 3"
proof -
  have "leaf_ids (two_windows 1 1) = Some ([] @ t_focus (two_windows 1 1) # [3])"
    using windows_leaf_ids [OF two_windows_ok [of 1 1]] by (simp add: two_windows_keys)
  from insert_remove_order [OF nat_keys_ok default_no_size_policy two_windows_ok [of 1 1] _ plain_view_unpinned [of 0 rect_default] this, of 2]
  show ?thesis by (auto simp: two_windows_keys)
qed

text \<open>
  Going to the next window and then to the previous one, or the other way round, leads back, and
  going on as often as there are windows visits each of them once.
\<close>

theorem next_prev_cycle:
  assumes "windows_ok K T t" "leaf_ids T = Some (xs @ t_focus T # ys)"
  shows "\<exists>n p. tree_next T = Some n \<and> tree_prev T = Some p \<and>
    tree_prev (T\<lparr>t_focus := n\<rparr>) = Some (t_focus T) \<and> tree_next (T\<lparr>t_focus := p\<rparr>) = Some (t_focus T) \<and>
    n = hd (ys @ xs @ [t_focus T]) \<and> p = last (t_focus T # ys @ xs)"
proof -
  have wf: "wf_tree K T t" using assms(1) by (simp add: windows_ok_def)
  have xy: "leaves t = xs @ t_focus T # ys" using windows_leaf_ids [OF assms(1)] assms(2) by simp
  have refocus: "wf_tree K (T\<lparr>t_focus := g\<rparr>) t" if "g \<in> set (leaves t)" for g
    using wf that by (auto simp: wf_tree_def)
  let ?n = "hd (ys @ xs @ [t_focus T])" and ?p = "last (t_focus T # ys @ xs)"
  have "tree_prev (T\<lparr>t_focus := ?n\<rparr>) = Some (t_focus T)"
  proof (cases ys)
    case (Cons y zs)
    then show ?thesis using next_prev(2) [of K "T\<lparr>t_focus := y\<rparr>" t "xs @ [t_focus T]" zs] refocus [of y] xy by simp
  next
    case Nil
    then show ?thesis
      using next_prev(2) [of K "T\<lparr>t_focus := ?n\<rparr>" t "[]" "tl (xs @ [t_focus T])"] refocus [of ?n] xy by (cases xs) auto
  qed
  moreover have "tree_next (T\<lparr>t_focus := ?p\<rparr>) = Some (t_focus T)"
  proof (cases xs rule: rev_cases)
    case (snoc zs z)
    then show ?thesis using next_prev(1) [of K "T\<lparr>t_focus := z\<rparr>" t zs "t_focus T # ys"] refocus [of z] xy by simp
  next
    case Nil
    then show ?thesis
      using next_prev(1) [of K "T\<lparr>t_focus := ?p\<rparr>" t "butlast (t_focus T # ys)" "[]"] refocus [of ?p] xy
      by (cases ys rule: rev_cases) auto
  qed
  ultimately show ?thesis using next_prev [OF wf xy] by simp
qed

theorem next_prev_cycle_witness:
  "tree_next (two_windows 1 1) = Some 3 \<and> tree_prev ((two_windows 1 1)\<lparr>t_focus := 3\<rparr>) = Some 2"
proof -
  have "leaf_ids (two_windows 1 1) = Some ([] @ t_focus (two_windows 1 1) # [3])"
    using windows_leaf_ids [OF two_windows_ok [of 1 1]] by (simp add: two_windows_keys)
  from next_prev_cycle [OF two_windows_ok this] show ?thesis by (simp add: two_windows_keys)
qed

text \<open>On a screen without windows the focus is the root.\<close>

lemma empty_screen:
  assumes "slot_ok K" "windows_ok K T (WSplit r m [])"
  obtains nd c where "node_at T (t_root T) = Some nd" "n_parent nd = t_root T" "n_content nd = CContainer c" "c_layout c = m"
    "c_children c = []" "t_focus T = t_root T" "next_key K T \<noteq> t_root T"
    "key K (Suc (sm_count (t_nodes T))) \<noteq> t_root T" "key K (Suc (sm_count (t_nodes T))) \<noteq> next_key K T"
proof -
  have wf: "wf_tree K T (WSplit r m [])" using assms(2) by (simp add: windows_ok_def)
  have L: "links K T (WSplit r m [])" using wf by (simp add: wf_tree_links)
  have "r = t_root T" "t_focus T = t_root T" "skel T (t_root T) = Some (t_root T, Inr (m, []))"
    using wf by (auto simp: wf_tree_def)
  note L = L this
  obtain nd c where "node_at T (t_root T) = Some nd" "n_parent nd = t_root T" "n_content nd = CContainer c" "c_layout c = m"
    "c_children c = []" using L(4) by (auto simp: skel_split)
  moreover have "t_root T \<in> key K ` {..<sm_count (t_nodes T)}" using L(1,2) by (simp add: links_def)
  then have "next_key K T \<noteq> t_root T" "key K (Suc (sm_count (t_nodes T))) \<noteq> t_root T"
    "key K (Suc (sm_count (t_nodes T))) \<noteq> next_key K T"
    using assms(1) by (auto simp: slot_ok_def next_key_def inj_eq)
  ultimately show thesis using that L(3) by blast
qed

text \<open>
  On a screen without windows a split panics when its layout is not that of the root, where it looks
  for the focus among the children of the root; with the layout of the root it opens the first window.
\<close>

theorem split_on_empty_screen:
  assumes "slot_ok K" "no_size_policy W" "windows_ok K T (WSplit r m [])" "\<not> pinned_view v"
  shows "split_with K W v l before T = (if l = m then tree_insert K W v T else None) \<and> tree_insert K W v T \<noteq> None"
proof -
  obtain nd c where e: "node_at T (t_root T) = Some nd" "n_parent nd = t_root T" "n_content nd = CContainer c" "c_layout c = m"
    "c_children c = []" "t_focus T = t_root T" "next_key K T \<noteq> t_root T"
    "key K (Suc (sm_count (t_nodes T))) \<noteq> t_root T" "key K (Suc (sm_count (t_nodes T))) \<noteq> next_key K T"
    by (rule empty_screen [OF assms(1,3)])
  have nl: "(new_leaf K v (null_key K) k)\<lparr>n_parent := q\<rparr> = new_leaf K v q k" for k q by (simp add: new_leaf_def)
  have "split_with K W v m before T = tree_insert K W v T"
    using e nl set_node_commute [of "next_key K T" "t_root T" "new_leaf K v (t_root T) (next_key K T)"]
    by (simp add: split_with_def tree_insert_def slot_insert_eq get_mut_new container_at_def container_mut_def
        store_simps insert_pos_def vec_insert_def set_parent_def Let_def)
  moreover have "split_with K W v l before T = None" if "l \<noteq> m"
    using e that by (simp add: split_with_def slot_insert_eq get_mut_new container_at_def container_mut_def
        store_simps set_parent_def node_container_def next_key_def Let_def)
  moreover have "tree_insert K W v T \<noteq> None"
    using tree_insert_ok [OF assms(1) _ _ assms(4) _ assms(2), of T "WSplit r m []"] assms(3) by (auto simp: windows_ok_def)
  ultimately show ?thesis by simp
qed

theorem split_on_empty_screen_witness:
  "split_with nat_keys win_opts_default (plain_view 0 rect_default) Horizontal False (tree_new nat_keys (rect_new 0 0 80 24)) = None \<and>
   split_with nat_keys win_opts_default (plain_view 0 rect_default) Vertical False (tree_new nat_keys (rect_new 0 0 80 24)) \<noteq> None"
proof -
  have f: "fits (rect_new 0 0 80 24)" by (simp add: fits_def rect_new_def)
  have "windows_ok nat_keys (tree_new nat_keys (rect_new 0 0 80 24)) (WSplit (key nat_keys 0) Vertical [])"
    using tree_new_ok [OF nat_keys_ok f] by (simp add: windows_ok_def shown_empty)
  note E = split_on_empty_screen [OF nat_keys_ok default_no_size_policy this plain_view_unpinned, where before = False]
  show ?thesis using E [where l = Horizontal] E [where l = Vertical] by simp
qed

lemma empty_screen_panics:
  assumes "slot_ok K" "no_size_policy W" "windows_ok K T t" "\<not> pinned_view v" "leaves t = []"
  shows "(\<exists>l. split_with K W v l before T = None) \<and> tree_next T = None \<and> tree_prev T = None"
proof -
  have wf: "wf_tree K T t" using assms(3) by (simp add: windows_ok_def)
  obtain m ts where t: "t = WSplit (t_root T) m ts" "list_all full ts" by (rule wf_root [OF wf])
  then have e: "t = WSplit (t_root T) m []" using assms(5) root_full_leaves [of ts "t_root T" m] by simp
  obtain l where "l \<noteq> m" using layout.distinct by metis
  then have "split_with K W v l before T = None"
    using split_on_empty_screen [OF assms(1,2) assms(3) [unfolded e] assms(4), of l before] by simp
  moreover have "traverse_keys T = Some []" "traverse_keys_back T = Some []"
    using traverse_leaves [of T t] wf assms(5) by (simp_all add: wf_tree_def)
  ultimately show ?thesis by (auto simp: tree_next_def tree_prev_def after_focus_def)
qed

text \<open>
  C34: No command on windows panics in a state that is reached and shows a window, with fewer than 126 nodes:
  inserting, splitting, removing and resizing a window of the tree, a new screen size, levelling, and going to
  the next or the previous window all return.  Of these inserting, the screen size and levelling also return on
  the empty screen; there going to the next or previous window panics, and so does splitting in one of the
  two directions.
\<close>

theorem window_commands_return:
  assumes "slot_ok K" "no_size_policy W" "fits area" "(window_step K W)\<^sup>*\<^sup>* (tree_new K area) T"
    and "card (dom (skel T)) < 126" "\<not> pinned_view v" "fits area'"
  shows "tree_insert K W v T \<noteq> None \<and> tree_resize area' T \<noteq> None \<and> equalize K W T \<noteq> None \<and>
    (\<forall>k u. try_get T k = Some u \<longrightarrow>
      tree_remove W k T \<noteq> None \<and> resize_horizontal W k delta T \<noteq> None \<and> resize_vertical W k delta T \<noteq> None) \<and>
    (if leaf_ids T \<noteq> Some [] then (\<forall>l. split_with K W v l before T \<noteq> None) \<and> tree_next T \<noteq> None \<and> tree_prev T \<noteq> None
     else (\<exists>l. split_with K W v l before T = None) \<and> tree_next T = None \<and> tree_prev T = None)"
proof -
  obtain t where ok: "windows_ok K T t" using reachable_ok [OF assms(1-4)] ..
  then have wf: "wf_tree K T t" "layable T t" "shown T t" "length (ids t) \<le> 128" by (simp_all add: windows_ok_def)
  have n: "length (ids t) < 126" using assms(5) wf_card [OF wf(1)] by simp
  have "tree_insert K W v T \<noteq> None" using tree_insert_ok [OF assms(1) wf(1,2) assms(6) _ assms(2)] n by auto
  moreover have "tree_resize area' T \<noteq> None" using screen_ok [OF wf(1,2) assms(7) wf(3)] by auto
  moreover have "equalize K W T \<noteq> None" using equalize_ok [OF wf(1,2), of W] by auto
  moreover have "tree_remove W k T \<noteq> None \<and> resize_horizontal W k delta T \<noteq> None \<and> resize_vertical W k delta T \<noteq> None"
    if "try_get T k = Some u" for k u
  proof -
    have k: "k \<in> set (leaves t)" "k \<in> set (ids t)" using leaf_skel [OF wf(1)] that leaves_ids by fastforce+
    have "resize_axis d W k delta T \<noteq> None" for d using resize_axis_ok [OF wf(1-3) k(2), of d W delta] by auto
    then show ?thesis using tree_remove_ok [OF wf(1,2) k(1) wf(4) assms(2)] by (auto simp: resize_horizontal_def resize_vertical_def)
  qed
  moreover have "(\<forall>l. split_with K W v l before T \<noteq> None) \<and> tree_next T \<noteq> None \<and> tree_prev T \<noteq> None" if lv: "leaves t \<noteq> []"
  proof -
    obtain xs ys where xy: "leaves t = xs @ t_focus T # ys" using wf_focus(3) [OF wf(1) lv] by (meson split_list)
    have "split_with K W v l before T \<noteq> None" for l
      using split_with_ok [OF assms(1) wf(1,2) assms(6) _ assms(2) lv, of l before] n by auto
    then show ?thesis using next_prev [OF wf(1) xy] by simp
  qed
  moreover have "(\<exists>l. split_with K W v l before T = None) \<and> tree_next T = None \<and> tree_prev T = None" if "leaves t = []"
    by (rule empty_screen_panics [OF assms(1,2) ok assms(6) that])
  ultimately show ?thesis using windows_leaf_ids [OF ok] by auto
qed

theorem window_commands_return_witness:
  "\<exists>T. leaf_ids T = Some [2] \<and> split_with nat_keys win_opts_default (plain_view 0 rect_default) Horizontal False T \<noteq> None \<and>
    resize_horizontal win_opts_default 2 5 T \<noteq> None \<and> tree_next T \<noteq> None"
proof -
  obtain T where T: "window_step nat_keys win_opts_default (tree_new nat_keys (rect_new 0 0 80 24)) T"
    "windows_ok nat_keys T (WSplit 1 Vertical [WLeaf 2])" "t_area T = rect_new 0 0 80 24" using first_window by blast
  have f: "fits (rect_new 0 0 80 24)" by (simp add: fits_def rect_new_def)
  have r: "(window_step nat_keys win_opts_default)\<^sup>*\<^sup>* (tree_new nat_keys (rect_new 0 0 80 24)) T" using T(1) by blast
  have wf: "wf_tree nat_keys T (WSplit 1 Vertical [WLeaf 2])" using T(2) by (simp add: windows_ok_def)
  obtain u where u: "try_get T 2 = Some u" using leaf_skel [OF wf, of 2] by auto
  have n: "card (dom (skel T)) < 126" using wf_card [OF wf] by simp
  have v: "\<not> pinned_view (plain_view 0 rect_default)" by (simp add: pinned_view_def plain_view_def)
  have "leaf_ids T = Some [2]" using windows_leaf_ids [OF T(2)] by simp
  then show ?thesis using window_commands_return [OF nat_keys_ok default_no_size_policy f r n v f, of 5 False] u by auto
qed

section \<open>Where the code does something else than it says\<close>

text \<open>
  The last window that gives cells away absorbs the rounding remainder of the others, and nothing keeps
  it above the floor: in a row of windows of 20 and five of 3 cells with the floor 2, the first one asking
  for 24 makes the last give up 4 of its 3 cells, and the subtraction panics.
\<close>

lemma grow_to_underflow: "grow_to [20, 3, 3, 3, 3, 3] 0 24 2 = None"
  by (simp add: grow_to_def u16_sum_def u16_add_def u16_sat_mul_def rposition_def checked_sub_def Let_def List.enumerate_simps)

lemma round_even_down: "of_int k \<le> y \<Longrightarrow> y < of_int k + 1 / 2 \<Longrightarrow> round_even y = k"
  using floor_unique [of k y] by (simp add: round_even_def Let_def)

lemma f32_13_22: "f32_div 13 22 = 9913809 / 16777216" "f32_mul 22 (9913809 / 16777216) = 13631487 / 1048576"
proof -
  have "round_even (109051904 / 11) = 9913809" "round_even (109051899 / 8) = 13631487"
    by (rule round_even_down; simp)+
  then show "f32_div 13 22 = 9913809 / 16777216" "f32_mul 22 (9913809 / 16777216) = 13631487 / 1048576"
    using f32_round_eval [of "-24" "13/22"] f32_round_eval [of "-20" "109051899 / 8388608"]
    by (simp_all add: f32_div_def f32_mul_def power_int_def power_divide)
qed

lemma as_u16_floor: "of_nat k \<le> x \<Longrightarrow> x < of_nat k + 1 \<Longrightarrow> k \<le> 65535 \<Longrightarrow> f32_as_u16 x = k"
  using floor_unique [of "int k" x] by (simp add: f32_as_u16_def)

text \<open>A window that was made 13 of 22 columns wide is laid out with 12: the share is truncated.\<close>

lemma split_sizes_truncates: "split_sizes 22 [13, 9] 22 [None, None] = Some [12, 10]"
proof -
  have "f32_add (f32_add 0 13) 9 = 22"
    using f32_add_ints [of 0 13] f32_add_ints [of 13 9] by simp
  moreover have "f32_as_u16 (13631487 / 1048576) = 12" by (rule as_u16_floor) simp_all
  ultimately show ?thesis
    by (simp add: split_sizes_def u16_sum_def map_filter_simps scaled_def f32_13_22 f32_sum_def f32_epsilon_def u16_sat_add_def Let_def)
qed

text \<open>
  Resizing stores cell counts as weights, and a new window has the weight 1: splitting the left one of
  two windows that were resized to 50 and 29 columns opens a window of no width.
\<close>

lemma split_after_resize: "split_areas Vertical (rect_new 0 0 80 24) [50, 1, 29] [None, None, None] =
    Some [rect_new 0 0 49 24, rect_new 50 0 0 24, rect_new 51 0 29 24]"
proof -
  have "round_even 10485760 = 10485760" "round_even 12943360 = 12943360"
    using round_even_int [of 10485760] round_even_int [of 12943360] by simp_all
  then have "f32_div 50 80 = 5 / 8" "f32_mul 79 (5 / 8) = 395 / 8"
    using f32_round_eval [of "-24" "5 / 8"] f32_round_eval [of "-18" "395 / 8"]
    by (simp_all add: f32_div_def f32_mul_def power_int_def power_divide)
  moreover have "f32_as_u16 (395 / 8) = 49" by (rule as_u16_floor) simp_all
  moreover have "scaled 79 1 80 = 0" using scaled_le [of 1 80 79] by simp
  moreover have "f32_add 0 50 = 50" "f32_add 50 1 = 51" "f32_add 51 29 = 80"
    using f32_add_ints [of 0 50] f32_add_ints [of 50 1] f32_add_ints [of 51 29] by simp_all
  moreover have "f32_of_int (int 79) = 79" by simp
  then have "scaled 79 50 80 = 49" unfolding scaled_def using calculation(1-3) by (simp only:)
  ultimately show ?thesis
    by (simp add: split_areas_def split_sizes_def u16_sum_def map_filter_simps f32_sum_def f32_epsilon_def u16_sat_add_def
        u16_add_def rect_new_def Let_def)
qed

text \<open>All weights zero do not divide a split evenly: the last child gets everything.\<close>

lemma zero_weights: "split_areas Horizontal (rect_new 0 0 80 30) [0, 0, 0] [None, None, None] =
    Some [rect_new 0 0 80 0, rect_new 0 0 80 0, rect_new 0 0 80 30]"
proof -
  have "f32_sum [0, 0, 0] = 0" "scaled 30 0 3 = 0" using f32_add_ints [of 0 0]
    by (simp_all add: f32_sum_def scaled_def f32_div_def f32_mul_def f32_round_def f32_as_u16_def)
  then show ?thesis
    by (simp add: split_areas_def split_sizes_def u16_sum_def map_filter_simps f32_epsilon_def u16_sat_add_def
        u16_add_def rect_new_def Let_def)
qed

text \<open>A pinned last window of a row overflows it by one column: one gap less is reserved than is inserted.\<close>

lemma pinned_overflows: "split_areas Vertical (rect_new 0 0 80 24) [1, 1] [None, Some 30] =
    Some [rect_new 0 0 50 24, rect_new 51 0 30 24]"
proof -
  have "f32_sum [1, 1] = 2" "f32_sum [1] = 1" using f32_add_ints [of 0 1] f32_add_ints [of 1 1] by (simp_all add: f32_sum_def)
  then show ?thesis
    by (simp add: split_areas_def split_sizes_def u16_sum_def map_filter_simps f32_epsilon_def u16_sat_add_def
        u16_add_def rect_new_def Let_def)
qed

end
