(* ===== verification/CommandLine.thy ===== *)
theory CommandLine
  imports Prelude "HOL-Library.Monad_Syntax"
begin

text \<open>
  Command mode input: \<open>zmax-core/src/command_line.rs\<close>.  A \<open>Tokenizer\<close> walks over the bytes of a line
  and hands out tokens; \<open>Args\<close> sorts them into flags and positional arguments according to the signature
  of a command.  The input is a list of bytes, in which a slice that does not start and end at the
  boundary of a character panics.  The code is the one for Unix, where backslashes escape.
\<close>

section \<open>Bytes\<close>

text \<open>The bytes of a character in UTF-8, and of a string.\<close>

definition utf8_char :: "uchar \<Rightarrow> nat list" where
  "utf8_char c =
     (if c < 128 then [c]
      else if c < 2048 then [192 + c div 64, 128 + c mod 64]
      else if c < 65536 then [224 + c div 4096, 128 + c div 64 mod 64, 128 + c mod 64]
      else [240 + c div 262144, 128 + c div 4096 mod 64, 128 + c div 64 mod 64, 128 + c mod 64])"

definition utf8 :: "str \<Rightarrow> nat list" where
  "utf8 s = concat (map utf8_char s)"

definition byte_at :: "nat list \<Rightarrow> nat \<Rightarrow> nat option" where
  "byte_at b i = (if i < length b then Some (b ! i) else None)"

text \<open>A byte that continues a character is not a boundary; a slice elsewhere panics.\<close>

definition continues :: "nat \<Rightarrow> bool" where
  "continues x \<longleftrightarrow> 128 \<le> x \<and> x < 192"

definition is_char_boundary :: "nat list \<Rightarrow> nat \<Rightarrow> bool" where
  "is_char_boundary b i \<longleftrightarrow> i = 0 \<or> i = length b \<or> i < length b \<and> \<not> continues (b ! i)"

definition str_slice :: "nat list \<Rightarrow> nat \<Rightarrow> nat \<Rightarrow> nat list option" where
  "str_slice b i j =
     (if i \<le> j \<and> j \<le> length b \<and> is_char_boundary b i \<and> is_char_boundary b j then Some (take (j - i) (drop i b)) else None)"

section \<open>Data\<close>

datatype expansion_kind = Variable | Unicode | Shell | Register

definition as_str :: "expansion_kind \<Rightarrow> nat list" where
  "as_str k = (case k of Variable \<Rightarrow> [] | Unicode \<Rightarrow> lit ''u'' | Shell \<Rightarrow> lit ''sh'' | Register \<Rightarrow> lit ''reg'')"

definition from_kind :: "nat list \<Rightarrow> expansion_kind option" where
  "from_kind name =
     (if name = [] then Some Variable
      else if name = lit ''u'' then Some Unicode
      else if name = lit ''sh'' then Some Shell
      else if name = lit ''reg'' then Some Register
      else None)"

datatype quote = Single | Backtick

definition quote_char :: "quote \<Rightarrow> nat" where
  "quote_char q = (case q of Single \<Rightarrow> 39 | Backtick \<Rightarrow> 96)"

definition quote_escape :: "quote \<Rightarrow> nat list" where
  "quote_escape q = (case q of Single \<Rightarrow> [39, 39] | Backtick \<Rightarrow> [96, 96])"

datatype token_kind = Unquoted | Quoted quote | Expand | Expansion expansion_kind | ExpansionKind

record token =
  tok_kind :: token_kind
  content_start :: nat
  tok_content :: "nat list"
  is_terminated :: bool

definition empty_at :: "nat \<Rightarrow> token" where
  "empty_at start = \<lparr>tok_kind = Unquoted, content_start = start, tok_content = [], is_terminated = False\<rparr>"

definition token_expand :: "nat list \<Rightarrow> token" where
  "token_expand s = \<lparr>tok_kind = Expand, content_start = 0, tok_content = s, is_terminated = True\<rparr>"

datatype parse_args_error =
    WrongPositionalCount nat "nat option" nat
  | UnterminatedToken token
  | DuplicatedFlag "nat list"
  | UnknownFlag "nat list"
  | FlagMissingArgument "nat list"
  | MissingExpansionDelimiter "nat list"
  | UnknownExpansion "nat list"

record tokenizer =
  tk_input :: "nat list"
  tk_validate :: bool
  tk_pos :: nat

section \<open>The tokenizer\<close>

definition tokenizer_new :: "nat list \<Rightarrow> bool \<Rightarrow> tokenizer" where
  "tokenizer_new input validate = \<lparr>tk_input = input, tk_validate = validate, tk_pos = 0\<rparr>"

definition tk_byte :: "tokenizer \<Rightarrow> nat option" where
  "tk_byte t = byte_at (tk_input t) (tk_pos t)"

definition peek_byte :: "tokenizer \<Rightarrow> nat option" where
  "peek_byte t = byte_at (tk_input t) (tk_pos t + 1)"

text \<open>The outer option is the panic of an index out of range.\<close>

definition prev_byte :: "tokenizer \<Rightarrow> nat option option" where
  "prev_byte t =
     (case checked_sub (tk_pos t) 1 of
        None \<Rightarrow> Some None
      | Some idx \<Rightarrow> map_option Some (byte_at (tk_input t) idx))"

definition advance :: "nat \<Rightarrow> tokenizer \<Rightarrow> tokenizer" where
  "advance n t = t\<lparr>tk_pos := tk_pos t + n\<rparr>"

definition go_to :: "nat \<Rightarrow> tokenizer \<Rightarrow> tokenizer" where
  "go_to p t = t\<lparr>tk_pos := p\<rparr>"

abbreviation blank :: "nat \<Rightarrow> bool" where
  "blank x \<equiv> x = 32 \<or> x = 9"

abbreviation "backslash \<equiv> 92 :: nat"
abbreviation "percent \<equiv> 37 :: nat"

function skip_blanks :: "tokenizer \<Rightarrow> tokenizer" where
  "skip_blanks t =
     (case tk_byte t of
        Some x \<Rightarrow> if blank x then skip_blanks (advance 1 t) else t
      | None \<Rightarrow> t)"
  by auto

termination
  by (relation "measure (\<lambda>t. length (tk_input t) - tk_pos t)")
    (auto simp: tk_byte_def byte_at_def advance_def split: if_splits)

declare skip_blanks.simps [simp del]

definition tk_rest :: "tokenizer \<Rightarrow> (token option \<times> tokenizer) option" where
  "tk_rest t =
     (let t = skip_blanks t
      in if tk_pos t = length (tk_input t) then Some (None, t)
         else do {
           s \<leftarrow> str_slice (tk_input t) (tk_pos t) (length (tk_input t));
           Some (Some \<lparr>tok_kind = Expand, content_start = tk_pos t, tok_content = s, is_terminated = False\<rparr>,
             go_to (length (tk_input t)) t)
         })"

text \<open>What follows the loop of \<open>parse_unquoted\<close>.\<close>

definition unquoted_end :: "nat list \<Rightarrow> nat \<Rightarrow> tokenizer \<Rightarrow> (nat list \<times> tokenizer) option" where
  "unquoted_end escaped start t =
     do {
       prev \<leftarrow> prev_byte t;
       let fin = (if prev = Some backslash then tk_pos t - 1 else tk_pos t);
       if escaped = [] \<and> tk_pos t \<noteq> length (tk_input t) then None
       else do { s \<leftarrow> str_slice (tk_input t) start fin; Some (escaped @ s, t) }
     }"

function unquoted_loop :: "nat list \<Rightarrow> nat \<Rightarrow> tokenizer \<Rightarrow> (nat list \<times> tokenizer) option" where
  "unquoted_loop escaped start t =
     (case tk_byte t of
        None \<Rightarrow> unquoted_end escaped start t
      | Some x \<Rightarrow>
          if blank x then
            do {
              prev \<leftarrow> prev_byte t;
              if prev = Some backslash then
                do {
                  s \<leftarrow> str_slice (tk_input t) start (tk_pos t - 1);
                  unquoted_loop (escaped @ s @ [x]) (tk_pos t + 1) (advance 1 t)
                }
              else if escaped = [] then
                do { s \<leftarrow> str_slice (tk_input t) start (tk_pos t); Some (s, t) }
              else unquoted_end escaped start t
            }
          else unquoted_loop escaped start (advance 1 t))"
  by auto

termination
  by (relation "measure (\<lambda>(escaped, start, t). length (tk_input t) - tk_pos t)")
    (auto simp: tk_byte_def byte_at_def advance_def split: if_splits)

declare unquoted_loop.simps [simp del]

definition parse_unquoted :: "tokenizer \<Rightarrow> (nat list \<times> tokenizer) option" where
  "parse_unquoted t = unquoted_loop [] (tk_pos t) t"

function quoted_loop :: "nat \<Rightarrow> nat list \<Rightarrow> tokenizer \<Rightarrow> ((nat list \<times> bool) \<times> tokenizer) option" where
  "quoted_loop quote escaped t =
     do {
       rest \<leftarrow> str_slice (tk_input t) (tk_pos t) (length (tk_input t));
       case position (\<lambda>x. x = quote) rest of
         None \<Rightarrow> Some ((escaped @ rest, False), go_to (length (tk_input t)) t)
       | Some offset \<Rightarrow>
           let idx = tk_pos t + offset
           in if byte_at (tk_input t) (idx + 1) = Some quote
              then do {
                s \<leftarrow> str_slice (tk_input t) (tk_pos t) (idx + 1);
                quoted_loop quote (escaped @ s) (go_to (idx + 2) t)
              }
              else do {
                s \<leftarrow> str_slice (tk_input t) (tk_pos t) idx;
                Some ((escaped @ s, True), go_to (idx + 1) t)
              }
     }"
  by auto

termination
  by (relation "measure (\<lambda>(quote, escaped, t). length (tk_input t) - tk_pos t)")
    (auto simp: str_slice_def go_to_def split: if_splits dest!: position_Some)

declare quoted_loop.simps [simp del]

definition parse_quoted :: "nat \<Rightarrow> tokenizer \<Rightarrow> ((nat list \<times> bool) \<times> tokenizer) option" where
  "parse_quoted quote t = (if tk_byte t \<noteq> Some quote then None else quoted_loop quote [] (advance 1 t))"

text \<open>
  The loop of \<open>parse_quoted_balanced\<close>: the level of nesting at its end, and where it is.
\<close>

function balanced_loop :: "nat \<Rightarrow> nat \<Rightarrow> nat \<Rightarrow> tokenizer \<Rightarrow> (nat \<times> tokenizer) option" where
  "balanced_loop opn cls level t =
     do {
       rest \<leftarrow> str_slice (tk_input t) (tk_pos t) (length (tk_input t));
       case position (\<lambda>x. x = opn \<or> x = cls) rest of
         None \<Rightarrow> Some (level, t)
       | Some offset \<Rightarrow>
           let idx = tk_pos t + offset; t = go_to (idx + 1) t
           in do {
             x \<leftarrow> byte_at (tk_input t) idx;
             if x = opn then balanced_loop opn cls (level + 1) t
             else do {
               level \<leftarrow> checked_sub level 1;
               if level = 0 then Some (level, t) else balanced_loop opn cls level t
             }
           }
     }"
  by auto

termination
  by (relation "measure (\<lambda>(opn, cls, level, t). length (tk_input t) - tk_pos t)")
    (auto simp: str_slice_def go_to_def split: if_splits dest!: position_Some)

declare balanced_loop.simps [simp del]

definition parse_quoted_balanced :: "nat \<Rightarrow> nat \<Rightarrow> tokenizer \<Rightarrow> ((nat list \<times> bool) \<times> tokenizer) option" where
  "parse_quoted_balanced opn cls t =
     (if tk_byte t \<noteq> Some opn then None
      else do {
        let start = tk_pos t + 1;
        (level, t) \<leftarrow> balanced_loop opn cls 1 (advance 1 t);
        if level = 0 then do {
          s \<leftarrow> str_slice (tk_input t) start (tk_pos t - 1);
          Some ((s, True), t)
        }
        else do {
          s \<leftarrow> str_slice (tk_input t) start (length (tk_input t));
          Some ((s, False), go_to (length (tk_input t)) t)
        }
      })"

definition ascii_lowercase :: "nat \<Rightarrow> bool" where
  "ascii_lowercase x \<longleftrightarrow> 97 \<le> x \<and> x \<le> 122"

text \<open>The delimiters of an expansion.\<close>

definition delimiters :: "nat \<Rightarrow> (nat \<times> nat) option" where
  "delimiters x =
     (if x = 40 then Some (40, 41)
      else if x = 91 then Some (91, 93)
      else if x = 123 then Some (123, 125)
      else if x = 60 then Some (60, 62)
      else if x = 39 \<or> x = 34 \<or> x = 124 then Some (x, x)
      else None)"

type_synonym item = "parse_args_error + token"

definition parse_percent_token :: "tokenizer \<Rightarrow> (item \<times> tokenizer) option" where
  "parse_percent_token t =
     (if tk_byte t \<noteq> Some percent then None
      else do {
        let kind_start = tk_pos t + 1;
        rest \<leftarrow> str_slice (tk_input t) kind_start (length (tk_input t));
        let t = go_to (kind_start + length (takeWhile ascii_lowercase rest)) t;
        kind \<leftarrow> str_slice (tk_input t) kind_start (tk_pos t);
        case Option.bind (tk_byte t) delimiters of
          None \<Rightarrow>
            Some (if tk_validate t then Inl (MissingExpansionDelimiter kind)
                  else Inr \<lparr>tok_kind = ExpansionKind, content_start = kind_start, tok_content = kind, is_terminated = False\<rparr>, t)
        | Some (opn, cls) \<Rightarrow>
            let start = tk_pos t + 1
            in if from_kind kind = None \<and> tk_validate t then Some (Inl (UnknownExpansion kind), t)
               else do {
                 ((s, terminated), t) \<leftarrow>
                   (if opn = cls then parse_quoted opn t else parse_quoted_balanced opn cls t);
                 let tok = \<lparr>tok_kind = (case from_kind kind of Some k \<Rightarrow> Expansion k | None \<Rightarrow> Expand),
                            content_start = start, tok_content = s, is_terminated = terminated\<rparr>;
                 Some (if tk_validate t \<and> \<not> terminated then Inl (UnterminatedToken tok) else Inr tok, t)
               }
      })"

definition tk_next :: "tokenizer \<Rightarrow> (item option \<times> tokenizer) option" where
  "tk_next t =
     (let t = skip_blanks t
      in case tk_byte t of
           None \<Rightarrow> Some (None, t)
         | Some x \<Rightarrow>
             if x = 34 \<or> x = 39 \<or> x = 96 then
               do {
                 let start = tk_pos t + 1;
                 ((s, terminated), t) \<leftarrow> parse_quoted x t;
                 let tok = \<lparr>tok_kind = (if x = 34 then Expand else if x = 39 then Quoted Single else Quoted Backtick),
                            content_start = start, tok_content = s, is_terminated = terminated\<rparr>;
                 Some (Some (if tk_validate t \<and> \<not> terminated then Inl (UnterminatedToken tok) else Inr tok), t)
               }
             else if x = percent then do { (item, t) \<leftarrow> parse_percent_token t; Some (Some item, t) }
             else do {
               let start = tk_pos t;
               let t = (if x = backslash \<and> (\<exists>q\<in>{34, 39, 96, 37}. peek_byte t = Some q) then advance 1 t else t);
               (s, t) \<leftarrow> parse_unquoted t;
               Some (Some (Inr \<lparr>tok_kind = Unquoted, content_start = start, tok_content = s, is_terminated = False\<rparr>), t)
             })"

text \<open>The items of an iteration up to its end.\<close>

partial_function (option) tk_items :: "tokenizer \<Rightarrow> item list option" where
  "tk_items t =
     do {
       (r, t) \<leftarrow> tk_next t;
       case r of
         None \<Rightarrow> Some []
       | Some item \<Rightarrow> do { items \<leftarrow> tk_items t; Some (item # items) }
     }"

section \<open>Arguments\<close>

record flag =
  fl_name :: "nat list"
  fl_alias :: "uchar option"
  fl_doc :: "nat list"
  fl_completions :: "nat list list option"

definition flag_default :: flag where
  "flag_default = \<lparr>fl_name = [], fl_alias = None, fl_doc = [], fl_completions = None\<rparr>"

record signature =
  sg_positionals :: "nat \<times> nat option"
  sg_raw_after :: "nat option"
  sg_flags :: "flag list"

definition signature_default :: signature where
  "signature_default = \<lparr>sg_positionals = (0, None), sg_raw_after = None, sg_flags = []\<rparr>"

definition check_positional_count :: "signature \<Rightarrow> nat \<Rightarrow> parse_args_error option" where
  "check_positional_count sg actual =
     (let (lo, hi) = sg_positionals sg
      in if lo \<le> actual \<and> actual \<le> (case hi of Some m \<Rightarrow> m | None \<Rightarrow> 2 ^ 64 - 1) then None
         else Some (WrongPositionalCount lo hi actual))"

datatype completion_state = CPositional | CFlag "flag option" | CFlagArgument flag

record args =
  ar_signature :: signature
  ar_validate :: bool
  ar_only_positionals :: bool
  ar_state :: completion_state
  ar_positionals :: "nat list list"
  ar_flags :: "nat list \<rightharpoonup> nat list"

definition args_new :: "signature \<Rightarrow> bool \<Rightarrow> args" where
  "args_new sg validate = \<lparr>ar_signature = sg, ar_validate = validate, ar_only_positionals = False,
     ar_state = CPositional, ar_positionals = [], ar_flags = Map.empty\<rparr>"

definition args_default :: args where
  "args_default = args_new signature_default False"

definition args_len :: "args \<Rightarrow> nat" where
  "args_len a = length (ar_positionals a)"

definition flag_awaiting_argument :: "args \<Rightarrow> flag option" where
  "flag_awaiting_argument a =
     (case ar_state a of
        CFlag (Some f) \<Rightarrow> if fl_completions f \<noteq> None then Some f else None
      | _ \<Rightarrow> None)"

definition has_prefix :: "nat list \<Rightarrow> nat list \<Rightarrow> bool" where
  "has_prefix p s \<longleftrightarrow> take (length p) s = p"

text \<open>The flag a token that starts with a minus names.\<close>

definition find_flag :: "signature \<Rightarrow> nat list \<Rightarrow> flag option" where
  "find_flag sg arg =
     (if has_prefix (lit ''--'') arg
      then find (\<lambda>f. fl_name f = drop 2 arg) (sg_flags sg)
      else find (\<lambda>f. case fl_alias f of Some c \<Rightarrow> drop 1 arg = utf8_char c | None \<Rightarrow> False) (sg_flags sg))"

definition args_push :: "nat list \<Rightarrow> args \<Rightarrow> parse_args_error + args" where
  "args_push arg a =
     (if \<not> ar_only_positionals a \<and> arg = lit ''--''
      then Inr (a\<lparr>ar_only_positionals := True, ar_state := CFlag None\<rparr>)
      else case flag_awaiting_argument a of
        Some f \<Rightarrow> Inr (a\<lparr>ar_flags := (ar_flags a)(fl_name f \<mapsto> arg), ar_state := CFlagArgument f\<rparr>)
      | None \<Rightarrow>
          if \<not> ar_only_positionals a \<and> has_prefix (lit ''-'') arg
          then (case find_flag (ar_signature a) arg of
                  None \<Rightarrow>
                    if ar_validate a then Inl (UnknownFlag arg)
                    else Inr (a\<lparr>ar_positionals := ar_positionals a @ [arg], ar_state := CFlag None\<rparr>)
                | Some f \<Rightarrow>
                    if ar_validate a \<and> ar_flags a (fl_name f) \<noteq> None then Inl (DuplicatedFlag (fl_name f))
                    else Inr (a\<lparr>ar_flags := (ar_flags a)(fl_name f \<mapsto> []), ar_state := CFlag (Some f)\<rparr>))
          else Inr (a\<lparr>ar_positionals := ar_positionals a @ [arg], ar_state := CPositional\<rparr>))"

definition args_finish :: "args \<Rightarrow> parse_args_error option" where
  "args_finish a =
     (if \<not> ar_validate a then None
      else case flag_awaiting_argument a of
        Some f \<Rightarrow> Some (FlagMissingArgument (fl_name f))
      | None \<Rightarrow> check_positional_count (ar_signature a) (length (ar_positionals a)))"

text \<open>The next token, or the rest of the line once as many arguments as \<open>raw_after\<close> says are there.\<close>

definition read_token :: "args \<Rightarrow> tokenizer \<Rightarrow> ((parse_args_error + token option) \<times> args \<times> tokenizer) option" where
  "read_token a t =
     (if (case sg_raw_after (ar_signature a) of Some m \<Rightarrow> m \<le> args_len a | None \<Rightarrow> False)
      then do { (tok, t) \<leftarrow> tk_rest t; Some (Inr tok, a\<lparr>ar_only_positionals := True\<rparr>, t) }
      else do {
        (item, t) \<leftarrow> tk_next t;
        Some (case item of None \<Rightarrow> Inr None | Some (Inl e) \<Rightarrow> Inl e | Some (Inr tok) \<Rightarrow> Inr (Some tok), a, t)
      })"

text \<open>
  The loop of \<open>parse\<close>.  \<open>try_map\<close> is the closure that expands a token, on a state of its own; its errors are
  of a type \<open>'e\<close>.
\<close>

partial_function (option) parse_args_loop ::
    "(token \<Rightarrow> 's \<Rightarrow> ('e + nat list) \<times> 's) \<Rightarrow> args \<Rightarrow> tokenizer \<Rightarrow> 's \<Rightarrow> ((parse_args_error + 'e) + args) option" where
  "parse_args_loop try_map a t s =
     do {
       (r, a, t) \<leftarrow> read_token a t;
       case r of
         Inl e \<Rightarrow> Some (Inl (Inl e))
       | Inr tok \<Rightarrow>
           (case tok of
              None \<Rightarrow> Some (Inr a)
            | Some tok \<Rightarrow>
                (case fst (try_map tok s) of
                   Inl e \<Rightarrow> Some (Inl (Inr e))
                 | Inr arg \<Rightarrow>
                     (case args_push arg a of
                        Inl e \<Rightarrow> Some (Inl (Inl e))
                      | Inr a \<Rightarrow> parse_args_loop try_map a t (snd (try_map tok s)))))
     }"

definition args_parse ::
    "(token \<Rightarrow> 's \<Rightarrow> ('e + nat list) \<times> 's) \<Rightarrow> nat list \<Rightarrow> signature \<Rightarrow> bool \<Rightarrow> 's \<Rightarrow> ((parse_args_error + 'e) + args) option" where
  "args_parse try_map line sg validate s =
     do {
       r \<leftarrow> parse_args_loop try_map (args_new sg validate) (tokenizer_new line validate) s;
       Some (case r of
               Inl e \<Rightarrow> Inl e
             | Inr a \<Rightarrow> (case args_finish a of Some e \<Rightarrow> Inl (Inl e) | None \<Rightarrow> Inr a))
     }"

text \<open>The queries of a command; the outer option is the failed assertion that the flag is in the signature.\<close>

definition get_flag :: "nat list \<Rightarrow> args \<Rightarrow> nat list option option" where
  "get_flag name a =
     (if list_ex (\<lambda>f. fl_name f = name) (sg_flags (ar_signature a)) \<and>
         list_ex (\<lambda>f. fl_name f = name \<and> fl_completions f \<noteq> None) (sg_flags (ar_signature a))
      then Some (ar_flags a name) else None)"

definition has_flag :: "nat list \<Rightarrow> args \<Rightarrow> bool option" where
  "has_flag name a =
     (if list_ex (\<lambda>f. fl_name f = name) (sg_flags (ar_signature a)) \<and>
         list_ex (\<lambda>f. fl_name f = name \<and> fl_completions f = None) (sg_flags (ar_signature a))
      then Some (ar_flags a name \<noteq> None) else None)"

definition args_get :: "args \<Rightarrow> nat \<Rightarrow> nat list option" where
  "args_get a i = (if i < length (ar_positionals a) then Some (ar_positionals a ! i) else None)"

definition args_first :: "args \<Rightarrow> nat list option" where
  "args_first a = (case ar_positionals a of [] \<Rightarrow> None | x # _ \<Rightarrow> Some x)"

definition args_is_empty :: "args \<Rightarrow> bool" where
  "args_is_empty a \<longleftrightarrow> ar_positionals a = []"

fun join_from :: "nat list \<Rightarrow> nat list list \<Rightarrow> nat list" where
  "join_from sep [] = []"
| "join_from sep [x] = x"
| "join_from sep (x # y # xs) = x @ sep @ join_from sep (y # xs)"

definition args_join :: "nat list \<Rightarrow> args \<Rightarrow> nat list" where
  "args_join sep a = join_from sep (ar_positionals a)"

section \<open>Errors as text\<close>

definition plural :: "nat \<Rightarrow> nat list" where
  "plural n = (if n = 1 then [] else lit ''s'')"

abbreviation "tick \<equiv> [39] :: nat list"

text \<open>\<open>None\<close> is the branch the code says is unreachable.\<close>

definition error_text :: "parse_args_error \<Rightarrow> nat list option" where
  "error_text e =
     (case e of
        WrongPositionalCount lo hi actual \<Rightarrow>
          map_option (\<lambda>s. lit ''expected '' @ s @ lit '', got '' @ decimal actual)
            (if lo = 0 \<and> hi = Some 0 then Some (lit ''no arguments'')
             else if hi = Some lo then Some (lit ''exactly '' @ decimal lo @ lit '' argument'' @ plural lo)
             else if actual < lo then Some (lit ''at least '' @ decimal lo @ lit '' argument'' @ plural lo)
             else case hi of
               Some m \<Rightarrow> if m < actual then Some (lit ''at most '' @ decimal m @ lit '' argument'' @ plural m) else None
             | None \<Rightarrow> None)
      | UnterminatedToken tok \<Rightarrow> Some (lit ''unterminated token '' @ tok_content tok)
      | DuplicatedFlag f \<Rightarrow> Some (lit ''flag '' @ tick @ lit ''--'' @ f @ tick @ lit '' specified more than once'')
      | UnknownFlag t \<Rightarrow> Some (lit ''unknown flag '' @ tick @ t @ tick)
      | FlagMissingArgument f \<Rightarrow> Some (lit ''flag '' @ tick @ lit ''--'' @ f @ tick @ lit '' missing an argument'')
      | MissingExpansionDelimiter x \<Rightarrow>
          Some (if x = [] then tick @ lit ''%'' @ tick @ lit '' was not properly escaped. Please use '' @ tick @ lit ''%%'' @ tick
                else lit ''missing a string delimiter after '' @ tick @ lit ''%'' @ x @ tick)
      | UnknownExpansion k \<Rightarrow> Some (lit ''unknown expansion '' @ tick @ k @ tick))"

section \<open>Completing the command line\<close>

fun split_once :: "(uchar \<Rightarrow> bool) \<Rightarrow> str \<Rightarrow> (str \<times> str) option" where
  "split_once p [] = None"
| "split_once p (x # s) = (if p x then Some ([], s) else map_option (apfst ((#) x)) (split_once p s))"

text \<open>\<open>space\<close> is \<open>char::is_whitespace\<close>, by which \<open>trim\<close> goes.\<close>

definition command_split :: "(uchar \<Rightarrow> bool) \<Rightarrow> str \<Rightarrow> str \<times> str \<times> bool" where
  "command_split space line =
     (let (command, rest) = (case split_once (\<lambda>x. blank x) line of Some cr \<Rightarrow> cr | None \<Rightarrow> (line, []))
      in (command, rest, command = [] \<or> (list_all space rest \<and> \<not> (line \<noteq> [] \<and> blank (last line)))))"

fun common_loop :: "str \<Rightarrow> nat \<Rightarrow> str list \<Rightarrow> nat option" where
  "common_loop first common [] = Some common"
| "common_loop first common (c # cs) =
     (let common = min common (length (takeWhile (\<lambda>(a, b). a = b) (zip first c)))
      in if common = 0 then None else common_loop first common cs)"

definition longest_common_prefix_of :: "str list \<Rightarrow> str" where
  "longest_common_prefix_of candidates =
     (case candidates of
        [] \<Rightarrow> []
      | first # rest \<Rightarrow> (case common_loop first (length first) rest of None \<Rightarrow> [] | Some n \<Rightarrow> take n first))"

end
