(* ===== verification/CommandScan.thy ===== *)
theory CommandScan
  imports CommandLine
begin

text \<open>
  The tokenizer as a function on lists: \<open>scan_next\<close> reads the next token off the rest of the input, and
  the tokenizer, which moves a position over the bytes, hands out the same tokens, never slices inside a
  character and always comes to an end.
\<close>

section \<open>Character boundaries\<close>

text \<open>What the byte positions rest on: a continuation byte follows a byte that is not ASCII.\<close>

definition text_bytes :: "nat list \<Rightarrow> bool" where
  "text_bytes b \<longleftrightarrow> (\<forall>i<length b. continues (b ! i) \<longrightarrow> 0 < i \<and> 128 \<le> b ! (i - 1))"

lemma text_bytes_append:
  assumes "text_bytes a" "text_bytes b"
  shows "text_bytes (a @ b)"
  unfolding text_bytes_def
proof (intro allI impI)
  fix i assume i: "i < length (a @ b)" "continues ((a @ b) ! i)"
  show "0 < i \<and> 128 \<le> (a @ b) ! (i - 1)"
  proof (cases "i < length a")
    case True
    then show ?thesis using assms(1) i by (auto simp: text_bytes_def nth_append)
  next
    case False
    then have "i - length a < length b" "continues (b ! (i - length a))" using i by (auto simp: nth_append)
    then have "0 < i - length a \<and> 128 \<le> b ! (i - length a - 1)"
      using assms(2) unfolding text_bytes_def by blast
    then show ?thesis using False by (auto simp: nth_append)
  qed
qed

lemma text_bytes_char: "text_bytes (utf8_char c)"
  by (auto simp: text_bytes_def utf8_char_def continues_def nth_Cons less_Suc_eq split: nat.splits)

lemma text_bytes_utf8: "text_bytes (utf8 s)"
proof (induction s)
  case (Cons c s)
  then show ?case using text_bytes_append [OF text_bytes_char] by (simp add: utf8_def)
qed (simp add: utf8_def text_bytes_def)

lemma ascii_boundary:
  assumes "i < length b" "b ! i < 128"
  shows "is_char_boundary b i" "text_bytes b \<Longrightarrow> is_char_boundary b (Suc i)"
proof -
  show "is_char_boundary b i" using assms by (simp add: is_char_boundary_def continues_def)
  show "is_char_boundary b (Suc i)" if "text_bytes b"
  proof (cases "Suc i = length b")
    case False
    then have "Suc i < length b" using assms(1) by simp
    moreover have "\<not> continues (b ! Suc i)"
      using that [unfolded text_bytes_def, rule_format, OF calculation] assms(2) by auto
    ultimately show ?thesis by (simp add: is_char_boundary_def)
  qed (simp add: is_char_boundary_def)
qed

lemma boundary_ends [simp]: "is_char_boundary b 0" "is_char_boundary b (length b)"
  by (simp_all add: is_char_boundary_def)

lemma str_slice_ok:
  "i \<le> j \<Longrightarrow> j \<le> length b \<Longrightarrow> is_char_boundary b i \<Longrightarrow> is_char_boundary b j \<Longrightarrow> str_slice b i j = Some (take (j - i) (drop i b))"
  by (simp add: str_slice_def)

lemma str_slice_rest: "i \<le> length b \<Longrightarrow> is_char_boundary b i \<Longrightarrow> str_slice b i (length b) = Some (drop i b)"
  by (simp add: str_slice_def)

lemma go_to_simps [simp]:
  "tk_input (go_to p t) = tk_input t" "tk_validate (go_to p t) = tk_validate t" "tk_pos (go_to p t) = p"
  "tk_input (advance n t) = tk_input t" "tk_validate (advance n t) = tk_validate t" "tk_pos (advance n t) = tk_pos t + n"
  "go_to p (go_to q t) = go_to p t" "go_to p (advance n t) = go_to p t" "go_to (tk_pos t) t = t"
  by (simp_all add: go_to_def advance_def)

lemma take_next: "start \<le> p \<Longrightarrow> p < length b \<Longrightarrow> take (Suc p - start) (drop start b) = take (p - start) (drop start b) @ [b ! p]"
  by (simp add: Suc_diff_le take_Suc_conv_app_nth)

section \<open>Scanning lists\<close>

text \<open>The same tokens read off the rest of the input, with no positions and no slices.\<close>

fun scan_unquoted :: "nat list \<Rightarrow> nat list \<times> nat list" where
  "scan_unquoted [] = ([], [])"
| "scan_unquoted (x # r) =
     (if blank x then ([], x # r)
      else if x = backslash then
        (case r of
           [] \<Rightarrow> ([], [])
         | y # r' \<Rightarrow> if blank y then apfst ((#) y) (scan_unquoted r') else apfst ((#) x) (scan_unquoted r))
      else apfst ((#) x) (scan_unquoted r))"

fun scan_quoted :: "nat \<Rightarrow> nat list \<Rightarrow> nat list \<times> bool \<times> nat list" where
  "scan_quoted q [] = ([], False, [])"
| "scan_quoted q (x # r) =
     (if x = q then
        (case r of
           [] \<Rightarrow> ([], True, [])
         | y # r' \<Rightarrow> if y = q then apfst ((#) q) (scan_quoted q r') else ([], True, r))
      else apfst ((#) x) (scan_quoted q r))"

fun scan_balanced :: "nat \<Rightarrow> nat \<Rightarrow> nat \<Rightarrow> nat list \<Rightarrow> nat list \<times> bool \<times> nat list" where
  "scan_balanced opn cls level [] = ([], False, [])"
| "scan_balanced opn cls level (x # r) =
     (if x = opn then apfst ((#) x) (scan_balanced opn cls (level + 1) r)
      else if x = cls then
        (if level \<le> 1 then ([], True, r) else apfst ((#) x) (scan_balanced opn cls (level - 1) r))
      else apfst ((#) x) (scan_balanced opn cls level r))"

definition checked :: "bool \<Rightarrow> token \<Rightarrow> item" where
  "checked v tok = (if v \<and> \<not> is_terminated tok then Inl (UnterminatedToken tok) else Inr tok)"

text \<open>\<open>n\<close> is the length of the whole input, which makes the length of a rest a position.\<close>

definition scan_percent :: "bool \<Rightarrow> nat \<Rightarrow> nat list \<Rightarrow> item \<times> nat list" where
  "scan_percent v n r =
     (let kind = takeWhile ascii_lowercase r; after = dropWhile ascii_lowercase r
      in case after of
           x # r' \<Rightarrow>
             (case delimiters x of
                Some (opn, cls) \<Rightarrow>
                  if from_kind kind = None \<and> v then (Inl (UnknownExpansion kind), after)
                  else
                    let (s, fin, r'') = (if opn = cls then scan_quoted opn r' else scan_balanced opn cls 1 r')
                    in (checked v \<lparr>tok_kind = (case from_kind kind of Some k \<Rightarrow> Expansion k | None \<Rightarrow> Expand),
                          content_start = n - length r', tok_content = s, is_terminated = fin\<rparr>, r'')
              | None \<Rightarrow>
                  (if v then Inl (MissingExpansionDelimiter kind)
                   else Inr \<lparr>tok_kind = ExpansionKind, content_start = n - length r, tok_content = kind, is_terminated = False\<rparr>, after))
         | [] \<Rightarrow>
             (if v then Inl (MissingExpansionDelimiter kind)
              else Inr \<lparr>tok_kind = ExpansionKind, content_start = n - length r, tok_content = kind, is_terminated = False\<rparr>, []))"

definition scan_next :: "bool \<Rightarrow> nat \<Rightarrow> nat list \<Rightarrow> (item \<times> nat list) option" where
  "scan_next v n s =
     (case dropWhile (\<lambda>x. blank x) s of
        [] \<Rightarrow> None
      | x # r \<Rightarrow>
          if x = 34 \<or> x = 39 \<or> x = 96 then
            let (c, fin, r') = scan_quoted x r
            in Some (checked v \<lparr>tok_kind = (if x = 34 then Expand else if x = 39 then Quoted Single else Quoted Backtick),
                 content_start = n - length r, tok_content = c, is_terminated = fin\<rparr>, r')
          else if x = percent then Some (scan_percent v n r)
          else
            let (c, r') = scan_unquoted (if x = backslash \<and> r \<noteq> [] \<and> hd r \<in> {34, 39, 96, 37} then r else x # r)
            in Some (Inr \<lparr>tok_kind = Unquoted, content_start = n - length r - 1, tok_content = c, is_terminated = False\<rparr>, r'))"

lemma skip_blanks_eq:
  assumes "text_bytes (tk_input t)" "is_char_boundary (tk_input t) (tk_pos t)" "tk_pos t \<le> length (tk_input t)"
  shows "\<exists>p. skip_blanks t = go_to p t \<and> tk_pos t \<le> p \<and> p \<le> length (tk_input t) \<and> is_char_boundary (tk_input t) p \<and>
    drop p (tk_input t) = dropWhile (\<lambda>x. blank x) (drop (tk_pos t) (tk_input t))"
  using assms
proof (induction t rule: skip_blanks.induct)
  case (1 t)
  show ?case
  proof (cases "tk_byte t")
    case None
    then have "tk_pos t = length (tk_input t)" using 1 by (auto simp: tk_byte_def byte_at_def split: if_splits)
    then show ?thesis using None by (subst skip_blanks.simps) (auto intro!: exI [of _ "tk_pos t"])
  next
    case (Some x)
    then have x: "tk_pos t < length (tk_input t)" "tk_input t ! tk_pos t = x"
      by (auto simp: tk_byte_def byte_at_def split: if_splits)
    then have d: "drop (tk_pos t) (tk_input t) = x # drop (Suc (tk_pos t)) (tk_input t)" by (simp flip: Cons_nth_drop_Suc)
    show ?thesis
    proof (cases "blank x")
      case True
      then have "is_char_boundary (tk_input t) (Suc (tk_pos t))" using ascii_boundary(2) [OF x(1)] x(2) "1.prems"(1) by auto
      then obtain p where "skip_blanks (advance 1 t) = go_to p t" "Suc (tk_pos t) \<le> p" "p \<le> length (tk_input t)"
        "is_char_boundary (tk_input t) p" "drop p (tk_input t) = dropWhile (\<lambda>x. blank x) (drop (Suc (tk_pos t)) (tk_input t))"
        using "1.IH" [OF Some True] "1.prems" x(1) by auto
      moreover have "skip_blanks t = skip_blanks (advance 1 t)" using Some True by (subst skip_blanks.simps) auto
      ultimately show ?thesis using True d by (intro exI [of _ p]) auto
    next
      case False
      then have "skip_blanks t = t" using Some by (subst skip_blanks.simps) auto
      then show ?thesis using False d "1.prems" by (intro exI [of _ "tk_pos t"]) auto
    qed
  qed
qed

section \<open>The tokenizer is the scanner\<close>

lemma byte_at_Some: "byte_at b i = Some x \<longleftrightarrow> i < length b \<and> b ! i = x"
  by (auto simp: byte_at_def)

lemma byte_at_None: "byte_at b i = None \<longleftrightarrow> length b \<le> i"
  by (auto simp: byte_at_def)

lemma prev_byte_eq: "tk_pos t \<le> length (tk_input t) \<Longrightarrow>
    prev_byte t = Some (if tk_pos t = 0 then None else Some (tk_input t ! (tk_pos t - 1)))"
  by (auto simp: prev_byte_def byte_at_def split: option.splits)

text \<open>
  Where the text up to the position begins that has not been taken over: at a backslash before the
  position, which may escape the blank at it.
\<close>

definition held :: "nat list \<Rightarrow> nat \<Rightarrow> nat \<Rightarrow> nat" where
  "held b start p = (if start < p \<and> b ! (p - 1) = backslash then p - 1 else p)"

lemma drop_before: "0 < p \<Longrightarrow> p \<le> length b \<Longrightarrow> drop (p - 1) b = b ! (p - 1) # drop p b"
  by (cases p) (simp_all add: Cons_nth_drop_Suc)

lemma scan_unquoted_length: "length (snd (scan_unquoted s)) \<le> length s"
proof (induction s rule: length_induct)
  case (1 s)
  show ?case
  proof (cases s)
    case (Cons x r)
    show ?thesis
    proof (cases r)
      case (Cons y r')
      have "length (snd (scan_unquoted r')) \<le> length r'" "length (snd (scan_unquoted r)) \<le> length r"
        using 1 [rule_format, of r'] 1 [rule_format, of r] \<open>s = x # r\<close> Cons by (simp_all del: scan_unquoted.simps)
      moreover have "scan_unquoted s = (if blank x then ([], s) else if x = backslash \<and> blank y
          then apfst ((#) y) (scan_unquoted r') else apfst ((#) x) (scan_unquoted r))"
        unfolding \<open>s = x # r\<close> Cons scan_unquoted.simps(2) [of x] list.case by (simp del: scan_unquoted.simps)
      ultimately show ?thesis using \<open>s = x # r\<close> Cons by (simp del: scan_unquoted.simps)
    qed (simp add: Cons)
  qed simp
qed

lemma unquoted_loop_eq:
  assumes "text_bytes (tk_input t)" "start \<le> tk_pos t" "tk_pos t \<le> length (tk_input t)" "is_char_boundary (tk_input t) start"
    and "start = tk_pos t \<Longrightarrow> tk_pos t = 0 \<or> tk_input t ! (tk_pos t - 1) \<noteq> backslash \<or>
      (tk_pos t < length (tk_input t) \<and> \<not> blank (tk_input t ! tk_pos t))"
  shows "unquoted_loop escaped start t =
    (let q = held (tk_input t) start (tk_pos t); (s, r) = scan_unquoted (drop q (tk_input t))
     in Some (escaped @ take (q - start) (drop start (tk_input t)) @ s, go_to (length (tk_input t) - length r) t))"
  using assms
proof (induction escaped start t rule: unquoted_loop.induct)
  case (1 escaped start t)
  let ?b = "tk_input t" and ?p = "tk_pos t"
  note prev = prev_byte_eq [OF "1.prems"(3)]
  have bs: "is_char_boundary ?b (?p - 1)" if "start < ?p" "?b ! (?p - 1) = backslash"
    using ascii_boundary(1) [of "?p - 1" ?b] that "1.prems"(3) by simp
  show ?case
  proof (cases "tk_byte t")
    case None
    then have p: "?p = length ?b" using "1.prems"(3) by (simp add: tk_byte_def byte_at_None)
    have run: "unquoted_loop escaped start t = unquoted_end escaped start t" using None by (subst unquoted_loop.simps) simp
    show ?thesis
    proof (cases "start < ?p \<and> ?b ! (?p - 1) = backslash")
      case True
      have "0 < ?p" using True by simp
      then have "drop (?p - 1) ?b = [backslash]" using drop_before [of ?p ?b] conjunct2 [OF True] p by simp
      moreover have "str_slice ?b start (?p - 1) = Some (take (?p - 1 - start) (drop start ?b))"
        using True bs "1.prems" by (intro str_slice_ok) auto
      ultimately show ?thesis
        using True p prev unfolding run by (auto simp: unquoted_end_def held_def Let_def)
    next
      case False
      then have "prev_byte t \<noteq> Some (Some backslash)" using prev "1.prems"(2,5) p by auto
      moreover have "str_slice ?b start ?p = Some (take (?p - start) (drop start ?b))"
        using "1.prems" p by (intro str_slice_ok) auto
      ultimately show ?thesis
        using False p prev unfolding run by (auto simp: unquoted_end_def held_def Let_def)
    qed
  next
    case (Some x)
    then have x: "?p < length ?b" "?b ! ?p = x" by (simp_all add: tk_byte_def byte_at_Some)
    then have d: "drop ?p ?b = x # drop (Suc ?p) ?b" by (simp flip: Cons_nth_drop_Suc)
    show ?thesis
    proof (cases "blank x")
      case True
      show ?thesis
      proof (cases "start < ?p \<and> ?b ! (?p - 1) = backslash")
        case esc: True
        have d1: "drop (?p - 1) ?b = backslash # x # drop (Suc ?p) ?b"
          using drop_before [of ?p ?b] esc d x(1) by simp
        have sl: "str_slice ?b start (?p - 1) = Some (take (?p - 1 - start) (drop start ?b))"
          using esc bs "1.prems" by (intro str_slice_ok) auto
        have pr: "prev_byte t = Some (Some backslash)" using prev esc by auto
        have "unquoted_loop escaped start t =
          unquoted_loop (escaped @ take (?p - 1 - start) (drop start ?b) @ [x]) (?p + 1) (advance 1 t)"
          using Some True pr sl by (subst unquoted_loop.simps) auto
        also have "\<dots> = (let (s, r) = scan_unquoted (drop (Suc ?p) ?b)
          in Some ((escaped @ take (?p - 1 - start) (drop start ?b) @ [x]) @ s, go_to (length ?b - length r) t))"
          using "1.IH"(1) [OF Some True pr _ sl] "1.prems" x True ascii_boundary(2) [OF x(1)]
          by (auto simp: held_def Let_def split: prod.splits)
        finally show ?thesis using esc True d1 by (auto simp: held_def Let_def split: prod.splits)
      next
        case False
        have pr: "prev_byte t \<noteq> Some (Some backslash)"
          using prev False "1.prems"(2,5) x True by auto
        obtain pb where pb: "prev_byte t = Some pb" "pb \<noteq> Some backslash" using prev pr by auto
        have "is_char_boundary ?b ?p" using ascii_boundary(1) [OF x(1)] x(2) True by auto
        then have "str_slice ?b start ?p = Some (take (?p - start) (drop start ?b))"
          using "1.prems" by (intro str_slice_ok) auto
        then have "unquoted_loop escaped start t = Some (escaped @ take (?p - start) (drop start ?b), t)"
          using Some True pb by (subst unquoted_loop.simps) (auto simp: unquoted_end_def)
        moreover have "length ?b - length (x # drop (Suc ?p) ?b) = ?p" using x(1) by simp
        then have "go_to (length ?b - length (x # drop (Suc ?p) ?b)) t = t" by simp
        ultimately show ?thesis using False True d by (auto simp: held_def Let_def)
      qed
    next
      case False
      have "unquoted_loop escaped start t = unquoted_loop escaped start (advance 1 t)"
        using Some False by (subst unquoted_loop.simps) auto
      also have "\<dots> = (let q = held ?b start (Suc ?p); (s, r) = scan_unquoted (drop q ?b)
          in Some (escaped @ take (q - start) (drop start ?b) @ s, go_to (length ?b - length r) t))"
        using "1.IH"(2) [OF Some False] "1.prems" x(1) by simp
      finally have run: "unquoted_loop escaped start t = (let q = held ?b start (Suc ?p); (s, r) = scan_unquoted (drop q ?b)
          in Some (escaped @ take (q - start) (drop start ?b) @ s, go_to (length ?b - length r) t))" .
      have q': "held ?b start (Suc ?p) = (if x = backslash then ?p else Suc ?p)"
        using x "1.prems"(2) by (simp add: held_def)
      have plain: ?thesis if "held ?b start ?p = ?p"
        using run that x "1.prems"(2) False d take_next [OF "1.prems"(2) x(1)] unfolding q'
        by (auto simp: Let_def split: prod.splits if_splits)
      show ?thesis
      proof (cases "start < ?p \<and> ?b ! (?p - 1) = backslash")
        case bsl: True
        then obtain p0 where p0: "?p = Suc p0" by (cases ?p) auto
        have d1: "drop p0 ?b = backslash # drop ?p ?b" using drop_before [of ?p ?b] bsl x(1) p0 by simp
        have t1: "take (?p - start) (drop start ?b) = take (p0 - start) (drop start ?b) @ [backslash]"
          using take_next [of start p0 ?b] bsl p0 x(1) by simp
        have "held ?b start ?p = p0" using bsl p0 by (simp add: held_def)
        then show ?thesis
          using run x False d d1 t1 take_next [OF "1.prems"(2) x(1)] unfolding q'
          by (auto simp: Let_def split: prod.splits if_splits)
      next
        case False
        then have "held ?b start ?p = ?p" by (auto simp: held_def)
        then show ?thesis by (rule plain)
      qed
    qed
  qed
qed

lemma scan_quoted_length: "length (snd (snd (scan_quoted q s))) \<le> length s"
proof (induction s rule: length_induct)
  case (1 s)
  show ?case
  proof (cases s)
    case (Cons x r)
    have "length (snd (snd (scan_quoted q r))) \<le> length r" using 1 Cons by (simp del: scan_quoted.simps)
    moreover have "length (snd (snd (scan_quoted q (tl r)))) \<le> length (tl r)"
      using 1 [rule_format, of "tl r"] Cons by (simp del: scan_quoted.simps)
    ultimately show ?thesis using Cons by (cases r) (auto simp del: scan_quoted.simps simp: scan_quoted.simps(2) [of q x])
  qed simp
qed

lemma scan_quoted_prefix: "q \<notin> set xs \<Longrightarrow> scan_quoted q (xs @ s) = apfst ((@) xs) (scan_quoted q s)"
proof (induction xs)
  case (Cons x xs)
  then show ?case by (cases "scan_quoted q s") simp
qed (simp add: apfst_def map_prod_def)

lemma position_split:
  assumes "position p xs = Some i"
  shows "xs = take i xs @ xs ! i # drop (Suc i) xs" "\<forall>x\<in>set (take i xs). \<not> p x" "i < length xs" "p (xs ! i)"
proof -
  note P = position_Some [OF assms]
  then show "xs = take i xs @ xs ! i # drop (Suc i) xs" by (simp add: id_take_nth_drop [symmetric])
  show "\<forall>x\<in>set (take i xs). \<not> p x" using P by (auto simp: in_set_conv_nth)
  show "i < length xs" "p (xs ! i)" using P by simp_all
qed

lemma quoted_loop_eq:
  assumes "text_bytes (tk_input t)" "tk_pos t \<le> length (tk_input t)" "is_char_boundary (tk_input t) (tk_pos t)" "q < 128"
  shows "quoted_loop q escaped t = (let (s, fin, r) = scan_quoted q (drop (tk_pos t) (tk_input t))
     in Some ((escaped @ s, fin), go_to (length (tk_input t) - length r) t))"
  using assms
proof (induction q escaped t rule: quoted_loop.induct)
  case (1 q escaped t)
  let ?b = "tk_input t" and ?p = "tk_pos t"
  define rest where "rest = drop ?p ?b"
  have sl: "str_slice ?b ?p (length ?b) = Some rest" using "1.prems" by (simp add: str_slice_rest rest_def)
  show ?case
  proof (cases "position (\<lambda>x. x = q) rest")
    case None
    then have "q \<notin> set rest" by (auto simp: position_None)
    then have "scan_quoted q rest = (rest, False, [])" using scan_quoted_prefix [of q rest "[]"] by simp
    then show ?thesis using None sl by (subst quoted_loop.simps) (simp add: rest_def [symmetric])
  next
    case (Some off)
    note P = position_split [OF Some]
    let ?idx = "?p + off"
    have idx: "?idx < length ?b" "?b ! ?idx = q" using P(3,4) by (simp_all add: rest_def)
    have after: "drop (Suc off) rest = drop (Suc ?idx) ?b" by (simp add: rest_def add.commute)
    have scan: "scan_quoted q rest = apfst ((@) (take off rest)) (scan_quoted q (q # drop (Suc ?idx) ?b))"
      using scan_quoted_prefix [of q "take off rest" "q # drop (Suc ?idx) ?b"] P(1,2,4) after by auto
    show ?thesis
    proof (cases "byte_at ?b (?idx + 1) = Some q")
      case True
      then have nx: "Suc ?idx < length ?b" "?b ! Suc ?idx = q" by (simp_all add: byte_at_Some)
      then have d: "drop (Suc ?idx) ?b = q # drop (Suc (Suc ?idx)) ?b" by (simp flip: Cons_nth_drop_Suc)
      have "is_char_boundary ?b (Suc ?idx)" using ascii_boundary(1) [OF nx(1)] nx(2) "1.prems"(4) by simp
      then have s2: "str_slice ?b ?p (?idx + 1) = Some (take off rest @ [q])"
        using "1.prems" idx by (simp add: str_slice_def rest_def take_Suc_conv_app_nth)
      have "is_char_boundary ?b (Suc (Suc ?idx))" using ascii_boundary(2) [OF nx(1)] nx(2) "1.prems"(1,4) by simp
      then have "quoted_loop q (escaped @ take off rest @ [q]) (go_to (?idx + 2) t) =
          (let (s, fin, r) = scan_quoted q (drop (Suc (Suc ?idx)) ?b)
           in Some ((escaped @ take off rest @ [q] @ s, fin), go_to (length ?b - length r) t))"
        using "1.IH" [OF sl Some refl True s2] "1.prems" nx(1) by (simp add: Let_def)
      moreover have "quoted_loop q escaped t = quoted_loop q (escaped @ take off rest @ [q]) (go_to (?idx + 2) t)"
        using sl Some True s2 by (subst quoted_loop.simps) (simp add: Let_def)
      ultimately show ?thesis using scan d by (simp add: rest_def [symmetric] Let_def split: prod.splits)
    next
      case False
      have "is_char_boundary ?b ?idx" using ascii_boundary(1) [OF idx(1)] idx(2) "1.prems"(4) by simp
      then have "str_slice ?b ?p ?idx = Some (take off rest)" using "1.prems" idx(1) by (simp add: str_slice_def rest_def)
      then have run: "quoted_loop q escaped t = Some ((escaped @ take off rest, True), go_to (?idx + 1) t)"
        using sl Some False by (subst quoted_loop.simps) (simp add: Let_def)
      have "scan_quoted q (q # drop (Suc ?idx) ?b) = ([], True, drop (Suc ?idx) ?b)"
      proof (cases "Suc ?idx < length ?b")
        case True
        then have "drop (Suc ?idx) ?b = ?b ! Suc ?idx # drop (Suc (Suc ?idx)) ?b" by (simp flip: Cons_nth_drop_Suc)
        moreover have "?b ! Suc ?idx \<noteq> q" using False True by (simp add: byte_at_def)
        ultimately show ?thesis by simp
      qed simp
      then show ?thesis using scan run idx(1) by (simp add: rest_def [symmetric])
    qed
  qed
qed

lemma scan_balanced_shape:
  "scan_balanced opn cls level s = (c, fin, r) \<Longrightarrow> if fin then s = c @ cls # r else c = s \<and> r = []"
proof (induction s arbitrary: level c)
  case (Cons x s)
  then show ?case
    by (cases "scan_balanced opn cls (level + 1) s"; cases "scan_balanced opn cls (level - 1) s";
        cases "scan_balanced opn cls level s") (auto split: if_splits)
qed simp

lemma scan_balanced_prefix:
  "opn \<notin> set xs \<Longrightarrow> cls \<notin> set xs \<Longrightarrow>
    scan_balanced opn cls level (xs @ s) = apfst ((@) xs) (scan_balanced opn cls level s)"
proof (induction xs)
  case (Cons x xs)
  then show ?case by (cases "scan_balanced opn cls level s") simp
qed (simp add: apfst_def map_prod_def)

lemma balanced_loop_eq:
  assumes "text_bytes (tk_input t)" "tk_pos t \<le> length (tk_input t)" "is_char_boundary (tk_input t) (tk_pos t)"
    and "opn < 128" "cls < 128" "opn \<noteq> cls" "1 \<le> level"
  shows "\<exists>lv p. balanced_loop opn cls level t = Some (lv, go_to p t) \<and>
    (case scan_balanced opn cls level (drop (tk_pos t) (tk_input t)) of
       (s, fin, r) \<Rightarrow> if fin then lv = 0 \<and> p = length (tk_input t) - length r else 0 < lv)"
  using assms
proof (induction opn cls level t rule: balanced_loop.induct)
  case (1 opn cls level t)
  let ?b = "tk_input t" and ?p = "tk_pos t"
  define rest where "rest = drop ?p ?b"
  have sl: "str_slice ?b ?p (length ?b) = Some rest" using "1.prems" by (simp add: str_slice_rest rest_def)
  show ?case
  proof (cases "position (\<lambda>x. x = opn \<or> x = cls) rest")
    case None
    then have "opn \<notin> set rest" "cls \<notin> set rest" by (auto simp: position_None)
    then have "scan_balanced opn cls level rest = (rest, False, [])"
      using scan_balanced_prefix [of opn rest cls level "[]"] by simp
    then show ?thesis using None sl "1.prems"(7)
      by (subst balanced_loop.simps) (auto simp: rest_def [symmetric] intro!: exI [of _ "tk_pos t"])
  next
    case (Some off)
    note P = position_split [OF Some]
    let ?idx = "?p + off"
    define x where "x = ?b ! ?idx"
    have idx: "?idx < length ?b" "byte_at ?b ?idx = Some x" "x = opn \<or> x = cls" "x < 128"
      using P(3,4) "1.prems"(4,5) by (auto simp: rest_def x_def byte_at_def)
    have after: "drop (Suc off) rest = drop (Suc ?idx) ?b" by (simp add: rest_def add.commute)
    have idx2: "byte_at (tk_input (go_to (?idx + 1) t)) ?idx = Some x" using idx(2) by simp
    have "rest ! off = x" using idx(1) by (simp add: rest_def x_def)
    then have scan: "scan_balanced opn cls level rest =
        apfst ((@) (take off rest)) (scan_balanced opn cls level (x # drop (Suc ?idx) ?b))"
      using scan_balanced_prefix [of opn "take off rest" cls level "x # drop (Suc ?idx) ?b"] P(1,2)
      unfolding after by fastforce
    have bd: "is_char_boundary ?b (Suc ?idx)" using ascii_boundary(2) [OF idx(1)] idx(4) "1.prems"(1) by (simp add: x_def)
    show ?thesis
    proof (cases "x = opn")
      case True
      then have "balanced_loop opn cls level t = balanced_loop opn cls (level + 1) (go_to (?idx + 1) t)"
        using sl Some idx(2) by (subst balanced_loop.simps) (simp add: Let_def)
      moreover have "\<exists>lv p. balanced_loop opn cls (level + 1) (go_to (?idx + 1) t) = Some (lv, go_to p t) \<and>
        (case scan_balanced opn cls (level + 1) (drop (Suc ?idx) ?b) of
           (s, fin, r) \<Rightarrow> if fin then lv = 0 \<and> p = length ?b - length r else 0 < lv)"
        using "1.IH"(1) [OF sl Some refl refl idx2 True] "1.prems" bd idx(1) by (simp cong: if_cong)
      ultimately show ?thesis using scan True
        by (cases "scan_balanced opn cls (Suc level) (drop (Suc ?idx) ?b)") (auto simp: rest_def [symmetric])
    next
      case False
      then have c: "x = cls" using idx(3) by simp
      show ?thesis
      proof (cases "level = 1")
        case True
        then have "balanced_loop opn cls level t = Some (0, go_to (?idx + 1) t)"
          using sl Some idx(2) False by (subst balanced_loop.simps) (simp add: Let_def)
        then show ?thesis using scan True False c idx(1) by (auto simp: rest_def [symmetric])
      next
        case lv: False
        then have "balanced_loop opn cls level t = balanced_loop opn cls (level - 1) (go_to (?idx + 1) t)"
          using sl Some idx(2) False "1.prems"(7) by (subst balanced_loop.simps) (simp add: Let_def)
        moreover have "checked_sub level 1 = Some (level - 1)" "level - 1 \<noteq> 0" using lv "1.prems"(7) by simp_all
        then have "\<exists>l p. balanced_loop opn cls (level - 1) (go_to (?idx + 1) t) = Some (l, go_to p t) \<and>
          (case scan_balanced opn cls (level - 1) (drop (Suc ?idx) ?b) of
             (s, fin, r) \<Rightarrow> if fin then l = 0 \<and> p = length ?b - length r else 0 < l)"
          using "1.IH"(2) [OF sl Some refl refl idx2 False \<open>checked_sub level 1 = Some (level - 1)\<close>] "1.prems" bd idx(1) by (simp cong: if_cong)
        ultimately show ?thesis using scan False c lv "1.prems"(7)
          by (cases "scan_balanced opn cls (level - 1) (drop (Suc ?idx) ?b)") (auto simp: rest_def [symmetric])
      qed
    qed
  qed
qed

text \<open>At a position whose byte is an ASCII character, the one after it is a boundary.\<close>

lemma after_ascii:
  assumes "text_bytes (tk_input t)" "tk_byte t = Some x" "x < 128"
  shows "tk_pos t < length (tk_input t)" "drop (tk_pos t) (tk_input t) = x # drop (Suc (tk_pos t)) (tk_input t)"
    "is_char_boundary (tk_input t) (tk_pos t)" "is_char_boundary (tk_input t) (Suc (tk_pos t))"
proof -
  have x: "tk_pos t < length (tk_input t)" "tk_input t ! tk_pos t = x" using assms(2) by (simp_all add: tk_byte_def byte_at_Some)
  show "tk_pos t < length (tk_input t)" by (rule x(1))
  show "drop (tk_pos t) (tk_input t) = x # drop (Suc (tk_pos t)) (tk_input t)" using x by (simp flip: Cons_nth_drop_Suc)
  show "is_char_boundary (tk_input t) (tk_pos t)" "is_char_boundary (tk_input t) (Suc (tk_pos t))"
    using ascii_boundary [OF x(1)] x(2) assms(1,3) by simp_all
qed

lemma parse_quoted_eq:
  assumes "text_bytes (tk_input t)" "tk_byte t = Some q" "q < 128"
  shows "parse_quoted q t = (let (s, fin, r) = scan_quoted q (drop (Suc (tk_pos t)) (tk_input t))
     in Some ((s, fin), go_to (length (tk_input t) - length r) t))"
  using after_ascii [OF assms] quoted_loop_eq [of "advance 1 t" q "[]"] assms by (simp add: parse_quoted_def)

lemma parse_quoted_balanced_eq:
  assumes "text_bytes (tk_input t)" "tk_byte t = Some opn" "opn < 128" "cls < 128" "opn \<noteq> cls"
  shows "parse_quoted_balanced opn cls t =
    (let (s, fin, r) = scan_balanced opn cls 1 (drop (Suc (tk_pos t)) (tk_input t))
     in Some ((s, fin), go_to (length (tk_input t) - length r) t))"
proof -
  let ?b = "tk_input t" and ?p = "Suc (tk_pos t)"
  note A = after_ascii [OF assms(1-3)]
  obtain s fin r where scan: "scan_balanced opn cls 1 (drop ?p ?b) = (s, fin, r)" by (cases "scan_balanced opn cls 1 (drop ?p ?b)") auto
  note shape = scan_balanced_shape [OF scan]
  obtain lv p where loop: "balanced_loop opn cls 1 (advance 1 t) = Some (lv, go_to p t)"
    "if fin then lv = 0 \<and> p = length ?b - length r else 0 < lv"
    using balanced_loop_eq [of "advance 1 t" opn cls 1] A assms scan by auto
  show ?thesis
  proof (cases fin)
    case True
    then have d: "drop ?p ?b = s @ cls # r" "p = length ?b - length r" "lv = 0" using shape loop(2) by auto
    have len: "length ?b = ?p + length s + 1 + length r" using arg_cong [OF d(1), of length] A(1) by simp
    then have e: "p - 1 = ?p + length s" using d(2) by simp
    have "?b ! (?p + length s) = cls" using nth_drop [of ?p ?b "length s"] d(1) A(1) by simp
    then have "is_char_boundary ?b (p - 1)" using ascii_boundary(1) [of "p - 1" ?b] e len assms(4) by simp
    then have "str_slice ?b ?p (p - 1) = Some (take (p - 1 - ?p) (drop ?p ?b))" using A e len by (intro str_slice_ok) auto
    also have "take (p - 1 - ?p) (drop ?p ?b) = s" using d(1) e by simp
    finally show ?thesis using loop(1) d True assms(2) scan by (simp add: parse_quoted_balanced_def)
  next
    case False
    then have "s = drop ?p ?b" "r = []" "0 < lv" using shape loop(2) by auto
    moreover have "str_slice ?b ?p (length ?b) = Some (drop ?p ?b)" using A by (intro str_slice_rest) auto
    ultimately show ?thesis using loop(1) False assms(2) scan by (simp add: parse_quoted_balanced_def)
  qed
qed

text \<open>What a scan leaves: a rest that starts or follows an ASCII character.\<close>

definition cut :: "nat list \<Rightarrow> nat list \<Rightarrow> bool" where
  "cut s r \<longleftrightarrow> (\<exists>pre. s = pre @ r \<and> pre \<noteq> [] \<and> (r = [] \<or> hd r < 128 \<or> last pre < 128))"

lemma cut_position:
  assumes "text_bytes b" "cut (drop p b) r" "p \<le> length b"
  shows "p < length b - length r" "is_char_boundary b (length b - length r)" "drop (length b - length r) b = r" "length r < length (drop p b)"
proof -
  obtain pre where pre: "drop p b = pre @ r" "pre \<noteq> []" "r = [] \<or> hd r < 128 \<or> last pre < 128"
    using assms(2) by (auto simp: cut_def)
  have len: "length b = p + length pre + length r" using arg_cong [OF pre(1), of length] assms(3) by simp
  then show "p < length b - length r" "length r < length (drop p b)" using pre(1,2) by auto
  have q: "length b - length r = p + length pre" using len by simp
  show d: "drop (length b - length r) b = r" using q pre(1) by (metis append_eq_conv_conj drop_drop add.commute)
  show "is_char_boundary b (length b - length r)"
  proof (cases "r = []")
    case False
    then have "0 < length r" by simp
    then have lt: "p + length pre < length b" unfolding len by linarith
    then have "b ! (p + length pre) = hd r" using d hd_drop_conv_nth [OF lt] unfolding q by simp
    note this lt
    moreover have "b ! (p + length pre - 1) = last pre"
    proof -
      have "b ! (p + (length pre - 1)) = drop p b ! (length pre - 1)" by (rule nth_drop [symmetric]) (use assms(3) in simp)
      also have "\<dots> = last pre" using pre(1,2) by (simp add: last_conv_nth nth_append)
      finally show ?thesis using pre(2) by (metis Nat.add_diff_assoc length_greater_0_conv Suc_leI One_nat_def)
    qed
    moreover have "0 < p + length pre" using pre(2) by simp
    then have "Suc (p + length pre - 1) = p + length pre" "p + length pre - 1 < length b"
      using lt by simp_all
    ultimately show ?thesis
      using ascii_boundary(1) [of "p + length pre" b] ascii_boundary(2) [of "p + length pre - 1" b] assms(1) pre(3) False
      unfolding q by metis
  qed simp
qed

lemma scan_quoted_cut: "scan_quoted q s = (c, fin, r) \<Longrightarrow> \<exists>pre. s = pre @ r \<and> (r = [] \<or> pre \<noteq> [] \<and> last pre = q)"
proof (induction s arbitrary: c rule: length_induct)
  case (1 s)
  show ?case
  proof (cases s)
    case (Cons x t)
    have keep: "\<exists>pre. s = pre @ r \<and> (r = [] \<or> pre \<noteq> [] \<and> last pre = q)"
      if "scan_quoted q t' = (c', fin, r)" "s = ys @ t'" "ys \<noteq> []" for t' c' ys
    proof -
      have "length t' < length s" using that(2,3) by simp
      from "1.IH" [rule_format, OF this that(1)] obtain pre where "t' = pre @ r" "r = [] \<or> pre \<noteq> [] \<and> last pre = q" by blast
      then show ?thesis using that(2) by (intro exI [of _ "ys @ pre"]) auto
    qed
    show ?thesis
    proof (cases "x = q \<and> (\<forall>y t'. t = y # t' \<longrightarrow> y \<noteq> q)")
      case True
      then have "r = t" using "1.prems" Cons by (cases t) auto
      then show ?thesis using Cons True by (intro exI [of _ "[x]"]) simp
    next
      case False
      show ?thesis
      proof (cases "x = q")
        case True
        then obtain t' where "t = q # t'" using False by auto
        then show ?thesis using "1.prems" Cons True keep [of t' "tl c" "[x, q]"] by (cases "scan_quoted q t'") auto
      next
        case False
        then show ?thesis using "1.prems" Cons keep [of t "tl c" "[x]"] by (cases "scan_quoted q t") auto
      qed
    qed
  qed (use "1.prems" in simp)
qed

lemma scan_unquoted_cut:
  "scan_unquoted s = (c, r) \<Longrightarrow> \<exists>pre. s = pre @ r \<and> (r = [] \<or> blank (hd r)) \<and> (s \<noteq> [] \<and> \<not> blank (hd s) \<longrightarrow> pre \<noteq> [])"
proof (induction s arbitrary: c rule: length_induct)
  case (1 s)
  show ?case
  proof (cases s)
    case (Cons x t)
    have keep: "\<exists>pre. s = pre @ r \<and> (r = [] \<or> blank (hd r)) \<and> (s \<noteq> [] \<and> \<not> blank (hd s) \<longrightarrow> pre \<noteq> [])"
      if "scan_unquoted t' = (c', r)" "s = ys @ t'" "ys \<noteq> []" for t' c' ys
    proof -
      have "length t' < length s" using that(2,3) by simp
      from "1.IH" [rule_format, OF this that(1)] obtain pre where "t' = pre @ r" "r = [] \<or> blank (hd r)" by blast
      then show ?thesis using that(2,3) by (intro exI [of _ "ys @ pre"]) auto
    qed
    show ?thesis
    proof (cases "blank x")
      case True
      then show ?thesis using "1.prems" Cons by (intro exI [of _ "[]"]) auto
    next
      case False
      show ?thesis
      proof (cases "x = backslash \<and> (\<exists>y t'. t = y # t' \<and> blank y)")
        case True
        then obtain y t' where "t = y # t'" "blank y" by blast
        then show ?thesis using "1.prems" Cons True keep [of t' "tl c" "[x, y]"] False by (cases "scan_unquoted t'") auto
      next
        case esc: False
        then have "scan_unquoted s = apfst ((#) x) (scan_unquoted t) \<or> t = [] \<and> scan_unquoted s = ([], [])"
          using False Cons by (cases t) (auto simp del: scan_unquoted.simps(2) simp: scan_unquoted.simps(2) [of x])
        then show ?thesis using "1.prems" Cons keep [of t "tl c" "[x]"] by (cases "scan_unquoted t") auto
      qed
    qed
  qed (use "1.prems" in simp)
qed

lemma delimiters_ascii: "delimiters x = Some (a, c) \<Longrightarrow> x = a \<and> a < 128 \<and> c < 128"
  by (auto simp: delimiters_def split: if_splits)

lemma lowercase_ascii: "ascii_lowercase x \<Longrightarrow> x < 128"
  by (simp add: ascii_lowercase_def)

lemma scan_percent_cut:
  assumes "scan_percent v n r = (item, r')"
  shows "cut (percent # r) r'"
proof -
  define kind after where "kind = takeWhile ascii_lowercase r" and "after = dropWhile ascii_lowercase r"
  have r: "r = kind @ after" by (simp add: kind_def after_def)
  have low: "last (percent # kind) < 128"
    using lowercase_ascii set_takeWhileD [of _ ascii_lowercase r] by (auto simp: kind_def)
  have stop: "cut (percent # r) after"
    unfolding cut_def using r low by (intro exI [of _ "percent # kind"]) simp
  note def = assms [unfolded scan_percent_def Let_def, folded kind_def after_def]
  show ?thesis
  proof (cases after)
    case Nil
    then have "r' = []" using def by simp
    then show ?thesis unfolding cut_def by (intro exI [of _ "percent # r"]) simp
  next
    case (Cons x t)
    show ?thesis
    proof (cases "delimiters x = None \<or> from_kind kind = None \<and> v")
      case True
      then have "r' = after" using def Cons by (auto split: if_splits option.splits)
      then show ?thesis using stop by simp
    next
      case False
      then obtain a c where ac: "delimiters x = Some (a, c)" by auto
      note asc = delimiters_ascii [OF ac]
      have "\<exists>pre. t = pre @ r' \<and> (r' = [] \<or> pre \<noteq> [] \<and> last pre < 128)"
      proof (cases "a = c")
        case True
        then obtain s fin where "scan_quoted a t = (s, fin, r')"
          using def Cons False ac by (cases "scan_quoted a t") (auto split: if_splits)
        then show ?thesis using scan_quoted_cut asc by blast
      next
        case neq: False
        then obtain s fin where "scan_balanced a c 1 t = (s, fin, r')"
          using def Cons False ac by (cases "scan_balanced a c 1 t") (auto split: if_splits)
        from scan_balanced_shape [OF this] show ?thesis using asc by (cases fin) (auto intro: exI [of _ "s @ [c]"])
      qed
      then obtain pre where "t = pre @ r'" "r' = [] \<or> pre \<noteq> [] \<and> last pre < 128" by blast
      then show ?thesis unfolding cut_def using r Cons by (intro exI [of _ "percent # kind @ x # pre"]) auto
    qed
  qed
qed

lemma parse_percent_token_eq:
  assumes "text_bytes (tk_input t)" "tk_byte t = Some percent"
  shows "parse_percent_token t =
    (let (item, r) = scan_percent (tk_validate t) (length (tk_input t)) (drop (Suc (tk_pos t)) (tk_input t))
     in Some (item, go_to (length (tk_input t) - length r) t))"
proof -
  let ?b = "tk_input t" and ?p = "Suc (tk_pos t)"
  note A = after_ascii [OF assms, simplified]
  define rest kind after where "rest = drop ?p ?b" and "kind = takeWhile ascii_lowercase rest" and "after = dropWhile ascii_lowercase rest"
  have rest: "rest = kind @ after" by (simp add: kind_def after_def)
  have "?p \<le> length ?b" using A(1) by simp
  then have len: "length ?b = ?p + length kind + length after"
    using arg_cong [OF rest, of length] by (simp add: rest_def)
  have s1: "str_slice ?b ?p (length ?b) = Some rest" using str_slice_rest [of ?p ?b] A by (simp add: rest_def)
  let ?q = "?p + length kind"
  have d: "drop ?q ?b = after" using rest by (metis append_eq_conv_conj drop_drop add.commute rest_def)
  have q: "is_char_boundary ?b ?q"
  proof (cases kind rule: rev_cases)
    case Nil
    then show ?thesis using A by simp
  next
    case (snoc ks k)
    then have "drop ?p ?b = ks @ k # after" using rest by (simp add: rest_def)
    then have "?b ! (?p + length ks) = k" using nth_drop [of ?p ?b "length ks"] A(1) by simp
    moreover have "k < 128" using snoc lowercase_ascii set_takeWhileD [of k ascii_lowercase rest] by (auto simp: kind_def)
    ultimately show ?thesis
      using ascii_boundary(2) [of "?p + length ks" ?b] snoc len assms(1) by simp
  qed
  have s2: "str_slice ?b ?p ?q = Some kind" using str_slice_ok [of ?p ?q ?b] A q len rest by (simp add: rest_def)
  let ?t = "go_to ?q t"
  have byte: "tk_byte ?t = (case after of [] \<Rightarrow> None | x # _ \<Rightarrow> Some x)"
  proof (cases after)
    case (Cons x xs)
    then have "?b ! ?q = x" "?q < length ?b" using d len hd_drop_conv_nth [of ?q ?b] by auto
    then show ?thesis using Cons by (simp add: tk_byte_def byte_at_def)
  qed (use len in \<open>simp add: tk_byte_def byte_at_def\<close>)
  have stop: "length ?b - length after = ?q" using len by simp
  have pos: "length ?b - length rest = ?p" using len arg_cong [OF rest, of length] by simp
  have run: "parse_percent_token t =
    (case Option.bind (tk_byte ?t) delimiters of
       None \<Rightarrow>
         Some (if tk_validate t then Inl (MissingExpansionDelimiter kind)
               else Inr \<lparr>tok_kind = ExpansionKind, content_start = ?p, tok_content = kind, is_terminated = False\<rparr>, ?t)
     | Some (opn, cls) \<Rightarrow>
         if from_kind kind = None \<and> tk_validate t then Some (Inl (UnknownExpansion kind), ?t)
         else do {
           ((s, fin), t) \<leftarrow> (if opn = cls then parse_quoted opn ?t else parse_quoted_balanced opn cls ?t);
           Some (checked (tk_validate t) \<lparr>tok_kind = (case from_kind kind of Some k \<Rightarrow> Expansion k | None \<Rightarrow> Expand),
             content_start = Suc ?q, tok_content = s, is_terminated = fin\<rparr>, t)
         })"
    using assms(2) s1 s2 unfolding parse_percent_token_def
    by (simp add: Let_def kind_def [symmetric] checked_def cong: if_cong option.case_cong prod.case_cong)
  show ?thesis
  proof (cases after)
    case Nil
    then show ?thesis using run s1 s2 byte pos stop unfolding scan_percent_def Let_def
      by (simp add: rest_def [symmetric] kind_def [symmetric] after_def [symmetric])
  next
    case (Cons x r')
    have x: "tk_byte ?t = Some x" using byte Cons by simp
    show ?thesis
    proof (cases "delimiters x")
      case None
      then show ?thesis using run s1 s2 x pos stop Cons unfolding scan_percent_def Let_def
        by (simp add: rest_def [symmetric] kind_def [symmetric] after_def [symmetric])
    next
      case (Some ac)
      obtain a c where ac: "ac = (a, c)" by (cases ac)
      have asc: "x = a" "a < 128" "c < 128" using delimiters_ascii Some ac by auto
      have d': "drop (Suc ?q) ?b = r'" using d Cons by (metis drop_Suc tl_drop list.sel(3))
      have n: "length ?b - length r' = Suc ?q" using len Cons by simp
      have "(if a = c then parse_quoted a ?t else parse_quoted_balanced a c ?t) =
        (let (s, fin, r) = (if a = c then scan_quoted a r' else scan_balanced a c 1 r')
         in Some ((s, fin), go_to (length ?b - length r) t))"
        using parse_quoted_eq [of ?t a] parse_quoted_balanced_eq [of ?t a c] assms(1) x asc d' by auto
      then show ?thesis using run s1 s2 x pos stop Cons Some ac n unfolding scan_percent_def Let_def
        by (simp add: rest_def [symmetric] kind_def [symmetric] after_def [symmetric] checked_def split: prod.splits)
    qed
  qed
qed

lemma scan_next_cut:
  assumes "scan_next v n s = Some (item, r)"
  shows "cut s r"
proof -
  obtain x t where d: "dropWhile (\<lambda>x. blank x) s = x # t" using assms by (cases "dropWhile (\<lambda>x. blank x) s") (auto simp: scan_next_def)
  then have s: "s = takeWhile (\<lambda>x. blank x) s @ x # t" and x: "\<not> blank x"
    using takeWhile_dropWhile_id [of "\<lambda>x. blank x" s] hd_dropWhile [of "\<lambda>x. blank x" s] by (metis, metis list.sel(1) list.distinct(1))
  have wrap: ?thesis if c: "cut (x # t) r"
  proof -
    obtain pre where "x # t = pre @ r" "pre \<noteq> []" "r = [] \<or> hd r < 128 \<or> last pre < 128" using c unfolding cut_def by blast
    then show ?thesis unfolding cut_def using s by (intro exI [of _ "takeWhile (\<lambda>x. blank x) s @ pre"]) auto
  qed
  note def = assms [unfolded scan_next_def d list.case Let_def]
  consider (q) "x = 34 \<or> x = 39 \<or> x = 96" | (p) "x = percent" | (u) "\<not> (x = 34 \<or> x = 39 \<or> x = 96)" "x \<noteq> percent" by blast
  then show ?thesis
  proof cases
    case q
    then obtain c fin where "scan_quoted x t = (c, fin, r)" using def by (cases "scan_quoted x t") auto
    from scan_quoted_cut [OF this] obtain pre where "t = pre @ r" "r = [] \<or> pre \<noteq> [] \<and> last pre = x" by blast
    then show ?thesis using q by (intro wrap) (auto simp: cut_def intro!: exI [of _ "x # pre"])
  next
    case p
    then have "scan_percent v n t = (item, r)" using def by simp
    from scan_percent_cut [OF this] show ?thesis using p by (intro wrap) simp
  next
    case u
    define t' where "t' = (if x = backslash \<and> t \<noteq> [] \<and> hd t \<in> {34, 39, 96, 37} then t else x # t)"
    obtain c where c: "scan_unquoted t' = (c, r)" using def u by (cases "scan_unquoted t'") (auto simp: t'_def)
    have h: "t' \<noteq> [] \<and> \<not> blank (hd t')" using x by (auto simp: t'_def)
    obtain pre where "t' = pre @ r" "r = [] \<or> blank (hd r)" "pre \<noteq> []" using scan_unquoted_cut [OF c] h by blast
    moreover have "x # t = (if t' = t \<and> x = backslash then [x] else []) @ t'" by (auto simp: t'_def)
    then obtain ys where "x # t = ys @ t'" ..
    ultimately show ?thesis by (intro wrap) (auto simp: cut_def intro!: exI [of _ "ys @ pre"])
  qed
qed

lemma tk_next_eq:
  assumes "text_bytes (tk_input t)" "tk_pos t \<le> length (tk_input t)" "is_char_boundary (tk_input t) (tk_pos t)"
  shows "tk_next t =
    (case scan_next (tk_validate t) (length (tk_input t)) (drop (tk_pos t) (tk_input t)) of
       None \<Rightarrow> Some (None, go_to (length (tk_input t)) t)
     | Some (item, r) \<Rightarrow> Some (Some item, go_to (length (tk_input t) - length r) t))"
proof -
  let ?b = "tk_input t"
  obtain p where p: "skip_blanks t = go_to p t" "p \<le> length ?b" "is_char_boundary ?b p"
    "drop p ?b = dropWhile (\<lambda>x. blank x) (drop (tk_pos t) ?b)" using skip_blanks_eq [OF assms(1,3,2)] by blast
  let ?t = "go_to p t"
  show ?thesis
  proof (cases "drop p ?b")
    case Nil
    then have "p = length ?b" using p(2) by simp
    moreover have "tk_byte ?t = None" using Nil p(2) by (simp add: tk_byte_def byte_at_def)
    ultimately show ?thesis using p Nil by (simp add: tk_next_def scan_next_def)
  next
    case (Cons x r)
    have lt: "p < length ?b" using Cons by (metis drop_all linorder_not_less list.distinct(1))
    have "length ?b - p = Suc (length r)" using arg_cong [OF Cons, of length] by simp
    then have x: "?b ! p = x" "drop (Suc p) ?b = r" "length ?b - length r = Suc p"
      using Cons hd_drop_conv_nth [OF lt] lt by (auto simp: drop_Suc tl_drop [symmetric])
    have byte: "tk_byte ?t = Some x" using lt x(1) by (simp add: tk_byte_def byte_at_def)
    have nb: "\<not> blank x" using dropWhile_eq_Cons_conv [THEN iffD1, OF trans [OF p(4) [symmetric] Cons]] by simp
    note run = tk_next_def [of t, unfolded p(1) Let_def byte option.case]
    note scan = scan_next_def [of "tk_validate t" "length ?b" "drop (tk_pos t) ?b", unfolded p(4) [symmetric] Cons list.case Let_def]
    consider (q) "x = 34 \<or> x = 39 \<or> x = 96" | (p) "x = percent" | (u) "\<not> (x = 34 \<or> x = 39 \<or> x = 96)" "x \<noteq> percent" by blast
    then show ?thesis
    proof cases
      case q
      then have "x < 128" by auto
      from parse_quoted_eq [of ?t x] byte this assms(1) x(2) have
        "parse_quoted x ?t = (let (s, fin, r) = scan_quoted x r in Some ((s, fin), go_to (length ?b - length r) t))" by simp
      then show ?thesis unfolding run scan using q x(3) by (auto simp: checked_def split: prod.splits)
    next
      case p
      then show ?thesis unfolding run scan using parse_percent_token_eq [of ?t] byte assms(1) x(2) by (auto split: prod.splits)
    next
      case u
      define q where "q = (if x = backslash \<and> (\<exists>y\<in>{34, 39, 96, 37}. peek_byte ?t = Some y) then Suc p else p)"
      have peek: "peek_byte ?t = (case r of [] \<Rightarrow> None | y # _ \<Rightarrow> Some y)"
      proof (cases "Suc p < length ?b")
        case True
        then show ?thesis using x(2) hd_drop_conv_nth [OF True] by (cases r) (auto simp: peek_byte_def byte_at_def)
      next
        case False
        then show ?thesis using x(2) by (auto simp: peek_byte_def byte_at_def)
      qed
      have t': "drop q ?b = (if x = backslash \<and> r \<noteq> [] \<and> hd r \<in> {34, 39, 96, 37} then r else x # r)"
        using peek x(2) Cons by (cases r) (auto simp: q_def)
      have bd: "is_char_boundary ?b q" "q \<le> length ?b"
        using ascii_boundary(2) [OF lt] x(1) assms(1) p(3) lt by (auto simp: q_def)
      have first: "q = 0 \<or> ?b ! (q - 1) \<noteq> backslash \<or> q < length ?b \<and> \<not> blank (?b ! q)"
      proof -
        have "drop q ?b \<noteq> []" "\<not> blank (hd (drop q ?b))" using t' nb by auto
        then show ?thesis by (simp add: hd_drop_conv_nth)
      qed
      have "parse_unquoted (go_to q t) = (let (s, r) = scan_unquoted (drop q ?b) in Some (s, go_to (length ?b - length r) t))"
        using unquoted_loop_eq [of "go_to q t" q "[]"] assms(1) bd first by (simp add: parse_unquoted_def held_def)
      moreover have "(if x = backslash \<and> (\<exists>q\<in>{34, 39, 96, 37}. peek_byte ?t = Some q) then advance 1 ?t else ?t) = go_to q t"
        by (auto simp: q_def go_to_def advance_def)
      moreover have "length ?b - length r - 1 = p" using x(3) by simp
      ultimately show ?thesis unfolding run scan using u t' by (auto simp: Let_def split: prod.splits)
    qed
  qed
qed

end
