(* ===== verification/CommandLaws.thy ===== *)
theory CommandLaws
  imports CommandScan "HOL-Library.Sublist"
begin

text \<open>
  What the command line parser promises: it always ends and never slices inside a character, quoting
  and escaping can be undone by it, what validation guarantees of the tokens and of the arguments, and
  where an argument of a flag gets lost.
\<close>

section \<open>All tokens\<close>

lemma scan_next_shorter: "scan_next v n s = Some (item, r) \<Longrightarrow> length r < length s"
  by (auto dest!: scan_next_cut simp: cut_def)

function scan :: "bool \<Rightarrow> nat \<Rightarrow> nat list \<Rightarrow> item list" where
  "scan v n s = (case scan_next v n s of None \<Rightarrow> [] | Some (item, r) \<Rightarrow> item # scan v n r)"
  by auto

termination
  by (relation "measure (\<lambda>(v, n, s). length s)") (auto dest: scan_next_shorter)

declare scan.simps [simp del]

lemma tk_items_eq:
  assumes "text_bytes (tk_input t)" "tk_pos t \<le> length (tk_input t)" "is_char_boundary (tk_input t) (tk_pos t)"
  shows "tk_items t = Some (scan (tk_validate t) (length (tk_input t)) (drop (tk_pos t) (tk_input t)))"
  using assms
proof (induction "length (tk_input t) - tk_pos t" arbitrary: t rule: less_induct)
  case less
  let ?b = "tk_input t"
  note N = tk_next_eq [OF less.prems]
  show ?case
  proof (cases "scan_next (tk_validate t) (length ?b) (drop (tk_pos t) ?b)")
    case None
    then show ?thesis using N by (subst tk_items.simps, subst scan.simps) simp
  next
    case (Some ir)
    obtain item r where ir: "ir = (item, r)" by (cases ir)
    note C = cut_position [OF less.prems(1) scan_next_cut [OF Some [unfolded ir]] less.prems(2)]
    let ?t = "go_to (length ?b - length r) t"
    have "tk_items ?t = Some (scan (tk_validate t) (length ?b) r)"
      using less.hyps [of ?t] C less.prems by simp
    then show ?thesis using N Some ir by (subst tk_items.simps, subst scan.simps) simp
  qed
qed

section \<open>Quoting\<close>

definition quoted_body :: "nat \<Rightarrow> nat list \<Rightarrow> nat list" where
  "quoted_body q s = concat (map (\<lambda>x. if x = q then [q, q] else [x]) s)"

lemma scan_quoted_body:
  assumes "r = [] \<or> hd r \<noteq> q"
  shows "scan_quoted q (quoted_body q s @ q # r) = (s, True, r)"
proof (induction s)
  case Nil
  then show ?case using assms by (cases r) (auto simp: quoted_body_def)
next
  case (Cons x s)
  then show ?case by (auto simp: quoted_body_def)
qed

definition escaped_body :: "nat list \<Rightarrow> nat list" where
  "escaped_body s = concat (map (\<lambda>x. if blank x then [backslash, x] else [x]) s)"

lemma scan_escaped_body:
  assumes "r = [] \<or> blank (hd r)" "backslash \<notin> set s"
  shows "scan_unquoted (escaped_body s @ r) = (s, r)"
  using assms(2)
proof (induction s)
  case Nil
  then show ?case using assms(1) by (cases r) (auto simp: escaped_body_def)
next
  case (Cons x s)
  then show ?case by (auto simp: escaped_body_def)
qed

text \<open>A nesting of delimiters that closes what it opens, and nothing else.\<close>

fun nested_ok :: "nat \<Rightarrow> nat \<Rightarrow> nat \<Rightarrow> nat list \<Rightarrow> bool" where
  "nested_ok opn cls level [] \<longleftrightarrow> level = 0"
| "nested_ok opn cls level (x # s) \<longleftrightarrow>
     (if x = opn then nested_ok opn cls (level + 1) s
      else if x = cls then 0 < level \<and> nested_ok opn cls (level - 1) s
      else nested_ok opn cls level s)"

lemma scan_nested:
  assumes "nested_ok opn cls level s" "opn \<noteq> cls"
  shows "scan_balanced opn cls (level + 1) (s @ cls # r) = (s, True, r)"
  using assms
proof (induction s arbitrary: level)
  case (Cons x s)
  then show ?case by (cases level) (auto split: if_splits)
qed simp

text \<open>The ways to write a word: with blanks escaped, in quotes, or in a balanced expansion.\<close>

datatype written =
    Bare str
  | InQuotes quote str
  | InDoubleQuotes str
  | InBraces expansion_kind str

fun word_of :: "written \<Rightarrow> str" where
  "word_of (Bare s) = s"
| "word_of (InQuotes q s) = s"
| "word_of (InDoubleQuotes s) = s"
| "word_of (InBraces k s) = s"

fun kind_of :: "written \<Rightarrow> token_kind" where
  "kind_of (Bare s) = Unquoted"
| "kind_of (InQuotes q s) = Quoted q"
| "kind_of (InDoubleQuotes s) = Expand"
| "kind_of (InBraces k s) = Expansion k"

fun writable :: "written \<Rightarrow> bool" where
  "writable (Bare s) \<longleftrightarrow> s \<noteq> [] \<and> hd s \<notin> {32, 9, 34, 39, 96, percent} \<and> backslash \<notin> set s"
| "writable (InQuotes q s) \<longleftrightarrow> True"
| "writable (InDoubleQuotes s) \<longleftrightarrow> True"
| "writable (InBraces k s) \<longleftrightarrow> nested_ok 123 125 0 s"

fun write_word :: "written \<Rightarrow> str" where
  "write_word (Bare s) = escaped_body s"
| "write_word (InQuotes q s) = quote_char q # quoted_body (quote_char q) s @ [quote_char q]"
| "write_word (InDoubleQuotes s) = 34 # quoted_body 34 s @ [34]"
| "write_word (InBraces k s) = percent # as_str k @ 123 # s @ [125]"

fun write_line :: "written list \<Rightarrow> str" where
  "write_line [] = []"
| "write_line (w # ws) = write_word w @ 32 # write_line ws"

lemma utf8_append: "utf8 (a @ b) = utf8 a @ utf8 b"
  by (simp add: utf8_def)

lemma utf8_ascii: "c < 128 \<Longrightarrow> utf8 (c # s) = c # utf8 s"
  by (simp add: utf8_def utf8_char_def)

lemma utf8_wide: "\<not> c < 128 \<Longrightarrow> \<forall>x\<in>set (utf8_char c). 128 \<le> x"
  by (auto simp: utf8_char_def)

lemma utf8_each:
  assumes "\<And>c. c < 128 \<Longrightarrow> utf8 (f c) = g c" "\<And>c. \<not> c < 128 \<Longrightarrow> f c = [c]" "\<And>x. 128 \<le> x \<Longrightarrow> g x = [x]"
  shows "utf8 (concat (map f s)) = concat (map g (utf8 s))"
proof (induction s)
  case (Cons c s)
  show ?case
  proof (cases "c < 128")
    case True
    then show ?thesis using Cons assms(1) by (simp add: utf8_append utf8_ascii)
  next
    case False
    have "concat (map g xs) = xs" if "\<forall>x\<in>set xs. 128 \<le> x" for xs using that assms(3) by (induction xs) auto
    then have "concat (map g (utf8_char c)) = utf8_char c" using utf8_wide [OF False] by simp
    then show ?thesis using Cons assms(2) [OF False] by (simp add: utf8_append utf8_def)
  qed
qed (simp add: utf8_def)

lemma utf8_quoted: "q < 128 \<Longrightarrow> utf8 (quoted_body q s) = quoted_body q (utf8 s)"
  unfolding quoted_body_def by (rule utf8_each) (auto simp: utf8_def utf8_char_def)

lemma utf8_escaped: "utf8 (escaped_body s) = escaped_body (utf8 s)"
  unfolding escaped_body_def by (rule utf8_each) (auto simp: utf8_def utf8_char_def)

lemma utf8_mem: "x < 128 \<Longrightarrow> x \<in> set (utf8 s) \<longleftrightarrow> x \<in> set s"
  by (induction s) (auto simp: utf8_def utf8_char_def)

lemma nested_wide: "\<forall>x\<in>set xs. 128 \<le> x \<Longrightarrow> nested_ok 123 125 level (xs @ s) = nested_ok 123 125 level s"
  by (induction xs) auto

lemma utf8_nested: "nested_ok 123 125 level (utf8 s) = nested_ok 123 125 level s"
proof (induction s arbitrary: level)
  case (Cons c s)
  show ?case
  proof (cases "c < 128")
    case True
    then show ?thesis using Cons by (simp add: utf8_ascii)
  next
    case False
    have "utf8 (c # s) = utf8_char c @ utf8 s" by (simp add: utf8_def)
    then show ?thesis using Cons nested_wide [OF utf8_wide [OF False]] False by simp
  qed
qed (simp add: utf8_def)

lemma as_str_kind [simp]: "from_kind (as_str k) = Some k" "\<forall>x\<in>set (as_str k). ascii_lowercase x" "utf8 (as_str k) = as_str k"
  by (cases k; simp add: as_str_def from_kind_def lit_def ascii_lowercase_def utf8_def utf8_char_def)+

lemma utf8_hd: "s \<noteq> [] \<Longrightarrow> x < 128 \<Longrightarrow> hd (utf8 s) = x \<longleftrightarrow> hd s = x"
  by (cases s) (auto simp: utf8_def utf8_char_def)

lemma utf8_nonempty: "s \<noteq> [] \<Longrightarrow> utf8 s \<noteq> []"
  by (cases s) (auto simp: utf8_def utf8_char_def)

text \<open>One word is one token.\<close>

lemma scan_word:
  assumes "writable w"
  shows "\<exists>tok. scan_next v n (utf8 (write_word w) @ 32 # r) = Some (Inr tok, 32 # r) \<and>
    tok_kind tok = kind_of w \<and> tok_content tok = utf8 (word_of w) \<and> (is_terminated tok \<longleftrightarrow> kind_of w \<noteq> Unquoted)"
proof (cases w)
  case (InQuotes q s)
  have q: "quote_char q = 39 \<or> quote_char q = 96" "quote_char q < 128" by (cases q; simp add: quote_char_def)+
  have "utf8 (write_word w) @ 32 # r = quote_char q # quoted_body (quote_char q) (utf8 s) @ quote_char q # 32 # r"
    using InQuotes q(2) utf8_quoted [OF q(2)] by (simp add: utf8_append utf8_ascii) (simp add: utf8_def utf8_char_def)
  moreover have "scan_quoted (quote_char q) (quoted_body (quote_char q) (utf8 s) @ quote_char q # 32 # r) = (utf8 s, True, 32 # r)"
    using q by (intro scan_quoted_body) auto
  ultimately show ?thesis using InQuotes q(1) by (cases q) (auto simp: scan_next_def checked_def quote_char_def)
next
  case (InDoubleQuotes s)
  have "utf8 (write_word w) @ 32 # r = 34 # quoted_body 34 (utf8 s) @ 34 # 32 # r"
    using InDoubleQuotes utf8_quoted [of 34] by (simp add: utf8_append utf8_ascii) (simp add: utf8_def utf8_char_def)
  moreover have "scan_quoted 34 (quoted_body 34 (utf8 s) @ 34 # 32 # r) = (utf8 s, True, 32 # r)"
    by (intro scan_quoted_body) auto
  ultimately show ?thesis using InDoubleQuotes by (auto simp: scan_next_def checked_def)
next
  case (InBraces k s)
  have u: "utf8 (write_word w) @ 32 # r = percent # as_str k @ 123 # utf8 s @ 125 # 32 # r"
    using InBraces by (simp add: utf8_append utf8_ascii) (simp add: utf8_def utf8_char_def)
  have "nested_ok 123 125 0 (utf8 s)" using assms InBraces by (simp add: utf8_nested)
  from scan_nested [OF this, of "32 # r"] have b: "scan_balanced 123 125 1 (utf8 s @ 125 # 32 # r) = (utf8 s, True, 32 # r)" by simp
  have "takeWhile ascii_lowercase (as_str k @ 123 # x) = as_str k" "dropWhile ascii_lowercase (as_str k @ 123 # x) = 123 # x" for x
    using as_str_kind(2) [of k] by (auto simp: takeWhile_append2 dropWhile_append2 ascii_lowercase_def)
  then show ?thesis unfolding u using InBraces b
    by (simp add: scan_next_def scan_percent_def delimiters_def checked_def)
next
  case (Bare s)
  have ne: "s \<noteq> []" "hd s \<notin> {32, 9, 34, 39, 96, percent}" "backslash \<notin> set s" using assms Bare by simp_all
  obtain x t where xt: "utf8 s = x # t" using utf8_nonempty [OF ne(1)] by (cases "utf8 s") auto
  have hd: "x \<notin> {32, 9, 34, 39, 96, percent}" 
  proof
    assume x: "x \<in> {32, 9, 34, 39, 96, percent}"
    then have "x < 128" by auto
    then have "hd s = x" using utf8_hd [OF ne(1), of x] xt by simp
    then show False using ne(2) x by simp
  qed
  have bs: "backslash \<notin> set (utf8 s)" using utf8_mem ne(3) by simp
  have e: "utf8 (write_word w) @ 32 # r = x # escaped_body t @ 32 # r"
    using Bare utf8_escaped [of s] xt hd by (simp add: escaped_body_def)
  have "scan_unquoted (escaped_body (utf8 s) @ 32 # r) = (utf8 s, 32 # r)" using bs by (intro scan_escaped_body) auto
  then have "scan_unquoted (x # escaped_body t @ 32 # r) = (utf8 s, 32 # r)"
    using xt hd by (simp add: escaped_body_def del: scan_unquoted.simps)
  then show ?thesis unfolding e using Bare hd bs xt by (auto simp: scan_next_def simp del: scan_unquoted.simps)
qed

lemma scan_line:
  assumes "list_all writable ws"
  shows "\<exists>toks. scan v n (utf8 (write_line ws)) = map Inr toks \<and> map tok_kind toks = map kind_of ws \<and>
    map tok_content toks = map (\<lambda>w. utf8 (word_of w)) ws \<and> list_all (\<lambda>tok. is_terminated tok \<longleftrightarrow> tok_kind tok \<noteq> Unquoted) toks"
proof -
  have "\<exists>toks. scan v n (sp @ utf8 (write_line ws)) = map Inr toks \<and> map tok_kind toks = map kind_of ws \<and>
    map tok_content toks = map (\<lambda>w. utf8 (word_of w)) ws \<and> list_all (\<lambda>tok. is_terminated tok \<longleftrightarrow> tok_kind tok \<noteq> Unquoted) toks"
    if "sp = [] \<or> sp = [32]" for sp
    using assms that
  proof (induction ws arbitrary: sp)
    case Nil
    then show ?case by (subst scan.simps) (auto simp: utf8_def scan_next_def)
  next
    case (Cons w ws)
    have u: "utf8 (write_line (w # ws)) = utf8 (write_word w) @ 32 # utf8 (write_line ws)"
      by (simp add: utf8_append utf8_ascii)
    obtain tok where tok: "scan_next v n (utf8 (write_word w) @ 32 # utf8 (write_line ws)) = Some (Inr tok, 32 # utf8 (write_line ws))"
      "tok_kind tok = kind_of w" "tok_content tok = utf8 (word_of w)" "is_terminated tok \<longleftrightarrow> kind_of w \<noteq> Unquoted"
      using scan_word [of w v n] Cons.prems(1) by fastforce
    have "scan_next v n (sp @ utf8 (write_line (w # ws))) = scan_next v n (utf8 (write_line (w # ws)))"
      using Cons.prems(2) by (auto simp: scan_next_def)
    moreover obtain toks where "scan v n ([32] @ utf8 (write_line ws)) = map Inr toks" "map tok_kind toks = map kind_of ws"
      "map tok_content toks = map (\<lambda>w. utf8 (word_of w)) ws" "list_all (\<lambda>tok. is_terminated tok \<longleftrightarrow> tok_kind tok \<noteq> Unquoted) toks"
      using Cons.IH [of "[32]"] Cons.prems(1) by auto
    ultimately show ?case using tok u by (subst scan.simps) (intro exI [of _ "tok # toks"], simp)
  qed
  from this [of "[]"] show ?thesis by simp
qed

lemma line_items:
  assumes "list_all writable ws"
  shows "\<exists>toks. tk_items (tokenizer_new (utf8 (write_line ws)) v) = Some (map Inr toks) \<and>
    map tok_kind toks = map kind_of ws \<and> map tok_content toks = map (\<lambda>w. utf8 (word_of w)) ws \<and>
    list_all (\<lambda>tok. is_terminated tok \<longleftrightarrow> tok_kind tok \<noteq> Unquoted) toks"
  using scan_line [OF assms] tk_items_eq [of "tokenizer_new (utf8 (write_line ws)) v"] text_bytes_utf8
  by (simp add: tokenizer_new_def)

section \<open>The properties of the tokenizer\<close>

text \<open>
  C36: The tokenizer comes to an end on every line, with or without validation, never slices inside a
  character or out of range, never fails its assertions, and hands out exactly the tokens that reading
  the line as a list gives.
\<close>

theorem tokenizer_scans:
  "tk_items (tokenizer_new (utf8 line) validate) = Some (scan validate (length (utf8 line)) (utf8 line))"
  using tk_items_eq [of "tokenizer_new (utf8 line) validate"] text_bytes_utf8 by (simp add: tokenizer_new_def)

text \<open>
  C37: A line of words that are written with escaped blanks, in single quotes, backticks or double quotes
  with the quotes in them doubled, or in the braces of an expansion with its own braces balanced, is read
  back as these words, with their kinds, whether or not the tokens are validated.
\<close>

theorem write_read_line:
  assumes "list_all writable ws"
  shows "\<exists>toks. tk_items (tokenizer_new (utf8 (write_line ws)) validate) = Some (map Inr toks) \<and>
    map tok_kind toks = map kind_of ws \<and> map tok_content toks = map (\<lambda>w. utf8 (word_of w)) ws \<and>
    list_all (\<lambda>tok. is_terminated tok \<longleftrightarrow> tok_kind tok \<noteq> Unquoted) toks"
  by (rule line_items [OF assms])

theorem write_read_line_witness:
  "\<exists>toks. tk_items (tokenizer_new (utf8 (write_line [Bare (lit ''open''), InQuotes Single (lit ''a b''), InBraces Shell (lit ''echo {x}'')])) True) =
    Some (map Inr toks) \<and> map tok_content toks = [lit ''open'', lit ''a b'', lit ''echo {x}'']"
proof -
  have "list_all writable [Bare (lit ''open''), InQuotes Single (lit ''a b''), InBraces Shell (lit ''echo {x}'')]"
    by (simp add: lit_def)
  from write_read_line [OF this, of True] obtain toks where
    "tk_items (tokenizer_new (utf8 (write_line [Bare (lit ''open''), InQuotes Single (lit ''a b''), InBraces Shell (lit ''echo {x}'')])) True) =
       Some (map Inr toks)"
    "map tok_content toks = map (\<lambda>w. utf8 (word_of w)) [Bare (lit ''open''), InQuotes Single (lit ''a b''), InBraces Shell (lit ''echo {x}'')]"
    by blast
  moreover have "utf8 (lit ''open'') = lit ''open''" "utf8 (lit ''a b'') = lit ''a b''" "utf8 (lit ''echo {x}'') = lit ''echo {x}''"
    by (simp_all add: utf8_def utf8_char_def lit_def)
  ultimately show ?thesis by (intro exI [of _ toks]) simp
qed

text \<open>The name written between a percent sign and the delimiter before position \<open>p\<close>, and the error that a
  token of the line is with validation.\<close>

definition percent_name :: "nat list \<Rightarrow> nat \<Rightarrow> nat list option" where
  "percent_name b p =
     (case dropWhile ascii_lowercase (rev (take (p - 1) b)) of
        x # _ \<Rightarrow> if x = percent then Some (rev (takeWhile ascii_lowercase (rev (take (p - 1) b)))) else None
      | [] \<Rightarrow> None)"

definition token_error :: "nat list \<Rightarrow> token \<Rightarrow> parse_args_error option" where
  "token_error b tok =
     (let closed = (if is_terminated tok then None else Some (UnterminatedToken tok))
      in case tok_kind tok of
           Unquoted \<Rightarrow> None
         | ExpansionKind \<Rightarrow> Some (MissingExpansionDelimiter (tok_content tok))
         | Expand \<Rightarrow> (case percent_name b (content_start tok) of Some name \<Rightarrow> Some (UnknownExpansion name) | None \<Rightarrow> closed)
         | _ \<Rightarrow> closed)"

definition named_by :: "nat list \<Rightarrow> token \<Rightarrow> bool" where
  "named_by b tok =
     (case tok_kind tok of
        Expansion k \<Rightarrow> percent_name b (content_start tok) = Some (as_str k)
      | Expand \<Rightarrow> (case percent_name b (content_start tok) of
          Some name \<Rightarrow> from_kind name = None
        | None \<Rightarrow> 0 < content_start tok \<and> b ! (content_start tok - 1) = 34)
      | _ \<Rightarrow> True)"

text \<open>Where a scan may stand: no double quote follows what could be the name of an expansion.\<close>

definition fresh_quote :: "nat list \<Rightarrow> nat list \<Rightarrow> bool" where
  "fresh_quote pre s \<longleftrightarrow> s = [] \<or> hd s \<noteq> 34 \<or> pre = [] \<or> \<not> (ascii_lowercase (last pre) \<or> last pre = percent)"

lemma from_kind_name: "from_kind name = Some k \<Longrightarrow> name = as_str k"
  by (auto simp: from_kind_def as_str_def split: if_splits)

lemma percent_name_here:
  assumes "list_all ascii_lowercase kind"
  shows "percent_name (pre @ percent # kind @ x # r) (length (pre @ percent # kind @ x # r) - length r) = Some kind"
proof -
  let ?b = "pre @ percent # kind @ x # r"
  have "take (length ?b - length r - 1) ?b = pre @ percent # kind" by simp
  moreover have "dropWhile ascii_lowercase (rev kind @ percent # rev pre) = percent # rev pre"
    using assms by (subst dropWhile_append2) (auto simp: list_all_iff ascii_lowercase_def)
  moreover have "takeWhile ascii_lowercase (rev kind @ percent # rev pre) = rev kind"
    using assms by (subst takeWhile_append2) (auto simp: list_all_iff ascii_lowercase_def)
  ultimately show ?thesis by (simp add: percent_name_def)
qed

lemma percent_name_quote:
  assumes "fresh_quote pre (bl @ 34 # r)" "\<forall>x\<in>set bl. blank x"
  shows "percent_name (pre @ bl @ 34 # r) (length (pre @ bl @ 34 # r) - length r) = None"
proof -
  let ?b = "pre @ bl @ 34 # r"
  have "take (length ?b - length r - 1) ?b = pre @ bl" by simp
  moreover have "pre @ bl = [] \<or> \<not> (ascii_lowercase (last (pre @ bl)) \<or> last (pre @ bl) = percent)"
  proof (cases "bl = []")
    case False
    then have "blank (last bl)" using assms(2) by simp
    then show ?thesis using False by (auto simp: ascii_lowercase_def)
  qed (use assms(1) in \<open>auto simp: fresh_quote_def\<close>)
  then have "rev (pre @ bl) = [] \<or> \<not> (ascii_lowercase (hd (rev (pre @ bl))) \<or> hd (rev (pre @ bl)) = percent)"
    by (simp only: hd_rev) auto
  ultimately show ?thesis unfolding percent_name_def by (cases "rev (pre @ bl)") auto
qed

text \<open>One token: what is read with validation is read without it.\<close>

definition checked_as :: "nat list \<Rightarrow> token \<Rightarrow> nat list \<Rightarrow> item \<times> nat list \<Rightarrow> bool" where
  "checked_as b tok r ir =
     (case token_error b tok of None \<Rightarrow> ir = (Inr tok, r) | Some e \<Rightarrow> fst ir = Inl e)"

lemma checked_closed:
  "token_error b tok = (if is_terminated tok then None else Some (UnterminatedToken tok)) \<Longrightarrow> checked_as b tok r (checked True tok, r)"
  by (simp add: checked_as_def checked_def)

lemma after_quotes:
  assumes "scan_quoted q s = (c, fin, r)" "\<not> (ascii_lowercase q \<or> q = percent)"
  shows "\<exists>u. s = u @ r \<and> (\<forall>pre. fresh_quote (pre @ u) r)"
  using scan_quoted_cut [OF assms(1)] assms(2) by (auto simp: fresh_quote_def)

lemma after_braces:
  assumes "scan_balanced opn cls 1 s = (c, fin, r)" "\<not> (ascii_lowercase cls \<or> cls = percent)"
  shows "\<exists>u. s = u @ r \<and> (\<forall>pre. fresh_quote (pre @ u) r)"
  using scan_balanced_shape [OF assms(1)] assms(2)
  by (cases fin) (auto simp: fresh_quote_def intro: exI [of _ "c @ [cls]"])

lemma scan_percent_validated:
  assumes "scan_percent False (length (pre @ percent # s)) s = (item, r)"
  shows "\<exists>tok. item = Inr tok \<and> named_by (pre @ percent # s) tok \<and>
    checked_as (pre @ percent # s) tok r (scan_percent True (length (pre @ percent # s)) s) \<and>
    (\<exists>u. s = u @ r \<and> fresh_quote (pre @ percent # u) r)"
proof -
  let ?b = "pre @ percent # s"
  define kind after where "kind = takeWhile ascii_lowercase s" and "after = dropWhile ascii_lowercase s"
  have s: "s = kind @ after" and low: "list_all ascii_lowercase kind"
    by (auto simp: kind_def after_def list_all_iff dest: set_takeWhileD)
  note def = assms [unfolded scan_percent_def Let_def, folded kind_def after_def]
  note defT = scan_percent_def [of True, unfolded Let_def, of "length ?b" s, folded kind_def after_def]
  show ?thesis
  proof (cases "after = [] \<or> delimiters (hd after) = None")
    case True
    have i: "item = Inr \<lparr>tok_kind = ExpansionKind, content_start = length ?b - length s, tok_content = kind, is_terminated = False\<rparr>" "r = after"
      "scan_percent True (length ?b) s = (Inl (MissingExpansionDelimiter kind), after)"
      using def defT True by (auto split: list.splits)
    have "fresh_quote (pre @ percent # kind) after" using True by (auto simp: fresh_quote_def delimiters_def)
    then show ?thesis using i s by (auto simp: named_by_def checked_as_def token_error_def)
  next
    case False
    then obtain x t a c where x: "after = x # t" "delimiters x = Some (a, c)" by (cases after) auto
    obtain w fin r' where w: "(if a = c then scan_quoted a t else scan_balanced a c 1 t) = (w, fin, r')"
      by (cases "if a = c then scan_quoted a t else scan_balanced a c 1 t")
    define tok where "tok = \<lparr>tok_kind = (case from_kind kind of Some k \<Rightarrow> Expansion k | None \<Rightarrow> Expand),
      content_start = length ?b - length t, tok_content = w, is_terminated = fin\<rparr>"
    have i: "item = Inr tok" "r = r'" using def x w by (simp_all add: checked_def tok_def)
    have T: "scan_percent True (length ?b) s =
        (if from_kind kind = None then (Inl (UnknownExpansion kind), after) else (checked True tok, r))"
      using defT x w i(2) by (auto simp: tok_def)
    have name: "percent_name ?b (content_start tok) = Some kind"
      using percent_name_here [OF low, of pre x t] by (simp add: s x(1) tok_def)
    have "checked_as ?b tok r (scan_percent True (length ?b) s)"
    proof (cases "from_kind kind")
      case None
      then show ?thesis unfolding T using name by (simp add: checked_as_def token_error_def tok_def)
    next
      case (Some k)
      then show ?thesis unfolding T by (simp add: checked_closed token_error_def tok_def)
    qed
    moreover have "named_by ?b tok"
      using name from_kind_name by (cases "from_kind kind") (auto simp: named_by_def tok_def)
    moreover have "\<not> (ascii_lowercase a \<or> a = percent)" "\<not> (ascii_lowercase c \<or> c = percent)"
      using x(2) by (auto simp: delimiters_def ascii_lowercase_def split: if_splits)
    then obtain u where u: "t = u @ r'" "\<And>pre. fresh_quote (pre @ u) r'"
      using w after_quotes [of a t w fin r'] after_braces [of a c t w fin r'] by (auto split: if_splits)
    have "s = (kind @ x # u) @ r \<and> fresh_quote (pre @ percent # kind @ x # u) r"
      using s x(1) i(2) u(1) u(2) [of "pre @ percent # kind @ [x]"] by simp
    ultimately show ?thesis using i(1) by blast
  qed
qed

lemma scan_next_validated:
  assumes "scan_next False (length (pre @ s)) s = Some (item, r)" "fresh_quote pre s"
  shows "\<exists>tok ir. item = Inr tok \<and> named_by (pre @ s) tok \<and> scan_next True (length (pre @ s)) s = Some ir \<and> checked_as (pre @ s) tok r ir \<and>
    (\<exists>u. s = u @ r \<and> fresh_quote (pre @ u) r)"
proof -
  obtain x t where d: "dropWhile (\<lambda>x. blank x) s = x # t" using assms by (cases "dropWhile (\<lambda>x. blank x) s") (auto simp: scan_next_def)
  define bl where "bl = takeWhile (\<lambda>x. blank x) s"
  have s: "s = bl @ x # t" using takeWhile_dropWhile_id [of "\<lambda>x. blank x" s] d by (simp add: bl_def)
  have bl: "\<forall>x\<in>set bl. blank x" by (auto simp: bl_def dest: set_takeWhileD)
  note def = assms(1) [unfolded scan_next_def d list.case Let_def]
  have T: "scan_next True (length (pre @ s)) s = Some ir" if "scan_next True (length (pre @ s)) s = Some ir" for ir using that .
  consider (q) "x = 34 \<or> x = 39 \<or> x = 96" | (p) "x = percent" | (u) "\<not> (x = 34 \<or> x = 39 \<or> x = 96)" "x \<noteq> percent" by blast
  then show ?thesis
  proof cases
    case q
    obtain c fin r' where c: "scan_quoted x t = (c, fin, r')" by (cases "scan_quoted x t")
    define tok where "tok = \<lparr>tok_kind = (if x = 34 then Expand else if x = 39 then Quoted Single else Quoted Backtick),
      content_start = length (pre @ s) - length t, tok_content = c, is_terminated = fin\<rparr>"
    have i: "item = Inr tok" "r = r'" using def q c by (auto simp: checked_def tok_def)
    have n: "percent_name (pre @ s) (content_start tok) = None" if "x = 34"
      using percent_name_quote [of pre bl t] assms(2) bl s that by (simp add: tok_def)
    have "scan_next True (length (pre @ s)) s = Some (checked True tok, r)"
      unfolding scan_next_def d using q c i(2) by (auto simp: tok_def)
    moreover have "checked_as (pre @ s) tok r (checked True tok, r)"
      by (rule checked_closed) (use n in \<open>simp add: token_error_def tok_def\<close>)
    moreover have "named_by (pre @ s) tok" using n s by (auto simp: named_by_def tok_def nth_append)
    moreover obtain u where u: "t = u @ r'" "\<And>pre. fresh_quote (pre @ u) r'"
      using after_quotes [OF c] q by (auto simp: ascii_lowercase_def)
    have "s = (bl @ x # u) @ r \<and> fresh_quote (pre @ bl @ x # u) r"
      using s u(1) i(2) u(2) [of "pre @ bl @ [x]"] by simp
    ultimately show ?thesis using i(1) by blast
  next
    case p
    have e: "pre @ s = (pre @ bl) @ percent # t" using s p by simp
    have "scan_percent False (length (pre @ s)) t = (item, r)" using def p by simp
    from scan_percent_validated [OF this [unfolded e]] obtain tok u where
      u: "item = Inr tok" "named_by (pre @ s) tok" "checked_as (pre @ s) tok r (scan_percent True (length (pre @ s)) t)"
        "t = u @ r" "fresh_quote ((pre @ bl) @ percent # u) r" unfolding e by blast
    have "scan_next True (length (pre @ s)) s = Some (scan_percent True (length (pre @ s)) t)"
      unfolding scan_next_def d using p by simp
    moreover have "s = (bl @ percent # u) @ r \<and> fresh_quote (pre @ bl @ percent # u) r" using u(4,5) s p by simp
    ultimately show ?thesis using u(1-3) by blast
  next
    case u
    have same: "scan_next True (length (pre @ s)) s = scan_next False (length (pre @ s)) s" unfolding scan_next_def d using u by simp
    obtain c where c: "item = Inr \<lparr>tok_kind = Unquoted, content_start = length (pre @ s) - length t - 1, tok_content = c, is_terminated = False\<rparr>"
      "scan_unquoted (if x = backslash \<and> t \<noteq> [] \<and> hd t \<in> {34, 39, 96, 37} then t else x # t) = (c, r)"
      using def u by (auto split: prod.splits)
    obtain w where "s = w @ r" using scan_next_cut [OF assms(1)] by (auto simp: cut_def)
    moreover have "fresh_quote (pre @ w) r" using scan_unquoted_cut [OF c(2)] by (auto simp: fresh_quote_def)
    ultimately show ?thesis using same assms(1) c(1) by (auto simp: checked_as_def token_error_def named_by_def)
  qed
qed

lemma scan_validated:
  "fresh_quote pre s \<Longrightarrow>
   \<exists>toks. scan False (length (pre @ s)) s = map Inr toks \<and> list_all (named_by (pre @ s)) toks \<and>
     (case dropWhile (\<lambda>tok. token_error (pre @ s) tok = None) toks of
        [] \<Rightarrow> scan True (length (pre @ s)) s = map Inr toks
      | tok # _ \<Rightarrow> \<exists>rest. scan True (length (pre @ s)) s =
          map Inr (takeWhile (\<lambda>tok. token_error (pre @ s) tok = None) toks) @ Inl (the (token_error (pre @ s) tok)) # rest)"
proof (induction "length s" arbitrary: pre s rule: less_induct)
  case less
  let ?b = "pre @ s"
  show ?case
  proof (cases "scan_next False (length ?b) s")
    case None
    then have "dropWhile (\<lambda>x. blank x) s = []"
      by (cases "dropWhile (\<lambda>x. blank x) s") (simp_all add: scan_next_def Let_def case_prod_beta split: if_splits)
    then have "scan_next True (length ?b) s = None" unfolding scan_next_def by (simp only: list.case)
    then have "scan False (length ?b) s = []" "scan True (length ?b) s = []" 
      using None by (subst scan.simps, simp)+
    then show ?thesis by (intro exI [of _ "[]"]) simp
  next
    case (Some ir)
    obtain item r where ir: "ir = (item, r)" by (cases ir)
    obtain tok irT u where one: "item = Inr tok" "named_by ?b tok" "scan_next True (length ?b) s = Some irT" "checked_as ?b tok r irT"
      "s = u @ r" "fresh_quote (pre @ u) r" using scan_next_validated [OF Some [unfolded ir] less.prems] by blast
    have shorter: "length r < length s" using scan_next_shorter Some ir by blast
    have b: "(pre @ u) @ r = ?b" using one(5) by simp
    from less.hyps [OF shorter one(6), unfolded b] obtain toks where
      IH: "scan False (length ?b) r = map Inr toks" "list_all (named_by ?b) toks"
        "case dropWhile (\<lambda>tok. token_error ?b tok = None) toks of
           [] \<Rightarrow> scan True (length ?b) r = map Inr toks
         | tok # _ \<Rightarrow> \<exists>rest. scan True (length ?b) r =
             map Inr (takeWhile (\<lambda>tok. token_error ?b tok = None) toks) @ Inl (the (token_error ?b tok)) # rest" by blast
    have F: "scan False (length ?b) s = map Inr (tok # toks)" using Some ir one(1) IH(1) by (subst scan.simps) simp
    have T: "scan True (length ?b) s = fst irT # scan True (length ?b) (snd irT)" using one(3) by (subst scan.simps) (simp split: prod.splits)
    show ?thesis
    proof (cases "token_error ?b tok")
      case None
      then have "irT = (Inr tok, r)" using one(4) by (simp add: checked_as_def)
      then show ?thesis using F T None IH(2,3) one(2)
        by (intro exI [of _ "tok # toks"]) (auto split: list.splits simp del: dropWhile_eq_Nil_conv)
    next
      case (Some e)
      then show ?thesis using F T one(2,4) IH(2) by (intro exI [of _ "tok # toks"]) (simp add: checked_as_def)
    qed
  qed
qed

text \<open>
  C38: Validation.  Without it there are no errors; an expansion has the kind its name says, and text to be
  expanded stands in double quotes or after a percent sign with an unknown name.  With it the same tokens come
  up to the first that is in error, and then its error: a name that is unknown, a delimiter that is missing,
  or an end that is missing; all tokens but unquoted ones are then closed.
\<close>

theorem validated_tokens:
  "\<exists>toks. tk_items (tokenizer_new (utf8 line) False) = Some (map Inr toks) \<and> list_all (named_by (utf8 line)) toks \<and>
     (case dropWhile (\<lambda>tok. token_error (utf8 line) tok = None) toks of
        [] \<Rightarrow> tk_items (tokenizer_new (utf8 line) True) = Some (map Inr toks)
      | tok # _ \<Rightarrow> \<exists>rest. tk_items (tokenizer_new (utf8 line) True) =
          Some (map Inr (takeWhile (\<lambda>tok. token_error (utf8 line) tok = None) toks) @ Inl (the (token_error (utf8 line) tok)) # rest))"
proof -
  have items: "tk_items (tokenizer_new (utf8 line) v) = Some (scan v (length (utf8 line)) (utf8 line))" for v
    using tk_items_eq [of "tokenizer_new (utf8 line) v"] text_bytes_utf8 by (simp add: tokenizer_new_def)
  have "fresh_quote [] (utf8 line)" by (simp add: fresh_quote_def)
  from scan_validated [OF this] show ?thesis unfolding items append_Nil option.inject .
qed

section \<open>Arguments\<close>

definition at_boundary :: "tokenizer \<Rightarrow> bool" where
  "at_boundary t \<longleftrightarrow> text_bytes (tk_input t) \<and> tk_pos t \<le> length (tk_input t) \<and> is_char_boundary (tk_input t) (tk_pos t)"

lemma at_boundary_new [simp]: "at_boundary (tokenizer_new (utf8 line) v)"
  by (simp add: at_boundary_def tokenizer_new_def text_bytes_utf8)

lemma tk_next_step:
  assumes "at_boundary t"
  obtains p item where "tk_next t = Some (item, go_to p t)" "at_boundary (go_to p t)" "item \<noteq> None \<Longrightarrow> tk_pos t < p"
proof -
  let ?b = "tk_input t"
  note A = assms [unfolded at_boundary_def]
  note N = tk_next_eq [OF conjunct1 [OF A] conjunct1 [OF conjunct2 [OF A]] conjunct2 [OF conjunct2 [OF A]]]
  show thesis
  proof (cases "scan_next (tk_validate t) (length ?b) (drop (tk_pos t) ?b)")
    case None
    then show thesis using N A that [of None "length ?b"] by (simp add: at_boundary_def)
  next
    case (Some ir)
    obtain item r where ir: "ir = (item, r)" by (cases ir)
    note C = cut_position [OF conjunct1 [OF A] scan_next_cut [OF Some [unfolded ir]] conjunct1 [OF conjunct2 [OF A]]]
    show thesis using N A C Some ir that [of "Some item" "length ?b - length r"] by (simp add: at_boundary_def)
  qed
qed

lemma tk_rest_step:
  assumes "at_boundary t"
  shows "\<exists>tok. tk_rest t = Some (tok, go_to (length (tk_input t)) t) \<and>
    (tok \<noteq> None \<longrightarrow> tk_pos t < length (tk_input t))"
proof -
  let ?b = "tk_input t"
  obtain p where p: "skip_blanks t = go_to p t" "tk_pos t \<le> p" "p \<le> length ?b" "is_char_boundary ?b p"
    using skip_blanks_eq [of t] assms by (auto simp: at_boundary_def)
  show ?thesis
  proof (cases "p = length ?b")
    case False
    then show ?thesis using p str_slice_rest [of p ?b] by (simp add: tk_rest_def Let_def)
  qed (use p in \<open>simp add: tk_rest_def\<close>)
qed

lemma read_token_step:
  assumes "at_boundary t"
  obtains r a' p where "read_token a t = Some (r, a', go_to p t)" "at_boundary (go_to p t)"
    "\<And>tok. r = Inr (Some tok) \<Longrightarrow> tk_pos t < p"
    "ar_signature a' = ar_signature a" "ar_validate a' = ar_validate a" "ar_positionals a' = ar_positionals a" "ar_flags a' = ar_flags a" "ar_state a' = ar_state a"
    "\<And>m. sg_raw_after (ar_signature a) = Some m \<Longrightarrow> m \<le> args_len a \<Longrightarrow> p = length (tk_input t) \<and> (tk_pos t = p \<longrightarrow> r = Inr None)"
proof (cases "case sg_raw_after (ar_signature a) of Some m \<Rightarrow> m \<le> args_len a | None \<Rightarrow> False")
  case True
  obtain tok where tok: "tk_rest t = Some (tok, go_to (length (tk_input t)) t)" "tok \<noteq> None \<longrightarrow> tk_pos t < length (tk_input t)"
    using tk_rest_step [OF assms] by blast
  show thesis
    using that [of "Inr tok" "a\<lparr>ar_only_positionals := True\<rparr>" "length (tk_input t)"] True tok assms
    by (auto simp: read_token_def at_boundary_def split: option.splits)
next
  case False
  obtain p item where p: "tk_next t = Some (item, go_to p t)" "at_boundary (go_to p t)" "item \<noteq> None \<Longrightarrow> tk_pos t < p"
    using tk_next_step [OF assms] by blast
  show thesis
    using that [of "case item of None \<Rightarrow> Inr None | Some (Inl e) \<Rightarrow> Inl e | Some (Inr tok) \<Rightarrow> Inr (Some tok)" a p] False p
    by (cases item) (auto simp: read_token_def split: sum.splits option.splits)
qed

text \<open>What pushing an argument does to the lists: a flag of the signature, one more positional, or an error.\<close>

lemma find_flag_mem: "find_flag sg arg = Some f \<Longrightarrow> f \<in> set (sg_flags sg)"
  by (auto simp: find_flag_def find_Some_iff split: if_splits)

definition args_inv :: "args \<Rightarrow> bool" where
  "args_inv a \<longleftrightarrow>
     dom (ar_flags a) \<subseteq> fl_name ` set (sg_flags (ar_signature a)) \<and>
     (\<forall>f. ar_state a = CFlag (Some f) \<longrightarrow> f \<in> set (sg_flags (ar_signature a)))"

lemma args_push_keeps:
  assumes "args_push arg a = Inr a'" "args_inv a"
  shows "args_inv a'" "ar_signature a' = ar_signature a" "ar_validate a' = ar_validate a"
    "ar_positionals a' = ar_positionals a \<or> ar_positionals a' = ar_positionals a @ [arg]"
proof -
  have "f \<in> set (sg_flags (ar_signature a))" if "flag_awaiting_argument a = Some f" for f
    using that assms(2) by (auto simp: flag_awaiting_argument_def args_inv_def split: completion_state.splits option.splits if_splits)
  then show "args_inv a'" "ar_signature a' = ar_signature a" "ar_validate a' = ar_validate a"
    "ar_positionals a' = ar_positionals a \<or> ar_positionals a' = ar_positionals a @ [arg]"
    using assms find_flag_mem by (fastforce simp: args_push_def args_inv_def split: if_splits option.splits)+
qed

text \<open>The loop ends, and keeps the invariant and the bound that \<open>raw_after\<close> sets.\<close>

definition raw_bound :: "args \<Rightarrow> tokenizer \<Rightarrow> bool" where
  "raw_bound a t \<longleftrightarrow> (\<forall>m. sg_raw_after (ar_signature a) = Some m \<longrightarrow>
     args_len a \<le> m \<or> args_len a = m + 1 \<and> tk_pos t = length (tk_input t))"

lemma parse_args_loop_ok:
  assumes "at_boundary t" "args_inv a" "raw_bound a t"
  shows "\<exists>r. parse_args_loop f a t s = Some r \<and>
    (\<forall>a'. r = Inr a' \<longrightarrow> args_inv a' \<and> ar_signature a' = ar_signature a \<and> ar_validate a' = ar_validate a \<and>
       (\<forall>m. sg_raw_after (ar_signature a) = Some m \<longrightarrow> args_len a' \<le> m + 1))"
  using assms
proof (induction "length (tk_input t) - tk_pos t" arbitrary: a t s rule: less_induct)
  case less
  obtain r a1 p where R: "read_token a t = Some (r, a1, go_to p t)" "at_boundary (go_to p t)"
    "\<And>tok. r = Inr (Some tok) \<Longrightarrow> tk_pos t < p"
    "ar_signature a1 = ar_signature a" "ar_validate a1 = ar_validate a" "ar_positionals a1 = ar_positionals a" "ar_flags a1 = ar_flags a" "ar_state a1 = ar_state a"
    "\<And>m. sg_raw_after (ar_signature a) = Some m \<Longrightarrow> m \<le> args_len a \<Longrightarrow> p = length (tk_input t) \<and> (tk_pos t = p \<longrightarrow> r = Inr None)"
    by (rule read_token_step [OF less.prems(1), of a]) blast
  have inv1: "args_inv a1" using less.prems(2) R(4,7,8) by (simp add: args_inv_def)
  have len1: "args_len a1 \<le> m + 1" if "sg_raw_after (ar_signature a) = Some m" for m
    using less.prems(3) that R(6) by (auto simp: raw_bound_def args_len_def)
  show ?case
  proof (cases "\<exists>tok arg a2. r = Inr (Some tok) \<and> fst (f tok s) = Inr arg \<and> args_push arg a1 = Inr a2")
    case False
    then have "(\<exists>e. parse_args_loop f a t s = Some (Inl e)) \<or> parse_args_loop f a t s = Some (Inr a1)"
      using R(1) by (subst (1 2) parse_args_loop.simps) (auto split: sum.splits option.splits)
    then show ?thesis using inv1 R(4,5) len1 by auto
  next
    case True
    then obtain tok arg a2 where T: "r = Inr (Some tok)" "fst (f tok s) = Inr arg" "args_push arg a1 = Inr a2" by blast
    note P = args_push_keeps [OF T(3) inv1]
    have "raw_bound a2 (go_to p t)"
      unfolding raw_bound_def
    proof (intro allI impI)
      fix m assume "sg_raw_after (ar_signature a2) = Some m"
      then have m: "sg_raw_after (ar_signature a) = Some m" using P(2) R(4) by simp
      have "args_len a \<le> m" using less.prems(3) m R(9) [OF m] T(1) by (auto simp: raw_bound_def)
      moreover have "args_len a2 \<le> args_len a + 1" using P(4) R(6) by (auto simp: args_len_def)
      ultimately show "args_len a2 \<le> m \<or> args_len a2 = m + 1 \<and> tk_pos (go_to p t) = length (tk_input (go_to p t))"
        using R(9) [OF m] by (cases "m \<le> args_len a") auto
    qed
    moreover have "parse_args_loop f a t s = parse_args_loop f a2 (go_to p t) (snd (f tok s))"
      using R(1) T by (subst parse_args_loop.simps) simp
    moreover have "length (tk_input (go_to p t)) - tk_pos (go_to p t) < length (tk_input t) - tk_pos t"
      using R(2) R(3) [OF T(1)] unfolding at_boundary_def by auto
    ultimately show ?thesis
      using less.hyps [of "go_to p t" a2 "snd (f tok s)"] R(2,4,5) P by simp
  qed
qed

text \<open>
  Parsing the arguments of a command ends on every line, with every signature and every expansion of
  the tokens, without a panic.  Validated arguments number between the bounds of the signature, the flags
  given are flags of the signature, and where the rest of the line is read raw there is at most one
  argument after the position from which on it is.
\<close>

theorem args_parse_bounds:
  fixes try_map :: "token \<Rightarrow> 's \<Rightarrow> ('e + nat list) \<times> 's"
  shows "\<exists>r. args_parse try_map (utf8 line) sg validate s = Some r \<and>
    (\<forall>a. r = Inr a \<longrightarrow>
       dom (ar_flags a) \<subseteq> fl_name ` set (sg_flags sg) \<and>
       (\<forall>m. sg_raw_after sg = Some m \<longrightarrow> args_len a \<le> m + 1) \<and>
       (validate \<longrightarrow> fst (sg_positionals sg) \<le> args_len a \<and> (\<forall>m. snd (sg_positionals sg) = Some m \<longrightarrow> args_len a \<le> m)))"
proof -
  let ?a = "args_new sg validate" and ?t = "tokenizer_new (utf8 line) validate"
  have inv: "args_inv ?a" "raw_bound ?a ?t" "ar_signature ?a = sg" "ar_validate ?a = validate"
    by (simp_all add: args_inv_def raw_bound_def args_new_def args_len_def)
  obtain r where r: "parse_args_loop try_map ?a ?t s = Some r"
    "\<And>a. r = Inr a \<Longrightarrow> args_inv a \<and> ar_signature a = sg \<and> ar_validate a = validate \<and>
       (\<forall>m. sg_raw_after sg = Some m \<longrightarrow> args_len a \<le> m + 1)"
    using parse_args_loop_ok [OF at_boundary_new inv(1,2), of try_map s] inv(3,4) by auto
  let ?r = "case r of Inl e \<Rightarrow> Inl e | Inr a \<Rightarrow> (case args_finish a of Some e \<Rightarrow> Inl (Inl e) | None \<Rightarrow> Inr a)"
  have "args_parse try_map (utf8 line) sg validate s = Some ?r" using r(1) by (simp add: args_parse_def)
  moreover have "dom (ar_flags a) \<subseteq> fl_name ` set (sg_flags sg) \<and> (\<forall>m. sg_raw_after sg = Some m \<longrightarrow> args_len a \<le> m + 1) \<and>
      (validate \<longrightarrow> fst (sg_positionals sg) \<le> args_len a \<and> (\<forall>m. snd (sg_positionals sg) = Some m \<longrightarrow> args_len a \<le> m))"
    if "?r = Inr a" for a
  proof -
    have ra: "r = Inr a" and fin: "args_finish a = None" using that by (auto split: sum.splits option.splits)
    note R = r(2) [OF ra]
    have "fst (sg_positionals sg) \<le> args_len a \<and> (\<forall>m. snd (sg_positionals sg) = Some m \<longrightarrow> args_len a \<le> m)" if "validate"
      using fin R that
      by (cases "sg_positionals sg") (auto simp: args_finish_def check_positional_count_def args_len_def split: option.splits if_splits)
    then show ?thesis using R by (auto simp: args_inv_def)
  qed
  ultimately show ?thesis by blast
qed

definition write_signature :: signature where
  "write_signature = \<lparr>sg_positionals = (0, Some 1), sg_raw_after = None, sg_flags = []\<rparr>"

theorem args_parse_bounds_witness:
  "\<exists>r. args_parse (\<lambda>tok s. (Inr (tok_content tok) :: nat + nat list, s)) (utf8 (lit ''a b'')) write_signature True () = Some r \<and>
    (\<forall>a. r = Inr a \<longrightarrow> args_len a \<le> 1)"
  using args_parse_bounds [of "\<lambda>tok s. (Inr (tok_content tok) :: nat + nat list, s)" "lit ''a b''" write_signature True "()"]
  by (auto simp: write_signature_def)

text \<open>Without \<open>raw_after\<close> the loop goes over the tokens of the line.\<close>

fun push_items :: "(token \<Rightarrow> 's \<Rightarrow> ('e + nat list) \<times> 's) \<Rightarrow> item list \<Rightarrow> args \<Rightarrow> 's \<Rightarrow> (parse_args_error + 'e) + args" where
  "push_items f [] a s = Inr a"
| "push_items f (Inl e # items) a s = Inl (Inl e)"
| "push_items f (Inr tok # items) a s =
     (case fst (f tok s) of
        Inl e \<Rightarrow> Inl (Inr e)
      | Inr arg \<Rightarrow>
          (case args_push arg a of
             Inl e \<Rightarrow> Inl (Inl e)
           | Inr a \<Rightarrow> push_items f items a (snd (f tok s))))"

lemma args_push_signature: "args_push arg a = Inr a' \<Longrightarrow> ar_signature a' = ar_signature a"
  by (auto simp: args_push_def split: if_splits option.splits)

lemma parse_args_loop_items:
  assumes "at_boundary t" "sg_raw_after (ar_signature a) = None" "tk_items t = Some items"
  shows "parse_args_loop f a t s = Some (push_items f items a s)"
  using assms
proof (induction items arbitrary: a t s)
  case Nil
  obtain p item where p: "tk_next t = Some (item, go_to p t)" by (rule tk_next_step [OF Nil(1)])
  have "item = None" using Nil(3) p by (subst (asm) tk_items.simps) (auto split: option.splits bind_splits)
  then show ?case using p Nil(2) by (subst parse_args_loop.simps) (simp add: read_token_def)
next
  case (Cons i items)
  obtain p item where p: "tk_next t = Some (item, go_to p t)" "at_boundary (go_to p t)" by (rule tk_next_step [OF Cons.prems(1)])
  have i: "item = Some i" "tk_items (go_to p t) = Some items"
    using Cons.prems(3) p(1) by (subst (asm) tk_items.simps, auto split: option.splits bind_splits)+
  have step: "read_token a t = Some (case i of Inl e \<Rightarrow> Inl e | Inr tok \<Rightarrow> Inr (Some tok), a, go_to p t)"
    using p(1) i(1) Cons.prems(2) by (simp add: read_token_def)
  show ?case
  proof (cases i)
    case (Inl e)
    then show ?thesis using step by (subst parse_args_loop.simps) simp
  next
    case (Inr tok)
    show ?thesis
    proof (cases "\<exists>arg a'. fst (f tok s) = Inr arg \<and> args_push arg a = Inr a'")
      case True
      then obtain arg a' where "fst (f tok s) = Inr arg" "args_push arg a = Inr a'" by blast
      then show ?thesis
        using step Inr Cons.IH [OF p(2) _ i(2), of a'] Cons.prems(2) args_push_signature [of arg a a']
        by (subst parse_args_loop.simps) simp
    next
      case False
      then show ?thesis using step Inr by (subst parse_args_loop.simps) (auto split: sum.splits)
    qed
  qed
qed

text \<open>Words that are no flags become the positional arguments.\<close>

lemma push_positionals:
  fixes s :: 's
  assumes "flag_awaiting_argument a = None" "ar_only_positionals a \<or> (\<forall>x\<in>set xs. \<not> has_prefix (lit ''-'') x)"
    "map tok_content toks = xs"
  shows "\<exists>a'. push_items (\<lambda>tok s. (Inr (tok_content tok) :: 'e + nat list, s)) (map Inr toks @ items) a s =
      push_items (\<lambda>tok s. (Inr (tok_content tok) :: 'e + nat list, s)) items a' s \<and>
    ar_positionals a' = ar_positionals a @ xs \<and> ar_flags a' = ar_flags a \<and> flag_awaiting_argument a' = None \<and>
    ar_signature a' = ar_signature a \<and> ar_validate a' = ar_validate a \<and> ar_only_positionals a' = ar_only_positionals a"
  using assms
proof (induction toks arbitrary: a xs)
  case (Cons tok toks)
  define x where "x = tok_content tok"
  have x: "ar_only_positionals a \<or> \<not> has_prefix (lit ''-'') x" "x \<noteq> lit ''--'' \<or> ar_only_positionals a"
    using Cons.prems(2,3) by (auto simp: x_def has_prefix_def lit_def)
  let ?a = "a\<lparr>ar_positionals := ar_positionals a @ [x], ar_state := CPositional\<rparr>"
  have push: "args_push x a = Inr ?a" using x Cons.prems(1) by (auto simp: args_push_def)
  have "flag_awaiting_argument ?a = None" by (simp add: flag_awaiting_argument_def)
  moreover have "ar_only_positionals ?a \<or> (\<forall>x\<in>set (map tok_content toks). \<not> has_prefix (lit ''-'') x)"
    using Cons.prems(2,3) by auto
  ultimately obtain a' where "push_items (\<lambda>tok s. (Inr (tok_content tok) :: 'e + nat list, s)) (map Inr toks @ items) ?a s =
      push_items (\<lambda>tok s. (Inr (tok_content tok) :: 'e + nat list, s)) items a' s"
    "ar_positionals a' = ar_positionals ?a @ map tok_content toks" "ar_flags a' = ar_flags ?a" "flag_awaiting_argument a' = None"
    "ar_signature a' = ar_signature ?a" "ar_validate a' = ar_validate ?a" "ar_only_positionals a' = ar_only_positionals ?a"
    using Cons.IH [OF _ _ refl, of ?a] by blast
  then show ?case using Cons.prems(3) push by (intro exI [of _ a']) (simp add: x_def [symmetric])
qed auto

text \<open>
  A line of written words, the first ones not starting with a minus and then, after the word \<open>--\<close>,
  any others, gives a command exactly these words as its arguments and no flags, when their number is
  within the bounds of the signature; otherwise it gives the error with the bounds and the number.
\<close>

theorem written_words_are_arguments:
  assumes "list_all writable ws" "list_all writable us" "\<forall>w\<in>set ws. \<not> has_prefix (lit ''-'') (utf8 (word_of w))"
    and "sg_raw_after sg = None"
  shows "\<exists>a. args_parse (\<lambda>tok s. (Inr (tok_content tok) :: 'e + nat list, s)) (utf8 (write_line (ws @ Bare (lit ''--'') # us))) sg True s =
      Some (case check_positional_count sg (length ws + length us) of Some e \<Rightarrow> Inl (Inl e) | None \<Rightarrow> Inr a) \<and>
    ar_positionals a = map (\<lambda>w. utf8 (word_of w)) (ws @ us) \<and> ar_flags a = Map.empty"
proof -
  let ?f = "\<lambda>tok s. (Inr (tok_content tok) :: 'e + nat list, s)"
  let ?line = "write_line (ws @ Bare (lit ''--'') # us)" and ?a = "args_new sg True"
  have "list_all writable (ws @ Bare (lit ''--'') # us)" using assms(1,2) by (simp add: lit_def)
  from line_items [OF this] obtain toks where toks: "tk_items (tokenizer_new (utf8 ?line) True) = Some (map Inr toks)"
    "map tok_content toks = map (\<lambda>w. utf8 (word_of w)) (ws @ Bare (lit ''--'') # us)" by blast
  obtain t1 tm t2 where t: "toks = t1 @ tm # t2" "map tok_content t1 = map (\<lambda>w. utf8 (word_of w)) ws"
    "tok_content tm = utf8 (lit ''--'')" "map tok_content t2 = map (\<lambda>w. utf8 (word_of w)) us"
    using toks(2) by (auto simp: map_eq_append_conv map_eq_Cons_conv)
  have mm: "utf8 (lit ''--'') = lit ''--''" by (simp add: utf8_def utf8_char_def lit_def)
  have init: "flag_awaiting_argument ?a = None" "\<not> ar_only_positionals ?a" "ar_positionals ?a = []" "ar_flags ?a = Map.empty"
    "ar_signature ?a = sg" "ar_validate ?a" by (simp_all add: args_new_def flag_awaiting_argument_def)
  obtain a1 where a1: "push_items ?f (map Inr t1 @ Inr tm # map Inr t2) ?a s = push_items ?f (Inr tm # map Inr t2) a1 s"
    "ar_positionals a1 = map (\<lambda>w. utf8 (word_of w)) ws" "ar_flags a1 = Map.empty" "ar_signature a1 = sg" "ar_validate a1"
    "\<not> ar_only_positionals a1"
    using push_positionals [OF init(1) _ t(2), where items = "Inr tm # map Inr t2" and s = s] assms(3) init(2-6) by auto
  let ?a2 = "a1\<lparr>ar_only_positionals := True, ar_state := CFlag None\<rparr>"
  have s2: "push_items ?f (Inr tm # map Inr t2) a1 s = push_items ?f (map Inr t2) ?a2 s"
    using t(3) mm a1(6) by (simp add: args_push_def)
  obtain a3 where a3: "push_items ?f (map Inr t2 @ []) ?a2 s = push_items ?f [] a3 s"
    "ar_positionals a3 = ar_positionals ?a2 @ map (\<lambda>w. utf8 (word_of w)) us" "ar_flags a3 = Map.empty" "flag_awaiting_argument a3 = None"
    "ar_signature a3 = sg" "ar_validate a3"
    using push_positionals [of ?a2 "map (\<lambda>w. utf8 (word_of w)) us" t2 "[]" s] t(4) a1(3-5)
    by (auto simp: flag_awaiting_argument_def)
  have "parse_args_loop ?f ?a (tokenizer_new (utf8 ?line) True) s = Some (Inr a3)"
    using parse_args_loop_items [OF at_boundary_new _ toks(1), of ?a ?f s] assms(4) init(5) t(1) a1(1) s2 a3(1) by simp
  moreover have "args_finish a3 = check_positional_count sg (length ws + length us)"
    using a1(2) a3(2,4-6) by (simp add: args_finish_def)
  ultimately show ?thesis using a1(2) a3(2,3)
    by (intro exI [of _ a3]) (simp add: args_parse_def split: option.splits)
qed

theorem written_words_are_arguments_witness:
  "\<exists>a. args_parse (\<lambda>tok s. (Inr (tok_content tok) :: nat + nat list, s))
      (utf8 (write_line ([Bare (lit ''a'')] @ Bare (lit ''--'') # [Bare (lit ''-b'')]))) signature_default True () = Some (Inr a) \<and>
    ar_positionals a = [lit ''a'', lit ''-b'']"
proof -
  have "list_all writable [Bare (lit ''a'')]" "list_all writable [Bare (lit ''-b'')]"
    "\<forall>w\<in>set [Bare (lit ''a'')]. \<not> has_prefix (lit ''-'') (utf8 (word_of w))" "sg_raw_after signature_default = None"
    by (simp_all add: lit_def utf8_def utf8_char_def has_prefix_def signature_default_def)
  from written_words_are_arguments [OF this, where s = "()" and 'e = nat] show ?thesis
    by (auto simp: check_positional_count_def signature_default_def lit_def utf8_def utf8_char_def)
qed

text \<open>The word \<open>--\<close> after a flag that wants an argument ends the flags and the argument is not missed.\<close>

definition encoding_flag :: flag where
  "encoding_flag = \<lparr>fl_name = lit ''bar'', fl_alias = None, fl_doc = [], fl_completions = Some []\<rparr>"

lemma lost_flag_argument:
  "\<exists>a. args_parse (\<lambda>tok s. (Inr (tok_content tok) :: nat + nat list, s)) (utf8 (write_line [Bare (lit ''--bar''), Bare (lit ''--'')]))
     (signature_default\<lparr>sg_flags := [encoding_flag]\<rparr>) True () = Some (Inr a) \<and> get_flag (lit ''bar'') a = Some (Some [])"
proof -
  let ?sg = "signature_default\<lparr>sg_flags := [encoding_flag]\<rparr>" and ?f = "\<lambda>tok s. (Inr (tok_content tok) :: nat + nat list, s)"
  let ?line = "write_line [Bare (lit ''--bar''), Bare (lit ''--'')]"
  have "list_all writable [Bare (lit ''--bar''), Bare (lit ''--'')]" by (simp add: lit_def)
  from line_items [OF this] obtain toks where toks: "tk_items (tokenizer_new (utf8 ?line) True) = Some (map Inr toks)"
    "map tok_content toks = map (\<lambda>w. utf8 (word_of w)) [Bare (lit ''--bar''), Bare (lit ''--'')]" by blast
  then have "map tok_content toks = [lit ''--bar'', lit ''--'']" by (simp add: lit_def utf8_def utf8_char_def)
  then obtain t1 t2 where t: "toks = [t1, t2]" "tok_content t1 = lit ''--bar''" "tok_content t2 = lit ''--''" by auto
  have "sg_raw_after (ar_signature (args_new ?sg True)) = None" by (simp add: args_new_def signature_default_def)
  from parse_args_loop_items [OF at_boundary_new this toks(1), of ?f "()"] show ?thesis
    using t by (simp add: args_parse_def args_push_def args_new_def flag_awaiting_argument_def has_prefix_def find_flag_def
        encoding_flag_def signature_default_def lit_def args_finish_def check_positional_count_def get_flag_def)
qed

section \<open>Errors and completion\<close>

text \<open>
  Every error of the parser has a text: the branch that the printing of a wrong number of arguments
  says is unreachable is not reached.
\<close>

theorem parse_errors_have_text:
  "check_positional_count sg n = Some e \<Longrightarrow> n < 2 ^ 64 \<Longrightarrow> error_text e \<noteq> None"
  by (auto simp: check_positional_count_def error_text_def Let_def split: prod.splits option.splits if_splits)

theorem parse_errors_have_text_witness: "error_text (WrongPositionalCount 0 (Some 1) 2) \<noteq> None"
  using parse_errors_have_text [of write_signature 2 "WrongPositionalCount 0 (Some 1) 2"]
  by (simp add: check_positional_count_def write_signature_def)

lemma agree_iff:
  "n \<le> length (takeWhile (\<lambda>(a, b). a = b) (zip xs ys)) \<longleftrightarrow> n \<le> length xs \<and> n \<le> length ys \<and> take n xs = take n ys"
proof (induction n arbitrary: xs ys)
  case (Suc n)
  then show ?case by (cases xs; cases ys) auto
qed simp

lemma common_loop_iff:
  "n \<le> (case common_loop first common cs of None \<Rightarrow> 0 | Some m \<Rightarrow> m) \<longleftrightarrow>
     n \<le> common \<and> (\<forall>c\<in>set cs. n \<le> length first \<and> n \<le> length c \<and> take n first = take n c)"
proof (induction cs arbitrary: common)
  case (Cons c cs)
  let ?m = "min common (length (takeWhile (\<lambda>(a, b). a = b) (zip first c)))"
  have m: "n \<le> ?m \<longleftrightarrow> n \<le> common \<and> n \<le> length first \<and> n \<le> length c \<and> take n first = take n c"
    using agree_iff [of n first c] by auto
  show ?case
  proof (cases "?m = 0")
    case True
    then have "common_loop first common (c # cs) = None" by (simp add: Let_def)
    moreover have "n \<le> ?m \<longleftrightarrow> n = 0" using True by simp
    ultimately show ?thesis using m by auto
  next
    case False
    then have "common_loop first common (c # cs) = common_loop first ?m cs" by (simp only: common_loop.simps Let_def if_False)
    then show ?thesis using Cons.IH [of ?m] m by auto
  qed
qed simp

text \<open>The common prefix of the candidates is a prefix of each of them, and every other one is a prefix of it.\<close>

theorem common_prefix_longest:
  assumes "cs \<noteq> []"
  shows "(\<forall>c\<in>set cs. prefix (longest_common_prefix_of cs) c) \<and>
    (\<forall>p. (\<forall>c\<in>set cs. prefix p c) \<longrightarrow> prefix p (longest_common_prefix_of cs))"
proof -
  obtain first rest where cs: "cs = first # rest" using assms by (cases cs) auto
  define n where "n = (case common_loop first (length first) rest of None \<Rightarrow> 0 | Some m \<Rightarrow> m)"
  have lcp: "longest_common_prefix_of cs = take n first"
    by (simp add: longest_common_prefix_of_def cs n_def split: option.splits)
  have iff: "m \<le> n \<longleftrightarrow> m \<le> length first \<and> (\<forall>c\<in>set cs. m \<le> length c \<and> take m first = take m c)" for m
    using common_loop_iff [of m first "length first" rest] by (auto simp: n_def cs)
  have "prefix (take n first) c" if "c \<in> set cs" for c
    using iff [of n] that take_is_prefix [of n c] by simp
  moreover have "prefix p (take n first)" if p: "\<forall>c\<in>set cs. prefix p c" for p
  proof -
    have c: "length p \<le> length c \<and> take (length p) c = p" if "c \<in> set cs" for c
      using p that by (metis append_eq_conv_conj prefix_def prefix_length_le)
    then have "length p \<le> n" using iff [of "length p"] by (simp add: cs)
    moreover have "p = take (length p) first" using c [of first] by (simp add: cs)
    ultimately show ?thesis by (metis min.absorb1 take_is_prefix take_take)
  qed
  ultimately show ?thesis using lcp by auto
qed

theorem common_prefix_longest_witness:
  "prefix (lit ''wri'') (longest_common_prefix_of [lit ''write'', lit ''write-all''])"
proof -
  have "\<forall>c\<in>set [lit ''write'', lit ''write-all'']. prefix (lit ''wri'') c" by (simp add: lit_def)
  then show ?thesis using common_prefix_longest [of "[lit ''write'', lit ''write-all'']"] by blast
qed

text \<open>An unfinished expansion is handed out without its percent sign.\<close>

lemma unfinished_expansion:
  "tk_items (tokenizer_new (utf8 (lit ''%foo'')) False) =
    Some [Inr \<lparr>tok_kind = ExpansionKind, content_start = 1, tok_content = lit ''foo'', is_terminated = False\<rparr>]"
proof -
  have "utf8 (lit ''%foo'') = [37, 102, 111, 111]" by (simp add: utf8_def utf8_char_def lit_def)
  then show ?thesis
    using tk_items_eq [of "tokenizer_new (utf8 (lit ''%foo'')) False"] text_bytes_utf8 [of "lit ''%foo''"]
    by (simp add: tokenizer_new_def scan.simps [of False] scan_next_def scan_percent_def ascii_lowercase_def lit_def)
qed

end
