(* ===== verification/Brackets.thy ===== *)
theory Brackets
  imports Transaction MergeOps "HOL-Library.Product_Lexorder" "HOL-Library.Monad_Syntax"
begin

text \<open>
  Brackets and surrounding pairs: \<open>zmax-core/src/match_brackets.rs\<close>,
  \<open>zmax-core/src/surround.rs\<close>, and of \<open>textobject.rs\<close> and \<open>zmax-term/src/commands.rs\<close> what is built on
  them.  The slice of the document is the list of its characters.  The nodes of the syntax tree (tree-sitter)
  and the byte positions of the document (ropey) are parameters.
\<close>

section \<open>Brackets\<close>

definition MAX_PLAINTEXT_SCAN :: nat where
  "MAX_PLAINTEXT_SCAN = 10000"

definition BRACKETS :: "(uchar \<times> uchar) list" where
  "BRACKETS = [(uc CHR ''('', uc CHR '')''), (uc CHR ''{'', uc CHR ''}''), (uc CHR ''['', uc CHR '']''),
     (uc CHR ''<'', uc CHR ''>''), (0x2018, 0x2019), (0x201C, 0x201D), (0xAB, 0xBB), (0x300C, 0x300D), (0xFF08, 0xFF09)]"

definition PAIRS :: "(uchar \<times> uchar) list" where
  "PAIRS = BRACKETS @ [(uc CHR ''\"'', uc CHR ''\"''), (39, 39), (96, 96), (uc CHR ''|'', uc CHR ''|'')]"

definition get_pair :: "uchar \<Rightarrow> uchar \<times> uchar" where
  "get_pair ch = (case find (\<lambda>(l, r). l = ch \<or> r = ch) PAIRS of Some p \<Rightarrow> p | None \<Rightarrow> (ch, ch))"

definition is_open_bracket :: "uchar \<Rightarrow> bool" where
  "is_open_bracket ch = list_ex (\<lambda>(l, _). l = ch) BRACKETS"

definition is_close_bracket :: "uchar \<Rightarrow> bool" where
  "is_close_bracket ch = list_ex (\<lambda>(_, r). r = ch) BRACKETS"

definition is_valid_bracket :: "uchar \<Rightarrow> bool" where
  "is_valid_bracket ch = list_ex (\<lambda>(l, r). l = ch \<or> r = ch) BRACKETS"

definition is_open_pair :: "uchar \<Rightarrow> bool" where
  "is_open_pair ch = list_ex (\<lambda>(l, _). l = ch) PAIRS"

definition is_close_pair :: "uchar \<Rightarrow> bool" where
  "is_close_pair ch = list_ex (\<lambda>(_, r). r = ch) PAIRS"

definition is_valid_pair :: "uchar \<Rightarrow> bool" where
  "is_valid_pair ch = list_ex (\<lambda>(l, r). l = ch \<or> r = ch) PAIRS"

definition get_char :: "str \<Rightarrow> nat \<Rightarrow> uchar option" where
  "get_char text pos = (if pos < length text then Some (text ! pos) else None)"

text \<open>The loop over the characters of a direction: how many of them lie before the match.\<close>

fun scan_match :: "uchar \<Rightarrow> uchar \<Rightarrow> nat \<Rightarrow> nat \<Rightarrow> str \<Rightarrow> nat option" where
  "scan_match bracket partner i open_cnt [] = None"
| "scan_match bracket partner i open_cnt (candidate # cs) =
     (if candidate = bracket then scan_match bracket partner (i + 1) (open_cnt + 1) cs
      else if candidate = partner then
        (if open_cnt = 1 then Some i else scan_match bracket partner (i + 1) (open_cnt - 1) cs)
      else scan_match bracket partner (i + 1) open_cnt cs)"

definition find_matching_bracket_plaintext :: "str \<Rightarrow> nat \<Rightarrow> nat option" where
  "find_matching_bracket_plaintext doc cursor_pos =
     Option.bind (get_char doc cursor_pos) (\<lambda>bracket.
       let (l, r) = get_pair bracket;
           partner = (if l = bracket then r else l)
       in if \<not> is_valid_bracket bracket then None
          else if is_open_bracket bracket then
            map_option (\<lambda>i. cursor_pos + i + 1)
              (scan_match bracket partner 0 1 (take MAX_PLAINTEXT_SCAN (drop (cursor_pos + 1) doc)))
          else
            map_option (\<lambda>i. cursor_pos - i - 1)
              (scan_match bracket partner 0 1 (take MAX_PLAINTEXT_SCAN (rev (take cursor_pos doc)))))"

section \<open>Brackets in a syntax tree\<close>

text \<open>The nodes of a syntax tree and what the code asks of them (tree-sitter), with the byte positions of the
  document (ropey); \<open>None\<close> of the functions on bytes is an index out of range.\<close>

record 'n syntax_tree =
  node_kind :: "'n \<Rightarrow> str"
  is_missing :: "'n \<Rightarrow> bool"
  is_named :: "'n \<Rightarrow> bool"
  node_children :: "'n \<Rightarrow> 'n list"
  node_parent :: "'n \<Rightarrow> 'n option"
  next_sibling :: "'n \<Rightarrow> 'n option"
  prev_sibling :: "'n \<Rightarrow> 'n option"
  start_byte :: "'n \<Rightarrow> nat"
  end_byte :: "'n \<Rightarrow> nat"
  root_for_bytes :: "nat \<Rightarrow> nat \<Rightarrow> 'n"
  descendant_for_bytes :: "'n \<Rightarrow> nat \<Rightarrow> nat \<Rightarrow> 'n option"
  named_descendant_for_bytes :: "'n \<Rightarrow> nat \<Rightarrow> nat \<Rightarrow> 'n option"
  char_to_byte :: "nat \<Rightarrow> nat option"
  try_byte_to_char :: "nat \<Rightarrow> nat option"
  byte_slice :: "nat \<Rightarrow> nat \<Rightarrow> str option"

definition MATCH_LIMIT :: nat where
  "MATCH_LIMIT = 16"

text \<open>Where a step can panic its result is in an option of its own: \<open>None\<close> is the panic.\<close>

definition as_char :: "str \<Rightarrow> 'n syntax_tree \<Rightarrow> 'n \<Rightarrow> (nat \<times> uchar) option option" where
  "as_char text X node =
     (if end_byte X node - start_byte X node \<noteq> 1 then Some None
      else case try_byte_to_char X (start_byte X node) of
        None \<Rightarrow> Some None
      | Some pos \<Rightarrow> map_option (\<lambda>c. Some (pos, c)) (get_char text pos))"

definition as_close_pair :: "str \<Rightarrow> 'n syntax_tree \<Rightarrow> 'n \<Rightarrow> (uchar \<times> uchar) option option" where
  "as_close_pair text X node =
     map_option (\<lambda>a. Option.bind a (\<lambda>(_, close). map_option (\<lambda>(opn, cls). (close, opn)) (find (\<lambda>(opn, cls). cls = close) PAIRS)))
       (as_char text X node)"

definition as_open_pair :: "str \<Rightarrow> 'n syntax_tree \<Rightarrow> 'n \<Rightarrow> (uchar \<times> uchar) option option" where
  "as_open_pair text X node =
     map_option (\<lambda>a. Option.bind a (\<lambda>(_, open). map_option (\<lambda>(opn, cls). (open, cls)) (find (\<lambda>(opn, cls). opn = open) PAIRS)))
       (as_char text X node)"

fun pair_end_loop ::
    "str \<Rightarrow> 'n syntax_tree \<Rightarrow> ('n \<Rightarrow> 'n option) \<Rightarrow> uchar \<Rightarrow> uchar \<Rightarrow> nat \<Rightarrow> nat \<Rightarrow> 'n option \<Rightarrow> nat option option" where
  "pair_end_loop text X advance start_char end_char dep (Suc n) (Some node) =
     Option.bind (as_char text X node) (\<lambda>a.
       case a of
         None \<Rightarrow> pair_end_loop text X advance start_char end_char dep n (advance node)
       | Some (pos, c) \<Rightarrow>
           if c = end_char then
             (if dep = 0 then Some (Some pos)
              else pair_end_loop text X advance start_char end_char (dep - 1) n (advance node))
           else if c = start_char then pair_end_loop text X advance start_char end_char (dep + 1) n (advance node)
           else pair_end_loop text X advance start_char end_char dep n (advance node))"
| "pair_end_loop text X advance start_char end_char dep _ _ = Some None"

definition find_pair_end ::
    "str \<Rightarrow> 'n syntax_tree \<Rightarrow> 'n option \<Rightarrow> uchar \<Rightarrow> uchar \<Rightarrow> direction \<Rightarrow> nat option option" where
  "find_pair_end text X node start_char end_char dir =
     pair_end_loop text X (case dir of Forward \<Rightarrow> next_sibling X | Backward \<Rightarrow> prev_sibling X) start_char end_char 0 MATCH_LIMIT node"

text \<open>The stack has its last element first.\<close>

definition is_error_node :: "'n syntax_tree \<Rightarrow> 'n \<Rightarrow> bool" where
  "is_error_node X node \<longleftrightarrow> node_kind X node = lit ''ERROR''"

fun error_walk :: "'n syntax_tree \<Rightarrow> nat \<Rightarrow> 'n list \<Rightarrow> bool" where
  "error_walk X budget [] = False"
| "error_walk X budget (child # stack) =
     (if is_error_node X child \<or> is_missing X child then True
      else if budget - 1 = 0 then False
      else error_walk X (budget - 1) (rev (node_children X child) @ stack))"

definition has_error_inside :: "'n syntax_tree \<Rightarrow> 'n \<Rightarrow> bool" where
  "has_error_inside X node = error_walk X (MATCH_LIMIT * 64) (rev (node_children X node))"

definition error_near :: "'n syntax_tree \<Rightarrow> 'n \<Rightarrow> bool" where
  "error_near X node =
     list_ex (\<lambda>scope. is_error_node X scope \<or> has_error_inside X scope)
       (node # (case node_parent X node of None \<Rightarrow> [] | Some p \<Rightarrow> [p]))"

text \<open>A node that begins and ends with the characters of a pair.\<close>

definition pair_of_node :: "str \<Rightarrow> 'n syntax_tree \<Rightarrow> nat \<Rightarrow> bool \<Rightarrow> 'n \<Rightarrow> nat option option" where
  "pair_of_node text X pos traverse_parents node =
     (if is_named X node \<and> 2 \<le> length (node_children X node) then
        Option.bind (as_char text X (hd (node_children X node))) (\<lambda>a.
        Option.bind (as_char text X (last (node_children X node))) (\<lambda>b.
          Some (case (a, b) of
            (Some (start_pos, opn), Some (end_pos, cls)) \<Rightarrow>
              if (opn, cls) \<in> set PAIRS \<and> start_pos \<le> pos \<and> pos \<le> end_pos then
                (if end_pos = pos then Some start_pos
                 else if traverse_parents \<or> start_pos = pos then Some end_pos else None)
              else None
          | _ \<Rightarrow> None)))
      else Some None)"

text \<open>The closing sibling of a scope.  A result \<open>Some (Some r)\<close> is the return of \<open>r\<close> by the code.\<close>

fun closing_sibling :: "str \<Rightarrow> 'n syntax_tree \<Rightarrow> nat \<Rightarrow> 'n option \<Rightarrow> nat option option option" where
  "closing_sibling text X (Suc n) (Some sibling) =
     Option.bind (as_close_pair text X sibling) (\<lambda>cp.
       case cp of
         None \<Rightarrow> closing_sibling text X n (next_sibling X sibling)
       | Some (start_char, end_char) \<Rightarrow>
           Option.bind (find_pair_end text X (prev_sibling X sibling) start_char end_char Backward) (\<lambda>found.
             if found \<noteq> None then Some (Some (try_byte_to_char X (start_byte X sibling)))
             else closing_sibling text X n (next_sibling X sibling)))"
| "closing_sibling text X _ _ = Some None"

definition partner_of :: "str \<Rightarrow> 'n syntax_tree \<Rightarrow> (uchar \<times> uchar) option \<Rightarrow> 'n option \<Rightarrow> direction \<Rightarrow> nat option option" where
  "partner_of text X pair node dir =
     (case pair of None \<Rightarrow> Some None | Some (start_char, end_char) \<Rightarrow> find_pair_end text X node start_char end_char dir)"

definition pair_at_node :: "str \<Rightarrow> 'n syntax_tree \<Rightarrow> nat \<Rightarrow> bool \<Rightarrow> 'n \<Rightarrow> nat option option option" where
  "pair_at_node text X pos traverse_parents node =
     Option.bind (pair_of_node text X pos traverse_parents node) (\<lambda>r. if r \<noteq> None then Some (Some r) else
     Option.bind (as_close_pair text X node) (\<lambda>cp.
     Option.bind (partner_of text X cp (prev_sibling X node) Backward) (\<lambda>r. if r \<noteq> None then Some (Some r) else
     Option.bind (as_open_pair text X node) (\<lambda>cp.
     Option.bind (partner_of text X cp (next_sibling X node) Forward) (\<lambda>r. if r \<noteq> None then Some (Some r) else
       if traverse_parents then closing_sibling text X MATCH_LIMIT (next_sibling X node) else Some None)))))"

partial_function (option) pair_climb ::
    "str \<Rightarrow> 'n syntax_tree \<Rightarrow> nat \<Rightarrow> bool \<Rightarrow> 'n \<Rightarrow> nat option option option" where
  "pair_climb text X pos traverse_parents node =
     (case pair_at_node text X pos traverse_parents node of
        None \<Rightarrow> None
      | Some (Some r) \<Rightarrow> Some (Some r)
      | Some None \<Rightarrow>
          if \<not> traverse_parents \<and> is_named X node then Some None
          else (case node_parent X node of None \<Rightarrow> Some None | Some parent \<Rightarrow> pair_climb text X pos traverse_parents parent))"

definition find_pair :: "str \<Rightarrow> 'n syntax_tree \<Rightarrow> nat \<Rightarrow> bool \<Rightarrow> nat option option" where
  "find_pair text X pos traverse_parents =
     Option.bind (char_to_byte X pos) (\<lambda>bytes.
       let byte = bytes mod 2 ^ 32; root = root_for_bytes X byte byte
       in case descendant_for_bytes X root byte byte of
            None \<Rightarrow> Some None
          | Some node \<Rightarrow>
              if (case get_char text pos of Some c \<Rightarrow> is_valid_bracket c | None \<Rightarrow> False) \<and> error_near X node
              then Some (find_matching_bracket_plaintext text pos)
              else Option.bind (pair_climb text X pos traverse_parents node) (\<lambda>climbed.
                case climbed of
                  Some r \<Rightarrow> Some r
                | None \<Rightarrow>
                    if byte + 1 = 2 ^ 32 then None
                    else (case named_descendant_for_bytes X root byte (byte + 1) of
                       None \<Rightarrow> Some None
                     | Some node \<Rightarrow>
                         if node_children X node \<noteq> [] then Some None
                         else
                           Option.bind (try_byte_to_char X (start_byte X node)) (\<lambda>node_start.
                           Option.bind (byte_slice X (start_byte X node) (end_byte X node)) (\<lambda>node_text.
                             if pos < node_start then None
                             else Some (map_option (\<lambda>p. p + node_start) (find_matching_bracket_plaintext node_text (pos - node_start))))))))"

definition find_matching_bracket :: "str \<Rightarrow> 'n syntax_tree \<Rightarrow> nat \<Rightarrow> nat option option" where
  "find_matching_bracket text X pos =
     (if length text \<le> pos \<or> \<not> is_valid_pair (text ! pos) then Some None else find_pair text X pos False)"

definition find_matching_bracket_fuzzy :: "str \<Rightarrow> 'n syntax_tree \<Rightarrow> nat \<Rightarrow> nat option option" where
  "find_matching_bracket_fuzzy text X pos = find_pair text X pos True"

definition find_matching_bracket_any :: "'n syntax_tree option \<Rightarrow> str \<Rightarrow> nat \<Rightarrow> nat option option" where
  "find_matching_bracket_any syntax text pos =
     Option.bind (case syntax of None \<Rightarrow> Some None | Some X \<Rightarrow> find_matching_bracket_fuzzy text X pos)
       (\<lambda>r. Some (if r = None then find_matching_bracket_plaintext text pos else r))"

section \<open>Finding a surrounding pair\<close>

datatype surround_error = PairNotFound | CursorOverlap | RangeExceedsText | CursorOnAmbiguousPair

text \<open>What the code asks of a text beyond its characters: the text API of the ranges, the first position of
  a line, and the thread-local \<open>quoteescape\<close>.\<close>

record surround_text =
  st_api :: text_api
  st_chars :: str
  line_to_char :: "nat \<Rightarrow> nat"
  quote_escape :: "uchar list option"

text \<open>The inner loop of \<open>find_nth_open_pair\<close> and \<open>find_nth_close_pair\<close>: the characters that are left and the
  position after the step that leaves the enclosing pair; \<open>move\<close> is the step of the position.\<close>

fun step_out :: "(nat \<Rightarrow> nat) \<Rightarrow> uchar \<Rightarrow> uchar \<Rightarrow> nat \<Rightarrow> nat \<Rightarrow> str \<Rightarrow> (str \<times> nat) option" where
  "step_out move own other step_over pos [] = None"
| "step_out move own other step_over pos (c # cs) =
     (if c = other then step_out move own other (step_over + 1) (move pos) cs
      else if c = own then
        (if step_over = 0 then Some (cs, move pos) else step_out move own other (step_over - 1) (move pos) cs)
      else step_out move own other step_over (move pos) cs)"

fun step_out_n :: "(nat \<Rightarrow> nat) \<Rightarrow> uchar \<Rightarrow> uchar \<Rightarrow> nat \<Rightarrow> nat \<Rightarrow> str \<Rightarrow> nat option" where
  "step_out_n move own other 0 pos cs = Some pos"
| "step_out_n move own other (Suc n) pos cs =
     (case step_out move own other 0 pos cs of None \<Rightarrow> None | Some (cs, pos) \<Rightarrow> step_out_n move own other n pos cs)"

definition find_nth_open_pair :: "str \<Rightarrow> uchar \<Rightarrow> uchar \<Rightarrow> nat \<Rightarrow> nat \<Rightarrow> nat option" where
  "find_nth_open_pair text opn cls pos n =
     (if length text \<le> pos then None
      else if text ! pos = opn then Some pos
      else step_out_n (\<lambda>p. p - 1) opn cls n pos (rev (take pos text)))"

definition find_nth_close_pair :: "str \<Rightarrow> uchar \<Rightarrow> uchar \<Rightarrow> nat \<Rightarrow> nat \<Rightarrow> nat option" where
  "find_nth_close_pair text opn cls pos n =
     (if length text \<le> pos then None
      else if text ! pos = cls then Some pos
      else step_out_n (\<lambda>p. p + 1) cls opn n pos (drop (pos + 1) text))"

definition line_break :: "uchar \<Rightarrow> bool" where
  "line_break c \<longleftrightarrow> c = 10 \<or> c = 13"

fun nth_on_line :: "(nat \<Rightarrow> nat) \<Rightarrow> nat \<Rightarrow> uchar \<Rightarrow> nat \<Rightarrow> str \<Rightarrow> nat option" where
  "nth_on_line move n ch pos [] = None"
| "nth_on_line move n ch pos (c # cs) =
     (if line_break c then None
      else if c = ch then (if n = 1 then Some pos else nth_on_line move (n - 1) ch (move pos) cs)
      else nth_on_line move n ch (move pos) cs)"

definition find_nth_char_on_line :: "nat \<Rightarrow> str \<Rightarrow> uchar \<Rightarrow> nat \<Rightarrow> direction \<Rightarrow> nat option" where
  "find_nth_char_on_line n text ch pos dir =
     (if n = 0 \<or> length text < pos then None
      else case dir of
        Forward \<Rightarrow> nth_on_line (\<lambda>p. p + 1) n ch pos (drop pos text)
      | Backward \<Rightarrow> nth_on_line (\<lambda>p. p - 1) n ch (pos - 1) (rev (take pos text)))"

definition is_esc :: "surround_text \<Rightarrow> uchar \<Rightarrow> bool" where
  "is_esc S c = (case quote_escape S of None \<Rightarrow> c = 92 | Some v \<Rightarrow> c \<in> set v)"

definition quote_is_escaped :: "surround_text \<Rightarrow> nat \<Rightarrow> nat \<Rightarrow> bool" where
  "quote_is_escaped S i line_start \<longleftrightarrow>
     odd (length (takeWhile (is_esc S) (rev (slice (st_chars S) line_start i))))"

text \<open>The positions of the quotes of a line that are not escaped.\<close>

definition line_quotes :: "surround_text \<Rightarrow> uchar \<Rightarrow> nat \<Rightarrow> nat list" where
  "line_quotes S ch line_start =
     (let line = takeWhile (\<lambda>c. \<not> line_break c) (drop line_start (st_chars S))
      in filter (\<lambda>i. st_chars S ! i = ch \<and> \<not> quote_is_escaped S i line_start) [line_start..<line_start + length line])"

fun first_pair_from :: "nat \<Rightarrow> nat list \<Rightarrow> (nat \<times> nat) option" where
  "first_pair_from pos (q # r # qs) = (if pos \<le> r then Some (q, r) else first_pair_from pos qs)"
| "first_pair_from pos _ = None"

definition quote_line_start :: "surround_text \<Rightarrow> nat \<Rightarrow> nat" where
  "quote_line_start S pos = line_to_char S (char_to_line (st_api S) (min pos (length (st_chars S) - 1)))"

definition find_quote_pair_on_line :: "surround_text \<Rightarrow> uchar \<Rightarrow> nat \<Rightarrow> (nat \<times> nat) option" where
  "find_quote_pair_on_line S ch pos = first_pair_from pos (line_quotes S ch (quote_line_start S pos))"

text \<open>\<open>Option::zip\<close>, and the pair in the direction of a range.\<close>

definition opt_zip :: "'a option \<Rightarrow> 'b option \<Rightarrow> ('a \<times> 'b) option" where
  "opt_zip a b = (case (a, b) of (Some x, Some y) \<Rightarrow> Some (x, y) | _ \<Rightarrow> None)"

definition directed :: "direction \<Rightarrow> nat \<times> nat \<Rightarrow> nat \<times> nat" where
  "directed dir p = (case dir of Forward \<Rightarrow> p | Backward \<Rightarrow> (snd p, fst p))"

definition find_nth_pairs_pos ::
    "'n syntax_tree option \<Rightarrow> surround_text \<Rightarrow> uchar \<Rightarrow> sel_range \<Rightarrow> nat \<Rightarrow> (surround_error + (nat \<times> nat)) option" where
  "find_nth_pairs_pos syntax S ch rng n =
     (let text = st_chars S
      in if length text < 2 then Some (Inl PairNotFound)
         else if length text \<le> r_to rng then Some (Inl RangeExceedsText)
         else
           let (opn, cls) = get_pair ch; pos = r_cursor (st_api S) rng;
               found =
                 (if opn = cls then
                    (if get_char text pos = Some opn then
                       map_option (\<lambda>m. case m of
                            None \<Rightarrow> Inl CursorOnAmbiguousPair
                          | Some m \<Rightarrow> Inr (if pos < m then (Some pos, Some m) else (Some m, Some pos)))
                         (case syntax of None \<Rightarrow> Some (find_matching_bracket_plaintext text pos)
                                       | Some X \<Rightarrow> find_matching_bracket_fuzzy text X pos)
                     else if n = 1 then
                       Some (Inr (case find_quote_pair_on_line S opn pos of Some (a, b) \<Rightarrow> (Some a, Some b) | None \<Rightarrow> (None, None)))
                     else Some (Inr (find_nth_char_on_line n text opn pos Backward, find_nth_char_on_line n text cls pos Forward)))
                  else Some (Inr (find_nth_open_pair text opn cls pos n, find_nth_close_pair text opn cls pos n)))
           in map_option (\<lambda>found. case found of
                Inl e \<Rightarrow> Inl e
              | Inr (a, b) \<Rightarrow>
                  (case opt_zip a b of None \<Rightarrow> Inl PairNotFound | Some p \<Rightarrow> Inr (directed (r_direction rng) p))) found)"

section \<open>The closest pair\<close>

text \<open>The loop over the characters from the start of the range; the stack has its last element first.\<close>

fun closest_plain :: "str \<Rightarrow> sel_range \<Rightarrow> nat \<Rightarrow> nat \<Rightarrow> uchar list \<Rightarrow> str \<Rightarrow> surround_error + (nat \<times> nat)" where
  "closest_plain text rng skip close_pos stack [] = Inl PairNotFound"
| "closest_plain text rng skip close_pos stack (ch # chs) =
     (let close_pos = close_pos + 1
      in if is_open_bracket ch then closest_plain text rng skip close_pos (ch # stack) chs
         else if \<not> is_close_bracket ch then closest_plain text rng skip close_pos stack chs
         else
           let (opn, cls) = get_pair ch
           in if stack \<noteq> [] \<and> hd stack = opn then closest_plain text rng skip close_pos (tl stack) chs
              else
                case find_nth_open_pair text opn cls close_pos 1 of
                  None \<Rightarrow> closest_plain text rng skip close_pos stack chs
                | Some open_pos \<Rightarrow>
                    if open_pos \<le> r_from rng + 1 \<and> r_to rng - 1 \<le> close_pos then
                      (if 1 < skip then closest_plain text rng (skip - 1) close_pos stack chs
                       else Inr (directed (r_direction rng) (open_pos, close_pos)))
                    else closest_plain text rng skip close_pos stack chs)"

definition find_nth_closest_pairs_plain :: "str \<Rightarrow> sel_range \<Rightarrow> nat \<Rightarrow> (surround_error + (nat \<times> nat)) option" where
  "find_nth_closest_pairs_plain text rng skip =
     (if length text < r_from rng then None
      else Some (closest_plain text rng skip (r_from rng - 1) [] (drop (r_from rng) text)))"

text \<open>In the syntax tree.  The loop need not end: what the tree finds is not known here.  \<open>None\<close> is a loop
  without end or a panic.\<close>

partial_function (option) closest_ts_loop ::
    "str \<Rightarrow> 'n syntax_tree \<Rightarrow> text_api \<Rightarrow> sel_range \<Rightarrow> nat \<Rightarrow> nat \<Rightarrow> nat \<Rightarrow> (surround_error + (nat \<times> nat)) option" where
  "closest_ts_loop text X T rng opening closing skip =
     (if skip = 0 then Some (Inr (opening, closing))
      else
        (case find_matching_bracket_fuzzy text X closing of
           None \<Rightarrow> None
         | Some None \<Rightarrow> Some (Inl PairNotFound)
         | Some (Some closing) \<Rightarrow>
             (case find_matching_bracket text X closing of
                None \<Rightarrow> None
              | Some None \<Rightarrow> Some (Inl PairNotFound)
              | Some (Some opening) \<Rightarrow>
                  let lo = min opening closing; hi = max opening closing
                  in if r_from rng < lo then closest_ts_loop text X T rng lo (next_grapheme_boundary T hi) skip
                     else if r_to rng = 0 then None
                     else if hi < r_to rng - 1 then closest_ts_loop text X T rng lo (next_grapheme_boundary T hi) skip
                     else if skip = 1 then closest_ts_loop text X T rng lo hi 0
                     else closest_ts_loop text X T rng lo (next_grapheme_boundary T hi) (skip - 1))))"

definition find_nth_closest_pairs_ts ::
    "str \<Rightarrow> 'n syntax_tree \<Rightarrow> text_api \<Rightarrow> sel_range \<Rightarrow> nat \<Rightarrow> (surround_error + (nat \<times> nat)) option" where
  "find_nth_closest_pairs_ts text X T rng skip =
     map_option (map_sum id (directed (r_direction rng))) (closest_ts_loop text X T rng (r_from rng) (r_to rng) skip)"

definition find_nth_closest_pairs_pos ::
    "'n syntax_tree option \<Rightarrow> surround_text \<Rightarrow> sel_range \<Rightarrow> nat \<Rightarrow> (surround_error + (nat \<times> nat)) option" where
  "find_nth_closest_pairs_pos syntax S rng skip =
     (case syntax of
        Some X \<Rightarrow> find_nth_closest_pairs_ts (st_chars S) X (st_api S) rng skip
      | None \<Rightarrow> find_nth_closest_pairs_plain (st_chars S) rng skip)"

section \<open>The pairs of a selection\<close>

definition pair_around ::
    "'n syntax_tree option \<Rightarrow> surround_text \<Rightarrow> uchar option \<Rightarrow> nat \<Rightarrow> sel_range \<Rightarrow> (surround_error + (nat \<times> nat)) option" where
  "pair_around syntax S ch skip rng =
     (case ch of
        Some ch \<Rightarrow> find_nth_pairs_pos syntax S ch rng skip
      | None \<Rightarrow> find_nth_closest_pairs_pos syntax S rng skip)"

fun surround_pos_loop ::
    "(sel_range \<Rightarrow> (surround_error + (nat \<times> nat)) option) \<Rightarrow> nat list \<Rightarrow> sel_range list \<Rightarrow> (surround_error + nat list) option" where
  "surround_pos_loop around change_pos [] = Some (Inr change_pos)"
| "surround_pos_loop around change_pos (rng # rngs) =
     (case around rng of
        None \<Rightarrow> None
      | Some (Inl e) \<Rightarrow> Some (Inl e)
      | Some (Inr p) \<Rightarrow>
          let r = r_new (fst p) (snd p); open_pos = r_from r; close_pos = r_to r
          in if open_pos \<in> set change_pos \<or> close_pos \<in> set change_pos then Some (Inl CursorOverlap)
             else surround_pos_loop around (change_pos @ [min open_pos close_pos, max close_pos open_pos]) rngs)"

definition get_surround_pos ::
    "'n syntax_tree option \<Rightarrow> surround_text \<Rightarrow> selection \<Rightarrow> uchar option \<Rightarrow> nat \<Rightarrow> (surround_error + nat list) option" where
  "get_surround_pos syntax S selection ch skip =
     surround_pos_loop (pair_around syntax S ch skip) [] (sel_ranges selection)"

section \<open>Text objects and commands\<close>

text \<open>\<open>TextObject::Movement\<close> is unreachable in the code.\<close>

datatype text_object = Around | Inside | Movement

definition textobject_pair_surround_impl ::
    "'n syntax_tree option \<Rightarrow> surround_text \<Rightarrow> sel_range \<Rightarrow> text_object \<Rightarrow> uchar option \<Rightarrow> nat \<Rightarrow> sel_range option" where
  "textobject_pair_surround_impl syntax S rng textobject ch cnt =
     (case pair_around syntax S ch cnt rng of
        None \<Rightarrow> None
      | Some (Inl e) \<Rightarrow> Some rng
      | Some (Inr (a, h)) \<Rightarrow>
          (case textobject of
             Inside \<Rightarrow>
               Some (if a < h then r_new (next_grapheme_boundary (st_api S) a) h
                     else r_new a (next_grapheme_boundary (st_api S) h))
           | Around \<Rightarrow>
               Some (if a < h then r_new a (next_grapheme_boundary (st_api S) h)
                     else r_new (next_grapheme_boundary (st_api S) a) h)
           | Movement \<Rightarrow> None))"

definition textobject_pair_surround where
  "textobject_pair_surround syntax S rng textobject ch cnt =
     textobject_pair_surround_impl syntax S rng textobject (Some ch) cnt"

definition textobject_pair_surround_closest where
  "textobject_pair_surround_closest syntax S rng textobject cnt =
     textobject_pair_surround_impl syntax S rng textobject None cnt"

text \<open>The transactions of the commands, as they are once the key is read.  \<open>surround_add\<close> is given the two
  texts and how many characters they are together.\<close>

fun surround_add_loop :: "str \<Rightarrow> str \<Rightarrow> nat \<Rightarrow> nat \<Rightarrow> sel_range list \<Rightarrow> change list \<times> sel_range list" where
  "surround_add_loop opn cls surround_len offs [] = ([], [])"
| "surround_add_loop opn cls surround_len offs (rng # rngs) =
     (let (changes, ranges) = surround_add_loop opn cls surround_len (offs + surround_len) rngs
      in ((r_from rng, r_from rng, Some opn) # (r_to rng, r_to rng, Some cls) # changes,
          r_with_direction (r_new (offs + r_from rng) (offs + r_to rng + surround_len)) (r_direction rng) # ranges))"

definition surround_add :: "'r rope_api \<Rightarrow> 'r \<Rightarrow> selection \<Rightarrow> str \<Rightarrow> str \<Rightarrow> nat \<Rightarrow> transaction option" where
  "surround_add R doc selection opn cls surround_len =
     (let (changes, ranges) = surround_add_loop opn cls surround_len 0 (sel_ranges selection)
      in Option.bind (tx_change R doc changes) (\<lambda>t.
           map_option (with_selection t) (sel_new ranges (primary_index selection))))"

fun chunks2 :: "'a list \<Rightarrow> ('a \<times> 'a) list" where
  "chunks2 (x # y # xs) = (x, y) # chunks2 xs"
| "chunks2 _ = []"

definition surround_replace :: "'r rope_api \<Rightarrow> 'r \<Rightarrow> nat list \<Rightarrow> uchar \<Rightarrow> transaction option" where
  "surround_replace R doc change_pos to_ch =
     (let (opn, cls) = get_pair to_ch;
          sorted_pos = sort (concat (map (\<lambda>(p, q). [(p, opn), (q, cls)]) (chunks2 change_pos)))
      in tx_change R doc (map (\<lambda>(p, c). (p, p + 1, Some [c])) sorted_pos))"

definition surround_delete :: "'r rope_api \<Rightarrow> 'r \<Rightarrow> nat list \<Rightarrow> transaction option" where
  "surround_delete R doc change_pos = tx_change R doc (map (\<lambda>p. (p, p + 1, None)) (sort change_pos))"

end
