(* ===== verification/BracketLaws.thy ===== *)
theory BracketLaws
  imports Brackets
begin

text \<open>
  Laws of brackets: the depth of a text, in which an opening bracket goes one level down and a closing one
  comes up; a pair matches when the text between starts and ends at the same depth and never rises above it.
\<close>

section \<open>Depth\<close>

text \<open>The depth after a text read from a depth; \<open>None\<close> where a closing bracket has nothing to close.\<close>

fun depth :: "uchar \<Rightarrow> uchar \<Rightarrow> nat \<Rightarrow> str \<Rightarrow> nat option" where
  "depth b m d [] = Some d"
| "depth b m d (c # cs) =
     (if c = b then depth b m (d + 1) cs
      else if c = m then (if d = 0 then None else depth b m (d - 1) cs)
      else depth b m d cs)"

definition balanced :: "uchar \<Rightarrow> uchar \<Rightarrow> str \<Rightarrow> bool" where
  "balanced b m w \<longleftrightarrow> depth b m 0 w = Some 0"

lemma level_append: "depth b m d (u @ v) = Option.bind (depth b m d u) (\<lambda>d. depth b m d v)"
  by (induction b m d u rule: depth.induct) auto

lemma depth_shift: "depth b m d w = Some e \<Longrightarrow> depth b m (d + k) w = Some (e + k)"
  by (induction b m d w rule: depth.induct) (auto split: if_splits)

text \<open>Read backwards the brackets change their roles.\<close>

lemma depth_rev_le: "b \<noteq> m \<Longrightarrow> depth b m d w = Some e \<Longrightarrow> depth m b e (rev w) = Some d"
  by (induction b m d w rule: depth.induct) (auto simp: level_append split: if_splits)

lemma depth_rev: "b \<noteq> m \<Longrightarrow> depth m b e (rev w) = Some d \<longleftrightarrow> depth b m d w = Some e"
  using depth_rev_le [of b m d w e] depth_rev_le [of m b e "rev w" d] by auto

lemma balanced_rev: "b \<noteq> m \<Longrightarrow> balanced m b (rev w) \<longleftrightarrow> balanced b m w"
  by (simp add: balanced_def depth_rev)

text \<open>A text that goes down has a last bracket that stays open.\<close>

lemma depth_last_open:
  "b \<noteq> m \<Longrightarrow> depth b m 0 w = Some (Suc k) \<Longrightarrow> \<exists>u v. w = u @ b # v \<and> depth b m 0 u = Some k \<and> balanced b m v"
proof (induction "length w" arbitrary: w k rule: less_induct)
  case less
  obtain w' c where w: "w = w' @ [c]" using less.prems(2) by (cases w rule: rev_cases) auto
  obtain d where d: "depth b m 0 w' = Some d" "depth b m d [c] = Some (Suc k)"
    using less.prems(2) by (auto simp: w level_append bind_eq_Some_conv)
  show ?case
  proof (cases "c = b")
    case True
    then show ?thesis using d w by (intro exI [of _ w'] exI [of _ "[]"]) (auto simp: balanced_def)
  next
    case nb: False
    show ?thesis
    proof (cases "c = m")
      case True
      then have "d = Suc (Suc k)" using d(2) nb by (auto split: if_splits)
      then obtain u v where uv: "w' = u @ b # v" "depth b m 0 u = Some (Suc k)" "balanced b m v"
        using less.hyps [of w' "Suc k"] less.prems(1) d(1) w by auto
      then obtain u' v' where u: "u = u' @ b # v'" "depth b m 0 u' = Some k" "balanced b m v'"
        using less.hyps [of u k] less.prems(1) w by auto
      have "depth b m 1 v = Some 1" using depth_shift [of b m 0 v 0 1] uv(3) by (simp add: balanced_def)
      then have "balanced b m (v' @ b # v @ [m])"
        using u(3) less.prems(1) by (simp add: balanced_def level_append)
      then show ?thesis using True u w uv(1) by (intro exI [of _ u'] exI [of _ "v' @ b # v @ [m]"]) simp
    next
      case False
      then have "d = Suc k" using d(2) nb by simp
      then obtain u v where "w' = u @ b # v" "depth b m 0 u = Some k" "balanced b m v"
        using less.hyps [of w' k] less.prems(1) d(1) w by auto
      then show ?thesis using w nb False by (intro exI [of _ u] exI [of _ "v @ [c]"]) (auto simp: balanced_def level_append)
    qed
  qed
qed

section \<open>The scans\<close>

text \<open>A bracket found in a text: at its head, or in the rest.\<close>

lemma found_Cons:
  "(\<exists>w rest. c # cs = w @ m # rest \<and> P w rest) \<longleftrightarrow> (c = m \<and> P [] cs) \<or> (\<exists>w rest. cs = w @ m # rest \<and> P (c # w) rest)"
  by (auto simp: Cons_eq_append_conv)

lemma scan_match_iff:
  "b \<noteq> m \<Longrightarrow> 0 < n \<Longrightarrow>
   scan_match b m i n cs = Some k \<longleftrightarrow>
   (\<exists>w rest. cs = w @ m # rest \<and> (k = i + length w \<and> depth b m (n - 1) w = Some 0))"
proof (induction b m i n cs rule: scan_match.induct)
  case (2 b m i n c cs)
  consider (opens) "c = b" | (closes) "c = m" "n = 1" | (up) "c = m" "n \<noteq> 1" | (other) "c \<noteq> b" "c \<noteq> m" by blast
  then show ?case
  proof cases
    case opens
    then show ?thesis unfolding found_Cons using 2(1) 2(4,5) by auto
  next
    case closes
    then show ?thesis unfolding found_Cons using 2(4) by auto
  next
    case up
    then show ?thesis unfolding found_Cons using 2(2) 2(4,5) by (auto simp: Suc_le_eq)
  next
    case other
    then show ?thesis unfolding found_Cons using 2(3) 2(4,5) by auto
  qed
qed simp

lemma step_out_iff:
  "own \<noteq> other \<Longrightarrow>
   step_out move own other d pos cs = Some (r, pos') \<longleftrightarrow>
   (\<exists>w rest. cs = w @ own # rest \<and> (rest = r \<and> pos' = (move ^^ Suc (length w)) pos \<and> depth other own d w = Some 0))"
proof (induction move own other d pos cs rule: step_out.induct)
  case (2 move own other d pos c cs)
  consider (goes) "c = other" | (leaves) "c = own" "d = 0" | (up) "c = own" "d \<noteq> 0" | (neither) "c \<noteq> own" "c \<noteq> other" by blast
  then show ?case
  proof cases
    case goes
    then show ?thesis unfolding found_Cons using 2(1) 2(4) by (auto simp: funpow_swap1)
  next
    case leaves
    then show ?thesis unfolding found_Cons using 2(4) by auto
  next
    case up
    then show ?thesis unfolding found_Cons using 2(2) 2(4) by (auto simp: funpow_swap1)
  next
    case neither
    then show ?thesis unfolding found_Cons using 2(3) 2(4) by (auto simp: funpow_swap1)
  qed
qed simp

lemma two_moves: "(move ^^ Suc (length (u @ c # v))) x = (move ^^ Suc (length v)) ((move ^^ Suc (length u)) x)"
proof -
  have "Suc (length (u @ c # v)) = Suc (length v) + Suc (length u)" by simp
  then show ?thesis by (simp only: funpow_add o_apply)
qed

lemma step_out_n_iff:
  assumes "own \<noteq> other"
  shows "step_out_n move own other (Suc k) pos cs = Some p \<longleftrightarrow>
    (\<exists>w rest. cs = w @ own # rest \<and> (p = (move ^^ Suc (length w)) pos \<and> depth own other 0 (rev w) = Some k))"
proof (induction k arbitrary: pos cs)
  case 0
  have "step_out_n move own other (Suc 0) pos cs = Some p \<longleftrightarrow> (\<exists>r. step_out move own other 0 pos cs = Some (r, p))"
    by (auto split: option.splits)
  then show ?case
    unfolding step_out_iff [OF assms] depth_rev [OF assms [symmetric]] by auto
next
  case (Suc k)
  have "step_out_n move own other (Suc (Suc k)) pos cs = Some p \<longleftrightarrow>
      (\<exists>cs' pos'. step_out move own other 0 pos cs = Some (cs', pos') \<and> step_out_n move own other (Suc k) pos' cs' = Some p)"
    by (auto split: option.splits)
  also have "\<dots> \<longleftrightarrow> (\<exists>u v rest. cs = u @ own # v @ own # rest \<and> p = (move ^^ Suc (length v)) ((move ^^ Suc (length u)) pos) \<and>
      depth own other 0 (rev u) = Some 0 \<and> depth own other 0 (rev v) = Some k)"
    unfolding step_out_iff [OF assms] Suc depth_rev [OF assms [symmetric]] by (rule iffI; elim exE conjE; hypsubst; blast)
  also have "\<dots> \<longleftrightarrow> (\<exists>w rest. cs = w @ own # rest \<and> (p = (move ^^ Suc (length w)) pos \<and> depth own other 0 (rev w) = Some (Suc k)))"
  proof
    assume "\<exists>u v rest. cs = u @ own # v @ own # rest \<and> p = (move ^^ Suc (length v)) ((move ^^ Suc (length u)) pos) \<and>
      depth own other 0 (rev u) = Some 0 \<and> depth own other 0 (rev v) = Some k"
    then obtain u v rest where uv: "cs = u @ own # v @ own # rest" "p = (move ^^ Suc (length v)) ((move ^^ Suc (length u)) pos)"
      "depth own other 0 (rev u) = Some 0" "depth own other 0 (rev v) = Some k" by blast
    have "depth own other 0 (rev (u @ own # v)) = Some (Suc k)"
      using uv(4) depth_shift [OF uv(3), of "Suc k"] by (simp add: level_append)
    moreover have "p = (move ^^ Suc (length (u @ own # v))) pos"
      unfolding uv(2) by (rule two_moves [symmetric])
    ultimately show "\<exists>w rest. cs = w @ own # rest \<and> (p = (move ^^ Suc (length w)) pos \<and> depth own other 0 (rev w) = Some (Suc k))"
      using uv(1) by (intro exI [of _ "u @ own # v"] exI [of _ rest]) simp
  next
    assume "\<exists>w rest. cs = w @ own # rest \<and> (p = (move ^^ Suc (length w)) pos \<and> depth own other 0 (rev w) = Some (Suc k))"
    then obtain w rest where w: "cs = w @ own # rest" "p = (move ^^ Suc (length w)) pos" "depth own other 0 (rev w) = Some (Suc k)"
      by blast
    obtain u v where uv: "rev w = u @ own # v" "depth own other 0 u = Some k" "balanced own other v"
      using depth_last_open [OF assms w(3)] by blast
    have e: "w = rev v @ own # rev u" using uv(1) by (metis append.assoc append_Cons append_Nil rev.simps(2) rev_append rev_rev_ident)
    have "p = (move ^^ Suc (length (rev u))) ((move ^^ Suc (length (rev v))) pos)"
      unfolding w(2) e by (rule two_moves)
    then show "\<exists>u v rest. cs = u @ own # v @ own # rest \<and> p = (move ^^ Suc (length v)) ((move ^^ Suc (length u)) pos) \<and>
      depth own other 0 (rev u) = Some 0 \<and> depth own other 0 (rev v) = Some k"
      using w(1) uv(2,3) unfolding balanced_def
      by (intro exI [of _ "rev v"] exI [of _ "rev u"] exI [of _ rest]) (simp add: e)
  qed
  finally show ?case .
qed

section \<open>Positions\<close>

lemma drop_split:
  "(\<exists>w rest. drop p text = w @ m # rest \<and> P w rest) \<longleftrightarrow>
   (\<exists>c. p \<le> c \<and> c < length text \<and> text ! c = m \<and> P (slice text p c) (drop (c + 1) text))"
proof
  assume "\<exists>w rest. drop p text = w @ m # rest \<and> P w rest"
  then obtain w rest where w: "drop p text = w @ m # rest" "P w rest" by blast
  have len: "length text - p = Suc (length w + length rest)" using arg_cong [OF w(1), of length] by simp
  have "text ! (p + length w) = m" using arg_cong [OF w(1), of "\<lambda>xs. xs ! length w"] len by simp
  moreover have "slice text p (p + length w) = w" using w(1) by (simp add: slice_def)
  moreover have "drop (p + length w + 1) text = rest"
    using arg_cong [OF w(1), of "drop (length w + 1)"] by (simp add: add.commute add.left_commute)
  ultimately show "\<exists>c. p \<le> c \<and> c < length text \<and> text ! c = m \<and> P (slice text p c) (drop (c + 1) text)"
    using w(2) len by (intro exI [of _ "p + length w"]) auto
next
  assume "\<exists>c. p \<le> c \<and> c < length text \<and> text ! c = m \<and> P (slice text p c) (drop (c + 1) text)"
  then obtain c where c: "p \<le> c" "c < length text" "text ! c = m" "P (slice text p c) (drop (c + 1) text)" by blast
  then show "\<exists>w rest. drop p text = w @ m # rest \<and> P w rest"
    using slice_at [of p c "text"] by (intro exI [of _ "slice text p c"] exI [of _ "drop (c + 1) text"]) simp
qed

lemma take_split:
  assumes "p \<le> length text"
  shows "(\<exists>w rest. rev (take p text) = w @ b # rest \<and> P w rest) \<longleftrightarrow>
   (\<exists>i. i < p \<and> text ! i = b \<and> P (rev (slice text (i + 1) p)) (rev (take i text)))"
proof
  assume "\<exists>w rest. rev (take p text) = w @ b # rest \<and> P w rest"
  then obtain w rest where w: "rev (take p text) = w @ b # rest" "P w rest" by blast
  have t: "take p text = rev rest @ b # rev w" using arg_cong [OF w(1), of rev] by simp
  have len: "p = Suc (length rest + length w)" using arg_cong [OF t, of length] assms by simp
  have "text ! length rest = b" using arg_cong [OF t, of "\<lambda>xs. xs ! length rest"] len by (simp add: nth_append)
  moreover have "take (length rest) text = rev rest" using arg_cong [OF t, of "take (length rest)"] len by simp
  moreover have "slice text (length rest + 1) p = rev w"
    using arg_cong [OF t, of "drop (length rest + 1)"] len by (simp add: slice_def drop_take)
  ultimately show "\<exists>i. i < p \<and> text ! i = b \<and> P (rev (slice text (i + 1) p)) (rev (take i text))"
    using w(2) len by (intro exI [of _ "length rest"]) auto
next
  assume "\<exists>i. i < p \<and> text ! i = b \<and> P (rev (slice text (i + 1) p)) (rev (take i text))"
  then obtain i where i: "i < p" "text ! i = b" "P (rev (slice text (i + 1) p)) (rev (take i text))" by blast
  have "take p text = take i text @ b # slice text (i + 1) p"
    using i(1,2) assms id_take_nth_drop [of i "take p text"] by (simp add: slice_def drop_take)
  then show "\<exists>w rest. rev (take p text) = w @ b # rest \<and> P w rest"
    using i(3) by (intro exI [of _ "rev (slice text (i + 1) p)"] exI [of _ "rev (take i text)"]) simp
qed

lemma step_back: "((\<lambda>p. p - Suc 0) ^^ k) p = p - k"
  by (induction k) auto

lemma move_on: "(Suc ^^ k) p = p + k"
  by (induction k) auto

lemma length_slice: "j \<le> length xs \<Longrightarrow> length (slice xs i j) = j - i"
  by (simp add: slice_def)

lemma nth_open_iff:
  assumes "b \<noteq> m" "1 \<le> n" "pos < length text" "text ! pos \<noteq> b"
  shows "find_nth_open_pair text b m pos n = Some i \<longleftrightarrow>
    i < pos \<and> text ! i = b \<and> depth b m 0 (slice text (i + 1) pos) = Some (n - 1)"
proof -
  obtain k where n: "n = Suc k" using assms(2) by (cases n) auto
  have f: "find_nth_open_pair text b m pos n = step_out_n (\<lambda>p. p - 1) b m (Suc k) pos (rev (take pos text))"
    using assms(3,4) by (simp add: find_nth_open_pair_def n)
  have "find_nth_open_pair text b m pos n = Some i \<longleftrightarrow>
      (\<exists>j. j < pos \<and> text ! j = b \<and>
        (i = ((\<lambda>p. p - 1) ^^ Suc (length (rev (slice text (j + 1) pos)))) pos \<and>
         depth b m 0 (rev (rev (slice text (j + 1) pos))) = Some k))"
    unfolding f step_out_n_iff [OF assms(1)] take_split [OF less_imp_le [OF assms(3)]] by (rule refl)
  also have "\<dots> \<longleftrightarrow> (\<exists>j. j < pos \<and> text ! j = b \<and> i = j \<and> depth b m 0 (slice text (j + 1) pos) = Some k)"
    using assms(3) by (intro ex_cong1) (auto simp: step_back length_slice)
  finally show ?thesis unfolding n by auto
qed

lemma nth_close_iff:
  assumes "b \<noteq> m" "1 \<le> n" "pos < length text" "text ! pos \<noteq> m"
  shows "find_nth_close_pair text b m pos n = Some c \<longleftrightarrow>
    pos < c \<and> c < length text \<and> text ! c = m \<and> depth b m (n - 1) (slice text (pos + 1) c) = Some 0"
proof -
  obtain k where n: "n = Suc k" using assms(2) by (cases n) auto
  have f: "find_nth_close_pair text b m pos n = step_out_n (\<lambda>p. p + 1) m b (Suc k) pos (drop (pos + 1) text)"
    using assms(3,4) by (simp add: find_nth_close_pair_def n)
  have "find_nth_close_pair text b m pos n = Some c \<longleftrightarrow>
      (\<exists>j. pos + 1 \<le> j \<and> j < length text \<and> text ! j = m \<and>
        (c = ((\<lambda>p. p + 1) ^^ Suc (length (slice text (pos + 1) j))) pos \<and>
         depth m b 0 (rev (slice text (pos + 1) j)) = Some k))"
    unfolding f step_out_n_iff [OF assms(1) [symmetric]] drop_split by (rule refl)
  also have "\<dots> \<longleftrightarrow> (\<exists>j. pos + 1 \<le> j \<and> j < length text \<and> text ! j = m \<and> c = j \<and> depth b m k (slice text (pos + 1) j) = Some 0)"
    by (intro ex_cong1) (auto simp: move_on length_slice depth_rev [OF assms(1)])
  finally show ?thesis unfolding n by auto
qed

section \<open>Brackets and their partners\<close>

lemma table_checked:
  "list_all (\<lambda>(b, m). b \<noteq> m \<and> get_pair b = (b, m) \<and> get_pair m = (b, m) \<and> is_open_bracket b \<and> is_close_bracket m \<and>
     \<not> is_open_bracket m \<and> is_valid_bracket b \<and> is_valid_bracket m) BRACKETS"
  by (simp add: BRACKETS_def PAIRS_def get_pair_def is_open_bracket_def is_close_bracket_def is_valid_bracket_def)

lemma bracket_table:
  assumes "(b, m) \<in> set BRACKETS"
  shows "b \<noteq> m" "get_pair b = (b, m)" "get_pair m = (b, m)" "is_open_bracket b" "is_close_bracket m" "\<not> is_open_bracket m"
    "is_valid_bracket b" "is_valid_bracket m"
  using table_checked assms unfolding list_all_iff by fastforce+

lemma valid_bracket_cases:
  assumes "is_valid_bracket c"
  obtains (opens) m where "(c, m) \<in> set BRACKETS" | (closes) b where "(b, c) \<in> set BRACKETS"
  using assms by (auto simp: is_valid_bracket_def list_ex_iff)

lemma close_bracket_cases:
  assumes "is_close_bracket c"
  obtains b where "(b, c) \<in> set BRACKETS"
  using assms by (auto simp: is_close_bracket_def list_ex_iff)

lemma bracket_unique:
  assumes "(b, m) \<in> set BRACKETS"
  shows "(b, m') \<in> set BRACKETS \<Longrightarrow> m = m'" "(b', m) \<in> set BRACKETS \<Longrightarrow> b = b'" "(m, m') \<notin> set BRACKETS"
  using bracket_table [OF assms] bracket_table [of b m'] bracket_table [of b' m] bracket_table [of m m'] by auto

text \<open>A pair of brackets that match, within reach of the scan.\<close>

definition bracket_match :: "str \<Rightarrow> nat \<Rightarrow> nat \<Rightarrow> bool" where
  "bracket_match text i j \<longleftrightarrow>
     i < j \<and> j < length text \<and> (text ! i, text ! j) \<in> set BRACKETS \<and> balanced (text ! i) (text ! j) (slice text (i + 1) j)"

lemma take_found:
  "(\<exists>w rest. take k ds = w @ m # rest \<and> q = f (length w) \<and> P w) \<longleftrightarrow>
   (\<exists>w rest. ds = w @ m # rest \<and> (q = f (length w) \<and> P w \<and> length w < k))"
proof
  assume "\<exists>w rest. take k ds = w @ m # rest \<and> q = f (length w) \<and> P w"
  then obtain w rest where w: "take k ds = w @ m # rest" "q = f (length w)" "P w" by blast
  have "ds = w @ m # rest @ drop k ds" using w(1) by (metis append_Cons append_assoc append_take_drop_id)
  moreover have "length w < k" using arg_cong [OF w(1), of length] by (simp add: min_def split: if_splits)
  ultimately show "\<exists>w rest. ds = w @ m # rest \<and> (q = f (length w) \<and> P w \<and> length w < k)" using w by blast
next
  assume "\<exists>w rest. ds = w @ m # rest \<and> (q = f (length w) \<and> P w \<and> length w < k)"
  then obtain w rest where w: "ds = w @ m # rest" "q = f (length w)" "P w" "length w < k" by blast
  then have "take k ds = w @ m # take (k - Suc (length w)) rest" by (simp add: take_Cons' Suc_diff_Suc)
  then show "\<exists>w rest. take k ds = w @ m # rest \<and> q = f (length w) \<and> P w" using w by blast
qed

lemma partner_forward:
  assumes "(b, m) \<in> set BRACKETS" "p < length text" "text ! p = b"
  shows "find_matching_bracket_plaintext text p = Some q \<longleftrightarrow> bracket_match text p q \<and> q - p \<le> MAX_PLAINTEXT_SCAN"
proof -
  note t = bracket_table [OF assms(1)]
  let ?ds = "take MAX_PLAINTEXT_SCAN (drop (p + 1) text)"
  have f: "find_matching_bracket_plaintext text p = map_option (\<lambda>i. p + i + 1) (scan_match b m 0 1 ?ds)"
    using assms t by (simp add: find_matching_bracket_plaintext_def get_char_def)
  have "find_matching_bracket_plaintext text p = Some q \<longleftrightarrow>
      (\<exists>w rest. ?ds = w @ m # rest \<and> q = p + length w + 1 \<and> balanced b m w)"
    unfolding f using scan_match_iff [OF t(1), of 1 0 ?ds] by (auto simp: balanced_def)
  also have "\<dots> \<longleftrightarrow> (\<exists>w rest. drop (p + 1) text = w @ m # rest \<and> (q = p + length w + 1 \<and> balanced b m w \<and> length w < MAX_PLAINTEXT_SCAN))"
    by (rule take_found)
  also have "\<dots> \<longleftrightarrow> (\<exists>c. p + 1 \<le> c \<and> c < length text \<and> text ! c = m \<and>
      (q = c \<and> balanced b m (slice text (p + 1) c) \<and> c - p \<le> MAX_PLAINTEXT_SCAN))"
    unfolding drop_split by (intro ex_cong1) (auto simp: length_slice)
  also have "\<dots> \<longleftrightarrow> p < q \<and> q < length text \<and> text ! q = m \<and> balanced b m (slice text (p + 1) q) \<and> q - p \<le> MAX_PLAINTEXT_SCAN"
    by auto
  also have "\<dots> \<longleftrightarrow> bracket_match text p q \<and> q - p \<le> MAX_PLAINTEXT_SCAN"
  proof -
    have "(text ! p, text ! q) \<in> set BRACKETS \<longleftrightarrow> text ! q = m" using bracket_unique(1) [OF assms(1)] assms(1,3) by metis
    then show ?thesis unfolding bracket_match_def using assms(3) by metis
  qed
  finally show ?thesis .
qed

lemma partner_backward:
  assumes "(b, m) \<in> set BRACKETS" "p < length text" "text ! p = m"
  shows "find_matching_bracket_plaintext text p = Some q \<longleftrightarrow> bracket_match text q p \<and> p - q \<le> MAX_PLAINTEXT_SCAN"
proof -
  note t = bracket_table [OF assms(1)]
  let ?ds = "take MAX_PLAINTEXT_SCAN (rev (take p text))"
  have f: "find_matching_bracket_plaintext text p = map_option (\<lambda>i. p - i - 1) (scan_match m b 0 1 ?ds)"
    using assms t by (simp add: find_matching_bracket_plaintext_def get_char_def)
  have "find_matching_bracket_plaintext text p = Some q \<longleftrightarrow>
      (\<exists>w rest. ?ds = w @ b # rest \<and> q = p - length w - 1 \<and> balanced m b w)"
    unfolding f using scan_match_iff [OF t(1) [symmetric], of 1 0 ?ds] by (auto simp: balanced_def)
  also have "\<dots> \<longleftrightarrow> (\<exists>w rest. rev (take p text) = w @ b # rest \<and> (q = p - length w - 1 \<and> balanced m b w \<and> length w < MAX_PLAINTEXT_SCAN))"
    by (rule take_found)
  also have "\<dots> \<longleftrightarrow> (\<exists>i. i < p \<and> text ! i = b \<and> (q = i \<and> balanced b m (slice text (i + 1) p) \<and> p - i \<le> MAX_PLAINTEXT_SCAN))"
    unfolding take_split [OF less_imp_le [OF assms(2)]]
    using assms(2) by (intro ex_cong1) (auto simp: length_slice balanced_rev [OF t(1)])
  also have "\<dots> \<longleftrightarrow> q < p \<and> text ! q = b \<and> balanced b m (slice text (q + 1) p) \<and> p - q \<le> MAX_PLAINTEXT_SCAN"
    by auto
  also have "\<dots> \<longleftrightarrow> bracket_match text q p \<and> p - q \<le> MAX_PLAINTEXT_SCAN"
  proof -
    have "(text ! q, text ! p) \<in> set BRACKETS \<longleftrightarrow> text ! q = b" using bracket_unique(2) [OF assms(1)] assms(1,3) by metis
    then show ?thesis unfolding bracket_match_def using assms(2,3) by metis
  qed
  finally show ?thesis .
qed

lemma partner_iff:
  "find_matching_bracket_plaintext text p = Some q \<longleftrightarrow>
   bracket_match text p q \<and> q - p \<le> MAX_PLAINTEXT_SCAN \<or> bracket_match text q p \<and> p - q \<le> MAX_PLAINTEXT_SCAN"
proof (cases "p < length text \<and> is_valid_bracket (text ! p)")
  case True
  then have "is_valid_bracket (text ! p)" by simp
  then show ?thesis
  proof (cases rule: valid_bracket_cases)
    case (opens m)
    have "\<not> bracket_match text q p" using bracket_unique(3) [of "text ! q" "text ! p" m] opens by (auto simp: bracket_match_def)
    then show ?thesis using partner_forward [OF opens, of p "text" q] True by auto
  next
    case (closes b)
    have "\<not> bracket_match text p q" using bracket_unique(3) [OF closes] by (auto simp: bracket_match_def)
    then show ?thesis using partner_backward [OF closes, of p "text" q] True by auto
  qed
next
  case False
  then have "find_matching_bracket_plaintext text p = None"
    by (auto simp: find_matching_bracket_plaintext_def get_char_def Let_def split: prod.splits)
  moreover have "\<not> bracket_match text p q" "\<not> bracket_match text q p"
    using False bracket_table(7,8) by (auto simp: bracket_match_def)
  ultimately show ?thesis by simp
qed

end
