(* ===== verification/SurroundLaws.thy ===== *)
theory SurroundLaws
  imports BracketLaws
begin

text \<open>
  Laws of the surrounding pairs: what the searches find, that their positions are those of a pair, and
  what adding, replacing and deleting pairs does to a text.
\<close>

section \<open>Enclosing pairs\<close>

definition encloses :: "str \<Rightarrow> uchar \<Rightarrow> uchar \<Rightarrow> nat \<Rightarrow> nat \<Rightarrow> nat \<Rightarrow> bool" where
  "encloses text b m p i j \<longleftrightarrow>
     i \<le> p \<and> p \<le> j \<and> i < j \<and> j < length text \<and> text ! i = b \<and> text ! j = m \<and> balanced b m (slice text (i + 1) j)"

lemma slice_around: "i \<le> p \<Longrightarrow> p < j \<Longrightarrow> j \<le> length text \<Longrightarrow> slice text i j = slice text i p @ text ! p # slice text (p + 1) j"
proof -
  assume a: "i \<le> p" "p < j" "j \<le> length text"
  have "slice text p j = text ! p # slice text (p + 1) j"
    using a Cons_nth_drop_Suc [of p "text"] by (simp add: slice_def) (metis Suc_diff_Suc take_Suc_Cons less_le_trans)
  then show ?thesis using a slice_trans [of i p j "text"] by simp
qed

lemma nth_pair_iff:
  assumes "b \<noteq> m" "1 \<le> n" "p < length text" "text ! p \<noteq> b" "text ! p \<noteq> m"
  shows "find_nth_open_pair text b m p n = Some i \<and> find_nth_close_pair text b m p n = Some j \<longleftrightarrow>
    encloses text b m p i j \<and> depth b m 0 (slice text (i + 1) p) = Some (n - 1)"
proof -
  have bal: "balanced b m (slice text (i + 1) j) \<longleftrightarrow> depth b m (n - 1) (slice text (p + 1) j) = Some 0"
    if "i < p" "p < j" "j < length text" "depth b m 0 (slice text (i + 1) p) = Some (n - 1)"
    using that assms(4,5) slice_around [of "i + 1" p j "text"] by (simp add: balanced_def level_append)
  show ?thesis
    unfolding nth_open_iff [OF assms(1-4)] nth_close_iff [OF assms(1-3,5)] encloses_def
    using bal assms(4,5) by (auto simp: le_less)
qed

text \<open>On a bracket of the pair, with count one.\<close>

lemma own_pair_iff:
  assumes "b \<noteq> m" "p < length text"
  shows "text ! p = b \<Longrightarrow> find_nth_open_pair text b m p 1 = Some i \<and> find_nth_close_pair text b m p 1 = Some j \<longleftrightarrow>
      encloses text b m p i j \<and> i = p"
    and "text ! p = m \<Longrightarrow> find_nth_open_pair text b m p 1 = Some i \<and> find_nth_close_pair text b m p 1 = Some j \<longleftrightarrow>
      encloses text b m p i j \<and> j = p"
proof -
  show "text ! p = b \<Longrightarrow> find_nth_open_pair text b m p 1 = Some i \<and> find_nth_close_pair text b m p 1 = Some j \<longleftrightarrow>
      encloses text b m p i j \<and> i = p"
    using nth_close_iff [of b m 1 p "text" j] assms
    by (auto simp: find_nth_open_pair_def encloses_def balanced_def)
  show "text ! p = m \<Longrightarrow> find_nth_open_pair text b m p 1 = Some i \<and> find_nth_close_pair text b m p 1 = Some j \<longleftrightarrow>
      encloses text b m p i j \<and> j = p"
    using nth_open_iff [of b m 1 p "text" i] assms
    by (auto simp: find_nth_close_pair_def encloses_def balanced_def)
qed

text \<open>The pairs around a position that is not on a bracket of the pair, by the depth at which it lies.\<close>

definition nth_enclosing :: "str \<Rightarrow> uchar \<Rightarrow> uchar \<Rightarrow> nat \<Rightarrow> nat \<Rightarrow> nat \<Rightarrow> nat \<Rightarrow> bool" where
  "nth_enclosing text b m p n i j \<longleftrightarrow>
     encloses text b m p i j \<and>
     (if text ! p = b then i = p else if text ! p = m then j = p else depth b m 0 (slice text (i + 1) p) = Some (n - 1))"

lemma find_pair_iff:
  assumes "b \<noteq> m" "1 \<le> n" "p < length text" "n = 1 \<or> text ! p \<noteq> b \<and> text ! p \<noteq> m"
  shows "find_nth_open_pair text b m p n = Some i \<and> find_nth_close_pair text b m p n = Some j \<longleftrightarrow> nth_enclosing text b m p n i j"
  using nth_pair_iff [OF assms(1-3)] own_pair_iff [OF assms(1,3)] assms(1,4)
  by (cases "text ! p = b"; cases "text ! p = m") (auto simp: nth_enclosing_def)

text \<open>The first is the innermost.\<close>

lemma depth_prefix: "depth b m d (u @ v) = Some e \<Longrightarrow> \<exists>k. depth b m d u = Some k"
  by (auto simp: level_append bind_eq_Some_conv)

lemma nth_enclosing_innermost:
  assumes "b \<noteq> m" "nth_enclosing text b m p 1 i j" "encloses text b m p i' j'" "text ! p \<noteq> b" "text ! p \<noteq> m"
  shows "i' \<le> i \<and> j \<le> j'"
proof
  have e: "encloses text b m p i j" "depth b m 0 (slice text (i + 1) p) = Some 0"
    using assms(2,4,5) by (simp_all add: nth_enclosing_def)
  have lt: "i < p" "p < j" "i' < p" "p < j'" "j < length text" "j' < length text"
    using e(1) assms(3-5) by (auto simp: encloses_def le_less)
  have out: "depth b m 0 (slice text (i' + 1) p @ text ! p # slice text (p + 1) j') = Some 0"
    using assms(3) lt slice_around [of "i' + 1" p j' "text"] by (simp add: encloses_def balanced_def)
  then obtain k where k: "depth b m 0 (slice text (i' + 1) p) = Some k" "depth b m k (slice text (p + 1) j') = Some 0"
    using assms(4,5) by (auto simp: level_append bind_eq_Some_conv)
  show "i' \<le> i"
  proof (rule ccontr)
    assume "\<not> i' \<le> i"
    then have "slice text (i + 1) p = slice text (i + 1) i' @ b # slice text (i' + 1) p"
      using lt assms(3) slice_around [of "i + 1" i' p "text"] by (simp add: encloses_def)
    then obtain d where "depth b m (d + 1) (slice text (i' + 1) p) = Some 0"
      using e(2) by (auto simp: level_append bind_eq_Some_conv)
    then show False using depth_shift [OF k(1), of "d + 1"] by simp
  qed
  have in_bal: "depth b m 0 (slice text (p + 1) j) = Some 0"
    using e lt slice_around [of "i + 1" p j "text"] assms(4,5) by (simp add: encloses_def balanced_def level_append)
  show "j \<le> j'"
  proof (rule ccontr)
    assume "\<not> j \<le> j'"
    then have "slice text (p + 1) j = slice text (p + 1) j' @ m # slice text (j' + 1) j"
      using lt assms(3) slice_around [of "p + 1" j' j "text"] by (simp add: encloses_def)
    then obtain e where e': "depth b m 0 (slice text (p + 1) j') = Some e" "depth b m e (m # slice text (j' + 1) j) = Some 0"
      using in_bal by (auto simp only: level_append bind_eq_Some_conv)
    then obtain d where d: "depth b m 0 (slice text (p + 1) j') = Some (Suc d)"
      using assms(1) by (cases e) auto
    then show False using depth_shift [OF d, of k] k(2) by simp
  qed
qed

section \<open>What the searches find\<close>

definition in_text :: "str \<Rightarrow> nat \<times> nat \<Rightarrow> bool" where
  "in_text text p \<longleftrightarrow> fst p \<noteq> snd p \<and> fst p < length text \<and> snd p < length text"

lemma directed_in_text [simp]: "in_text text (directed d p) = in_text text p"
  by (cases d) (auto simp: directed_def in_text_def)

lemma nth_on_line_back: "nth_on_line (\<lambda>p. p - 1) n ch q cs = Some r \<Longrightarrow> r \<le> q"
  by (induction "\<lambda>p::nat. p - 1" n ch q cs rule: nth_on_line.induct) (auto split: if_splits)

lemma nth_on_line_on: "nth_on_line (\<lambda>p. p + 1) n ch q cs = Some r \<Longrightarrow> q \<le> r \<and> r < q + length cs"
  by (induction "\<lambda>p::nat. p + 1" n ch q cs rule: nth_on_line.induct) (auto split: if_splits)

lemma on_line_pair:
  assumes "find_nth_char_on_line n text o1 pos Backward = Some i" "find_nth_char_on_line n text o2 pos Forward = Some j"
  shows "i < j \<and> j < length text"
proof -
  have "i \<le> pos - 1" using nth_on_line_back assms(1) by (auto simp: find_nth_char_on_line_def split: if_splits)
  moreover have "pos \<noteq> 0" using assms(1) by (cases "pos = 0") (simp_all add: find_nth_char_on_line_def split: if_splits)
  moreover have "pos \<le> j \<and> j < pos + length (drop pos text)" "pos \<le> length text"
    using nth_on_line_on [of n o2 pos "drop pos text" j] assms(2) by (auto simp: find_nth_char_on_line_def split: if_splits)
  ultimately show ?thesis by auto
qed

lemma first_pair_from_iff:
  "first_pair_from pos qs = Some (i, j) \<longleftrightarrow>
   (\<exists>k. 2 * k + 1 < length qs \<and> qs ! (2 * k) = i \<and> qs ! (2 * k + 1) = j \<and> pos \<le> j \<and> (\<forall>l<k. qs ! (2 * l + 1) < pos))"
proof (induction pos qs rule: first_pair_from.induct)
  case (1 pos q r qs)
  show ?case
  proof (cases "pos \<le> r")
    case True
    have zero: "k = 0" if "\<forall>l<k. (q # r # qs) ! (2 * l + 1) < pos" for k using that True by (cases k) (auto simp: All_less_Suc2)
    show ?thesis
    proof
      assume "first_pair_from pos (q # r # qs) = Some (i, j)"
      then show "\<exists>k. 2 * k + 1 < length (q # r # qs) \<and> (q # r # qs) ! (2 * k) = i \<and> (q # r # qs) ! (2 * k + 1) = j \<and>
          pos \<le> j \<and> (\<forall>l<k. (q # r # qs) ! (2 * l + 1) < pos)"
        using True by (intro exI [of _ 0]) auto
    qed (use True zero in fastforce)
  next
    case False
    have step: "(\<exists>k. P k) \<longleftrightarrow> P 0 \<or> (\<exists>k. P (Suc k))" for P :: "nat \<Rightarrow> bool" using nat.nchotomy by metis
    have "first_pair_from pos (q # r # qs) = Some (i, j) \<longleftrightarrow> first_pair_from pos qs = Some (i, j)" using False by simp
    also note 1 [OF False]
    finally show ?thesis using False by (subst step) (auto simp: All_less_Suc2)
  qed
qed auto

lemma line_quotes_sorted: "sorted_wrt (<) (line_quotes S ch l) \<and> (\<forall>i\<in>set (line_quotes S ch l). i < length (st_chars S))"
proof -
  have "length (takeWhile (\<lambda>c. \<not> line_break c) (drop l (st_chars S))) \<le> length (st_chars S) - l"
    using length_takeWhile_le [of _ "drop l (st_chars S)"] by simp
  then show ?thesis by (auto simp: line_quotes_def Let_def sorted_wrt_filter)
qed

lemma quote_pair_in_text:
  assumes "find_quote_pair_on_line S ch pos = Some (i, j)"
  shows "i < j \<and> j < length (st_chars S)"
proof -
  let ?qs = "line_quotes S ch (quote_line_start S pos)"
  obtain k where k: "2 * k + 1 < length ?qs" "?qs ! (2 * k) = i" "?qs ! (2 * k + 1) = j"
    using assms unfolding find_quote_pair_on_line_def first_pair_from_iff by blast
  then have "i < j" using line_quotes_sorted [of S ch "quote_line_start S pos"] sorted_wrt_nth_less [of "(<)" ?qs "2 * k" "2 * k + 1"] by simp
  moreover have "j \<in> set ?qs" using k by (metis nth_mem)
  ultimately show ?thesis using line_quotes_sorted by blast
qed

lemma nth_open_le: "find_nth_open_pair text b m p n = Some i \<Longrightarrow> b \<noteq> m \<Longrightarrow> 1 \<le> n \<Longrightarrow> i \<le> p \<and> p < length text \<and> (i = p \<longrightarrow> text ! p = b)"
  using nth_open_iff [of b m n p "text" i] by (cases "text ! p = b") (auto simp: find_nth_open_pair_def split: if_splits)

lemma nth_close_ge: "find_nth_close_pair text b m p n = Some j \<Longrightarrow> b \<noteq> m \<Longrightarrow> 1 \<le> n \<Longrightarrow> p \<le> j \<and> j < length text \<and> (j = p \<longrightarrow> text ! p = m)"
  using nth_close_iff [of b m n p "text" j] by (cases "text ! p = m") (auto simp: find_nth_close_pair_def split: if_splits)

lemma find_nth_pairs_in_text:
  assumes "find_nth_pairs_pos None S ch rng n = Some (Inr p)" "1 \<le> n"
  shows "in_text (st_chars S) p"
proof -
  let ?t = "st_chars S" and ?pos = "r_cursor (st_api S) rng"
  obtain b m where bm: "get_pair ch = (b, m)" by (cases "get_pair ch")
  show ?thesis
  proof (cases "b = m")
    case True
    have "in_text ?t (i, j)" if "find_nth_char_on_line n ?t m ?pos Backward = Some i" "find_nth_char_on_line n ?t m ?pos Forward = Some j"
      for i j using on_line_pair [OF that] by (simp add: in_text_def)
    moreover have "in_text ?t (i, j)" if "find_quote_pair_on_line S m ?pos = Some (i, j)" for i j
      using quote_pair_in_text [OF that] by (simp add: in_text_def)
    moreover have "in_text ?t (?pos, q) \<and> in_text ?t (q, ?pos)" if "find_matching_bracket_plaintext ?t ?pos = Some q" for q
      using that unfolding partner_iff by (auto simp: bracket_match_def in_text_def)
    ultimately show ?thesis
      using assms(1) True
      by (auto simp: find_nth_pairs_pos_def bm Let_def opt_zip_def
          split: if_splits option.splits sum.splits prod.splits)
  next
    case False
    have "in_text ?t (i, j)" if "find_nth_open_pair ?t b m ?pos n = Some i" "find_nth_close_pair ?t b m ?pos n = Some j" for i j
      using nth_open_le [OF that(1) False assms(2)] nth_close_ge [OF that(2) False assms(2)] False
      by (auto simp: in_text_def)
    then show ?thesis
      using assms(1) False
      by (auto simp: find_nth_pairs_pos_def bm Let_def opt_zip_def split: if_splits option.splits)
  qed
qed

section \<open>The closest pair\<close>

lemma closest_plain_pair:
  assumes "closest_plain text rng skip (pos - 1) stack (drop pos text) = Inr p" "1 \<le> pos"
  shows "\<exists>i j. p = directed (r_direction rng) (i, j) \<and> bracket_match text i j \<and> i \<le> r_from rng + 1 \<and> r_to rng - 1 \<le> j \<and> pos \<le> j"
  using assms
proof (induction "length text - pos" arbitrary: pos skip stack)
  case 0
  then show ?case by simp
next
  case (Suc k)
  have lt: "pos < length text" using Suc.hyps(2) by simp
  let ?c = "text ! pos"
  have d: "drop pos text = ?c # drop (pos + 1) text" using lt by (simp add: Cons_nth_drop_Suc)
  have IH: "\<exists>i j. p = directed (r_direction rng) (i, j) \<and> bracket_match text i j \<and> i \<le> r_from rng + 1 \<and> r_to rng - 1 \<le> j \<and> pos \<le> j"
    if "closest_plain text rng skip' pos stack' (drop (pos + 1) text) = Inr p" for skip' stack'
    using Suc.hyps(1) [of "pos + 1" skip' stack'] Suc.hyps(2) that by fastforce
  obtain b m where bm: "get_pair ?c = (b, m)" by (cases "get_pair ?c")
  note step = Suc.prems(1) [unfolded d closest_plain.simps Let_def bm prod.case]
  have p1: "pos - 1 + 1 = pos" using Suc.prems(2) by simp
  note step = step [unfolded p1]
  show ?case
  proof (cases "is_open_bracket ?c \<or> \<not> is_close_bracket ?c \<or> stack \<noteq> [] \<and> hd stack = b")
    case True
    then show ?thesis using step by (auto dest: IH [simplified] split: if_splits)
  next
    case False
    then obtain b' where tab: "(b', ?c) \<in> set BRACKETS" by (blast elim: close_bracket_cases)
    have b: "b' = b" "m = ?c" "b \<noteq> ?c" using bracket_table(1,3) [OF tab] bm by auto
    show ?thesis
    proof (cases "find_nth_open_pair text b m pos 1")
      case None
      then show ?thesis using step False by (auto dest: IH [simplified])
    next
      case (Some i)
      then have "bracket_match text i pos"
        using nth_open_iff [of b ?c 1 pos "text" i] b lt tab by (auto simp: bracket_match_def balanced_def)
      then show ?thesis using step False Some by (auto dest: IH [simplified] split: if_splits)
    qed
  qed
qed

lemma closest_pair_sound:
  assumes "find_nth_closest_pairs_plain text rng skip = Some (Inr p)" "1 \<le> r_from rng"
  shows "\<exists>i j. p = directed (r_direction rng) (i, j) \<and> bracket_match text i j \<and> i \<le> r_from rng + 1 \<and> r_to rng - 1 \<le> j"
  using closest_plain_pair [of "text" rng skip "r_from rng"] assms
  by (fastforce simp: find_nth_closest_pairs_plain_def split: if_splits)

lemma bracket_match_in_text: "bracket_match text i j \<Longrightarrow> in_text text (i, j)"
  by (auto simp: bracket_match_def in_text_def)

section \<open>The positions of a selection\<close>

lemma pair_around_in_text:
  assumes "pair_around None S ch n rng = Some (Inr p)" "1 \<le> n" "ch = None \<Longrightarrow> 1 \<le> r_from rng"
  shows "in_text (st_chars S) p"
  using assms find_nth_pairs_in_text [of S _ rng n p] closest_pair_sound [of "st_chars S" rng n p] bracket_match_in_text
  by (cases ch) (auto simp: pair_around_def find_nth_closest_pairs_pos_def)

text \<open>What the loop collects: two positions of the text for each range, no position twice.\<close>

definition pair_positions :: "str \<Rightarrow> nat list \<Rightarrow> bool" where
  "pair_positions text ps \<longleftrightarrow> distinct ps \<and> even (length ps) \<and> (\<forall>p\<in>set ps. p < length text)"

lemma surround_pos_loop_positions:
  assumes "surround_pos_loop around acc rngs = Some (Inr ps)" "pair_positions text acc"
    "\<And>rng p. rng \<in> set rngs \<Longrightarrow> around rng = Some (Inr p) \<Longrightarrow> in_text text p"
  shows "pair_positions text ps \<and> length ps = length acc + 2 * length rngs"
  using assms
proof (induction around acc rngs rule: surround_pos_loop.induct)
  case (2 around acc rng rngs)
  obtain p where p: "around rng = Some (Inr p)" using "2.prems"(1) by (auto split: option.splits sum.splits)
  let ?r = "r_new (fst p) (snd p)"
  have ft: "r_from ?r < r_to ?r" "r_to ?r < length text" using "2.prems"(3) [OF _ p] by (auto simp: in_text_def r_from_def r_to_def r_new_def)
  have ok: "r_from ?r \<notin> set acc \<and> r_to ?r \<notin> set acc" "surround_pos_loop around (acc @ [r_from ?r, r_to ?r]) rngs = Some (Inr ps)"
    using "2.prems"(1) ft(1) by (auto simp: p Let_def min_def max_def split: if_splits)
  have "pair_positions text (acc @ [r_from ?r, r_to ?r])" using "2.prems"(2) ok(1) ft by (auto simp: pair_positions_def)
  then show ?case
    using "2.IH" [OF p refl refl refl] ok ft(1) "2.prems"(3) by (auto simp: min_def max_def split: if_splits)
qed simp

lemma surround_positions:
  assumes "get_surround_pos None S sel ch n = Some (Inr ps)" "1 \<le> n" "ch = None \<Longrightarrow> \<forall>r\<in>set (sel_ranges sel). 1 \<le> r_from r"
  shows "pair_positions (st_chars S) ps \<and> length ps = 2 * length (sel_ranges sel)"
  using surround_pos_loop_positions [of "pair_around None S ch n" "[]" "sel_ranges sel" ps "st_chars S"]
    pair_around_in_text [of S ch n] assms by (auto simp: get_surround_pos_def pair_positions_def)

end
