(* ===== verification/SurroundEdits.thy ===== *)
theory SurroundEdits
  imports SurroundLaws SelectionOps
begin

text \<open>
  What adding, replacing and deleting surrounding pairs does to the text of a document.
\<close>

section \<open>Changes at single positions\<close>

lemma tx_change_splice:
  assumes "rope_laws R contents" "changes_fit 0 cs (length (contents doc))"
  obtains t where "tx_change R doc cs = Some t" "\<And>sel. \<exists>edited. tx_apply R (with_selection t sel) doc = Some (edited, True) \<and>
      contents edited = splice cs 0 (contents doc)"
    "\<exists>edited. tx_apply R t doc = Some (edited, True) \<and> contents edited = splice cs 0 (contents doc)"
proof -
  obtain c where c: "from_changes R doc cs = Some c" "cs_exact c" "canonical (cs_changes c)"
    "cs_len c = length (contents doc)" "run (cs_changes c) (contents doc) = splice cs 0 (contents doc)"
    using from_changes_ok [OF assms] by blast
  have fits: "tx_fits t (contents doc) \<and> tx_run t (contents doc) = splice cs 0 (contents doc)"
    if "tx_changes t = c" for t
    using c that by (simp add: tx_fits_def tx_run_def cs_ok_exact)
  have "\<exists>edited. tx_apply R t doc = Some (edited, True) \<and> contents edited = splice cs 0 (contents doc)"
    if "tx_changes t = c" for t
    using tx_apply_run [OF assms(1), of t doc] fits [OF that] by metis
  then show ?thesis using that [of "tx_from c"] c(1) by (simp add: tx_change_def tx_from_def with_selection_def)
qed

definition at_points :: "(nat \<Rightarrow> str option) \<Rightarrow> nat list \<Rightarrow> change list" where
  "at_points h ps = map (\<lambda>p. (p, p + 1, h p)) ps"

definition text_with :: "(nat \<Rightarrow> str option) \<Rightarrow> nat list \<Rightarrow> str \<Rightarrow> nat \<Rightarrow> str" where
  "text_with h ps xs lst = concat (map (\<lambda>i. if i \<in> set ps then (case h i of Some s \<Rightarrow> s | None \<Rightarrow> []) else [xs ! i]) [lst..<length xs])"

lemma text_with_nil: "text_with h [] xs lst = drop lst xs"
proof -
  have "concat (map (\<lambda>i. [xs ! i]) is) = map ((!) xs) is" for "is" by (induction "is") auto
  moreover have "map ((!) xs) [lst..<length xs] = drop lst xs" by (intro nth_equalityI) simp_all
  ultimately show ?thesis by (simp add: text_with_def)
qed

lemma at_points_splice:
  "sorted_wrt (<) ps \<Longrightarrow> \<forall>p\<in>set ps. lst \<le> p \<and> p < length xs \<Longrightarrow> lst \<le> length xs \<Longrightarrow>
   changes_fit lst (at_points h ps) (length xs) \<and> splice (at_points h ps) lst xs = text_with h ps xs lst"
proof (induction ps arbitrary: lst)
  case Nil
  then show ?case by (simp add: at_points_def text_with_nil)
next
  case (Cons p ps)
  have IH: "changes_fit (p + 1) (at_points h ps) (length xs)" "splice (at_points h ps) (p + 1) xs = text_with h ps xs (p + 1)"
    using Cons.IH [of "p + 1"] Cons.prems by (simp_all add: Suc_le_eq)
  have split: "[lst..<length xs] = [lst..<p] @ p # [p + 1..<length xs]"
    using Cons.prems(2) upt_add_eq_append [of lst p "length xs - p"] by (simp add: upt_conv_Cons)
  have "concat (map (\<lambda>i. [xs ! i]) is) = map ((!) xs) is" for "is" by (induction "is") auto
  then have before: "concat (map (\<lambda>i. if i \<in> set (p # ps) then (case h i of Some s \<Rightarrow> s | None \<Rightarrow> []) else [xs ! i]) [lst..<p]) = take (p - lst) (drop lst xs)"
    using Cons.prems
    by (subst map_cong [OF refl, where g = "\<lambda>i. [xs ! i]"])
       (auto simp: take_map drop_map take_drop [symmetric] intro!: nth_equalityI)
  have after: "map (\<lambda>i. if i \<in> set (p # ps) then (case h i of Some s \<Rightarrow> s | None \<Rightarrow> []) else [xs ! i]) [p + 1..<length xs] =
      map (\<lambda>i. if i \<in> set ps then (case h i of Some s \<Rightarrow> s | None \<Rightarrow> []) else [xs ! i]) [p + 1..<length xs]"
    by (intro map_cong) auto
  have "text_with h (p # ps) xs lst = take (p - lst) (drop lst xs) @ (case h p of Some s \<Rightarrow> s | None \<Rightarrow> []) @ text_with h ps xs (p + 1)"
    unfolding text_with_def split map_append list.map(2) concat_append concat.simps before after by simp
  then show ?case using IH Cons.prems by (simp add: at_points_def)
qed

lemma points_edited:
  assumes "rope_laws R contents" "sorted_wrt (<) ps" "\<forall>p\<in>set ps. p < length (contents doc)"
  obtains t edited where "tx_change R doc (at_points h ps) = Some t" "tx_apply R t doc = Some (edited, True)"
    "contents edited = text_with h ps (contents doc) 0"
  using tx_change_splice [OF assms(1), of "at_points h ps" doc] at_points_splice [of ps 0 "contents doc" h] assms(2,3) that
  by (metis zero_le)

section \<open>Deleting and replacing\<close>

lemma sorted_positions: "distinct ps \<Longrightarrow> sorted_wrt (<) (sort ps)" for ps :: "nat list"
  by (simp add: strict_sorted_iff)

definition without :: "nat list \<Rightarrow> 'a list \<Rightarrow> 'a list" where
  "without ps xs = map ((!) xs) (filter (\<lambda>i. i \<notin> set ps) [0..<length xs])"

lemma text_with_none: "text_with (\<lambda>_. None) ps xs 0 = without ps xs"
proof -
  have "concat (map (\<lambda>i. if i \<in> set ps then [] else [xs ! i]) is) = map ((!) xs) (filter (\<lambda>i. i \<notin> set ps) is)" for "is"
    by (induction "is") auto
  then show ?thesis by (simp add: text_with_def without_def cong: if_cong)
qed

lemma surround_delete_edits:
  assumes "rope_laws R contents" "pair_positions (contents doc) ps"
  shows "\<exists>t edited. surround_delete R doc ps = Some t \<and> tx_apply R t doc = Some (edited, True) \<and> contents edited = without ps (contents doc)"
proof -
  have "\<forall>p\<in>set (sort ps). p < length (contents doc)" "sorted_wrt (<) (sort ps)"
    using assms(2) sorted_positions by (auto simp: pair_positions_def)
  moreover have "text_with (\<lambda>_. None) (sort ps) (contents doc) 0 = without ps (contents doc)"
    unfolding text_with_none by (simp add: without_def)
  moreover have "surround_delete R doc ps = tx_change R doc (at_points (\<lambda>_. None) (sort ps))"
    by (simp add: surround_delete_def at_points_def)
  ultimately show ?thesis using points_edited [OF assms(1)] by metis
qed

text \<open>The list of the positions with the character each gets, as the code sorts it.\<close>

definition with_pair :: "uchar \<Rightarrow> uchar \<Rightarrow> nat list \<Rightarrow> (nat \<times> uchar) list" where
  "with_pair opn cls ps = concat (map (\<lambda>(p, q). [(p, opn), (q, cls)]) (chunks2 ps))"

lemma with_pair_fst: "even (length ps) \<Longrightarrow> map fst (with_pair opn cls ps) = ps"
  by (induction ps rule: chunks2.induct) (auto simp: with_pair_def)

lemma with_pair_nth: "even (length ps) \<Longrightarrow> k < length ps \<Longrightarrow> with_pair opn cls ps ! k = (ps ! k, if even k then opn else cls)"
proof (induction ps arbitrary: k rule: chunks2.induct)
  case (1 x y xs)
  then have IH: "with_pair opn cls xs ! l = (xs ! l, if even l then opn else cls)" if "l < length xs" for l
    using that by simp
  consider "k = 0" | "k = 1" | l where "k = Suc (Suc l)" by (metis One_nat_def old.nat.exhaust)
  then show ?case using 1 IH by cases (auto simp: with_pair_def)
qed auto

lemma sort_keyed:
  fixes L :: "(nat \<times> uchar) list"
  assumes "distinct (map fst L)"
  shows "sort L = map (\<lambda>p. (p, the (map_of L p))) (sort (map fst L))"
proof (rule sorted_distinct_set_unique)
  show "sorted (map (\<lambda>p. (p, the (map_of L p))) (sort (map fst L)))"
    using sorted_positions [OF assms] by (auto simp: sorted_wrt_map less_eq_prod_def intro: sorted_wrt_mono_rel)
  show "distinct (map (\<lambda>p. (p, the (map_of L p))) (sort (map fst L)))"
    using assms by (auto simp: distinct_map intro: inj_onI)
  show "set (sort L) = set (map (\<lambda>p. (p, the (map_of L p))) (sort (map fst L)))"
    using assms by (force simp: image_iff)
qed (use assms in \<open>auto simp: distinct_map\<close>)

lemma surround_replace_edits:
  assumes "rope_laws R contents" "pair_positions (contents doc) ps" "get_pair ch = (opn, cls)"
  shows "\<exists>t edited. surround_replace R doc ps ch = Some t \<and> tx_apply R t doc = Some (edited, True) \<and>
    length (contents edited) = length (contents doc) \<and>
    (\<forall>k<length ps. contents edited ! (ps ! k) = (if even k then opn else cls)) \<and>
    (\<forall>i<length (contents doc). i \<notin> set ps \<longrightarrow> contents edited ! i = contents doc ! i)"
proof -
  let ?L = "with_pair opn cls ps" and ?xs = "contents doc"
  let ?h = "\<lambda>p. Some [the (map_of ?L p)]"
  have ps: "distinct ps" "even (length ps)" "\<forall>p\<in>set ps. p < length ?xs" using assms(2) by (simp_all add: pair_positions_def)
  have keys: "map fst ?L = ps" by (rule with_pair_fst [OF ps(2)])
  have "sort ?L = map (\<lambda>p. (p, the (map_of ?L p))) (sort ps)" using sort_keyed [of ?L] ps(1) unfolding keys by simp
  then have replace: "surround_replace R doc ps ch = tx_change R doc (at_points ?h (sort ps))"
    by (simp add: surround_replace_def assms(3) with_pair_def [symmetric] at_points_def comp_def)
  obtain t edited where t: "tx_change R doc (at_points ?h (sort ps)) = Some t" "tx_apply R t doc = Some (edited, True)"
    and ed: "contents edited = text_with ?h (sort ps) ?xs 0"
    using points_edited [OF assms(1) sorted_positions [OF ps(1)], of doc ?h] ps(3) by auto
  have e: "contents edited = map (\<lambda>i. if i \<in> set ps then the (map_of ?L i) else ?xs ! i) [0..<length ?xs]"
  proof -
    have "concat (map (\<lambda>i. if i \<in> set ps then [f i] else [g i]) is) = map (\<lambda>i. if i \<in> set ps then f i else g i) is"
      for f g and "is" :: "nat list" by (induction "is") auto
    then show ?thesis unfolding ed by (simp add: text_with_def cong: if_cong)
  qed
  have "map_of ?L (ps ! k) = Some (if even k then opn else cls)" if "k < length ps" for k
    using that with_pair_nth [OF ps(2) that, of opn cls] ps(1) keys
    by (intro map_of_is_SomeI) (auto simp: in_set_conv_nth intro!: exI [of _ k] dest: arg_cong [of _ _ length])
  then show ?thesis using ps(3) t unfolding replace e by (intro exI [of _ t] exI [of _ edited]) (auto simp: e)
qed

section \<open>Adding\<close>

definition ends :: "sel_range list \<Rightarrow> nat list" where
  "ends rs = concat (map (\<lambda>r. [r_from r, r_to r - 1]) rs)"

lemma directed_ends [simp]: "r_from (r_with_direction r d) = r_from r" "r_to (r_with_direction r d) = r_to r"
  by (auto simp: r_with_direction_def r_flip_def r_from_def r_to_def)

lemma slice_mid: "slice (u @ v @ w) (length u) (length u + length v) = v"
  by (simp add: slice_def)

lemma surround_add_loop_splice:
  assumes "wf_ranges rs" "\<forall>r\<in>set rs. lst \<le> r_from r \<and> r_to r \<le> length xs" "lst \<le> length xs" "length pre = offs + lst"
    "surround_add_loop [a] [b] 2 offs rs = (changes, ranges)"
  shows "changes_fit lst changes (length xs) \<and>
    (let ys = pre @ splice changes lst xs
     in changes_fit (offs + lst) (at_points (\<lambda>_. None) (ends ranges)) (length ys) \<and>
        splice (at_points (\<lambda>_. None) (ends ranges)) (offs + lst) ys = drop lst xs \<and>
        wf_ranges ranges \<and> length ranges = length rs \<and> (\<forall>r\<in>set ranges. offs + lst \<le> r_from r) \<and>
        list_all2 (\<lambda>r r'. slice ys (r_from r') (r_to r') = a # slice xs (r_from r) (r_to r) @ [b]) rs ranges)"
  using assms
proof (induction "[a]" "[b]" "2::nat" offs rs arbitrary: lst pre changes ranges rule: surround_add_loop.induct)
  case (1 offs)
  then show ?case by (simp add: ends_def at_points_def)
next
  case (2 offs r rs)
  let ?f = "r_from r" and ?t = "r_to r"
  obtain changes' ranges' where rec: "surround_add_loop [a] [b] 2 (offs + 2) rs = (changes', ranges')" by (cases "surround_add_loop [a] [b] 2 (offs + 2) rs")
  have ft: "lst \<le> ?f" "?f \<le> ?t" "?t \<le> length xs" using "2.prems"(2) by auto
  let ?pre = "pre @ take (?f - lst) (drop lst xs) @ [a] @ take (?t - ?f) (drop ?f xs) @ [b]"
  have mins: "min (length xs - lst) (?f - lst) = ?f - lst" "min (length xs - ?f) (?t - ?f) = ?t - ?f"
    using ft le_trans [OF ft(2,3)] by (simp_all add: min_absorb2 diff_le_mono)
  have len: "length ?pre = offs + 2 + ?t" using ft le_trans [OF ft(1,2)] "2.prems"(4) mins by simp
  have IH: "changes_fit ?t changes' (length xs)"
    "changes_fit (offs + 2 + ?t) (at_points (\<lambda>_. None) (ends ranges')) (length (?pre @ splice changes' ?t xs))"
    "splice (at_points (\<lambda>_. None) (ends ranges')) (offs + 2 + ?t) (?pre @ splice changes' ?t xs) = drop ?t xs"
    "wf_ranges ranges'" "length ranges' = length rs" "\<forall>r\<in>set ranges'. offs + 2 + ?t \<le> r_from r"
    "list_all2 (\<lambda>r r'. slice (?pre @ splice changes' ?t xs) (r_from r') (r_to r') = a # slice xs (r_from r) (r_to r) @ [b]) rs ranges'"
  proof -
    have "wf_ranges rs" "\<forall>r'\<in>set rs. ?t \<le> r_from r' \<and> r_to r' \<le> length xs" using "2.prems"(1,2) by (auto simp: before_def)
    note hyp = "2.hyps" [OF this ft(3) len rec, unfolded Let_def]
    show "changes_fit ?t changes' (length xs)"
      "changes_fit (offs + 2 + ?t) (at_points (\<lambda>_. None) (ends ranges')) (length (?pre @ splice changes' ?t xs))"
      "splice (at_points (\<lambda>_. None) (ends ranges')) (offs + 2 + ?t) (?pre @ splice changes' ?t xs) = drop ?t xs"
      "wf_ranges ranges'" "length ranges' = length rs" "\<forall>r\<in>set ranges'. offs + 2 + ?t \<le> r_from r"
      "list_all2 (\<lambda>r r'. slice (?pre @ splice changes' ?t xs) (r_from r') (r_to r') = a # slice xs (r_from r) (r_to r) @ [b]) rs ranges'"
      using hyp by blast+
  qed
  let ?Y = "?pre @ splice changes' ?t xs" and ?n = "r_with_direction (r_new (offs + ?f) (offs + ?t + 2)) (r_direction r)"
  have mm: "min (offs + ?f) (Suc (Suc (offs + ?t))) = offs + ?f" "max (offs + ?f) (Suc (Suc (offs + ?t))) = Suc (Suc (offs + ?t))"
    by (simp_all add: min_def max_def le_SucI)
  have n: "r_from ?n = offs + ?f" "r_to ?n = offs + ?t + 2" by (simp_all add: mm)
  have res: "changes = (?f, ?f, Some [a]) # (?t, ?t, Some [b]) # changes'" "ranges = ?n # ranges'"
    using "2.prems"(5) rec by simp_all
  have Y: "pre @ splice changes lst xs = ?Y" unfolding res by simp
  have e: "at_points (\<lambda>_. None) (ends ranges) = (offs + ?f, offs + ?f + 1, None) # (offs + ?t + 1, offs + ?t + 2, None) # at_points (\<lambda>_. None) (ends ranges')"
    by (simp add: res(2) ends_def at_points_def mm)
  have seg1: "take (offs + ?f - (offs + lst)) (drop (offs + lst) ?Y) = take (?f - lst) (drop lst xs)"
    using "2.prems"(4) ft mins by simp
  have seg2: "take (offs + ?t + 1 - (offs + ?f + 1)) (drop (offs + ?f + 1) ?Y) = take (?t - ?f) (drop ?f xs)"
  proof -
    have "?Y = (pre @ take (?f - lst) (drop lst xs) @ [a]) @ take (?t - ?f) (drop ?f xs) @ [b] @ splice changes' ?t xs" by simp
    moreover have "length (pre @ take (?f - lst) (drop lst xs) @ [a]) = offs + ?f + 1" using "2.prems"(4) ft mins by simp
    ultimately show ?thesis using ft by (simp only: append_eq_conv_conj [THEN iffD1, OF refl] drop_append) (simp add: min_absorb2)
  qed
  have glue: "take (?f - lst) (drop lst xs) @ take (?t - ?f) (drop ?f xs) @ drop ?t xs = drop lst xs"
    using ft slice_trans [of lst ?f ?t xs] by (metis append.assoc append_take_drop_id drop_drop le_add_diff_inverse2 slice_def)
  have spl: "splice (at_points (\<lambda>_. None) (ends ranges)) (offs + lst) ?Y = drop lst xs"
    using IH(3) glue unfolding e splice.simps seg1 seg2 by (simp add: add.commute add.left_commute)
  have "changes_fit (offs + lst) (at_points (\<lambda>_. None) (ends ranges)) (length ?Y)"
  proof -
    have s: "offs + ?t + 2 = offs + 2 + ?t" by simp
    have "offs + lst \<le> offs + ?f" "offs + ?f \<le> offs + ?f + 1" "offs + ?f + 1 \<le> offs + ?t + 1" "offs + ?t + 1 \<le> offs + 2 + ?t"
      using ft(1) by simp_all
    then show ?thesis using IH(2) unfolding e changes_fit.simps s by blast
  qed
  moreover have "wf_ranges ranges" "\<forall>r\<in>set ranges. offs + lst \<le> r_from r" "length ranges = length (r # rs)"
  proof -
    have later: "offs + ?f < r_from x \<and> offs + ?t + 2 \<le> r_from x \<and> offs + lst \<le> r_from x" if "x \<in> set ranges'" for x
      using bspec [OF IH(6) that] r_from_le_to [of r] ft(1) by linarith
    then show "wf_ranges ranges" "\<forall>r\<in>set ranges. offs + lst \<le> r_from r" "length ranges = length (r # rs)"
      using IH(4,5) ft(1) unfolding res(2) by (simp_all only: wf_ranges_simps before_def n list.set ball_simps list.size) simp_all
  qed
  moreover have "list_all2 (\<lambda>r r'. slice ?Y (r_from r') (r_to r') = a # slice xs (r_from r) (r_to r) @ [b]) (r # rs) ranges"
  proof -
    have "?Y = (pre @ take (?f - lst) (drop lst xs)) @ (a # slice xs ?f ?t @ [b]) @ splice changes' ?t xs"
      by (simp add: slice_def drop_take)
    moreover have "length (pre @ take (?f - lst) (drop lst xs)) = offs + ?f" "length (a # slice xs ?f ?t @ [b]) = ?t + 2 - ?f"
      using "2.prems"(4) ft mins r_from_le_to [of r] length_slice [OF ft(3), of ?f] by (simp_all del: r_from_le_to)
    moreover have "offs + ?t + 2 = (offs + ?f) + (?t + 2 - ?f)" using r_from_le_to [of r] by linarith
    ultimately have "slice ?Y (offs + ?f) (offs + ?t + 2) = a # slice xs ?f ?t @ [b]" using slice_mid by metis
    then show ?thesis using IH(7) unfolding res(2) by (simp only: list_all2_Cons n)
  qed
  moreover have "changes_fit lst changes (length xs)" using IH(1) ft by (simp add: res(1))
  ultimately show ?case using spl unfolding Y Let_def by blast
qed

text \<open>Adding a pair of brackets around each range, and deleting what stands at the ends of the ranges of the
  new selection.\<close>

lemma at_points_fit: "changes_fit lst (at_points h ps) n \<Longrightarrow> sorted ps \<and> (\<forall>p\<in>set ps. lst \<le> p)"
  by (induction ps arbitrary: lst) (fastforce simp: at_points_def)+

lemma surround_add_edits:
  assumes "rope_laws R contents" "sel_ok s" "\<forall>r\<in>set (sel_ranges s). r_to r \<le> length (contents doc)"
  shows "\<exists>t doc' s'. surround_add R doc s [a] [b] 2 = Some t \<and> tx_apply R t doc = Some (doc', True) \<and> tx_selection t = Some s' \<and> sel_ok s' \<and>
    list_all2 (\<lambda>r r'. slice (contents doc') (r_from r') (r_to r') = a # slice (contents doc) (r_from r) (r_to r) @ [b]) (sel_ranges s) (sel_ranges s') \<and>
    (\<exists>t' doc''. surround_delete R doc' (ends (sel_ranges s')) = Some t' \<and> tx_apply R t' doc' = Some (doc'', True) \<and> contents doc'' = contents doc)"
proof -
  let ?rs = "sel_ranges s" and ?xs = "contents doc"
  obtain changes ranges where loop: "surround_add_loop [a] [b] 2 0 ?rs = (changes, ranges)" by (cases "surround_add_loop [a] [b] 2 0 ?rs")
  have ok: "wf_ranges ?rs" "primary_index s < length ?rs" using assms(2) by (auto simp: sel_ok_def)
  have pre: "\<forall>r\<in>set ?rs. 0 \<le> r_from r \<and> r_to r \<le> length ?xs" "0 \<le> length ?xs" "length [] = 0 + 0" using assms(3) by auto
  note L = surround_add_loop_splice [OF ok(1) pre loop, simplified Let_def append_Nil add_0]
  have len: "length ranges = length ?rs" using L by blast
  let ?s' = "\<lparr>sel_ranges = ranges, primary_index = primary_index s\<rparr>"
  have s': "sel_ok ?s'" using L ok(2) by (simp add: sel_ok_def)
  have new: "sel_new ranges (primary_index s) = Some ?s'"
    using normalize_id [OF s'] len ok(2) by (auto simp: sel_new_def)
  obtain t doc' where t: "tx_change R doc changes = Some t" "tx_apply R (with_selection t ?s') doc = Some (doc', True)"
    "contents doc' = splice changes 0 ?xs"
    using tx_change_splice [OF assms(1), of changes doc] L by metis
  have fit: "changes_fit 0 (at_points (\<lambda>_. None) (ends ranges)) (length (contents doc'))" using L unfolding t(3) by blast
  obtain t' doc'' where t': "tx_change R doc' (at_points (\<lambda>_. None) (ends ranges)) = Some t'" "tx_apply R t' doc' = Some (doc'', True)"
    "contents doc'' = splice (at_points (\<lambda>_. None) (ends ranges)) 0 (contents doc')"
    using tx_change_splice [OF assms(1) fit] by metis
  have "sort (ends ranges) = ends ranges" using at_points_fit [OF fit] by (simp add: sorted_sort_id)
  then have del: "surround_delete R doc' (ends ranges) = Some t'" using t'(1) by (simp add: surround_delete_def at_points_def)
  have "contents doc'' = ?xs" unfolding t'(3) t(3) using L by simp
  moreover have "surround_add R doc s [a] [b] 2 = Some (with_selection t ?s')" using t(1) new loop by (simp add: surround_add_def)
  ultimately show ?thesis
    using L t(2,3) s' del t'(2)
    by (intro exI [of _ "with_selection t ?s'"] exI [of _ doc'] exI [of _ ?s']) (auto simp: with_selection_def)
qed

section \<open>Text objects\<close>

text \<open>The object \<open>around\<close> reaches from the first character of the pair past the second, the object
  \<open>inside\<close> from behind the first to the second; both keep the direction of the pair.\<close>

lemma textobject_pair_ranges:
  assumes "text_laws (st_api S) boundary" "t_len_chars (st_api S) = length (st_chars S)"
    "pair_around syntax S ch n rng = Some (Inr (a, h))" "in_text (st_chars S) (a, h)"
  shows "\<exists>r. textobject_pair_surround_impl syntax S rng Around ch n = Some r \<and> r_from r = min a h \<and>
      r_to r = next_grapheme_boundary (st_api S) (max a h) \<and> max a h < r_to r \<and> r_to r \<le> length (st_chars S)"
    and "next_grapheme_boundary (st_api S) (min a h) \<le> max a h \<Longrightarrow>
      \<exists>r. textobject_pair_surround_impl syntax S rng Inside ch n = Some r \<and> r_from r = next_grapheme_boundary (st_api S) (min a h) \<and>
      r_to r = max a h \<and> min a h < r_from r"
proof -
  have nxt: "i < next_grapheme_boundary (st_api S) i \<and> next_grapheme_boundary (st_api S) i \<le> length (st_chars S)"
    if "i < length (st_chars S)" for i using assms(1,2) that unfolding text_laws_def by metis
  have ne: "a \<noteq> h" and lt: "a < length (st_chars S)" "h < length (st_chars S)" using assms(4) by (auto simp: in_text_def)
  show "\<exists>r. textobject_pair_surround_impl syntax S rng Around ch n = Some r \<and> r_from r = min a h \<and>
      r_to r = next_grapheme_boundary (st_api S) (max a h) \<and> max a h < r_to r \<and> r_to r \<le> length (st_chars S)"
    using assms(3) ne nxt [OF lt(1)] nxt [OF lt(2)] by (simp add: textobject_pair_surround_impl_def)
  show "\<exists>r. textobject_pair_surround_impl syntax S rng Inside ch n = Some r \<and> r_from r = next_grapheme_boundary (st_api S) (min a h) \<and>
      r_to r = max a h \<and> min a h < r_from r" if "next_grapheme_boundary (st_api S) (min a h) \<le> max a h"
    using assms(3) ne nxt [OF lt(1)] nxt [OF lt(2)] that by (simp add: textobject_pair_surround_impl_def split: if_splits)
qed

end
