(* ===== verification/SurroundClaims.thy ===== *)
theory SurroundClaims
  imports SurroundEdits
begin

text \<open>
  Properties of brackets and surrounding pairs, with the inputs that show they apply.
\<close>

section \<open>The pairs of the positions\<close>

lemma chunks2_snoc: "even (length xs) \<Longrightarrow> chunks2 (xs @ [x, y]) = chunks2 xs @ [(x, y)]"
  by (induction xs rule: chunks2.induct) auto

lemma surround_pos_loop_pairs:
  assumes "surround_pos_loop around acc rngs = Some (Inr ps)" "even (length acc)" "\<forall>(i, j)\<in>set (chunks2 acc). Q i j"
    "\<And>rng p. rng \<in> set rngs \<Longrightarrow> around rng = Some (Inr p) \<Longrightarrow> Q (min (fst p) (snd p)) (max (fst p) (snd p))"
  shows "\<forall>(i, j)\<in>set (chunks2 ps). Q i j"
  using assms
proof (induction around acc rngs rule: surround_pos_loop.induct)
  case (2 around acc rng rngs)
  obtain p where p: "around rng = Some (Inr p)" using "2.prems"(1) by (auto split: option.splits sum.splits)
  let ?r = "r_new (fst p) (snd p)"
  have ft: "r_from ?r = min (fst p) (snd p)" "r_to ?r = max (fst p) (snd p)" by simp_all
  have rest: "surround_pos_loop around (acc @ [min (fst p) (snd p), max (fst p) (snd p)]) rngs = Some (Inr ps)"
    using "2.prems"(1) by (auto simp: p Let_def min_def max_def split: if_splits)
  have Q: "Q (min (fst p) (snd p)) (max (fst p) (snd p))" by (rule "2.prems"(4) [OF _ p]) simp
  have "min (r_from ?r) (r_to ?r) = min (fst p) (snd p)" "max (r_to ?r) (r_from ?r) = max (fst p) (snd p)" by (auto simp: min_def max_def)
  note IH = "2.IH" [OF p refl refl refl, unfolded this]
  show ?case
  proof (rule IH)
    show "\<not> (r_from ?r \<in> set acc \<or> r_to ?r \<in> set acc)" using "2.prems"(1) by (auto simp: p Let_def split: if_splits)
  qed (use rest "2.prems"(2-4) Q in \<open>auto simp: chunks2_snoc\<close>)
qed simp

lemma found_pair_matches:
  assumes "find_nth_pairs_pos (None :: 'n syntax_tree option) S c rng 1 = Some (Inr p)" "is_valid_bracket c"
  shows "bracket_match (st_chars S) (min (fst p) (snd p)) (max (fst p) (snd p))"
proof -
  obtain b m where bm: "(b, m) \<in> set BRACKETS" "get_pair c = (b, m)"
    using assms(2) by (cases rule: valid_bracket_cases) (use bracket_table(2,3) in blast)+
  have ne: "b \<noteq> m" by (rule bracket_table(1) [OF bm(1)])
  let ?t = "st_chars S" and ?pos = "r_cursor (st_api S) rng"
  obtain i j where ij: "find_nth_open_pair ?t b m ?pos 1 = Some i" "find_nth_close_pair ?t b m ?pos 1 = Some j"
    "p = directed (r_direction rng) (i, j)"
    using assms(1) ne by (auto simp: find_nth_pairs_pos_def bm(2) Let_def opt_zip_def split: if_splits option.splits)
  have "nth_enclosing ?t b m ?pos 1 i j"
    using find_pair_iff [OF ne, of 1 ?pos ?t i j] ij(1,2) nth_open_le [OF ij(1) ne] by simp
  then have "bracket_match ?t i j" using bm(1) by (auto simp: nth_enclosing_def encloses_def bracket_match_def)
  then show ?thesis unfolding ij(3) by (cases "r_direction rng") (auto simp: directed_def bracket_match_def)
qed

lemma surround_pairs_match:
  assumes "get_surround_pos (None :: 'n syntax_tree option) S sel ch n = Some (Inr ps)" "ch = None \<Longrightarrow> \<forall>r\<in>set (sel_ranges sel). 1 \<le> r_from r"
    "\<And>c. ch = Some c \<Longrightarrow> n = 1 \<and> is_valid_bracket c"
  shows "\<forall>(i, j)\<in>set (chunks2 ps). bracket_match (st_chars S) i j"
proof (rule surround_pos_loop_pairs)
  show "surround_pos_loop (pair_around (None :: 'n syntax_tree option) S ch n) [] (sel_ranges sel) = Some (Inr ps)"
    using assms(1) by (simp add: get_surround_pos_def)
  show "bracket_match (st_chars S) (min (fst p) (snd p)) (max (fst p) (snd p))"
    if r: "rng \<in> set (sel_ranges sel)" "pair_around (None :: 'n syntax_tree option) S ch n rng = Some (Inr p)" for rng p
  proof (cases ch)
    case None
    then have "find_nth_closest_pairs_plain (st_chars S) rng n = Some (Inr p)" "1 \<le> r_from rng"
      using r assms(2) by (simp_all add: pair_around_def find_nth_closest_pairs_pos_def)
    then obtain i j where "p = directed (r_direction rng) (i, j)" "bracket_match (st_chars S) i j"
      using closest_pair_sound by blast
    then show ?thesis by (cases "r_direction rng") (auto simp: directed_def bracket_match_def)
  next
    case (Some c)
    then show ?thesis using r(2) assms(3) [OF Some] found_pair_matches [of S c rng p] by (simp add: pair_around_def)
  qed
qed auto

lemma bracket_pairs_differ: "is_valid_bracket c \<Longrightarrow> get_pair c = (b, m) \<Longrightarrow> b \<noteq> m"
  using bracket_table(1-3) by (elim valid_bracket_cases) fastforce+

section \<open>Properties\<close>

text \<open>
  C39: Brackets that match.  The search for the partner of a bracket finds exactly the bracket
  of the same kind between which and it the text is balanced, when it lies within the scan; so the partner of
  the partner is the bracket itself.
\<close>

theorem bracket_partner:
  "(find_matching_bracket_plaintext text p = Some q \<longleftrightarrow>
      (bracket_match text p q \<or> bracket_match text q p) \<and> max p q - min p q \<le> MAX_PLAINTEXT_SCAN) \<and>
   (find_matching_bracket_plaintext text p = Some q \<longleftrightarrow> find_matching_bracket_plaintext text q = Some p)"
proof -
  have "bracket_match text i j \<Longrightarrow> max i j - min i j = j - i \<and> max j i - min j i = j - i" for i j
    by (simp add: bracket_match_def min_def max_def)
  then show ?thesis unfolding partner_iff by metis
qed

lemma step_out_n_numeral:
  "step_out_n move own other (numeral k) pos cs =
     (case step_out move own other 0 pos cs of None \<Rightarrow> None | Some (cs, pos) \<Rightarrow> step_out_n move own other (pred_numeral k) pos cs)"
  by (simp add: numeral_eq_Suc)

text \<open>The characters of the samples.\<close>

lemma sample_brackets:
  "get_pair 40 = (40, 41)" "get_pair 41 = (40, 41)" "get_pair 91 = (91, 93)" "get_pair 93 = (91, 93)"
  "list_all is_open_bracket [40, 91]" "list_all (\<lambda>c. \<not> is_open_bracket c) [41, 93, 97, 98, 99, 100, 101, 120]"
  "list_all is_close_bracket [41, 93]" "list_all (\<lambda>c. \<not> is_close_bracket c) [40, 91, 97, 98, 99, 100, 101, 120]"
  "list_all is_valid_bracket [40, 41, 91, 93]"
  by (simp_all add: get_pair_def PAIRS_def BRACKETS_def is_valid_bracket_def is_open_bracket_def is_close_bracket_def)

lemma sample_lits:
  "lit ''a(b[c]d)e'' = [97, 40, 98, 91, 99, 93, 100, 41, 101]" "lit ''ab[c]de'' = [97, 98, 91, 99, 93, 100, 101]"
  "lit ''((a))'' = [40, 40, 97, 41, 41]" "lit '')(x'' = [41, 40, 120]"
  by (simp_all add: lit_def)

lemmas search_defs = step_out_n_numeral sample_brackets [simplified]
  find_nth_open_pair_def find_nth_close_pair_def opt_zip_def directed_def r_direction_def r_new_def r_from_def r_to_def
  pair_around_def find_nth_closest_pairs_pos_def find_nth_closest_pairs_plain_def get_surround_pos_def

definition sample_surround :: surround_text where
  "sample_surround = \<lparr>st_api = sample_text, st_chars = lit ''a(b[c]d)e'', line_to_char = (\<lambda>_. 0), quote_escape = None\<rparr>"

text \<open>
  Finding a surrounding pair.  For a bracket and a range within the text the search
  gives the pair of that kind around the cursor at the wanted depth, in the direction of the range, and reports
  that there is none exactly when there is none; the first pair is the innermost.
\<close>

theorem surround_pair_found:
  assumes "is_valid_bracket c" "get_pair c = (b, m)" "text_laws (st_api S) boundary" "t_len_chars (st_api S) = length (st_chars S)"
    "r_to rng < length (st_chars S)" "1 \<le> n" "n = 1 \<or> st_chars S ! r_cursor (st_api S) rng \<notin> {b, m}"
  shows "(find_nth_pairs_pos (None :: 'n syntax_tree option) S c rng n = Some (Inr p) \<longleftrightarrow>
      (\<exists>i j. p = directed (r_direction rng) (i, j) \<and> nth_enclosing (st_chars S) b m (r_cursor (st_api S) rng) n i j)) \<and>
    (find_nth_pairs_pos (None :: 'n syntax_tree option) S c rng n = Some (Inl e) \<longleftrightarrow>
      e = PairNotFound \<and> (\<nexists>i j. nth_enclosing (st_chars S) b m (r_cursor (st_api S) rng) n i j)) \<and>
    (nth_enclosing (st_chars S) b m (r_cursor (st_api S) rng) 1 i j \<and> encloses (st_chars S) b m (r_cursor (st_api S) rng) i' j' \<and>
      st_chars S ! r_cursor (st_api S) rng \<notin> {b, m} \<longrightarrow> i' \<le> i \<and> j \<le> j')"
proof -
  let ?t = "st_chars S" and ?pos = "r_cursor (st_api S) rng"
  have ne: "b \<noteq> m" using bracket_pairs_differ assms(1,2) by blast
  have pos: "?pos < length ?t"
    using prev_boundary_le [OF assms(3), of "head rng"] assms(4,5) by (auto simp: r_cursor_def r_to_def)
  note found = find_pair_iff [OF ne assms(6) pos, unfolded insert_iff empty_iff]
  have eq: "find_nth_open_pair ?t b m ?pos n = Some i \<and> find_nth_close_pair ?t b m ?pos n = Some j \<longleftrightarrow>
      nth_enclosing ?t b m ?pos n i j" for i j using found assms(7) by auto
  have short: "\<not> nth_enclosing ?t b m ?pos n i j" if "length ?t < 2" for i j
    using that by (auto simp: nth_enclosing_def encloses_def)
  have res: "find_nth_pairs_pos (None :: 'n syntax_tree option) S c rng n =
      Some (if length ?t < 2 then Inl PairNotFound
       else case opt_zip (find_nth_open_pair ?t b m ?pos n) (find_nth_close_pair ?t b m ?pos n) of
         None \<Rightarrow> Inl PairNotFound | Some p \<Rightarrow> Inr (directed (r_direction rng) p))"
    using assms(2,5) ne by (simp add: find_nth_pairs_pos_def Let_def)
  have zip: "nth_enclosing ?t b m ?pos n i j \<longleftrightarrow> opt_zip (find_nth_open_pair ?t b m ?pos n) (find_nth_close_pair ?t b m ?pos n) = Some (i, j)" for i j
    unfolding eq [symmetric] by (auto simp: opt_zip_def split: option.splits)
  have "find_nth_pairs_pos (None :: 'n syntax_tree option) S c rng n = Some (Inr p) \<longleftrightarrow>
      (\<exists>i j. p = directed (r_direction rng) (i, j) \<and> nth_enclosing ?t b m ?pos n i j)"
    unfolding res using short unfolding zip by (auto split: option.splits)
  moreover have "find_nth_pairs_pos (None :: 'n syntax_tree option) S c rng n = Some (Inl e) \<longleftrightarrow> e = PairNotFound \<and> (\<nexists>i j. nth_enclosing ?t b m ?pos n i j)"
    unfolding res using short unfolding zip by (auto split: option.splits)
  moreover have "i' \<le> i \<and> j \<le> j'" if "nth_enclosing ?t b m ?pos 1 i j \<and> encloses ?t b m ?pos i' j' \<and> ?t ! ?pos \<notin> {b, m}"
    using nth_enclosing_innermost [OF ne, of ?t ?pos i j i' j'] that by simp
  ultimately show ?thesis by blast
qed

theorem surround_pair_found_witness:
  "\<exists>i j. nth_enclosing (st_chars sample_surround) (uc CHR ''('') (uc CHR '')'') 4 1 i j \<and> i \<le> 1"
proof -
  have pos: "r_cursor (st_api sample_surround) (r_new 4 5) = 4" by (simp add: sample_surround_def sample_text_def r_cursor_def r_new_def)
  have found: "find_nth_pairs_pos (None :: unit syntax_tree option) sample_surround (uc CHR '')'') (r_new 4 5) 1 = Some (Inr (1, 7))"
    unfolding find_nth_pairs_pos_def pos by (simp add: sample_surround_def search_defs sample_lits)
  have laws: "t_len_chars (st_api sample_surround) = length (st_chars sample_surround)" "text_laws (st_api sample_surround) (\<lambda>_. True)"
    "r_to (r_new 4 5) < length (st_chars sample_surround)" "is_valid_bracket (uc CHR '')'')" "get_pair (uc CHR '')'') = (uc CHR ''('', uc CHR '')'')"
    "st_chars sample_surround ! 4 \<notin> {uc CHR ''('', uc CHR '')''}"
    using sample_text_laws by (simp_all add: sample_surround_def sample_text_def sample_lits search_defs)
  have "find_nth_pairs_pos (None :: unit syntax_tree option) sample_surround (uc CHR '')'') (r_new 4 5) 1 = Some (Inr (1, 7)) \<longleftrightarrow>
      (\<exists>i j. (1, 7) = directed (r_direction (r_new 4 5)) (i, j) \<and>
        nth_enclosing (st_chars sample_surround) (uc CHR ''('') (uc CHR '')'') 4 1 i j)"
    using surround_pair_found [where 'n = unit, OF laws(4,5,2,1,3), of 1] pos by simp
  then have "\<exists>i j. (1, 7) = directed (r_direction (r_new 4 5)) (i, j) \<and>
      nth_enclosing (st_chars sample_surround) (uc CHR ''('') (uc CHR '')'') 4 1 i j"
    using found by blast
  then show ?thesis by (auto simp: directed_def r_direction_def r_new_def)
qed

text \<open>
  C40: Deleting and replacing surrounding pairs.  The positions collected for a selection are
  distinct, two for each range, and within the text; when brackets or the closest pair are asked for, they are
  matching brackets.  Deleting removes the characters at these positions and no others; replacing writes the
  new opening and closing character there and keeps the rest.
\<close>

theorem surround_pairs_edited:
  assumes "rope_laws R contents" "st_chars S = contents doc" "1 \<le> n" "get_surround_pos (None :: 'n syntax_tree option) S sel ch n = Some (Inr ps)"
    "ch = None \<longrightarrow> (\<forall>r\<in>set (sel_ranges sel). 1 \<le> r_from r)" "get_pair to_ch = (opn, cls)"
  shows "length ps = 2 * length (sel_ranges sel) \<and> distinct ps \<and> (\<forall>p\<in>set ps. p < length (contents doc)) \<and>
    ((case ch of None \<Rightarrow> True | Some c \<Rightarrow> n = 1 \<and> is_valid_bracket c) \<longrightarrow> (\<forall>(i, j)\<in>set (chunks2 ps). bracket_match (contents doc) i j)) \<and>
    (\<exists>t edited. surround_delete R doc ps = Some t \<and> tx_apply R t doc = Some (edited, True) \<and>
      contents edited = map ((!) (contents doc)) (filter (\<lambda>i. i \<notin> set ps) [0..<length (contents doc)])) \<and>
    (\<exists>t edited. surround_replace R doc ps to_ch = Some t \<and> tx_apply R t doc = Some (edited, True) \<and>
      length (contents edited) = length (contents doc) \<and>
      (\<forall>k<length ps. contents edited ! (ps ! k) = (if even k then opn else cls)) \<and>
      (\<forall>i<length (contents doc). i \<notin> set ps \<longrightarrow> contents edited ! i = contents doc ! i))"
proof -
  have pos: "pair_positions (contents doc) ps" "length ps = 2 * length (sel_ranges sel)"
    using surround_positions [OF assms(4,3)] assms(2,5) by auto
  have "(case ch of None \<Rightarrow> True | Some c \<Rightarrow> n = 1 \<and> is_valid_bracket c) \<longrightarrow> (\<forall>(i, j)\<in>set (chunks2 ps). bracket_match (contents doc) i j)"
    using surround_pairs_match [OF assms(4)] assms(2,5) by (cases ch) auto
  then show ?thesis
    using pos surround_delete_edits [OF assms(1) pos(1)] surround_replace_edits [OF assms(1) pos(1) assms(6)]
    unfolding pair_positions_def without_def by blast
qed

theorem surround_pairs_edited_witness:
  "get_surround_pos (None :: unit syntax_tree option) sample_surround \<lparr>sel_ranges = [r_new 4 5], primary_index = 0\<rparr> None 2 = Some (Inr [1, 7]) \<and>
   (\<exists>t edited. surround_delete list_rope (lit ''a(b[c]d)e'') [1, 7] = Some t \<and>
     tx_apply list_rope t (lit ''a(b[c]d)e'') = Some (edited, True) \<and> edited = lit ''ab[c]de'')"
proof -
  let ?sel = "\<lparr>sel_ranges = [r_new 4 5], primary_index = 0\<rparr>"
  have found: "get_surround_pos (None :: unit syntax_tree option) sample_surround ?sel None 2 = Some (Inr [1, 7])"
    by (simp add: sample_surround_def search_defs sample_lits)
  show ?thesis
    using surround_pairs_edited [where 'n = unit, OF list_rope_laws, of sample_surround "lit ''a(b[c]d)e''" 2 ?sel None "[1, 7]" 0 0 0] found
    by (simp add: sample_surround_def) (auto simp: sample_lits get_pair_def PAIRS_def BRACKETS_def upt_rec)
qed

text \<open>
  Adding surrounding pairs.  Every range of the new selection holds the text of its old
  range between the two characters; deleting what stands at the ends of the new ranges restores the text.
\<close>

theorem surround_add_then_delete:
  assumes "rope_laws R contents" "sel_ok s" "\<forall>r\<in>set (sel_ranges s). r_to r \<le> length (contents doc)"
  shows "\<exists>t doc' s'. surround_add R doc s [a] [b] 2 = Some t \<and> tx_apply R t doc = Some (doc', True) \<and> tx_selection t = Some s' \<and> sel_ok s' \<and>
    list_all2 (\<lambda>r r'. slice (contents doc') (r_from r') (r_to r') = a # slice (contents doc) (r_from r) (r_to r) @ [b]) (sel_ranges s) (sel_ranges s') \<and>
    (\<exists>t' doc''. surround_delete R doc' (concat (map (\<lambda>r. [r_from r, r_to r - 1]) (sel_ranges s'))) = Some t' \<and>
      tx_apply R t' doc' = Some (doc'', True) \<and> contents doc'' = contents doc)"
  using surround_add_edits [OF assms, of a b] unfolding ends_def .

theorem surround_add_then_delete_witness:
  "\<exists>t doc'. surround_add list_rope [0, 1, 2, 3, 4, 5, 6, 7, 8, 9] sample_selection [40] [41] 2 = Some t \<and>
    tx_apply list_rope t [0, 1, 2, 3, 4, 5, 6, 7, 8, 9] = Some (doc', True)"
  using surround_add_then_delete [OF list_rope_laws sample_selection_ok, of "[0, 1, 2, 3, 4, 5, 6, 7, 8, 9]" 40 41]
  by (auto simp: sample_selection_def)

section \<open>Where the searches go wrong\<close>

text \<open>
  With a count of two and the cursor on a bracket the search pairs the bracket under the cursor with the
  partner of the next one.
\<close>

lemma second_pair_mismatched:
  "find_nth_pairs_pos (None :: unit syntax_tree option) (sample_surround\<lparr>st_chars := lit ''((a))''\<rparr>) (uc CHR ''('') (r_new 1 2) 2 = Some (Inr (1, 4)) \<and>
   find_matching_bracket_plaintext (lit ''((a))'') 1 = Some 3"
  by (simp add: find_nth_pairs_pos_def find_matching_bracket_plaintext_def MAX_PLAINTEXT_SCAN_def get_char_def r_cursor_def
      sample_text_def sample_surround_def search_defs sample_lits)

text \<open>
  At the start of the text the closest pair is sought one position too late: an opening bracket that follows a
  lone closing one is paired with itself, and deleting this pair panics.
\<close>

lemma closest_pair_at_start:
  "get_surround_pos (None :: unit syntax_tree option) (sample_surround\<lparr>st_chars := lit '')(x''\<rparr>) \<lparr>sel_ranges = [r_new 0 1], primary_index = 0\<rparr> None 1 = Some (Inr [1, 1]) \<and>
   surround_delete list_rope (lit '')(x'') [1, 1] = None"
  by (simp add: surround_delete_def tx_change_def from_changes_def sample_surround_def search_defs sample_lits)

end
