(* ===== verification/Spec2Isabelle.thy ===== *)
theory Spec2Isabelle
  imports HistoryIO FoldClaims Patches DiffClaims CalendarLaws Windows CommandLaws SurroundClaims
begin

text \<open>
  A model of the editing core of zmax, a modal editor and IDE written in Rust, with the theorems that
  make it correct.

  \<^bold>\<open>The program and its parts.\<close>  A document is a rope of characters.  A command turns the
  selections of a view into a \<open>Transaction\<close>: a \<open>ChangeSet\<close> (a list of retain, delete and insert
  operations over the whole document) and, possibly, the selection to set afterwards.  The document
  applies it, maps every other selection through it, and commits it to the undo tree.  Beside that core
  the editor keeps code folds, which edits move along and which 'foldmethod' computes from the text, computes line diffs, three-way merges and
  patches for its version control views, edits and applies diffs, and has a calendar.  Its windows are the leaves of a tree of
  splits.  Commands jump between matching brackets and add, replace or delete the pairs around a selection.  A line typed at its prompt is cut into the words and flags of a command.  The theories, in the order in which they
  build on each other (all paths are relative to \<open>src/\<close>):

  \<^item> \<open>Prelude\<close>: text as lists of code points, the collections of simplification rules, facts on lists.
  \<^item> \<open>Rope\<close>: what the code uses of the third-party crate \<open>ropey\<close>, as a record of operations \<open>rope_api\<close>
    (a parameter of every definition that reads or writes a document) and the documented behaviour
    \<open>rope_laws\<close>: each operation acts on the text it represents and panics out of bounds.
  \<^item> \<open>ChangeSet\<close>, \<open>Compose\<close>, \<open>Changes\<close>, \<open>Positions\<close>: \<open>zmax-core/src/transaction.rs\<close>, the type
    \<open>ChangeSet\<close> with its builder, \<open>apply\<close>, \<open>invert\<close>, \<open>compose\<close>, \<open>from_changes\<close>, the change iterator, and
    \<open>update_positions\<close> with \<open>Assoc\<close>.  Shown: the builder keeps change sets canonical and of the right
    lengths; inverting undoes; composing applies both; \<open>from_changes\<close> is the splice of its changes and
    panics exactly where it asserts; mapping sorted positions together is mapping each alone.
  \<^item> \<open>Ranges\<close>, \<open>SubRange\<close>, \<open>Selection\<close>, \<open>SelectionOps\<close>: \<open>zmax-core/src/selection.rs\<close> and
    \<open>zmax-stdx/src/range.rs\<close>.  A selection is a list of ranges and a primary index; the invariant says
    that the ranges are sorted and apart and the index is in bounds.  Shown: \<open>normalize\<close> establishes it
    and keeps the characters covered; the operations keep it (\<open>transform_iter\<close> as long as the primary index
    stays within its results); union, intersection, complement and
    minus are the set operations; the linear walks decide the subset relation.
  \<^item> \<open>Transaction\<close>: the type \<open>Transaction\<close>, its constructors from selections, and its serialisable
    snapshots.
  \<^item> \<open>Editing\<close>: the locale \<open>editing\<close>, the contract between the core and a log of edits (an edit can be
    inverted on the document it was made for, and edits that follow one another compose), with the
    facts about logs of edits, and its interpretation on transactions.
  \<^item> \<open>History\<close>: \<open>zmax-core/src/history.rs\<close>, the undo tree as a vector of revisions with parent and last
    child.  The invariant relates every revision to a text: its transaction leads from the text of its
    parent to its own, its inversion back.  Shown: \<open>undo\<close>, \<open>redo\<close>, \<open>earlier\<close>, \<open>later\<close> and the jumps return
    and restore exactly the text of the target, by steps or by time; committing and \<open>:undojoin\<close> keep the invariant.
    \<open>HistoryIO\<close>: the snapshots that undo files hold, and the parser of the arguments of \<open>:earlier\<close> and
    \<open>:later\<close>, whose two regular expressions are parameters.
  \<^item> \<open>Folds\<close>: \<open>zmax-core/src/fold.rs\<close>.  The states that the fold commands reach (an inductive step
    relation) form a tree of ranges; creating, hiding, revealing, levels.
  \<^item> \<open>FoldTree\<close>, \<open>FoldTreeLaws\<close>, \<open>FoldBuild\<close>, \<open>FoldLevels\<close>, \<open>FoldMethods\<close>, \<open>FoldClaims\<close>:
    \<open>zmax-core/src/fold_tree.rs\<close>, the tree of nested folds that is derived from the levels of the lines,
    and the part of \<open>zmax-term/src/commands.rs\<close> that fills the folds of a document from it.  \<open>FoldTreeLaws\<close>
    says what each operation does to the depth of each line; in \<open>FoldBuild\<close> the locale \<open>level_lines\<close> is
    the contract of a level getter, under which the update of an empty tree builds the folds of the
    reference \<open>forest\<close>; \<open>FoldLevels\<close> shows that the getters for captured ranges (an interpretation),
    indents and markers fulfil it.  The program calls the update on an empty tree only; what it would
    make of an old one is modelled, and evaluated, but has no theorem.
  \<^item> \<open>MergeOps\<close>, \<open>Patches\<close>: \<open>zmax-core/src/merge_ops.rs\<close>.  The table of longest common subsequences
    against the optimum, the line and word diffs, the three-way merge as a refinement of an inductive
    specification of diff3, the conflict reconciler, parsing and applying unified diffs.  The locales
    \<open>matcher\<close>, \<open>exact_matcher\<close> and \<open>optimal_matcher\<close> say what the diffs and the merge need of the matching;
    \<open>lcs_pairs\<close> interprets the strongest.
  \<^item> \<open>DiffMode\<close>, \<open>DiffLaws\<close>, \<open>DiffContext\<close>, \<open>DiffClaims\<close>: \<open>zmax-core/src/diffmode.rs\<close>, the parser of diff
    mode, the edits of a diff's text and the application of its hunks.  The specification is a list of
    hunks with the unchanged lines before each (\<open>woven_old\<close>, \<open>woven_new\<close>) and the printed diff of them
    (\<open>patch_text\<close>).  Shown: the printed diff parses and takes the old text to the new one; reversed it
    takes it back, if its reversed lines do not read as headers; a split hunk makes the same text, a killed
    one is left out, a refreshed one of at most 2000 lines a side is minimal; diffs whose ranges and lines
    both formats can express are converted to context diffs and back.  The locale \<open>body_edit\<close> (an edit of a hunk's body that
    keeps the lengths of its sides) is interpreted on the refresh and on ignoring white space.
  \<^item> \<open>Calendar\<close>, \<open>OtherCalendars\<close>, \<open>CalendarLaws\<close>: \<open>zmax-core/src/calendar.rs\<close>.  Day numbers and dates,
    moves of the point date, ISO weeks, holidays, and nine more calendars.  The locale
    \<open>calendar_system\<close> (dates and day numbers correspond one to one) is interpreted on the Gregorian,
    Julian, Coptic, Ethiopic, Baha'i and Mayan conversions; \<open>month_table\<close>, the years of months of days
    whose dates are found by searching, gives it too (a sublocale) and is interpreted on the Islamic
    and the French Revolutionary ones.
  \<^item> \<open>F32\<close>, \<open>WindowTree\<close>, \<open>WindowStore\<close>, \<open>WindowLayout\<close>, \<open>WindowLaws\<close>, \<open>Windows\<close>:
    \<open>zmax-view/src/tree.rs\<close>, the tree of windows in a slot map of linked nodes, with every operation on
    it.  \<open>F32\<close> has the single precision arithmetic in which sizes are shared out, with its rounding;
    \<open>WindowStore\<close> the abstract tree that a store represents; \<open>WindowLayout\<close> shows that a layout tiles the
    screen without overlaps, \<open>WindowLaws\<close> that inserting, splitting and removing are changes of the
    abstract tree (the two directions of walking over the windows share the locale \<open>walker\<close>), \<open>Windows\<close>
    that all this holds in every reachable state.  The slot map is a parameter \<open>slot_api\<close> that hands out
    fresh keys.  The laws are for windows that are not pinned and for \<open>winheight\<close> and \<open>winwidth\<close> at their
    default 0, with at most 128 nodes, which keeps the rounding errors of the shares below one cell.
  \<^item> \<open>Brackets\<close>, \<open>BracketLaws\<close>, \<open>SurroundLaws\<close>, \<open>SurroundEdits\<close>, \<open>SurroundClaims\<close>:
    \<open>zmax-core/src/match_brackets.rs\<close> and \<open>surround.rs\<close>, the text objects of pairs in \<open>textobject.rs\<close> and
    the transactions of the commands on pairs in \<open>zmax-term/src/commands.rs\<close>.  The specification is the
    text between two brackets in which the depth never falls below zero and ends there (\<open>balanced\<close>).  Shown, for text without
    a syntax tree: the scan finds exactly the balanced partner; the searches find the enclosing pairs by
    depth; deleting and replacing change the characters of the pairs and no others, and deleting undoes
    adding.  The searches in a syntax tree are defined over a record of what the parser answers, with no
    laws; the climb through the tree and the search for the closest pair in it may run for ever.
  \<^item> \<open>CommandLine\<close>, \<open>CommandScan\<close>, \<open>CommandLaws\<close>: \<open>zmax-core/src/command_line.rs\<close>, the tokenizer of command
    lines, the checked argument list with its flags, and the texts of its errors.  The input is the
    bytes of a string in UTF-8; a slice that does not fall between characters panics, and what expands
    the tokens is a function parameter.  Shown: the tokenizer is a scanner of characters that never
    slices badly; words written with the code's quoting are read back, also as arguments; validation gives
    the same tokens up to the first that is in error, and a validated line stays within the bounds of its
    signature.

  \<^bold>\<open>Conventions.\<close>  A panic (a failed assertion, an index or a slice out of range, an unsigned subtraction
  below zero, an \<open>unwrap\<close> of nothing) is \<open>None\<close>; an error the code returns is a value of a sum or option
  type of its own.  A \<open>usize\<close> is a natural number whose subtractions are checked; where the code
  converts between \<open>usize\<close> and \<open>isize\<close>, or narrows an \<open>i64\<close>, the wrap-around is written out.  An addition
  that would need a document of \<open>2 ^ 64\<close> characters is taken to be exact.  A closure that the code calls
  in order is a function on a state it threads.  Character classes of the standard library that range
  over all of Unicode (\<open>is_alphanumeric\<close>, \<open>is_whitespace\<close>) and grapheme boundaries are parameters.
  \<open>sort_unstable\<close> is a stable sort: ranges that compare equal are merged by the step that follows it.

  \<^bold>\<open>Loops.\<close>  A loop that consumes its input is a structural or measured recursion.  The walks up the
  undo tree and the searches of the calendars are \<open>partial_function (option)\<close>, with no bound on their
  steps: that they return is part of the theorems.  The Mayan searches have the code's own bound, one
  full cycle, which is shown to be enough.

  \<^bold>\<open>Not modelled.\<close>  The terminal front end, its commands and rendering, the event loop, the language server
  and debug adapter clients, syntax highlighting (driven by a third-party parser), version control and
  file I/O; the commands on tables and on regions and the text engine, which stand beside the editing core;
  of the calendar the printed forms and the floating-point astronomy (moon phases, sunrise, the
  Chinese calendar); laws of the Hebrew and the Persian conversions, which are only defined; laws of the window operations
  that exchange, transpose or search in a direction and of saved layouts, which are only defined too.
\<close>

end
